(* ===== verification/Prelude.thy ===== *)
theory Prelude
  imports Complex_Main "HOL-Library.AList" "HOL-Library.Multiset"
begin

text \<open>
  Shared vocabulary of the development: how the Python values the sources use are
  represented, and the generic lemmas the component theories rest on.

  \<^item> A Python \<^verbatim>\<open>dict\<close> (insertion ordered) is an association list with distinct keys;
    \<open>d[k] = v\<close> is \<open>AList.update\<close>, which overwrites in place or appends at the end.
    A \<^verbatim>\<open>defaultdict\<close> or \<^verbatim>\<open>Counter\<close> update \<open>d[k] = f(d[k])\<close> is \<open>dict_upd\<close>.
  \<^item> A Python \<^verbatim>\<open>int\<close> is \<open>int\<close> (or \<open>nat\<close> where the source only builds it with
    \<^verbatim>\<open>len\<close>, counters from zero or \<^verbatim>\<open>enumerate\<close>).
  \<^item> A Python \<^verbatim>\<open>float\<close> is an element of an arbitrary \<open>linordered_field\<close>: the
    arithmetic is exact, rounding and NaN are outside the model. Concrete runs use \<open>rat\<close>.
  \<^item> A raised exception is an \<open>Inl\<close> of \<open>py_error\<close>.
\<close>

section \<open>Collections of rewrite rules\<close>

named_theorems dict_simps "look-ups in, and keys of, updated dictionaries"
named_theorems slice_simps "Python ranges and slices"

section \<open>Errors\<close>

datatype py_error =
    ValueError | KeyError | IndexError | ZeroDivisionError | AssertionError
  | NotImplementedError | JSONDecodeError | RuntimeError | TypeError | AttributeError | NameError
  | FileNotFoundError | HTTPError | SystemExit | PlainException

type_synonym 'a result = "py_error + 'a"

text \<open>Statement sequencing: the first error ends the computation.\<close>

fun bind_res :: "'a result \<Rightarrow> ('a \<Rightarrow> 'b result) \<Rightarrow> 'b result" where
  "bind_res (Inl e) f = Inl e"
| "bind_res (Inr x) f = f x"

text \<open>\<^verbatim>\<open>assert b\<close> before the rest of the body.\<close>

definition py_assert :: "bool \<Rightarrow> 'a result \<Rightarrow> 'a result" where
  "py_assert b r = (if b then r else Inl AssertionError)"

lemma bind_res_Inr_iff [simp]:
  "bind_res r f = Inr y \<longleftrightarrow> (\<exists>x. r = Inr x \<and> f x = Inr y)"
  by (cases r) auto

lemma py_assert_Inr_iff [simp]: "py_assert b r = Inr y \<longleftrightarrow> b \<and> r = Inr y"
  by (simp add: py_assert_def)

lemma py_assert_True [simp]: "py_assert True r = r"
  by (simp add: py_assert_def)

text \<open>Loops whose body may raise: over a state, and collecting results.\<close>

fun fold_res :: "('a \<Rightarrow> 's \<Rightarrow> 's result) \<Rightarrow> 'a list \<Rightarrow> 's \<Rightarrow> 's result" where
  "fold_res f [] s = Inr s"
| "fold_res f (x # xs) s = bind_res (f x s) (fold_res f xs)"

fun map_res :: "('a \<Rightarrow> 'b result) \<Rightarrow> 'a list \<Rightarrow> 'b list result" where
  "map_res f [] = Inr []"
| "map_res f (x # xs) = bind_res (f x) (\<lambda>y. bind_res (map_res f xs) (\<lambda>ys. Inr (y # ys)))"

lemma fold_res_Inr:
  assumes "\<And>x s. x \<in> set xs \<Longrightarrow> f x s = Inr (g x s)"
  shows "fold_res f xs s = Inr (fold g xs s)"
  using assms by (induction xs arbitrary: s) auto

lemma fold_res_append: "fold_res f (xs @ ys) s = bind_res (fold_res f xs s) (fold_res f ys)"
proof (induction xs arbitrary: s)
  case (Cons x xs)
  then show ?case by (cases "f x s") auto
qed simp

lemma map_res_Inr:
  assumes "\<And>x. x \<in> set xs \<Longrightarrow> f x = Inr (g x)"
  shows "map_res f xs = Inr (map g xs)"
  using assms by (induction xs) auto

lemma map_res_InrD:
  assumes "map_res f xs = Inr ys"
  shows "length ys = length xs \<and> (\<forall>i < length xs. f (xs ! i) = Inr (ys ! i))"
  using assms
proof (induction xs arbitrary: ys)
  case (Cons x xs)
  then show ?case by (auto simp: nth_Cons split: nat.splits)
qed simp

lemma map_res_map: "map_res f (map g xs) = map_res (\<lambda>x. f (g x)) xs"
  by (induction xs) auto

text \<open>\<^verbatim>\<open>xs[i]\<close>: a negative index counts from the end; out of range raises \<^verbatim>\<open>IndexError\<close>.\<close>

definition py_nth :: "'a list \<Rightarrow> int \<Rightarrow> 'a result" where
  "py_nth xs i =
     (let j = (if i < 0 then i + int (length xs) else i) in
      if 0 \<le> j \<and> j < int (length xs) then Inr (xs ! nat j) else Inl IndexError)"

lemma py_nth_nat: "i < length xs \<Longrightarrow> py_nth xs (int i) = Inr (xs ! i)"
  by (simp add: py_nth_def)

text \<open>The position a Python index denotes, for reads and writes at an index.\<close>

definition py_index :: "nat \<Rightarrow> int \<Rightarrow> nat result" where
  "py_index len i =
     (let j = (if i < 0 then i + int len else i) in
      if 0 \<le> j \<and> j < int len then Inr (nat j) else Inl IndexError)"

lemma py_index_nat: "0 \<le> i \<Longrightarrow> i < int len \<Longrightarrow> py_index len i = Inr (nat i)"
  by (simp add: py_index_def)

text \<open>\<^verbatim>\<open>a // b\<close> on integers: floor division, with an error for a zero divisor.\<close>

definition py_floordiv :: "int \<Rightarrow> int \<Rightarrow> int result" where
  "py_floordiv a b = (if b = 0 then Inl ZeroDivisionError else Inr (a div b))"

lemma py_floordiv_Inr [simp]: "b \<noteq> 0 \<Longrightarrow> py_floordiv a b = Inr (a div b)"
  by (simp add: py_floordiv_def)

text \<open>A comprehension whose body may raise and also updates a state, such as a generator.\<close>

fun map_state_res :: "('a \<Rightarrow> 's \<Rightarrow> ('b \<times> 's) result) \<Rightarrow> 'a list \<Rightarrow> 's \<Rightarrow> ('b list \<times> 's) result" where
  "map_state_res f [] s = Inr ([], s)"
| "map_state_res f (x # xs) s =
     bind_res (f x s) (\<lambda>(y, s'). bind_res (map_state_res f xs s') (\<lambda>(ys, s''). Inr (y # ys, s'')))"

lemma map_state_res_total:
  assumes "\<And>x s. x \<in> set xs \<Longrightarrow> \<exists>y s'. f x s = Inr (y, s') \<and> P x y"
  shows "\<exists>ys s'. map_state_res f xs s = Inr (ys, s') \<and> list_all2 P xs ys"
  using assms
proof (induction xs arbitrary: s)
  case (Cons x xs)
  from Cons.prems obtain y s1 where "f x s = Inr (y, s1)" "P x y" by force
  moreover from Cons obtain ys s2 where "map_state_res f xs s1 = Inr (ys, s2)" "list_all2 P xs ys"
    by force
  ultimately show ?case by simp
qed simp

lemma map_res_total:
  assumes "\<And>x. x \<in> set xs \<Longrightarrow> \<exists>y. f x = Inr y \<and> P x y"
  shows "\<exists>ys. map_res f xs = Inr ys \<and> list_all2 P xs ys"
  using assms
proof (induction xs)
  case (Cons x xs)
  then obtain y ys where "f x = Inr y" "P x y" "map_res f xs = Inr ys" "list_all2 P xs ys" by force
  then show ?case by simp
qed simp

section \<open>Dictionaries\<close>

type_synonym ('k, 'v) dict = "('k \<times> 'v) list"

definition dict_get :: "('k, 'v) dict \<Rightarrow> 'k \<Rightarrow> 'v \<Rightarrow> 'v" where
  "dict_get d k dflt = (case map_of d k of None \<Rightarrow> dflt | Some v \<Rightarrow> v)"

definition dict_keys :: "('k, 'v) dict \<Rightarrow> 'k list" where
  "dict_keys d = map fst d"

definition dict_upd :: "'k \<Rightarrow> 'v \<Rightarrow> ('v \<Rightarrow> 'v) \<Rightarrow> ('k, 'v) dict \<Rightarrow> ('k, 'v) dict" where
  "dict_upd k dflt f d = AList.update k (f (dict_get d k dflt)) d"

definition dict_ok :: "('k, 'v) dict \<Rightarrow> bool" where
  "dict_ok d \<longleftrightarrow> distinct (map fst d)"

lemma dict_ok_Nil [simp]: "dict_ok []"
  by (simp add: dict_ok_def)

lemma dict_ok_update [simp]: "dict_ok d \<Longrightarrow> dict_ok (AList.update k v d)"
  by (simp add: dict_ok_def distinct_update)

lemma dict_ok_upd [simp]: "dict_ok d \<Longrightarrow> dict_ok (dict_upd k dflt f d)"
  by (simp add: dict_upd_def)

lemma dict_get_Nil [dict_simps, simp]: "dict_get [] k dflt = dflt"
  by (simp add: dict_get_def)

lemma dict_get_update [dict_simps]:
  "dict_get (AList.update k v d) k' dflt = (if k = k' then v else dict_get d k' dflt)"
  by (simp add: dict_get_def update_conv')

lemma dict_get_upd [dict_simps]:
  "dict_get (dict_upd k dflt f d) k' dflt' =
     (if k = k' then f (dict_get d k dflt) else dict_get d k' dflt')"
  by (simp add: dict_upd_def dict_get_update)

lemma map_of_upd [dict_simps]:
  "map_of (dict_upd k dflt f d) k' = (if k = k' then Some (f (dict_get d k dflt)) else map_of d k')"
  by (simp add: dict_upd_def update_conv')

lemma keys_update [dict_simps]:
  "fst ` set (AList.update k v d) = insert k (fst ` set d)"
  by (simp add: dom_update)

lemma keys_upd [dict_simps]: "fst ` set (dict_upd k dflt f d) = insert k (fst ` set d)"
  by (simp add: dict_upd_def keys_update)

lemma dict_get_in:
  "dict_ok d \<Longrightarrow> (k, v) \<in> set d \<Longrightarrow> dict_get d k dflt = v"
  by (simp add: dict_get_def dict_ok_def)

lemma dict_get_notin: "k \<notin> fst ` set d \<Longrightarrow> dict_get d k dflt = dflt"
  by (simp add: dict_get_def map_of_eq_None_iff[THEN iffD2])

lemma dict_get_mem:
  assumes "k \<in> fst ` set d"
  shows "(k, dict_get d k dflt) \<in> set d"
proof -
  from assms obtain v where "map_of d k = Some v"
    by (metis map_of_eq_None_iff not_None_eq)
  then show ?thesis by (simp add: dict_get_def map_of_SomeD)
qed

text \<open>A dict display or comprehension: later pairs overwrite earlier ones.\<close>

definition dict_of_list :: "('k \<times> 'v) list \<Rightarrow> ('k, 'v) dict" where
  "dict_of_list xs = fold (\<lambda>(k, v). AList.update k v) xs []"

lemma update_notin: "k \<notin> fst ` set d \<Longrightarrow> AList.update k v d = d @ [(k, v)]"
  by (induction d) auto

lemma dict_of_list_append:
  "distinct (map fst (d @ xs)) \<Longrightarrow> fold (\<lambda>(k, v). AList.update k v) xs d = d @ xs"
proof (induction xs arbitrary: d)
  case (Cons x xs)
  then show ?case by (cases x) (auto simp: update_notin image_iff)
qed simp

lemma dict_of_list_distinct: "dict_ok xs \<Longrightarrow> dict_of_list xs = xs"
  using dict_of_list_append[of "[]" xs] by (simp add: dict_of_list_def dict_ok_def)

text \<open>The sum of the values of a numeric dictionary, as \<^verbatim>\<open>sum(d.values())\<close>.\<close>

definition dict_sum :: "('k, 'v::comm_monoid_add) dict \<Rightarrow> 'v" where
  "dict_sum d = sum_list (map snd d)"

lemma dict_sum_Nil [simp]: "dict_sum [] = 0"
  by (simp add: dict_sum_def)

lemma dict_sum_upd_add:
  fixes d :: "('k, 'v::comm_monoid_add) dict"
  shows "dict_sum (dict_upd k 0 (\<lambda>v. v + x) d) = dict_sum d + x"
  unfolding dict_sum_def dict_upd_def dict_get_def
  by (induction d) (auto simp: ac_simps split: option.splits)

lemma dict_sum_upd_nat:
  "dict_sum (dict_upd k (0::nat) (\<lambda>v. Suc v) d) = Suc (dict_sum d)"
  using dict_sum_upd_add[of k 1 d] by simp

section \<open>Ranges and slices\<close>

text \<open>\<^verbatim>\<open>range(n)\<close> and \<^verbatim>\<open>range(a, b)\<close>: empty when the stop is not above the start.\<close>

definition py_range :: "int \<Rightarrow> int list" where
  "py_range n = map int [0..<nat n]"

lemma set_py_range [slice_simps]: "set (py_range n) = {i. 0 \<le> i \<and> i < n}"
proof (rule set_eqI)
  fix x
  show "x \<in> set (py_range n) \<longleftrightarrow> x \<in> {i. 0 \<le> i \<and> i < n}"
    by (auto simp: py_range_def image_iff intro!: bexI[of _ "nat x"])
qed

lemma length_py_range [slice_simps]: "length (py_range n) = nat n"
  by (simp add: py_range_def)

lemma distinct_py_range [slice_simps]: "distinct (py_range n)"
  by (simp add: py_range_def distinct_map)

lemma py_range_nonpos [slice_simps]: "n \<le> 0 \<Longrightarrow> py_range n = []"
  by (simp add: py_range_def)

text \<open>
  \<^verbatim>\<open>xs[a:b]\<close> with Python's conventions: a negative bound counts from the end, and both
  bounds are clamped to the list.
\<close>

definition py_clamp :: "nat \<Rightarrow> int \<Rightarrow> nat" where
  "py_clamp len i = nat (min (int len) (if i < 0 then i + int len else i))"

definition py_slice :: "'a list \<Rightarrow> int \<Rightarrow> int \<Rightarrow> 'a list" where
  "py_slice xs a b =
     take (py_clamp (length xs) b - py_clamp (length xs) a) (drop (py_clamp (length xs) a) xs)"

lemma py_slice_nat [slice_simps]:
  assumes "i + n \<le> length xs"
  shows "py_slice xs (int i) (int i + int n) = take n (drop i xs)"
  using assms by (simp add: py_slice_def py_clamp_def min_def nat_add_distrib)

section \<open>Stable descending sort\<close>

text \<open>
  \<^verbatim>\<open>sorted(items, key=key, reverse=True)\<close>, which is what \<^verbatim>\<open>Counter.most_common()\<close> does:
  Python keeps the original order of equal keys also when it sorts in reverse, by
  reversing, sorting stably and reversing again.
\<close>

definition sort_desc :: "('a \<Rightarrow> 'b::linorder) \<Rightarrow> 'a list \<Rightarrow> 'a list" where
  "sort_desc key xs = rev (sort_key key (rev xs))"

lemma mset_sort_desc [simp]: "mset (sort_desc key xs) = mset xs"
  by (simp add: sort_desc_def)

lemma set_sort_desc [simp]: "set (sort_desc key xs) = set xs"
  by (simp add: sort_desc_def)

lemma length_sort_desc [simp]: "length (sort_desc key xs) = length xs"
  by (simp add: sort_desc_def)

lemma sort_desc_sorted: "sorted_wrt (\<lambda>x y. key y \<le> key x) (sort_desc key xs)"
proof -
  have "sorted_wrt (\<lambda>x y. key x \<le> key y) (sort_key key (rev xs))"
    using sorted_sort_key[of key "rev xs"] by (simp add: sorted_map)
  then show ?thesis by (simp add: sort_desc_def sorted_wrt_rev)
qed

lemma sort_desc_stable: "filter (\<lambda>x. key x = k) (sort_desc key xs) = filter (\<lambda>x. key x = k) xs"
  by (simp add: sort_desc_def flip: rev_filter) (simp add: sort_key_stable rev_filter)

lemma sum_list_sort_desc:
  fixes f :: "'a \<Rightarrow> 'c::comm_monoid_add"
  shows "sum_list (map f (sort_desc key xs)) = sum_list (map f xs)"
  by (metis mset_map mset_sort_desc sum_mset_sum_list)

lemma distinct_sort_desc: "distinct (map f (sort_desc key xs)) = distinct (map f xs)"
  by (metis mset_eq_imp_distinct_iff mset_map mset_sort_desc)

lemma dict_ok_sort_desc [simp]: "dict_ok (sort_desc key d) = dict_ok d"
  by (simp add: dict_ok_def distinct_sort_desc)

section \<open>\<^verbatim>\<open>int(s)\<close> on strings\<close>

text \<open>
  Decimal literals as \<^verbatim>\<open>int()\<close> reads them: surrounding white space, an optional sign and
  digits, with single underscores allowed between digits. \<open>None\<close> is \<^verbatim>\<open>ValueError\<close>.
\<close>

definition is_space :: "char \<Rightarrow> bool" where
  "is_space c \<longleftrightarrow> c \<in> {CHR '' '', CHR 0x09, CHR 0x0A, CHR 0x0B, CHR 0x0C, CHR 0x0D}"

definition strip :: "string \<Rightarrow> string" where
  "strip s = rev (dropWhile is_space (rev (dropWhile is_space s)))"

definition digit_val :: "char \<Rightarrow> int option" where
  "digit_val c = (let n = (of_char c :: int) in if 48 \<le> n \<and> n \<le> 57 then Some (n - 48) else None)"

text \<open>The flag says whether the previous character was a digit.\<close>

fun digits_val :: "bool \<Rightarrow> int \<Rightarrow> string \<Rightarrow> int option" where
  "digits_val after_digit acc [] = (if after_digit then Some acc else None)"
| "digits_val after_digit acc (c # cs) =
     (if c = CHR ''_'' then (if after_digit then digits_val False acc cs else None)
      else case digit_val c of
        None \<Rightarrow> None
      | Some d \<Rightarrow> digits_val True (10 * acc + d) cs)"

definition py_int :: "string \<Rightarrow> int option" where
  "py_int s = (case strip s of
      [] \<Rightarrow> None
    | c # cs \<Rightarrow>
        if c = CHR ''-'' then map_option uminus (digits_val False 0 cs)
        else if c = CHR ''+'' then digits_val False 0 cs
        else digits_val False 0 (c # cs))"

text \<open>\<^verbatim>\<open>str(i)\<close> for an integer: the decimal digits, with a sign for negative numbers.\<close>

fun nat_str :: "nat \<Rightarrow> string" where
  "nat_str n = (if n < 10 then [char_of (48 + n)] else nat_str (n div 10) @ [char_of (48 + n mod 10)])"

declare nat_str.simps [simp del]

definition py_str :: "int \<Rightarrow> string" where
  "py_str i = (if i < 0 then CHR ''-'' # nat_str (nat (- i)) else nat_str (nat i))"

definition digit_char :: "char \<Rightarrow> bool" where
  "digit_char c \<longleftrightarrow> 48 \<le> (of_char c :: nat) \<and> (of_char c :: nat) \<le> 57"

lemma digit_char_of: "d < 10 \<Longrightarrow> digit_char (char_of (48 + d :: nat))"
  by (simp add: digit_char_def)

lemma digit_val_of: "d < 10 \<Longrightarrow> digit_val (char_of (48 + d :: nat)) = Some (int d)"
proof -
  assume "d < 10"
  then have "(of_char (char_of (48 + d)) :: nat) = 48 + d" by simp
  then have "(of_char (char_of (48 + d)) :: int) = 48 + int d"
    by (metis of_nat_add of_nat_numeral of_nat_of_char)
  then show ?thesis using \<open>d < 10\<close> by (simp add: digit_val_def)
qed

lemma digit_char_not_special:
  assumes "digit_char c"
  shows "\<not> is_space c" and "c \<noteq> CHR ''_''" and "c \<noteq> CHR ''-''" and "c \<noteq> CHR ''+''"
  using assms by (auto simp: digit_char_def is_space_def)

lemma nat_str_digits: "c \<in> set (nat_str n) \<Longrightarrow> digit_char c"
proof (induction n rule: nat_str.induct)
  case (1 n)
  then show ?case
    by (cases "n < 10") (auto simp: nat_str.simps[of n] intro: digit_char_of)
qed

lemma nat_str_nonempty: "nat_str n \<noteq> []"
  by (simp add: nat_str.simps[of n])

lemma digits_val_nat_str:
  "digits_val b acc (nat_str n @ rest) =
     digits_val True (10 ^ length (nat_str n) * acc + int n) rest"
proof (induction n arbitrary: b acc rest rule: nat_str.induct)
  case (1 n)
  have d: "char_of (48 + n mod 10) \<noteq> CHR ''_''"
    by (rule digit_char_not_special(2)[OF digit_char_of]) simp
  show ?case
  proof (cases "n < 10")
    case True
    then show ?thesis
      using d by (simp add: nat_str.simps[of n] digit_val_of mult.commute)
  next
    case False
    have "int n = 10 * int (n div 10) + int (n mod 10)" by presburger
    with False 1 d show ?thesis
      by (simp add: nat_str.simps[of n] digit_val_of algebra_simps)
  qed
qed

lemma strip_no_space:
  assumes "s \<noteq> []" and "\<not> is_space (hd s)" and "\<not> is_space (last s)"
  shows "strip s = s"
proof -
  have "dropWhile is_space s = s" using assms by (cases s) auto
  moreover have "dropWhile is_space (rev s) = rev s"
    using assms by (cases "rev s") (auto simp: last_rev[symmetric] hd_rev)
  ultimately show ?thesis by (simp add: strip_def)
qed

lemma py_int_nat_str: "py_int (nat_str n) = Some (int n)"
proof -
  obtain c cs where s: "nat_str n = c # cs"
    using nat_str_nonempty[of n] by (cases "nat_str n") auto
  then have "digit_char c" using nat_str_digits[of c n] by simp
  note c = digit_char_not_special[OF this]
  have "\<not> is_space (last (nat_str n))"
    using digit_char_not_special(1)[OF nat_str_digits] nat_str_nonempty last_in_set by blast
  then have "strip (nat_str n) = nat_str n"
    using s c by (intro strip_no_space) (auto simp: nat_str_nonempty)
  then show ?thesis
    using s c digits_val_nat_str[of False 0 n "[]"] by (simp add: py_int_def)
qed

text \<open>A layer index printed with \<^verbatim>\<open>str\<close> is read back by \<^verbatim>\<open>int\<close>.\<close>

lemma py_int_str: "py_int (py_str i) = Some i"
proof (cases "i < 0")
  case False
  then show ?thesis by (simp add: py_str_def py_int_nat_str)
next
  case True
  have "\<not> is_space (last (nat_str (nat (- i))))"
    using digit_char_not_special(1)[OF nat_str_digits] nat_str_nonempty last_in_set by blast
  then have "strip (py_str i) = py_str i"
    using True by (intro strip_no_space) (auto simp: py_str_def nat_str_nonempty is_space_def)
  then show ?thesis
    using True digits_val_nat_str[of False 0 "nat (- i)" "[]"] by (simp add: py_int_def py_str_def)
qed

lemma inj_py_str: "inj py_str"
  by (metis injI option.inject py_int_str)

section \<open>Sums and lists\<close>

lemma sum_list_nat_le:
  "(\<And>x. x \<in> set xs \<Longrightarrow> f x \<le> g x) \<Longrightarrow> sum_list (map f xs) \<le> (sum_list (map g xs) :: nat)"
  by (induction xs) (auto intro: add_mono)

lemma sum_list_div:
  "sum_list (map (\<lambda>x. f x / t) xs) = (sum_list (map f xs) :: 'f::linordered_field) / t"
  by (induction xs) (simp_all add: add_divide_distrib)

lemma card_set_le_length: "card (set xs) \<le> length xs"
  by (rule card_length)

lemma ratio_unit_interval:
  fixes a b :: nat
  assumes "a \<le> b"
  shows "0 \<le> (of_nat a / of_nat b :: 'f::linordered_field)"
    and "(of_nat a / of_nat b :: 'f::linordered_field) \<le> 1"
  using assms by (auto simp: divide_le_eq_1)

lemma fold_invariant:
  assumes "P s" and "\<And>x s. x \<in> set xs \<Longrightarrow> P s \<Longrightarrow> P (f x s)"
  shows "P (fold f xs s)"
  using assms by (induction xs arbitrary: s) auto

lemma hd_filter:
  assumes "filter P xs \<noteq> []"
  shows "hd (filter P xs) \<in> set xs" and "P (hd (filter P xs))"
  using hd_in_set[OF assms] by auto

end
