(* ===== verification/Token_Records.thy ===== *)
theory Token_Records
  imports Prelude
begin

text \<open>
  The data the metric scripts read: one line of \<^verbatim>\<open>results_all.jsonl\<close> per generated token, as
  \<^verbatim>\<open>metric/postprocess/postprocessing_for_image_and_count.py\<close> writes it, and the loader the
  scripts share. A field the JSON object may lack (or that may be \<^verbatim>\<open>null\<close>) is an \<open>option\<close>.
  Values of another JSON type than the format documents are outside the model, except in
  \<open>weights\<close>, whose entries the code itself tests with \<^verbatim>\<open>isinstance\<close>.
\<close>

section \<open>Records\<close>

text \<open>
  An entry of a \<open>weights\<close> list. \<^verbatim>\<open>isinstance(w, (int, float))\<close> holds for numbers and for
  booleans (a \<^verbatim>\<open>bool\<close> is an \<^verbatim>\<open>int\<close> in Python); strings, \<^verbatim>\<open>null\<close>, arrays and objects are
  \<open>JOther\<close>.
\<close>

datatype 'f json_scalar = JInt int | JFloat 'f | JBool bool | JOther

fun py_float :: "'f::linordered_field json_scalar \<Rightarrow> 'f option" where
  "py_float (JInt i) = Some (of_int i)"
| "py_float (JFloat x) = Some x"
| "py_float (JBool b) = Some (if b then 1 else 0)"
| "py_float JOther = None"

record 'f layer_data =
  ld_expert_ids :: "int list option"
  ld_weights :: "'f json_scalar list option"
  ld_logits :: "'f list option"
  ld_next_expert_logit :: "'f option"

record 'f token_record =
  tr_layers :: "(string, 'f layer_data) dict option"
  tr_request_id :: "int option"
  tr_prompt :: "string option"

text \<open>\<^verbatim>\<open>layer_data.get("expert_ids", [])\<close> and the like; a \<^verbatim>\<open>null\<close> is as falsy as \<^verbatim>\<open>[]\<close>.\<close>

definition get_list :: "'a list option \<Rightarrow> 'a list" where
  "get_list x = (case x of None \<Rightarrow> [] | Some xs \<Rightarrow> xs)"

lemma get_list_simps [simp]: "get_list None = []" "get_list (Some xs) = xs"
  by (simp_all add: get_list_def)

text \<open>
  \<open>None\<close> says that the key \<^verbatim>\<open>layers\<close> is absent. A JSON null under the key, on which \<^verbatim>\<open>.items()\<close> raises, is not distinguished: the scripts
  that write these records always write an object.
\<close>

abbreviation layers_of :: "('f, 'z) token_record_scheme \<Rightarrow> (string, 'f layer_data) dict" where
  "layers_of r \<equiv> get_list (tr_layers r)"

text \<open>
  The pairs (layer index, layer data) of a record in the order of its keys, without the
  layers whose key is not an integer: the loop header all the scripts repeat,
  \<^verbatim>\<open>for layer_key, layer_data in layers.items(): try: layer_idx = int(layer_key) ...\<close>.
\<close>

definition int_layers :: "('f, 'z) token_record_scheme \<Rightarrow> (int \<times> 'f layer_data) list" where
  "int_layers r =
     List.map_filter (\<lambda>(k, ld). map_option (\<lambda>i. (i, ld)) (py_int k)) (layers_of r)"

text \<open>The same for a whole file: the flattened sequence of layer entries.\<close>

definition layer_entries :: "('f, 'z) token_record_scheme list \<Rightarrow> (int \<times> 'f layer_data) list" where
  "layer_entries rs = concat (map int_layers rs)"

lemma layer_entries_simps [simp]:
  "layer_entries [] = []"
  "layer_entries (r # rs) = int_layers r @ layer_entries rs"
  "layer_entries (rs @ rs') = layer_entries rs @ layer_entries rs'"
  by (simp_all add: layer_entries_def)

lemma fold_layer_entries:
  "fold (\<lambda>r s. fold f (int_layers r) s) rs s = fold f (layer_entries rs) s"
  by (induction rs arbitrary: s) auto

text \<open>\<^verbatim>\<open>expert_ids[0]\<close> of a layer entry, where there is one.\<close>

definition primary_expert :: "('f, 'z) layer_data_scheme \<Rightarrow> int option" where
  "primary_expert ld = (case get_list (ld_expert_ids ld) of [] \<Rightarrow> None | e # _ \<Rightarrow> Some e)"

section \<open>Loading a JSONL file\<close>

text \<open>
  \<open>loads\<close> stands for \<^verbatim>\<open>json.loads\<close>; \<open>None\<close> is \<^verbatim>\<open>json.JSONDecodeError\<close>. Blank lines and
  lines that do not parse are skipped.
\<close>

fun load_jsonl_data :: "(string \<Rightarrow> 'r option) \<Rightarrow> string list \<Rightarrow> 'r list" where
  "load_jsonl_data loads [] = []"
| "load_jsonl_data loads (line # lines) =
     (if strip line = [] then load_jsonl_data loads lines
      else case loads line of
        None \<Rightarrow> load_jsonl_data loads lines
      | Some r \<Rightarrow> r # load_jsonl_data loads lines)"

lemma load_jsonl_data_append:
  "load_jsonl_data loads (xs @ ys) = load_jsonl_data loads xs @ load_jsonl_data loads ys"
  by (induction xs) (auto split: option.splits)

text \<open>A file written one record per line is read back unchanged.\<close>

lemma load_jsonl_data_roundtrip:
  assumes "\<And>r. r \<in> set rs \<Longrightarrow> loads (dumps r) = Some r"
    and "\<And>r. r \<in> set rs \<Longrightarrow> strip (dumps r) \<noteq> []"
  shows "load_jsonl_data loads (map dumps rs) = rs"
  using assms by (induction rs) auto

end
