(* ===== verification/Postprocess.thy ===== *)
theory Postprocess
  imports Token_Records
begin

text \<open>
  Model of \<^verbatim>\<open>metric/postprocess/postprocessing_for_image_and_count.py\<close>: reading the inference
  results, aligning output tokens with the recorded expert choices (a whole file at once, or
  file by file), converting an aligned record to the \<^verbatim>\<open>results_all.jsonl\<close> format, counting
  expert selections, and the heat-map matrix. The tokenizer and \<^verbatim>\<open>json.loads\<close> are parameters.
  Plots, progress output and the files themselves are left out.
\<close>

section \<open>Inference results\<close>

text \<open>
  The parts of one inference line the code looks at. A missing field, a \<^verbatim>\<open>null\<close> and a value
  of the wrong container type are \<open>None\<close>.
\<close>

datatype 'f logprobs = LPList "'f list" | LPDict "'f list option"

record 'f choice =
  ch_token_ids :: "int list option"
  ch_logprobs :: "'f logprobs option"
  ch_content :: "string option"

record chat_message =
  cm_role :: "string option"
  cm_content :: "string option"

record 'f inference_line =
  il_choices :: "'f choice list option"
  il_generated_response :: "string option"
  il_messages :: "chat_message list option"

record 'f inference_result =
  ir_request_id :: nat
  ir_token_ids :: "int list"
  ir_token_logprobs :: "'f list"
  ir_messages :: "chat_message list option"

text \<open>\<^verbatim>\<open>tokenizer.encode\<close> with \<open>None\<close> for an exception, and \<^verbatim>\<open>tokenizer.decode\<close> likewise.\<close>

record tokenizer =
  tk_encode :: "string \<Rightarrow> int list option"
  tk_decode :: "int \<Rightarrow> string option"
  tk_eos_token_id :: "int option"
  tk_pad_token_id :: "int option"

definition line_token_ids :: "tokenizer option \<Rightarrow> 'f inference_line \<Rightarrow> int list" where
  "line_token_ids tokenizer data =
     (let choices = get_list (il_choices data);
          token_ids = (case choices of [] \<Rightarrow> [] | c # _ \<Rightarrow> get_list (ch_token_ids c))
      in if token_ids \<noteq> [] then token_ids
         else
           let generated = get_list (il_generated_response data);
               text = (if generated \<noteq> [] then generated
                       else case choices of [] \<Rightarrow> generated | c # _ \<Rightarrow> get_list (ch_content c))
           in if text = [] then []
              else case tokenizer of
                None \<Rightarrow> []
              | Some tk \<Rightarrow> (case tk_encode tk text of None \<Rightarrow> [] | Some ids \<Rightarrow> ids))"

definition line_logprobs :: "'f inference_line \<Rightarrow> 'f list" where
  "line_logprobs data =
     (case get_list (il_choices data) of
        [] \<Rightarrow> []
      | c # _ \<Rightarrow>
          (case ch_logprobs c of
             None \<Rightarrow> []
           | Some (LPList ps) \<Rightarrow> ps
           | Some (LPDict ps) \<Rightarrow> get_list ps))"

text \<open>
  The loop over the lines of the file; the request id is the zero-based line number, so
  skipped lines leave gaps. \<open>default_tokenizer\<close> is what \<^verbatim>\<open>AutoTokenizer.from_pretrained\<close> gives
  when no tokenizer was passed.
\<close>

fun load_inference_lines ::
  "(string \<Rightarrow> 'f inference_line option) \<Rightarrow> tokenizer option \<Rightarrow> nat \<Rightarrow> string list \<Rightarrow> 'f inference_result list" where
  "load_inference_lines loads tokenizer line_num [] = []"
| "load_inference_lines loads tokenizer line_num (line # lines) =
     (if strip line = [] then load_inference_lines loads tokenizer (Suc line_num) lines
      else case loads line of
        None \<Rightarrow> load_inference_lines loads tokenizer (Suc line_num) lines
      | Some data \<Rightarrow>
          let token_ids = line_token_ids tokenizer data in
          if token_ids = [] then load_inference_lines loads tokenizer (Suc line_num) lines
          else
            \<lparr>ir_request_id = line_num, ir_token_ids = token_ids,
             ir_token_logprobs = line_logprobs data, ir_messages = il_messages data\<rparr>
            # load_inference_lines loads tokenizer (Suc line_num) lines)"

definition load_inference_results ::
  "(string \<Rightarrow> 'f inference_line option) \<Rightarrow> tokenizer option \<Rightarrow> tokenizer option \<Rightarrow> string list \<Rightarrow>
     'f inference_result list" where
  "load_inference_results loads default_tokenizer tokenizer lines =
     load_inference_lines loads
       (case tokenizer of None \<Rightarrow> default_tokenizer | Some tk \<Rightarrow> Some tk) 0 lines"

fun extract_prompt_from_messages :: "chat_message list \<Rightarrow> string" where
  "extract_prompt_from_messages [] = []"
| "extract_prompt_from_messages (msg # msgs) =
     (if cm_role msg = Some ''user'' then get_list (cm_content msg)
      else extract_prompt_from_messages msgs)"

definition extract_prompt_from_original_data :: "chat_message list option \<Rightarrow> string" where
  "extract_prompt_from_original_data messages = extract_prompt_from_messages (get_list messages)"

section \<open>Token ranges of the requests\<close>

record token_info =
  ti_token_ids :: "int list"
  ti_boundaries :: "(nat \<times> nat) list"
  ti_prompts :: "string list"

text \<open>One request: its tokens are appended and its half-open range of positions recorded.\<close>

definition token_info_step :: "'f inference_result \<Rightarrow> token_info \<Rightarrow> token_info" where
  "token_info_step result ti =
     (let current_idx = length (ti_token_ids ti); token_ids = ir_token_ids result in
      if token_ids = [] then
        ti\<lparr>ti_boundaries := ti_boundaries ti @ [(current_idx, current_idx)],
           ti_prompts := ti_prompts ti @ [[]]\<rparr>
      else
        ti\<lparr>ti_prompts := ti_prompts ti @ [extract_prompt_from_original_data (ir_messages result)],
           ti_token_ids := ti_token_ids ti @ token_ids,
           ti_boundaries := ti_boundaries ti @ [(current_idx, current_idx + length token_ids)]\<rparr>)"

definition limit_requests :: "int option \<Rightarrow> 'a list \<Rightarrow> 'a list" where
  "limit_requests num_requests results =
     (let num = (case num_requests of None \<Rightarrow> int (length results) | Some n \<Rightarrow> n) in
      take (nat (min num (int (length results)))) results)"

definition prepare_token_info :: "'f inference_result list \<Rightarrow> int option \<Rightarrow> token_info" where
  "prepare_token_info inference_results num_requests =
     fold token_info_step (limit_requests num_requests inference_results)
       \<lparr>ti_token_ids = [], ti_boundaries = [], ti_prompts = []\<rparr>"

section \<open>Aligning records with tokens\<close>

record aligned_info =
  ai_output_token_id :: int
  ai_output_token :: "string option"
  ai_prompt :: string
  ai_request_id :: "nat option"
  ai_token_index :: nat

text \<open>
  A record of the expert distribution dump: shape \<open>[layers][batch][topk]\<close> for ids and weights,
  \<open>[layers][batch][experts]\<close> for logits. The fields that alignment adds are set together.
\<close>

record 'f expert_record =
  er_topk_ids :: "int list list list option"
  er_topk_weights :: "'f list list list option"
  er_router_logits :: "'f list list list option"
  er_input_ids :: "int list option"
  er_aligned :: "aligned_info option"

text \<open>The first request whose range contains the position, searched in order.\<close>

fun find_request :: "nat \<Rightarrow> (nat \<times> nat) list \<Rightarrow> nat \<Rightarrow> nat option" where
  "find_request req_idx [] i = None"
| "find_request req_idx ((start_idx, end_idx) # bs) i =
     (if start_idx \<le> i \<and> i < end_idx then Some req_idx else find_request (Suc req_idx) bs i)"

definition align_record ::
  "tokenizer option \<Rightarrow> (nat \<times> nat) list \<Rightarrow> string list \<Rightarrow> nat \<Rightarrow> int \<Rightarrow> 'f expert_record \<Rightarrow> 'f expert_record" where
  "align_record tokenizer boundaries prompts i token_id record =
     (let output_token = (case tokenizer of None \<Rightarrow> None | Some tk \<Rightarrow> tk_decode tk token_id);
          request_idx = find_request 0 boundaries i;
          prompt = (case request_idx of
              None \<Rightarrow> []
            | Some r \<Rightarrow> if r < length prompts then prompts ! r else [])
      in record\<lparr>er_aligned := Some
           \<lparr>ai_output_token_id = token_id, ai_output_token = output_token, ai_prompt = prompt,
            ai_request_id = request_idx, ai_token_index = i\<rparr>\<rparr>)"

fun align_tokens_with_experts_streaming ::
  "tokenizer option \<Rightarrow> token_info \<Rightarrow> nat \<Rightarrow> 'f expert_record list \<Rightarrow> 'f expert_record list" where
  "align_tokens_with_experts_streaming tokenizer ti start [] = []"
| "align_tokens_with_experts_streaming tokenizer ti start (r # rs) =
     (if start \<ge> length (ti_token_ids ti) then []
      else align_record tokenizer (ti_boundaries ti) (ti_prompts ti) start (ti_token_ids ti ! start) r
           # align_tokens_with_experts_streaming tokenizer ti (Suc start) rs)"

text \<open>The whole-file variant repeats the loop of \<open>prepare_token_info\<close> and aligns by index.\<close>

definition align_tokens_with_experts ::
  "'f inference_result list \<Rightarrow> 'f expert_record list \<Rightarrow> tokenizer option \<Rightarrow> int option \<Rightarrow> 'f expert_record list" where
  "align_tokens_with_experts inference_results records tokenizer num_requests =
     (let ti = prepare_token_info inference_results num_requests;
          match_count = min (length (ti_token_ids ti)) (length records)
      in map (\<lambda>i. align_record tokenizer (ti_boundaries ti) (ti_prompts ti) i
                    (ti_token_ids ti ! i) (records ! i))
           [0..<match_count])"

section \<open>Conversion to the output format\<close>

definition valid_expert_id :: "int \<Rightarrow> bool" where
  "valid_expert_id e \<longleftrightarrow> 0 \<le> e \<and> e < 256"

text \<open>\<^verbatim>\<open>xs[layer_idx] if layer_idx < len(xs) else []\<close>, then the first element of the batch.\<close>

definition batch0 :: "'a list list list \<Rightarrow> nat \<Rightarrow> 'a list" where
  "batch0 xs layer_idx =
     (if layer_idx < length xs then (case xs ! layer_idx of [] \<Rightarrow> [] | b # _ \<Rightarrow> b) else [])"

text \<open>The inner loop: valid ids, their weights, and the logit of each where there is one.\<close>

definition filter_step ::
  "'f list \<Rightarrow> nat \<times> int \<times> 'f \<Rightarrow> int list \<times> 'f list \<times> 'f list \<Rightarrow> int list \<times> 'f list \<times> 'f list" where
  "filter_step logits item acc =
     (case item of (i, expert_id, weight) \<Rightarrow>
        case acc of (ids, ws, ls) \<Rightarrow>
          if valid_expert_id expert_id then
            (ids @ [expert_id], ws @ [weight],
             (if logits \<noteq> [] \<and> int (length logits) > expert_id then ls @ [logits ! nat expert_id]
              else if logits \<noteq> [] \<and> i < length logits then ls @ [logits ! i]
              else ls))
          else (ids, ws, ls))"

definition filter_layer :: "int list \<Rightarrow> 'f list \<Rightarrow> 'f list \<Rightarrow> int list \<times> 'f list \<times> 'f list" where
  "filter_layer expert_ids weights logits =
     fold (filter_step logits)
       (zip [0..<min (length expert_ids) (length weights)] (zip expert_ids weights)) ([], [], [])"

definition unselected_logits :: "int list \<Rightarrow> 'f list \<Rightarrow> 'f list" where
  "unselected_logits ids logits =
     map (\<lambda>i. logits ! i) (filter (\<lambda>i. int i \<notin> set ids) [0..<length logits])"

definition next_expert_logit_of :: "int list \<Rightarrow> ('f::linorder) list \<Rightarrow> 'f option" where
  "next_expert_logit_of ids logits =
     (if logits \<noteq> [] \<and> ids \<noteq> [] \<and> unselected_logits ids logits \<noteq> []
      then Some (Max (set (unselected_logits ids logits))) else None)"

definition convert_layer ::
  "('f::linordered_field) expert_record \<Rightarrow> nat \<Rightarrow> (string \<times> 'f layer_data) option" where
  "convert_layer record layer_idx =
     (let logits = batch0 (get_list (er_router_logits record)) layer_idx;
          (ids, ws, ls) = filter_layer (batch0 (get_list (er_topk_ids record)) layer_idx)
            (batch0 (get_list (er_topk_weights record)) layer_idx) logits
      in if ids = [] then None
         else Some (py_str (int layer_idx),
           \<lparr>ld_expert_ids = Some ids, ld_weights = Some (map JFloat ws),
            ld_logits = (if ls = [] then None else Some ls),
            ld_next_expert_logit = next_expert_logit_of ids logits\<rparr>))"

definition convert_record_to_output_format :: "('f::linordered_field) expert_record \<Rightarrow> 'f token_record" where
  "convert_record_to_output_format record =
     \<lparr>tr_layers = Some (List.map_filter (convert_layer record) [0..<length (get_list (er_topk_ids record))]),
      tr_request_id = (case er_aligned record of None \<Rightarrow> None | Some a \<Rightarrow> map_option int (ai_request_id a)),
      tr_prompt = map_option ai_prompt (er_aligned record)\<rparr>"

text \<open>What is written to \<^verbatim>\<open>results_all.jsonl\<close>, one record per line.\<close>

definition save_results_jsonl :: "('f::linordered_field) expert_record list \<Rightarrow> 'f token_record list" where
  "save_results_jsonl aligned = map convert_record_to_output_format aligned"

section \<open>Counting expert selections\<close>

definition get_eos_token_ids :: "tokenizer option \<Rightarrow> int set" where
  "get_eos_token_ids tokenizer =
     (case tokenizer of
        None \<Rightarrow> {}
      | Some tk \<Rightarrow> set_option (tk_eos_token_id tk) \<union> set_option (tk_pad_token_id tk))"

record 'f selection_counts =
  sc_counts :: "(nat, (int, nat) dict) dict"
  sc_weights :: "(nat, (int, 'f) dict) dict"
  sc_processed :: nat
  sc_skipped :: nat

definition count_expert :: "nat \<Rightarrow> int \<Rightarrow> 'f selection_counts \<Rightarrow> 'f selection_counts" where
  "count_expert layer_idx expert_id st =
     (if valid_expert_id expert_id
      then st\<lparr>sc_counts := dict_upd layer_idx [] (dict_upd expert_id 0 Suc) (sc_counts st)\<rparr> else st)"

definition weigh_expert ::
  "nat \<Rightarrow> int \<times> ('f::linordered_field) \<Rightarrow> 'f selection_counts \<Rightarrow> 'f selection_counts" where
  "weigh_expert layer_idx ew st =
     (case ew of (expert_id, weight) \<Rightarrow>
        if valid_expert_id expert_id
        then st\<lparr>sc_weights := dict_upd layer_idx [] (dict_upd expert_id 0 (\<lambda>v. v + weight)) (sc_weights st)\<rparr>
        else st)"

definition count_batch ::
  "nat \<Rightarrow> ('f::linordered_field) list list list \<Rightarrow> nat \<times> int list \<Rightarrow> 'f selection_counts \<Rightarrow> 'f selection_counts" where
  "count_batch layer_idx topk_weights batch st =
     (case batch of (batch_idx, batch_topk_ids) \<Rightarrow>
        if batch_topk_ids = [] then st
        else
          let st = fold (count_expert layer_idx) batch_topk_ids st in
          if layer_idx < length topk_weights \<and> batch_idx < length (topk_weights ! layer_idx) then
            let ws = topk_weights ! layer_idx ! batch_idx in
            if ws \<noteq> [] \<and> length ws = length batch_topk_ids
            then fold (weigh_expert layer_idx) (zip batch_topk_ids ws) st else st
          else st)"

definition count_layer ::
  "('f::linordered_field) list list list \<Rightarrow> nat \<times> int list list \<Rightarrow> 'f selection_counts \<Rightarrow> 'f selection_counts" where
  "count_layer topk_weights layer st =
     (case layer of (layer_idx, layer_topk_ids) \<Rightarrow>
        fold (count_batch layer_idx topk_weights) (List.enumerate 0 layer_topk_ids) st)"

text \<open>The token of a record: the aligned output token, or else the first input token.\<close>

definition record_token :: "'f expert_record \<Rightarrow> int option" where
  "record_token record =
     (case er_aligned record of
        Some a \<Rightarrow> Some (ai_output_token_id a)
      | None \<Rightarrow> (case get_list (er_input_ids record) of [] \<Rightarrow> None | i # _ \<Rightarrow> Some i))"

definition analyze_record ::
  "int set \<Rightarrow> ('f::linordered_field) expert_record \<Rightarrow> 'f selection_counts \<Rightarrow> 'f selection_counts" where
  "analyze_record eos_token_ids record st =
     (let topk_ids = get_list (er_topk_ids record) in
      if (\<exists>t \<in> set_option (record_token record). t \<in> eos_token_ids) \<or> topk_ids = []
      then st\<lparr>sc_skipped := Suc (sc_skipped st)\<rparr>
      else
        let st = fold (count_layer (get_list (er_topk_weights record))) (List.enumerate 0 topk_ids) st in
        st\<lparr>sc_processed := Suc (sc_processed st)\<rparr>)"

definition analyze_expert_selection ::
  "('f::linordered_field) expert_record list \<Rightarrow> int set \<Rightarrow> 'f selection_counts \<Rightarrow> 'f selection_counts" where
  "analyze_expert_selection records eos_token_ids st = fold (analyze_record eos_token_ids) records st"

definition init_counts :: "'f selection_counts" where
  "init_counts = \<lparr>sc_counts = [], sc_weights = [], sc_processed = 0, sc_skipped = 0\<rparr>"

section \<open>Streaming over the files of a folder\<close>

record 'f stream_state =
  st_counts :: "'f selection_counts"
  st_token_index :: nat
  st_output :: "'f token_record list"

text \<open>
  One file: \<open>None\<close> when it cannot be read or parsed (the loop reports the error and goes on
  with the position unchanged), else its records. That an exception in the middle of the work on a file is reported and skipped in the same way is not
  modelled: the functions called here are total on records that could be read.
\<close>

definition process_file ::
  "tokenizer option \<Rightarrow> token_info \<Rightarrow> int set \<Rightarrow> ('f::linordered_field) expert_record list option \<Rightarrow>
     'f stream_state \<Rightarrow> 'f stream_state" where
  "process_file tokenizer ti eos_token_ids file st =
     (case file of
        None \<Rightarrow> st
      | Some records \<Rightarrow>
          if records = [] then st
          else
            let aligned = align_tokens_with_experts_streaming tokenizer ti (st_token_index st) records in
            if aligned = [] then st\<lparr>st_token_index := st_token_index st + length records\<rparr>
            else
              st\<lparr>st_counts := analyze_expert_selection aligned eos_token_ids (st_counts st),
                 st_output := st_output st @ save_results_jsonl aligned,
                 st_token_index := st_token_index st + length records\<rparr>)"

definition process_files_streaming ::
  "tokenizer option \<Rightarrow> token_info \<Rightarrow> int set \<Rightarrow> ('f::linordered_field) expert_record list option list \<Rightarrow>
     'f stream_state result" where
  "process_files_streaming tokenizer ti eos_token_ids files =
     (if files = [] then Inl ValueError
      else Inr (fold (process_file tokenizer ti eos_token_ids) files
        \<lparr>st_counts = init_counts, st_token_index = 0, st_output = []\<rparr>))"

section \<open>Heat map\<close>

definition max_expert_id :: "(nat, (int, nat) dict) dict \<Rightarrow> int" where
  "max_expert_id counts =
     fold (\<lambda>(_, d) m. if d \<noteq> [] then max m (Max (set (dict_keys d))) else m) counts 0"

definition heatmap_row :: "nat \<Rightarrow> (int, nat) dict \<Rightarrow> nat list" where
  "heatmap_row max_experts d =
     fold (\<lambda>(expert_id, count) row.
             if 0 \<le> expert_id \<and> expert_id < int max_experts then row[nat expert_id := count] else row)
       d (replicate max_experts 0)"

definition create_heatmap_data ::
  "(nat, (int, nat) dict) dict \<Rightarrow> nat option \<Rightarrow> nat option \<Rightarrow> nat list list" where
  "create_heatmap_data counts num_layers max_experts =
     (let layers = (case num_layers of
            None \<Rightarrow> if counts = [] then 1 else Max (set (dict_keys counts)) + 1
          | Some n \<Rightarrow> n);
          experts = (case max_experts of None \<Rightarrow> nat (max_expert_id counts + 1) | Some m \<Rightarrow> m)
      in map (\<lambda>layer_idx. heatmap_row experts (dict_get counts layer_idx [])) [0..<layers])"

section \<open>Request ranges\<close>

text \<open>The position of the first token of request \<open>r\<close>.\<close>

definition offset :: "'f inference_result list \<Rightarrow> nat \<Rightarrow> nat" where
  "offset results r = sum_list (map (length \<circ> ir_token_ids) (take r results))"

lemma offset_snoc: "r \<le> length xs \<Longrightarrow> offset (xs @ [x]) r = offset xs r"
  by (simp add: offset_def)

lemma offset_Suc: "r < length xs \<Longrightarrow> offset xs (Suc r) = offset xs r + length (ir_token_ids (xs ! r))"
  by (simp add: offset_def take_Suc_conv_app_nth)

lemma offset_all: "offset xs (length xs) = length (concat (map ir_token_ids xs))"
  by (simp add: offset_def length_concat comp_def)

lemma token_info_fold:
  "fold token_info_step results \<lparr>ti_token_ids = [], ti_boundaries = [], ti_prompts = []\<rparr> =
     \<lparr>ti_token_ids = concat (map ir_token_ids results),
      ti_boundaries = map (\<lambda>r. (offset results r, offset results (Suc r))) [0..<length results],
      ti_prompts = map (\<lambda>r. if ir_token_ids r = [] then []
        else extract_prompt_from_original_data (ir_messages r)) results\<rparr>"
proof (induction results rule: rev_induct)
  case (snoc x xs)
  have "map (\<lambda>r. (offset (xs @ [x]) r, offset (xs @ [x]) (Suc r))) [0..<length xs] =
      map (\<lambda>r. (offset xs r, offset xs (Suc r))) [0..<length xs]"
    by (simp add: offset_snoc)
  moreover have "offset (xs @ [x]) (length xs) = length (concat (map ir_token_ids xs))"
    by (simp add: offset_snoc offset_all)
  moreover have "offset (xs @ [x]) (Suc (length xs)) =
      length (concat (map ir_token_ids xs)) + length (ir_token_ids x)"
    using offset_all[of "xs @ [x]"] by simp
  ultimately show ?case using snoc by (simp add: token_info_step_def Let_def)
qed simp

lemma find_request_Some:
  assumes "r < length bs" and "fst (bs ! r) \<le> i" and "i < snd (bs ! r)"
    and "\<And>q. q < r \<Longrightarrow> \<not> (fst (bs ! q) \<le> i \<and> i < snd (bs ! q))"
  shows "find_request k bs i = Some (k + r)"
  using assms
proof (induction bs arbitrary: k r)
  case (Cons b bs)
  show ?case
  proof (cases r)
    case 0
    with Cons.prems show ?thesis by (cases b) auto
  next
    case (Suc r')
    have "\<not> (fst b \<le> i \<and> i < snd b)" using Cons.prems(4)[of 0] Suc by simp
    moreover have "find_request (Suc k) bs i = Some (Suc k + r')"
    proof (rule Cons.IH)
      fix q assume "q < r'"
      then show "\<not> (fst (bs ! q) \<le> i \<and> i < snd (bs ! q))" using Cons.prems(4)[of "Suc q"] Suc by simp
    qed (use Cons.prems Suc in auto)
    ultimately show ?thesis using Suc by (cases b) simp
  qed
qed simp

lemma offset_mono: "q \<le> r \<Longrightarrow> offset xs q \<le> offset xs r"
  unfolding offset_def
  by (metis le_add1 map_append min.absorb1 sum_list_append take_add take_take le_add_diff_inverse)

lemma offset_covers:
  assumes "i < offset xs n" and "n \<le> length xs"
  shows "\<exists>r < n. offset xs r \<le> i \<and> i < offset xs (Suc r)"
  using assms
proof (induction n)
  case (Suc n)
  then show ?case by (cases "i < offset xs n") (auto intro: less_SucI)
qed (simp add: offset_def)

lemma concat_nth_offset:
  assumes "r < length xs" and "offset xs r \<le> i" and "i < offset xs (Suc r)"
  shows "concat (map ir_token_ids xs) ! i = ir_token_ids (xs ! r) ! (i - offset xs r)"
proof -
  have "concat (map ir_token_ids xs) =
      concat (map ir_token_ids (take r xs)) @ ir_token_ids (xs ! r) @ concat (map ir_token_ids (drop (Suc r) xs))"
    using assms(1) by (metis append_take_drop_id concat.simps(2) concat_append id_take_nth_drop list.simps(9) map_append)
  moreover have "length (concat (map ir_token_ids (take r xs))) = offset xs r"
    by (simp add: offset_def length_concat comp_def)
  ultimately show ?thesis using assms by (auto simp: nth_append offset_Suc)
qed

lemma prepare_token_info_eq:
  assumes "rs = limit_requests num_requests results"
  shows "prepare_token_info results num_requests =
     \<lparr>ti_token_ids = concat (map ir_token_ids rs),
      ti_boundaries = map (\<lambda>r. (offset rs r, offset rs (Suc r))) [0..<length rs],
      ti_prompts = map (\<lambda>r. if ir_token_ids r = [] then []
        else extract_prompt_from_original_data (ir_messages r)) rs\<rparr>"
  by (simp add: prepare_token_info_def token_info_fold assms)

lemma find_request_offset:
  assumes "r < length rs" "offset rs r \<le> i" "i < offset rs (Suc r)"
  shows "find_request 0 (map (\<lambda>r. (offset rs r, offset rs (Suc r))) [0..<length rs]) i = Some r"
proof -
  let ?bs = "map (\<lambda>r. (offset rs r, offset rs (Suc r))) [0..<length rs]"
  have "find_request 0 ?bs i = Some (0 + r)"
  proof (rule find_request_Some)
    fix q assume "q < r"
    then have "offset rs (Suc q) \<le> i" using offset_mono[of "Suc q" r rs] assms(2) by simp
    then show "\<not> (fst (?bs ! q) \<le> i \<and> i < snd (?bs ! q))" using \<open>q < r\<close> assms(1) by simp
  qed (use assms in auto)
  then show ?thesis by simp
qed

lemma aligned_request:
  fixes results :: "'f inference_result list"
  assumes "i < length (ti_token_ids (prepare_token_info results num_requests))"
  shows "\<exists>r < length (limit_requests num_requests results).
    find_request 0 (ti_boundaries (prepare_token_info results num_requests)) i = Some r \<and>
    offset (limit_requests num_requests results) r \<le> i \<and>
    i < offset (limit_requests num_requests results) (Suc r)"
proof -
  let ?rs = "limit_requests num_requests results"
  note ti = prepare_token_info_eq[OF refl, where num_requests = num_requests and results = results]
  have "i < offset ?rs (length ?rs)" using assms by (simp add: offset_all ti)
  then obtain r where r: "r < length ?rs" "offset ?rs r \<le> i" "i < offset ?rs (Suc r)"
    by (metis offset_covers order_refl)
  then show ?thesis using find_request_offset[OF r] by (auto simp: ti)
qed

text \<open>
  Every output token is given to the request that generated it: for a position below the
  total number of tokens, the search over the request ranges returns exactly the request whose
  range contains the position, and the token at the position is the corresponding token of that
  request. In particular no aligned record is left without a request.
\<close>

theorem find_request_correct:
  fixes results :: "'f inference_result list"
  assumes rs: "rs = limit_requests num_requests results"
    and i: "i < length (ti_token_ids (prepare_token_info results num_requests))"
  shows "\<exists>r < length rs.
    find_request 0 (ti_boundaries (prepare_token_info results num_requests)) i = Some r \<and>
    offset rs r \<le> i \<and> i < offset rs r + length (ir_token_ids (rs ! r)) \<and>
    ti_token_ids (prepare_token_info results num_requests) ! i = ir_token_ids (rs ! r) ! (i - offset rs r)"
proof -
  from aligned_request[OF i] obtain r where r: "r < length rs" "offset rs r \<le> i" "i < offset rs (Suc r)"
    "find_request 0 (ti_boundaries (prepare_token_info results num_requests)) i = Some r"
    unfolding rs by blast
  then show ?thesis
    using concat_nth_offset[OF r(1-3)]
    by (intro exI[of _ r]) (simp add: prepare_token_info_eq[OF rs] offset_Suc)
qed

definition example_results :: "rat inference_result list" where
  "example_results = map (\<lambda>(k, ids). \<lparr>ir_request_id = k, ir_token_ids = ids, ir_token_logprobs = [],
     ir_messages = None\<rparr>) [(0, [11, 12]), (1, [13])]"

theorem find_request_correct_witness:
  "find_request 0 (ti_boundaries (prepare_token_info example_results None)) 2 = Some 1"
proof -
  have "2 < length (ti_token_ids (prepare_token_info example_results None))" by code_simp
  from find_request_correct[OF refl this] obtain r where
    "find_request 0 (ti_boundaries (prepare_token_info example_results None)) 2 = Some r"
    "r < length (limit_requests None example_results)"
    "offset (limit_requests None example_results) r \<le> 2"
    "2 < offset (limit_requests None example_results) r + length (ir_token_ids (limit_requests None example_results ! r))"
    by blast
  moreover have "limit_requests None example_results = example_results" by (simp add: limit_requests_def)
  moreover have "length example_results = 2" by code_simp
  moreover have "offset example_results 0 = 0" "length (ir_token_ids (example_results ! 0)) = 2" by code_simp+
  ultimately show ?thesis by (cases r) auto
qed

section \<open>Streaming and whole-file alignment agree\<close>

lemma streaming_append:
  "align_tokens_with_experts_streaming tok ti start (xs @ ys) =
     align_tokens_with_experts_streaming tok ti start xs @
     align_tokens_with_experts_streaming tok ti (start + length xs) ys"
proof (induction xs arbitrary: start)
  case (Cons x xs)
  have "align_tokens_with_experts_streaming tok ti (start + Suc (length xs)) ys = []"
    if "length (ti_token_ids ti) \<le> start"
    using that by (cases ys) auto
  with Cons show ?case by auto
qed simp

lemma streaming_map:
  "align_tokens_with_experts_streaming tok ti start rs =
     map (\<lambda>i. align_record tok (ti_boundaries ti) (ti_prompts ti) (start + i) (ti_token_ids ti ! (start + i)) (rs ! i))
       [0..<min (length (ti_token_ids ti) - start) (length rs)]"
proof (induction rs arbitrary: start)
  case (Cons r rs)
  show ?case
  proof (cases "start < length (ti_token_ids ti)")
    case True
    then have "min (length (ti_token_ids ti) - start) (length (r # rs)) =
        Suc (min (length (ti_token_ids ti) - Suc start) (length rs))" by simp
    with True Cons show ?thesis
      by (simp add: map_upt_Suc del: upt_Suc)
  qed simp
qed simp

lemma whole_file_streaming:
  "align_tokens_with_experts results records tok num =
     align_tokens_with_experts_streaming tok (prepare_token_info results num) 0 records"
  by (simp add: align_tokens_with_experts_def streaming_map Let_def)

lemma process_files_fold:
  "fold (process_file tok ti eos) (map Some files) st =
    (let aligned = align_tokens_with_experts_streaming tok ti (st_token_index st) (concat files) in
     st\<lparr>st_counts := analyze_expert_selection aligned eos (st_counts st),
        st_output := st_output st @ save_results_jsonl aligned,
        st_token_index := st_token_index st + length (concat files)\<rparr>)"
proof (induction files arbitrary: st)
  case Nil
  then show ?case by (simp add: analyze_expert_selection_def save_results_jsonl_def)
next
  case (Cons f files)
  then show ?case
    by (simp add: process_file_def Let_def streaming_append analyze_expert_selection_def
        save_results_jsonl_def)
qed

text \<open>
  (C23) Processing a folder file by file gives the same result as processing the concatenation of
  its files at once: when every file can be read, the written records, the expert counts and
  weights and the processed and skipped totals are those of the whole-file path.
\<close>

theorem streaming_equals_whole_file:
  assumes "files \<noteq> []"
  shows "\<exists>st. process_files_streaming tok (prepare_token_info results num) eos (map Some files) = Inr st \<and>
    st_output st = save_results_jsonl (align_tokens_with_experts results (concat files) tok num) \<and>
    st_counts st = analyze_expert_selection
      (align_tokens_with_experts results (concat files) tok num) eos init_counts"
  using assms
  by (simp add: process_files_streaming_def process_files_fold whole_file_streaming Let_def)

definition example_record :: "int list list list \<Rightarrow> rat expert_record" where
  "example_record ids = \<lparr>er_topk_ids = Some ids, er_topk_weights = None, er_router_logits = None,
     er_input_ids = None, er_aligned = None\<rparr>"

theorem streaming_equals_whole_file_witness:
  "\<exists>st. process_files_streaming None (prepare_token_info example_results None) {}
      (map Some [[example_record [[[1]]]], [example_record [[[2]]]]]) = Inr st \<and>
    st_counts st = analyze_expert_selection (align_tokens_with_experts example_results
      [example_record [[[1]]], example_record [[[2]]]] None None) {} init_counts"
  using streaming_equals_whole_file[of "[[example_record [[[1]]]], [example_record [[[2]]]]]" None example_results None "{}"]
  by auto

section \<open>Counts\<close>

text \<open>The valid (layer, expert) selections of a record and of a file, in the order they are counted.\<close>

definition layer_selections :: "nat \<times> int list list \<Rightarrow> (nat \<times> int) list" where
  "layer_selections layer =
     (case layer of (l, batches) \<Rightarrow> concat (map (\<lambda>b. map (\<lambda>e. (l, e)) (filter valid_expert_id b)) batches))"

definition record_selections :: "int set \<Rightarrow> 'f expert_record \<Rightarrow> (nat \<times> int) list" where
  "record_selections eos record =
     (if \<exists>t \<in> set_option (record_token record). t \<in> eos then []
      else concat (map layer_selections (List.enumerate 0 (get_list (er_topk_ids record)))))"

definition selections :: "int set \<Rightarrow> 'f expert_record list \<Rightarrow> (nat \<times> int) list" where
  "selections eos records = concat (map (record_selections eos) records)"

definition bump_count :: "nat \<times> int \<Rightarrow> (nat, (int, nat) dict) dict \<Rightarrow> (nat, (int, nat) dict) dict" where
  "bump_count le d = (case le of (l, e) \<Rightarrow> dict_upd l [] (dict_upd e 0 Suc) d)"

lemma sc_counts_weigh: "sc_counts (fold (weigh_expert l) ews st) = sc_counts st"
  by (induction ews arbitrary: st) (auto simp: weigh_expert_def split: prod.splits)

lemma sc_counts_experts:
  "sc_counts (fold (count_expert l) es st) =
     fold bump_count (map (\<lambda>e. (l, e)) (filter valid_expert_id es)) (sc_counts st)"
  by (induction es arbitrary: st) (auto simp: count_expert_def bump_count_def)

lemma sc_counts_batch:
  "sc_counts (count_batch l tw (i, es) st) =
     fold bump_count (map (\<lambda>e. (l, e)) (filter valid_expert_id es)) (sc_counts st)"
  by (simp add: count_batch_def Let_def sc_counts_weigh sc_counts_experts)

lemma sc_counts_layer:
  "sc_counts (count_layer tw layer st) = fold bump_count (layer_selections layer) (sc_counts st)"
proof -
  obtain l batches where layer: "layer = (l, batches)" by (cases layer)
  have "sc_counts (fold (count_batch l tw) (List.enumerate k batches) st) =
      fold bump_count (layer_selections (l, batches)) (sc_counts st)" for k
    by (induction batches arbitrary: k st) (simp_all add: layer_selections_def sc_counts_batch)
  then show ?thesis by (simp add: layer count_layer_def)
qed

lemma sc_counts_layers:
  "sc_counts (fold (count_layer tw) layers st) =
     fold bump_count (concat (map layer_selections layers)) (sc_counts st)"
  by (induction layers arbitrary: st) (simp_all add: sc_counts_layer)

lemma sc_counts_analyze:
  "sc_counts (analyze_expert_selection records eos st) = fold bump_count (selections eos records) (sc_counts st)"
  unfolding analyze_expert_selection_def selections_def
  by (induction records arbitrary: st)
     (auto simp: analyze_record_def record_selections_def Let_def sc_counts_layers)

lemma dict_get_bump_count:
  "dict_get (dict_get (fold bump_count les d) l []) e 0 =
     dict_get (dict_get d l []) e 0 + count_list les (l, e)"
  by (induction les arbitrary: d) (auto simp: bump_count_def dict_simps split: prod.splits)

definition counts_ok :: "(nat, (int, nat) dict) dict \<Rightarrow> bool" where
  "counts_ok d \<longleftrightarrow> dict_ok d \<and> (\<forall>l. dict_ok (dict_get d l []))"

lemma counts_ok_bump: "counts_ok d \<Longrightarrow> counts_ok (bump_count le d)"
  by (cases le) (auto simp: counts_ok_def bump_count_def dict_simps)

lemma counts_ok_fold: "counts_ok (fold bump_count les [])"
  by (rule fold_invariant[where P = counts_ok]) (simp_all add: counts_ok_bump, simp add: counts_ok_def)

lemma bump_count_keys:
  "fst ` set (fold bump_count les d) = fst ` set d \<union> fst ` set les"
proof (induction les arbitrary: d)
  case (Cons le les)
  have "fst ` set (bump_count le d) = insert (fst le) (fst ` set d)"
    by (cases le) (simp add: bump_count_def dict_simps)
  with Cons show ?case by simp
qed simp

lemma selections_valid:
  assumes "(l, e) \<in> set (selections eos records)"
  shows "0 \<le> e \<and> e < 256"
proof -
  have "(l, e) \<in> set (layer_selections layer) \<Longrightarrow> valid_expert_id e" for layer
    by (auto simp: layer_selections_def split: prod.splits)
  with assms show ?thesis
    by (auto simp: selections_def record_selections_def valid_expert_id_def split: if_splits)
qed

section \<open>Heat map\<close>

lemma heatmap_fold_entry:
  assumes "dict_ok d" and "length row = N" and "0 \<le> e" and "e < int N"
  shows "fold (\<lambda>(expert_id, count) row.
             if 0 \<le> expert_id \<and> expert_id < int N then row[nat expert_id := count] else row) d row ! nat e =
    (case map_of d e of None \<Rightarrow> row ! nat e | Some c \<Rightarrow> c)"
  using assms
proof (induction d arbitrary: row)
  case (Cons x d)
  obtain a c where x: "x = (a, c)" by (cases x)
  have "map_of d a = None" using Cons.prems(1) by (auto simp: x dict_ok_def map_of_eq_None_iff)
  then show ?case
    using Cons.IH[of "if 0 \<le> a \<and> a < int N then row[nat a := c] else row"] Cons.prems
    by (auto simp: x dict_ok_def nth_list_update eq_nat_nat_iff split: option.splits)
qed simp

lemma heatmap_row_entry:
  "dict_ok d \<Longrightarrow> 0 \<le> e \<Longrightarrow> e < int N \<Longrightarrow> heatmap_row N d ! nat e = dict_get d e 0"
  using heatmap_fold_entry[of d "replicate N 0" N e]
  by (simp add: heatmap_row_def dict_get_def split: option.splits)

lemma max_expert_fold_ge: "m \<le> fold (\<lambda>(_, d) m. if d \<noteq> [] then max m (Max (set (dict_keys d))) else m) counts (m :: int)"
proof (induction counts arbitrary: m)
  case (Cons c counts)
  show ?case
    using Cons[of "max m (Max (set (dict_keys (snd c))))"] Cons[of m]
    by (cases c) (auto simp: dict_keys_def)
qed simp

lemma max_expert_id_bound:
  assumes "(l, d) \<in> set counts" and "e \<in> fst ` set d"
  shows "e \<le> max_expert_id counts"
proof -
  let ?f = "\<lambda>(_, d) m. if d \<noteq> [] then max m (Max (set (dict_keys d))) else (m :: int)"
  have "e \<le> fold ?f counts m" for m
    using assms(1)
  proof (induction counts arbitrary: m)
    case (Cons c counts)
    show ?case
    proof (cases "c = (l, d)")
      case True
      have "d \<noteq> []" "e \<le> Max (set (dict_keys d))" using assms(2) by (auto simp: dict_keys_def)
      then show ?thesis
        using True max_expert_fold_ge[of "max m (Max (set (dict_keys d)))" counts] by simp
    qed (use Cons in \<open>auto split: prod.splits\<close>)
  qed simp
  then show ?thesis by (simp add: max_expert_id_def)
qed

lemma sum_count_list_grid:
  fixes les :: "(nat \<times> int) list"
  assumes "\<And>l e. (l, e) \<in> set les \<Longrightarrow> l < L \<and> 0 \<le> e \<and> e < int N"
  shows "(\<Sum>l < L. \<Sum>e < N. count_list les (l, int e)) = length les"
proof -
  have "(\<Sum>l < L. \<Sum>e < N. count_list les (l, int e)) =
      (\<Sum>p \<in> {..<L} \<times> {..<N}. count_list les (fst p, int (snd p)))"
    by (simp add: sum.cartesian_product case_prod_unfold)
  also have "\<dots> = (\<Sum>p \<in> (\<lambda>p. (fst p, int (snd p))) ` ({..<L} \<times> {..<N}). count_list les p)"
    by (subst sum.reindex) (auto simp: inj_on_def)
  also have "\<dots> = (\<Sum>p \<in> set les. count_list les p)"
  proof (rule sum.mono_neutral_right)
    show "set les \<subseteq> (\<lambda>p. (fst p, int (snd p))) ` ({..<L} \<times> {..<N})"
    proof
      fix p assume "p \<in> set les"
      then show "p \<in> (\<lambda>p. (fst p, int (snd p))) ` ({..<L} \<times> {..<N})"
        using assms[of "fst p" "snd p"]
        by (intro image_eqI[where x = "(fst p, nat (snd p))"]) auto
    qed
  qed (simp_all add: count_list_0_iff)
  also have "\<dots> = length les" by (rule sum_count_set) auto
  finally show ?thesis .
qed

text \<open>
  (C33) The heat map counts every expert selection: with inferred dimensions, entry (layer, expert)
  of the matrix built from the analysed records is the number of times a counted record selects
  that expert on that layer (ids outside 0..255 and records of EOS or PAD tokens are not counted),
  and the entries sum to the number of all such selections.
\<close>

theorem heatmap_counts_selections:
  assumes sels: "sels = selections eos records"
    and M: "M = create_heatmap_data (sc_counts (analyze_expert_selection records eos init_counts)) None None"
  shows "(\<forall>(l, e) \<in> set sels. l < length M \<and> nat e < length (M ! l) \<and> M ! l ! nat e = count_list sels (l, e)) \<and>
    (\<Sum>row \<leftarrow> M. sum_list row) = length sels"
proof -
  let ?C = "fold bump_count sels []"
  let ?L = "if ?C = [] then 1 else Max (set (dict_keys ?C)) + 1"
  let ?N = "nat (max_expert_id ?C + 1)"
  have M': "M = map (\<lambda>l. heatmap_row ?N (dict_get ?C l [])) [0..<?L]"
    by (simp add: M sels create_heatmap_data_def sc_counts_analyze init_counts_def Let_def)
  have ok: "dict_ok (dict_get ?C l [])" for l using counts_ok_fold by (simp add: counts_ok_def)
  have len: "length (heatmap_row ?N d) = ?N" for d
  proof -
    have "length (fold (\<lambda>(e, c) row. if 0 \<le> e \<and> e < int ?N then row[nat e := c] else row) d row) = length row"
      for row :: "nat list"
      by (induction d arbitrary: row) auto
    then show ?thesis by (simp add: heatmap_row_def)
  qed
  have entry: "heatmap_row ?N (dict_get ?C l []) ! nat e = count_list sels (l, e)" if "0 \<le> e" "e < int ?N" for l e
    using that by (simp only: heatmap_row_entry[OF ok that] dict_get_bump_count) simp
  have range: "l < ?L \<and> 0 \<le> e \<and> e < int ?N" if le: "(l, e) \<in> set sels" for l e
  proof -
    have e: "0 \<le> e" using selections_valid le sels by blast
    have "0 < count_list sels (l, e)" using le by (metis count_list_0_iff gr0I)
    then have "dict_get (dict_get ?C l []) e 0 \<noteq> 0" by (simp add: dict_get_bump_count)
    then have 1: "e \<in> fst ` set (dict_get ?C l [])" using dict_get_notin by fastforce
    have l: "l \<in> fst ` set ?C" using le by (force simp: bump_count_keys)
    then have "e \<le> max_expert_id ?C" using max_expert_id_bound[OF dict_get_mem 1] by blast
    moreover have "l \<le> Max (set (dict_keys ?C))" using l by (simp add: dict_keys_def)
    ultimately show ?thesis using e l by auto
  qed
  have "sum_list (heatmap_row ?N (dict_get ?C l [])) = (\<Sum>e < ?N. count_list sels (l, int e))" for l
  proof -
    have "sum_list (heatmap_row ?N (dict_get ?C l [])) = (\<Sum>e < ?N. heatmap_row ?N (dict_get ?C l []) ! e)"
      by (simp add: sum_list_sum_nth len lessThan_atLeast0)
    also have "\<dots> = (\<Sum>e < ?N. count_list sels (l, int e))"
      using entry[of "int _"] by (intro sum.cong) auto
    finally show ?thesis .
  qed
  then have "(\<Sum>row \<leftarrow> M. sum_list row) = (\<Sum>l < ?L. \<Sum>e < ?N. count_list sels (l, int e))"
    by (simp add: M' comp_def interv_sum_list_conv_sum_set_nat lessThan_atLeast0)
  also have "\<dots> = length sels" using range by (rule sum_count_list_grid)
  finally have total: "(\<Sum>row \<leftarrow> M. sum_list row) = length sels" .
  have "l < length M \<and> nat e < length (M ! l) \<and> M ! l ! nat e = count_list sels (l, e)"
    if "(l, e) \<in> set sels" for l e
    using range[OF that] entry[of e l] by (simp add: M' len split: if_splits)
  then show ?thesis using total by blast
qed

theorem heatmap_counts_selections_witness:
  "(\<Sum>row \<leftarrow> create_heatmap_data (sc_counts (analyze_expert_selection
      [example_record [[[1, 2]], [[300, 2]]]] {} init_counts)) None None. sum_list row) = 3"
proof -
  have "length (selections {} [example_record [[[1, 2]], [[300, 2]]]]) = 3" by code_simp
  with heatmap_counts_selections[OF refl refl, of "{}" "[example_record [[[1, 2]], [[300, 2]]]]"]
  show ?thesis by metis
qed

section \<open>The output format\<close>

definition kept :: "int list \<Rightarrow> 'f list \<Rightarrow> (int \<times> 'f) list" where
  "kept ids ws = filter (\<lambda>(e, _). valid_expert_id e) (zip ids ws)"

lemma filter_fold:
  assumes "length ks = length ews"
  shows "\<exists>ls'. fold (filter_step logits) (zip ks ews) (ids, ws, ls) =
    (ids @ map fst (filter (\<lambda>(e, _). valid_expert_id e) ews),
     ws @ map snd (filter (\<lambda>(e, _). valid_expert_id e) ews), ls @ ls') \<and>
    (logits = [] \<longrightarrow> ls' = []) \<and>
    ((\<forall>(e, _) \<in> set ews. valid_expert_id e \<longrightarrow> e < int (length logits)) \<longrightarrow>
       ls' = map (\<lambda>(e, _). logits ! nat e) (filter (\<lambda>(e, _). valid_expert_id e) ews))"
  using assms
proof (induction ks ews arbitrary: ids ws ls rule: list_induct2)
  case (Cons k ks ew ews)
  obtain e w where ew: "ew = (e, w)" by (cases ew)
  obtain ids1 ws1 ls1 where f: "filter_step logits (k, ew) (ids, ws, ls) = (ids1, ws1, ls @ ls1)"
    "ids1 = ids @ (if valid_expert_id e then [e] else [])" "ws1 = ws @ (if valid_expert_id e then [w] else [])"
    "logits = [] \<longrightarrow> ls1 = []"
    "(valid_expert_id e \<longrightarrow> e < int (length logits)) \<longrightarrow> ls1 = (if valid_expert_id e then [logits ! nat e] else [])"
    by (cases "valid_expert_id e"; cases "logits = []"; cases "e < int (length logits)"; cases "k < length logits")
       (auto simp: filter_step_def ew valid_expert_id_def)
  from Cons.IH[of ids1 ws1 "ls @ ls1"] f show ?case
    by (auto simp: ew)
qed simp

lemma filter_layer_kept:
  obtains ls where "filter_layer ids ws logits = (map fst (kept ids ws), map snd (kept ids ws), ls)"
    and "logits = [] \<Longrightarrow> ls = []"
    and "\<forall>e \<in> set (map fst (kept ids ws)). e < int (length logits) \<Longrightarrow>
      ls = map (\<lambda>e. logits ! nat e) (map fst (kept ids ws))"
proof -
  have "length [0..<min (length ids) (length ws)] = length (zip ids ws)" by simp
  from filter_fold[OF this, of logits "[]" "[]" "[]"] obtain ls where ls:
    "filter_layer ids ws logits = (map fst (kept ids ws), map snd (kept ids ws), ls)"
    "logits = [] \<longrightarrow> ls = []"
    "(\<forall>(e, _) \<in> set (zip ids ws). valid_expert_id e \<longrightarrow> e < int (length logits)) \<longrightarrow>
       ls = map (\<lambda>(e, _). logits ! nat e) (kept ids ws)"
    by (auto simp: filter_layer_def kept_def)
  have "(\<forall>e \<in> set (map fst (kept ids ws)). e < int (length logits)) \<longrightarrow>
      (\<forall>(e, _) \<in> set (zip ids ws). valid_expert_id e \<longrightarrow> e < int (length logits))"
    by (force simp: kept_def)
  with ls that show ?thesis by (auto simp: case_prod_unfold)
qed

lemma kept_valid: "(e, w) \<in> set (kept ids ws) \<Longrightarrow> 0 \<le> e \<and> e < 256"
  by (auto simp: kept_def valid_expert_id_def)

lemma convert_layer_Some:
  assumes "convert_layer record l = Some (key, ld)"
  obtains ks ls where "ks = kept (batch0 (get_list (er_topk_ids record)) l) (batch0 (get_list (er_topk_weights record)) l)"
    and "ks \<noteq> []" and "key = py_str (int l)"
    and "filter_layer (batch0 (get_list (er_topk_ids record)) l) (batch0 (get_list (er_topk_weights record)) l)
      (batch0 (get_list (er_router_logits record)) l) = (map fst ks, map snd ks, ls)"
    and "ld = \<lparr>ld_expert_ids = Some (map fst ks), ld_weights = Some (map (JFloat \<circ> snd) ks),
       ld_logits = (if ls = [] then None else Some ls),
       ld_next_expert_logit = next_expert_logit_of (map fst ks) (batch0 (get_list (er_router_logits record)) l)\<rparr>"
proof -
  let ?ks = "kept (batch0 (get_list (er_topk_ids record)) l) (batch0 (get_list (er_topk_weights record)) l)"
  obtain ls where ls: "filter_layer (batch0 (get_list (er_topk_ids record)) l) (batch0 (get_list (er_topk_weights record)) l)
      (batch0 (get_list (er_router_logits record)) l) = (map fst ?ks, map snd ?ks, ls)"
    by (rule filter_layer_kept)
  show ?thesis
    by (rule that[OF refl _ _ ls]) (use assms ls in \<open>auto simp: convert_layer_def Let_def comp_def split: if_splits\<close>)
qed

text \<open>
  Every layer of a converted record is well formed: its key is read back by \<^verbatim>\<open>int\<close> as the
  layer's position, its expert ids are non-empty and lie in 0..255, they come with exactly one
  numeric weight each, and the layer keys of a record are distinct.
\<close>

theorem converted_record_well_formed:
  "distinct (map fst (layers_of (convert_record_to_output_format record))) \<and>
   (\<forall>(key, ld) \<in> set (layers_of (convert_record_to_output_format record)).
      (\<exists>l < length (get_list (er_topk_ids record)). py_int key = Some (int l)) \<and>
      get_list (ld_expert_ids ld) \<noteq> [] \<and>
      (\<forall>e \<in> set (get_list (ld_expert_ids ld)). 0 \<le> e \<and> e < 256) \<and>
      length (get_list (ld_weights ld)) = length (get_list (ld_expert_ids ld)) \<and>
      (\<forall>w \<in> set (get_list (ld_weights ld)). py_float w \<noteq> None))"
proof -
  let ?n = "length (get_list (er_topk_ids record))"
  have "map fst (List.map_filter (convert_layer record) ls) =
      map (\<lambda>l. py_str (int l)) (filter (\<lambda>l. convert_layer record l \<noteq> None) ls)" for ls
    by (induction ls) (auto simp: map_filter_simps elim!: convert_layer_Some split: option.splits)
  then have "distinct (map fst (layers_of (convert_record_to_output_format record)))"
    by (auto simp: convert_record_to_output_format_def distinct_map inj_on_def dest: injD[OF inj_py_str])
  moreover have "(\<exists>l < ?n. py_int key = Some (int l)) \<and>
      get_list (ld_expert_ids ld) \<noteq> [] \<and>
      (\<forall>e \<in> set (get_list (ld_expert_ids ld)). 0 \<le> e \<and> e < 256) \<and>
      length (get_list (ld_weights ld)) = length (get_list (ld_expert_ids ld)) \<and>
      (\<forall>w \<in> set (get_list (ld_weights ld)). py_float w \<noteq> None)"
    if "(key, ld) \<in> set (layers_of (convert_record_to_output_format record))" for key ld
  proof -
    from that obtain l where "l < ?n" and c: "convert_layer record l = Some (key, ld)"
      by (auto simp: convert_record_to_output_format_def List.map_filter_def)
    then show ?thesis
      by (auto simp: py_int_str dest!: kept_valid elim!: convert_layer_Some)
  qed
  ultimately show ?thesis by blast
qed

definition mixed_record :: "rat expert_record" where
  "mixed_record = \<lparr>er_topk_ids = Some [[[2, -1]], [[0, 300]]], er_topk_weights = Some [[[3, 1]], [[1, 1]]],
     er_router_logits = Some [[[5, 1, 7]], [[1, 2, 3]]], er_input_ids = None, er_aligned = None\<rparr>"

theorem converted_record_well_formed_witness:
  "map fst (layers_of (convert_record_to_output_format mixed_record)) = [''0'', ''1''] \<and>
   distinct (map fst (layers_of (convert_record_to_output_format mixed_record))) \<and>
   list_all (\<lambda>(key, ld). get_list (ld_expert_ids ld) \<noteq> [] \<and>
       length (get_list (ld_weights ld)) = length (get_list (ld_expert_ids ld)))
     (layers_of (convert_record_to_output_format mixed_record))"
proof -
  have "map fst (layers_of (convert_record_to_output_format mixed_record)) = [''0'', ''1'']" by code_simp
  then show ?thesis using converted_record_well_formed[of mixed_record] by (auto simp: list_all_iff split_def)
qed

end
