(* ===== verification/Rss.thy ===== *)
theory Rss
  imports Token_Records
begin

text \<open>
  Model of \<^verbatim>\<open>metric/utils/rss.py\<close>, the Routing Stiffness Score: sampling of records, the
  logit margin of a token on a layer, the Monte Carlo test whether a bounded perturbation keeps
  the routed set, and the per-layer and global results.

  What the script takes from NumPy is a parameter: a record of functions, with what NumPy
  documents of them as the named hypotheses below. A random generator is a state of type
  \<open>'g\<close> that each draw returns updated.
\<close>

section \<open>NumPy\<close>

record ('f, 'g) numpy =
  np_default_rng :: "int option \<Rightarrow> 'g"
  np_choice :: "'g \<Rightarrow> nat \<Rightarrow> int \<Rightarrow> nat list result"
  np_uniform :: "'g \<Rightarrow> 'f \<Rightarrow> 'f \<Rightarrow> 'f \<times> 'g"
  np_uniform_vec :: "'g \<Rightarrow> 'f \<Rightarrow> 'f \<Rightarrow> nat \<Rightarrow> 'f list \<times> 'g"
  np_add :: "'f list \<Rightarrow> 'f list \<Rightarrow> 'f list"
  np_min :: "'f list \<Rightarrow> 'f"
  np_mean :: "'f list \<Rightarrow> 'f"
  np_std :: "'f list \<Rightarrow> 'f"

text \<open>\<^verbatim>\<open>Generator.choice(n, size=k, replace=False)\<close> draws \<open>k\<close> distinct indices below \<open>n\<close>.\<close>

definition choice_spec :: "('f, 'g) numpy \<Rightarrow> bool" where
  "choice_spec np \<longleftrightarrow>
     (\<forall>g n k. 0 \<le> k \<and> k \<le> int n \<longrightarrow>
        (\<exists>idx. np_choice np g n k = Inr idx \<and> int (length idx) = k \<and> distinct idx \<and> set idx \<subseteq> {..<n}))"

text \<open>\<^verbatim>\<open>Generator.uniform(lo, hi)\<close> stays between its bounds.\<close>

definition uniform_spec :: "('f::linordered_field, 'g) numpy \<Rightarrow> bool" where
  "uniform_spec np \<longleftrightarrow>
     (\<forall>g lo hi. lo \<le> hi \<longrightarrow> lo \<le> fst (np_uniform np g lo hi) \<and> fst (np_uniform np g lo hi) \<le> hi) \<and>
     (\<forall>g lo hi n. lo \<le> hi \<longrightarrow> length (fst (np_uniform_vec np g lo hi n)) = n \<and>
        (\<forall>x \<in> set (fst (np_uniform_vec np g lo hi n)). lo \<le> x \<and> x \<le> hi))"

text \<open>Vector addition, the minimum and the mean of non-empty arrays.\<close>

definition array_spec :: "('f::linordered_field, 'g) numpy \<Rightarrow> bool" where
  "array_spec np \<longleftrightarrow>
     (\<forall>xs ys. length xs = length ys \<longrightarrow> np_add np xs ys = map2 (+) xs ys) \<and>
     (\<forall>xs. xs \<noteq> [] \<longrightarrow> np_min np xs = Min (set xs)) \<and>
     (\<forall>xs. xs \<noteq> [] \<longrightarrow> np_mean np xs = sum_list xs / of_nat (length xs))"

section \<open>Sampling and margins\<close>

definition prepare_records ::
  "('f, 'g) numpy \<Rightarrow> 'r list \<Rightarrow> int option \<Rightarrow> int option \<Rightarrow> 'r list result" where
  "prepare_records np records num_samples random_seed =
     (case num_samples of
        None \<Rightarrow> Inr records
      | Some k \<Rightarrow>
          if k \<ge> int (length records) then Inr records
          else
            bind_res (np_choice np (np_default_rng np random_seed) (length records) k) (\<lambda>indices.
              map_res (\<lambda>i. py_nth records (int i)) indices))"

definition infer_topk :: "'f layer_data \<Rightarrow> nat" where
  "infer_topk ld = length (get_list (ld_expert_ids ld))"

record 'f margin_entry =
  me_margin :: 'f
  me_weakest_selected_logit :: 'f
  me_strongest_unselected_logit :: 'f
  me_topk :: nat

definition extract_layer_margin :: "('f::linordered_field) layer_data \<Rightarrow> 'f margin_entry option" where
  "extract_layer_margin ld =
     (let expert_ids = get_list (ld_expert_ids ld); logits = get_list (ld_logits ld) in
      if expert_ids = [] \<or> logits = [] then None
      else if length logits \<noteq> length expert_ids then None
      else case ld_next_expert_logit ld of
        None \<Rightarrow> None
      | Some next_expert_logit \<Rightarrow>
          let weakest = Min (set logits) in
          Some \<lparr>me_margin = weakest - next_expert_logit, me_weakest_selected_logit = weakest,
                me_strongest_unselected_logit = next_expert_logit, me_topk = infer_topk ld\<rparr>)"

section \<open>Perturbation test\<close>

definition perturbation_keeps_topk ::
  "('f::linordered_field, 'g) numpy \<Rightarrow> 'f list \<Rightarrow> 'f \<Rightarrow> 'f \<Rightarrow> 'g \<Rightarrow> bool \<times> 'g" where
  "perturbation_keeps_topk np selected_logits next_logit perturbation_scale rng =
     (let (selected_noise, rng) =
            np_uniform_vec np rng (- perturbation_scale) perturbation_scale (length selected_logits);
          (next_noise, rng) = np_uniform np rng (- perturbation_scale) perturbation_scale;
          perturbed_selected = np_add np selected_logits selected_noise;
          perturbed_next = next_logit + next_noise
      in (np_min np perturbed_selected > perturbed_next, rng))"

text \<open>One trial of the inner loop; the state is the generator, the stable count and the trials.\<close>

definition trial ::
  "('f::linordered_field, 'g) numpy \<Rightarrow> 'f \<Rightarrow> 'f list \<Rightarrow> 'f \<Rightarrow> 'g \<times> nat \<times> nat \<Rightarrow> 'g \<times> nat \<times> nat" where
  "trial np perturbation_scale selected_logits next_logit st =
     (case st of (rng, stable_count, total_trials) \<Rightarrow>
        let (keeps, rng) = perturbation_keeps_topk np selected_logits next_logit perturbation_scale rng
        in (rng, if keeps then Suc stable_count else stable_count, Suc total_trials))"

type_synonym 'f rss_entry = "'f margin_entry \<times> 'f list"

definition simulate_entry ::
  "('f::linordered_field, 'g) numpy \<Rightarrow> 'f \<Rightarrow> int \<Rightarrow> 'f rss_entry \<Rightarrow> 'g \<times> nat \<times> nat \<Rightarrow> 'g \<times> nat \<times> nat" where
  "simulate_entry np perturbation_scale num_simulations entry st =
     fold (\<lambda>_. trial np perturbation_scale (snd entry) (me_strongest_unselected_logit (fst entry)))
       (py_range num_simulations) st"

section \<open>Results per layer\<close>

definition collect_step ::
  "string \<times> ('f::linordered_field) layer_data \<Rightarrow> (string, 'f rss_entry list) dict \<Rightarrow>
     (string, 'f rss_entry list) dict" where
  "collect_step layer d =
     (case layer of (layer_id, ld) \<Rightarrow>
        case extract_layer_margin ld of
          None \<Rightarrow> d
        | Some me \<Rightarrow> dict_upd layer_id [] (\<lambda>es. es @ [(me, get_list (ld_logits ld))]) d)"

definition collect_entries ::
  "('f::linordered_field) token_record list \<Rightarrow> (string, 'f rss_entry list) dict" where
  "collect_entries records = fold (\<lambda>r. fold collect_step (layers_of r)) records []"

text \<open>\<^verbatim>\<open>sorted(keys, key=int)\<close>: a key that is not an integer raises \<^verbatim>\<open>ValueError\<close>.\<close>

definition sorted_by_int :: "string list \<Rightarrow> string list result" where
  "sorted_by_int keys =
     (if \<exists>k \<in> set keys. py_int k = None then Inl ValueError
      else Inr (sort_key (\<lambda>k. the (py_int k)) keys))"

record 'f rss_layer =
  rs_rss_margin :: 'f
  rs_margin_std :: 'f
  rs_weakest_selected_logit_mean :: 'f
  rs_strongest_unselected_logit_mean :: 'f
  rs_num_samples :: nat
  rs_topk :: nat
  rs_perturbation_scale :: 'f
  rs_stability_rate :: "'f option"

definition stability_rate_of :: "nat \<Rightarrow> nat \<Rightarrow> ('f::linordered_field) option" where
  "stability_rate_of stable_count total_trials =
     (if total_trials > 0 then Some (of_nat stable_count / of_nat total_trials) else None)"

definition rss_layer_step ::
  "('f::linordered_field, 'g) numpy \<Rightarrow> int \<Rightarrow> 'f \<Rightarrow> 'f rss_entry list \<Rightarrow> 'g \<Rightarrow> 'f rss_layer \<times> 'g" where
  "rss_layer_step np num_simulations perturbation_scale entries rng =
     (let margins = map (me_margin \<circ> fst) entries;
          weakest_logits = map (me_weakest_selected_logit \<circ> fst) entries;
          next_logits = map (me_strongest_unselected_logit \<circ> fst) entries;
          (rng, stability_rate) =
            (if perturbation_scale > 0 \<and> num_simulations > 0 then
               case fold (simulate_entry np perturbation_scale num_simulations) entries (rng, 0, 0) of
                 (rng, stable_count, total_trials) \<Rightarrow> (rng, stability_rate_of stable_count total_trials)
             else (rng, None))
      in (\<lparr>rs_rss_margin = np_mean np margins, rs_margin_std = np_std np margins,
           rs_weakest_selected_logit_mean = np_mean np weakest_logits,
           rs_strongest_unselected_logit_mean = np_mean np next_logits,
           rs_num_samples = length entries,
           rs_topk = (case entries of [] \<Rightarrow> 0 | e # _ \<Rightarrow> me_topk (fst e)),
           rs_perturbation_scale = perturbation_scale,
           rs_stability_rate = stability_rate\<rparr>, rng))"

record 'f rss_results =
  rr_num_records :: nat
  rr_layer_results :: "(string, 'f rss_layer) dict"
  rr_global_rss_margin :: 'f
  rr_global_margin_std :: 'f
  rr_global_stability_rate :: "'f option"

text \<open>The loop over the layers threads the generator and collects margins and rates.\<close>

fun rss_layers_loop ::
  "('f::linordered_field, 'g) numpy \<Rightarrow> int \<Rightarrow> 'f \<Rightarrow> (string, 'f rss_entry list) dict \<Rightarrow> string list \<Rightarrow> 'g \<Rightarrow>
     (string, 'f rss_layer) dict" where
  "rss_layers_loop np num_simulations perturbation_scale entries [] rng = []"
| "rss_layers_loop np num_simulations perturbation_scale entries (layer_id # ids) rng =
     (case rss_layer_step np num_simulations perturbation_scale (dict_get entries layer_id []) rng of
        (res, rng) \<Rightarrow>
          (layer_id, res) # rss_layers_loop np num_simulations perturbation_scale entries ids rng)"

definition calculate_rss_by_layer ::
  "('f::linordered_field, 'g) numpy \<Rightarrow> 'f token_record list \<Rightarrow> int \<Rightarrow> 'f \<Rightarrow> int option \<Rightarrow> 'f rss_results result" where
  "calculate_rss_by_layer np records num_simulations perturbation_scale random_seed =
     (let entries = collect_entries records in
      bind_res (sorted_by_int (dict_keys entries)) (\<lambda>layer_ids.
        let layer_results =
              rss_layers_loop np num_simulations perturbation_scale entries layer_ids
                (np_default_rng np random_seed);
            all_margins = concat (map (\<lambda>l. map (me_margin \<circ> fst) (dict_get entries l [])) layer_ids);
            all_stability_rates = List.map_filter (rs_stability_rate \<circ> snd) layer_results
        in Inr \<lparr>rr_num_records = length records,
                rr_layer_results = layer_results,
                rr_global_rss_margin = (if all_margins \<noteq> [] then np_mean np all_margins else 0),
                rr_global_margin_std = (if all_margins \<noteq> [] then np_std np all_margins else 0),
                rr_global_stability_rate =
                  (if all_stability_rates \<noteq> [] then Some (np_mean np all_stability_rates) else None)\<rparr>))"

section \<open>Sampling without replacement\<close>

lemma map_res_nth:
  assumes "set idx \<subseteq> {..<length xs}"
  shows "map_res (\<lambda>i. py_nth xs (int i)) idx = Inr (map (\<lambda>i. xs ! i) idx)"
  using assms by (intro map_res_Inr py_nth_nat) auto

lemma mset_map_nth_distinct:
  assumes "distinct idx" and "set idx \<subseteq> {..<length xs}"
  shows "mset (map (\<lambda>i. xs ! i) idx) \<subseteq># mset xs"
proof -
  have "mset idx = mset_set (set idx)" using assms(1) by (simp add: mset_set_set)
  then have "mset idx \<subseteq># mset [0..<length xs]"
    using assms(2) by (simp add: lessThan_atLeast0)
  then have "image_mset (\<lambda>i. xs ! i) (mset idx) \<subseteq># image_mset (\<lambda>i. xs ! i) (mset [0..<length xs])"
    by (rule image_mset_subseteq_mono)
  moreover have "image_mset (\<lambda>i. xs ! i) (mset [0..<length xs]) = mset xs"
    by (metis map_nth mset_map)
  ultimately show ?thesis by simp
qed

text \<open>
  With a generator that draws without replacement, sampling returns either all records or
  exactly \<open>num_samples\<close> of them, each record of the file used at most once.
\<close>

theorem prepare_records_subsample:
  assumes "choice_spec np" and "\<forall>k. num_samples = Some k \<longrightarrow> 0 \<le> k"
  shows "\<exists>rs. prepare_records np records num_samples seed = Inr rs \<and> mset rs \<subseteq># mset records \<and>
    (case num_samples of None \<Rightarrow> rs = records
      | Some k \<Rightarrow> int (length rs) = min k (int (length records)))"
proof (cases "num_samples")
  case None
  then show ?thesis by (simp add: prepare_records_def)
next
  case (Some k)
  show ?thesis
  proof (cases "k \<ge> int (length records)")
    case True
    with Some show ?thesis by (simp add: prepare_records_def)
  next
    case False
    then obtain idx where idx: "np_choice np (np_default_rng np seed) (length records) k = Inr idx"
      "int (length idx) = k" "distinct idx" "set idx \<subseteq> {..<length records}"
      using assms Some unfolding choice_spec_def by (metis linorder_le_cases)
    with Some False show ?thesis
      using mset_map_nth_distinct[OF idx(3,4)]
      by (auto simp: prepare_records_def map_res_nth)
  qed
qed

text \<open>A generator that satisfies the hypotheses: it draws the first indices and the middle value.\<close>

definition example_numpy :: "(rat, unit) numpy" where
  "example_numpy =
     \<lparr>np_default_rng = (\<lambda>_. ()),
      np_choice = (\<lambda>g n k. if 0 \<le> k \<and> k \<le> int n then Inr [0..<nat k] else Inl ValueError),
      np_uniform = (\<lambda>g lo hi. ((lo + hi) / 2, g)),
      np_uniform_vec = (\<lambda>g lo hi n. (replicate n ((lo + hi) / 2), g)),
      np_add = map2 (+), np_min = (\<lambda>xs. Min (set xs)),
      np_mean = (\<lambda>xs. sum_list xs / of_nat (length xs)), np_std = (\<lambda>xs. 0)\<rparr>"

lemma example_numpy_specs:
  "choice_spec example_numpy" "uniform_spec example_numpy" "array_spec example_numpy"
  by (auto simp: choice_spec_def uniform_spec_def array_spec_def example_numpy_def field_simps)

theorem prepare_records_subsample_witness:
  "prepare_records example_numpy [7, 8, 9 :: nat] (Some 2) None = Inr [7, 8] \<and>
   mset [7, 8 :: nat] \<subseteq># mset [7, 8, 9]"
proof -
  have r: "prepare_records example_numpy [7, 8, 9 :: nat] (Some 2) None = Inr [7, 8]" by code_simp
  from prepare_records_subsample[OF example_numpy_specs(1), of "Some 2" "[7, 8, 9 :: nat]" None] r
  show ?thesis by auto
qed

section \<open>Margins\<close>

lemma extract_layer_margin_Some:
  "extract_layer_margin ld = Some me \<longleftrightarrow>
     (\<exists>z. ld_next_expert_logit ld = Some z \<and> get_list (ld_logits ld) \<noteq> [] \<and>
        length (get_list (ld_logits ld)) = length (get_list (ld_expert_ids ld)) \<and>
        me = \<lparr>me_margin = Min (set (get_list (ld_logits ld))) - z,
              me_weakest_selected_logit = Min (set (get_list (ld_logits ld))),
              me_strongest_unselected_logit = z,
              me_topk = length (get_list (ld_expert_ids ld))\<rparr>)"
  by (auto simp: extract_layer_margin_def infer_topk_def Let_def split: option.splits)

text \<open>
  A layer gives a margin exactly when it has logits aligned with its experts and the
  strongest unselected logit; the margin is the distance from the weakest selected logit to it,
  so it is positive exactly when every selected expert beats every expert that was left out.
\<close>

theorem extract_layer_margin_correct:
  "(extract_layer_margin ld = None \<longleftrightarrow>
      get_list (ld_logits ld) = [] \<or> ld_next_expert_logit ld = None \<or>
      length (get_list (ld_logits ld)) \<noteq> length (get_list (ld_expert_ids ld))) \<and>
   (\<forall>me. extract_layer_margin ld = Some me \<longrightarrow>
      (\<exists>z. ld_next_expert_logit ld = Some z \<and>
        (0 < me_margin me \<longleftrightarrow> (\<forall>x \<in> set (get_list (ld_logits ld)). z < x)) \<and>
        (\<exists>x \<in> set (get_list (ld_logits ld)). me_margin me = x - z) \<and>
        (\<forall>x \<in> set (get_list (ld_logits ld)). me_margin me \<le> x - z) \<and>
        me_topk me = length (get_list (ld_logits ld))))"
proof -
  have None: "extract_layer_margin ld = None \<longleftrightarrow>
      get_list (ld_logits ld) = [] \<or> ld_next_expert_logit ld = None \<or>
      length (get_list (ld_logits ld)) \<noteq> length (get_list (ld_expert_ids ld))"
    by (auto simp: extract_layer_margin_def Let_def split: option.splits)
  show ?thesis
    by (intro conjI None allI impI)
       (auto simp: extract_layer_margin_Some intro!: bexI[where x = "Min (set (get_list (ld_logits ld)))"])
qed

definition margin_example :: "rat layer_data" where
  "margin_example = \<lparr>ld_expert_ids = Some [3, 5], ld_weights = None, ld_logits = Some [4, 2],
     ld_next_expert_logit = Some 1\<rparr>"

theorem extract_layer_margin_correct_witness:
  "\<exists>me. extract_layer_margin margin_example = Some me \<and> 0 < me_margin me"
proof -
  have n: "extract_layer_margin margin_example \<noteq> None"
    using extract_layer_margin_correct[of margin_example] by (simp add: margin_example_def)
  then obtain me where me: "extract_layer_margin margin_example = Some me" by blast
  have "0 < me_margin me"
    using extract_layer_margin_correct[of margin_example] me by (auto simp: margin_example_def)
  with me show ?thesis by blast
qed

section \<open>Stability under perturbation\<close>

text \<open>The smallest sum of two lists lies above a bound when every pair of entries does.\<close>

lemma Min_map2_plus_gr:
  fixes xs ys :: "'f::linordered_field list"
  assumes "length xs = length ys" and "xs \<noteq> []"
    and "\<And>x y. x \<in> set xs \<Longrightarrow> y \<in> set ys \<Longrightarrow> b < x + y"
  shows "b < Min (set (map2 (+) xs ys))"
proof -
  have "map2 (+) xs ys \<noteq> []" using assms(1,2) by (cases xs; cases ys) auto
  then show ?thesis using assms(3) by (auto dest: set_zip_leftD set_zip_rightD)
qed

lemma keeps_topk_wide_margin:
  assumes "uniform_spec np" and "array_spec np" and "0 \<le> eps" and "xs \<noteq> []"
    and "2 * eps < Min (set xs) - z"
  shows "fst (perturbation_keeps_topk np xs z eps g)"
proof -
  obtain noise g1 where n1: "np_uniform_vec np g (- eps) eps (length xs) = (noise, g1)" by fastforce
  obtain nn g2 where n2: "np_uniform np g1 (- eps) eps = (nn, g2)" by fastforce
  have "- eps \<le> eps" using assms(3) by simp
  then have noise: "length noise = length xs" "\<forall>y \<in> set noise. - eps \<le> y" and nn: "nn \<le> eps"
    using assms(1) n1 n2 unfolding uniform_spec_def by (metis fst_conv)+
  have ne: "map2 (+) xs noise \<noteq> []" using noise(1) assms(4) by (cases xs; cases noise) auto
  have "z + nn < Min (set (map2 (+) xs noise))"
  proof (rule Min_map2_plus_gr)
    fix x y assume "x \<in> set xs" "y \<in> set noise"
    then have "Min (set xs) \<le> x" "- eps \<le> y" using noise(2) by auto
    then show "z + nn < x + y" using nn assms(5) by linarith
  qed (use noise(1) assms(4) in auto)
  then show ?thesis
    using assms(2) noise(1) ne by (simp add: perturbation_keeps_topk_def n1 n2 array_spec_def)
qed

text \<open>Counting trials: every trial is counted, stable ones at most once.\<close>

lemma fold_trials:
  assumes "fold (\<lambda>_. trial np eps xs z) ys (g, s, t) = (g', s', t')"
  shows "t' = t + length ys \<and> s \<le> s' \<and> s' \<le> s + length ys \<and>
    ((\<forall>g. fst (perturbation_keeps_topk np xs z eps g)) \<longrightarrow> s' = s + length ys)"
  using assms
proof (induction ys arbitrary: g s t)
  case (Cons y ys)
  obtain k g1 where kg: "perturbation_keeps_topk np xs z eps g = (k, g1)" by fastforce
  have "trial np eps xs z (g, s, t) = (g1, if k then Suc s else s, Suc t)"
    using kg by (simp add: trial_def)
  with Cons.prems have "fold (\<lambda>_. trial np eps xs z) ys (g1, if k then Suc s else s, Suc t) = (g', s', t')"
    by simp
  from Cons.IH[OF this] kg show ?case by (auto split: if_splits) (metis fst_conv)+
qed simp

lemma simulate_entries:
  assumes "fold (simulate_entry np eps n) es (g, s, t) = (g', s', t')"
  shows "t' = t + length es * nat n \<and> s \<le> s' \<and> s' \<le> s + length es * nat n \<and>
    ((\<forall>e \<in> set es. \<forall>g. fst (perturbation_keeps_topk np (snd e) (me_strongest_unselected_logit (fst e)) eps g))
       \<longrightarrow> s' = s + length es * nat n)"
  using assms
proof (induction es arbitrary: g s t)
  case (Cons e es)
  obtain g1 s1 t1 where e: "simulate_entry np eps n e (g, s, t) = (g1, s1, t1)" by (metis prod_cases3)
  from fold_trials[OF e[unfolded simulate_entry_def]]
  have 1: "t1 = t + nat n" "s \<le> s1" "s1 \<le> s + nat n"
    "(\<forall>g. fst (perturbation_keeps_topk np (snd e) (me_strongest_unselected_logit (fst e)) eps g)) \<longrightarrow> s1 = s + nat n"
    by (auto simp: length_py_range)
  from Cons.IH[of g1 s1 t1] Cons.prems e 1 show ?case by auto
qed simp

lemma stability_rate_of_bounds:
  assumes "stability_rate_of s t = Some (r :: 'f::linordered_field)" and "s \<le> t"
  shows "0 \<le> r \<and> r \<le> 1"
  using assms ratio_unit_interval[of s t, where 'f = 'f] by (auto simp: stability_rate_of_def split: if_splits)

lemma rss_layer_step_rate:
  assumes "0 < eps" and "0 < n" and "es \<noteq> []"
  obtains s :: nat where "rs_stability_rate (fst (rss_layer_step np n eps es g)) = stability_rate_of s (length es * nat n)"
    and "s \<le> length es * nat n"
    and "(\<forall>e \<in> set es. \<forall>g. fst (perturbation_keeps_topk np (snd e) (me_strongest_unselected_logit (fst e)) eps g))
       \<longrightarrow> s = length es * nat n"
proof -
  obtain g' s t where f: "fold (simulate_entry np eps n) es (g, 0, 0) = (g', s, t)" by (metis prod_cases3)
  from simulate_entries[OF f] that[of s] assms f show ?thesis
    by (auto simp: rss_layer_step_def Let_def)
qed

text \<open>
  (C38) The Monte Carlo estimate agrees with the margin: when every entry of a layer has a margin
  of more than twice the perturbation scale, the estimated stability rate of the layer is 1 for
  every generator whose draws stay within the scale; in general the rate is in the unit interval.
\<close>

theorem stability_rate_wide_margin:
  fixes np :: "('f::linordered_field, 'g) numpy"
  assumes spec: "uniform_spec np" "array_spec np" and eps: "0 < eps" and n: "0 < n" and ne: "es \<noteq> []"
    and entries: "\<forall>(me, logits) \<in> set es. logits \<noteq> [] \<and>
      me_margin me = Min (set logits) - me_strongest_unselected_logit me"
  shows "(\<exists>r. rs_stability_rate (fst (rss_layer_step np n eps es g)) = Some r \<and> 0 \<le> r \<and> r \<le> 1) \<and>
    ((\<forall>(me, logits) \<in> set es. 2 * eps < me_margin me) \<longrightarrow>
      rs_stability_rate (fst (rss_layer_step np n eps es g)) = Some 1)"
proof -
  from rss_layer_step_rate[OF eps n ne] obtain s where
    s: "rs_stability_rate (fst (rss_layer_step np n eps es g)) = stability_rate_of s (length es * nat n)"
      "s \<le> length es * nat n"
      "(\<forall>e \<in> set es. \<forall>g. fst (perturbation_keeps_topk np (snd e) (me_strongest_unselected_logit (fst e)) eps g))
       \<longrightarrow> s = length es * nat n"
    by metis
  have pos: "0 < length es * nat n" using n ne by simp
  have "s = length es * nat n" if wide: "\<forall>(me, logits) \<in> set es. 2 * eps < me_margin me"
    using s(3) entries wide keeps_topk_wide_margin[OF spec] eps by (fastforce simp: case_prod_unfold)
  moreover have "stability_rate_of k k = Some (1 :: 'f)" if "0 < k" for k
    using that by (simp add: stability_rate_of_def)
  moreover have "\<exists>r. stability_rate_of s (length es * nat n) = Some (r :: 'f)"
    using pos by (simp add: stability_rate_of_def)
  ultimately show ?thesis
    using s(1,2) pos stability_rate_of_bounds[where 'f = 'f, of s "length es * nat n"] by metis
qed

theorem stability_rate_wide_margin_witness:
  "rs_stability_rate (fst (rss_layer_step example_numpy 3 (1 / 4)
     [(\<lparr>me_margin = 1, me_weakest_selected_logit = 2, me_strongest_unselected_logit = 1, me_topk = 2\<rparr>,
       [4, 2])] ())) = Some 1"
  using stability_rate_wide_margin[OF example_numpy_specs(2,3), of "1 / 4" 3
      "[(\<lparr>me_margin = 1, me_weakest_selected_logit = 2, me_strongest_unselected_logit = 1, me_topk = 2\<rparr>, [4, 2])]" "()"]
  by simp

section \<open>Global score\<close>

lemma rss_layers_loop_ids: "map fst (rss_layers_loop np n eps entries ids g) = ids"
  by (induction ids arbitrary: g) (auto split: prod.splits)

lemma rss_layer_step_margin:
  "rs_rss_margin (fst (rss_layer_step np n eps es g)) = np_mean np (map (me_margin \<circ> fst) es)"
  "rs_num_samples (fst (rss_layer_step np n eps es g)) = length es"
  by (simp_all add: rss_layer_step_def Let_def split: prod.splits)

lemma mean_times_length:
  "array_spec np \<Longrightarrow> xs \<noteq> [] \<Longrightarrow> of_nat (length xs) * np_mean np xs = (sum_list xs :: 'f::linordered_field)"
  by (simp add: array_spec_def)

lemma rss_layers_loop_sum:
  fixes np :: "('f::linordered_field, 'g) numpy"
  assumes "array_spec np" and "\<forall>l \<in> set ids. dict_get entries l [] \<noteq> []"
  shows "(\<Sum>(_, r) \<leftarrow> rss_layers_loop np n eps entries ids g. of_nat (rs_num_samples r) * rs_rss_margin r) =
    sum_list (concat (map (\<lambda>l. map (me_margin \<circ> fst) (dict_get entries l [])) ids))"
  using assms(2)
proof (induction ids arbitrary: g)
  case (Cons l ids)
  obtain r g' where r: "rss_layer_step np n eps (dict_get entries l []) g = (r, g')" by fastforce
  have "of_nat (rs_num_samples r) * rs_rss_margin r = sum_list (map (me_margin \<circ> fst) (dict_get entries l []))"
    using rss_layer_step_margin[of np n eps "dict_get entries l []" g] r Cons.prems
      mean_times_length[OF assms(1), of "map (me_margin \<circ> fst) (dict_get entries l [])"] by simp
  with Cons r show ?case by (simp add: comp_def)
qed simp

lemma rss_layers_loop_samples:
  "(\<Sum>(_, r) \<leftarrow> rss_layers_loop np n eps entries ids g. rs_num_samples r) =
     length (concat (map (\<lambda>l. map (me_margin \<circ> fst) (dict_get entries l [])) ids))"
proof (induction ids arbitrary: g)
  case (Cons l ids)
  then show ?case
    using rss_layer_step_margin(2)[of np n eps "dict_get entries l []" g]
    by (cases "rss_layer_step np n eps (dict_get entries l []) g") simp
qed simp

lemma collect_nonempty_entries:
  assumes "l \<in> fst ` set (collect_entries records)"
  shows "dict_get (collect_entries records) l [] \<noteq> []"
proof -
  let ?P = "\<lambda>d. \<forall>l. l \<in> fst ` set d \<longrightarrow> dict_get d l [] \<noteq> []"
  have step: "?P d \<Longrightarrow> ?P (collect_step x d)" for x and d :: "(string, 'a rss_entry list) dict"
    by (cases x; cases "extract_layer_margin (snd x)") (simp_all add: collect_step_def dict_simps)
  have "?P (collect_entries records)"
    unfolding collect_entries_def
    by (intro fold_invariant[where P = ?P] step) simp_all
  with assms show ?thesis by blast
qed

text \<open>
  The global RSS margin is the mean over all entries: weighted by the number of samples, the
  layer margins sum to the number of samples times the global margin, whenever the layer keys are
  integers (any other key makes the script stop with \<^verbatim>\<open>ValueError\<close>) and some layer has an entry.
\<close>

theorem global_rss_margin_weighted_mean:
  fixes np :: "('f::linordered_field, 'g) numpy"
  assumes spec: "array_spec np"
    and run: "calculate_rss_by_layer np records n eps seed = Inr res"
    and some: "rr_layer_results res \<noteq> []"
  shows "(\<Sum>(_, r) \<leftarrow> rr_layer_results res. of_nat (rs_num_samples r) * rs_rss_margin r) =
    of_nat (\<Sum>(_, r) \<leftarrow> rr_layer_results res. rs_num_samples r) * rr_global_rss_margin res"
proof -
  let ?E = "collect_entries records"
  obtain ids where ids: "sorted_by_int (dict_keys ?E) = Inr ids"
    and res: "rr_layer_results res = rss_layers_loop np n eps ?E ids (np_default_rng np seed)"
      "rr_global_rss_margin res =
        (let ms = concat (map (\<lambda>l. map (me_margin \<circ> fst) (dict_get ?E l [])) ids) in
         if ms \<noteq> [] then np_mean np ms else 0)"
    using run by (auto simp: calculate_rss_by_layer_def Let_def)
  let ?ms = "concat (map (\<lambda>l. map (me_margin \<circ> fst) (dict_get ?E l [])) ids)"
  have "set ids = fst ` set ?E"
    using ids unfolding sorted_by_int_def dict_keys_def by (force split: if_splits)
  then have ne: "\<forall>l \<in> set ids. dict_get ?E l [] \<noteq> []" using collect_nonempty_entries by blast
  have "?ms \<noteq> []"
    using some ne res(1) by (cases ids) auto
  then show ?thesis
    using rss_layers_loop_samples[of np n eps ?E ids] rss_layers_loop_sum[OF spec ne, of n eps] mean_times_length[OF spec, of ?ms] res
    by (simp add: Let_def)
qed

definition rss_example :: "rat token_record list" where
  "rss_example = [\<lparr>tr_layers = Some [(''0'', margin_example)], tr_request_id = Some 0, tr_prompt = None\<rparr>]"

theorem global_rss_margin_weighted_mean_witness:
  "\<exists>res. calculate_rss_by_layer example_numpy rss_example 0 0 None = Inr res \<and>
     (\<Sum>(_, r) \<leftarrow> rr_layer_results res. of_nat (rs_num_samples r) * rs_rss_margin r) =
     of_nat (\<Sum>(_, r) \<leftarrow> rr_layer_results res. rs_num_samples r) * rr_global_rss_margin res"
proof -
  have "map_sum id (map fst \<circ> rr_layer_results) (calculate_rss_by_layer example_numpy rss_example 0 0 None) =
      Inr [''0'']" by code_simp
  then obtain res where res: "calculate_rss_by_layer example_numpy rss_example 0 0 None = Inr res"
    and "map fst (rr_layer_results res) = [''0'']"
    by (cases "calculate_rss_by_layer example_numpy rss_example 0 0 None") auto
  then have "rr_layer_results res \<noteq> []" by auto
  from global_rss_margin_weighted_mean[OF example_numpy_specs(3) res this] res show ?thesis by blast
qed

end
