(* ===== verification/Expert_Metrics.thy ===== *)
theory Expert_Metrics
  imports Token_Records
begin

text \<open>
  Model of \<^verbatim>\<open>metric/utils/compute_expert_metrics.py\<close>: the per-layer expert weights, the two
  ways of choosing an expert group (cumulative share threshold, top K), the single-token
  routing ratio, the expert sequences per request, the expert-group n-gram statistics and
  \<^verbatim>\<open>main\<close>, which composes them. Printing and writing the JSON and CSV files are left out; what
  is written is the value \<open>main_metrics\<close> returns.
\<close>

section \<open>Expert weights per layer\<close>

type_synonym 'f layer_weights = "(int, (int, 'f) dict) dict \<times> (int, 'f) dict"

text \<open>\<^verbatim>\<open>layer_expert_weights[l][e] += x; layer_total_weight[l] += x\<close>\<close>

definition bump_weight :: "int \<Rightarrow> int \<Rightarrow> 'f::linordered_field \<Rightarrow> 'f layer_weights \<Rightarrow> 'f layer_weights" where
  "bump_weight l e x st =
     (dict_upd l [] (dict_upd e 0 (\<lambda>v. v + x)) (fst st), dict_upd l 0 (\<lambda>v. v + x) (snd st))"

definition layer_weight_step ::
  "int \<times> 'f::linordered_field layer_data \<Rightarrow> 'f layer_weights \<Rightarrow> 'f layer_weights" where
  "layer_weight_step entry st =
     (case entry of (layer_idx, ld) \<Rightarrow>
        let expert_ids = get_list (ld_expert_ids ld); weights = get_list (ld_weights ld) in
        if expert_ids = [] then st
        else if weights \<noteq> [] then
          fold (\<lambda>(expert_id, weight) st.
                  case py_float weight of
                    None \<Rightarrow> st
                  | Some x \<Rightarrow> bump_weight layer_idx expert_id x st)
               (zip expert_ids weights) st
        else fold (\<lambda>expert_id. bump_weight layer_idx expert_id 1) expert_ids st)"

definition compute_layer_expert_weights ::
  "('f::linordered_field) token_record list \<Rightarrow> 'f layer_weights" where
  "compute_layer_expert_weights records =
     fold (\<lambda>record st. fold layer_weight_step (int_layers record) st) records ([], [])"

section \<open>Choosing the expert group\<close>

type_synonym 'f selection = "int list \<times> (int, 'f) dict \<times> 'f"

definition expert_shares_of :: "(int, 'f::linordered_field) dict \<Rightarrow> 'f \<Rightarrow> (int, 'f) dict" where
  "expert_shares_of sorted_items total_weight =
     dict_of_list (map (\<lambda>(expert_id, weight). (expert_id, weight / total_weight)) sorted_items)"

fun threshold_loop ::
  "(int, 'f::linordered_field) dict \<Rightarrow> 'f \<Rightarrow> int list \<Rightarrow> 'f \<Rightarrow> (int \<times> 'f) list \<Rightarrow> int list \<times> 'f" where
  "threshold_loop shares threshold selected cumulative [] = (selected, cumulative)"
| "threshold_loop shares threshold selected cumulative ((expert_id, w) # items) =
     (let share = dict_get shares expert_id 0;
          selected = selected @ [expert_id];
          cumulative = cumulative + share
      in if cumulative \<ge> threshold then (selected, cumulative)
         else threshold_loop shares threshold selected cumulative items)"

definition select_top_experts_by_threshold ::
  "(int, 'f::linordered_field) dict \<Rightarrow> 'f \<Rightarrow> 'f \<Rightarrow> 'f selection" where
  "select_top_experts_by_threshold expert_weights total_weight threshold =
     (if total_weight \<le> 0 then ([], [], 0)
      else
        let sorted_items = sort_desc snd expert_weights;
            expert_shares = expert_shares_of sorted_items total_weight;
            (selected, cumulative) = threshold_loop expert_shares threshold [] 0 sorted_items
        in (selected, expert_shares, cumulative))"

fun topk_loop ::
  "(int, 'f::linordered_field) dict \<Rightarrow> int \<Rightarrow> int \<Rightarrow> int list \<Rightarrow> 'f \<Rightarrow> (int \<times> 'f) list \<Rightarrow> int list \<times> 'f" where
  "topk_loop shares topk i selected cumulative [] = (selected, cumulative)"
| "topk_loop shares topk i selected cumulative ((expert_id, w) # items) =
     (if i \<ge> topk then (selected, cumulative)
      else
        let share = dict_get shares expert_id 0
        in topk_loop shares topk (i + 1) (selected @ [expert_id]) (cumulative + share) items)"

definition select_top_experts_by_topk ::
  "(int, 'f::linordered_field) dict \<Rightarrow> 'f \<Rightarrow> int \<Rightarrow> 'f selection" where
  "select_top_experts_by_topk expert_weights total_weight topk =
     (if total_weight \<le> 0 then ([], [], 0)
      else
        let sorted_items = sort_desc snd expert_weights;
            expert_shares = expert_shares_of sorted_items total_weight;
            (selected, cumulative) = topk_loop expert_shares topk 0 [] 0 sorted_items
        in (selected, expert_shares, cumulative))"

section \<open>Single-token routing ratio\<close>

text \<open>The pair counts \<open>total_tokens\<close> and \<open>group_tokens\<close> of a layer.\<close>

definition routing_step ::
  "(int, int list) dict \<Rightarrow> int \<times> 'f layer_data \<Rightarrow> (int, nat \<times> nat) dict \<Rightarrow> (int, nat \<times> nat) dict" where
  "routing_step expert_groups entry layer_stats =
     (case entry of (layer_idx, ld) \<Rightarrow>
        case primary_expert ld of
          None \<Rightarrow> layer_stats
        | Some primary \<Rightarrow>
            let group = set (dict_get expert_groups layer_idx []) in
            dict_upd layer_idx (0, 0)
              (\<lambda>(tot, grp). (Suc tot, if primary \<in> group then Suc grp else grp)) layer_stats)"

definition compute_routing_ratio_single_token ::
  "'f token_record list \<Rightarrow> (int, int list) dict \<Rightarrow> (int, nat \<times> nat) dict" where
  "compute_routing_ratio_single_token records expert_groups =
     fold (\<lambda>record st. fold (routing_step expert_groups) (int_layers record) st) records []"

section \<open>Expert sequences per request\<close>

type_synonym sequences = "(int, (int, int list) dict) dict"

record seq_state =
  ss_request_sequences :: sequences
  ss_prompt_to_id :: "(string, int) dict"
  ss_next_prompt_id :: int

definition append_primary :: "int \<Rightarrow> int \<times> 'f layer_data \<Rightarrow> sequences \<Rightarrow> sequences" where
  "append_primary request_id entry seqs =
     (case entry of (layer_idx, ld) \<Rightarrow>
        case primary_expert ld of
          None \<Rightarrow> seqs
        | Some primary \<Rightarrow>
            dict_upd request_id [] (dict_upd layer_idx [] (\<lambda>xs. xs @ [primary])) seqs)"

text \<open>
  The identifier of a record: its \<open>request_id\<close>, or else a number allotted to its prompt;
  \<open>None\<close> when it has neither and is skipped.
\<close>

definition record_id :: "'f token_record \<Rightarrow> seq_state \<Rightarrow> (int \<times> seq_state) option" where
  "record_id record st =
     (case tr_request_id record of
        Some request_id \<Rightarrow> Some (request_id, st)
      | None \<Rightarrow>
          (case tr_prompt record of
             None \<Rightarrow> None
           | Some prompt \<Rightarrow>
               (case map_of (ss_prompt_to_id st) prompt of
                  Some pid \<Rightarrow> Some (pid, st)
                | None \<Rightarrow>
                    Some (ss_next_prompt_id st,
                      st\<lparr>ss_prompt_to_id := AList.update prompt (ss_next_prompt_id st) (ss_prompt_to_id st),
                         ss_next_prompt_id := ss_next_prompt_id st + 1\<rparr>))))"

definition seq_step :: "'f token_record \<Rightarrow> seq_state \<Rightarrow> seq_state" where
  "seq_step record st =
     (case record_id record st of
        None \<Rightarrow> st
      | Some (request_id, st) \<Rightarrow>
          if layers_of record = [] then st
          else st\<lparr>ss_request_sequences :=
                    fold (append_primary request_id) (int_layers record) (ss_request_sequences st)\<rparr>)"

definition init_seq_state :: seq_state where
  "init_seq_state = \<lparr>ss_request_sequences = [], ss_prompt_to_id = [], ss_next_prompt_id = 0\<rparr>"

definition extract_expert_sequences_by_request :: "'f token_record list \<Rightarrow> sequences" where
  "extract_expert_sequences_by_request records =
     ss_request_sequences (fold seq_step records init_seq_state)"

section \<open>Expert-group n-grams\<close>

record 'f group_ngram_stats =
  gs_total_ngram_paths :: nat
  gs_group_ngram_paths :: nat
  gs_group_ngram_ratio :: 'f
  gs_unique_group_ngram_paths :: nat

text \<open>The sliding window over one sequence, in order of the start position.\<close>

definition ngrams :: "int \<Rightarrow> int list \<Rightarrow> int list list" where
  "ngrams n expert_seq =
     (if int (length expert_seq) < n then []
      else map (\<lambda>start. py_slice expert_seq start (start + n))
             (py_range (int (length expert_seq) - n + 1)))"

text \<open>One window: total paths, paths inside the group, and the set of distinct ones.\<close>

definition group_ngram_step ::
  "int set \<Rightarrow> int list \<Rightarrow> nat \<times> nat \<times> int list set \<Rightarrow> nat \<times> nat \<times> int list set" where
  "group_ngram_step group_set ngram acc =
     (case acc of (tot, grp, uniq) \<Rightarrow>
        if \<forall>expert_id \<in> set ngram. expert_id \<in> group_set
        then (Suc tot, Suc grp, insert ngram uniq)
        else (Suc tot, grp, uniq))"

definition group_ngram_layer ::
  "sequences \<Rightarrow> int set \<Rightarrow> int \<Rightarrow> int \<Rightarrow> ('f::linordered_field) group_ngram_stats" where
  "group_ngram_layer request_sequences group_set n layer_idx =
     (if group_set = {} then
        \<lparr>gs_total_ngram_paths = 0, gs_group_ngram_paths = 0, gs_group_ngram_ratio = 0,
         gs_unique_group_ngram_paths = 0\<rparr>
      else
        let (tot, grp, uniq) =
              fold (\<lambda>(request_id, layer_data) acc.
                      fold (group_ngram_step group_set) (ngrams n (dict_get layer_data layer_idx [])) acc)
                   request_sequences (0, 0, {})
        in \<lparr>gs_total_ngram_paths = tot, gs_group_ngram_paths = grp,
            gs_group_ngram_ratio = (if tot > 0 then of_nat grp / of_nat tot else 0),
            gs_unique_group_ngram_paths = card uniq\<rparr>)"

definition sequence_layers :: "sequences \<Rightarrow> int list" where
  "sequence_layers request_sequences = concat (map (\<lambda>(_, layer_data). dict_keys layer_data) request_sequences)"

definition calculate_group_ngram_statistics ::
  "sequences \<Rightarrow> (int, int set) dict \<Rightarrow> int \<Rightarrow> (int, ('f::linordered_field) group_ngram_stats) dict" where
  "calculate_group_ngram_statistics request_sequences expert_groups n =
     (let all_layers = sequence_layers request_sequences @ dict_keys expert_groups in
      if all_layers = [] then []
      else
        let num_layers = Max (set all_layers) + 1 in
        map (\<lambda>layer_idx.
               (layer_idx,
                group_ngram_layer request_sequences (dict_get expert_groups layer_idx {}) n layer_idx))
            (py_range num_layers))"

section \<open>The script's main function\<close>

datatype 'f mode = Threshold 'f | Topk "int option"

record 'f routing_layer =
  rl_group_experts :: "int list"
  rl_group_weight_share :: 'f
  rl_expert_weight_shares :: "(string, 'f) dict"
  rl_routing_ratio :: 'f
  rl_total_tokens :: nat
  rl_group_tokens :: nat

record 'f metrics_output =
  mo_routing :: "(string, 'f routing_layer) dict"
  mo_ngrams :: "(int \<times> (string, 'f group_ngram_stats) dict) list"

definition select_group ::
  "('f::linordered_field) mode \<Rightarrow> (int, 'f) dict \<Rightarrow> 'f \<Rightarrow> 'f selection result" where
  "select_group m weights total_weight =
     (case m of
        Threshold threshold \<Rightarrow> Inr (select_top_experts_by_threshold weights total_weight threshold)
      | Topk (Some k) \<Rightarrow> Inr (select_top_experts_by_topk weights total_weight k)
      | Topk None \<Rightarrow> Inl ValueError)"

text \<open>The group of every layer, in the order of the weight dictionary.\<close>

fun select_all ::
  "('f::linordered_field) mode \<Rightarrow> (int, (int, 'f) dict) dict \<Rightarrow> (int, 'f) dict \<Rightarrow>
     (int, 'f selection) dict result" where
  "select_all m [] totals = Inr []"
| "select_all m ((layer_idx, weights) # rest) totals =
     bind_res (select_group m weights (dict_get totals layer_idx 0)) (\<lambda>sel.
     bind_res (select_all m rest totals) (\<lambda>sels. Inr ((layer_idx, sel) # sels)))"

definition routing_layer_of ::
  "(int, nat \<times> nat) dict \<Rightarrow> int \<Rightarrow> ('f::linordered_field) selection \<Rightarrow> 'f routing_layer" where
  "routing_layer_of routing_stats layer_idx sel =
     (case dict_get routing_stats layer_idx (0, 0) of (total_tokens, group_tokens) \<Rightarrow>
        \<lparr>rl_group_experts = fst sel,
         rl_group_weight_share = snd (snd sel),
         rl_expert_weight_shares = map (\<lambda>(e, s). (py_str e, s)) (fst (snd sel)),
         rl_routing_ratio = (if total_tokens > 0 then of_nat group_tokens / of_nat total_tokens else 0),
         rl_total_tokens = total_tokens,
         rl_group_tokens = group_tokens\<rparr>)"

definition main_metrics ::
  "('f::linordered_field) mode \<Rightarrow> int list \<Rightarrow> 'f token_record list \<Rightarrow> 'f metrics_output result" where
  "main_metrics m n_values records =
     (if m = Topk None then Inl ValueError
      else if records = [] then Inl ValueError
      else
        let (layer_expert_weights, layer_total_weight) = compute_layer_expert_weights records in
        bind_res (select_all m layer_expert_weights layer_total_weight) (\<lambda>sels.
          let expert_groups = map (\<lambda>(l, sel). (l, fst sel)) sels;
              routing_stats = compute_routing_ratio_single_token records expert_groups;
              request_sequences = extract_expert_sequences_by_request records;
              expert_groups_set = map (\<lambda>(l, group). (l, set group)) expert_groups
          in Inr \<lparr>mo_routing = map (\<lambda>(l, sel). (py_str l, routing_layer_of routing_stats l sel))
                                 (sort_key fst sels),
                   mo_ngrams = map (\<lambda>n. (n, map (\<lambda>(l, st). (py_str l, st))
                       (sort_key fst (calculate_group_ngram_statistics request_sequences expert_groups_set n))))
                     n_values\<rparr>))"

section \<open>Weights: the loop computes per-expert sums\<close>

text \<open>The additions one layer entry, and a whole file, makes.\<close>

definition contributions_of :: "int \<times> 'f::linordered_field layer_data \<Rightarrow> (int \<times> int \<times> 'f) list" where
  "contributions_of entry =
     (case entry of (l, ld) \<Rightarrow>
        let ids = get_list (ld_expert_ids ld); ws = get_list (ld_weights ld) in
        if ws \<noteq> [] then
          List.map_filter (\<lambda>(e, w). map_option (\<lambda>x. (l, e, x)) (py_float w)) (zip ids ws)
        else map (\<lambda>e. (l, e, 1)) ids)"

definition contributions :: "('f::linordered_field) token_record list \<Rightarrow> (int \<times> int \<times> 'f) list" where
  "contributions records = concat (map contributions_of (layer_entries records))"

lemma fold_bump_filter:
  "fold (\<lambda>(e, w) st. case py_float w of None \<Rightarrow> st | Some x \<Rightarrow> bump_weight l e x st) xs st =
   fold (\<lambda>(l, e, x). bump_weight l e x)
     (List.map_filter (\<lambda>(e, w). map_option (\<lambda>x. (l, e, x)) (py_float w)) xs) st"
  by (induction xs arbitrary: st) (auto simp: map_filter_simps split: option.splits)

lemma layer_weight_step_bumps:
  "layer_weight_step entry st = fold (\<lambda>(l, e, x). bump_weight l e x) (contributions_of entry) st"
  by (cases entry)
     (simp add: layer_weight_step_def contributions_of_def Let_def fold_bump_filter fold_map
        comp_def map_filter_simps)

lemma compute_weights_bumps:
  "compute_layer_expert_weights records =
     fold (\<lambda>(l, e, x). bump_weight l e x) (contributions records) ([], [])"
proof -
  have "fold layer_weight_step xs st =
      fold (\<lambda>(l, e, x). bump_weight l e x) (concat (map contributions_of xs)) st" for xs st
    by (induction xs arbitrary: st) (auto simp: layer_weight_step_bumps)
  then show ?thesis
    by (simp add: compute_layer_expert_weights_def contributions_def fold_layer_entries)
qed

text \<open>What every bump keeps: the two dictionaries describe the same layers and totals.\<close>

definition weights_ok :: "('f::linordered_field) layer_weights \<Rightarrow> bool" where
  "weights_ok st \<longleftrightarrow>
     dict_ok (fst st) \<and> dict_ok (snd st) \<and> fst ` set (fst st) = fst ` set (snd st) \<and>
     (\<forall>l. dict_ok (dict_get (fst st) l []) \<and>
          dict_sum (dict_get (fst st) l []) = dict_get (snd st) l 0)"

lemma weights_ok_init: "weights_ok ([], [])"
  by (simp add: weights_ok_def)

lemma weights_ok_bump: "weights_ok st \<Longrightarrow> weights_ok (bump_weight l e x st)"
  by (auto simp: weights_ok_def bump_weight_def dict_simps dict_sum_upd_add)

lemma weights_ok_compute: "weights_ok (compute_layer_expert_weights records)"
  unfolding compute_weights_bumps
  by (rule fold_invariant[where P = weights_ok]) (auto intro: weights_ok_init weights_ok_bump)

lemma weight_fold_bump:
  "dict_get (dict_get (fst (fold (\<lambda>(l, e, x). bump_weight l e x) cs st)) l []) e 0 =
     dict_get (dict_get (fst st) l []) e 0 +
     (\<Sum>(l', e', x) \<leftarrow> cs. if l' = l \<and> e' = e then x else 0)"
  by (induction cs arbitrary: st) (auto simp: bump_weight_def dict_simps)

lemma nonneg_contributions:
  fixes cs :: "(int \<times> int \<times> 'f::linordered_field) list"
  assumes "\<And>l e x. (l, e, x) \<in> set cs \<Longrightarrow> 0 \<le> x"
  shows "0 \<le> (\<Sum>(l', e', x) \<leftarrow> cs. if l' = l \<and> e' = e then x else 0)"
  using assms by (intro sum_list_nonneg) auto

text \<open>
  Each entry of \<open>layer_expert_weights\<close> is the sum of the weights that the records give to
  that expert on that layer (one per occurrence where a layer has no weights), and
  \<open>layer_total_weight\<close> of a layer is the sum over its experts, for every input.
\<close>

theorem compute_layer_expert_weights_correct:
  "(\<forall>l e. dict_get (dict_get (fst (compute_layer_expert_weights records)) l []) e 0 =
       (\<Sum>(l', e', x) \<leftarrow> contributions records. if l' = l \<and> e' = e then x else 0)) \<and>
   (\<forall>l. dict_get (snd (compute_layer_expert_weights records)) l 0 =
       dict_sum (dict_get (fst (compute_layer_expert_weights records)) l [])) \<and>
   set (dict_keys (fst (compute_layer_expert_weights records))) =
     set (dict_keys (snd (compute_layer_expert_weights records)))"
  using weights_ok_compute[of records]
  by (simp add: weights_ok_def dict_keys_def)
     (simp add: compute_weights_bumps weight_fold_bump)

section \<open>Greedy selection is optimal\<close>

text \<open>
  In a list of items sorted by decreasing non-negative weight, the first \<open>k\<close> items weigh at
  least as much as any other \<open>k\<close> items.
\<close>

lemma take_sorted_desc_max:
  fixes w :: "'a \<Rightarrow> 'f::linordered_field"
  assumes "sorted_wrt (\<lambda>x y. w y \<le> w x) xs" and "distinct xs" and "\<forall>x \<in> set xs. 0 \<le> w x"
    and "S \<subseteq> set xs" and "card S \<le> k"
  shows "sum w S \<le> sum_list (map w (take k xs))"
  using assms
proof (induction xs arbitrary: S k)
  case Nil
  then show ?case by simp
next
  case (Cons x xs)
  have fin: "finite S" using Cons.prems(4) finite_subset by blast
  have pos: "0 \<le> sum_list (map w (take k (x # xs)))"
    using Cons.prems(3) by (intro sum_list_nonneg) (auto dest!: in_set_takeD[of _ k "x # xs"])
  show ?case
  proof (cases "S = {}")
    case True
    then show ?thesis using pos by simp
  next
    case False
    then obtain k' where k: "k = Suc k'"
      using Cons.prems(5) fin by (cases k) auto
    define y where "y = (if x \<in> S then x else (SOME y. y \<in> S))"
    have y: "y \<in> S" using False by (auto simp: y_def some_in_eq)
    have "w y \<le> w x" using y Cons.prems(1,4) by (auto simp: y_def subset_iff)
    moreover have "sum w (S - {y}) \<le> sum_list (map w (take k' xs))"
    proof (rule Cons.IH)
      show "S - {y} \<subseteq> set xs" using Cons.prems(4) by (auto simp: y_def)
      show "card (S - {y}) \<le> k'" using Cons.prems(5) y k fin by (simp add: card_Diff_singleton)
    qed (use Cons.prems in auto)
    ultimately show ?thesis
      using sum.remove[OF fin y, of w] k by simp
  qed
qed

text \<open>Shares: what the loops read from \<open>expert_shares\<close>.\<close>

definition share_of :: "(int, 'f::linordered_field) dict \<Rightarrow> 'f \<Rightarrow> int \<Rightarrow> 'f" where
  "share_of expert_weights total_weight e = dict_get expert_weights e 0 / total_weight"

lemma expert_shares_of_map:
  assumes "dict_ok items"
  shows "expert_shares_of items total_weight = map (\<lambda>(e, w). (e, w / total_weight)) items"
  using assms
  by (auto simp: expert_shares_of_def dict_ok_def comp_def case_prod_unfold intro!: dict_of_list_distinct)

lemma map_of_sort_desc:
  assumes "dict_ok d"
  shows "map_of (sort_desc snd d) = map_of d"
  using assms by (intro map_of_inject_set[THEN iffD2]) (auto simp: dict_ok_def distinct_sort_desc)

lemma dict_get_shares:
  assumes "dict_ok d"
  shows "dict_get (expert_shares_of (sort_desc snd d) t) e 0 = share_of d t e"
proof -
  have "dict_get (map (\<lambda>(e, w). (e, w / t)) items) e 0 = dict_get items e 0 / t" for items
    by (induction items) (auto simp: dict_get_def)
  then show ?thesis
    using assms by (simp add: expert_shares_of_map share_of_def dict_get_def map_of_sort_desc)
qed

lemma sorted_shares:
  assumes "dict_ok d" and "0 < t"
  shows "sorted_wrt (\<lambda>x y. share_of d t y \<le> share_of d t x) (map fst (sort_desc snd d))"
proof -
  have "share_of d t (fst p) = snd p / t" if "p \<in> set d" for p
    using dict_get_in[OF assms(1), of "fst p" "snd p" 0] that by (simp add: share_of_def)
  then show ?thesis
    using sort_desc_sorted[of snd d] assms(2)
    by (auto simp: sorted_wrt_map intro!: divide_right_mono elim!: sorted_wrt_mono_rel[rotated])
qed

text \<open>The threshold loop takes the shortest prefix whose cumulative share reaches the threshold.\<close>

lemma threshold_loop_prefix:
  assumes "threshold_loop shares thr sel cum items = (sel', cum')"
  shows "\<exists>k \<le> length items.
    sel' = sel @ take k (map fst items) \<and>
    cum' = cum + sum_list (map (\<lambda>e. dict_get shares e 0) (take k (map fst items))) \<and>
    (thr \<le> cum' \<or> k = length items) \<and>
    (items \<noteq> [] \<longrightarrow> 0 < k) \<and>
    (\<forall>j. 0 < j \<and> j < k \<longrightarrow> cum + sum_list (map (\<lambda>e. dict_get shares e 0) (take j (map fst items))) < thr)"
  using assms
proof (induction items arbitrary: sel cum)
  case Nil
  then show ?case by simp
next
  case (Cons it items)
  obtain e w where it: "it = (e, w)" by (cases it)
  let ?c = "cum + dict_get shares e 0"
  show ?case
  proof (cases "thr \<le> ?c")
    case True
    then show ?thesis using Cons.prems it by (intro exI[of _ 1]) (auto simp: Let_def)
  next
    case False
    then have "threshold_loop shares thr (sel @ [e]) ?c items = (sel', cum')"
      using Cons.prems it by (simp add: Let_def)
    from Cons.IH[OF this] obtain k where k: "k \<le> length items"
      "sel' = (sel @ [e]) @ take k (map fst items)"
      "cum' = ?c + sum_list (map (\<lambda>e. dict_get shares e 0) (take k (map fst items)))"
      "thr \<le> cum' \<or> k = length items"
      "\<And>j. 0 < j \<and> j < k \<Longrightarrow> ?c + sum_list (map (\<lambda>e. dict_get shares e 0) (take j (map fst items))) < thr"
      by blast
    have "cum + sum_list (map (\<lambda>e. dict_get shares e 0) (take j (map fst (it # items)))) < thr"
      if "0 < j \<and> j < Suc k" for j
      using that k(5)[of "j - 1"] False it by (cases j; cases "j - 1") (auto simp: add.assoc)
    with k it show ?thesis by (intro exI[of _ "Suc k"]) (auto simp: add.assoc)
  qed
qed

lemma topk_loop_prefix:
  "topk_loop shares topk i sel cum items =
     (sel @ take (nat (topk - i)) (map fst items),
      cum + sum_list (map (\<lambda>e. dict_get shares e 0) (take (nat (topk - i)) (map fst items))))"
proof (induction items arbitrary: i sel cum)
  case (Cons it items)
  have "\<not> topk \<le> i \<Longrightarrow> nat (topk - i) = Suc (nat (topk - (i + 1)))" by linarith
  with Cons show ?case by (cases it) (auto simp: Let_def add.assoc)
qed simp

text \<open>The sums the two loops report are sums over the set of selected experts.\<close>

lemma selected_share:
  assumes "dict_ok d"
  shows "sum_list (map (share_of d t) (take k (map fst (sort_desc snd d)))) =
    sum (share_of d t) (set (take k (map fst (sort_desc snd d))))"
  using assms
  by (intro sum_list_distinct_conv_sum_set) (simp add: dict_ok_def distinct_sort_desc)

lemma total_share:
  assumes "dict_ok d" and "t = dict_sum d" and "t \<noteq> 0"
  shows "sum_list (map (share_of d t) (map fst (sort_desc snd d))) = 1"
proof -
  have "map (share_of d t) (map fst d) = map (\<lambda>p. snd p / t) d"
    using assms(1) by (auto simp: share_of_def dict_get_in)
  then have "sum_list (map (share_of d t) (map fst d)) = sum_list (map snd d) / t"
    by (simp only: sum_list_div)
  then have "sum_list (map (share_of d t) (map fst d)) = 1"
    using assms(2,3) by (simp add: dict_sum_def)
  then show ?thesis
    using sum_list_sort_desc[of "share_of d t \<circ> fst" snd d] by (simp add: comp_def)
qed

text \<open>
  (C26) Group selection by threshold is correct and minimal: for the weights of a layer with
  positive total, the selected experts are distinct experts of the layer, the returned
  cumulative share is the sum of their shares and reaches the threshold, and no set of
  experts with fewer members reaches it.
\<close>

theorem select_by_threshold_minimal:
  fixes d :: "(int, 'f::linordered_field) dict"
  assumes ok: "dict_ok d" and nonneg: "\<forall>(e, w) \<in> set d. 0 \<le> w"
    and total: "t = dict_sum d" "0 < t" and thr: "0 < thr" "thr \<le> 1"
    and res: "select_top_experts_by_threshold d t thr = (sel, shares, cum)"
  shows "distinct sel \<and> set sel \<subseteq> set (dict_keys d) \<and>
     cum = sum (share_of d t) (set sel) \<and> thr \<le> cum \<and>
     (\<forall>S. S \<subseteq> set (dict_keys d) \<and> thr \<le> sum (share_of d t) S \<longrightarrow> length sel \<le> card S)"
proof -
  let ?es = "map fst (sort_desc snd d)"
  let ?sh = "share_of d t"
  have loop: "threshold_loop (expert_shares_of (sort_desc snd d) t) thr [] 0 (sort_desc snd d) = (sel, cum)"
    using res total by (simp add: select_top_experts_by_threshold_def Let_def split: prod.splits)
  obtain k where k: "k \<le> length d" "sel = take k ?es" "cum = sum_list (map ?sh (take k ?es))"
    "thr \<le> cum \<or> k = length d"
    "\<And>j. 0 < j \<and> j < k \<Longrightarrow> sum_list (map ?sh (take j ?es)) < thr"
    using threshold_loop_prefix[OF loop] by (auto simp: dict_get_shares[OF ok])
  have dist: "distinct ?es" using ok by (simp add: dict_ok_def distinct_sort_desc)
  have "thr \<le> cum"
    using k total thr total_share[OF ok total(1)] by (cases "k = length d") auto
  moreover have "length sel \<le> card S"
    if S: "S \<subseteq> set (dict_keys d)" "thr \<le> sum ?sh S" for S
  proof (rule ccontr)
    assume "\<not> length sel \<le> card S"
    then have "card S < k" using k(1,2) by simp
    have "S \<noteq> {}" using S(2) thr(1) by auto
    moreover have "finite S" using S(1) finite_subset by blast
    ultimately have "0 < card S" by (simp add: card_gt_0_iff)
    have "sum ?sh S \<le> sum_list (map ?sh (take (card S) ?es))"
    proof (rule take_sorted_desc_max[OF sorted_shares[OF ok total(2)] dist])
      show "\<forall>e \<in> set ?es. 0 \<le> ?sh e"
        using nonneg ok total(2) by (auto simp: share_of_def dict_get_in)
      show "S \<subseteq> set ?es" using S(1) by (simp add: dict_keys_def)
    qed simp
    also have "\<dots> < thr" using k(5) \<open>0 < card S\<close> \<open>card S < k\<close> by blast
    finally show False using S(2) by simp
  qed
  moreover have "distinct sel" "set sel \<subseteq> set (dict_keys d)"
    using k(2) dist by (auto simp: dict_keys_def dest: in_set_takeD)
  moreover have "cum = sum ?sh (set sel)"
    using k(2,3) selected_share[OF ok] by simp
  ultimately show ?thesis by blast
qed

theorem select_by_threshold_minimal_witness:
  "(let (sel, shares, cum) =
       select_top_experts_by_threshold [(4, 2), (7, 5), (1, 3 :: rat)] 10 (7 / 10)
    in sel = [7, 1] \<and> 7 / 10 \<le> cum)"
proof -
  have "select_top_experts_by_threshold [(4, 2), (7, 5), (1, 3 :: rat)] 10 (7 / 10) =
      ([7, 1], [(7, 1/2), (1, 3/10), (4, 1/5)], 4/5)"
    by code_simp
  note r = this
  show ?thesis
    unfolding r using select_by_threshold_minimal[OF _ _ _ _ _ _ r] by (simp add: dict_ok_def dict_sum_def)
qed

text \<open>
  Group selection by top K is correct and optimal: it returns the first
  \<open>min(topk, number of experts)\<close> experts by decreasing weight, the cumulative share is the sum
  of their shares, and no set of at most \<open>topk\<close> experts has a larger share.
\<close>

theorem select_by_topk_optimal:
  fixes d :: "(int, 'f::linordered_field) dict"
  assumes ok: "dict_ok d" and nonneg: "\<forall>(e, w) \<in> set d. 0 \<le> w" and total: "0 < t"
    and res: "select_top_experts_by_topk d t topk = (sel, shares, cum)"
  shows "length sel = min (nat topk) (length d) \<and> distinct sel \<and>
     cum = sum (share_of d t) (set sel) \<and>
     (\<forall>S. S \<subseteq> set (dict_keys d) \<and> int (card S) \<le> topk \<longrightarrow> sum (share_of d t) S \<le> cum)"
proof -
  let ?es = "map fst (sort_desc snd d)"
  have sel: "sel = take (nat topk) ?es"
    and cum: "cum = sum_list (map (share_of d t) (take (nat topk) ?es))"
    using res total by (auto simp: select_top_experts_by_topk_def topk_loop_prefix dict_get_shares[OF ok] Let_def)
  have dist: "distinct ?es" using ok by (simp add: dict_ok_def distinct_sort_desc)
  have "sum (share_of d t) S \<le> cum" if "S \<subseteq> set (dict_keys d)" "int (card S) \<le> topk" for S
    unfolding cum
  proof (rule take_sorted_desc_max[OF sorted_shares[OF ok total] dist])
    show "\<forall>e \<in> set ?es. 0 \<le> share_of d t e"
      using nonneg ok total by (auto simp: share_of_def dict_get_in)
    show "S \<subseteq> set ?es" using that(1) by (simp add: dict_keys_def)
  qed (use that(2) in linarith)
  moreover have "distinct sel" using dist by (simp add: sel)
  ultimately show ?thesis using selected_share[OF ok] by (auto simp: sel cum)
qed

theorem select_by_topk_optimal_witness:
  "(let (sel, shares, cum) = select_top_experts_by_topk [(4, 2), (7, 5), (1, 3 :: rat)] 10 2
    in sel = [7, 1] \<and> length sel = 2)"
proof -
  have r: "select_top_experts_by_topk [(4, 2), (7, 5), (1, 3 :: rat)] 10 2 =
      ([7, 1], [(7, 1/2), (1, 3/10), (4, 1/5)], 4/5)"
    by code_simp
  show ?thesis
    unfolding r using select_by_topk_optimal[OF _ _ _ r] by (simp add: dict_ok_def)
qed

section \<open>Routing counts\<close>

text \<open>The (layer, primary expert) pairs of a file, in file order.\<close>

definition primaries :: "'f token_record list \<Rightarrow> (int \<times> int) list" where
  "primaries records =
     List.map_filter (\<lambda>(l, ld). map_option (\<lambda>e. (l, e)) (primary_expert ld)) (layer_entries records)"

lemma routing_fold:
  "dict_get (fold (routing_step groups) entries st) l (0, 0) =
    (let ps = List.map_filter (\<lambda>(l, ld). map_option (\<lambda>e. (l, e)) (primary_expert ld)) entries in
     (fst (dict_get st l (0, 0)) + length (filter (\<lambda>(l', e). l' = l) ps),
      snd (dict_get st l (0, 0)) +
        length (filter (\<lambda>(l', e). l' = l \<and> e \<in> set (dict_get groups l [])) ps)))"
proof (induction entries arbitrary: st)
  case Nil
  then show ?case by (simp add: map_filter_simps)
next
  case (Cons entry entries)
  obtain l' ld where "entry = (l', ld)" by (cases entry)
  with Cons show ?case
    by (cases "primary_expert ld"; cases "dict_get st l (0, 0)")
       (auto simp: map_filter_simps routing_step_def Let_def dict_simps)
qed

lemma routing_counts:
  "dict_get (compute_routing_ratio_single_token records groups) l (0, 0) =
    (length (filter (\<lambda>(l', e). l' = l) (primaries records)),
     length (filter (\<lambda>(l', e). l' = l \<and> e \<in> set (dict_get groups l [])) (primaries records)))"
  by (simp add: compute_routing_ratio_single_token_def fold_layer_entries routing_fold primaries_def Let_def)

lemma filter_conj_le: "length (filter (\<lambda>x. P x \<and> Q x) xs) \<le> length (filter P xs)"
  by (induction xs) auto

text \<open>
  The single-token routing statistics of a layer count exactly the tokens that have a
  primary expert on that layer and those whose primary expert lies in the layer's group; the
  second never exceeds the first.
\<close>

theorem routing_ratio_single_token_correct:
  "(case dict_get (compute_routing_ratio_single_token records groups) l (0, 0) of
      (total_tokens, group_tokens) \<Rightarrow>
        total_tokens = length (filter (\<lambda>(l', e). l' = l) (primaries records)) \<and>
        group_tokens = length (filter (\<lambda>(l', e). l' = l \<and> e \<in> set (dict_get groups l [])) (primaries records)) \<and>
        group_tokens \<le> total_tokens)"
  using filter_conj_le[of "\<lambda>p. fst p = l" "\<lambda>p. snd p \<in> set (dict_get groups l [])" "primaries records"]
  by (simp add: routing_counts case_prod_unfold)

section \<open>Sequences\<close>

lemma append_primary_fold:
  "dict_get (dict_get (fold (append_primary rid) entries seqs) rid' []) l [] =
    dict_get (dict_get seqs rid' []) l [] @
      (if rid' = rid then
         List.map_filter (\<lambda>(l', ld). if l' = l then primary_expert ld else None) entries
       else [])"
proof (induction entries arbitrary: seqs)
  case (Cons entry entries)
  then show ?case
    by (cases entry; cases "primary_expert (snd entry)")
       (auto simp: map_filter_simps append_primary_def dict_simps)
qed (simp add: map_filter_simps)

definition primary_sequence :: "'f token_record list \<Rightarrow> int \<Rightarrow> int \<Rightarrow> int list" where
  "primary_sequence records rid l =
     List.map_filter (\<lambda>(l', ld). if l' = l then primary_expert ld else None)
       (layer_entries (filter (\<lambda>r. tr_request_id r = Some rid) records))"

lemma map_filter_append:
  "List.map_filter f (xs @ ys) = List.map_filter f xs @ List.map_filter f ys"
  by (simp add: List.map_filter_def)

lemma int_layers_Nil: "layers_of r = [] \<Longrightarrow> int_layers r = []"
  by (simp add: int_layers_def map_filter_simps)

lemma seq_step_with_id:
  assumes "tr_request_id r = Some rid"
  shows "seq_step r st =
    st\<lparr>ss_request_sequences := fold (append_primary rid) (int_layers r) (ss_request_sequences st)\<rparr>"
  using assms by (cases "layers_of r = []") (simp_all add: seq_step_def record_id_def int_layers_Nil)

lemma seq_fold_with_ids:
  assumes "\<forall>r \<in> set records. tr_request_id r \<noteq> None"
  shows "dict_get (dict_get (ss_request_sequences (fold seq_step records st)) rid []) l [] =
    dict_get (dict_get (ss_request_sequences st) rid []) l [] @ primary_sequence records rid l"
  using assms
proof (induction records arbitrary: st)
  case Nil
  then show ?case by (simp add: primary_sequence_def map_filter_simps)
next
  case (Cons r rs)
  then obtain i where i: "tr_request_id r = Some i" by auto
  have "dict_get (dict_get (ss_request_sequences (fold seq_step rs (seq_step r st))) rid []) l [] =
    dict_get (dict_get (ss_request_sequences (seq_step r st)) rid []) l [] @ primary_sequence rs rid l"
    using Cons.prems by (intro Cons.IH) simp
  then show ?case
    using i by (simp add: seq_step_with_id append_primary_fold primary_sequence_def map_filter_append)
qed

text \<open>
  For records that carry a request id, the extracted sequence of a request and layer is the
  sequence of that request's primary experts on that layer, in file order, with none lost,
  duplicated or mixed in from another request.
\<close>

theorem extract_sequences_by_request_id:
  assumes "\<forall>r \<in> set records. tr_request_id r \<noteq> None"
  shows "dict_get (dict_get (extract_expert_sequences_by_request records) rid []) l [] =
    primary_sequence records rid l"
  using seq_fold_with_ids[OF assms, of init_seq_state]
  by (simp add: extract_expert_sequences_by_request_def init_seq_state_def)

definition example_layer :: "int list \<Rightarrow> rat layer_data" where
  "example_layer ids = \<lparr>ld_expert_ids = Some ids, ld_weights = None, ld_logits = None,
     ld_next_expert_logit = None\<rparr>"

definition example_records :: "rat token_record list" where
  "example_records = map (\<lambda>(rid, ids).
      \<lparr>tr_layers = Some [(''0'', example_layer ids)], tr_request_id = Some rid, tr_prompt = None\<rparr>)
      [(0, [3, 1]), (1, [2]), (0, [5])]"

theorem extract_sequences_by_request_id_witness:
  "dict_get (dict_get (extract_expert_sequences_by_request example_records) 0 []) 0 [] = [3, 5]"
proof -
  have ids: "\<forall>r \<in> set example_records. tr_request_id r \<noteq> None"
    by (simp add: example_records_def)
  have "primary_sequence example_records 0 0 = [3, 5]" by code_simp
  then show ?thesis using extract_sequences_by_request_id[OF ids, of 0 0] by simp
qed

section \<open>Expert-group n-grams\<close>

lemma ngrams_nat:
  assumes "0 \<le> n"
  shows "ngrams n xs = map (\<lambda>i. take (nat n) (drop i xs)) [0..<length xs + 1 - nat n]"
proof (cases "int (length xs) < n")
  case True
  then show ?thesis using assms by (simp add: ngrams_def)
next
  case False
  then have "nat (int (length xs) - n + 1) = length xs + 1 - nat n" using assms by linarith
  moreover have "py_slice xs (int i) (int i + n) = take (nat n) (drop i xs)"
    if "i < length xs + 1 - nat n" for i
    using py_slice_nat[of i "nat n" xs] that assms by simp
  ultimately show ?thesis using False by (simp add: ngrams_def py_range_def)
qed

lemma length_ngrams: "0 \<le> n \<Longrightarrow> length (ngrams n xs) = length xs + 1 - nat n"
  by (simp add: ngrams_nat)

text \<open>All windows of a layer, request after request.\<close>

definition layer_ngrams :: "sequences \<Rightarrow> int \<Rightarrow> int \<Rightarrow> int list list" where
  "layer_ngrams seqs n l = concat (map (\<lambda>(_, ld). ngrams n (dict_get ld l [])) seqs)"

lemma fold_layer_ngrams:
  "fold (\<lambda>(rid, ld) acc. fold f (ngrams n (dict_get ld l [])) acc) seqs acc =
     fold f (layer_ngrams seqs n l) acc"
  unfolding layer_ngrams_def by (induction seqs arbitrary: acc) auto

lemma fold_group_ngram_step:
  "fold (group_ngram_step gs) ws (tot, grp, uniq) =
     (tot + length ws, grp + length (filter (\<lambda>w. set w \<subseteq> gs) ws),
      uniq \<union> set (filter (\<lambda>w. set w \<subseteq> gs) ws))"
  by (induction ws arbitrary: tot grp uniq) (auto simp: group_ngram_step_def subset_iff)

lemma group_ngram_layer_eq:
  assumes "gs \<noteq> {}"
  shows "group_ngram_layer seqs gs n l =
    (let ws = layer_ngrams seqs n l; ins = filter (\<lambda>w. set w \<subseteq> gs) ws in
     \<lparr>gs_total_ngram_paths = length ws, gs_group_ngram_paths = length ins,
      gs_group_ngram_ratio = (if ws \<noteq> [] then of_nat (length ins) / of_nat (length ws) else 0),
      gs_unique_group_ngram_paths = card (set ins)\<rparr>)"
  using assms
  by (simp add: group_ngram_layer_def fold_layer_ngrams fold_group_ngram_step Let_def)

text \<open>
  For a layer with an expert group and a window size \<open>n \<ge> 0\<close>, the n-gram statistics count
  every window of \<open>n\<close> consecutive tokens of every request once (a request with fewer tokens
  gives none), the windows that stay inside the group, and the distinct ones among these; the
  counts are ordered and the reported ratio is in the unit interval.
\<close>

theorem group_ngram_layer_correct:
  fixes st :: "('f::linordered_field) group_ngram_stats"
  assumes "gs \<noteq> {}" and "0 \<le> n" and st: "st = group_ngram_layer seqs gs n l"
  shows "gs_total_ngram_paths st = (\<Sum>(_, ld) \<leftarrow> seqs. length (dict_get ld l []) + 1 - nat n) \<and>
    gs_group_ngram_paths st = length (filter (\<lambda>w. set w \<subseteq> gs) (layer_ngrams seqs n l)) \<and>
    gs_unique_group_ngram_paths st \<le> gs_group_ngram_paths st \<and>
    gs_group_ngram_paths st \<le> gs_total_ngram_paths st \<and>
    0 \<le> gs_group_ngram_ratio st \<and> gs_group_ngram_ratio st \<le> 1"
proof -
  let ?ws = "layer_ngrams seqs n l"
  let ?ins = "filter (\<lambda>w. set w \<subseteq> gs) ?ws"
  have "length ?ws = (\<Sum>(_, ld) \<leftarrow> seqs. length (dict_get ld l []) + 1 - nat n)"
    using assms(2) by (simp add: layer_ngrams_def length_concat comp_def case_prod_unfold length_ngrams)
  moreover have "length ?ins \<le> length ?ws" by simp
  ultimately show ?thesis
    using assms(1) ratio_unit_interval[of "length ?ins" "length ?ws", where 'f = 'f] card_set_le_length[of ?ins]
    by (simp add: st group_ngram_layer_eq Let_def)
qed

theorem group_ngram_layer_correct_witness:
  "gs_total_ngram_paths (group_ngram_layer [(0, [(0, [1, 2, 2, 3])]), (1, [(0, [2])])] {1, 2} 2 0 :: rat group_ngram_stats) = 3"
proof -
  have "{1, 2} \<noteq> ({} :: int set)" and "0 \<le> (2 :: int)" by simp_all
  from group_ngram_layer_correct[OF this refl, where 'f = rat, of "[(0, [(0, [1, 2, 2, 3])]), (1, [(0, [2])])]" 0]
  show ?thesis by (simp add: dict_get_def)
qed

section \<open>The whole script\<close>

definition selection_of :: "('f::linordered_field) mode \<Rightarrow> (int, 'f) dict \<Rightarrow> 'f \<Rightarrow> 'f selection" where
  "selection_of m w t =
     (case m of
        Threshold thr \<Rightarrow> select_top_experts_by_threshold w t thr
      | Topk k \<Rightarrow> select_top_experts_by_topk w t (the k))"

lemma select_all_Inr:
  assumes "m \<noteq> Topk None"
  shows "select_all m lew totals = Inr (map (\<lambda>(l, w). (l, selection_of m w (dict_get totals l 0))) lew)"
proof (induction lew)
  case (Cons lw lew)
  have "select_group m w t = Inr (selection_of m w t)" for w t
    using assms by (auto simp: select_group_def selection_of_def split: mode.splits option.splits)
  with Cons show ?case by (cases lw) simp
qed simp

text \<open>
  The script fails, with \<^verbatim>\<open>ValueError\<close>, exactly when it is run in top-K mode without a K or
  on a file with no readable record; otherwise it produces its output.
\<close>

theorem main_metrics_error_iff:
  "main_metrics m n_values records = Inl err \<longleftrightarrow>
     err = ValueError \<and> (m = Topk None \<or> records = [])"
  by (auto simp: main_metrics_def select_all_Inr Let_def split: prod.splits)

definition weights_nonneg :: "('f::linordered_field) token_record list \<Rightarrow> bool" where
  "weights_nonneg records \<longleftrightarrow> (\<forall>(l, e, x) \<in> set (contributions records). 0 \<le> x)"

lemma weights_nonneg_entry:
  assumes "weights_nonneg records" and "(e, w) \<in> set (dict_get (fst (compute_layer_expert_weights records)) l [])"
  shows "0 \<le> w"
proof -
  let ?d = "dict_get (fst (compute_layer_expert_weights records)) l []"
  have "dict_get ?d e 0 = w"
    using weights_ok_compute[of records] assms(2) by (auto simp: weights_ok_def intro: dict_get_in)
  moreover have "0 \<le> dict_get ?d e 0"
    using assms(1)
    by (simp add: compute_weights_bumps weight_fold_bump weights_nonneg_def)
       (rule nonneg_contributions, auto)
  ultimately show ?thesis by simp
qed

lemma main_routing_entry:
  assumes "main_metrics m n_values records = Inr out" and "(key, rl) \<in> set (mo_routing out)"
  obtains l groups sel where
    "key = py_str l" and "dict_get groups l [] = fst sel" and "rl = routing_layer_of (compute_routing_ratio_single_token records groups) l sel"
    and "sel = selection_of m (dict_get (fst (compute_layer_expert_weights records)) l []) (dict_get (snd (compute_layer_expert_weights records)) l 0)"
proof -
  obtain lew ltw where c: "compute_layer_expert_weights records = (lew, ltw)" by fastforce
  have m: "m \<noteq> Topk None" using assms(1) by (auto simp: main_metrics_def)
  have d: "dict_ok lew" using weights_ok_compute[of records] c by (simp add: weights_ok_def)
  define groups where "groups = map (\<lambda>(l, w). (l, fst (selection_of m w (dict_get ltw l 0)))) lew"
  obtain l w where lw: "(l, w) \<in> set lew" "key = py_str l"
      "rl = routing_layer_of (compute_routing_ratio_single_token records groups) l (selection_of m w (dict_get ltw l 0))"
    using assms m by (auto simp: main_metrics_def c select_all_Inr Let_def comp_def case_prod_unfold groups_def split: if_splits)
  have "dict_ok groups" using d by (simp add: groups_def dict_ok_def comp_def case_prod_unfold)
  moreover have "(l, fst (selection_of m w (dict_get ltw l 0))) \<in> set groups" using lw(1) by (force simp: groups_def)
  ultimately have g: "dict_get groups l [] = fst (selection_of m w (dict_get ltw l 0))" by (rule dict_get_in)
  have "dict_get lew l [] = w" using d lw(1) by (rule dict_get_in)
  then show ?thesis using that[OF lw(2) g lw(3)] c by simp
qed

text \<open>What the records give to a set of experts on a layer.\<close>

definition layer_weight :: "('f::linordered_field) token_record list \<Rightarrow> int \<Rightarrow> int set \<Rightarrow> 'f" where
  "layer_weight records l E = (\<Sum>(l', e, x) \<leftarrow> contributions records. if l' = l \<and> e \<in> E then x else 0)"

lemma layer_weight_total: "dict_get (snd (compute_layer_expert_weights records)) l 0 = layer_weight records l UNIV"
proof -
  have "dict_get (snd (fold (\<lambda>(l, e, x). bump_weight l e x) cs st)) l 0 =
      dict_get (snd st) l 0 + (\<Sum>(l', e, x) \<leftarrow> cs. if l' = l then x else 0)" for cs st
    by (induction cs arbitrary: st) (auto simp: bump_weight_def dict_simps)
  from this[of "contributions records" "([], [])"] show ?thesis by (simp add: compute_weights_bumps layer_weight_def)
qed

lemma layer_weight_sum:
  "distinct es \<Longrightarrow> (\<Sum>e\<leftarrow>es. dict_get (dict_get (fst (compute_layer_expert_weights records)) l []) e 0) = layer_weight records l (set es)"
proof (induction es)
  case Nil
  then show ?case by (auto simp: layer_weight_def sum_list_0 case_prod_unfold)
next
  case (Cons e es)
  have "layer_weight records l (set (e # es)) = (\<Sum>(l', e', x) \<leftarrow> contributions records. if l' = l \<and> e' = e then x else 0) + layer_weight records l (set es)"
    using Cons.prems unfolding layer_weight_def sum_list_addf[symmetric]
    by (intro arg_cong[of _ _ sum_list] map_cong) auto
  then show ?case using Cons by (simp add: compute_weights_bumps weight_fold_bump)
qed

lemma sum_list_divide: "(\<Sum>x\<leftarrow>xs. f x / (c::'f::linordered_field)) = (\<Sum>x\<leftarrow>xs. f x) / c"
  by (induction xs) (simp_all add: add_divide_distrib)

text \<open>The group the threshold selects: no expert twice, and its share of the weight is the reported one and reaches the threshold.\<close>

lemma threshold_selection:
  fixes records :: "('f::linordered_field) token_record list"
  assumes sel: "select_top_experts_by_threshold (dict_get (fst (compute_layer_expert_weights records)) l [])
      (dict_get (snd (compute_layer_expert_weights records)) l 0) thr = (sel, shares, cum)"
    and thr: "thr \<le> 1"
  shows "distinct sel" "0 < layer_weight records l UNIV \<Longrightarrow> cum = layer_weight records l (set sel) / layer_weight records l UNIV \<and> thr \<le> cum"
proof -
  let ?d = "dict_get (fst (compute_layer_expert_weights records)) l []" and ?t = "dict_get (snd (compute_layer_expert_weights records)) l 0"
  have d: "dict_ok ?d" "?t = dict_sum ?d" using weights_ok_compute[of records] by (auto simp: weights_ok_def)
  have loop: "threshold_loop (expert_shares_of (sort_desc snd ?d) ?t) thr [] 0 (sort_desc snd ?d) = (sel, cum)" if "0 < ?t"
    using sel that by (simp add: select_top_experts_by_threshold_def Let_def split: prod.splits)
  show "distinct sel"
  proof (cases "0 < ?t")
    case True
    from threshold_loop_prefix[OF loop[OF this]] d(1) show ?thesis by (auto simp: dict_ok_def distinct_sort_desc)
  qed (use sel in \<open>auto simp: select_top_experts_by_threshold_def\<close>)
  then have w: "(\<Sum>e\<leftarrow>sel. dict_get ?d e 0) = layer_weight records l (set sel)" by (rule layer_weight_sum)
  assume "0 < layer_weight records l UNIV"
  then have t: "0 < ?t" by (simp add: layer_weight_total)
  then have "0 < dict_sum ?d" using d(2) by simp
  from threshold_loop_prefix[OF loop[OF t]] have "cum = (\<Sum>e\<leftarrow>sel. share_of ?d ?t e) \<and> thr \<le> cum"
    using d t thr total_share[OF d(1,2)] by (auto simp: dict_get_shares)
  then show "cum = layer_weight records l (set sel) / layer_weight records l UNIV \<and> thr \<le> cum"
    by (simp add: share_of_def sum_list_divide w layer_weight_total)
qed

text \<open>
  (C34) End to end, in threshold mode with a threshold in (0, 1] and non-negative weights: the entry of a layer in the routing report counts the tokens that
  have a primary expert on the layer and those whose primary expert is in the reported group, its routing ratio is the one over the other (0
  without tokens) and lies in the unit interval, no expert is twice in the group, and, where the layer's total weight is positive, the reported share is the
  weight the records give to the experts of this group over the weight they give to all experts of the layer, and reaches the threshold.
\<close>

theorem main_metrics_routing_report:
  fixes records :: "('f::linordered_field) token_record list"
  assumes run: "main_metrics (Threshold thr) n_values records = Inr out"
    and thr: "0 < thr" "thr \<le> 1" and nonneg: "weights_nonneg records"
    and entry: "(key, rl) \<in> set (mo_routing out)"
  shows "\<exists>l. key = py_str l \<and>
    rl_total_tokens rl = length (filter (\<lambda>(l', e). l' = l) (primaries records)) \<and>
    rl_group_tokens rl = length (filter (\<lambda>(l', e). l' = l \<and> e \<in> set (rl_group_experts rl)) (primaries records)) \<and>
    rl_routing_ratio rl = (if rl_total_tokens rl = 0 then 0 else of_nat (rl_group_tokens rl) / of_nat (rl_total_tokens rl)) \<and>
    0 \<le> rl_routing_ratio rl \<and> rl_routing_ratio rl \<le> 1 \<and> rl_group_tokens rl \<le> rl_total_tokens rl \<and> distinct (rl_group_experts rl) \<and>
    (0 < layer_weight records l UNIV \<longrightarrow>
      rl_group_weight_share rl = layer_weight records l (set (rl_group_experts rl)) / layer_weight records l UNIV \<and>
      thr \<le> rl_group_weight_share rl)"
proof -
  obtain l groups sel where key: "key = py_str l" and g: "dict_get groups l [] = fst sel"
    and rl: "rl = routing_layer_of (compute_routing_ratio_single_token records groups) l sel"
    and sel: "sel = selection_of (Threshold thr) (dict_get (fst (compute_layer_expert_weights records)) l [])
      (dict_get (snd (compute_layer_expert_weights records)) l 0)"
    using main_routing_entry[OF run entry] by metis
  have rec: "rl_group_experts rl = fst sel" "rl_group_weight_share rl = snd (snd sel)"
    "rl_total_tokens rl = length (filter (\<lambda>(l', e). l' = l) (primaries records))"
    "rl_group_tokens rl = length (filter (\<lambda>(l', e). l' = l \<and> e \<in> set (fst sel)) (primaries records))"
    "rl_routing_ratio rl = (if 0 < rl_total_tokens rl then of_nat (rl_group_tokens rl) / of_nat (rl_total_tokens rl) else 0)"
    by (simp_all add: rl routing_layer_of_def routing_counts g)
  have le: "rl_group_tokens rl \<le> rl_total_tokens rl"
    using filter_conj_le[of "\<lambda>p. fst p = l" "\<lambda>p. snd p \<in> set (fst sel)" "primaries records"] by (simp add: rec(3,4) case_prod_unfold)
  have "select_top_experts_by_threshold (dict_get (fst (compute_layer_expert_weights records)) l [])
      (dict_get (snd (compute_layer_expert_weights records)) l 0) thr = (fst sel, fst (snd sel), snd (snd sel))"
    by (simp add: sel selection_of_def)
  note chosen = threshold_selection[OF this thr(2)]
  show ?thesis
    using le ratio_unit_interval[OF le, where 'f = 'f] key rec(5) chosen unfolding rec(1-4) by (intro exI[of _ l] conjI impI) simp_all
qed

theorem main_metrics_routing_report_witness:
  "\<exists>out rl. main_metrics (Threshold (1 / 2)) [2] example_records = Inr out \<and> (''0'', rl) \<in> set (mo_routing out) \<and>
     (\<exists>l. ''0'' = py_str l \<and> rl_total_tokens rl = length (filter (\<lambda>(l', e). l' = l) (primaries example_records)) \<and>
       1 / 2 \<le> rl_group_weight_share rl)"
proof -
  have "map_sum id (map fst \<circ> mo_routing) (main_metrics (Threshold (1 / 2)) [2] example_records) = Inr [''0'']"
    by code_simp
  then obtain out where run: "main_metrics (Threshold (1 / 2)) [2] example_records = Inr out"
    and "map fst (mo_routing out) = [''0'']"
    by (cases "main_metrics (Threshold (1 / 2)) [2] example_records") auto
  then obtain rl where rl: "(''0'', rl) \<in> set (mo_routing out)" by force
  have c: "contributions example_records = [(0, 3, 1), (0, 1, 1), (0, 2, 1), (0, 5, 1)]" by code_simp
  then have "weights_nonneg example_records" by (simp add: weights_nonneg_def)
  from main_metrics_routing_report[OF run _ _ this rl] obtain l where l: "''0'' = py_str l"
    "rl_total_tokens rl = length (filter (\<lambda>(l', e). l' = l) (primaries example_records))"
    "0 < layer_weight example_records l UNIV \<Longrightarrow> 1 / 2 \<le> rl_group_weight_share rl" by auto
  moreover have "''0'' = py_str 0" by code_simp
  ultimately have "l = 0" using inj_py_str by (metis injD)
  moreover have "0 < layer_weight example_records 0 UNIV" using c by (simp add: layer_weight_def)
  ultimately show ?thesis using run rl \<open>''0'' = py_str l\<close> l by blast
qed

end
