(* ===== verification/Ngram_Statistics.thy ===== *)
theory Ngram_Statistics
  imports Expert_Metrics
begin

text \<open>
  Model of \<^verbatim>\<open>metric/utils/n_gram_statistics.py\<close>: the expert sequences of the requests and, per
  layer, the counts of n-gram paths, transitions and self loops with the transition matrix.
  The plots and the files are left out; the numbers in them are the fields of \<open>ngram_stats\<close>.
\<close>

section \<open>Sequences\<close>

text \<open>Unlike \<^verbatim>\<open>compute_expert_metrics.py\<close>, records without a request id are dropped.\<close>

definition request_seq_step :: "'f token_record \<Rightarrow> sequences \<Rightarrow> sequences" where
  "request_seq_step record seqs =
     (case tr_request_id record of
        None \<Rightarrow> seqs
      | Some request_id \<Rightarrow>
          if layers_of record = [] then seqs
          else fold (append_primary request_id) (int_layers record) seqs)"

definition extract_request_sequences :: "'f token_record list \<Rightarrow> sequences" where
  "extract_request_sequences records = fold request_seq_step records []"

section \<open>Statistics of one layer\<close>

record ngram_acc =
  na_total_ngram_paths :: nat
  na_unique_ngram_paths :: "int list set"
  na_total_transitions :: nat
  na_unique_transitions :: "(int \<times> int) set"
  na_self_loop_transitions :: nat
  na_transition_counts :: "(int \<times> int, nat) dict"

definition init_ngram_acc :: ngram_acc where
  "init_ngram_acc = \<lparr>na_total_ngram_paths = 0, na_unique_ngram_paths = {}, na_total_transitions = 0,
     na_unique_transitions = {}, na_self_loop_transitions = 0, na_transition_counts = []\<rparr>"

definition count_ngram :: "int list \<Rightarrow> int \<times> int \<Rightarrow> ngram_acc \<Rightarrow> ngram_acc" where
  "count_ngram ngram transition acc =
     acc\<lparr>na_total_ngram_paths := Suc (na_total_ngram_paths acc),
         na_unique_ngram_paths := insert ngram (na_unique_ngram_paths acc),
         na_transition_counts := dict_upd transition 0 Suc (na_transition_counts acc),
         na_total_transitions := Suc (na_total_transitions acc),
         na_unique_transitions := insert transition (na_unique_transitions acc),
         na_self_loop_transitions :=
           (if card (set ngram) = 1 then Suc (na_self_loop_transitions acc)
            else na_self_loop_transitions acc)\<rparr>"

text \<open>The transition of an n-gram goes from its first to its last expert.\<close>

definition ngram_step :: "int \<Rightarrow> int list \<Rightarrow> ngram_acc \<Rightarrow> ngram_acc result" where
  "ngram_step n ngram acc =
     bind_res (py_nth ngram 0) (\<lambda>source.
     bind_res (py_nth ngram (n - 1)) (\<lambda>target.
       Inr (count_ngram ngram (source, target) acc)))"

definition scan_layer :: "sequences \<Rightarrow> int \<Rightarrow> int \<Rightarrow> ngram_acc result" where
  "scan_layer request_sequences n layer_idx =
     fold_res (\<lambda>(request_id, layer_data) acc.
                 fold_res (ngram_step n) (ngrams n (dict_get layer_data layer_idx [])) acc)
       request_sequences init_ngram_acc"

text \<open>\<^verbatim>\<open>np.zeros((num_experts, num_experts))\<close> filled with the counts whose indices are in range.\<close>

definition matrix_set :: "nat list list \<Rightarrow> int \<Rightarrow> int \<Rightarrow> nat \<Rightarrow> nat list list" where
  "matrix_set M i j c = M[nat i := (M ! nat i)[nat j := c]]"

definition transition_matrix_of :: "int \<Rightarrow> (int \<times> int, nat) dict \<Rightarrow> nat list list" where
  "transition_matrix_of num_experts counts =
     fold (\<lambda>((source, target), count) M.
             if 0 \<le> source \<and> source < num_experts \<and> 0 \<le> target \<and> target < num_experts
             then matrix_set M source target count else M)
       counts (replicate (nat num_experts) (replicate (nat num_experts) 0))"

record 'f ngram_stats =
  ns_total_ngram_paths :: nat
  ns_unique_ngram_paths :: nat
  ns_total_transitions :: nat
  ns_unique_transitions :: nat
  ns_self_loop_transitions :: nat
  ns_self_loop_ratio :: 'f
  ns_transition_matrix :: "nat list list"
  ns_transition_counts :: "(int \<times> int, nat) dict"

definition stats_of_acc :: "int \<Rightarrow> ngram_acc \<Rightarrow> ('f::linordered_field) ngram_stats" where
  "stats_of_acc num_experts acc =
     \<lparr>ns_total_ngram_paths = na_total_ngram_paths acc,
      ns_unique_ngram_paths = card (na_unique_ngram_paths acc),
      ns_total_transitions = na_total_transitions acc,
      ns_unique_transitions = card (na_unique_transitions acc),
      ns_self_loop_transitions = na_self_loop_transitions acc,
      ns_self_loop_ratio =
        (if na_total_transitions acc > 0
         then of_nat (na_self_loop_transitions acc) / of_nat (na_total_transitions acc) else 0),
      ns_transition_matrix = transition_matrix_of num_experts (na_transition_counts acc),
      ns_transition_counts = na_transition_counts acc\<rparr>"

section \<open>All layers\<close>

definition sequence_experts :: "sequences \<Rightarrow> int list" where
  "sequence_experts request_sequences =
     concat (map (\<lambda>(_, layer_data). concat (map snd layer_data)) request_sequences)"

definition max_plus_one :: "int list \<Rightarrow> int" where
  "max_plus_one xs = (if xs = [] then 0 else Max (set xs) + 1)"

definition calculate_ngram_statistics ::
  "sequences \<Rightarrow> int \<Rightarrow> (int, ('f::linordered_field) ngram_stats) dict result" where
  "calculate_ngram_statistics request_sequences n =
     (let num_layers = max_plus_one (sequence_layers request_sequences);
          num_experts = max_plus_one (sequence_experts request_sequences)
      in map_res (\<lambda>layer_idx.
                    bind_res (scan_layer request_sequences n layer_idx) (\<lambda>acc.
                      Inr (layer_idx, stats_of_acc num_experts acc)))
           (py_range num_layers))"

section \<open>The scan as counts over all windows\<close>

lemma py_nth_ends:
  assumes "length w = nat n" and "1 \<le> n"
  shows "py_nth w 0 = Inr (hd w)" and "py_nth w (n - 1) = Inr (last w)"
proof -
  have "w \<noteq> []" using assms by auto
  then show "py_nth w 0 = Inr (hd w)" by (simp add: py_nth_def hd_conv_nth)
  have "nat (n - 1) = length w - 1" using assms by linarith
  then show "py_nth w (n - 1) = Inr (last w)"
    using assms \<open>w \<noteq> []\<close> by (simp add: py_nth_def last_conv_nth)
qed

lemma length_layer_ngram:
  assumes "w \<in> set (layer_ngrams seqs n l)" and "0 \<le> n"
  shows "length w = nat n"
  using assms by (auto simp: layer_ngrams_def ngrams_nat)

definition ends_of :: "int list \<Rightarrow> int \<times> int" where
  "ends_of w = (hd w, last w)"

lemma scan_layer_fold:
  assumes "1 \<le> n"
  shows "scan_layer seqs n l =
    Inr (fold (\<lambda>w. count_ngram w (ends_of w)) (layer_ngrams seqs n l) init_ngram_acc)"
proof -
  have "fold_res (\<lambda>(rid, ld) acc. fold_res f (ngrams n (dict_get ld l [])) acc) seqs acc =
      fold_res f (layer_ngrams seqs n l) acc" for f :: "int list \<Rightarrow> ngram_acc \<Rightarrow> ngram_acc result" and acc
  proof (induction seqs arbitrary: acc)
    case (Cons s seqs)
    then have "fold_res (\<lambda>(rid, ld) acc. fold_res f (ngrams n (dict_get ld l [])) acc) seqs =
        fold_res f (layer_ngrams seqs n l)" by blast
    then show ?case by (cases s) (simp add: layer_ngrams_def fold_res_append)
  qed (simp add: layer_ngrams_def)
  moreover have "fold_res (ngram_step n) (layer_ngrams seqs n l) init_ngram_acc =
      Inr (fold (\<lambda>w. count_ngram w (ends_of w)) (layer_ngrams seqs n l) init_ngram_acc)"
  proof (rule fold_res_Inr)
    fix w acc assume "w \<in> set (layer_ngrams seqs n l)"
    then have "length w = nat n" using assms by (simp add: length_layer_ngram)
    then show "ngram_step n w acc = Inr (count_ngram w (ends_of w) acc)"
      using assms by (simp add: ngram_step_def ends_of_def py_nth_ends)
  qed
  ultimately show ?thesis by (simp add: scan_layer_def)
qed

lemma fold_count_ngram:
  "fold (\<lambda>w. count_ngram w (ends_of w)) ws acc =
     \<lparr>na_total_ngram_paths = na_total_ngram_paths acc + length ws,
      na_unique_ngram_paths = na_unique_ngram_paths acc \<union> set ws,
      na_total_transitions = na_total_transitions acc + length ws,
      na_unique_transitions = na_unique_transitions acc \<union> set (map ends_of ws),
      na_self_loop_transitions =
        na_self_loop_transitions acc + length (filter (\<lambda>w. card (set w) = 1) ws),
      na_transition_counts =
        fold (\<lambda>t. dict_upd t 0 Suc) (map ends_of ws) (na_transition_counts acc)\<rparr>"
  by (induction ws arbitrary: acc) (auto simp: count_ngram_def)

text \<open>A counter filled from a list.\<close>

lemma dict_get_counter:
  "dict_get (fold (\<lambda>t. dict_upd t 0 Suc) ts d) t 0 = dict_get d t 0 + count_list ts t"
  by (induction ts arbitrary: d) (auto simp: dict_simps)

lemma dict_sum_counter:
  "dict_sum (fold (\<lambda>t. dict_upd t (0::nat) Suc) ts d) = dict_sum d + length ts"
  by (induction ts arbitrary: d) (auto simp: dict_sum_upd_nat)

lemma dict_ok_counter: "dict_ok d \<Longrightarrow> dict_ok (fold (\<lambda>t. dict_upd t 0 Suc) ts d)"
  by (rule fold_invariant) auto

lemma keys_counter:
  "fst ` set (fold (\<lambda>t. dict_upd t 0 Suc) ts d) = fst ` set d \<union> set ts"
  by (induction ts arbitrary: d) (auto simp: dict_simps)

lemmas counter_simps = dict_get_counter dict_sum_counter keys_counter

lemma stats_of_windows:
  fixes st :: "('f::linordered_field) ngram_stats"
  assumes "st = stats_of_acc N (fold (\<lambda>w. count_ngram w (ends_of w)) ws init_ngram_acc)"
  shows "ns_total_ngram_paths st = length ws" and "ns_total_transitions st = length ws"
    and "dict_sum (ns_transition_counts st) = length ws"
    and "ns_unique_transitions st \<le> ns_unique_ngram_paths st"
    and "ns_unique_ngram_paths st \<le> length ws" and "ns_self_loop_transitions st \<le> length ws"
    and "0 \<le> ns_self_loop_ratio st" and "ns_self_loop_ratio st \<le> 1"
  using ratio_unit_interval[of "length (filter (\<lambda>w. card (set w) = 1) ws)" "length ws", where 'f = 'f]
  unfolding assms
  by (simp_all add: stats_of_acc_def fold_count_ngram init_ngram_acc_def dict_sum_counter card_length
        card_image_le)

text \<open>The statistics of a layer as a function of its windows.\<close>

definition layer_statistics_of :: "sequences \<Rightarrow> int \<Rightarrow> int \<Rightarrow> ('f::linordered_field) ngram_stats" where
  "layer_statistics_of seqs n l = stats_of_acc (max_plus_one (sequence_experts seqs))
     (fold (\<lambda>w. count_ngram w (ends_of w)) (layer_ngrams seqs n l) init_ngram_acc)"

lemma calculate_ngram_statistics_Inr:
  assumes "1 \<le> n"
  shows "calculate_ngram_statistics seqs n =
    Inr (map (\<lambda>l. (l, layer_statistics_of seqs n l)) (py_range (max_plus_one (sequence_layers seqs))))"
  unfolding calculate_ngram_statistics_def Let_def
  by (rule map_res_Inr) (simp add: scan_layer_fold[OF assms] layer_statistics_of_def)

text \<open>
  For \<open>n \<ge> 1\<close> the statistics are computed without an exception for every layer up to the
  highest one, and on each layer: every window is counted once as a path and once as a
  transition (the transition count is the path count, not the number of adjacent pairs), the
  transition counter sums to the number of transitions, distinct transitions are at most the
  distinct paths, which are at most all paths, and the self-loop ratio is in the unit interval.
\<close>

theorem ngram_statistics_counts:
  assumes n: "1 \<le> n"
  shows "\<exists>stats. calculate_ngram_statistics seqs n = Inr stats \<and>
    map fst stats = py_range (max_plus_one (sequence_layers seqs)) \<and>
    (\<forall>(l, st :: ('f::linordered_field) ngram_stats) \<in> set stats.
       ns_total_ngram_paths st = (\<Sum>(_, ld) \<leftarrow> seqs. length (dict_get ld l []) + 1 - nat n) \<and>
       ns_total_transitions st = ns_total_ngram_paths st \<and>
       dict_sum (ns_transition_counts st) = ns_total_transitions st \<and>
       ns_unique_transitions st \<le> ns_unique_ngram_paths st \<and>
       ns_unique_ngram_paths st \<le> ns_total_ngram_paths st \<and>
       ns_self_loop_transitions st \<le> ns_total_transitions st \<and>
       0 \<le> ns_self_loop_ratio st \<and> ns_self_loop_ratio st \<le> 1)"
proof -
  have "calculate_ngram_statistics seqs n =
      Inr (map (\<lambda>l. (l, layer_statistics_of seqs n l :: 'f ngram_stats)) (py_range (max_plus_one (sequence_layers seqs))))"
    by (rule calculate_ngram_statistics_Inr[OF n])
  moreover have "(\<Sum>(_, ld) \<leftarrow> seqs. length (dict_get ld l []) + 1 - nat n) = length (layer_ngrams seqs n l)" for l
    using n by (simp add: layer_ngrams_def length_concat comp_def case_prod_unfold length_ngrams)
  ultimately show ?thesis
    using stats_of_windows[OF refl, where 'f = 'f] by (auto simp: comp_def layer_statistics_of_def)
qed

theorem ngram_statistics_counts_witness:
  "\<exists>stats. calculate_ngram_statistics [(0, [(0, [1, 1, 2])])] 2 = Inr (stats :: (int, rat ngram_stats) dict) \<and>
     map fst stats = [0]"
proof -
  have "1 \<le> (2 :: int)" by simp
  from ngram_statistics_counts[OF this, where 'f = rat, of "[(0, [(0, [1, 1, 2])])]"]
  show ?thesis
    by (auto simp: max_plus_one_def sequence_layers_def dict_keys_def py_range_def)
qed

section \<open>The transition matrix\<close>

lemma shape_matrix_of:
  assumes "\<forall>row \<in> set M. length row = k" and "length M = k"
  shows "\<forall>row \<in> set (matrix_set M i j c). length row = k" and "length (matrix_set M i j c) = k"
  using assms
proof -
  show "length (matrix_set M i j c) = k" using assms by (simp add: matrix_set_def)
  show "\<forall>row \<in> set (matrix_set M i j c). length row = k"
  proof (cases "nat i < length M")
    case True
    then show ?thesis using assms by (auto simp: matrix_set_def dest!: set_update_subset_insert[THEN subsetD])
  next
    case False
    then show ?thesis using assms by (simp add: matrix_set_def list_update_beyond)
  qed
qed

lemma matrix_fold_entry:
  fixes N :: int
  assumes "\<forall>row \<in> set M. length row = nat N" and "length M = nat N" and "dict_ok counts"
    and "0 \<le> s" "s < N" "0 \<le> t" "t < N"
  shows "fold (\<lambda>((source, target), count) M.
             if 0 \<le> source \<and> source < N \<and> 0 \<le> target \<and> target < N
             then matrix_set M source target count else M) counts M ! nat s ! nat t =
    (case map_of counts (s, t) of None \<Rightarrow> M ! nat s ! nat t | Some c \<Rightarrow> c)"
  using assms
proof (induction counts arbitrary: M)
  case (Cons x counts)
  obtain a b c where x: "x = ((a, b), c)" by (metis prod.exhaust)
  let ?in = "0 \<le> a \<and> a < N \<and> 0 \<le> b \<and> b < N"
  let ?M = "if ?in then matrix_set M a b c else M"
  have shape: "\<forall>row \<in> set ?M. length row = nat N" "length ?M = nat N"
    using shape_matrix_of[OF Cons.prems(1,2)] Cons.prems(1,2) by auto
  have row: "length (M ! nat a) = nat N" if ?in
    using that Cons.prems(1,2) by (auto intro!: bspec nth_mem)
  have entry: "?M ! nat s ! nat t = (if (a, b) = (s, t) then c else M ! nat s ! nat t)"
    using Cons.prems(2,4-7) row by (auto simp: matrix_set_def nth_list_update eq_nat_nat_iff)
  have fresh: "map_of counts (a, b) = None"
    using Cons.prems(3) by (auto simp: x dict_ok_def map_of_eq_None_iff)
  show ?case
    using Cons.IH[OF shape _ Cons.prems(4-7)] Cons.prems(3) entry fresh
    by (auto simp: x dict_ok_def split: option.splits)
qed simp

text \<open>Entry (s, t) of the matrix is the counter's value, zero where there is none.\<close>

lemma transition_matrix_entry:
  assumes "dict_ok counts" and "0 \<le> s" "s < N" "0 \<le> t" "t < N"
  shows "transition_matrix_of N counts ! nat s ! nat t = dict_get counts (s, t) 0"
proof -
  have "replicate (nat N) (replicate (nat N) (0::nat)) ! nat s ! nat t = 0"
    using assms by simp
  then show ?thesis
    unfolding transition_matrix_of_def dict_get_def
    using matrix_fold_entry[OF _ _ assms, of "replicate (nat N) (replicate (nat N) 0)"]
    by (auto split: option.splits)
qed

lemma layer_ngram_experts:
  assumes "w \<in> set (layer_ngrams seqs n l)" and "0 \<le> n" and "e \<in> set w"
  shows "e \<in> set (sequence_experts seqs)"
proof -
  from assms(1) obtain rid ld where ld: "(rid, ld) \<in> set seqs" "w \<in> set (ngrams n (dict_get ld l []))"
    by (auto simp: layer_ngrams_def)
  then have e: "e \<in> set (dict_get ld l [])"
    using assms(2,3) by (auto simp: ngrams_nat dest!: in_set_takeD in_set_dropD)
  then have "l \<in> fst ` set ld" using dict_get_notin by fastforce
  then have "(l, dict_get ld l []) \<in> set ld" by (rule dict_get_mem)
  with ld(1) e show ?thesis by (force simp: sequence_experts_def)
qed

lemma max_plus_one_bound: "e \<in> set xs \<Longrightarrow> e < max_plus_one xs"
  by (auto simp: max_plus_one_def intro: Max_ge le_imp_less_Suc zle_add1_eq_le[THEN iffD2])

lemma sum_count_list_ends:
  fixes N :: int
  assumes "\<And>s t. (s, t) \<in> set ts \<Longrightarrow> 0 \<le> s \<and> s < N \<and> 0 \<le> t \<and> t < N"
  shows "(\<Sum>s \<in> {0..<N}. \<Sum>t \<in> {0..<N}. count_list ts (s, t)) = length ts"
proof -
  have "(\<Sum>s \<in> {0..<N}. \<Sum>t \<in> {0..<N}. count_list ts (s, t)) =
      (\<Sum>p \<in> {0..<N} \<times> {0..<N}. count_list ts p)"
    by (simp add: sum.cartesian_product)
  also have "\<dots> = (\<Sum>p \<in> set ts. count_list ts p)"
    using assms by (intro sum.mono_neutral_right) (auto simp: count_list_0_iff)
  also have "\<dots> = length ts" by (rule sum_count_set) auto
  finally show ?thesis .
qed

lemma matrix_counts:
  assumes n: "1 \<le> n" and nonneg: "\<forall>e \<in> set (sequence_experts seqs). 0 \<le> e"
    and N: "N = max_plus_one (sequence_experts seqs)" and st: "st = (layer_statistics_of seqs n l :: ('f::linordered_field) ngram_stats)"
  shows "0 \<le> s \<and> s < N \<and> 0 \<le> t \<and> t < N \<Longrightarrow>
      ns_transition_matrix st ! nat s ! nat t = length (filter (\<lambda>w. hd w = s \<and> last w = t) (layer_ngrams seqs n l))"
    "(\<Sum>s \<in> {0..<N}. \<Sum>t \<in> {0..<N}. ns_transition_matrix st ! nat s ! nat t) = ns_total_transitions st"
proof -
  let ?ts = "map ends_of (layer_ngrams seqs n l)"
  have acc: "ns_transition_matrix st = transition_matrix_of N (fold (\<lambda>t. dict_upd t 0 Suc) ?ts [])" "ns_total_transitions st = length ?ts"
    by (simp_all add: st layer_statistics_of_def stats_of_acc_def fold_count_ngram init_ngram_acc_def N)
  have entry: "ns_transition_matrix st ! nat s ! nat t = count_list ?ts (s, t)" if "0 \<le> s \<and> s < N \<and> 0 \<le> t \<and> t < N" for s t
    using that by (simp add: transition_matrix_entry acc dict_ok_counter dict_get_counter)
  have "count_list ?ts (s, t) = length (filter (\<lambda>w. hd w = s \<and> last w = t) (layer_ngrams seqs n l))" for s t
    by (auto simp: ends_of_def count_list_eq_length_filter comp_def filter_map intro!: arg_cong[where f = length] filter_cong)
  then show "0 \<le> s \<and> s < N \<and> 0 \<le> t \<and> t < N \<Longrightarrow>
      ns_transition_matrix st ! nat s ! nat t = length (filter (\<lambda>w. hd w = s \<and> last w = t) (layer_ngrams seqs n l))" using entry by simp
  have "0 \<le> s \<and> s < N \<and> 0 \<le> t \<and> t < N" if "(s, t) \<in> set ?ts" for s t
  proof -
    from that obtain w where w: "w \<in> set (layer_ngrams seqs n l)" "s = hd w" "t = last w" by (auto simp: ends_of_def)
    then have "w \<noteq> []" using length_layer_ngram[OF w(1)] n by auto
    then show ?thesis
      using w n nonneg layer_ngram_experts[OF w(1)] max_plus_one_bound[of _ "sequence_experts seqs"] by (auto simp: N)
  qed
  then show "(\<Sum>s \<in> {0..<N}. \<Sum>t \<in> {0..<N}. ns_transition_matrix st ! nat s ! nat t) = ns_total_transitions st"
    using entry sum_count_list_ends[of ?ts N] by (simp add: acc(2))
qed

text \<open>The positions of the sequences of a layer at which expert \<open>s\<close> stands and \<open>n - 1\<close> tokens later expert \<open>t\<close>.\<close>

definition transitions_at :: "sequences \<Rightarrow> int \<Rightarrow> int \<Rightarrow> int \<Rightarrow> int \<Rightarrow> nat" where
  "transitions_at seqs n l s t = (\<Sum>(rid, ld) \<leftarrow> seqs. card {i. i + nat n \<le> length (dict_get ld l []) \<and>
     dict_get ld l [] ! i = s \<and> dict_get ld l [] ! (i + nat n - 1) = t})"

lemma windows_at:
  assumes n: "1 \<le> n"
  shows "length (filter (\<lambda>w. hd w = s \<and> last w = t) (ngrams n xs)) = card {i. i + nat n \<le> length xs \<and> xs ! i = s \<and> xs ! (i + nat n - 1) = t}"
proof -
  have w: "hd (take (nat n) (drop i xs)) = xs ! i" "last (take (nat n) (drop i xs)) = xs ! (i + nat n - 1)" if "i + nat n \<le> length xs" for i
  proof -
    have l: "length (take (nat n) (drop i xs)) = nat n" "0 < nat n" using that n by simp_all
    then have ne: "take (nat n) (drop i xs) \<noteq> []" by (metis length_greater_0_conv)
    show "hd (take (nat n) (drop i xs)) = xs ! i" "last (take (nat n) (drop i xs)) = xs ! (i + nat n - 1)"
      unfolding hd_conv_nth[OF ne] last_conv_nth[OF ne] l(1) using l(2) that by simp_all
  qed
  have "length (filter (\<lambda>w. hd w = s \<and> last w = t) (ngrams n xs)) =
      card {i. i < Suc (length xs) - nat n \<and> hd (take (nat n) (drop i xs)) = s \<and> last (take (nat n) (drop i xs)) = t}"
    using n by (simp add: ngrams_nat filter_map length_filter_conv_card comp_def) (auto intro!: arg_cong[of _ _ card])
  also have "{i. i < Suc (length xs) - nat n \<and> hd (take (nat n) (drop i xs)) = s \<and> last (take (nat n) (drop i xs)) = t} =
      {i. i + nat n \<le> length xs \<and> xs ! i = s \<and> xs ! (i + nat n - 1) = t}" using w by auto
  finally show ?thesis .
qed

lemma layer_windows_at:
  "1 \<le> n \<Longrightarrow> length (filter (\<lambda>w. hd w = s \<and> last w = t) (layer_ngrams seqs n l)) = transitions_at seqs n l s t"
  by (simp add: layer_ngrams_def transitions_at_def filter_concat length_concat comp_def case_prod_unfold windows_at)

text \<open>
  (C37) The transition matrices of \<^verbatim>\<open>calculate_ngram_statistics\<close>. With expert ids \<open>\<ge> 0\<close> and \<open>n \<ge> 1\<close> the function returns statistics for
  every layer up to the highest one, and in each of them entry (s, t) of the transition matrix is the number of positions in the sequences of that layer at
  which expert s stands and \<open>n - 1\<close> tokens later expert t; the entries sum to \<^verbatim>\<open>total_transitions\<close>, so no transition falls outside the matrix. This
  is one transition per window, from its first to its last expert, as the comment in the loop says. For \<open>n = 2\<close> these are the adjacent
  pairs; the docstring, which says that \<^verbatim>\<open>total_transitions\<close> counts all adjacent pairs, is right for \<open>n = 2\<close> only.
\<close>

theorem transition_matrix_correct:
  assumes n: "1 \<le> n" and nonneg: "\<forall>e \<in> set (sequence_experts seqs). 0 \<le> e"
  shows "\<exists>stats :: (int, ('f::linordered_field) ngram_stats) dict. calculate_ngram_statistics seqs n = Inr stats \<and>
    map fst stats = py_range (max_plus_one (sequence_layers seqs)) \<and>
    (\<forall>(l, st) \<in> set stats.
      (\<forall>s \<in> {0..<max_plus_one (sequence_experts seqs)}. \<forall>t \<in> {0..<max_plus_one (sequence_experts seqs)}.
         ns_transition_matrix st ! nat s ! nat t = transitions_at seqs n l s t) \<and>
      (\<Sum>s \<in> {0..<max_plus_one (sequence_experts seqs)}. \<Sum>t \<in> {0..<max_plus_one (sequence_experts seqs)}. ns_transition_matrix st ! nat s ! nat t) =
        ns_total_transitions st)"
proof -
  let ?st = "\<lambda>l. layer_statistics_of seqs n l :: 'f ngram_stats" and ?N = "max_plus_one (sequence_experts seqs)"
  note counts = matrix_counts[OF n nonneg refl refl, where 'f = 'f, unfolded layer_windows_at[OF n]]
  have e: "ns_transition_matrix (?st l) ! nat s ! nat t = transitions_at seqs n l s t" if "s \<in> {0..<?N}" "t \<in> {0..<?N}" for l s t
    using counts(1)[of s t l] that by simp
  then show ?thesis using counts(2) calculate_ngram_statistics_Inr[OF n, of seqs, where 'a = 'f] by (auto simp: comp_def)
qed

theorem transition_matrix_correct_witness:
  "\<exists>st :: rat ngram_stats. calculate_ngram_statistics [(0, [(0, [1, 1, 2])])] 2 = Inr [(0, st)] \<and>
     ns_transition_matrix st ! 1 ! 2 = transitions_at [(0, [(0, [1, 1, 2])])] 2 0 1 2 \<and> ns_total_transitions st = 2"
proof -
  let ?seqs = "[(0, [(0, [1, 1, 2])])] :: sequences"
  have N: "max_plus_one (sequence_experts ?seqs) = 3" by code_simp
  have nonneg: "\<forall>e \<in> set (sequence_experts ?seqs). 0 \<le> e" by code_simp
  have r: "py_range (max_plus_one (sequence_layers ?seqs)) = [0]" by code_simp
  have one: "(1::int) \<le> 2" by simp
  obtain stats :: "(int, rat ngram_stats) dict" where s: "calculate_ngram_statistics ?seqs 2 = Inr stats" "map fst stats = [0]"
    "\<forall>(l, st) \<in> set stats. (\<forall>s \<in> {0..<3}. \<forall>t \<in> {0..<3}. ns_transition_matrix st ! nat s ! nat t = transitions_at ?seqs 2 l s t)"
    using transition_matrix_correct[OF one nonneg, where 'f = rat] unfolding N r by fastforce
  then obtain st where st: "stats = [(0, st)]" by (cases stats) auto
  then have "\<forall>s \<in> {0..<3}. \<forall>t \<in> {0..<3}. ns_transition_matrix st ! nat s ! nat t = transitions_at ?seqs 2 0 s t" using s(3) by auto
  from this[THEN bspec[of _ _ 1], THEN bspec[of _ _ 2]] have "ns_transition_matrix st ! nat 1 ! nat 2 = transitions_at ?seqs 2 0 1 2" by simp
  moreover have "ns_total_transitions st = 2"
    using s(1) unfolding st calculate_ngram_statistics_Inr[OF one] r by (auto simp: layer_statistics_of_def stats_of_acc_def fold_count_ngram init_ngram_acc_def layer_ngrams_def ngrams_nat dict_get_def)
  ultimately show ?thesis using s(1) st by auto
qed

end
