(* ===== verification/Pipeline.thy ===== *)
theory Pipeline
  imports Postprocess Rss Ngram_Statistics
begin

text \<open>
  Properties that span the post-processing script and the metric scripts that read its output.
\<close>

section \<open>From router logits to the RSS margin\<close>

lemma set_unselected_logits:
  "set (unselected_logits ids logits) = {logits ! j | j. j < length logits \<and> int j \<notin> set ids}"
  by (auto simp: unselected_logits_def)

text \<open>
  From the recorder's dump to the score: if the router logits of a layer cover all selected
  experts and at least one expert was not selected, the converted layer yields a margin entry, the
  margin is positive exactly when every selected expert has a larger router logit than every
  expert that was not selected, and it is the smallest such gap.
\<close>

theorem converted_layer_margin:
  fixes rcd :: "('f::linordered_field) expert_record"
  assumes conv: "convert_layer rcd l = Some (key, ld)"
    and logits: "logits = batch0 (get_list (er_router_logits rcd)) l"
    and cover: "\<forall>e \<in> set (get_list (ld_expert_ids ld)). e < int (length logits)"
    and other: "\<exists>j < length logits. int j \<notin> set (get_list (ld_expert_ids ld))"
  shows "\<exists>me. extract_layer_margin ld = Some me \<and>
    (0 < me_margin me \<longleftrightarrow>
      (\<forall>e \<in> set (get_list (ld_expert_ids ld)). \<forall>j < length logits.
         int j \<notin> set (get_list (ld_expert_ids ld)) \<longrightarrow> logits ! j < logits ! nat e)) \<and>
    (\<forall>e \<in> set (get_list (ld_expert_ids ld)). \<forall>j < length logits.
         int j \<notin> set (get_list (ld_expert_ids ld)) \<longrightarrow> me_margin me \<le> logits ! nat e - logits ! j)"
proof -
  obtain ks ls where ks: "ks \<noteq> []"
    and fl: "filter_layer (batch0 (get_list (er_topk_ids rcd)) l) (batch0 (get_list (er_topk_weights rcd)) l)
      logits = (map fst ks, map snd ks, ls)"
    and kk: "ks = kept (batch0 (get_list (er_topk_ids rcd)) l) (batch0 (get_list (er_topk_weights rcd)) l)"
    and ld: "ld = \<lparr>ld_expert_ids = Some (map fst ks), ld_weights = Some (map (JFloat \<circ> snd) ks),
       ld_logits = (if ls = [] then None else Some ls),
       ld_next_expert_logit = next_expert_logit_of (map fst ks) logits\<rparr>"
    using conv unfolding logits by (rule convert_layer_Some)
  let ?ids = "map fst ks"
  let ?un = "set (unselected_logits ?ids logits)"
  have ls: "ls = map (\<lambda>e. logits ! nat e) ?ids"
    using filter_layer_kept[of "batch0 (get_list (er_topk_ids rcd)) l" "batch0 (get_list (er_topk_weights rcd)) l" logits]
      fl cover by (auto simp: ld kk)
  have un: "?un \<noteq> {}" using other by (auto simp: ld set_unselected_logits)
  then have "unselected_logits ?ids logits \<noteq> []" by auto
  moreover have "logits \<noteq> []" using other by auto
  ultimately have nx: "next_expert_logit_of ?ids logits = Some (Max ?un)"
    using ks by (simp add: next_expert_logit_of_def)
  let ?me = "\<lparr>me_margin = Min (set ls) - Max ?un, me_weakest_selected_logit = Min (set ls),
      me_strongest_unselected_logit = Max ?un, me_topk = length ?ids\<rparr>"
  have ne: "set ls \<noteq> {}" using ks by (simp add: ls)
  have me: "extract_layer_margin ld = Some ?me"
    using ks nx by (simp add: extract_layer_margin_Some ld ls)
  have lb: "me_margin ?me \<le> x - y" if "x \<in> set ls" "y \<in> ?un" for x y
    using that by (simp add: diff_mono)
  have pos: "0 < me_margin ?me \<longleftrightarrow> (\<forall>x \<in> set ls. \<forall>y \<in> ?un. y < x)"
    using un ne by simp
  have ids: "get_list (ld_expert_ids ld) = ?ids" by (simp add: ld)
  let ?P = "\<lambda>R. \<forall>e \<in> set ?ids. \<forall>j < length logits. int j \<notin> set ?ids \<longrightarrow> R (logits ! nat e) (logits ! j)"
  have all: "?P R \<longleftrightarrow> (\<forall>x \<in> set ls. \<forall>y \<in> ?un. R x y)" for R
    unfolding set_unselected_logits ls by auto
  have "?P (\<lambda>x y. me_margin ?me \<le> x - y)" using all[of "\<lambda>x y. me_margin ?me \<le> x - y"] lb by blast
  moreover have "0 < me_margin ?me \<longleftrightarrow> ?P (\<lambda>x y. y < x)" using all[of "\<lambda>x y. y < x"] pos by blast
  ultimately show ?thesis unfolding ids using me by blast
qed

definition example_dump :: "rat expert_record" where
  "example_dump = \<lparr>er_topk_ids = Some [[[2, 0]]], er_topk_weights = Some [[[1, 1]]],
     er_router_logits = Some [[[5, 1, 7]]], er_input_ids = None, er_aligned = None\<rparr>"

theorem converted_layer_margin_witness:
  "\<exists>key ld me. convert_layer example_dump 0 = Some (key, ld) \<and> extract_layer_margin ld = Some me \<and>
     0 < me_margin me"
proof -
  obtain key ld where c: "convert_layer example_dump 0 = Some (key, ld)"
    and ids: "get_list (ld_expert_ids ld) = [2, 0]"
  proof -
    have "map_option (ld_expert_ids \<circ> snd) (convert_layer example_dump 0) = Some (Some [2, 0])" by code_simp
    then show ?thesis using that by (cases "convert_layer example_dump 0") auto
  qed
  have l: "batch0 (get_list (er_router_logits example_dump)) 0 = [5, 1, 7]" by code_simp
  have "j = 1" if "j < length [5, 1, 7 :: rat]" "int j \<notin> set [2, 0]" for j
    using that by (auto simp: less_Suc_eq)
  then have "\<forall>e \<in> set [2, 0 :: int]. \<forall>j < length [5, 1, 7 :: rat].
      int j \<notin> set [2, 0] \<longrightarrow> [5, 1, 7 :: rat] ! j < [5, 1, 7] ! nat e" by fastforce
  moreover have "\<exists>j < length [5, 1, 7 :: rat]. int j \<notin> set [2, 0]" by (intro exI[of _ 1]) simp
  ultimately show ?thesis
    using converted_layer_margin[OF c l[symmetric]] c unfolding ids by auto
qed

section \<open>From aligned records to request sequences\<close>

lemma aligned_has_request:
  assumes "r \<in> set (align_tokens_with_experts results records tok num)"
  shows "tr_request_id (convert_record_to_output_format r) \<noteq> None"
proof -
  let ?ti = "prepare_token_info results num"
  from assms obtain i where i: "i < length (ti_token_ids ?ti)"
    and r: "r = align_record tok (ti_boundaries ?ti) (ti_prompts ?ti) i (ti_token_ids ?ti ! i) (records ! i)"
    by (auto simp: align_tokens_with_experts_def Let_def)
  have "find_request 0 (ti_boundaries ?ti) i \<noteq> None"
    using aligned_request[OF i] by blast
  then show ?thesis
    by (auto simp: r align_record_def convert_record_to_output_format_def Let_def)
qed

text \<open>
  On the output of the post-processing script the sequence extraction of the metric script
  never falls back to numbering prompts: every record carries its request, so the extracted
  sequence of a request and layer lists exactly that request's primary experts in token order.
\<close>

theorem pipeline_sequences:
  "dict_get (dict_get (extract_expert_sequences_by_request
      (save_results_jsonl (align_tokens_with_experts results records tok num))) rid []) l [] =
    primary_sequence (save_results_jsonl (align_tokens_with_experts results records tok num)) rid l"
  using seq_fold_with_ids[of "save_results_jsonl (align_tokens_with_experts results records tok num)" init_seq_state]
    aligned_has_request
  by (fastforce simp: extract_expert_sequences_by_request_def init_seq_state_def save_results_jsonl_def)

end
