(* ===== verification/Eplb_Base.thy ===== *)
theory Eplb_Base
  imports Prelude
begin

text \<open>
  What the load-balancing components of the inference engine share: the server arguments they
  read and the tensor operations they use. A tensor is a nested list; a tensor value is
  rectangular, which \<open>rect\<close> states. Expert ids are integers, because \<open>-1\<close> marks an unused slot.
\<close>

section \<open>Server arguments\<close>

record 'f server_args =
  chunked_prefill_size :: int
  nnodes :: int
  sa_ep_size :: int
  moe_a2a_backend :: string
  deepep_mode :: string
  ep_num_redundant_experts :: int
  ep_dispatch_algorithm :: "string option"
  eplb_algorithm :: string
  eplb_rebalance_num_iterations :: int
  eplb_rebalance_layers_per_chunk :: "int option"
  eplb_min_rebalancing_utilization_threshold :: 'f
  expert_distribution_recorder_mode :: "string option"
  expert_distribution_recorder_buffer_size :: int
  enable_expert_distribution_metrics :: bool
  enable_two_batch_overlap :: bool

section \<open>Tensors\<close>

definition rect :: "nat \<Rightarrow> nat \<Rightarrow> 'a list list \<Rightarrow> bool" where
  "rect n m t \<longleftrightarrow> length t = n \<and> list_all (\<lambda>r. length r = m) t"

text \<open>\<^verbatim>\<open>t.shape[1]\<close>.\<close>

definition shape1 :: "'a list list \<Rightarrow> nat" where
  "shape1 t = (case t of [] \<Rightarrow> 0 | r # _ \<Rightarrow> length r)"

lemma rect_length: "rect n m t \<Longrightarrow> length t = n"
  by (simp add: rect_def)

lemma rect_row: "rect n m t \<Longrightarrow> i < n \<Longrightarrow> length (t ! i) = m"
  by (simp add: rect_def list_all_length)

lemma rect_row_mem: "rect n m t \<Longrightarrow> r \<in> set t \<Longrightarrow> length r = m"
  by (simp add: rect_def list_all_iff)

lemma rect_shape1: "rect n m t \<Longrightarrow> 0 < n \<Longrightarrow> shape1 t = m"
  by (cases t) (auto simp: rect_def shape1_def)

lemma shape1_replicate: "0 < n \<Longrightarrow> shape1 (replicate n r) = length r"
  by (cases n) (auto simp: shape1_def)

text \<open>
  \<^verbatim>\<open>row.scatter_add_(0, index, src)\<close> on one row: every index must lie inside the row, and
  repeated indices accumulate.
\<close>

fun scatter_add_row :: "('a::plus) list \<Rightarrow> (nat \<times> 'a) list \<Rightarrow> 'a list" where
  "scatter_add_row row [] = row"
| "scatter_add_row row ((i, v) # upds) = scatter_add_row (row[i := row ! i + v]) upds"

definition scatter_add :: "('a::plus) list \<Rightarrow> int list \<Rightarrow> 'a list \<Rightarrow> 'a list result" where
  "scatter_add row idx src =
     (if list_all (\<lambda>i. 0 \<le> i \<and> i < int (length row)) idx \<and> length idx \<le> length src
      then Inr (scatter_add_row row (zip (map nat idx) src)) else Inl RuntimeError)"

lemma length_scatter_add_row [simp]: "length (scatter_add_row row upds) = length row"
  by (induction row upds rule: scatter_add_row.induct) auto

lemma scatter_add_row_nth:
  fixes row :: "('a::comm_monoid_add) list"
  assumes "j < length row"
  shows "scatter_add_row row upds ! j = row ! j + sum_list (map snd (filter (\<lambda>u. fst u = j) upds))"
  using assms by (induction row upds rule: scatter_add_row.induct) (auto simp: ac_simps nth_list_update)

lemma scatter_add_row_sum:
  fixes row :: "('a::comm_monoid_add) list"
  assumes "list_all (\<lambda>u. fst u < length row) upds"
  shows "sum_list (scatter_add_row row upds) = sum_list row + sum_list (map snd upds)"
  using assms
proof (induction row upds rule: scatter_add_row.induct)
  case (2 row i v upds)
  have "sum_list (row[i := row ! i + v]) = sum_list row + v" if "i < length row"
    using that by (induction row arbitrary: i) (auto simp: nth_Cons ac_simps split: nat.splits)
  with 2 show ?case by (simp add: ac_simps)
qed simp

text \<open>\<^verbatim>\<open>row.scatter_(0, index, src)\<close> on one row: later writes overwrite earlier ones.\<close>

fun scatter_row :: "'a list \<Rightarrow> (nat \<times> 'a) list \<Rightarrow> 'a list" where
  "scatter_row row [] = row"
| "scatter_row row ((i, v) # upds) = scatter_row (row[i := v]) upds"

lemma length_scatter_row [simp]: "length (scatter_row row upds) = length row"
  by (induction row upds rule: scatter_row.induct) auto

lemma scatter_row_other: "j \<notin> fst ` set upds \<Longrightarrow> scatter_row row upds ! j = row ! j"
  by (induction row upds rule: scatter_row.induct) auto

lemma scatter_row_at:
  assumes "distinct (map fst upds)" and "(j, v) \<in> set upds" and "j < length row"
  shows "scatter_row row upds ! j = v"
  using assms
proof (induction row upds rule: scatter_row.induct)
  case (2 row i w upds)
  then show ?case
  proof (cases "j = i")
    case True
    with 2 have "v = w" "j \<notin> fst ` set upds" by (auto simp: rev_image_eqI)
    with 2 True show ?thesis by (simp add: scatter_row_other)
  qed (use 2 in auto)
qed simp

text \<open>\<^verbatim>\<open>t.gather(-1, index)\<close> on one row.\<close>

definition gather_row :: "'a list \<Rightarrow> nat list \<Rightarrow> 'a list" where
  "gather_row row idx = map (\<lambda>i. row ! i) idx"

lemma length_gather_row [simp]: "length (gather_row row idx) = length idx"
  by (simp add: gather_row_def)

lemma sum_zip_filter:
  fixes ys :: "('b::comm_monoid_add) list"
  assumes "length xs = n" "length ys = n"
  shows "sum_list (map snd (filter (\<lambda>u. fst u = k) (zip xs ys))) = (\<Sum>q | q < n \<and> xs ! q = k. ys ! q)"
proof -
  have "sum_list (map snd (filter (\<lambda>u. fst u = k) (zip xs ys))) =
      sum_list (map (\<lambda>u. if fst u = k then snd u else 0) (zip xs ys))"
    by (rule sum_list_map_filter')
  also have "\<dots> = (\<Sum>q < n. if xs ! q = k then ys ! q else 0)"
    using assms by (auto simp: sum_list_sum_nth atLeast0LessThan intro!: sum.cong)
  also have "\<dots> = (\<Sum>q | q \<in> {..<n} \<and> xs ! q = k. ys ! q)" by (rule sum.inter_filter[symmetric]) simp
  finally show ?thesis by simp
qed

end
