(* ===== verification/Expert_Location.thy ===== *)
theory Expert_Location
  imports Eplb_Base
begin

text \<open>
  \<^verbatim>\<open>sglang/srt/eplb/expert_location.py\<close> and \<^verbatim>\<open>expert_location_dispatch.py\<close>: where the
  replicas (physical experts) of every logical expert live, which replica a rank dispatches to,
  and the translation of the router's logical ids into physical ids.

  The process group (\<^verbatim>\<open>torch.distributed\<close>) and the generator \<^verbatim>\<open>random.Random\<close> are parameters:
  the own rank and the world size as integers, the generator as the record \<open>rng\<close> of the two
  operations the code calls, with their documented behaviour in \<open>rng_spec\<close>.
\<close>

section \<open>Data\<close>

record ExpertLocationMetadata =
  physical_to_logical_map :: "int list list"
  physical_to_logical_map_cpu :: "int list list"
  logical_to_all_physical_map :: "int list list list"
  logical_to_all_physical_map_cpu :: "int list list list"
  logical_to_all_physical_map_num_valid :: "nat list list"
  logical_to_rank_dispatch_physical_map :: "int list list option"

record ModelConfigForExpertLocation =
  mc_num_layers :: nat
  mc_num_logical_experts :: nat
  mc_num_groups :: "nat option"

record 'r rng =
  rng_sample :: "int list \<Rightarrow> nat \<Rightarrow> 'r \<Rightarrow> int list \<times> 'r"
  rng_shuffle :: "int list \<Rightarrow> 'r \<Rightarrow> int list \<times> 'r"

definition num_layers :: "ExpertLocationMetadata \<Rightarrow> nat" where
  "num_layers md = length (physical_to_logical_map md)"

definition num_physical_experts :: "ExpertLocationMetadata \<Rightarrow> nat" where
  "num_physical_experts md = shape1 (physical_to_logical_map md)"

definition num_logical_experts :: "ExpertLocationMetadata \<Rightarrow> nat" where
  "num_logical_experts md = shape1 (logical_to_all_physical_map md)"

text \<open>\<^verbatim>\<open>num_local_physical_experts\<close>; \<open>ep_size\<close> is the world size of the process group.\<close>

definition num_local_physical_experts :: "int \<Rightarrow> ExpertLocationMetadata \<Rightarrow> int result" where
  "num_local_physical_experts ep_size md =
     bind_res (py_floordiv (int (num_physical_experts md)) ep_size)
       (\<lambda>ans. py_assert (int (num_physical_experts md) mod ep_size = 0) (Inr ans))"

definition inner_shape :: "'a list list list \<Rightarrow> nat" where
  "inner_shape t = (case t of [] \<Rightarrow> 0 | r # _ \<Rightarrow> shape1 r)"

text \<open>\<^verbatim>\<open>__post_init__\<close>.\<close>

definition post_init :: "ExpertLocationMetadata \<Rightarrow> ExpertLocationMetadata result" where
  "post_init md =
     py_assert (length (physical_to_logical_map md) = length (logical_to_all_physical_map md) \<and>
                length (logical_to_all_physical_map md) = length (logical_to_all_physical_map_num_valid md))
       (py_assert (shape1 (logical_to_all_physical_map md) = shape1 (logical_to_all_physical_map_num_valid md))
         (py_assert (shape1 (physical_to_logical_map md) = inner_shape (logical_to_all_physical_map md))
           (Inr md)))"

section \<open>Nearest replica\<close>

definition compute_gpu_id_of_physical_expert :: "int \<Rightarrow> int \<Rightarrow> int" where
  "compute_gpu_id_of_physical_expert physical_expert_id num_local_gpu_physical_experts =
     physical_expert_id div num_local_gpu_physical_experts"

definition compute_node_id_of_physical_expert :: "int \<Rightarrow> int \<Rightarrow> int" where
  "compute_node_id_of_physical_expert physical_expert_id num_local_host_physical_experts =
     physical_expert_id div num_local_host_physical_experts"

text \<open>The comprehensions divide once per candidate, so an empty list hides a zero divisor.\<close>

definition find_nearest_expert :: "int list \<Rightarrow> int \<Rightarrow> int \<Rightarrow> int \<Rightarrow> int \<Rightarrow> int result" where
  "find_nearest_expert candidates n_local_gpu moe_ep_rank num_gpus_per_node n_local_node =
     (if length candidates = 1 then Inr (hd candidates)
      else if candidates \<noteq> [] \<and> n_local_gpu = 0 then Inl ZeroDivisionError
      else
        let same_gpu = filter (\<lambda>p. compute_gpu_id_of_physical_expert p n_local_gpu = moe_ep_rank) candidates in
        if same_gpu \<noteq> [] then Inr (hd same_gpu)
        else bind_res (py_floordiv moe_ep_rank num_gpus_per_node) (\<lambda>node_rank.
          if candidates \<noteq> [] \<and> n_local_node = 0 then Inl ZeroDivisionError
          else
            let same_node = filter (\<lambda>p. compute_node_id_of_physical_expert p n_local_node = node_rank) candidates in
            if same_node \<noteq> [] then Inr (hd same_node) else Inr (-1)))"

section \<open>All replicas of every logical expert\<close>

definition append_candidate :: "nat \<times> int \<Rightarrow> int list list \<Rightarrow> int list list result" where
  "append_candidate pl row =
     bind_res (py_index (length row) (snd pl)) (\<lambda>i. Inr (row[i := row ! i @ [int (fst pl)]]))"

definition candidates_of_layer :: "nat \<Rightarrow> int list \<Rightarrow> int list list result" where
  "candidates_of_layer num_logical layer =
     fold_res append_candidate (enumerate 0 layer) (replicate num_logical [])"

definition replace_by_nearest :: "int \<Rightarrow> int \<Rightarrow> int \<Rightarrow> int \<Rightarrow> int list \<Rightarrow> int list result" where
  "replace_by_nearest n_local_gpu moe_ep_rank num_gpus_per_node n_local_node candidates =
     bind_res (find_nearest_expert candidates n_local_gpu moe_ep_rank num_gpus_per_node n_local_node)
       (\<lambda>nearest. Inr (if nearest \<noteq> -1 then [nearest] else candidates))"

definition pad_nested_array :: "'a list list list \<Rightarrow> 'a \<Rightarrow> 'a list list list result" where
  "pad_nested_array arr pad_value =
     (if concat arr = [] then Inl ValueError
      else let max_len = Max (set (map length (concat arr))) in
        Inr (map (map (\<lambda>inner. inner @ replicate (max_len - length inner) pad_value)) arr))"

definition compute_logical_to_all_physical_map ::
  "'f server_args \<Rightarrow> int list list \<Rightarrow> nat \<Rightarrow> int \<Rightarrow> int option \<Rightarrow> int list list list result" where
  "compute_logical_to_all_physical_map args p2l num_logical ep_size moe_ep_rank =
     bind_res (map_res (candidates_of_layer num_logical) p2l) (\<lambda>candidates.
     bind_res
       (case moe_ep_rank of None \<Rightarrow> Inr candidates
        | Some rank \<Rightarrow>
            bind_res (py_floordiv (sa_ep_size args) (nnodes args)) (\<lambda>num_gpus_per_node.
            bind_res (py_floordiv (int (shape1 p2l)) ep_size) (\<lambda>n_local_gpu.
              map_res (map_res (replace_by_nearest n_local_gpu rank num_gpus_per_node
                                  (n_local_gpu * num_gpus_per_node))) candidates)))
       (\<lambda>m. pad_nested_array m (-1)))"

section \<open>The static dispatch map\<close>

definition logical_to_all_physical_raw :: "int list list list \<Rightarrow> nat \<Rightarrow> nat \<Rightarrow> int list" where
  "logical_to_all_physical_raw m layer_id logical_expert_id =
     filter (\<lambda>p. p \<noteq> -1) (m ! layer_id ! logical_expert_id)"

definition fair_choices :: "'r rng \<Rightarrow> int list \<Rightarrow> nat \<Rightarrow> 'r \<Rightarrow> (int list \<times> 'r) result" where
  "fair_choices g arr k r =
     (if arr = [] then Inl ZeroDivisionError
      else
        let quotient = k div length arr; remainder = k mod length arr;
            (extra, r1) = rng_sample g arr remainder r
        in Inr (rng_shuffle g (concat (replicate quotient arr) @ extra) r1))"

text \<open>\<^verbatim>\<open>output_partial[output_partial == -1] = choices\<close>: the masked slots in order.\<close>

fun fill_remaining :: "int list \<Rightarrow> int list \<Rightarrow> int list" where
  "fill_remaining [] cs = []"
| "fill_remaining (x # xs) [] = x # xs"
| "fill_remaining (x # xs) (c # cs) =
     (if x = -1 then c # fill_remaining xs cs else x # fill_remaining xs (c # cs))"

definition dispatch_column ::
  "'r rng \<Rightarrow> int \<Rightarrow> int \<Rightarrow> int \<Rightarrow> int \<Rightarrow> int list \<Rightarrow> 'r \<Rightarrow> (int list \<times> 'r) result" where
  "dispatch_column g ep_size n_local_gpu num_gpus_per_node n_local_node candidates r =
     bind_res (map_res (\<lambda>rank. find_nearest_expert candidates n_local_gpu rank num_gpus_per_node n_local_node)
                (py_range ep_size)) (\<lambda>output_partial.
     bind_res (fair_choices g candidates (count_list output_partial (-1)) r) (\<lambda>(choices, r').
       Inr (fill_remaining output_partial choices, r')))"

definition compute_logical_to_rank_dispatch_physical_map ::
  "'r rng \<Rightarrow> 'r \<Rightarrow> 'f server_args \<Rightarrow> int list list list \<Rightarrow> int \<Rightarrow> nat \<Rightarrow> int \<Rightarrow> int list list result" where
  "compute_logical_to_rank_dispatch_physical_map g r0 args m ep_size num_physical ep_rank =
     bind_res (py_floordiv (int num_physical) ep_size) (\<lambda>n_local_gpu.
     bind_res (py_floordiv (sa_ep_size args) (nnodes args)) (\<lambda>num_gpus_per_node.
     if ep_size < 0 then Inl RuntimeError else
     bind_res (map_state_res
        (\<lambda>layer_id. map_state_res
          (\<lambda>logical_expert_id. dispatch_column g ep_size n_local_gpu num_gpus_per_node
             (n_local_gpu * num_gpus_per_node)
             (logical_to_all_physical_raw m layer_id logical_expert_id))
          [0..<length (m ! layer_id)])
        [0..<length m] r0) (\<lambda>(columns, _).
     py_assert (list_all (list_all (list_all (\<lambda>p. p \<noteq> -1))) columns)
       (map_res (map_res (\<lambda>column. py_nth column ep_rank)) columns))))"

section \<open>Construction\<close>

record init_common_result =
  ic_model :: ModelConfigForExpertLocation
  ic_num_physical_experts :: int
  ic_num_local_physical_experts :: int
  ic_ep_size :: int

definition init_common ::
  "'f server_args \<Rightarrow> ModelConfigForExpertLocation option \<Rightarrow> init_common_result option result" where
  "init_common args model_config =
     (case model_config of None \<Rightarrow> Inr None
      | Some mc \<Rightarrow>
          let num_physical = int (mc_num_logical_experts mc) + ep_num_redundant_experts args;
              ep_size = sa_ep_size args
          in bind_res (py_floordiv num_physical ep_size) (\<lambda>local.
             py_assert (num_physical mod ep_size = 0)
               (Inr (Some \<lparr>ic_model = mc, ic_num_physical_experts = num_physical,
                           ic_num_local_physical_experts = local, ic_ep_size = ep_size\<rparr>))))"

text \<open>\<^verbatim>\<open>F.pad(t, (0, n - t.shape[-1]), value=v)\<close> on one row: a negative amount crops.\<close>

definition pad_to :: "nat \<Rightarrow> 'a \<Rightarrow> 'a list \<Rightarrow> 'a list" where
  "pad_to n v xs = take n xs @ replicate (n - length xs) v"

definition init_raw ::
  "'r rng \<Rightarrow> 'r \<Rightarrow> int \<Rightarrow> 'f server_args \<Rightarrow> int \<Rightarrow> int list list \<Rightarrow> int list list list
   \<Rightarrow> ExpertLocationMetadata result" where
  "init_raw g r0 dist_rank args ep_size p2l l2p =
     (let num_physical = shape1 p2l;
          padded = map (map (pad_to num_physical (-1))) l2p;
          num_valid = map (map (\<lambda>row. length (filter (\<lambda>p. p \<noteq> -1) row))) l2p
      in bind_res
        (if ep_dispatch_algorithm args = Some ''static''
         then (if ep_size = 0 then Inl ZeroDivisionError
               else bind_res (compute_logical_to_rank_dispatch_physical_map g r0 args l2p ep_size num_physical
                                (dist_rank mod ep_size)) (\<lambda>d. Inr (Some d)))
         else Inr None) (\<lambda>dispatch.
        post_init \<lparr>physical_to_logical_map = p2l, physical_to_logical_map_cpu = p2l,
          logical_to_all_physical_map = padded, logical_to_all_physical_map_cpu = padded,
          logical_to_all_physical_map_num_valid = num_valid,
          logical_to_rank_dispatch_physical_map = dispatch\<rparr>))"

definition init_by_mapping ::
  "'r rng \<Rightarrow> 'r \<Rightarrow> int \<Rightarrow> 'f server_args \<Rightarrow> ModelConfigForExpertLocation option \<Rightarrow> int list list \<Rightarrow> int option
   \<Rightarrow> ExpertLocationMetadata option result" where
  "init_by_mapping g r0 dist_rank args model_config p2l moe_ep_rank =
     bind_res (init_common args model_config) (\<lambda>common.
     case common of None \<Rightarrow> Inr None
     | Some c \<Rightarrow>
         bind_res (compute_logical_to_all_physical_map args p2l (mc_num_logical_experts (ic_model c))
                     (ic_ep_size c) moe_ep_rank) (\<lambda>l2p.
         bind_res (init_raw g r0 dist_rank args (ic_ep_size c) p2l l2p) (\<lambda>md. Inr (Some md))))"

text \<open>\<^verbatim>\<open>torch.arange(0, n)\<close> fails for a negative bound, the remainder for a zero divisor.\<close>

definition init_trivial ::
  "'r rng \<Rightarrow> 'r \<Rightarrow> int \<Rightarrow> 'f server_args \<Rightarrow> ModelConfigForExpertLocation option \<Rightarrow> int option
   \<Rightarrow> ExpertLocationMetadata option result" where
  "init_trivial g r0 dist_rank args model_config moe_ep_rank =
     bind_res (init_common args model_config) (\<lambda>common.
     case common of None \<Rightarrow> Inr None
     | Some c \<Rightarrow>
         let n = int (mc_num_logical_experts (ic_model c)) in
         if ic_num_physical_experts c < 0 \<or> (n = 0 \<and> 0 < ic_num_physical_experts c) then Inl RuntimeError
         else init_by_mapping g r0 dist_rank args model_config
           (replicate (mc_num_layers (ic_model c))
             (map (\<lambda>i. i mod n) (py_range (ic_num_physical_experts c)))) moe_ep_rank)"

section \<open>Mutation and use\<close>

text \<open>
  \<^verbatim>\<open>self_field[...] = torch.where(mask, other_field, self_field)\<close> with the mask of the layers
  to update; the two fields have one row per layer.
\<close>

definition update_field :: "int list \<Rightarrow> nat \<Rightarrow> 'a list \<Rightarrow> 'a list \<Rightarrow> 'a list result" where
  "update_field update_layer_ids layers other self =
     (if length other = layers \<and> length self = layers
      then Inr (map (\<lambda>i. if int i \<in> set update_layer_ids then other ! i else self ! i) [0..<layers])
      else Inl RuntimeError)"

definition update ::
  "ExpertLocationMetadata \<Rightarrow> ExpertLocationMetadata \<Rightarrow> int list \<Rightarrow> ExpertLocationMetadata result" where
  "update md other ids =
     (let n = num_layers md in
      bind_res (update_field ids n (physical_to_logical_map other) (physical_to_logical_map md)) (\<lambda>p2l.
      bind_res (update_field ids n (physical_to_logical_map_cpu other) (physical_to_logical_map_cpu md)) (\<lambda>p2l_cpu.
      bind_res (update_field ids n (logical_to_all_physical_map other) (logical_to_all_physical_map md)) (\<lambda>l2p.
      bind_res (update_field ids n (logical_to_all_physical_map_cpu other) (logical_to_all_physical_map_cpu md)) (\<lambda>l2p_cpu.
      bind_res (update_field ids n (logical_to_all_physical_map_num_valid other)
                  (logical_to_all_physical_map_num_valid md)) (\<lambda>nv.
      bind_res (case (logical_to_rank_dispatch_physical_map other, logical_to_rank_dispatch_physical_map md) of
                  (None, None) \<Rightarrow> Inr None
                | (Some o_map, Some s_map) \<Rightarrow> bind_res (update_field ids n o_map s_map) (\<lambda>d. Inr (Some d))
                | _ \<Rightarrow> Inl AssertionError) (\<lambda>disp.
      Inr \<lparr>physical_to_logical_map = p2l, physical_to_logical_map_cpu = p2l_cpu,
        logical_to_all_physical_map = l2p, logical_to_all_physical_map_cpu = l2p_cpu,
        logical_to_all_physical_map_num_valid = nv, logical_to_rank_dispatch_physical_map = disp\<rparr>)))))))"

text \<open>\<^verbatim>\<open>range(start, stop, step)\<close> for a start that is not negative.\<close>

definition range_step :: "nat \<Rightarrow> nat \<Rightarrow> nat \<Rightarrow> int list result" where
  "range_step start stop step =
     (if step = 0 then Inl ValueError
      else Inr (map int (filter (\<lambda>p. start \<le> p \<and> (p - start) mod step = 0) [0..<stop])))"

definition logical_to_all_physical ::
  "ExpertLocationMetadata \<Rightarrow> int \<Rightarrow> nat \<Rightarrow> bool \<Rightarrow> int list result" where
  "logical_to_all_physical md layer_id logical_expert_id require_global_experts =
     bind_res (py_nth (logical_to_all_physical_map_cpu md) layer_id) (\<lambda>rows.
       if require_global_experts
       then range_step logical_expert_id (shape1 rows) (num_logical_experts md)
       else bind_res (py_nth rows (int logical_expert_id)) (\<lambda>row. Inr (filter (\<lambda>p. p \<noteq> -1) row)))"

section \<open>Dispatch\<close>

record ExpertLocationDispatchInfo =
  di_algorithm :: string
  di_partial_dispatch_map :: "int list option"
  di_partial_all_map :: "int list list"
  di_partial_num_valid :: "nat list"
  di_num_physical_experts :: nat

definition dispatch_info_new ::
  "'f server_args \<Rightarrow> ExpertLocationMetadata option \<Rightarrow> nat \<Rightarrow> ExpertLocationDispatchInfo option result" where
  "dispatch_info_new args md_opt layer_id =
     (case md_opt of None \<Rightarrow> Inl AssertionError
      | Some md \<Rightarrow>
         (case ep_dispatch_algorithm args of None \<Rightarrow> Inr None
          | Some alg \<Rightarrow>
              if layer_id < num_layers md then
                Inr (Some \<lparr>di_algorithm = alg,
                  di_partial_dispatch_map = map_option (\<lambda>m. m ! layer_id) (logical_to_rank_dispatch_physical_map md),
                  di_partial_all_map = logical_to_all_physical_map md ! layer_id,
                  di_partial_num_valid = logical_to_all_physical_map_num_valid md ! layer_id,
                  di_num_physical_experts = num_physical_experts md\<rparr>)
              else Inl IndexError))"

text \<open>Under the \<^verbatim>\<open>fake\<close> algorithm the router's logits are overwritten by random ones.\<close>

definition transform_select_experts_inputs ::
  "'f list list \<Rightarrow> ('f::zero) list option \<Rightarrow> ExpertLocationDispatchInfo option \<Rightarrow> 'f list list
   \<Rightarrow> 'f list list \<times> 'f list option" where
  "transform_select_experts_inputs random_logits correction_bias info router_logits =
     (case info of
        Some i \<Rightarrow> if di_algorithm i = ''fake''
                  then (random_logits, map_option (map (\<lambda>_. 0)) correction_bias)
                  else (router_logits, correction_bias)
      | None \<Rightarrow> (router_logits, correction_bias))"

definition topk_ids_logical_to_physical_static ::
  "int list \<Rightarrow> ExpertLocationDispatchInfo \<Rightarrow> int list result" where
  "topk_ids_logical_to_physical_static topk_ids info =
     (case di_partial_dispatch_map info of None \<Rightarrow> Inl TypeError
      | Some m \<Rightarrow> map_res (py_nth m) topk_ids)"

text \<open>One flattened id with its random number.\<close>

definition dynamic_choice :: "ExpertLocationDispatchInfo \<Rightarrow> int \<times> nat \<Rightarrow> int result" where
  "dynamic_choice info tr =
     bind_res (py_nth (di_partial_num_valid info) (fst tr)) (\<lambda>num_valid.
     bind_res (py_nth (di_partial_all_map info) (fst tr)) (\<lambda>row.
     if num_valid = 0 then Inl ZeroDivisionError
     else py_nth row (int (snd tr mod num_valid))))"

definition topk_ids_logical_to_physical_dynamic ::
  "nat list \<Rightarrow> int list \<Rightarrow> ExpertLocationDispatchInfo \<Rightarrow> int list result" where
  "topk_ids_logical_to_physical_dynamic randint topk_ids info =
     map_res (dynamic_choice info) (zip topk_ids randint)"

text \<open>\<open>randint\<close> holds one number for every flattened id.\<close>

definition topk_ids_logical_to_physical ::
  "nat list \<Rightarrow> int list \<Rightarrow> ExpertLocationDispatchInfo option \<Rightarrow> int list result" where
  "topk_ids_logical_to_physical randint topk_ids info =
     (case info of None \<Rightarrow> Inr topk_ids
      | Some i \<Rightarrow>
          if di_algorithm i = ''static'' then topk_ids_logical_to_physical_static topk_ids i
          else if di_algorithm i \<in> {''dynamic'', ''fake''}
          then topk_ids_logical_to_physical_dynamic randint topk_ids i
          else Inl NotImplementedError)"

section \<open>What a placement promises\<close>

text \<open>\<open>replicas layer e\<close>: the physical experts that hold logical expert \<open>e\<close>, in order.\<close>

definition replicas :: "int list \<Rightarrow> int \<Rightarrow> int list" where
  "replicas layer e = map int (filter (\<lambda>p. layer ! p = e) [0..<length layer])"

definition valid_layer :: "nat \<Rightarrow> int list \<Rightarrow> bool" where
  "valid_layer n layer \<longleftrightarrow>
     list_all (\<lambda>e. 0 \<le> e \<and> e < int n) layer \<and> list_all (\<lambda>e. int e \<in> set layer) [0..<n]"

text \<open>One layer of the metadata: every listed replica really holds the logical expert.\<close>

definition layer_ok :: "nat \<Rightarrow> int list \<Rightarrow> int list list \<Rightarrow> nat list \<Rightarrow> int list option \<Rightarrow> bool" where
  "layer_ok n layer rows nvs disp \<longleftrightarrow>
     length rows = n \<and> length nvs = n \<and>
     (\<forall>e < n. 0 < nvs ! e \<and> nvs ! e \<le> length (rows ! e) \<and>
        set (take (nvs ! e) (rows ! e)) \<subseteq> set (replicas layer (int e))) \<and>
     (\<forall>d. disp = Some d \<longrightarrow> length d = n \<and> (\<forall>e < n. d ! e \<in> set (replicas layer (int e))))"

definition wf_metadata :: "nat \<Rightarrow> ExpertLocationMetadata \<Rightarrow> bool" where
  "wf_metadata n md \<longleftrightarrow>
     physical_to_logical_map_cpu md = physical_to_logical_map md \<and>
     logical_to_all_physical_map_cpu md = logical_to_all_physical_map md \<and>
     length (logical_to_all_physical_map md) = num_layers md \<and>
     length (logical_to_all_physical_map_num_valid md) = num_layers md \<and>
     (\<forall>d. logical_to_rank_dispatch_physical_map md = Some d \<longrightarrow> length d = num_layers md) \<and>
     (\<forall>l < num_layers md. layer_ok n (physical_to_logical_map md ! l) (logical_to_all_physical_map md ! l)
        (logical_to_all_physical_map_num_valid md ! l)
        (map_option (\<lambda>d. d ! l) (logical_to_rank_dispatch_physical_map md)))"

definition rng_spec :: "'r rng \<Rightarrow> bool" where
  "rng_spec g \<longleftrightarrow>
     (\<forall>arr k r. k \<le> length arr \<longrightarrow>
        length (fst (rng_sample g arr k r)) = k \<and> mset (fst (rng_sample g arr k r)) \<subseteq># mset arr) \<and>
     (\<forall>arr r. mset (fst (rng_shuffle g arr r)) = mset arr)"

lemma set_replicas: "set (replicas layer e) = {int p | p. p < length layer \<and> layer ! p = e}"
  by (auto simp: replicas_def)

lemma replicas_snoc:
  "replicas (layer @ [x]) e = replicas layer e @ (if x = e then [int (length layer)] else [])"
  by (auto simp: replicas_def nth_append intro!: arg_cong[where f = "map int"] filter_cong)

lemma replicas_nonneg: "p \<in> set (replicas layer e) \<Longrightarrow> 0 \<le> p"
  by (auto simp: set_replicas)

lemma valid_layer_replicas: "valid_layer n layer \<Longrightarrow> e < n \<Longrightarrow> replicas layer (int e) \<noteq> []"
  by (fastforce simp: valid_layer_def replicas_def list_all_iff filter_empty_conv in_set_conv_nth)

lemma length_replicas_le: "length (replicas layer e) \<le> length layer"
  using length_filter_le[of "\<lambda>p. layer ! p = e" "[0..<length layer]"] by (simp add: replicas_def)

lemma distinct_replicas: "distinct (replicas layer e)"
  by (simp add: replicas_def distinct_map)

section \<open>The replica lists\<close>

lemma candidates_of_layer_correct:
  assumes "list_all (\<lambda>e. 0 \<le> e \<and> e < int n) layer"
  shows "candidates_of_layer n layer = Inr (map (\<lambda>e. replicas layer (int e)) [0..<n])"
  using assms
proof (induction layer rule: rev_induct)
  case Nil
  then show ?case by (simp add: candidates_of_layer_def replicas_def map_replicate_const)
next
  case (snoc x layer)
  then have x: "0 \<le> x" "x < int n" by auto
  let ?row = "map (\<lambda>e. replicas layer (int e)) [0..<n]"
  have "candidates_of_layer n (layer @ [x]) = append_candidate (length layer, x) ?row"
    using snoc by (simp add: candidates_of_layer_def fold_res_append enumerate_append_eq)
      (cases "append_candidate (length layer, x) ?row"; simp)
  also have "\<dots> = Inr (?row[nat x := ?row ! nat x @ [int (length layer)]])"
    using x by (simp add: append_candidate_def py_index_nat)
  also have "?row[nat x := ?row ! nat x @ [int (length layer)]] = map (\<lambda>e. replicas (layer @ [x]) (int e)) [0..<n]"
    using x by (auto simp: nth_list_update replicas_snoc intro!: nth_equalityI)
  finally show ?case .
qed

lemma find_nearest_total:
  assumes "a \<noteq> 0" "b \<noteq> 0" "c \<noteq> 0"
  shows "\<exists>p. find_nearest_expert cs a r b c = Inr p \<and> (p = -1 \<or> p \<in> set cs)"
proof (cases "length cs = 1")
  case True
  then have "cs \<noteq> []" by auto
  then show ?thesis using True by (simp add: find_nearest_expert_def)
next
  case False
  then show ?thesis
    using assms hd_filter(1)[of "\<lambda>p. compute_gpu_id_of_physical_expert p a = r" cs]
      hd_filter(1)[of "\<lambda>p. compute_node_id_of_physical_expert p c = r div b" cs]
    by (simp add: find_nearest_expert_def Let_def)
qed

lemma find_nearest_same_gpu:
  assumes "find_nearest_expert cs a r b c = Inr p" and "length cs \<noteq> 1"
    and "\<exists>q \<in> set cs. q div a = r" and "a \<noteq> 0"
  shows "p \<in> set cs \<and> p div a = r"
proof -
  let ?f = "filter (\<lambda>q. q div a = r) cs"
  have "?f \<noteq> []" using assms(3) by (auto simp: filter_empty_conv)
  then have "hd ?f \<in> set ?f" by (rule hd_in_set)
  then show ?thesis
    using assms \<open>?f \<noteq> []\<close>
    by (auto simp: find_nearest_expert_def compute_gpu_id_of_physical_expert_def Let_def split: if_splits)
qed

text \<open>Locality, for a candidate list with more than one replica.\<close>

lemma find_nearest_same_node:
  assumes "find_nearest_expert cs a r b c = Inr p" and "length cs \<noteq> 1"
    and "\<not> (\<exists>q \<in> set cs. q div a = r)" and "\<exists>q \<in> set cs. q div c = r div b" and "a \<noteq> 0" "b \<noteq> 0" "c \<noteq> 0"
  shows "p \<in> set cs \<and> p div c = r div b"
proof -
  have "filter (\<lambda>q. q div c = r div b) cs \<noteq> []" using assms(4) by (auto simp: filter_empty_conv)
  from this hd_filter[OF this] show ?thesis
    using assms(1-3,5-7)
    by (auto simp: find_nearest_expert_def compute_gpu_id_of_physical_expert_def
        compute_node_id_of_physical_expert_def Let_def filter_empty_conv split: if_splits)
qed

lemma replace_by_nearest_total:
  assumes "a \<noteq> 0" "b \<noteq> 0" "c \<noteq> 0" and "cs \<noteq> []"
  shows "\<exists>xs. replace_by_nearest a r b c cs = Inr xs \<and> xs \<noteq> [] \<and> set xs \<subseteq> set cs \<and> length xs \<le> length cs"
proof -
  obtain p where "find_nearest_expert cs a r b c = Inr p" "p = -1 \<or> p \<in> set cs"
    using find_nearest_total[OF assms(1-3)] by blast
  then show ?thesis
    using assms(4) by (auto simp: replace_by_nearest_def Suc_le_eq)
qed

text \<open>
  A table of replica lists for the layers of \<open>p2l\<close>: each list is a non-empty part of the replicas.
\<close>

definition replica_table :: "nat \<Rightarrow> int list list \<Rightarrow> int list list list \<Rightarrow> bool" where
  "replica_table n p2l m \<longleftrightarrow> list_all2 (\<lambda>layer rows. length rows = n \<and>
     (\<forall>e < n. rows ! e \<noteq> [] \<and> set (rows ! e) \<subseteq> set (replicas layer (int e)) \<and>
        length (rows ! e) \<le> length (replicas layer (int e)))) p2l m"

definition replica_lists :: "nat \<Rightarrow> int list list \<Rightarrow> int list list list" where
  "replica_lists n p2l = map (\<lambda>layer. map (\<lambda>e. replicas layer (int e)) [0..<n]) p2l"

lemma candidates_table:
  assumes "list_all (valid_layer n) p2l"
  shows "map_res (candidates_of_layer n) p2l = Inr (replica_lists n p2l)"
    and "replica_table n p2l (replica_lists n p2l)"
proof -
  show "map_res (candidates_of_layer n) p2l = Inr (replica_lists n p2l)"
    using assms unfolding replica_lists_def
    by (intro map_res_Inr candidates_of_layer_correct) (auto simp: list_all_iff valid_layer_def)
  show "replica_table n p2l (replica_lists n p2l)"
    using assms by (auto simp: replica_table_def replica_lists_def list_all2_map2 list_all_iff
        valid_layer_replicas intro!: list.rel_refl_strong)
qed

lemma nearest_table:
  assumes "replica_table n p2l m" and "a \<noteq> 0" "b \<noteq> 0" "c \<noteq> 0"
  shows "\<exists>m'. map_res (map_res (replace_by_nearest a r b c)) m = Inr m' \<and> replica_table n p2l m'"
proof -
  let ?sub = "\<lambda>cs xs. xs \<noteq> [] \<and> set xs \<subseteq> set cs \<and> length xs \<le> length cs"
  have row: "\<exists>rows'. map_res (replace_by_nearest a r b c) rows = Inr rows' \<and> list_all2 ?sub rows rows'"
    if "rows \<in> set m" for rows
  proof (rule map_res_total)
    fix cs assume "cs \<in> set rows"
    from assms(1) that obtain layer where "length rows = n" "\<forall>e < n. rows ! e \<noteq> []"
      by (auto simp: replica_table_def list_all2_conv_all_nth in_set_conv_nth)
    with \<open>cs \<in> set rows\<close> have "cs \<noteq> []" by (auto simp: in_set_conv_nth)
    then show "\<exists>y. replace_by_nearest a r b c cs = Inr y \<and> ?sub cs y"
      by (rule replace_by_nearest_total[OF assms(2-4)])
  qed
  obtain m' where m': "map_res (map_res (replace_by_nearest a r b c)) m = Inr m'" "list_all2 (list_all2 ?sub) m m'"
    using map_res_total[of m "map_res (replace_by_nearest a r b c)" "list_all2 ?sub"] row by blast
  moreover have "replica_table n p2l m'"
    unfolding replica_table_def
  proof (rule list_all2_trans[OF _ assms(1)[unfolded replica_table_def] m'(2)], intro conjI allI impI)
    fix layer rows rows' e
    assume t: "length rows = n \<and> (\<forall>e < n. rows ! e \<noteq> [] \<and> set (rows ! e) \<subseteq> set (replicas layer (int e)) \<and>
        length (rows ! e) \<le> length (replicas layer (int e)))" and s: "list_all2 ?sub rows rows'"
    show "length rows' = n" using s t by (simp add: list_all2_lengthD)
    assume "e < n"
    then have "?sub (rows ! e) (rows' ! e)" using s t by (auto dest: list_all2_nthD)
    with t \<open>e < n\<close> show "rows' ! e \<noteq> []" "set (rows' ! e) \<subseteq> set (replicas layer (int e))"
      "length (rows' ! e) \<le> length (replicas layer (int e))"
      by (auto intro: order_trans)
  qed
  ultimately show ?thesis by blast
qed

lemma replica_row_real:
  assumes "set xs \<subseteq> set (replicas layer e)"
  shows "filter (\<lambda>p. p \<noteq> -1) (xs @ replicate k (-1)) = xs"
proof -
  have "\<forall>p \<in> set xs. p \<noteq> -1" using assms by (auto dest!: subsetD simp: set_replicas)
  then show ?thesis by (simp add: filter_id_conv)
qed

text \<open>The padded table: each row is a replica list followed by \<open>-1\<close>.\<close>

definition padded_table :: "nat \<Rightarrow> int list list \<Rightarrow> int list list list \<Rightarrow> bool" where
  "padded_table n p2l m \<longleftrightarrow> replica_table n p2l (map (map (filter (\<lambda>p. p \<noteq> -1))) m) \<and>
     (\<forall>rows \<in> set m. \<forall>row \<in> set rows. \<exists>k. row = filter (\<lambda>p. p \<noteq> -1) row @ replicate k (-1))"

lemma pad_nested_table:
  assumes "replica_table n p2l m" and "0 < n" and "p2l \<noteq> []"
  shows "\<exists>m'. pad_nested_array m (-1) = Inr m' \<and> padded_table n p2l m' \<and>
     map (map (filter (\<lambda>p. p \<noteq> -1))) m' = m"
proof -
  let ?k = "\<lambda>row. Max (set (map length (concat m))) - length row"
  let ?m' = "map (map (\<lambda>row. row @ replicate (?k row) (-1))) m"
  have "concat m \<noteq> []"
    using assms by (auto simp: replica_table_def list_all2_conv_all_nth) (metis length_greater_0_conv nth_mem)
  then have "pad_nested_array m (-1) = Inr ?m'" by (simp add: pad_nested_array_def Let_def)
  moreover have real: "filter (\<lambda>p. p \<noteq> -1) (row @ replicate j (-1)) = row" if "rows \<in> set m" "row \<in> set rows" for rows row j
  proof -
    from assms(1) that obtain layer e where "set row \<subseteq> set (replicas layer (int e))"
      by (fastforce simp: replica_table_def list_all2_conv_all_nth in_set_conv_nth)
    then show ?thesis by (rule replica_row_real)
  qed
  have "map (map (filter (\<lambda>p. p \<noteq> -1))) ?m' = m"
    using real by (auto simp: comp_def intro!: map_idI)
  moreover have "padded_table n p2l ?m'"
    using assms(1) calculation(2) real unfolding padded_table_def by auto
  ultimately show ?thesis by blast
qed

text \<open>The arguments under which no division by zero can happen.\<close>

definition parallel_ok :: "'f server_args \<Rightarrow> int \<Rightarrow> nat \<Rightarrow> bool" where
  "parallel_ok args ep_size phys \<longleftrightarrow>
     0 < nnodes args \<and> nnodes args \<le> sa_ep_size args \<and> 0 < ep_size \<and> ep_size \<le> int phys"

lemma parallel_ok_pos:
  assumes "parallel_ok args ep_size phys"
  shows "0 < sa_ep_size args div nnodes args" and "0 < int phys div ep_size"
    and "0 < int phys div ep_size * (sa_ep_size args div nnodes args)"
  using assms by (auto simp: parallel_ok_def pos_imp_zdiv_pos_iff)

lemma compute_table:
  assumes p2l: "rect layers phys p2l" "list_all (valid_layer n) p2l" and "0 < layers" "0 < n"
    and rank: "moe_ep_rank \<noteq> None \<Longrightarrow> parallel_ok args ep_size phys"
  shows "\<exists>m. compute_logical_to_all_physical_map args p2l n ep_size moe_ep_rank = Inr m \<and> padded_table n p2l m \<and>
    (moe_ep_rank = None \<longrightarrow> map (map (filter (\<lambda>p. p \<noteq> -1))) m = replica_lists n p2l)"
proof (cases moe_ep_rank)
  case None
  have "p2l \<noteq> []" using p2l(1) \<open>0 < layers\<close> by (auto simp: rect_def)
  with None pad_nested_table[OF candidates_table(2)[OF p2l(2)] \<open>0 < n\<close>] show ?thesis
    by (auto simp: compute_logical_to_all_physical_map_def candidates_table(1)[OF p2l(2)])
next
  case (Some r)
  have "p2l \<noteq> []" using p2l(1) \<open>0 < layers\<close> by (auto simp: rect_def)
  have ok: "parallel_ok args ep_size phys" using rank Some by simp
  then have nz: "nnodes args \<noteq> 0" "ep_size \<noteq> 0" by (auto simp: parallel_ok_def)
  note pos = parallel_ok_pos[OF ok]
  obtain m1 where m1: "map_res (map_res (replace_by_nearest (int phys div ep_size) r (sa_ep_size args div nnodes args)
      (int phys div ep_size * (sa_ep_size args div nnodes args)))) (replica_lists n p2l) = Inr m1" "replica_table n p2l m1"
    using nearest_table[OF candidates_table(2)[OF p2l(2)], of _ _ _ r] pos by (metis less_irrefl)
  then show ?thesis
    using pad_nested_table[OF m1(2) \<open>0 < n\<close> \<open>p2l \<noteq> []\<close>] nz Some
    by (auto simp: compute_logical_to_all_physical_map_def candidates_table(1)[OF p2l(2)]
        rect_shape1[OF p2l(1) \<open>0 < layers\<close>])
qed

lemma padded_table_raw:
  assumes "padded_table n p2l m" "l < length p2l" "e < n"
  shows "length m = length p2l" "length (m ! l) = n"
    and "logical_to_all_physical_raw m l e \<noteq> []"
    and "set (logical_to_all_physical_raw m l e) \<subseteq> set (replicas (p2l ! l) (int e))"
    and "length (logical_to_all_physical_raw m l e) \<le> length (p2l ! l)"
    and "\<exists>k. m ! l ! e = logical_to_all_physical_raw m l e @ replicate k (-1)"
proof -
  show len: "length m = length p2l" using assms by (auto simp: padded_table_def replica_table_def dest: list_all2_lengthD)
  have "length (m ! l) = n \<and> (filter (\<lambda>p. p \<noteq> -1) (m ! l ! e) \<noteq> [] \<and>
     set (filter (\<lambda>p. p \<noteq> -1) (m ! l ! e)) \<subseteq> set (replicas (p2l ! l) (int e)) \<and>
     length (filter (\<lambda>p. p \<noteq> -1) (m ! l ! e)) \<le> length (replicas (p2l ! l) (int e)))"
    using assms len unfolding padded_table_def replica_table_def list_all2_map2
    by (fastforce dest!: list_all2_nthD)
  then show "length (m ! l) = n" "logical_to_all_physical_raw m l e \<noteq> []"
    "set (logical_to_all_physical_raw m l e) \<subseteq> set (replicas (p2l ! l) (int e))"
    "length (logical_to_all_physical_raw m l e) \<le> length (p2l ! l)"
    unfolding logical_to_all_physical_raw_def using length_replicas_le[of "p2l ! l" "int e"] by auto
  then show "\<exists>k. m ! l ! e = logical_to_all_physical_raw m l e @ replicate k (-1)"
    using assms len unfolding padded_table_def logical_to_all_physical_raw_def by (metis nth_mem)
qed

text \<open>
  The replica table of a valid mapping, for a rank or for all of them: it is computed without
  error, it has one row for every layer and logical expert, a row lists only physical experts that
  hold that logical expert, at least one of them, and without a rank it lists all of them in order.
\<close>

theorem logical_to_all_physical_map_correct:
  assumes p2l: "rect layers phys p2l" "list_all (valid_layer n) p2l" and "0 < layers" "0 < n"
    and rank: "moe_ep_rank = None \<or> parallel_ok args ep_size phys"
  shows "\<exists>m. compute_logical_to_all_physical_map args p2l n ep_size moe_ep_rank = Inr m \<and> length m = layers \<and>
    (\<forall>l < layers. length (m ! l) = n \<and>
      (\<forall>e < n. logical_to_all_physical_raw m l e \<noteq> [] \<and>
        set (logical_to_all_physical_raw m l e) \<subseteq> set (replicas (p2l ! l) (int e)) \<and>
        (moe_ep_rank = None \<longrightarrow> logical_to_all_physical_raw m l e = replicas (p2l ! l) (int e))))"
proof -
  obtain m where m: "compute_logical_to_all_physical_map args p2l n ep_size moe_ep_rank = Inr m" "padded_table n p2l m"
    and all: "moe_ep_rank = None \<longrightarrow> map (map (filter (\<lambda>p. p \<noteq> -1))) m = replica_lists n p2l"
    using compute_table[OF p2l \<open>0 < layers\<close> \<open>0 < n\<close>] rank by blast
  have L: "length p2l = layers" using p2l(1) by (rule rect_length)
  have "logical_to_all_physical_raw m l e = replicas (p2l ! l) (int e)"
    if "moe_ep_rank = None" "l < layers" "e < n" for l e
  proof -
    have "map (map (filter (\<lambda>p. p \<noteq> -1))) m ! l ! e = replica_lists n p2l ! l ! e" using all that by simp
    then show ?thesis
      using that padded_table_raw[OF m(2), of l e]
      by (simp add: L replica_lists_def logical_to_all_physical_raw_def)
  qed
  then show ?thesis
    using m padded_table_raw[OF m(2)] \<open>0 < layers\<close> \<open>0 < n\<close> L by (intro exI[of _ m]) auto
qed

definition example_args :: "rat server_args" where
  "example_args = \<lparr>chunked_prefill_size = 16, nnodes = 1, sa_ep_size = 2, moe_a2a_backend = ''none'',
     deepep_mode = ''auto'', ep_num_redundant_experts = 1, ep_dispatch_algorithm = Some ''static'',
     eplb_algorithm = ''auto'', eplb_rebalance_num_iterations = 4, eplb_rebalance_layers_per_chunk = Some 1,
     eplb_min_rebalancing_utilization_threshold = 1, expert_distribution_recorder_mode = Some ''stat'',
     expert_distribution_recorder_buffer_size = 4, enable_expert_distribution_metrics = False,
     enable_two_batch_overlap = False\<rparr>"

theorem logical_to_all_physical_map_correct_witness:
  "\<exists>m. compute_logical_to_all_physical_map example_args [[0, 1, 2, 0]] 3 2 (Some 1) = Inr m \<and>
     set (logical_to_all_physical_raw m 0 0) \<subseteq> {0, 3} \<and> logical_to_all_physical_raw m 0 0 \<noteq> []"
proof -
  have "rect 1 4 [[0, 1, 2, 0 :: int]]" "list_all (valid_layer 3) [[0, 1, 2, 0]]"
    "parallel_ok example_args 2 4" "replicas [0, 1, 2, 0] 0 = [0, 3]"
    by (code_simp+)
  then show ?thesis
    using logical_to_all_physical_map_correct[of 1 4 "[[0, 1, 2, 0]]" 3 "Some 1" example_args 2] by fastforce
qed

section \<open>Fair choices and the static dispatch map\<close>

lemma rng_spec_sample:
  assumes "rng_spec g" "k \<le> length arr"
  shows "length (fst (rng_sample g arr k r)) = k" "mset (fst (rng_sample g arr k r)) \<subseteq># mset arr"
  using assms by (auto simp: rng_spec_def)

lemma rng_spec_shuffle: "rng_spec g \<Longrightarrow> mset (fst (rng_shuffle g arr r)) = mset arr"
  by (auto simp: rng_spec_def)

lemma mset_concat_replicate: "mset (concat (replicate q xs)) = repeat_mset q (mset xs)"
  by (induction q) auto

lemma fair_choices_total:
  assumes "rng_spec g" "arr \<noteq> []"
  shows "\<exists>ans r' extra. fair_choices g arr k r = Inr (ans, r') \<and>
    mset ans = repeat_mset (k div length arr) (mset arr) + extra \<and>
    size extra = k mod length arr \<and> extra \<subseteq># mset arr"
proof -
  obtain s r1 where s: "rng_sample g arr (k mod length arr) r = (s, r1)" by fastforce
  obtain ans r2 where a: "rng_shuffle g (concat (replicate (k div length arr) arr) @ s) r1 = (ans, r2)" by fastforce
  have "k mod length arr \<le> length arr" using assms(2) by (simp add: order.strict_implies_order)
  from rng_spec_sample[OF assms(1) this, of r] s have "length s = k mod length arr" "mset s \<subseteq># mset arr" by auto
  moreover have "mset ans = repeat_mset (k div length arr) (mset arr) + mset s"
    using rng_spec_shuffle[OF assms(1), of "concat (replicate (k div length arr) arr) @ s" r1] a
    by (simp add: mset_concat_replicate)
  ultimately show ?thesis
    using assms(2) s a by (intro exI[of _ ans] exI[of _ r2] exI[of _ "mset s"]) (simp add: fair_choices_def)
qed

lemma fair_choices_members:
  assumes "mset ans = repeat_mset (k div length arr) (mset arr) + extra"
    and "size extra = k mod length arr" "extra \<subseteq># mset arr"
  shows "length ans = k" and "set ans \<subseteq> set arr"
proof -
  have "size (mset ans) = k div length arr * length arr + k mod length arr"
    by (simp only: assms size_union size_repeat_mset size_mset)
  then show "length ans = k" by simp
  show "set ans \<subseteq> set arr"
  proof
    fix x assume "x \<in> set ans"
    then have "0 < count (repeat_mset (k div length arr) (mset arr) + extra) x"
      by (simp flip: assms(1))
    then have "0 < count (mset arr) x \<or> 0 < count extra x" by (auto simp: count_repeat_mset)
    then show "x \<in> set arr" using mset_subset_eqD[OF assms(3)] by auto
  qed
qed

text \<open>
  The fair choice among the replicas: it returns exactly \<open>k\<close> entries, all of them candidates,
  and no candidate is used more than once more often than another one.
\<close>

theorem fair_choices_balanced:
  assumes "rng_spec g" "arr \<noteq> []" "distinct arr"
  shows "\<exists>ans r'. fair_choices g arr k r = Inr (ans, r') \<and> length ans = k \<and> set ans \<subseteq> set arr \<and>
    (\<forall>x \<in> set arr. k div length arr \<le> count_list ans x \<and> count_list ans x \<le> k div length arr + 1)"
proof -
  obtain ans r' extra where a: "fair_choices g arr k r = Inr (ans, r')"
    and m: "mset ans = repeat_mset (k div length arr) (mset arr) + extra"
    and e: "size extra = k mod length arr" "extra \<subseteq># mset arr"
    using fair_choices_total[OF assms(1,2)] by blast
  note fair_choices_members[OF m e]
  moreover have "count_list ans x = k div length arr + count extra x" "count extra x \<le> 1" if "x \<in> set arr" for x
  proof -
    have one: "count (mset arr) x = 1" using assms(3) that by (simp add: distinct_count_atmost_1)
    show "count_list ans x = k div length arr + count extra x"
      using m one by (simp flip: count_mset)
    show "count extra x \<le> 1" using mset_subset_eq_count[OF e(2), of x] one by simp
  qed
  ultimately show ?thesis using a by (intro exI[of _ ans] exI[of _ r']) auto
qed

definition first_rng :: "unit rng" where
  "first_rng = \<lparr>rng_sample = (\<lambda>arr k r. (take k arr, r)), rng_shuffle = (\<lambda>arr r. (rev arr, r))\<rparr>"

lemma first_rng_spec: "rng_spec first_rng"
proof -
  have "mset (take k arr) \<subseteq># mset arr" for k and arr :: "int list"
    by (metis append_take_drop_id mset_append mset_subset_eq_add_left)
  then show ?thesis by (simp add: rng_spec_def first_rng_def)
qed

theorem fair_choices_balanced_witness:
  "\<exists>ans r'. fair_choices first_rng [4, 7] 5 () = Inr (ans, r') \<and> length ans = 5 \<and> set ans \<subseteq> {4, 7} \<and>
    2 \<le> count_list ans 4 \<and> count_list ans 4 \<le> 3"
  using fair_choices_balanced[OF first_rng_spec, of "[4, 7]" 5 "()"] by (auto simp flip: numeral_2_eq_2)

lemma fill_remaining_correct:
  assumes "length cs = count_list xs (-1)"
  shows "length (fill_remaining xs cs) = length xs"
    and "i < length xs \<Longrightarrow> xs ! i \<noteq> -1 \<Longrightarrow> fill_remaining xs cs ! i = xs ! i"
    and "i < length xs \<Longrightarrow> xs ! i = -1 \<Longrightarrow> fill_remaining xs cs ! i \<in> set cs"
  using assms
  by (induction xs cs arbitrary: i rule: fill_remaining.induct)
    (auto simp: nth_Cons count_list_0_iff split: nat.splits if_splits dest: nth_mem)

text \<open>Where rank \<open>r\<close> sends the tokens of an expert with candidates \<open>cs\<close>.\<close>

definition local_choice :: "int \<Rightarrow> int list \<Rightarrow> int \<Rightarrow> int \<Rightarrow> bool" where
  "local_choice n_local_gpu cs r p \<longleftrightarrow> p \<in> set cs \<and> ((\<exists>q \<in> set cs. q div n_local_gpu = r) \<longrightarrow> p div n_local_gpu = r)"

lemma dispatch_column_correct:
  assumes "rng_spec g" "cs \<noteq> []" "-1 \<notin> set cs" "a \<noteq> 0" "b \<noteq> 0" "c \<noteq> 0" "0 \<le> ep_size"
  shows "\<exists>col r'. dispatch_column g ep_size a b c cs s = Inr (col, r') \<and> length col = nat ep_size \<and>
     (\<forall>r < nat ep_size. local_choice a cs (int r) (col ! r))"
proof -
  let ?P = "\<lambda>r p. (p = -1 \<or> p \<in> set cs) \<and> ((\<exists>q \<in> set cs. q div a = r) \<longrightarrow> p \<in> set cs \<and> p div a = r)"
  have n: "\<exists>p. find_nearest_expert cs a r b c = Inr p \<and> ?P r p" for r
  proof -
    obtain p where p: "find_nearest_expert cs a r b c = Inr p" "p = -1 \<or> p \<in> set cs"
      using find_nearest_total[OF assms(4-6)] by blast
    moreover have "p \<in> set cs \<and> p div a = r" if "\<exists>q \<in> set cs. q div a = r"
    proof (cases "length cs = 1")
      case True
      then obtain q where "cs = [q]" by (auto simp: length_Suc_conv)
      with p that show ?thesis by (simp add: find_nearest_expert_def)
    qed (rule find_nearest_same_gpu[OF p(1) _ that assms(4)])
    ultimately show ?thesis by blast
  qed
  obtain out where out: "map_res (\<lambda>r. find_nearest_expert cs a r b c) (py_range ep_size) = Inr out"
    and o: "list_all2 ?P (py_range ep_size) out"
    using map_res_total[of "py_range ep_size" "\<lambda>r. find_nearest_expert cs a r b c" ?P, OF n] by blast
  obtain ans r' extra where f: "fair_choices g cs (count_list out (-1)) s = Inr (ans, r')"
    and m: "mset ans = repeat_mset (count_list out (-1) div length cs) (mset cs) + extra"
      "size extra = count_list out (-1) mod length cs" "extra \<subseteq># mset cs"
    using fair_choices_total[OF assms(1,2)] by blast
  note ans = fair_choices_members[OF m]
  let ?col = "fill_remaining out ans"
  have lo: "length out = nat ep_size" using list_all2_lengthD[OF o] by (simp add: slice_simps)
  have "local_choice a cs (int r) (?col ! r)" if "r < nat ep_size" for r
  proof -
    have "py_range ep_size ! r = int r" using that by (simp add: py_range_def)
    then have "(out ! r = -1 \<or> out ! r \<in> set cs) \<and> ((\<exists>q \<in> set cs. q div a = int r) \<longrightarrow> out ! r \<in> set cs \<and> out ! r div a = int r)"
      using list_all2_nthD2[OF o, of r] that lo by simp
    then show ?thesis
      using fill_remaining_correct(2,3)[OF ans(1), of r] ans(2) that lo assms(3)
      by (cases "out ! r = -1") (auto simp: local_choice_def)
  qed
  then show ?thesis
    using out f lo fill_remaining_correct(1)[OF ans(1)]
    by (intro exI[of _ ?col] exI[of _ r']) (simp add: dispatch_column_def)
qed

lemma list_all2_upt:
  "list_all2 P [0..<n] ys \<longleftrightarrow> length ys = n \<and> (\<forall>i < n. P i (ys ! i))"
  by (auto simp: list_all2_conv_all_nth)

lemma rank_dispatch_map_correct:
  assumes m: "padded_table n p2l m" and p2l: "rect layers phys p2l" and ok: "parallel_ok args ep_size phys"
    and g: "rng_spec g" and er: "0 \<le> ep_rank" "ep_rank < ep_size" and "0 < layers" "0 < n"
  shows "\<exists>d. compute_logical_to_rank_dispatch_physical_map g r0 args m ep_size phys ep_rank = Inr d \<and>
    length d = layers \<and> (\<forall>l < layers. length (d ! l) = n \<and> (\<forall>e < n.
      local_choice (int phys div ep_size) (logical_to_all_physical_raw m l e) ep_rank (d ! l ! e)))"
proof -
  let ?a = "int phys div ep_size" and ?b = "sa_ep_size args div nnodes args"
  let ?raw = "logical_to_all_physical_raw m"
  have L: "length p2l = layers" using p2l by (rule rect_length)
  have nz: "nnodes args \<noteq> 0" "ep_size \<noteq> 0" "0 \<le> ep_size" "\<not> ep_size < 0" using ok by (auto simp: parallel_ok_def)
  note raw = padded_table_raw[OF m, unfolded L]
  have lm: "length m = layers" using raw(1) \<open>0 < layers\<close> \<open>0 < n\<close> by blast
  let ?Q = "\<lambda>l e col. length col = nat ep_size \<and> (\<forall>r < nat ep_size. local_choice ?a (?raw l e) (int r) (col ! r))"
  let ?f = "\<lambda>l e. dispatch_column g ep_size ?a ?b (?a * ?b) (?raw l e)"
  have col: "\<exists>c s'. ?f l e s = Inr (c, s') \<and> ?Q l e c" if "l < layers" "e < n" for l e s
  proof (rule dispatch_column_correct[OF g raw(3)[OF that]])
    show "-1 \<notin> set (?raw l e)" by (simp add: logical_to_all_physical_raw_def)
  qed (use parallel_ok_pos[OF ok] nz in auto)
  have row: "\<exists>cs s'. map_state_res (?f l) [0..<length (m ! l)] s = Inr (cs, s') \<and> list_all2 (?Q l) [0..<n] cs"
    if "l < layers" for l s
    using map_state_res_total[of "[0..<n]" "?f l" "?Q l" s] col[OF that] raw(2)[OF that \<open>0 < n\<close>] by auto
  have "\<exists>css s'. map_state_res (\<lambda>l. map_state_res (?f l) [0..<length (m ! l)]) [0..<length m] r0 = Inr (css, s') \<and>
      list_all2 (\<lambda>l cs. list_all2 (?Q l) [0..<n] cs) [0..<length m] css"
    by (rule map_state_res_total) (use row lm in auto)
  then obtain css s' where css: "map_state_res (\<lambda>l. map_state_res (?f l) [0..<length (m ! l)]) [0..<length m] r0 = Inr (css, s')"
    and q: "length css = layers" "\<And>l. l < layers \<Longrightarrow> length (css ! l) = n"
      "\<And>l e. l < layers \<Longrightarrow> e < n \<Longrightarrow> ?Q l e (css ! l ! e)"
    by (auto simp: list_all2_upt lm)
  let ?d = "map (map (\<lambda>c. c ! nat ep_rank)) css"
  have "-1 \<notin> set c \<and> py_nth c ep_rank = Inr (c ! nat ep_rank)" if "c \<in> set cs" "cs \<in> set css" for c cs
  proof -
    from that q obtain l e where le: "l < layers" "e < n" "c = css ! l ! e" by (metis in_set_conv_nth)
    show ?thesis
      using q(3)[OF le(1,2)] er py_nth_nat[of "nat ep_rank" "css ! l ! e"] unfolding le(3)
      by (auto simp: local_choice_def logical_to_all_physical_raw_def in_set_conv_nth)
  qed
  then have "list_all (list_all (list_all (\<lambda>p. p \<noteq> -1))) css"
    "map_res (map_res (\<lambda>c. py_nth c ep_rank)) css = Inr ?d"
    by (auto simp: list_all_iff intro!: map_res_Inr)
  then have "compute_logical_to_rank_dispatch_physical_map g r0 args m ep_size phys ep_rank = Inr ?d"
    using css nz unfolding compute_logical_to_rank_dispatch_physical_map_def by simp
  moreover have "local_choice ?a (?raw l e) ep_rank (?d ! l ! e)" if "l < layers" "e < n" for l e
    using q(3)[OF that] q(1,2) that er by (auto dest!: spec[of _ "nat ep_rank"])
  ultimately show ?thesis using q(1,2) by (intro exI[of _ ?d]) auto
qed

section \<open>Metadata built from a replica table\<close>

lemma pad_to_real:
  assumes "row = xs @ replicate k v" "length xs \<le> n"
  shows "take (length xs) (pad_to n v row) = xs" and "length xs \<le> length (pad_to n v row)"
  using assms by (auto simp: pad_to_def)

lemma init_raw_wf:
  assumes m: "padded_table n p2l m" and p2l: "rect layers phys p2l" and "0 < layers" "0 < n"
    and par: "ep_dispatch_algorithm args = Some ''static'' \<Longrightarrow> parallel_ok args ep_size phys \<and> rng_spec g"
  shows "\<exists>md. init_raw g r0 dist_rank args ep_size p2l m = Inr md \<and> wf_metadata n md \<and>
    physical_to_logical_map md = p2l \<and>
    (logical_to_rank_dispatch_physical_map md \<noteq> None \<longleftrightarrow> ep_dispatch_algorithm args = Some ''static'')"
proof -
  let ?d0 = "if ep_dispatch_algorithm args = Some ''static''
    then (if ep_size = 0 then Inl ZeroDivisionError
          else bind_res (compute_logical_to_rank_dispatch_physical_map g r0 args m ep_size phys
                           (dist_rank mod ep_size)) (\<lambda>d. Inr (Some d))) else Inr None"
  have L: "length p2l = layers" using p2l by (rule rect_length)
  note raw = padded_table_raw[OF m, unfolded L]
  have lm: "length m = layers" using raw(1) \<open>0 < layers\<close> \<open>0 < n\<close> by blast
  have "\<exists>disp. ?d0 = Inr disp \<and> (disp \<noteq> None \<longleftrightarrow> ep_dispatch_algorithm args = Some ''static'') \<and>
     (\<forall>d. disp = Some d \<longrightarrow> length d = layers \<and> (\<forall>l < layers. length (d ! l) = n \<and>
        (\<forall>e < n. d ! l ! e \<in> set (replicas (p2l ! l) (int e)))))"
  proof (cases "ep_dispatch_algorithm args = Some ''static''")
    case True
    then have ok: "parallel_ok args ep_size phys" and g: "rng_spec g" using par by auto
    then have "0 < ep_size" by (simp add: parallel_ok_def)
    then obtain d where d: "compute_logical_to_rank_dispatch_physical_map g r0 args m ep_size phys (dist_rank mod ep_size) = Inr d"
      "length d = layers" "\<forall>l < layers. length (d ! l) = n \<and> (\<forall>e < n.
        local_choice (int phys div ep_size) (logical_to_all_physical_raw m l e) (dist_rank mod ep_size) (d ! l ! e))"
      using rank_dispatch_map_correct[OF m p2l ok g _ _ \<open>0 < layers\<close> \<open>0 < n\<close>, of "dist_rank mod ep_size" r0]
      by (auto simp only: pos_mod_sign pos_mod_bound)
    then have "\<forall>l < layers. length (d ! l) = n \<and> (\<forall>e < n. d ! l ! e \<in> set (replicas (p2l ! l) (int e)))"
      using raw(4) d(3) unfolding local_choice_def by blast
    then show ?thesis using True d(1,2) \<open>0 < ep_size\<close> by simp
  qed simp
  then obtain disp where disp: "?d0 = Inr disp" "disp \<noteq> None \<longleftrightarrow> ep_dispatch_algorithm args = Some ''static''"
    and dd: "\<And>d. disp = Some d \<Longrightarrow> length d = layers \<and> (\<forall>l < layers. length (d ! l) = n \<and>
        (\<forall>e < n. d ! l ! e \<in> set (replicas (p2l ! l) (int e))))" by blast
  let ?pad = "map (map (pad_to phys (-1))) m"
  let ?nv = "map (map (\<lambda>row. length (filter (\<lambda>p. p \<noteq> -1) row))) m"
  let ?md = "\<lparr>physical_to_logical_map = p2l, physical_to_logical_map_cpu = p2l,
          logical_to_all_physical_map = ?pad, logical_to_all_physical_map_cpu = ?pad,
          logical_to_all_physical_map_num_valid = ?nv, logical_to_rank_dispatch_physical_map = disp\<rparr>"
  have sh: "shape1 p2l = phys" using rect_shape1[OF p2l \<open>0 < layers\<close>] .
  have "post_init ?md = Inr ?md"
  proof -
    obtain rows rest where "m = rows # rest" using lm \<open>0 < layers\<close> by (cases m) auto
    moreover have "length rows = n" using raw(2)[OF \<open>0 < layers\<close> \<open>0 < n\<close>] calculation by simp
    ultimately obtain row rows' where "m = (row # rows') # rest" using \<open>0 < n\<close> by (cases rows) auto
    then show ?thesis using lm L sh by (simp add: post_init_def shape1_def inner_shape_def pad_to_def)
  qed
  then have "init_raw g r0 dist_rank args ep_size p2l m = Inr ?md"
    using disp(1) unfolding init_raw_def sh by (simp add: Let_def)
  moreover have "wf_metadata n ?md"
  proof -
    have "layer_ok n (p2l ! l) (?pad ! l) (?nv ! l) (map_option (\<lambda>d. d ! l) disp)" if "l < layers" for l
    proof -
      have "0 < ?nv ! l ! e \<and> ?nv ! l ! e \<le> length (?pad ! l ! e) \<and>
        set (take (?nv ! l ! e) (?pad ! l ! e)) \<subseteq> set (replicas (p2l ! l) (int e))" if e: "e < n" for e
      proof -
        obtain k where k: "m ! l ! e = logical_to_all_physical_raw m l e @ replicate k (-1)"
          using raw(6)[OF \<open>l < layers\<close> e] by blast
        have len: "length (logical_to_all_physical_raw m l e) \<le> phys"
          using raw(5)[OF \<open>l < layers\<close> e] rect_row[OF p2l \<open>l < layers\<close>] by simp
        have nv: "?nv ! l ! e = length (logical_to_all_physical_raw m l e)"
          using \<open>l < layers\<close> e lm raw(2)[OF \<open>l < layers\<close> e] by (simp add: logical_to_all_physical_raw_def)
        have pd: "?pad ! l ! e = pad_to phys (-1) (m ! l ! e)"
          using \<open>l < layers\<close> e lm raw(2)[OF \<open>l < layers\<close> e] by simp
        show ?thesis
          unfolding nv pd using pad_to_real[OF k len] raw(3,4)[OF \<open>l < layers\<close> e] by simp
      qed
      then show ?thesis
        using dd that lm raw(2)[OF that \<open>0 < n\<close>] by (auto simp: layer_ok_def)
    qed
    then show ?thesis using lm L dd by (auto simp: wf_metadata_def num_layers_def)
  qed
  ultimately show ?thesis using disp(2) by auto
qed

section \<open>Dispatch on well-formed metadata\<close>

lemma layer_ok_static:
  assumes "layer_ok n layer rows nvs (Some d)" "e \<in> {0..<int n}"
  shows "\<exists>p. py_nth d e = Inr p \<and> p \<in> set (replicas layer e)"
proof -
  have "nat e < n" using assms(2) by auto
  then show ?thesis
    using assms by (intro exI[of _ "d ! nat e"]) (auto simp: layer_ok_def py_nth_def dest!: spec[of _ "nat e"])
qed

lemma layer_ok_dynamic:
  assumes "layer_ok n layer (di_partial_all_map info) (di_partial_num_valid info) disp" "e \<in> {0..<int n}"
  shows "\<exists>p. dynamic_choice info (e, k) = Inr p \<and> p \<in> set (replicas layer e)"
proof -
  let ?rows = "di_partial_all_map info" and ?nvs = "di_partial_num_valid info"
  have e: "nat e < n" "0 \<le> e" "e < int n" using assms(2) by auto
  let ?row = "?rows ! nat e" and ?nv = "?nvs ! nat e"
  have nv: "0 < ?nv" "?nv \<le> length ?row" "set (take ?nv ?row) \<subseteq> set (replicas layer e)"
    and len: "length ?rows = n" "length ?nvs = n"
    using assms(1) e unfolding layer_ok_def by (metis int_nat_eq)+
  have "k mod ?nv < ?nv" using nv(1) by simp
  then have "?row ! (k mod ?nv) \<in> set (take ?nv ?row)"
    using nv(2) by (metis in_set_conv_nth length_take min.absorb2 nth_take)
  moreover have "py_nth ?nvs e = Inr ?nv" "py_nth ?rows e = Inr ?row"
    "py_nth ?row (int (k mod ?nv)) = Inr (?row ! (k mod ?nv))"
    using e len nv(2) \<open>k mod ?nv < ?nv\<close> by (auto simp: py_nth_def simp flip: of_nat_mod)
  ultimately show ?thesis using nv(1,3) by (auto simp: dynamic_choice_def)
qed

lemma replicas_hold:
  "p \<in> set (replicas layer e) \<Longrightarrow> 0 \<le> p \<and> p < int (length layer) \<and> layer ! nat p = e"
  by (auto simp: set_replicas)

lemma dispatch_hold:
  assumes "list_all2 (\<lambda>e p. p \<in> set (replicas layer e)) ids phys"
  shows "map (\<lambda>p. layer ! nat p) phys = ids \<and> list_all (\<lambda>p. 0 \<le> p \<and> p < int (length layer)) phys"
  using assms by (induction rule: list_all2_induct) (auto dest: replicas_hold)

lemma topk_dispatch:
  assumes ok: "layer_ok n layer (di_partial_all_map info) (di_partial_num_valid info) (di_partial_dispatch_map info)"
    and alg: "di_algorithm info = ''static'' \<and> di_partial_dispatch_map info \<noteq> None \<or> di_algorithm info \<in> {''dynamic'', ''fake''}"
    and ids: "set ids \<subseteq> {0..<int n}" and rnd: "length randint = length ids"
  shows "\<exists>phys. topk_ids_logical_to_physical randint ids (Some info) = Inr phys \<and>
     map (\<lambda>p. layer ! nat p) phys = ids \<and> list_all (\<lambda>p. 0 \<le> p \<and> p < int (length layer)) phys"
proof -
  have "\<exists>phys. topk_ids_logical_to_physical randint ids (Some info) = Inr phys \<and>
     list_all2 (\<lambda>e p. p \<in> set (replicas layer e)) ids phys"
  proof (cases "di_algorithm info = ''static''")
    case True
    then obtain d where d: "di_partial_dispatch_map info = Some d" using alg by auto
    have "\<exists>phys. map_res (py_nth d) ids = Inr phys \<and> list_all2 (\<lambda>e p. p \<in> set (replicas layer e)) ids phys"
      by (rule map_res_total) (use layer_ok_static ok ids in \<open>auto simp: d\<close>)
    then show ?thesis
      using True d by (simp add: topk_ids_logical_to_physical_def topk_ids_logical_to_physical_static_def)
  next
    case False
    have "\<exists>phys. map_res (dynamic_choice info) (zip ids randint) = Inr phys \<and>
        list_all2 (\<lambda>er p. p \<in> set (replicas layer (fst er))) (zip ids randint) phys"
      by (rule map_res_total) (use layer_ok_dynamic[OF ok] ids in \<open>auto dest: set_zip_leftD\<close>)
    then obtain phys where phys: "map_res (dynamic_choice info) (zip ids randint) = Inr phys"
      "list_all2 (\<lambda>e p. p \<in> set (replicas layer e)) (map fst (zip ids randint)) phys"
      by (auto simp: list_all2_map1)
    then show ?thesis
      using False alg rnd
      by (auto simp: topk_ids_logical_to_physical_def topk_ids_logical_to_physical_dynamic_def)
  qed
  then show ?thesis using dispatch_hold by blast
qed

section \<open>Partial updates\<close>

lemma update_field_nth:
  assumes "length other = n" "length self = n"
  shows "\<exists>f. update_field ids n other self = Inr f \<and> length f = n \<and>
     (\<forall>i < n. f ! i = (if int i \<in> set ids then other ! i else self ! i))"
  using assms by (simp add: update_field_def)

lemma update_wf:
  assumes md: "wf_metadata n md" and other: "wf_metadata n other" and L: "num_layers other = num_layers md"
    and disp: "logical_to_rank_dispatch_physical_map md = None \<longleftrightarrow> logical_to_rank_dispatch_physical_map other = None"
  shows "\<exists>md'. update md other ids = Inr md' \<and> wf_metadata n md' \<and> num_layers md' = num_layers md \<and>
     (\<forall>l < num_layers md. physical_to_logical_map md' ! l =
        physical_to_logical_map (if int l \<in> set ids then other else md) ! l)"
proof -
  let ?L = "num_layers md"
  let ?sel = "\<lambda>f :: ExpertLocationMetadata \<Rightarrow> _. \<lambda>i. f (if int i \<in> set ids then other else md) ! i"
  have lens: "length (physical_to_logical_map md) = ?L" "length (physical_to_logical_map other) = ?L"
    "length (logical_to_all_physical_map md) = ?L" "length (logical_to_all_physical_map other) = ?L"
    "length (logical_to_all_physical_map_num_valid md) = ?L" "length (logical_to_all_physical_map_num_valid other) = ?L"
    and cpu: "physical_to_logical_map_cpu md = physical_to_logical_map md"
      "physical_to_logical_map_cpu other = physical_to_logical_map other"
      "logical_to_all_physical_map_cpu md = logical_to_all_physical_map md"
      "logical_to_all_physical_map_cpu other = logical_to_all_physical_map other"
    using md other L by (auto simp: wf_metadata_def num_layers_def)
  obtain p where p: "update_field ids ?L (physical_to_logical_map other) (physical_to_logical_map md) = Inr p"
    "length p = ?L" "\<forall>i < ?L. p ! i = ?sel physical_to_logical_map i"
    using update_field_nth[OF lens(2,1), of ids] by auto
  obtain a where a: "update_field ids ?L (logical_to_all_physical_map other) (logical_to_all_physical_map md) = Inr a"
    "length a = ?L" "\<forall>i < ?L. a ! i = ?sel logical_to_all_physical_map i"
    using update_field_nth[OF lens(4,3), of ids] by auto
  obtain v where v: "update_field ids ?L (logical_to_all_physical_map_num_valid other)
      (logical_to_all_physical_map_num_valid md) = Inr v"
    "length v = ?L" "\<forall>i < ?L. v ! i = ?sel logical_to_all_physical_map_num_valid i"
    using update_field_nth[OF lens(6,5), of ids] by auto
  let ?disp = "case (logical_to_rank_dispatch_physical_map other, logical_to_rank_dispatch_physical_map md) of
      (None, None) \<Rightarrow> Inr None
    | (Some o_map, Some s_map) \<Rightarrow> bind_res (update_field ids ?L o_map s_map) (\<lambda>d. Inr (Some d))
    | _ \<Rightarrow> Inl AssertionError"
  have "\<exists>d. ?disp = Inr d \<and> (\<forall>x. d = Some x \<longrightarrow> length x = ?L) \<and> (\<forall>i < ?L. map_option (\<lambda>m. m ! i) d =
      map_option (\<lambda>m. m ! i) (logical_to_rank_dispatch_physical_map (if int i \<in> set ids then other else md)))"
  proof (cases "logical_to_rank_dispatch_physical_map md")
    case (Some s_map)
    then obtain o_map where o: "logical_to_rank_dispatch_physical_map other = Some o_map" using disp by auto
    have "length o_map = ?L" "length s_map = ?L" using md other Some o L by (auto simp: wf_metadata_def)
    from update_field_nth[OF this, of ids] Some o show ?thesis by auto
  qed (use disp in auto)
  then obtain d where d: "?disp = Inr d" "\<forall>x. d = Some x \<longrightarrow> length x = ?L"
    "\<forall>i < ?L. map_option (\<lambda>m. m ! i) d = map_option (\<lambda>m. m ! i)
        (logical_to_rank_dispatch_physical_map (if int i \<in> set ids then other else md))" by blast
  let ?md' = "\<lparr>physical_to_logical_map = p, physical_to_logical_map_cpu = p, logical_to_all_physical_map = a,
    logical_to_all_physical_map_cpu = a, logical_to_all_physical_map_num_valid = v,
    logical_to_rank_dispatch_physical_map = d\<rparr>"
  have "update md other ids = Inr ?md'"
    unfolding update_def Let_def cpu p(1) a(1) v(1) d(1) by simp
  moreover have "wf_metadata n ?md'"
    using md other L p(2,3) a(2,3) v(2,3) d(2,3) unfolding wf_metadata_def num_layers_def by simp
  ultimately show ?thesis using p(2,3) by (intro exI[of _ ?md']) (auto simp: num_layers_def)
qed

section \<open>The interface between construction and use\<close>

text \<open>
  Every way of building the metadata promises a well-formed placement; dispatching and partial
  updates rely on nothing else.
\<close>

locale location_provider =
  fixes build :: "'a \<Rightarrow> ExpertLocationMetadata option result"
    and ok :: "'a \<Rightarrow> bool"
    and logical :: "'a \<Rightarrow> nat"
    and layers :: "'a \<Rightarrow> nat"
    and algorithm :: "'a \<Rightarrow> string option"
  assumes build_wf: "ok a \<Longrightarrow> \<exists>md. build a = Inr (Some md) \<and> wf_metadata (logical a) md \<and>
      num_layers md = layers a \<and>
      (logical_to_rank_dispatch_physical_map md \<noteq> None \<longleftrightarrow> algorithm a = Some ''static'')"
begin

lemma built:
  assumes "ok a" "build a = Inr (Some md)"
  shows "wf_metadata (logical a) md" "num_layers md = layers a"
    "logical_to_rank_dispatch_physical_map md \<noteq> None \<longleftrightarrow> algorithm a = Some ''static''"
  using build_wf[OF assms(1)] assms(2) by auto

lemma dispatch_sound:
  assumes a: "ok a" "build a = Inr (Some md)" and l: "l < num_layers md"
    and alg: "ep_dispatch_algorithm args = algorithm a" "algorithm a \<in> Some ` {''static'', ''dynamic'', ''fake''}"
    and ids: "set ids \<subseteq> {0..<int (logical a)}" and rnd: "length randint = length ids"
  shows "\<exists>info phys. dispatch_info_new args (Some md) l = Inr (Some info) \<and>
     topk_ids_logical_to_physical randint ids (Some info) = Inr phys \<and>
     map (\<lambda>p. physical_to_logical_map md ! l ! nat p) phys = ids \<and>
     list_all (\<lambda>p. 0 \<le> p \<and> p < int (length (physical_to_logical_map md ! l))) phys"
proof -
  obtain info where info: "dispatch_info_new args (Some md) l = Inr (Some info)"
    and i: "Some (di_algorithm info) = algorithm a"
      "di_partial_dispatch_map info = map_option (\<lambda>m. m ! l) (logical_to_rank_dispatch_physical_map md)"
      "di_partial_all_map info = logical_to_all_physical_map md ! l"
      "di_partial_num_valid info = logical_to_all_physical_map_num_valid md ! l"
    using alg l by (auto simp: dispatch_info_new_def)
  have "layer_ok (logical a) (physical_to_logical_map md ! l) (di_partial_all_map info)
      (di_partial_num_valid info) (di_partial_dispatch_map info)"
    using built(1)[OF a] l unfolding i by (simp add: wf_metadata_def)
  from topk_dispatch[OF this _ ids rnd] show ?thesis
    using info i(1,2) alg(2) built(3)[OF a] by (auto simp flip: i(1))
qed

lemma update_sound:
  assumes a: "ok a" "build a = Inr (Some md)" and b: "ok b" "build b = Inr (Some other)"
    and same: "logical b = logical a" "layers b = layers a" "algorithm b = algorithm a"
  shows "\<exists>md'. update md other ids = Inr md' \<and> wf_metadata (logical a) md' \<and> num_layers md' = layers a \<and>
     (\<forall>l < layers a. physical_to_logical_map md' ! l =
        physical_to_logical_map (if int l \<in> set ids then other else md) ! l)"
  using update_wf[OF built(1)[OF a], of other ids] built(1)[OF b] built(2,3)[OF a] built(2,3)[OF b] same
  by auto

end

section \<open>The two constructors\<close>

record ('r, 'f) location_request =
  lr_rng :: "'r rng"
  lr_state :: 'r
  lr_dist_rank :: int
  lr_args :: "'f server_args"
  lr_model :: ModelConfigForExpertLocation
  lr_map :: "int list list"
  lr_rank :: "int option"

definition build_by_mapping :: "('r, 'f) location_request \<Rightarrow> ExpertLocationMetadata option result" where
  "build_by_mapping q = init_by_mapping (lr_rng q) (lr_state q) (lr_dist_rank q) (lr_args q)
     (Some (lr_model q)) (lr_map q) (lr_rank q)"

definition build_trivial :: "('r, 'f) location_request \<Rightarrow> ExpertLocationMetadata option result" where
  "build_trivial q = init_trivial (lr_rng q) (lr_state q) (lr_dist_rank q) (lr_args q)
     (Some (lr_model q)) (lr_rank q)"

text \<open>The server arguments \<^verbatim>\<open>init_common\<close> accepts, and a generator that behaves as documented.\<close>

definition args_ok :: "('r, 'f) location_request \<Rightarrow> bool" where
  "args_ok q \<longleftrightarrow> rng_spec (lr_rng q) \<and> 0 < mc_num_logical_experts (lr_model q) \<and>
     0 < nnodes (lr_args q) \<and> nnodes (lr_args q) \<le> sa_ep_size (lr_args q) \<and>
     (int (mc_num_logical_experts (lr_model q)) + ep_num_redundant_experts (lr_args q)) mod sa_ep_size (lr_args q) = 0"

definition mapping_ok :: "('r, 'f) location_request \<Rightarrow> bool" where
  "mapping_ok q \<longleftrightarrow> args_ok q \<and> lr_map q \<noteq> [] \<and>
     rect (length (lr_map q)) (shape1 (lr_map q)) (lr_map q) \<and>
     sa_ep_size (lr_args q) \<le> int (shape1 (lr_map q)) \<and>
     list_all (valid_layer (mc_num_logical_experts (lr_model q))) (lr_map q)"

definition trivial_ok :: "('r, 'f) location_request \<Rightarrow> bool" where
  "trivial_ok q \<longleftrightarrow> args_ok q \<and> 0 < mc_num_layers (lr_model q) \<and> 0 \<le> ep_num_redundant_experts (lr_args q)"

definition request_logical :: "('r, 'f) location_request \<Rightarrow> nat" where
  "request_logical q = mc_num_logical_experts (lr_model q)"

definition request_algorithm :: "('r, 'f) location_request \<Rightarrow> string option" where
  "request_algorithm q = ep_dispatch_algorithm (lr_args q)"

lemma init_common_ok:
  assumes "args_ok q"
  shows "\<exists>c. init_common (lr_args q) (Some (lr_model q)) = Inr (Some c) \<and> ic_model c = lr_model q \<and>
     ic_ep_size c = sa_ep_size (lr_args q) \<and>
     ic_num_physical_experts c = int (mc_num_logical_experts (lr_model q)) + ep_num_redundant_experts (lr_args q)"
  using assms by (auto simp: init_common_def args_ok_def Let_def)

lemma build_by_mapping_wf:
  assumes "mapping_ok q"
  shows "\<exists>md. build_by_mapping q = Inr (Some md) \<and> wf_metadata (request_logical q) md \<and>
    physical_to_logical_map md = lr_map q \<and>
    (logical_to_rank_dispatch_physical_map md \<noteq> None \<longleftrightarrow> request_algorithm q = Some ''static'')"
proof -
  let ?n = "mc_num_logical_experts (lr_model q)" and ?ep = "sa_ep_size (lr_args q)"
  have q: "args_ok q" "0 < length (lr_map q)" "rect (length (lr_map q)) (shape1 (lr_map q)) (lr_map q)"
    "list_all (valid_layer ?n) (lr_map q)" "0 < ?n" "rng_spec (lr_rng q)"
    "parallel_ok (lr_args q) ?ep (shape1 (lr_map q))"
    using assms by (auto simp: mapping_ok_def args_ok_def parallel_ok_def)
  obtain m where m: "compute_logical_to_all_physical_map (lr_args q) (lr_map q) ?n ?ep (lr_rank q) = Inr m"
    "padded_table ?n (lr_map q) m"
    using compute_table[OF q(3,4,2,5)] q(7) by blast
  obtain md where "init_raw (lr_rng q) (lr_state q) (lr_dist_rank q) (lr_args q) ?ep (lr_map q) m = Inr md"
    "wf_metadata ?n md" "physical_to_logical_map md = lr_map q"
    "logical_to_rank_dispatch_physical_map md \<noteq> None \<longleftrightarrow> ep_dispatch_algorithm (lr_args q) = Some ''static''"
    using init_raw_wf[OF m(2) q(3,2,5) conjI[OF q(7,6)]] by blast
  then show ?thesis
    using init_common_ok[OF q(1)] m(1)
    by (auto simp: build_by_mapping_def init_by_mapping_def request_logical_def request_algorithm_def)
qed

definition trivial_map :: "('r, 'f) location_request \<Rightarrow> int list list" where
  "trivial_map q = replicate (mc_num_layers (lr_model q))
     (map (\<lambda>i. i mod int (mc_num_logical_experts (lr_model q)))
        (py_range (int (mc_num_logical_experts (lr_model q)) + ep_num_redundant_experts (lr_args q))))"

lemma valid_layer_trivial:
  assumes "0 < n" "int n \<le> p"
  shows "valid_layer n (map (\<lambda>i. i mod int n) (py_range p))"
proof -
  have "int e \<in> (\<lambda>i. i mod int n) ` {i. 0 \<le> i \<and> i < p}" if "e < n" for e
    using that assms by (intro image_eqI[of _ _ "int e"]) auto
  then show ?thesis using assms by (auto simp: valid_layer_def list_all_iff slice_simps)
qed

lemma trivial_mapping_ok:
  assumes "trivial_ok q"
  shows "mapping_ok (q\<lparr>lr_map := trivial_map q\<rparr>)"
    and "build_trivial q = build_by_mapping (q\<lparr>lr_map := trivial_map q\<rparr>)"
proof -
  let ?n = "int (mc_num_logical_experts (lr_model q))"
  let ?p = "?n + ep_num_redundant_experts (lr_args q)"
  have t: "args_ok q" "0 < mc_num_layers (lr_model q)" "0 < ?n" "?n \<le> ?p" "0 < sa_ep_size (lr_args q)"
    "?p mod sa_ep_size (lr_args q) = 0"
    using assms by (auto simp: trivial_ok_def args_ok_def)
  then have "sa_ep_size (lr_args q) \<le> ?p" by (intro zdvd_imp_le) (auto simp: mod_eq_0_iff_dvd)
  then show "mapping_ok (q\<lparr>lr_map := trivial_map q\<rparr>)"
    using t valid_layer_trivial[of "mc_num_logical_experts (lr_model q)" ?p]
    by (simp add: mapping_ok_def args_ok_def trivial_map_def rect_def list_all_iff shape1_replicate slice_simps)
  show "build_trivial q = build_by_mapping (q\<lparr>lr_map := trivial_map q\<rparr>)"
    using init_common_ok[OF t(1)] t(3,4)
    by (auto simp: build_trivial_def init_trivial_def build_by_mapping_def trivial_map_def Let_def)
qed

interpretation by_mapping: location_provider
  build_by_mapping mapping_ok request_logical "\<lambda>q. length (lr_map q)" request_algorithm
proof
  show "\<exists>md. build_by_mapping q = Inr (Some md) \<and> wf_metadata (request_logical q) md \<and>
      num_layers md = length (lr_map q) \<and>
      (logical_to_rank_dispatch_physical_map md \<noteq> None \<longleftrightarrow> request_algorithm q = Some ''static'')"
    if "mapping_ok q" for q :: "('a, 'b) location_request"
    using build_by_mapping_wf[OF that] by (auto simp: num_layers_def)
qed

interpretation trivial: location_provider
  build_trivial trivial_ok request_logical "\<lambda>q. mc_num_layers (lr_model q)" request_algorithm
proof
  show "\<exists>md. build_trivial q = Inr (Some md) \<and> wf_metadata (request_logical q) md \<and>
      num_layers md = mc_num_layers (lr_model q) \<and>
      (logical_to_rank_dispatch_physical_map md \<noteq> None \<longleftrightarrow> request_algorithm q = Some ''static'')"
    if "trivial_ok q" for q :: "('a, 'b) location_request"
    using by_mapping.build_wf[OF trivial_mapping_ok(1)[OF that]] trivial_mapping_ok(2)[OF that]
    by (auto simp: trivial_map_def request_logical_def request_algorithm_def)
qed

text \<open>
  (C24) Dispatch round trip: with metadata built from a valid physical-to-logical map, every list of
  logical ids the router selects is translated without error into physical ids inside the layer,
  and mapping these back gives exactly the router's ids, whichever dispatch algorithm is configured.
\<close>

theorem dispatch_roundtrip:
  assumes "mapping_ok q" "build_by_mapping q = Inr (Some md)" and "l < num_layers md"
    and "ep_dispatch_algorithm args = request_algorithm q" "request_algorithm q \<in> Some ` {''static'', ''dynamic'', ''fake''}"
    and "set ids \<subseteq> {0..<int (request_logical q)}" and "length randint = length ids"
  shows "\<exists>info phys. dispatch_info_new args (Some md) l = Inr (Some info) \<and>
     topk_ids_logical_to_physical randint ids (Some info) = Inr phys \<and>
     map (\<lambda>p. physical_to_logical_map md ! l ! nat p) phys = ids \<and>
     list_all (\<lambda>p. 0 \<le> p \<and> p < int (length (physical_to_logical_map md ! l))) phys"
  using assms by (rule by_mapping.dispatch_sound)

definition example_request :: "(unit, rat) location_request" where
  "example_request = \<lparr>lr_rng = first_rng, lr_state = (), lr_dist_rank = 1, lr_args = example_args,
     lr_model = \<lparr>mc_num_layers = 1, mc_num_logical_experts = 3, mc_num_groups = None\<rparr>,
     lr_map = [[0, 1, 2, 0]], lr_rank = Some 1\<rparr>"

lemma example_request_ok: "mapping_ok example_request"
proof -
  have "rect 1 4 [[0, 1, 2, 0 :: int]]" "list_all (valid_layer 3) [[0, 1, 2, 0]]" by code_simp+
  then show ?thesis
    by (simp add: mapping_ok_def args_ok_def example_request_def first_rng_spec example_args_def shape1_def
        rect_def)
qed

theorem dispatch_roundtrip_witness:
  "\<exists>md info phys. build_by_mapping example_request = Inr (Some md) \<and>
     dispatch_info_new example_args (Some md) 0 = Inr (Some info) \<and>
     topk_ids_logical_to_physical [9, 8] [2, 0] (Some info) = Inr phys \<and>
     map (\<lambda>p. physical_to_logical_map md ! 0 ! nat p) phys = [2, 0]"
proof -
  obtain md where md: "build_by_mapping example_request = Inr (Some md)" "num_layers md = 1"
    using by_mapping.build_wf[OF example_request_ok] by (auto simp: example_request_def)
  have "ep_dispatch_algorithm example_args = request_algorithm example_request"
    "request_algorithm example_request = Some ''static''" "request_logical example_request = 3"
    by code_simp+
  then show ?thesis
    using dispatch_roundtrip[OF example_request_ok md(1), of 0 example_args "[2, 0]" "[9, 8]"] md by auto
qed

text \<open>
  Replacing some layers of the placement: after an update with metadata built for the same
  model, exactly the named layers carry the new placement, all others keep theirs, and the result
  is again well formed, so that dispatching through it stays correct layer by layer.
\<close>

theorem update_switches_layers:
  fixes q q' :: "('r, 'f) location_request"
  assumes "mapping_ok q" "build_by_mapping q = Inr (Some md)" "mapping_ok q'" "build_by_mapping q' = Inr (Some other)"
    and "request_logical q' = request_logical q" "length (lr_map q') = length (lr_map q)"
      "request_algorithm q' = request_algorithm q"
  shows "\<exists>md'. update md other ids = Inr md' \<and> wf_metadata (request_logical q) md' \<and>
     num_layers md' = length (lr_map q) \<and>
     (\<forall>l < length (lr_map q). physical_to_logical_map md' ! l =
        physical_to_logical_map (if int l \<in> set ids then other else md) ! l)"
  using by_mapping.update_sound[OF assms] by simp

theorem update_switches_layers_witness:
  "\<exists>md md'. build_by_mapping example_request = Inr (Some md) \<and> update md md [0] = Inr md' \<and> wf_metadata 3 md'"
proof -
  obtain md where md: "build_by_mapping example_request = Inr (Some md)"
    using by_mapping.build_wf[OF example_request_ok] by auto
  have "request_logical example_request = 3" by code_simp
  then show ?thesis
    using update_switches_layers[OF example_request_ok md example_request_ok md, of "[0]"] md by auto
qed

end
