(* ===== verification/Updater.thy ===== *)
theory Updater
  imports Expert_Location
begin

text \<open>
  The exchange of expert weights when the placement changes
  (\<^verbatim>\<open>sglang/srt/eplb/expert_location_updater.py\<close>).

  Every rank runs the same program on its own tensors: it plans its receives and local copies,
  plans its sends, issues all point-to-point operations in one batch and then copies from the
  temporary buffers into the weights. The model keeps one state per rank and runs the program on
  all ranks; \<^verbatim>\<open>torch.distributed.batch_isend_irecv\<close> is the argument \<open>exchange\<close>, of which only the
  documented pairing is assumed (\<open>p2p_spec\<close>): the \<open>k\<close>-th receive from a peer gets what that peer's
  \<open>k\<close>-th send to this rank carries, when as many are sent as received.

  A tensor of shape (local experts, ...) is a list with one entry of type \<open>'w\<close> for each local
  expert. A send carries the entry as it is when the batch is issued; nothing writes the weights
  before the batch is complete. Logging and the debug output are left out.
\<close>

section \<open>Chunks\<close>

record chunk_utils =
  chunk_values :: "nat list"
  element_values :: "nat list"

text \<open>\<^verbatim>\<open>xs.index(v)\<close>.\<close>

fun list_index :: "'a list \<Rightarrow> 'a \<Rightarrow> nat result" where
  "list_index [] v = Inl ValueError"
| "list_index (x # xs) v = (if x = v then Inr 0 else bind_res (list_index xs v) (\<lambda>i. Inr (Suc i)))"

definition chunk_index_from_element_index :: "nat \<Rightarrow> nat \<Rightarrow> nat \<Rightarrow> nat result" where
  "chunk_index_from_element_index num_elements num_chunks element_index =
     (if num_chunks = 0 then Inl ZeroDivisionError
      else
        let short_chunk_size = num_elements div num_chunks;
            num_long_chunks = num_elements mod num_chunks;
            num_elements_for_long_chunks = num_long_chunks * (short_chunk_size + 1)
        in if element_index < num_elements_for_long_chunks
           then Inr (element_index div (short_chunk_size + 1))
           else if short_chunk_size = 0 then Inl ZeroDivisionError
           else Inr (num_long_chunks + (element_index - num_elements_for_long_chunks) div short_chunk_size))"

definition element_slice_from_chunk_index :: "nat \<Rightarrow> nat \<Rightarrow> nat \<Rightarrow> (nat \<times> nat) result" where
  "element_slice_from_chunk_index num_elements num_chunks chunk_index =
     (if num_chunks = 0 then Inl ZeroDivisionError
      else
        let short_chunk_size = num_elements div num_chunks;
            num_long_chunks = num_elements mod num_chunks;
            start = chunk_index * short_chunk_size + min chunk_index num_long_chunks
        in Inr (start, start + short_chunk_size + (if chunk_index < num_long_chunks then 1 else 0)))"

definition chunk_value_from_element_value :: "chunk_utils \<Rightarrow> nat \<Rightarrow> nat result" where
  "chunk_value_from_element_value cu element_value =
     bind_res (list_index (element_values cu) element_value) (\<lambda>element_index.
     bind_res (chunk_index_from_element_index (length (element_values cu)) (length (chunk_values cu)) element_index)
       (\<lambda>chunk_index. py_nth (chunk_values cu) (int chunk_index)))"

definition element_values_from_chunk_value :: "chunk_utils \<Rightarrow> nat \<Rightarrow> nat list result" where
  "element_values_from_chunk_value cu chunk_value =
     (if element_values cu = [] then Inr []
      else
        bind_res (list_index (chunk_values cu) chunk_value) (\<lambda>chunk_index.
        bind_res (element_slice_from_chunk_index (length (element_values cu)) (length (chunk_values cu)) chunk_index)
          (\<lambda>(start, stop). Inr (take (stop - start) (drop start (element_values cu))))))"

definition deduplicate_ordered :: "'a list \<Rightarrow> 'a list" where
  "deduplicate_ordered arr =
     fold (\<lambda>item output. if output = [] \<or> item \<noteq> last output then output @ [item] else output) arr []"

section \<open>Who sends an expert to whom\<close>

text \<open>What the nested functions of \<^verbatim>\<open>update_expert_weights_single_layer\<close> capture.\<close>

record layer_update =
  old_physical_to_logical_map :: "int list"
  new_physical_to_logical_map :: "int list"
  lu_num_local_physical_experts :: nat
  num_gpu_per_node :: nat
  lu_rank :: nat

definition self_node_id :: "layer_update \<Rightarrow> nat" where
  "self_node_id u = lu_rank u div num_gpu_per_node u"

definition local_expert_location_range :: "layer_update \<Rightarrow> nat list" where
  "local_expert_location_range u =
     [lu_rank u * lu_num_local_physical_experts u ..< (lu_rank u + 1) * lu_num_local_physical_experts u]"

record comm_info =
  same_node_mapping :: chunk_utils
  cross_node_mapping :: chunk_utils
  need_comm_self_node_dst_ranks :: "nat list"

text \<open>
  The two divisors are positive when it runs: the entry point divides by \<open>num_gpu_per_node\<close> first, and
  with no local expert there is no location to handle.
\<close>

definition compute_comm_info :: "layer_update \<Rightarrow> int \<Rightarrow> comm_info result" where
  "compute_comm_info u logical_expert_id =
     (let old = old_physical_to_logical_map u; new = new_physical_to_logical_map u;
          n = lu_num_local_physical_experts u; gpus = num_gpu_per_node u in
      if length new < length old then Inl IndexError
      else
        let all_src_ranks = deduplicate_ordered
              (map (\<lambda>x. x div n) (filter (\<lambda>x. old ! x = logical_expert_id) [0..<length old]));
            all_src_nodes = map (\<lambda>x. x div gpus) all_src_ranks;
            self_node_src_ranks = filter (\<lambda>x. x div gpus = self_node_id u) all_src_ranks;
            need_comm_dst_ranks = deduplicate_ordered
              (map (\<lambda>x. x div n)
                (filter (\<lambda>x. new ! x = logical_expert_id \<and> x div n \<notin> set all_src_ranks) [0..<length old]));
            need_self = (if self_node_src_ranks \<noteq> []
              then filter (\<lambda>x. x div gpus = self_node_id u) need_comm_dst_ranks else []);
            need_cross = filter (\<lambda>x. x div gpus \<notin> set all_src_nodes) need_comm_dst_ranks
        in Inr \<lparr>same_node_mapping = \<lparr>chunk_values = self_node_src_ranks, element_values = need_self\<rparr>,
                cross_node_mapping = \<lparr>chunk_values = all_src_ranks, element_values = need_cross\<rparr>,
                need_comm_self_node_dst_ranks = need_self\<rparr>)"

section \<open>Tensors of a rank\<close>

definition get_local_expert_location :: "layer_update \<Rightarrow> nat \<Rightarrow> nat result" where
  "get_local_expert_location u expert_location =
     py_assert (lu_rank u * lu_num_local_physical_experts u \<le> expert_location \<and>
                expert_location < (lu_rank u + 1) * lu_num_local_physical_experts u)
       (Inr (expert_location mod lu_num_local_physical_experts u))"

definition get_tensor :: "layer_update \<Rightarrow> 'w list list \<Rightarrow> nat \<Rightarrow> nat \<Rightarrow> 'w result" where
  "get_tensor u tensors tensor_index expert_location =
     bind_res (py_nth tensors (int tensor_index)) (\<lambda>t.
     bind_res (get_local_expert_location u expert_location) (\<lambda>j. py_nth t (int j)))"

text \<open>\<^verbatim>\<open>_get_tensor(...).copy_(v)\<close>, also the write of a completed receive.\<close>

definition set_tensor :: "layer_update \<Rightarrow> nat \<Rightarrow> nat \<Rightarrow> 'w \<Rightarrow> 'w list list \<Rightarrow> 'w list list result" where
  "set_tensor u tensor_index expert_location v tensors =
     bind_res (py_nth tensors (int tensor_index)) (\<lambda>t.
     bind_res (get_local_expert_location u expert_location) (\<lambda>j.
     if j < length t then Inr (tensors[tensor_index := t[j := v]]) else Inl IndexError))"

text \<open>The loop over all tensors that copies one expert.\<close>

definition copy_expert ::
  "layer_update \<Rightarrow> nat \<Rightarrow> 'w list list \<Rightarrow> nat \<Rightarrow> nat \<Rightarrow> 'w list list \<Rightarrow> 'w list list result" where
  "copy_expert u num_tensors src src_location dst_location dst =
     fold_res (\<lambda>i d. bind_res (get_tensor u src i src_location) (\<lambda>v. set_tensor u i dst_location v d))
       [0..<num_tensors] dst"

section \<open>Planning\<close>

text \<open>A receive names the buffer entry it fills, as tensor index and expert location.\<close>

datatype 'w p2p_op = Isend nat 'w | Irecv nat "nat \<times> nat"

record 'w update_state =
  temp_buffers :: "'w list list"
  buffer2weight_copy_infos :: "(nat \<times> nat) list"
  p2p_op_infos :: "(int \<times> 'w p2p_op list) list"

text \<open>The first location of a range that holds the expert.\<close>

fun find_location :: "int list \<Rightarrow> int \<Rightarrow> nat list \<Rightarrow> nat option result" where
  "find_location m logical_expert_id [] = Inr None"
| "find_location m logical_expert_id (x # xs) =
     bind_res (py_nth m (int x)) (\<lambda>e.
       if e = logical_expert_id then Inr (Some x) else find_location m logical_expert_id xs)"

definition create_p2p_recv_and_buffer2weight_copy ::
  "nat \<Rightarrow> int \<Rightarrow> nat \<Rightarrow> nat \<Rightarrow> 'w update_state \<Rightarrow> 'w update_state" where
  "create_p2p_recv_and_buffer2weight_copy num_tensors logical_expert_id src_rank dst s =
     s\<lparr>p2p_op_infos := p2p_op_infos s @
          [(logical_expert_id, map (\<lambda>i. Irecv src_rank (i, dst)) [0..<num_tensors])],
       buffer2weight_copy_infos := buffer2weight_copy_infos s @ [(dst, dst)]\<rparr>"

definition handle_recv_of_dst_expert_location ::
  "layer_update \<Rightarrow> 'w list list \<Rightarrow> nat \<Rightarrow> 'w update_state \<Rightarrow> 'w update_state result" where
  "handle_recv_of_dst_expert_location u weights dst s =
     bind_res (py_nth (new_physical_to_logical_map u) (int dst)) (\<lambda>logical_expert_id.
     bind_res (py_nth (old_physical_to_logical_map u) (int dst)) (\<lambda>old_id.
     if old_id = logical_expert_id then Inr s
     else
       bind_res (find_location (old_physical_to_logical_map u) logical_expert_id (local_expert_location_range u)) (\<lambda>same_gpu.
       case same_gpu of
         Some src \<Rightarrow>
           bind_res (copy_expert u (length weights) weights src dst (temp_buffers s)) (\<lambda>temp.
             Inr (s\<lparr>temp_buffers := temp, buffer2weight_copy_infos := buffer2weight_copy_infos s @ [(dst, dst)]\<rparr>))
       | None \<Rightarrow>
           bind_res (find_location (new_physical_to_logical_map u) logical_expert_id
                       [lu_rank u * lu_num_local_physical_experts u ..< dst]) (\<lambda>free_rider.
           case free_rider of
             Some src \<Rightarrow> Inr (s\<lparr>buffer2weight_copy_infos := buffer2weight_copy_infos s @ [(src, dst)]\<rparr>)
           | None \<Rightarrow>
               bind_res (compute_comm_info u logical_expert_id) (\<lambda>info.
               bind_res (chunk_value_from_element_value
                   (if lu_rank u \<in> set (need_comm_self_node_dst_ranks info)
                    then same_node_mapping info else cross_node_mapping info) (lu_rank u)) (\<lambda>chosen_src_rank.
                 Inr (create_p2p_recv_and_buffer2weight_copy (length weights) logical_expert_id chosen_src_rank dst s)))))))"

definition handle_recv :: "layer_update \<Rightarrow> 'w list list \<Rightarrow> 'w update_state \<Rightarrow> 'w update_state result" where
  "handle_recv u weights = fold_res (handle_recv_of_dst_expert_location u weights) (local_expert_location_range u)"

definition create_isend_ops_of_logical_expert_id ::
  "layer_update \<Rightarrow> 'w list list \<Rightarrow> int \<Rightarrow> nat \<Rightarrow> (int \<times> 'w p2p_op list) list \<Rightarrow> (int \<times> 'w p2p_op list) list result" where
  "create_isend_ops_of_logical_expert_id u weights logical_expert_id src infos =
     bind_res (compute_comm_info u logical_expert_id) (\<lambda>info.
     bind_res (element_values_from_chunk_value (same_node_mapping info) (lu_rank u)) (\<lambda>same_node_dst_ranks.
     bind_res (element_values_from_chunk_value (cross_node_mapping info) (lu_rank u)) (\<lambda>cross_node_dst_ranks.
     bind_res (map_res (\<lambda>(dst_rank, i). bind_res (get_tensor u weights i src) (\<lambda>v. Inr (Isend dst_rank v)))
        (List.product (same_node_dst_ranks @ cross_node_dst_ranks) [0..<length weights])) (\<lambda>ops.
       Inr (infos @ [(logical_expert_id, ops)])))))"

text \<open>One step of the loop over the local sources; the set of handled ids is the first component.\<close>

definition isend_step ::
  "layer_update \<Rightarrow> 'w list list \<Rightarrow> nat \<Rightarrow> int set \<times> (int \<times> 'w p2p_op list) list
     \<Rightarrow> (int set \<times> (int \<times> 'w p2p_op list) list) result" where
  "isend_step u weights src s =
     bind_res (py_nth (old_physical_to_logical_map u) (int src)) (\<lambda>logical_expert_id.
     if logical_expert_id \<in> fst s then Inr s
     else bind_res (create_isend_ops_of_logical_expert_id u weights logical_expert_id src (snd s))
            (\<lambda>infos. Inr (insert logical_expert_id (fst s), infos)))"

definition create_isend_ops ::
  "layer_update \<Rightarrow> 'w list list \<Rightarrow> (int \<times> 'w p2p_op list) list \<Rightarrow> (int \<times> 'w p2p_op list) list result" where
  "create_isend_ops u weights infos =
     bind_res (fold_res (isend_step u weights) (local_expert_location_range u) ({}, infos)) (\<lambda>s. Inr (snd s))"

text \<open>The operations of a rank in the order in which they are issued.\<close>

definition sorted_ops :: "(int \<times> 'w p2p_op list) list \<Rightarrow> 'w p2p_op list" where
  "sorted_ops infos = concat (map snd (sort_key fst infos))"

definition execute_buffer2weight_copies ::
  "layer_update \<Rightarrow> nat \<Rightarrow> (nat \<times> nat) list \<Rightarrow> 'w list list \<Rightarrow> 'w list list \<Rightarrow> 'w list list result" where
  "execute_buffer2weight_copies u num_tensors infos temp weights =
     fold_res (\<lambda>(b, w). copy_expert u num_tensors temp b w) infos weights"

section \<open>One layer on all ranks\<close>

text \<open>What a rank does up to the batch of point-to-point operations.\<close>

definition plan_rank :: "layer_update \<Rightarrow> 'w list list \<Rightarrow> 'w list list \<Rightarrow> 'w update_state result" where
  "plan_rank u weights temp =
     py_assert (list_all (\<lambda>t. length t = lu_num_local_physical_experts u) weights)
       (if num_gpu_per_node u = 0 then Inl ZeroDivisionError
        else
          bind_res (handle_recv u weights
              \<lparr>temp_buffers = temp, buffer2weight_copy_infos = [], p2p_op_infos = []\<rparr>) (\<lambda>s.
          bind_res (create_isend_ops u weights (p2p_op_infos s)) (\<lambda>infos. Inr (s\<lparr>p2p_op_infos := infos\<rparr>))))"

text \<open>What it does once the batch has filled the buffer entries \<open>received\<close>.\<close>

definition finish_rank ::
  "layer_update \<Rightarrow> 'w list list \<Rightarrow> 'w update_state \<Rightarrow> ((nat \<times> nat) \<times> 'w) list
     \<Rightarrow> ('w list list \<times> 'w list list) result" where
  "finish_rank u weights s received =
     bind_res (fold_res (\<lambda>((i, location), v). set_tensor u i location v) received (temp_buffers s)) (\<lambda>temp.
     bind_res (execute_buffer2weight_copies u (length weights) (buffer2weight_copy_infos s) temp weights) (\<lambda>w.
       Inr (w, temp)))"

type_synonym 'w exchange = "'w p2p_op list list \<Rightarrow> ((nat \<times> nat) \<times> 'w) list list option"

definition layer_update_of :: "int list \<Rightarrow> int list \<Rightarrow> nat \<Rightarrow> nat \<Rightarrow> nat \<Rightarrow> layer_update" where
  "layer_update_of old new n gpus rank =
     \<lparr>old_physical_to_logical_map = old, new_physical_to_logical_map = new,
      lu_num_local_physical_experts = n, num_gpu_per_node = gpus, lu_rank = rank\<rparr>"

text \<open>
  \<open>tensors\<close> has the weights and the temporary buffers of every rank. The ranks meet only in the
  batch; \<open>None\<close> of the exchange stands for a batch that never completes.
\<close>

definition update_expert_weights_single_layer ::
  "'w exchange \<Rightarrow> int list \<Rightarrow> int list \<Rightarrow> nat \<Rightarrow> nat \<Rightarrow> ('w list list \<times> 'w list list) list
     \<Rightarrow> ('w list list \<times> 'w list list) list result" where
  "update_expert_weights_single_layer exchange old new n gpus tensors =
     (let us = map (layer_update_of old new n gpus) [0..<length tensors] in
      bind_res (map_res (\<lambda>(u, weights, temp). plan_rank u weights temp) (zip us tensors)) (\<lambda>states.
      case exchange (map (sorted_ops \<circ> p2p_op_infos) states) of
        None \<Rightarrow> Inl RuntimeError
      | Some received \<Rightarrow>
          map_res (\<lambda>(u, (weights, temp), s, r). finish_rank u weights s r)
            (zip us (zip tensors (zip states received)))))"

section \<open>All layers\<close>

text \<open>
  The weights of every layer on every rank, and the temporary buffers of every rank, which are
  created once, uninitialised, with the shapes of the first layer's tensors.
\<close>

type_synonym 'w layer_weights_of_ranks = "(int, 'w list list list) dict"

definition layer_step ::
  "'w exchange \<Rightarrow> nat \<Rightarrow> nat \<Rightarrow> ExpertLocationMetadata \<Rightarrow> ExpertLocationMetadata \<Rightarrow> int
     \<Rightarrow> 'w layer_weights_of_ranks \<times> 'w list list list \<Rightarrow> ('w layer_weights_of_ranks \<times> 'w list list list) result" where
  "layer_step exchange n gpus old new layer_id s =
     (case map_of (fst s) layer_id of
        None \<Rightarrow> Inl KeyError
      | Some weights \<Rightarrow>
          bind_res (py_nth (physical_to_logical_map_cpu old) layer_id) (\<lambda>old_map.
          bind_res (py_nth (physical_to_logical_map_cpu new) layer_id) (\<lambda>new_map.
          bind_res (update_expert_weights_single_layer exchange old_map new_map n gpus (zip weights (snd s))) (\<lambda>tensors.
            Inr (AList.update layer_id (map fst tensors) (fst s), map snd tensors)))))"

definition update_expert_weights_raw ::
  "'w exchange \<Rightarrow> ('w list \<Rightarrow> 'w list) \<Rightarrow> nat \<Rightarrow> nat \<Rightarrow> ExpertLocationMetadata \<Rightarrow> ExpertLocationMetadata \<Rightarrow> int list
     \<Rightarrow> 'w layer_weights_of_ranks \<Rightarrow> 'w layer_weights_of_ranks result" where
  "update_expert_weights_raw exchange empty_like world_size num_nodes old new update_layer_ids weights =
     (case update_layer_ids of
        [] \<Rightarrow> Inl IndexError
      | first # _ \<Rightarrow>
          (case map_of weights first of
             None \<Rightarrow> Inl KeyError
           | Some sample \<Rightarrow>
               bind_res (num_local_physical_experts (int world_size) old) (\<lambda>n.
               if num_nodes = 0 then Inl ZeroDivisionError
               else
                 bind_res (fold_res (layer_step exchange (nat n) (world_size div num_nodes) old new) update_layer_ids
                            (weights, map (map empty_like) sample)) (\<lambda>s. Inr (fst s)))))"

text \<open>
  The variant with a canary: one more tensor per layer whose entries are the ids of the experts that
  a rank holds; after the exchange it must show the new ids.
\<close>

datatype 'w cell = Weight 'w | CanaryId int

definition get_canary_value :: "nat \<Rightarrow> ExpertLocationMetadata \<Rightarrow> nat \<Rightarrow> int \<Rightarrow> 'w cell list result" where
  "get_canary_value n md rank layer_id =
     bind_res (py_nth (physical_to_logical_map_cpu md) layer_id) (\<lambda>row.
       Inr (map CanaryId (py_slice row (int (n * rank)) (int (n * (rank + 1))))))"

definition append_canary ::
  "nat \<Rightarrow> ExpertLocationMetadata \<Rightarrow> int \<Rightarrow> 'w cell layer_weights_of_ranks \<Rightarrow> 'w cell layer_weights_of_ranks result" where
  "append_canary n old layer_id weights =
     (case map_of weights layer_id of
        None \<Rightarrow> Inl KeyError
      | Some ws \<Rightarrow>
          bind_res (map_res (\<lambda>(rank, w). bind_res (get_canary_value n old rank layer_id) (\<lambda>c. Inr (w @ [c]))) (enumerate 0 ws))
            (\<lambda>ws'. Inr (AList.update layer_id ws' weights)))"

definition check_canary ::
  "nat \<Rightarrow> ExpertLocationMetadata \<Rightarrow> 'w cell layer_weights_of_ranks \<Rightarrow> int \<Rightarrow> unit result" where
  "check_canary n new weights layer_id =
     (case map_of weights layer_id of
        None \<Rightarrow> Inl KeyError
      | Some ws \<Rightarrow>
          bind_res (map_res (\<lambda>(rank, w). bind_res (get_canary_value n new rank layer_id) (\<lambda>expect.
            bind_res (py_nth w (- 1)) (\<lambda>actual. py_assert (expect = actual) (Inr ())))) (enumerate 0 ws)) (\<lambda>_. Inr ()))"

fun plain_cell :: "'w cell \<Rightarrow> 'w result" where
  "plain_cell (Weight w) = Inr w"
| "plain_cell (CanaryId e) = Inl TypeError"

text \<open>The tensors are shared with the caller's lists, which do not have the canary.\<close>

definition caller_tensors :: "'w layer_weights_of_ranks \<Rightarrow> int \<times> 'w cell list list list \<Rightarrow> (int \<times> 'w list list list) result" where
  "caller_tensors weights entry =
     (case entry of (layer_id, ws') \<Rightarrow>
        (case map_of weights layer_id of
           None \<Rightarrow> Inl KeyError
         | Some ws \<Rightarrow>
             bind_res (map_res (\<lambda>(w, w'). map_res (map_res plain_cell) (take (length w) w')) (zip ws ws'))
               (\<lambda>plain. Inr (layer_id, plain))))"

definition update_expert_weights_with_canary ::
  "'w cell exchange \<Rightarrow> ('w cell list \<Rightarrow> 'w cell list) \<Rightarrow> nat \<Rightarrow> nat \<Rightarrow> ExpertLocationMetadata \<Rightarrow> ExpertLocationMetadata
     \<Rightarrow> int list \<Rightarrow> 'w layer_weights_of_ranks \<Rightarrow> 'w layer_weights_of_ranks result" where
  "update_expert_weights_with_canary exchange empty_like world_size num_nodes old new update_layer_ids weights =
     bind_res (num_local_physical_experts (int world_size) old) (\<lambda>n.
     bind_res (fold_res (append_canary (nat n) old) update_layer_ids
                (map (\<lambda>(layer_id, ws). (layer_id, map (map (map Weight)) ws)) weights)) (\<lambda>with_canary.
     bind_res (update_expert_weights_raw exchange empty_like world_size num_nodes old new update_layer_ids with_canary) (\<lambda>updated.
     bind_res (map_res (check_canary (nat n) new updated) update_layer_ids) (\<lambda>_.
       map_res (caller_tensors weights) updated))))"

section \<open>ExpertLocationUpdater\<close>

record 'w updater_state =
  first_execution :: bool
  global_expert_location_metadata :: "ExpertLocationMetadata option"
  routed_experts_weights_of_layer :: "'w layer_weights_of_ranks"

text \<open>
  \<^verbatim>\<open>ExpertLocationUpdater.update\<close> on all ranks, with or without the canary. Clearing the device's
  cache at the first execution has no effect on the state.
\<close>

definition updater_update ::
  "bool \<Rightarrow> 'w exchange \<Rightarrow> 'w cell exchange \<Rightarrow> ('w list \<Rightarrow> 'w list) \<Rightarrow> ('w cell list \<Rightarrow> 'w cell list) \<Rightarrow> nat \<Rightarrow> nat
     \<Rightarrow> ExpertLocationMetadata \<Rightarrow> int list \<Rightarrow> 'w updater_state \<Rightarrow> 'w updater_state result" where
  "updater_update canary exchange exchange_c empty_like empty_like_c world_size num_nodes new update_layer_ids st =
     (case global_expert_location_metadata st of
        None \<Rightarrow> Inl AssertionError
      | Some old \<Rightarrow>
          bind_res
            (if canary
             then update_expert_weights_with_canary exchange_c empty_like_c world_size num_nodes old new update_layer_ids
                    (routed_experts_weights_of_layer st)
             else update_expert_weights_raw exchange empty_like world_size num_nodes old new update_layer_ids
                    (routed_experts_weights_of_layer st)) (\<lambda>weights.
          bind_res (update old new update_layer_ids) (\<lambda>md.
            Inr \<lparr>first_execution = False, global_expert_location_metadata = Some md,
                 routed_experts_weights_of_layer = weights\<rparr>)))"

section \<open>Chunks partition the elements\<close>

lemma list_index_Inr: "v \<in> set xs \<Longrightarrow> \<exists>i < length xs. list_index xs v = Inr i \<and> xs ! i = v"
  by (induction xs) auto

lemma list_index_distinct: "distinct xs \<Longrightarrow> i < length xs \<Longrightarrow> list_index xs (xs ! i) = Inr i"
  by (induction xs arbitrary: i) (auto simp: nth_Cons split: nat.splits)

text \<open>First element of chunk \<open>c\<close>, when \<open>q\<close> and \<open>m\<close> are the quotient and remainder.\<close>

definition chunk_start :: "nat \<Rightarrow> nat \<Rightarrow> nat \<Rightarrow> nat" where
  "chunk_start q m c = c * q + min c m"

lemma chunk_start_Suc: "chunk_start q m (Suc c) = chunk_start q m c + q + (if c < m then 1 else 0)"
  by (simp add: chunk_start_def)

lemma chunk_start_mono: "c \<le> d \<Longrightarrow> chunk_start q m c \<le> chunk_start q m d"
  by (simp add: chunk_start_def add_mono min.coboundedI1)

lemma chunk_index_bounds:
  assumes c: "0 < num_chunks" and e: "e < num_elements"
  obtains i where "chunk_index_from_element_index num_elements num_chunks e = Inr i" "i < num_chunks"
    "chunk_start (num_elements div num_chunks) (num_elements mod num_chunks) i \<le> e"
    "e < chunk_start (num_elements div num_chunks) (num_elements mod num_chunks) (Suc i)"
proof -
  define q m where "q = num_elements div num_chunks" and "m = num_elements mod num_chunks"
  have E: "num_elements = num_chunks * q + m" and m: "m < num_chunks" using c by (simp_all add: q_def m_def)
  show ?thesis
  proof (cases "e < m * (q + 1)")
    case True
    define i where "i = e div (q + 1)"
    have i: "i < m" using True by (simp add: i_def less_mult_imp_div_less mult.commute)
    moreover have "i * (q + 1) \<le> e" "e < (i + 1) * (q + 1)"
      using dividend_less_div_times[of "q + 1" e] div_times_less_eq_dividend[of e "q + 1"]
      by (simp_all add: i_def algebra_simps)
    ultimately show ?thesis using True c m
      by (intro that[of i]) (auto simp: chunk_index_from_element_index_def chunk_start_def i_def algebra_simps
          simp flip: q_def m_def)
  next
    case False
    define d where "d = e - m * (q + 1)"
    have d: "e = m * (q + 1) + d" using False by (simp add: d_def)
    have "d < (num_chunks - m) * q" using e E m d by (simp add: algebra_simps diff_mult_distrib)
    then have q: "0 < q" and i: "d div q < num_chunks - m"
      by (auto simp: less_mult_imp_div_less intro: Nat.gr0I)
    have long: "chunk_start q m (m + k) = m * (q + 1) + k * q" for k
      by (simp add: chunk_start_def add_mult_distrib)
    have "d div q * q \<le> d" "d < Suc (d div q) * q"
      using q dividend_less_div_times[of q d] by simp_all
    then have b: "chunk_start q m (m + d div q) \<le> e" "e < chunk_start q m (Suc (m + d div q))"
      using long[of "d div q"] long[of "Suc (d div q)"] d by simp_all
    have "chunk_index_from_element_index num_elements num_chunks e = Inr (m + d div q)"
      using False c q by (simp add: chunk_index_from_element_index_def d_def Let_def flip: q_def m_def)
    then show ?thesis using b i m unfolding q_def m_def by (intro that) auto
  qed
qed

lemma chunk_start_unique:
  assumes "chunk_start q m i \<le> e" "e < chunk_start q m (Suc i)" "chunk_start q m j \<le> e" "e < chunk_start q m (Suc j)"
  shows "i = j"
  using assms chunk_start_mono[of "Suc i" j q m] chunk_start_mono[of "Suc j" i q m]
  by (cases i j rule: linorder_cases) auto

text \<open>
  The two directions agree: an element is in the list of exactly the chunk that is chosen for it, and
  every list has the elements in order, without repetition, and at most one more than another.
\<close>

definition wf_chunks :: "chunk_utils \<Rightarrow> bool" where
  "wf_chunks cu \<longleftrightarrow> distinct (chunk_values cu) \<and> distinct (element_values cu) \<and>
     (element_values cu \<noteq> [] \<longrightarrow> chunk_values cu \<noteq> [])"

lemma chunk_value_Inr:
  assumes "wf_chunks cu" "e \<in> set (element_values cu)"
  shows "\<exists>c \<in> set (chunk_values cu). chunk_value_from_element_value cu e = Inr c"
proof -
  obtain i where i: "i < length (element_values cu)" "list_index (element_values cu) e = Inr i"
    using list_index_Inr[OF assms(2)] by auto
  moreover have "0 < length (chunk_values cu)" using assms by (auto simp: wf_chunks_def)
  then obtain j where "chunk_index_from_element_index (length (element_values cu)) (length (chunk_values cu)) i = Inr j"
    "j < length (chunk_values cu)" using i(1) by (rule chunk_index_bounds)
  ultimately show ?thesis by (auto simp: chunk_value_from_element_value_def py_nth_nat)
qed

lemma element_values_Inr:
  assumes wf: "wf_chunks cu" and c: "c \<in> set (chunk_values cu)"
  shows "\<exists>es. element_values_from_chunk_value cu c = Inr es \<and> distinct es \<and>
     length (element_values cu) div length (chunk_values cu) \<le> length es \<and>
     length es \<le> length (element_values cu) div length (chunk_values cu) + 1 \<and>
     (\<forall>e. e \<in> set es \<longleftrightarrow> e \<in> set (element_values cu) \<and> chunk_value_from_element_value cu e = Inr c)"
proof (cases "element_values cu = []")
  case False
  let ?E = "element_values cu" and ?C = "chunk_values cu"
  define q m where "q = length ?E div length ?C" and "m = length ?E mod length ?C"
  have C: "0 < length ?C" using c by (cases ?C) auto
  obtain k where k: "k < length ?C" "list_index ?C c = Inr k" "?C ! k = c" using list_index_Inr[OF c] by auto
  let ?es = "take (q + (if k < m then 1 else 0)) (drop (chunk_start q m k) ?E)"
  have es: "element_values_from_chunk_value cu c = Inr ?es"
    using False k C
    by (simp add: element_values_from_chunk_value_def element_slice_from_chunk_index_def Let_def chunk_start_def
        flip: q_def m_def)
  have "length ?E = length ?C * q + m" by (simp add: q_def m_def)
  also have "\<dots> = chunk_start q m (length ?C)"
    using C mod_less_divisor[of "length ?C" "length ?E"] by (simp add: chunk_start_def m_def min_absorb2)
  finally have stop: "chunk_start q m (Suc k) \<le> length ?E" using k(1) chunk_start_mono[of "Suc k" "length ?C" q m] by simp
  have member: "e \<in> set ?es \<longleftrightarrow> e \<in> set ?E \<and> chunk_value_from_element_value cu e = Inr c" for e
  proof
    assume "e \<in> set ?es"
    then obtain i where i: "i < q + (if k < m then 1 else 0)" "e = ?E ! (chunk_start q m k + i)"
      by (auto simp: in_set_conv_nth)
    let ?p = "chunk_start q m k + i"
    have p: "?p < length ?E" "?p < chunk_start q m (Suc k)" using i(1) stop by (simp_all add: chunk_start_Suc)
    obtain j where "chunk_index_from_element_index (length ?E) (length ?C) ?p = Inr j"
      "chunk_start q m j \<le> ?p" "?p < chunk_start q m (Suc j)"
      using chunk_index_bounds[OF C p(1)] unfolding q_def m_def by metis
    moreover from this p have "j = k" by (auto intro: chunk_start_unique)
    ultimately show "e \<in> set ?E \<and> chunk_value_from_element_value cu e = Inr c"
      using list_index_distinct[of ?E ?p] wf p(1) k i(2)
      by (simp add: wf_chunks_def chunk_value_from_element_value_def py_nth_nat)
  next
    assume "e \<in> set ?E \<and> chunk_value_from_element_value cu e = Inr c"
    then obtain p where p: "p < length ?E" "?E ! p = e" "list_index ?E e = Inr p"
      and v: "chunk_value_from_element_value cu e = Inr c" using list_index_Inr by metis
    obtain j where j: "chunk_index_from_element_index (length ?E) (length ?C) p = Inr j" "j < length ?C"
      "chunk_start q m j \<le> p" "p < chunk_start q m (Suc j)"
      using chunk_index_bounds[OF C p(1)] unfolding q_def m_def by metis
    from v p(3) j(1,2) have "?C ! j = c" by (simp add: chunk_value_from_element_value_def py_nth_nat)
    then have "j = k" using wf k j(2) by (auto simp: wf_chunks_def nth_eq_iff_index_eq)
    then show "e \<in> set ?es" using j(3,4) p(1,2)
      by (auto simp: in_set_conv_nth chunk_start_Suc intro!: exI[of _ "p - chunk_start q m k"])
  qed
  have "length ?es = q + (if k < m then 1 else 0)"
    using stop by (simp add: chunk_start_Suc del: drop_drop split: if_splits)
  then show ?thesis
    using es member wf by (intro exI[of _ ?es]) (auto simp: wf_chunks_def simp flip: q_def m_def)
qed (simp add: element_values_from_chunk_value_def)

section \<open>Senders and receivers agree\<close>

lemma deduplicate_ordered_fold:
  fixes arr :: "('a::linorder) list"
  assumes "sorted arr" "sorted_wrt (<) out" "\<forall>o' \<in> set out. \<forall>a \<in> set arr. o' \<le> a"
  shows "sorted_wrt (<) (fold (\<lambda>item output. if output = [] \<or> item \<noteq> last output then output @ [item] else output) arr out)
    \<and> set (fold (\<lambda>item output. if output = [] \<or> item \<noteq> last output then output @ [item] else output) arr out)
        = set out \<union> set arr"
  using assms
proof (induction arr arbitrary: out)
  case (Cons a arr)
  show ?case
  proof (cases "out = [] \<or> a \<noteq> last out")
    case True
    have "\<forall>o' \<in> set out. o' < a"
    proof
      fix o' assume "o' \<in> set out"
      then have "o' \<le> last out" "last out \<in> set out" "out \<noteq> []" using Cons.prems(2)
        by (cases out rule: rev_cases; auto simp: sorted_wrt_append)+
      moreover from this(2) have "last out \<le> a" using Cons.prems(3) by simp
      ultimately show "o' < a" using True by auto
    qed
    then have "sorted_wrt (<) (out @ [a])" using Cons.prems(2) by (simp add: sorted_wrt_append)
    with True Cons.IH[of "out @ [a]"] Cons.prems show ?thesis by auto
  next
    case False
    then have "a \<in> set out" using last_in_set by blast
    with False Cons.IH[of out] Cons.prems show ?thesis by auto
  qed
qed simp

lemma deduplicate_ordered_sorted:
  fixes arr :: "('a::linorder) list"
  assumes "sorted arr"
  shows "sorted_wrt (<) (deduplicate_ordered arr)" "set (deduplicate_ordered arr) = set arr"
  using deduplicate_ordered_fold[OF assms, of "[]"] by (simp_all add: deduplicate_ordered_def)

text \<open>The ranks that hold an expert before the change, and those that need it and do not hold it.\<close>

definition src_ranks :: "int list \<Rightarrow> nat \<Rightarrow> int \<Rightarrow> nat set" where
  "src_ranks old n l = (\<lambda>x. x div n) ` {x. x < length old \<and> old ! x = l}"

definition dst_ranks :: "int list \<Rightarrow> int list \<Rightarrow> nat \<Rightarrow> int \<Rightarrow> nat set" where
  "dst_ranks old new n l = (\<lambda>x. x div n) ` {x. x < length old \<and> new ! x = l} - src_ranks old n l"

lemma sorted_locations: "sorted (map (\<lambda>x. x div n) (filter P [0..<(k::nat)]))"
  by (auto simp: sorted_map intro: sorted_wrt_mono_rel[OF _ sorted_wrt_filter[OF sorted_upt]] div_le_mono)

lemma layer_update_of_simps [simp]:
  "old_physical_to_logical_map (layer_update_of old new n gpus r) = old"
  "new_physical_to_logical_map (layer_update_of old new n gpus r) = new"
  "lu_num_local_physical_experts (layer_update_of old new n gpus r) = n"
  "num_gpu_per_node (layer_update_of old new n gpus r) = gpus"
  "lu_rank (layer_update_of old new n gpus r) = r"
  "self_node_id (layer_update_of old new n gpus r) = r div gpus"
  by (simp_all add: layer_update_of_def self_node_id_def)

definition comm_ok :: "int list \<Rightarrow> int list \<Rightarrow> nat \<Rightarrow> nat \<Rightarrow> nat \<Rightarrow> int \<Rightarrow> comm_info \<Rightarrow> bool" where
  "comm_ok old new n gpus r l info \<longleftrightarrow>
     (let S = src_ranks old n l; D = dst_ranks old new n l; nodes = (\<lambda>x. x div gpus) ` S in
      wf_chunks (same_node_mapping info) \<and> wf_chunks (cross_node_mapping info) \<and>
      set (chunk_values (same_node_mapping info)) = {s \<in> S. s div gpus = r div gpus} \<and>
      set (element_values (same_node_mapping info)) = {r' \<in> D. r' div gpus = r div gpus \<and> r div gpus \<in> nodes} \<and>
      set (chunk_values (cross_node_mapping info)) = S \<and>
      set (element_values (cross_node_mapping info)) = {r' \<in> D. r' div gpus \<notin> nodes} \<and>
      need_comm_self_node_dst_ranks info = element_values (same_node_mapping info))"

lemma compute_comm_info_Inr:
  assumes len: "length new = length old" and l: "l \<in> set old"
  shows "\<exists>info. compute_comm_info (layer_update_of old new n gpus r) l = Inr info \<and> comm_ok old new n gpus r l info"
proof -
  let ?S = "src_ranks old n l" and ?D = "dst_ranks old new n l"
  let ?src = "deduplicate_ordered (map (\<lambda>x. x div n) (filter (\<lambda>x. old ! x = l) [0..<length old]))"
  let ?dst = "deduplicate_ordered (map (\<lambda>x. x div n)
      (filter (\<lambda>x. new ! x = l \<and> x div n \<notin> set ?src) [0..<length old]))"
  note d = deduplicate_ordered_sorted[OF sorted_locations]
  have dist: "distinct ?src" "distinct ?dst" using d(1) strict_sorted_iff by blast+
  have src: "set ?src = ?S" unfolding d(2) by (auto simp: src_ranks_def)
  have "set ?dst = (\<lambda>x. x div n) ` {x. x < length old \<and> new ! x = l \<and> x div n \<notin> set ?src}"
    unfolding d(2)[of _ "\<lambda>x. new ! x = l \<and> x div n \<notin> set ?src"] by auto
  then have dst: "set ?dst = ?D" unfolding src by (auto simp: dst_ranks_def)
  have "?S \<noteq> {}" using l by (auto simp: src_ranks_def in_set_conv_nth)
  then have ne: "?src \<noteq> []" using src by force
  let ?self = "filter (\<lambda>x. x div gpus = r div gpus) ?src"
  let ?need = "if ?self \<noteq> [] then filter (\<lambda>x. x div gpus = r div gpus) ?dst else []"
  let ?cross = "filter (\<lambda>x. x div gpus \<notin> set (map (\<lambda>x. x div gpus) ?src)) ?dst"
  have "compute_comm_info (layer_update_of old new n gpus r) l =
      Inr \<lparr>same_node_mapping = \<lparr>chunk_values = ?self, element_values = ?need\<rparr>,
      cross_node_mapping = \<lparr>chunk_values = ?src, element_values = ?cross\<rparr>, need_comm_self_node_dst_ranks = ?need\<rparr>"
    using len by (simp add: compute_comm_info_def Let_def)
  moreover have "?self \<noteq> [] \<longleftrightarrow> r div gpus \<in> (\<lambda>x. x div gpus) ` ?S"
    using src by (auto simp: filter_empty_conv image_iff) metis+
  then have "set ?need = {r' \<in> ?D. r' div gpus = r div gpus \<and> r div gpus \<in> (\<lambda>x. x div gpus) ` ?S}" using dst by auto
  moreover have "set ?cross = {r' \<in> ?D. r' div gpus \<notin> (\<lambda>x. x div gpus) ` ?S}" using src dst by auto
  ultimately show ?thesis using src dist ne by (auto simp: comm_ok_def wf_chunks_def Let_def)
qed

text \<open>The rank from which \<open>r\<close> receives expert \<open>l\<close>.\<close>

definition source_of :: "layer_update \<Rightarrow> int \<Rightarrow> nat result" where
  "source_of u l =
     bind_res (compute_comm_info u l) (\<lambda>info.
       chunk_value_from_element_value
         (if lu_rank u \<in> set (need_comm_self_node_dst_ranks info) then same_node_mapping info else cross_node_mapping info)
         (lu_rank u))"

definition targets_of :: "layer_update \<Rightarrow> int \<Rightarrow> nat list result" where
  "targets_of u l =
     bind_res (compute_comm_info u l) (\<lambda>info.
     bind_res (element_values_from_chunk_value (same_node_mapping info) (lu_rank u)) (\<lambda>a.
     bind_res (element_values_from_chunk_value (cross_node_mapping info) (lu_rank u)) (\<lambda>b. Inr (a @ b))))"

lemma comm_info_same_node:
  "r div gpus = s div gpus \<Longrightarrow>
   compute_comm_info (layer_update_of old new n gpus r) l = compute_comm_info (layer_update_of old new n gpus s) l"
  by (simp add: compute_comm_info_def Let_def)

lemma comm_info_cross:
  assumes "compute_comm_info (layer_update_of old new n gpus r) l = Inr i"
    and "compute_comm_info (layer_update_of old new n gpus s) l = Inr j"
  shows "cross_node_mapping i = cross_node_mapping j"
proof (cases "length new < length old")
  case False
  from assms(1) have i: "cross_node_mapping i = cross_node_mapping (projr (compute_comm_info
      (layer_update_of old new n gpus r) l))" by simp
  from assms(2) have j: "cross_node_mapping j = cross_node_mapping (projr (compute_comm_info
      (layer_update_of old new n gpus s) l))" by simp
  show ?thesis unfolding i j using False by (simp add: compute_comm_info_def Let_def)
qed (use assms(1) in \<open>simp add: compute_comm_info_def\<close>)

lemma source_of_Inr:
  assumes "length new = length old" "l \<in> set old" "r \<in> dst_ranks old new n l"
  shows "\<exists>s \<in> src_ranks old n l. source_of (layer_update_of old new n gpus r) l = Inr s"
proof -
  obtain info where i: "compute_comm_info (layer_update_of old new n gpus r) l = Inr info"
    and ok: "comm_ok old new n gpus r l info" using compute_comm_info_Inr[OF assms(1,2)] by blast
  then have wf: "wf_chunks (same_node_mapping info)" "wf_chunks (cross_node_mapping info)"
    by (simp_all add: comm_ok_def Let_def)
  show ?thesis
    using chunk_value_Inr[OF wf(1), of r] chunk_value_Inr[OF wf(2), of r] assms(3) i ok
    by (cases "r div gpus \<in> (\<lambda>x. x div gpus) ` src_ranks old n l") (auto simp: source_of_def comm_ok_def Let_def)
qed

lemma targets_of_Inr:
  assumes len: "length new = length old" and l: "l \<in> set old" and s: "s \<in> src_ranks old n l"
  shows "\<exists>ts. targets_of (layer_update_of old new n gpus s) l = Inr ts \<and> distinct ts \<and>
     set ts = {r \<in> dst_ranks old new n l. source_of (layer_update_of old new n gpus r) l = Inr s}"
proof -
  let ?u = "layer_update_of old new n gpus" and ?D = "dst_ranks old new n l"
  let ?nodes = "(\<lambda>x. x div gpus) ` src_ranks old n l"
  obtain info where i: "compute_comm_info (?u s) l = Inr info" and ok: "comm_ok old new n gpus s l info"
    using compute_comm_info_Inr[OF len l] by blast
  let ?same = "same_node_mapping info" and ?cross = "cross_node_mapping info"
  have wf: "wf_chunks ?same" "wf_chunks ?cross" "s \<in> set (chunk_values ?same)" "s \<in> set (chunk_values ?cross)"
    and E: "set (element_values ?same) = {r \<in> ?D. r div gpus = s div gpus \<and> s div gpus \<in> ?nodes}"
      "set (element_values ?cross) = {r \<in> ?D. r div gpus \<notin> ?nodes}"
    using ok s by (simp_all add: comm_ok_def Let_def)
  obtain a where a: "element_values_from_chunk_value ?same s = Inr a" "distinct a"
    "\<And>e. e \<in> set a \<longleftrightarrow> e \<in> set (element_values ?same) \<and> chunk_value_from_element_value ?same e = Inr s"
    using element_values_Inr[OF wf(1,3)] by blast
  obtain b where b: "element_values_from_chunk_value ?cross s = Inr b" "distinct b"
    "\<And>e. e \<in> set b \<longleftrightarrow> e \<in> set (element_values ?cross) \<and> chunk_value_from_element_value ?cross e = Inr s"
    using element_values_Inr[OF wf(2,4)] by blast
  have *: "r \<in> set a \<or> r \<in> set b \<longleftrightarrow> source_of (?u r) l = Inr s" if r: "r \<in> ?D" for r
  proof -
    obtain ri where ri: "compute_comm_info (?u r) l = Inr ri" and rok: "comm_ok old new n gpus r l ri"
      using compute_comm_info_Inr[OF len l] by blast
    have cross: "cross_node_mapping ri = ?cross" using ri i by (rule comm_info_cross)
    have src: "source_of (?u r) l = chunk_value_from_element_value
        (if r div gpus \<in> ?nodes then same_node_mapping ri else ?cross) r"
      using r ri rok cross by (auto simp: source_of_def comm_ok_def Let_def)
    consider (cross) "r div gpus \<notin> ?nodes" | (same) "r div gpus \<in> ?nodes" "r div gpus = s div gpus"
      | (other) "r div gpus \<in> ?nodes" "r div gpus \<noteq> s div gpus" by blast
    then show ?thesis
    proof cases
      case cross
      then show ?thesis using r src a(3) b(3) E s by auto
    next
      case same
      have "ri = info" using comm_info_same_node[OF same(2)] ri i by simp
      then show ?thesis using same r src a(3) b(3) E by auto
    next
      case other
      have "wf_chunks (same_node_mapping ri)" "r \<in> set (element_values (same_node_mapping ri))"
        "s \<notin> set (chunk_values (same_node_mapping ri))"
        using rok r other by (auto simp: comm_ok_def Let_def)
      from chunk_value_Inr[OF this(1,2)] this(3) show ?thesis using other src a(3) b(3) E by auto
    qed
  qed
  have "set a \<union> set b \<subseteq> ?D" "set a \<inter> set b = {}" using a(3) b(3) E by auto
  then show ?thesis
    using a(1,2) b(1,2) i * by (intro exI[of _ "a @ b"]) (auto simp: targets_of_def)
qed

section \<open>Copying an expert\<close>

definition copy_column :: "nat \<Rightarrow> nat \<Rightarrow> 'w list list \<Rightarrow> 'w list list \<Rightarrow> 'w list list" where
  "copy_column a b src dst = map (\<lambda>i. (dst ! i)[b := src ! i ! a]) [0..<length dst]"

lemma rect_copy_column: "rect m n dst \<Longrightarrow> rect m n (copy_column a b src dst)"
  by (auto simp: rect_def copy_column_def list_all_length)

lemma copy_column_nth:
  assumes "rect m n dst" "i < m" "j < n"
  shows "copy_column a b src dst ! i ! j = (if j = b then src ! i ! a else dst ! i ! j)"
  using assms by (auto simp: copy_column_def rect_def list_all_length)

definition rank_range :: "nat \<Rightarrow> nat \<Rightarrow> nat list" where
  "rank_range n r = [r * n ..< (r + 1) * n]"

lemma in_rank_range: "0 < n \<Longrightarrow> x \<in> set (rank_range n r) \<longleftrightarrow> x div n = r"
proof -
  assume "0 < n"
  then have "x div n = r \<longleftrightarrow> r * n \<le> x \<and> x < (r + 1) * n"
    by (metis Suc_eq_plus1 div_nat_eqI dividend_less_div_times div_times_less_eq_dividend mult.commute mult_Suc)
  then show ?thesis by (simp add: rank_range_def)
qed

lemma local_range_of [simp]: "local_expert_location_range (layer_update_of old new n gpus r) = rank_range n r"
  by (simp add: local_expert_location_range_def rank_range_def)

lemma get_local_Inr:
  assumes "0 < n" "x div n = r"
  shows "get_local_expert_location (layer_update_of old new n gpus r) x = Inr (x mod n)"
  using in_rank_range[OF assms(1), of x r] assms(2) by (simp add: get_local_expert_location_def rank_range_def)

lemma get_tensor_Inr:
  assumes "0 < n" "x div n = r" "rect m n tensors" "i < m"
  shows "get_tensor (layer_update_of old new n gpus r) tensors i x = Inr (tensors ! i ! (x mod n))"
  using assms rect_row[OF assms(3,4)] rect_length[OF assms(3)]
  by (simp add: get_tensor_def get_local_Inr py_nth_nat)

lemma set_tensor_Inr:
  assumes "0 < n" "x div n = r" "rect m n tensors" "i < m"
  shows "set_tensor (layer_update_of old new n gpus r) i x v tensors =
     Inr (tensors[i := (tensors ! i)[x mod n := v]])"
  using assms rect_row[OF assms(3,4)] rect_length[OF assms(3)]
  by (simp add: set_tensor_def get_local_Inr py_nth_nat)

lemma rect_set: "rect m n t \<Longrightarrow> rect m n (t[i := (t ! i)[j := v]])"
  by (cases "i < length t") (auto simp: rect_def list_all_length nth_list_update)

lemma copy_expert_Inr:
  assumes "0 < n" "x div n = r" "y div n = r" and src: "rect m n src" and dst: "rect m n dst"
  shows "copy_expert (layer_update_of old new n gpus r) m src x y dst = Inr (copy_column (x mod n) (y mod n) src dst)"
proof -
  let ?step = "\<lambda>i d. bind_res (get_tensor (layer_update_of old new n gpus r) src i x)
      (\<lambda>v. set_tensor (layer_update_of old new n gpus r) i y v d)"
  let ?part = "\<lambda>k. map (\<lambda>i. if i < k then (dst ! i)[y mod n := src ! i ! (x mod n)] else dst ! i) [0..<m]"
  have "fold_res ?step [0..<k] dst = Inr (?part k)" if "k \<le> m" for k
    using that
  proof (induction k)
    case 0
    show ?case using rect_length[OF dst] by (auto intro!: nth_equalityI)
  next
    case (Suc k)
    have r: "rect m n (?part k)" using dst by (auto simp: rect_def list_all_length)
    show ?case using Suc assms
      by (auto simp: fold_res_append get_tensor_Inr[OF _ _ src] set_tensor_Inr[OF _ _ r] nth_list_update
          intro!: nth_equalityI)
  qed
  from this[of m] show ?thesis
    using rect_length[OF dst] by (auto simp: copy_expert_def copy_column_def intro!: map_cong)
qed

section \<open>What a rank plans to receive\<close>

definition placement_ok :: "int list \<Rightarrow> int list \<Rightarrow> nat \<Rightarrow> nat \<Rightarrow> nat \<Rightarrow> bool" where
  "placement_ok old new n gpus world \<longleftrightarrow>
     0 < n \<and> 0 < gpus \<and> length old = world * n \<and> length new = world * n \<and> set new \<subseteq> set old"

datatype recv_case = Unchanged | SameGpu nat | FreeRider nat | Comm nat

definition recv_case_of :: "int list \<Rightarrow> int list \<Rightarrow> nat \<Rightarrow> nat \<Rightarrow> nat \<Rightarrow> nat \<Rightarrow> recv_case" where
  "recv_case_of old new n gpus r x =
     (if old ! x = new ! x then Unchanged
      else case List.find (\<lambda>y. old ! y = new ! x) (rank_range n r) of
        Some y \<Rightarrow> SameGpu y
      | None \<Rightarrow> (case List.find (\<lambda>y. new ! y = new ! x) [r * n ..< x] of
          Some y \<Rightarrow> FreeRider y
        | None \<Rightarrow> (case source_of (layer_update_of old new n gpus r) (new ! x) of
            Inr s \<Rightarrow> Comm s | Inl _ \<Rightarrow> Unchanged)))"

definition recv_step :: "int list \<Rightarrow> nat \<Rightarrow> 'w list list \<Rightarrow> (nat \<Rightarrow> recv_case) \<Rightarrow> nat \<Rightarrow> 'w update_state \<Rightarrow> 'w update_state" where
  "recv_step new n weights rcase x s =
     (case rcase x of
        Unchanged \<Rightarrow> s
      | SameGpu y \<Rightarrow> s\<lparr>temp_buffers := copy_column (y mod n) (x mod n) weights (temp_buffers s),
          buffer2weight_copy_infos := buffer2weight_copy_infos s @ [(x, x)]\<rparr>
      | FreeRider y \<Rightarrow> s\<lparr>buffer2weight_copy_infos := buffer2weight_copy_infos s @ [(y, x)]\<rparr>
      | Comm c \<Rightarrow> create_p2p_recv_and_buffer2weight_copy (length weights) (new ! x) c x s)"

lemma find_location_Inr:
  "\<forall>x \<in> set xs. x < length m \<Longrightarrow> find_location m l xs = Inr (List.find (\<lambda>x. m ! x = l) xs)"
  by (induction xs) (auto simp: py_nth_nat)

lemma range_bound:
  assumes "0 < n" "x div n < (world::nat)"
  shows "x < world * n"
  using assms div_less_iff_less_mult[of n x world] by simp

lemma find_None_dst:
  assumes ok: "placement_ok old new n gpus world" and x: "x div n = r" "r < world"
    and f: "List.find (\<lambda>y. old ! y = new ! x) (rank_range n r) = None"
  shows "r \<in> dst_ranks old new n (new ! x)"
proof -
  have "\<forall>y. y div n = r \<longrightarrow> old ! y \<noteq> new ! x"
    using f ok in_rank_range[of n _ r] by (auto simp: find_None_iff placement_ok_def)
  then have "r \<notin> src_ranks old n (new ! x)" by (auto simp: src_ranks_def)
  then show ?thesis using ok x range_bound[of n x world] by (force simp: dst_ranks_def placement_ok_def)
qed

lemma handle_recv_of_dst_Inr:
  assumes ok: "placement_ok old new n gpus world" and x: "x div n = r" "r < world"
    and w: "rect m n weights" and t: "rect m n (temp_buffers s)"
  shows "handle_recv_of_dst_expert_location (layer_update_of old new n gpus r) weights x s =
     Inr (recv_step new n weights (recv_case_of old new n gpus r) x s)"
proof -
  let ?u = "layer_update_of old new n gpus r" and ?l = "new ! x"
  have n: "0 < n" and len: "length old = world * n" "length new = length old" using ok by (simp_all add: placement_ok_def)
  have bound: "y < length old" if "y div n = r" for y using range_bound[of n y world] n that x(2) len by simp
  have xs: "\<forall>y \<in> set (rank_range n r). y < length old" using in_rank_range[OF n] bound by blast
  have pre: "\<forall>y \<in> set [r * n ..< x]. y < length new" using bound[OF x(1)] len by auto
  have l: "?l \<in> set old" using ok bound[OF x(1)] len by (auto simp: placement_ok_def)
  note facts = py_nth_nat[of x new] py_nth_nat[of x old] bound[OF x(1)] len
    find_location_Inr[OF xs] find_location_Inr[OF pre] rect_length[OF w]
  show ?thesis
  proof (cases "List.find (\<lambda>y. old ! y = ?l) (rank_range n r)")
    case (Some y)
    then have "y div n = r" using in_rank_range[OF n] by (auto simp: find_Some_iff in_set_conv_nth)
    then show ?thesis using Some facts x n w t
      by (simp add: handle_recv_of_dst_expert_location_def recv_step_def recv_case_of_def copy_expert_Inr)
  next
    case None
    obtain c where c: "source_of ?u ?l = Inr c"
      using source_of_Inr[OF len(2) l find_None_dst[OF ok x None]] by blast
    then show ?thesis using None facts
      by (auto simp: handle_recv_of_dst_expert_location_def recv_step_def recv_case_of_def source_of_def
          split: option.split)
  qed
qed

text \<open>The plan after the locations \<open>xs\<close>: local copies, receives and the temporary buffers.\<close>

definition buffer_of :: "(nat \<Rightarrow> recv_case) \<Rightarrow> nat \<Rightarrow> nat" where
  "buffer_of rcase x = (case rcase x of FreeRider y \<Rightarrow> y | _ \<Rightarrow> x)"

fun comm_source :: "recv_case \<Rightarrow> nat option" where
  "comm_source (Comm c) = Some c"
| "comm_source _ = None"

definition recv_infos :: "int list \<Rightarrow> nat \<Rightarrow> (nat \<Rightarrow> recv_case) \<Rightarrow> nat list \<Rightarrow> (int \<times> 'w p2p_op list) list" where
  "recv_infos new m rcase xs =
     map (\<lambda>x. (new ! x, map (\<lambda>i. Irecv (the (comm_source (rcase x))) (i, x)) [0..<m]))
       (filter (\<lambda>x. comm_source (rcase x) \<noteq> None) xs)"

lemma recv_fold:
  assumes "length weights = m"
  shows "buffer2weight_copy_infos (fold (recv_step new n weights rcase) xs s) =
      buffer2weight_copy_infos s @ map (\<lambda>x. (buffer_of rcase x, x)) (filter (\<lambda>x. rcase x \<noteq> Unchanged) xs)"
    and "p2p_op_infos (fold (recv_step new n weights rcase) xs s) = p2p_op_infos s @ recv_infos new m rcase xs"
  using assms
  by (induction xs arbitrary: s)
    (auto simp: recv_step_def recv_infos_def buffer_of_def create_p2p_recv_and_buffer2weight_copy_def split: recv_case.splits)

lemma recv_step_rect:
  "rect m n (temp_buffers s) \<Longrightarrow> rect m n (temp_buffers (recv_step new n weights rcase x s))"
  by (auto simp: recv_step_def rect_copy_column create_p2p_recv_and_buffer2weight_copy_def split: recv_case.splits)

lemma recv_fold_rect:
  "rect m n (temp_buffers s) \<Longrightarrow> rect m n (temp_buffers (fold (recv_step new n weights rcase) xs s))"
  by (induction xs arbitrary: s) (auto simp: recv_step_rect)

lemma recv_fold_temp:
  assumes "rect m n (temp_buffers s)" "i < m" "0 < n" "x div n = r" "\<forall>y \<in> set xs. y div n = r"
  shows "temp_buffers (fold (recv_step new n weights rcase) xs s) ! i ! (x mod n) =
     (case rcase x of SameGpu y \<Rightarrow> if x \<in> set xs then weights ! i ! (y mod n) else temp_buffers s ! i ! (x mod n)
      | _ \<Rightarrow> temp_buffers s ! i ! (x mod n))"
  using assms
proof (induction xs arbitrary: s)
  case (Cons y xs)
  have "x mod n = y mod n \<longleftrightarrow> x = y" using Cons.prems(4,5) by (metis div_mult_mod_eq list.set_intros(1))
  then have step: "temp_buffers (recv_step new n weights rcase y s) ! i ! (x mod n) =
      (case rcase y of SameGpu z \<Rightarrow> if x = y then weights ! i ! (z mod n) else temp_buffers s ! i ! (x mod n)
       | _ \<Rightarrow> temp_buffers s ! i ! (x mod n))"
    using Cons.prems
    by (auto simp: recv_step_def create_p2p_recv_and_buffer2weight_copy_def copy_column_nth[OF Cons.prems(1,2)]
        split: recv_case.splits)
  then show ?case using Cons.IH[OF recv_step_rect[OF Cons.prems(1)]] Cons.prems
    by (auto split: recv_case.splits)
qed (auto split: recv_case.splits)

lemma handle_recv_Inr:
  assumes ok: "placement_ok old new n gpus world" and r: "r < world"
    and w: "rect m n weights" and t: "rect m n (temp_buffers s)"
  shows "handle_recv (layer_update_of old new n gpus r) weights s =
     Inr (fold (recv_step new n weights (recv_case_of old new n gpus r)) (rank_range n r) s)"
proof -
  have "\<forall>y \<in> set xs. y div n = r \<Longrightarrow>
      fold_res (handle_recv_of_dst_expert_location (layer_update_of old new n gpus r) weights) xs s =
      Inr (fold (recv_step new n weights (recv_case_of old new n gpus r)) xs s)" for xs
    using t
  proof (induction xs arbitrary: s)
    case (Cons x xs)
    then show ?case using handle_recv_of_dst_Inr[OF ok, of x r m weights s] r w by (simp add: recv_step_rect)
  qed simp
  then show ?thesis using ok in_rank_range[of n _ r] by (simp add: handle_recv_def placement_ok_def)
qed

section \<open>What a rank plans to send\<close>

definition send_ops :: "'w list list \<Rightarrow> nat \<Rightarrow> nat \<Rightarrow> nat list \<Rightarrow> 'w p2p_op list" where
  "send_ops weights m j dsts = concat (map (\<lambda>d. map (\<lambda>i. Isend d (weights ! i ! j)) [0..<m]) dsts)"

definition first_locations :: "int list \<Rightarrow> nat \<Rightarrow> nat \<Rightarrow> nat \<Rightarrow> nat list" where
  "first_locations old n r k = filter (\<lambda>x. \<forall>y \<in> {r * n ..< x}. old ! y \<noteq> old ! x) [r * n ..< k]"

definition send_infos ::
  "int list \<Rightarrow> nat \<Rightarrow> nat \<Rightarrow> nat \<Rightarrow> 'w list list \<Rightarrow> (int \<Rightarrow> nat list) \<Rightarrow> nat \<Rightarrow> (int \<times> 'w p2p_op list) list" where
  "send_infos old n m r weights targets k =
     map (\<lambda>x. (old ! x, send_ops weights m (x mod n) (targets (old ! x)))) (first_locations old n r k)"

definition targets_list :: "int list \<Rightarrow> int list \<Rightarrow> nat \<Rightarrow> nat \<Rightarrow> nat \<Rightarrow> int \<Rightarrow> nat list" where
  "targets_list old new n gpus r l = projr (targets_of (layer_update_of old new n gpus r) l)"

lemma src_ranksI: "x < length old \<Longrightarrow> x div n \<in> src_ranks old n (old ! x)"
  by (auto simp: src_ranks_def)

lemma targets_list:
  assumes "length new = length old" "s \<in> src_ranks old n l"
  shows "targets_of (layer_update_of old new n gpus s) l = Inr (targets_list old new n gpus s l)"
    "distinct (targets_list old new n gpus s l)"
    "set (targets_list old new n gpus s l) =
       {r \<in> dst_ranks old new n l. source_of (layer_update_of old new n gpus r) l = Inr s}"
proof -
  have "l \<in> set old" using assms(2) by (auto simp: src_ranks_def)
  from targets_of_Inr[OF assms(1) this assms(2)] obtain ts where
    "targets_of (layer_update_of old new n gpus s) l = Inr ts" "distinct ts"
    "set ts = {r \<in> dst_ranks old new n l. source_of (layer_update_of old new n gpus r) l = Inr s}" by blast
  then show "targets_of (layer_update_of old new n gpus s) l = Inr (targets_list old new n gpus s l)"
    "distinct (targets_list old new n gpus s l)"
    "set (targets_list old new n gpus s l) =
       {r \<in> dst_ranks old new n l. source_of (layer_update_of old new n gpus r) l = Inr s}"
    by (simp_all add: targets_list_def)
qed

lemma map_res_sends:
  assumes "0 < n" "x div n = r" "rect m n weights"
  shows "map_res (\<lambda>(d, i). bind_res (get_tensor (layer_update_of old new n gpus r) weights i x) (\<lambda>v. Inr (Isend d v)))
      (List.product dsts [0..<m]) = Inr (send_ops weights m (x mod n) dsts)"
proof -
  have "map_res (\<lambda>(d, i). bind_res (get_tensor (layer_update_of old new n gpus r) weights i x) (\<lambda>v. Inr (Isend d v)))
      (List.product dsts [0..<m]) = Inr (map (\<lambda>(d, i). Isend d (weights ! i ! (x mod n))) (List.product dsts [0..<m]))"
    using assms by (intro map_res_Inr) (auto simp: get_tensor_Inr)
  also have "map (\<lambda>(d, i). Isend d (weights ! i ! (x mod n))) (List.product dsts [0..<m]) =
      send_ops weights m (x mod n) dsts"
    by (simp add: send_ops_def product_concat_map map_concat comp_def)
  finally show ?thesis .
qed

lemma create_isend_ops_of_Inr:
  assumes n: "0 < n" and x: "x div n = r" "x < length old" and len: "length new = length old" and w: "rect m n weights"
  shows "create_isend_ops_of_logical_expert_id (layer_update_of old new n gpus r) weights (old ! x) x infos =
     Inr (infos @ [(old ! x, send_ops weights m (x mod n) (targets_list old new n gpus r (old ! x)))])"
proof -
  have "r \<in> src_ranks old n (old ! x)" using src_ranksI[OF x(2), of n] x(1) by simp
  from targets_list(1)[OF len this, of gpus] obtain info a b where
    "compute_comm_info (layer_update_of old new n gpus r) (old ! x) = Inr info"
    "element_values_from_chunk_value (same_node_mapping info) r = Inr a"
    "element_values_from_chunk_value (cross_node_mapping info) r = Inr b"
    "targets_list old new n gpus r (old ! x) = a @ b"
    by (auto simp: targets_of_def)
  then show ?thesis using map_res_sends[OF n x(1) w, of old new gpus] rect_length[OF w]
    by (simp add: create_isend_ops_of_logical_expert_id_def)
qed

lemma create_isend_ops_Inr:
  assumes ok: "placement_ok old new n gpus world" and r: "r < world" and w: "rect m n weights"
  shows "create_isend_ops (layer_update_of old new n gpus r) weights infos =
     Inr (infos @ send_infos old n m r weights (targets_list old new n gpus r) ((r + 1) * n))"
proof -
  let ?u = "layer_update_of old new n gpus r" and ?t = "targets_list old new n gpus r"
  have n: "0 < n" and len: "length old = world * n" "length new = length old" using ok by (simp_all add: placement_ok_def)
  have "fold_res (isend_step ?u weights) [r * n ..< r * n + k] ({}, infos) =
      Inr ((\<lambda>x. old ! x) ` {r * n ..< r * n + k}, infos @ send_infos old n m r weights ?t (r * n + k))"
    if "k \<le> n" for k
    using that
  proof (induction k)
    case (Suc k)
    let ?x = "r * n + k"
    have x: "?x div n = r" using Suc.prems n by simp
    then have b: "?x < length old" using range_bound[OF n, of ?x world] r len by simp
    have sep: "[r * n ..< r * n + Suc k] = [r * n ..< ?x] @ [?x]" by simp
    have img: "(\<lambda>x. old ! x) ` {r * n ..< r * n + Suc k} = insert (old ! ?x) ((\<lambda>x. old ! x) ` {r * n ..< ?x})"
      by (simp add: atLeastLessThanSuc)
    have "isend_step ?u weights ?x ((\<lambda>x. old ! x) ` {r * n ..< ?x}, infos @ send_infos old n m r weights ?t ?x) =
        Inr (insert (old ! ?x) ((\<lambda>x. old ! x) ` {r * n ..< ?x}), infos @ send_infos old n m r weights ?t (Suc ?x))"
      using create_isend_ops_of_Inr[OF n x b len(2) w, of gpus] py_nth_nat[OF b]
      by (auto simp: isend_step_def send_infos_def first_locations_def insert_absorb intro: rev_image_eqI)
    then show ?case unfolding sep fold_res_append using Suc img by simp
  qed (simp add: send_infos_def first_locations_def)
  from this[of n] show ?thesis by (simp add: create_isend_ops_def rank_range_def add.commute)
qed

end
