(* ===== verification/Update_Exchange.thy ===== *)
theory Update_Exchange
  imports Updater
begin

text \<open>
  Correctness of the weight exchange of \<^verbatim>\<open>expert_location_updater.py\<close>: the batches of all ranks fit
  together, and afterwards every slot holds the weights of the expert that the new placement
  assigns to it. The layer loop, the canary check and \<^verbatim>\<open>ExpertLocationUpdater.update\<close> follow.
\<close>

section \<open>Point-to-point batches\<close>

fun recv_slot :: "nat \<Rightarrow> 'w p2p_op \<Rightarrow> (nat \<times> nat) option" where
  "recv_slot s (Irecv peer slot) = (if peer = s then Some slot else None)"
| "recv_slot s (Isend peer v) = None"

fun send_payload :: "nat \<Rightarrow> 'w p2p_op \<Rightarrow> 'w option" where
  "send_payload r (Isend peer v) = (if peer = r then Some v else None)"
| "send_payload r (Irecv peer slot) = None"

abbreviation recvs_from :: "nat \<Rightarrow> 'w p2p_op list \<Rightarrow> (nat \<times> nat) list" where
  "recvs_from s \<equiv> List.map_filter (recv_slot s)"

abbreviation sends_to :: "nat \<Rightarrow> 'w p2p_op list \<Rightarrow> 'w list" where
  "sends_to r \<equiv> List.map_filter (send_payload r)"

definition matched :: "'w p2p_op list list \<Rightarrow> bool" where
  "matched batches \<longleftrightarrow>
     (\<forall>r < length batches. \<forall>s < length batches.
        length (recvs_from s (batches ! r)) = length (sends_to r (batches ! s)))"

text \<open>
  The documented behaviour: operations between two ranks are paired in the order in which they are
  issued, and a batch in which all of them find a partner completes. Nothing is said about the order
  in which the buffers are written, or about batches with an operation that has no partner.
\<close>

definition p2p_spec :: "'w exchange \<Rightarrow> bool" where
  "p2p_spec exchange \<longleftrightarrow>
     (\<forall>batches. matched batches \<longrightarrow>
        (\<exists>received. exchange batches = Some received \<and> length received = length batches \<and>
           (\<forall>r < length batches. set (received ! r) =
              (\<Union>s < length batches. set (zip (recvs_from s (batches ! r)) (sends_to r (batches ! s)))))))"

text \<open>A concrete exchange, for evaluation.\<close>

definition fifo_exchange :: "'w exchange" where
  "fifo_exchange batches =
     (if list_all (\<lambda>r. list_all (\<lambda>s. length (recvs_from s (batches ! r)) = length (sends_to r (batches ! s)))
           [0..<length batches]) [0..<length batches]
      then Some (map (\<lambda>r. concat (map (\<lambda>s. zip (recvs_from s (batches ! r)) (sends_to r (batches ! s)))
             [0..<length batches])) [0..<length batches])
      else None)"

lemma fifo_exchange_spec: "p2p_spec fifo_exchange"
  by (auto simp: p2p_spec_def fifo_exchange_def matched_def list_all_iff)

section \<open>Operations sorted by expert\<close>

lemma map_filter_concat: "List.map_filter f (concat xss) = concat (map (List.map_filter f) xss)"
  by (induction xss) (auto simp: List.map_filter_def)

lemma concat_filter_Nil: "concat (map f xs) = concat (map f (filter (\<lambda>x. f x \<noteq> []) xs))"
  by (induction xs) auto

text \<open>
  Where each key contributes through one entry only, the contributions come in the order of the keys.
\<close>

lemma sorted_contributions:
  fixes infos :: "('k::linorder \<times> 'o list) list"
  assumes dist: "distinct (map fst (filter (\<lambda>x. f (snd x) \<noteq> []) infos))"
    and keys: "fst ` set (filter (\<lambda>x. f (snd x) \<noteq> []) infos) = K"
    and g: "\<And>k v. (k, v) \<in> set infos \<Longrightarrow> f v \<noteq> [] \<Longrightarrow> f v = g k"
  shows "concat (map (\<lambda>x. f (snd x)) (sort_key fst infos)) = concat (map g (sorted_list_of_set K))"
proof -
  let ?P = "\<lambda>x. f (snd x) \<noteq> []"
  have "concat (map (\<lambda>x. f (snd x)) (sort_key fst infos)) =
      concat (map (\<lambda>x. f (snd x)) (filter ?P (sort_key fst infos)))"
    by (rule concat_filter_Nil)
  also have "filter ?P (sort_key fst infos) = sort_key fst (filter ?P infos)" by (rule filter_sort)
  also have "map (\<lambda>x. f (snd x)) (sort_key fst (filter ?P infos)) = map (\<lambda>x. g (fst x)) (sort_key fst (filter ?P infos))"
    using g by (intro map_cong) auto
  also have "\<dots> = map g (map fst (sort_key fst (filter ?P infos)))" by simp
  also have "map fst (sort_key fst (filter ?P infos)) = sorted_list_of_set K"
  proof (rule sorted_distinct_set_unique)
    have set: "set (map fst (sort_key fst (filter ?P infos))) = K" using keys by simp
    then have "finite K" by (metis List.finite_set)
    then show "set (map fst (sort_key fst (filter ?P infos))) = set (sorted_list_of_set K)" using set by simp
    show "distinct (map fst (sort_key fst (filter ?P infos)))" using dist by (simp add: distinct_map)
  qed simp_all
  finally show ?thesis .
qed

lemma sorted_ops_filter:
  "List.map_filter f (sorted_ops infos) = concat (map (\<lambda>x. List.map_filter f (snd x)) (sort_key fst infos))"
  by (simp add: sorted_ops_def map_filter_concat comp_def)

lemma map_filter_const: "List.map_filter (\<lambda>x. None) xs = []"
  by (simp add: List.map_filter_def)

lemma map_filter_cong_None: "(\<And>x. x \<in> set xs \<Longrightarrow> f x = None) \<Longrightarrow> List.map_filter f xs = []"
  by (induction xs) (auto simp: List.map_filter_def)

lemma map_filter_map_Some: "List.map_filter f (map g xs) = map h xs" if "\<And>x. x \<in> set xs \<Longrightarrow> f (g x) = Some (h x)"
  using that by (induction xs) (auto simp: List.map_filter_def)

lemma sends_to_send_ops:
  assumes "distinct dsts"
  shows "sends_to r (send_ops weights m j dsts) = (if r \<in> set dsts then map (\<lambda>i. weights ! i ! j) [0..<m] else [])"
  using assms
proof (induction dsts)
  case (Cons d dsts)
  have "sends_to r (map (\<lambda>i. Isend d (weights ! i ! j)) [0..<m]) =
      (if d = r then map (\<lambda>i. weights ! i ! j) [0..<m] else [])"
    by (auto intro!: map_filter_map_Some map_filter_cong_None)
  then show ?case using Cons by (auto simp: send_ops_def List.map_filter_def)
qed (simp add: send_ops_def List.map_filter_def)

lemma recvs_from_send_ops: "recvs_from s (send_ops weights m j dsts) = []"
  by (rule map_filter_cong_None) (auto simp: send_ops_def)

section \<open>The batches fit together\<close>

text \<open>Rank \<open>r\<close> holds the weights \<open>W i l\<close> of the experts that placement \<open>p\<close> assigns to it.\<close>

definition holds :: "(nat \<Rightarrow> int \<Rightarrow> 'w) \<Rightarrow> nat \<Rightarrow> nat \<Rightarrow> int list \<Rightarrow> nat \<Rightarrow> 'w list list \<Rightarrow> bool" where
  "holds W m n p r w \<longleftrightarrow> rect m n w \<and> (\<forall>i < m. \<forall>x. x div n = r \<longrightarrow> w ! i ! (x mod n) = W i (p ! x))"

definition first_loc :: "int list \<Rightarrow> nat \<Rightarrow> nat \<Rightarrow> int \<Rightarrow> nat" where
  "first_loc p n r l = (LEAST x. x div n = r \<and> p ! x = l)"

definition pair_keys :: "int list \<Rightarrow> int list \<Rightarrow> nat \<Rightarrow> nat \<Rightarrow> nat \<Rightarrow> nat \<Rightarrow> int set" where
  "pair_keys old new n gpus s r =
     {l. r \<in> dst_ranks old new n l \<and> source_of (layer_update_of old new n gpus r) l = Inr s}"

lemma comm_iff:
  assumes ok: "placement_ok old new n gpus world" and x: "x div n = r" "r < world"
  shows "recv_case_of old new n gpus r x = Comm s \<longleftrightarrow>
     new ! x \<in> pair_keys old new n gpus s r \<and> (\<forall>y. y div n = r \<and> y < x \<longrightarrow> new ! y \<noteq> new ! x)"
proof -
  have n: "0 < n" and len: "length old = world * n" using ok by (simp_all add: placement_ok_def)
  have bound: "y < length old" if "y div n = r" for y using range_bound[OF n, of y world] that x(2) len by simp
  have "y div n = r \<longleftrightarrow> r * n \<le> y" if "y < x" for y
    using that x(1) n in_rank_range[OF n, of y r] in_rank_range[OF n, of x r] by (auto simp: rank_range_def)
  then have free: "List.find (\<lambda>y. new ! y = new ! x) [r * n ..< x] = None \<longleftrightarrow>
      (\<forall>y. y div n = r \<and> y < x \<longrightarrow> new ! y \<noteq> new ! x)"
    by (auto simp: find_None_iff)
  have gpu: "List.find (\<lambda>y. old ! y = new ! x) (rank_range n r) = None \<longleftrightarrow> r \<in> dst_ranks old new n (new ! x)"
  proof
    assume "r \<in> dst_ranks old new n (new ! x)"
    then have "r \<notin> src_ranks old n (new ! x)" by (simp add: dst_ranks_def)
    then have "y div n = r \<Longrightarrow> old ! y \<noteq> new ! x" for y using src_ranksI[OF bound, of y n] by metis
    then show "List.find (\<lambda>y. old ! y = new ! x) (rank_range n r) = None"
      using in_rank_range[OF n, of _ r] by (auto simp: find_None_iff)
  qed (rule find_None_dst[OF ok x])
  have "old ! x \<noteq> new ! x" if "r \<in> dst_ranks old new n (new ! x)"
    using that bound[OF x(1)] x(1) by (auto simp: dst_ranks_def src_ranks_def)
  then show ?thesis using free gpu
    by (auto simp: recv_case_of_def pair_keys_def split: option.splits sum.splits)
qed

lemma first_loc_props:
  assumes "x div n = r" "p ! x = l"
  shows "first_loc p n r l div n = r" "p ! first_loc p n r l = l" "y < first_loc p n r l \<Longrightarrow> y div n = r \<Longrightarrow> p ! y \<noteq> l"
  using LeastI[of "\<lambda>x. x div n = r \<and> p ! x = l" x] not_less_Least[of y "\<lambda>x. x div n = r \<and> p ! x = l"] assms
  by (auto simp: first_loc_def)

lemma first_loc_eq:
  assumes "x div n = r" "p ! x = l" "\<And>y. y div n = r \<Longrightarrow> y < x \<Longrightarrow> p ! y \<noteq> l"
  shows "first_loc p n r l = x"
  unfolding first_loc_def using assms by (intro Least_equality) (auto simp: not_less[symmetric])

definition batch_infos ::
  "int list \<Rightarrow> int list \<Rightarrow> nat \<Rightarrow> nat \<Rightarrow> nat \<Rightarrow> nat \<Rightarrow> 'w list list \<Rightarrow> (int \<times> 'w p2p_op list) list" where
  "batch_infos old new n gpus m r w =
     recv_infos new m (recv_case_of old new n gpus r) (rank_range n r) @
     send_infos old n m r w (targets_list old new n gpus r) ((r + 1) * n)"

lemma recvs_from_batch:
  fixes w :: "'w list list"
  assumes ok: "placement_ok old new n gpus world" and r: "r < world" and m: "0 < m"
  shows "recvs_from s (sorted_ops (batch_infos old new n gpus m r w)) =
     concat (map (\<lambda>l. map (\<lambda>i. (i, first_loc new n r l)) [0..<m]) (sorted_list_of_set (pair_keys old new n gpus s r)))"
proof -
  let ?rc = "recv_case_of old new n gpus r" and ?K = "pair_keys old new n gpus s r"
  let ?xs = "filter (\<lambda>x. ?rc x = Comm s) (rank_range n r)"
  let ?ops = "\<lambda>x. map (\<lambda>i. Irecv (the (comm_source (?rc x))) (i, x) :: 'w p2p_op) [0..<m]"
  let ?P = "\<lambda>x :: int \<times> 'w p2p_op list. recvs_from s (snd x) \<noteq> []"
  have n: "0 < n" using ok by (simp add: placement_ok_def)
  note range = in_rank_range[OF n, of _ r]
  have ops: "recvs_from s (?ops x) = (if comm_source (?rc x) = Some s then map (\<lambda>i. (i, x)) [0..<m] else [])"
    if "comm_source (?rc x) \<noteq> None" for x
    using that by (auto intro!: map_filter_map_Some map_filter_cong_None)
  have src: "comm_source c = Some s \<longleftrightarrow> c = Comm s" for c by (cases c) auto
  have sends: "filter ?P (send_infos old n m r w ts k) = []" for ts k
    by (auto simp: send_infos_def recvs_from_send_ops filter_empty_conv)
  have "comm_source (?rc x) \<noteq> None \<and> recvs_from s (?ops x) \<noteq> [] \<longleftrightarrow> ?rc x = Comm s" for x
    using m ops[of x] by (cases "comm_source (?rc x) = None") (auto simp flip: src)
  then have filt: "filter ?P (batch_infos old new n gpus m r w) = map (\<lambda>x. (new ! x, ?ops x)) ?xs"
    by (simp add: batch_infos_def recv_infos_def sends filter_map comp_def)
  have first: "first_loc new n r (new ! x) = x" "new ! x \<in> ?K" if "x \<in> set ?xs" for x
    using that comm_iff[OF ok _ r, of x s] range by (auto intro!: first_loc_eq)
  have keys: "fst ` set (filter ?P (batch_infos old new n gpus m r w)) = ?K"
  proof -
    have "\<exists>x \<in> set ?xs. new ! x = l" if l: "l \<in> ?K" for l
    proof -
      from l obtain x where "x div n = r" "new ! x = l" by (auto simp: pair_keys_def dst_ranks_def)
      note f = first_loc_props[OF this]
      have "?rc (first_loc new n r l) = Comm s" using comm_iff[OF ok f(1) r, of s] f l by auto
      then show ?thesis using f range by force
    qed
    then show ?thesis unfolding filt using first(2) by (force simp: image_iff)
  qed
  have dist: "distinct (map fst (filter ?P (batch_infos old new n gpus m r w)))"
    unfolding filt using first(1) by (auto simp: distinct_map rank_range_def comp_def intro!: inj_onI) metis
  have g: "recvs_from s v = map (\<lambda>i. (i, first_loc new n r k)) [0..<m]"
    if "(k, v) \<in> set (batch_infos old new n gpus m r w)" "recvs_from s v \<noteq> []" for k v
  proof -
    have "(k, v) \<in> set (filter ?P (batch_infos old new n gpus m r w))" using that by simp
    then obtain x where x: "x \<in> set ?xs" "k = new ! x" "v = ?ops x" unfolding filt by auto
    then have "comm_source (?rc x) = Some s" by simp
    then show ?thesis using ops[of x] x first(1)[OF x(1)] by simp
  qed
  show ?thesis unfolding sorted_ops_filter by (rule sorted_contributions[OF dist keys g])
qed

lemma sends_to_batch:
  fixes w :: "'w list list"
  assumes ok: "placement_ok old new n gpus world" and s: "s < world" and r: "r < world" and m: "0 < m"
    and w: "holds W m n old s w"
  shows "sends_to r (sorted_ops (batch_infos old new n gpus m s w)) =
     concat (map (\<lambda>l. map (\<lambda>i. W i l) [0..<m]) (sorted_list_of_set (pair_keys old new n gpus s r)))"
proof -
  let ?K = "pair_keys old new n gpus s r" and ?t = "targets_list old new n gpus s"
  let ?P = "\<lambda>x :: int \<times> 'w p2p_op list. sends_to r (snd x) \<noteq> []"
  let ?xs = "first_locations old n s ((s + 1) * n)"
  have n: "0 < n" and len: "length old = world * n" "length new = length old" using ok by (simp_all add: placement_ok_def)
  note range = in_rank_range[OF n, of _ s, unfolded rank_range_def]
  have bound: "x < length old" if "x div n = s" for x using range_bound[OF n, of x world] that s len by simp
  have xs: "x \<in> set ?xs \<longleftrightarrow> x div n = s \<and> (\<forall>y. y div n = s \<and> y < x \<longrightarrow> old ! y \<noteq> old ! x)" for x
  proof (cases "x div n = s")
    case True
    then have pre: "{s * n ..< x} = {y. y div n = s \<and> y < x}"
      using range[of x] by (auto simp: range[symmetric])
    show ?thesis unfolding first_locations_def set_filter mem_Collect_eq pre using True range[of x] by blast
  qed (use range[of x] in \<open>auto simp: first_locations_def\<close>)
  have t: "distinct (?t (old ! x))" "r \<in> set (?t (old ! x)) \<longleftrightarrow> old ! x \<in> ?K" if "x \<in> set ?xs" for x
    using targets_list[OF len(2), of s n "old ! x" gpus] src_ranksI[OF bound, of x n] that xs
    by (auto simp: pair_keys_def)
  have ops: "sends_to r (send_ops w m (x mod n) (?t (old ! x))) =
      (if old ! x \<in> ?K then map (\<lambda>i. W i (old ! x)) [0..<m] else [])" if "x \<in> set ?xs" for x
    using sends_to_send_ops[OF t(1)[OF that], of r w m] t(2)[OF that] that xs w by (auto simp: holds_def)
  have recvs: "filter ?P (recv_infos new m rc ys) = []" for rc ys
    by (auto simp: recv_infos_def filter_empty_conv intro!: map_filter_cong_None)
  have filt: "filter ?P (batch_infos old new n gpus m s w) =
      map (\<lambda>x. (old ! x, send_ops w m (x mod n) (?t (old ! x)))) (filter (\<lambda>x. old ! x \<in> ?K) ?xs)"
    using m ops by (auto simp: batch_infos_def send_infos_def recvs filter_map split: if_splits
        intro!: arg_cong[where f = "map _"] filter_cong)
  have dist: "distinct (map fst (filter ?P (batch_infos old new n gpus m s w)))"
  proof -
    have "inj_on (\<lambda>x. old ! x) (set ?xs)"
    proof (rule inj_onI)
      fix x y assume "x \<in> set ?xs" "y \<in> set ?xs" "old ! x = old ! y"
      then show "x = y" using xs[of x] xs[of y] by (cases x y rule: linorder_cases) auto
    qed
    then have "inj_on (\<lambda>x. old ! x) {x \<in> set ?xs. old ! x \<in> ?K}" by (rule inj_on_subset) auto
    moreover have "distinct ?xs" by (simp add: first_locations_def)
    ultimately show ?thesis unfolding filt by (simp add: distinct_map comp_def)
  qed
  have keys: "fst ` set (filter ?P (batch_infos old new n gpus m s w)) = ?K"
  proof -
    have "\<exists>x \<in> set ?xs. old ! x = l" if l: "l \<in> ?K" for l
    proof -
      from l have "r \<in> dst_ranks old new n l" "source_of (layer_update_of old new n gpus r) l = Inr s"
        by (simp_all add: pair_keys_def)
      moreover from this(1) have "l \<in> set old" using ok len by (auto simp: dst_ranks_def placement_ok_def)
      ultimately have "s \<in> src_ranks old n l" using source_of_Inr[OF len(2), of l r n gpus] by auto
      then obtain x where "x div n = s" "old ! x = l" by (auto simp: src_ranks_def)
      note f = first_loc_props[OF this]
      then show ?thesis using xs[of "first_loc old n s l"] by auto
    qed
    then show ?thesis unfolding filt by (force simp: image_iff)
  qed
  have g: "sends_to r v = map (\<lambda>i. W i k) [0..<m]"
    if "(k, v) \<in> set (batch_infos old new n gpus m s w)" "sends_to r v \<noteq> []" for k v
  proof -
    have "(k, v) \<in> set (filter ?P (batch_infos old new n gpus m s w))" using that by simp
    then obtain x where "x \<in> set ?xs" "old ! x \<in> ?K" "k = old ! x" "v = send_ops w m (x mod n) (?t (old ! x))"
      unfolding filt by auto
    then show ?thesis using ops by simp
  qed
  show ?thesis unfolding sorted_ops_filter by (rule sorted_contributions[OF dist keys g])
qed

lemma zip_concat:
  assumes "\<And>x. x \<in> set xs \<Longrightarrow> length (f x) = length (g x)"
  shows "zip (concat (map f xs)) (concat (map g xs)) = concat (map (\<lambda>x. zip (f x) (g x)) xs)"
  using assms by (induction xs) auto

lemma zip_map_same: "zip (map f xs) (map g xs) = map (\<lambda>x. (f x, g x)) xs"
  by (induction xs) auto

lemma length_concat_cong:
  assumes "\<And>x. x \<in> set xs \<Longrightarrow> length (f x) = length (g x)"
  shows "length (concat (map f xs)) = length (concat (map g xs))"
  using assms by (induction xs) auto

text \<open>What rank \<open>r\<close> receives: the weights of the experts it fetches, each into its slot.\<close>

definition received_ok ::
  "(nat \<Rightarrow> int \<Rightarrow> 'w) \<Rightarrow> int list \<Rightarrow> int list \<Rightarrow> nat \<Rightarrow> nat \<Rightarrow> nat \<Rightarrow> nat \<Rightarrow> nat \<Rightarrow> ((nat \<times> nat) \<times> 'w) list \<Rightarrow> bool" where
  "received_ok W old new n gpus world m r received \<longleftrightarrow>
     set received = {((i, x), W i (new ! x)) | i x. i < m \<and> x div n = r \<and>
        (\<exists>s < world. recv_case_of old new n gpus r x = Comm s)}"

lemma finite_pair_keys: "finite (pair_keys old new n gpus s r)"
proof -
  have "pair_keys old new n gpus s r \<subseteq> (\<lambda>x. new ! x) ` {..<length old}"
    by (auto simp: pair_keys_def dst_ranks_def)
  then show ?thesis by (rule finite_subset) simp
qed

lemma exchange_received:
  assumes ok: "placement_ok old new n gpus world" and m: "0 < m" and ex: "p2p_spec exchange"
    and w: "length ws = world" "\<And>r. r < world \<Longrightarrow> holds W m n old r (ws ! r)"
  shows "\<exists>received. exchange (map (\<lambda>r. sorted_ops (batch_infos old new n gpus m r (ws ! r))) [0..<world]) = Some received
     \<and> length received = world \<and> (\<forall>r < world. received_ok W old new n gpus world m r (received ! r))"
proof -
  let ?b = "\<lambda>r. sorted_ops (batch_infos old new n gpus m r (ws ! r))"
  let ?bs = "map ?b [0..<world]"
  let ?K = "\<lambda>s r. sorted_list_of_set (pair_keys old new n gpus s r)"
  note parts = recvs_from_batch[OF ok _ m] sends_to_batch[OF ok _ _ m w(2)]
  have matched: "matched ?bs"
    unfolding matched_def by (auto simp: parts intro!: length_concat_cong)
  from ex[unfolded p2p_spec_def, rule_format, OF matched]
  obtain received where rec: "exchange ?bs = Some received" "length received = length ?bs"
    and set': "\<forall>r < length ?bs. set (received ! r) =
        (\<Union>s < length ?bs. set (zip (recvs_from s (?bs ! r)) (sends_to r (?bs ! s))))"
    by blast
  have set: "set (received ! r) = (\<Union>s < world. set (zip (recvs_from s (?b r)) (sends_to r (?b s))))"
    if "r < world" for r
    using set' that by simp
  have "received_ok W old new n gpus world m r (received ! r)" if r: "r < world" for r
  proof -
    have n: "0 < n" using ok by (simp add: placement_ok_def)
    have "set (zip (recvs_from s (?b r)) (sends_to r (?b s))) =
        {((i, first_loc new n r l), W i l) | i l. i < m \<and> l \<in> pair_keys old new n gpus s r}" if s: "s < world" for s
    proof -
      have "zip (recvs_from s (?b r)) (sends_to r (?b s)) =
          concat (map (\<lambda>l. map (\<lambda>i. ((i, first_loc new n r l), W i l)) [0..<m]) (?K s r))"
        unfolding parts(1)[OF r] parts(2)[OF s r s] by (simp add: zip_concat zip_map_same)
      then show ?thesis using finite_pair_keys[of old new n gpus s r] by auto
    qed
    then have "(\<Union>s < world. set (zip (recvs_from s (?b r)) (sends_to r (?b s)))) =
        (\<Union>s < world. {((i, first_loc new n r l), W i l) | i l. i < m \<and> l \<in> pair_keys old new n gpus s r})"
      by (intro SUP_cong) auto
    then have "set (received ! r) =
        {((i, first_loc new n r l), W i l) | i l s. i < m \<and> s < world \<and> l \<in> pair_keys old new n gpus s r}"
      unfolding set[OF r] by (simp only:) blast
    also have "\<dots> = {((i, x), W i (new ! x)) | i x. i < m \<and> x div n = r \<and>
        (\<exists>s < world. recv_case_of old new n gpus r x = Comm s)}" (is "?A = ?B")
    proof
      show "?A \<subseteq> ?B"
      proof clarify
        fix i l s assume l: "i < m" "s < world" "l \<in> pair_keys old new n gpus s r"
        then obtain x where "x div n = r" "new ! x = l" by (auto simp: pair_keys_def dst_ranks_def)
        note f = first_loc_props[OF this]
        have "recv_case_of old new n gpus r (first_loc new n r l) = Comm s"
          using comm_iff[OF ok f(1) r, of s] f l(3) by auto
        then show "\<exists>i' x. ((i, first_loc new n r l), W i l) = ((i', x), W i' (new ! x)) \<and> i' < m \<and> x div n = r \<and>
            (\<exists>s < world. recv_case_of old new n gpus r x = Comm s)" using f l by auto
      qed
      show "?B \<subseteq> ?A"
      proof clarify
        fix i x s assume x: "i < m" "r = x div n" "s < world" "recv_case_of old new n gpus (x div n) x = Comm s"
        then have "new ! x \<in> pair_keys old new n gpus s r" "first_loc new n r (new ! x) = x"
          using comm_iff[OF ok _ r, of x s] by (auto intro!: first_loc_eq)
        then show "\<exists>i' l s. ((i, x), W i (new ! x)) = ((i', first_loc new n (x div n) l), W i' l) \<and> i' < m \<and> s < world \<and>
            l \<in> pair_keys old new n gpus s (x div n)" using x by metis
      qed
    qed
    finally show ?thesis by (simp add: received_ok_def)
  qed
  then show ?thesis using rec by simp
qed

section \<open>The end state of a rank\<close>

lemma set_tensors_Inr:
  assumes n: "0 < n" and F: "\<forall>((i, x), v) \<in> set upds. i < m \<and> x div n = r \<and> v = F i x" and t: "rect m n t"
  shows "\<exists>t'. fold_res (\<lambda>((i, x), v). set_tensor (layer_update_of old new n gpus r) i x v) upds t = Inr t' \<and> rect m n t' \<and>
     (\<forall>i < m. \<forall>x. x div n = r \<longrightarrow> t' ! i ! (x mod n) =
        (if (i, x) \<in> fst ` set upds then F i x else t ! i ! (x mod n)))"
  using F t
proof (induction upds arbitrary: t)
  case (Cons upd upds)
  obtain i x v where u: "upd = ((i, x), v)" by (metis surj_pair)
  with Cons.prems have ix: "i < m" "x div n = r" "v = F i x" by auto
  let ?t = "t[i := (t ! i)[x mod n := v]]"
  have t: "rect m n ?t" using Cons.prems(2) by (rule rect_set)
  have upd: "?t ! j ! (y mod n) = (if (j, y) = (i, x) then v else t ! j ! (y mod n))" if "j < m" "y div n = r" for j y
  proof -
    have "y mod n = x mod n \<longleftrightarrow> y = x" using that(2) ix(2) by (metis div_mult_mod_eq)
    then show ?thesis using that(1) ix(1) n rect_length[OF Cons.prems(2)] rect_row[OF Cons.prems(2) ix(1)]
      by (auto simp: nth_list_update)
  qed
  from Cons.IH[OF _ t] Cons.prems(1) obtain t' where
    t': "fold_res (\<lambda>((i, x), v). set_tensor (layer_update_of old new n gpus r) i x v) upds ?t = Inr t'" "rect m n t'"
      "\<forall>i < m. \<forall>x. x div n = r \<longrightarrow> t' ! i ! (x mod n) =
        (if (i, x) \<in> fst ` set upds then F i x else ?t ! i ! (x mod n))"
    by auto
  then show ?case using set_tensor_Inr[OF n ix(2) Cons.prems(2) ix(1), of old new gpus v] upd ix u
    by (intro exI[of _ t']) (auto simp: rev_image_eqI)
qed auto

lemma copies_Inr:
  assumes n: "0 < n" and b: "\<forall>x \<in> set xs. x div n = r \<and> b x div n = r" and t: "rect m n temp" and w: "rect m n w"
  shows "\<exists>w'. execute_buffer2weight_copies (layer_update_of old new n gpus r) m (map (\<lambda>x. (b x, x)) xs) temp w = Inr w' \<and>
     rect m n w' \<and> (\<forall>i < m. \<forall>x. x div n = r \<longrightarrow> w' ! i ! (x mod n) =
        (if x \<in> set xs then temp ! i ! (b x mod n) else w ! i ! (x mod n)))"
  using b w
proof (induction xs arbitrary: w)
  case (Cons y ys)
  let ?w = "copy_column (b y mod n) (y mod n) temp w"
  have y: "y div n = r" "b y div n = r" using Cons.prems(1) by auto
  have w: "rect m n ?w" using Cons.prems(2) by (rule rect_copy_column)
  have col: "?w ! i ! (x mod n) = (if x = y then temp ! i ! (b y mod n) else w ! i ! (x mod n))"
    if "i < m" "x div n = r" for i x
  proof -
    have "x mod n = y mod n \<longleftrightarrow> x = y" using that(2) y(1) by (metis div_mult_mod_eq)
    then show ?thesis using that n by (simp add: copy_column_nth[OF Cons.prems(2)])
  qed
  from Cons.IH[OF _ w] Cons.prems(1) obtain w' where
    "execute_buffer2weight_copies (layer_update_of old new n gpus r) m (map (\<lambda>x. (b x, x)) ys) temp ?w = Inr w'"
    "rect m n w'" "\<forall>i < m. \<forall>x. x div n = r \<longrightarrow> w' ! i ! (x mod n) =
        (if x \<in> set ys then temp ! i ! (b x mod n) else ?w ! i ! (x mod n))" by auto
  then show ?case using copy_expert_Inr[OF n y(2,1) t Cons.prems(2)] col
    by (auto simp: execute_buffer2weight_copies_def)
qed (simp add: execute_buffer2weight_copies_def)

lemma recv_case_cases:
  assumes ok: "placement_ok old new n gpus world" and x: "x div n = r" "r < world"
  shows "(recv_case_of old new n gpus r x = Unchanged \<and> old ! x = new ! x) \<or>
     (\<exists>y. recv_case_of old new n gpus r x = SameGpu y \<and> y div n = r \<and> old ! y = new ! x) \<or>
     (\<exists>y s. recv_case_of old new n gpus r x = FreeRider y \<and> y div n = r \<and> new ! y = new ! x \<and>
        s < world \<and> recv_case_of old new n gpus r y = Comm s) \<or>
     (\<exists>s < world. recv_case_of old new n gpus r x = Comm s)"
proof -
  have n: "0 < n" and len: "length old = world * n" "length new = length old" using ok by (simp_all add: placement_ok_def)
  note range = in_rank_range[OF n, of _ r]
  consider (same) "old ! x = new ! x" | (gpu) y where "old ! x \<noteq> new ! x" "List.find (\<lambda>y. old ! y = new ! x) (rank_range n r) = Some y"
    | (none) "old ! x \<noteq> new ! x" "List.find (\<lambda>y. old ! y = new ! x) (rank_range n r) = None" by fastforce
  then show ?thesis
  proof cases
    case same
    then show ?thesis by (simp add: recv_case_of_def)
  next
    case gpu
    then have "y \<in> set (rank_range n r)" "old ! y = new ! x" by (auto simp: find_Some_iff)
    moreover have "recv_case_of old new n gpus r x = SameGpu y" using gpu by (simp add: recv_case_of_def)
    ultimately show ?thesis using range by blast
  next
    case none
    note False = none
    then have d: "r \<in> dst_ranks old new n (new ! x)" using find_None_dst[OF ok x] by blast
    have "x < length old" using range_bound[OF n, of x world] x len by simp
    then have "new ! x \<in> set old" using ok len by (auto simp: placement_ok_def)
    from source_of_Inr[OF len(2) this d] obtain s where s: "s \<in> src_ranks old n (new ! x)"
      "source_of (layer_update_of old new n gpus r) (new ! x) = Inr s" by blast
    then have w: "s < world" using n len by (auto simp: src_ranks_def div_less_iff_less_mult)
    have key: "new ! x \<in> pair_keys old new n gpus s r" using d s(2) by (simp add: pair_keys_def)
    show ?thesis
    proof (cases "List.find (\<lambda>y. new ! y = new ! x) [r * n ..< x]")
      case None
      then show ?thesis using False s(2) w by (auto simp: recv_case_of_def)
    next
      case (Some y)
      then obtain j where j: "j < x - r * n" "y = r * n + j" "new ! y = new ! x" "\<forall>i < j. new ! (r * n + i) \<noteq> new ! x"
        by (auto simp: find_Some_iff)
      have "x < n + r * n" using range[of x] x(1) by (simp add: rank_range_def)
      then have "j < n" using j(1) by linarith
      then have y: "y div n = r" using j(2) n by simp
      have "new ! z \<noteq> new ! y" if "z div n = r" "z < y" for z
      proof -
        have "r * n \<le> z" using range[of z] that(1) by (simp add: rank_range_def)
        then have "z - r * n < j" "z = r * n + (z - r * n)" using that(2) j(2) by simp_all
        then show ?thesis using j(3,4) by metis
      qed
      then have "recv_case_of old new n gpus r y = Comm s" using comm_iff[OF ok y x(2), of s] key j(3) by auto
      then show ?thesis using False Some y j(3) w by (auto simp: recv_case_of_def)
    qed
  qed
qed

lemma finish_rank_holds:
  fixes w :: "'w list list"
  assumes ok: "placement_ok old new n gpus world" and r: "r < world"
    and w: "holds W m n old r w" and t: "rect m n temp" and rec: "received_ok W old new n gpus world m r received"
  defines "s \<equiv> fold (recv_step new n w (recv_case_of old new n gpus r)) (rank_range n r)
      \<lparr>temp_buffers = temp, buffer2weight_copy_infos = [], p2p_op_infos = []\<rparr>"
  shows "\<exists>w' temp'. finish_rank (layer_update_of old new n gpus r) w (s\<lparr>p2p_op_infos := infos\<rparr>) received = Inr (w', temp') \<and>
     holds W m n new r w' \<and> rect m n temp'"
proof -
  let ?u = "layer_update_of old new n gpus r" and ?rc = "recv_case_of old new n gpus r"
  let ?xs = "filter (\<lambda>x. ?rc x \<noteq> Unchanged) (rank_range n r)"
  have n: "0 < n" using ok by (simp add: placement_ok_def)
  have rw: "rect m n w" and len: "length w = m" using w rect_length by (auto simp: holds_def)
  note range = in_rank_range[OF n, of _ r]
  note cases = recv_case_cases[OF ok _ r]
  have ts: "rect m n (temp_buffers s)" unfolding s_def using t by (intro recv_fold_rect) simp
  have F: "\<forall>((i, x), v) \<in> set received. i < m \<and> x div n = r \<and> v = W i (new ! x)"
    using rec by (auto simp: received_ok_def)
  obtain t' where t': "fold_res (\<lambda>((i, x), v). set_tensor ?u i x v) received (temp_buffers s) = Inr t'" "rect m n t'"
    "\<And>i x. i < m \<Longrightarrow> x div n = r \<Longrightarrow> t' ! i ! (x mod n) =
       (if (i, x) \<in> fst ` set received then W i (new ! x) else temp_buffers s ! i ! (x mod n))"
    using set_tensors_Inr[OF n F ts, of old new gpus] by blast
  have slot: "(i, x) \<in> fst ` set received \<longleftrightarrow> i < m \<and> x div n = r \<and> (\<exists>s < world. ?rc x = Comm s)" for i x
    using rec unfolding received_ok_def by (force simp: image_iff)
  have temp: "temp_buffers s ! i ! (x mod n) = w ! i ! (y mod n)" if "i < m" "x div n = r" "?rc x = SameGpu y" for i x y
    using that n range t unfolding s_def by (subst recv_fold_temp[where m = m and r = r]) auto
  have b: "\<forall>x \<in> set ?xs. x div n = r \<and> buffer_of ?rc x div n = r"
    using range cases by (fastforce simp: buffer_of_def)
  obtain w' where w': "execute_buffer2weight_copies ?u m (map (\<lambda>x. (buffer_of ?rc x, x)) ?xs) t' w = Inr w'" "rect m n w'"
    "\<And>i x. i < m \<Longrightarrow> x div n = r \<Longrightarrow> w' ! i ! (x mod n) =
       (if x \<in> set ?xs then t' ! i ! (buffer_of ?rc x mod n) else w ! i ! (x mod n))"
    using copies_Inr[OF n b t'(2) rw, of old new gpus] by blast
  have "w' ! i ! (x mod n) = W i (new ! x)" if i: "i < m" and x: "x div n = r" for i x
  proof -
    have old: "w ! i ! (y mod n) = W i (old ! y)" if "y div n = r" for y using w i that by (simp add: holds_def)
    have comm: "t' ! i ! (y mod n) = W i (new ! y)" if "y div n = r" "\<exists>s < world. ?rc y = Comm s" for y
      using t'(3)[OF i that(1)] slot that i by simp
    from cases[OF x] show ?thesis
    proof (elim disjE conjE exE)
      assume "?rc x = Unchanged" "old ! x = new ! x"
      then show ?thesis using w'(3)[OF i x] old[OF x] by simp
    next
      fix y assume y: "?rc x = SameGpu y" "y div n = r" "old ! y = new ! x"
      then show ?thesis using w'(3)[OF i x] t'(3)[OF i x] slot temp[OF i x y(1)] old[OF y(2)] range x
        by (simp add: buffer_of_def)
    next
      fix y s assume y: "?rc x = FreeRider y" "y div n = r" "new ! y = new ! x" "s < world" "?rc y = Comm s"
      then show ?thesis using w'(3)[OF i x] comm[OF y(2)] range x by (auto simp: buffer_of_def)
    next
      fix s assume "s < world" "?rc x = Comm s"
      then show ?thesis using w'(3)[OF i x] comm[OF x] range x by (auto simp: buffer_of_def)
    qed
  qed
  moreover have "buffer2weight_copy_infos s = map (\<lambda>x. (buffer_of ?rc x, x)) ?xs"
    unfolding s_def using recv_fold(1)[OF len] by simp
  ultimately show ?thesis using t' w' len by (auto simp: finish_rank_def holds_def)
qed

section \<open>One layer\<close>

lemma plan_rank_Inr:
  assumes ok: "placement_ok old new n gpus world" and r: "r < world"
    and w: "rect m n w" and t: "rect m n temp"
  shows "plan_rank (layer_update_of old new n gpus r) w temp =
     Inr ((fold (recv_step new n w (recv_case_of old new n gpus r)) (rank_range n r)
        \<lparr>temp_buffers = temp, buffer2weight_copy_infos = [], p2p_op_infos = []\<rparr>)
        \<lparr>p2p_op_infos := batch_infos old new n gpus m r w\<rparr>)"
proof -
  have "list_all (\<lambda>t. length t = n) w" "length w = m" using w by (auto simp: rect_def)
  then show ?thesis using ok handle_recv_Inr[OF ok r w] create_isend_ops_Inr[OF ok r w] t
    by (simp add: plan_rank_def placement_ok_def recv_fold(2)[of w m] batch_infos_def)
qed

lemma update_layer_correct:
  assumes ok: "placement_ok old new n gpus world" and m: "0 < m" and ex: "p2p_spec exchange"
    and len: "length tensors = world"
    and w: "\<And>r. r < world \<Longrightarrow> holds W m n old r (fst (tensors ! r))"
    and t: "\<And>r. r < world \<Longrightarrow> rect m n (snd (tensors ! r))"
  shows "\<exists>tensors'. update_expert_weights_single_layer exchange old new n gpus tensors = Inr tensors' \<and>
     length tensors' = world \<and>
     (\<forall>r < world. holds W m n new r (fst (tensors' ! r)) \<and> rect m n (snd (tensors' ! r)))"
proof -
  let ?u = "layer_update_of old new n gpus"
  let ?st = "\<lambda>r. (fold (recv_step new n (fst (tensors ! r)) (recv_case_of old new n gpus r)) (rank_range n r)
        \<lparr>temp_buffers = snd (tensors ! r), buffer2weight_copy_infos = [], p2p_op_infos = []\<rparr>)
        \<lparr>p2p_op_infos := batch_infos old new n gpus m r (fst (tensors ! r))\<rparr>"
  let ?us = "map ?u [0..<world]"
  have rw: "rect m n (fst (tensors ! r))" if "r < world" for r using w[OF that] by (simp add: holds_def)
  have zip1: "zip ?us tensors = map (\<lambda>r. (?u r, tensors ! r)) [0..<world]"
    using len by (intro nth_equalityI) auto
  have plan: "map_res (\<lambda>(u, weights, temp). plan_rank u weights temp) (zip ?us tensors) = Inr (map ?st [0..<world])"
    unfolding zip1 using plan_rank_Inr[OF ok _ rw t]
    by (subst map_res_Inr[where g = "\<lambda>(u, _). ?st (lu_rank u)"]) (auto simp: split_def)
  have "map (\<lambda>r. sorted_ops (batch_infos old new n gpus m r (map fst tensors ! r))) [0..<world] =
      map (sorted_ops \<circ> p2p_op_infos) (map ?st [0..<world])"
    using len by auto
  with exchange_received[OF ok m ex, of "map fst tensors" W] w len obtain received where
    rec: "exchange (map (sorted_ops \<circ> p2p_op_infos) (map ?st [0..<world])) = Some received" "length received = world"
      "\<And>r. r < world \<Longrightarrow> received_ok W old new n gpus world m r (received ! r)"
    by auto
  let ?fin = "\<lambda>(u, (weights, temp), s, r). finish_rank u weights s r"
  have zip2: "zip ?us (zip tensors (zip (map ?st [0..<world]) received)) =
      map (\<lambda>r. (?u r, tensors ! r, ?st r, received ! r)) [0..<world]"
    using len rec(2) by (intro nth_equalityI) auto
  have "\<exists>y. ?fin (?u r, tensors ! r, ?st r, received ! r) = Inr y \<and> holds W m n new r (fst y) \<and> rect m n (snd y)"
    if "r < world" for r
    using finish_rank_holds[OF ok that w[OF that] t[OF that] rec(3)[OF that]] by (auto simp: split_def)
  then have "\<exists>ys. map_res (\<lambda>r. ?fin (?u r, tensors ! r, ?st r, received ! r)) [0..<world] = Inr ys \<and>
      list_all2 (\<lambda>r y. holds W m n new r (fst y) \<and> rect m n (snd y)) [0..<world] ys"
    by (intro map_res_total) simp
  then obtain ys where ys: "map_res (\<lambda>r. ?fin (?u r, tensors ! r, ?st r, received ! r)) [0..<world] = Inr ys"
    "list_all2 (\<lambda>r y. holds W m n new r (fst y) \<and> rect m n (snd y)) [0..<world] ys" by blast
  have mm: "map_res f (map g xs) = map_res (\<lambda>x. f (g x)) xs" for f :: "_ \<Rightarrow> ('w list list \<times> 'w list list) result" and g :: "nat \<Rightarrow> _" and xs
    by (induction xs) auto
  show ?thesis
    unfolding update_expert_weights_single_layer_def Let_def len plan bind_res.simps rec(1) option.case zip2 mm
    using ys by (intro exI[of _ ys]) (auto simp: list_all2_conv_all_nth)
qed

section \<open>The layer loop\<close>

text \<open>
  Every layer \<open>l\<close> has \<open>M l\<close> tensors on each of the ranks, which hold the weights \<open>W l i e\<close> of the experts
  that the placement \<open>p l\<close> assigns to them.
\<close>

definition weights_hold ::
  "(int \<Rightarrow> nat \<Rightarrow> int \<Rightarrow> 'w) \<Rightarrow> (int \<Rightarrow> nat) \<Rightarrow> nat \<Rightarrow> nat \<Rightarrow> (int \<Rightarrow> int list) \<Rightarrow> 'w layer_weights_of_ranks \<Rightarrow> bool" where
  "weights_hold W M n world p weights \<longleftrightarrow>
     dict_ok weights \<and>
     (\<forall>(l, ws) \<in> set weights. length ws = world \<and> (\<forall>r < world. holds (W l) (M l) n (p l) r (ws ! r)))"

lemma weights_hold_get:
  assumes "weights_hold W M n world p weights" "l \<in> fst ` set weights"
  shows "\<exists>ws. map_of weights l = Some ws \<and> length ws = world \<and> (\<forall>r < world. holds (W l) (M l) n (p l) r (ws ! r))"
proof -
  from assms(2) obtain ws where "map_of weights l = Some ws" by (metis map_of_eq_None_iff not_None_eq)
  moreover from map_of_SomeD[OF this] have "length ws = world \<and> (\<forall>r < world. holds (W l) (M l) n (p l) r (ws ! r))"
    using assms(1) by (auto simp: weights_hold_def)
  ultimately show ?thesis by blast
qed

lemma set_dict_update:
  assumes "dict_ok d"
  shows "set (AList.update k v d) = insert (k, v) {x \<in> set d. fst x \<noteq> k}"
proof -
  have "x \<in> set (AList.update k v d) \<longleftrightarrow> map_of (AList.update k v d) (fst x) = Some (snd x)" for x
    using assms by (cases x) (simp add: dict_ok_def distinct_update)
  moreover have "x \<in> set d \<longleftrightarrow> map_of d (fst x) = Some (snd x)" for x
    using assms by (cases x) (simp add: dict_ok_def)
  ultimately show ?thesis by (auto simp: update_conv' split: if_splits)
qed

lemma weights_hold_update:
  assumes "weights_hold W M n world p weights" "length ws = world"
    and "\<And>r. r < world \<Longrightarrow> holds (W l) (M' l) n (p' l) r (ws ! r)"
    and "\<And>k. k \<noteq> l \<Longrightarrow> p' k = p k \<and> M' k = M k"
  shows "weights_hold W M' n world p' (AList.update l ws weights)"
  using assms by (auto simp: weights_hold_def set_dict_update)

definition layer_fits :: "ExpertLocationMetadata \<Rightarrow> ExpertLocationMetadata \<Rightarrow> nat \<Rightarrow> nat \<Rightarrow> nat \<Rightarrow> int \<Rightarrow> bool" where
  "layer_fits old new n gpus world l \<longleftrightarrow>
     0 \<le> l \<and> l < int (length (physical_to_logical_map_cpu old)) \<and> l < int (length (physical_to_logical_map_cpu new)) \<and>
     placement_ok (physical_to_logical_map_cpu old ! nat l) (physical_to_logical_map_cpu new ! nat l) n gpus world"

lemma layer_step_Inr:
  assumes ex: "p2p_spec exchange" and m: "0 < m" "M l = m" and fits: "layer_fits old new n gpus world l"
    and w: "weights_hold W M n world p weights" "l \<in> fst ` set weights" and p: "p l = physical_to_logical_map_cpu old ! nat l"
    and t: "length temps = world" "\<And>r. r < world \<Longrightarrow> rect m n (temps ! r)"
  shows "\<exists>weights' temps'. layer_step exchange n gpus old new l (weights, temps) = Inr (weights', temps') \<and>
     weights_hold W M n world (p(l := physical_to_logical_map_cpu new ! nat l)) weights' \<and>
     fst ` set weights' = fst ` set weights \<and> length temps' = world \<and> (\<forall>r < world. rect m n (temps' ! r))"
proof -
  let ?o = "physical_to_logical_map_cpu old ! nat l" and ?n = "physical_to_logical_map_cpu new ! nat l"
  obtain ws where ws: "map_of weights l = Some ws" "length ws = world" "\<And>r. r < world \<Longrightarrow> holds (W l) m n ?o r (ws ! r)"
    using weights_hold_get[OF w] p m by auto
  have nth: "py_nth (physical_to_logical_map_cpu old) l = Inr ?o" "py_nth (physical_to_logical_map_cpu new) l = Inr ?n"
    using fits by (simp_all add: layer_fits_def py_nth_def)
  obtain ts where ts: "update_expert_weights_single_layer exchange ?o ?n n gpus (zip ws temps) = Inr ts" "length ts = world"
    "\<And>r. r < world \<Longrightarrow> holds (W l) m n ?n r (fst (ts ! r)) \<and> rect m n (snd (ts ! r))"
    using update_layer_correct[of ?o ?n n gpus world m exchange "zip ws temps" "W l"] fits m ex ws t
    by (auto simp: layer_fits_def)
  have "weights_hold W M n world (p(l := ?n)) (AList.update l (map fst ts) weights)"
    using ts m by (intro weights_hold_update[OF w(1)]) auto
  then show ?thesis using ws(1) nth ts w(2) t
    by (auto simp: layer_step_def keys_update insert_absorb)
qed

lemma layer_loop_Inr:
  assumes ex: "p2p_spec exchange" and m: "0 < m" "\<And>l. l \<in> set ids \<Longrightarrow> M l = m"
    and fits: "\<And>l. l \<in> set ids \<Longrightarrow> layer_fits old new n gpus world l"
    and w: "weights_hold W M n world p weights" "set ids \<subseteq> fst ` set weights"
    and p: "\<And>l. l \<in> set ids \<Longrightarrow> p l = physical_to_logical_map_cpu old ! nat l" and d: "distinct ids"
    and t: "length temps = world" "\<And>r. r < world \<Longrightarrow> rect m n (temps ! r)"
  shows "\<exists>weights' temps'. fold_res (layer_step exchange n gpus old new) ids (weights, temps) = Inr (weights', temps') \<and>
     weights_hold W M n world (\<lambda>l. if l \<in> set ids then physical_to_logical_map_cpu new ! nat l else p l) weights' \<and>
     fst ` set weights' = fst ` set weights"
  using m(2) fits w p d t
proof (induction ids arbitrary: weights temps p)
  case (Cons l ids)
  have "l \<in> set (l # ids)" "l \<in> fst ` set weights" using Cons.prems(4) by auto
  from layer_step_Inr[OF ex m(1) Cons.prems(1)[OF this(1)] Cons.prems(2)[OF this(1)] Cons.prems(3) this(2)
      Cons.prems(5)[OF this(1)] Cons.prems(7,8)]
  obtain w1 t1 where s: "layer_step exchange n gpus old new l (weights, temps) = Inr (w1, t1)"
    "weights_hold W M n world (p(l := physical_to_logical_map_cpu new ! nat l)) w1"
    "fst ` set w1 = fst ` set weights" "length t1 = world" "\<forall>r < world. rect m n (t1 ! r)" by blast
  have "\<exists>weights' temps'. fold_res (layer_step exchange n gpus old new) ids (w1, t1) = Inr (weights', temps') \<and>
     weights_hold W M n world (\<lambda>k. if k \<in> set ids then physical_to_logical_map_cpu new ! nat k
        else (p(l := physical_to_logical_map_cpu new ! nat l)) k) weights' \<and> fst ` set weights' = fst ` set w1"
    by (rule Cons.IH[OF _ _ s(2) _ _ _ s(4)]) (use Cons.prems s in auto)
  moreover have "(\<lambda>k. if k \<in> set ids then physical_to_logical_map_cpu new ! nat k
        else (p(l := physical_to_logical_map_cpu new ! nat l)) k) =
      (\<lambda>k. if k \<in> set (l # ids) then physical_to_logical_map_cpu new ! nat k else p k)" by auto
  ultimately show ?case using s(1,3) by simp
qed auto

lemma update_raw_Inr:
  assumes ex: "p2p_spec exchange" and m: "0 < m" "\<And>l. l \<in> set ids \<Longrightarrow> M l = m"
    and fits: "\<And>l. l \<in> set ids \<Longrightarrow> layer_fits old new n (world div num_nodes) world l"
    and w: "weights_hold W M n world p weights" "set ids \<subseteq> fst ` set weights"
    and p: "\<And>l. l \<in> set ids \<Longrightarrow> p l = physical_to_logical_map_cpu old ! nat l" and d: "distinct ids" "ids \<noteq> []"
    and empty: "\<And>t. length (empty_like t) = length t"
    and local: "num_local_physical_experts (int world) old = Inr (int n)" and nodes: "0 < num_nodes"
  shows "\<exists>weights'. update_expert_weights_raw exchange empty_like world num_nodes old new ids weights = Inr weights' \<and>
     weights_hold W M n world (\<lambda>l. if l \<in> set ids then physical_to_logical_map_cpu new ! nat l else p l) weights' \<and>
     fst ` set weights' = fst ` set weights"
proof -
  obtain l rest where ids: "ids = l # rest" using d(2) by (cases ids) auto
  obtain ws where ws: "map_of weights l = Some ws" "length ws = world" "\<forall>r < world. holds (W l) m n (p l) r (ws ! r)"
    using weights_hold_get[OF w(1), of l] w(2) m(2)[of l] ids by auto
  have "rect m n (map (map empty_like) ws ! r)" if "r < world" for r
    using ws that empty by (auto simp: holds_def rect_def list_all_length)
  from layer_loop_Inr[OF ex m fits w p d(1), of "map (map empty_like) ws"] this ws(2)
  show ?thesis using ws(1) local nodes ids by (auto simp: update_expert_weights_raw_def)
qed

section \<open>The canary\<close>

text \<open>The contents with the canary as one more tensor.\<close>

definition canary_content :: "nat \<Rightarrow> (int \<Rightarrow> nat \<Rightarrow> int \<Rightarrow> 'w) \<Rightarrow> int \<Rightarrow> nat \<Rightarrow> int \<Rightarrow> 'w cell" where
  "canary_content m W l i e = (if i < m then Weight (W l i e) else CanaryId e)"

lemma holds_at:
  assumes "holds W m n p r w" "i < m" "j < n"
  shows "w ! i ! j = W i (p ! (r * n + j))"
proof -
  have "(r * n + j) div n = r" "(r * n + j) mod n = j" using assms(3) by simp_all
  then show ?thesis using assms(1,2) unfolding holds_def by metis
qed

lemma holds_Weight: "holds (W l) m n p r w \<Longrightarrow> 0 < n \<Longrightarrow> holds (canary_content m W l) m n p r (map (map Weight) w)"
  by (auto simp: holds_def canary_content_def rect_def list_all_length)

lemma canary_slice:
  assumes "n * (r + 1) \<le> length row"
  shows "py_slice row (int (n * r)) (int (n * (r + 1))) = map (\<lambda>j. row ! (r * n + j)) [0..<n]"
proof -
  have "py_slice row (int (n * r)) (int (n * (r + 1))) = take n (drop (n * r) row)"
    using py_slice_nat[of "n * r" n row] assms by (simp add: algebra_simps)
  also have "\<dots> = map (\<lambda>j. row ! (r * n + j)) [0..<n]"
    using assms by (intro nth_equalityI) (auto simp: mult.commute)
  finally show ?thesis .
qed

lemma holds_canary:
  assumes "holds (canary_content m W l) m n row r w" "0 < n"
  shows "holds (canary_content m W l) (Suc m) n row r (w @ [map CanaryId (map (\<lambda>j. row ! (r * n + j)) [0..<n])])"
proof -
  have "map (\<lambda>j. row ! (r * n + j)) [0..<n] ! (x mod n) = row ! x" if "x div n = r" for x
    using that assms(2) div_mult_mod_eq[of x n] by simp
  then show ?thesis using assms
    by (auto simp: holds_def rect_def nth_append less_Suc_eq canary_content_def)
qed

lemma canary_of_holds:
  assumes "holds (canary_content m W l) (Suc m) n row r w" "0 < n"
  shows "py_nth w (- 1) = Inr (map CanaryId (map (\<lambda>j. row ! (r * n + j)) [0..<n]))"
proof -
  have len: "length w = Suc m" "length (w ! m) = n" using assms by (auto simp: holds_def rect_def list_all_length)
  have "w ! m ! j = CanaryId (row ! (r * n + j))" if "j < n" for j
    using holds_at[OF assms(1) _ that, of m] by (simp add: canary_content_def)
  then have "w ! m = map CanaryId (map (\<lambda>j. row ! (r * n + j)) [0..<n])"
    using len(2) by (intro nth_equalityI) auto
  then show ?thesis using len(1) by (simp add: py_nth_def)
qed

definition canary_rows :: "(int \<Rightarrow> int list) \<Rightarrow> ExpertLocationMetadata \<Rightarrow> nat \<Rightarrow> nat \<Rightarrow> int list \<Rightarrow> bool" where
  "canary_rows p md n world ids \<longleftrightarrow>
     (\<forall>l \<in> set ids. py_nth (physical_to_logical_map_cpu md) l = Inr (p l) \<and> length (p l) = world * n)"

lemma layer_fits_rows:
  assumes "layer_fits old new n gpus world l"
  shows "py_nth (physical_to_logical_map_cpu old) l = Inr (physical_to_logical_map_cpu old ! nat l)"
    "py_nth (physical_to_logical_map_cpu new) l = Inr (physical_to_logical_map_cpu new ! nat l)"
    "length (physical_to_logical_map_cpu old ! nat l) = world * n"
    "length (physical_to_logical_map_cpu new ! nat l) = world * n"
  using assms by (simp_all add: layer_fits_def placement_ok_def py_nth_def)

lemma get_canary_Inr:
  assumes "canary_rows p md n world ids" "l \<in> set ids" "r < world"
  shows "get_canary_value n md r l = Inr (map CanaryId (map (\<lambda>j. p l ! (r * n + j)) [0..<n]))"
proof -
  have "n * (r + 1) \<le> world * n" using assms(3) by (metis Suc_eq_plus1 Suc_leI mult.commute mult_le_mono2)
  then show ?thesis using assms canary_slice[of n r "p l"] by (simp add: canary_rows_def get_canary_value_def)
qed

lemma append_canary_Inr:
  assumes rows: "canary_rows p md n world ids" "l \<in> set ids" and n: "0 < n"
    and w: "weights_hold (canary_content m W) M n world p weights" "l \<in> fst ` set weights" "M l = m"
  shows "\<exists>weights'. append_canary n md l weights = Inr weights' \<and> fst ` set weights' = fst ` set weights \<and>
     weights_hold (canary_content m W) (M(l := Suc m)) n world p weights'"
proof -
  obtain ws where ws: "map_of weights l = Some ws" "length ws = world"
    "\<And>r. r < world \<Longrightarrow> holds (canary_content m W l) m n (p l) r (ws ! r)"
    using weights_hold_get[OF w(1,2)] w(3) by auto
  let ?ws = "map (\<lambda>r. ws ! r @ [map CanaryId (map (\<lambda>j. p l ! (r * n + j)) [0..<n])]) [0..<world]"
  have "map_res (\<lambda>(rank, w). bind_res (get_canary_value n md rank l) (\<lambda>c. Inr (w @ [c]))) (enumerate 0 ws) =
      Inr (map (\<lambda>(rank, w). w @ [map CanaryId (map (\<lambda>j. p l ! (rank * n + j)) [0..<n])]) (enumerate 0 ws))"
    using get_canary_Inr[OF rows] ws(2) by (intro map_res_Inr) (auto simp: enumerate_eq_zip set_zip)
  also have "map (\<lambda>(rank, w). w @ [map CanaryId (map (\<lambda>j. p l ! (rank * n + j)) [0..<n])]) (enumerate 0 ws) = ?ws"
    using ws(2) by (intro nth_equalityI) (auto simp: nth_enumerate_eq)
  finally have "append_canary n md l weights = Inr (AList.update l ?ws weights)"
    using ws(1) by (simp add: append_canary_def)
  moreover have "weights_hold (canary_content m W) (M(l := Suc m)) n world p (AList.update l ?ws weights)"
    using holds_canary[OF ws(3) n] by (intro weights_hold_update[OF w(1)]) auto
  ultimately show ?thesis using w(2) by (auto simp: keys_update insert_absorb)
qed

lemma append_canaries_Inr:
  assumes n: "0 < n" and rows: "canary_rows p md n world ids" and d: "distinct ids"
    and w: "weights_hold (canary_content m W) M n world p weights" "set ids \<subseteq> fst ` set weights"
      "\<And>l. l \<in> set ids \<Longrightarrow> M l = m"
  shows "\<exists>weights'. fold_res (append_canary n md) ids weights = Inr weights' \<and> fst ` set weights' = fst ` set weights \<and>
     weights_hold (canary_content m W) (\<lambda>l. if l \<in> set ids then Suc m else M l) n world p weights'"
  using rows d w
proof (induction ids arbitrary: weights M)
  case (Cons l ids)
  have "l \<in> set (l # ids)" "l \<in> fst ` set weights" using Cons.prems(4) by auto
  from append_canary_Inr[OF Cons.prems(1) this(1) n Cons.prems(3) this(2) Cons.prems(5)[OF this(1)]] obtain w1 where
    w1: "append_canary n md l weights = Inr w1" "fst ` set w1 = fst ` set weights"
      "weights_hold (canary_content m W) (M(l := Suc m)) n world p w1" by blast
  have "\<exists>weights'. fold_res (append_canary n md) ids w1 = Inr weights' \<and> fst ` set weights' = fst ` set w1 \<and>
     weights_hold (canary_content m W) (\<lambda>k. if k \<in> set ids then Suc m else (M(l := Suc m)) k) n world p weights'"
    by (rule Cons.IH[OF _ _ w1(3)]) (use Cons.prems w1(2) in \<open>auto simp: canary_rows_def\<close>)
  moreover have "(\<lambda>k. if k \<in> set ids then Suc m else (M(l := Suc m)) k) = (\<lambda>k. if k \<in> set (l # ids) then Suc m else M k)"
    by auto
  ultimately show ?case using w1(1,2) by simp
qed simp

lemma check_canary_Inr:
  assumes n: "0 < n" and rows: "canary_rows p md n world ids" "l \<in> set ids"
    and w: "weights_hold (canary_content m W) M n world p weights" "l \<in> fst ` set weights" "M l = Suc m"
  shows "check_canary n md weights l = Inr ()"
proof -
  obtain ws where ws: "map_of weights l = Some ws" "length ws = world"
    "\<And>r. r < world \<Longrightarrow> holds (canary_content m W l) (Suc m) n (p l) r (ws ! r)"
    using weights_hold_get[OF w(1,2)] w(3) by auto
  have "map_res (\<lambda>(rank, w). bind_res (get_canary_value n md rank l) (\<lambda>expect.
      bind_res (py_nth w (- 1)) (\<lambda>actual. py_assert (expect = actual) (Inr ())))) (enumerate 0 ws) =
      Inr (map (\<lambda>_. ()) (enumerate 0 ws))"
    using get_canary_Inr[OF rows] canary_of_holds[OF ws(3) n] ws(2)
    by (intro map_res_Inr) (auto simp: enumerate_eq_zip set_zip)
  then show ?thesis using ws(1) by (simp add: check_canary_def)
qed

lemma plain_tensors_Inr:
  assumes "holds (canary_content m W l) k n p r w" "m \<le> k" "0 < n"
  shows "\<exists>w'. map_res (map_res plain_cell) (take m w) = Inr w' \<and> holds (W l) m n p r w'"
proof -
  let ?row = "\<lambda>t. map (\<lambda>c. case c of Weight v \<Rightarrow> v | CanaryId e \<Rightarrow> undefined) t"
  have rect: "rect k n w" using assms(1) by (simp add: holds_def)
  have cell: "w ! i ! j = Weight (W l i (p ! (r * n + j)))" if "i < m" "j < n" for i j
    using holds_at[OF assms(1) _ that(2), of i] that(1) assms(2) by (simp add: canary_content_def)
  have row: "map_res plain_cell (w ! i) = Inr (?row (w ! i))" if "i < m" for i
    using that cell rect_row[OF rect, of i] assms(2) by (intro map_res_Inr) (auto simp: in_set_conv_nth)
  have "map_res (map_res plain_cell) (take m w) = Inr (map ?row (take m w))"
    by (rule map_res_Inr) (use row rect_length[OF rect] assms(2) in \<open>auto simp: in_set_conv_nth\<close>)
  moreover have "holds (W l) m n p r (map ?row (take m w))"
  proof -
    have "?row (w ! i) ! (x mod n) = W l i (p ! x)" if "i < m" "x div n = r" for i x
      using cell[OF that(1), of "x mod n"] rect_row[OF rect, of i] that assms(2,3) div_mult_mod_eq[of x n] by simp
    then show ?thesis using rect assms(2) by (auto simp: holds_def rect_def list_all_length)
  qed
  ultimately show ?thesis by blast
qed

lemma caller_tensors_Inr:
  assumes n: "0 < n" and w: "weights_hold W (\<lambda>_. m) n world p weights"
    and u: "weights_hold (canary_content m W) M n world p' updated" "fst ` set updated = fst ` set weights"
    and M: "\<And>l. m \<le> M l"
  shows "\<exists>weights'. map_res (caller_tensors weights) updated = Inr weights' \<and> fst ` set weights' = fst ` set weights \<and>
     weights_hold W (\<lambda>_. m) n world p' weights'"
proof -
  let ?P = "\<lambda>(l, ws') (l', ws). l' = l \<and> length ws = world \<and> (\<forall>r < world. holds (W l) m n (p' l) r (ws ! r))"
  have "\<exists>y. caller_tensors weights x = Inr y \<and> ?P x y" if x: "x \<in> set updated" for x
  proof -
    obtain l ws' where l: "x = (l, ws')" by (cases x)
    then have ws': "length ws' = world" "\<And>r. r < world \<Longrightarrow> holds (canary_content m W l) (M l) n (p' l) r (ws' ! r)"
      using u(1) x by (auto simp: weights_hold_def)
    have "l \<in> fst ` set weights" using u(2) x l by force
    then obtain ws where ws: "map_of weights l = Some ws" "length ws = world" "\<forall>r < world. length (ws ! r) = m"
      using weights_hold_get[OF w, of l] by (auto simp: holds_def rect_def)
    have "\<exists>ys. map_res (\<lambda>(w, w'). map_res (map_res plain_cell) (take (length w) w')) (zip ws ws') = Inr ys \<and>
        list_all2 (\<lambda>_ _. True) (zip ws ws') ys"
      by (rule map_res_total) (use plain_tensors_Inr[OF ws'(2) M n] ws(2,3) ws'(1) in \<open>fastforce simp: set_zip\<close>)
    then obtain ys where ys: "map_res (\<lambda>(w, w'). map_res (map_res plain_cell) (take (length w) w')) (zip ws ws') = Inr ys"
      by blast
    from map_res_InrD[OF this] have "length ys = world"
      "\<And>r. r < world \<Longrightarrow> map_res (map_res plain_cell) (take m (ws' ! r)) = Inr (ys ! r)"
      using ws(2,3) ws'(1) by auto
    moreover from this(2) have "holds (W l) m n (p' l) r (ys ! r)" if "r < world" for r
      using plain_tensors_Inr[OF ws'(2)[OF that] M n] that by auto
    ultimately show ?thesis using ys ws(1) l by (simp add: caller_tensors_def)
  qed
  then have "\<exists>weights'. map_res (caller_tensors weights) updated = Inr weights' \<and> list_all2 ?P updated weights'"
    by (intro map_res_total)
  then obtain weights' where
    r: "map_res (caller_tensors weights) updated = Inr weights'" "list_all2 ?P updated weights'" by blast
  have keys: "map fst weights' = map fst updated"
    using r(2) by (intro nth_equalityI) (auto simp: list_all2_conv_all_nth split_def)
  have "dict_ok weights'" using u(1) keys by (simp add: weights_hold_def dict_ok_def)
  moreover have "length ws = world \<and> (\<forall>r < world. holds (W l) m n (p' l) r (ws ! r))" if "(l, ws) \<in> set weights'" for l ws
    using that r(2) by (fastforce simp: list_all2_conv_all_nth in_set_conv_nth split_def)
  moreover have "fst ` set weights' = fst ` set weights" using keys u(2) by (metis list.set_map)
  ultimately show ?thesis using r(1) by (auto simp: weights_hold_def)
qed

lemma update_with_canary_Inr:
  assumes ex: "p2p_spec exchange" and n: "0 < n"
    and fits: "\<And>l. l \<in> set ids \<Longrightarrow> layer_fits old new n (world div num_nodes) world l"
    and w: "weights_hold W (\<lambda>_. m) n world p weights" "set ids \<subseteq> fst ` set weights"
    and p: "\<And>l. l \<in> set ids \<Longrightarrow> p l = physical_to_logical_map_cpu old ! nat l" and d: "distinct ids" "ids \<noteq> []"
    and empty: "\<And>t. length (empty_like t) = length t"
    and local: "num_local_physical_experts (int world) old = Inr (int n)" and nodes: "0 < num_nodes"
  shows "\<exists>weights'. update_expert_weights_with_canary exchange empty_like world num_nodes old new ids weights = Inr weights' \<and>
     weights_hold W (\<lambda>_. m) n world (\<lambda>l. if l \<in> set ids then physical_to_logical_map_cpu new ! nat l else p l) weights' \<and>
     fst ` set weights' = fst ` set weights"
proof -
  let ?M = "\<lambda>l. if l \<in> set ids then Suc m else m"
  let ?p = "\<lambda>l. if l \<in> set ids then physical_to_logical_map_cpu new ! nat l else p l"
  let ?c = "map (\<lambda>(layer_id, ws). (layer_id, map (map (map Weight)) ws)) weights"
  have rows: "canary_rows p old n world ids" "canary_rows ?p new n world ids"
    using layer_fits_rows[OF fits] p by (auto simp: canary_rows_def)
  have keys: "fst ` set ?c = fst ` set weights" by (force simp: split_def)
  have "weights_hold (canary_content m W) (\<lambda>_. m) n world p ?c"
    using w(1) holds_Weight[OF _ n] by (fastforce simp: weights_hold_def dict_ok_def comp_def split_def)
  from append_canaries_Inr[OF n rows(1) d(1) this] w(2) keys obtain c where
    c: "fold_res (append_canary n old) ids ?c = Inr c" "fst ` set c = fst ` set weights"
      "weights_hold (canary_content m W) ?M n world p c" by auto
  from update_raw_Inr[OF ex _ _ fits c(3) _ p d empty local nodes, of "Suc m"] w(2) c(2) obtain u where
    u: "update_expert_weights_raw exchange empty_like world num_nodes old new ids c = Inr u"
      "weights_hold (canary_content m W) ?M n world ?p u" "fst ` set u = fst ` set weights" by auto
  have "check_canary n new u l = Inr ()" if "l \<in> set ids" for l
    using check_canary_Inr[OF n rows(2) that u(2)] that w(2) u(3) by auto
  then have "map_res (check_canary n new u) ids = Inr (map (\<lambda>_. ()) ids)" by (intro map_res_Inr)
  moreover have "m \<le> ?M l" for l by simp
  from caller_tensors_Inr[OF n w(1) u(2,3) this] obtain w' where
    "map_res (caller_tensors weights) u = Inr w'" "weights_hold W (\<lambda>_. m) n world ?p w'" "fst ` set w' = fst ` set weights"
    by blast
  ultimately show ?thesis using c(1) u(1) local by (auto simp: update_expert_weights_with_canary_def)
qed

section \<open>Properties\<close>

text \<open>
  The two directions of a chunk mapping are inverse to each other: when the chunks are not empty
  and nothing repeats, every element is assigned to a chunk, the elements listed for a chunk are exactly
  those assigned to it, each once, and the lists differ in length by at most one.
\<close>

theorem chunk_directions_inverse:
  assumes "distinct (chunk_values cu)" "distinct (element_values cu)" "chunk_values cu \<noteq> []"
  shows "(\<forall>e \<in> set (element_values cu). \<exists>c \<in> set (chunk_values cu). chunk_value_from_element_value cu e = Inr c) \<and>
     (\<forall>c \<in> set (chunk_values cu). \<exists>es. element_values_from_chunk_value cu c = Inr es \<and> distinct es \<and>
        set es = {e \<in> set (element_values cu). chunk_value_from_element_value cu e = Inr c} \<and>
        length es - length (element_values cu) div length (chunk_values cu) \<in> {0, 1})"
proof -
  have wf: "wf_chunks cu" using assms by (simp add: wf_chunks_def)
  show ?thesis
  proof (intro conjI ballI)
    fix c assume "c \<in> set (chunk_values cu)"
    from element_values_Inr[OF wf this] obtain es where
      "element_values_from_chunk_value cu c = Inr es" "distinct es"
      "length es \<le> length (element_values cu) div length (chunk_values cu) + 1"
      "\<forall>e. e \<in> set es \<longleftrightarrow> e \<in> set (element_values cu) \<and> chunk_value_from_element_value cu e = Inr c" by blast
    then show "\<exists>es. element_values_from_chunk_value cu c = Inr es \<and> distinct es \<and>
        set es = {e \<in> set (element_values cu). chunk_value_from_element_value cu e = Inr c} \<and>
        length es - length (element_values cu) div length (chunk_values cu) \<in> {0, 1}"
      by (intro exI[of _ es]) auto
  qed (rule chunk_value_Inr[OF wf])
qed

definition example_chunks :: chunk_utils where
  "example_chunks = \<lparr>chunk_values = [7, 9], element_values = [1, 2, 3, 4, 5]\<rparr>"

theorem chunk_directions_inverse_witness:
  "\<exists>c. chunk_value_from_element_value example_chunks 4 = Inr c \<and>
     element_values_from_chunk_value example_chunks 9 = Inr [4, 5] \<and> c = 9"
proof -
  have d: "distinct (chunk_values example_chunks)" "distinct (element_values example_chunks)" "chunk_values example_chunks \<noteq> []"
    by code_simp+
  have "4 \<in> set (element_values example_chunks)" by code_simp
  then obtain c where c: "chunk_value_from_element_value example_chunks 4 = Inr c"
    using chunk_directions_inverse[OF d] by blast
  have "element_values_from_chunk_value example_chunks 9 = Inr [4, 5]"
    "chunk_value_from_element_value example_chunks 4 = Inr 9" by code_simp+
  with c show ?thesis by simp
qed

text \<open>
  (C4) The exchange of the weights of one layer over all ranks: if every rank holds the weights of the
  experts of the old placement and every expert of the new placement has a replica in the old one, then
  all ranks finish, no operation is left without a partner, and each local slot of each tensor holds the
  weights of the expert which the new placement puts there, whatever the temporary buffers contained.
\<close>

theorem weight_exchange_correct:
  assumes "p2p_spec exchange" "placement_ok old new n gpus world" "0 < m" "length tensors = world"
    and "\<forall>r < world. holds W m n old r (fst (tensors ! r)) \<and> rect m n (snd (tensors ! r))"
  shows "\<exists>tensors'. update_expert_weights_single_layer exchange old new n gpus tensors = Inr tensors' \<and>
     length tensors' = world \<and>
     (\<forall>r < world. \<forall>i < m. \<forall>j < n. fst (tensors' ! r) ! i ! j = W i (new ! (r * n + j)))"
proof -
  obtain ts where "update_expert_weights_single_layer exchange old new n gpus tensors = Inr ts" "length ts = world"
    "\<forall>r < world. holds W m n new r (fst (ts ! r))"
    using update_layer_correct[OF assms(2,3,1,4), of W] assms(5) by blast
  then show ?thesis using holds_at by blast
qed

text \<open>Two nodes with one GPU each and two slots per GPU; expert 2 moves, expert 0 gets a replica.\<close>

definition example_tensors :: "(nat list list \<times> nat list list) list" where
  "example_tensors = [([[10, 11]], [[0, 0]]), ([[12, 11]], [[0, 0]])]"

theorem weight_exchange_correct_witness:
  "\<exists>tensors'. update_expert_weights_single_layer fifo_exchange [0, 1, 2, 1] [2, 1, 0, 0] 2 1 example_tensors = Inr tensors' \<and>
     length tensors' = 2 \<and> fst (tensors' ! 0) ! 0 ! 0 = 12 \<and> fst (tensors' ! 1) ! 0 ! 1 = 10"
proof -
  have ok: "placement_ok [0, 1, 2, 1] [2, 1, 0, 0] 2 1 2" by (simp add: placement_ok_def)
  have "[10 :: nat, 11] ! (x mod 2) = nat (10 + [0, 1, 2, 1] ! x)" if "x div 2 = 0" for x
  proof -
    have "x = 0 \<or> x = 1" using that by auto
    then show ?thesis by auto
  qed
  moreover have "[12 :: nat, 11] ! (x mod 2) = nat (10 + [0, 1, 2, 1] ! x)" if "x div 2 = 1" for x
  proof -
    have "x = 2 \<or> x = 3" using that by auto
    then show ?thesis by auto
  qed
  ultimately have "\<forall>r < 2. holds (\<lambda>i l. nat (10 + l)) 1 2 [0, 1, 2, 1] r (fst (example_tensors ! r)) \<and>
      rect 1 2 (snd (example_tensors ! r))"
    by (auto simp: holds_def example_tensors_def rect_def less_2_cases_iff)
  from weight_exchange_correct[OF fifo_exchange_spec ok _ _ this] obtain ts where
    "update_expert_weights_single_layer fifo_exchange [0, 1, 2, 1] [2, 1, 0, 0] 2 1 example_tensors = Inr ts" "length ts = 2"
    and cells: "\<forall>r < 2. \<forall>i < 1. \<forall>j < 2. fst (ts ! r) ! i ! j = nat (10 + [2, 1, 0, 0] ! (r * 2 + j))"
    by (auto simp: example_tensors_def)
  moreover have "fst (ts ! 0) ! 0 ! 0 = 12" "fst (ts ! 1) ! 0 ! 1 = 10"
    using cells[rule_format, of 0 0 0] cells[rule_format, of 1 0 1] by simp_all
  ultimately show ?thesis by blast
qed

section \<open>Weights and metadata stay in step\<close>

text \<open>A placement of \<open>e\<close> logical experts on \<open>world\<close> ranks with \<open>n\<close> slots each.\<close>

definition placed :: "nat \<Rightarrow> nat \<Rightarrow> nat \<Rightarrow> ExpertLocationMetadata \<Rightarrow> bool" where
  "placed e n world md \<longleftrightarrow>
     wf_metadata e md \<and> 0 < num_layers md \<and> rect (num_layers md) (world * n) (physical_to_logical_map md) \<and>
     list_all (valid_layer e) (physical_to_logical_map md)"

text \<open>The weights on the ranks are those that the current metadata promises.\<close>

definition in_step ::
  "(int \<Rightarrow> nat \<Rightarrow> int \<Rightarrow> 'w) \<Rightarrow> nat \<Rightarrow> nat \<Rightarrow> nat \<Rightarrow> nat \<Rightarrow> ExpertLocationMetadata \<Rightarrow> 'w updater_state \<Rightarrow> bool" where
  "in_step W m n world e md st \<longleftrightarrow>
     global_expert_location_metadata st = Some md \<and> placed e n world md \<and>
     fst ` set (routed_experts_weights_of_layer st) \<subseteq> {0..<int (num_layers md)} \<and>
     weights_hold W (\<lambda>_. m) n world (\<lambda>l. physical_to_logical_map md ! nat l) (routed_experts_weights_of_layer st)"

lemma placed_fits:
  assumes "placed e n world old" "placed e n world new" "num_layers new = num_layers old"
    and "0 \<le> l" "l < int (num_layers old)" "0 < n" "0 < gpus"
  shows "layer_fits old new n gpus world l"
proof -
  have i: "nat l < num_layers old" using assms(4,5) by linarith
  have "list_all (valid_layer e) (physical_to_logical_map old)" "list_all (valid_layer e) (physical_to_logical_map new)"
    using assms(1,2) by (simp_all add: placed_def)
  then have "valid_layer e (physical_to_logical_map old ! nat l)" "valid_layer e (physical_to_logical_map new ! nat l)"
    using i assms(3) by (simp_all add: list_all_length num_layers_def)
  then have "set (physical_to_logical_map new ! nat l) \<subseteq> set (physical_to_logical_map old ! nat l)"
    by (auto simp: valid_layer_def list_all_iff) (metis atLeastLessThan_iff nat_0_le nat_int_comparison(2) of_nat_0_le_iff zero_order(1))
  moreover have "length (physical_to_logical_map old ! nat l) = world * n" "length (physical_to_logical_map new ! nat l) = world * n"
    using assms(1,2,3) i by (auto simp: placed_def intro: rect_row)
  ultimately show ?thesis
    using assms by (simp add: layer_fits_def placement_ok_def placed_def wf_metadata_def num_layers_def)
qed

lemma update_disp:
  "update md other ids = Inr md' \<Longrightarrow>
   logical_to_rank_dispatch_physical_map md' = None \<longleftrightarrow> logical_to_rank_dispatch_physical_map md = None"
  by (auto simp: update_def Let_def split: option.splits)

lemma update_placed:
  assumes "placed e n world md" "placed e n world other" "num_layers other = num_layers md"
    and "logical_to_rank_dispatch_physical_map md = None \<longleftrightarrow> logical_to_rank_dispatch_physical_map other = None"
  shows "\<exists>md'. update md other ids = Inr md' \<and> placed e n world md' \<and> num_layers md' = num_layers md \<and>
     (\<forall>l < num_layers md. physical_to_logical_map md' ! l =
        physical_to_logical_map (if int l \<in> set ids then other else md) ! l)"
proof -
  from assms obtain md' where md': "update md other ids = Inr md'" "wf_metadata e md'" "num_layers md' = num_layers md"
    "\<forall>l < num_layers md. physical_to_logical_map md' ! l = physical_to_logical_map (if int l \<in> set ids then other else md) ! l"
    using update_wf[of e md other ids] by (auto simp: placed_def)
  have "length (physical_to_logical_map md' ! l) = world * n \<and> valid_layer e (physical_to_logical_map md' ! l)"
    if "l < num_layers md" for l
    using assms(1,2,3) md'(4) that by (auto simp: placed_def rect_def list_all_length num_layers_def)
  then have "placed e n world md'" using assms(1) md'(2,3) by (auto simp: placed_def rect_def list_all_length num_layers_def)
  then show ?thesis using md' by blast
qed

lemma weights_hold_cong:
  assumes "weights_hold W M n world p weights" "\<And>l. l \<in> fst ` set weights \<Longrightarrow> q l = p l"
  shows "weights_hold W M n world q weights"
  using assms by (force simp: weights_hold_def)

lemma updater_update_in_step:
  assumes st: "in_step W m n world e md st" and new: "placed e n world new" "num_layers new = num_layers md"
    and disp: "logical_to_rank_dispatch_physical_map md = None \<longleftrightarrow> logical_to_rank_dispatch_physical_map new = None"
    and ids: "ids \<noteq> []" "distinct ids" "set ids \<subseteq> fst ` set (routed_experts_weights_of_layer st)"
    and ex: "p2p_spec exchange" "p2p_spec exchange_c"
    and empty: "\<And>t. length (empty_like t) = length t" "\<And>t. length (empty_like_c t) = length t"
    and pos: "0 < m" "0 < n" "0 < num_nodes" "num_nodes \<le> world"
  shows "\<exists>st' md'. updater_update canary exchange exchange_c empty_like empty_like_c world num_nodes new ids st = Inr st' \<and>
     in_step W m n world e md' st' \<and> num_layers md' = num_layers md \<and>
     fst ` set (routed_experts_weights_of_layer st') = fst ` set (routed_experts_weights_of_layer st) \<and>
     (logical_to_rank_dispatch_physical_map md' = None \<longleftrightarrow> logical_to_rank_dispatch_physical_map new = None) \<and>
     (\<forall>l < num_layers md. physical_to_logical_map md' ! l =
        physical_to_logical_map (if int l \<in> set ids then new else md) ! l)"
proof -
  let ?w = "routed_experts_weights_of_layer st" and ?L = "num_layers md"
  let ?p = "\<lambda>l. physical_to_logical_map md ! nat l"
  let ?q = "\<lambda>l. if l \<in> set ids then physical_to_logical_map_cpu new ! nat l else ?p l"
  have s: "global_expert_location_metadata st = Some md" "placed e n world md" "fst ` set ?w \<subseteq> {0..<int ?L}"
    "weights_hold W (\<lambda>_. m) n world ?p ?w" using st by (simp_all add: in_step_def)
  have cpu: "physical_to_logical_map_cpu md = physical_to_logical_map md" "physical_to_logical_map_cpu new = physical_to_logical_map new"
    using s(2) new(1) by (simp_all add: placed_def wf_metadata_def)
  have gpus: "0 < world div num_nodes" using pos by (simp add: div_greater_zero_iff)
  have fits: "layer_fits md new n (world div num_nodes) world l" if "l \<in> set ids" for l
  proof -
    have "l \<in> {0..<int ?L}" using that ids(3) s(3) by blast
    then show ?thesis using placed_fits[OF s(2) new, of l "world div num_nodes"] pos(2) gpus by simp
  qed
  have "num_physical_experts md = world * n"
    using s(2) by (auto simp: placed_def num_physical_experts_def dest!: rect_shape1)
  then have local: "num_local_physical_experts (int world) md = Inr (int n)"
    using pos by (simp add: num_local_physical_experts_def)
  have p: "?p l = physical_to_logical_map_cpu md ! nat l" for l using cpu by simp
  obtain w' where w': "(if canary
       then update_expert_weights_with_canary exchange_c empty_like_c world num_nodes md new ids ?w
       else update_expert_weights_raw exchange empty_like world num_nodes md new ids ?w) = Inr w'"
    "weights_hold W (\<lambda>_. m) n world ?q w'" "fst ` set w' = fst ` set ?w"
    using update_with_canary_Inr[OF ex(2) pos(2) fits s(4) ids(3) p ids(2,1) empty(2) local pos(3)]
      update_raw_Inr[OF ex(1) pos(1) refl fits s(4) ids(3) p ids(2,1) empty(1) local pos(3)]
    by (cases "canary = True") (simp_all only: simp_thms if_True if_False, blast+)
  obtain md' where md': "update md new ids = Inr md'" "placed e n world md'" "num_layers md' = ?L"
    "\<forall>l < ?L. physical_to_logical_map md' ! l = physical_to_logical_map (if int l \<in> set ids then new else md) ! l"
    using update_placed[OF s(2) new disp] by blast
  have "physical_to_logical_map md' ! nat l = ?q l" if "l \<in> fst ` set w'" for l
  proof -
    have "l \<in> {0..<int ?L}" using that w'(3) s(3) by blast
    then have "nat l < ?L" "int (nat l) = l" by auto
    then show ?thesis using md'(4)[rule_format, of "nat l"] cpu by simp
  qed
  from weights_hold_cong[OF w'(2) this] have "weights_hold W (\<lambda>_. m) n world (\<lambda>l. physical_to_logical_map md' ! nat l) w'" .
  then show ?thesis
    using w' md' s update_disp[OF md'(1)] disp by (auto simp: updater_update_def in_step_def)
qed

text \<open>
  (C3) Updating the expert location keeps weights and metadata in step on all ranks, with and without
  the canary, whose check never fails: when every slot holds the weights of the expert the current
  metadata puts there, then after an update of any layers towards another placement of the same model
  the named layers follow the new placement, the others the old one, the metadata is well formed,
  and every slot again holds the weights of its expert.
\<close>

theorem updater_keeps_in_step:
  assumes "in_step W m n world e md st" "placed e n world new" "num_layers new = num_layers md"
    and "logical_to_rank_dispatch_physical_map md = None \<longleftrightarrow> logical_to_rank_dispatch_physical_map new = None"
    and "ids \<noteq> []" "distinct ids" "set ids \<subseteq> fst ` set (routed_experts_weights_of_layer st)"
    and "p2p_spec exchange" "p2p_spec exchange_c"
    and "\<And>t. length (empty_like t) = length t" "\<And>t. length (empty_like_c t) = length t"
    and "0 < m" "0 < n" "0 < num_nodes" "num_nodes \<le> world"
  shows "\<exists>st' md'. updater_update canary exchange exchange_c empty_like empty_like_c world num_nodes new ids st = Inr st' \<and>
     in_step W m n world e md' st' \<and> wf_metadata e md' \<and>
     (\<forall>l < num_layers md. physical_to_logical_map md' ! l =
        physical_to_logical_map (if int l \<in> set ids then new else md) ! l)"
proof -
  from updater_update_in_step[OF assms, of canary] obtain st' md' where
    "updater_update canary exchange exchange_c empty_like empty_like_c world num_nodes new ids st = Inr st'"
    "in_step W m n world e md' st'"
    "\<forall>l < num_layers md. physical_to_logical_map md' ! l = physical_to_logical_map (if int l \<in> set ids then new else md) ! l"
    by blast
  then show ?thesis by (auto simp: in_step_def placed_def)
qed

text \<open>One layer, one GPU with two slots: the two experts change places.\<close>

definition swap_md :: "int list \<Rightarrow> ExpertLocationMetadata" where
  "swap_md row = \<lparr>physical_to_logical_map = [row], physical_to_logical_map_cpu = [row],
     logical_to_all_physical_map = [map (\<lambda>e. replicas row e) [0, 1]], logical_to_all_physical_map_cpu = [map (\<lambda>e. replicas row e) [0, 1]],
     logical_to_all_physical_map_num_valid = [[1, 1]], logical_to_rank_dispatch_physical_map = None\<rparr>"

definition swap_state :: "nat updater_state" where
  "swap_state = \<lparr>first_execution = True, global_expert_location_metadata = Some (swap_md [0, 1]),
     routed_experts_weights_of_layer = [(0, [[[10, 11]]])]\<rparr>"

lemma swap_placed: "placed 2 2 1 (swap_md [0, 1])" "placed 2 2 1 (swap_md [1, 0])"
  by (simp_all add: placed_def wf_metadata_def layer_ok_def swap_md_def num_layers_def replicas_def rect_def
      valid_layer_def less_2_cases_iff upt_rec numeral_2_eq_2 less_Suc_eq)

theorem updater_keeps_in_step_witness:
  "\<exists>st' md'. updater_update True fifo_exchange fifo_exchange id id 1 1 (swap_md [1, 0]) [0] swap_state = Inr st' \<and>
     in_step (\<lambda>l i e. nat (10 + e)) 1 2 1 2 md' st' \<and> physical_to_logical_map md' ! 0 = [1, 0]"
proof -
  have "[10 :: nat, 11] ! (x mod 2) = nat (10 + [0, 1] ! x)" if "x div 2 = 0" for x
  proof -
    have "x = 0 \<or> x = 1" using that by auto
    then show ?thesis by auto
  qed
  then have "in_step (\<lambda>l i e. nat (10 + e)) 1 2 1 2 (swap_md [0, 1]) swap_state"
    using swap_placed(1) by (auto simp: in_step_def swap_state_def weights_hold_def dict_ok_def holds_def rect_def
        swap_md_def num_layers_def)
  from updater_keeps_in_step[OF this swap_placed(2), of "[0]" fifo_exchange fifo_exchange id id 1 True] obtain st' md' where
    "updater_update True fifo_exchange fifo_exchange id id 1 1 (swap_md [1, 0]) [0] swap_state = Inr st'"
    "in_step (\<lambda>l i e. nat (10 + e)) 1 2 1 2 md' st'"
    "\<forall>l < num_layers (swap_md [0, 1]). physical_to_logical_map md' ! l =
        physical_to_logical_map (if int l \<in> set [0] then swap_md [1, 0] else swap_md [0, 1]) ! l"
    by (auto simp: fifo_exchange_spec swap_md_def num_layers_def swap_state_def)
  then show ?thesis by (auto simp: swap_md_def num_layers_def)
qed

end
