(* ===== verification/Eplb_Algorithms.thy ===== *)
theory Eplb_Algorithms
  imports Eplb_Base
begin

text \<open>
  \<^verbatim>\<open>sglang/srt/eplb/eplb_algorithms\<close>: the DeepSeek load balancer (\<^verbatim>\<open>deepseek.py\<close>), its variant
  for a partly failed process group (\<^verbatim>\<open>elasticity_aware.py\<close>) and the choice of the algorithm
  (\<^verbatim>\<open>__init__.py\<close>). Every operation of the balancer treats the rows of its tensors (layers, or
  layer and node) independently, so the model works row by row.

  \<^verbatim>\<open>torch.sort\<close>, \<^verbatim>\<open>torch.max\<close> and \<^verbatim>\<open>torch.argmin\<close> do not say which of several equal elements comes first; they
  are the parameters of the record \<open>torch_ops\<close> with their documented behaviour in \<open>torch_spec\<close>.
\<close>

section \<open>Tensor operations with unspecified ties\<close>

record 'f torch_ops =
  argsort_desc :: "'f list \<Rightarrow> nat list"
  argmax :: "'f list \<Rightarrow> nat"
  argmin :: "'f list \<Rightarrow> nat"

definition torch_spec :: "('f::linorder) torch_ops \<Rightarrow> bool" where
  "torch_spec t \<longleftrightarrow>
     (\<forall>xs. mset (argsort_desc t xs) = mset [0..<length xs] \<and>
        sorted_wrt (\<lambda>i j. xs ! j \<le> xs ! i) (argsort_desc t xs)) \<and>
     (\<forall>xs. xs \<noteq> [] \<longrightarrow> argmax t xs < length xs \<and> (\<forall>x \<in> set xs. x \<le> xs ! argmax t xs)) \<and>
     (\<forall>xs. xs \<noteq> [] \<longrightarrow> argmin t xs < length xs \<and> (\<forall>x \<in> set xs. xs ! argmin t xs \<le> x))"

section \<open>Balanced packing\<close>

record 'f pack_state =
  pack_weights :: "'f list"
  pack_items :: "nat list"
  pack_index :: "int list"
  rank_in_pack :: "int list"

definition pack_step :: "('f::linordered_field) list \<Rightarrow> nat \<Rightarrow> nat \<Rightarrow> 'f pack_state \<Rightarrow> 'f pack_state result" where
  "pack_step weight groups_per_pack item s =
     (let open_packs = filter (\<lambda>i. pack_items s ! i < groups_per_pack) [0..<length (pack_items s)] in
      if open_packs = [] then Inl ValueError
      else
        let pack = arg_min_list (\<lambda>i. pack_weights s ! i) open_packs in
        py_assert (pack_items s ! pack < groups_per_pack)
          (Inr \<lparr>pack_weights = (pack_weights s)[pack := pack_weights s ! pack + weight ! item],
                pack_items = (pack_items s)[pack := Suc (pack_items s ! pack)],
                pack_index = (pack_index s)[item := int pack],
                rank_in_pack = (rank_in_pack s)[item := int (pack_items s ! pack)]\<rparr>))"

definition init_pack :: "nat \<Rightarrow> nat \<Rightarrow> ('f::zero) pack_state" where
  "init_pack num_groups num_packs =
     \<lparr>pack_weights = replicate num_packs 0, pack_items = replicate num_packs 0,
      pack_index = replicate num_groups (-1), rank_in_pack = replicate num_groups (-1)\<rparr>"

definition balanced_packing_row ::
  "('f::linordered_field) torch_ops \<Rightarrow> 'f list \<Rightarrow> nat \<Rightarrow> (int list \<times> int list) result" where
  "balanced_packing_row t weight num_packs =
     (let num_groups = length weight in
      if num_packs = 0 then Inl ZeroDivisionError
      else py_assert (num_groups mod num_packs = 0)
        (let groups_per_pack = num_groups div num_packs in
         if groups_per_pack = 1 then Inr (map int [0..<num_groups], replicate num_groups 0)
         else bind_res (fold_res (pack_step weight groups_per_pack) (argsort_desc t weight)
                         (init_pack num_groups num_packs))
                (\<lambda>s. Inr (pack_index s, rank_in_pack s))))"

definition balanced_packing ::
  "('f::linordered_field) torch_ops \<Rightarrow> 'f list list \<Rightarrow> nat \<Rightarrow> (int list list \<times> int list list) result" where
  "balanced_packing t weight num_packs =
     bind_res (map_res (\<lambda>row. balanced_packing_row t row num_packs) weight)
       (\<lambda>rows. Inr (map fst rows, map snd rows))"

section \<open>Replication\<close>

record replica_state =
  phy2log :: "nat list"
  replica_rank :: "nat list"
  logcnt :: "nat list"

definition replicate_step ::
  "('f::linordered_field) torch_ops \<Rightarrow> 'f list \<Rightarrow> nat \<Rightarrow> replica_state \<Rightarrow> replica_state" where
  "replicate_step t weight i s =
     (let redundant = argmax t (map2 (\<lambda>w c. w / of_nat c) weight (logcnt s)) in
      \<lparr>phy2log = (phy2log s)[i := redundant],
       replica_rank = (replica_rank s)[i := logcnt s ! redundant],
       logcnt = (logcnt s)[redundant := Suc (logcnt s ! redundant)]\<rparr>)"

definition replicate_row ::
  "('f::linordered_field) torch_ops \<Rightarrow> 'f list \<Rightarrow> nat \<Rightarrow> replica_state result" where
  "replicate_row t weight num_phy =
     (let num_log = length weight in
      py_assert (num_log \<le> num_phy)
        (if num_log = 0 \<and> 0 < num_phy then Inl RuntimeError
         else Inr (fold (replicate_step t weight) [num_log..<num_phy]
            \<lparr>phy2log = [0..<num_phy], replica_rank = replicate num_phy 0, logcnt = replicate num_log 1\<rparr>)))"

definition replicate_experts ::
  "('f::linordered_field) torch_ops \<Rightarrow> 'f list list \<Rightarrow> nat \<Rightarrow> (nat list list \<times> nat list list \<times> nat list list) result" where
  "replicate_experts t weight num_phy =
     bind_res (map_res (\<lambda>row. replicate_row t row num_phy) weight)
       (\<lambda>rows. Inr (map phy2log rows, map replica_rank rows, map logcnt rows))"

section \<open>The hierarchical policy\<close>

text \<open>\<^verbatim>\<open>t.view(-1, k)\<close> of one flat row.\<close>

function chunks :: "nat \<Rightarrow> 'a list \<Rightarrow> 'a list list" where
  "chunks k xs = (if k = 0 \<or> xs = [] then [] else take k xs # chunks k (drop k xs))"
  by auto
termination by (relation "measure (\<lambda>(k, xs). length xs)") (auto simp: neq_Nil_conv)

declare chunks.simps [simp del]

text \<open>
  \<^verbatim>\<open>inverse\<close>: the target is allocated without initial values; the scatter overwrites all of them
  when the argument is a permutation.
\<close>

definition inverse_perm :: "nat list \<Rightarrow> nat list" where
  "inverse_perm perm = scatter_row (replicate (length perm) 0) (zip perm [0..<length perm])"

record node_result =
  nr_phy2mlog :: "nat list"
  nr_phyrank :: "nat list"
  nr_mlogcnt :: "nat list"

text \<open>Steps 2 and 3 for the experts of one node.\<close>

definition rebalance_node ::
  "('f::linordered_field) torch_ops \<Rightarrow> 'f list \<Rightarrow> nat \<Rightarrow> nat \<Rightarrow> nat \<Rightarrow> node_result result" where
  "rebalance_node t tokens_per_mlog num_phy num_packs phy_experts_per_gpu =
     bind_res (replicate_row t tokens_per_mlog num_phy) (\<lambda>s.
     let tokens_per_phy = gather_row (map2 (\<lambda>w c. w / of_nat c) tokens_per_mlog (logcnt s)) (phy2log s) in
     bind_res (balanced_packing_row t tokens_per_phy num_packs) (\<lambda>(pack_idx, rank_idx).
     let phy2pphy = map2 (\<lambda>p r. nat p * phy_experts_per_gpu + nat r) pack_idx rank_idx;
         pphy2phy = inverse_perm phy2pphy
     in Inr \<lparr>nr_phy2mlog = gather_row (phy2log s) pphy2phy,
             nr_phyrank = gather_row (replica_rank s) pphy2phy, nr_mlogcnt = logcnt s\<rparr>))"

record layer_result =
  ly_phy2log :: "nat list"
  ly_phyrank :: "nat list"
  ly_logcnt :: "nat list"

definition log2mlog_of :: "nat \<Rightarrow> nat \<Rightarrow> int list \<Rightarrow> int list \<Rightarrow> nat list" where
  "log2mlog_of groups_per_node group_size pack_idx rank_idx =
     concat (map2 (\<lambda>p r. map (\<lambda>j. (nat p * groups_per_node + nat r) * group_size + j) [0..<group_size])
              pack_idx rank_idx)"

definition rebalance_layer ::
  "('f::linordered_field) torch_ops \<Rightarrow> 'f list \<Rightarrow> nat \<Rightarrow> nat \<Rightarrow> nat \<Rightarrow> nat \<Rightarrow> layer_result result" where
  "rebalance_layer t weight num_physical num_groups num_nodes num_gpus =
     (let n = length weight; group_size = n div num_groups; groups_per_node = num_groups div num_nodes;
          phy_experts_per_gpu = num_physical div num_gpus;
          tokens_per_group = map sum_list (chunks group_size weight)
      in bind_res (balanced_packing_row t tokens_per_group num_nodes) (\<lambda>(pack_idx, rank_idx).
         let log2mlog = log2mlog_of groups_per_node group_size pack_idx rank_idx;
             mlog2log = inverse_perm log2mlog;
             tokens_per_mlog = chunks (n div num_nodes) (gather_row weight mlog2log)
         in bind_res (map_res (\<lambda>row. rebalance_node t row (num_physical div num_nodes) (num_gpus div num_nodes)
                          phy_experts_per_gpu) tokens_per_mlog) (\<lambda>nodes.
            let pphy2mlog = concat (map2 (\<lambda>node off. map (\<lambda>m. m + off) (nr_phy2mlog node)) nodes
                              (map (\<lambda>j. j * (n div num_nodes)) [0..<length nodes]))
            in Inr \<lparr>ly_phy2log = gather_row mlog2log pphy2mlog,
                    ly_phyrank = concat (map nr_phyrank nodes),
                    ly_logcnt = gather_row (concat (map nr_mlogcnt nodes)) log2mlog\<rparr>)))"

definition rebalance_experts_hierarchical ::
  "('f::linordered_field) torch_ops \<Rightarrow> 'f list list \<Rightarrow> nat \<Rightarrow> nat \<Rightarrow> nat \<Rightarrow> nat \<Rightarrow> layer_result list result" where
  "rebalance_experts_hierarchical t weight num_physical num_groups num_nodes num_gpus =
     (let n = shape1 weight in
      if num_groups = 0 then Inl ZeroDivisionError
      else py_assert (n mod num_groups = 0)
      (if num_nodes = 0 then Inl ZeroDivisionError
       else py_assert (num_groups mod num_nodes = 0)
       (py_assert (num_gpus mod num_nodes = 0)
       (if num_gpus = 0 then Inl ZeroDivisionError
        else py_assert (num_physical mod num_gpus = 0)
          (map_res (\<lambda>row. rebalance_layer t row num_physical num_groups num_nodes num_gpus) weight)))))"

section \<open>The entry point\<close>

text \<open>One layer of \<open>log2phy\<close>: a row of \<open>maxlogcnt\<close> slots per logical expert, filled by scatter.\<close>

definition log2phy_row :: "nat \<Rightarrow> nat \<Rightarrow> layer_result \<Rightarrow> int list list" where
  "log2phy_row num_logical maxlogcnt lr =
     chunks maxlogcnt (scatter_row (replicate (num_logical * maxlogcnt) (-1))
       (zip (map2 (\<lambda>e r. e * maxlogcnt + r) (ly_phy2log lr) (ly_phyrank lr))
            (map int [0..<length (ly_phy2log lr)])))"

type_synonym eplb_result = "int list list \<times> int list list list \<times> nat list list"

definition log2phy_of :: "nat \<Rightarrow> layer_result list \<Rightarrow> int list list list result" where
  "log2phy_of num_logical layers =
     (if concat (map ly_logcnt layers) = [] then Inl RuntimeError
      else let maxlogcnt = Max (set (concat (map ly_logcnt layers)))
           in Inr (map (log2phy_row num_logical maxlogcnt) layers))"

definition rebalance_experts ::
  "('f::linordered_field) torch_ops \<Rightarrow> 'f list list \<Rightarrow> nat \<Rightarrow> nat option \<Rightarrow> nat \<Rightarrow> nat \<Rightarrow> bool \<Rightarrow> eplb_result result" where
  "rebalance_experts t weight num_replicas num_groups num_nodes num_gpus enable_hierarchical =
     bind_res
       (if enable_hierarchical
        then (case num_groups of None \<Rightarrow> Inl TypeError
              | Some g \<Rightarrow> rebalance_experts_hierarchical t weight num_replicas g num_nodes num_gpus)
        else rebalance_experts_hierarchical t weight num_replicas 1 1 num_gpus) (\<lambda>layers.
     bind_res (log2phy_of (shape1 weight) layers) (\<lambda>log2phy.
       Inr (map (map int \<circ> ly_phy2log) layers, log2phy, map ly_logcnt layers)))"

section \<open>Enumerations and permutations\<close>

text \<open>
  \<open>enumerates ps cnt\<close>: the pairs \<open>ps\<close> list, without repetition, every copy \<open>0..<cnt ! p\<close> of every
  object \<open>p\<close>. Both packing (ranks in a pack) and replication (replicas of an expert) build one.
\<close>

definition enumerates :: "(nat \<times> nat) list \<Rightarrow> nat list \<Rightarrow> bool" where
  "enumerates ps cnt \<longleftrightarrow> distinct ps \<and> set ps = {(p, k). p < length cnt \<and> k < cnt ! p}"

definition is_perm :: "nat list \<Rightarrow> bool" where
  "is_perm xs \<longleftrightarrow> distinct xs \<and> set xs = {..<length xs}"

lemma enumerates_snoc:
  assumes "enumerates ps cnt" "p < length cnt"
  shows "enumerates (ps @ [(p, cnt ! p)]) (cnt[p := Suc (cnt ! p)])"
  using assms by (auto simp: enumerates_def nth_list_update less_Suc_eq split: if_splits)

lemma enumerates_mset:
  assumes "mset ps = mset qs"
  shows "enumerates ps cnt \<longleftrightarrow> enumerates qs cnt"
  using mset_eq_imp_distinct_iff[OF assms] mset_eq_setD[OF assms] by (simp add: enumerates_def)

lemma enumerates_append:
  assumes "enumerates ps a" "enumerates qs b"
  shows "enumerates (ps @ map (\<lambda>(p, k). (p + length a, k)) qs) (a @ b)"
proof -
  have inj: "inj_on (\<lambda>(p, k). (p + length a, k)) (set qs)" by (auto simp: inj_on_def)
  have "set (map (\<lambda>(p, k). (p + length a, k)) qs) = {(p, k). length a \<le> p \<and> p < length a + length b \<and> k < b ! (p - length a)}"
    using assms(2) by (force simp: enumerates_def image_iff)
  then show ?thesis
    using assms inj by (auto simp: enumerates_def nth_append distinct_map not_less split: if_splits)
qed

lemma is_perm_mset: "is_perm xs \<longleftrightarrow> mset xs = mset [0..<length xs]"
  unfolding is_perm_def
  by (metis atLeast0LessThan distinct_upt mset_eq_imp_distinct_iff mset_eq_setD set_eq_iff_mset_eq_distinct set_upt)

lemma gather_perm:
  assumes "is_perm p" "length p = length xs"
  shows "mset (gather_row xs p) = mset xs"
proof -
  have "mset (gather_row xs p) = image_mset (\<lambda>i. xs ! i) (mset [0..<length xs])"
    using assms by (simp add: gather_row_def is_perm_mset)
  also have "\<dots> = mset xs" by (metis map_nth mset_map)
  finally show ?thesis .
qed

lemma gather_zip:
  assumes "length xs = length ys" "set p \<subseteq> {..<length xs}"
  shows "zip (gather_row xs p) (gather_row ys p) = gather_row (zip xs ys) p"
proof (rule nth_equalityI)
  fix i assume "i < length (zip (gather_row xs p) (gather_row ys p))"
  then have "i < length p" by simp
  then have "p ! i < length xs" using assms(2) nth_mem by fastforce
  then show "zip (gather_row xs p) (gather_row ys p) ! i = gather_row (zip xs ys) p ! i"
    using \<open>i < length p\<close> assms(1) by (simp add: gather_row_def)
qed simp

lemma inverse_perm_correct:
  assumes "is_perm xs"
  shows "length (inverse_perm xs) = length xs"
    and "i < length xs \<Longrightarrow> inverse_perm xs ! (xs ! i) = i"
    and "is_perm (inverse_perm xs)"
proof -
  show len: "length (inverse_perm xs) = length xs" by (simp add: inverse_perm_def)
  show inv: "inverse_perm xs ! (xs ! i) = i" if "i < length xs" for i
  proof -
    have "xs ! i < length xs" using assms that nth_mem by (fastforce simp: is_perm_def)
    then show ?thesis
      unfolding inverse_perm_def using assms that
      by (intro scatter_row_at) (auto simp: is_perm_def in_set_zip)
  qed
  have "{..<length xs} \<subseteq> set (inverse_perm xs)"
  proof
    fix i assume "i \<in> {..<length xs}"
    then have "xs ! i < length (inverse_perm xs)"
      using assms nth_mem[of i xs] len by (auto simp: is_perm_def)
    then show "i \<in> set (inverse_perm xs)" using inv[of i] \<open>i \<in> {..<length xs}\<close> nth_mem by fastforce
  qed
  moreover have "card (set (inverse_perm xs)) \<le> length xs" using card_length[of "inverse_perm xs"] len by simp
  ultimately have "set (inverse_perm xs) = {..<length xs}"
    by (metis card_lessThan card_seteq List.finite_set)
  then show "is_perm (inverse_perm xs)"
    by (simp add: is_perm_def len card_distinct)
qed

lemma inverse_perm_right:
  assumes "is_perm xs" "j < length xs"
  shows "xs ! (inverse_perm xs ! j) = j" and "inverse_perm xs ! j < length xs"
proof -
  obtain i where "i < length xs" "xs ! i = j" using assms by (metis in_set_conv_nth is_perm_def lessThan_iff)
  then show "xs ! (inverse_perm xs ! j) = j" "inverse_perm xs ! j < length xs"
    using inverse_perm_correct(2)[OF assms(1)] by auto
qed

section \<open>Packing is a bijection\<close>

lemma torch_specD:
  assumes "torch_spec t"
  shows "mset (argsort_desc t xs) = mset [0..<length xs]"
    and "xs \<noteq> [] \<Longrightarrow> argmax t xs < length xs"
    and "x \<in> set xs \<Longrightarrow> x \<le> xs ! argmax t xs"
    and "xs \<noteq> [] \<Longrightarrow> argmin t xs < length xs"
    and "x \<in> set xs \<Longrightarrow> xs ! argmin t xs \<le> x"
  using assms unfolding torch_spec_def by (blast, blast, metis empty_iff empty_set, blast, metis empty_iff empty_set)

definition pack_inv :: "nat \<Rightarrow> nat \<Rightarrow> nat \<Rightarrow> nat list \<Rightarrow> 'f pack_state \<Rightarrow> bool" where
  "pack_inv packs gpp n ds s \<longleftrightarrow>
     length (pack_items s) = packs \<and> length (pack_index s) = n \<and> length (rank_in_pack s) = n \<and>
     (\<forall>i < packs. pack_items s ! i \<le> gpp) \<and> sum_list (pack_items s) = length ds \<and>
     (\<forall>g \<in> set ds. 0 \<le> pack_index s ! g \<and> 0 \<le> rank_in_pack s ! g) \<and>
     enumerates (map (\<lambda>g. (nat (pack_index s ! g), nat (rank_in_pack s ! g))) ds) (pack_items s)"

lemma sum_list_all_ge:
  assumes "\<forall>i < length xs. (c::nat) \<le> xs ! i"
  shows "length xs * c \<le> sum_list xs"
  using assms
proof (induction xs)
  case (Cons x xs)
  have "c \<le> x" "\<forall>i < length xs. c \<le> xs ! i" using Cons.prems by (auto simp: nth_Cons_0 dest: spec[of _ "Suc _"])
  with Cons.IH show ?case by simp
qed simp

lemma sum_list_incr: "p < length xs \<Longrightarrow> sum_list (xs[p := Suc (xs ! p)]) = Suc (sum_list xs)"
  by (induction xs arbitrary: p) (auto simp: nth_Cons split: nat.splits)

lemma pack_step_inv:
  assumes inv: "pack_inv packs gpp n ds s" and g: "g < n" "g \<notin> set ds" and room: "length ds < packs * gpp"
  shows "\<exists>s'. pack_step weight gpp g s = Inr s' \<and> pack_inv packs gpp n (ds @ [g]) s'"
proof -
  let ?open = "filter (\<lambda>i. pack_items s ! i < gpp) [0..<length (pack_items s)]"
  let ?p = "arg_min_list (\<lambda>i. pack_weights s ! i) ?open"
  note i = inv[unfolded pack_inv_def]
  have "?open \<noteq> []"
  proof
    assume "?open = []"
    then have "\<forall>i < length (pack_items s). gpp \<le> pack_items s ! i" by (auto simp: filter_empty_conv not_less)
    from sum_list_all_ge[OF this] i room show False by simp
  qed
  then have "?p \<in> set ?open" by (rule arg_min_list_in)
  then have p: "?p < packs" "pack_items s ! ?p < gpp" using i by auto
  let ?s' = "\<lparr>pack_weights = (pack_weights s)[?p := pack_weights s ! ?p + weight ! g],
     pack_items = (pack_items s)[?p := Suc (pack_items s ! ?p)],
     pack_index = (pack_index s)[g := int ?p], rank_in_pack = (rank_in_pack s)[g := int (pack_items s ! ?p)]\<rparr>"
  have "pack_step weight gpp g s = Inr ?s'"
    using \<open>?open \<noteq> []\<close> p(2) by (simp add: pack_step_def Let_def)
  moreover have "map (\<lambda>h. (nat (pack_index ?s' ! h), nat (rank_in_pack ?s' ! h))) (ds @ [g]) =
      map (\<lambda>h. (nat (pack_index s ! h), nat (rank_in_pack s ! h))) ds @ [(?p, pack_items s ! ?p)]"
    using g i by (auto simp: nth_list_update)
  then have "enumerates (map (\<lambda>h. (nat (pack_index ?s' ! h), nat (rank_in_pack ?s' ! h))) (ds @ [g])) (pack_items ?s')"
    using enumerates_snoc[of _ "pack_items s" ?p] i p(1) by (simp only: pack_state.simps)
  then have "pack_inv packs gpp n (ds @ [g]) ?s'"
    using i g p by (auto simp: pack_inv_def nth_list_update sum_list_incr Suc_le_eq)
  ultimately show ?thesis by blast
qed

lemma pack_fold_inv:
  assumes "pack_inv packs gpp n ds s" and "distinct (ds @ gs)" and "set (ds @ gs) \<subseteq> {..<n}"
    and "length (ds @ gs) \<le> packs * gpp"
  shows "\<exists>s'. fold_res (pack_step weight gpp) gs s = Inr s' \<and> pack_inv packs gpp n (ds @ gs) s'"
  using assms
proof (induction gs arbitrary: ds s)
  case (Cons g gs)
  then obtain s1 where s1: "pack_step weight gpp g s = Inr s1" "pack_inv packs gpp n (ds @ [g]) s1"
    using pack_step_inv[of packs gpp n ds s g weight] by auto
  with Cons.IH[OF s1(2)] Cons.prems show ?case by simp
qed simp

lemma init_pack_inv: "pack_inv packs gpp n [] (init_pack n packs)"
  by (auto simp: pack_inv_def init_pack_def enumerates_def)

lemma sum_list_full:
  assumes "\<forall>i < length xs. xs ! i \<le> (c::nat)" "sum_list xs = length xs * c" "i < length xs"
  shows "xs ! i = c"
proof (rule ccontr)
  assume "xs ! i \<noteq> c"
  then have "Suc (xs ! i) \<le> c" using assms by (simp add: Suc_le_eq le_neq_implies_less)
  then have "\<forall>j < length (xs[i := Suc (xs ! i)]). (xs[i := Suc (xs ! i)]) ! j \<le> c"
    using assms(1,3) by (auto simp: nth_list_update)
  then have "sum_list (xs[i := Suc (xs ! i)]) \<le> length xs * c"
    using sum_list_nat_le[of "xs[i := Suc (xs ! i)]" id "\<lambda>_. c"]
    by (auto simp: in_set_conv_nth sum_list_triv)
  then show False using sum_list_incr[OF assms(3)] assms(2) by simp
qed

lemma balanced_packing_row_correct:
  assumes t: "torch_spec t" and "0 < packs" and n: "length w = packs * gpp"
  shows "\<exists>idx rk. balanced_packing_row t w packs = Inr (idx, rk) \<and> length idx = length w \<and> length rk = length w \<and>
     (\<forall>g < length w. 0 \<le> idx ! g \<and> idx ! g < int packs \<and> 0 \<le> rk ! g \<and> rk ! g < int gpp) \<and>
     inj_on (\<lambda>g. (idx ! g, rk ! g)) {..<length w}"
proof (cases "gpp = 1")
  case True
  then show ?thesis
    using assms by (auto simp: balanced_packing_row_def inj_on_def)
next
  case False
  let ?n = "length w" and ?order = "argsort_desc t w"
  have perm: "mset ?order = mset [0..<?n]" using torch_specD(1)[OF t] .
  have o: "distinct ?order" "set ?order = {..<?n}" "length ?order = ?n"
    using mset_eq_imp_distinct_iff[OF perm] mset_eq_setD[OF perm] mset_eq_length[OF perm]
    by (simp_all add: atLeast0LessThan)
  obtain s where s: "fold_res (pack_step w gpp) ?order (init_pack ?n packs) = Inr s" "pack_inv packs gpp ?n ?order s"
    using pack_fold_inv[OF init_pack_inv[of packs gpp ?n], of ?order w] o n by auto
  note i = s(2)[unfolded pack_inv_def]
  have "sum_list (pack_items s) = length (pack_items s) * gpp" using i o(3) n by simp
  then have full: "pack_items s ! p = gpp" if "p < packs" for p
    using sum_list_full[of "pack_items s" gpp p] i that by auto
  let ?f = "\<lambda>g. (nat (pack_index s ! g), nat (rank_in_pack s ! g))"
  have "distinct (map ?f ?order)" "set (map ?f ?order) = {(p, k). p < packs \<and> k < gpp}"
    using i full by (auto simp: enumerates_def)
  then have inj: "inj_on ?f {..<?n}" and im: "?f ` {..<?n} = {(p, k). p < packs \<and> k < gpp}"
    using o by (auto simp: distinct_map)
  have nn: "0 \<le> pack_index s ! g" "0 \<le> rank_in_pack s ! g" if "g < ?n" for g using i o(2) that by auto
  have bounds: "pack_index s ! g < int packs \<and> rank_in_pack s ! g < int gpp" if "g < ?n" for g
  proof -
    have "?f g \<in> {(p, k). p < packs \<and> k < gpp}" using im that by blast
    then show ?thesis using nn[OF that] by auto
  qed
  have "inj_on (\<lambda>g. (pack_index s ! g, rank_in_pack s ! g)) {..<?n}"
    using inj by (auto simp: inj_on_def)
  moreover have "balanced_packing_row t w packs = Inr (pack_index s, rank_in_pack s)"
    using s(1) False assms(2) n by (simp add: balanced_packing_row_def)
  ultimately show ?thesis using i nn bounds by auto
qed

lemma packing_bij:
  assumes b: "\<forall>g < packs * gpp. 0 \<le> idx ! g \<and> idx ! g < int packs \<and> 0 \<le> rk ! g \<and> rk ! g < int gpp"
    and inj: "inj_on (\<lambda>g. (idx ! g, rk ! g)) {..<packs * gpp}" and p: "p < packs"
  shows "bij_betw (\<lambda>g. rk ! g) {g. g < packs * gpp \<and> idx ! g = int p} {0..<int gpp}"
proof -
  let ?f = "\<lambda>g. (idx ! g, rk ! g)" and ?box = "{0..<int packs} \<times> {0..<int gpp}"
  have "?f ` {..<packs * gpp} = ?box"
    using b inj by (intro card_seteq) (auto simp: card_image card_cartesian_product)
  then have "r \<in> (\<lambda>g. rk ! g) ` {g. g < packs * gpp \<and> idx ! g = int p}" if "r \<in> {0..<int gpp}" for r
  proof -
    have "(int p, r) \<in> ?f ` {..<packs * gpp}" unfolding \<open>?f ` {..<packs * gpp} = ?box\<close> using that p by simp
    then show ?thesis by auto
  qed
  moreover have "inj_on (\<lambda>g. rk ! g) {g. g < packs * gpp \<and> idx ! g = int p}"
    using inj by (auto simp: inj_on_def)
  ultimately show ?thesis using b by (auto simp: bij_betw_def)
qed

text \<open>
  Balanced packing: whenever the number of items is a multiple of the number of packs, every
  row is packed without error, and each pack receives exactly its share of the items, whose ranks
  in the pack are the numbers from zero up, each used once.
\<close>

theorem balanced_packing_correct:
  assumes t: "torch_spec t" and packs: "0 < packs" and w: "rect layers (packs * gpp) weight"
  shows "\<exists>idx rk. balanced_packing t weight packs = Inr (idx, rk) \<and> length idx = layers \<and> length rk = layers \<and>
     (\<forall>l < layers. length (idx ! l) = packs * gpp \<and> length (rk ! l) = packs * gpp \<and>
        (\<forall>p < packs. bij_betw (\<lambda>g. rk ! l ! g) {g. g < packs * gpp \<and> idx ! l ! g = int p} {0..<int gpp}))"
proof -
  let ?P = "\<lambda>ir. length (fst ir) = packs * gpp \<and> length (snd ir) = packs * gpp \<and>
     (\<forall>p < packs. bij_betw (\<lambda>g. snd ir ! g) {g. g < packs * gpp \<and> fst ir ! g = int p} {0..<int gpp})"
  have "\<exists>ir. balanced_packing_row t row packs = Inr ir \<and> ?P ir" if "row \<in> set weight" for row
  proof -
    have row: "length row = packs * gpp" using rect_row_mem[OF w that] .
    then obtain idx rk where b: "balanced_packing_row t row packs = Inr (idx, rk)"
      "length idx = packs * gpp" "length rk = packs * gpp"
      "\<forall>g < packs * gpp. 0 \<le> idx ! g \<and> idx ! g < int packs \<and> 0 \<le> rk ! g \<and> rk ! g < int gpp"
      "inj_on (\<lambda>g. (idx ! g, rk ! g)) {..<packs * gpp}"
      using balanced_packing_row_correct[OF t packs row] by auto
    then show ?thesis using packing_bij[OF b(4,5)] by (intro exI[of _ "(idx, rk)"]) simp
  qed
  then obtain rows where rows: "map_res (\<lambda>row. balanced_packing_row t row packs) weight = Inr rows"
    "list_all2 (\<lambda>_. ?P) weight rows"
    using map_res_total[of weight "\<lambda>row. balanced_packing_row t row packs" "\<lambda>_. ?P"] by blast
  then have "balanced_packing t weight packs = Inr (map fst rows, map snd rows)"
    by (simp add: balanced_packing_def)
  moreover have "length rows = layers" "\<forall>l < layers. ?P (rows ! l)"
    using rows(2) rect_length[OF w] by (auto simp: list_all2_conv_all_nth)
  ultimately show ?thesis by (intro exI[of _ "map fst rows"] exI[of _ "map snd rows"]) simp
qed

text \<open>Numbering the slots pack by pack turns a packing into a permutation.\<close>

lemma inj_slot: "inj_on (\<lambda>(p, r). p * c + r) {(p, r). r < (c::nat)}"
proof (rule inj_onI, clarify)
  fix p r p' r' assume "p * c + r = p' * c + r'" "r < c" "r' < c"
  then show "p = p' \<and> r = r'"
    by (metis add.commute div_mult_self3 div_less mod_less mod_mult_self3 not_less_zero add_0)
qed

lemma slot_bound: "p < a \<Longrightarrow> r < c \<Longrightarrow> p * c + r < a * (c::nat)"
proof -
  assume "p < a" "r < c"
  then have "p * c + r < Suc p * c" by simp
  also have "\<dots> \<le> a * c" using \<open>p < a\<close> by (intro mult_le_mono1) simp
  finally show ?thesis .
qed

lemma slots_perm:
  assumes "length idx = a * c" "length rk = a * c"
    and "\<forall>g < a * c. 0 \<le> idx ! g \<and> idx ! g < int a \<and> 0 \<le> rk ! g \<and> rk ! g < int c"
    and "inj_on (\<lambda>g. (idx ! g, rk ! g)) {..<a * c}"
  shows "is_perm (map2 (\<lambda>p r. nat p * c + nat r) idx rk)"
proof -
  let ?xs = "map2 (\<lambda>p r. nat p * c + nat r) idx rk"
  let ?g = "\<lambda>g. (nat (idx ! g), nat (rk ! g))"
  have nth: "?xs ! g = (\<lambda>(p, r). p * c + r) (?g g)" if "g < a * c" for g using that assms by simp
  have "inj_on ?g {..<a * c}" using assms(3,4) by (auto simp: inj_on_def nat_eq_iff)
  moreover have "?g ` {..<a * c} \<subseteq> {(p, r). r < c}" using assms(3) by auto
  ultimately have "inj_on ((\<lambda>(p, r). p * c + r) \<circ> ?g) {..<a * c}"
    by (intro comp_inj_on inj_on_subset[OF inj_slot])
  then have "distinct ?xs"
    unfolding distinct_conv_nth using assms(1,2) nth by (auto simp: inj_on_def)
  moreover have "set ?xs \<subseteq> {..<a * c}"
  proof
    fix x assume "x \<in> set ?xs"
    then obtain g where "g < a * c" "x = ?xs ! g" using assms(1,2) by (auto simp: in_set_conv_nth)
    then show "x \<in> {..<a * c}" using nth[of g] slot_bound[of "nat (idx ! g)" a "nat (rk ! g)" c] assms(3) by auto
  qed
  ultimately have "set ?xs = {..<a * c}"
    using card_seteq[of "{..<a * c}" "set ?xs"] distinct_card[of ?xs] assms(1,2) by simp
  then show ?thesis using \<open>distinct ?xs\<close> assms(1,2) by (simp add: is_perm_def)
qed

section \<open>Replication is complete and optimal\<close>

lemma enumerates_length:
  assumes "enumerates ps cnt"
  shows "length ps = sum_list cnt"
proof -
  have "set ps = (SIGMA p:{..<length cnt}. {..<cnt ! p})" using assms by (auto simp: enumerates_def)
  then have "length ps = card (SIGMA p:{..<length cnt}. {..<cnt ! p})"
    using assms distinct_card[of ps] by (simp add: enumerates_def)
  then show ?thesis by (simp add: sum_list_sum_nth atLeast0LessThan)
qed

definition greedy_inv :: "('f::linordered_field) list \<Rightarrow> nat list \<Rightarrow> bool" where
  "greedy_inv w cnt \<longleftrightarrow> (\<forall>e < length w. 1 \<le> cnt ! e) \<and>
     (\<forall>f < length w. \<forall>e < length w. 2 \<le> cnt ! f \<longrightarrow> w ! e / of_nat (cnt ! e) \<le> w ! f / of_nat (cnt ! f - 1))"

lemma load_antimono:
  fixes x :: "'f::linordered_field"
  assumes "0 \<le> x" "1 \<le> a" "a \<le> b"
  shows "x / of_nat b \<le> x / of_nat a"
  using assms by (intro divide_left_mono mult_pos_pos) auto

lemma greedy_step:
  fixes w :: "('f::linordered_field) list"
  assumes inv: "greedy_inv w cnt" and len: "length cnt = length w" and a: "a < length w"
    and pos: "\<forall>e < length w. 0 \<le> w ! e"
    and max: "\<forall>e < length w. w ! e / of_nat (cnt ! e) \<le> w ! a / of_nat (cnt ! a)"
  shows "greedy_inv w (cnt[a := Suc (cnt ! a)])"
proof -
  let ?c = "cnt[a := Suc (cnt ! a)]"
  have one: "1 \<le> cnt ! e" if "e < length w" for e using inv that by (simp add: greedy_inv_def)
  have dec: "w ! e / of_nat (?c ! e) \<le> w ! e / of_nat (cnt ! e)" if "e < length w" for e
    using that pos one[OF that] len a by (intro load_antimono) (auto simp: nth_list_update)
  have "w ! e / of_nat (?c ! e) \<le> w ! f / of_nat (?c ! f - 1)" if "f < length w" "e < length w" "2 \<le> ?c ! f" for e f
  proof (cases "f = a")
    case True
    then show ?thesis using max that len order_trans[OF dec] by (auto simp: nth_list_update)
  next
    case False
    then have "?c ! f = cnt ! f" by simp
    then show ?thesis using inv that order_trans[OF dec[OF that(2)]] by (simp add: greedy_inv_def)
  qed
  moreover have "\<forall>e < length w. 1 \<le> ?c ! e" using one len a by (auto simp: nth_list_update)
  ultimately show ?thesis by (simp add: greedy_inv_def)
qed

lemma greedy_optimal:
  fixes w :: "('f::linordered_field) list"
  assumes inv: "greedy_inv w cnt" and len: "length cnt = length w" "length c' = length w"
    and total: "sum_list c' = sum_list cnt" and c': "\<forall>e < length w. 1 \<le> c' ! e"
    and pos: "\<forall>e < length w. 0 \<le> w ! e" and e: "e < length w"
  shows "\<exists>f < length w. w ! e / of_nat (cnt ! e) \<le> w ! f / of_nat (c' ! f)"
proof (cases "c' ! e \<le> cnt ! e")
  case True
  then show ?thesis using e c' pos by (intro exI[of _ e] conjI load_antimono) auto
next
  case False
  have "\<exists>f < length w. c' ! f < cnt ! f"
  proof (rule ccontr)
    assume "\<not> ?thesis"
    then have "\<forall>f < length w. cnt ! f \<le> c' ! f" by (meson not_less)
    then have "(\<Sum>i < length w. cnt ! i) < (\<Sum>i < length w. c' ! i)"
      using False e by (intro sum_strict_mono_ex1) (auto simp: not_le intro!: bexI[of _ e])
    then show False using total len by (simp add: sum_list_sum_nth atLeast0LessThan)
  qed
  then obtain f where f: "f < length w" "c' ! f < cnt ! f" by blast
  have "1 \<le> c' ! f" "2 \<le> cnt ! f" "c' ! f \<le> cnt ! f - 1" using c' f by (auto simp: Suc_le_eq dest: spec[of _ f])
  then have "w ! e / of_nat (cnt ! e) \<le> w ! f / of_nat (cnt ! f - 1)"
    using inv e f by (simp add: greedy_inv_def)
  also have "\<dots> \<le> w ! f / of_nat (c' ! f)"
    using \<open>1 \<le> c' ! f\<close> \<open>c' ! f \<le> cnt ! f - 1\<close> pos f by (intro load_antimono) auto
  finally show ?thesis using f by blast
qed

definition rep_inv :: "('f::linordered_field) list \<Rightarrow> nat \<Rightarrow> nat \<Rightarrow> replica_state \<Rightarrow> bool" where
  "rep_inv w num_phy i s \<longleftrightarrow>
     length (phy2log s) = num_phy \<and> length (replica_rank s) = num_phy \<and> length (logcnt s) = length w \<and>
     enumerates (zip (take i (phy2log s)) (take i (replica_rank s))) (logcnt s) \<and>
     (\<forall>e < length w. 1 \<le> logcnt s ! e) \<and> ((\<forall>e < length w. 0 \<le> w ! e) \<longrightarrow> greedy_inv w (logcnt s))"

lemma replicate_step_inv:
  assumes t: "torch_spec t" and w: "w \<noteq> []" and i: "i < num_phy" and inv: "rep_inv w num_phy i s"
  shows "rep_inv w num_phy (Suc i) (replicate_step t w i s)"
proof -
  let ?loads = "map2 (\<lambda>w c. w / of_nat c) w (logcnt s)"
  let ?a = "argmax t ?loads"
  note v = inv[unfolded rep_inv_def]
  have ll: "length ?loads = length w" using v by simp
  then have "?loads \<noteq> []" using w by (metis length_0_conv)
  then have a: "?a < length w" using torch_specD(2)[OF t] ll by metis
  have max: "w ! e / of_nat (logcnt s ! e) \<le> w ! ?a / of_nat (logcnt s ! ?a)" if "e < length w" for e
    using torch_specD(3)[OF t, of "?loads ! e" ?loads] nth_mem[of e ?loads] that a ll v by simp
  have "zip (take (Suc i) ((phy2log s)[i := ?a])) (take (Suc i) ((replica_rank s)[i := logcnt s ! ?a])) =
      zip (take i (phy2log s)) (take i (replica_rank s)) @ [(?a, logcnt s ! ?a)]"
    using i v by (simp add: take_Suc_conv_app_nth)
  then show ?thesis
    using v a enumerates_snoc[of _ "logcnt s" ?a] greedy_step[of w "logcnt s" ?a] max
    by (auto simp: rep_inv_def replicate_step_def Let_def nth_list_update)
qed

lemma replicate_row_inv:
  assumes t: "torch_spec t" and w: "w \<noteq> []" and n: "length w \<le> num_phy"
  shows "\<exists>s. replicate_row t w num_phy = Inr s \<and> rep_inv w num_phy num_phy s"
proof -
  let ?s0 = "\<lparr>phy2log = [0..<num_phy], replica_rank = replicate num_phy 0, logcnt = replicate (length w) 1\<rparr>"
  have pairs: "zip (take (length w) [0..<num_phy]) (take (length w) (replicate num_phy 0)) = map (\<lambda>p. (p, 0)) [0..<length w]"
    using n by (auto intro!: nth_equalityI)
  have "enumerates (map (\<lambda>p. (p, 0)) [0..<length w]) (replicate (length w) 1)"
    by (auto simp: enumerates_def distinct_map inj_on_def)
  then have "rep_inv w num_phy (length w) ?s0"
    unfolding rep_inv_def replica_state.simps pairs by (simp add: greedy_inv_def)
  then have "rep_inv w num_phy (length w + k) (fold (replicate_step t w) [length w..<length w + k] ?s0)"
    if "length w + k \<le> num_phy" for k
    using that by (induction k) (auto intro!: replicate_step_inv[OF t w])
  from this[of "num_phy - length w"] show ?thesis
    using n w by (auto simp: replicate_row_def Let_def)
qed

text \<open>
  (C28) Replication is optimal: \<open>num_phy\<close> replicas are distributed over the logical experts, each
  gets at least one, the replicas of an expert are numbered from zero without gaps, and no other
  distribution of the same number of replicas has a smaller maximum load per replica: whatever
  load an expert has here, any other distribution has some expert with at least that load.
\<close>

theorem replicate_experts_optimal:
  fixes w :: "('f::linordered_field) list"
  assumes t: "torch_spec t" and w: "w \<noteq> []" and n: "length w \<le> num_phy"
    and pos: "\<forall>e < length w. 0 \<le> w ! e"
  shows "\<exists>p r c. replicate_experts t [w] num_phy = Inr ([p], [r], [c]) \<and>
     length p = num_phy \<and> length r = num_phy \<and> length c = length w \<and>
     enumerates (zip p r) c \<and> sum_list c = num_phy \<and> (\<forall>e < length w. 1 \<le> c ! e) \<and>
     (\<forall>c' e. length c' = length w \<and> sum_list c' = num_phy \<and> (\<forall>e < length w. 1 \<le> c' ! e) \<and> e < length w \<longrightarrow>
        (\<exists>f < length w. w ! e / of_nat (c ! e) \<le> w ! f / of_nat (c' ! f)))"
proof -
  obtain s where s: "replicate_row t w num_phy = Inr s" "rep_inv w num_phy num_phy s"
    using replicate_row_inv[OF t w n] by blast
  note v = s(2)[unfolded rep_inv_def]
  have en: "enumerates (zip (phy2log s) (replica_rank s)) (logcnt s)" using v by auto
  then have total: "sum_list (logcnt s) = num_phy" using enumerates_length v by fastforce
  have opt: "\<exists>f < length w. w ! e / of_nat (logcnt s ! e) \<le> w ! f / of_nat (c' ! f)"
    if "length c' = length w" "sum_list c' = num_phy" "\<forall>e < length w. 1 \<le> c' ! e" "e < length w" for c' e
    using greedy_optimal[of w "logcnt s" c' e] v pos that total by auto
  have "replicate_experts t [w] num_phy = Inr ([phy2log s], [replica_rank s], [logcnt s])"
    using s(1) by (simp add: replicate_experts_def)
  then show ?thesis
    using v en total opt
    by (intro exI[of _ "phy2log s"] exI[of _ "replica_rank s"] exI[of _ "logcnt s"]) auto
qed

definition stable_torch :: "('f::linorder) torch_ops" where
  "stable_torch = \<lparr>argsort_desc = (\<lambda>xs. sort_desc (\<lambda>i. xs ! i) [0..<length xs]),
     argmax = (\<lambda>xs. hd (sort_desc (\<lambda>i. xs ! i) [0..<length xs])),
     argmin = (\<lambda>xs. last (sort_desc (\<lambda>i. xs ! i) [0..<length xs]))\<rparr>"

lemma stable_torch_spec: "torch_spec (stable_torch :: ('f::linorder) torch_ops)"
proof -
  have "hd (sort_desc (\<lambda>i. xs ! i) [0..<length xs]) < length xs \<and>
      (\<forall>x \<in> set xs. x \<le> xs ! hd (sort_desc (\<lambda>i. xs ! i) [0..<length xs]))" if "xs \<noteq> []" for xs :: "'f list"
  proof -
    let ?s = "sort_desc (\<lambda>i. xs ! i) [0..<length xs]"
    have st: "set ?s = {..<length xs}" by auto
    moreover have "?s \<noteq> []" using that by (metis length_0_conv length_sort_desc length_upt diff_zero)
    ultimately obtain i js where s: "?s = i # js" by (cases ?s) auto
    have "xs ! j \<le> xs ! i" if "j < length xs" for j
      using sort_desc_sorted[of "\<lambda>i. xs ! i" "[0..<length xs]"] st that unfolding s by auto
    moreover have "i < length xs" using st s by auto
    ultimately show ?thesis by (auto simp: s in_set_conv_nth)
  qed
  moreover have "last (sort_desc (\<lambda>i. xs ! i) [0..<length xs]) < length xs \<and>
      (\<forall>x \<in> set xs. xs ! last (sort_desc (\<lambda>i. xs ! i) [0..<length xs]) \<le> x)" if "xs \<noteq> []" for xs :: "'f list"
  proof -
    let ?s = "sort_desc (\<lambda>i. xs ! i) [0..<length xs]"
    have st: "set ?s = {..<length xs}" by auto
    moreover have "?s \<noteq> []" using that by (metis length_0_conv length_sort_desc length_upt diff_zero)
    ultimately obtain i js where s: "?s = js @ [i]" by (cases ?s rule: rev_cases) auto
    have "xs ! i \<le> xs ! j" if "j < length xs" for j
      using sort_desc_sorted[of "\<lambda>i. xs ! i" "[0..<length xs]"] st that unfolding s by (auto simp: sorted_wrt_append)
    moreover have "i < length xs" using st s by auto
    ultimately show ?thesis by (auto simp: s in_set_conv_nth)
  qed
  ultimately show ?thesis
    using sort_desc_sorted[of "\<lambda>i. _ ! i"] unfolding torch_spec_def stable_torch_def torch_ops.simps
    by (blast intro: mset_sort_desc)
qed

theorem balanced_packing_correct_witness:
  "\<exists>idx rk. balanced_packing stable_torch [[3, 9, 4, 1 :: rat]] 2 = Inr (idx, rk) \<and>
     bij_betw (\<lambda>g. rk ! 0 ! g) {g. g < 4 \<and> idx ! 0 ! g = int 1} {0..<int 2}"
proof -
  have "rect 1 (2 * 2) [[3, 9, 4, 1 :: rat]]" by (simp add: rect_def)
  then show ?thesis
    using balanced_packing_correct[OF stable_torch_spec, of 2 1 2 "[[3, 9, 4, 1 :: rat]]"]
    by (auto dest!: spec[of _ "1::nat"])
qed

theorem replicate_experts_optimal_witness:
  "\<exists>p r c. replicate_experts stable_torch [[5, 1, 2 :: rat]] 5 = Inr ([p], [r], [c]) \<and>
     sum_list c = 5 \<and> enumerates (zip p r) c"
  using replicate_experts_optimal[OF stable_torch_spec, of "[5, 1, 2 :: rat]" 5] by (auto simp: less_Suc_eq)

section \<open>The placement of a layer\<close>

definition well_replicated :: "nat \<Rightarrow> nat list \<Rightarrow> nat list \<Rightarrow> nat list \<Rightarrow> bool" where
  "well_replicated n p r c \<longleftrightarrow>
     length c = n \<and> length p = length r \<and> enumerates (zip p r) c \<and> (\<forall>e < n. 1 \<le> c ! e)"

lemma well_replicated_length: "well_replicated n p r c \<Longrightarrow> length p = sum_list c"
  using enumerates_length by (fastforce simp: well_replicated_def)

lemma rebalance_node_correct:
  assumes t: "torch_spec t" and w: "w \<noteq> []" and n: "length w \<le> packs * gpp" and packs: "0 < packs"
  shows "\<exists>nr. rebalance_node t w (packs * gpp) packs gpp = Inr nr \<and>
     well_replicated (length w) (nr_phy2mlog nr) (nr_phyrank nr) (nr_mlogcnt nr) \<and>
     length (nr_phy2mlog nr) = packs * gpp"
proof -
  obtain s where s: "replicate_row t w (packs * gpp) = Inr s" "rep_inv w (packs * gpp) (packs * gpp) s"
    using replicate_row_inv[OF t w n] by blast
  note v = s(2)[unfolded rep_inv_def]
  let ?tok = "gather_row (map2 (\<lambda>w c. w / of_nat c) w (logcnt s)) (phy2log s)"
  have lt: "length ?tok = packs * gpp" using v by simp
  obtain idx rk where b: "balanced_packing_row t ?tok packs = Inr (idx, rk)"
    "length idx = packs * gpp" "length rk = packs * gpp"
    "\<forall>g < packs * gpp. 0 \<le> idx ! g \<and> idx ! g < int packs \<and> 0 \<le> rk ! g \<and> rk ! g < int gpp"
    "inj_on (\<lambda>g. (idx ! g, rk ! g)) {..<packs * gpp}"
    using balanced_packing_row_correct[OF t packs lt] unfolding lt by blast
  let ?perm = "map2 (\<lambda>p r. nat p * gpp + nat r) idx rk"
  have perm: "is_perm ?perm" using slots_perm[OF b(2-5)] .
  have lp: "length ?perm = packs * gpp" using b by simp
  note inv = inverse_perm_correct[OF perm, unfolded lp]
  have en: "enumerates (zip (phy2log s) (replica_rank s)) (logcnt s)" using v by auto
  let ?nr = "\<lparr>nr_phy2mlog = gather_row (phy2log s) (inverse_perm ?perm),
     nr_phyrank = gather_row (replica_rank s) (inverse_perm ?perm), nr_mlogcnt = logcnt s\<rparr>"
  have "set (inverse_perm ?perm) \<subseteq> {..<length (phy2log s)}" using inv v by (auto simp: is_perm_def)
  then have "zip (nr_phy2mlog ?nr) (nr_phyrank ?nr) = gather_row (zip (phy2log s) (replica_rank s)) (inverse_perm ?perm)"
    using gather_zip[of "phy2log s" "replica_rank s"] v by simp
  then have "mset (zip (nr_phy2mlog ?nr) (nr_phyrank ?nr)) = mset (zip (phy2log s) (replica_rank s))"
    using gather_perm[OF inv(3), of "zip (phy2log s) (replica_rank s)"] inv(1) v by simp
  then have "enumerates (zip (nr_phy2mlog ?nr) (nr_phyrank ?nr)) (logcnt s)"
    using en by (rule enumerates_mset[THEN iffD2])
  then have "well_replicated (length w) (nr_phy2mlog ?nr) (nr_phyrank ?nr) (nr_mlogcnt ?nr)"
    using v by (simp add: well_replicated_def)
  moreover have "rebalance_node t w (packs * gpp) packs gpp = Inr ?nr"
    using s(1) b(1) by (simp add: rebalance_node_def Let_def)
  ultimately show ?thesis using inv(1) by (intro exI[of _ ?nr]) simp
qed

text \<open>Joining the nodes: the experts of node \<open>j\<close> are shifted behind those of the earlier nodes.\<close>

lemma join_nodes:
  assumes "\<forall>nr \<in> set nodes. well_replicated m (nr_phy2mlog nr) (nr_phyrank nr) (nr_mlogcnt nr)"
  shows "well_replicated (length nodes * m)
     (concat (map2 (\<lambda>node off. map (\<lambda>x. x + off) (nr_phy2mlog node)) nodes (map (\<lambda>j. j * m) [0..<length nodes])))
     (concat (map nr_phyrank nodes)) (concat (map nr_mlogcnt nodes))"
  using assms
proof (induction nodes rule: rev_induct)
  case Nil
  then show ?case by (simp add: well_replicated_def enumerates_def)
next
  case (snoc nr nodes)
  let ?p = "concat (map2 (\<lambda>node off. map (\<lambda>x. x + off) (nr_phy2mlog node)) nodes (map (\<lambda>j. j * m) [0..<length nodes]))"
  let ?r = "concat (map nr_phyrank nodes)" and ?c = "concat (map nr_mlogcnt nodes)"
  have IH: "well_replicated (length nodes * m) ?p ?r ?c" using snoc by simp
  have nr: "well_replicated m (nr_phy2mlog nr) (nr_phyrank nr) (nr_mlogcnt nr)" using snoc by simp
  have z: "zip (map (\<lambda>x. x + length nodes * m) (nr_phy2mlog nr)) (nr_phyrank nr) =
      map (\<lambda>(p, k). (p + length ?c, k)) (zip (nr_phy2mlog nr) (nr_phyrank nr))"
    using IH by (simp add: well_replicated_def zip_map1)
  note i = IH[unfolded well_replicated_def] nr[unfolded well_replicated_def]
  have "enumerates (zip ?p ?r) ?c" "enumerates (zip (nr_phy2mlog nr) (nr_phyrank nr)) (nr_mlogcnt nr)"
    using i by blast+
  from enumerates_append[OF this]
  have "enumerates (zip (?p @ map (\<lambda>x. x + length nodes * m) (nr_phy2mlog nr)) (?r @ nr_phyrank nr)) (?c @ nr_mlogcnt nr)"
    using i z by (simp only: zip_append)
  moreover have "\<forall>e < length nodes * m + m. 1 \<le> (?c @ nr_mlogcnt nr) ! e"
  proof (intro allI impI)
    fix e assume "e < length nodes * m + m"
    then show "1 \<le> (?c @ nr_mlogcnt nr) ! e"
      using i by (cases "e < length nodes * m") (auto simp only: nth_append if_True if_False)
  qed
  moreover have "concat (map2 (\<lambda>node off. map (\<lambda>x. x + off) (nr_phy2mlog node)) (nodes @ [nr])
      (map (\<lambda>j. j * m) [0..<length (nodes @ [nr])])) = ?p @ map (\<lambda>x. x + length nodes * m) (nr_phy2mlog nr)"
    by simp
  moreover have "length (?c @ nr_mlogcnt nr) = length (nodes @ [nr]) * m"
    "length (?p @ map (\<lambda>x. x + length nodes * m) (nr_phy2mlog nr)) = length (?r @ nr_phyrank nr)"
    "length (nodes @ [nr]) * m = length nodes * m + m"
    using i by (simp_all only: length_append length_map) simp_all
  ultimately show ?case
    unfolding well_replicated_def by (simp only: map_append concat_append) simp
qed

lemma chunks_Cons: "0 < k \<Longrightarrow> xs \<noteq> [] \<Longrightarrow> chunks k xs = take k xs # chunks k (drop k xs)"
  by (subst chunks.simps) simp

lemma chunks_shape_all:
  assumes "0 < k" "length xs = a * k"
  shows "length (chunks k xs) = a \<and> (\<forall>c \<in> set (chunks k xs). length c = k) \<and>
    (\<forall>i < a. \<forall>j < k. chunks k xs ! i ! j = xs ! (i * k + j))"
  using assms(2)
proof (induction a arbitrary: xs)
  case 0
  then show ?case by (simp add: chunks.simps[of k])
next
  case (Suc a)
  have "xs \<noteq> []" using Suc.prems assms(1) by (metis add_is_0 length_0_conv mult_Suc not_less_zero)
  then have xs: "chunks k xs = take k xs # chunks k (drop k xs)" using assms(1) by (rule chunks_Cons[rotated])
  have "length (drop k xs) = a * k" "k \<le> length xs" using Suc.prems by simp_all
  note IH = Suc.IH[OF this(1)] this(2)
  have "chunks k xs ! i ! j = xs ! (i * k + j)" if "i < Suc a" "j < k" for i j
  proof (cases i)
    case (Suc i')
    then have "chunks k (drop k xs) ! i' ! j = drop k xs ! (i' * k + j)" using IH(1) that by simp
    then show ?thesis using Suc IH(2) unfolding xs by (simp add: add.assoc)
  qed (use IH(2) that in \<open>simp add: xs\<close>)
  moreover have "length (chunks k xs) = Suc a" unfolding xs using IH(1) by simp
  moreover have "length (take k xs) = k" using IH(2) by simp
  then have "\<forall>c \<in> set (chunks k xs). length c = k" unfolding xs set_simps(2) using IH(1) by blast
  ultimately show ?case by blast
qed

lemma chunks_shape:
  assumes "0 < k" "length xs = a * k"
  shows "length (chunks k xs) = a" and "\<forall>c \<in> set (chunks k xs). length c = k"
    and "i < a \<Longrightarrow> j < k \<Longrightarrow> chunks k xs ! i ! j = xs ! (i * k + j)"
  using chunks_shape_all[OF assms] by blast+

lemma concat_chunks: "0 < k \<Longrightarrow> concat (chunks k xs) = xs"
proof (induction k xs rule: chunks.induct)
  case (1 k xs)
  then show ?case
  proof (cases "xs = []")
    case False
    then show ?thesis using 1 chunks_Cons[of k xs] by (simp del: chunks.simps)
  qed (simp add: chunks.simps[of k])
qed

lemma length_concat_const:
  "\<forall>x \<in> set xs. length (f x) = c \<Longrightarrow> length (concat (map f xs)) = length xs * c"
  by (induction xs) auto

lemma is_permI:
  assumes "length xs = n" "{..<n} \<subseteq> set xs"
  shows "is_perm xs"
proof -
  have "card (set xs) \<le> n" using card_length[of xs] assms(1) by simp
  then have "set xs = {..<n}" using assms(2) by (metis card_lessThan card_seteq List.finite_set)
  then show ?thesis using assms(1) by (simp add: is_perm_def card_distinct)
qed

lemma expand_perm:
  assumes "is_perm slots" "0 < gs"
  shows "is_perm (concat (map (\<lambda>s. map (\<lambda>j. s * gs + j) [0..<gs]) slots))" (is "is_perm ?xs")
    and "length (concat (map (\<lambda>s. map (\<lambda>j. s * gs + j) [0..<gs]) slots)) = length slots * gs"
proof -
  show len: "length ?xs = length slots * gs"
    by (simp add: length_concat comp_def sum_list_triv)
  have "x \<in> set ?xs" if "x < length slots * gs" for x
  proof -
    have "x div gs < length slots" using that assms(2) by (simp add: div_less_iff_less_mult)
    then have "x div gs \<in> set slots" using assms(1) by (simp add: is_perm_def)
    moreover have "x = x div gs * gs + x mod gs" "x mod gs < gs" using assms(2) by simp_all
    ultimately show ?thesis by (force simp only: set_concat set_map set_upt atLeastLessThan_iff)
  qed
  then show "is_perm ?xs" by (intro is_permI[OF len]) auto
qed

lemma relabel:
  assumes wr: "well_replicated n p r c" and perm: "is_perm l2m" "length l2m = n"
  shows "well_replicated n (gather_row (inverse_perm l2m) p) r (gather_row c l2m)"
proof -
  let ?inv = "inverse_perm l2m"
  note w = wr[unfolded well_replicated_def]
  have bound: "l2m ! e < n" if "e < n" for e using perm that nth_mem[of e l2m] by (auto simp: is_perm_def)
  note inv = inverse_perm_correct[OF perm(1), unfolded perm(2)] and right = inverse_perm_right[OF perm(1), unfolded perm(2)]
  have z: "zip (gather_row ?inv p) r = map (\<lambda>(m, k). (?inv ! m, k)) (zip p r)"
    by (simp add: gather_row_def zip_map1)
  have pairs: "set (zip p r) = {(m, k). m < n \<and> k < c ! m}" "distinct (zip p r)"
    using w by (auto simp: enumerates_def)
  have "inj_on (\<lambda>(m, k). (?inv ! m, k)) (set (zip p r))"
    unfolding pairs by (auto simp: inj_on_def) (metis right(1))
  moreover have "(\<lambda>(m, k). (?inv ! m, k)) ` {(m, k). m < n \<and> k < c ! m} = {(e, k). e < n \<and> k < c ! (l2m ! e)}"
  proof (intro equalityI subsetI)
    fix x assume "x \<in> {(e, k). e < n \<and> k < c ! (l2m ! e)}"
    then obtain e k where "x = (e, k)" "e < n" "k < c ! (l2m ! e)" by blast
    then show "x \<in> (\<lambda>(m, k). (?inv ! m, k)) ` {(m, k). m < n \<and> k < c ! m}"
      using inv(2)[of e] bound[of e] by (intro image_eqI[of _ _ "(l2m ! e, k)"]) auto
  qed (use right in auto)
  ultimately have "enumerates (zip (gather_row ?inv p) r) (gather_row c l2m)"
    unfolding enumerates_def z using pairs perm(2) by (auto simp: distinct_map gather_row_def)
  then show ?thesis
    using w perm(2) bound by (auto simp: well_replicated_def gather_row_def)
qed

lemma rebalance_layer_correct:
  assumes t: "torch_spec t" and w: "length weight = nodes * gpn * gs" "weight \<noteq> []"
    and pos: "0 < gpn" "0 < gpu_pn" "0 < k" and room: "length weight \<le> nodes * gpu_pn * k"
  shows "\<exists>ly. rebalance_layer t weight (nodes * gpu_pn * k) (nodes * gpn) nodes (nodes * gpu_pn) = Inr ly \<and>
     well_replicated (length weight) (ly_phy2log ly) (ly_phyrank ly) (ly_logcnt ly) \<and>
     length (ly_phy2log ly) = nodes * gpu_pn * k"
proof -
  have nz: "0 < nodes" "0 < gs" using w by (auto intro!: gr0I)
  let ?n = "length weight" and ?m = "gpn * gs"
  have divs: "?n div (nodes * gpn) = gs" "nodes * gpn div nodes = gpn" "nodes * gpu_pn * k div (nodes * gpu_pn) = k"
    "?n div nodes = ?m" "nodes * gpu_pn * k div nodes = gpu_pn * k" "nodes * gpu_pn div nodes = gpu_pn"
    using w(1) nz pos by (simp_all add: mult.assoc)
  let ?tok = "map sum_list (chunks gs weight)"
  have lt: "length ?tok = nodes * gpn" using chunks_shape(1)[OF nz(2), of weight "nodes * gpn"] w(1) by simp
  obtain idx rk where b: "balanced_packing_row t ?tok nodes = Inr (idx, rk)"
    "length idx = nodes * gpn" "length rk = nodes * gpn"
    "\<forall>g < nodes * gpn. 0 \<le> idx ! g \<and> idx ! g < int nodes \<and> 0 \<le> rk ! g \<and> rk ! g < int gpn"
    "inj_on (\<lambda>g. (idx ! g, rk ! g)) {..<nodes * gpn}"
    using balanced_packing_row_correct[OF t nz(1) lt] unfolding lt by blast
  let ?l2m = "log2mlog_of gpn gs idx rk"
  have "?l2m = concat (map (\<lambda>s. map (\<lambda>j. s * gs + j) [0..<gs]) (map2 (\<lambda>p r. nat p * gpn + nat r) idx rk))"
    by (simp add: log2mlog_of_def comp_def split_def)
  then have perm: "is_perm ?l2m" "length ?l2m = ?n"
    using expand_perm[OF slots_perm[OF b(2-5)] nz(2)] b(2,3) w(1) by simp_all
  let ?rows = "chunks ?m (gather_row weight (inverse_perm ?l2m))"
  have rows: "length ?rows = nodes" "\<forall>c \<in> set ?rows. length c = ?m"
    using chunks_shape(1,2)[of ?m "gather_row weight (inverse_perm ?l2m)" nodes] nz pos
      inverse_perm_correct(1)[OF perm(1)] perm(2) w(1) by (simp_all add: mult.assoc)
  have le: "?m \<le> gpu_pn * k" using room w(1) nz(1) by (simp add: mult.assoc)
  let ?P = "\<lambda>nr. well_replicated ?m (nr_phy2mlog nr) (nr_phyrank nr) (nr_mlogcnt nr) \<and> length (nr_phy2mlog nr) = gpu_pn * k"
  have "\<exists>nr. rebalance_node t row (gpu_pn * k) gpu_pn k = Inr nr \<and> ?P nr" if "row \<in> set ?rows" for row
    using rebalance_node_correct[OF t _ _ pos(2), of row k] that rows(2) le nz pos by fastforce
  then obtain nrs where nrs: "map_res (\<lambda>row. rebalance_node t row (gpu_pn * k) gpu_pn k) ?rows = Inr nrs"
    "list_all2 (\<lambda>_. ?P) ?rows nrs"
    using map_res_total[of ?rows "\<lambda>row. rebalance_node t row (gpu_pn * k) gpu_pn k" "\<lambda>_. ?P"] by blast
  have ln: "length nrs = nodes" using list_all2_lengthD[OF nrs(2)] rows(1) by simp
  have P: "\<forall>nr \<in> set nrs. ?P nr" using nrs(2) by (auto simp: list_all2_conv_all_nth in_set_conv_nth)
  have join: "well_replicated ?n
     (concat (map2 (\<lambda>node off. map (\<lambda>x. x + off) (nr_phy2mlog node)) nrs (map (\<lambda>j. j * ?m) [0..<length nrs])))
     (concat (map nr_phyrank nrs)) (concat (map nr_mlogcnt nrs))" (is "well_replicated _ ?p ?r ?c")
    using join_nodes[of nrs ?m] P ln w(1) by (simp add: mult.assoc)
  let ?ly = "\<lparr>ly_phy2log = gather_row (inverse_perm ?l2m) ?p, ly_phyrank = ?r, ly_logcnt = gather_row ?c ?l2m\<rparr>"
  have "\<forall>nr \<in> set nrs. length (nr_phyrank nr) = gpu_pn * k" using P by (metis well_replicated_def)
  then have "length ?r = nodes * gpu_pn * k"
    using ln length_concat_const[of nrs nr_phyrank "gpu_pn * k"] by (auto simp: well_replicated_def mult.assoc)
  then have "length (ly_phy2log ?ly) = nodes * gpu_pn * k" using join by (simp add: well_replicated_def)
  moreover have "rebalance_layer t weight (nodes * gpu_pn * k) (nodes * gpn) nodes (nodes * gpu_pn) = Inr ?ly"
    using b(1) nrs(1) unfolding rebalance_layer_def Let_def divs by simp
  ultimately show ?thesis using relabel[OF join perm] by (intro exI[of _ ?ly]) simp
qed

section \<open>The inverse table\<close>

definition holders :: "nat list \<Rightarrow> nat \<Rightarrow> int set" where
  "holders p e = {int i | i. i < length p \<and> p ! i = e}"

lemma log2phy_flat:
  assumes wr: "well_replicated n p r c" and max: "\<forall>e < n. c ! e \<le> maxc"
    and flat: "flat = scatter_row (replicate (n * maxc) (-1))
       (zip (map2 (\<lambda>e r. e * maxc + r) p r) (map int [0..<length p]))"
  shows "i < length p \<Longrightarrow> flat ! (p ! i * maxc + r ! i) = int i"
    and "e < n \<Longrightarrow> c ! e \<le> k \<Longrightarrow> k < maxc \<Longrightarrow> flat ! (e * maxc + k) = -1"
proof -
  let ?slots = "map2 (\<lambda>e r. e * maxc + r) p r"
  note w = wr[unfolded well_replicated_def enumerates_def]
  have lr: "length p = length r" using w by blast
  have pr: "p ! i < n" "r ! i < c ! (p ! i)" if "i < length p" for i
  proof -
    have "(p ! i, r ! i) \<in> set (zip p r)" using that lr by (auto simp: in_set_zip)
    then show "p ! i < n" "r ! i < c ! (p ! i)" using w by auto
  qed
  have small: "r ! i < maxc" if "i < length p" for i using pr[OF that] max by (meson less_le_trans)
  have sub: "set (zip p r) \<subseteq> {(e, k). k < maxc}" using small lr by (auto simp: in_set_zip)
  have dist: "distinct ?slots"
    using w inj_on_subset[OF inj_slot sub] by (simp add: distinct_map)
  have fst_eq: "map fst (zip ?slots (map int [0..<length p])) = ?slots" using w by simp
  show "flat ! (p ! i * maxc + r ! i) = int i" if "i < length p"
    unfolding flat
  proof (rule scatter_row_at)
    show "distinct (map fst (zip ?slots (map int [0..<length p])))" unfolding fst_eq by (rule dist)
    show "(p ! i * maxc + r ! i, int i) \<in> set (zip ?slots (map int [0..<length p]))"
      using that lr by (auto simp: in_set_zip intro!: exI[of _ i])
    show "p ! i * maxc + r ! i < length (replicate (n * maxc) (-1 :: int))"
      using slot_bound[OF pr(1)[OF that] small[OF that]] by simp
  qed
  show "flat ! (e * maxc + k) = -1" if e: "e < n" and k: "c ! e \<le> k" "k < maxc"
  proof -
    have "e * maxc + k \<notin> set ?slots"
    proof
      assume "e * maxc + k \<in> set ?slots"
      then obtain e' k' where m: "(e', k') \<in> set (zip p r)" "e * maxc + k = e' * maxc + k'"
        by auto
      then have "(e, k) = (e', k')"
        using inj_onD[OF inj_slot, of maxc "(e, k)" "(e', k')"] sub k by auto
      then show False using m(1) w k(1) by auto
    qed
    then have "e * maxc + k \<notin> fst ` set (zip ?slots (map int [0..<length p]))"
      using fst_eq by (metis set_map)
    then show ?thesis
      unfolding flat using slot_bound[OF e k(2)] by (simp add: scatter_row_other)
  qed
qed

lemma log2phy_row_correct:
  assumes wr: "well_replicated n (ly_phy2log ly) (ly_phyrank ly) (ly_logcnt ly)"
    and max: "\<forall>e < n. ly_logcnt ly ! e \<le> maxc" and e: "e < n"
  shows "length (log2phy_row n maxc ly) = n" and "\<exists>xs. log2phy_row n maxc ly ! e = xs @ replicate (maxc - ly_logcnt ly ! e) (-1) \<and>
     length xs = ly_logcnt ly ! e \<and> distinct xs \<and> set xs = holders (ly_phy2log ly) e"
proof -
  let ?p = "ly_phy2log ly" and ?r = "ly_phyrank ly" and ?c = "ly_logcnt ly"
  define flat where "flat = scatter_row (replicate (n * maxc) (-1 :: int))
       (zip (map2 (\<lambda>e r. e * maxc + r) ?p ?r) (map int [0..<length ?p]))"
  note w = wr[unfolded well_replicated_def enumerates_def] and fl = log2phy_flat[OF wr max flat_def]
  have c1: "1 \<le> ?c ! e" "?c ! e \<le> maxc" using w max e by auto
  have row: "log2phy_row n maxc ly = chunks maxc flat" by (simp add: log2phy_row_def flat_def)
  have ch: "length (chunks maxc flat) = n" "\<forall>c \<in> set (chunks maxc flat). length c = maxc"
    "\<And>k. k < maxc \<Longrightarrow> chunks maxc flat ! e ! k = flat ! (e * maxc + k)"
    using chunks_shape[of maxc flat n] c1 e by (auto simp: flat_def)
  show "length (log2phy_row n maxc ly) = n" using ch(1) row by simp
  define pos where "pos = (\<lambda>k. SOME i. i < length ?p \<and> ?p ! i = e \<and> ?r ! i = k)"
  have pos: "pos k < length ?p \<and> ?p ! pos k = e \<and> ?r ! pos k = k" if "k < ?c ! e" for k
  proof -
    have "(e, k) \<in> set (zip ?p ?r)" using w e that by auto
    then show ?thesis unfolding pos_def by (intro someI_ex[of "\<lambda>i. i < length ?p \<and> ?p ! i = e \<and> ?r ! i = k"]) (auto simp: in_set_zip)
  qed
  let ?xs = "map (\<lambda>k. int (pos k)) [0..<?c ! e]"
  have "log2phy_row n maxc ly ! e = ?xs @ replicate (maxc - ?c ! e) (-1)" (is "?lhs = ?rhs")
  proof (rule nth_equalityI)
    have "chunks maxc flat ! e \<in> set (chunks maxc flat)" using ch(1) e by simp
    then show len: "length ?lhs = length ?rhs" using ch(2) c1 row by simp
    fix k assume "k < length ?lhs"
    then have k: "k < maxc" using len c1 by simp
    show "?lhs ! k = ?rhs ! k"
      using pos[of k] fl(1)[of "pos k"] fl(2)[OF e _ k] ch(3)[OF k] k
      by (cases "k < ?c ! e") (auto simp: row nth_append)
  qed
  moreover have "distinct ?xs"
    unfolding distinct_map using pos by (auto intro!: inj_onI) (metis of_nat_eq_iff pos)
  moreover have "set ?xs = holders ?p e"
  proof (intro equalityI subsetI)
    fix x assume "x \<in> holders ?p e"
    then obtain i where i: "x = int i" "i < length ?p" "?p ! i = e" by (auto simp: holders_def)
    have "length ?p = length ?r" using w by blast
    then have "(e, ?r ! i) \<in> set (zip ?p ?r)" using i by (force simp: in_set_zip)
    then have k: "?r ! i < ?c ! e" using w by auto
    have "zip ?p ?r ! pos (?r ! i) = zip ?p ?r ! i" using pos[OF k] i w by simp
    then have "pos (?r ! i) = i"
      using pos[OF k] i w nth_eq_iff_index_eq[of "zip ?p ?r" "pos (?r ! i)" i] by simp
    then show "x \<in> set ?xs" using i k by force
  qed (use pos in \<open>auto simp: holders_def\<close>)
  ultimately show "\<exists>xs. log2phy_row n maxc ly ! e = xs @ replicate (maxc - ?c ! e) (-1) \<and>
     length xs = ?c ! e \<and> distinct xs \<and> set xs = holders ?p e"
    by (intro exI[of _ ?xs]) simp
qed

section \<open>The whole balancer\<close>

text \<open>The sizes the assertions of the balancer demand.\<close>

definition sizes_ok :: "nat \<Rightarrow> nat \<Rightarrow> nat \<Rightarrow> nat \<Rightarrow> nat \<Rightarrow> bool" where
  "sizes_ok n num_physical num_groups num_nodes num_gpus \<longleftrightarrow>
     0 < n \<and> n \<le> num_physical \<and> 0 < num_groups \<and> 0 < num_nodes \<and> 0 < num_gpus \<and>
     n mod num_groups = 0 \<and> num_groups mod num_nodes = 0 \<and> num_gpus mod num_nodes = 0 \<and> num_physical mod num_gpus = 0"

definition layer_placed :: "nat \<Rightarrow> nat \<Rightarrow> layer_result \<Rightarrow> bool" where
  "layer_placed n num_physical ly \<longleftrightarrow>
     well_replicated n (ly_phy2log ly) (ly_phyrank ly) (ly_logcnt ly) \<and> length (ly_phy2log ly) = num_physical"

lemma rebalance_hierarchical_correct:
  assumes t: "torch_spec t" and w: "rect layers n weight" "0 < layers" and ok: "sizes_ok n P G N U"
  shows "\<exists>lys. rebalance_experts_hierarchical t weight P G N U = Inr lys \<and> length lys = layers \<and>
     list_all (layer_placed n P) lys"
proof -
  note o = ok[unfolded sizes_ok_def]
  obtain gs where gs: "n = G * gs" using o by auto
  obtain gpn where gpn: "G = N * gpn" using o by auto
  obtain upn where upn: "U = N * upn" using o by auto
  obtain k where k: "P = U * k" using o by auto
  have pos: "0 < gpn" "0 < upn" "0 < k" using o gpn upn k by (auto intro!: gr0I)
  have "\<exists>ly. rebalance_layer t row P G N U = Inr ly \<and> layer_placed n P ly" if "row \<in> set weight" for row
  proof -
    have row: "length row = n" using rect_row_mem[OF w(1) that] .
    then have "row \<noteq> []" using o by auto
    then show ?thesis
      using rebalance_layer_correct[OF t _ _ pos, of row N gs] row o gs gpn upn k by (auto simp: layer_placed_def)
  qed
  then obtain lys where lys: "map_res (\<lambda>row. rebalance_layer t row P G N U) weight = Inr lys"
    "list_all2 (\<lambda>_. layer_placed n P) weight lys"
    using map_res_total[of weight "\<lambda>row. rebalance_layer t row P G N U" "\<lambda>_. layer_placed n P"] by blast
  then have "length lys = layers" "list_all (layer_placed n P) lys"
    using rect_length[OF w(1)] by (auto simp: list_all2_conv_all_nth list_all_length)
  then show ?thesis
    using lys(1) o rect_shape1[OF w] by (auto simp: rebalance_experts_hierarchical_def Let_def)
qed

text \<open>
  What a balanced layer is: \<open>num_physical\<close> replicas, every logical expert has at least one, the
  counts are the numbers of replicas, and the row of an expert in the inverse table lists exactly
  its replicas, followed by \<open>-1\<close>.
\<close>

definition balanced_layer :: "nat \<Rightarrow> nat \<Rightarrow> int list \<Rightarrow> int list list \<Rightarrow> nat list \<Rightarrow> bool" where
  "balanced_layer n num_physical p2l l2p cnt \<longleftrightarrow>
     length p2l = num_physical \<and> set p2l = {0..<int n} \<and> length l2p = n \<and> length cnt = n \<and> sum_list cnt = num_physical \<and>
     (\<forall>e < n. 1 \<le> cnt ! e \<and> (\<exists>xs k. l2p ! e = xs @ replicate k (-1) \<and> length xs = cnt ! e \<and> distinct xs \<and>
        set xs = {int i | i. i < num_physical \<and> p2l ! i = int e}))"

lemma balanced_layerI:
  assumes "layer_placed n P ly" and max: "\<forall>e < n. ly_logcnt ly ! e \<le> maxc" and n: "0 < n"
  shows "balanced_layer n P (map int (ly_phy2log ly)) (log2phy_row n maxc ly) (ly_logcnt ly)"
proof -
  have wr: "well_replicated n (ly_phy2log ly) (ly_phyrank ly) (ly_logcnt ly)" "length (ly_phy2log ly) = P"
    using assms(1) by (auto simp: layer_placed_def)
  then have d: "length (ly_phy2log ly) = length (ly_phyrank ly)" "length (ly_logcnt ly) = n"
    "set (zip (ly_phy2log ly) (ly_phyrank ly)) = {(p, k). p < n \<and> k < ly_logcnt ly ! p}" "\<forall>e < n. 1 \<le> ly_logcnt ly ! e"
    by (auto simp: well_replicated_def enumerates_def)
  have "set (ly_phy2log ly) = fst ` set (zip (ly_phy2log ly) (ly_phyrank ly))"
    using d(1) by (metis map_fst_zip set_map)
  also have "\<dots> = {..<n}" unfolding d(3)
  proof (intro equalityI subsetI)
    fix e assume "e \<in> {..<n}"
    then show "e \<in> fst ` {(p, k). p < n \<and> k < ly_logcnt ly ! p}"
      using d(4) by (intro image_eqI[of _ _ "(e, 0)"]) (auto simp: Suc_le_eq)
  qed auto
  finally have "set (map int (ly_phy2log ly)) = {0..<int n}"
    by (simp add: image_int_atLeastLessThan flip: atLeast0LessThan)
  moreover have "holders (ly_phy2log ly) e = {int i | i. i < P \<and> map int (ly_phy2log ly) ! i = int e}" for e
    using wr(2) by (auto simp: holders_def)
  ultimately show ?thesis
    unfolding balanced_layer_def
    using wr(2) d(2,4) well_replicated_length[OF wr(1)] log2phy_row_correct[OF wr(1) max] n
    by (auto simp only: length_map) metis+
qed

lemma log2phy_of_total:
  assumes lys: "length lys = layers" "\<And>l. l < layers \<Longrightarrow> layer_placed n P (lys ! l)" and "0 < layers" "0 < n"
  shows "\<exists>maxc. log2phy_of n lys = Inr (map (log2phy_row n maxc) lys) \<and>
     (\<forall>l < layers. \<forall>e < n. ly_logcnt (lys ! l) ! e \<le> maxc)"
proof -
  let ?max = "Max (set (concat (map ly_logcnt lys)))"
  have lc: "length (ly_logcnt (lys ! l)) = n" if "l < layers" for l
    using lys(2)[OF that] by (simp add: layer_placed_def well_replicated_def)
  have mem: "ly_logcnt (lys ! l) ! e \<in> set (concat (map ly_logcnt lys))" if "l < layers" "e < n" for l e
    using that lc lys(1) by (auto intro!: bexI[of _ "lys ! l"])
  have "concat (map ly_logcnt lys) \<noteq> []" using mem[OF assms(3,4)] by (metis empty_iff list.set(1))
  then have "log2phy_of n lys = Inr (map (log2phy_row n ?max) lys)" by (simp add: log2phy_of_def Let_def)
  then show ?thesis using Max_ge[OF _ mem] by (intro exI[of _ ?max]) auto
qed

lemma rebalance_experts_placed:
  assumes t: "torch_spec t" and w: "rect layers n weight" "0 < layers"
    and ok: "if hier then \<exists>G. groups = Some G \<and> sizes_ok n P G N U else sizes_ok n P 1 1 U"
  shows "\<exists>p2l l2p cnt. rebalance_experts t weight P groups N U hier = Inr (p2l, l2p, cnt) \<and>
     length p2l = layers \<and> length l2p = layers \<and> length cnt = layers \<and>
     (\<forall>l < layers. balanced_layer n P (p2l ! l) (l2p ! l) (cnt ! l))"
proof -
  have "\<exists>lys. (if hier then (case groups of None \<Rightarrow> Inl TypeError
              | Some g \<Rightarrow> rebalance_experts_hierarchical t weight P g N U)
        else rebalance_experts_hierarchical t weight P 1 1 U) = Inr lys \<and> length lys = layers \<and> list_all (layer_placed n P) lys"
    using rebalance_hierarchical_correct[OF t w] ok by (auto split: if_splits)
  then obtain lys where lys: "(if hier then (case groups of None \<Rightarrow> Inl TypeError
              | Some g \<Rightarrow> rebalance_experts_hierarchical t weight P g N U)
        else rebalance_experts_hierarchical t weight P 1 1 U) = Inr lys"
    "length lys = layers" "\<And>l. l < layers \<Longrightarrow> layer_placed n P (lys ! l)" by (auto simp: list_all_length)
  have n: "0 < n" using ok by (auto simp: sizes_ok_def split: if_splits)
  obtain maxc where maxc: "log2phy_of n lys = Inr (map (log2phy_row n maxc) lys)"
    "\<And>l e. l < layers \<Longrightarrow> e < n \<Longrightarrow> ly_logcnt (lys ! l) ! e \<le> maxc"
    using log2phy_of_total[OF lys(2,3) w(2) n] by blast
  have run: "rebalance_experts t weight P groups N U hier =
      Inr (map (map int \<circ> ly_phy2log) lys, map (log2phy_row n maxc) lys, map ly_logcnt lys)"
    using lys(1) maxc(1) unfolding rebalance_experts_def rect_shape1[OF w] by simp
  have "balanced_layer n P (map int (ly_phy2log (lys ! l))) (log2phy_row n maxc (lys ! l)) (ly_logcnt (lys ! l))"
    if "l < layers" for l
    using balanced_layerI[OF lys(3)[OF that] _ n] maxc(2)[OF that] by blast
  then show ?thesis unfolding run using lys(2) by (intro exI conjI refl) auto
qed

text \<open>
  (C27) The balancer, with the hierarchical and with the global policy: for every load matrix and all
  sizes its assertions allow it returns a complete placement in which each layer is balanced in the
  sense of \<open>balanced_layer\<close>.
\<close>

theorem rebalance_experts_correct:
  assumes "torch_spec t" "rect layers n weight" "0 < layers"
    and "if hier then \<exists>G. groups = Some G \<and> sizes_ok n P G N U else sizes_ok n P 1 1 U"
  shows "\<exists>p2l l2p cnt. rebalance_experts t weight P groups N U hier = Inr (p2l, l2p, cnt) \<and>
     length p2l = layers \<and> length l2p = layers \<and> length cnt = layers \<and>
     (\<forall>l < layers. balanced_layer n P (p2l ! l) (l2p ! l) (cnt ! l))"
  using assms by (rule rebalance_experts_placed)

theorem rebalance_experts_correct_witness:
  "\<exists>p2l l2p cnt. rebalance_experts stable_torch [[9, 2, 4, 1 :: rat]] 8 (Some 2) 2 4 True = Inr (p2l, l2p, cnt) \<and>
     balanced_layer 4 8 (p2l ! 0) (l2p ! 0) (cnt ! 0)"
proof -
  have "rect 1 4 [[9, 2, 4, 1 :: rat]]" "sizes_ok 4 8 2 2 4" by (simp_all add: rect_def sizes_ok_def)
  then show ?thesis
    using rebalance_experts_correct[OF stable_torch_spec, of 1 4 "[[9, 2, 4, 1 :: rat]]" True "Some 2" 8 2 4] by auto
qed

end
