(* ===== verification/Eplb_Vec.thy ===== *)
theory Eplb_Vec
  imports Eplb_Algorithms "HOL-Library.Product_Lexorder"
begin

text \<open>
  The vectorised balancer (\<^verbatim>\<open>sglang/srt/eplb/eplb_algorithms/deepseek_vec.py\<close>): replicas are chosen
  chunk by chunk so that the sum over the recorded steps of the highest load in the chunk becomes as
  small as possible, and then dealt out to the GPUs in snake order.

  Like \<open>Eplb_Algorithms\<close> the model works row by row. A tensor of shape (steps, layers, experts) is given
  with its last two dimensions, because a list of no steps does not show them; \<open>layer_steps\<close> is the
  part of one layer. The placement tensors are allocated without initial values and every slot of them
  is written, so their rows are built as lists.
\<close>

section \<open>Groups to nodes\<close>

record 'f group_state =
  node_tokens :: "'f list"
  node_groups :: "nat list"
  group_slots :: "int list"

text \<open>The key of \<^verbatim>\<open>min(range(num_nodes), key=key_func)\<close>; pairs are compared lexicographically.\<close>

definition key_func :: "nat \<Rightarrow> ('f::linordered_field) group_state \<Rightarrow> nat \<Rightarrow> nat \<times> 'f" where
  "key_func groups_per_rank s rank =
     (if groups_per_rank \<le> node_groups s ! rank then (1, 0) else (0, node_tokens s ! rank))"

definition pack_group :: "('f::linordered_field) list \<Rightarrow> nat \<Rightarrow> nat \<Rightarrow> 'f group_state \<Rightarrow> 'f group_state result" where
  "pack_group tokens groups_per_rank item s =
     (let rank = arg_min_list (key_func groups_per_rank s) [0..<length (node_groups s)] in
      py_assert (node_groups s ! rank < groups_per_rank)
        (Inr \<lparr>node_tokens = (node_tokens s)[rank := node_tokens s ! rank + tokens ! item],
              node_groups = (node_groups s)[rank := Suc (node_groups s ! rank)],
              group_slots = (group_slots s)[item := int (rank * groups_per_rank + node_groups s ! rank)]\<rparr>))"

definition pack_groups_row :: "('f::linordered_field) torch_ops \<Rightarrow> 'f list \<Rightarrow> nat \<Rightarrow> int list result" where
  "pack_groups_row t tokens num_nodes =
     (let num_groups = length tokens in
      if num_nodes = 0 then Inl ZeroDivisionError
      else py_assert (num_groups mod num_nodes = 0)
        (bind_res (fold_res (pack_group tokens (num_groups div num_nodes)) (argsort_desc t tokens)
           \<lparr>node_tokens = replicate num_nodes 0, node_groups = replicate num_nodes 0, group_slots = replicate num_groups (-1)\<rparr>)
           (\<lambda>s. Inr (group_slots s))))"

section \<open>Replicas in a chunk\<close>

text \<open>
  For one recorded step: \<open>step_values ! e\<close> is the highest load in the chunk once expert \<open>e\<close> has one more
  replica. The code computes it from the current maximum alone: only a new replica of the most loaded
  expert changes it. A small multiple of the expert's index keeps the loads apart.
\<close>

definition all_diff_scores :: "nat \<Rightarrow> ('f::linordered_field) list \<Rightarrow> nat list \<Rightarrow> 'f list" where
  "all_diff_scores offset tokens logical_count =
     map2 (\<lambda>(j, x) c. (x + of_nat j * (1 / 10000)) / of_nat c) (enumerate offset tokens) logical_count"

definition step_values :: "('f::linordered_field) torch_ops \<Rightarrow> nat \<Rightarrow> nat list \<Rightarrow> 'f list \<Rightarrow> 'f list" where
  "step_values t offset logical_count tokens =
     (let score = all_diff_scores offset tokens logical_count;
          score1 = map2 (\<lambda>x c. x / (of_nat c + 1)) tokens logical_count;
          index = argmax t score;
          score' = score[index := score1 ! index]
      in (replicate (length score) (Max (set score)))[index := Max (set score')])"

definition sum_steps :: "nat \<Rightarrow> ('f::comm_monoid_add) list list \<Rightarrow> 'f list" where
  "sum_steps n rows = map (\<lambda>j. sum_list (map (\<lambda>row. row ! j) rows)) [0..<n]"

definition redundancy_index :: "('f::linordered_field) torch_ops \<Rightarrow> nat \<Rightarrow> 'f list list \<Rightarrow> nat list \<Rightarrow> nat" where
  "redundancy_index t offset steps logical_count =
     argmin t (sum_steps (length logical_count) (map (step_values t offset logical_count) steps))"

record chunk_state =
  ck_phy2log :: "nat list"
  ck_log2phy :: "int list list"
  ck_count :: "nat list"

text \<open>One turn of the loop for one chunk, whose first expert is \<open>offset\<close> and first slot is \<open>base\<close>.\<close>

definition redundancy_step ::
  "('f::linordered_field) torch_ops \<Rightarrow> nat \<Rightarrow> nat \<Rightarrow> 'f list list \<Rightarrow> nat \<Rightarrow> chunk_state \<Rightarrow> chunk_state" where
  "redundancy_step t offset base steps i s =
     (let e = redundancy_index t offset steps (ck_count s) in
      \<lparr>ck_phy2log = ck_phy2log s @ [offset + e],
       ck_log2phy = (ck_log2phy s)[e := (ck_log2phy s ! e)[ck_count s ! e := int (base + length (ck_count s) + i)]],
       ck_count = (ck_count s)[e := Suc (ck_count s ! e)]\<rparr>)"

definition redundant_chunk ::
  "('f::linordered_field) torch_ops \<Rightarrow> nat \<Rightarrow> nat \<Rightarrow> nat \<Rightarrow> nat \<Rightarrow> nat \<Rightarrow> 'f list list \<Rightarrow> chunk_state" where
  "redundant_chunk t offset base experts redundancy width steps =
     fold (redundancy_step t offset base steps) [0..<redundancy]
       \<lparr>ck_phy2log = map (\<lambda>j. offset + j) [0..<experts],
        ck_log2phy = map (\<lambda>j. int (base + j) # replicate width (-1)) [0..<experts],
        ck_count = replicate experts 1\<rparr>"

section \<open>Slots to GPUs\<close>

text \<open>
  The slots of a chunk in descending order of load, laid out in rows of one slot per GPU; every other
  row is reversed, and a GPU takes a column.
\<close>

definition flip_odd :: "'a list list \<Rightarrow> 'a list list" where
  "flip_odd rows = map (\<lambda>(j, row). if odd j then rev row else row) (enumerate 0 rows)"

definition snake :: "nat \<Rightarrow> 'a list \<Rightarrow> 'a list" where
  "snake num_local_groups indices = concat (transpose (flip_odd (chunks num_local_groups indices)))"

text \<open>\<^verbatim>\<open>indices.argsort(-1)\<close>.\<close>

definition argsort :: "nat list \<Rightarrow> nat list" where
  "argsort xs = sort_key (\<lambda>i. xs ! i) [0..<length xs]"

type_synonym placed_layer = "nat list \<times> int list list \<times> nat list"

definition balance_gpus ::
  "('f::linordered_field) torch_ops \<Rightarrow> nat \<Rightarrow> nat \<Rightarrow> 'f list \<Rightarrow> placed_layer \<Rightarrow> placed_layer result" where
  "balance_gpus t num_local per_chunk totals layer =
     (case layer of (p2l, l2p, logical_count) \<Rightarrow>
        let score = map (\<lambda>e. totals ! e / of_nat (logical_count ! e)) p2l;
            sorted = map (argsort_desc t) (chunks per_chunk score)
        in py_assert (per_chunk mod num_local = 0)
          (let indices = concat (map2 (\<lambda>c idx. snake (per_chunk div num_local) (map (\<lambda>i. i + c * per_chunk) idx))
                           [0..<length sorted] sorted);
               position = argsort indices
           in Inr (gather_row p2l indices,
                   map (map (\<lambda>v. if v = -1 then -1 else int (position ! nat v))) l2p, logical_count)))"

section \<open>All chunks of all layers\<close>

definition layer_steps :: "'f list list list \<Rightarrow> nat \<Rightarrow> 'f list list" where
  "layer_steps tokens l = map (\<lambda>step. step ! l) tokens"

definition chunkwise_layer ::
  "('f::linordered_field) torch_ops \<Rightarrow> nat \<Rightarrow> nat \<Rightarrow> nat \<Rightarrow> nat \<Rightarrow> nat \<Rightarrow> 'f list list \<Rightarrow> placed_layer result" where
  "chunkwise_layer t num_local per_chunk num_chunks experts redundancy steps =
     (if experts = 0 \<and> 0 < redundancy then Inl IndexError
      else
        let states = map (\<lambda>c. redundant_chunk t (c * experts) (c * per_chunk) experts redundancy (num_chunks * redundancy)
                              (map (\<lambda>row. take experts (drop (c * experts) row)) steps)) [0..<num_chunks];
            layer = (concat (map ck_phy2log states), concat (map ck_log2phy states), concat (map ck_count states))
        in if 1 < num_local
           then balance_gpus t num_local per_chunk (sum_steps (num_chunks * experts) steps) layer
           else Inr layer)"

definition make_redundant_experts_chunkwise ::
  "('f::linordered_field) torch_ops \<Rightarrow> nat \<Rightarrow> nat \<Rightarrow> 'f list list list \<Rightarrow> nat \<Rightarrow> nat \<Rightarrow> nat \<Rightarrow> placed_layer list result" where
  "make_redundant_experts_chunkwise t layers n tokens num_physical num_local per_chunk =
     (if num_physical + 1 < n then Inl RuntimeError
      else if per_chunk = 0 then Inl ZeroDivisionError
      else py_assert (num_physical mod per_chunk = 0)
        (let num_chunks = num_physical div per_chunk in
         if num_chunks = 0 then Inl ZeroDivisionError
         else py_assert (n mod num_chunks = 0)
           (py_assert ((int num_physical - int n) mod int num_chunks = 0)
             (if num_physical < n then Inl RuntimeError
              else map_res (\<lambda>l. chunkwise_layer t num_local per_chunk num_chunks (n div num_chunks)
                             ((num_physical - n) div num_chunks) (layer_steps tokens l)) [0..<layers]))))"

definition decode_rebalance_experts ::
  "('f::linordered_field) torch_ops \<Rightarrow> nat \<Rightarrow> nat \<Rightarrow> 'f list list list \<Rightarrow> nat \<Rightarrow> nat \<Rightarrow> placed_layer list result" where
  "decode_rebalance_experts t layers n tokens num_physical num_local =
     make_redundant_experts_chunkwise t layers n tokens num_physical num_local num_physical"

section \<open>The hierarchical policy\<close>

definition vec_log2mlog :: "nat \<Rightarrow> int list \<Rightarrow> nat list" where
  "vec_log2mlog group_size group_perm = concat (map (\<lambda>g. map (\<lambda>j. nat g * group_size + j) [0..<group_size]) group_perm)"

text \<open>Relabelling the result for the experts in the order of the nodes.\<close>

definition unpermute_layer :: "nat list \<Rightarrow> placed_layer \<Rightarrow> placed_layer" where
  "unpermute_layer log2mlog layer =
     (case layer of (phy2mlog, mlog2phy, mlog_count) \<Rightarrow>
        (gather_row (inverse_perm log2mlog) phy2mlog, gather_row mlog2phy log2mlog, gather_row mlog_count log2mlog))"

definition prefill_rebalance_experts ::
  "('f::linordered_field) torch_ops \<Rightarrow> nat \<Rightarrow> nat \<Rightarrow> 'f list list list \<Rightarrow> nat \<Rightarrow> nat \<Rightarrow> nat \<Rightarrow> nat \<Rightarrow> placed_layer list result" where
  "prefill_rebalance_experts t layers n tokens num_physical num_local num_groups num_nodes =
     (if num_groups = 0 then Inl ZeroDivisionError
      else py_assert (n mod num_groups = 0)
        (if num_nodes = 0 then Inl ZeroDivisionError
         else py_assert (num_groups mod num_nodes = 0)
           (let group_size = n div num_groups in
            bind_res (map_res (\<lambda>l. pack_groups_row t (map sum_list (chunks group_size (sum_steps n (layer_steps tokens l)))) num_nodes)
                        [0..<layers]) (\<lambda>group_perm.
            let log2mlog = map (vec_log2mlog group_size) group_perm;
                tokens_per_mlog = map (\<lambda>step. map2 (\<lambda>row p. gather_row row (inverse_perm p)) step log2mlog) tokens
            in bind_res (make_redundant_experts_chunkwise t layers n tokens_per_mlog num_physical num_local (num_physical div num_nodes))
                 (\<lambda>placed. Inr (map2 unpermute_layer log2mlog placed))))))"

definition rebalance_experts_vec ::
  "('f::linordered_field) torch_ops \<Rightarrow> nat \<Rightarrow> nat \<Rightarrow> 'f list list list \<Rightarrow> nat \<Rightarrow> nat \<Rightarrow> nat option \<Rightarrow> nat \<Rightarrow> bool \<Rightarrow> eplb_result result" where
  "rebalance_experts_vec t layers n tokens num_physical num_local num_groups num_nodes enable_hierarchical =
     bind_res
       (if enable_hierarchical
        then (case num_groups of None \<Rightarrow> Inl TypeError
              | Some g \<Rightarrow> prefill_rebalance_experts t layers n tokens num_physical num_local g num_nodes)
        else decode_rebalance_experts t layers n tokens num_physical num_local)
       (\<lambda>placed. Inr (map (\<lambda>(p2l, _). map int p2l) placed, map (\<lambda>(_, l2p, _). l2p) placed, map (\<lambda>(_, _, cnt). cnt) placed))"

section \<open>Packing the groups\<close>

lemma arg_min_open:
  fixes f :: "'a \<Rightarrow> 'f::linordered_field"
  assumes "filter Q xs \<noteq> []"
  shows "arg_min_list (\<lambda>x. if Q x then (0 :: nat, f x) else (1, 0)) xs = arg_min_list f (filter Q xs)"
  using assms
proof (induction xs)
  case (Cons x xs)
  let ?k = "\<lambda>x. if Q x then (0 :: nat, f x) else (1, 0 :: 'f)"
  show ?case
  proof (cases xs)
    case (Cons y ys)
    show ?thesis
    proof (cases "filter Q xs = []")
      case True
      then have "\<forall>z \<in> set xs. \<not> Q z" by (simp add: filter_empty_conv)
      then have "\<not> Q (arg_min_list ?k xs)" using arg_min_list_in[of xs ?k] Cons by blast
      moreover have "Q x" using Cons.prems True by (auto split: if_splits)
      ultimately show ?thesis using Cons True by (simp add: Let_def)
    next
      case False
      then have "Q (arg_min_list f (filter Q xs))" using arg_min_list_in[OF False] by auto
      moreover obtain z zs where "filter Q xs = z # zs" using False by (cases "filter Q xs") auto
      ultimately show ?thesis using Cons.IH[OF False] Cons by (simp add: Let_def)
    qed
  qed (use Cons.prems in \<open>auto split: if_splits\<close>)
qed simp

text \<open>The same packing as \<open>pack_step\<close>, with the slot number in place of pack and rank.\<close>

definition same_packing :: "nat \<Rightarrow> nat list \<Rightarrow> ('f::linordered_field) group_state \<Rightarrow> 'f pack_state \<Rightarrow> bool" where
  "same_packing gpr ds s p \<longleftrightarrow>
     node_tokens s = pack_weights p \<and> node_groups s = pack_items p \<and> length (group_slots s) = length (pack_index p) \<and>
     (\<forall>g \<in> set ds. nat (group_slots s ! g) = nat (pack_index p ! g) * gpr + nat (rank_in_pack p ! g) \<and> 0 \<le> group_slots s ! g)"

lemma pack_group_same:
  assumes same: "same_packing gpr ds s p" and inv: "pack_inv packs gpr n ds p" and g: "g < n" "g \<notin> set ds"
    and step: "pack_step tokens gpr g p = Inr p'"
  shows "\<exists>s'. pack_group tokens gpr g s = Inr s' \<and> same_packing gpr (ds @ [g]) s' p'"
proof -
  let ?open = "filter (\<lambda>i. pack_items p ! i < gpr) [0..<length (pack_items p)]"
  have o: "?open \<noteq> []" using step by (auto simp: pack_step_def Let_def split: if_splits)
  have "key_func gpr s = (\<lambda>i. if pack_items p ! i < gpr then (0, pack_weights p ! i) else (1, 0))"
    using same by (auto simp: key_func_def same_packing_def fun_eq_iff not_less)
  then have rank: "arg_min_list (key_func gpr s) [0..<length (node_groups s)] = arg_min_list (\<lambda>i. pack_weights p ! i) ?open"
    using arg_min_open[OF o, of "\<lambda>i. pack_weights p ! i"] same by (simp add: same_packing_def)
  have "arg_min_list (\<lambda>i. pack_weights p ! i) ?open \<in> set ?open" using arg_min_list_in[OF o] .
  moreover have "length (pack_index p) = n" "length (rank_in_pack p) = n" using inv by (auto simp: pack_inv_def)
  ultimately show ?thesis
    using same step g o unfolding pack_group_def rank Let_def
    by (auto simp: same_packing_def pack_step_def Let_def nth_list_update simp del: of_nat_mult of_nat_add)
qed

lemma pack_groups_same:
  assumes "same_packing gpr ds s p" "pack_inv packs gpr n ds p" "distinct (ds @ gs)" "set (ds @ gs) \<subseteq> {..<n}"
    and "length (ds @ gs) \<le> packs * gpr" "fold_res (pack_step tokens gpr) gs p = Inr p'"
  shows "\<exists>s'. fold_res (pack_group tokens gpr) gs s = Inr s' \<and> same_packing gpr (ds @ gs) s' p'"
  using assms
proof (induction gs arbitrary: ds s p)
  case (Cons g gs)
  obtain p1 where p1: "pack_step tokens gpr g p = Inr p1" "pack_inv packs gpr n (ds @ [g]) p1"
    using pack_step_inv[OF Cons.prems(2), of g tokens] Cons.prems(3-5) by auto
  obtain s1 where s1: "pack_group tokens gpr g s = Inr s1" "same_packing gpr (ds @ [g]) s1 p1"
    using pack_group_same[OF Cons.prems(1,2) _ _ p1(1)] Cons.prems(3,4) by auto
  from Cons.IH[OF s1(2) p1(2)] Cons.prems p1(1) s1(1) show ?case by auto
qed auto

lemma pack_groups_row_perm:
  assumes t: "torch_spec t" and "0 < nodes" and n: "length tokens = nodes * gpr"
  shows "\<exists>slots. pack_groups_row t tokens nodes = Inr (map int slots) \<and> is_perm slots \<and> length slots = length tokens"
proof -
  let ?n = "length tokens" and ?order = "argsort_desc t tokens"
  have perm: "mset ?order = mset [0..<?n]" using torch_specD(1)[OF t] .
  have o: "distinct ?order" "set ?order = {..<?n}" "length ?order = ?n"
    using mset_eq_imp_distinct_iff[OF perm] mset_eq_setD[OF perm] mset_eq_length[OF perm]
    by (simp_all add: atLeast0LessThan)
  obtain p where p: "fold_res (pack_step tokens gpr) ?order (init_pack ?n nodes) = Inr p" "pack_inv nodes gpr ?n ?order p"
    using pack_fold_inv[OF init_pack_inv[of nodes gpr ?n], of ?order tokens] o n by auto
  let ?init = "\<lparr>node_tokens = replicate nodes 0, node_groups = replicate nodes 0, group_slots = replicate ?n (-1)\<rparr>"
  have "same_packing gpr [] ?init (init_pack ?n nodes)" by (simp add: same_packing_def init_pack_def)
  from pack_groups_same[OF this init_pack_inv _ _ _ p(1)] o n obtain s where
    s: "fold_res (pack_group tokens gpr) ?order ?init = Inr s" "same_packing gpr ?order s p" by auto
  note i = p(2)[unfolded pack_inv_def]
  let ?slots = "map nat (group_slots s)"
  have len: "length (group_slots s) = ?n" using s(2) i by (simp add: same_packing_def)
  have "gpr \<noteq> 0 \<or> ?n = 0" using n by auto
  then have run: "pack_groups_row t tokens nodes = Inr (group_slots s)"
    using s(1) n assms(2) by (auto simp: pack_groups_row_def Let_def)
  have "0 \<le> group_slots s ! g" if "g < ?n" for g using s(2) o(2) that by (simp add: same_packing_def)
  then have "map int ?slots = group_slots s" using len by (intro nth_equalityI) simp_all
  moreover have "is_perm ?slots"
  proof (rule is_permI)
    show "length ?slots = ?n" using len by simp
    show "{..<?n} \<subseteq> set ?slots"
    proof
      fix x assume x: "x \<in> {..<?n}"
      then have gpr: "0 < gpr" using n by (cases gpr) auto
      have full: "pack_items p ! k = gpr" if "k < nodes" for k
        using sum_list_full[of "pack_items p" gpr k] i that o(3) n by auto
      have "x div gpr < nodes" "x mod gpr < gpr" using x n gpr by (auto simp: div_less_iff_less_mult)
      then have "(x div gpr, x mod gpr) \<in> set (map (\<lambda>g. (nat (pack_index p ! g), nat (rank_in_pack p ! g))) ?order)"
        using i full unfolding enumerates_def by auto
      then obtain g where g: "g \<in> set ?order" "x div gpr = nat (pack_index p ! g)" "x mod gpr = nat (rank_in_pack p ! g)" by auto
      then have "nat (group_slots s ! g) = x" using s(2) by (simp add: same_packing_def) (metis div_mult_mod_eq)
      then show "x \<in> set ?slots" using g(1) o(2) len by (force simp: in_set_conv_nth)
    qed
  qed
  ultimately show ?thesis using run len by (intro exI[of _ ?slots]) simp
qed

section \<open>The replicas of a chunk\<close>

lemma length_sum_steps [simp]: "length (sum_steps n rows) = n"
  by (simp add: sum_steps_def)

lemma redundancy_index_less: "torch_spec t \<Longrightarrow> logical_count \<noteq> [] \<Longrightarrow> redundancy_index t offset steps logical_count < length logical_count"
  using torch_specD(4)[of t "sum_steps (length logical_count) (map (step_values t offset logical_count) steps)"]
  by (simp add: redundancy_index_def sum_steps_def)

text \<open>The slots of a chunk that hold its \<open>e\<close>-th expert, in order.\<close>

definition slots_of :: "nat list \<Rightarrow> nat \<Rightarrow> nat list" where
  "slots_of phy e = filter (\<lambda>q. phy ! q = e) [0..<length phy]"

lemma slots_of_snoc: "slots_of (phy @ [x]) e = slots_of phy e @ (if x = e then [length phy] else [])"
  by (auto simp: slots_of_def nth_append intro!: filter_cong)

lemma set_slots_of: "set (slots_of phy e) = {q. q < length phy \<and> phy ! q = e}"
  by (auto simp: slots_of_def)

lemma distinct_slots_of: "distinct (slots_of phy e)"
  by (simp add: slots_of_def)

text \<open>
  After \<open>i\<close> extra replicas: the first slots hold the experts in order, the counts are the numbers of
  slots, and the row of an expert lists its slots and is filled up with \<open>-1\<close>.
\<close>

definition chunk_inv :: "nat \<Rightarrow> nat \<Rightarrow> nat \<Rightarrow> nat \<Rightarrow> nat \<Rightarrow> chunk_state \<Rightarrow> bool" where
  "chunk_inv offset base experts width i s \<longleftrightarrow>
     length (ck_phy2log s) = experts + i \<and> set (ck_phy2log s) \<subseteq> {offset..<offset + experts} \<and>
     length (ck_count s) = experts \<and> length (ck_log2phy s) = experts \<and>
     (\<forall>e < experts. ck_count s ! e = length (slots_of (ck_phy2log s) (offset + e)) \<and>
        1 \<le> ck_count s ! e \<and> ck_count s ! e \<le> i + 1 \<and>
        ck_log2phy s ! e = map (\<lambda>q. int (base + q)) (slots_of (ck_phy2log s) (offset + e)) @ replicate (width + 1 - ck_count s ! e) (-1))"

lemma redundancy_step_inv:
  assumes t: "torch_spec t" and inv: "chunk_inv offset base experts width i s" and "0 < experts" "i < width"
  shows "chunk_inv offset base experts width (Suc i) (redundancy_step t offset base steps i s)"
proof -
  let ?e = "redundancy_index t offset steps (ck_count s)" and ?p = "ck_phy2log s" and ?c = "ck_count s"
  note d = inv[unfolded chunk_inv_def]
  have e: "?e < experts" using redundancy_index_less[OF t, of ?c] d assms(3) by auto
  let ?xs = "map (\<lambda>q. int (base + q)) (slots_of ?p (offset + ?e))"
  have c: "?c ! ?e = length ?xs" "?c ! ?e \<le> width" "ck_log2phy s ! ?e = ?xs @ replicate (width + 1 - ?c ! ?e) (-1)"
    using d e assms(4) by auto
  obtain k where k: "width + 1 - ?c ! ?e = Suc k" "width - ?c ! ?e = k" using c(2) by (metis Suc_diff_le Suc_eq_plus1)
  have row: "(ck_log2phy s ! ?e)[?c ! ?e := v] = ?xs @ v # replicate k (-1)" for v
    unfolding c(3) k(1) using c(1) by (simp add: list_update_append)
  have other: "slots_of (?p @ [offset + ?e]) (offset + j) = slots_of ?p (offset + j)" if "j \<noteq> ?e" for j
    using that by (simp add: slots_of_snoc)
  have self: "slots_of (?p @ [offset + ?e]) (offset + ?e) = slots_of ?p (offset + ?e) @ [experts + i]"
    using d by (simp add: slots_of_snoc)
  show ?thesis
    unfolding chunk_inv_def redundancy_step_def Let_def chunk_state.simps
  proof (intro conjI allI impI)
    fix j assume j: "j < experts"
    show "(?c[?e := Suc (?c ! ?e)]) ! j = length (slots_of (?p @ [offset + ?e]) (offset + j))"
      "1 \<le> (?c[?e := Suc (?c ! ?e)]) ! j" "(?c[?e := Suc (?c ! ?e)]) ! j \<le> Suc i + 1"
      using d j e self other[of j] by (cases "j = ?e"; force simp: nth_list_update)+
    show "(ck_log2phy s)[?e := (ck_log2phy s ! ?e)[?c ! ?e := int (base + length ?c + i)]] ! j =
        map (\<lambda>q. int (base + q)) (slots_of (?p @ [offset + ?e]) (offset + j)) @
        replicate (width + 1 - (?c[?e := Suc (?c ! ?e)]) ! j) (-1)"
      using d j e self other[of j] row k(2) by (cases "j = ?e") (simp_all add: nth_list_update add.assoc)
  qed (use d e in auto)
qed

lemma redundant_chunk_inv:
  assumes "torch_spec t" "0 < experts" "redundancy \<le> width"
  shows "chunk_inv offset base experts width redundancy (redundant_chunk t offset base experts redundancy width steps)"
proof -
  let ?init = "\<lparr>ck_phy2log = map (\<lambda>j. offset + j) [0..<experts],
      ck_log2phy = map (\<lambda>j. int (base + j) # replicate width (-1)) [0..<experts], ck_count = replicate experts 1\<rparr>"
  have "filter (\<lambda>q. map (\<lambda>j. offset + j) [0..<experts] ! q = offset + e) [0..<experts] = [e]" if "e < experts" for e
  proof -
    have "filter (\<lambda>q. map (\<lambda>j. offset + j) [0..<experts] ! q = offset + e) [0..<experts] = filter (\<lambda>q. q = e) [0..<experts]"
      by (rule filter_cong) auto
    also have "\<dots> = [e]" using that by (induction experts) (auto simp: less_Suc_eq filter_empty_conv)
    finally show ?thesis .
  qed
  then have "chunk_inv offset base experts width 0 ?init" by (auto simp: chunk_inv_def slots_of_def)
  then have "chunk_inv offset base experts width k (fold (redundancy_step t offset base steps) [0..<k] ?init)" if "k \<le> width" for k
    using that
  proof (induction k)
    case (Suc k)
    then show ?case using redundancy_step_inv[OF assms(1) _ assms(2), of offset base width k] by simp
  qed simp
  from this[OF assms(3)] show ?thesis by (simp add: redundant_chunk_def)
qed

section \<open>A placed layer\<close>

definition vec_placed :: "nat \<Rightarrow> nat \<Rightarrow> placed_layer \<Rightarrow> bool" where
  "vec_placed n num_physical layer \<longleftrightarrow>
     (case layer of (p2l, l2p, cnt) \<Rightarrow>
        length p2l = num_physical \<and> set p2l \<subseteq> {..<n} \<and> length l2p = n \<and> length cnt = n \<and>
        (\<forall>e < n. 1 \<le> cnt ! e \<and> (\<exists>xs k. l2p ! e = xs @ replicate k (-1) \<and> length xs = cnt ! e \<and> distinct xs \<and>
           set xs = {int q | q. q < num_physical \<and> p2l ! q = e})))"

lemma vec_placedD:
  assumes "vec_placed n P (p2l, l2p, cnt)"
  shows "length p2l = P" "set p2l \<subseteq> {..<n}" "length l2p = n" "length cnt = n" "e < n \<Longrightarrow> 1 \<le> cnt ! e"
    "e < n \<Longrightarrow> \<exists>xs k. l2p ! e = xs @ replicate k (-1) \<and> length xs = cnt ! e \<and> distinct xs \<and> set xs = {int q | q. q < P \<and> p2l ! q = e}"
    "q < P \<Longrightarrow> p2l ! q < n"
proof -
  show l: "length p2l = P" "set p2l \<subseteq> {..<n}" "length l2p = n" "length cnt = n" using assms by (simp_all add: vec_placed_def)
  show "1 \<le> cnt ! e" if "e < n" using assms that unfolding vec_placed_def prod.case by blast
  show "\<exists>xs k. l2p ! e = xs @ replicate k (-1) \<and> length xs = cnt ! e \<and> distinct xs \<and> set xs = {int q | q. q < P \<and> p2l ! q = e}" if "e < n"
    using assms that unfolding vec_placed_def prod.case by blast
  show "p2l ! q < n" if "q < P" using l(2) nth_mem[of q p2l] that l(1) by blast
qed

lemma vec_placed_balanced:
  assumes "vec_placed n P (p2l, l2p, cnt)"
  shows "balanced_layer n P (map int p2l) l2p cnt"
proof -
  note v = vec_placedD[OF assms]
  have card: "card {q. q < P \<and> p2l ! q = e} = cnt ! e" if e: "e < n" for e
  proof -
    obtain xs where xs: "length xs = cnt ! e" "distinct xs" "set xs = {int q | q. q < P \<and> p2l ! q = e}" using v(6)[OF e] by blast
    have "set xs = int ` {q. q < P \<and> p2l ! q = e}" using xs(3) by auto
    then show ?thesis using distinct_card[OF xs(2)] xs(1) by (simp add: card_image)
  qed
  have "{..<P} = (\<Union>e < n. {q. q < P \<and> p2l ! q = e})" using v(7) by auto
  then have "P = card (\<Union>e < n. {q. q < P \<and> p2l ! q = e})" by (metis card_lessThan)
  also have "\<dots> = (\<Sum>e < n. cnt ! e)" using card by (subst card_UN_disjoint) auto
  finally have sum: "sum_list cnt = P" using v(4) by (simp add: sum_list_sum_nth atLeast0LessThan)
  have "e \<in> set p2l" if "e < n" for e
  proof -
    have "card {q. q < P \<and> p2l ! q = e} \<noteq> 0" using card[OF that] v(5)[OF that] by linarith
    then have "{q. q < P \<and> p2l ! q = e} \<noteq> {}" by (metis card.empty)
    then show ?thesis using v(1) by auto
  qed
  then have "set p2l = {0..<n}" using v(2) by auto
  then have "set (map int p2l) = {0..<int n}" by (simp add: image_int_atLeastLessThan)
  moreover have "{int i | i. i < P \<and> map int p2l ! i = int e} = {int q | q. q < P \<and> p2l ! q = e}" for e
    using v(1) by auto
  ultimately show ?thesis unfolding balanced_layer_def using v sum by simp
qed

lemma vec_placedI:
  assumes "length p2l = P" "set p2l \<subseteq> {..<n}" "length l2p = n" "length cnt = n" "\<And>e. e < n \<Longrightarrow> 1 \<le> cnt ! e"
    "\<And>e. e < n \<Longrightarrow> \<exists>xs k. l2p ! e = xs @ replicate k (-1) \<and> length xs = cnt ! e \<and> distinct xs \<and> set xs = {int q | q. q < P \<and> p2l ! q = e}"
  shows "vec_placed n P (p2l, l2p, cnt)"
  unfolding vec_placed_def prod.case using assms by blast

text \<open>Adding a chunk behind the others.\<close>

lemma vec_placed_append:
  assumes v: "vec_placed n P (p2l, l2p, cnt)" and s: "chunk_inv n P g width r s"
  shows "vec_placed (n + g) (P + (g + r)) (p2l @ ck_phy2log s, l2p @ ck_log2phy s, cnt @ ck_count s)"
proof (rule vec_placedI)
  note d = s[unfolded chunk_inv_def] and v' = vec_placedD[OF v]
  let ?p = "p2l @ ck_phy2log s"
  have phy: "n \<le> ck_phy2log s ! q" "ck_phy2log s ! q < n + g" if "q < g + r" for q
  proof -
    have "ck_phy2log s ! q \<in> {n..<n + g}" using d nth_mem[of q "ck_phy2log s"] that by (metis subsetD)
    then show "n \<le> ck_phy2log s ! q" "ck_phy2log s ! q < n + g" by auto
  qed
  fix e assume e: "e < n + g"
  have "1 \<le> ck_count s ! j" if "j < g" for j using d that by blast
  then show "1 \<le> (cnt @ ck_count s) ! e" using v'(4,5) e by (simp add: nth_append)
  show "\<exists>xs k. (l2p @ ck_log2phy s) ! e = xs @ replicate k (-1) \<and> length xs = (cnt @ ck_count s) ! e \<and> distinct xs \<and>
      set xs = {int q | q. q < P + (g + r) \<and> ?p ! q = e}"
  proof (cases "e < n")
    case True
    have "{int q | q. q < P + (g + r) \<and> ?p ! q = e} = {int q | q. q < P \<and> p2l ! q = e}"
    proof (intro Collect_cong iffI; elim exE conjE)
      fix x q assume q: "x = int q" "q < P + (g + r)" "?p ! q = e"
      have "q < P"
      proof (rule ccontr)
        assume "\<not> q < P"
        then have "q - P < g + r" "?p ! q = ck_phy2log s ! (q - P)" using q(2) v'(1) by (auto simp: nth_append)
        then show False using phy(1) q(3) True by fastforce
      qed
      then show "\<exists>q. x = int q \<and> q < P \<and> p2l ! q = e" using q v'(1) by (auto simp: nth_append)
    next
      fix x q assume "x = int q" "q < P" "p2l ! q = e"
      then show "\<exists>q. x = int q \<and> q < P + (g + r) \<and> ?p ! q = e" using v'(1) by (intro exI[of _ q]) (simp add: nth_append)
    qed
    then show ?thesis using v'(3,4) v'(6)[OF True] True by (simp add: nth_append)
  next
    case False
    define j where "j = e - n"
    have j: "e = n + j" "j < g" using False e by (auto simp: j_def)
    let ?xs = "map (\<lambda>q. int (P + q)) (slots_of (ck_phy2log s) (n + j))"
    have "set ?xs = {int q | q. q < P + (g + r) \<and> ?p ! q = e}"
    proof (intro set_eqI iffI)
      fix x assume "x \<in> set ?xs"
      then obtain q where "x = int (P + q)" "q < g + r" "ck_phy2log s ! q = n + j" using d by (auto simp: set_slots_of)
      then show "x \<in> {int q | q. q < P + (g + r) \<and> ?p ! q = e}" using v'(1) j by (auto simp: nth_append intro!: exI[of _ "P + q"])
    next
      fix x assume "x \<in> {int q | q. q < P + (g + r) \<and> ?p ! q = e}"
      then obtain q where q: "x = int q" "q < P + (g + r)" "?p ! q = e" by blast
      have "\<not> q < P" using q(3) v'(1) v'(7)[of q] j by (auto simp: nth_append)
      then have "q - P < g + r" "ck_phy2log s ! (q - P) = n + j" "x = int (P + (q - P))" using q v'(1) j by (auto simp: nth_append)
      then show "x \<in> set ?xs" using d by (auto simp: set_slots_of)
    qed
    moreover have "distinct ?xs" by (simp add: distinct_map distinct_slots_of inj_on_def)
    ultimately show ?thesis using d j v'(3,4)
      by (intro exI[of _ ?xs] exI[of _ "width + 1 - ck_count s ! j"]) (simp add: nth_append)
  qed
qed (use s vec_placedD[OF v] in \<open>auto simp: chunk_inv_def\<close>)

lemma chunks_placed:
  assumes "\<And>c. c < C \<Longrightarrow> chunk_inv (c * g) (c * (g + r)) g width r (f c)"
  shows "vec_placed (C * g) (C * (g + r))
    (concat (map ck_phy2log (map f [0..<C])), concat (map ck_log2phy (map f [0..<C])), concat (map ck_count (map f [0..<C])))"
  using assms
proof (induction C)
  case 0
  show ?case by (simp add: vec_placed_def)
next
  case (Suc C)
  have "vec_placed (C * g) (C * (g + r))
    (concat (map ck_phy2log (map f [0..<C])), concat (map ck_log2phy (map f [0..<C])), concat (map ck_count (map f [0..<C])))"
    using Suc by simp
  from vec_placed_append[OF this Suc.prems[of C]] show ?case by (simp add: add.commute)
qed

section \<open>Moving slots and renaming experts\<close>

lemma argsort_perm:
  assumes "is_perm xs"
  shows "argsort xs = inverse_perm xs"
proof -
  note p = inverse_perm_correct[OF assms] and r = inverse_perm_right[OF assms]
  have "map (\<lambda>i. xs ! i) (inverse_perm xs) = [0..<length xs]" using p(1) r(1) by (intro nth_equalityI) auto
  then have "sorted (map (\<lambda>i. xs ! i) (inverse_perm xs))" by simp
  moreover have "mset (inverse_perm xs) = mset [0..<length xs]" using p(1,3) by (simp add: is_perm_mset)
  moreover have "inj_on (\<lambda>i. xs ! i) (set [0..<length xs])" using assms by (auto simp: is_perm_def inj_on_def nth_eq_iff_index_eq)
  ultimately show ?thesis
    unfolding argsort_def by (intro sort_key_inj_key_eq) auto
qed

lemma vec_placed_move:
  assumes v: "vec_placed n P (p2l, l2p, cnt)" and p: "is_perm idx" "length idx = P"
  shows "vec_placed n P (gather_row p2l idx, map (map (\<lambda>v. if v = -1 then -1 else int (argsort idx ! nat v))) l2p, cnt)"
proof (rule vec_placedI)
  note v' = vec_placedD[OF v] and inv = inverse_perm_correct[OF p(1)] inverse_perm_right[OF p(1)]
  let ?f = "\<lambda>v. if v = -1 then -1 else int (argsort idx ! nat v)"
  have f: "?f (int q) = int (inverse_perm idx ! q)" for q by (simp add: argsort_perm[OF p(1)])
  have idx: "idx ! q < P" if "q < P" for q using p nth_mem[of q idx] that by (auto simp: is_perm_def)
  fix e assume e: "e < n"
  then show "1 \<le> cnt ! e" by (rule v'(5))
  obtain xs k where xs: "l2p ! e = xs @ replicate k (-1)" "length xs = cnt ! e" "distinct xs" "set xs = {int q | q. q < P \<and> p2l ! q = e}"
    using v'(6)[OF e] by blast
  have "set (map ?f xs) = {int q | q. q < P \<and> gather_row p2l idx ! q = e}"
  proof (intro set_eqI iffI)
    fix x assume "x \<in> set (map ?f xs)"
    then obtain q where q: "x = int (inverse_perm idx ! q)" "q < P" "p2l ! q = e" using xs(4) f by auto
    then show "x \<in> {int q | q. q < P \<and> gather_row p2l idx ! q = e}"
      using inv(4,5)[of q] p(2) by (auto simp: gather_row_def)
  next
    fix x assume "x \<in> {int q | q. q < P \<and> gather_row p2l idx ! q = e}"
    then obtain q where q: "x = int q" "q < P" "p2l ! (idx ! q) = e" using p(2) by (auto simp: gather_row_def)
    then have "x = ?f (int (idx ! q))" "int (idx ! q) \<in> set xs" using f inv(2)[of q] p(2) idx xs(4) by auto
    then show "x \<in> set (map ?f xs)" unfolding set_map by (rule image_eqI)
  qed
  moreover have "inj_on ?f (set xs)"
  proof (rule inj_onI)
    fix a b assume "a \<in> set xs" "b \<in> set xs" and eq: "?f a = ?f b"
    then obtain q r where q: "a = int q" "q < P" "b = int r" "r < P" using xs(4) by auto
    then have "inverse_perm idx ! q = inverse_perm idx ! r" using eq f by simp
    then show "a = b" using inv(4)[of q] inv(4)[of r] q p(2) by metis
  qed
  moreover have "map (map ?f) l2p ! e = map ?f xs @ replicate k (-1)" using v'(3) e xs(1) by simp
  ultimately show "\<exists>xs k. map (map ?f) l2p ! e = xs @ replicate k (-1) \<and> length xs = cnt ! e \<and> distinct xs \<and>
      set xs = {int q | q. q < P \<and> gather_row p2l idx ! q = e}"
    using xs(2,3) by (intro exI[of _ "map ?f xs"] exI[of _ k]) (simp add: distinct_map)
next
  show "set (gather_row p2l idx) \<subseteq> {..<n}"
    using vec_placedD(1,7)[OF v] p by (auto simp: gather_row_def is_perm_def)
qed (use vec_placedD[OF v] p in auto)

lemma vec_placed_rename:
  assumes v: "vec_placed n P layer" and p: "is_perm log2mlog" "length log2mlog = n"
  shows "vec_placed n P (unpermute_layer log2mlog layer)"
proof -
  obtain p2l l2p cnt where layer: "layer = (p2l, l2p, cnt)" by (cases layer)
  note v' = vec_placedD[OF v[unfolded layer]] and inv = inverse_perm_correct[OF p(1)] inverse_perm_right[OF p(1)]
  have m: "log2mlog ! e < n" if "e < n" for e using p nth_mem[of e log2mlog] that by (auto simp: is_perm_def)
  have eq: "inverse_perm log2mlog ! (p2l ! q) = e \<longleftrightarrow> p2l ! q = log2mlog ! e" if "q < P" "e < n" for q e
    using inv(2)[of e] inv(4)[of "p2l ! q"] v'(7)[of q] that p(2) by metis
  have "vec_placed n P (gather_row (inverse_perm log2mlog) p2l, gather_row l2p log2mlog, gather_row cnt log2mlog)"
  proof (rule vec_placedI)
    fix e assume e: "e < n"
    have g: "gather_row cnt log2mlog ! e = cnt ! (log2mlog ! e)" "gather_row l2p log2mlog ! e = l2p ! (log2mlog ! e)"
      using e p(2) by (simp_all add: gather_row_def)
    show "1 \<le> gather_row cnt log2mlog ! e" using v'(5)[OF m[OF e]] g by simp
    have "{int q | q. q < P \<and> gather_row (inverse_perm log2mlog) p2l ! q = e} = {int q | q. q < P \<and> p2l ! q = log2mlog ! e}"
    proof (intro Collect_cong ex_cong conj_cong refl)
      fix q assume "q < P"
      then show "gather_row (inverse_perm log2mlog) p2l ! q = e \<longleftrightarrow> p2l ! q = log2mlog ! e"
        using eq[OF _ e] v'(1) by (simp add: gather_row_def)
    qed
    then show "\<exists>xs k. gather_row l2p log2mlog ! e = xs @ replicate k (-1) \<and> length xs = gather_row cnt log2mlog ! e \<and> distinct xs \<and>
        set xs = {int q | q. q < P \<and> gather_row (inverse_perm log2mlog) p2l ! q = e}"
      using v'(6)[OF m[OF e]] g by simp
  next
    show "set (gather_row (inverse_perm log2mlog) p2l) \<subseteq> {..<n}"
      using inv(5) v'(2) p(2) by (auto simp: gather_row_def)
  qed (use v' p(2) in auto)
  then show ?thesis by (simp add: unpermute_layer_def layer)
qed

section \<open>Dealing the slots out\<close>

lemma set_flip_odd: "set (concat (flip_odd rows)) = set (concat rows)"
proof -
  have "\<Union> (set ` set (map (\<lambda>(j, row). if odd j then rev row else row) (enumerate i rows))) = \<Union> (set ` set rows)" for i
    by (induction rows arbitrary: i) auto
  then show ?thesis by (simp add: flip_odd_def)
qed

lemma flip_odd_rect: "rect a k rows \<Longrightarrow> rect a k (flip_odd rows)"
  by (auto simp: flip_odd_def rect_def list_all_length nth_enumerate_eq split: if_splits)

lemma snake_perm:
  assumes "0 < k" "length xs = a * k"
  shows "set (snake k xs) = set xs" "length (snake k xs) = length xs"
proof -
  let ?rows = "flip_odd (chunks k xs)"
  have "rect a k (chunks k xs)" using chunks_shape(1,2)[OF assms] by (simp add: rect_def list_all_iff)
  then have r: "rect a k ?rows" by (rule flip_odd_rect)
  have all: "set (concat ?rows) = set xs" using set_flip_odd concat_chunks[OF assms(1)] by metis
  have "set (snake k xs) = set xs \<and> length (snake k xs) = length xs"
  proof (cases "a = 0")
    case True
    then have "?rows = []" using r by (simp add: rect_def)
    then show ?thesis using True assms(2) by (simp add: snake_def)
  next
    case False
    have "transpose ?rows = map (\<lambda>i. map (\<lambda>j. ?rows ! j ! i) [0..<length ?rows]) [0..<k]"
      using r False by (intro transpose_rectangle) (auto simp: rect_def list_all_length)
    then have tr: "transpose ?rows = map (\<lambda>i. map (\<lambda>j. ?rows ! j ! i) [0..<a]) [0..<k]" using rect_length[OF r] by simp
    have "length (snake k xs) = k * a" unfolding snake_def tr by (subst length_concat_const[where c = a]) auto
    moreover have "set (snake k xs) = set (concat ?rows)"
    proof -
      have "set (snake k xs) = (\<Union>i < k. \<Union>j < a. {?rows ! j ! i})" unfolding snake_def tr by auto blast
      also have "\<dots> = (\<Union>j < a. set (?rows ! j))"
      proof -
        have "set (?rows ! j) = (\<Union>i < k. {?rows ! j ! i})" if "j < a" for j
          using rect_row[OF r that] by (auto simp: set_conv_nth)
        then show ?thesis by auto
      qed
      also have "\<dots> = set (concat ?rows)"
        using rect_length[OF r] by (auto simp: set_conv_nth[of ?rows])
      finally show ?thesis .
    qed
    ultimately show ?thesis using all assms(2) by simp
  qed
  then show "set (snake k xs) = set xs" "length (snake k xs) = length xs" by auto
qed

lemma dealt_perm:
  assumes t: "torch_spec t" and pc: "0 < pc" "length score = C * pc" and k: "pc = a * k" "0 < k"
  defines "order \<equiv> map (argsort_desc t) (chunks pc score)"
  shows "is_perm (concat (map2 (\<lambda>c idx. snake k (map (\<lambda>i. i + c * pc) idx)) [0..<length order] order))" (is "is_perm ?xs")
    "length (concat (map2 (\<lambda>c idx. snake k (map (\<lambda>i. i + c * pc) idx)) [0..<length order] order)) = C * pc"
proof -
  note ch = chunks_shape(1,2)[OF pc]
  have len: "length order = C" using ch by (simp add: order_def)
  have one: "length (order ! c) = pc" "set (order ! c) = {..<pc}" if "c < C" for c
  proof -
    have "length (chunks pc score ! c) = pc" using ch that by simp
    then have "mset (order ! c) = mset [0..<pc]" using torch_specD(1)[OF t] that ch(1) by (simp add: order_def)
    then show "length (order ! c) = pc" "set (order ! c) = {..<pc}"
      using mset_eq_length mset_eq_setD by (fastforce, fastforce simp: atLeast0LessThan)
  qed
  let ?f = "\<lambda>c. snake k (map (\<lambda>i. i + c * pc) (order ! c))"
  have f: "set (?f c) = (\<lambda>i. i + c * pc) ` {..<pc}" "length (?f c) = pc" if "c < C" for c
    using snake_perm[OF k(2), of "map (\<lambda>i. i + c * pc) (order ! c)" a] one[OF that] k(1) by simp_all
  have xs: "?xs = concat (map ?f [0..<C])"
    unfolding len by (intro arg_cong[of _ _ concat] nth_equalityI) (auto simp: len)
  show length: "length ?xs = C * pc" unfolding xs using f(2) by (subst length_concat_const[where c = pc]) auto
  have "x \<in> set ?xs" if "x < C * pc" for x
  proof -
    have "x div pc < C" "x mod pc < pc" using that pc by (auto simp: div_less_iff_less_mult)
    moreover have "x = x mod pc + x div pc * pc" by simp
    ultimately have "x \<in> set (?f (x div pc))" unfolding f(1)[OF \<open>x div pc < C\<close>] by (intro image_eqI[of _ _ "x mod pc"]) auto
    then show ?thesis using \<open>x div pc < C\<close> unfolding xs by auto
  qed
  then show "is_perm ?xs" by (intro is_permI[OF length]) auto
qed

section \<open>The whole balancer\<close>

lemma chunkwise_layer_placed:
  assumes t: "torch_spec t" and g: "0 < g" and C: "0 < C" and loc: "(g + r) mod num_local = 0"
  shows "\<exists>layer. chunkwise_layer t num_local (g + r) C g r steps = Inr layer \<and> vec_placed (C * g) (C * (g + r)) layer"
proof -
  let ?f = "\<lambda>c. redundant_chunk t (c * g) (c * (g + r)) g r (C * r) (map (\<lambda>row. take g (drop (c * g) row)) steps)"
  let ?layer = "(concat (map ck_phy2log (map ?f [0..<C])), concat (map ck_log2phy (map ?f [0..<C])), concat (map ck_count (map ?f [0..<C])))"
  have "r \<le> C * r" using C by simp
  then have v: "vec_placed (C * g) (C * (g + r)) ?layer" using redundant_chunk_inv[OF t g] by (intro chunks_placed) blast
  show ?thesis
  proof (cases "1 < num_local")
    case False
    then show ?thesis using v g by (auto simp: chunkwise_layer_def Let_def)
  next
    case True
    let ?score = "map (\<lambda>e. sum_steps (C * g) steps ! e / of_nat (concat (map ck_count (map ?f [0..<C])) ! e)) (concat (map ck_phy2log (map ?f [0..<C])))"
    obtain k where k: "g + r = num_local * k" using loc by (auto elim!: dvdE simp flip: dvd_eq_mod_eq_0)
    then have kpos: "0 < k" using g by (cases k) auto
    have div: "(g + r) div num_local = k" using k True by simp
    have len: "length ?score = C * (g + r)" using vec_placedD(1)[OF v] by simp
    note p = dealt_perm[OF t _ len k kpos]
    from vec_placed_move[OF v p] show ?thesis
      using g True loc unfolding chunkwise_layer_def balance_gpus_def Let_def prod.case div by simp
  qed
qed

lemma make_redundant_placed:
  assumes "torch_spec t" "0 < g" "0 < C" "(g + r) mod num_local = 0"
  shows "\<exists>placed. make_redundant_experts_chunkwise t layers (C * g) tokens (C * (g + r)) num_local (g + r) = Inr placed \<and>
     length placed = layers \<and> list_all (vec_placed (C * g) (C * (g + r))) placed"
proof -
  have div: "C * (g + r) div (g + r) = C" "C * g div C = g" "(C * (g + r) - C * g) div C = r"
    using assms(2,3) by (auto simp flip: diff_mult_distrib2)
  have R: "int (C * (g + r)) - int (C * g) = int C * int r" by (simp add: distrib_left)
  obtain placed where "map_res (\<lambda>l. chunkwise_layer t num_local (g + r) C g r (layer_steps tokens l)) [0..<layers] = Inr placed"
    "list_all2 (\<lambda>_. vec_placed (C * g) (C * (g + r))) [0..<layers] placed"
    using map_res_total[of "[0..<layers]" "\<lambda>l. chunkwise_layer t num_local (g + r) C g r (layer_steps tokens l)" "\<lambda>_. vec_placed (C * g) (C * (g + r))"]
      chunkwise_layer_placed[OF assms] by blast
  moreover have small: "(C * (g + r) + 1 < C * g) = False" "(C * (g + r) < C * g) = False" by (simp_all add: distrib_left)
  ultimately show ?thesis
    using assms(2,3) unfolding make_redundant_experts_chunkwise_def div R Let_def small if_False
    by (auto simp: list_all2_conv_all_nth list_all_length)
qed

lemma prefill_placed:
  assumes t: "torch_spec t" and ok: "sizes_ok n P G N U"
  shows "\<exists>placed. prefill_rebalance_experts t layers n tokens P (P div U) G N = Inr placed \<and>
     length placed = layers \<and> list_all (vec_placed n P) placed"
proof -
  note o = ok[unfolded sizes_ok_def]
  obtain gs gpn upn k where n: "n = G * gs" "G = N * gpn" "U = N * upn" "P = U * k" using o by (auto elim!: dvdE simp flip: dvd_eq_mod_eq_0)
  have pos: "0 < gs" "0 < gpn" "0 < upn" "0 < k" "0 < N" "0 < U" using o n by (auto intro!: gr0I)
  define g where "g = gpn * gs"
  obtain r where r: "upn * k = g + r" 
  proof (rule that[of "upn * k - g"])
    have "N * g \<le> N * (upn * k)" using o n by (simp add: g_def ac_simps)
    then show "upn * k = g + (upn * k - g)" using pos(5) by simp
  qed
  have nN: "n = N * g" using n by (simp add: g_def)
  have PN: "P = N * (g + r)" using n unfolding r[symmetric] by simp
  have PU: "P div U = k" using n(4) pos(6) by simp
  have PdN: "P div N = g + r" using PN pos(5) by simp
  have gk: "(g + r) mod k = 0" unfolding r[symmetric] by simp
  note nP = nN PN PU PdN gk
  have perm: "\<exists>gp. pack_groups_row t (map sum_list (chunks gs (sum_steps n (layer_steps tokens l)))) N = Inr gp \<and>
      is_perm (vec_log2mlog gs gp) \<and> length (vec_log2mlog gs gp) = n" for l
  proof -
    have "length (map sum_list (chunks gs (sum_steps n (layer_steps tokens l)))) = N * gpn"
      using chunks_shape(1)[OF pos(1), of "sum_steps n (layer_steps tokens l)" G] n by simp
    from pack_groups_row_perm[OF t pos(5) this] obtain slots where s:
      "pack_groups_row t (map sum_list (chunks gs (sum_steps n (layer_steps tokens l)))) N = Inr (map int slots)" "is_perm slots" "length slots = G"
      using chunks_shape(1)[OF pos(1), of "sum_steps n (layer_steps tokens l)" G] n by auto
    have "vec_log2mlog gs (map int slots) = concat (map (\<lambda>s. map (\<lambda>j. s * gs + j) [0..<gs]) slots)"
      by (simp add: vec_log2mlog_def comp_def)
    then show ?thesis using s expand_perm[OF s(2) pos(1)] n by auto
  qed
  then obtain gps where gps: "map_res (\<lambda>l. pack_groups_row t (map sum_list (chunks gs (sum_steps n (layer_steps tokens l)))) N) [0..<layers] = Inr gps"
    "list_all2 (\<lambda>_ gp. is_perm (vec_log2mlog gs gp) \<and> length (vec_log2mlog gs gp) = n) [0..<layers] gps"
    using map_res_total[of "[0..<layers]" "\<lambda>l. pack_groups_row t (map sum_list (chunks gs (sum_steps n (layer_steps tokens l)))) N"
      "\<lambda>_ gp. is_perm (vec_log2mlog gs gp) \<and> length (vec_log2mlog gs gp) = n"] by blast
  let ?m = "map (vec_log2mlog gs) gps"
  let ?tokens = "map (\<lambda>step. map2 (\<lambda>row p. gather_row row (inverse_perm p)) step ?m) tokens"
  have gpos: "0 < g" using pos by (simp add: g_def)
  obtain placed where pl: "make_redundant_experts_chunkwise t layers n ?tokens P k (g + r) = Inr placed"
    "length placed = layers" "list_all (vec_placed n P) placed"
    using make_redundant_placed[OF t gpos pos(5) nP(5), of layers ?tokens] nP(1,2) by auto
  have "n div G = gs" using n o by simp
  then have run: "prefill_rebalance_experts t layers n tokens P (P div U) G N = Inr (map2 unpermute_layer ?m placed)"
    using o gps(1) pl(1) nP(3,4) unfolding prefill_rebalance_experts_def Let_def by simp
  have "vec_placed n P (unpermute_layer (?m ! l) (placed ! l))" if "l < layers" for l
    using pl(2,3) gps(2) that by (intro vec_placed_rename) (auto simp: list_all_length list_all2_conv_all_nth)
  then show ?thesis using run pl(2) gps(2) by (intro exI[of _ "map2 unpermute_layer ?m placed"]) (auto simp: list_all_length list_all2_conv_all_nth)
qed

lemma decode_placed:
  assumes t: "torch_spec t" and ok: "sizes_ok n P 1 1 U"
  shows "\<exists>placed. decode_rebalance_experts t layers n tokens P (P div U) = Inr placed \<and>
     length placed = layers \<and> list_all (vec_placed n P) placed"
proof -
  note o = ok[unfolded sizes_ok_def]
  have "(n + (P - n)) mod (P div U) = 0" using o by (auto elim!: dvdE simp flip: dvd_eq_mod_eq_0)
  from make_redundant_placed[OF t _ _ this, of 1 layers tokens] o show ?thesis by (simp add: decode_rebalance_experts_def)
qed

lemma rebalance_vec_placed:
  assumes t: "torch_spec t" and ok: "if hier then \<exists>G. groups = Some G \<and> sizes_ok n P G N U else sizes_ok n P 1 1 U"
  shows "\<exists>p2l l2p cnt. rebalance_experts_vec t layers n tokens P (P div U) groups N hier = Inr (p2l, l2p, cnt) \<and>
     length p2l = layers \<and> length l2p = layers \<and> length cnt = layers \<and>
     (\<forall>l < layers. balanced_layer n P (p2l ! l) (l2p ! l) (cnt ! l))"
proof -
  have "\<exists>placed. (if hier then (case groups of None \<Rightarrow> Inl TypeError
        | Some g \<Rightarrow> prefill_rebalance_experts t layers n tokens P (P div U) g N)
      else decode_rebalance_experts t layers n tokens P (P div U)) = Inr placed \<and> length placed = layers \<and> list_all (vec_placed n P) placed"
  proof (cases hier)
    case True
    then obtain G where "groups = Some G" "sizes_ok n P G N U" using ok by auto
    then show ?thesis using True prefill_placed[OF t] by simp
  qed (use ok decode_placed[OF t] in simp)
  then obtain placed where p: "(if hier then (case groups of None \<Rightarrow> Inl TypeError
        | Some g \<Rightarrow> prefill_rebalance_experts t layers n tokens P (P div U) g N)
      else decode_rebalance_experts t layers n tokens P (P div U)) = Inr placed" "length placed = layers" "list_all (vec_placed n P) placed"
    by blast
  have "balanced_layer n P (map int (fst (placed ! l))) (fst (snd (placed ! l))) (snd (snd (placed ! l)))" if "l < layers" for l
    using p(2,3) that by (intro vec_placed_balanced) (simp add: list_all_length)
  moreover have "rebalance_experts_vec t layers n tokens P (P div U) groups N hier =
      Inr (map (\<lambda>(p2l, _). map int p2l) placed, map (\<lambda>(_, l2p, _). l2p) placed, map (\<lambda>(_, _, cnt). cnt) placed)"
    unfolding rebalance_experts_vec_def p(1) by simp
  ultimately show ?thesis using p(2) by (intro exI conjI) (assumption, simp_all add: case_prod_unfold)
qed

section \<open>The choice of a replica\<close>

text \<open>The loads of a chunk in one step when expert \<open>e\<close> gets one more replica, computed directly.\<close>

definition loads_with :: "nat \<Rightarrow> nat list \<Rightarrow> ('f::linordered_field) list \<Rightarrow> nat \<Rightarrow> 'f list" where
  "loads_with offset logical_count tokens e =
     (all_diff_scores offset tokens logical_count)[e := tokens ! e / (of_nat (logical_count ! e) + 1)]"

lemma length_all_diff_scores [simp]:
  "length (all_diff_scores offset tokens logical_count) = min (length tokens) (length logical_count)"
  by (simp add: all_diff_scores_def)

lemma nth_all_diff_scores:
  assumes "e < length tokens" "e < length logical_count"
  shows "all_diff_scores offset tokens logical_count ! e =
     (tokens ! e + of_nat (offset + e) * (1 / 10000)) / of_nat (logical_count ! e)"
  using assms by (simp add: all_diff_scores_def nth_enumerate_eq)

lemma Max_update_below:
  fixes xs :: "'a::linorder list"
  assumes "m < length xs" "\<forall>x \<in> set xs. x \<le> xs ! m" "e \<noteq> m" "v \<le> xs ! m"
  shows "Max (set (xs[e := v])) = Max (set xs)"
proof -
  have "Max (set xs) = xs ! m" using assms by (intro Max_eqI) auto
  moreover have "Max (set (xs[e := v])) = xs ! m"
  proof (intro Max_eqI)
    fix y assume "y \<in> set (xs[e := v])"
    then show "y \<le> xs ! m" using assms set_update_subset_insert[of xs e v] by blast
  next
    have "xs[e := v] ! m \<in> set (xs[e := v])" using assms(1) by (intro nth_mem) simp
    then show "xs ! m \<in> set (xs[e := v])" using assms(3) by simp
  qed simp
  ultimately show ?thesis by simp
qed

lemma step_values_eq:
  fixes tokens :: "('f::linordered_field) list"
  assumes t: "torch_spec t" and len: "length tokens = length logical_count"
    and tok: "\<forall>x \<in> set tokens. 0 \<le> x" and cnt: "\<forall>c \<in> set logical_count. 0 < c"
  shows "step_values t offset logical_count tokens = map (\<lambda>e. Max (set (loads_with offset logical_count tokens e))) [0..<length tokens]"
proof (cases "tokens = []")
  case True
  then show ?thesis by (simp add: step_values_def all_diff_scores_def Let_def)
next
  case False
  let ?s = "all_diff_scores offset tokens logical_count"
  let ?m = "argmax t ?s"
  have ls: "length ?s = length tokens" "?s \<noteq> []" using len False by (simp, metis length_0_conv length_all_diff_scores min.idem)
  have m: "?m < length tokens" "\<forall>x \<in> set ?s. x \<le> ?s ! ?m" using torch_specD(2,3)[OF t] ls by (metis, blast)
  have other: "Max (set (loads_with offset logical_count tokens e)) = Max (set ?s)" if e: "e < length tokens" "e \<noteq> ?m" for e
  proof -
    have c: "0 < logical_count ! e" "0 \<le> tokens ! e" using e tok cnt len by auto
    then have "tokens ! e / (of_nat (logical_count ! e) + 1) \<le> (tokens ! e + of_nat (offset + e) * (1 / 10000)) / of_nat (logical_count ! e)"
      by (intro frac_le) auto
    also have "\<dots> = ?s ! e" using e len by (simp add: nth_all_diff_scores)
    also have "\<dots> \<le> ?s ! ?m" using m(2) e ls by simp
    finally show ?thesis unfolding loads_with_def using m ls e by (intro Max_update_below) auto
  qed
  show ?thesis
    using m(1) other len ls(1)
    by (intro nth_equalityI) (auto simp: step_values_def Let_def nth_list_update loads_with_def)
qed
text \<open>
  (C30) The vectorised choice of the expert that gets the next replica is the exhaustive one: computed
  from the maximum of each step alone, it minimises, over all experts of the chunk, the sum over the
  recorded steps of the highest load that remains once the expert has one more replica.
\<close>

theorem redundancy_choice_optimal:
  fixes steps :: "('f::linordered_field) list list"
  assumes t: "torch_spec t" and cnt: "logical_count \<noteq> []" "\<forall>c \<in> set logical_count. 0 < c"
    and rows: "\<forall>row \<in> set steps. length row = length logical_count \<and> (\<forall>x \<in> set row. 0 \<le> x)" and e: "e < length logical_count"
  shows "redundancy_index t offset steps logical_count < length logical_count \<and>
    (\<Sum>row \<leftarrow> steps. Max (set (loads_with offset logical_count row (redundancy_index t offset steps logical_count))))
      \<le> (\<Sum>row \<leftarrow> steps. Max (set (loads_with offset logical_count row e)))"
proof -
  let ?n = "length logical_count" and ?r = "redundancy_index t offset steps logical_count"
  let ?sums = "sum_steps ?n (map (step_values t offset logical_count) steps)"
  have r: "?r < ?n" using redundancy_index_less[OF t cnt(1)] .
  have "step_values t offset logical_count row ! k = Max (set (loads_with offset logical_count row k))"
    if "row \<in> set steps" "k < ?n" for row k
    using step_values_eq[OF t _ _ cnt(2), of row offset] rows that by simp
  then have sums: "?sums ! k = (\<Sum>row \<leftarrow> steps. Max (set (loads_with offset logical_count row k)))" if "k < ?n" for k
    using that unfolding sum_steps_def by (simp add: comp_def cong: map_cong)
  have "?sums ! ?r \<le> ?sums ! e"
    unfolding redundancy_index_def using e by (intro torch_specD(5)[OF t]) simp
  then show ?thesis unfolding sums[OF r] sums[OF e] using r by simp
qed

theorem redundancy_choice_optimal_witness:
  "redundancy_index stable_torch 0 [[6, 1 :: rat], [2, 3]] [1, 1] < 2 \<and>
   (\<Sum>row \<leftarrow> [[6, 1 :: rat], [2, 3]]. Max (set (loads_with 0 [1, 1] row (redundancy_index stable_torch 0 [[6, 1 :: rat], [2, 3]] [1, 1]))))
     \<le> (\<Sum>row \<leftarrow> [[6, 1 :: rat], [2, 3]]. Max (set (loads_with 0 [1, 1] row 0)))"
  using redundancy_choice_optimal[OF stable_torch_spec, of "[1, 1]" "[[6, 1 :: rat], [2, 3]]" 0 0]
  by simp

text \<open>
  (C29) The vectorised balancer is correct: with sizes that divide as the policy needs, no assertion
  fails, and in every layer each slot holds an expert, each expert has a replica, and the inverse table
  lists exactly the slots of each expert, padded with \<open>-1\<close>, also after the experts were renamed by
  node and the slots dealt out to the GPUs.
\<close>

theorem rebalance_vec_correct:
  assumes "torch_spec t" and "if hier then \<exists>G. groups = Some G \<and> sizes_ok n P G N U else sizes_ok n P 1 1 U"
  shows "\<exists>p2l l2p cnt. rebalance_experts_vec t layers n tokens P (P div U) groups N hier = Inr (p2l, l2p, cnt) \<and>
     length p2l = layers \<and> length l2p = layers \<and> length cnt = layers \<and>
     (\<forall>l < layers. balanced_layer n P (p2l ! l) (l2p ! l) (cnt ! l))"
  by (rule rebalance_vec_placed[OF assms])

theorem rebalance_vec_correct_witness:
  "\<exists>p2l l2p cnt. rebalance_experts_vec stable_torch 1 4 [[[9, 2, 4, 1 :: rat]], [[1, 5, 2, 3]]] 8 2 (Some 2) 2 True = Inr (p2l, l2p, cnt) \<and>
     length p2l = 1 \<and> balanced_layer 4 8 (p2l ! 0) (l2p ! 0) (cnt ! 0)"
proof -
  have "sizes_ok 4 8 2 2 4" by (simp add: sizes_ok_def)
  then show ?thesis
    using rebalance_vec_correct[OF stable_torch_spec, of True "Some 2" 4 8 2 4 1 "[[[9, 2, 4, 1 :: rat]], [[1, 5, 2, 3]]]"] by auto
qed

end
