(* ===== verification/Eplb_Location.thy ===== *)
theory Eplb_Location
  imports Expert_Location Eplb_Vec
begin

text \<open>
  The choice of the balancing algorithm (\<^verbatim>\<open>eplb_algorithms/__init__.py\<close>), the balancer for a
  partly failed process group (\<^verbatim>\<open>elasticity_aware.py\<close>) and the construction of the placement from
  recorded expert counts (\<^verbatim>\<open>ExpertLocationMetadata.init_by_eplb\<close>).
\<close>

section \<open>Choosing the algorithm\<close>

datatype EplbAlgorithm = deepseek | deepseek_hierarchical | deepseek_vec | deepseek_vec_hierarchical | elasticity_aware

definition algorithm_of_name :: "string \<Rightarrow> EplbAlgorithm result" where
  "algorithm_of_name s =
     (if s = ''deepseek'' then Inr deepseek
      else if s = ''deepseek_hierarchical'' then Inr deepseek_hierarchical
      else if s = ''deepseek_vec'' then Inr deepseek_vec
      else if s = ''deepseek_vec_hierarchical'' then Inr deepseek_vec_hierarchical
      else if s = ''elasticity_aware'' then Inr elasticity_aware
      else Inl KeyError)"

definition compute_algorithm :: "string \<Rightarrow> nat option \<Rightarrow> nat \<Rightarrow> EplbAlgorithm result" where
  "compute_algorithm raw_algorithm num_groups num_nodes =
     (if raw_algorithm \<noteq> ''auto'' then algorithm_of_name raw_algorithm
      else case num_groups of
        None \<Rightarrow> Inr deepseek
      | Some g \<Rightarrow>
          if num_nodes = 0 then Inl ZeroDivisionError
          else if g mod num_nodes = 0 then Inr deepseek_hierarchical else Inr deepseek)"

section \<open>Balancing with failed ranks\<close>

text \<open>
  One turn of the final loop: an inactive rank gets a slice of zeros at its position
  (\<^verbatim>\<open>list.insert\<close>), and the physical ids at or behind it move up by one slice.
\<close>

definition insert_rank ::
  "nat \<Rightarrow> nat \<times> bool \<Rightarrow> nat list list \<times> int list list \<Rightarrow> nat list list \<times> int list list" where
  "insert_rank num_local idx_active s =
     (case idx_active of (idx, active) \<Rightarrow>
      if active then s
      else (take idx (fst s) @ [replicate num_local 0] @ drop idx (fst s),
            map (map (\<lambda>v. if int (idx * num_local) \<le> v then v + int num_local else v)) (snd s)))"

definition expand_layer :: "nat \<Rightarrow> bool list \<Rightarrow> nat list \<Rightarrow> int list list \<Rightarrow> int list \<times> int list list" where
  "expand_layer num_local active_ranks p l2p =
     (case fold (insert_rank num_local) (enumerate 0 active_ranks) (chunks num_local p, l2p) of
        (slices, l2p') \<Rightarrow> (map int (concat slices), l2p'))"

definition rebalance_experts_elastic ::
  "('f::linordered_field) torch_ops \<Rightarrow> 'f list list \<Rightarrow> nat \<Rightarrow> nat option \<Rightarrow> nat \<Rightarrow> nat \<Rightarrow> bool \<Rightarrow> bool list \<Rightarrow> eplb_result result" where
  "rebalance_experts_elastic t weight num_replicas num_groups num_nodes num_gpus enable_hierarchical active_ranks =
     (let num_active = length (filter id active_ranks) in
      if num_gpus = 0 then Inl ZeroDivisionError else
      let num_local = num_replicas div num_gpus in
      bind_res
        (if num_active < num_gpus
         then rebalance_experts_hierarchical t weight (num_local * num_active) 1 1 num_active
         else if enable_hierarchical
         then (case num_groups of None \<Rightarrow> Inl TypeError
               | Some g \<Rightarrow> rebalance_experts_hierarchical t weight num_replicas g num_nodes num_gpus)
         else rebalance_experts_hierarchical t weight num_replicas 1 1 num_gpus) (\<lambda>layers.
      bind_res (log2phy_of (shape1 weight) layers) (\<lambda>log2phy.
        if num_active < num_gpus
        then (let expanded = map2 (\<lambda>ly rows. expand_layer num_local active_ranks (ly_phy2log ly) rows) layers log2phy
              in Inr (map fst expanded, map snd expanded, map ly_logcnt layers))
        else Inr (map (map int \<circ> ly_phy2log) layers, log2phy, map ly_logcnt layers))))"

section \<open>The dispatcher\<close>

text \<open>\<^verbatim>\<open>tokens_per_expert.sum(dim=0)\<close> of a tensor of shape (steps, layers, logical experts).\<close>

definition sum_dim0 :: "nat \<Rightarrow> nat \<Rightarrow> int list list list \<Rightarrow> int list list" where
  "sum_dim0 layers n t = fold (\<lambda>step acc. map2 (map2 (+)) acc step) t (replicate layers (replicate n 0))"

definition rebalance_by_algorithm ::
  "('f::linordered_field) torch_ops \<Rightarrow> bool list \<Rightarrow> nat \<Rightarrow> nat \<Rightarrow> int list list list \<Rightarrow> nat \<Rightarrow> nat
   \<Rightarrow> nat option \<Rightarrow> nat \<Rightarrow> EplbAlgorithm \<Rightarrow> eplb_result result" where
  "rebalance_by_algorithm t active_ranks layers n tokens_per_expert num_physical num_local num_groups num_nodes algorithm =
     (let weight = map (map of_int) (sum_dim0 layers n tokens_per_expert) :: 'f list list in
      if algorithm \<in> {deepseek, deepseek_hierarchical}
      then (if num_local = 0 then Inl ZeroDivisionError
            else rebalance_experts t weight num_physical num_groups num_nodes (num_physical div num_local)
                   (algorithm = deepseek_hierarchical))
      else if algorithm \<in> {deepseek_vec, deepseek_vec_hierarchical}
      then rebalance_experts_vec t layers n (map (map (map of_int)) tokens_per_expert) num_physical num_local num_groups num_nodes (algorithm = deepseek_vec_hierarchical)
      else (if num_local = 0 then Inl ZeroDivisionError
            else rebalance_experts_elastic t weight num_physical num_groups num_nodes (num_physical div num_local)
                   True active_ranks))"

section \<open>Placement from recorded counts\<close>

definition init_by_eplb ::
  "('f::linordered_field) torch_ops \<Rightarrow> bool list \<Rightarrow> 'r rng \<Rightarrow> 'r \<Rightarrow> int \<Rightarrow> 'g server_args
   \<Rightarrow> ModelConfigForExpertLocation option \<Rightarrow> int list list list \<Rightarrow> ExpertLocationMetadata option result" where
  "init_by_eplb t active_ranks g r0 dist_rank args model_config logical_count =
     bind_res (init_common args model_config) (\<lambda>common.
     case common of None \<Rightarrow> Inr None
     | Some c \<Rightarrow>
         bind_res (compute_algorithm (eplb_algorithm args) (mc_num_groups (ic_model c)) (nat (nnodes args))) (\<lambda>algorithm.
         bind_res (rebalance_by_algorithm t active_ranks (mc_num_layers (ic_model c)) (mc_num_logical_experts (ic_model c))
                     logical_count (nat (ic_num_physical_experts c)) (nat (ic_num_physical_experts c div ic_ep_size c))
                     (mc_num_groups (ic_model c)) (nat (nnodes args)) algorithm) (\<lambda>(p2l, l2p, _).
         bind_res (init_raw g r0 dist_rank args (ic_ep_size c) p2l l2p) (\<lambda>md. Inr (Some md)))))"

text \<open>
  \<open>load\<close> stands for reading the file or string named by \<^verbatim>\<open>init_expert_location\<close>; it yields the entries
  \<^verbatim>\<open>physical_to_logical_map\<close> and \<^verbatim>\<open>logical_count\<close> where present, the latter with its leading dimension.
\<close>

definition compute_initial_expert_location_metadata ::
  "(string \<Rightarrow> (int list list option \<times> int list list list option) result) \<Rightarrow> ('f::linordered_field) torch_ops
   \<Rightarrow> bool list \<Rightarrow> 'r rng \<Rightarrow> 'r \<Rightarrow> int \<Rightarrow> 'g server_args \<Rightarrow> ModelConfigForExpertLocation option \<Rightarrow> string \<Rightarrow> int option
   \<Rightarrow> ExpertLocationMetadata option result" where
  "compute_initial_expert_location_metadata load t active_ranks g r0 dist_rank args model_config data moe_ep_rank =
     (if data = ''trivial'' then init_trivial g r0 dist_rank args model_config moe_ep_rank
      else bind_res (load data) (\<lambda>(map_opt, count_opt).
        case map_opt of
          Some m \<Rightarrow> init_by_mapping g r0 dist_rank args model_config m moe_ep_rank
        | None \<Rightarrow>
           (case count_opt of
              Some c \<Rightarrow> init_by_eplb t active_ranks g r0 dist_rank args model_config c
            | None \<Rightarrow> Inl NotImplementedError)))"

section \<open>Failed ranks are never dispatched to\<close>

definition rows_sound :: "nat \<Rightarrow> nat set \<Rightarrow> nat list \<Rightarrow> int list list \<Rightarrow> bool" where
  "rows_sound m failed flat rows \<longleftrightarrow> (\<forall>e < length rows. \<forall>v \<in> set (rows ! e). v \<noteq> -1 \<longrightarrow>
     0 \<le> v \<and> nat v < length flat \<and> flat ! nat v = e \<and> nat v div m \<notin> failed)"

lemma concat_take_const:
  "\<forall>s \<in> set ss. length s = m \<Longrightarrow> concat (take i ss) = take (i * m) (concat ss) \<and> concat (drop i ss) = drop (i * m) (concat ss)"
proof (induction ss arbitrary: i)
  case (Cons s ss)
  then show ?case by (cases i) auto
qed simp

lemma insert_rank_sound:
  assumes slices: "\<forall>s \<in> set slices. length s = m" and idx: "idx \<le> length slices" and m: "0 < m"
    and rows: "rows_sound m failed (concat slices) rows" and failed: "failed \<subseteq> {..<idx}"
    and step: "insert_rank m (idx, False) (slices, rows) = (slices', rows')"
  shows "\<forall>s \<in> set slices'. length s = m" and "length slices' = Suc (length slices)"
    and "rows_sound m (insert idx failed) (concat slices') rows'" and "length rows' = length rows"
    and "\<And>e. e < length rows \<Longrightarrow> length (filter (\<lambda>v. v \<noteq> -1) (rows' ! e)) = length (filter (\<lambda>v. v \<noteq> -1) (rows ! e))"
proof -
  let ?flat = "concat slices" and ?up = "\<lambda>v. if int (idx * m) \<le> v then v + int m else v"
  have s': "slices' = take idx slices @ [replicate m 0] @ drop idx slices" and r': "rows' = map (map ?up) rows"
    using step by (auto simp: insert_rank_def)
  show "\<forall>s \<in> set slices'. length s = m" using slices unfolding s' by (auto dest: in_set_takeD in_set_dropD)
  show "length slices' = Suc (length slices)" using idx by (simp add: s')
  show "length rows' = length rows" by (simp add: r')
  have flat': "concat slices' = take (idx * m) ?flat @ replicate m 0 @ drop (idx * m) ?flat"
    using concat_take_const[OF slices, of idx] by (simp add: s')
  have len: "idx * m \<le> length ?flat"
    using length_concat_const[of slices id m] slices idx by simp
  have "0 \<le> int (idx * m)" by (rule of_nat_0_le_iff)
  then have up: "?up v \<noteq> -1 \<longleftrightarrow> v \<noteq> -1" for v
    by (cases "int (idx * m) \<le> v") (simp_all only: if_True if_False, linarith+)
  have moved: "0 \<le> ?up v \<and> nat (?up v) < length (concat slices') \<and> concat slices' ! nat (?up v) = e \<and>
      nat (?up v) div m \<notin> insert idx failed"
    if "v \<noteq> -1" "0 \<le> v" "nat v < length ?flat" "?flat ! nat v = e" "nat v div m \<notin> failed" for v e
  proof (cases "int (idx * m) \<le> v")
    case True
    then have v: "idx * m \<le> nat v" "nat (v + int m) = nat v + m"
      using that(2) by (simp_all add: le_nat_iff nat_add_distrib)
    then have "Suc idx * m \<le> nat v + m" by simp
    then have "Suc idx \<le> (nat v + m) div m" using m by (simp only: less_eq_div_iff_mult_less_eq)
    then have "(nat v + m) div m \<notin> insert idx failed" using failed by auto
    moreover have "concat slices' ! (nat v + m) = ?flat ! nat v"
      unfolding flat' using v(1) len that(3) by (auto simp: nth_append)
    ultimately show ?thesis using True v that len unfolding flat' by simp
  next
    case False
    then have v: "nat v < idx * m" using that(2) by linarith
    then have "nat v div m < idx" using m by (simp add: div_less_iff_less_mult)
    moreover have "concat slices' ! nat v = ?flat ! nat v" unfolding flat' using v len by (simp add: nth_append)
    ultimately show ?thesis using False that len unfolding flat' by simp
  qed
  show "rows_sound m (insert idx failed) (concat slices') rows'"
    unfolding rows_sound_def
  proof (intro allI ballI impI)
    fix e u assume e: "e < length rows'" and "u \<in> set (rows' ! e)" and u: "u \<noteq> -1"
    then obtain v where v: "v \<in> set (rows ! e)" "u = ?up v" by (auto simp: r')
    then have "v \<noteq> -1" using u up by metis
    then show "0 \<le> u \<and> nat u < length (concat slices') \<and> concat slices' ! nat u = e \<and> nat u div m \<notin> insert idx failed"
      unfolding v(2) using rows[unfolded rows_sound_def, rule_format, OF _ v(1)] e r'
      by (intro moved) simp_all
  qed
  show "length (filter (\<lambda>v. v \<noteq> -1) (rows' ! e)) = length (filter (\<lambda>v. v \<noteq> -1) (rows ! e))" if "e < length rows" for e
    unfolding r' nth_map[OF that] filter_map comp_def up length_map ..
qed

lemma insert_rank_active: "insert_rank m (k, True) s = s"
  by (simp add: insert_rank_def)

lemma insert_ranks_sound:
  assumes "\<forall>s \<in> set slices. length s = m" and "length slices = k + length (filter id active)" and m: "0 < m"
    and "rows_sound m failed (concat slices) rows" and "failed \<subseteq> {..<k}"
    and "fold (insert_rank m) (enumerate k active) (slices, rows) = (slices', rows')"
  shows "length (concat slices') = (k + length active) * m \<and> length rows' = length rows \<and>
    rows_sound m (failed \<union> {j. (j, False) \<in> set (enumerate k active)}) (concat slices') rows' \<and>
    (\<forall>e < length rows. length (filter (\<lambda>v. v \<noteq> -1) (rows' ! e)) = length (filter (\<lambda>v. v \<noteq> -1) (rows ! e)))"
  using assms
proof (induction active arbitrary: k slices rows failed)
  case Nil
  then show ?case using length_concat_const[of slices id m] by auto
next
  case (Cons a active)
  have split: "{j. (j, False) \<in> set (enumerate k (a # active))} =
      (if a then {} else {k}) \<union> {j. (j, False) \<in> set (enumerate (Suc k) active)}"
    by auto
  show ?case
  proof (cases a)
    case True
    then have f: "fold (insert_rank m) (enumerate (Suc k) active) (slices, rows) = (slices', rows')"
      using Cons.prems(6) by (simp add: insert_rank_active)
    have h: "length slices = Suc k + length (filter id active)" "failed \<subseteq> {..<Suc k}"
      using Cons.prems(2,5) True by (auto simp: id_def)
    from Cons.IH[OF Cons.prems(1) h(1) m Cons.prems(4) h(2) f] True show ?thesis unfolding split by simp
  next
    case False
    obtain s1 r1 where st: "insert_rank m (k, False) (slices, rows) = (s1, r1)" by fastforce
    note ins = insert_rank_sound[OF Cons.prems(1) _ m Cons.prems(4,5) st]
    have k: "k \<le> length slices" using Cons.prems(2) by simp
    have f: "fold (insert_rank m) (enumerate (Suc k) active) (s1, r1) = (slices', rows')"
      using Cons.prems(6) False st by simp
    have h: "length s1 = Suc k + length (filter id active)" "insert k failed \<subseteq> {..<Suc k}"
      using Cons.prems(2,5) False ins(2)[OF k] by (auto simp: id_def)
    from Cons.IH[OF ins(1)[OF k] h(1) m ins(3)[OF k] h(2) f] ins(4,5)[OF k] False show ?thesis
      unfolding split by simp
  qed
qed

lemma expand_layer_sound:
  assumes b: "balanced_layer n (num_active * m) (map int p) rows cnt" and m: "0 < m"
    and active: "num_active = length (filter id active)" and e: "expand_layer m active p rows = (p', rows')"
  shows "length p' = length active * m" and "length rows' = n"
    and "e < n \<Longrightarrow> (\<exists>v \<in> set (rows' ! e). v \<noteq> -1) \<and> (\<forall>v \<in> set (rows' ! e). v \<noteq> -1 \<longrightarrow>
      0 \<le> v \<and> v < int (length active * m) \<and> active ! (nat v div m) \<and> p' ! nat v = int e)"
proof -
  have bl: "length p = num_active * m" "length rows = n" using b by (auto simp: balanced_layer_def)
  have row: "\<exists>xs k. rows ! e = xs @ replicate k (-1) \<and> xs \<noteq> [] \<and> set xs = {int i | i. i < num_active * m \<and> p ! i = e}"
    if "e < n" for e
    using b that bl(1) unfolding balanced_layer_def by fastforce
  obtain slices where f: "fold (insert_rank m) (enumerate 0 active) (chunks m p, rows) = (slices, rows')" "p' = map int (concat slices)"
    using e by (auto simp: expand_layer_def split: prod.splits)
  have "rows_sound m {} (concat (chunks m p)) rows"
    using row bl by (fastforce simp: rows_sound_def concat_chunks[OF m])
  with insert_ranks_sound[OF _ _ m, of "chunks m p" 0 active "{}" rows slices rows'] f(1) chunks_shape(1,2)[OF m bl(1)]
  have r: "length (concat slices) = length active * m" "length rows' = n"
    "rows_sound m {j. j < length active \<and> \<not> active ! j} (concat slices) rows'"
    "\<forall>e < n. length (filter (\<lambda>v. v \<noteq> -1) (rows' ! e)) = length (filter (\<lambda>v. v \<noteq> -1) (rows ! e))"
    using active bl(2) by (auto simp: in_set_enumerate_eq)
  show "length p' = length active * m" "length rows' = n" using r f(2) by simp_all
  assume e: "e < n"
  obtain xs k where xs: "rows ! e = xs @ replicate k (-1)" "xs \<noteq> []" "set xs = {int i | i. i < num_active * m \<and> p ! i = e}"
    using row[OF e] by blast
  have "hd xs \<in> set xs" using xs(2) by simp
  then have "hd xs \<in> set (rows ! e)" "hd xs \<noteq> -1" using xs(1,3) by auto
  then have "filter (\<lambda>v. v \<noteq> -1) (rows' ! e) \<noteq> []"
    using r(4) e by (metis (mono_tags, lifting) filter_empty_conv length_0_conv)
  then have "\<exists>v \<in> set (rows' ! e). v \<noteq> -1" by (auto simp: filter_empty_conv)
  moreover have "0 \<le> v \<and> v < int (length active * m) \<and> active ! (nat v div m) \<and> p' ! nat v = int e"
    if "v \<in> set (rows' ! e)" "v \<noteq> -1" for v
  proof -
    have v: "0 \<le> v" "nat v < length active * m" "concat slices ! nat v = e" "\<not> (nat v div m < length active \<and> \<not> active ! (nat v div m))"
      using r(1,2,3) e that unfolding rows_sound_def by auto
    then have "nat v div m < length active" using m by (simp add: div_less_iff_less_mult)
    then show ?thesis using v r(1) f(2) by (simp add: nat_less_iff)
  qed
  ultimately show "(\<exists>v \<in> set (rows' ! e). v \<noteq> -1) \<and> (\<forall>v \<in> set (rows' ! e). v \<noteq> -1 \<longrightarrow>
      0 \<le> v \<and> v < int (length active * m) \<and> active ! (nat v div m) \<and> p' ! nat v = int e)" by blast
qed

text \<open>
  The rows of the expanded tables keep their shape, and list different slots that hold the expert.
\<close>

lemma insert_ranks_shift:
  "fold (insert_rank m) (enumerate k active) (slices, rows) = (slices', rows') \<Longrightarrow>
   (\<exists>f. inj f \<and> f (-1) = -1 \<and> rows' = map (map f) rows) \<and> set (concat slices') \<subseteq> insert 0 (set (concat slices))"
proof (induction active arbitrary: k slices rows)
  case Nil
  then show ?case by (auto intro!: exI[of _ id])
next
  case (Cons a active)
  let ?up = "\<lambda>v. if int (k * m) \<le> v then v + int m else v"
  show ?case
  proof (cases a)
    case True
    then show ?thesis using Cons.IH[of "Suc k" slices rows] Cons.prems by (simp add: insert_rank_active)
  next
    case False
    let ?s = "take k slices @ [replicate m 0] @ drop k slices"
    have "insert_rank m (k, False) (slices, rows) = (?s, map (map ?up) rows)" by (simp add: insert_rank_def)
    then obtain f where f: "inj f" "f (-1) = -1" "rows' = map (map f) (map (map ?up) rows)" "set (concat slices') \<subseteq> insert 0 (set (concat ?s))"
      using Cons.IH[of "Suc k" ?s "map (map ?up) rows"] Cons.prems False by auto
    have "inj ?up" by (auto simp: inj_def split: if_splits)
    then have "inj (f \<circ> ?up)" using f(1) by (rule inj_compose[rotated])
    moreover have "(f \<circ> ?up) (-1) = -1"
    proof -
      have "\<not> int (k * m) \<le> -1" using of_nat_0_le_iff[of "k * m", where 'a = int] by linarith
      then show ?thesis using f(2) by (simp only: comp_apply if_False)
    qed
    moreover have "rows' = map (map (f \<circ> ?up)) rows" using f(3) by simp
    moreover have "set (concat ?s) \<subseteq> insert 0 (set (concat slices))" by (auto dest: in_set_takeD in_set_dropD)
    ultimately show ?thesis using f(4) by blast
  qed
qed

definition row_ok :: "int list \<Rightarrow> nat \<Rightarrow> int list \<Rightarrow> bool" where
  "row_ok layer e row \<longleftrightarrow> (\<exists>xs k. row = xs @ replicate k (-1) \<and> xs \<noteq> [] \<and> distinct xs \<and> set xs \<subseteq> set (replicas layer (int e)))"

lemma expand_layer_rows:
  assumes b: "balanced_layer n (num_active * m) (map int p) rows cnt" and m: "0 < m"
    and active: "num_active = length (filter id active)" and ex: "expand_layer m active p rows = (p', rows')" and n: "0 < n"
  shows "e < n \<Longrightarrow> row_ok p' e (rows' ! e)" "valid_layer n p'"
proof -
  have bl: "length p = num_active * m" "length rows = n" "int ` set p = {0..<int n}" using b by (auto simp: balanced_layer_def)
  obtain slices where f: "fold (insert_rank m) (enumerate 0 active) (chunks m p, rows) = (slices, rows')" "p' = map int (concat slices)"
    using ex by (auto simp: expand_layer_def split: prod.splits)
  obtain sh where sh: "inj sh" "sh (-1) = -1" "rows' = map (map sh) rows" "set (concat slices) \<subseteq> insert 0 (set p)"
    using insert_ranks_shift[OF f(1)] by (auto simp: concat_chunks[OF m])
  note es = expand_layer_sound[OF b m active ex]
  have row: "row_ok p' e (rows' ! e)" if e: "e < n" for e
  proof -
    obtain xs k where xs: "rows ! e = xs @ replicate k (-1)" "length xs = cnt ! e" "distinct xs" "set xs = {int i | i. i < num_active * m \<and> map int p ! i = int e}"
      using b e unfolding balanced_layer_def by blast
    have r: "rows' ! e = map sh xs @ replicate k (-1)" using e bl(2) by (simp add: sh(2,3) xs(1))
    have "1 \<le> cnt ! e" using b e by (simp add: balanced_layer_def)
    then have "xs \<noteq> []" using xs(2) by auto
    moreover have "sh x \<in> set (replicas p' (int e))" if "x \<in> set xs" for x
    proof -
      have "x \<noteq> -1" using that xs(4) by auto
      then have "sh x \<noteq> -1" using sh(1,2) by (metis injD)
      moreover have "sh x \<in> set (rows' ! e)" using that by (simp add: r)
      ultimately have "0 \<le> sh x" "sh x < int (length p')" "p' ! nat (sh x) = int e" using es(3)[OF e] es(1) by simp_all
      then show ?thesis by (auto simp: set_replicas intro!: exI[of _ "nat (sh x)"])
    qed
    moreover have "distinct (map sh xs)" using xs(3) sh(1) by (auto simp: distinct_map inj_on_def dest: injD)
    ultimately show ?thesis unfolding row_ok_def r by (intro exI[of _ "map sh xs"] exI[of _ k]) auto
  qed
  then show "e < n \<Longrightarrow> row_ok p' e (rows' ! e)" .
  have "int e \<in> set p'" if "e < n" for e
    using row[OF that] by (fastforce simp: row_ok_def set_replicas neq_Nil_conv in_set_conv_nth)
  moreover have "x < n" if "x \<in> set (concat slices)" for x 
  proof (cases "x \<in> set p")
    case True
    then have "int x \<in> {0..<int n}" unfolding bl(3)[symmetric] by (rule imageI)
    then show ?thesis by simp
  qed (use that sh(4) n in auto)
  ultimately show "valid_layer n p'" by (auto simp: valid_layer_def list_all_iff f(2))
qed

text \<open>The tables of the elastic balancer are those of the hierarchical one on the active ranks, with the failed ranks put in.\<close>

lemma elastic_layers:
  assumes t: "torch_spec t" and w: "rect layers n weight" "0 < layers"
    and gpus: "length active = num_gpus" "P = num_gpus * m" "0 < m"
    and failed: "num_active = length (filter id active)" "num_active < num_gpus" "0 < n" "n \<le> num_active * m"
  shows "\<exists>p2l l2p cnt. rebalance_experts_elastic t weight P groups N num_gpus hier active = Inr (p2l, l2p, cnt) \<and>
    length p2l = layers \<and> length l2p = layers \<and>
    (\<forall>l < layers. \<exists>p rows c. balanced_layer n (num_active * m) (map int p) rows c \<and> expand_layer m active p rows = (p2l ! l, l2p ! l))"
proof -
  have "0 < num_active" using failed by (auto intro!: gr0I)
  then have ok: "sizes_ok n (m * num_active) 1 1 num_active" using failed gpus by (simp add: sizes_ok_def mult.commute)
  obtain lys where lys: "rebalance_experts_hierarchical t weight (m * num_active) 1 1 num_active = Inr lys"
    "length lys = layers" "\<And>l. l < layers \<Longrightarrow> layer_placed n (m * num_active) (lys ! l)"
    using rebalance_hierarchical_correct[OF t w ok] by (auto simp: list_all_length)
  obtain maxc where maxc: "log2phy_of n lys = Inr (map (log2phy_row n maxc) lys)"
    "\<And>l e. l < layers \<Longrightarrow> e < n \<Longrightarrow> ly_logcnt (lys ! l) ! e \<le> maxc"
    using log2phy_of_total[OF lys(2,3) w(2) \<open>0 < n\<close>] by blast
  have b: "balanced_layer n (num_active * m) (map int (ly_phy2log (lys ! l))) (log2phy_row n maxc (lys ! l)) (ly_logcnt (lys ! l))"
    if "l < layers" for l
    using balanced_layerI[OF lys(3)[OF that] _ \<open>0 < n\<close>] maxc(2)[OF that] by (simp add: mult.commute)
  let ?ex = "map2 (\<lambda>ly rows. expand_layer m active (ly_phy2log ly) rows) lys (map (log2phy_row n maxc) lys)"
  have "num_gpus * m div num_gpus = m" using failed(2) by simp
  then have run: "rebalance_experts_elastic t weight P groups N num_gpus hier active =
      Inr (map fst ?ex, map snd ?ex, map ly_logcnt lys)"
    using failed(1,2) lys(1) maxc(1) gpus(2)
    by (simp add: rebalance_experts_elastic_def Let_def rect_shape1[OF w])
  have ex: "expand_layer m active (ly_phy2log (lys ! l)) (log2phy_row n maxc (lys ! l)) = (map fst ?ex ! l, map snd ?ex ! l)"
    if "l < layers" for l using that lys(2) by simp
  show ?thesis
    unfolding run using b ex lys(2)
    by (intro exI[of _ "map fst ?ex"] exI[of _ "map snd ?ex"] exI[of _ "map ly_logcnt lys"]) (simp del: nth_map, blast)
qed

text \<open>
  (C36) Elastic balancing: when some ranks have failed, and the others have at least as many slots as there are experts, the placement still covers all slots of the
  process group, every logical expert keeps at least one replica, and no row of the inverse table
  points to a slot of a failed rank: each listed slot lies on an active rank and holds the expert.
\<close>

theorem elastic_avoids_failed_ranks:
  assumes t: "torch_spec t" and w: "rect layers n weight" "0 < layers"
    and gpus: "length active = num_gpus" "P = num_gpus * m" "0 < m"
    and failed: "num_active = length (filter id active)" "num_active < num_gpus" "0 < n" "n \<le> num_active * m"
  shows "\<exists>p2l l2p cnt. rebalance_experts_elastic t weight P groups N num_gpus hier active = Inr (p2l, l2p, cnt) \<and>
    length p2l = layers \<and> length l2p = layers \<and>
    (\<forall>l < layers. length (p2l ! l) = P \<and> length (l2p ! l) = n \<and>
      (\<forall>e < n. (\<exists>v \<in> set (l2p ! l ! e). v \<noteq> -1) \<and>
        (\<forall>v \<in> set (l2p ! l ! e). v \<noteq> -1 \<longrightarrow> 0 \<le> v \<and> v < int P \<and> active ! (nat v div m) \<and> p2l ! l ! nat v = int e)))"
proof -
  obtain p2l l2p cnt where r: "rebalance_experts_elastic t weight P groups N num_gpus hier active = Inr (p2l, l2p, cnt)"
    "length p2l = layers" "length l2p = layers"
    "\<forall>l < layers. \<exists>p rows c. balanced_layer n (num_active * m) (map int p) rows c \<and> expand_layer m active p rows = (p2l ! l, l2p ! l)"
    using elastic_layers[OF assms] by blast
  have "length (p2l ! l) = P \<and> length (l2p ! l) = n \<and>
      (\<forall>e < n. (\<exists>v \<in> set (l2p ! l ! e). v \<noteq> -1) \<and>
        (\<forall>v \<in> set (l2p ! l ! e). v \<noteq> -1 \<longrightarrow> 0 \<le> v \<and> v < int P \<and> active ! (nat v div m) \<and> p2l ! l ! nat v = int e))" if "l < layers" for l
    using r(4)[rule_format, OF that] expand_layer_sound[OF _ gpus(3) failed(1), of n] gpus(1,2) by metis
  then show ?thesis using r(1-3) by blast
qed

theorem elastic_avoids_failed_ranks_witness:
  "\<exists>p2l l2p cnt. rebalance_experts_elastic stable_torch [[5, 1, 2 :: rat]] 6 None 1 3 True [True, False, True] =
      Inr (p2l, l2p, cnt) \<and> length (p2l ! 0) = 6 \<and>
    (\<forall>v \<in> set (l2p ! 0 ! 0). v \<noteq> -1 \<longrightarrow> [True, False, True] ! (nat v div 2) \<and> p2l ! 0 ! nat v = 0)"
proof -
  have "rect 1 3 [[5, 1, 2 :: rat]]" by (simp add: rect_def)
  then show ?thesis
    using elastic_avoids_failed_ranks[OF stable_torch_spec, of 1 3 "[[5, 1, 2 :: rat]]" "[True, False, True]" 3 6 2 2 None 1 True]
    by fastforce
qed

section \<open>A balanced placement is well formed\<close>

lemma balanced_valid_layer: "balanced_layer n P p2l l2p cnt \<Longrightarrow> valid_layer n p2l"
  by (auto simp: balanced_layer_def valid_layer_def list_all_iff)

lemma balanced_holders:
  assumes "length p2l = P"
  shows "{int i | i. i < P \<and> p2l ! i = int e} = set (replicas p2l (int e))"
  using assms by (auto simp: set_replicas)

lemma balanced_row:
  assumes b: "balanced_layer n P p2l l2p cnt" and e: "e < n"
  shows "row_ok p2l e (l2p ! e)"
proof -
  have len: "length p2l = P" using b by (simp add: balanced_layer_def)
  obtain xs k where xs: "l2p ! e = xs @ replicate k (-1)" "length xs = cnt ! e" "distinct xs"
    "set xs = set (replicas p2l (int e))"
    using b e unfolding balanced_layer_def balanced_holders[OF len] by blast
  moreover have "1 \<le> cnt ! e" using b e by (simp add: balanced_layer_def)
  ultimately show ?thesis unfolding row_ok_def by (intro exI[of _ xs] exI[of _ k]) auto
qed

lemma row_ok_real:
  assumes "row_ok layer e row"
  shows "filter (\<lambda>p. p \<noteq> -1) row \<noteq> [] \<and> set (filter (\<lambda>p. p \<noteq> -1) row) \<subseteq> set (replicas layer (int e)) \<and>
    length (filter (\<lambda>p. p \<noteq> -1) row) \<le> length (replicas layer (int e))" "\<exists>k. row = filter (\<lambda>p. p \<noteq> -1) row @ replicate k (-1)"
proof -
  obtain xs k where xs: "row = xs @ replicate k (-1)" "xs \<noteq> []" "distinct xs" "set xs \<subseteq> set (replicas layer (int e))"
    using assms by (auto simp: row_ok_def)
  have f: "filter (\<lambda>p. p \<noteq> -1) row = xs" unfolding xs(1) using replica_row_real[of xs layer "int e" k] xs(4) by simp
  have "length xs \<le> length (replicas layer (int e))"
    using xs(3,4) distinct_replicas by (metis card_mono distinct_card List.finite_set)
  then show "filter (\<lambda>p. p \<noteq> -1) row \<noteq> [] \<and> set (filter (\<lambda>p. p \<noteq> -1) row) \<subseteq> set (replicas layer (int e)) \<and>
    length (filter (\<lambda>p. p \<noteq> -1) row) \<le> length (replicas layer (int e))" "\<exists>k. row = filter (\<lambda>p. p \<noteq> -1) row @ replicate k (-1)"
    unfolding f using xs by auto
qed

text \<open>The tables of a placement: complete layers, and rows that list the replicas.\<close>

definition tables_ok :: "nat \<Rightarrow> nat \<Rightarrow> nat \<Rightarrow> int list list \<Rightarrow> int list list list \<Rightarrow> bool" where
  "tables_ok layers n P p2l l2p \<longleftrightarrow> length p2l = layers \<and> length l2p = layers \<and>
     (\<forall>l < layers. length (p2l ! l) = P \<and> valid_layer n (p2l ! l) \<and> length (l2p ! l) = n \<and> (\<forall>e < n. row_ok (p2l ! l) e (l2p ! l ! e)))"

lemma balanced_tables:
  assumes "length p2l = layers" "length l2p = layers" and "\<forall>l < layers. balanced_layer n P (p2l ! l) (l2p ! l) (cnt ! l)"
  shows "tables_ok layers n P p2l l2p"
  unfolding tables_ok_def using assms balanced_valid_layer balanced_row
  by (intro conjI allI impI) (blast | simp add: balanced_layer_def)+

lemma tables_padded:
  assumes "tables_ok layers n P p2l l2p" shows "padded_table n p2l l2p"
proof -
  have t: "length p2l = layers" "length l2p = layers" "\<And>l. l < layers \<Longrightarrow> length (l2p ! l) = n"
    "\<And>l e. l < layers \<Longrightarrow> e < n \<Longrightarrow> row_ok (p2l ! l) e (l2p ! l ! e)"
    using assms by (auto simp: tables_ok_def)
  have "replica_table n p2l (map (map (filter (\<lambda>p. p \<noteq> -1))) l2p)"
    unfolding replica_table_def list_all2_map2 list_all2_conv_all_nth
    using t row_ok_real(1)[OF t(4)] by (intro conjI allI impI) (auto simp only: length_map nth_map)
  moreover have "\<exists>k. row = filter (\<lambda>p. p \<noteq> -1) row @ replicate k (-1)" if "rows \<in> set l2p" "row \<in> set rows" for rows row
  proof -
    from that t(2,3) obtain l e where "l < layers" "e < n" "row = l2p ! l ! e" by (metis in_set_conv_nth)
    then show ?thesis using row_ok_real(2)[OF t(4)] by blast
  qed
  ultimately show ?thesis by (auto simp: padded_table_def)
qed

lemma elastic_tables:
  assumes "torch_spec t" and "rect layers n weight" "0 < layers" and "length active = num_gpus" "P = num_gpus * m" "0 < m"
    and "num_active = length (filter id active)" "num_active < num_gpus" "0 < n" "n \<le> num_active * m"
  shows "\<exists>p2l l2p cnt. rebalance_experts_elastic t weight P groups N num_gpus hier active = Inr (p2l, l2p, cnt) \<and> tables_ok layers n P p2l l2p"
proof -
  obtain p2l l2p cnt where r: "rebalance_experts_elastic t weight P groups N num_gpus hier active = Inr (p2l, l2p, cnt)"
    "length p2l = layers" "length l2p = layers"
    "\<forall>l < layers. \<exists>p rows c. balanced_layer n (num_active * m) (map int p) rows c \<and> expand_layer m active p rows = (p2l ! l, l2p ! l)"
    using elastic_layers[OF assms] by blast
  have "length (p2l ! l) = P \<and> valid_layer n (p2l ! l) \<and> length (l2p ! l) = n \<and> (\<forall>e < n. row_ok (p2l ! l) e (l2p ! l ! e))" if l: "l < layers" for l
  proof -
    obtain p rows c where e: "balanced_layer n (num_active * m) (map int p) rows c" "expand_layer m active p rows = (p2l ! l, l2p ! l)"
      using r(4) l by blast
    show ?thesis
      using expand_layer_sound(1,2)[OF e(1) assms(6,7) e(2)] expand_layer_rows[OF e(1) assms(6,7) e(2) assms(9)] assms(4,5) by simp
  qed
  then show ?thesis using r(1-3) by (auto simp: tables_ok_def)
qed

lemma rect_sum_dim0:
  assumes "\<forall>step \<in> set t. rect layers n step"
  shows "rect layers n (sum_dim0 layers n t)"
proof -
  have "rect layers n (fold (\<lambda>step acc. map2 (map2 (+)) acc step) t acc)"
    if "\<forall>step \<in> set t. rect layers n step" "rect layers n acc" for acc :: "int list list"
    using that
  proof (induction t arbitrary: acc)
    case (Cons step t)
    have "rect layers n (map2 (map2 (+)) acc step)"
      using Cons.prems by (auto simp: rect_def list_all_length)
    with Cons show ?case by simp
  qed simp
  from this[OF assms, of "replicate layers (replicate n 0)"] show ?thesis
    by (simp add: sum_dim0_def) (simp add: rect_def list_all_iff)
qed

section \<open>Balancing as a provider of placements\<close>

record ('r, 'f) eplb_request = "('r, 'f) location_request" +
  eq_torch :: "'f torch_ops"
  eq_active :: "bool list"
  eq_counts :: "int list list list"

definition build_by_eplb :: "('r, 'f::linordered_field) eplb_request \<Rightarrow> ExpertLocationMetadata option result" where
  "build_by_eplb q = init_by_eplb (eq_torch q) (eq_active q) (lr_rng q) (lr_state q) (lr_dist_rank q)
     (lr_args q) (Some (lr_model q)) (eq_counts q)"

definition request_physical :: "('r, 'f, 'x) location_request_scheme \<Rightarrow> nat" where
  "request_physical q = nat (int (mc_num_logical_experts (lr_model q)) + ep_num_redundant_experts (lr_args q))"

text \<open>
  The recorded counts have the model's shape, and the sizes fit the policy that is chosen: the global policies take all sizes; the hierarchical ones
  need groups, which the nodes divide; the elastic one is hierarchical while no rank has failed, and needs a slot for every expert on
  the active ranks when some have.
\<close>

definition eplb_ok :: "('r, 'f::linordered_field) eplb_request \<Rightarrow> bool" where
  "eplb_ok q \<longleftrightarrow> args_ok (location_request.truncate q) \<and> torch_spec (eq_torch q) \<and> 0 < mc_num_layers (lr_model q) \<and>
     0 \<le> ep_num_redundant_experts (lr_args q) \<and>
     (\<forall>step \<in> set (eq_counts q). rect (mc_num_layers (lr_model q)) (mc_num_logical_experts (lr_model q)) step) \<and>
     (case compute_algorithm (eplb_algorithm (lr_args q)) (mc_num_groups (lr_model q)) (nat (nnodes (lr_args q))) of
        Inr alg \<Rightarrow> alg \<in> {deepseek, deepseek_vec} \<or>
          alg \<in> {deepseek_hierarchical, deepseek_vec_hierarchical} \<and>
          (\<exists>G. mc_num_groups (lr_model q) = Some G \<and>
             sizes_ok (mc_num_logical_experts (lr_model q)) (request_physical q) G (nat (nnodes (lr_args q)))
               (nat (sa_ep_size (lr_args q)))) \<or>
          alg = elasticity_aware \<and>
          (if length (filter id (eq_active q)) < nat (sa_ep_size (lr_args q))
           then length (eq_active q) = nat (sa_ep_size (lr_args q)) \<and>
             mc_num_logical_experts (lr_model q) \<le> length (filter id (eq_active q)) * (request_physical q div nat (sa_ep_size (lr_args q)))
           else \<exists>G. mc_num_groups (lr_model q) = Some G \<and>
             sizes_ok (mc_num_logical_experts (lr_model q)) (request_physical q) G (nat (nnodes (lr_args q)))
               (nat (sa_ep_size (lr_args q))))
      | Inl _ \<Rightarrow> False)"

lemma args_ok_truncate:
  assumes "args_ok (location_request.truncate q)"
  shows "rng_spec (lr_rng q)" "0 < mc_num_logical_experts (lr_model q)" "0 < nnodes (lr_args q)"
    "nnodes (lr_args q) \<le> sa_ep_size (lr_args q)"
    "(int (mc_num_logical_experts (lr_model q)) + ep_num_redundant_experts (lr_args q)) mod sa_ep_size (lr_args q) = 0"
    "\<exists>c. init_common (lr_args q) (Some (lr_model q)) = Inr (Some c) \<and> ic_model c = lr_model q \<and>
     ic_ep_size c = sa_ep_size (lr_args q) \<and>
     ic_num_physical_experts c = int (mc_num_logical_experts (lr_model q)) + ep_num_redundant_experts (lr_args q)"
  using assms init_common_ok[OF assms] by (auto simp: args_ok_def location_request.truncate_def)

lemma rect_map_of_int: "rect layers n (map (map of_int) t) = rect layers n t"
  by (simp add: rect_def list_all_iff)

lemma elastic_all_active:
  "num_gpus \<noteq> 0 \<Longrightarrow> num_gpus \<le> length (filter id active) \<Longrightarrow>
   rebalance_experts_elastic t w P groups N num_gpus hier active = rebalance_experts t w P groups N num_gpus hier"
  by (simp add: rebalance_experts_elastic_def rebalance_experts_def Let_def)

lemma eplb_rebalanced:
  assumes ok: "eplb_ok q"
  defines "L \<equiv> mc_num_layers (lr_model q)" and "n \<equiv> mc_num_logical_experts (lr_model q)"
    and "P \<equiv> request_physical q" and "ep \<equiv> nat (sa_ep_size (lr_args q))"
  shows "\<exists>alg p2l l2p cnt. compute_algorithm (eplb_algorithm (lr_args q)) (mc_num_groups (lr_model q)) (nat (nnodes (lr_args q))) = Inr alg \<and>
     rebalance_by_algorithm (eq_torch q) (eq_active q) L n (eq_counts q) P (P div ep) (mc_num_groups (lr_model q))
       (nat (nnodes (lr_args q))) alg = Inr (p2l, l2p, cnt) \<and>
     tables_ok L n P p2l l2p"
proof -
  let ?fits = "\<exists>G. mc_num_groups (lr_model q) = Some G \<and> sizes_ok n P G (nat (nnodes (lr_args q))) ep"
  let ?na = "length (filter id (eq_active q))"
  let ?w = "map (map of_int) (sum_dim0 L n (eq_counts q)) :: 'b list list"
  note a = args_ok_truncate[of q]
  have o: "args_ok (location_request.truncate q)" "torch_spec (eq_torch q)" "0 < L" "rect L n ?w" "0 \<le> ep_num_redundant_experts (lr_args q)"
    using ok rect_sum_dim0[of "eq_counts q" L n] by (auto simp: eplb_ok_def L_def n_def rect_map_of_int)
  have nP: "n \<le> P" "0 < n" "0 < ep" "int P = int n + ep_num_redundant_experts (lr_args q)" "int ep = sa_ep_size (lr_args q)"
    using a(2-4)[OF o(1)] o(5) by (auto simp: n_def P_def ep_def request_physical_def)
  have "int P mod int ep = 0" using a(5)[OF o(1)] nP(4,5) by (simp add: n_def)
  then have dvd: "P mod ep = 0" by (metis of_nat_0_eq_iff of_nat_mod)
  then have "ep \<le> P" using nP(1,2) by (metis dvd_imp_le dvd_eq_mod_eq_0 less_le_trans)
  then have local: "0 < P div ep" "P div (P div ep) = ep" using dvd nP(3) by (auto simp: div_greater_zero_iff elim!: dvdE simp flip: dvd_eq_mod_eq_0)
  obtain alg where alg: "compute_algorithm (eplb_algorithm (lr_args q)) (mc_num_groups (lr_model q)) (nat (nnodes (lr_args q))) = Inr alg"
    and case1: "alg \<in> {deepseek, deepseek_vec} \<or> alg \<in> {deepseek_hierarchical, deepseek_vec_hierarchical} \<and> ?fits \<or>
      alg = elasticity_aware \<and> (if ?na < ep then length (eq_active q) = ep \<and> n \<le> ?na * (P div ep) else ?fits)"
    using ok unfolding eplb_ok_def by (auto simp: n_def P_def ep_def split: sum.splits if_splits)
  have "sizes_ok n P 1 1 ep" using nP dvd by (simp add: sizes_ok_def)
  then have sizes: "if hier then ?fits else sizes_ok n P 1 1 ep" if "hier \<longrightarrow> alg \<in> {deepseek_hierarchical, deepseek_vec_hierarchical}" for hier
    using case1 that by auto
  consider "alg \<in> {deepseek, deepseek_hierarchical}" | "alg \<in> {deepseek_vec, deepseek_vec_hierarchical}"
    | "alg = elasticity_aware" "?na < ep" "length (eq_active q) = ep" "n \<le> ?na * (P div ep)" | "alg = elasticity_aware" "ep \<le> ?na" ?fits
    using case1 by (auto split: if_splits)
  then show ?thesis
  proof cases
    case 1
    then have "if alg = deepseek_hierarchical then ?fits else sizes_ok n P 1 1 ep" by (intro sizes) auto
    from rebalance_experts_placed[OF o(2,4,3) this] obtain p2l l2p cnt where
      "rebalance_experts (eq_torch q) ?w P (mc_num_groups (lr_model q)) (nat (nnodes (lr_args q))) ep (alg = deepseek_hierarchical) = Inr (p2l, l2p, cnt)"
      "tables_ok L n P p2l l2p" using balanced_tables by (metis (no_types))
    then show ?thesis using alg local 1 by (auto simp: rebalance_by_algorithm_def Let_def)
  next
    case 2
    let ?counts = "map (map (map of_int)) (eq_counts q) :: 'b list list list"
    have "if alg = deepseek_vec_hierarchical then ?fits else sizes_ok n P 1 1 ep" using 2 by (intro sizes) auto
    from rebalance_vec_placed[OF o(2) this, of L ?counts] 2 obtain p2l l2p cnt where
      "rebalance_experts_vec (eq_torch q) L n ?counts P (P div ep) (mc_num_groups (lr_model q)) (nat (nnodes (lr_args q))) (alg = deepseek_vec_hierarchical) =
        Inr (p2l, l2p, cnt)" "tables_ok L n P p2l l2p" using balanced_tables by (metis (no_types))
    then show ?thesis using alg 2 by (auto simp: rebalance_by_algorithm_def Let_def)
  next
    case 3
    have "P = ep * (P div ep)" using dvd by (simp add: mult.commute dvd_eq_mod_eq_0)
    from elastic_tables[OF o(2,4,3) 3(3) this local(1) refl 3(2) nP(2) 3(4)] show ?thesis
      using alg local 3(1) by (auto simp: rebalance_by_algorithm_def Let_def)
  next
    case 4
    from rebalance_experts_placed[OF o(2,4,3), of True] 4(3) obtain p2l l2p cnt where
      "rebalance_experts (eq_torch q) ?w P (mc_num_groups (lr_model q)) (nat (nnodes (lr_args q))) ep True = Inr (p2l, l2p, cnt)" "tables_ok L n P p2l l2p"
      using balanced_tables by (metis (no_types))
    then show ?thesis
      using alg local 4(1,2) nP(3) by (simp add: rebalance_by_algorithm_def Let_def elastic_all_active)
  qed
qed

lemma build_by_eplb_Inr:
  assumes ok: "eplb_ok q"
  shows "\<exists>md. build_by_eplb q = Inr (Some md) \<and> wf_metadata (mc_num_logical_experts (lr_model q)) md \<and>
    num_layers md = mc_num_layers (lr_model q) \<and>
    (logical_to_rank_dispatch_physical_map md \<noteq> None \<longleftrightarrow> ep_dispatch_algorithm (lr_args q) = Some ''static'') \<and>
    rect (num_layers md) (request_physical q) (physical_to_logical_map md) \<and>
    list_all (valid_layer (mc_num_logical_experts (lr_model q))) (physical_to_logical_map md)"
proof -
  let ?L = "mc_num_layers (lr_model q)" and ?n = "mc_num_logical_experts (lr_model q)" and ?P = "request_physical q"
  let ?ep = "sa_ep_size (lr_args q)"
  have t: "args_ok (location_request.truncate q)" "0 < ?L" "0 \<le> ep_num_redundant_experts (lr_args q)"
    using ok by (auto simp: eplb_ok_def)
  note a = args_ok_truncate[OF t(1)]
  obtain alg p2l l2p cnt where r: "compute_algorithm (eplb_algorithm (lr_args q)) (mc_num_groups (lr_model q)) (nat (nnodes (lr_args q))) = Inr alg"
    "rebalance_by_algorithm (eq_torch q) (eq_active q) ?L ?n (eq_counts q) ?P (?P div nat ?ep)
       (mc_num_groups (lr_model q)) (nat (nnodes (lr_args q))) alg = Inr (p2l, l2p, cnt)"
    "tables_ok ?L ?n ?P p2l l2p"
    using eplb_rebalanced[OF ok] by blast
  have table: "padded_table ?n p2l l2p" using tables_padded[OF r(3)] .
  have rect: "rect ?L ?P p2l" using r(3) by (auto simp: rect_def list_all_length tables_ok_def)
  have "?ep \<le> int ?n + ep_num_redundant_experts (lr_args q)"
    using a(2,5) t(3) by (intro zdvd_imp_le) (auto simp: mod_eq_0_iff_dvd)
  then have par: "parallel_ok (lr_args q) ?ep ?P" using a(2-4) by (auto simp: parallel_ok_def request_physical_def)
  obtain md where md: "init_raw (lr_rng q) (lr_state q) (lr_dist_rank q) (lr_args q) ?ep p2l l2p = Inr md"
    "wf_metadata ?n md" "physical_to_logical_map md = p2l"
    "logical_to_rank_dispatch_physical_map md \<noteq> None \<longleftrightarrow> ep_dispatch_algorithm (lr_args q) = Some ''static''"
    using init_raw_wf[OF table rect t(2) a(2) conjI[OF par a(1)]] by blast
  obtain c where c: "init_common (lr_args q) (Some (lr_model q)) = Inr (Some c)" "ic_model c = lr_model q"
     "ic_ep_size c = ?ep" "ic_num_physical_experts c = int ?n + ep_num_redundant_experts (lr_args q)"
    using a(6) by blast
  have "nat (ic_num_physical_experts c) = ?P" "nat (ic_num_physical_experts c div ic_ep_size c) = ?P div nat ?ep"
    using c(3,4) t(3) a(3,4) by (auto simp: request_physical_def nat_div_distrib)
  then have "build_by_eplb q = Inr (Some md)"
    using c r(1,2) md(1) by (simp add: build_by_eplb_def init_by_eplb_def)
  moreover have "list_all (valid_layer ?n) p2l"
    using r(3) by (auto simp: list_all_length tables_ok_def)
  ultimately show ?thesis using md r(3) rect by (auto simp: num_layers_def tables_ok_def)
qed

lemma build_by_eplb_wf:
  assumes "eplb_ok q"
  shows "\<exists>md. build_by_eplb q = Inr (Some md) \<and> wf_metadata (mc_num_logical_experts (lr_model q)) md \<and>
    num_layers md = mc_num_layers (lr_model q) \<and>
    (logical_to_rank_dispatch_physical_map md \<noteq> None \<longleftrightarrow> ep_dispatch_algorithm (lr_args q) = Some ''static'')"
  using build_by_eplb_Inr[OF assms] by blast

interpretation by_eplb: location_provider
  build_by_eplb eplb_ok "\<lambda>q. mc_num_logical_experts (lr_model q)" "\<lambda>q. mc_num_layers (lr_model q)"
  "\<lambda>q. ep_dispatch_algorithm (lr_args q)"
  by unfold_locales (rule build_by_eplb_wf)

text \<open>
  (C31) After rebalancing from recorded counts the dispatch round trip still holds, for each of the five balancing algorithms: when the sizes fit the
  algorithm (\<open>eplb_ok\<close>: the hierarchical ones need groups that the nodes divide, the elastic one enough slots on the active ranks when ranks have failed), the new
  metadata is built without error, and for every list of logical ids the translation into physical ids maps back to these ids, whichever
  dispatch algorithm is configured.
\<close>

theorem eplb_dispatch_roundtrip:
  fixes q :: "('r, 'f::linordered_field) eplb_request"
  assumes "eplb_ok q" and "ep_dispatch_algorithm (lr_args q) \<in> Some ` {''static'', ''dynamic'', ''fake''}"
    and "l < mc_num_layers (lr_model q)"
    and "set ids \<subseteq> {0..<int (mc_num_logical_experts (lr_model q))}" and "length randint = length ids"
  shows "\<exists>md info phys. build_by_eplb q = Inr (Some md) \<and> dispatch_info_new (lr_args q) (Some md) l = Inr (Some info) \<and>
     topk_ids_logical_to_physical randint ids (Some info) = Inr phys \<and>
     map (\<lambda>p. physical_to_logical_map md ! l ! nat p) phys = ids"
proof -
  obtain md where md: "build_by_eplb q = Inr (Some md)" "num_layers md = mc_num_layers (lr_model q)"
    using by_eplb.build_wf[OF assms(1)] by blast
  from by_eplb.dispatch_sound[OF assms(1) md(1) _ refl assms(2,4,5), of l] show ?thesis
    using md assms(3) by auto
qed

definition example_eplb :: "(unit, rat) eplb_request" where
  "example_eplb = \<lparr>lr_rng = first_rng, lr_state = (), lr_dist_rank = 1, lr_args = example_args,
     lr_model = \<lparr>mc_num_layers = 1, mc_num_logical_experts = 3, mc_num_groups = None\<rparr>, lr_map = [], lr_rank = None,
     eq_torch = stable_torch, eq_active = [], eq_counts = [[[7, 1, 2]], [[3, 0, 1]]]\<rparr>"

lemma example_eplb_ok: "eplb_ok example_eplb"
proof -
  have "compute_algorithm (eplb_algorithm (lr_args example_eplb)) (mc_num_groups (lr_model example_eplb))
      (nat (nnodes (lr_args example_eplb))) = Inr deepseek" by code_simp
  then show ?thesis
    by (simp add: eplb_ok_def) (simp add: example_eplb_def args_ok_def location_request.truncate_def first_rng_spec
        stable_torch_spec example_args_def rect_def)
qed

text \<open>The elastic algorithm after the second of two ranks has failed.\<close>

lemma example_elastic_ok:
  "eplb_ok (example_eplb\<lparr>lr_args := example_args\<lparr>eplb_algorithm := ''elasticity_aware'', ep_num_redundant_experts := 3\<rparr>, eq_active := [True, False]\<rparr>)"
  (is "eplb_ok ?q")
proof -
  have "compute_algorithm (eplb_algorithm (lr_args ?q)) (mc_num_groups (lr_model ?q)) (nat (nnodes (lr_args ?q))) = Inr elasticity_aware" by code_simp
  then show ?thesis
    by (simp add: eplb_ok_def) (simp add: example_eplb_def args_ok_def location_request.truncate_def first_rng_spec
        stable_torch_spec example_args_def rect_def request_physical_def)
qed

theorem eplb_dispatch_roundtrip_witness:
  "\<exists>md info phys. build_by_eplb example_eplb = Inr (Some md) \<and>
     dispatch_info_new (lr_args example_eplb) (Some md) 0 = Inr (Some info) \<and>
     topk_ids_logical_to_physical [5, 6, 7] [0, 2, 0] (Some info) = Inr phys \<and>
     map (\<lambda>p. physical_to_logical_map md ! 0 ! nat p) phys = [0, 2, 0]"
proof -
  have "ep_dispatch_algorithm (lr_args example_eplb) = Some ''static''" "mc_num_layers (lr_model example_eplb) = 1"
    "mc_num_logical_experts (lr_model example_eplb) = 3" by code_simp+
  then show ?thesis
    using eplb_dispatch_roundtrip[OF example_eplb_ok, of 0 "[0, 2, 0]" "[5, 6, 7]"] by auto
qed

end
