(* ===== verification/Recorder_Buffers.thy ===== *)
theory Recorder_Buffers
  imports Eplb_Base
begin

text \<open>
  The containers of \<^verbatim>\<open>sglang/srt/eplb/expert_distribution.py\<close>: the buffers that keep the expert
  counts of the recorded forward passes (\<^verbatim>\<open>_CircularBuffer\<close>, \<^verbatim>\<open>_InfiniteBuffer\<close>) and the sliding
  windows of the utilisation history (\<^verbatim>\<open>_DequeCollection\<close>). Both buffers implement the interface
  \<open>pass_buffer\<close>: the accumulator that uses a buffer relies only on what it sums up to.
\<close>

section \<open>The two buffers\<close>

text \<open>\<open>zero\<close> is the item \<^verbatim>\<open>torch.zeros(item_shape)\<close>.\<close>

record 'v circular_buffer =
  cb_buffer :: "'v list"
  cb_curr_index :: nat

definition circular_init :: "'v \<Rightarrow> nat \<Rightarrow> 'v circular_buffer" where
  "circular_init zero buffer_size = \<lparr>cb_buffer = replicate buffer_size zero, cb_curr_index = 0\<rparr>"

definition circular_append :: "'v \<Rightarrow> 'v circular_buffer \<Rightarrow> 'v circular_buffer result" where
  "circular_append v b =
     (if cb_curr_index b < length (cb_buffer b)
      then Inr \<lparr>cb_buffer = (cb_buffer b)[cb_curr_index b := v],
                cb_curr_index = Suc (cb_curr_index b) mod length (cb_buffer b)\<rparr>
      else Inl IndexError)"

definition circular_get_all :: "'v circular_buffer \<Rightarrow> 'v list" where
  "circular_get_all b = cb_buffer b"

text \<open>The reset overwrites the items and leaves the write position where it is.\<close>

definition circular_reset :: "'v \<Rightarrow> 'v circular_buffer \<Rightarrow> 'v circular_buffer" where
  "circular_reset zero b = b\<lparr>cb_buffer := map (\<lambda>_. zero) (cb_buffer b)\<rparr>"

record 'v infinite_buffer =
  ib_buffer :: "'v list"
  ib_size :: nat

definition infinite_init :: "'v \<Rightarrow> 'v infinite_buffer" where
  "infinite_init zero = \<lparr>ib_buffer = replicate 128 zero, ib_size = 0\<rparr>"

definition infinite_append :: "'v \<Rightarrow> 'v \<Rightarrow> 'v infinite_buffer \<Rightarrow> 'v infinite_buffer result" where
  "infinite_append zero v b =
     (let curr_buffer_size = length (ib_buffer b);
          buffer = (if ib_size b = curr_buffer_size
                    then ib_buffer b @ replicate (2 * curr_buffer_size - curr_buffer_size) zero
                    else ib_buffer b)
      in if ib_size b < length buffer
         then Inr \<lparr>ib_buffer = buffer[ib_size b := v], ib_size = Suc (ib_size b)\<rparr>
         else Inl IndexError)"

definition infinite_get_all :: "'v infinite_buffer \<Rightarrow> 'v list" where
  "infinite_get_all b = take (ib_size b) (ib_buffer b)"

definition infinite_reset :: "'v \<Rightarrow> 'v infinite_buffer \<Rightarrow> 'v infinite_buffer" where
  "infinite_reset zero b = \<lparr>ib_buffer = map (\<lambda>_. zero) (ib_buffer b), ib_size = 0\<rparr>"

text \<open>\<^verbatim>\<open>_Buffer.init_new\<close> chooses by the sign of the configured size; the methods dispatch.\<close>

datatype 'v buffer = Circular "'v circular_buffer" | Infinite "'v infinite_buffer"

definition buffer_init_new :: "'v \<Rightarrow> int \<Rightarrow> 'v buffer" where
  "buffer_init_new zero buffer_size =
     (if buffer_size < 0 then Infinite (infinite_init zero) else Circular (circular_init zero (nat buffer_size)))"

fun buffer_append :: "'v \<Rightarrow> 'v \<Rightarrow> 'v buffer \<Rightarrow> 'v buffer result" where
  "buffer_append zero v (Circular b) = bind_res (circular_append v b) (\<lambda>b'. Inr (Circular b'))"
| "buffer_append zero v (Infinite b) = bind_res (infinite_append zero v b) (\<lambda>b'. Inr (Infinite b'))"

fun buffer_get_all :: "'v buffer \<Rightarrow> 'v list" where
  "buffer_get_all (Circular b) = circular_get_all b"
| "buffer_get_all (Infinite b) = infinite_get_all b"

fun buffer_reset :: "'v \<Rightarrow> 'v buffer \<Rightarrow> 'v buffer" where
  "buffer_reset zero (Circular b) = Circular (circular_reset zero b)"
| "buffer_reset zero (Infinite b) = Infinite (infinite_reset zero b)"

section \<open>The sliding windows\<close>

text \<open>\<^verbatim>\<open>deque(maxlen=n)\<close>: appending to a full deque drops its oldest element.\<close>

record 'f window =
  w_maxlen :: nat
  w_values :: "'f list"

definition deque_append :: "'f \<Rightarrow> 'f window \<Rightarrow> 'f window" where
  "deque_append v d = d\<lparr>w_values := (let vs = w_values d @ [v] in drop (length vs - w_maxlen d) vs)\<rparr>"

definition deque_collection :: "nat list \<Rightarrow> 'f window list" where
  "deque_collection maxlens = map (\<lambda>m. \<lparr>w_maxlen = m, w_values = []\<rparr>) maxlens"

definition history_append :: "'f \<Rightarrow> 'f window list \<Rightarrow> 'f window list" where
  "history_append v ds = map (deque_append v) ds"

definition history_clear :: "'f window list \<Rightarrow> 'f window list" where
  "history_clear ds = map (\<lambda>d. d\<lparr>w_values := []\<rparr>) ds"

text \<open>\<^verbatim>\<open>{d.maxlen: sum(d) / len(d) for d in self._dequeues}\<close>.\<close>

definition history_mean :: "('f::linordered_field) window list \<Rightarrow> (nat, 'f) dict result" where
  "history_mean ds =
     bind_res (map_res (\<lambda>d. if w_values d = [] then Inl ZeroDivisionError
                            else Inr (w_maxlen d, sum_list (w_values d) / of_nat (length (w_values d)))) ds)
       (\<lambda>kvs. Inr (dict_of_list kvs))"

section \<open>The buffer interface\<close>

text \<open>What a buffer of capacity \<open>cap\<close> still knows after the values \<open>vs\<close> were appended.\<close>

definition keep :: "nat option \<Rightarrow> 'v list \<Rightarrow> 'v list" where
  "keep cap vs = (case cap of None \<Rightarrow> vs | Some n \<Rightarrow> drop (length vs - n) vs)"

lemma keep_keep: "keep cap (keep cap vs @ ws) = keep cap (vs @ ws)"
  by (auto simp: keep_def drop_append split: option.splits intro!: arg_cong2[where f = "(@)"] arg_cong2[where f = drop])

locale pass_buffer =
  fixes append :: "'v \<Rightarrow> 'b \<Rightarrow> 'b result"
    and get_all :: "'b \<Rightarrow> 'v list"
    and reset :: "'b \<Rightarrow> 'b"
    and zero :: 'v
    and cap :: "nat option"
    and holds :: "'b \<Rightarrow> 'v list \<Rightarrow> bool"
  assumes append_holds: "holds b vs \<Longrightarrow> \<exists>b'. append v b = Inr b' \<and> holds b' (keep cap (vs @ [v]))"
    and bounded: "holds b vs \<Longrightarrow> keep cap vs = vs"
    and reset_holds: "holds b vs \<Longrightarrow> holds (reset b) []"
    and get_all_holds: "holds b vs \<Longrightarrow> \<exists>k. mset (get_all b) = mset vs + replicate_mset k zero"
begin

lemma appends_hold:
  assumes "holds b vs"
  shows "\<exists>b'. fold_res append ws b = Inr b' \<and> holds b' (keep cap (vs @ ws))"
  using assms
proof (induction ws arbitrary: b vs)
  case Nil
  then show ?case using bounded by simp
next
  case (Cons w ws)
  obtain b1 where b1: "append w b = Inr b1" "holds b1 (keep cap (vs @ [w]))" using append_holds[OF Cons.prems] by blast
  from Cons.IH[OF b1(2)] b1(1) show ?case by (auto simp: keep_keep)
qed

text \<open>Whatever is summed over the items, the zero items do not count.\<close>

lemma total_of_all:
  fixes f :: "'v \<Rightarrow> int"
  assumes "holds b vs" and "f zero = 0"
  shows "sum_list (map f (get_all b)) = sum_list (map f vs)"
proof -
  obtain k where "mset (get_all b) = mset vs + replicate_mset k zero" using get_all_holds[OF assms(1)] by blast
  then have "sum_mset (image_mset f (mset (get_all b))) = sum_mset (image_mset f (mset vs))"
    using assms(2) by (simp add: sum_mset_replicate_mset)
  then show ?thesis by (simp flip: mset_map add: sum_mset_sum_list)
qed

end

section \<open>Both buffers implement it\<close>

text \<open>From the write position on, the circular buffer holds its items oldest first.\<close>

definition circular_holds :: "'v \<Rightarrow> nat \<Rightarrow> 'v circular_buffer \<Rightarrow> 'v list \<Rightarrow> bool" where
  "circular_holds zero n b vs \<longleftrightarrow> length (cb_buffer b) = n \<and> cb_curr_index b < n \<and> length vs \<le> n \<and>
     drop (cb_curr_index b) (cb_buffer b) @ take (cb_curr_index b) (cb_buffer b) = replicate (n - length vs) zero @ vs"

definition infinite_holds :: "'v infinite_buffer \<Rightarrow> 'v list \<Rightarrow> bool" where
  "infinite_holds b vs \<longleftrightarrow> 0 < length (ib_buffer b) \<and> ib_size b \<le> length (ib_buffer b) \<and> take (ib_size b) (ib_buffer b) = vs"

lemma circular_append_holds:
  assumes "circular_holds zero n b vs"
  shows "\<exists>b'. circular_append v b = Inr b' \<and> circular_holds zero n b' (keep (Some n) (vs @ [v]))"
proof -
  let ?buf = "cb_buffer b" and ?c = "cb_curr_index b"
  let ?b' = "\<lparr>cb_buffer = ?buf[?c := v], cb_curr_index = Suc ?c mod n\<rparr>"
  note h = assms[unfolded circular_holds_def]
  have run: "circular_append v b = Inr ?b'" using h by (simp add: circular_append_def)
  have rot: "drop (cb_curr_index ?b') (cb_buffer ?b') @ take (cb_curr_index ?b') (cb_buffer ?b') =
      tl (drop ?c ?buf @ take ?c ?buf) @ [v]"
  proof (cases "Suc ?c = n")
    case True
    then have "drop ?c ?buf = [?buf ! ?c]" using h Cons_nth_drop_Suc[of ?c ?buf] by simp
    moreover have "?buf[?c := v] = take ?c ?buf @ [v]" using True h by (simp add: upd_conv_take_nth_drop)
    ultimately show ?thesis using True by simp
  next
    case False
    then have len: "Suc ?c < n" "length ?buf = n" using h by auto
    then have "drop ?c ?buf = ?buf ! ?c # drop (Suc ?c) ?buf" using Cons_nth_drop_Suc[of ?c ?buf] by simp
    then show ?thesis using len by (simp add: take_Suc_conv_app_nth drop_update_cancel)
  qed
  have "tl (replicate (n - length vs) zero @ vs) @ [v] =
      replicate (n - length (keep (Some n) (vs @ [v]))) zero @ keep (Some n) (vs @ [v])"
  proof (cases "length vs = n")
    case True
    then show ?thesis using h by (cases vs) (auto simp: keep_def)
  next
    case False
    then obtain k where "n - length vs = Suc k" using h by (metis Suc_pred diff_is_0_eq le_antisym not_gr_zero)
    moreover have "n - length (vs @ [v]) = k" using calculation by simp
    ultimately show ?thesis using h False by (simp add: keep_def)
  qed
  moreover have "length (keep (Some n) (vs @ [v])) \<le> n" by (simp add: keep_def)
  ultimately have "circular_holds zero n ?b' (keep (Some n) (vs @ [v]))"
    using rot h by (simp add: circular_holds_def)
  with run show ?thesis by blast
qed

interpretation circular: pass_buffer
  circular_append circular_get_all "circular_reset zero" zero "Some n" "circular_holds zero n"
  for zero :: 'v and n
proof
  fix b :: "'v circular_buffer" and vs v
  assume h: "circular_holds zero n b vs"
  show "\<exists>b'. circular_append v b = Inr b' \<and> circular_holds zero n b' (keep (Some n) (vs @ [v]))"
    by (rule circular_append_holds[OF h])
  show "keep (Some n) vs = vs" using h by (simp add: circular_holds_def keep_def)
  show "circular_holds zero n (circular_reset zero b) []"
    using h by (auto simp: circular_holds_def circular_reset_def map_replicate_const take_map drop_map replicate_add[symmetric])
  have "mset (cb_buffer b) = mset (drop (cb_curr_index b) (cb_buffer b) @ take (cb_curr_index b) (cb_buffer b))"
    by (metis append_take_drop_id mset_append add.commute)
  also have "\<dots> = mset (replicate (n - length vs) zero @ vs)" using h by (simp only: circular_holds_def)
  finally show "\<exists>k. mset (circular_get_all b) = mset vs + replicate_mset k zero"
    by (auto simp: circular_get_all_def add.commute)
qed

lemma infinite_append_holds:
  assumes "infinite_holds b vs"
  shows "\<exists>b'. infinite_append zero v b = Inr b' \<and> infinite_holds b' (vs @ [v])"
proof -
  let ?buf = "if ib_size b = length (ib_buffer b)
      then ib_buffer b @ replicate (2 * length (ib_buffer b) - length (ib_buffer b)) zero else ib_buffer b"
  note h = assms[unfolded infinite_holds_def]
  have "ib_size b < length ?buf" "take (ib_size b) ?buf = vs" using h by auto
  moreover have "0 < length ?buf" using h by auto
  ultimately show ?thesis
    unfolding infinite_append_def infinite_holds_def Let_def by (simp add: take_Suc_conv_app_nth)
qed

interpretation infinite: pass_buffer
  "infinite_append zero" infinite_get_all "infinite_reset zero" zero None infinite_holds
  for zero :: 'v
proof
  fix b :: "'v infinite_buffer" and vs v
  assume h: "infinite_holds b vs"
  show "\<exists>b'. infinite_append zero v b = Inr b' \<and> infinite_holds b' (keep None (vs @ [v]))"
    using infinite_append_holds[OF h] by (simp add: keep_def)
  show "keep None vs = vs" by (simp add: keep_def)
  show "infinite_holds (infinite_reset zero b) []" using h by (simp add: infinite_holds_def infinite_reset_def)
  show "\<exists>k. mset (infinite_get_all b) = mset vs + replicate_mset k zero"
    using h by (intro exI[of _ 0]) (simp add: infinite_holds_def infinite_get_all_def)
qed

definition buffer_capacity :: "int \<Rightarrow> nat option" where
  "buffer_capacity bsize = (if bsize < 0 then None else Some (nat bsize))"

fun buffer_holds :: "'v \<Rightarrow> int \<Rightarrow> 'v buffer \<Rightarrow> 'v list \<Rightarrow> bool" where
  "buffer_holds zero bsize (Circular b) vs \<longleftrightarrow> 0 \<le> bsize \<and> circular_holds zero (nat bsize) b vs"
| "buffer_holds zero bsize (Infinite b) vs \<longleftrightarrow> bsize < 0 \<and> infinite_holds b vs"

interpretation recording: pass_buffer
  "buffer_append zero" buffer_get_all "buffer_reset zero" zero "buffer_capacity bsize" "buffer_holds zero bsize"
  for zero :: 'v and bsize
proof
  fix b :: "'v buffer" and vs v
  assume h: "buffer_holds zero bsize b vs"
  show "\<exists>b'. buffer_append zero v b = Inr b' \<and> buffer_holds zero bsize b' (keep (buffer_capacity bsize) (vs @ [v]))"
    using h circular.append_holds infinite.append_holds[of _ _ zero]
    by (cases b) (fastforce simp: buffer_capacity_def)+
  show "keep (buffer_capacity bsize) vs = vs"
    using h circular.bounded by (cases b) (auto simp: buffer_capacity_def keep_def)
  show "buffer_holds zero bsize (buffer_reset zero b) []"
    using h circular.reset_holds infinite.reset_holds by (cases b) auto
  show "\<exists>k. mset (buffer_get_all b) = mset vs + replicate_mset k zero"
    using h circular.get_all_holds infinite.get_all_holds by (cases b) auto
qed

lemma buffer_init_holds: "bsize \<noteq> 0 \<Longrightarrow> buffer_holds zero bsize (buffer_init_new zero bsize) []"
  by (simp add: buffer_init_new_def circular_holds_def infinite_holds_def circular_init_def infinite_init_def)

text \<open>
  (C39) The pass buffers: appending never fails for a configured size other than zero, and the items
  read back are the recorded values, all of them for a negative size and the most recent ones for a
  positive size, possibly with zero items, which add nothing to any sum over the items.
\<close>

theorem buffer_keeps_recent:
  assumes "bsize \<noteq> 0"
  shows "\<exists>b k. fold_res (buffer_append zero) vs (buffer_init_new zero bsize) = Inr b \<and>
     mset (buffer_get_all b) = mset (if bsize < 0 then vs else drop (length vs - nat bsize) vs) + replicate_mset k zero"
proof -
  obtain b where b: "fold_res (buffer_append zero) vs (buffer_init_new zero bsize) = Inr b"
    "buffer_holds zero bsize b (keep (buffer_capacity bsize) vs)"
    using recording.appends_hold[OF buffer_init_holds[OF assms], of zero vs] by auto
  from recording.get_all_holds[OF b(2)] b(1) show ?thesis by (auto simp: keep_def buffer_capacity_def)
qed

theorem buffer_keeps_recent_witness:
  "\<exists>b k. fold_res (buffer_append 0) [5, 6, 7 :: int] (buffer_init_new 0 2) = Inr b \<and>
     mset (buffer_get_all b) = {#6, 7#} + replicate_mset k 0"
  using buffer_keeps_recent[of 2 0 "[5, 6, 7 :: int]"] by (simp add: numeral_2_eq_2)

text \<open>
  The utilisation history: after the rates \<open>vs\<close> were recorded, at least one of them, every
  window reports the mean of the most recent rates that fit into it, and with no rate recorded the
  mean is a division by zero.
\<close>

theorem history_mean_correct:
  fixes vs :: "('f::linordered_field) list"
  assumes "distinct maxlens" "\<forall>m \<in> set maxlens. 0 < m"
  shows "history_mean (fold history_append vs (deque_collection maxlens)) =
     (if vs = [] \<and> maxlens \<noteq> [] then Inl ZeroDivisionError
      else Inr (map (\<lambda>m. (m, sum_list (drop (length vs - m) vs) / of_nat (min m (length vs)))) maxlens))"
proof -
  have win: "fold history_append vs (deque_collection maxlens) = map (\<lambda>m. \<lparr>w_maxlen = m, w_values = keep (Some m) vs\<rparr>) maxlens"
  proof (induction vs rule: rev_induct)
    case Nil
    then show ?case by (simp add: deque_collection_def keep_def)
  next
    case (snoc v vs)
    have "deque_append v \<lparr>w_maxlen = m, w_values = keep (Some m) vs\<rparr> = \<lparr>w_maxlen = m, w_values = keep (Some m) (vs @ [v])\<rparr>" for m
      using keep_keep[of "Some m" vs "[v]"] by (simp add: deque_append_def keep_def Let_def)
    with snoc show ?case by (simp add: history_append_def comp_def)
  qed
  have key: "dict_of_list (map (\<lambda>m. (m, g m)) maxlens) = map (\<lambda>m. (m, g m)) maxlens" for g :: "nat \<Rightarrow> 'f"
    using assms(1) by (intro dict_of_list_distinct) (simp add: dict_ok_def comp_def)
  show ?thesis
  proof (cases "vs = []")
    case True
    then show ?thesis
      unfolding win by (cases maxlens) (simp_all add: history_mean_def keep_def dict_of_list_def)
  next
    case False
    have ne: "keep (Some m) vs \<noteq> []" if "m \<in> set maxlens" for m
    proof -
      have "0 < m" "0 < length vs" using assms(2) that False by auto
      then have "length vs - m < length vs" by simp
      then show ?thesis by (simp add: keep_def)
    qed
    have "map_res (\<lambda>d. if w_values d = [] then Inl ZeroDivisionError
           else Inr (w_maxlen d, sum_list (w_values d) / of_nat (length (w_values d))))
         (map (\<lambda>m. \<lparr>w_maxlen = m, w_values = keep (Some m) vs\<rparr>) maxlens) =
       Inr (map (\<lambda>d. (w_maxlen d, sum_list (w_values d) / of_nat (length (w_values d))))
         (map (\<lambda>m. \<lparr>w_maxlen = m, w_values = keep (Some m) vs\<rparr>) maxlens))"
      using ne by (intro map_res_Inr) auto
    moreover have "length (keep (Some m) vs) = min m (length vs)" for m by (auto simp: keep_def)
    ultimately show ?thesis
      unfolding win history_mean_def using False key by (simp add: comp_def) (simp add: keep_def)
  qed
qed

theorem history_mean_correct_witness:
  "history_mean (fold history_append [1, 2, 6 :: rat] (deque_collection [2, 10])) = Inr [(2, 4), (10, 3)]"
  using history_mean_correct[of "[2, 10]" "[1, 2, 6 :: rat]"] by (simp add: numeral_2_eq_2)

end
