(* ===== verification/Recorder.thy ===== *)
theory Recorder
  imports Recorder_Buffers Expert_Location
begin

text \<open>
  \<^verbatim>\<open>sglang/srt/eplb/expert_distribution.py\<close>: recording which experts the tokens of each forward pass
  select. A gatherer collects the data of one pass, an accumulator keeps the passes, the recorder
  starts, stops, dumps and resets them.

  Counts are integers: the 32-bit counters of the tensors do not overflow below 2147483648 selections of one
  expert in a pass. The process group, the CUDA stream and the environment are the record
  \<open>dist_env\<close>. Torch tensors handed from one object to the next are values, because the code clones
  or copies them; the one object that is shared without a copy, the list \<^verbatim>\<open>misc_objects\<close>, stays in the
  gatherer, and a record that refers to it reads the gatherer's list.
\<close>

section \<open>Data\<close>

record ForwardBatch =
  fb_input_ids :: "int list"
  fb_positions :: "int list"
  fb_extend_seq_lens :: "int list option"
  fb_forward_mode :: int

record misc_object =
  mo_layer_id :: nat
  mo_num_tokens_per_rank :: "int list"
  mo_num_tokens_per_rdma_rank :: "int list"
  mo_num_tokens_per_expert :: "int list"

record 'f detail_gatherer =
  dg_metadata :: "ForwardBatch option"
  dg_topk_ids_of_layer :: "int list list list"
  dg_router_logits_of_layer :: "'f list list list"
  dg_topk_weights_of_layer :: "'f list list list"
  dg_misc_objects :: "misc_object list"

text \<open>The four gatherers; the last two share \<^verbatim>\<open>_LayerBasedGpuSinglePassGatherer\<close>.\<close>

datatype 'f gatherer =
    DetailGatherer "'f detail_gatherer"
  | DeepepNormalGatherer "(nat, int list) dict"
  | SelectExpertsGatherer "int list list"
  | DeepepLowLatencyGatherer "int list list"

record 'f detail_pass =
  dp_batch :: ForwardBatch
  dp_topk_ids_of_layer :: "int list list list"
  dp_router_logits_of_layer :: "'f list list list"
  dp_topk_weights_of_layer :: "'f list list list"

record 'f single_pass_data =
  sp_global_physical_count :: "int list list"
  sp_detail :: "'f detail_pass option"

record 'f dist_env =
  de_rank :: nat
  de_world_size :: int
  de_capturing :: bool
  de_heatmap_interval :: int
  de_reduce :: "int list list \<Rightarrow> int list list"
  de_all_reduce :: "int list list list \<Rightarrow> int list list list"
  de_broadcast :: "'f \<Rightarrow> 'f"

section \<open>Counting\<close>

definition zeros :: "nat \<Rightarrow> nat \<Rightarrow> ('a::zero) list list" where
  "zeros n m = replicate n (replicate m 0)"

definition list_sum :: "int list \<Rightarrow> int list \<Rightarrow> int list result" where
  "list_sum a b = (if length a = length b then Inr (map2 (+) a b) else Inl ValueError)"

text \<open>One layer of \<^verbatim>\<open>_convert_per_token_to_global_physical_count\<close>; \<^verbatim>\<open>max\<close> of an empty tensor raises.\<close>

definition count_layer_tokens :: "nat \<Rightarrow> nat \<Rightarrow> int list list \<Rightarrow> int list result" where
  "count_layer_tokens num_tokens num_physical topk_ids =
     (let flat = concat (take num_tokens topk_ids) in
      if flat = [] then Inl RuntimeError
      else
        let valid = filter (\<lambda>i. i \<noteq> -1 \<and> 0 \<le> i \<and> i < int num_physical) flat in
        scatter_add (replicate num_physical 0) valid (replicate (length valid) 1))"

definition convert_per_token_to_global_physical_count ::
  "nat \<Rightarrow> nat \<Rightarrow> nat \<Rightarrow> int list list list \<Rightarrow> int list list result" where
  "convert_per_token_to_global_physical_count num_tokens layers num_physical topk_ids_of_layer =
     map_res (\<lambda>layer. if layer < length topk_ids_of_layer
                then count_layer_tokens num_tokens num_physical (topk_ids_of_layer ! layer) else Inl IndexError)
       [0..<layers]"

text \<open>One row of \<^verbatim>\<open>_convert_local_to_global_physical_count\<close>: the slice of the own rank.\<close>

definition convert_local_to_global_physical_count ::
  "int list list \<Rightarrow> nat \<Rightarrow> nat \<Rightarrow> nat \<Rightarrow> int list list result" where
  "convert_local_to_global_physical_count local_count rank num_local num_physical =
     map_res (\<lambda>row. let lo = min (num_local * rank) num_physical; hi = min (num_local * (rank + 1)) num_physical in
        if length row = hi - lo
        then Inr (replicate lo 0 @ row @ replicate (num_physical - hi) 0) else Inl RuntimeError) local_count"

definition convert_global_physical_count_to_logical_count ::
  "int list list list \<Rightarrow> nat \<Rightarrow> nat \<Rightarrow> int list list \<Rightarrow> int list list list result" where
  "convert_global_physical_count_to_logical_count counts layers num_logical p2l =
     map_res (\<lambda>step. map_res (\<lambda>(row, idx). scatter_add (replicate num_logical 0) idx row) (zip step p2l)) counts"

text \<open>\<^verbatim>\<open>einops.reduce\<close> over the experts of each GPU, for every layer.\<close>

definition chunk_sums :: "nat \<Rightarrow> nat \<Rightarrow> int list \<Rightarrow> int list" where
  "chunk_sums num_gpu per_gpu row = map (\<lambda>g. sum_list (take per_gpu (drop (g * per_gpu) row))) [0..<num_gpu]"

definition compute_gpu_physical_count :: "int list list \<Rightarrow> nat \<Rightarrow> int list list result" where
  "compute_gpu_physical_count counts num_gpu =
     map_res (\<lambda>row. if num_gpu \<noteq> 0 \<and> length row mod num_gpu = 0
                    then Inr (chunk_sums num_gpu (length row div num_gpu) row) else Inl RuntimeError) counts"

definition utilization_rate_of :: "int list \<Rightarrow> ('f::linordered_field)" where
  "utilization_rate_of row =
     (of_int (sum_list row) / of_nat (length row) + 1 / 100000) / (of_int (Max (set row)) + 1 / 100000)"

definition compute_utilization_rate :: "int list list \<Rightarrow> ('f::linordered_field) list" where
  "compute_utilization_rate gpu_physical_count = map utilization_rate_of gpu_physical_count"

section \<open>Gatherers\<close>

definition gatherer_init_new ::
  "'f server_args \<Rightarrow> ExpertLocationMetadata \<Rightarrow> int \<Rightarrow> ('f::zero) gatherer result" where
  "gatherer_init_new args md ep_size =
     (let select = SelectExpertsGatherer (zeros (num_layers md) (num_physical_experts md)) in
      if expert_distribution_recorder_mode args = Some ''per_token''
      then let batch = nat (chunked_prefill_size args * 8) in
        py_assert (\<not> enable_two_batch_overlap args)
          (Inr (DetailGatherer \<lparr>dg_metadata = None,
             dg_topk_ids_of_layer = replicate (num_layers md) (zeros batch 8),
             dg_router_logits_of_layer = replicate (num_layers md) (zeros batch (num_logical_experts md)),
             dg_topk_weights_of_layer = replicate (num_layers md) (zeros batch 8), dg_misc_objects = []\<rparr>))
      else if expert_distribution_recorder_mode args = Some ''stat_approx''
      then (if moe_a2a_backend args \<noteq> ''none'' \<and> deepep_mode args = ''normal'' then Inr (DeepepNormalGatherer [])
            else Inl NotImplementedError)
      else if moe_a2a_backend args \<noteq> ''none''
      then (if deepep_mode args = ''normal'' then Inr select
            else if deepep_mode args = ''low_latency''
            then bind_res (num_local_physical_experts ep_size md)
                   (\<lambda>n. Inr (DeepepLowLatencyGatherer (zeros (num_layers md) (nat n))))
            else Inl NotImplementedError)
      else Inr select)"

fun gatherer_reset :: "('f::zero) gatherer \<Rightarrow> 'f gatherer" where
  "gatherer_reset (DetailGatherer g) = DetailGatherer
     \<lparr>dg_metadata = None,
      dg_topk_ids_of_layer = map (map (map (\<lambda>_. -1))) (dg_topk_ids_of_layer g),
      dg_router_logits_of_layer = map (map (map (\<lambda>_. 0))) (dg_router_logits_of_layer g),
      dg_topk_weights_of_layer = map (map (map (\<lambda>_. 0))) (dg_topk_weights_of_layer g), dg_misc_objects = []\<rparr>"
| "gatherer_reset (DeepepNormalGatherer _) = DeepepNormalGatherer []"
| "gatherer_reset (SelectExpertsGatherer d) = SelectExpertsGatherer (map (map (\<lambda>_. 0)) d)"
| "gatherer_reset (DeepepLowLatencyGatherer d) = DeepepLowLatencyGatherer (map (map (\<lambda>_. 0)) d)"

fun gatherer_on_forward_pass_start :: "ForwardBatch \<Rightarrow> 'f gatherer \<Rightarrow> 'f gatherer result" where
  "gatherer_on_forward_pass_start batch (DetailGatherer g) =
     py_assert (dg_metadata g = None) (Inr (DetailGatherer (g\<lparr>dg_metadata := Some batch\<rparr>)))"
| "gatherer_on_forward_pass_start batch g = Inr g"

text \<open>\<^verbatim>\<open>t[layer_idx, :vals.shape[0], :vals.shape[1]] = vals\<close>: the values must fit into the tensor.\<close>

definition write_block :: "nat \<Rightarrow> 'a list list \<Rightarrow> 'a list list list \<Rightarrow> 'a list list list result" where
  "write_block layer vals t =
     (if \<not> layer < length t then Inl IndexError
      else if length vals \<le> length (t ! layer) \<and>
              list_all (\<lambda>i. length (vals ! i) \<le> length (t ! layer ! i)) [0..<length vals]
      then Inr (t[layer := map2 (\<lambda>v row. v @ drop (length v) row) vals (t ! layer) @ drop (length vals) (t ! layer)])
      else Inl RuntimeError)"

text \<open>The wider tensor starts from zeros and keeps the old columns.\<close>

definition widen :: "nat \<Rightarrow> ('a::zero) list list list \<Rightarrow> 'a list list list" where
  "widen k t = map (map (\<lambda>row. row @ replicate (k - length row) 0)) t"

definition detail_resize :: "nat \<Rightarrow> ('f::zero) detail_gatherer \<Rightarrow> 'f detail_gatherer" where
  "detail_resize actual_top_k g =
     (if inner_shape (dg_topk_ids_of_layer g) < actual_top_k
      then g\<lparr>dg_topk_ids_of_layer := widen actual_top_k (dg_topk_ids_of_layer g),
             dg_router_logits_of_layer := map (map (map (\<lambda>_. 0))) (dg_router_logits_of_layer g),
             dg_topk_weights_of_layer := widen actual_top_k (dg_topk_weights_of_layer g)\<rparr>
      else g)"

definition detail_on_select_experts ::
  "nat \<Rightarrow> int list list \<Rightarrow> 'f list list option \<Rightarrow> 'f list list option \<Rightarrow> ('f::zero) detail_gatherer \<Rightarrow> 'f detail_gatherer result" where
  "detail_on_select_experts layer topk_ids router_logits topk_weights g0 =
     (let g = detail_resize (shape1 topk_ids) g0 in
      bind_res (write_block layer topk_ids (dg_topk_ids_of_layer g)) (\<lambda>ids.
      bind_res (case router_logits of None \<Rightarrow> Inr (dg_router_logits_of_layer g)
                | Some rl \<Rightarrow> if shape1 rl \<le> inner_shape (dg_router_logits_of_layer g)
                             then write_block layer rl (dg_router_logits_of_layer g)
                             else Inr (dg_router_logits_of_layer g)) (\<lambda>logits.
      bind_res (case topk_weights of None \<Rightarrow> Inr (dg_topk_weights_of_layer g)
                | Some tw \<Rightarrow> write_block layer tw (dg_topk_weights_of_layer g)) (\<lambda>weights.
        Inr (g\<lparr>dg_topk_ids_of_layer := ids, dg_router_logits_of_layer := logits, dg_topk_weights_of_layer := weights\<rparr>)))))"

definition select_experts_row :: "int list list \<Rightarrow> int list \<Rightarrow> int list result" where
  "select_experts_row topk_ids row =
     (let flat = concat topk_ids in
      scatter_add row (map (\<lambda>i. if i \<noteq> -1 then i else 0) flat) (map (\<lambda>i. if i \<noteq> -1 then 1 else 0) flat))"

fun gatherer_on_select_experts ::
  "nat \<Rightarrow> int list list \<Rightarrow> 'f list list option \<Rightarrow> 'f list list option \<Rightarrow> ('f::zero) gatherer \<Rightarrow> 'f gatherer result" where
  "gatherer_on_select_experts layer topk_ids rl tw (DetailGatherer g) =
     bind_res (detail_on_select_experts layer topk_ids rl tw g) (\<lambda>g'. Inr (DetailGatherer g'))"
| "gatherer_on_select_experts layer topk_ids rl tw (SelectExpertsGatherer d) =
     (if layer < length d
      then bind_res (select_experts_row topk_ids (d ! layer)) (\<lambda>row. Inr (SelectExpertsGatherer (d[layer := row])))
      else Inl IndexError)"
| "gatherer_on_select_experts layer topk_ids rl tw g = Inr g"

text \<open>\<^verbatim>\<open>_LayerBasedCpuSinglePassGatherer._on_layer_data\<close>.\<close>

definition on_layer_data :: "nat \<Rightarrow> nat \<Rightarrow> int list \<Rightarrow> (nat, int list) dict \<Rightarrow> (nat, int list) dict result" where
  "on_layer_data layers layer objects d =
     py_assert (layer < layers)
       (case map_of d layer of
          Some old \<Rightarrow> bind_res (list_sum old objects) (\<lambda>s. Inr (AList.update layer s d))
        | None \<Rightarrow> Inr (AList.update layer objects d))"

fun gatherer_on_deepep_dispatch_normal ::
  "nat \<Rightarrow> nat \<Rightarrow> int list \<Rightarrow> int list \<Rightarrow> int list \<Rightarrow> int list \<Rightarrow> 'f gatherer \<Rightarrow> 'f gatherer result" where
  "gatherer_on_deepep_dispatch_normal layers layer local per_rank per_rdma per_expert (DetailGatherer g) =
     Inr (DetailGatherer (g\<lparr>dg_misc_objects := dg_misc_objects g @
       [\<lparr>mo_layer_id = layer, mo_num_tokens_per_rank = per_rank, mo_num_tokens_per_rdma_rank = per_rdma,
         mo_num_tokens_per_expert = per_expert\<rparr>]\<rparr>))"
| "gatherer_on_deepep_dispatch_normal layers layer local per_rank per_rdma per_expert (DeepepNormalGatherer d) =
     bind_res (on_layer_data layers layer local d) (\<lambda>d'. Inr (DeepepNormalGatherer d'))"
| "gatherer_on_deepep_dispatch_normal layers layer local per_rank per_rdma per_expert g = Inr g"

fun gatherer_on_deepep_dispatch_low_latency :: "nat \<Rightarrow> int list \<Rightarrow> 'f gatherer \<Rightarrow> 'f gatherer result" where
  "gatherer_on_deepep_dispatch_low_latency layer local (DeepepLowLatencyGatherer d) =
     (if \<not> layer < length d then Inl IndexError
      else if length (d ! layer) \<noteq> length local then Inl RuntimeError
      else Inr (DeepepLowLatencyGatherer (d[layer := map2 (+) (d ! layer) local])))"
| "gatherer_on_deepep_dispatch_low_latency layer local g = Inr g"

text \<open>\<^verbatim>\<open>_collect_objects\<close>: a missing or empty entry counts as zeros.\<close>

definition collect_objects :: "nat \<Rightarrow> nat \<Rightarrow> (nat, int list) dict \<Rightarrow> int list list" where
  "collect_objects layers pad_len d =
     map (\<lambda>l. case map_of d l of Some (x # xs) \<Rightarrow> x # xs | _ \<Rightarrow> replicate pad_len 0) [0..<layers]"

fun gatherer_collect ::
  "ExpertLocationMetadata \<Rightarrow> int \<Rightarrow> nat \<Rightarrow> 'f gatherer \<Rightarrow> 'f single_pass_data result" where
  "gatherer_collect md ep_size rank (DetailGatherer g) =
     (case dg_metadata g of None \<Rightarrow> Inl TypeError
      | Some batch \<Rightarrow>
          let num_tokens = length (fb_input_ids batch) in
          bind_res (convert_per_token_to_global_physical_count num_tokens (num_layers md) (num_physical_experts md)
                      (dg_topk_ids_of_layer g)) (\<lambda>c.
          Inr \<lparr>sp_global_physical_count = c,
               sp_detail = Some \<lparr>dp_batch = batch,
                 dp_topk_ids_of_layer = map (take num_tokens) (dg_topk_ids_of_layer g),
                 dp_router_logits_of_layer = map (take num_tokens) (dg_router_logits_of_layer g),
                 dp_topk_weights_of_layer = map (take num_tokens) (dg_topk_weights_of_layer g)\<rparr>\<rparr>))"
| "gatherer_collect md ep_size rank (DeepepNormalGatherer d) =
     bind_res (num_local_physical_experts ep_size md) (\<lambda>n.
     bind_res (convert_local_to_global_physical_count (collect_objects (num_layers md) (nat n) d) rank (nat n)
                 (num_physical_experts md)) (\<lambda>c. Inr \<lparr>sp_global_physical_count = c, sp_detail = None\<rparr>))"
| "gatherer_collect md ep_size rank (SelectExpertsGatherer d) =
     Inr \<lparr>sp_global_physical_count = d, sp_detail = None\<rparr>"
| "gatherer_collect md ep_size rank (DeepepLowLatencyGatherer d) =
     bind_res (num_local_physical_experts ep_size md) (\<lambda>n.
     bind_res (convert_local_to_global_physical_count d rank (nat n) (num_physical_experts md))
       (\<lambda>c. Inr \<lparr>sp_global_physical_count = c, sp_detail = None\<rparr>))"

section \<open>Accumulators\<close>

text \<open>The Prometheus histogram of one layer: \<^verbatim>\<open>_sum\<close> and one bucket per GPU and for \<^verbatim>\<open>+Inf\<close>.\<close>

record layer_metric =
  lm_sum :: int
  lm_buckets :: "int list"

record 'f utilization =
  ut_enable :: bool
  ut_history :: "'f window list"
  ut_collection_counter :: nat
  ut_metrics :: "layer_metric list"

record 'f detail_record =
  dr_forward_pass_id :: int
  dr_rank :: nat
  dr_data :: "'f single_pass_data"

datatype 'f accumulator_data =
    StatData "int list list buffer" bool
  | DetailData "'f detail_record list"

record 'f accumulator =
  ac_utilization :: "'f utilization"
  ac_data :: "'f accumulator_data"

definition window_sizes :: "nat list" where
  "window_sizes = [10, 100, 1000]"

definition accumulator_init ::
  "'f server_args \<Rightarrow> ExpertLocationMetadata \<Rightarrow> 'f dist_env \<Rightarrow> 'f accumulator result" where
  "accumulator_init args md env =
     (let ut = \<lparr>ut_enable = enable_expert_distribution_metrics args, ut_history = deque_collection window_sizes,
                ut_collection_counter = 0,
                ut_metrics = replicate (num_layers md)
                  \<lparr>lm_sum = 0, lm_buckets = replicate (nat (de_world_size env) + 1) 0\<rparr>\<rparr>;
          mode = expert_distribution_recorder_mode args
      in if mode = Some ''stat'' \<or> mode = Some ''stat_approx''
         then Inr \<lparr>ac_utilization = ut,
                   ac_data = StatData (buffer_init_new (zeros (num_layers md) (num_physical_experts md))
                     (expert_distribution_recorder_buffer_size args)) True\<rparr>
         else if mode = Some ''per_pass'' \<or> mode = Some ''per_token''
         then Inr \<lparr>ac_utilization = ut, ac_data = DetailData []\<rparr>
         else Inl KeyError)"

definition observe_gpu :: "nat \<Rightarrow> int \<Rightarrow> layer_metric \<Rightarrow> layer_metric" where
  "observe_gpu gpu_rank c m =
     (if 0 < c
      then \<lparr>lm_sum = lm_sum m + c * int gpu_rank,
            lm_buckets = (lm_buckets m)[gpu_rank := lm_buckets m ! gpu_rank + c]\<rparr>
      else m)"

definition observe_layer :: "nat \<Rightarrow> int list \<Rightarrow> layer_metric \<Rightarrow> layer_metric result" where
  "observe_layer ep_size row m =
     py_assert (ep_size = length (lm_buckets m) - 1)
       (Inr (fold (\<lambda>g. observe_gpu g (row ! g)) [0..<ep_size] m))"

definition collect_metrics_if_needed ::
  "'f dist_env \<Rightarrow> int list list \<Rightarrow> 'f utilization \<Rightarrow> 'f utilization result" where
  "collect_metrics_if_needed env gpu_physical_count ut =
     bind_res
       (if 0 < de_heatmap_interval env \<and> int (ut_collection_counter ut) mod de_heatmap_interval env = 0
        then map_res (\<lambda>(row, m). observe_layer (nat (de_world_size env)) row m) (zip gpu_physical_count (ut_metrics ut))
        else Inr (ut_metrics ut))
       (\<lambda>ms. Inr (ut\<lparr>ut_metrics := ms, ut_collection_counter := Suc (ut_collection_counter ut)\<rparr>))"

text \<open>\<^verbatim>\<open>torch.mean\<close> over the layers.\<close>

definition append_utilization_rate ::
  "'f dist_env \<Rightarrow> int list list \<Rightarrow> ('f::linordered_field) utilization \<Rightarrow> 'f utilization result" where
  "append_utilization_rate env counts ut =
     bind_res (compute_gpu_physical_count counts (nat (de_world_size env))) (\<lambda>local_count.
       let gpu_physical_count = de_reduce env local_count in
       if de_rank env = 0
       then bind_res (collect_metrics_if_needed env gpu_physical_count ut) (\<lambda>ut'.
              let rates = compute_utilization_rate gpu_physical_count;
                  rate = sum_list rates / of_nat (length rates)
              in Inr (ut'\<lparr>ut_history := history_append rate (ut_history ut')\<rparr>))
       else Inr ut)"

definition accumulator_append ::
  "'f dist_env \<Rightarrow> ExpertLocationMetadata \<Rightarrow> int \<Rightarrow> 'f single_pass_data \<Rightarrow> ('f::linordered_field) accumulator
   \<Rightarrow> 'f accumulator result" where
  "accumulator_append env md forward_pass_id data ac =
     bind_res (if ut_enable (ac_utilization ac)
               then append_utilization_rate env (sp_global_physical_count data) (ac_utilization ac)
               else Inr (ac_utilization ac)) (\<lambda>ut.
     bind_res (case ac_data ac of
                 StatData b fd \<Rightarrow>
                   bind_res (buffer_append (zeros (num_layers md) (num_physical_experts md)) (sp_global_physical_count data) b)
                     (\<lambda>b'. Inr (StatData b' fd))
               | DetailData rs \<Rightarrow>
                   Inr (DetailData (rs @ [\<lparr>dr_forward_pass_id = forward_pass_id, dr_rank = de_rank env, dr_data = data\<rparr>])))
       (\<lambda>d. Inr \<lparr>ac_utilization = ut, ac_data = d\<rparr>))"

definition accumulator_reset :: "ExpertLocationMetadata \<Rightarrow> 'f accumulator \<Rightarrow> 'f accumulator" where
  "accumulator_reset md ac =
     \<lparr>ac_utilization =
        (let ut = ac_utilization ac in
         if ut_enable ut then ut\<lparr>ut_history := history_clear (ut_history ut)\<rparr> else ut),
      ac_data = (case ac_data ac of
          StatData b fd \<Rightarrow> StatData (buffer_reset (zeros (num_layers md) (num_physical_experts md)) b) fd
        | DetailData rs \<Rightarrow> DetailData [])\<rparr>"

text \<open>\<^verbatim>\<open>math.isclose(x, 1.0)\<close> with its default tolerances.\<close>

definition isclose_one :: "('f::linordered_field) \<Rightarrow> bool" where
  "isclose_one x \<longleftrightarrow> \<bar>x - 1\<bar> \<le> max \<bar>x\<bar> 1 / 10 ^ 9"

definition get_global_average_utilization_rate ::
  "'f server_args \<Rightarrow> 'f dist_env \<Rightarrow> ('f::linordered_field) utilization \<Rightarrow> 'f option result" where
  "get_global_average_utilization_rate args env ut =
     (if \<not> ut_enable ut \<or> isclose_one (eplb_min_rebalancing_utilization_threshold args) then Inr None
      else if de_rank env = 0
      then bind_res (history_mean (ut_history ut)) (\<lambda>means.
             Inr (Some (de_broadcast env (case map_of means (last window_sizes) of None \<Rightarrow> 0 | Some r \<Rightarrow> r))))
      else Inr (Some (de_broadcast env 0)))"

datatype 'f dump_output =
    DetailOutput "'f detail_record list" "int list list"
  | StatOutput nat "int list list list" "'f option"

text \<open>
  \<^verbatim>\<open>dump\<close> returns the object (or nothing), the file it wrote (or none) and the accumulator, in which
  only the flag \<^verbatim>\<open>_first_dump\<close> may change.
\<close>

definition accumulator_dump ::
  "'f server_args \<Rightarrow> 'f dist_env \<Rightarrow> ExpertLocationMetadata \<Rightarrow> string \<Rightarrow> ('f::linordered_field) accumulator
   \<Rightarrow> ('f dump_output option \<times> 'f dump_output option \<times> 'f accumulator) result" where
  "accumulator_dump args env md output_mode ac =
     (case ac_data ac of
        DetailData rs \<Rightarrow>
          let output = DetailOutput rs (physical_to_logical_map md) in
          if output_mode = ''file'' then Inr (None, Some output, ac)
          else if output_mode = ''object'' then Inr (Some output, None, ac)
          else Inl ValueError
      | StatData b fd \<Rightarrow>
          bind_res (convert_global_physical_count_to_logical_count (buffer_get_all b) (num_layers md)
                      (num_logical_experts md) (physical_to_logical_map md)) (\<lambda>counts.
          let ac' = ac\<lparr>ac_data := StatData b False\<rparr>; logical_count = de_all_reduce env counts in
          bind_res (get_global_average_utilization_rate args env (ac_utilization ac)) (\<lambda>rate.
          let output = StatOutput (de_rank env) logical_count rate in
          if output_mode = ''file'' then Inr (None, if de_rank env = 0 then Some output else None, ac')
          else if output_mode = ''object'' then Inr (Some output, None, ac')
          else Inl NotImplementedError)))"

section \<open>The recorder\<close>

record 'f recorder =
  rc_recording :: bool
  rc_disable_all :: bool
  rc_forward_pass_id :: "int option"
  rc_layer_idx :: "nat option"
  rc_gatherer :: "'f gatherer"
  rc_accumulator :: "'f accumulator"

text \<open>What the constructor receives and never changes.\<close>

record 'f recorder_context =
  cx_args :: "'f server_args"
  cx_md :: ExpertLocationMetadata
  cx_env :: "'f dist_env"

definition recorder_reset :: "('f::zero) recorder_context \<Rightarrow> 'f recorder \<Rightarrow> 'f recorder result" where
  "recorder_reset cx r =
     py_assert (rc_layer_idx r = None)
       (Inr (r\<lparr>rc_gatherer := gatherer_reset (rc_gatherer r),
               rc_accumulator := accumulator_reset (cx_md cx) (rc_accumulator r)\<rparr>))"

definition start_record :: "('f::zero) recorder_context \<Rightarrow> 'f recorder \<Rightarrow> 'f recorder result" where
  "start_record cx r = bind_res (recorder_reset cx r) (\<lambda>r'. Inr (r'\<lparr>rc_recording := True\<rparr>))"

definition stop_record :: "'f recorder \<Rightarrow> 'f recorder" where
  "stop_record r = r\<lparr>rc_recording := False\<rparr>"

definition dump_record ::
  "('f::linordered_field) recorder_context \<Rightarrow> string \<Rightarrow> 'f recorder
   \<Rightarrow> ('f dump_output option \<times> 'f dump_output option \<times> 'f recorder) result" where
  "dump_record cx output_mode r =
     bind_res (accumulator_dump (cx_args cx) (cx_env cx) (cx_md cx) output_mode (rc_accumulator r)) (\<lambda>(out, file, ac).
     bind_res (recorder_reset cx (r\<lparr>rc_accumulator := ac\<rparr>)) (\<lambda>r'. Inr (out, file, r')))"

text \<open>\<^verbatim>\<open>init_new\<close>: without a recorder mode the recorder is the no-op one, here \<open>None\<close>.\<close>

definition recorder_init_new ::
  "'f server_args \<Rightarrow> ExpertLocationMetadata option \<Rightarrow> ('f::linordered_field) dist_env
   \<Rightarrow> ('f recorder_context \<times> 'f recorder) option result" where
  "recorder_init_new args md_opt env =
     (if expert_distribution_recorder_mode args = None then Inr None
      else case md_opt of None \<Rightarrow> Inl AssertionError
      | Some md \<Rightarrow>
          bind_res (accumulator_init args md env) (\<lambda>ac.
          bind_res (gatherer_init_new args md (de_world_size env)) (\<lambda>g.
          let cx = \<lparr>cx_args = args, cx_md = md, cx_env = env\<rparr>;
              r = \<lparr>rc_recording = False, rc_disable_all = False, rc_forward_pass_id = None, rc_layer_idx = None,
                   rc_gatherer = g, rc_accumulator = ac\<rparr>
          in if enable_expert_distribution_metrics args
             then bind_res (start_record cx r) (\<lambda>r'. Inr (Some (cx, r')))
             else Inr (Some (cx, r)))))"

datatype 'f status =
    NotRecording
  | RecordingData "'f dump_output option"
  | RecordingNoData
  | RecordingDumpOnly

text \<open>
  \<^verbatim>\<open>get_status\<close> with the object mode calls the accumulator's dump and swallows its exceptions; the
  accumulator it leaves behind can differ in \<^verbatim>\<open>_first_dump\<close> only.
\<close>

definition get_status ::
  "('f::linordered_field) recorder_context \<Rightarrow> string \<Rightarrow> 'f recorder \<Rightarrow> 'f status \<times> 'f recorder" where
  "get_status cx output_mode r =
     (if \<not> rc_recording r then (NotRecording, r)
      else if output_mode = ''object''
      then (case accumulator_dump (cx_args cx) (cx_env cx) (cx_md cx) ''object'' (rc_accumulator r) of
              Inr (out, _, ac) \<Rightarrow> (RecordingData out, r\<lparr>rc_accumulator := ac\<rparr>)
            | Inl _ \<Rightarrow> (RecordingNoData, r))
      else (RecordingDumpOnly, r))"

definition on_forward_pass_start ::
  "ForwardBatch \<Rightarrow> ('f::zero) recorder \<Rightarrow> 'f recorder result" where
  "on_forward_pass_start batch r =
     (if \<not> rc_recording r then Inr r
      else bind_res (gatherer_on_forward_pass_start batch (gatherer_reset (rc_gatherer r)))
             (\<lambda>g. Inr (r\<lparr>rc_gatherer := g\<rparr>)))"

definition on_forward_pass_end ::
  "('f::linordered_field) recorder_context \<Rightarrow> int \<Rightarrow> 'f recorder \<Rightarrow> 'f recorder result" where
  "on_forward_pass_end cx forward_pass_id r =
     (if \<not> rc_recording r then Inr r
      else
        bind_res (gatherer_collect (cx_md cx) (de_world_size (cx_env cx)) (de_rank (cx_env cx)) (rc_gatherer r)) (\<lambda>data.
        bind_res (accumulator_append (cx_env cx) (cx_md cx) forward_pass_id data (rc_accumulator r)) (\<lambda>ac.
          Inr (r\<lparr>rc_accumulator := ac\<rparr>))))"

text \<open>The hooks the layers call, each with its arguments; \<^verbatim>\<open>_on_hook\<close> drops or forwards them.\<close>

datatype 'f hook =
    OnSelectExperts "int list list" "'f list list option" "'f list list option"
  | OnDeepepDispatchNormal "int list" "int list" "int list" "int list"
  | OnDeepepDispatchLowLatency "int list"

fun run_hook :: "ExpertLocationMetadata \<Rightarrow> nat \<Rightarrow> ('f::zero) hook \<Rightarrow> 'f gatherer \<Rightarrow> 'f gatherer result" where
  "run_hook md layer (OnSelectExperts ids rl tw) g = gatherer_on_select_experts layer ids rl tw g"
| "run_hook md layer (OnDeepepDispatchNormal local per_rank per_rdma per_expert) g =
     gatherer_on_deepep_dispatch_normal (num_layers md) layer local per_rank per_rdma per_expert g"
| "run_hook md layer (OnDeepepDispatchLowLatency local) g = gatherer_on_deepep_dispatch_low_latency layer local g"

text \<open>Outside a \<^verbatim>\<open>with_current_layer\<close> block there is no layer to index with.\<close>

definition on_hook :: "('f::zero) recorder_context \<Rightarrow> 'f hook \<Rightarrow> 'f recorder \<Rightarrow> 'f recorder result" where
  "on_hook cx h r =
     (if rc_disable_all r then Inr r
      else if \<not> (rc_recording r \<or> de_capturing (cx_env cx)) then Inr r
      else case rc_layer_idx r of None \<Rightarrow> Inl TypeError
      | Some layer \<Rightarrow> bind_res (run_hook (cx_md cx) layer h (rc_gatherer r)) (\<lambda>g. Inr (r\<lparr>rc_gatherer := g\<rparr>)))"

text \<open>The context managers: \<^verbatim>\<open>Withable.with_value\<close> refuses to nest and clears the value at the end.\<close>

definition with_current_layer ::
  "nat \<Rightarrow> ('f recorder \<Rightarrow> 'f recorder result) \<Rightarrow> 'f recorder \<Rightarrow> 'f recorder result" where
  "with_current_layer layer body r =
     py_assert (rc_layer_idx r = None)
       (bind_res (body (r\<lparr>rc_layer_idx := Some layer\<rparr>)) (\<lambda>r'. Inr (r'\<lparr>rc_layer_idx := None\<rparr>)))"

text \<open>
  An exception in the body ends the modelled run with that error. The code restores \<^verbatim>\<open>disable_all\<close>, and calls \<^verbatim>\<open>_on_forward_pass_end\<close>, in a \<^verbatim>\<open>finally\<close>
  block then too; the state it leaves behind an exception is not modelled.
\<close>

definition disable_this_region ::
  "('f recorder \<Rightarrow> 'f recorder result) \<Rightarrow> 'f recorder \<Rightarrow> 'f recorder result" where
  "disable_this_region body r =
     bind_res (body (r\<lparr>rc_disable_all := True\<rparr>)) (\<lambda>r'. Inr (r'\<lparr>rc_disable_all := rc_disable_all r\<rparr>))"

definition with_forward_pass ::
  "('f::linordered_field) recorder_context \<Rightarrow> int \<Rightarrow> ForwardBatch \<Rightarrow> ('f recorder \<Rightarrow> 'f recorder result)
   \<Rightarrow> 'f recorder \<Rightarrow> 'f recorder result" where
  "with_forward_pass cx forward_pass_id batch body r =
     py_assert (rc_forward_pass_id r = None)
       (bind_res (on_forward_pass_start batch (r\<lparr>rc_forward_pass_id := Some forward_pass_id\<rparr>)) (\<lambda>r1.
        bind_res (body r1) (\<lambda>r2.
        bind_res (on_forward_pass_end cx forward_pass_id r2) (\<lambda>r3.
          Inr (r3\<lparr>rc_forward_pass_id := None\<rparr>)))))"

text \<open>A forward pass of the model: its layers call their hooks one after the other.\<close>

definition layer_hook :: "('f::zero) recorder_context \<Rightarrow> nat \<times> 'f hook \<Rightarrow> 'f recorder \<Rightarrow> 'f recorder result" where
  "layer_hook cx lh = with_current_layer (fst lh) (on_hook cx (snd lh))"

definition forward_pass ::
  "('f::linordered_field) recorder_context \<Rightarrow> int \<times> ForwardBatch \<times> (nat \<times> 'f hook) list \<Rightarrow> 'f recorder \<Rightarrow> 'f recorder result" where
  "forward_pass cx p = with_forward_pass cx (fst p) (fst (snd p)) (fold_res (layer_hook cx) (snd (snd p)))"

text \<open>The misc objects a recorded pass shows when it is read: the list the gatherer holds now.\<close>

definition record_misc_objects :: "'f recorder \<Rightarrow> misc_object list" where
  "record_misc_objects r = (case rc_gatherer r of DetailGatherer g \<Rightarrow> dg_misc_objects g | _ \<Rightarrow> [])"

section \<open>Counts\<close>

lemma scatter_add_nth:
  fixes row :: "int list"
  assumes "scatter_add row idx src = Inr row'"
  shows "length row' = length row"
    and "j < length row \<Longrightarrow> row' ! j = row ! j + sum_list (map snd (filter (\<lambda>u. fst u = int j) (zip idx src)))"
proof -
  have r: "row' = scatter_add_row row (zip (map nat idx) src)" and i: "\<forall>i \<in> set idx. 0 \<le> i"
    using assms by (auto simp: scatter_add_def list_all_iff split: if_splits)
  show "length row' = length row" by (simp add: r)
  show "row' ! j = row ! j + sum_list (map snd (filter (\<lambda>u. fst u = int j) (zip idx src)))" if "j < length row"
  proof -
    have "map snd (filter (\<lambda>u. fst u = j) (zip (map nat idx) src)) = map snd (filter (\<lambda>u. fst u = int j) (zip idx src))"
      using i by (induction idx src rule: list_induct2') auto
    then show ?thesis using that by (simp add: r scatter_add_row_nth)
  qed
qed

text \<open>How often the ids of a tensor select expert \<open>q\<close>.\<close>

definition selections :: "int list list \<Rightarrow> nat \<Rightarrow> int" where
  "selections ids q = int (count_list (concat ids) (int q))"

lemma select_experts_row_nth:
  assumes "select_experts_row ids row = Inr row'"
  shows "length row' = length row" and "q < length row \<Longrightarrow> row' ! q = row ! q + selections ids q"
proof -
  let ?flat = "concat ids"
  have s: "scatter_add row (map (\<lambda>i. if i \<noteq> -1 then i else 0) ?flat) (map (\<lambda>i. if i \<noteq> -1 then 1 else 0) ?flat) = Inr row'"
    using assms by (simp only: select_experts_row_def Let_def)
  show "length row' = length row" using scatter_add_nth(1)[OF s] .
  have "sum_list (map snd (filter (\<lambda>u. fst u = int q) (zip (map (\<lambda>i. if i \<noteq> -1 then i else 0) xs)
      (map (\<lambda>i. if i \<noteq> -1 then 1 else 0) xs)))) = int (count_list xs (int q))" for xs :: "int list"
    by (induction xs) auto
  then show "row' ! q = row ! q + selections ids q" if "q < length row"
    using scatter_add_nth(2)[OF s that] by (simp add: selections_def)
qed

lemma logical_count_exact:
  assumes counts: "\<forall>step \<in> set counts. rect L P step" and p2l: "rect L P p2l"
    and valid: "\<forall>row \<in> set p2l. \<forall>e \<in> set row. 0 \<le> e \<and> e < int n"
  shows "\<exists>lc. convert_global_physical_count_to_logical_count counts L n p2l = Inr lc \<and> length lc = length counts \<and>
    (\<forall>s < length counts. rect L n (lc ! s) \<and> (\<forall>l < L. \<forall>e < n.
       lc ! s ! l ! e = (\<Sum>q | q < P \<and> p2l ! l ! q = int e. counts ! s ! l ! q)))"
proof -
  have row: "\<exists>r. scatter_add (replicate n 0) idx src = Inr r \<and> length r = n \<and>
      (\<forall>e < n. r ! e = (\<Sum>q | q < P \<and> idx ! q = int e. src ! q))"
    if "idx \<in> set p2l" "length src = P" for idx and src :: "int list"
  proof -
    have len: "length idx = P" using rect_row_mem[OF p2l that(1)] .
    have "list_all (\<lambda>i. 0 \<le> i \<and> i < int (length (replicate n (0::int)))) idx"
      using valid that by (simp add: list_all_iff)
    then have "\<exists>r. scatter_add (replicate n 0) idx src = Inr r" using that(2) len by (simp add: scatter_add_def)
    then obtain r where r: "scatter_add (replicate n 0) idx src = Inr r" by blast
    then show ?thesis using scatter_add_nth[OF r] sum_zip_filter[OF len that(2)] by auto
  qed
  let ?f = "\<lambda>(row :: int list, idx). scatter_add (replicate n 0) idx row"
  let ?R = "\<lambda>(src, idx) r. length r = n \<and> (\<forall>e < n. r ! e = (\<Sum>q | q < P \<and> idx ! q = int e. src ! q))"
  have step: "\<exists>rows. map_res ?f (zip st p2l) = Inr rows \<and> list_all2 ?R (zip st p2l) rows" if "rect L P st"
    for st :: "int list list"
  proof (rule map_res_total)
    fix si assume si: "si \<in> set (zip st p2l)"
    obtain src idx where p: "si = (src, idx)" by fastforce
    have "idx \<in> set p2l" "length src = P"
      using si rect_row_mem[OF that] unfolding p by (auto dest: set_zip_leftD set_zip_rightD)
    from row[OF this] show "\<exists>y. ?f si = Inr y \<and> ?R si y" unfolding p by simp
  qed
  let ?S = "\<lambda>st rows. rect L n rows \<and> (\<forall>l < L. \<forall>e < n. rows ! l ! e = (\<Sum>q | q < P \<and> p2l ! l ! q = int e. st ! l ! q))"
  have "\<exists>lc. map_res (\<lambda>st. map_res ?f (zip st p2l)) counts = Inr lc \<and> list_all2 ?S counts lc"
  proof (rule map_res_total)
    fix st assume "st \<in> set counts"
    then have st: "rect L P st" using counts by blast
    then obtain rows where rows: "map_res ?f (zip st p2l) = Inr rows" "list_all2 ?R (zip st p2l) rows"
      using step by blast
    have "length rows = L" "\<And>l. l < L \<Longrightarrow> ?R (st ! l, p2l ! l) (rows ! l)"
      using rows(2) rect_length[OF st] rect_length[OF p2l] by (auto simp: list_all2_conv_all_nth)
    then have "?S st rows" by (auto simp: rect_def list_all_length)
    then show "\<exists>y. map_res ?f (zip st p2l) = Inr y \<and> ?S st y" using rows(1) by blast
  qed
  then show ?thesis
    by (auto simp: convert_global_physical_count_to_logical_count_def list_all2_conv_all_nth)
qed

text \<open>
  Converting counts of physical experts to counts of logical experts: for a placement whose
  entries are logical experts it never fails, and in every step and layer the count of a logical
  expert is the sum of the counts of its replicas, so that no selection is lost or counted twice.
\<close>

theorem logical_count_correct:
  assumes counts: "\<forall>step \<in> set counts. rect L P step" and p2l: "rect L P p2l"
    and valid: "\<forall>row \<in> set p2l. \<forall>e \<in> set row. 0 \<le> e \<and> e < int n"
  shows "\<exists>lc. convert_global_physical_count_to_logical_count counts L n p2l = Inr lc \<and> length lc = length counts \<and>
    (\<forall>s < length counts. rect L n (lc ! s) \<and> (\<forall>l < L. \<forall>e < n.
       lc ! s ! l ! e = (\<Sum>q | q < P \<and> p2l ! l ! q = int e. counts ! s ! l ! q)))"
  using assms by (rule logical_count_exact)

theorem logical_count_correct_witness:
  "\<exists>lc. convert_global_physical_count_to_logical_count [[[4, 5, 6]]] 1 2 [[0, 1, 0]] = Inr lc \<and>
     lc ! 0 ! 0 ! 0 = (\<Sum>q | q < 3 \<and> [0, 1, 0 :: int] ! q = int 0. [4, 5, 6] ! q)"
proof -
  have "rect 1 3 [[4, 5, 6 :: int]]" "rect 1 3 [[0, 1, 0 :: int]]" by (simp_all add: rect_def)
  then show ?thesis using logical_count_correct[of "[[[4, 5, 6]]]" 1 3 "[[0, 1, 0]]" 2] by fastforce
qed

text \<open>
  The utilisation rate of a layer with loads that are not negative lies above 0 and is at most 1,
  and it is 1 exactly when all GPUs carry the same load.
\<close>

theorem utilization_rate_bounds:
  fixes r :: "'f::linordered_field"
  assumes "row \<noteq> []" "\<forall>x \<in> set row. 0 \<le> x" and r: "[r] = compute_utilization_rate [row]"
  shows "0 < r \<and> r \<le> 1 \<and> (r = 1 \<longleftrightarrow> (\<forall>x \<in> set row. x = Max (set row)))"
proof -
  let ?M = "Max (set row)" and ?n = "length row"
  have rr: "r = (of_int (sum_list row) / of_nat ?n + 1 / 100000) / (of_int ?M + 1 / 100000)"
    using r by (simp add: compute_utilization_rate_def utilization_rate_of_def)
  have n: "0 < (of_nat ?n :: 'f)" using assms(1) by simp
  have M: "\<forall>x \<in> set row. x \<le> ?M" "0 \<le> ?M" using assms(1,2) Max_ge Max_in by auto
  have diff: "int ?n * ?M - sum_list row = sum_list (map (\<lambda>x. ?M - x) row)"
    by (simp add: sum_list_subtractf sum_list_triv)
  have le: "sum_list row \<le> int ?n * ?M" 
  proof -
    have "0 \<le> sum_list (map (\<lambda>x. ?M - x) row)" using M(1) by (intro sum_list_nonneg) auto
    then show ?thesis using diff by linarith
  qed
  have eq: "sum_list row = int ?n * ?M \<longleftrightarrow> (\<forall>x \<in> set row. x = ?M)"
  proof -
    have "sum_list (map (\<lambda>x. ?M - x) row) = 0 \<longleftrightarrow> (\<forall>y \<in> set (map (\<lambda>x. ?M - x) row). y = 0)"
      using M(1) by (intro sum_list_nonneg_eq_0_iff) auto
    also have "\<dots> \<longleftrightarrow> (\<forall>x \<in> set row. x = ?M)" by auto
    finally show ?thesis using diff by linarith
  qed
  have nn: "0 \<le> sum_list row" using assms(2) by (auto intro: sum_list_nonneg)
  have d: "0 < (of_int ?M + 1 / 100000 :: 'f)" using M(2) by (simp add: add_nonneg_pos)
  have avg: "of_int (sum_list row) / of_nat ?n \<le> (of_int ?M :: 'f)"
  proof -
    have "(of_int (sum_list row) :: 'f) \<le> of_int (int ?n * ?M)" using le by (simp only: of_int_le_iff)
    then show ?thesis using n by (simp add: pos_divide_le_eq mult.commute)
  qed
  have "of_int (sum_list row) / of_nat ?n = (of_int ?M :: 'f) \<longleftrightarrow> sum_list row = int ?n * ?M"
  proof -
    have "sum_list row = int ?n * ?M \<longleftrightarrow> (of_int (sum_list row) :: 'f) = of_int (int ?n * ?M)"
      by (simp only: of_int_eq_iff)
    then show ?thesis using n by (simp add: divide_eq_eq mult.commute)
  qed
  moreover have "0 \<le> (of_int (sum_list row) / of_nat ?n :: 'f)" using nn n by simp
  ultimately show ?thesis
    unfolding rr using d avg eq by (auto simp: divide_eq_eq pos_divide_le_eq intro!: divide_pos_pos add_nonneg_pos)
qed

theorem utilization_rate_bounds_witness:
  "0 < (utilization_rate_of [3, 5] :: rat) \<and> utilization_rate_of [3, 5] \<le> (1 :: rat)"
  using utilization_rate_bounds[of "[3, 5]" "utilization_rate_of [3, 5] :: rat"]
  by (simp add: compute_utilization_rate_def)

section \<open>Every reachable state of the recorder\<close>

text \<open>
  \<open>recorded cx r0 r ps\<close>: from the fresh recorder \<open>r0\<close> the operations of the engine lead to \<open>r\<close>, and
  \<open>ps\<close> are the forward passes made while recording since the last reset.
\<close>

inductive recorded ::
  "('f::linordered_field) recorder_context \<Rightarrow> 'f recorder \<Rightarrow> 'f recorder
   \<Rightarrow> (int \<times> ForwardBatch \<times> (nat \<times> 'f hook) list) list \<Rightarrow> bool"
  for cx r0 where
  fresh: "recorded cx r0 r0 []"
| start: "recorded cx r0 r ps \<Longrightarrow> start_record cx r = Inr r' \<Longrightarrow> recorded cx r0 r' []"
| stop: "recorded cx r0 r ps \<Longrightarrow> recorded cx r0 (stop_record r) ps"
| dump: "recorded cx r0 r ps \<Longrightarrow> dump_record cx mode r = Inr (out, file, r') \<Longrightarrow> recorded cx r0 r' []"
| status: "recorded cx r0 r ps \<Longrightarrow> get_status cx mode r = (st, r') \<Longrightarrow> recorded cx r0 r' ps"
| pass: "recorded cx r0 r ps \<Longrightarrow> forward_pass cx p r = Inr r' \<Longrightarrow>
    recorded cx r0 r' (if rc_recording r then ps @ [p] else ps)"

fun hook_selections :: "'f hook \<Rightarrow> nat \<Rightarrow> int" where
  "hook_selections (OnSelectExperts ids rl tw) q = selections ids q"
| "hook_selections _ q = 0"

text \<open>How often pass \<open>p\<close> selects physical expert \<open>q\<close> in layer \<open>l\<close>.\<close>

definition pass_selections :: "int \<times> ForwardBatch \<times> (nat \<times> 'f hook) list \<Rightarrow> nat \<Rightarrow> nat \<Rightarrow> int" where
  "pass_selections p l q = sum_list (map (\<lambda>(l', h). if l' = l then hook_selections h q else 0) (snd (snd p)))"

definition pass_counts :: "nat \<Rightarrow> nat \<Rightarrow> int \<times> ForwardBatch \<times> (nat \<times> 'f hook) list \<Rightarrow> int list list" where
  "pass_counts L P p = map (\<lambda>l. map (pass_selections p l) [0..<P]) [0..<L]"

lemma layer_hook_select:
  assumes r: "rc_layer_idx r = None" "\<not> rc_disable_all r" "rc_gatherer r = SelectExpertsGatherer d" and d: "rect L P d"
    and step: "layer_hook cx (l, h) r = Inr r'"
  shows "\<exists>d'. r' = r\<lparr>rc_gatherer := SelectExpertsGatherer d'\<rparr> \<and> rect L P d' \<and>
    (rc_recording r \<longrightarrow> (\<forall>i < L. \<forall>q < P. d' ! i ! q = d ! i ! q + (if l = i then hook_selections h q else 0)))"
proof (cases "rc_recording r \<or> de_capturing (cx_env cx)")
  case False
  then show ?thesis using assms by (intro exI[of _ d]) (auto simp: layer_hook_def with_current_layer_def on_hook_def)
next
  case True
  then obtain g where g: "run_hook (cx_md cx) l h (SelectExpertsGatherer d) = Inr g" "r' = r\<lparr>rc_gatherer := g\<rparr>"
    using assms by (auto simp: layer_hook_def with_current_layer_def on_hook_def)
  show ?thesis
  proof (cases h)
    case (OnSelectExperts ids rl tw)
    with g obtain row where row: "l < length d" "select_experts_row ids (d ! l) = Inr row"
      "g = SelectExpertsGatherer (d[l := row])"
      by (auto split: if_splits)
    have "rect L P (d[l := row])"
      using d row(1) select_experts_row_nth(1)[OF row(2)] rect_row[OF d] rect_length[OF d]
      by (auto simp: rect_def list_all_length nth_list_update)
    then show ?thesis
      using g(2) row select_experts_row_nth(2)[OF row(2)] rect_row[OF d] rect_length[OF d] OnSelectExperts
      by (intro exI[of _ "d[l := row]"]) (auto simp: nth_list_update)
  qed (use g d in auto)
qed

lemma layer_hooks_select:
  assumes "rc_layer_idx r = None" "\<not> rc_disable_all r" "rc_gatherer r = SelectExpertsGatherer d" "rect L P d"
    and "fold_res (layer_hook cx) hs r = Inr r'"
  shows "\<exists>d'. r' = r\<lparr>rc_gatherer := SelectExpertsGatherer d'\<rparr> \<and> rect L P d' \<and>
    (rc_recording r \<longrightarrow> (\<forall>i < L. \<forall>q < P. d' ! i ! q = d ! i ! q +
       sum_list (map (\<lambda>(l, h). if l = i then hook_selections h q else 0) hs)))"
  using assms
proof (induction hs arbitrary: r d)
  case Nil
  then show ?case by (intro exI[of _ d]) auto
next
  case (Cons lh hs)
  obtain l h where lh: "lh = (l, h)" by fastforce
  from Cons.prems(5) obtain r1 where r1: "layer_hook cx (l, h) r = Inr r1" "fold_res (layer_hook cx) hs r1 = Inr r'"
    by (auto simp: lh)
  obtain d1 where d1: "r1 = r\<lparr>rc_gatherer := SelectExpertsGatherer d1\<rparr>" "rect L P d1"
    "rc_recording r \<longrightarrow> (\<forall>i < L. \<forall>q < P. d1 ! i ! q = d ! i ! q + (if l = i then hook_selections h q else 0))"
    using layer_hook_select[OF Cons.prems(1-4) r1(1)] by blast
  from Cons.IH[OF _ _ _ d1(2) r1(2)] Cons.prems(1,2) d1 show ?case by (auto simp: lh)
qed

text \<open>What holds between two operations of a recorder that counts selections.\<close>

definition stat_inv :: "nat \<Rightarrow> nat \<Rightarrow> int \<Rightarrow> 'f recorder \<Rightarrow> int list list list \<Rightarrow> bool" where
  "stat_inv L P bsize r vs \<longleftrightarrow>
     rc_layer_idx r = None \<and> rc_forward_pass_id r = None \<and> \<not> rc_disable_all r \<and>
     \<not> ut_enable (ac_utilization (rc_accumulator r)) \<and>
     (\<exists>d. rc_gatherer r = SelectExpertsGatherer d \<and> rect L P d) \<and>
     (\<exists>b fd. ac_data (rc_accumulator r) = StatData b fd \<and> buffer_holds (zeros L P) bsize b vs)"

lemma rect_map_map: "rect L P (map (map f) d) = rect L P d"
  by (simp add: rect_def list_all_iff)

lemma recorder_reset_inv:
  assumes "stat_inv L P bsize r vs" "recorder_reset cx r = Inr r'" and md: "num_layers (cx_md cx) = L" "num_physical_experts (cx_md cx) = P"
  shows "stat_inv L P bsize r' [] \<and> rc_recording r' = rc_recording r"
  using assms recording.reset_holds[of "zeros L P" bsize]
  by (auto simp: stat_inv_def recorder_reset_def accumulator_reset_def rect_map_map Let_def)

lemma accumulator_dump_keeps:
  assumes "accumulator_dump args env md mode ac = Inr (out, file, ac')"
  shows "ac_utilization ac' = ac_utilization ac \<and>
    (\<forall>b fd. ac_data ac = StatData b fd \<longrightarrow> (\<exists>fd'. ac_data ac' = StatData b fd'))"
  using assms by (auto simp: accumulator_dump_def Let_def split: accumulator_data.splits if_splits)

lemma stat_inv_dumped:
  assumes "stat_inv L P bsize r vs" "accumulator_dump args env md mode (rc_accumulator r) = Inr (out, fl, ac)"
  shows "stat_inv L P bsize (r\<lparr>rc_accumulator := ac\<rparr>) vs"
  using assms accumulator_dump_keeps[OF assms(2)] by (auto simp: stat_inv_def)

lemma get_status_inv:
  assumes "stat_inv L P bsize r vs" "get_status cx mode r = (st, r')"
  shows "stat_inv L P bsize r' vs"
  using assms stat_inv_dumped[OF assms(1)]
  by (auto simp: get_status_def split: if_splits sum.splits prod.splits)

lemma forward_pass_inv:
  assumes inv: "stat_inv L P bsize r vs" and step: "forward_pass cx p r = Inr r'"
    and md: "num_layers (cx_md cx) = L" "num_physical_experts (cx_md cx) = P"
  shows "stat_inv L P bsize r' (if rc_recording r then keep (buffer_capacity bsize) (vs @ [pass_counts L P p]) else vs)"
proof -
  let ?r1 = "r\<lparr>rc_forward_pass_id := Some (fst p)\<rparr>"
  obtain d b fd where i: "rc_layer_idx r = None" "rc_forward_pass_id r = None" "\<not> rc_disable_all r"
    "\<not> ut_enable (ac_utilization (rc_accumulator r))" "rc_gatherer r = SelectExpertsGatherer d" "rect L P d"
    "ac_data (rc_accumulator r) = StatData b fd" "buffer_holds (zeros L P) bsize b vs"
    using inv by (auto simp: stat_inv_def)
  from step obtain r1 r2 r3 where s: "on_forward_pass_start (fst (snd p)) ?r1 = Inr r1"
    "fold_res (layer_hook cx) (snd (snd p)) r1 = Inr r2" "on_forward_pass_end cx (fst p) r2 = Inr r3"
    "r' = r3\<lparr>rc_forward_pass_id := None\<rparr>"
    by (auto simp: forward_pass_def with_forward_pass_def)
  show ?thesis
  proof (cases "rc_recording r")
    case False
    have r1: "r1 = ?r1" using s(1) False by (simp add: on_forward_pass_start_def)
    then obtain d2 where "r2 = ?r1\<lparr>rc_gatherer := SelectExpertsGatherer d2\<rparr>" "rect L P d2"
      using layer_hooks_select[of r1 d L P cx "snd (snd p)" r2] i s(2) by auto
    moreover have "r3 = r2" using s(3) False calculation(1) by (simp add: on_forward_pass_end_def)
    ultimately show ?thesis using False s(4) i by (simp add: stat_inv_def)
  next
    case True
    have r1: "r1 = ?r1\<lparr>rc_gatherer := SelectExpertsGatherer (map (map (\<lambda>_. 0)) d)\<rparr>"
      using s(1) True i(5) by (simp add: on_forward_pass_start_def)
    then obtain d2 where r2: "r2 = r1\<lparr>rc_gatherer := SelectExpertsGatherer d2\<rparr>" and d2: "rect L P d2"
      "\<forall>j < L. \<forall>q < P. d2 ! j ! q = map (map (\<lambda>_. 0)) d ! j ! q +
         sum_list (map (\<lambda>(l, h). if l = j then hook_selections h q else 0) (snd (snd p)))"
      using layer_hooks_select[of r1 "map (map (\<lambda>_. 0)) d" L P cx "snd (snd p)" r2] i True s(2)
      by (auto simp: rect_map_map)
    have "d2 = pass_counts L P p"
      using d2 rect_length[OF d2(1)] rect_row[OF d2(1)] rect_length[OF i(6)] rect_row[OF i(6)]
      by (intro nth_equalityI) (auto simp: pass_counts_def pass_selections_def)
    moreover obtain b' where "buffer_append (zeros L P) (pass_counts L P p) b = Inr b'"
      "buffer_holds (zeros L P) bsize b' (keep (buffer_capacity bsize) (vs @ [pass_counts L P p]))"
      using recording.append_holds[OF i(8)] by blast
    ultimately show ?thesis
      using s(3,4) True i r1 r2 d2(1) md
      by (auto simp: on_forward_pass_end_def accumulator_append_def stat_inv_def)
  qed
qed

lemma forward_pass_recording:
  assumes "forward_pass cx p r = Inr r'"
  shows "rc_recording r' = rc_recording r"
proof -
  have hook: "rc_recording r' = rc_recording r" if "layer_hook cx lh r = Inr r'" for lh r r'
    using that by (auto simp: layer_hook_def with_current_layer_def on_hook_def split: if_splits)
  have "rc_recording r' = rc_recording r" if "fold_res (layer_hook cx) hs r = Inr r'" for hs r r'
    using that by (induction hs arbitrary: r) (auto dest!: hook)
  with assms show ?thesis
    by (fastforce simp: forward_pass_def with_forward_pass_def on_forward_pass_start_def on_forward_pass_end_def split: if_splits)
qed

lemma recorded_inv:
  assumes "recorded cx r0 r ps" and md: "num_layers (cx_md cx) = L" "num_physical_experts (cx_md cx) = P"
    and r0: "stat_inv L P bsize r0 []"
  shows "stat_inv L P bsize r (keep (buffer_capacity bsize) (map (pass_counts L P) ps))"
  using assms(1)
proof (induction rule: recorded.induct)
  case fresh
  then show ?case using r0 by (simp add: keep_def split: option.splits)
next
  case (start r ps r')
  obtain r1 where "recorder_reset cx r = Inr r1" "r' = r1\<lparr>rc_recording := True\<rparr>"
    using start.hyps(2) by (auto simp: start_record_def)
  with recorder_reset_inv[OF start.IH _ md] show ?case by (auto simp: stat_inv_def keep_def split: option.splits)
next
  case (stop r ps)
  then show ?case by (simp add: stop_record_def stat_inv_def)
next
  case (dump r ps mode out fl r')
  then obtain ac where "accumulator_dump (cx_args cx) (cx_env cx) (cx_md cx) mode (rc_accumulator r) = Inr (out, fl, ac)"
    "recorder_reset cx (r\<lparr>rc_accumulator := ac\<rparr>) = Inr r'"
    by (auto simp: dump_record_def)
  with recorder_reset_inv[OF stat_inv_dumped[OF dump.IH] _ md] show ?case by (auto simp: keep_def split: option.splits)
next
  case (status r ps mode st r')
  then show ?case using get_status_inv by blast
next
  case (pass r ps p r')
  from forward_pass_inv[OF pass.IH pass.hyps(2) md] show ?case
    by (cases "rc_recording r") (simp_all add: keep_keep)
qed

text \<open>A placement the counts can be converted with.\<close>

definition countable_md :: "ExpertLocationMetadata \<Rightarrow> bool" where
  "countable_md md \<longleftrightarrow> rect (num_layers md) (num_physical_experts md) (physical_to_logical_map md) \<and>
     list_all (list_all (\<lambda>e. 0 \<le> e \<and> e < int (num_logical_experts md))) (physical_to_logical_map md)"

definition fresh_stat_recorder :: "('f::zero) recorder_context \<Rightarrow> 'f recorder" where
  "fresh_stat_recorder cx =
     (let zero = zeros (num_layers (cx_md cx)) (num_physical_experts (cx_md cx)) in
      \<lparr>rc_recording = False, rc_disable_all = False, rc_forward_pass_id = None, rc_layer_idx = None,
       rc_gatherer = SelectExpertsGatherer zero,
       rc_accumulator = \<lparr>ac_utilization = \<lparr>ut_enable = False, ut_history = deque_collection window_sizes,
           ut_collection_counter = 0, ut_metrics = replicate (num_layers (cx_md cx))
             \<lparr>lm_sum = 0, lm_buckets = replicate (nat (de_world_size (cx_env cx)) + 1) 0\<rparr>\<rparr>,
         ac_data = StatData (buffer_init_new zero (expert_distribution_recorder_buffer_size (cx_args cx))) True\<rparr>\<rparr>)"

lemma fresh_stat_recorder_init:
  assumes "expert_distribution_recorder_mode args = Some ''stat''" "moe_a2a_backend args = ''none''"
    "\<not> enable_expert_distribution_metrics args"
  shows "recorder_init_new args (Some md) env =
     Inr (Some (\<lparr>cx_args = args, cx_md = md, cx_env = env\<rparr>,
       fresh_stat_recorder \<lparr>cx_args = args, cx_md = md, cx_env = env\<rparr>))"
  using assms by (simp add: recorder_init_new_def accumulator_init_def gatherer_init_new_def fresh_stat_recorder_def Let_def)

lemma rect_zeros: "rect n m (zeros n m)"
  by (simp add: rect_def zeros_def list_all_iff)

lemma rect_pass_counts: "rect L P (pass_counts L P p)"
  by (simp add: rect_def pass_counts_def list_all_iff)

lemma fresh_stat_inv:
  assumes "expert_distribution_recorder_buffer_size (cx_args cx) \<noteq> 0"
  shows "stat_inv (num_layers (cx_md cx)) (num_physical_experts (cx_md cx))
     (expert_distribution_recorder_buffer_size (cx_args cx)) (fresh_stat_recorder cx) []"
  by (auto simp: stat_inv_def fresh_stat_recorder_def Let_def rect_zeros intro: buffer_init_holds[OF assms])

lemma sum_keep_mset:
  assumes "mset xs = mset ys + replicate_mset k z" "x \<in> set xs"
  shows "x \<in> set ys \<or> x = z"
  using assms by (metis in_replicate_mset set_mset_mset union_iff)

lemma sum_list_nth_upto: "sum_list (map f xs) = (\<Sum>s < length xs. f (xs ! s) :: int)"
  by (simp add: sum_list_sum_nth atLeast0LessThan)

lemma dump_counts:
  assumes inv: "stat_inv L P bsize r vs" and md: "countable_md md" "num_layers md = L" "num_physical_experts md = P"
    and vs: "\<forall>v \<in> set vs. rect L P v"
  shows "\<exists>b fd lc. ac_data (rc_accumulator r) = StatData b fd \<and>
     convert_global_physical_count_to_logical_count (buffer_get_all b) L (num_logical_experts md) (physical_to_logical_map md) = Inr lc \<and>
     (\<forall>step \<in> set lc. rect L (num_logical_experts md) step) \<and>
     (\<forall>l < L. \<forall>e < num_logical_experts md. (\<Sum>s < length lc. lc ! s ! l ! e) =
        sum_list (map (\<lambda>v. \<Sum>q | q < P \<and> physical_to_logical_map md ! l ! q = int e. v ! l ! q) vs))"
proof -
  obtain b fd where b: "ac_data (rc_accumulator r) = StatData b fd" "buffer_holds (zeros L P) bsize b vs"
    using inv by (auto simp: stat_inv_def)
  obtain k where k: "mset (buffer_get_all b) = mset vs + replicate_mset k (zeros L P)"
    using recording.get_all_holds[OF b(2)] by blast
  have all: "\<forall>step \<in> set (buffer_get_all b). rect L P step"
    using sum_keep_mset[OF k] vs rect_zeros by blast
  have valid: "\<forall>row \<in> set (physical_to_logical_map md). \<forall>e \<in> set row. 0 \<le> e \<and> e < int (num_logical_experts md)"
    "rect L P (physical_to_logical_map md)"
    using md by (auto simp: countable_md_def list_all_iff)
  obtain lc where lc: "convert_global_physical_count_to_logical_count (buffer_get_all b) L (num_logical_experts md) (physical_to_logical_map md) = Inr lc"
    "length lc = length (buffer_get_all b)" "\<forall>s < length lc. rect L (num_logical_experts md) (lc ! s)"
    "\<And>s l e. s < length lc \<Longrightarrow> l < L \<Longrightarrow> e < num_logical_experts md \<Longrightarrow> lc ! s ! l ! e =
        (\<Sum>q | q < P \<and> physical_to_logical_map md ! l ! q = int e. buffer_get_all b ! s ! l ! q)"
    using logical_count_exact[OF all valid(2,1)] by auto
  have shape: "\<forall>step \<in> set lc. rect L (num_logical_experts md) step" using lc(3) by (auto simp: in_set_conv_nth)
  have "(\<Sum>s < length lc. lc ! s ! l ! e) =
      sum_list (map (\<lambda>v. \<Sum>q | q < P \<and> physical_to_logical_map md ! l ! q = int e. v ! l ! q) vs)"
    if "l < L" "e < num_logical_experts md" for l e
  proof -
    let ?f = "\<lambda>v. \<Sum>q | q < P \<and> physical_to_logical_map md ! l ! q = int e. v ! l ! q"
    have "(\<Sum>s < length lc. lc ! s ! l ! e) = sum_list (map ?f (buffer_get_all b))"
      using lc(2,4) that by (simp add: sum_list_nth_upto)
    also have "\<dots> = sum_list (map ?f vs)"
      using that by (intro recording.total_of_all[OF b(2)]) (simp add: zeros_def)
    finally show ?thesis .
  qed
  then show ?thesis using b(1) lc(1) shape by blast
qed

text \<open>A dump of a counting recorder: what it returns and what it leaves behind.\<close>

lemma dump_stat:
  assumes inv: "stat_inv (num_layers (cx_md cx)) (num_physical_experts (cx_md cx)) bsize r vs" and md: "countable_md (cx_md cx)"
    and vs: "\<forall>v \<in> set vs. rect (num_layers (cx_md cx)) (num_physical_experts (cx_md cx)) v"
  shows "\<exists>lc r'. dump_record cx ''object'' r = Inr (Some (StatOutput (de_rank (cx_env cx)) (de_all_reduce (cx_env cx) lc) None), None, r') \<and>
     rc_recording r' = rc_recording r \<and> stat_inv (num_layers (cx_md cx)) (num_physical_experts (cx_md cx)) bsize r' [] \<and>
     (\<forall>step \<in> set lc. rect (num_layers (cx_md cx)) (num_logical_experts (cx_md cx)) step) \<and>
     (\<forall>l < num_layers (cx_md cx). \<forall>e < num_logical_experts (cx_md cx). (\<Sum>s < length lc. lc ! s ! l ! e) =
        sum_list (map (\<lambda>v. \<Sum>q | q < num_physical_experts (cx_md cx) \<and> physical_to_logical_map (cx_md cx) ! l ! q = int e. v ! l ! q) vs))"
proof -
  obtain b fd lc where lc: "ac_data (rc_accumulator r) = StatData b fd"
    "convert_global_physical_count_to_logical_count (buffer_get_all b) (num_layers (cx_md cx)) (num_logical_experts (cx_md cx))
       (physical_to_logical_map (cx_md cx)) = Inr lc"
    and counts: "\<forall>step \<in> set lc. rect (num_layers (cx_md cx)) (num_logical_experts (cx_md cx)) step"
    "\<forall>l < num_layers (cx_md cx). \<forall>e < num_logical_experts (cx_md cx). (\<Sum>s < length lc. lc ! s ! l ! e) =
      sum_list (map (\<lambda>v. \<Sum>q | q < num_physical_experts (cx_md cx) \<and> physical_to_logical_map (cx_md cx) ! l ! q = int e. v ! l ! q) vs)"
    using dump_counts[OF inv md refl refl vs] by blast
  let ?ac = "(rc_accumulator r)\<lparr>ac_data := StatData b False\<rparr>"
  have en: "\<not> ut_enable (ac_utilization (rc_accumulator r))" "rc_layer_idx r = None" using inv by (auto simp: stat_inv_def)
  have dump: "accumulator_dump (cx_args cx) (cx_env cx) (cx_md cx) ''object'' (rc_accumulator r) =
      Inr (Some (StatOutput (de_rank (cx_env cx)) (de_all_reduce (cx_env cx) lc) None), None, ?ac)"
    using lc en by (simp add: accumulator_dump_def get_global_average_utilization_rate_def Let_def)
  obtain r' where r': "recorder_reset cx (r\<lparr>rc_accumulator := ?ac\<rparr>) = Inr r'"
    using en(2) by (simp add: recorder_reset_def)
  with recorder_reset_inv[OF stat_inv_dumped[OF inv dump] r' refl refl] counts dump show ?thesis
    by (auto simp: dump_record_def)
qed

text \<open>
  (C2) What a dump of a counting recorder contains, after any sequence of starts, stops, dumps, status
  queries and forward passes: it succeeds, and for every layer and logical expert the dumped counts
  of this process add up to the number of times the passes recorded since the last reset selected
  one of the expert's replicas, counting all passes for a negative buffer size and the most recent
  ones that fit for a positive size. The dump empties the recorder and keeps its recording flag.
\<close>

theorem stat_recording_correct:
  assumes "recorded cx (fresh_stat_recorder cx) r ps" and md: "countable_md (cx_md cx)"
    and "expert_distribution_recorder_buffer_size (cx_args cx) = bsize" "bsize \<noteq> 0"
  shows "\<exists>lc r'. dump_record cx ''object'' r = Inr (Some (StatOutput (de_rank (cx_env cx)) (de_all_reduce (cx_env cx) lc) None), None, r') \<and>
     rc_recording r' = rc_recording r \<and> recorded cx (fresh_stat_recorder cx) r' [] \<and>
     (\<forall>l < num_layers (cx_md cx). \<forall>e < num_logical_experts (cx_md cx). (\<Sum>s < length lc. lc ! s ! l ! e) =
        sum_list (map (\<lambda>p. \<Sum>q | q < num_physical_experts (cx_md cx) \<and> physical_to_logical_map (cx_md cx) ! l ! q = int e.
            pass_selections p l q) (if bsize < 0 then ps else drop (length ps - nat bsize) ps)))"
proof -
  let ?L = "num_layers (cx_md cx)" and ?P = "num_physical_experts (cx_md cx)" and ?md = "cx_md cx"
  let ?recent = "keep (buffer_capacity bsize) ps"
  have recent: "?recent = (if bsize < 0 then ps else drop (length ps - nat bsize) ps)"
    "keep (buffer_capacity bsize) (map (pass_counts ?L ?P) ps) = map (pass_counts ?L ?P) ?recent"
    by (auto simp: keep_def buffer_capacity_def drop_map)
  have inv: "stat_inv ?L ?P bsize r (map (pass_counts ?L ?P) ?recent)"
    using recorded_inv[OF assms(1) refl refl] fresh_stat_inv[of cx] assms(3,4) recent(2) by metis
  have all: "\<forall>v \<in> set (map (pass_counts ?L ?P) ?recent). rect ?L ?P v" using rect_pass_counts by auto
  obtain lc r' where run: "dump_record cx ''object'' r =
      Inr (Some (StatOutput (de_rank (cx_env cx)) (de_all_reduce (cx_env cx) lc) None), None, r')" "rc_recording r' = rc_recording r"
    and lc: "\<forall>l < ?L. \<forall>e < num_logical_experts ?md. (\<Sum>s < length lc. lc ! s ! l ! e) =
      sum_list (map (\<lambda>v. \<Sum>q | q < ?P \<and> physical_to_logical_map ?md ! l ! q = int e. v ! l ! q) (map (pass_counts ?L ?P) ?recent))"
    using dump_stat[OF inv md all] by blast
  have "(\<Sum>s < length lc. lc ! s ! l ! e) = sum_list (map (\<lambda>p. \<Sum>q | q < ?P \<and> physical_to_logical_map ?md ! l ! q = int e.
      pass_selections p l q) ?recent)" if "l < ?L" "e < num_logical_experts ?md" for l e
    using lc that by (simp add: comp_def pass_counts_def)
  then show ?thesis using run recorded.dump[OF assms(1) run(1)] unfolding recent(1) by blast
qed

definition example_md :: ExpertLocationMetadata where
  "example_md = \<lparr>physical_to_logical_map = [[0, 1, 0]], physical_to_logical_map_cpu = [[0, 1, 0]],
     logical_to_all_physical_map = [[[0, 2, -1], [1, -1, -1]]], logical_to_all_physical_map_cpu = [[[0, 2, -1], [1, -1, -1]]],
     logical_to_all_physical_map_num_valid = [[2, 1]], logical_to_rank_dispatch_physical_map = None\<rparr>"

definition example_cx :: "rat recorder_context" where
  "example_cx = \<lparr>cx_args = example_args, cx_md = example_md,
     cx_env = \<lparr>de_rank = 0, de_world_size = 1, de_capturing = False, de_heatmap_interval = 0,
       de_reduce = (\<lambda>x. x), de_all_reduce = (\<lambda>x. x), de_broadcast = (\<lambda>x. x)\<rparr>\<rparr>"

definition example_pass :: "int \<times> ForwardBatch \<times> (nat \<times> rat hook) list" where
  "example_pass = (1, \<lparr>fb_input_ids = [11, 12], fb_positions = [0, 1], fb_extend_seq_lens = None, fb_forward_mode = 1\<rparr>,
     [(0, OnSelectExperts [[0, 1], [2, -1]] None None)])"

theorem stat_recording_correct_witness:
  "\<exists>r r' lc r2. start_record example_cx (fresh_stat_recorder example_cx) = Inr r \<and> forward_pass example_cx example_pass r = Inr r' \<and>
     dump_record example_cx ''object'' r' = Inr (Some (StatOutput 0 lc None), None, r2) \<and>
     (\<Sum>s < length lc. lc ! s ! 0 ! 0) = 2"
proof -
  obtain r where r: "start_record example_cx (fresh_stat_recorder example_cx) = Inr r" "rc_recording r"
    by (simp add: start_record_def recorder_reset_def fresh_stat_recorder_def Let_def)
  have "isl (bind_res (start_record example_cx (fresh_stat_recorder example_cx)) (forward_pass example_cx example_pass)) = False"
    by code_simp
  then obtain r' where r': "forward_pass example_cx example_pass r = Inr r'"
    using r(1) by (cases "forward_pass example_cx example_pass r") auto
  have rec: "recorded example_cx (fresh_stat_recorder example_cx) r' [example_pass]"
    using recorded.pass[OF recorded.start[OF recorded.fresh r(1)] r'] r(2) by simp
  have ok: "countable_md (cx_md example_cx)" "expert_distribution_recorder_buffer_size (cx_args example_cx) = 4"
    "num_layers (cx_md example_cx) = 1" "num_logical_experts (cx_md example_cx) = 2" "num_physical_experts (cx_md example_cx) = 3"
    "de_rank (cx_env example_cx) = 0" "physical_to_logical_map (cx_md example_cx) ! 0 = [0, 1, 0]"
    by code_simp+
  have sel: "pass_selections example_pass 0 0 = 1" "pass_selections example_pass 0 2 = 1" by code_simp+
  have qs: "{q. q < 3 \<and> [0, 1, 0 :: int] ! q = 0} = {0, 2}" by (auto simp: less_Suc_eq numeral_3_eq_3)
  have ar: "de_all_reduce (cx_env example_cx) lc = lc" for lc by (simp add: example_cx_def)
  show ?thesis
    using stat_recording_correct[OF rec ok(1,2)] r(1) r' unfolding ok ar
    by (auto simp: qs sel ok(7) intro!: exI[of _ r] exI[of _ r'] dest!: spec[of _ "0::nat"])
qed

section \<open>Recording every token\<close>

lemma scatter_ones:
  assumes "list_all (\<lambda>i. 0 \<le> i \<and> i < int n) idx"
  shows "\<exists>row. scatter_add (replicate n 0) idx (replicate (length idx) 1) = Inr row \<and> length row = n \<and>
     (\<forall>q < n. row ! q = int (count_list idx (int q)))"
proof -
  have "\<exists>row. scatter_add (replicate n 0) idx (replicate (length idx) (1::int)) = Inr row"
    using assms by (simp add: scatter_add_def)
  then obtain row where row: "scatter_add (replicate n 0) idx (replicate (length idx) (1::int)) = Inr row" by blast
  have "sum_list (map snd (filter (\<lambda>u. fst u = k) (zip xs (replicate (length xs) (1::int))))) = int (count_list xs k)"
    for xs :: "int list" and k by (induction xs) auto
  then show ?thesis using row scatter_add_nth[OF row] by auto
qed

lemma count_layer_tokens_eq:
  assumes "concat (take num_tokens ids) \<noteq> []"
  shows "\<exists>row. count_layer_tokens num_tokens P ids = Inr row \<and> length row = P \<and>
     (\<forall>q < P. row ! q = int (count_list (concat (take num_tokens ids)) (int q)))"
proof -
  let ?flat = "concat (take num_tokens ids)"
  let ?valid = "filter (\<lambda>i. i \<noteq> -1 \<and> 0 \<le> i \<and> i < int P) ?flat"
  have "count_list ?valid (int q) = count_list ?flat (int q)" if "q < P" for q
    using that by (induction ?flat) (auto simp: count_list_eq_length_filter intro!: arg_cong[where f = length] filter_cong)
  moreover obtain row where "scatter_add (replicate P 0) ?valid (replicate (length ?valid) 1) = Inr row" "length row = P"
    "\<forall>q < P. row ! q = int (count_list ?valid (int q))"
    using scatter_ones[of P ?valid] by (auto simp: list_all_iff)
  ultimately show ?thesis using assms by (simp add: count_layer_tokens_def Let_def)
qed

text \<open>
  The per-token mode: when a pass has tokens, the counts of its physical experts are computed
  without error, and each is the number of times the recorded ids of the pass's tokens name that
  expert; ids outside the range of experts are not counted. Without tokens the conversion fails.
\<close>

theorem per_token_count_correct:
  assumes "length ids_of_layer = layers" "\<forall>ids \<in> set ids_of_layer. num_tokens \<le> length ids \<and> (\<forall>row \<in> set ids. row \<noteq> [])"
  shows "(0 < num_tokens \<longrightarrow> (\<exists>counts. convert_per_token_to_global_physical_count num_tokens layers P ids_of_layer = Inr counts \<and>
      rect layers P counts \<and> (\<forall>l < layers. \<forall>q < P.
        counts ! l ! q = int (count_list (concat (take num_tokens (ids_of_layer ! l))) (int q))))) \<and>
    (num_tokens = 0 \<and> 0 < layers \<longrightarrow>
      convert_per_token_to_global_physical_count num_tokens layers P ids_of_layer = Inl RuntimeError)"
proof (intro conjI impI)
  let ?f = "\<lambda>layer. if layer < length ids_of_layer
                then count_layer_tokens num_tokens P (ids_of_layer ! layer) else Inl IndexError"
  let ?R = "\<lambda>l row. length row = P \<and> (\<forall>q < P. row ! q = int (count_list (concat (take num_tokens (ids_of_layer ! l))) (int q)))"
  assume n: "0 < num_tokens"
  have "\<exists>counts. map_res ?f [0..<layers] = Inr counts \<and> list_all2 ?R [0..<layers] counts"
  proof (rule map_res_total)
    fix l assume "l \<in> set [0..<layers]"
    then have l: "l < layers" "ids_of_layer ! l \<in> set ids_of_layer" using assms(1) by auto
    then have ne: "ids_of_layer ! l \<noteq> []" using assms(2) n by auto
    then have "hd (ids_of_layer ! l) \<noteq> []" using assms(2) l(2) hd_in_set by blast
    then have "concat (take num_tokens (ids_of_layer ! l)) \<noteq> []"
      using n ne by (cases "ids_of_layer ! l"; cases num_tokens) auto
    from count_layer_tokens_eq[OF this] l(1) assms(1) show "\<exists>y. ?f l = Inr y \<and> ?R l y" by simp
  qed
  then show "\<exists>counts. convert_per_token_to_global_physical_count num_tokens layers P ids_of_layer = Inr counts \<and>
      rect layers P counts \<and> (\<forall>l < layers. \<forall>q < P.
        counts ! l ! q = int (count_list (concat (take num_tokens (ids_of_layer ! l))) (int q)))"
    by (auto simp: convert_per_token_to_global_physical_count_def rect_def list_all_length list_all2_upt)
next
  assume "num_tokens = 0 \<and> 0 < layers"
  moreover from this have "[0..<layers] = 0 # [1..<layers]" by (simp add: upt_conv_Cons)
  ultimately show "convert_per_token_to_global_physical_count num_tokens layers P ids_of_layer = Inl RuntimeError"
    using assms(1) by (auto simp: convert_per_token_to_global_physical_count_def count_layer_tokens_def)
qed

theorem per_token_count_correct_witness:
  "\<exists>counts. convert_per_token_to_global_physical_count 2 1 3 [[[2, 0], [2, 7], [1, 1]]] = Inr counts \<and> counts ! 0 ! 2 = 2"
  using per_token_count_correct[of "[[[2, 0], [2, 7], [1, 1]]]" 1 2 3] by auto

text \<open>
  Widening the tensors for a larger top-k fills the new columns with zeros. A layer of the same pass
  that selects no experts was reset to \<open>-1\<close>, so its new columns count as selections of expert 0.
\<close>

theorem resize_counts_expert_zero:
  assumes "t ! l = replicate batch (replicate k (-1))" "l < length t" "k < top_k" "0 < P" "0 < n" "n \<le> batch"
  shows "\<exists>row. count_layer_tokens n P (widen top_k t ! l) = Inr row \<and> row ! 0 = int (n * (top_k - k))"
proof -
  have w: "take n (widen top_k t ! l) = replicate n (replicate k (-1) @ replicate (top_k - k) 0)"
    using assms by (simp add: widen_def)
  have c: "count_list (concat (replicate m (replicate k (-1 :: int) @ replicate (top_k - k) 0))) 0 = m * (top_k - k)" for m
    by (induction m) (auto simp: count_list_eq_length_filter)
  have "concat (take n (widen top_k t ! l)) \<noteq> []" unfolding w using assms by (cases n) auto
  from count_layer_tokens_eq[OF this, of P] show ?thesis using assms c[of n] unfolding w by auto
qed

text \<open>
  The list of misc objects is shared between the gatherer and the recorded passes. A dump resets the
  gatherer after taking the records, so the dumped records refer to an empty list.
\<close>

theorem dump_clears_misc_objects:
  assumes "dump_record cx mode r = Inr (out, fl, r')"
  shows "record_misc_objects r' = []"
  using assms by (cases "rc_gatherer r") (auto simp: dump_record_def recorder_reset_def record_misc_objects_def)

end
