(* ===== verification/Eplb_Manager.thy ===== *)
theory Eplb_Manager
  imports Update_Exchange Eplb_Location Recorder
begin

text \<open>
  The rebalancing loop (\<^verbatim>\<open>sglang/srt/eplb/eplb_manager.py\<close>) and the forward passes that drive it
  (\<^verbatim>\<open>ModelRunner.forward\<close> and \<^verbatim>\<open>update_expert_location\<close> of \<^verbatim>\<open>model_runner.py\<close>): the recorder counts the
  selections of every pass; after a fixed number of passes the manager dumps the counts, computes a
  new placement and moves the weights, some layers at a time.

  The main generator of the manager is a value that says at which \<^verbatim>\<open>yield\<close> it is suspended. The
  recorder and the manager share one metadata object with the updater, which changes it in place, so
  the recorder reads the placement that is in force when it is called. All ranks run the same passes
  and compute the same placement from the reduced counts; the state has the weights of all of them.
  Without elastic expert parallelism \<^verbatim>\<open>update_expert_location\<close> calls the updater; the branch that
  reloads the weights from disk is not modelled.
\<close>

section \<open>State\<close>

text \<open>
  Suspended before the first step, in the counting loop at its \<open>k\<close>-th yield, or in the loop over the
  chunks, with the new placement and the chunks that are still to be updated.
\<close>

datatype generator = Start | InLoop nat | InChunk "ExpertLocationMetadata option" "int list list"

text \<open>No recorder stands for the no-op recorder.\<close>

record ('f, 'w) engine =
  en_forward_pass_id :: int
  en_recorder :: "'f recorder option"
  en_updater :: "'w updater_state"
  en_eplb_manager :: "generator option"

record ('f, 'r, 'w) engine_context =
  ec_args :: "'f server_args"
  ec_model_config :: "ModelConfigForExpertLocation option"
  ec_torch :: "'f torch_ops"
  ec_active_ranks :: "bool list"
  ec_rng :: "'r rng"
  ec_rng_state :: 'r
  ec_dist_rank :: int
  ec_env :: "'f dist_env"
  ec_world_size :: nat
  ec_canary :: bool
  ec_exchange :: "'w exchange"
  ec_exchange_canary :: "'w cell exchange"
  ec_empty_like :: "'w list \<Rightarrow> 'w list"
  ec_empty_like_canary :: "'w cell list \<Rightarrow> 'w cell list"

type_synonym 'f engine_pass = "ForwardBatch \<times> (nat \<times> 'f hook) list"

text \<open>The recorder's context now: the arguments and the shared metadata object.\<close>

definition recorder_context_of :: "('f, 'r, 'w) engine_context \<Rightarrow> ExpertLocationMetadata \<Rightarrow> 'f recorder_context" where
  "recorder_context_of ctx md = \<lparr>cx_args = ec_args ctx, cx_md = md, cx_env = ec_env ctx\<rparr>"

text \<open>
  A call of the global recorder: the no-op recorder raises; a recorder exists only when there is metadata.
\<close>

definition with_recorder ::
  "('f, 'r, 'w) engine_context \<Rightarrow> ('f, 'w) engine \<Rightarrow> ('f recorder_context \<Rightarrow> 'f recorder \<Rightarrow> 'a result) \<Rightarrow> 'a result" where
  "with_recorder ctx st call =
     (case en_recorder st of None \<Rightarrow> Inl PlainException
      | Some r \<Rightarrow>
          (case global_expert_location_metadata (en_updater st) of None \<Rightarrow> Inl AssertionError
           | Some md \<Rightarrow> call (recorder_context_of ctx md) r))"

section \<open>Construction\<close>

definition manager_init ::
  "('f::linordered_field, 'r, 'w) engine_context \<Rightarrow> ('f, 'w) engine \<Rightarrow> ('f, 'w) engine result" where
  "manager_init ctx st =
     py_assert (expert_distribution_recorder_buffer_size (ec_args ctx) \<le> eplb_rebalance_num_iterations (ec_args ctx))
       (bind_res
          (if (case en_recorder st of None \<Rightarrow> False | Some r \<Rightarrow> rc_recording r) then Inr st
           else with_recorder ctx st (\<lambda>cx r. bind_res (start_record cx r) (\<lambda>r'. Inr (st\<lparr>en_recorder := Some r'\<rparr>))))
          (\<lambda>st'. Inr (st'\<lparr>en_eplb_manager := Some Start\<rparr>)))"

section \<open>Rebalancing\<close>

definition check_rebalance_needed :: "('f::linordered_field) server_args \<Rightarrow> 'f option \<Rightarrow> bool" where
  "check_rebalance_needed args average_utilization_rate_over_window =
     (case average_utilization_rate_over_window of
        None \<Rightarrow> True
      | Some rate \<Rightarrow> \<not> rate > eplb_min_rebalancing_utilization_threshold args)"

text \<open>The slices from every multiple of the chunk size on; \<^verbatim>\<open>range\<close> with a negative step is empty.\<close>

definition chunk_list :: "'a list \<Rightarrow> int \<Rightarrow> 'a list list" where
  "chunk_list items chunk_size =
     (if chunk_size \<le> 0 then []
      else map (\<lambda>start_index. take (nat chunk_size) (drop start_index items))
             (filter (\<lambda>i. i mod nat chunk_size = 0) [0..<length items]))"

definition compute_update_layer_ids_chunks ::
  "'f server_args \<Rightarrow> 'w layer_weights_of_ranks \<Rightarrow> int list list" where
  "compute_update_layer_ids_chunks args weights =
     chunk_list (sort (map fst weights))
       (case eplb_rebalance_layers_per_chunk args of
          None \<Rightarrow> 1000000 | Some k \<Rightarrow> if k = 0 then 1000000 else k)"

definition update_expert_location ::
  "('f, 'r, 'w) engine_context \<Rightarrow> ExpertLocationMetadata option \<Rightarrow> int list \<Rightarrow> ('f, 'w) engine \<Rightarrow> ('f, 'w) engine result" where
  "update_expert_location ctx new_opt update_layer_ids st =
     (case global_expert_location_metadata (en_updater st) of None \<Rightarrow> Inl AssertionError
      | Some old \<Rightarrow>
          (case new_opt of None \<Rightarrow> Inl AttributeError
           | Some new \<Rightarrow>
               bind_res (updater_update (ec_canary ctx) (ec_exchange ctx) (ec_exchange_canary ctx) (ec_empty_like ctx)
                   (ec_empty_like_canary ctx) (ec_world_size ctx) (nat (nnodes (ec_args ctx))) new update_layer_ids (en_updater st))
                 (\<lambda>u. Inr (st\<lparr>en_updater := u\<rparr>))))"

text \<open>
  The loop over the chunks from its head on: it is suspended before each update when there are many
  chunks. The first component of the result is where it is suspended, \<open>None\<close> after the loop.
\<close>

fun chunk_loop ::
  "('f, 'r, 'w) engine_context \<Rightarrow> ExpertLocationMetadata option \<Rightarrow> bool \<Rightarrow> int list list \<Rightarrow> ('f, 'w) engine
   \<Rightarrow> (generator option \<times> ('f, 'w) engine) result" where
  "chunk_loop ctx md many [] st = Inr (None, st)"
| "chunk_loop ctx md many (ids # others) st =
     (if many then Inr (Some (InChunk md (ids # others)), st)
      else bind_res (update_expert_location ctx md ids st) (chunk_loop ctx md many others))"

text \<open>\<^verbatim>\<open>rebalance\<close> up to its first \<^verbatim>\<open>yield\<close> or its end; only a dump of counts has the key it reads.\<close>

definition rebalance ::
  "('f::linordered_field, 'r, 'w) engine_context \<Rightarrow> ('f, 'w) engine \<Rightarrow> (generator option \<times> ('f, 'w) engine) result" where
  "rebalance ctx st =
     bind_res (with_recorder ctx st (\<lambda>cx. dump_record cx ''object'')) (\<lambda>(out, _, r).
     case out of
       Some (StatOutput _ logical_count rate) \<Rightarrow>
         if \<not> check_rebalance_needed (ec_args ctx) rate then Inr (None, st\<lparr>en_recorder := Some r\<rparr>)
         else
           bind_res (init_by_eplb (ec_torch ctx) (ec_active_ranks ctx) (ec_rng ctx) (ec_rng_state ctx)
                       (ec_dist_rank ctx) (ec_args ctx) (ec_model_config ctx) logical_count) (\<lambda>md.
           let layer_chunks = compute_update_layer_ids_chunks (ec_args ctx) (routed_experts_weights_of_layer (en_updater st))
           in chunk_loop ctx md (1 < length layer_chunks) layer_chunks (st\<lparr>en_recorder := Some r\<rparr>))
     | Some (DetailOutput _ _) \<Rightarrow> Inl KeyError
     | None \<Rightarrow> Inl TypeError)"

text \<open>
  The head of \<^verbatim>\<open>while True\<close> in \<^verbatim>\<open>_entrypoint\<close>. With no iteration to wait for it rebalances at once, and it
  never returns if no rebalancing is suspended either.
\<close>

partial_function (option) main_loop ::
  "('f::linordered_field, 'r, 'w) engine_context \<Rightarrow> ('f, 'w) engine \<Rightarrow> ('f, 'w) engine result option" where
  "main_loop ctx st =
     (if 0 < eplb_rebalance_num_iterations (ec_args ctx) then Some (Inr (st\<lparr>en_eplb_manager := Some (InLoop 1)\<rparr>))
      else case rebalance ctx st of
        Inl e \<Rightarrow> Some (Inl e)
      | Inr (Some g, st') \<Rightarrow> Some (Inr (st'\<lparr>en_eplb_manager := Some g\<rparr>))
      | Inr (None, st') \<Rightarrow> main_loop ctx st')"

declare main_loop.simps [code]

fun leave_rebalance ::
  "('f::linordered_field, 'r, 'w) engine_context \<Rightarrow> (generator option \<times> ('f, 'w) engine) result \<Rightarrow> ('f, 'w) engine result option" where
  "leave_rebalance ctx (Inl e) = Some (Inl e)"
| "leave_rebalance ctx (Inr (Some g, st)) = Some (Inr (st\<lparr>en_eplb_manager := Some g\<rparr>))"
| "leave_rebalance ctx (Inr (None, st)) = main_loop ctx st"

text \<open>\<^verbatim>\<open>next(self._main_generator)\<close>.\<close>

definition manager_on_forward_pass_end ::
  "('f::linordered_field, 'r, 'w) engine_context \<Rightarrow> ('f, 'w) engine \<Rightarrow> ('f, 'w) engine result option" where
  "manager_on_forward_pass_end ctx st =
     (case en_eplb_manager st of
        None \<Rightarrow> Some (Inr st)
      | Some Start \<Rightarrow> main_loop ctx st
      | Some (InLoop k) \<Rightarrow>
          if int k < eplb_rebalance_num_iterations (ec_args ctx)
          then Some (Inr (st\<lparr>en_eplb_manager := Some (InLoop (Suc k))\<rparr>))
          else leave_rebalance ctx (rebalance ctx st)
      | Some (InChunk md remaining) \<Rightarrow>
          (case remaining of
             [] \<Rightarrow> main_loop ctx st
           | ids # rest \<Rightarrow>
               leave_rebalance ctx (bind_res (update_expert_location ctx md ids st) (chunk_loop ctx md True rest))))"

section \<open>A forward pass of the model runner\<close>

text \<open>The recorded part: the layers of the model call the hooks.\<close>

definition record_forward_pass ::
  "('f::linordered_field, 'r, 'w) engine_context \<Rightarrow> 'f engine_pass \<Rightarrow> ('f, 'w) engine \<Rightarrow> ('f, 'w) engine result" where
  "record_forward_pass ctx p st =
     (let pass_id = en_forward_pass_id st + 1; st' = st\<lparr>en_forward_pass_id := pass_id\<rparr> in
      if en_recorder st = None then Inr st'
      else with_recorder ctx st' (\<lambda>cx r. bind_res (forward_pass cx (pass_id, p) r)
             (\<lambda>r'. Inr (st'\<lparr>en_recorder := Some r'\<rparr>))))"

definition model_runner_forward ::
  "('f::linordered_field, 'r, 'w) engine_context \<Rightarrow> 'f engine_pass \<Rightarrow> ('f, 'w) engine \<Rightarrow> ('f, 'w) engine result option" where
  "model_runner_forward ctx p st =
     (case record_forward_pass ctx p st of
        Inl e \<Rightarrow> Some (Inl e)
      | Inr st' \<Rightarrow> manager_on_forward_pass_end ctx st')"

section \<open>Chunks of layers\<close>

lemma chunk_list_Cons:
  assumes "0 < k" "xs \<noteq> []"
  shows "chunk_list xs (int k) = take k xs # chunk_list (drop k xs) (int k)"
proof -
  let ?n = "length xs"
  have split: "[0..<?n] = [0..<min k ?n] @ [k..<?n]"
    using upt_add_eq_append[of 0 k "?n - k"] by (cases "k \<le> ?n") (auto simp: min_def)
  have "filter (\<lambda>i. i mod k = 0) [0..<min k ?n] = [0]"
  proof -
    have "[0..<min k ?n] = 0 # [1..<min k ?n]" using assms by (simp add: upt_rec)
    moreover have "filter (\<lambda>i. i mod k = 0) [1..<min k ?n] = []" by (auto simp: filter_empty_conv)
    ultimately show ?thesis by simp
  qed
  moreover have "filter (\<lambda>i. i mod k = 0) [k..<?n] = map (\<lambda>i. i + k) (filter (\<lambda>i. i mod k = 0) [0..<?n - k])"
  proof -
    have "[k..<?n] = map (\<lambda>i. i + k) [0..<?n - k]" by (cases "k \<le> ?n") (simp_all add: map_add_upt)
    then show ?thesis by (simp add: filter_map comp_def)
  qed
  ultimately show ?thesis using assms(1) by (simp add: chunk_list_def split comp_def add.commute)
qed

lemma chunk_list_concat:
  assumes "0 < k"
  shows "concat (chunk_list xs (int k)) = xs \<and> [] \<notin> set (chunk_list xs (int k))"
proof (induction xs rule: length_induct)
  case (1 xs)
  show ?case
  proof (cases "xs = []")
    case False
    then have "length (drop k xs) < length xs" using assms by (cases xs) auto
    with 1 False assms show ?thesis by (simp add: chunk_list_Cons)
  qed (simp add: chunk_list_def)
qed

lemma layer_chunks:
  assumes "dict_ok weights" "case eplb_rebalance_layers_per_chunk args of None \<Rightarrow> True | Some k \<Rightarrow> 0 \<le> k"
  defines "cs \<equiv> compute_update_layer_ids_chunks args weights"
  shows "set (concat cs) = fst ` set weights" "list_all (\<lambda>c. c \<noteq> [] \<and> distinct c \<and> set c \<subseteq> fst ` set weights) cs"
    "distinct (concat cs)"
proof -
  let ?xs = "sort (map fst weights)"
  obtain k where "0 < k" "cs = chunk_list ?xs (int k)"
  proof (cases "eplb_rebalance_layers_per_chunk args")
    case None
    then show ?thesis using that[of 1000000] by (simp add: cs_def compute_update_layer_ids_chunks_def)
  next
    case (Some k)
    then show ?thesis using that[of 1000000] that[of "nat k"] assms(2)
      by (cases "k = 0") (auto simp: cs_def compute_update_layer_ids_chunks_def)
  qed
  then have cs: "concat cs = ?xs" "[] \<notin> set cs" using chunk_list_concat by auto
  have d: "distinct ?xs" using assms(1) by (simp add: dict_ok_def)
  show sub: "set (concat cs) = fst ` set weights" unfolding cs by simp
  have "distinct c" if "c \<in> set cs" for c
  proof -
    from split_list[OF that] obtain as bs where "cs = as @ c # bs" by blast
    then show ?thesis using d unfolding cs(1)[symmetric] by simp
  qed
  then show "list_all (\<lambda>c. c \<noteq> [] \<and> distinct c \<and> set c \<subseteq> fst ` set weights) cs"
    using cs(2) sub by (auto simp: list_all_iff)
  show "distinct (concat cs)" using d cs by simp
qed

section \<open>The engine between two calls\<close>

definition engine_request ::
  "('f, 'r, 'w) engine_context \<Rightarrow> ModelConfigForExpertLocation \<Rightarrow> int list list list \<Rightarrow> ('r, 'f) eplb_request" where
  "engine_request ctx mc counts =
     \<lparr>lr_rng = ec_rng ctx, lr_state = ec_rng_state ctx, lr_dist_rank = ec_dist_rank ctx, lr_args = ec_args ctx, lr_model = mc,
      lr_map = [], lr_rank = None, eq_torch = ec_torch ctx, eq_active = ec_active_ranks ctx, eq_counts = counts\<rparr>"

definition engine_physical :: "('f, 'r, 'w) engine_context \<Rightarrow> ModelConfigForExpertLocation \<Rightarrow> nat" where
  "engine_physical ctx mc = nat (int (mc_num_logical_experts mc) + ep_num_redundant_experts (ec_args ctx))"

text \<open>Local slots of a rank.\<close>

definition engine_slots :: "('f, 'r, 'w) engine_context \<Rightarrow> ModelConfigForExpertLocation \<Rightarrow> nat" where
  "engine_slots ctx mc = engine_physical ctx mc div ec_world_size ctx"

text \<open>
  What the loop relies on: sizes that fit the balancing policy, the documented behaviour of the
  collectives, and a positive number of iterations and of buffered passes.
\<close>

definition engine_ok :: "('f::linordered_field, 'r, 'w) engine_context \<Rightarrow> ModelConfigForExpertLocation \<Rightarrow> bool" where
  "engine_ok ctx mc \<longleftrightarrow>
     ec_model_config ctx = Some mc \<and> eplb_ok (engine_request ctx mc []) \<and> int (ec_world_size ctx) = sa_ep_size (ec_args ctx) \<and>
     p2p_spec (ec_exchange ctx) \<and> p2p_spec (ec_exchange_canary ctx) \<and>
     (\<forall>t. length (ec_empty_like ctx t) = length t) \<and> (\<forall>t. length (ec_empty_like_canary ctx t) = length t) \<and>
     (\<forall>t. list_all (rect (mc_num_layers mc) (mc_num_logical_experts mc)) t \<longrightarrow>
          list_all (rect (mc_num_layers mc) (mc_num_logical_experts mc)) (de_all_reduce (ec_env ctx) t)) \<and>
     0 < eplb_rebalance_num_iterations (ec_args ctx) \<and> 0 < expert_distribution_recorder_buffer_size (ec_args ctx) \<and>
     (case eplb_rebalance_layers_per_chunk (ec_args ctx) of None \<Rightarrow> True | Some k \<Rightarrow> 0 \<le> k)"

lemma engine_request_simps [simp]:
  "lr_args (engine_request ctx mc cs) = ec_args ctx" "lr_model (engine_request ctx mc cs) = mc"
  "eq_counts (engine_request ctx mc cs) = cs" "request_physical (engine_request ctx mc cs) = engine_physical ctx mc"
  by (simp_all add: engine_request_def request_physical_def engine_physical_def)

lemma eplb_ok_counts:
  "eplb_ok (engine_request ctx mc cs) \<longleftrightarrow>
   eplb_ok (engine_request ctx mc []) \<and> list_all (rect (mc_num_layers mc) (mc_num_logical_experts mc)) cs"
proof -
  have "location_request.truncate (engine_request ctx mc cs) = location_request.truncate (engine_request ctx mc [])"
    "eq_torch (engine_request ctx mc cs) = eq_torch (engine_request ctx mc [])"
    "eq_active (engine_request ctx mc cs) = eq_active (engine_request ctx mc [])"
    by (simp_all add: engine_request_def location_request.truncate_def)
  then show ?thesis by (auto simp: eplb_ok_def list_all_iff split: sum.splits EplbAlgorithm.splits)
qed

lemma engine_sizes:
  assumes "engine_ok ctx mc"
  shows "engine_physical ctx mc = ec_world_size ctx * engine_slots ctx mc" "0 < engine_slots ctx mc"
    "0 < nat (nnodes (ec_args ctx))" "nat (nnodes (ec_args ctx)) \<le> ec_world_size ctx" "0 < mc_num_layers mc"
    "0 < mc_num_logical_experts mc"
proof -
  let ?w = "ec_world_size ctx" and ?P = "engine_physical ctx mc"
  have ok: "args_ok (location_request.truncate (engine_request ctx mc []))" "0 < mc_num_layers mc"
    "0 \<le> ep_num_redundant_experts (ec_args ctx)" "int ?w = sa_ep_size (ec_args ctx)"
    using assms by (auto simp: engine_ok_def eplb_ok_def)
  note a = args_ok_truncate[OF ok(1), simplified]
  have P: "int ?P = int (mc_num_logical_experts mc) + ep_num_redundant_experts (ec_args ctx)"
    using ok(3) by (simp add: engine_physical_def)
  then have "int ?P mod int ?w = 0" using a(5) ok(4) by simp
  then have dvd: "?w dvd ?P" by (metis dvd_eq_mod_eq_0 of_nat_0_eq_iff of_nat_mod)
  then show eq: "?P = ?w * engine_slots ctx mc" by (simp add: engine_slots_def)
  have "0 < ?P" using P a(2) ok(3) by linarith
  then show "0 < engine_slots ctx mc" using eq by (metis gr_zeroI less_numeral_extra(3) mult_0_right)
  show "0 < nat (nnodes (ec_args ctx))" "nat (nnodes (ec_args ctx)) \<le> ?w" "0 < mc_num_layers mc" "0 < mc_num_logical_experts mc"
    using a ok by auto
qed

text \<open>The new placement fits the model, whatever was counted.\<close>

definition new_ok :: "('f, 'r, 'w) engine_context \<Rightarrow> ModelConfigForExpertLocation \<Rightarrow> ExpertLocationMetadata \<Rightarrow> bool" where
  "new_ok ctx mc md \<longleftrightarrow>
     placed (mc_num_logical_experts mc) (engine_slots ctx mc) (ec_world_size ctx) md \<and> num_layers md = mc_num_layers mc \<and>
     (logical_to_rank_dispatch_physical_map md \<noteq> None \<longleftrightarrow> ep_dispatch_algorithm (ec_args ctx) = Some ''static'')"

abbreviation engine_eplb ::
  "('f::linordered_field, 'r, 'w) engine_context \<Rightarrow> int list list list \<Rightarrow> ExpertLocationMetadata option result" where
  "engine_eplb ctx counts \<equiv> init_by_eplb (ec_torch ctx) (ec_active_ranks ctx) (ec_rng ctx) (ec_rng_state ctx)
     (ec_dist_rank ctx) (ec_args ctx) (ec_model_config ctx) counts"

lemma eplb_new_ok:
  assumes ok: "engine_ok ctx mc" and cs: "list_all (rect (mc_num_layers mc) (mc_num_logical_experts mc)) cs"
  shows "\<exists>new. engine_eplb ctx cs = Inr (Some new) \<and> new_ok ctx mc new"
proof -
  have "eplb_ok (engine_request ctx mc cs)" using ok cs by (simp add: engine_ok_def eplb_ok_counts[of ctx mc cs])
  from build_by_eplb_Inr[OF this] obtain md where md: "build_by_eplb (engine_request ctx mc cs) = Inr (Some md)"
    "wf_metadata (mc_num_logical_experts mc) md" "num_layers md = mc_num_layers mc"
    "logical_to_rank_dispatch_physical_map md \<noteq> None \<longleftrightarrow> ep_dispatch_algorithm (ec_args ctx) = Some ''static''"
    "rect (num_layers md) (engine_physical ctx mc) (physical_to_logical_map md)"
    "list_all (valid_layer (mc_num_logical_experts mc)) (physical_to_logical_map md)"
    by auto
  then show ?thesis using ok engine_sizes[OF ok]
    by (intro exI[of _ md]) (auto simp: new_ok_def placed_def build_by_eplb_def engine_ok_def engine_request_def)
qed

lemma placed_countable:
  assumes "placed e n world md"
  shows "countable_md md" "num_logical_experts md = e" "num_physical_experts md = world * n"
proof -
  have p: "wf_metadata e md" "0 < num_layers md" "rect (num_layers md) (world * n) (physical_to_logical_map md)"
    "list_all (valid_layer e) (physical_to_logical_map md)" using assms by (simp_all add: placed_def)
  then have "length (logical_to_all_physical_map md) = num_layers md" "length (logical_to_all_physical_map md ! 0) = e"
    by (auto simp: wf_metadata_def layer_ok_def)
  then show e: "num_logical_experts md = e" using p(2)
    by (cases "logical_to_all_physical_map md") (auto simp: num_logical_experts_def shape1_def)
  show P: "num_physical_experts md = world * n" using rect_shape1[OF p(3,2)] by (simp add: num_physical_experts_def)
  show "countable_md md" using p e P by (auto simp: countable_md_def list_all_iff valid_layer_def)
qed

text \<open>
  The state with placement \<open>md\<close> in force: the weights follow it, and the recorder is on and holds the
  counts \<open>vs\<close>. \<open>K\<close> are the layers with experts.
\<close>

definition engine_inv ::
  "('f::linordered_field, 'r, 'w) engine_context \<Rightarrow> ModelConfigForExpertLocation \<Rightarrow> (int \<Rightarrow> nat \<Rightarrow> int \<Rightarrow> 'w) \<Rightarrow> nat \<Rightarrow> int set
   \<Rightarrow> ExpertLocationMetadata \<Rightarrow> ('f, 'w) engine \<Rightarrow> int list list list \<Rightarrow> bool" where
  "engine_inv ctx mc W m K md st vs \<longleftrightarrow>
     in_step W m (engine_slots ctx mc) (ec_world_size ctx) (mc_num_logical_experts mc) md (en_updater st) \<and>
     new_ok ctx mc md \<and> fst ` set (routed_experts_weights_of_layer (en_updater st)) = K \<and>
     (\<exists>r. en_recorder st = Some r \<and> rc_recording r \<and>
        stat_inv (mc_num_layers mc) (engine_physical ctx mc) (expert_distribution_recorder_buffer_size (ec_args ctx)) r vs) \<and>
     list_all (rect (mc_num_layers mc) (engine_physical ctx mc)) vs"

lemma engine_inv_manager [simp]:
  "engine_inv ctx mc W m K md (st\<lparr>en_eplb_manager := g\<rparr>) vs = engine_inv ctx mc W m K md st vs"
  by (simp add: engine_inv_def)

lemma list_all_keep: "list_all Q xs \<Longrightarrow> list_all Q (keep cap xs)"
  by (auto simp: keep_def list_all_iff dest: in_set_dropD split: option.splits)

text \<open>One pass is recorded under the placement in force.\<close>

lemma record_forward_pass_inv:
  assumes ok: "engine_ok ctx mc" and inv: "engine_inv ctx mc W m K md st vs" and run: "record_forward_pass ctx p st = Inr st'"
  shows "engine_inv ctx mc W m K md st' (keep (buffer_capacity (expert_distribution_recorder_buffer_size (ec_args ctx)))
      (vs @ [pass_counts (mc_num_layers mc) (engine_physical ctx mc) (en_forward_pass_id st + 1, p)])) \<and>
    en_eplb_manager st' = en_eplb_manager st \<and> en_forward_pass_id st' = en_forward_pass_id st + 1"
proof -
  let ?cx = "recorder_context_of ctx md" and ?p = "(en_forward_pass_id st + 1, p)"
  obtain r where r: "en_recorder st = Some r" "rc_recording r"
    "stat_inv (mc_num_layers mc) (engine_physical ctx mc) (expert_distribution_recorder_buffer_size (ec_args ctx)) r vs"
    using inv by (auto simp: engine_inv_def)
  have md: "global_expert_location_metadata (en_updater st) = Some md" "num_layers md = mc_num_layers mc"
    "num_physical_experts md = engine_physical ctx mc"
    using inv placed_countable(3) engine_sizes(1)[OF ok] by (auto simp: engine_inv_def in_step_def new_ok_def)
  obtain r' where r': "forward_pass ?cx ?p r = Inr r'"
    "st' = st\<lparr>en_forward_pass_id := en_forward_pass_id st + 1, en_recorder := Some r'\<rparr>"
    using run r(1) md(1) by (auto simp: record_forward_pass_def with_recorder_def Let_def)
  have "rc_recording r'"
    using forward_pass_recording[OF r'(1)] r(2) by simp
  moreover have "list_all (rect (mc_num_layers mc) (engine_physical ctx mc))
      (vs @ [pass_counts (mc_num_layers mc) (engine_physical ctx mc) ?p])"
    using inv rect_pass_counts by (simp add: engine_inv_def)
  ultimately show ?thesis
    using inv forward_pass_inv[OF r(3) r'(1)] r(2) md r'(2)
    by (auto simp: engine_inv_def recorder_context_of_def intro: list_all_keep)
qed

text \<open>The updater moves the layers of one chunk to the new placement.\<close>

lemma update_expert_location_inv:
  assumes ok: "engine_ok ctx mc" "0 < m" and inv: "engine_inv ctx mc W m K md st vs" and new: "new_ok ctx mc new"
    and ids: "ids \<noteq> []" "distinct ids" "set ids \<subseteq> K"
  shows "\<exists>st' md'. update_expert_location ctx (Some new) ids st = Inr st' \<and> engine_inv ctx mc W m K md' st' vs \<and>
     en_eplb_manager st' = en_eplb_manager st \<and> en_forward_pass_id st' = en_forward_pass_id st \<and>
     (\<forall>l < mc_num_layers mc. physical_to_logical_map md' ! l = physical_to_logical_map (if int l \<in> set ids then new else md) ! l)"
proof -
  let ?n = "engine_slots ctx mc" and ?w = "ec_world_size ctx" and ?e = "mc_num_logical_experts mc"
  have i: "in_step W m ?n ?w ?e md (en_updater st)" "new_ok ctx mc md"
    "set ids \<subseteq> fst ` set (routed_experts_weights_of_layer (en_updater st))"
    using inv ids(3) by (auto simp: engine_inv_def)
  have n: "placed ?e ?n ?w new" "num_layers new = num_layers md"
    "logical_to_rank_dispatch_physical_map md = None \<longleftrightarrow> logical_to_rank_dispatch_physical_map new = None"
    using i(2) new by (auto simp: new_ok_def)
  have sp: "p2p_spec (ec_exchange ctx)" "p2p_spec (ec_exchange_canary ctx)"
    "\<And>t. length (ec_empty_like ctx t) = length t" "\<And>t. length (ec_empty_like_canary ctx t) = length t"
    using ok(1) by (auto simp: engine_ok_def)
  from updater_update_in_step[where canary = "ec_canary ctx", OF i(1) n ids(1,2) i(3) sp ok(2) engine_sizes(2,3,4)[OF ok(1)]] obtain u md' where u:
    "updater_update (ec_canary ctx) (ec_exchange ctx) (ec_exchange_canary ctx) (ec_empty_like ctx) (ec_empty_like_canary ctx)
       ?w (nat (nnodes (ec_args ctx))) new ids (en_updater st) = Inr u"
    "in_step W m ?n ?w ?e md' u" "num_layers md' = num_layers md"
    "fst ` set (routed_experts_weights_of_layer u) = fst ` set (routed_experts_weights_of_layer (en_updater st))"
    "logical_to_rank_dispatch_physical_map md' = None \<longleftrightarrow> logical_to_rank_dispatch_physical_map new = None"
    "\<forall>l < num_layers md. physical_to_logical_map md' ! l = physical_to_logical_map (if int l \<in> set ids then new else md) ! l"
    by (elim exE conjE) (rule that)
  have "update_expert_location ctx (Some new) ids st = Inr (st\<lparr>en_updater := u\<rparr>)"
    using u(1) i(1) by (simp add: update_expert_location_def in_step_def)
  moreover have "engine_inv ctx mc W m K md' (st\<lparr>en_updater := u\<rparr>) vs"
    using inv u n by (auto simp: engine_inv_def new_ok_def in_step_def)
  moreover have "num_layers md = mc_num_layers mc" using i(2) by (simp add: new_ok_def)
  ultimately show ?thesis using u(6) by (intro exI[of _ "st\<lparr>en_updater := u\<rparr>"] exI[of _ md']) simp
qed

text \<open>A rebalancing computes the new placement from what is recorded and empties the recorder.\<close>

lemma rebalance_inv:
  assumes ok: "engine_ok ctx mc" and inv: "engine_inv ctx mc W m K md st vs"
  shows "\<exists>lc new st1. engine_eplb ctx (de_all_reduce (ec_env ctx) lc) = Inr (Some new) \<and> new_ok ctx mc new \<and>
     engine_inv ctx mc W m K md st1 [] \<and> en_forward_pass_id st1 = en_forward_pass_id st \<and>
     rebalance ctx st = (let cs = compute_update_layer_ids_chunks (ec_args ctx) (routed_experts_weights_of_layer (en_updater st))
       in chunk_loop ctx (Some new) (1 < length cs) cs st1) \<and>
     (\<forall>l < mc_num_layers mc. \<forall>e < mc_num_logical_experts mc. (\<Sum>s < length lc. lc ! s ! l ! e) =
        sum_list (map (\<lambda>v. \<Sum>q | q < engine_physical ctx mc \<and> physical_to_logical_map md ! l ! q = int e. v ! l ! q) vs))"
proof -
  let ?cx = "recorder_context_of ctx md"
  obtain r where r: "en_recorder st = Some r" "rc_recording r"
    "stat_inv (mc_num_layers mc) (engine_physical ctx mc) (expert_distribution_recorder_buffer_size (ec_args ctx)) r vs"
    and vs: "\<forall>v \<in> set vs. rect (mc_num_layers mc) (engine_physical ctx mc) v"
    using inv by (auto simp: engine_inv_def list_all_iff)
  have md: "global_expert_location_metadata (en_updater st) = Some md" "num_layers md = mc_num_layers mc"
    "num_physical_experts md = engine_physical ctx mc" "num_logical_experts md = mc_num_logical_experts mc" "countable_md md"
    using inv placed_countable engine_sizes(1)[OF ok] by (auto simp: engine_inv_def in_step_def new_ok_def)
  have cx: "cx_md ?cx = md" "cx_env ?cx = ec_env ctx" by (simp_all add: recorder_context_of_def)
  obtain lc r' where lc: "dump_record ?cx ''object'' r =
      Inr (Some (StatOutput (de_rank (ec_env ctx)) (de_all_reduce (ec_env ctx) lc) None), None, r')"
    "rc_recording r' = rc_recording r"
    "stat_inv (mc_num_layers mc) (engine_physical ctx mc) (expert_distribution_recorder_buffer_size (ec_args ctx)) r' []"
    "\<forall>step \<in> set lc. rect (mc_num_layers mc) (mc_num_logical_experts mc) step"
    and counts: "\<forall>l < mc_num_layers mc. \<forall>e < mc_num_logical_experts mc. (\<Sum>s < length lc. lc ! s ! l ! e) =
        sum_list (map (\<lambda>v. \<Sum>q | q < engine_physical ctx mc \<and> physical_to_logical_map md ! l ! q = int e. v ! l ! q) vs)"
    using dump_stat[of ?cx, unfolded cx md(2-4), OF r(3) md(5) vs] by blast
  have "list_all (rect (mc_num_layers mc) (mc_num_logical_experts mc)) (de_all_reduce (ec_env ctx) lc)"
    using ok lc(4) by (auto simp: engine_ok_def list_all_iff)
  from eplb_new_ok[OF ok this] obtain new where
    new: "engine_eplb ctx (de_all_reduce (ec_env ctx) lc) = Inr (Some new)" "new_ok ctx mc new" by blast
  let ?st = "st\<lparr>en_recorder := Some r'\<rparr>"
  have "engine_inv ctx mc W m K md ?st []" using inv r(2) lc(2,3) by (auto simp: engine_inv_def)
  moreover have "rebalance ctx st = (let cs = compute_update_layer_ids_chunks (ec_args ctx) (routed_experts_weights_of_layer (en_updater st))
       in chunk_loop ctx (Some new) (1 < length cs) cs ?st)"
    using r(1) md(1) lc(1) new(1) by (simp add: rebalance_def with_recorder_def check_rebalance_needed_def)
  ultimately show ?thesis using new counts by (intro exI[of _ lc] exI[of _ new] exI[of _ ?st]) simp
qed

section \<open>One call of the generator\<close>

lemma main_loop_positive:
  assumes "engine_ok ctx mc"
  shows "main_loop ctx st = Some (Inr (st\<lparr>en_eplb_manager := Some (InLoop 1)\<rparr>))"
  using assms by (subst main_loop.simps) (simp add: engine_ok_def)

abbreviation layer_chunks_of :: "('f, 'r, 'w) engine_context \<Rightarrow> ('f, 'w) engine \<Rightarrow> int list list" where
  "layer_chunks_of ctx st \<equiv> compute_update_layer_ids_chunks (ec_args ctx) (routed_experts_weights_of_layer (en_updater st))"

lemma engine_chunks:
  assumes "engine_ok ctx mc" "engine_inv ctx mc W m K md st vs"
  shows "set (concat (layer_chunks_of ctx st)) = K"
    "list_all (\<lambda>c. c \<noteq> [] \<and> distinct c \<and> set c \<subseteq> K) (layer_chunks_of ctx st)"
  using layer_chunks[of "routed_experts_weights_of_layer (en_updater st)" "ec_args ctx"] assms
  by (auto simp: engine_ok_def engine_inv_def in_step_def weights_hold_def)

text \<open>
  The call that rebalances: with many chunks the placement in force stays, otherwise all layers switch.
\<close>

lemma call_rebalance:
  assumes ok: "engine_ok ctx mc" "0 < m" and inv: "engine_inv ctx mc W m K md st vs"
    and gen: "en_eplb_manager st = Some (InLoop k)" "\<not> int k < eplb_rebalance_num_iterations (ec_args ctx)"
  shows "\<exists>lc new st' md'. engine_eplb ctx (de_all_reduce (ec_env ctx) lc) = Inr (Some new) \<and> new_ok ctx mc new \<and>
     (\<forall>l < mc_num_layers mc. \<forall>e < mc_num_logical_experts mc. (\<Sum>s < length lc. lc ! s ! l ! e) =
        sum_list (map (\<lambda>v. \<Sum>q | q < engine_physical ctx mc \<and> physical_to_logical_map md ! l ! q = int e. v ! l ! q) vs)) \<and>
     manager_on_forward_pass_end ctx st = Some (Inr st') \<and> engine_inv ctx mc W m K md' st' [] \<and>
     (if 1 < length (layer_chunks_of ctx st)
      then en_eplb_manager st' = Some (InChunk (Some new) (layer_chunks_of ctx st)) \<and> md' = md
      else en_eplb_manager st' = Some (InLoop 1) \<and> (\<forall>l < mc_num_layers mc. physical_to_logical_map md' ! l =
             physical_to_logical_map (if int l \<in> K then new else md) ! l))"
proof -
  let ?cs = "layer_chunks_of ctx st"
  have call: "manager_on_forward_pass_end ctx st = leave_rebalance ctx (rebalance ctx st)"
    using gen by (simp add: manager_on_forward_pass_end_def)
  obtain lc new st1 where r: "engine_eplb ctx (de_all_reduce (ec_env ctx) lc) = Inr (Some new)" "new_ok ctx mc new"
    "\<forall>l < mc_num_layers mc. \<forall>e < mc_num_logical_experts mc. (\<Sum>s < length lc. lc ! s ! l ! e) =
        sum_list (map (\<lambda>v. \<Sum>q | q < engine_physical ctx mc \<and> physical_to_logical_map md ! l ! q = int e. v ! l ! q) vs)"
    "engine_inv ctx mc W m K md st1 []"
    "rebalance ctx st = chunk_loop ctx (Some new) (1 < length ?cs) ?cs st1"
    using rebalance_inv[OF ok(1) inv] unfolding Let_def by blast
  note cs = engine_chunks[OF ok(1) inv]
  consider (many) "1 < length ?cs" | (none) "?cs = []" | (one) c where "?cs = [c]"
    by (cases ?cs; cases "tl ?cs") auto
  then show ?thesis
  proof cases
    case many
    then obtain c cs' where c: "?cs = c # cs'" by (cases ?cs) auto
    then have "rebalance ctx st = Inr (Some (InChunk (Some new) ?cs), st1)" using r(5) many by simp
    then show ?thesis using r call many
      by (intro exI[of _ lc] exI[of _ new] exI[of _ "st1\<lparr>en_eplb_manager := Some (InChunk (Some new) ?cs)\<rparr>"] exI[of _ md]) simp
  next
    case none
    then have "K = {}" using cs(1) by simp
    then show ?thesis using r call none main_loop_positive[OF ok(1)]
      by (intro exI[of _ lc] exI[of _ new] exI[of _ "st1\<lparr>en_eplb_manager := Some (InLoop 1)\<rparr>"] exI[of _ md]) simp
  next
    case one
    then have c: "c \<noteq> []" "distinct c" "set c = K" using cs by auto
    from update_expert_location_inv[OF ok r(4,2) c(1,2)] c(3) obtain st2 md' where
      u: "update_expert_location ctx (Some new) c st1 = Inr st2" "engine_inv ctx mc W m K md' st2 []"
      "\<forall>l < mc_num_layers mc. physical_to_logical_map md' ! l = physical_to_logical_map (if int l \<in> set c then new else md) ! l"
      by blast
    then show ?thesis using r call one c(3) main_loop_positive[OF ok(1)]
      by (intro exI[of _ lc] exI[of _ new] exI[of _ "st2\<lparr>en_eplb_manager := Some (InLoop 1)\<rparr>"] exI[of _ md']) simp
  qed
qed

text \<open>A call in the loop over the chunks.\<close>

lemma call_chunk:
  assumes ok: "engine_ok ctx mc" "0 < m" and inv: "engine_inv ctx mc W m K md st vs" and new: "new_ok ctx mc new"
    and gen: "en_eplb_manager st = Some (InChunk (Some new) (c # cs))" and c: "c \<noteq> []" "distinct c" "set c \<subseteq> K"
  shows "\<exists>st' md'. manager_on_forward_pass_end ctx st = Some (Inr st') \<and> engine_inv ctx mc W m K md' st' vs \<and>
     en_eplb_manager st' = Some (if cs = [] then InLoop 1 else InChunk (Some new) cs) \<and>
     (\<forall>l < mc_num_layers mc. physical_to_logical_map md' ! l = physical_to_logical_map (if int l \<in> set c then new else md) ! l)"
proof -
  let ?g = "if cs = [] then InLoop 1 else InChunk (Some new) cs"
  from update_expert_location_inv[OF ok inv new c] obtain st2 md' where
    u: "update_expert_location ctx (Some new) c st = Inr st2" "engine_inv ctx mc W m K md' st2 vs"
    "\<forall>l < mc_num_layers mc. physical_to_logical_map md' ! l = physical_to_logical_map (if int l \<in> set c then new else md) ! l"
    by blast
  then have "manager_on_forward_pass_end ctx st = Some (Inr (st2\<lparr>en_eplb_manager := Some ?g\<rparr>))"
    using gen main_loop_positive[OF ok(1)] by (cases cs) (simp_all add: manager_on_forward_pass_end_def)
  then show ?thesis using u(2,3) by (intro exI[of _ "st2\<lparr>en_eplb_manager := Some ?g\<rparr>"] exI[of _ md']) simp
qed

section \<open>Serving\<close>

type_synonym 'f history = "((int \<times> 'f engine_pass) \<times> ExpertLocationMetadata) list"

text \<open>
  \<open>served ctx st h st'\<close>: the engine runs from \<open>st\<close> to \<open>st'\<close>; \<open>h\<close> are the passes, each with the placement
  that was in force during it.
\<close>

inductive served ::
  "('f::linordered_field, 'r, 'w) engine_context \<Rightarrow> ('f, 'w) engine \<Rightarrow> 'f history \<Rightarrow> ('f, 'w) engine \<Rightarrow> bool"
  for ctx where
  nil: "served ctx st [] st"
| cons: "model_runner_forward ctx p st = Some (Inr st') \<Longrightarrow> global_expert_location_metadata (en_updater st) = Some md \<Longrightarrow>
    served ctx st' h st'' \<Longrightarrow> served ctx st (((en_forward_pass_id st + 1, p), md) # h) st''"

inductive_simps served_Nil [simp]: "served ctx st [] st'"

inductive_simps served_Cons: "served ctx st (x # h) st'"

lemma served_append:
  "served ctx st (h1 @ h2) st'' \<longleftrightarrow> (\<exists>st'. served ctx st h1 st' \<and> served ctx st' h2 st'')"
  by (induction h1 arbitrary: st) (auto simp: served_Cons)

text \<open>
  The invariant of the loop after the passes \<open>h\<close>: the recorder has the passes from \<open>j\<close> on, and in the
  counting loop the last \<open>k - 1\<close> passes were made with the placement in force.
\<close>

fun generator_inv ::
  "('f::linordered_field, 'r, 'w) engine_context \<Rightarrow> ModelConfigForExpertLocation \<Rightarrow> int set \<Rightarrow> ExpertLocationMetadata
   \<Rightarrow> nat \<Rightarrow> 'f history \<Rightarrow> generator option \<Rightarrow> bool" where
  "generator_inv ctx mc K md j h (Some Start) \<longleftrightarrow> h = []"
| "generator_inv ctx mc K md j h (Some (InLoop k)) \<longleftrightarrow>
     1 \<le> k \<and> int k \<le> eplb_rebalance_num_iterations (ec_args ctx) \<and> j + (k - 1) \<le> length h \<and>
     list_all (\<lambda>x. snd x = md) (drop (length h - (k - 1)) h)"
| "generator_inv ctx mc K md j h (Some (InChunk (Some new) cs)) \<longleftrightarrow>
     cs \<noteq> [] \<and> new_ok ctx mc new \<and> list_all (\<lambda>c. c \<noteq> [] \<and> distinct c \<and> set c \<subseteq> K) cs"
| "generator_inv ctx mc K md j h _ \<longleftrightarrow> False"

abbreviation recorded_counts ::
  "('f, 'r, 'w) engine_context \<Rightarrow> ModelConfigForExpertLocation \<Rightarrow> nat \<Rightarrow> 'f history \<Rightarrow> int list list list" where
  "recorded_counts ctx mc j h \<equiv> keep (buffer_capacity (expert_distribution_recorder_buffer_size (ec_args ctx)))
     (map (\<lambda>x. pass_counts (mc_num_layers mc) (engine_physical ctx mc) (fst x)) (drop j h))"

definition loop_inv ::
  "('f::linordered_field, 'r, 'w) engine_context \<Rightarrow> ModelConfigForExpertLocation \<Rightarrow> (int \<Rightarrow> nat \<Rightarrow> int \<Rightarrow> 'w) \<Rightarrow> nat \<Rightarrow> int set
   \<Rightarrow> ExpertLocationMetadata \<Rightarrow> ('f, 'w) engine \<Rightarrow> 'f history \<Rightarrow> bool" where
  "loop_inv ctx mc W m K md st h \<longleftrightarrow>
     (\<exists>j \<le> length h. engine_inv ctx mc W m K md st (recorded_counts ctx mc j h) \<and>
        generator_inv ctx mc K md j h (en_eplb_manager st))"

lemma loop_inv_md: "loop_inv ctx mc W m K md st h \<Longrightarrow> global_expert_location_metadata (en_updater st) = Some md"
  by (auto simp: loop_inv_def engine_inv_def in_step_def)

lemma recorded_pass:
  assumes ok: "engine_ok ctx mc" and inv: "engine_inv ctx mc W m K md st (recorded_counts ctx mc j h)" and j: "j \<le> length h"
    and run: "record_forward_pass ctx p st = Inr st'"
  shows "engine_inv ctx mc W m K md st' (recorded_counts ctx mc j (h @ [((en_forward_pass_id st + 1, p), md)]))"
    "en_eplb_manager st' = en_eplb_manager st"
  using record_forward_pass_inv[OF ok inv run] j by (simp_all add: keep_keep)

lemma loop_step:
  assumes ok: "engine_ok ctx mc" "0 < m" and inv: "loop_inv ctx mc W m K md st h"
    and run: "record_forward_pass ctx p st = Inr st1"
  shows "\<exists>st' md'. manager_on_forward_pass_end ctx st1 = Some (Inr st') \<and>
     loop_inv ctx mc W m K md' st' (h @ [((en_forward_pass_id st + 1, p), md)])"
proof -
  let ?x = "((en_forward_pass_id st + 1, p), md)"
  let ?h = "h @ [?x]"
  obtain j where j: "j \<le> length h" "engine_inv ctx mc W m K md st (recorded_counts ctx mc j h)"
    "generator_inv ctx mc K md j h (en_eplb_manager st)" using inv by (auto simp: loop_inv_def)
  note i = recorded_pass[OF ok(1) j(2,1) run]
  have N: "0 < eplb_rebalance_num_iterations (ec_args ctx)" using ok(1) by (simp add: engine_ok_def)
  have looped: "loop_inv ctx mc W m K md' st' ?h"
    if "engine_inv ctx mc W m K md' st' []" "en_eplb_manager st' = Some (InLoop 1)" for st' md'
    using that N by (auto simp: loop_inv_def keep_def split: option.splits intro!: exI[of _ "length ?h"])
  have looped_at: "loop_inv ctx mc W m K md' st' ?h"
    if "engine_inv ctx mc W m K md' st' (recorded_counts ctx mc j ?h)" "en_eplb_manager st' = Some (InLoop 1)" for st' md'
    using that N j(1) by (auto simp: loop_inv_def intro!: exI[of _ j])
  from j(3) consider (start) "en_eplb_manager st = Some Start"
    | (inloop) k where "en_eplb_manager st = Some (InLoop k)"
    | (inchunk) new c cs where "en_eplb_manager st = Some (InChunk (Some new) (c # cs))"
    by (elim generator_inv.elims) (auto simp: neq_Nil_conv)
  then show ?thesis
  proof cases
    case start
    then have "manager_on_forward_pass_end ctx st1 = Some (Inr (st1\<lparr>en_eplb_manager := Some (InLoop 1)\<rparr>))"
      using i(2) main_loop_positive[OF ok(1)] by (simp add: manager_on_forward_pass_end_def)
    then show ?thesis using looped_at[of md "st1\<lparr>en_eplb_manager := Some (InLoop 1)\<rparr>"] i(1) by auto
  next
    case (inloop k)
    show ?thesis
    proof (cases "int k < eplb_rebalance_num_iterations (ec_args ctx)")
      case True
      let ?st = "st1\<lparr>en_eplb_manager := Some (InLoop (Suc k))\<rparr>"
      have "manager_on_forward_pass_end ctx st1 = Some (Inr ?st)"
        using True inloop i(2) by (simp add: manager_on_forward_pass_end_def)
      moreover have "generator_inv ctx mc K md j ?h (Some (InLoop (Suc k)))"
        using j(3) inloop True by (auto simp: Suc_diff_le)
      then have "loop_inv ctx mc W m K md ?st ?h" using i(1) j(1) by (auto simp: loop_inv_def intro!: exI[of _ j])
      ultimately show ?thesis by blast
    next
      case False
      have g: "en_eplb_manager st1 = Some (InLoop k)" using inloop i(2) by simp
      from call_rebalance[OF ok i(1) g False] obtain new st' md' where c: "new_ok ctx mc new"
        "manager_on_forward_pass_end ctx st1 = Some (Inr st')" "engine_inv ctx mc W m K md' st' []"
        "if 1 < length (layer_chunks_of ctx st1) then en_eplb_manager st' = Some (InChunk (Some new) (layer_chunks_of ctx st1)) \<and> md' = md
         else en_eplb_manager st' = Some (InLoop 1)" by (auto split: if_splits)
      show ?thesis
      proof (cases "1 < length (layer_chunks_of ctx st1)")
        case True
        then have "loop_inv ctx mc W m K md' st' ?h"
          using c engine_chunks(2)[OF ok(1) i(1)]
          by (auto simp: loop_inv_def keep_def split: option.splits intro!: exI[of _ "length ?h"])
        with c(2) show ?thesis by blast
      qed (use c looped in auto)
    qed
  next
    case (inchunk new c cs)
    then have c: "new_ok ctx mc new" "c \<noteq> []" "distinct c" "set c \<subseteq> K" "list_all (\<lambda>c. c \<noteq> [] \<and> distinct c \<and> set c \<subseteq> K) cs"
      using j(3) by auto
    have g: "en_eplb_manager st1 = Some (InChunk (Some new) (c # cs))" using inchunk i(2) by simp
    from call_chunk[OF ok i(1) c(1) g c(2-4)] obtain st' md' where
      s: "manager_on_forward_pass_end ctx st1 = Some (Inr st')" "engine_inv ctx mc W m K md' st' (recorded_counts ctx mc j ?h)"
      "en_eplb_manager st' = Some (if cs = [] then InLoop 1 else InChunk (Some new) cs)" by blast
    have "loop_inv ctx mc W m K md' st' ?h"
    proof (cases "cs = []")
      case False
      then show ?thesis using s c j(1) by (auto simp: loop_inv_def intro!: exI[of _ j])
    qed (use s looped_at in auto)
    with s(1) show ?thesis by blast
  qed
qed

lemma forward_cases:
  assumes "model_runner_forward ctx p st = Some (Inr st')"
  obtains st1 where "record_forward_pass ctx p st = Inr st1" "manager_on_forward_pass_end ctx st1 = Some (Inr st')"
  using assms by (auto simp: model_runner_forward_def split: sum.splits)

lemma served_inv:
  assumes "served ctx st h' st'" and ok: "engine_ok ctx mc" "0 < m" and "loop_inv ctx mc W m K md st h"
  shows "\<exists>md'. loop_inv ctx mc W m K md' st' (h @ h')"
  using assms(1,4)
proof (induction arbitrary: h md rule: served.induct)
  case (cons p st st' md' h' st'')
  have md: "md' = md" using loop_inv_md[OF cons.prems] cons.hyps(2) by simp
  obtain st1 where st1: "record_forward_pass ctx p st = Inr st1" "manager_on_forward_pass_end ctx st1 = Some (Inr st')"
    by (rule forward_cases[OF cons.hyps(1)])
  from loop_step[OF ok cons.prems st1(1)] st1(2)
  obtain md2 where "loop_inv ctx mc W m K md2 st' (h @ [((en_forward_pass_id st + 1, p), md)])" by auto
  from cons.IH[OF this] show ?case by (simp add: md)
qed auto

text \<open>The engine when its manager has just been created over a fresh recorder.\<close>

definition engine_started ::
  "('f::linordered_field, 'r, 'w) engine_context \<Rightarrow> ModelConfigForExpertLocation \<Rightarrow> (int \<Rightarrow> nat \<Rightarrow> int \<Rightarrow> 'w) \<Rightarrow> nat
   \<Rightarrow> ('f, 'w) engine \<Rightarrow> bool" where
  "engine_started ctx mc W m st0 \<longleftrightarrow>
     (\<exists>st md. en_recorder st = Some (fresh_stat_recorder (recorder_context_of ctx md)) \<and> new_ok ctx mc md \<and>
        in_step W m (engine_slots ctx mc) (ec_world_size ctx) (mc_num_logical_experts mc) md (en_updater st) \<and>
        manager_init ctx st = Inr st0)"

lemma started_inv:
  assumes ok: "engine_ok ctx mc" and "engine_started ctx mc W m st0"
  shows "expert_distribution_recorder_buffer_size (ec_args ctx) \<le> eplb_rebalance_num_iterations (ec_args ctx)"
    "\<exists>md. loop_inv ctx mc W m (fst ` set (routed_experts_weights_of_layer (en_updater st0))) md st0 []"
proof -
  from assms(2) obtain st md where s: "en_recorder st = Some (fresh_stat_recorder (recorder_context_of ctx md))" "new_ok ctx mc md"
    "in_step W m (engine_slots ctx mc) (ec_world_size ctx) (mc_num_logical_experts mc) md (en_updater st)" "manager_init ctx st = Inr st0"
    by (auto simp: engine_started_def)
  let ?cx = "recorder_context_of ctx md" and ?B = "expert_distribution_recorder_buffer_size (ec_args ctx)"
  have md: "global_expert_location_metadata (en_updater st) = Some md" "num_layers md = mc_num_layers mc"
    "num_physical_experts md = engine_physical ctx mc"
    using s(2,3) placed_countable(3) engine_sizes(1)[OF ok] by (auto simp: in_step_def new_ok_def)
  have fresh: "stat_inv (mc_num_layers mc) (engine_physical ctx mc) ?B (fresh_stat_recorder ?cx) []"
    using fresh_stat_inv[of ?cx] ok md by (simp add: engine_ok_def recorder_context_of_def)
  obtain r where r: "recorder_reset ?cx (fresh_stat_recorder ?cx) = Inr r"
    by (simp add: recorder_reset_def fresh_stat_recorder_def Let_def)
  have "stat_inv (mc_num_layers mc) (engine_physical ctx mc) ?B r []"
    using recorder_reset_inv[OF fresh r] md by (simp add: recorder_context_of_def)
  then have rec: "stat_inv (mc_num_layers mc) (engine_physical ctx mc) ?B (r\<lparr>rc_recording := True\<rparr>) []"
    by (simp add: stat_inv_def)
  have st0: "?B \<le> eplb_rebalance_num_iterations (ec_args ctx)"
    "st0 = st\<lparr>en_recorder := Some (r\<lparr>rc_recording := True\<rparr>), en_eplb_manager := Some Start\<rparr>"
    using s(1,4) r md(1)
    by (auto simp: manager_init_def with_recorder_def start_record_def fresh_stat_recorder_def Let_def split: if_splits)
  from st0(1) show "?B \<le> eplb_rebalance_num_iterations (ec_args ctx)" .
  have "engine_inv ctx mc W m (fst ` set (routed_experts_weights_of_layer (en_updater st0))) md st0 []"
    using s(2,3) rec by (simp add: st0(2) engine_inv_def)
  then show "\<exists>md. loop_inv ctx mc W m (fst ` set (routed_experts_weights_of_layer (en_updater st0))) md st0 []"
    by (auto simp: loop_inv_def st0(2) keep_def split: option.splits)
qed

lemma chunks_of_keys:
  assumes "engine_inv ctx mc W m K md st vs" "engine_inv ctx mc W m K md' st' vs'"
  shows "layer_chunks_of ctx st = layer_chunks_of ctx st'"
proof -
  have sorted: "sort (map fst ws) = sorted_list_of_set K" if "dict_ok ws \<and> fst ` set ws = K" for ws :: "'c layer_weights_of_ranks"
  proof -
    have "sorted_list_of_set (set (map fst ws)) = sort (remdups (map fst ws))" by (rule sorted_list_of_set_sort_remdups)
    with that show ?thesis by (simp add: dict_ok_def distinct_remdups_id)
  qed
  have keys: "dict_ok (routed_experts_weights_of_layer (en_updater s)) \<and> fst ` set (routed_experts_weights_of_layer (en_updater s)) = K"
    if "engine_inv ctx mc W m K d s us" for d s us
    using that unfolding engine_inv_def in_step_def weights_hold_def by blast
  show ?thesis
    unfolding compute_update_layer_ids_chunks_def using sorted[OF keys[OF assms(1)]] sorted[OF keys[OF assms(2)]] by simp
qed

text \<open>Counting on to the last iteration changes nothing but the recorder.\<close>

lemma loop_progress:
  assumes ok: "engine_ok ctx mc" "0 < m"
    and "loop_inv ctx mc W m K md st h" "en_eplb_manager st = Some (InLoop k)"
    and "served ctx st h' st'" "int (k + length h') \<le> eplb_rebalance_num_iterations (ec_args ctx)"
  shows "loop_inv ctx mc W m K md st' (h @ h') \<and> en_eplb_manager st' = Some (InLoop (k + length h'))"
  using assms(3-6)
proof (induction h' arbitrary: st h k)
  case (Cons x h')
  from Cons.prems(3) obtain p st2 where x: "x = ((en_forward_pass_id st + 1, p), md)"
    "model_runner_forward ctx p st = Some (Inr st2)" "served ctx st2 h' st'"
    using loop_inv_md[OF Cons.prems(1)] by (auto simp: served_Cons)
  from forward_cases[OF x(2)] obtain st1 where st1: "record_forward_pass ctx p st = Inr st1"
    "manager_on_forward_pass_end ctx st1 = Some (Inr st2)" by blast
  obtain j where j: "j \<le> length h" "engine_inv ctx mc W m K md st (recorded_counts ctx mc j h)" using Cons.prems(1) by (auto simp: loop_inv_def)
  note i = recorded_pass[OF ok(1) j(2,1) st1(1)]
  have st2: "st2 = st1\<lparr>en_eplb_manager := Some (InLoop (Suc k))\<rparr>"
    using st1(2) i(2) Cons.prems(2,4) by (simp add: manager_on_forward_pass_end_def)
  obtain md2 where "loop_inv ctx mc W m K md2 st2 (h @ [x])" using loop_step[OF ok Cons.prems(1) st1(1)] st1(2) x(1) by auto
  moreover have "global_expert_location_metadata (en_updater st2) = Some md"
    using i(1) by (simp add: st2 engine_inv_def in_step_def)
  ultimately have "loop_inv ctx mc W m K md st2 (h @ [x])" using loop_inv_md by fastforce
  from Cons.IH[OF this _ x(3)] st2 Cons.prems(4) show ?case by simp
qed simp

text \<open>Updating chunk by chunk reaches the new placement on all of them.\<close>

lemma chunk_progress:
  assumes ok: "engine_ok ctx mc" "0 < m" and new: "new_ok ctx mc new"
    and "engine_inv ctx mc W m K md st vs" "en_eplb_manager st = Some (InChunk (Some new) cs)" "cs \<noteq> []"
    and "list_all (\<lambda>c. c \<noteq> [] \<and> distinct c \<and> set c \<subseteq> K) cs" "served ctx st h st'" "length h = length cs"
  shows "\<exists>md' vs'. engine_inv ctx mc W m K md' st' vs' \<and> en_eplb_manager st' = Some (InLoop 1) \<and>
     (\<forall>l < mc_num_layers mc. physical_to_logical_map md' ! l =
        physical_to_logical_map (if int l \<in> set (concat cs) then new else md) ! l)"
  using assms(4-9)
proof (induction cs arbitrary: md st vs h)
  case (Cons c cs)
  then obtain x h2 where h: "h = x # h2" by (cases h) auto
  from Cons.prems(5) obtain p st2 where x: "model_runner_forward ctx p st = Some (Inr st2)" "served ctx st2 h2 st'"
    unfolding h by (auto simp: served_Cons)
  from forward_cases[OF x(1)] obtain st1 where st1: "record_forward_pass ctx p st = Inr st1"
    "manager_on_forward_pass_end ctx st1 = Some (Inr st2)" by blast
  from record_forward_pass_inv[OF ok(1) Cons.prems(1) st1(1)] obtain vs1 where
    i: "engine_inv ctx mc W m K md st1 vs1" "en_eplb_manager st1 = Some (InChunk (Some new) (c # cs))" using Cons.prems(2) by auto
  have c: "c \<noteq> []" "distinct c" "set c \<subseteq> K" using Cons.prems(4) by auto
  from call_chunk[OF ok i(1) new i(2) c] st1(2) obtain md2 where md2: "engine_inv ctx mc W m K md2 st2 vs1"
    "en_eplb_manager st2 = Some (if cs = [] then InLoop 1 else InChunk (Some new) cs)"
    "\<forall>l < mc_num_layers mc. physical_to_logical_map md2 ! l = physical_to_logical_map (if int l \<in> set c then new else md) ! l"
    by auto
  show ?case
  proof (cases "cs = []")
    case True
    then have "st' = st2" using x(2) Cons.prems(6) h by simp
    then show ?thesis using md2 True by auto
  next
    case False
    with Cons.IH[OF md2(1) _ False _ x(2)] md2(2) Cons.prems(4,6) h obtain md' vs' where
      "engine_inv ctx mc W m K md' st' vs'" "en_eplb_manager st' = Some (InLoop 1)"
      "\<forall>l < mc_num_layers mc. physical_to_logical_map md' ! l =
        physical_to_logical_map (if int l \<in> set (concat cs) then new else md2) ! l" by auto
    then show ?thesis using md2(3) by (intro exI[of _ md'] exI[of _ vs']) auto
  qed
qed simp

text \<open>When the last iteration is over, the recorder has exactly the last passes, all made with the placement in force.\<close>

lemma fresh_counts:
  assumes ok: "engine_ok ctx mc" and inv: "loop_inv ctx mc W m K md st h" and gen: "en_eplb_manager st = Some (InLoop k)"
    and k: "int k = eplb_rebalance_num_iterations (ec_args ctx)"
    and B: "expert_distribution_recorder_buffer_size (ec_args ctx) \<le> eplb_rebalance_num_iterations (ec_args ctx)"
    and run: "record_forward_pass ctx p st = Inr st1" and b: "b = nat (expert_distribution_recorder_buffer_size (ec_args ctx))"
    and ps: "ps = h @ [((en_forward_pass_id st + 1, p), md)]"
  shows "engine_inv ctx mc W m K md st1 (map (\<lambda>x. pass_counts (mc_num_layers mc) (engine_physical ctx mc) (fst x)) (drop (length ps - b) ps)) \<and>
     en_eplb_manager st1 = Some (InLoop k) \<and> b \<le> length ps \<and> list_all (\<lambda>x. snd x = md) (drop (length ps - b) ps)"
proof -
  obtain j where j: "j \<le> length h" "engine_inv ctx mc W m K md st (recorded_counts ctx mc j h)"
    "generator_inv ctx mc K md j h (Some (InLoop k))" using inv gen by (auto simp: loop_inv_def)
  note i = recorded_pass[OF ok j(2,1) run]
  have pos: "0 < expert_distribution_recorder_buffer_size (ec_args ctx)" using ok by (simp add: engine_ok_def)
  have bk: "b \<le> k" "0 < b" using B k b pos by auto
  have len: "1 \<le> k" "j + k \<le> length ps" using j(3) ps by auto
  have drop: "drop (length (drop j ps) - b) (drop j ps) = drop (length ps - b) ps" using len bk by (simp add: ac_simps)
  have "recorded_counts ctx mc j ps =
      map (\<lambda>x. pass_counts (mc_num_layers mc) (engine_physical ctx mc) (fst x)) (drop (length ps - b) ps)"
    using pos drop b by (simp add: keep_def buffer_capacity_def drop_map)
  moreover have "list_all (\<lambda>x. snd x = md) (drop (length ps - k) ps)"
    using j(3) ps len by (auto simp: Suc_diff_le)
  moreover have "set (drop (length ps - b) ps) \<subseteq> set (drop (length ps - k) ps)"
    using bk by (intro set_drop_subset_set_drop) auto
  ultimately show ?thesis using i gen bk len unfolding ps[symmetric] by (auto simp: list_all_iff)
qed

text \<open>From the last iteration to the end of the rebalancing.\<close>

lemma rebalance_completes:
  assumes ok: "engine_ok ctx mc" "0 < m" and inv: "loop_inv ctx mc W m K md st h" and gen: "en_eplb_manager st = Some (InLoop k)"
    and k: "int k = eplb_rebalance_num_iterations (ec_args ctx)"
    and B: "expert_distribution_recorder_buffer_size (ec_args ctx) \<le> eplb_rebalance_num_iterations (ec_args ctx)"
    and run: "served ctx st (x # h') st'"
    and len: "length h' = (if 1 < length (layer_chunks_of ctx st) then length (layer_chunks_of ctx st) else 0)"
    and recent: "recent = drop (Suc (length h) - nat (expert_distribution_recorder_buffer_size (ec_args ctx))) (h @ [x])"
  shows "\<exists>lc new md'. int (length recent) = expert_distribution_recorder_buffer_size (ec_args ctx) \<and> list_all (\<lambda>x. snd x = md) recent \<and>
     (\<forall>l < mc_num_layers mc. \<forall>e < mc_num_logical_experts mc. (\<Sum>s < length lc. lc ! s ! l ! e) =
        sum_list (map (\<lambda>x. \<Sum>q | q < engine_physical ctx mc \<and> physical_to_logical_map md ! l ! q = int e.
            pass_selections (fst x) l q) recent)) \<and>
     engine_eplb ctx (de_all_reduce (ec_env ctx) lc) = Inr (Some new) \<and>
     in_step W m (engine_slots ctx mc) (ec_world_size ctx) (mc_num_logical_experts mc) md' (en_updater st') \<and>
     en_eplb_manager st' = Some (InLoop 1) \<and>
     (\<forall>l < mc_num_layers mc. physical_to_logical_map md' ! l = physical_to_logical_map (if int l \<in> K then new else md) ! l)"
proof -
  let ?B = "expert_distribution_recorder_buffer_size (ec_args ctx)"
  from run obtain s2 p where s: "model_runner_forward ctx p st = Some (Inr s2)" "served ctx s2 h' st'"
    "x = ((en_forward_pass_id st + 1, p), md)"
    using loop_inv_md[OF inv] by (auto simp: served_Cons)
  obtain s1 where s1: "record_forward_pass ctx p st = Inr s1" "manager_on_forward_pass_end ctx s1 = Some (Inr s2)"
    by (rule forward_cases[OF s(1)])
  from fresh_counts[OF ok(1) inv gen k B s1(1) refl refl] have f:
    "engine_inv ctx mc W m K md s1 (map (\<lambda>x. pass_counts (mc_num_layers mc) (engine_physical ctx mc) (fst x)) recent)"
    "en_eplb_manager s1 = Some (InLoop k)" "nat ?B \<le> length (h @ [x])" "list_all (\<lambda>x. snd x = md) recent"
    unfolding recent s(3)[symmetric] by auto
  have "0 < ?B" using ok(1) by (simp add: engine_ok_def)
  then have rl: "int (length recent) = ?B" using f(3) unfolding recent by simp
  obtain j where "engine_inv ctx mc W m K md st (recorded_counts ctx mc j h)" using inv by (auto simp: loop_inv_def)
  from chunks_of_keys[OF f(1) this] have cs: "layer_chunks_of ctx s1 = layer_chunks_of ctx st" .
  let ?cs = "layer_chunks_of ctx s1"
  from call_rebalance[OF ok f(1,2)] k s1(2) obtain lc new md1 where c:
    "engine_eplb ctx (de_all_reduce (ec_env ctx) lc) = Inr (Some new)" "new_ok ctx mc new" "engine_inv ctx mc W m K md1 s2 []"
    "if 1 < length ?cs then en_eplb_manager s2 = Some (InChunk (Some new) ?cs) \<and> md1 = md
     else en_eplb_manager s2 = Some (InLoop 1) \<and> (\<forall>l < mc_num_layers mc. physical_to_logical_map md1 ! l =
             physical_to_logical_map (if int l \<in> K then new else md) ! l)"
    and counts: "\<forall>l < mc_num_layers mc. \<forall>e < mc_num_logical_experts mc. (\<Sum>s < length lc. lc ! s ! l ! e) =
        sum_list (map (\<lambda>v. \<Sum>q | q < engine_physical ctx mc \<and> physical_to_logical_map md ! l ! q = int e. v ! l ! q)
          (map (\<lambda>x. pass_counts (mc_num_layers mc) (engine_physical ctx mc) (fst x)) recent))" by auto
  have "\<exists>md' vs'. engine_inv ctx mc W m K md' st' vs' \<and> en_eplb_manager st' = Some (InLoop 1) \<and>
     (\<forall>l < mc_num_layers mc. physical_to_logical_map md' ! l = physical_to_logical_map (if int l \<in> K then new else md) ! l)"
  proof (cases "1 < length ?cs")
    case True
    then have "en_eplb_manager s2 = Some (InChunk (Some new) ?cs)" "md1 = md" "?cs \<noteq> []" "length h' = length ?cs"
      using c(4) len cs by auto
    from chunk_progress[OF ok c(2,3) this(1,3) engine_chunks(2)[OF ok(1) f(1)] s(2) this(4)] this(2)
    show ?thesis by (simp only: engine_chunks(1)[OF ok(1) f(1)])
  next
    case False
    then have "st' = s2" using s(2) len cs by simp
    then show ?thesis using c(3,4) False by auto
  qed
  then obtain md' where "in_step W m (engine_slots ctx mc) (ec_world_size ctx) (mc_num_logical_experts mc) md' (en_updater st')"
    "en_eplb_manager st' = Some (InLoop 1)"
    "\<forall>l < mc_num_layers mc. physical_to_logical_map md' ! l = physical_to_logical_map (if int l \<in> K then new else md) ! l"
    by (auto simp: engine_inv_def)
  then show ?thesis using c(1) counts f(4) rl
    by (intro exI[of _ lc] exI[of _ new] exI[of _ md']) (simp add: comp_def pass_counts_def)
qed

section \<open>Properties\<close>

text \<open>
  (C5) The rebalancing loop never gets stuck: in every state that serving can reach, the call at the end
  of a recorded forward pass returns, without an error, whether it counts, rebalances or moves a chunk
  of layers; and then every slot on every rank holds the weights of the expert that the metadata in
  force puts there.
\<close>

theorem manager_call_returns:
  assumes "engine_ok ctx mc" "0 < m" "engine_started ctx mc W m st0" "served ctx st0 h st"
    and "record_forward_pass ctx p st = Inr st1"
  shows "\<exists>st' md'. manager_on_forward_pass_end ctx st1 = Some (Inr st') \<and>
     in_step W m (engine_slots ctx mc) (ec_world_size ctx) (mc_num_logical_experts mc) md' (en_updater st')"
proof -
  obtain K md0 where "loop_inv ctx mc W m K md0 st0 []" using started_inv(2)[OF assms(1,3)] by blast
  from served_inv[OF assms(4,1,2) this] obtain md where "loop_inv ctx mc W m K md st h" by auto
  from loop_step[OF assms(1,2) this assms(5)] obtain st' md' where
    "manager_on_forward_pass_end ctx st1 = Some (Inr st')" "\<exists>h. loop_inv ctx mc W m K md' st' h" by blast
  then show ?thesis by (auto simp: loop_inv_def engine_inv_def)
qed

text \<open>
  (C1) A rebalancing takes effect in bounded time and from fresh data. From any reachable state of the
  counting loop, once the remaining iterations, the rebalancing pass and, with more than one chunk, one
  pass per chunk have been served: the placement computed from the dumped counts is in force on every
  layer with experts, the other layers keep theirs, weights and metadata are in step and the loop counts
  from 1 again. The counts come from exactly the last passes that fit the buffer, every one of them made
  with the placement whose replicas they are attributed to: no count of an earlier placement is used. Assumed (\<open>engine_ok\<close>) are sizes that fit the balancing
  algorithm, and positive numbers of iterations and of buffered passes, and that the recorder keeps no
  utilisation metrics (\<open>engine_started\<close>); with them a rebalancing can be skipped. Elastic expert parallelism is not modelled.
\<close>

theorem rebalance_takes_effect:
  assumes ok: "engine_ok ctx mc" "0 < m" and st0: "engine_started ctx mc W m st0" and st: "served ctx st0 h st"
    and gen: "en_eplb_manager st = Some (InLoop k)" and run: "served ctx st h' st'"
    and left: "left = nat (eplb_rebalance_num_iterations (ec_args ctx)) - k + 1"
    and len: "length h' = left + (if 1 < length (layer_chunks_of ctx st) then length (layer_chunks_of ctx st) else 0)"
    and recent: "recent = drop (length h + left - nat (expert_distribution_recorder_buffer_size (ec_args ctx))) (h @ take left h')"
  shows "\<exists>md lc new md'. global_expert_location_metadata (en_updater st) = Some md \<and>
     int (length recent) = expert_distribution_recorder_buffer_size (ec_args ctx) \<and> list_all (\<lambda>x. snd x = md) recent \<and>
     (\<forall>l < mc_num_layers mc. \<forall>e < mc_num_logical_experts mc. (\<Sum>s < length lc. lc ! s ! l ! e) =
        sum_list (map (\<lambda>x. \<Sum>q | q < engine_physical ctx mc \<and> physical_to_logical_map md ! l ! q = int e.
            pass_selections (fst x) l q) recent)) \<and>
     engine_eplb ctx (de_all_reduce (ec_env ctx) lc) = Inr (Some new) \<and>
     in_step W m (engine_slots ctx mc) (ec_world_size ctx) (mc_num_logical_experts mc) md' (en_updater st') \<and>
     en_eplb_manager st' = Some (InLoop 1) \<and>
     (\<forall>l < mc_num_layers mc. physical_to_logical_map md' ! l = physical_to_logical_map
        (if int l \<in> fst ` set (routed_experts_weights_of_layer (en_updater st0)) then new else md) ! l)"
proof -
  define K where "K = fst ` set (routed_experts_weights_of_layer (en_updater st0))"
  let ?N = "eplb_rebalance_num_iterations (ec_args ctx)" and ?B = "expert_distribution_recorder_buffer_size (ec_args ctx)"
  obtain md0 where "loop_inv ctx mc W m K md0 st0 []" using started_inv(2)[OF ok(1) st0] K_def by blast
  from served_inv[OF st ok this] obtain md where inv: "loop_inv ctx mc W m K md st h" by auto
  have k: "int k \<le> ?N" using inv gen by (auto simp: loop_inv_def)
  obtain h1 x h2 where h': "h' = h1 @ x # h2" "length h1 = nat ?N - k"
    using len left id_take_nth_drop[of "nat ?N - k" h'] that[of "take (nat ?N - k) h'"] by (simp add: min_def)
  from run obtain s1 where s: "served ctx st h1 s1" "served ctx s1 (x # h2) st'"
    unfolding h'(1) by (auto simp: served_append)
  from loop_progress[OF ok inv gen s(1)] k h'(2) have p1: "loop_inv ctx mc W m K md s1 (h @ h1)" "en_eplb_manager s1 = Some (InLoop (k + length h1))"
    "int (k + length h1) = ?N" by auto
  obtain i j where "engine_inv ctx mc W m K md st (recorded_counts ctx mc i h)"
    "engine_inv ctx mc W m K md s1 (recorded_counts ctx mc j (h @ h1))" using inv p1(1) by (auto simp: loop_inv_def)
  from chunks_of_keys[OF this] have l2: "length h2 = (if 1 < length (layer_chunks_of ctx s1) then length (layer_chunks_of ctx s1) else 0)"
    using len left h' by simp
  have r: "recent = drop (Suc (length (h @ h1)) - nat ?B) ((h @ h1) @ [x])" using h' left recent by simp
  from rebalance_completes[OF ok p1 started_inv(1)[OF ok(1) st0] s(2) l2 r] loop_inv_md[OF inv]
  show ?thesis unfolding K_def by blast
qed

text \<open>
  Two layers of three experts on two ranks with two slots each; one pass is counted, then the layers
  switch one after the other.
\<close>

definition loop_model :: ModelConfigForExpertLocation where
  "loop_model = \<lparr>mc_num_layers = 2, mc_num_logical_experts = 3, mc_num_groups = None\<rparr>"

definition loop_ctx :: "(rat, unit, int) engine_context" where
  "loop_ctx = \<lparr>ec_args = example_args\<lparr>ep_dispatch_algorithm := Some ''dynamic'', eplb_rebalance_num_iterations := 1,
       expert_distribution_recorder_buffer_size := 1\<rparr>,
     ec_model_config = Some loop_model, ec_torch = stable_torch,
     ec_active_ranks = [], ec_rng = first_rng, ec_rng_state = (), ec_dist_rank = 0, ec_env = cx_env example_cx,
     ec_world_size = 2, ec_canary = False, ec_exchange = fifo_exchange, ec_exchange_canary = fifo_exchange,
     ec_empty_like = (\<lambda>t. t), ec_empty_like_canary = (\<lambda>t. t)\<rparr>"

definition loop_md :: ExpertLocationMetadata where
  "loop_md = (let p2l = [0, 1, 2, 0]; l2p = [[0, 3], [1, -1], [2, -1]] in
     \<lparr>physical_to_logical_map = [p2l, p2l], physical_to_logical_map_cpu = [p2l, p2l],
      logical_to_all_physical_map = [l2p, l2p], logical_to_all_physical_map_cpu = [l2p, l2p],
      logical_to_all_physical_map_num_valid = [[2, 1, 1], [2, 1, 1]], logical_to_rank_dispatch_physical_map = None\<rparr>)"

definition loop_engine :: "(rat, int) engine" where
  "loop_engine = \<lparr>en_forward_pass_id = 0, en_recorder = Some (fresh_stat_recorder (recorder_context_of loop_ctx loop_md)),
     en_updater = \<lparr>first_execution = True, global_expert_location_metadata = Some loop_md,
       routed_experts_weights_of_layer = [(0, [[[0, 1]], [[2, 0]]]), (1, [[[10, 11]], [[12, 10]]])]\<rparr>,
     en_eplb_manager = None\<rparr>"

definition loop_pass :: "rat engine_pass" where
  "loop_pass = (\<lparr>fb_input_ids = [11], fb_positions = [0], fb_extend_seq_lens = None, fb_forward_mode = 1\<rparr>,
     [(0, OnSelectExperts [[1, 2]] None None), (1, OnSelectExperts [[2, 2]] None None)])"

fun serve_passes ::
  "('f::linordered_field, 'r, 'w) engine_context \<Rightarrow> 'f engine_pass list \<Rightarrow> ('f, 'w) engine \<Rightarrow> ('f, 'w) engine result option" where
  "serve_passes ctx [] st = Some (Inr st)"
| "serve_passes ctx (p # ps) st =
     (case model_runner_forward ctx p st of Some (Inr st') \<Rightarrow> serve_passes ctx ps st' | e \<Rightarrow> e)"

lemma serve_passes_served:
  assumes ok: "engine_ok ctx mc" "0 < m" and "loop_inv ctx mc W m K md st h" "serve_passes ctx ps st = Some (Inr st')"
  shows "\<exists>h'. served ctx st h' st' \<and> length h' = length ps"
  using assms(3,4)
proof (induction ps arbitrary: st h md)
  case (Cons p ps)
  then obtain s1 where s1: "model_runner_forward ctx p st = Some (Inr s1)" "serve_passes ctx ps s1 = Some (Inr st')"
    by (auto split: option.splits sum.splits)
  have one: "served ctx st [((en_forward_pass_id st + 1, p), md)] s1"
    using s1(1) loop_inv_md[OF Cons.prems(1)] by (cases p) (auto simp: served_Cons)
  from served_inv[OF this ok Cons.prems(1)] obtain md' where
    "loop_inv ctx mc W m K md' s1 (h @ [((en_forward_pass_id st + 1, p), md)])" by blast
  from Cons.IH[OF this s1(2)] obtain h' where "served ctx s1 h' st'" "length h' = length ps" by blast
  then show ?case using s1(1) loop_inv_md[OF Cons.prems(1)]
    by (intro exI[of _ "((en_forward_pass_id st + 1, p), md) # h'"]) (cases p, auto simp: served_Cons)
qed simp

definition loop_weights :: "int \<Rightarrow> nat \<Rightarrow> int \<Rightarrow> int" where
  "loop_weights l i e = 10 * l + e"

lemma loop_ctx_ok: "engine_ok loop_ctx loop_model" "engine_slots loop_ctx loop_model = 2"
proof -
  have "compute_algorithm (eplb_algorithm (ec_args loop_ctx)) (mc_num_groups loop_model) (nat (nnodes (ec_args loop_ctx))) = Inr deepseek"
    by code_simp
  then have "eplb_ok (engine_request loop_ctx loop_model [])"
    by (simp add: eplb_ok_def) (simp add: engine_request_def loop_ctx_def loop_model_def args_ok_def
        location_request.truncate_def first_rng_spec stable_torch_spec example_args_def)
  then show "engine_ok loop_ctx loop_model"
    by (simp add: engine_ok_def) (simp add: loop_ctx_def example_args_def example_cx_def fifo_exchange_spec)
  show "engine_slots loop_ctx loop_model = 2" by code_simp
qed

lemma loop_md_ok: "placed 3 2 2 loop_md" "new_ok loop_ctx loop_model loop_md"
proof -
  have nat3: "(\<forall>e < 3. Q e) \<longleftrightarrow> Q 0 \<and> Q 1 \<and> Q (2 :: nat)" for Q by (auto simp: less_Suc_eq eval_nat_numeral)
  have "replicas [0, 1, 2, 0] 0 = [0, 3]" "replicas [0, 1, 2, 0] 1 = [1]" "replicas [0, 1, 2, 0] 2 = [2]" by code_simp+
  then have "layer_ok 3 [0, 1, 2, 0] [[0, 3], [1, -1], [2, -1]] [2, 1, 1] None"
    by (simp add: layer_ok_def nat3)
  moreover have "rect 2 4 (physical_to_logical_map loop_md)" "list_all (valid_layer 3) (physical_to_logical_map loop_md)" by code_simp+
  ultimately show p: "placed 3 2 2 loop_md"
    by (simp add: placed_def wf_metadata_def) (simp add: loop_md_def Let_def num_layers_def less_Suc_eq numeral_2_eq_2)
  show "new_ok loop_ctx loop_model loop_md"
    using p loop_ctx_ok(2) by (simp add: new_ok_def) (simp add: loop_ctx_def loop_model_def loop_md_def Let_def num_layers_def)
qed

lemma loop_started:
  assumes "manager_init loop_ctx loop_engine = Inr st0"
  shows "engine_started loop_ctx loop_model loop_weights 1 st0"
proof -
  have div: "(x :: nat) div 2 = 0 \<longleftrightarrow> x = 0 \<or> x = 1" "(x :: nat) div 2 = 1 \<longleftrightarrow> x = 2 \<or> x = 3" for x by auto
  have p2l: "physical_to_logical_map loop_md = [[0, 1, 2, 0], [0, 1, 2, 0]]" by code_simp
  have "weights_hold loop_weights (\<lambda>_. 1) 2 2 (\<lambda>l. physical_to_logical_map loop_md ! nat l)
      (routed_experts_weights_of_layer (en_updater loop_engine))"
    by (auto simp: p2l weights_hold_def holds_def loop_engine_def dict_ok_def rect_def less_2_cases_iff loop_weights_def div[simplified])
  then have "in_step loop_weights 1 2 2 3 loop_md (en_updater loop_engine)"
    using loop_md_ok(1) by (simp add: in_step_def num_layers_def p2l) (simp add: loop_engine_def)
  moreover have "ec_world_size loop_ctx = 2" "mc_num_logical_experts loop_model = 3" by code_simp+
  moreover have "en_recorder loop_engine = Some (fresh_stat_recorder (recorder_context_of loop_ctx loop_md))"
    by (simp add: loop_engine_def)
  ultimately show ?thesis using assms loop_md_ok(2) loop_ctx_ok(2) unfolding engine_started_def
    by (intro exI[of _ loop_engine] exI[of _ loop_md]) simp
qed

lemma returnsE:
  assumes "case x of None \<Rightarrow> False | Some (Inl e) \<Rightarrow> False | Some (Inr y) \<Rightarrow> Q y"
  obtains y where "x = Some (Inr y)" "Q y"
proof (cases x)
  case (Some z)
  with assms that show ?thesis by (cases z) auto
qed (use assms in simp)

theorem manager_call_returns_witness:
  "\<exists>st0 st1 st' md'. manager_init loop_ctx loop_engine = Inr st0 \<and> record_forward_pass loop_ctx loop_pass st0 = Inr st1 \<and>
     manager_on_forward_pass_end loop_ctx st1 = Some (Inr st') \<and> in_step loop_weights 1 2 2 3 md' (en_updater st')"
proof -
  have "\<not> isl (bind_res (manager_init loop_ctx loop_engine) (record_forward_pass loop_ctx loop_pass))" by code_simp
  then obtain st0 st1 where run: "manager_init loop_ctx loop_engine = Inr st0" "record_forward_pass loop_ctx loop_pass st0 = Inr st1"
    by (cases "manager_init loop_ctx loop_engine"; cases "bind_res (manager_init loop_ctx loop_engine) (record_forward_pass loop_ctx loop_pass)") auto
  have "ec_world_size loop_ctx = 2" "mc_num_logical_experts loop_model = 3" by code_simp+
  then show ?thesis
    using manager_call_returns[OF loop_ctx_ok(1) _ loop_started[OF run(1)] served.nil run(2)] run loop_ctx_ok(2) by auto
qed

theorem rebalance_takes_effect_witness:
  "\<exists>st0 st st' md'. manager_init loop_ctx loop_engine = Inr st0 \<and> serve_passes loop_ctx [loop_pass] st0 = Some (Inr st) \<and>
     serve_passes loop_ctx [loop_pass, loop_pass, loop_pass] st = Some (Inr st') \<and>
     in_step loop_weights 1 2 2 3 md' (en_updater st') \<and> en_eplb_manager st' = Some (InLoop 1)"
proof -
  have "case Some (manager_init loop_ctx loop_engine) of None \<Rightarrow> False | Some (Inl e) \<Rightarrow> False | Some (Inr st0) \<Rightarrow>
     (case serve_passes loop_ctx [loop_pass] st0 of None \<Rightarrow> False | Some (Inl e) \<Rightarrow> False | Some (Inr st) \<Rightarrow>
        (case serve_passes loop_ctx [loop_pass, loop_pass, loop_pass] st of None \<Rightarrow> False | Some (Inl e) \<Rightarrow> False | Some (Inr st') \<Rightarrow>
           en_eplb_manager st = Some (InLoop 1) \<and> length (layer_chunks_of loop_ctx st) = 2))" by code_simp
  then obtain st0 st st' where run: "manager_init loop_ctx loop_engine = Inr st0" "serve_passes loop_ctx [loop_pass] st0 = Some (Inr st)"
    "en_eplb_manager st = Some (InLoop 1)" "length (layer_chunks_of loop_ctx st) = 2"
    "serve_passes loop_ctx [loop_pass, loop_pass, loop_pass] st = Some (Inr st')"
    by (elim returnsE conjE) (simp only: option.inject)
  note started = loop_started[OF run(1)]
  obtain K md where i0: "loop_inv loop_ctx loop_model loop_weights 1 K md st0 []" using started_inv(2)[OF loop_ctx_ok(1) started] by blast
  from serve_passes_served[OF loop_ctx_ok(1) _ this run(2)] obtain h where h: "served loop_ctx st0 h st" by auto
  obtain md1 where "loop_inv loop_ctx loop_model loop_weights 1 K md1 st h" using served_inv[OF h loop_ctx_ok(1) _ i0] by auto
  from serve_passes_served[OF loop_ctx_ok(1) _ this run(5)] obtain h' where h': "served loop_ctx st h' st'" "length h' = 3" by auto
  have "ec_world_size loop_ctx = 2" "mc_num_logical_experts loop_model = 3" "eplb_rebalance_num_iterations (ec_args loop_ctx) = 1" by code_simp+
  then show ?thesis
    using rebalance_takes_effect[OF loop_ctx_ok(1) _ started h run(3) h'(1) refl _ refl] h'(2) run loop_ctx_ok(2) by auto
qed

end
