(* ===== verification/Count_Matrix.thy ===== *)
theory Count_Matrix
  imports Prelude
begin

text \<open>
  \<^verbatim>\<open>metric/utils/process_count_matrix.py\<close>: specialisation, diversity and isolation of the domains of a
  benchmark, computed from one matrix of selection counts (layers by experts) per domain.

  What the script takes from NumPy, pandas and scikit-learn is the record \<open>sci_ops\<close>. A value that
  can become NaN is an option, with \<open>None\<close> for NaN. A data frame is an index with named columns.
\<close>

section \<open>Libraries and data\<close>

record 'f sci_ops =
  sc_log :: "'f \<Rightarrow> 'f"
  sc_mean :: "'f list \<Rightarrow> 'f"
  sc_singular_values :: "'f list list \<Rightarrow> 'f list"
  sc_cosine_similarity :: "'f list list \<Rightarrow> 'f list list \<Rightarrow> 'f list list"
  sc_round4 :: "'f \<Rightarrow> 'f"
  sc_pca2 :: "'f list list \<Rightarrow> ('f list list \<times> 'f list) result"

type_synonym 'f domain_matrices = "(string \<times> 'f list list) list"

record 'f frame =
  frame_index :: "string list"
  frame_columns :: "(string \<times> 'f option list) list"

definition frame_column :: "'f frame \<Rightarrow> string \<Rightarrow> 'f option list result" where
  "frame_column df name = (case map_of (frame_columns df) name of None \<Rightarrow> Inl KeyError | Some c \<Rightarrow> Inr c)"

text \<open>\<^verbatim>\<open>Series.mean()\<close> leaves out NaN; without any value the mean is NaN.\<close>

definition series_mean :: "'f sci_ops \<Rightarrow> 'f option list \<Rightarrow> 'f option" where
  "series_mean sc c = (let xs = map the (filter (\<lambda>x. x \<noteq> None) c) in if xs = [] then None else Some (sc_mean sc xs))"

text \<open>\<^verbatim>\<open>matrix.shape[1]\<close> of a frame, which has at least one row.\<close>

definition n_columns :: "'f list list \<Rightarrow> nat" where
  "n_columns m = (case m of [] \<Rightarrow> 0 | row # _ \<Rightarrow> length row)"

text \<open>\<^verbatim>\<open>np.array\<close> of a list of vectors: they must have the same length.\<close>

definition np_array :: "'f list list \<Rightarrow> 'f list list result" where
  "np_array rows = (if \<forall>row \<in> set rows. length row = n_columns rows then Inr rows else Inl ValueError)"

section \<open>Normalisation\<close>

definition normalize_row :: "('f::linordered_field) list \<Rightarrow> 'f list" where
  "normalize_row row = (let s = sum_list row; row_sum = (if s = 0 then 1 else s) in map (\<lambda>x. x / row_sum) row)"

definition normalize_data :: "('f::linordered_field) domain_matrices \<Rightarrow> 'f domain_matrices" where
  "normalize_data raw = map (\<lambda>(domain, m). (domain, map normalize_row m)) raw"

section \<open>Indicators of a domain\<close>

text \<open>The divergence of a row from the uniform distribution.\<close>

definition kl_score :: "('f::linordered_field) sci_ops \<Rightarrow> nat \<Rightarrow> 'f list \<Rightarrow> 'f" where
  "kl_score sc n_experts row =
     (let uniform = 1 / of_nat n_experts;
          shifted = map (\<lambda>x. x + 1 / 10 ^ 10) row;
          total = sum_list shifted;
          p_safe = map (\<lambda>x. x / total) shifted
      in sum_list (map (\<lambda>p. p * sc_log sc (p / uniform)) p_safe))"

text \<open>The quotient is 0/0, which is NaN, exactly when all singular values vanish.\<close>

definition effective_rank :: "('f::linordered_field) list \<Rightarrow> 'f option" where
  "effective_rank s =
     (let squares = sum_list (map (\<lambda>x. x ^ 2) s) in if squares = 0 then None else Some (sum_list s ^ 2 / squares))"

definition norm_diversity :: "nat \<Rightarrow> nat \<Rightarrow> ('f::linordered_field) list \<Rightarrow> 'f option" where
  "norm_diversity n_layers n_experts s = map_option (\<lambda>r. min (r / of_nat (min n_layers n_experts)) 1) (effective_rank s)"

record 'f indicators =
  Domain :: string
  Routing_Specialization :: 'f
  Internal_Diversity :: "'f option"
  Condition_Number :: 'f
  Effective_Rank :: "'f option"

definition domain_indicators :: "('f::linordered_field) sci_ops \<Rightarrow> string \<times> 'f list list \<Rightarrow> 'f indicators result" where
  "domain_indicators sc item =
     (case item of (domain, matrix) \<Rightarrow>
      let n_layers = length matrix; n_experts = n_columns matrix; s = sc_singular_values sc matrix in
      bind_res (py_nth s 0) (\<lambda>largest.
      bind_res (py_nth s (-1)) (\<lambda>smallest.
      Inr \<lparr>Domain = domain,
           Routing_Specialization = sc_mean sc (map (kl_score sc n_experts) matrix),
           Internal_Diversity = norm_diversity n_layers n_experts s,
           Condition_Number = largest / (smallest + 1 / 10 ^ 10),
           Effective_Rank = effective_rank s\<rparr>)))"

text \<open>\<^verbatim>\<open>pd.DataFrame(results).set_index('Domain')\<close>: without results there is no such column.\<close>

definition metrics_frame :: "'f indicators list \<Rightarrow> 'f frame result" where
  "metrics_frame results =
     (if results = [] then Inl KeyError
      else Inr \<lparr>frame_index = map Domain results,
                frame_columns = [(''Routing_Specialization'', map (Some \<circ> Routing_Specialization) results),
                                 (''Internal_Diversity'', map Internal_Diversity results),
                                 (''Condition_Number'', map (Some \<circ> Condition_Number) results),
                                 (''Effective_Rank'', map Effective_Rank results)]\<rparr>)"

section \<open>The analyzer of a model\<close>

record 'f model_score =
  ms_model_name :: string
  ms_total :: "'f option"
  ms_specialization :: "'f option"
  ms_isolation :: "'f option"

record 'f analyzer =
  an_model_name :: string
  an_raw_data :: "'f domain_matrices"
  an_normalized_data :: "'f domain_matrices"
  an_metrics_df :: "'f frame option"
  an_similarity_df :: "'f list list option"
  an_model_score :: "'f model_score option"

definition analyzer_init :: "string \<Rightarrow> ('f::linordered_field) domain_matrices \<Rightarrow> 'f analyzer" where
  "analyzer_init model_name domain_matrices =
     \<lparr>an_model_name = model_name, an_raw_data = domain_matrices, an_normalized_data = normalize_data domain_matrices,
      an_metrics_df = None, an_similarity_df = None, an_model_score = None\<rparr>"

definition compute_domain_similarity :: "'f sci_ops \<Rightarrow> 'f analyzer \<Rightarrow> 'f analyzer result" where
  "compute_domain_similarity sc a =
     bind_res (np_array (map (\<lambda>(_, m). concat m) (an_normalized_data a))) (\<lambda>vectors.
     Inr (a\<lparr>an_similarity_df := Some (sc_cosine_similarity sc vectors vectors)\<rparr>))"

definition drop_at :: "nat \<Rightarrow> 'a list \<Rightarrow> 'a list" where
  "drop_at i xs = take i xs @ drop (Suc i) xs"

definition isolation_scores :: "('f::linordered_field) sci_ops \<Rightarrow> nat \<Rightarrow> 'f list list \<Rightarrow> 'f list" where
  "isolation_scores sc n sims =
     (if 1 < n then map (\<lambda>i. 1 - sc_mean sc (drop_at i (sims ! i))) [0..<n] else replicate n 0)"

definition analyze_indicators :: "('f::linordered_field) sci_ops \<Rightarrow> 'f analyzer \<Rightarrow> 'f analyzer result" where
  "analyze_indicators sc a =
     bind_res (map_res (domain_indicators sc) (an_normalized_data a)) (\<lambda>results.
     bind_res (metrics_frame results) (\<lambda>df.
     bind_res (compute_domain_similarity sc (a\<lparr>an_metrics_df := Some df\<rparr>)) (\<lambda>a'.
     let iso = isolation_scores sc (length (frame_index df)) (the (an_similarity_df a'))
     in Inr (a'\<lparr>an_metrics_df := Some (df\<lparr>frame_columns := AList.update ''Domain_Isolation'' (map Some iso) (frame_columns df)\<rparr>)\<rparr>))))"

definition ensure_metrics :: "('f::linordered_field) sci_ops \<Rightarrow> 'f analyzer \<Rightarrow> 'f analyzer result" where
  "ensure_metrics sc a = (if an_metrics_df a = None then analyze_indicators sc a else Inr a)"

definition calculate_model_score :: "('f::linordered_field) sci_ops \<Rightarrow> 'f analyzer \<Rightarrow> 'f analyzer result" where
  "calculate_model_score sc a =
     bind_res (ensure_metrics sc a) (\<lambda>a'.
     bind_res (frame_column (the (an_metrics_df a')) ''NRS'') (\<lambda>nrs.
     bind_res (frame_column (the (an_metrics_df a')) ''Domain_Isolation'') (\<lambda>iso.
     let avg_spec = series_mean sc nrs; avg_iso = series_mean sc iso;
         esi_score = (case (avg_spec, avg_iso) of (Some s, Some i) \<Rightarrow> Some (1 / 2 * (s / 2) + 1 / 2 * i) | _ \<Rightarrow> None);
         round4 = map_option (sc_round4 sc)
     in Inr (a'\<lparr>an_model_score := Some \<lparr>ms_model_name = an_model_name a', ms_total = round4 esi_score,
                  ms_specialization = round4 avg_spec, ms_isolation = round4 avg_iso\<rparr>\<rparr>))))"

text \<open>The three sheets of the report.\<close>

type_synonym 'f report = "'f model_score \<times> 'f frame \<times> 'f list list"

definition save_analysis_report :: "('f::linordered_field) sci_ops \<Rightarrow> 'f analyzer \<Rightarrow> ('f report \<times> 'f analyzer) result" where
  "save_analysis_report sc a =
     bind_res (ensure_metrics sc a) (\<lambda>a1.
     bind_res (if an_model_score a1 = None then calculate_model_score sc a1 else Inr a1) (\<lambda>a2.
     Inr ((the (an_model_score a2), the (an_metrics_df a2), the (an_similarity_df a2)), a2)))"

definition analyze_pca_clustering :: "'f sci_ops \<Rightarrow> 'f analyzer \<Rightarrow> ('f list list \<times> string list \<times> 'f list) result" where
  "analyze_pca_clustering sc a =
     bind_res (np_array (map (\<lambda>(_, m). concat m) (an_normalized_data a))) (\<lambda>X.
     bind_res (sc_pca2 sc X) (\<lambda>(X_pca, variance). Inr (X_pca, map fst (an_normalized_data a), variance)))"

text \<open>The name \<^verbatim>\<open>UMAP\<close> is never imported.\<close>

definition analyze_umap_clustering :: "'f analyzer \<Rightarrow> ('f list list \<times> string list) result" where
  "analyze_umap_clustering a =
     bind_res (np_array (map (\<lambda>(_, m). concat m) (an_normalized_data a))) (\<lambda>_. Inl NameError)"

section \<open>The analyzer of the layers\<close>

record 'f layer_analyzer =
  la_model_name :: string
  la_normalized_data :: "'f domain_matrices"
  la_n_layers :: nat
  la_spec_df :: "(string \<times> 'f list) list option"
  la_iso_df :: "(string \<times> 'f list) list option"
  la_corr_matrices :: "(string \<times> 'f list list) list"

definition layer_analyzer_init :: "string \<Rightarrow> ('f::linordered_field) domain_matrices \<Rightarrow> 'f layer_analyzer" where
  "layer_analyzer_init model_name domain_matrices =
     \<lparr>la_model_name = model_name, la_normalized_data = normalize_data domain_matrices,
      la_n_layers = fold (\<lambda>(_, m) n. if n = 0 then length m else n) domain_matrices 0,
      la_spec_df = None, la_iso_df = None, la_corr_matrices = []\<rparr>"

text \<open>\<^verbatim>\<open>pd.DataFrame\<close> of a dictionary of lists: they must have the same length.\<close>

definition columns_frame :: "(string \<times> 'f list) list \<Rightarrow> (string \<times> 'f list) list result" where
  "columns_frame cols = (if \<forall>c \<in> set cols. length (snd c) = length (snd (hd cols)) then Inr cols else Inl ValueError)"

definition layer_similarity :: "'f sci_ops \<Rightarrow> 'f list \<Rightarrow> 'f list list \<Rightarrow> nat \<Rightarrow> 'f result" where
  "layer_similarity sc target_vec other l =
     bind_res (py_nth other (int l)) (\<lambda>other_vec.
     if length other_vec = length target_vec then Inr (sc_cosine_similarity sc [target_vec] [other_vec] ! 0 ! 0)
     else Inl ValueError)"

definition layer_isolation :: "('f::linordered_field) sci_ops \<Rightarrow> 'f domain_matrices \<Rightarrow> string \<times> 'f list list \<Rightarrow> nat \<Rightarrow> 'f result" where
  "layer_isolation sc data target l =
     bind_res (py_nth (snd target) (int l)) (\<lambda>target_vec.
     bind_res (map_res (\<lambda>(_, other). layer_similarity sc target_vec other l) (filter (\<lambda>(d, _). d \<noteq> fst target) data)) (\<lambda>other_sims.
     Inr (1 - (if other_sims = [] then 1 else sc_mean sc other_sims))))"

definition analyze_layer_trajectories :: "('f::linordered_field) sci_ops \<Rightarrow> 'f layer_analyzer \<Rightarrow> 'f layer_analyzer result" where
  "analyze_layer_trajectories sc a =
     bind_res (columns_frame (map (\<lambda>(d, m). (d, map (kl_score sc (n_columns m)) m)) (la_normalized_data a))) (\<lambda>spec.
     bind_res (map_res (\<lambda>target. bind_res (map_res (layer_isolation sc (la_normalized_data a) target) [0..<la_n_layers a])
                          (\<lambda>isos. Inr (fst target, isos))) (la_normalized_data a)) (\<lambda>iso_data.
     bind_res (columns_frame iso_data) (\<lambda>iso.
     Inr (a\<lparr>la_spec_df := Some spec, la_iso_df := Some iso\<rparr>))))"

definition analyze_layer_correlations :: "'f sci_ops \<Rightarrow> 'f layer_analyzer \<Rightarrow> string list option \<Rightarrow> 'f layer_analyzer" where
  "analyze_layer_correlations sc a target_domains =
     fold (\<lambda>domain a. case map_of (la_normalized_data a) domain of
              None \<Rightarrow> a
            | Some m \<Rightarrow> a\<lparr>la_corr_matrices := AList.update domain (sc_cosine_similarity sc m m) (la_corr_matrices a)\<rparr>)
       (case target_domains of None \<Rightarrow> map fst (la_normalized_data a) | Some ds \<Rightarrow> ds) a"

text \<open>The similarity matrices that are drawn, with their layers.\<close>

definition analyze_specific_layer_similarity ::
  "'f sci_ops \<Rightarrow> 'f layer_analyzer \<Rightarrow> int list \<Rightarrow> (int \<times> 'f list list) list result" where
  "analyze_specific_layer_similarity sc a layer_indices =
     (if la_normalized_data a = [] then Inr []
      else map_res (\<lambda>idx. bind_res (map_res (\<lambda>(_, m). py_nth m idx) (la_normalized_data a)) (\<lambda>rows.
                          bind_res (np_array rows) (\<lambda>X. Inr (idx, sc_cosine_similarity sc X X))))
             (filter (\<lambda>idx. 0 \<le> idx \<and> idx < int (la_n_layers a)) layer_indices))"

type_synonym 'f layer_report = "(string \<times> 'f list) list \<times> (string \<times> 'f list) list \<times> (string \<times> 'f list list) list"

definition save_results :: "('f::linordered_field) sci_ops \<Rightarrow> 'f layer_analyzer \<Rightarrow> ('f layer_report \<times> 'f layer_analyzer) result" where
  "save_results sc a =
     bind_res (if la_spec_df a = None then analyze_layer_trajectories sc a else Inr a) (\<lambda>a'.
     Inr ((the (la_spec_df a'), the (la_iso_df a'),
           map (\<lambda>(domain, m). (''Corr_'' @ take 10 domain, m)) (take 3 (la_corr_matrices a'))), a'))"

section \<open>The script\<close>

definition load_domains :: "(string \<Rightarrow> 'f list list option) \<Rightarrow> (string \<times> string) list option \<Rightarrow> 'f domain_matrices" where
  "load_domains read_csv domain_config =
     (case domain_config of None \<Rightarrow> []
      | Some config \<Rightarrow> fold (\<lambda>(domain, path) data. case read_csv path of
                                None \<Rightarrow> data | Some m \<Rightarrow> AList.update domain m data) config [])"

definition main_count_matrix ::
  "('f::linordered_field) sci_ops \<Rightarrow> (string \<Rightarrow> 'f list list option) \<Rightarrow> string \<Rightarrow> (string \<times> string) list option
   \<Rightarrow> ('f report \<times> 'f layer_report \<times> (int \<times> 'f list list) list) result" where
  "main_count_matrix sc read_csv model_name domain_config =
     (let domain_data = load_domains read_csv domain_config in
      bind_res (save_analysis_report sc (analyzer_init model_name domain_data)) (\<lambda>(report, a).
      bind_res (analyze_pca_clustering sc a) (\<lambda>_.
      bind_res (analyze_layer_trajectories sc (layer_analyzer_init model_name domain_data)) (\<lambda>la.
      bind_res (save_results sc (analyze_layer_correlations sc la (Some [''Math'', ''Medical'', ''Knowledge'', ''Science'']))) (\<lambda>(layers, la').
      bind_res (py_nth domain_data 0) (\<lambda>first.
      let n_layers = int (length (snd first)) in
      bind_res (analyze_specific_layer_similarity sc la' [0, n_layers div 2, n_layers - 1]) (\<lambda>similarities.
      Inr (report, layers, similarities))))))))"

section \<open>What the libraries promise\<close>

definition dot :: "real list \<Rightarrow> real list \<Rightarrow> real" where
  "dot x y = sum_list (map2 (*) x y)"

text \<open>
  The natural logarithm; the mean of a non-empty array; singular values that are not negative, one for
  each row or column, whichever are fewer, with the Frobenius norm as their Euclidean norm; and the
  cosine of each pair of rows, which is 0 where a row vanishes.
\<close>

definition sci_spec :: "real sci_ops \<Rightarrow> bool" where
  "sci_spec sc \<longleftrightarrow>
     (\<forall>x > 0. sc_log sc x = ln x) \<and>
     (\<forall>xs. xs \<noteq> [] \<longrightarrow> sc_mean sc xs = sum_list xs / length xs) \<and>
     (\<forall>m. m \<noteq> [] \<and> (\<forall>row \<in> set m. length row = n_columns m) \<longrightarrow>
        length (sc_singular_values sc m) = min (length m) (n_columns m) \<and> (\<forall>s \<in> set (sc_singular_values sc m). 0 \<le> s) \<and>
        sum_list (map (\<lambda>s. s ^ 2) (sc_singular_values sc m)) = sum_list (map (\<lambda>row. dot row row) m)) \<and>
     (\<forall>X Y. length (sc_cosine_similarity sc X Y) = length X \<and>
        (\<forall>i < length X. length (sc_cosine_similarity sc X Y ! i) = length Y \<and>
           (\<forall>j < length Y. length (X ! i) = length (Y ! j) \<longrightarrow>
              sc_cosine_similarity sc X Y ! i ! j = dot (X ! i) (Y ! j) / (sqrt (dot (X ! i) (X ! i)) * sqrt (dot (Y ! j) (Y ! j))))))"

lemma sci_specD:
  assumes "sci_spec sc"
  shows "0 < x \<Longrightarrow> sc_log sc x = ln x"
    and "xs \<noteq> [] \<Longrightarrow> sc_mean sc xs = sum_list xs / length xs"
    and "m \<noteq> [] \<Longrightarrow> \<forall>row \<in> set m. length row = n_columns m \<Longrightarrow>
      length (sc_singular_values sc m) = min (length m) (n_columns m) \<and> (\<forall>s \<in> set (sc_singular_values sc m). 0 \<le> s) \<and>
      sum_list (map (\<lambda>s. s ^ 2) (sc_singular_values sc m)) = sum_list (map (\<lambda>row. dot row row) m)"
    and "length (sc_cosine_similarity sc X Y) = length X"
    and "i < length X \<Longrightarrow> length (sc_cosine_similarity sc X Y ! i) = length Y"
    and "i < length X \<Longrightarrow> j < length Y \<Longrightarrow> length (X ! i) = length (Y ! j) \<Longrightarrow>
      sc_cosine_similarity sc X Y ! i ! j = dot (X ! i) (Y ! j) / (sqrt (dot (X ! i) (X ! i)) * sqrt (dot (Y ! j) (Y ! j)))"
  using assms by (simp_all add: sci_spec_def)

section \<open>Specialisation\<close>

lemma kl_term:
  fixes x u :: real
  assumes "0 < x" "0 < u"
  shows "x - u \<le> x * ln (x / u)" and "x * ln (x / u) = x - u \<longleftrightarrow> x = u"
proof -
  have neg: "ln (x / u) = - ln (u / x)" using assms by (simp add: ln_div)
  have "ln (u / x) \<le> u / x - 1" using assms by (intro ln_le_minus_one) simp
  then have "x * (1 - u / x) \<le> x * ln (x / u)" unfolding neg using assms by (intro mult_left_mono) auto
  moreover have e: "x * (1 - u / x) = x - u" using assms by (simp add: field_simps)
  ultimately show "x - u \<le> x * ln (x / u)" by simp
  show "x * ln (x / u) = x - u \<longleftrightarrow> x = u"
  proof
    assume "x * ln (x / u) = x - u"
    then have "ln (x / u) = 1 - u / x" unfolding e[symmetric] using assms by simp
    then have "ln (u / x) = u / x - 1" unfolding neg by simp
    then have "u / x = 1" using assms by (intro ln_eq_minus_one) auto
    then show "x = u" using assms by simp
  qed (use assms in simp)
qed

lemma sum_list_minus_const: "sum_list (map (\<lambda>x. f x - u) xs) = sum_list (map f xs) - real (length xs) * (u :: real)"
  by (induction xs) (auto simp: algebra_simps)

text \<open>The divergence of a distribution from the uniform one.\<close>

lemma kl_bounds:
  fixes p :: "real list"
  assumes p: "\<forall>x \<in> set p. 0 < x" "sum_list p = 1" and u: "u = 1 / length p"
  shows "0 \<le> (\<Sum>x\<leftarrow>p. x * ln (x / u))" and "(\<Sum>x\<leftarrow>p. x * ln (x / u)) \<le> ln (length p)"
    and "(\<Sum>x\<leftarrow>p. x * ln (x / u)) = 0 \<longleftrightarrow> (\<forall>x \<in> set p. x = u)"
proof -
  have ne: "p \<noteq> []" using p(2) by auto
  then have upos: "0 < u" and nu: "length p * u = 1" by (simp_all add: u)
  let ?d = "\<lambda>x. x * ln (x / u) - (x - u)"
  have d: "0 \<le> y" if "y \<in> set (map ?d p)" for y using that p(1) upos kl_term(1) by auto
  have "(\<Sum>x\<leftarrow>p. x * ln (x / u)) = sum_list (map ?d p) + (\<Sum>x\<leftarrow>p. x - u)"
    by (simp add: sum_list_addf[symmetric])
  also have "(\<Sum>x\<leftarrow>p. x - u) = 0" using sum_list_minus_const[of "\<lambda>x. x" u p] p(2) nu by simp
  finally have eq: "(\<Sum>x\<leftarrow>p. x * ln (x / u)) = sum_list (map ?d p)" by simp
  show "0 \<le> (\<Sum>x\<leftarrow>p. x * ln (x / u))" unfolding eq using d by (rule sum_list_nonneg)
  have "sum_list (map ?d p) = 0 \<longleftrightarrow> (\<forall>x \<in> set (map ?d p). x = 0)" using d by (rule sum_list_nonneg_eq_0_iff)
  also have "\<dots> \<longleftrightarrow> (\<forall>x \<in> set p. x = u)" using p(1) upos kl_term(2) by auto
  finally show "(\<Sum>x\<leftarrow>p. x * ln (x / u)) = 0 \<longleftrightarrow> (\<forall>x \<in> set p. x = u)" unfolding eq .
  have "x * ln (x / u) \<le> x * ln (length p)" if "x \<in> set p" for x
  proof -
    have "x \<le> 1" using member_le_sum_list[OF that] p by (simp add: less_imp_le)
    moreover have "x / u = x * length p" by (simp add: u)
    ultimately have "ln (x / u) \<le> ln (length p)" using p(1) that ne by (subst ln_le_cancel_iff) auto
    then show ?thesis using p(1) that by (intro mult_left_mono) auto
  qed
  then have "(\<Sum>x\<leftarrow>p. x * ln (x / u)) \<le> (\<Sum>x\<leftarrow>p. x * ln (length p))" by (rule sum_list_mono)
  also have "\<dots> = sum_list p * ln (length p)" by (simp add: sum_list_mult_const)
  finally show "(\<Sum>x\<leftarrow>p. x * ln (x / u)) \<le> ln (length p)" using p(2) by simp
qed

lemma kl_score_bounds:
  assumes sc: "sci_spec sc" and row: "row \<noteq> []" "\<forall>x \<in> set row. 0 \<le> x"
  shows "0 \<le> kl_score sc (length row) row" and "kl_score sc (length row) row \<le> ln (length row)"
    and "kl_score sc (length row) row = 0 \<longleftrightarrow> (\<forall>x \<in> set row. x = hd row)"
proof -
  let ?e = "1 / 10 ^ 10 :: real"
  let ?q = "map (\<lambda>x. x + ?e) row"
  let ?t = "sum_list ?q"
  let ?p = "map (\<lambda>x. x / ?t) ?q"
  let ?u = "1 / real (length row)"
  have q: "0 < x" if "x \<in> set ?q" for x using that row(2) by (auto intro: add_nonneg_pos)
  obtain x xs where r: "row = x # xs" using row(1) by (cases row) auto
  have "0 \<le> sum_list (map (\<lambda>x. x + ?e) xs)" using row(2) unfolding r by (intro sum_list_nonneg) auto
  moreover have "0 < x + ?e" using q[of "x + ?e"] by (simp add: r)
  ultimately have t: "0 < ?t" unfolding r by (simp add: add_pos_nonneg)
  have p: "\<forall>x \<in> set ?p. 0 < x" using q t by auto
  have "sum_list ?p = ?t / ?t" by (simp only: sum_list_div map_ident)
  then have one: "sum_list ?p = 1" using t by simp
  have log: "sc_log sc (y / ?u) = ln (y / ?u)" if "y \<in> set ?p" for y
    using row(1) by (intro sci_specD(1)[OF sc] divide_pos_pos bspec[OF p that]) auto
  have "kl_score sc (length row) row = (\<Sum>x\<leftarrow>?p. x * ln (x / ?u))"
    unfolding kl_score_def Let_def by (intro arg_cong[of _ _ sum_list] map_cong refl) (simp only: log)
  note b = this kl_bounds[OF p one, of ?u]
  show "0 \<le> kl_score sc (length row) row" "kl_score sc (length row) row \<le> ln (length row)" using b by simp_all
  have "(\<forall>y \<in> set ?p. y = ?u) \<longleftrightarrow> (\<forall>y \<in> set row. y = hd row)"
  proof
    assume all: "\<forall>y \<in> set ?p. y = ?u"
    then have "y + ?e = ?u * ?t" if "y \<in> set row" for y using that t by (auto simp: field_simps)
    then have "y + ?e = hd row + ?e" if "y \<in> set row" for y using that row(1) hd_in_set by metis
    then show "\<forall>y \<in> set row. y = hd row" by simp
  next
    assume const: "\<forall>y \<in> set row. y = hd row"
    then have "map (\<lambda>x. x + ?e) row = map (\<lambda>x. hd row + ?e) row" by auto
    then have "?t = length row * (hd row + ?e)" by (simp only: sum_list_triv)
    then have "(hd row + ?e) / ?t = ?u" using t row(1) by (simp add: field_simps)
    then show "\<forall>y \<in> set ?p. y = ?u" using const by auto
  qed
  then show "kl_score sc (length row) row = 0 \<longleftrightarrow> (\<forall>x \<in> set row. x = hd row)" using b by simp
qed
section \<open>Diversity\<close>

lemma sum_squares_le: "\<forall>x \<in> set xs. 0 \<le> (x :: real) \<Longrightarrow> (\<Sum>x\<leftarrow>xs. x ^ 2) \<le> sum_list xs ^ 2"
proof (induction xs)
  case (Cons x xs)
  then have "0 \<le> x * sum_list xs" by (intro mult_nonneg_nonneg sum_list_nonneg) auto
  with Cons show ?case by (simp add: power2_eq_square algebra_simps)
qed simp

lemma sum_shifted_squares: "(\<Sum>x\<leftarrow>xs. (x - m) ^ 2) = (\<Sum>x\<leftarrow>xs. x ^ 2) - 2 * m * sum_list xs + real (length xs) * m ^ 2"
  by (induction xs) (simp_all add: power2_eq_square algebra_simps)

lemma square_sum_le: "sum_list xs ^ 2 \<le> real (length xs) * (\<Sum>x\<leftarrow>xs. x ^ 2)"
proof (cases "xs = []")
  case False
  let ?n = "real (length xs)" and ?m = "sum_list xs / real (length xs)"
  have "0 \<le> (\<Sum>x\<leftarrow>xs. (x - ?m) ^ 2)" by (intro sum_list_nonneg) auto
  then have "0 \<le> ?n * ((\<Sum>x\<leftarrow>xs. x ^ 2) - 2 * ?m * sum_list xs + ?n * ?m ^ 2)" unfolding sum_shifted_squares by simp
  also have "\<dots> = ?n * (\<Sum>x\<leftarrow>xs. x ^ 2) - 2 * (?n * ?m) * sum_list xs + (?n * ?m) ^ 2" by (simp add: power2_eq_square algebra_simps)
  also have "?n * ?m = sum_list xs" using False by simp
  finally show ?thesis by (simp add: power2_eq_square)
qed simp

lemma norm_diversity_bounds:
  assumes "\<forall>x \<in> set s. 0 \<le> x" and len: "length s = min L E" and d: "norm_diversity L E s = Some d"
  shows "1 / real (min L E) \<le> d \<and> d \<le> 1"
proof -
  let ?q = "\<Sum>x\<leftarrow>s. x ^ 2" and ?k = "real (min L E)"
  have q: "?q \<noteq> 0" "d = min (sum_list s ^ 2 / ?q / ?k) 1"
    using d by (auto simp: norm_diversity_def effective_rank_def Let_def split: if_splits)
  have "0 \<le> ?q" by (intro sum_list_nonneg) auto
  then have pos: "0 < ?q" using q by simp
  have "s \<noteq> []" using q(1) by auto
  then have k: "1 \<le> ?k" using len by (cases s) auto
  have "1 \<le> sum_list s ^ 2 / ?q" using sum_squares_le[OF assms(1)] pos by simp
  then have "1 / ?k \<le> sum_list s ^ 2 / ?q / ?k" using k by (intro divide_right_mono) auto
  moreover have "1 / ?k \<le> 1" using k by simp
  ultimately show ?thesis using q(2) by simp
qed

section \<open>Similarity\<close>

lemma dot_Cons [simp]: "dot (x # xs) (y # ys) = x * y + dot xs ys"
  by (simp add: dot_def)

lemma dot_Nil [simp]: "dot [] ys = 0" "dot xs [] = 0"
  by (simp_all add: dot_def)

lemma dot_nonneg: "\<forall>a \<in> set x. 0 \<le> a \<Longrightarrow> \<forall>b \<in> set y. 0 \<le> b \<Longrightarrow> 0 \<le> dot x y"
  by (auto simp: dot_def intro!: sum_list_nonneg dest!: set_zip_leftD set_zip_rightD elim!: in_set_zipE)

lemma dot_self_nonneg: "0 \<le> dot x x"
  by (induction x) auto

lemma dot_self_zero: "dot x x = 0 \<Longrightarrow> dot y x = 0"
proof (induction x arbitrary: y)
  case (Cons a x)
  have "0 \<le> a * a" "0 \<le> dot x x" using dot_self_nonneg by auto
  then have "a * a = 0" "dot x x = 0" using Cons.prems unfolding dot_Cons by linarith+
  then show ?case using Cons.IH by (cases y) auto
qed simp

lemma dot_combination:
  assumes "length x = length y"
  shows "(\<Sum>(u, v)\<leftarrow>zip x y. (a * u - b * v) ^ 2) = a ^ 2 * dot x x - 2 * a * b * dot x y + b ^ 2 * dot y y"
  using assms by (induction x y rule: list_induct2) (simp_all add: power2_eq_square algebra_simps)

lemma cauchy_schwarz:
  assumes "length x = length y"
  shows "dot x y ^ 2 \<le> dot x x * dot y y"
proof (cases "dot y y = 0")
  case True
  then show ?thesis using dot_self_zero[OF True] by simp
next
  case False
  then have pos: "0 < dot y y" using dot_self_nonneg[of y] by simp
  have "0 \<le> (\<Sum>(u, v)\<leftarrow>zip x y. (dot y y * u - dot x y * v) ^ 2)" by (intro sum_list_nonneg) auto
  also have "\<dots> = dot y y * (dot x x * dot y y - dot x y ^ 2)"
    unfolding dot_combination[OF assms] by (simp add: power2_eq_square algebra_simps)
  finally show ?thesis using pos by (simp add: zero_le_mult_iff)
qed

text \<open>The cosine of two vectors, and its range for vectors of counts.\<close>

definition cosine :: "real list \<Rightarrow> real list \<Rightarrow> real" where
  "cosine x y = dot x y / (sqrt (dot x x) * sqrt (dot y y))"

lemma cosine_bounds:
  assumes "length x = length y" "\<forall>a \<in> set x. 0 \<le> a" "\<forall>b \<in> set y. 0 \<le> b"
  shows "0 \<le> cosine x y \<and> cosine x y \<le> 1"
proof -
  let ?n = "sqrt (dot x x) * sqrt (dot y y)"
  have d: "0 \<le> dot x y" using dot_nonneg assms by blast
  have n: "0 \<le> ?n" using dot_self_nonneg by simp
  have "dot x y ^ 2 \<le> ?n ^ 2" 
    unfolding power_mult_distrib real_sqrt_pow2[OF dot_self_nonneg] by (rule cauchy_schwarz[OF assms(1)])
  from this n have "dot x y \<le> ?n" by (rule power2_le_imp_le)
  moreover have "0 \<le> dot x y / ?n" using d n by (rule divide_nonneg_nonneg)
  ultimately show ?thesis using n unfolding cosine_def by (simp only: divide_le_eq_1) auto
qed

lemma mean_between:
  assumes sc: "sci_spec sc" and "xs \<noteq> []" and "\<forall>x \<in> set xs. 0 \<le> x \<and> x \<le> b"
  shows "0 \<le> sc_mean sc xs \<and> sc_mean sc xs \<le> b"
proof -
  have "0 \<le> sum_list xs" using assms(3) by (intro sum_list_nonneg) auto
  moreover have "sum_list (map id xs) \<le> sum_list (map (\<lambda>_. b) xs)" using assms(3) by (intro sum_list_mono) auto
  ultimately show ?thesis using assms(2) by (auto simp: sci_specD(2)[OF sc] sum_list_triv field_simps)
qed
section \<open>The indicators of all domains\<close>

text \<open>One matrix of counts per domain, all of the same shape.\<close>

definition matrix_ok :: "nat \<Rightarrow> nat \<Rightarrow> real list list \<Rightarrow> bool" where
  "matrix_ok L E m \<longleftrightarrow> length m = L \<and> (\<forall>row \<in> set m. length row = E \<and> (\<forall>x \<in> set row. 0 \<le> x))"

definition counts_ok :: "nat \<Rightarrow> nat \<Rightarrow> real domain_matrices \<Rightarrow> bool" where
  "counts_ok L E data \<longleftrightarrow> data \<noteq> [] \<and> 0 < L \<and> 0 < E \<and> distinct (map fst data) \<and> (\<forall>item \<in> set data. matrix_ok L E (snd item))"

lemma normalize_row_props:
  fixes row :: "real list"
  assumes "\<forall>x \<in> set row. 0 \<le> x"
  shows "length (normalize_row row) = length row" and "\<forall>x \<in> set (normalize_row row). 0 \<le> x"
    and "(\<forall>x \<in> set (normalize_row row). x = 0) \<longleftrightarrow> (\<forall>x \<in> set row. x = 0)"
proof -
  have "0 \<le> sum_list row" using assms by (intro sum_list_nonneg) auto
  then show "length (normalize_row row) = length row" "\<forall>x \<in> set (normalize_row row). 0 \<le> x"
    "(\<forall>x \<in> set (normalize_row row). x = 0) \<longleftrightarrow> (\<forall>x \<in> set row. x = 0)"
    using assms by (auto simp: normalize_row_def Let_def)
qed

lemma normalize_matrix_ok: "matrix_ok L E m \<Longrightarrow> matrix_ok L E (map normalize_row m)"
  using normalize_row_props(1,2) by (auto simp: matrix_ok_def)

lemma normalize_counts_ok:
  assumes "counts_ok L E data"
  shows "counts_ok L E (normalize_data data)" and "length (normalize_data data) = length data"
    and "map fst (normalize_data data) = map fst data"
    and "i < length data \<Longrightarrow> normalize_data data ! i = (fst (data ! i), map normalize_row (snd (data ! i)))"
  using assms normalize_matrix_ok
  by (auto simp: counts_ok_def normalize_data_def case_prod_unfold comp_def)

lemma n_columns_ok: "matrix_ok L E m \<Longrightarrow> 0 < L \<Longrightarrow> n_columns m = E"
  by (cases m) (auto simp: matrix_ok_def n_columns_def)

lemma dot_self_iff: "dot x x = 0 \<longleftrightarrow> (\<forall>a \<in> set x. a = 0)"
proof (induction x)
  case (Cons a x)
  then show ?case using dot_self_nonneg[of x] by (simp add: add_nonneg_eq_0_iff)
qed simp

lemma domain_indicators_Inr:
  assumes sc: "sci_spec sc" and m: "matrix_ok L E m" "0 < L" "0 < E"
  shows "\<exists>r. domain_indicators sc (d, m) = Inr r \<and> Domain r = d \<and>
    0 \<le> Routing_Specialization r \<and> Routing_Specialization r \<le> ln E \<and>
    (Internal_Diversity r = None \<longleftrightarrow> (\<forall>row \<in> set m. \<forall>x \<in> set row. x = 0)) \<and>
    (\<forall>v. Internal_Diversity r = Some v \<longrightarrow> 1 / real (min L E) \<le> v \<and> v \<le> 1)"
proof -
  let ?s = "sc_singular_values sc m"
  have sh: "length m = L" "n_columns m = E" "m \<noteq> []" "\<forall>row \<in> set m. length row = E \<and> (\<forall>x \<in> set row. 0 \<le> x)"
    using m n_columns_ok[OF m(1,2)] by (auto simp: matrix_ok_def)
  have s: "length ?s = min L E" "\<forall>x \<in> set ?s. 0 \<le> x" "(\<Sum>x\<leftarrow>?s. x ^ 2) = (\<Sum>row\<leftarrow>m. dot row row)"
    using sci_specD(3)[OF sc sh(3)] sh by auto
  have nth: "py_nth ?s 0 = Inr (?s ! 0)" "py_nth ?s (-1) = Inr (?s ! (length ?s - 1))"
    using s(1) m(2,3) by (auto simp: py_nth_def nat_diff_distrib)
  have "0 \<le> kl_score sc E row \<and> kl_score sc E row \<le> ln E" if "row \<in> set m" for row
    using kl_score_bounds(1,2)[OF sc, of row] sh(4) that m(3) by fastforce
  then have spec: "0 \<le> sc_mean sc (map (kl_score sc E) m) \<and> sc_mean sc (map (kl_score sc E) m) \<le> ln E"
    using sh(3) by (intro mean_between[OF sc]) auto
  have "(\<Sum>row\<leftarrow>m. dot row row) = 0 \<longleftrightarrow> (\<forall>y \<in> set (map (\<lambda>row. dot row row) m). y = 0)"
    by (intro sum_list_nonneg_eq_0_iff) (auto simp: dot_self_nonneg)
  also have "\<dots> \<longleftrightarrow> (\<forall>row \<in> set m. \<forall>x \<in> set row. x = 0)" using dot_self_iff by auto
  finally have "norm_diversity L E ?s = None \<longleftrightarrow> (\<forall>row \<in> set m. \<forall>x \<in> set row. x = 0)"
    unfolding norm_diversity_def effective_rank_def Let_def s(3)[symmetric] by (simp split: if_splits)
  then show ?thesis
    using spec norm_diversity_bounds[OF s(2,1)] sh nth by (simp add: domain_indicators_def Let_def)
qed

lemma sum_list_drop_at:
  assumes "i < length xs"
  shows "sum_list (drop_at i xs) = (\<Sum>j \<in> {..<length xs} - {i}. xs ! j :: real)"
proof -
  have "sum_list xs = sum_list (take i xs @ xs ! i # drop (Suc i) xs)" using assms by (simp flip: id_take_nth_drop)
  then have "sum_list (drop_at i xs) = sum_list xs - xs ! i" by (simp add: drop_at_def)
  then show ?thesis using assms by (simp add: sum_list_sum_nth sum_diff1 atLeast0LessThan)
qed

lemma length_drop_at: "i < length xs \<Longrightarrow> length (drop_at i xs) = length xs - 1"
  by (simp add: drop_at_def)

lemma set_drop_at: "set (drop_at i xs) \<subseteq> set xs"
  by (auto simp: drop_at_def dest: in_set_takeD in_set_dropD)

text \<open>The vector of a domain, and the mean cosine with the others.\<close>

definition domain_vector :: "real domain_matrices \<Rightarrow> nat \<Rightarrow> real list" where
  "domain_vector data i = concat (snd (normalize_data data ! i))"

definition mean_similarity :: "(nat \<Rightarrow> real list) \<Rightarrow> nat \<Rightarrow> nat \<Rightarrow> real" where
  "mean_similarity v n i = (\<Sum>j \<in> {..<n} - {i}. cosine (v i) (v j)) / (real n - 1)"

lemma isolation_score:
  assumes sc: "sci_spec sc" and n: "1 < n" "length vs = n" "i < n"
    and same: "\<And>x. x \<in> set vs \<Longrightarrow> length x = k" and nonneg: "\<And>x. x \<in> set vs \<Longrightarrow> \<forall>a \<in> set x. 0 \<le> a"
  shows "isolation_scores sc n (sc_cosine_similarity sc vs vs) ! i = 1 - mean_similarity ((!) vs) n i"
    and "0 \<le> 1 - mean_similarity ((!) vs) n i \<and> 1 - mean_similarity ((!) vs) n i \<le> 1"
proof -
  let ?row = "sc_cosine_similarity sc vs vs ! i"
  have row: "length ?row = n" "\<And>j. j < n \<Longrightarrow> ?row ! j = cosine (vs ! i) (vs ! j)"
    using sci_specD(5,6)[OF sc, of i vs] n same by (auto simp: cosine_def)
  have len: "length (drop_at i ?row) = n - 1" using row(1) n by (simp add: length_drop_at)
  have ne: "drop_at i ?row \<noteq> []" using len n by auto
  have sum: "sum_list (drop_at i ?row) = (\<Sum>j \<in> {..<n} - {i}. cosine (vs ! i) (vs ! j))"
    using sum_list_drop_at[of i ?row] row n by simp
  have mean: "sc_mean sc (drop_at i ?row) = mean_similarity ((!) vs) n i"
    unfolding sci_specD(2)[OF sc ne] sum len mean_similarity_def using n by (simp add: of_nat_diff)
  then show "isolation_scores sc n (sc_cosine_similarity sc vs vs) ! i = 1 - mean_similarity ((!) vs) n i"
    using n by (simp add: isolation_scores_def)
  have "0 \<le> cosine (vs ! i) (vs ! j) \<and> cosine (vs ! i) (vs ! j) \<le> 1" if "j < n" for j
    using that n same[of "vs ! i"] same[of "vs ! j"] nonneg[of "vs ! i"] nonneg[of "vs ! j"] by (intro cosine_bounds) auto
  then have "0 \<le> x \<and> x \<le> 1" if "x \<in> set ?row" for x using that row by (metis in_set_conv_nth)
  then show "0 \<le> 1 - mean_similarity ((!) vs) n i \<and> 1 - mean_similarity ((!) vs) n i \<le> 1"
    using mean_between[OF sc ne, of 1] set_drop_at[of i ?row] mean by auto
qed
lemma analyze_indicators_Inr:
  assumes sc: "sci_spec sc" and ok: "counts_ok L E data"
  shows "\<exists>rs. map_res (domain_indicators sc) (normalize_data data) = Inr rs \<and> length rs = length data \<and> map Domain rs = map fst data \<and>
    (\<forall>i < length data.
      0 \<le> Routing_Specialization (rs ! i) \<and> Routing_Specialization (rs ! i) \<le> ln E \<and>
      (Internal_Diversity (rs ! i) = None \<longleftrightarrow> (\<forall>row \<in> set (snd (data ! i)). \<forall>x \<in> set row. x = 0)) \<and>
      (\<forall>v. Internal_Diversity (rs ! i) = Some v \<longrightarrow> 1 / real (min L E) \<le> v \<and> v \<le> 1))"
proof -
  note nc = normalize_counts_ok[OF ok]
  let ?P = "\<lambda>(item :: string \<times> real list list) r. Domain r = fst item \<and> 0 \<le> Routing_Specialization r \<and> Routing_Specialization r \<le> ln (real E) \<and>
      (Internal_Diversity r = None \<longleftrightarrow> (\<forall>row \<in> set (snd item). \<forall>x \<in> set row. x = 0)) \<and>
      (\<forall>v. Internal_Diversity r = Some v \<longrightarrow> 1 / real (min L E) \<le> v \<and> v \<le> 1)"
  have "\<exists>r. domain_indicators sc item = Inr r \<and> ?P item r" if "item \<in> set (normalize_data data)" for item
    using domain_indicators_Inr[OF sc, of L E "snd item" "fst item"] nc(1) that by (auto simp: counts_ok_def)
  from map_res_total[of _ "domain_indicators sc" ?P, OF this] obtain rs
    where rs: "map_res (domain_indicators sc) (normalize_data data) = Inr rs" "list_all2 ?P (normalize_data data) rs" by blast
  have len: "length rs = length data" using rs(2) nc(2) by (simp add: list_all2_lengthD[symmetric])
  have zero: "(\<forall>row \<in> set (snd (normalize_data data ! i)). \<forall>x \<in> set row. x = 0) \<longleftrightarrow> (\<forall>row \<in> set (snd (data ! i)). \<forall>x \<in> set row. x = 0)"
    if "i < length data" for i
  proof -
    have "\<forall>row \<in> set (snd (data ! i)). \<forall>x \<in> set row. 0 \<le> x" using ok nth_mem[OF that] by (simp add: counts_ok_def matrix_ok_def)
    then show ?thesis unfolding nc(4)[OF that] using normalize_row_props(3) by simp
  qed
  have P: "?P (normalize_data data ! i) (rs ! i)" if "i < length data" for i
    using rs(2) that nc(2) by (simp add: list_all2_conv_all_nth)
  then have "map Domain rs = map fst (normalize_data data)" using len nc(2) by (intro nth_equalityI) auto
  then show ?thesis using rs(1) len P zero nc(3) by (intro exI[of _ rs]) auto
qed

lemma analyze_indicators_total:
  assumes sc: "sci_spec sc" and ok: "counts_ok L E data"
  shows "\<exists>a df spec divs iso. analyze_indicators sc (analyzer_init name data) = Inr a \<and> an_metrics_df a = Some df \<and>
    frame_index df = map fst data \<and> frame_column df ''Routing_Specialization'' = Inr (map Some spec) \<and>
    frame_column df ''Internal_Diversity'' = Inr divs \<and> frame_column df ''Domain_Isolation'' = Inr (map Some iso) \<and>
    length spec = length data \<and> length divs = length data \<and> length iso = length data \<and>
    (\<forall>i < length data. 0 \<le> spec ! i \<and> spec ! i \<le> ln E \<and>
      (divs ! i = None \<longleftrightarrow> (\<forall>row \<in> set (snd (data ! i)). \<forall>x \<in> set row. x = 0)) \<and>
      (\<forall>v. divs ! i = Some v \<longrightarrow> 1 / real (min L E) \<le> v \<and> v \<le> 1) \<and>
      0 \<le> iso ! i \<and> iso ! i \<le> 1 \<and>
      iso ! i = (if length data = 1 then 0 else 1 - mean_similarity (domain_vector data) (length data) i))"
proof -
  note nc = normalize_counts_ok[OF ok]
  obtain rs where rs: "map_res (domain_indicators sc) (normalize_data data) = Inr rs" "length rs = length data" "map Domain rs = map fst data"
    "\<forall>i < length data.
      0 \<le> Routing_Specialization (rs ! i) \<and> Routing_Specialization (rs ! i) \<le> ln E \<and>
      (Internal_Diversity (rs ! i) = None \<longleftrightarrow> (\<forall>row \<in> set (snd (data ! i)). \<forall>x \<in> set row. x = 0)) \<and>
      (\<forall>v. Internal_Diversity (rs ! i) = Some v \<longrightarrow> 1 / real (min L E) \<le> v \<and> v \<le> 1)"
    using analyze_indicators_Inr[OF sc ok] by (elim exE conjE) (rule that)
  note P = rs(4)[rule_format]
  let ?n = "length data" and ?vs = "map (\<lambda>(_, m). concat m) (normalize_data data)"
  have ne: "rs \<noteq> []" using rs(2) ok by (auto simp: counts_ok_def)
  have vs: "length x = L * E \<and> (\<forall>a \<in> set x. 0 \<le> a)" if "x \<in> set ?vs" for x
  proof -
    from that obtain m where m: "x = concat m" "matrix_ok L E m" using nc(1) by (auto simp: counts_ok_def)
    then have "length (concat (map (\<lambda>r. r) m)) = length m * E"
      unfolding length_concat by (induction m arbitrary: L x) (auto simp: matrix_ok_def)
    then show ?thesis using m by (auto simp: matrix_ok_def)
  qed
  have lvs: "length ?vs = ?n" using nc(2) by simp
  have "n_columns ?vs = L * E" using vs lvs ok by (cases ?vs) (auto simp: n_columns_def counts_ok_def)
  then have arr: "np_array ?vs = Inr ?vs" using vs by (simp add: np_array_def)
  let ?iso = "isolation_scores sc ?n (sc_cosine_similarity sc ?vs ?vs)"
  have liso: "length ?iso = ?n" by (simp add: isolation_scores_def)
  have iso: "0 \<le> ?iso ! i \<and> ?iso ! i \<le> 1 \<and> ?iso ! i = (if ?n = 1 then 0 else 1 - mean_similarity (domain_vector data) ?n i)"
    if i: "i < ?n" for i
  proof (cases "1 < ?n")
    case True
    have "mean_similarity ((!) ?vs) ?n i = mean_similarity (domain_vector data) ?n i"
      unfolding mean_similarity_def domain_vector_def using i nc(2) by (simp add: case_prod_unfold)
    then show ?thesis using isolation_score[OF sc True lvs i, of "L * E"] vs True by auto
  qed (use i in \<open>simp add: isolation_scores_def\<close>)
  obtain a where a: "analyze_indicators sc (analyzer_init name data) = Inr a" "an_metrics_df a = Some
      \<lparr>frame_index = map Domain rs,
       frame_columns = [(''Routing_Specialization'', map (Some \<circ> Routing_Specialization) rs), (''Internal_Diversity'', map Internal_Diversity rs),
         (''Condition_Number'', map (Some \<circ> Condition_Number) rs), (''Effective_Rank'', map Effective_Rank rs),
         (''Domain_Isolation'', map Some ?iso)]\<rparr>"
    using rs arr ne
    by (simp add: analyze_indicators_def analyzer_init_def metrics_frame_def compute_domain_similarity_def Let_def)
  have all: "\<forall>i < ?n. (0 \<le> map Routing_Specialization rs ! i \<and> map Routing_Specialization rs ! i \<le> ln E \<and>
      (map Internal_Diversity rs ! i = None \<longleftrightarrow> (\<forall>row \<in> set (snd (data ! i)). \<forall>x \<in> set row. x = 0)) \<and>
      (\<forall>v. map Internal_Diversity rs ! i = Some v \<longrightarrow> 1 / real (min L E) \<le> v \<and> v \<le> 1) \<and>
      0 \<le> ?iso ! i \<and> ?iso ! i \<le> 1 \<and> ?iso ! i = (if ?n = 1 then 0 else 1 - mean_similarity (domain_vector data) ?n i))"
    (is "\<forall>i < _. ?all i")
  proof (intro allI impI)
    fix i assume i: "i < ?n"
    then have "i < length rs" using rs(2) by simp
    then show "?all i" unfolding nth_map[OF \<open>i < length rs\<close>] using P[OF i] iso[OF i] by (elim conjE) (intro conjI; assumption)
  qed
  show ?thesis
    using a rs(2,3) liso all
    by - (rule exI[of _ a], rule exI[of _ "the (an_metrics_df a)"], rule exI[of _ "map Routing_Specialization rs"],
        rule exI[of _ "map Internal_Diversity rs"], rule exI[of _ ?iso], (intro conjI; (assumption | simp add: frame_column_def)))
qed

text \<open>
  (C22) The indicators of the domains: from count matrices of one shape with \<open>L\<close> layers and \<open>E\<close> experts they
  are computed without error, one row per domain. The specialisation lies between 0 and the logarithm of
  the number of experts; the diversity is NaN exactly for a domain without any selection and lies
  between the reciprocal of the highest possible rank and 1 otherwise; and the isolation, between 0
  and 1, is one minus the mean cosine with the vectors of the other domains, and 0 for a single domain.
\<close>

theorem analyze_indicators_correct:
  assumes "sci_spec sc" and "counts_ok L E data"
  shows "\<exists>a df spec divs iso. analyze_indicators sc (analyzer_init name data) = Inr a \<and> an_metrics_df a = Some df \<and>
    frame_index df = map fst data \<and> frame_column df ''Routing_Specialization'' = Inr (map Some spec) \<and>
    frame_column df ''Internal_Diversity'' = Inr divs \<and> frame_column df ''Domain_Isolation'' = Inr (map Some iso) \<and>
    length spec = length data \<and> length divs = length data \<and> length iso = length data \<and>
    (\<forall>i < length data. 0 \<le> spec ! i \<and> spec ! i \<le> ln E \<and>
      (divs ! i = None \<longleftrightarrow> (\<forall>row \<in> set (snd (data ! i)). \<forall>x \<in> set row. x = 0)) \<and>
      (\<forall>v. divs ! i = Some v \<longrightarrow> 1 / real (min L E) \<le> v \<and> v \<le> 1) \<and>
      0 \<le> iso ! i \<and> iso ! i \<le> 1 \<and>
      iso ! i = (if length data = 1 then 0 else 1 - mean_similarity (domain_vector data) (length data) i))"
  by (rule analyze_indicators_total[OF assms])
section \<open>The layers\<close>

definition layer_vector :: "real domain_matrices \<Rightarrow> nat \<Rightarrow> nat \<Rightarrow> real list" where
  "layer_vector data l i = snd (normalize_data data ! i) ! l"

lemma sum_list_filter_key:
  assumes "distinct (map fst xs)" "i < length xs"
  shows "map f (filter (\<lambda>(d, _). d \<noteq> fst (xs ! i)) xs) = drop_at i (map f xs)"
proof -
  let ?Q = "\<lambda>(d, _). d \<noteq> fst (xs ! i)"
  have split: "xs = take i xs @ xs ! i # drop (Suc i) xs" using assms(2) by (rule id_take_nth_drop)
  have "distinct (map fst (take i xs @ xs ! i # drop (Suc i) xs))" using assms(1) split by simp
  then have "fst (xs ! i) \<notin> fst ` set (take i xs)" "fst (xs ! i) \<notin> fst ` set (drop (Suc i) xs)" by auto
  moreover have "filter ?Q ys = ys" if "fst (xs ! i) \<notin> fst ` set ys" for ys
    using that by (force simp: filter_id_conv)
  ultimately have "filter ?Q (take i xs) = take i xs" "filter ?Q (drop (Suc i) xs) = drop (Suc i) xs" by blast+
  then have "filter ?Q (take i xs @ xs ! i # drop (Suc i) xs) = drop_at i xs"
    unfolding filter_append filter.simps by (simp add: drop_at_def case_prod_unfold)
  then show ?thesis using split by (simp add: drop_at_def take_map drop_map)
qed

lemma layer_isolation_Inr:
  assumes sc: "sci_spec sc" and ok: "counts_ok L E data" and i: "i < length data" "l < L"
  defines "isolation \<equiv> if length data = 1 then 0 else 1 - mean_similarity (layer_vector data l) (length data) i"
  shows "layer_isolation sc (normalize_data data) (normalize_data data ! i) l = Inr isolation" and "0 \<le> isolation \<and> isolation \<le> 1"
proof -
  note nc = normalize_counts_ok[OF ok]
  let ?nd = "normalize_data data" and ?n = "length data" and ?v = "layer_vector data l"
  have m: "matrix_ok L E (snd item)" if "item \<in> set ?nd" for item using nc(1) that by (simp add: counts_ok_def)
  have v: "length (?v j) = E" "\<forall>a \<in> set (?v j). 0 \<le> a" "py_nth (snd (?nd ! j)) (int l) = Inr (?v j)" if "j < ?n" for j
    using m[of "?nd ! j"] that nc(2) i(2) by (auto simp: matrix_ok_def layer_vector_def py_nth_nat)
  have cos: "0 \<le> cosine (?v i) (?v j) \<and> cosine (?v i) (?v j) \<le> 1" if "j < ?n" for j
    using v(1,2)[OF that] v(1,2)[OF i(1)] by (intro cosine_bounds) auto
  have sim: "layer_similarity sc (?v i) (snd (?nd ! j)) l = Inr (cosine (?v i) (?v j))" if "j < ?n" for j
    using v[OF that] v(1)[OF i(1)] sci_specD(6)[OF sc, of 0 "[?v i]" 0 "[?v j]"] by (simp add: layer_similarity_def cosine_def)
  let ?g = "\<lambda>item. cosine (?v i) (snd item ! l)"
  let ?others = "filter (\<lambda>(d, _). d \<noteq> fst (?nd ! i)) ?nd"
  have "(case item of (_, other) \<Rightarrow> layer_similarity sc (?v i) other l) = Inr (?g item)" if "item \<in> set ?others" for item
  proof -
    have "item \<in> set ?nd" using that by simp
    then obtain j where "j < ?n" "item = ?nd ! j" using nc(2) by (metis in_set_conv_nth)
    then show ?thesis using sim by (simp add: case_prod_unfold layer_vector_def)
  qed
  then have sims: "map_res (\<lambda>(_, other). layer_similarity sc (?v i) other l) ?others = Inr (map ?g ?others)"
    by (intro map_res_Inr) auto
  have d: "map ?g ?others = drop_at i (map ?g ?nd)" using nc i(1) by (intro sum_list_filter_key) (simp_all add: counts_ok_def)
  have gs: "map ?g ?nd ! j = cosine (?v i) (?v j)" if "j < ?n" for j using that nc(2) by (simp add: layer_vector_def)
  have len: "length (drop_at i (map ?g ?nd)) = ?n - 1" using nc(2) i(1) by (simp add: length_drop_at)
  have sum: "sum_list (drop_at i (map ?g ?nd)) = (\<Sum>j \<in> {..<?n} - {i}. cosine (?v i) (?v j))"
    using sum_list_drop_at[of i "map ?g ?nd"] gs nc(2) i(1) by simp
  have "0 \<le> x \<and> x \<le> 1" if x: "x \<in> set (map ?g ?nd)" for x
  proof -
    from x obtain j where j: "j < length (map ?g ?nd)" "map ?g ?nd ! j = x" unfolding in_set_conv_nth by blast
    then have "j < ?n" using nc(2) by simp
    then show ?thesis using cos[of j] gs[of j] j(2) by simp
  qed
  then have rng: "\<forall>x \<in> set (drop_at i (map ?g ?nd)). 0 \<le> x \<and> x \<le> 1" using set_drop_at[of i "map ?g ?nd"] by blast
  have run: "layer_isolation sc ?nd (?nd ! i) l =
      Inr (1 - (if drop_at i (map ?g ?nd) = [] then 1 else sc_mean sc (drop_at i (map ?g ?nd))))"
    unfolding layer_isolation_def v(3)[OF i(1)] bind_res.simps sims d ..
  show "layer_isolation sc ?nd (?nd ! i) l = Inr isolation"
  proof (cases "?n = 1")
    case True
    then have "drop_at i (map ?g ?nd) = []" using len by simp
    then show ?thesis unfolding run isolation_def using True by simp
  next
    case False
    then have ne: "drop_at i (map ?g ?nd) \<noteq> []" using len i(1) by auto
    have "real (?n - 1) = real ?n - 1" using i(1) by (simp add: of_nat_diff)
    then show ?thesis unfolding run isolation_def mean_similarity_def sci_specD(2)[OF sc ne] sum len using False ne by simp
  qed
  then show "0 \<le> isolation \<and> isolation \<le> 1"
    unfolding run using mean_between[OF sc _ rng] by (auto split: if_splits)
qed
text \<open>
  The trajectories over the layers: for count matrices of one shape both tables are computed
  without error, with one column per domain and one row per layer; the specialisation of a layer lies
  between 0 and the logarithm of the number of experts and is 0 exactly when all its experts were selected
  equally often, and its isolation, between 0 and 1, is one minus the mean cosine with the same layer
  of the other domains, and 0 for a single domain.
\<close>

theorem layer_trajectories_correct:
  assumes sc: "sci_spec sc" and ok: "counts_ok L E data"
  shows "\<exists>a spec iso. analyze_layer_trajectories sc (layer_analyzer_init name data) = Inr a \<and>
    la_spec_df a = Some spec \<and> la_iso_df a = Some iso \<and> map fst spec = map fst data \<and> map fst iso = map fst data \<and>
    (\<forall>i < length data. length (snd (spec ! i)) = L \<and> length (snd (iso ! i)) = L \<and>
      (\<forall>l < L. 0 \<le> snd (spec ! i) ! l \<and> snd (spec ! i) ! l \<le> ln E \<and>
        (snd (spec ! i) ! l = 0 \<longleftrightarrow> (\<forall>x \<in> set (snd (data ! i) ! l). x = hd (snd (data ! i) ! l))) \<and>
        0 \<le> snd (iso ! i) ! l \<and> snd (iso ! i) ! l \<le> 1 \<and>
        snd (iso ! i) ! l = (if length data = 1 then 0 else 1 - mean_similarity (layer_vector data l) (length data) i)))"
proof -
  note nc = normalize_counts_ok[OF ok]
  let ?nd = "normalize_data data" and ?n = "length data"
  let ?spec = "map (\<lambda>(d, m). (d, map (kl_score sc (n_columns m)) m)) ?nd"
  let ?w = "\<lambda>i l. if ?n = 1 then 0 else 1 - mean_similarity (layer_vector data l) ?n i"
  let ?iso = "map (\<lambda>i. (fst (?nd ! i), map (?w i) [0..<L])) [0..<?n]"
  have pos: "?n \<noteq> 0" "0 < L" "0 < E" using ok by (auto simp: counts_ok_def)
  have raw: "matrix_ok L E (snd (data ! i))" if "i < ?n" for i using ok nth_mem[OF that] by (simp add: counts_ok_def)
  have layers: "la_n_layers (layer_analyzer_init name data) = L"
  proof -
    obtain d m rest where data: "data = (d, m) # rest" using pos(1) by (cases data) auto
    have "fold (\<lambda>(_, m) n. if n = 0 then length m else n) rest k = k" if "0 < k" for k :: nat
      using that by (induction rest) auto
    then show ?thesis using raw[of 0] pos(2) by (simp add: layer_analyzer_init_def data matrix_ok_def)
  qed
  have spec: "snd (?spec ! i) = map (kl_score sc E) (map normalize_row (snd (data ! i)))" if "i < ?n" for i
    using that nc(2,4) n_columns_ok[OF normalize_matrix_ok[OF raw[OF that]] pos(2)] by (simp add: case_prod_unfold)
  have kl: "0 \<le> snd (?spec ! i) ! l \<and> snd (?spec ! i) ! l \<le> ln E \<and>
      (snd (?spec ! i) ! l = 0 \<longleftrightarrow> (\<forall>x \<in> set (snd (data ! i) ! l). x = hd (snd (data ! i) ! l)))" if "i < ?n" "l < L" for i l
  proof -
    let ?row = "snd (data ! i) ! l"
    have row: "length ?row = E" "\<forall>x \<in> set ?row. 0 \<le> x" "l < length (snd (data ! i))"
      using raw[OF that(1)] that(2) by (auto simp: matrix_ok_def)
    have ne: "?row \<noteq> []" using row(1) pos(3) by auto
    have const: "(\<forall>x \<in> set (normalize_row ?row). x = hd (normalize_row ?row)) \<longleftrightarrow> (\<forall>x \<in> set ?row. x = hd ?row)"
      using ne by (auto simp: normalize_row_def Let_def hd_map)
    have "normalize_row ?row \<noteq> []" using ne by (simp add: normalize_row_def Let_def)
    from kl_score_bounds[OF sc this normalize_row_props(2)[OF row(2)]] show ?thesis
      unfolding spec[OF that(1)] const normalize_row_props(1)[OF row(2)] row(1) using row(3) by simp
  qed
  have len: "length (snd (?spec ! i)) = L" if "i < ?n" for i using spec[OF that] raw[OF that] by (simp add: matrix_ok_def)
  have same: "columns_frame cols = Inr cols" if "\<forall>c \<in> set cols. length (snd c) = L" for cols :: "(string \<times> real list) list"
    using that by (cases cols) (auto simp: columns_frame_def)
  have spec_frame: "columns_frame ?spec = Inr ?spec"
    using len nc(2) by (intro same) (simp only: all_set_conv_all_nth length_map, simp del: nth_map)
  note iso = layer_isolation_Inr[OF sc ok]
  have "map_res (layer_isolation sc ?nd (?nd ! i)) [0..<L] = Inr (map (?w i) [0..<L])" if "i < ?n" for i
    using iso(1)[OF that] by (intro map_res_Inr) auto
  then have col: "map_res (\<lambda>i. bind_res (map_res (layer_isolation sc ?nd (?nd ! i)) [0..<L]) (\<lambda>isos. Inr (fst (?nd ! i), isos))) [0..<?n] = Inr ?iso"
    by (intro map_res_Inr) simp
  have "map_res f ?nd = map_res (\<lambda>i. f (?nd ! i)) [0..<?n]" for f :: "string \<times> real list list \<Rightarrow> (string \<times> real list) result"
    using map_res_map[of f "(!) ?nd" "[0..<?n]"] map_nth[of ?nd] nc(2) by simp
  then have run: "analyze_layer_trajectories sc (layer_analyzer_init name data) =
      Inr ((layer_analyzer_init name data)\<lparr>la_spec_df := Some ?spec, la_iso_df := Some ?iso\<rparr>)"
    using spec_frame col same[of ?iso] layers
    unfolding analyze_layer_trajectories_def by (simp add: layer_analyzer_init_def)
  have "map fst ?iso = map fst (map ((!) ?nd) [0..<length ?nd])" using nc(2) by simp
  then have keys: "map fst ?spec = map fst data" "map fst ?iso = map fst data"
    unfolding map_nth nc(3)[symmetric] by (simp_all add: case_prod_unfold comp_def)
  have all: "\<forall>i < ?n. length (snd (?spec ! i)) = L \<and> length (snd (?iso ! i)) = L \<and>
      (\<forall>l < L. 0 \<le> snd (?spec ! i) ! l \<and> snd (?spec ! i) ! l \<le> ln E \<and>
        (snd (?spec ! i) ! l = 0 \<longleftrightarrow> (\<forall>x \<in> set (snd (data ! i) ! l). x = hd (snd (data ! i) ! l))) \<and>
        0 \<le> snd (?iso ! i) ! l \<and> snd (?iso ! i) ! l \<le> 1 \<and> snd (?iso ! i) ! l = ?w i l)"
  proof (intro allI impI conjI)
    fix i l assume i: "i < ?n"
    have row: "snd (?iso ! i) = map (?w i) [0..<L]" using i by simp
    show "length (snd (?spec ! i)) = L" by (rule len[OF i])
    show "length (snd (?iso ! i)) = L" unfolding row by simp
    assume l: "l < L"
    note k = kl[OF i l] and w = iso(2)[OF i l]
    have entry: "snd (?iso ! i) ! l = ?w i l" unfolding row using l by simp
    show "0 \<le> snd (?spec ! i) ! l" "snd (?spec ! i) ! l \<le> ln E"
      "snd (?spec ! i) ! l = 0 \<longleftrightarrow> (\<forall>x \<in> set (snd (data ! i) ! l). x = hd (snd (data ! i) ! l))" using k by blast+
    show "snd (?iso ! i) ! l = ?w i l" by (rule entry)
    show "0 \<le> snd (?iso ! i) ! l" "snd (?iso ! i) ! l \<le> 1" unfolding entry using w by blast+
  qed
  show ?thesis
    using all keys
    by - (rule exI[of _ "(layer_analyzer_init name data)\<lparr>la_spec_df := Some ?spec, la_iso_df := Some ?iso\<rparr>"],
        rule exI[of _ ?spec], rule exI[of _ ?iso], (intro conjI; (rule run | assumption | simp)))
qed
section \<open>The script\<close>

lemma analyzed_columns:
  assumes "analyze_indicators sc a = Inr a'"
  shows "\<exists>df. an_metrics_df a' = Some df \<and> frame_column df ''NRS'' = Inl KeyError"
  using assms
  by (auto simp: analyze_indicators_def metrics_frame_def compute_domain_similarity_def frame_column_def Let_def split: if_splits)

lemma ensure_metrics_columns:
  assumes "an_metrics_df a = None" and "ensure_metrics sc a = Inr a'"
  shows "ensure_metrics sc a' = Inr a'" and "frame_column (the (an_metrics_df a')) ''NRS'' = Inl KeyError"
  using analyzed_columns[of sc a a'] assms by (auto simp: ensure_metrics_def)

text \<open>
  (C40) The script never succeeds: the model score reads a column \<^verbatim>\<open>NRS\<close> that no part of the analysis
  creates, so that the report, which is written first, ends in a \<^verbatim>\<open>KeyError\<close> whenever the analysis
  itself is well defined, and in the error of the analysis otherwise.
\<close>

theorem count_matrix_script_fails:
  fixes sc :: "real sci_ops"
  shows "(\<exists>e. main_count_matrix sc read_csv model_name config = Inl e) \<and>
    (sci_spec sc \<longrightarrow> counts_ok L E (load_domains read_csv config) \<longrightarrow>
       main_count_matrix sc read_csv model_name config = Inl KeyError)"
proof -
  let ?a = "analyzer_init model_name (load_domains read_csv config)"
  have new: "an_metrics_df ?a = None" by (simp add: analyzer_init_def)
  have report: "save_analysis_report sc ?a = (case ensure_metrics sc ?a of Inl e \<Rightarrow> Inl e | Inr _ \<Rightarrow> Inl KeyError)"
  proof (cases "ensure_metrics sc ?a")
    case (Inr a')
    note c = ensure_metrics_columns[OF new Inr]
    have "an_model_score a' = None"
      using Inr new by (auto simp: ensure_metrics_def analyze_indicators_def compute_domain_similarity_def analyzer_init_def Let_def)
    then show ?thesis using Inr c by (simp add: save_analysis_report_def calculate_model_score_def)
  qed (simp add: save_analysis_report_def)
  have "\<exists>e. main_count_matrix sc read_csv model_name config = Inl e"
    using report by (cases "ensure_metrics sc ?a") (simp_all add: main_count_matrix_def)
  moreover have "main_count_matrix sc read_csv model_name config = Inl KeyError"
    if ok: "sci_spec sc" "counts_ok L E (load_domains read_csv config)"
  proof -
    obtain a' where "ensure_metrics sc ?a = Inr a'"
      using analyze_indicators_total[OF ok, of model_name] new by (auto simp: ensure_metrics_def)
    then show ?thesis using report by (simp add: main_count_matrix_def)
  qed
  ultimately show ?thesis by blast
qed

section \<open>Examples\<close>

text \<open>
  Functions with the properties that \<open>sci_spec\<close> asks for. The singular values of a matrix are
  replaced by a sequence with the same Euclidean norm.
\<close>

definition example_sci :: "real sci_ops" where
  "example_sci = \<lparr>sc_log = ln, sc_mean = (\<lambda>xs. sum_list xs / length xs),
     sc_singular_values = (\<lambda>m. if min (length m) (n_columns m) = 0 then []
        else sqrt (\<Sum>row\<leftarrow>m. dot row row) # replicate (min (length m) (n_columns m) - 1) 0),
     sc_cosine_similarity = (\<lambda>X Y. map (\<lambda>x. map (cosine x) Y) X), sc_round4 = id, sc_pca2 = (\<lambda>_. Inl ValueError)\<rparr>"

lemma example_sci_spec: "sci_spec example_sci"
proof -
  have "0 \<le> (\<Sum>row\<leftarrow>m. dot row row)" for m by (intro sum_list_nonneg) (auto simp: dot_self_nonneg)
  moreover have "(\<Sum>row\<leftarrow>m. dot row row) = 0"
    if "min (length m) (n_columns m) = 0" "m \<noteq> []" "\<forall>row \<in> set m. length row = n_columns m" for m
  proof -
    have "n_columns m = 0" using that(1,2) by (simp add: min_def split: if_splits)
    then have "\<forall>row \<in> set m. row = []" using that(3) by simp
    then show ?thesis by (induction m) auto
  qed
  ultimately show ?thesis
    by (auto simp: sci_spec_def example_sci_def cosine_def sum_list_replicate)
qed

definition example_counts :: "real domain_matrices" where
  "example_counts = [(''Math'', [[3, 1], [2, 2]]), (''Law'', [[0, 4], [1, 3]])]"

lemma example_counts_ok: "counts_ok 2 2 example_counts"
  by (simp add: counts_ok_def matrix_ok_def example_counts_def)

theorem analyze_indicators_correct_witness:
  "\<exists>a df iso. analyze_indicators example_sci (analyzer_init ''model'' example_counts) = Inr a \<and> an_metrics_df a = Some df \<and>
     frame_index df = [''Math'', ''Law''] \<and> frame_column df ''Domain_Isolation'' = Inr (map Some iso) \<and> 0 \<le> iso ! 0 \<and> iso ! 0 \<le> 1"
  using analyze_indicators_correct[OF example_sci_spec example_counts_ok, of "''model''"]
  by (auto simp: example_counts_def)

theorem layer_trajectories_correct_witness:
  "\<exists>a spec. analyze_layer_trajectories example_sci (layer_analyzer_init ''model'' example_counts) = Inr a \<and>
     la_spec_df a = Some spec \<and> map fst spec = [''Math'', ''Law''] \<and> snd (spec ! 0) ! 1 = 0"
proof -
  obtain a spec where "analyze_layer_trajectories example_sci (layer_analyzer_init ''model'' example_counts) = Inr a"
    "la_spec_df a = Some spec" "map fst spec = map fst example_counts"
    "snd (spec ! 0) ! 1 = 0 \<longleftrightarrow> (\<forall>x \<in> set (snd (example_counts ! 0) ! 1). x = hd (snd (example_counts ! 0) ! 1))"
    using layer_trajectories_correct[OF example_sci_spec example_counts_ok, of "''model''"]
    by (auto simp: example_counts_def)
  then show ?thesis by (simp add: example_counts_def)
qed

theorem count_matrix_script_fails_witness:
  "main_count_matrix example_sci (map_of [(''m.csv'', [[3, 1], [2, 2]])]) ''model'' (Some [(''Math'', ''m.csv'')]) = Inl KeyError"
proof -
  have "counts_ok 2 2 (load_domains (map_of [(''m.csv'', [[3, 1], [2, 2 :: real]])]) (Some [(''Math'', ''m.csv'')]))"
    by (simp add: load_domains_def counts_ok_def matrix_ok_def)
  then show ?thesis
    using count_matrix_script_fails[where sc = example_sci and read_csv = "map_of [(''m.csv'', [[3, 1], [2, 2 :: real]])]"
        and model_name = "''model''" and config = "Some [(''Math'', ''m.csv'')]" and L = 2 and E = 2]
      example_sci_spec by blast
qed

end
