(* ===== verification/Host.thy ===== *)
theory Host
  imports Prelude "HOL-Library.Sublist" "HOL-Library.Countable"
begin

text \<open>
  What the scripts under \<^verbatim>\<open>preprocess\<close> and the aggregation scripts use of Python and of the machine they
  run on: JSON values with Python's dynamic look-ups, path names, text files, HTTP requests and the clock.

  A step that changes the world is a function from the world to a result and the new world; an exception
  keeps the changes made before it. The HTTP library, the clock and the JSON library are the record
  \<open>host\<close>; the state of everything outside the process, such as the inference server, has type \<open>'s\<close>.
\<close>

section \<open>JSON values\<close>

datatype 'f json = JNull | JBool bool | JNum 'f | JStr string | JList "'f json list" | JObj "(string \<times> 'f json) list"

text \<open>\<^verbatim>\<open>k in s\<close> for strings.\<close>

fun substring :: "string \<Rightarrow> string \<Rightarrow> bool" where
  "substring k [] = (k = [])"
| "substring k (c # s) = (take (length k) (c # s) = k \<or> substring k s)"

text \<open>\<^verbatim>\<open>k in v\<close>, \<^verbatim>\<open>v.get(k, default)\<close>, \<^verbatim>\<open>v[k]\<close> with a string and with an integer.\<close>

fun j_contains :: "string \<Rightarrow> 'f json \<Rightarrow> bool result" where
  "j_contains k (JObj d) = Inr (k \<in> fst ` set d)"
| "j_contains k (JList xs) = Inr (JStr k \<in> set xs)"
| "j_contains k (JStr s) = Inr (substring k s)"
| "j_contains k _ = Inl TypeError"

fun j_get :: "'f json \<Rightarrow> string \<Rightarrow> 'f json \<Rightarrow> 'f json result" where
  "j_get (JObj d) k dflt = Inr (case map_of d k of None \<Rightarrow> dflt | Some v \<Rightarrow> v)"
| "j_get _ k dflt = Inl AttributeError"

fun j_item :: "'f json \<Rightarrow> string \<Rightarrow> 'f json result" where
  "j_item (JObj d) k = (case map_of d k of None \<Rightarrow> Inl KeyError | Some v \<Rightarrow> Inr v)"
| "j_item _ k = Inl TypeError"

fun j_index :: "'f json \<Rightarrow> int \<Rightarrow> 'f json result" where
  "j_index (JList xs) i = py_nth xs i"
| "j_index (JStr s) i = bind_res (py_nth s i) (\<lambda>c. Inr (JStr [c]))"
| "j_index (JObj d) i = Inl KeyError"
| "j_index _ i = Inl TypeError"

fun j_truthy :: "('f::zero) json \<Rightarrow> bool" where
  "j_truthy JNull = False"
| "j_truthy (JBool b) = b"
| "j_truthy (JNum x) = (x \<noteq> 0)"
| "j_truthy (JStr s) = (s \<noteq> [])"
| "j_truthy (JList xs) = (xs \<noteq> [])"
| "j_truthy (JObj d) = (d \<noteq> [])"

text \<open>
  The value as an element of a Python set: lists and dictionaries are not hashable, and \<^verbatim>\<open>True\<close> and
  \<^verbatim>\<open>False\<close> equal the numbers 1 and 0.
\<close>

fun hash_key :: "('f::zero_neq_one) json \<Rightarrow> 'f json result" where
  "hash_key (JList xs) = Inl TypeError"
| "hash_key (JObj d) = Inl TypeError"
| "hash_key (JBool b) = Inr (JNum (if b then 1 else 0))"
| "hash_key v = Inr v"

text \<open>
  The keys of a dictionary are distinct. Only such values stand for Python values; the JSON library
  returns no others and reads back those that it wrote.
\<close>

primrec json_wf :: "'f json \<Rightarrow> bool" where
  "json_wf JNull = True"
| "json_wf (JBool b) = True"
| "json_wf (JNum x) = True"
| "json_wf (JStr s) = True"
| "json_wf (JList xs) = list_all id (map json_wf xs)"
| "json_wf (JObj d) = (distinct (map fst d) \<and> list_all snd (map (map_prod id json_wf) d))"

lemma json_wf_list [simp]: "json_wf (JList xs) \<longleftrightarrow> (\<forall>x \<in> set xs. json_wf x)"
  by (simp add: list_all_iff)

lemma json_wf_obj [simp]: "json_wf (JObj d) \<longleftrightarrow> distinct (map fst d) \<and> (\<forall>kv \<in> set d. json_wf (snd kv))"
  by (auto simp: list_all_iff)

declare json_wf.simps(5,6) [simp del]

lemma json_wf_item: "json_wf v \<Longrightarrow> j_item v k = Inr x \<Longrightarrow> json_wf x"
  by (cases v) (auto split: option.splits dest!: map_of_SomeD)

lemma json_wf_index: "json_wf v \<Longrightarrow> j_index v i = Inr x \<Longrightarrow> json_wf x"
  by (cases v) (auto simp: py_nth_def Let_def split: if_splits)

section \<open>Strings and paths\<close>

definition rstrip_char :: "char \<Rightarrow> string \<Rightarrow> string" where
  "rstrip_char c s = rev (dropWhile (\<lambda>x. x = c) (rev s))"

definition lstrip_char :: "char \<Rightarrow> string \<Rightarrow> string" where
  "lstrip_char c s = dropWhile (\<lambda>x. x = c) s"

definition ends_with :: "string \<Rightarrow> string \<Rightarrow> bool" where
  "ends_with s t \<longleftrightarrow> length t \<le> length s \<and> drop (length s - length t) s = t"

definition starts_with :: "string \<Rightarrow> string \<Rightarrow> bool" where
  "starts_with s t \<longleftrightarrow> take (length t) s = t"

text \<open>\<^verbatim>\<open>s.replace(old, '')\<close> for a non-empty \<open>old\<close>, and \<^verbatim>\<open>s.replace(c, d)\<close> for single characters.\<close>

fun remove_all :: "string \<Rightarrow> string \<Rightarrow> string" where
  "remove_all old [] = []"
| "remove_all old (c # s) =
     (if old \<noteq> [] \<and> starts_with (c # s) old then remove_all old (drop (length old - 1) s) else c # remove_all old s)"

definition replace_char :: "char \<Rightarrow> char \<Rightarrow> string \<Rightarrow> string" where
  "replace_char c d s = map (\<lambda>x. if x = c then d else x) s"

text \<open>\<^verbatim>\<open>os.path\<close> on POSIX.\<close>

definition basename :: "string \<Rightarrow> string" where
  "basename p = rev (takeWhile (\<lambda>c. c \<noteq> CHR ''/'') (rev p))"

definition dirname :: "string \<Rightarrow> string" where
  "dirname p =
     (let head = rev (dropWhile (\<lambda>c. c \<noteq> CHR ''/'') (rev p)); stripped = rstrip_char (CHR ''/'') head
      in if stripped = [] then head else stripped)"

definition path_join :: "string \<Rightarrow> string \<Rightarrow> string" where
  "path_join a b =
     (if starts_with b ''/'' then b
      else if a = [] \<or> ends_with a ''/'' then a @ b
      else a @ ''/'' @ b)"

section \<open>The world\<close>

datatype http_reply = Response nat string | RequestException

text \<open>Text files as lists of lines.\<close>

record 's world =
  w_outside :: 's
  w_files :: "(string \<times> string list) list"

record ('f, 's) host =
  h_request :: "string \<Rightarrow> string \<Rightarrow> 'f json \<Rightarrow> 's \<Rightarrow> http_reply \<times> 's"
  h_time :: "'s \<Rightarrow> 'f \<times> 's"
  h_loads :: "string \<Rightarrow> 'f json result"
  h_dumps :: "'f json \<Rightarrow> string"
  h_dump_indented :: "'f json \<Rightarrow> string list"
  h_str :: "py_error \<Rightarrow> string"

text \<open>\<^verbatim>\<open>json.loads\<close> returns values with distinct keys and reads back what \<^verbatim>\<open>json.dumps\<close> wrote.\<close>

definition codec_ok :: "('f, 's) host \<Rightarrow> bool" where
  "codec_ok h \<longleftrightarrow> (\<forall>v. json_wf v \<longrightarrow> h_loads h (h_dumps h v) = Inr v) \<and> (\<forall>s v. h_loads h s = Inr v \<longrightarrow> json_wf v)"

type_synonym ('w, 'a) io = "'w \<Rightarrow> 'a result \<times> 'w"

definition return_io :: "'a \<Rightarrow> ('w, 'a) io" where
  "return_io x w = (Inr x, w)"

definition lift_io :: "'a result \<Rightarrow> ('w, 'a) io" where
  "lift_io r w = (r, w)"

definition bind_io :: "('w, 'a) io \<Rightarrow> ('a \<Rightarrow> ('w, 'b) io) \<Rightarrow> ('w, 'b) io" where
  "bind_io m f w = (case m w of (Inl e, w') \<Rightarrow> (Inl e, w') | (Inr x, w') \<Rightarrow> f x w')"

text \<open>\<^verbatim>\<open>try\<close> with a handler for every exception.\<close>

definition try_io :: "('w, 'a) io \<Rightarrow> (py_error \<Rightarrow> ('w, 'a) io) \<Rightarrow> ('w, 'a) io" where
  "try_io m h w = (case m w of (Inl e, w') \<Rightarrow> h e w' | (Inr x, w') \<Rightarrow> (Inr x, w'))"

fun for_io :: "('a \<Rightarrow> ('w, unit) io) \<Rightarrow> 'a list \<Rightarrow> ('w, unit) io" where
  "for_io f [] = return_io ()"
| "for_io f (x # xs) = bind_io (f x) (\<lambda>_. for_io f xs)"

definition outside_io :: "('s \<Rightarrow> 'a \<times> 's) \<Rightarrow> ('s world, 'a) io" where
  "outside_io f w = (case f (w_outside w) of (x, s) \<Rightarrow> (Inr x, w\<lparr>w_outside := s\<rparr>))"

definition file_lines :: "string \<Rightarrow> 's world \<Rightarrow> string list" where
  "file_lines path w = (case map_of (w_files w) path of None \<Rightarrow> [] | Some ls \<Rightarrow> ls)"

text \<open>The text of a file, which \<^verbatim>\<open>f.read()\<close> and \<^verbatim>\<open>json.load(f)\<close> see.\<close>

fun join_with :: "string \<Rightarrow> string list \<Rightarrow> string" where
  "join_with sep [] = []"
| "join_with sep [l] = l"
| "join_with sep (l # ls) = l @ sep @ join_with sep ls"

definition file_text :: "string list \<Rightarrow> string" where
  "file_text ls = join_with [CHR 0x0A] ls"

definition read_lines :: "string \<Rightarrow> ('s world, string list) io" where
  "read_lines path w = (case map_of (w_files w) path of None \<Rightarrow> Inl FileNotFoundError | Some ls \<Rightarrow> Inr ls, w)"

text \<open>Opening a file for appending creates it; opening for writing truncates it.\<close>

definition append_lines :: "string \<Rightarrow> string list \<Rightarrow> ('s world, unit) io" where
  "append_lines path ls w = (Inr (), w\<lparr>w_files := AList.update path (file_lines path w @ ls) (w_files w)\<rparr>)"

definition write_lines :: "string \<Rightarrow> string list \<Rightarrow> ('s world, unit) io" where
  "write_lines path ls w = (Inr (), w\<lparr>w_files := AList.update path ls (w_files w)\<rparr>)"

text \<open>\<^verbatim>\<open>os.makedirs(path, exist_ok=True)\<close>; directories are not part of the world.\<close>

definition makedirs :: "string \<Rightarrow> ('w, unit) io" where
  "makedirs path = (if path = [] then lift_io (Inl FileNotFoundError) else return_io ())"

section \<open>Steps that keep a file\<close>

named_theorems io_simps "evaluation of steps on the world"

declare return_io_def [io_simps] lift_io_def [io_simps] bind_io_def [io_simps] try_io_def [io_simps]

definition file_rel :: "(string list \<Rightarrow> string list \<Rightarrow> bool) \<Rightarrow> string \<Rightarrow> ('s world, 'a) io \<Rightarrow> bool" where
  "file_rel R path m \<longleftrightarrow> (\<forall>w. R (file_lines path w) (file_lines path (snd (m w))))"

abbreviation keeps :: "string \<Rightarrow> ('s world, 'a) io \<Rightarrow> bool" where
  "keeps \<equiv> file_rel (\<lambda>x y. y = x)"

abbreviation grows :: "string \<Rightarrow> ('s world, 'a) io \<Rightarrow> bool" where
  "grows \<equiv> file_rel prefix"

lemma file_relD: "file_rel R path m \<Longrightarrow> m w = (r, w') \<Longrightarrow> R (file_lines path w) (file_lines path w')"
  by (auto simp: file_rel_def dest: spec[of _ w])

lemma file_rel_return: "reflp R \<Longrightarrow> file_rel R path (return_io x)" "reflp R \<Longrightarrow> file_rel R path (lift_io r)"
  by (simp_all add: file_rel_def io_simps reflpD)

lemma file_rel_bind:
  assumes "transp R" "file_rel R path m" "\<And>x. file_rel R path (f x)"
  shows "file_rel R path (bind_io m f)"
proof -
  have "R (file_lines path w) (file_lines path (snd (bind_io m f w)))" for w
  proof (cases "m w")
    case (Pair r w')
    have "R (file_lines path w) (file_lines path w')" using assms(2) Pair by (rule file_relD)
    then show ?thesis using assms(1,3) Pair by (cases r) (auto simp: bind_io_def file_rel_def dest: transpD)
  qed
  then show ?thesis by (simp add: file_rel_def)
qed

lemma file_rel_try:
  assumes "transp R" "file_rel R path m" "\<And>e. file_rel R path (f e)"
  shows "file_rel R path (try_io m f)"
proof -
  have "R (file_lines path w) (file_lines path (snd (try_io m f w)))" for w
  proof (cases "m w")
    case (Pair r w')
    have "R (file_lines path w) (file_lines path w')" using assms(2) Pair by (rule file_relD)
    then show ?thesis using assms(1,3) Pair by (cases r) (auto simp: try_io_def file_rel_def dest: transpD)
  qed
  then show ?thesis by (simp add: file_rel_def)
qed

lemma file_rel_for:
  assumes "reflp R" "transp R" "\<And>x. x \<in> set xs \<Longrightarrow> file_rel R path (f x)"
  shows "file_rel R path (for_io f xs)"
  using assms by (induction xs) (auto intro: file_rel_return file_rel_bind)

lemma orders: "reflp (\<lambda>x y. y = x)" "transp (\<lambda>x y. y = x)" "reflp prefix" "transp prefix"
  by (auto intro: reflpI transpI)

lemmas keeps_return [simp] = file_rel_return[OF orders(1)]
lemmas keeps_bind = file_rel_bind[OF orders(2)]
lemmas grows_return [simp] = file_rel_return[OF orders(3)]
lemmas grows_bind = file_rel_bind[OF orders(4)]
lemmas grows_try = file_rel_try[OF orders(4)]
lemmas grows_for = file_rel_for[OF orders(3,4)]

lemma keeps_grows: "keeps path m \<Longrightarrow> grows path m"
  by (simp add: file_rel_def)

lemma keeps_outside [simp]: "keeps path (outside_io f)"
  by (auto simp: file_rel_def outside_io_def file_lines_def split: prod.splits)

lemma keeps_makedirs [simp]: "keeps path (makedirs d)"
  by (simp add: makedirs_def)

lemma keeps_write: "path \<noteq> p \<Longrightarrow> keeps path (write_lines p ls)"
  by (simp add: file_rel_def write_lines_def file_lines_def AList.update_conv')

lemma grows_append [simp]: "grows path (append_lines p ls)"
  by (simp add: file_rel_def append_lines_def file_lines_def AList.update_conv')

lemma file_lines_append [simp]: "file_lines path (snd (append_lines path ls w)) = file_lines path w @ ls"
  by (simp add: append_lines_def file_lines_def AList.update_conv')

section \<open>Steps that leave a file alone\<close>

definition leaves :: "string \<Rightarrow> ('s world, 'a) io \<Rightarrow> bool" where
  "leaves p m \<longleftrightarrow> (\<forall>w. map_of (w_files (snd (m w))) p = map_of (w_files w) p)"

lemma leavesD: "leaves p m \<Longrightarrow> m w = (r, w') \<Longrightarrow> map_of (w_files w') p = map_of (w_files w) p"
  by (auto simp: leaves_def dest: spec[of _ w])

lemma leaves_simps [simp]:
  "leaves p (return_io x)" "leaves p (lift_io r)" "leaves p (makedirs d)" "leaves p (read_lines q)" "leaves p (outside_io f)"
  by (auto simp: leaves_def io_simps makedirs_def read_lines_def outside_io_def split: prod.splits)

lemma leaves_write [simp]: "p \<noteq> q \<Longrightarrow> leaves p (write_lines q ls)"
  by (simp add: leaves_def write_lines_def AList.update_conv')

lemma leaves_bind: "leaves p m \<Longrightarrow> (\<And>x. leaves p (f x)) \<Longrightarrow> leaves p (bind_io m f)"
  unfolding leaves_def bind_io_def by (auto split: prod.splits sum.splits) (metis snd_conv)+

lemma leaves_try: "leaves p m \<Longrightarrow> (\<And>e. leaves p (f e)) \<Longrightarrow> leaves p (try_io m f)"
  unfolding leaves_def try_io_def by (auto split: prod.splits sum.splits) (metis snd_conv)+

lemma leaves_for: "(\<And>x. x \<in> set xs \<Longrightarrow> leaves p (f x)) \<Longrightarrow> leaves p (for_io f xs)"
  by (induction xs) (auto intro: leaves_bind)

lemma for_io_total: "(\<And>x w. \<exists>w'. f x w = (Inr (), w')) \<Longrightarrow> \<exists>w'. for_io f xs w = (Inr (), w')"
proof (induction xs arbitrary: w)
  case (Cons x xs)
  obtain w1 where w1: "f x w = (Inr (), w1)" using Cons.prems by blast
  obtain w2 where "for_io f xs w1 = (Inr (), w2)" using Cons by blast
  then show ?case using w1 by (simp add: bind_io_def)
qed (simp add: return_io_def)

lemma for_io_map: "for_io f (map g xs) = for_io (f \<circ> g) xs"
  by (induction xs) simp_all

text \<open>A loop whose turns each achieve something that the other turns leave alone.\<close>

lemma for_io_each:
  assumes "\<And>x w. x \<in> set xs \<Longrightarrow> I w \<Longrightarrow> \<exists>w'. f x w = (Inr (), w') \<and> I w' \<and> P x w'"
    and "\<And>x y w r w'. x \<in> set xs \<Longrightarrow> y \<in> set xs \<Longrightarrow> x \<noteq> y \<Longrightarrow> P x w \<Longrightarrow> f y w = (r, w') \<Longrightarrow> P x w'"
    and "I w"
  shows "\<exists>w'. for_io f xs w = (Inr (), w') \<and> I w' \<and> (\<forall>x \<in> set xs. P x w')"
proof -
  have "\<exists>w'. for_io f ys w = (Inr (), w') \<and> I w' \<and> (\<forall>x \<in> set xs. x \<in> set ys \<or> P x w \<longrightarrow> P x w')" if "set ys \<subseteq> set xs" "I w" for ys w
    using that
  proof (induction ys arbitrary: w)
    case (Cons y ys)
    obtain w1 where w1: "f y w = (Inr (), w1)" "I w1" "P y w1" using assms(1)[of y w] Cons.prems by auto
    obtain w2 where w2: "for_io f ys w1 = (Inr (), w2)" "I w2" "\<forall>x \<in> set xs. x \<in> set ys \<or> P x w1 \<longrightarrow> P x w2"
      using Cons.IH[OF _ w1(2)] Cons.prems(1) by auto
    have "P x w1" if "x \<in> set xs" "x = y \<or> P x w" for x
      using that w1 assms(2)[of x y w "Inr ()" w1] Cons.prems(1) by (cases "x = y") auto
    then show ?case using w1 w2 by (auto simp: bind_io_def)
  qed (simp add: return_io_def)
  from this[of xs w] assms(3) show ?thesis by auto
qed

section \<open>Paths\<close>

lemma dirname_below:
  assumes "u \<noteq> []" "last u \<noteq> CHR ''/''"
  shows "length u \<le> length (dirname (u @ ''/'' @ v))"
proof -
  obtain y where y: "dropWhile (\<lambda>c. c \<noteq> CHR ''/'') (rev (u @ ''/'' @ v)) = y @ rev u"
    using that[of "[CHR ''/'']"] that[of "dropWhile (\<lambda>c. c \<noteq> CHR ''/'') (rev v) @ [CHR ''/'']"]
    by (cases "\<forall>c \<in> set v. c \<noteq> CHR ''/''") (auto simp: dropWhile_append)
  obtain z where z: "dropWhile (\<lambda>c. c = CHR ''/'') (y @ rev u) = z @ rev u"
  proof (cases "\<forall>c \<in> set y. c = CHR ''/''")
    case True
    obtain a b where "rev u = a # b" "a \<noteq> CHR ''/''" using assms by (cases "rev u") (auto simp: last_rev[symmetric] hd_rev)
    then show ?thesis using True that[of "[]"] by (simp add: dropWhile_append)
  next
    case False
    then obtain c where c: "c \<in> set y" "\<not> c = CHR ''/''" by blast
    show ?thesis using dropWhile_append1[where P = "\<lambda>c. c = CHR ''/''", OF c, of "rev u"] by (rule that)
  qed
  show ?thesis unfolding dirname_def rstrip_char_def Let_def y rev_rev_ident z by simp
qed

lemma file_below_directory:
  assumes "dirname p \<noteq> []" "sub \<noteq> []" "last sub \<noteq> CHR ''/''" "hd sub \<noteq> CHR ''/''" "name \<noteq> []" "hd name \<noteq> CHR ''/''"
  shows "path_join (path_join (dirname p) sub) name \<noteq> p"
proof -
  have u: "path_join (dirname p) sub \<noteq> []" "last (path_join (dirname p) sub) = last sub"
    "length (dirname p) < length (path_join (dirname p) sub)"
    using assms by (auto simp: path_join_def starts_with_def hd_conv_nth take_Suc neq_Nil_conv)
  have e: "\<not> ends_with (path_join (dirname p) sub) ''/''"
  proof
    assume "ends_with (path_join (dirname p) sub) ''/''"
    then have "last (path_join (dirname p) sub) = CHR ''/''" using u(1) by (auto simp: ends_with_def last_drop dest: arg_cong[of _ _ last])
    then show False using u(2) assms(3) by simp
  qed
  have "\<not> starts_with name ''/''" using assms(5,6) by (cases name) (auto simp: starts_with_def)
  then have "path_join (path_join (dirname p) sub) name = path_join (dirname p) sub @ ''/'' @ name" using e u(1) by (simp add: path_join_def)
  moreover have "length (path_join (dirname p) sub) \<le> length (dirname (path_join (dirname p) sub @ ''/'' @ name))"
    using u(1,2) assms(3) by (intro dirname_below) auto
  ultimately show ?thesis using u(3) by auto
qed

lemma dirname_simple:
  assumes "u \<noteq> []" "last u \<noteq> CHR ''/''" "CHR ''/'' \<notin> set v"
  shows "dirname (u @ ''/'' @ v) = u"
proof -
  have "dropWhile (\<lambda>c. c \<noteq> CHR ''/'') (rev (u @ ''/'' @ v)) = CHR ''/'' # rev u"
    using assms(3) by (auto simp: dropWhile_append)
  moreover have "rstrip_char (CHR ''/'') (u @ ''/'') = u"
    using assms(1,2) by (cases u rule: rev_cases) (auto simp: rstrip_char_def)
  ultimately show ?thesis using assms(1) by (simp add: dirname_def Let_def del: rev_append)
qed

lemma path_join_suffix: "\<exists>p. path_join a b = p @ b"
proof -
  consider "path_join a b = [] @ b" | "path_join a b = a @ b" | "path_join a b = (a @ ''/'') @ b"
    unfolding path_join_def append_assoc by (cases "starts_with b ''/''"; cases "a = [] \<or> ends_with a ''/''") (simp_all only: if_True if_False append_Nil simp_thms)
  then show ?thesis by cases blast+
qed

lemma path_join_plain: "\<not> starts_with b ''/'' \<Longrightarrow> a \<noteq> [] \<Longrightarrow> \<not> ends_with a ''/'' \<Longrightarrow> path_join a b = a @ ''/'' @ b"
  by (simp add: path_join_def)

section \<open>A JSON library for examples\<close>

text \<open>A coding of JSON values by numbers in unary, written with a character with which no plain text of the server starts.\<close>

instance json :: (countable) countable
  by countable_datatype

definition example_dumps :: "rat json \<Rightarrow> string" where
  "example_dumps v = replicate (Suc (to_nat v)) (CHR ''{'')"

definition example_loads :: "string \<Rightarrow> rat json result" where
  "example_loads s =
     (if s \<noteq> [] \<and> s = replicate (length s) (CHR ''{'') \<and> json_wf (from_nat (length s - 1) :: rat json)
      then Inr (from_nat (length s - 1)) else Inl JSONDecodeError)"

lemma example_codec: "json_wf v \<Longrightarrow> example_loads (example_dumps v) = Inr v"
  by (simp add: example_loads_def example_dumps_def)

lemma example_loads_wf: "example_loads s = Inr v \<Longrightarrow> json_wf v"
  by (auto simp: example_loads_def split: if_splits)

end
