(* ===== verification/Infer.thy ===== *)
theory Infer
  imports Host
begin

text \<open>
  The inference client (\<^verbatim>\<open>preprocess/infer_and_save.py\<close> and the classes \<^verbatim>\<open>MoEClient\<close> and \<^verbatim>\<open>ExpertLogAnalyzer\<close> of
  \<^verbatim>\<open>preprocess/infer_backend.py\<close>): it sends the prompts of a benchmark to the server, appends the answers to
  one file per source, resumes after an interruption from what that file holds, and drives the expert
  recorder of the server.
\<close>

section \<open>The clients\<close>

record manager =
  mg_api_base :: string
  mg_chat_url :: string
  mg_enable_recording :: bool

definition manager_init :: "string \<Rightarrow> bool \<Rightarrow> manager" where
  "manager_init api_url enable_expert_recording =
     (let url = rstrip_char (CHR ''/'') api_url;
          api_v1 = (if ends_with url ''/v1'' then url else url @ ''/v1'')
      in \<lparr>mg_api_base = remove_all ''/v1'' api_v1, mg_chat_url = api_v1 @ ''/chat/completions'',
          mg_enable_recording = enable_expert_recording\<rparr>)"

definition error_reply :: "'f json \<Rightarrow> string \<Rightarrow> 'f json" where
  "error_reply code msg = JObj [(''error'', code), (''msg'', JStr msg)]"

definition request :: "('f::semiring_1, 's) host \<Rightarrow> manager \<Rightarrow> string \<Rightarrow> ('s world, 'f json) io" where
  "request h m endpoint =
     bind_io (outside_io (h_request h ''POST'' (mg_api_base m @ ''/'' @ lstrip_char (CHR ''/'') endpoint) JNull)) (\<lambda>reply.
     return_io (case reply of
         RequestException \<Rightarrow> error_reply (JStr ''exception'') (h_str h PlainException)
       | Response status text \<Rightarrow>
           if status = 404 then error_reply (JStr ''404'')
             ''Endpoint not found. Ensure server started with --expert-distribution-recorder-mode per_token''
           else if status = 200 then (case h_loads h text of Inr v \<Rightarrow> v | Inl e \<Rightarrow> error_reply (JStr ''exception'') (h_str h e))
           else error_reply (JNum (of_nat status)) text))"

definition manage_recording :: "('f::semiring_1, 's) host \<Rightarrow> manager \<Rightarrow> string \<Rightarrow> ('s world, bool) io" where
  "manage_recording h m action =
     (if \<not> mg_enable_recording m then return_io True
      else bind_io (request h m (action @ ''_expert_distribution_record'')) (\<lambda>res.
           bind_io (lift_io (j_contains ''error'' res)) (\<lambda>failed.
           if failed then bind_io (lift_io (j_item res ''msg'')) (\<lambda>_. return_io False) else return_io True)))"

definition dump_records ::
  "('f::floor_ceiling, 's) host \<Rightarrow> manager \<Rightarrow> string \<Rightarrow> string \<Rightarrow> ('s world, string option) io" where
  "dump_records h m output_dir source_name =
     (if \<not> mg_enable_recording m then return_io None
      else bind_io (request h m ''dump_expert_distribution_record'') (\<lambda>res.
           bind_io (lift_io (j_contains ''error'' res)) (\<lambda>failed.
           if failed then return_io None
           else let log_dir = path_join output_dir ''expert_logs'' in
             bind_io (makedirs log_dir) (\<lambda>_.
             bind_io (outside_io (h_time h)) (\<lambda>t.
             let path = path_join log_dir (''dist_'' @ source_name @ ''_'' @ py_str \<lfloor>t\<rfloor> @ ''.json'') in
             bind_io (write_lines path (h_dump_indented h res)) (\<lambda>_. return_io (Some path)))))))"

text \<open>\<^verbatim>\<open>MoEClient.chat\<close> with the arguments of the only caller; \<^verbatim>\<open>raise_for_status\<close> refuses 4xx and 5xx.\<close>

definition chat :: "('f::field_char_0, 's) host \<Rightarrow> manager \<Rightarrow> 'f json \<Rightarrow> ('s world, 'f json) io" where
  "chat h m messages =
     bind_io (outside_io (h_request h ''POST'' (mg_chat_url m)
       (JObj [(''model'', JStr ''default''), (''messages'', messages), (''return_token_ids'', JBool True),
              (''temperature'', JNum (7 / 10)), (''max_tokens'', JNum 1024)]))) (\<lambda>reply.
     lift_io (case reply of
         RequestException \<Rightarrow> Inl PlainException
       | Response status text \<Rightarrow> if 400 \<le> status \<and> status < 600 then Inl HTTPError else h_loads h text))"

section \<open>One source\<close>

definition get_prompt_hash :: "'f json \<Rightarrow> 'f json result" where
  "get_prompt_hash item =
     bind_res (j_contains ''messages'' item) (\<lambda>b.
     if b then bind_res (j_item item ''messages'') (\<lambda>ms. bind_res (j_index ms 0) (\<lambda>m. j_get m ''content'' (JStr [])))
     else j_get item ''question'' (JStr []))"

text \<open>The hash as it is compared with the set of processed prompts.\<close>

definition prompt_key :: "('f::zero_neq_one) json \<Rightarrow> 'f json result" where
  "prompt_key item = bind_res (get_prompt_hash item) hash_key"

definition line_key :: "('f::zero_neq_one, 's) host \<Rightarrow> string \<Rightarrow> 'f json result" where
  "line_key h line = bind_res (h_loads h line) (\<lambda>r. bind_res (j_item r ''original_data'') prompt_key)"

definition processed_prompts :: "('f::zero_neq_one, 's) host \<Rightarrow> string list \<Rightarrow> 'f json list" where
  "processed_prompts h ls = concat (map (\<lambda>line. case line_key h line of Inr k \<Rightarrow> [k] | Inl _ \<Rightarrow> []) ls)"

definition item_messages :: "'f json \<Rightarrow> 'f json result" where
  "item_messages item =
     bind_res (j_get item ''question'' (JStr [])) (\<lambda>q.
     j_get item ''messages'' (JList [JObj [(''role'', JStr ''user''), (''content'', q)]]))"

definition result_item :: "'f json \<Rightarrow> 'f json \<Rightarrow> 'f \<Rightarrow> 'f json \<Rightarrow> 'f json" where
  "result_item item content duration response =
     JObj [(''original_data'', item), (''generated_response'', content), (''latency'', JNum duration), (''full_response'', response)]"

definition answer_content :: "'f json \<Rightarrow> 'f json result" where
  "answer_content response =
     bind_res (j_item response ''choices'') (\<lambda>cs. bind_res (j_index cs 0) (\<lambda>c.
     bind_res (j_item c ''message'') (\<lambda>msg. j_item msg ''content'')))"

text \<open>The body of the \<^verbatim>\<open>try\<close> statement.\<close>

definition ask ::
  "('f::floor_ceiling, 's) host \<Rightarrow> manager \<Rightarrow> string \<Rightarrow> string \<Rightarrow> nat \<Rightarrow> 'f json \<Rightarrow> 'f json \<Rightarrow> ('s world, unit) io" where
  "ask h m output_file source_name idx item messages =
     bind_io (outside_io (h_time h)) (\<lambda>start_t.
     bind_io (chat h m messages) (\<lambda>response.
     bind_io (outside_io (h_time h)) (\<lambda>now.
     bind_io (if j_truthy response then lift_io (j_contains ''choices'' response) else return_io False) (\<lambda>answered.
     bind_io (if answered
              then bind_io (lift_io (answer_content response)) (\<lambda>content.
                   append_lines output_file [h_dumps h (result_item item content (now - start_t) response)])
              else return_io ()) (\<lambda>_.
     if (idx + 1) mod 20 = 0 then bind_io (dump_records h m (dirname output_file) source_name) (\<lambda>_. return_io ())
     else return_io ())))))"

definition infer_item ::
  "('f::floor_ceiling, 's) host \<Rightarrow> manager \<Rightarrow> string \<Rightarrow> string \<Rightarrow> 'f json list \<Rightarrow> nat \<times> 'f json \<Rightarrow> ('s world, unit) io" where
  "infer_item h m output_file source_name processed idx_item =
     bind_io (lift_io (prompt_key (snd idx_item))) (\<lambda>key.
     if key \<in> set processed then return_io ()
     else bind_io (lift_io (item_messages (snd idx_item))) (\<lambda>messages.
          try_io (ask h m output_file source_name (fst idx_item) (snd idx_item) messages) (\<lambda>_. return_io ())))"

definition process_single_source ::
  "('f::floor_ceiling, 's) host \<Rightarrow> manager \<Rightarrow> 'f json list \<Rightarrow> string \<Rightarrow> string \<Rightarrow> ('s world, unit) io" where
  "process_single_source h m items output_file source_name w =
     (let processed = processed_prompts h (file_lines output_file w) in
      bind_io (makedirs (dirname output_file)) (\<lambda>_.
      bind_io (manage_recording h m ''start'') (\<lambda>_.
      bind_io (append_lines output_file []) (\<lambda>_.
      bind_io (for_io (infer_item h m output_file source_name processed) (enumerate 0 items)) (\<lambda>_.
      bind_io (dump_records h m (dirname output_file) source_name) (\<lambda>_.
      bind_io (manage_recording h m ''stop'') (\<lambda>_. return_io ())))))) w)"

section \<open>All sources\<close>

text \<open>The source of a line of the input file, if it is one of the targets.\<close>

definition line_source :: "('f::zero_neq_one, 's) host \<Rightarrow> string list \<Rightarrow> string \<Rightarrow> (string \<times> 'f json) option" where
  "line_source h targets line =
     (case bind_res (h_loads h line) (\<lambda>item. bind_res (j_get item ''source'' JNull) (\<lambda>src.
             bind_res (hash_key src) (\<lambda>k. Inr (item, k)))) of
        Inr (item, JStr s) \<Rightarrow> if s \<in> set targets then Some (s, item) else None
      | _ \<Rightarrow> None)"

definition source_buckets :: "('f::zero_neq_one, 's) host \<Rightarrow> string list \<Rightarrow> string list \<Rightarrow> (string \<times> 'f json list) list" where
  "source_buckets h targets ls =
     fold (\<lambda>line d. case line_source h targets line of None \<Rightarrow> d | Some (s, item) \<Rightarrow> dict_upd s [] (\<lambda>items. items @ [item]) d) ls []"

definition safe_name :: "string \<Rightarrow> string" where
  "safe_name source = remove_all ''.jsonl'' (replace_char (CHR ''/'') (CHR ''_'') source)"

definition output_path :: "string \<Rightarrow> string \<Rightarrow> string" where
  "output_path root_dir source =
     path_join (path_join (if root_dir = [] then ''.'' else root_dir) (safe_name source @ ''_results'')) (basename source)"

definition run_batch_inference ::
  "('f::floor_ceiling, 's) host \<Rightarrow> string \<Rightarrow> bool \<Rightarrow> string list \<Rightarrow> string \<Rightarrow> string \<Rightarrow> ('s world, unit) io" where
  "run_batch_inference h api_url disable_recording sources input_file root_dir w =
     (let m = manager_init api_url (\<not> disable_recording) in
      case map_of (w_files w) input_file of
        None \<Rightarrow> (Inl FileNotFoundError, w)
      | Some ls \<Rightarrow>
          let buckets = source_buckets h sources ls in
          for_io (\<lambda>source. let items = dict_get buckets source [] in
              if items = [] then return_io ()
              else process_single_source h m items (output_path root_dir source) (safe_name source)) sources w)"

section \<open>Expert logs\<close>

text \<open>\<^verbatim>\<open>MoEClient.chat_stream\<close>: the events of a streamed answer, from the lines of the response.\<close>

definition chat_stream_events :: "('f, 's) host \<Rightarrow> string list \<Rightarrow> 'f json list" where
  "chat_stream_events h ls =
     concat (map (\<lambda>line. if line \<noteq> [] \<and> starts_with line ''data: '' \<and> drop 6 line \<noteq> ''[DONE]''
                         then (case h_loads h (drop 6 line) of Inr v \<Rightarrow> [v] | Inl _ \<Rightarrow> []) else []) ls)"

definition read_log_file :: "('f, 's) host \<Rightarrow> string list \<Rightarrow> 'f json list result" where
  "read_log_file h ls = map_res (h_loads h) (filter (\<lambda>line. strip line \<noteq> []) ls)"

text \<open>Iteration over a JSON value.\<close>

fun j_iter :: "'f json \<Rightarrow> 'f json list result" where
  "j_iter (JList xs) = Inr xs"
| "j_iter (JObj d) = Inr (map (\<lambda>(k, _). JStr k) d)"
| "j_iter (JStr s) = Inr (map (\<lambda>c. JStr [c]) s)"
| "j_iter _ = Inl TypeError"

type_synonym 'f usage = "('f json, ('f json, nat) dict) dict"

definition count_expert :: "('f::zero_neq_one) json \<Rightarrow> 'f json \<Rightarrow> 'f usage \<Rightarrow> 'f usage result" where
  "count_expert layer_idx expert_idx usage =
     bind_res (hash_key layer_idx) (\<lambda>l. bind_res (hash_key expert_idx) (\<lambda>e.
     Inr (dict_upd l [] (dict_upd e 0 Suc) usage)))"

definition count_layer_info :: "('f::zero_neq_one) json \<Rightarrow> 'f usage \<Rightarrow> 'f usage result" where
  "count_layer_info layer_info usage =
     bind_res (j_item layer_info ''layer_idx'') (\<lambda>layer_idx.
     bind_res (j_get layer_info ''topk_experts'' (JList [])) (\<lambda>topk.
     bind_res (j_iter topk) (\<lambda>experts. fold_res (count_expert layer_idx) experts usage)))"

definition analyze_expert_usage :: "('f::zero_neq_one) json list \<Rightarrow> 'f usage result" where
  "analyze_expert_usage tokens =
     fold_res (\<lambda>token usage. bind_res (j_get token ''expert_detail'' (JList [])) (\<lambda>detail.
       bind_res (j_iter detail) (\<lambda>infos. fold_res count_layer_info infos usage))) tokens []"

section \<open>Resumption\<close>

text \<open>The recording endpoints answer with an object that has no key \<^verbatim>\<open>error\<close>, with a text that is not JSON, or not at all.\<close>

definition endpoint_url :: "manager \<Rightarrow> string \<Rightarrow> string" where
  "endpoint_url m endpoint = mg_api_base m @ ''/'' @ lstrip_char (CHR ''/'') endpoint"

definition endpoints_ok :: "('f, 's) host \<Rightarrow> manager \<Rightarrow> bool" where
  "endpoints_ok h m \<longleftrightarrow> (\<forall>action \<in> {''start'', ''stop'', ''dump''}. \<forall>s text v.
     fst (h_request h ''POST'' (endpoint_url m (action @ ''_expert_distribution_record'')) JNull s) = Response 200 text \<longrightarrow>
     h_loads h text = Inr v \<longrightarrow> (\<exists>d. v = JObj d \<and> ''error'' \<notin> fst ` set d))"

definition items_ok :: "('f::zero_neq_one) json list \<Rightarrow> bool" where
  "items_ok items \<longleftrightarrow> (\<forall>item \<in> set items. json_wf item \<and> (\<exists>d k. item = JObj d \<and> prompt_key item = Inr k))"

definition key_of :: "('f::zero_neq_one) json \<Rightarrow> 'f json" where
  "key_of item = projr (prompt_key item)"

definition pending :: "('f::zero_neq_one, 's) host \<Rightarrow> string list \<Rightarrow> 'f json list \<Rightarrow> 'f json list" where
  "pending h ls items = filter (\<lambda>item. key_of item \<notin> set (processed_prompts h ls)) items"

definition answers_all :: "('f::field_char_0, 's) host \<Rightarrow> manager \<Rightarrow> bool" where
  "answers_all h m \<longleftrightarrow> (\<forall>messages w. \<exists>response content. fst (chat h m messages w) = Inr response \<and> j_truthy response \<and>
     j_contains ''choices'' response = Inr True \<and> answer_content response = Inr content)"

definition reply_ok :: "'f json \<Rightarrow> bool" where
  "reply_ok v \<longleftrightarrow> (\<exists>d. v = JObj d \<and> (''error'' \<in> fst ` set d \<longrightarrow> map_of d ''msg'' \<noteq> None))"

lemma reply_ok_error [simp]: "reply_ok (error_reply c t)"
  by (simp add: error_reply_def reply_ok_def)

lemma request_ok:
  assumes "endpoints_ok h m" and action: "action \<in> {''start'', ''stop'', ''dump''}" and e: "endpoint = action @ ''_expert_distribution_record''"
  shows "\<exists>v w'. request h m endpoint w = (Inr v, w') \<and> reply_ok v"
proof -
  let ?r = "h_request h ''POST'' (endpoint_url m endpoint) JNull (w_outside w)"
  obtain reply s where r: "?r = (reply, s)" by fastforce
  show ?thesis
  proof (cases reply)
    case (Response status body)
    show ?thesis
    proof (cases "h_loads h body")
      case (Inr v)
      have "reply_ok v" if "status = 200"
        using assms(1)[unfolded endpoints_ok_def, rule_format, OF action] r Response Inr that unfolding reply_ok_def e by (metis fst_conv)
      then show ?thesis using r Response Inr by (simp add: request_def io_simps outside_io_def endpoint_url_def)
    qed (use r Response in \<open>simp add: request_def io_simps outside_io_def endpoint_url_def\<close>)
  qed (use r in \<open>simp add: request_def io_simps outside_io_def endpoint_url_def\<close>)
qed

lemma keeps_request [simp]: "keeps path (request h m endpoint)"
  unfolding request_def by (intro keeps_bind) simp_all

lemma manage_recording_ok:
  assumes "endpoints_ok h m" and "action \<in> {''start'', ''stop'', ''dump''}"
  shows "\<exists>b w'. manage_recording h m action w = (Inr b, w')"
proof -
  obtain v w' where "request h m (action @ ''_expert_distribution_record'') w = (Inr v, w')" "reply_ok v"
    using request_ok[OF assms refl] by blast
  then show ?thesis by (auto simp: manage_recording_def io_simps reply_ok_def)
qed

lemma keeps_manage_recording [simp]: "keeps path (manage_recording h m action)"
  by (auto simp: manage_recording_def intro!: keeps_bind)

lemma dump_records_ok:
  assumes "endpoints_ok h m"
  shows "\<exists>p w'. dump_records h m d src w = (Inr p, w')"
proof -
  obtain v w' where "request h m ''dump_expert_distribution_record'' w = (Inr v, w')" "reply_ok v"
    using request_ok[OF assms, of "''dump''"] by fastforce
  moreover have "path_join d ''expert_logs'' \<noteq> []" by (simp add: path_join_def)
  ultimately show ?thesis
    by (auto simp: dump_records_def io_simps reply_ok_def Let_def makedirs_def outside_io_def write_lines_def split: prod.splits)
qed

definition log_path :: "string \<Rightarrow> string \<Rightarrow> int \<Rightarrow> string" where
  "log_path d src i = path_join (path_join d ''expert_logs'') (''dist_'' @ src @ ''_'' @ py_str i @ ''.json'')"

lemma keeps_dump_other:
  assumes "\<And>i. path \<noteq> log_path d src i"
  shows "keeps path (dump_records h m d src)"
  unfolding dump_records_def Let_def log_path_def[symmetric]
  by (auto intro!: keeps_bind keeps_write[OF assms])

lemma keeps_dump_records:
  assumes "dirname path \<noteq> []"
  shows "keeps path (dump_records h m (dirname path) src)"
proof (rule keeps_dump_other)
  fix i
  have "log_path (dirname path) src i \<noteq> path"
    unfolding log_path_def by (rule file_below_directory[OF assms]) simp_all
  then show "path \<noteq> log_path (dirname path) src i" by simp
qed

lemma keeps_chat [simp]: "keeps path (chat h m messages)"
  unfolding chat_def by (intro keeps_bind) simp_all

lemma chat_wf: "codec_ok h \<Longrightarrow> chat h m messages w = (Inr response, w') \<Longrightarrow> json_wf response"
  by (auto simp: chat_def bind_io_def lift_io_def outside_io_def codec_ok_def split: prod.splits http_reply.splits if_splits)

lemma answer_content_wf: "json_wf response \<Longrightarrow> answer_content response = Inr content \<Longrightarrow> json_wf content"
  unfolding answer_content_def bind_res_Inr_iff using json_wf_item json_wf_index by metis

text \<open>What a question leaves in the output file.\<close>

lemma ask_file:
  assumes d: "dirname out \<noteq> []" and ok: "codec_ok h"
  shows "\<exists>ls. file_lines out (snd (ask h m out src idx item messages w)) = file_lines out w @ ls \<and>
     (ls = [] \<or> (\<exists>content duration response. ls = [h_dumps h (result_item item content duration response)] \<and> json_wf content \<and> json_wf response)) \<and>
     (answers_all h m \<longrightarrow> ls \<noteq> [])"
proof -
  obtain t0 s0 where t0: "h_time h (w_outside w) = (t0, s0)" by fastforce
  define w1 where "w1 = w\<lparr>w_outside := s0\<rparr>"
  obtain r w2 where c: "chat h m messages w1 = (r, w2)" by fastforce
  have f2: "file_lines out w2 = file_lines out w" using file_relD[OF keeps_chat c] by (simp add: w1_def file_lines_def)
  obtain t1 s1 where t1: "h_time h (w_outside w2) = (t1, s1)" by fastforce
  define w3 where "w3 = w2\<lparr>w_outside := s1\<rparr>"
  have f3: "file_lines out w3 = file_lines out w" using f2 by (simp add: w3_def file_lines_def)
  let ?last = "if (idx + 1) mod 20 = 0 then bind_io (dump_records h m (dirname out) src) (\<lambda>_. return_io ()) else return_io ()"
  have "keeps out ?last" using keeps_dump_records[OF d] by (auto intro!: keeps_bind)
  then have e: "file_lines out (snd (?last w')) = file_lines out w'" for w' by (simp add: file_rel_def)
  have fst_w1: "ask h m out src idx item messages w = (case r of Inl e \<Rightarrow> (Inl e, w2) | Inr response \<Rightarrow>
      bind_io (if j_truthy response then lift_io (j_contains ''choices'' response) else return_io False) (\<lambda>answered.
      bind_io (if answered then bind_io (lift_io (answer_content response)) (\<lambda>content.
                   append_lines out [h_dumps h (result_item item content (t1 - t0) response)]) else return_io ()) (\<lambda>_. ?last)) w3)"
    using t0 c t1 by (simp add: ask_def bind_io_def outside_io_def w1_def w3_def split: sum.splits)
  show ?thesis
  proof (cases r)
    case (Inl e)
    then have "\<not> answers_all h m" using c unfolding answers_all_def by (metis fst_conv sum.distinct(1))
    then show ?thesis using fst_w1 Inl f2 by auto
  next
    case (Inr response)
    show ?thesis
    proof (cases "j_truthy response \<and> j_contains ''choices'' response = Inr True \<and> (\<exists>content. answer_content response = Inr content)")
      case True
      then obtain content where content: "answer_content response = Inr content" by blast
      have "json_wf response" using chat_wf[OF ok] c Inr by blast
      then have wf: "json_wf content" "json_wf response" using answer_content_wf content by blast+
      from content have "ask h m out src idx item messages w =
          ?last (snd (append_lines out [h_dumps h (result_item item content (t1 - t0) response)] w3))"
        using fst_w1 Inr True by (simp add: bind_io_def lift_io_def append_lines_def)
      then have "file_lines out (snd (ask h m out src idx item messages w)) =
          file_lines out w @ [h_dumps h (result_item item content (t1 - t0) response)]" using e f3 by simp
      then show ?thesis using wf by blast
    next
      case False
      have "answers_all h m \<Longrightarrow> False" using c Inr False unfolding answers_all_def by (metis fst_conv sum.inject(2))
      moreover have "file_lines out (snd (ask h m out src idx item messages w)) = file_lines out w3"
        using False e unfolding fst_w1 Inr
        by (cases "j_contains ''choices'' response"; cases "answer_content response")
          (auto simp: bind_io_def lift_io_def return_io_def simp del: One_nat_def split: if_splits)
      ultimately show ?thesis using f3 by auto
    qed
  qed
qed

lemma infer_item_step:
  assumes d: "dirname out \<noteq> []" and ok: "codec_ok h" and item: "items_ok [item]"
  shows "\<exists>w' ls. infer_item h m out src processed (idx, item) w = (Inr (), w') \<and> file_lines out w' = file_lines out w @ ls \<and>
     (if key_of item \<in> set processed then w' = w \<and> ls = []
      else (ls = [] \<or> (\<exists>content duration response. ls = [h_dumps h (result_item item content duration response)] \<and> json_wf content \<and> json_wf response)) \<and>
           (answers_all h m \<longrightarrow> ls \<noteq> []))"
proof -
  obtain o' k where o: "item = JObj o'" "prompt_key item = Inr k" using item by (auto simp: items_ok_def)
  then have k: "key_of item = k" by (simp add: key_of_def)
  obtain messages where ms: "item_messages item = Inr messages" using o(1) by (simp add: item_messages_def)
  show ?thesis
  proof (cases "k \<in> set processed")
    case True
    then show ?thesis using o k by (simp add: infer_item_def io_simps)
  next
    case False
    obtain r w' where a: "ask h m out src idx item messages w = (r, w')" by fastforce
    have "infer_item h m out src processed (idx, item) w = (Inr (), w')"
      using False o ms a by (cases r) (simp_all add: infer_item_def io_simps)
    then show ?thesis using ask_file[OF d ok, of m src idx item messages w] a False k by auto
  qed
qed

lemma infer_loop:
  assumes d: "dirname out \<noteq> []" and ok: "codec_ok h" and items: "items_ok items"
  shows "\<exists>w' answered ls. for_io (infer_item h m out src processed) (enumerate i items) w = (Inr (), w') \<and>
     file_lines out w' = file_lines out w @ ls \<and> processed_prompts h ls = map key_of answered \<and>
     subseq answered (filter (\<lambda>item. key_of item \<notin> set processed) items) \<and>
     (answers_all h m \<longrightarrow> answered = filter (\<lambda>item. key_of item \<notin> set processed) items)"
  using items
proof (induction items arbitrary: i w)
  case Nil
  then show ?case by (auto simp: return_io_def processed_prompts_def)
next
  case (Cons item items)
  have one: "items_ok [item]" and rest: "items_ok items" using Cons.prems by (auto simp: items_ok_def)
  obtain w1 l1 where st: "infer_item h m out src processed (i, item) w = (Inr (), w1)" "file_lines out w1 = file_lines out w @ l1"
    "if key_of item \<in> set processed then w1 = w \<and> l1 = []
      else (l1 = [] \<or> (\<exists>content duration response. l1 = [h_dumps h (result_item item content duration response)] \<and> json_wf content \<and> json_wf response)) \<and>
           (answers_all h m \<longrightarrow> l1 \<noteq> [])"
    using infer_item_step[OF d ok one, of m src processed i w] by (elim exE conjE) (rule that)
  obtain w' answered ls where IH: "for_io (infer_item h m out src processed) (enumerate (Suc i) items) w1 = (Inr (), w')"
    "file_lines out w' = file_lines out w1 @ ls" "processed_prompts h ls = map key_of answered"
    "subseq answered (filter (\<lambda>item. key_of item \<notin> set processed) items)"
    "answers_all h m \<longrightarrow> answered = filter (\<lambda>item. key_of item \<notin> set processed) items"
    using Cons.IH[OF rest] by metis
  have run: "for_io (infer_item h m out src processed) (enumerate i (item # items)) w = (Inr (), w')"
    using st(1) IH(1) by (simp add: bind_io_def)
  have key: "line_key h (h_dumps h (result_item item content duration response)) = Inr (key_of item)"
    if "json_wf content" "json_wf response" for content duration response
  proof -
    obtain k where k: "prompt_key item = Inr k" "json_wf item" using one by (auto simp: items_ok_def)
    then have "json_wf (result_item item content duration response)" using that by (simp add: result_item_def)
    then have "h_loads h (h_dumps h (result_item item content duration response)) = Inr (result_item item content duration response)"
      using ok by (simp add: codec_ok_def)
    then show ?thesis using k by (simp add: line_key_def result_item_def key_of_def)
  qed
  have pp: "processed_prompts h (l1 @ ls) = processed_prompts h l1 @ map key_of answered"
    using IH(3) by (simp add: processed_prompts_def)
  show ?case
  proof (cases "l1 = []")
    case True
    then have "subseq answered (filter (\<lambda>item. key_of item \<notin> set processed) (item # items))" using IH(4) by (auto intro: list_emb_Cons)
    then show ?thesis using run IH pp st True
      by (intro exI[of _ w'] exI[of _ answered] exI[of _ ls]) (auto simp: processed_prompts_def split: if_splits)
  next
    case False
    then have "key_of item \<notin> set processed" "processed_prompts h l1 = [key_of item]"
      using st(3) key by (auto simp: processed_prompts_def split: if_splits)
    then show ?thesis using run IH pp st(2)
      by (intro exI[of _ w'] exI[of _ "item # answered"] exI[of _ "l1 @ ls"]) auto
  qed
qed
lemma process_source_run:
  assumes ok: "codec_ok h" "endpoints_ok h m" and items: "items_ok items" and d: "dirname out \<noteq> []"
  shows "\<exists>w' answered ls. process_single_source h m items out src w = (Inr (), w') \<and>
     file_lines out w' = file_lines out w @ ls \<and> processed_prompts h ls = map key_of answered \<and>
     subseq answered (pending h (file_lines out w) items) \<and>
     (answers_all h m \<longrightarrow> answered = pending h (file_lines out w) items)"
proof -
  let ?processed = "processed_prompts h (file_lines out w)"
  obtain b w1 where s: "manage_recording h m ''start'' w = (Inr b, w1)" using manage_recording_ok[OF ok(2)] by fastforce
  obtain w2 where a: "append_lines out [] w1 = (Inr (), w2)" by (simp add: append_lines_def)
  have f2: "file_lines out w2 = file_lines out w"
    using file_relD[OF keeps_manage_recording s] file_lines_append[of out "[]" w1] a by simp
  obtain w3 answered ls where l: "for_io (infer_item h m out src ?processed) (enumerate 0 items) w2 = (Inr (), w3)"
    "file_lines out w3 = file_lines out w @ ls" "processed_prompts h ls = map key_of answered"
    "subseq answered (pending h (file_lines out w) items)"
    "answers_all h m \<longrightarrow> answered = pending h (file_lines out w) items"
    using infer_loop[OF d ok(1) items, of m src ?processed 0 w2] f2 by (auto simp: pending_def)
  obtain p w4 where dr: "dump_records h m (dirname out) src w3 = (Inr p, w4)" using dump_records_ok[OF ok(2)] by blast
  obtain c w5 where st: "manage_recording h m ''stop'' w4 = (Inr c, w5)" using manage_recording_ok[OF ok(2)] by fastforce
  have "file_lines out w5 = file_lines out w3"
    using file_relD[OF keeps_dump_records[OF d] dr] file_relD[OF keeps_manage_recording st] by simp
  moreover have "process_single_source h m items out src w = (Inr (), w5)"
    unfolding process_single_source_def Let_def using s a l(1) dr st d by (simp add: io_simps makedirs_def)
  ultimately show ?thesis using l by auto
qed

lemma process_nothing_pending:
  assumes items: "items_ok items" and none: "pending h (file_lines out w) items = []"
  shows "process_single_source h m items out src w = process_single_source h m [] out src w"
proof -
  let ?processed = "processed_prompts h (file_lines out w)"
  have "for_io (infer_item h m out src ?processed) (enumerate i items) w' = (Inr (), w')" for i w'
    using items none
  proof (induction items arbitrary: i)
    case (Cons item items)
    obtain k where "prompt_key item = Inr k" "k \<in> set ?processed"
      using Cons.prems by (auto simp: items_ok_def pending_def key_of_def split: if_splits)
    then have "infer_item h m out src ?processed (i, item) w' = (Inr (), w')" by (simp add: infer_item_def io_simps)
    then show ?case using Cons.IH[of "Suc i"] Cons.prems by (auto simp: bind_io_def items_ok_def pending_def split: if_splits)
  qed (simp add: return_io_def)
  then have "for_io (infer_item h m out src ?processed) (enumerate 0 items) = return_io ()" by (auto simp: return_io_def)
  then show ?thesis by (simp add: process_single_source_def)
qed

lemma processed_prompts_append: "processed_prompts h (ls @ ls') = processed_prompts h ls @ processed_prompts h ls'"
  by (simp add: processed_prompts_def)

lemma processed_prompts_loads: "h_loads h' = h_loads h \<Longrightarrow> processed_prompts h' ls = processed_prompts h ls"
  by (simp add: processed_prompts_def line_key_def)

lemma all_processed:
  assumes "processed_prompts h ls = map key_of (pending h old items)" "item \<in> set items"
  shows "key_of item \<in> set (processed_prompts h (old @ ls))"
  using assms by (auto simp: pending_def processed_prompts_append)

lemma nothing_pending:
  assumes "\<forall>item \<in> set items. key_of item \<in> set (processed_prompts h ls)" and "h_loads h' = h_loads h"
  shows "pending h' ls items = []"
  using assms(1) processed_prompts_loads[OF assms(2)] by (simp add: pending_def filter_empty_conv)

text \<open>
  (C6) Inference over a source can be interrupted and resumed. Besides the documented behaviour of the JSON library (\<open>codec_ok\<close>) it is assumed that every item is a well-formed JSON object from which the prompt can be read
  (\<open>items_ok\<close>), that the output path has a directory, and that the three recording endpoints, where they answer with status 200 and a text that is JSON, answer with
  an object that has no key \<open>error\<close> (\<open>endpoints_ok\<close>; they may fail, or answer with other texts, as the endpoints of this server do). Then, whatever the
  endpoint that answers the prompts does, a run ends without an exception, keeps all earlier results and appends results for prompts that had none,
  in the order of the items and each for one item; when that endpoint answers every question, all prompts have a result afterwards, and then any
  later run, also against another server, asks no question at all: it does exactly what a run without items does.
\<close>

theorem inference_resumes:
  assumes ok: "codec_ok h" "endpoints_ok h m" and items: "items_ok items" and d: "dirname out \<noteq> []"
  shows "\<exists>w' answered ls. process_single_source h m items out src w = (Inr (), w') \<and>
     file_lines out w' = file_lines out w @ ls \<and> processed_prompts h ls = map key_of answered \<and>
     subseq answered (pending h (file_lines out w) items) \<and>
     (answers_all h m \<longrightarrow>
        (\<forall>item \<in> set items. key_of item \<in> set (processed_prompts h (file_lines out w'))) \<and>
        (\<forall>h' m' w2. h_loads h' = h_loads h \<longrightarrow> file_lines out w2 = file_lines out w' \<longrightarrow>
           process_single_source h' m' items out src w2 = process_single_source h' m' [] out src w2))"
proof -
  obtain w' answered ls where run: "process_single_source h m items out src w = (Inr (), w')"
    "file_lines out w' = file_lines out w @ ls" "processed_prompts h ls = map key_of answered"
    "subseq answered (pending h (file_lines out w) items)"
    "answers_all h m \<longrightarrow> answered = pending h (file_lines out w) items"
    using process_source_run[OF ok items d] by metis
  have "(\<forall>item \<in> set items. key_of item \<in> set (processed_prompts h (file_lines out w'))) \<and>
      (\<forall>h' m' w2. h_loads h' = h_loads h \<longrightarrow> file_lines out w2 = file_lines out w' \<longrightarrow>
         process_single_source h' m' items out src w2 = process_single_source h' m' [] out src w2)" if "answers_all h m"
  proof -
    have all: "\<forall>item \<in> set items. key_of item \<in> set (processed_prompts h (file_lines out w'))"
      using all_processed[of h ls "file_lines out w" items] run that by simp
    show ?thesis using all nothing_pending[OF all] by (intro conjI allI impI process_nothing_pending[OF items]) simp_all
  qed
  then show ?thesis using run by blast
qed

section \<open>All sources\<close>

lemma set_remove_all: "set (remove_all old s) \<subseteq> set s"
  by (induction old s rule: remove_all.induct) (auto dest: in_set_dropD)

lemma safe_name_no_slash: "CHR ''/'' \<notin> set (safe_name source)"
  using set_remove_all[of "''.jsonl''" "replace_char (CHR ''/'') (CHR ''_'') source"]
  by (auto simp: safe_name_def replace_char_def split: if_splits)

definition results_dir :: "string \<Rightarrow> string \<Rightarrow> string" where
  "results_dir root_dir source = path_join (if root_dir = [] then ''.'' else root_dir) (safe_name source @ ''_results'')"

lemma results_dir_end: "\<exists>p. results_dir root_dir source = p @ ''_results''"
  using path_join_suffix[of "if root_dir = [] then ''.'' else root_dir" "safe_name source @ ''_results''"]
  unfolding results_dir_def by (metis append_assoc)

lemma output_path_dir:
  shows "dirname (output_path root_dir source) = results_dir root_dir source"
    and "output_path root_dir source = results_dir root_dir source @ ''/'' @ basename source"
proof -
  obtain p where p: "results_dir root_dir source = p @ ''_results''" using results_dir_end by blast
  have b: "CHR ''/'' \<notin> set (basename source)" by (auto simp: basename_def dest: set_takeWhileD)
  then have "\<not> starts_with (basename source) ''/''" by (cases "basename source") (auto simp: starts_with_def)
  moreover have "\<not> ends_with (p @ ''_results'') ''/''" by (simp add: ends_with_def)
  ultimately show out: "output_path root_dir source = results_dir root_dir source @ ''/'' @ basename source"
    using p unfolding output_path_def results_dir_def[symmetric] by (intro path_join_plain) auto
  show "dirname (output_path root_dir source) = results_dir root_dir source"
    unfolding out using p b by (intro dirname_simple) auto
qed

text \<open>The log files of one source are no result files of any source.\<close>

lemma log_no_output:
  "output_path root_dir s' \<noteq> log_path (dirname (output_path root_dir s)) (safe_name s) i"
proof -
  let ?log = "path_join (results_dir root_dir s) ''expert_logs''" and ?name = "''dist_'' @ safe_name s @ ''_'' @ py_str i @ ''.json''"
  obtain p where p: "?log = p @ ''expert_logs''" using path_join_suffix by blast
  have num: "CHR ''/'' \<notin> set (py_str i)"
    using nat_str_digits[of "CHR ''/''"] by (auto simp: py_str_def digit_char_def)
  have "path_join ?log ?name = ?log @ ''/'' @ ?name" using p by (intro path_join_plain) (auto simp: starts_with_def ends_with_def)
  moreover have "dirname (?log @ ''/'' @ ?name) = ?log" using p safe_name_no_slash[of s] num by (intro dirname_simple) auto
  ultimately have "dirname (path_join ?log ?name) = p @ ''expert_logs''" using p by simp
  moreover obtain q where "dirname (output_path root_dir s') = q @ ''_results''" using results_dir_end output_path_dir(1) by metis
  moreover have "p @ ''expert_logs'' \<noteq> q @ ''_results''" for q
    by (auto dest: arg_cong[of _ _ rev])
  ultimately show ?thesis unfolding log_path_def output_path_dir(1)[of root_dir s] by metis
qed
lemma process_source_grows:
  assumes "\<And>i. path \<noteq> log_path (dirname out) src i"
  shows "grows path (process_single_source h m items out src)"
proof -
  have dump: "grows path (dump_records h m (dirname out) src)" using assms by (intro keeps_grows keeps_dump_other)
  have kg: "grows path (outside_io f)" "grows path (chat h m ms)" "grows path (manage_recording h m a)" "grows path (makedirs d)" for f ms a d
    by (simp_all add: keeps_grows)
  have ask: "grows path (ask h m out src idx item messages)" for idx item messages
    using dump kg by (auto simp: ask_def intro!: grows_bind)
  have "grows path (infer_item h m out src processed x)" for processed x
    using ask by (auto simp: infer_item_def intro!: grows_bind grows_try)
  then have "grows path (for_io (infer_item h m out src processed) xs)" for processed xs by (intro grows_for)
  then have "grows path (\<lambda>w. bind_io (makedirs (dirname out)) (\<lambda>_. bind_io (manage_recording h m ''start'') (\<lambda>_.
      bind_io (append_lines out []) (\<lambda>_. bind_io (for_io (infer_item h m out src (processed_prompts h ls)) (enumerate 0 items)) (\<lambda>_.
      bind_io (dump_records h m (dirname out) src) (\<lambda>_. bind_io (manage_recording h m ''stop'') (\<lambda>_. return_io ())))))) w)" for ls
    using dump kg by (intro grows_bind) simp_all
  then show ?thesis by (simp add: process_single_source_def file_rel_def Let_def)
qed

lemma processed_prompts_mono: "prefix ls ls' \<Longrightarrow> set (processed_prompts h ls) \<subseteq> set (processed_prompts h ls')"
  by (auto simp: prefix_def processed_prompts_append)

lemma source_buckets_items:
  "dict_get (source_buckets h targets ls) s [] =
     concat (map (\<lambda>line. case line_source h targets line of Some (s', item) \<Rightarrow> if s' = s then [item] else [] | None \<Rightarrow> []) ls)"
proof -
  let ?f = "\<lambda>line d. case line_source h targets line of None \<Rightarrow> d | Some (s, item) \<Rightarrow> dict_upd s [] (\<lambda>items. items @ [item]) d"
  have "dict_get (fold ?f ls d) s [] = dict_get d s [] @
      concat (map (\<lambda>line. case line_source h targets line of Some (s', item) \<Rightarrow> if s' = s then [item] else [] | None \<Rightarrow> []) ls)" for d
  proof (induction ls arbitrary: d)
    case (Cons line ls)
    then show ?case by (cases "line_source h targets line") (auto simp: dict_simps dict_get_upd)
  qed simp
  then show ?thesis by (simp add: source_buckets_def)
qed

lemma run_sources:
  assumes ok: "codec_ok h" "endpoints_ok h m" "answers_all h m"
    and items: "\<And>s. s \<in> set sources \<Longrightarrow> items_ok (bucket s)"
  shows "\<exists>w'. for_io (\<lambda>s. if bucket s = [] then return_io ()
      else process_single_source h m (bucket s) (output_path root_dir s) (safe_name s)) sources w = (Inr (), w') \<and>
     (\<forall>s. prefix (file_lines (output_path root_dir s) w) (file_lines (output_path root_dir s) w')) \<and>
     (\<forall>s \<in> set sources. \<forall>item \<in> set (bucket s). key_of item \<in> set (processed_prompts h (file_lines (output_path root_dir s) w')))"
  using items
proof (induction sources arbitrary: w)
  case Nil
  then show ?case by (simp add: return_io_def)
next
  case (Cons s sources)
  let ?f = "\<lambda>s. if bucket s = [] then return_io ()
      else process_single_source h m (bucket s) (output_path root_dir s) (safe_name s)"
  have dir: "dirname (output_path root_dir s) \<noteq> []" using output_path_dir(1) results_dir_end by (metis append_is_Nil_conv list.distinct(1))
  have grows: "grows (output_path root_dir s') (?f s)" for s'
    by (cases "bucket s = []") (auto intro!: process_source_grows log_no_output)
  have "\<exists>w1. ?f s w = (Inr (), w1) \<and>
      (\<forall>item \<in> set (bucket s). key_of item \<in> set (processed_prompts h (file_lines (output_path root_dir s) w1)))"
  proof (cases "bucket s = []")
    case False
    obtain w1 answered ls where "process_single_source h m (bucket s) (output_path root_dir s) (safe_name s) w = (Inr (), w1)"
      "file_lines (output_path root_dir s) w1 = file_lines (output_path root_dir s) w @ ls"
      "processed_prompts h ls = map key_of answered" "answered = pending h (file_lines (output_path root_dir s) w) (bucket s)"
      using process_source_run[OF ok(1,2) _ dir, of "bucket s" "safe_name s" w] Cons.prems ok(3) by (metis list.set_intros(1))
    then show ?thesis using False all_processed by auto
  qed (simp add: return_io_def)
  then obtain w1 where w1: "?f s w = (Inr (), w1)"
    "\<forall>item \<in> set (bucket s). key_of item \<in> set (processed_prompts h (file_lines (output_path root_dir s) w1))" by blast
  obtain w' where w': "for_io ?f sources w1 = (Inr (), w')"
    "\<forall>s. prefix (file_lines (output_path root_dir s) w1) (file_lines (output_path root_dir s) w')"
    "\<forall>s \<in> set sources. \<forall>item \<in> set (bucket s). key_of item \<in> set (processed_prompts h (file_lines (output_path root_dir s) w'))"
    using Cons.IH[of w1] Cons.prems by auto
  have "for_io ?f (s # sources) w = (Inr (), w')" using w1(1) w'(1) by (simp add: bind_io_def)
  moreover have "prefix (file_lines (output_path root_dir s') w) (file_lines (output_path root_dir s') w')" for s'
    using file_relD[OF grows w1(1), of s'] w'(2) prefix_order.trans by blast
  moreover have "key_of item \<in> set (processed_prompts h (file_lines (output_path root_dir s) w'))" if "item \<in> set (bucket s)" for item
    using w1(2) w'(2) that processed_prompts_mono by blast
  ultimately show ?case using w'(3) by auto
qed

text \<open>
  A batch run covers its sources: when the server answers every question and the questions of the
  listed sources can be read, the run ends without error, no result file loses a line, and every item
  of the input file whose source is listed has a result in the file of its source. The logs
  written on the way never touch a result file.
\<close>

theorem batch_covers_sources:
  assumes ok: "codec_ok h" "endpoints_ok h (manager_init api_url (\<not> disable))" "answers_all h (manager_init api_url (\<not> disable))"
    and input: "map_of (w_files w) input_file = Some ls"
    and items: "\<forall>line s item. line \<in> set ls \<longrightarrow> line_source h sources line = Some (s, item) \<longrightarrow> items_ok [item]"
  shows "\<exists>w'. run_batch_inference h api_url disable sources input_file root_dir w = (Inr (), w') \<and>
     (\<forall>s. prefix (file_lines (output_path root_dir s) w) (file_lines (output_path root_dir s) w')) \<and>
     (\<forall>line s item. line \<in> set ls \<longrightarrow> line_source h sources line = Some (s, item) \<longrightarrow>
        key_of item \<in> set (processed_prompts h (file_lines (output_path root_dir s) w')))"
proof -
  let ?bucket = "\<lambda>s. dict_get (source_buckets h sources ls) s []"
  have mem: "item \<in> set (?bucket s) \<longleftrightarrow> (\<exists>line \<in> set ls. line_source h sources line = Some (s, item))" for item s
    unfolding source_buckets_items by (auto split: option.splits if_splits) force+
  have "items_ok (?bucket s)" for s
    using items mem unfolding items_ok_def by (metis list.set_intros(1))
  then obtain w' where run: "for_io (\<lambda>s. if ?bucket s = [] then return_io ()
      else process_single_source h (manager_init api_url (\<not> disable)) (?bucket s) (output_path root_dir s) (safe_name s)) sources w = (Inr (), w')"
    "\<forall>s. prefix (file_lines (output_path root_dir s) w) (file_lines (output_path root_dir s) w')"
    "\<forall>s \<in> set sources. \<forall>item \<in> set (?bucket s). key_of item \<in> set (processed_prompts h (file_lines (output_path root_dir s) w'))"
    using run_sources[OF ok, of sources ?bucket root_dir w] by blast
  have "s \<in> set sources" if "line_source h sources line = Some (s, item)" for line s item
    using that by (auto simp: line_source_def split: sum.splits prod.splits json.splits if_splits)
  then have "key_of item \<in> set (processed_prompts h (file_lines (output_path root_dir s) w'))"
    if "line \<in> set ls" "line_source h sources line = Some (s, item)" for line s item
    using run(3) mem[of item s] that by blast
  moreover have "run_batch_inference h api_url disable sources input_file root_dir w = (Inr (), w')"
    using run(1) input by (simp add: run_batch_inference_def Let_def)
  ultimately show ?thesis using run(2) by blast
qed
section \<open>Examples\<close>

text \<open>
  A host with a server that counts its requests and answers
  every question.
\<close>

definition example_answer :: "rat json" where
  "example_answer = JObj [(''choices'', JList [JObj [(''message'', JObj [(''content'', JStr ''yes'')])]])]"

definition example_host :: "(rat, nat) host" where
  "example_host = \<lparr>h_request = (\<lambda>method url body n.
       (if body = JNull then Response 200 ''Start recording.'' else Response 200 (example_dumps example_answer), Suc n)),
     h_time = (\<lambda>n. (of_nat n, n)), h_loads = example_loads, h_dumps = example_dumps,
     h_dump_indented = (\<lambda>v. [example_dumps v]), h_str = (\<lambda>_. ''error'')\<rparr>"

lemma example_answer_wf: "json_wf example_answer"
  by (simp add: example_answer_def)

lemma example_host_ok: "codec_ok example_host" "endpoints_ok example_host m" "answers_all example_host m"
proof -
  have "example_loads ''Start recording.'' = Inl JSONDecodeError" by (simp add: example_loads_def)
  then show "endpoints_ok example_host m" by (auto simp: endpoints_ok_def example_host_def)
  show "codec_ok example_host" using example_loads_wf by (simp add: codec_ok_def example_host_def example_codec)
  have "answer_content example_answer = Inr (JStr ''yes'')" by (simp add: answer_content_def example_answer_def py_nth_def)
  moreover have "fst (chat example_host m messages w) = Inr example_answer" for messages w
    by (simp add: chat_def example_host_def io_simps outside_io_def example_codec[OF example_answer_wf])
  ultimately show "answers_all example_host m" by (simp add: answers_all_def example_answer_def)
qed

definition example_item :: "rat json" where
  "example_item = JObj [(''question'', JStr ''1+1?''), (''source'', JStr ''aime.jsonl'')]"

lemma example_item_ok: "items_ok [example_item]" "key_of example_item = JStr ''1+1?''"
  by (simp_all add: items_ok_def key_of_def prompt_key_def get_prompt_hash_def example_item_def)

theorem inference_resumes_witness:
  "\<exists>w'. process_single_source example_host (manager_init ''http://localhost'' True) [example_item] ''out/aime.jsonl'' ''aime'' \<lparr>w_outside = 0, w_files = []\<rparr> =
     (Inr (), w') \<and> JStr ''1+1?'' \<in> set (processed_prompts example_host (file_lines ''out/aime.jsonl'' w'))"
proof -
  have "dirname ''out/aime.jsonl'' \<noteq> []" by code_simp
  then show ?thesis
    using inference_resumes[OF example_host_ok(1,2) example_item_ok(1), of "''out/aime.jsonl''" "manager_init ''http://localhost'' True" "''aime''"
        "\<lparr>w_outside = 0, w_files = []\<rparr>"] example_host_ok(3) example_item_ok(2) by auto
qed

theorem batch_covers_sources_witness:
  "\<exists>w'. run_batch_inference example_host ''http://localhost'' False [''aime.jsonl''] ''all.jsonl'' ''outputs''
      \<lparr>w_outside = 0, w_files = [(''all.jsonl'', [example_dumps example_item])]\<rparr> = (Inr (), w') \<and>
     JStr ''1+1?'' \<in> set (processed_prompts example_host (file_lines (output_path ''outputs'' ''aime.jsonl'') w'))"
proof -
  let ?w = "\<lparr>w_outside = 0 :: nat, w_files = [(''all.jsonl'', [example_dumps example_item])]\<rparr>"
  have wf: "json_wf example_item" by (simp add: example_item_def)
  have src: "line_source example_host [''aime.jsonl''] (example_dumps example_item) = Some (''aime.jsonl'', example_item)"
    by (simp add: line_source_def example_host_def example_codec[OF wf]) (simp add: example_item_def)
  obtain w' where "run_batch_inference example_host ''http://localhost'' False [''aime.jsonl''] ''all.jsonl'' ''outputs'' ?w = (Inr (), w')"
    "\<forall>line s item. line \<in> set [example_dumps example_item] \<longrightarrow> line_source example_host [''aime.jsonl''] line = Some (s, item) \<longrightarrow>
        key_of item \<in> set (processed_prompts example_host (file_lines (output_path ''outputs'' s) w'))"
    using batch_covers_sources[OF example_host_ok, where w = ?w and ls = "[example_dumps example_item]" and sources = "[''aime.jsonl'']"
        and input_file = "''all.jsonl''" and root_dir = "''outputs''" and disable = False and api_url = "''http://localhost''"]
      src example_item_ok(1) by auto
  then show ?thesis using src example_item_ok(2) by auto
qed

end
