(* ===== verification/Recording_Service.thy ===== *)
theory Recording_Service
  imports Recorder Infer
begin

text \<open>
  The recording endpoints of the server (\<^verbatim>\<open>sglang/srt/entrypoints/http_server.py\<close>) with the handler of the
  scheduler (\<^verbatim>\<open>sglang/srt/managers/scheduler.py\<close>) behind them, and what the inference client sees of them.

  The chat endpoint is an argument: it runs the model, which may change the recorder, and replies. An
  exception in the handler ends the scheduler process and with it the server; requests then fail.
\<close>

section \<open>The handler\<close>

datatype ExpertDistributionReqType = START_RECORD | STOP_RECORD | DUMP_RECORD | GET_STATUS

text \<open>The recorder of the process: the no-op recorder, or a real one with its context.\<close>

type_synonym 'f process_recorder = "('f recorder_context \<times> 'f recorder) option"

datatype 'f reply_data = DumpData "'f dump_output" | StatusData "'f status" | NotEnabled

definition expert_distribution_handle ::
  "ExpertDistributionReqType \<Rightarrow> ('f::linordered_field) process_recorder \<Rightarrow> ('f reply_data option \<times> 'f process_recorder) result" where
  "expert_distribution_handle action rec =
     (case rec of
        None \<Rightarrow> if action = GET_STATUS then Inr (Some NotEnabled, None) else Inl PlainException
      | Some (cx, r) \<Rightarrow>
          (case action of
             START_RECORD \<Rightarrow> bind_res (start_record cx r) (\<lambda>r'. Inr (None, Some (cx, r')))
           | STOP_RECORD \<Rightarrow> Inr (None, Some (cx, stop_record r))
           | DUMP_RECORD \<Rightarrow> bind_res (dump_record cx ''object'' r) (\<lambda>(out, _, r'). Inr (map_option DumpData out, Some (cx, r')))
           | GET_STATUS \<Rightarrow> (case get_status cx ''object'' r of (st, r') \<Rightarrow> Inr (Some (StatusData st), Some (cx, r')))))"

section \<open>The replies as JSON\<close>

definition j_int :: "int \<Rightarrow> ('f::ring_1) json" where
  "j_int i = JNum (of_int i)"

definition j_ints :: "int list \<Rightarrow> ('f::ring_1) json" where
  "j_ints xs = JList (map j_int xs)"

definition j_matrix :: "int list list \<Rightarrow> ('f::ring_1) json" where
  "j_matrix xs = JList (map j_ints xs)"

definition j_tensor :: "int list list list \<Rightarrow> ('f::ring_1) json" where
  "j_tensor xs = JList (map j_matrix xs)"

definition j_floats :: "'f list list list \<Rightarrow> 'f json" where
  "j_floats t = JList (map (\<lambda>m. JList (map (\<lambda>row. JList (map JNum row)) m)) t)"

definition misc_json :: "misc_object \<Rightarrow> ('f::ring_1) json" where
  "misc_json mo = JObj [(''layer_id'', j_int (int (mo_layer_id mo))), (''num_tokens_per_rank'', j_ints (mo_num_tokens_per_rank mo)),
     (''num_tokens_per_rdma_rank'', j_ints (mo_num_tokens_per_rdma_rank mo)), (''num_tokens_per_expert'', j_ints (mo_num_tokens_per_expert mo))]"

definition pass_fields :: "misc_object list \<Rightarrow> ('f::ring_1) single_pass_data \<Rightarrow> (string \<times> 'f json) list" where
  "pass_fields misc d =
     (case sp_detail d of None \<Rightarrow> []
      | Some p \<Rightarrow>
          [(''input_ids'', j_ints (fb_input_ids (dp_batch p))), (''positions'', j_ints (fb_positions (dp_batch p))),
           (''extend_seq_lens'', case fb_extend_seq_lens (dp_batch p) of None \<Rightarrow> JNull | Some ls \<Rightarrow> j_ints ls),
           (''forward_mode'', j_int (fb_forward_mode (dp_batch p))),
           (''topk_ids_of_layer'', j_tensor (dp_topk_ids_of_layer p)), (''router_logits_of_layer'', j_floats (dp_router_logits_of_layer p)),
           (''topk_weights_of_layer'', j_floats (dp_topk_weights_of_layer p)), (''misc_objects'', JList (map misc_json misc))])
     @ [(''global_physical_count'', j_matrix (sp_global_physical_count d))]"

definition record_json :: "misc_object list \<Rightarrow> ('f::ring_1) detail_record \<Rightarrow> 'f json" where
  "record_json misc dr =
     JObj ([(''forward_pass_id'', j_int (dr_forward_pass_id dr)), (''rank'', j_int (int (dr_rank dr))), (''gatherer_key'', JStr ''primary'')]
           @ pass_fields misc (dr_data dr))"

text \<open>The misc objects of all records are the list that the gatherer holds when the reply is written.\<close>

fun dump_json :: "misc_object list \<Rightarrow> ('f::ring_1) dump_output \<Rightarrow> 'f json" where
  "dump_json misc (DetailOutput records p2l) =
     JObj [(''records'', JList (map (record_json misc) records)), (''last_physical_to_logical_map'', j_matrix p2l)]"
| "dump_json misc (StatOutput rank counts rate) =
     JObj [(''rank'', j_int (int rank)), (''logical_count'', j_tensor counts),
           (''average_utilization_rate_over_window'', case rate of None \<Rightarrow> JNull | Some x \<Rightarrow> JNum x)]"

definition process_misc :: "'f process_recorder \<Rightarrow> misc_object list" where
  "process_misc rec = (case rec of None \<Rightarrow> [] | Some (_, r) \<Rightarrow> record_misc_objects r)"

section \<open>The endpoints\<close>

record ('f, 'e) service =
  sv_alive :: bool
  sv_recorder :: "'f process_recorder"
  sv_engine :: 'e

text \<open>The request that reaches the scheduler, and the reply the endpoint makes of its data.\<close>

definition scheduler_request ::
  "ExpertDistributionReqType \<Rightarrow> ('f reply_data option \<Rightarrow> 'f process_recorder \<Rightarrow> http_reply) \<Rightarrow> ('f::linordered_field, 'e) service
   \<Rightarrow> http_reply \<times> ('f, 'e) service" where
  "scheduler_request action reply s =
     (case expert_distribution_handle action (sv_recorder s) of
        Inl _ \<Rightarrow> (RequestException, s\<lparr>sv_alive := False\<rparr>)
      | Inr (data, rec) \<Rightarrow> (reply data rec, s\<lparr>sv_recorder := rec\<rparr>))"

definition start_expert_distribution_record_async :: "('f::linordered_field, 'e) service \<Rightarrow> http_reply \<times> ('f, 'e) service" where
  "start_expert_distribution_record_async =
     scheduler_request START_RECORD (\<lambda>_ _. Response 200 (''Start recording the expert distribution.'' @ [CHR 0x0A]))"

definition stop_expert_distribution_record_async :: "('f::linordered_field, 'e) service \<Rightarrow> http_reply \<times> ('f, 'e) service" where
  "stop_expert_distribution_record_async =
     scheduler_request STOP_RECORD (\<lambda>_ _. Response 200 (''Stop recording the expert distribution.'' @ [CHR 0x0A]))"

definition dump_expert_distribution_record_async ::
  "('f json \<Rightarrow> string) \<Rightarrow> ('f::linordered_field, 'e) service \<Rightarrow> http_reply \<times> ('f, 'e) service" where
  "dump_expert_distribution_record_async dumps =
     scheduler_request DUMP_RECORD (\<lambda>data rec. case data of
         Some (DumpData out) \<Rightarrow> Response 200 (dumps (dump_json (process_misc rec) out))
       | _ \<Rightarrow> Response 200 (''Dump expert distribution record completed (data saved to file).'' @ [CHR 0x0A]))"

text \<open>The routes the client uses; any other path is unknown.\<close>

definition serve ::
  "('f json \<Rightarrow> string) \<Rightarrow> ('f json \<Rightarrow> ('f, 'e) service \<Rightarrow> http_reply \<times> ('f, 'e) service) \<Rightarrow> string \<Rightarrow> string \<Rightarrow> string \<Rightarrow> 'f json
   \<Rightarrow> ('f::linordered_field, 'e) service \<Rightarrow> http_reply \<times> ('f, 'e) service" where
  "serve dumps completions base method url body s =
     (if \<not> sv_alive s then (RequestException, s)
      else if url = base @ ''/start_expert_distribution_record'' then start_expert_distribution_record_async s
      else if url = base @ ''/stop_expert_distribution_record'' then stop_expert_distribution_record_async s
      else if url = base @ ''/dump_expert_distribution_record'' then dump_expert_distribution_record_async dumps s
      else if url = base @ ''/v1/chat/completions'' then completions body s
      else (Response 404 ''Not Found'', s))"

section \<open>What the client sees\<close>

text \<open>
  The client's requests reach the service; the JSON library reads back what it writes and refuses a text
  that starts with a capital \<^verbatim>\<open>S\<close> or \<^verbatim>\<open>D\<close>, with which no JSON value starts; reading the clock leaves the
  service alone.
\<close>

definition connected ::
  "('f::linordered_field, ('f, 'e) service) host \<Rightarrow> ('f json \<Rightarrow> string)
   \<Rightarrow> ('f json \<Rightarrow> ('f, 'e) service \<Rightarrow> http_reply \<times> ('f, 'e) service) \<Rightarrow> manager \<Rightarrow> bool" where
  "connected h dumps completions m \<longleftrightarrow>
     h_request h = serve dumps completions (mg_api_base m) \<and> mg_enable_recording m \<and>
     (\<forall>v. json_wf v \<longrightarrow> h_loads h (dumps v) = Inr v) \<and>
     (\<forall>c cs. c \<in> {CHR ''S'', CHR ''D''} \<longrightarrow> h_loads h (c # cs) = Inl JSONDecodeError) \<and>
     (\<forall>s. sv_recorder (snd (h_time h s)) = sv_recorder s \<and> sv_alive (snd (h_time h s)) = sv_alive s)"

lemma dump_json_object: "\<exists>d. dump_json misc out = JObj d \<and> ''error'' \<notin> fst ` set d"
  by (cases out) auto

lemma dump_json_wf [simp]: "json_wf (dump_json misc out)"
proof -
  have [simp]: "json_wf (j_int i)" "json_wf (j_ints is)" "json_wf (j_matrix m)" "json_wf (j_tensor t)" "json_wf (misc_json mo)"
    for i "is" m t mo by (auto simp: j_int_def j_ints_def j_matrix_def j_tensor_def misc_json_def)
  have "json_wf (j_floats fs)" for fs by (auto simp: j_floats_def)
  then have "json_wf (record_json misc dr)" for dr
    by (auto simp: record_json_def pass_fields_def split: option.splits)
  then show ?thesis by (cases out) (auto split: option.splits)
qed

lemma serve_record:
  assumes "sv_alive s"
  shows "serve dumps completions base method (base @ ''/'' @ ''start_expert_distribution_record'') body s = start_expert_distribution_record_async s"
    and "serve dumps completions base method (base @ ''/'' @ ''stop_expert_distribution_record'') body s = stop_expert_distribution_record_async s"
    and "serve dumps completions base method (base @ ''/'' @ ''dump_expert_distribution_record'') body s = dump_expert_distribution_record_async dumps s"
  using assms by (simp_all add: serve_def)

lemma service_endpoints_ok:
  assumes c: "connected h dumps completions m"
  shows "endpoints_ok h m"
  unfolding endpoints_ok_def
proof (intro ballI allI impI)
  fix action s body v
  assume a: "action \<in> {''start'', ''stop'', ''dump''}"
    and r: "fst (h_request h ''POST'' (endpoint_url m (action @ ''_expert_distribution_record'')) JNull s) = Response 200 body"
    and l: "h_loads h body = Inr v"
  have req: "h_request h = serve dumps completions (mg_api_base m)" and codec: "\<And>v. json_wf v \<Longrightarrow> h_loads h (dumps v) = Inr v"
    and no: "\<And>cs. h_loads h (CHR ''S'' # cs) = Inl JSONDecodeError" "\<And>cs. h_loads h (CHR ''D'' # cs) = Inl JSONDecodeError"
    using c by (auto simp: connected_def)
  have alive: "sv_alive s" using r by (auto simp: req serve_def split: if_splits)
  have url: "endpoint_url m (action @ ''_expert_distribution_record'') = mg_api_base m @ ''/'' @ action @ ''_expert_distribution_record''"
    using a by (auto simp: endpoint_url_def lstrip_char_def)
  from a consider "action = ''start''" | "action = ''stop''" | "action = ''dump''" by blast
  then show "\<exists>d. v = JObj d \<and> ''error'' \<notin> fst ` set d"
  proof cases
    case 1
    then show ?thesis using r l no serve_record(1)[OF alive] unfolding url req
      by (auto simp: start_expert_distribution_record_async_def scheduler_request_def split: sum.splits)
  next
    case 2
    then show ?thesis using r l no serve_record(2)[OF alive] unfolding url req
      by (auto simp: stop_expert_distribution_record_async_def scheduler_request_def split: sum.splits)
  next
    case 3
    then obtain out misc where "v = dump_json misc out"
      using r l no codec serve_record(3)[OF alive] unfolding url req
      by (auto simp: dump_expert_distribution_record_async_def scheduler_request_def split: sum.splits option.splits reply_data.splits)
    then show ?thesis using dump_json_object by metis
  qed
qed

text \<open>
  (C35) The client cannot tell that recording works: against a live server with a recorder, starting and
  stopping the recording takes effect, but the client reports a failure both times, because the
  endpoints reply with a plain text and the client expects JSON.
\<close>

theorem recording_misreported:
  assumes c: "connected h dumps completions m" and s: "sv_alive (w_outside w)" "sv_recorder (w_outside w) = Some (cx, r)"
    and idle: "rc_layer_idx r = None"
  shows "(\<exists>w' r'. manage_recording h m ''start'' w = (Inr False, w') \<and> sv_recorder (w_outside w') = Some (cx, r') \<and> rc_recording r') \<and>
    (\<exists>w'. manage_recording h m ''stop'' w = (Inr False, w') \<and> sv_recorder (w_outside w') = Some (cx, stop_record r))"
proof -
  have req: "h_request h = serve dumps completions (mg_api_base m)" "mg_enable_recording m"
    and no: "\<And>cs. h_loads h (CHR ''S'' # cs) = Inl JSONDecodeError" using c by (auto simp: connected_def)
  obtain r' where r': "start_record cx r = Inr r'" "rc_recording r'" using idle by (simp add: start_record_def recorder_reset_def)
  have start: "start_expert_distribution_record_async (w_outside w) =
      (Response 200 (''Start recording the expert distribution.'' @ [CHR 0x0A]), (w_outside w)\<lparr>sv_recorder := Some (cx, r')\<rparr>)"
    using s(2) r'(1) by (simp add: start_expert_distribution_record_async_def scheduler_request_def expert_distribution_handle_def)
  have stop: "stop_expert_distribution_record_async (w_outside w) =
      (Response 200 (''Stop recording the expert distribution.'' @ [CHR 0x0A]), (w_outside w)\<lparr>sv_recorder := Some (cx, stop_record r)\<rparr>)"
    using s(2) by (simp add: stop_expert_distribution_record_async_def scheduler_request_def expert_distribution_handle_def)
  have "manage_recording h m ''start'' w = (Inr False, w\<lparr>w_outside := (w_outside w)\<lparr>sv_recorder := Some (cx, r')\<rparr>\<rparr>)"
    using serve_record(1)[OF s(1), of dumps completions "mg_api_base m" "''POST''" JNull] start no req
    by (simp add: manage_recording_def request_def io_simps outside_io_def lstrip_char_def error_reply_def)
  moreover have "manage_recording h m ''stop'' w = (Inr False, w\<lparr>w_outside := (w_outside w)\<lparr>sv_recorder := Some (cx, stop_record r)\<rparr>\<rparr>)"
    using serve_record(2)[OF s(1), of dumps completions "mg_api_base m" "''POST''" JNull] stop no req
    by (simp add: manage_recording_def request_def io_simps outside_io_def lstrip_char_def error_reply_def)
  ultimately show ?thesis using r'(2) by auto
qed

section \<open>The log of a session\<close>

lemma path_join_inj: "\<not> starts_with x ''/'' \<Longrightarrow> \<not> starts_with y ''/'' \<Longrightarrow> path_join a x = path_join a y \<longleftrightarrow> x = y"
  by (auto simp: path_join_def)

lemma log_path_inj: "log_path d src i = log_path d src j \<longleftrightarrow> i = j"
  unfolding log_path_def using inj_py_str by (subst path_join_inj) (auto simp: starts_with_def dest: injD)

text \<open>The records that a detail recorder holds.\<close>

definition holds_records :: "('f, 'e) service \<Rightarrow> 'f recorder_context \<Rightarrow> 'f detail_record list \<Rightarrow> bool" where
  "holds_records s cx rs \<longleftrightarrow> sv_alive s \<and>
     (\<exists>r. sv_recorder s = Some (cx, r) \<and> rc_layer_idx r = None \<and> ac_data (rc_accumulator r) = DetailData rs \<and>
        (\<exists>g. rc_gatherer r = DetailGatherer g))"

text \<open>What the log of a dump with these records says; the reset that follows a dump has emptied the misc objects.\<close>

definition dump_log :: "('f::linordered_field, 's) host \<Rightarrow> 'f recorder_context \<Rightarrow> 'f detail_record list \<Rightarrow> string list" where
  "dump_log h cx rs = h_dump_indented h (dump_json [] (DetailOutput rs (physical_to_logical_map (cx_md cx))))"

lemma dump_written:
  fixes h :: "('f::floor_ceiling, ('f, 'e) service) host"
  assumes c: "connected h dumps completions m" and s: "holds_records (w_outside w) cx rs"
  shows "\<exists>w' (t :: 'f). dump_records h m d src w = (Inr (Some (log_path d src \<lfloor>t\<rfloor>)), w') \<and>
     w_files w' = AList.update (log_path d src \<lfloor>t\<rfloor>) (dump_log h cx rs) (w_files w) \<and> holds_records (w_outside w') cx [] \<and>
     t \<in> range (\<lambda>s. fst (h_time h s))"
proof -
  have req: "h_request h = serve dumps completions (mg_api_base m)" "mg_enable_recording m" "\<And>v. json_wf v \<Longrightarrow> h_loads h (dumps v) = Inr v"
    and clock: "\<And>s. sv_recorder (snd (h_time h s)) = sv_recorder s" "\<And>s. sv_alive (snd (h_time h s)) = sv_alive s"
    using c by (auto simp: connected_def)
  obtain r where r: "sv_alive (w_outside w)" "sv_recorder (w_outside w) = Some (cx, r)" "rc_layer_idx r = None"
    "ac_data (rc_accumulator r) = DetailData rs" "\<exists>g. rc_gatherer r = DetailGatherer g" using s by (auto simp: holds_records_def)
  let ?out = "DetailOutput rs (physical_to_logical_map (cx_md cx))"
  obtain r' where dump: "dump_record cx ''object'' r = Inr (Some ?out, None, r')" "rc_layer_idx r' = None"
    "ac_data (rc_accumulator r') = DetailData []" "\<exists>g. rc_gatherer r' = DetailGatherer g" "record_misc_objects r' = []"
    using r(3,4,5)
    by (auto simp: dump_record_def accumulator_dump_def recorder_reset_def accumulator_reset_def record_misc_objects_def Let_def)
  let ?v = "dump_json [] ?out" and ?s = "(w_outside w)\<lparr>sv_recorder := Some (cx, r')\<rparr>"
  have reply: "dump_expert_distribution_record_async dumps (w_outside w) = (Response 200 (dumps ?v), ?s)"
    using r(2) dump(1,5)
    by (simp add: dump_expert_distribution_record_async_def scheduler_request_def expert_distribution_handle_def process_misc_def)
  have "request h m ''dump_expert_distribution_record'' w = (Inr ?v, w\<lparr>w_outside := ?s\<rparr>)"
    using serve_record(3)[OF r(1), of dumps completions "mg_api_base m" "''POST''" JNull] reply req(1,2) req(3)[OF dump_json_wf, of "[]" ?out]
    by (simp add: request_def io_simps outside_io_def lstrip_char_def del: dump_json.simps)
  moreover obtain t s' where t: "h_time h ?s = (t, s')" by fastforce
  moreover have "j_contains ''error'' ?v = Inr False" by simp
  moreover have "path_join d ''expert_logs'' \<noteq> []" by (simp add: path_join_def)
  ultimately have "dump_records h m d src w = (Inr (Some (log_path d src \<lfloor>t\<rfloor>)),
      w\<lparr>w_outside := s', w_files := AList.update (log_path d src \<lfloor>t\<rfloor>) (dump_log h cx rs) (w_files w)\<rparr>)"
    using req(2) by (simp add: dump_records_def io_simps makedirs_def outside_io_def write_lines_def Let_def log_path_def dump_log_def)
  moreover have "holds_records s' cx []" using clock[of ?s] t dump r(1) by (simp add: holds_records_def)
  moreover have "t \<in> range (\<lambda>s. fst (h_time h s))" using t by (metis fst_conv rangeI)
  ultimately show ?thesis by (auto intro: exI[of _ t])
qed

text \<open>
  Two dumps that follow each other, as after every twentieth item at the end of a source: the first
  log holds the records made since the dump before, the second one no records, and the names of
  the logs differ exactly when the dumps fall into different seconds. Otherwise the second log replaces
  the first one, and its records are lost.
\<close>

theorem dump_overwritten_in_same_second:
  fixes h :: "('f::floor_ceiling, ('f, 'e) service) host"
  assumes c: "connected h dumps completions m" and s: "holds_records (w_outside w) cx rs"
  shows "\<exists>w1 w2 (t1 :: 'f) (t2 :: 'f). dump_records h m d src w = (Inr (Some (log_path d src \<lfloor>t1\<rfloor>)), w1) \<and>
     file_lines (log_path d src \<lfloor>t1\<rfloor>) w1 = dump_log h cx rs \<and>
     dump_records h m d src w1 = (Inr (Some (log_path d src \<lfloor>t2\<rfloor>)), w2) \<and>
     file_lines (log_path d src \<lfloor>t2\<rfloor>) w2 = dump_log h cx [] \<and>
     file_lines (log_path d src \<lfloor>t1\<rfloor>) w2 = (if \<lfloor>t1\<rfloor> = \<lfloor>t2\<rfloor> then dump_log h cx [] else dump_log h cx rs) \<and>
     {t1, t2} \<subseteq> range (\<lambda>s. fst (h_time h s))"
proof -
  obtain w1 and t1 :: 'f where d1: "dump_records h m d src w = (Inr (Some (log_path d src \<lfloor>t1\<rfloor>)), w1)"
    "w_files w1 = AList.update (log_path d src \<lfloor>t1\<rfloor>) (dump_log h cx rs) (w_files w)" "holds_records (w_outside w1) cx []"
    "t1 \<in> range (\<lambda>s. fst (h_time h s))"
    using dump_written[OF c s, of d src] by blast
  obtain w2 and t2 :: 'f where d2: "dump_records h m d src w1 = (Inr (Some (log_path d src \<lfloor>t2\<rfloor>)), w2)"
    "w_files w2 = AList.update (log_path d src \<lfloor>t2\<rfloor>) (dump_log h cx []) (w_files w1)"
    "t2 \<in> range (\<lambda>s. fst (h_time h s))"
    using dump_written[OF c d1(3), of d src] by blast
  show ?thesis
    using d1 d2
    by - (rule exI[of _ w1], rule exI[of _ w2], rule exI[of _ t1], rule exI[of _ t2],
        simp add: file_lines_def AList.update_conv' log_path_inj)
qed
section \<open>Examples\<close>

definition example_manager :: manager where
  "example_manager = manager_init ''http://localhost:8000'' True"

definition example_service_host :: "(rat, (rat, nat) service) host" where
  "example_service_host = \<lparr>h_request = serve example_dumps (\<lambda>_ s. (Response 200 (example_dumps example_answer), s)) (mg_api_base example_manager),
     h_time = (\<lambda>s. (5, s)), h_loads = example_loads, h_dumps = example_dumps,
     h_dump_indented = (\<lambda>v. [example_dumps v]), h_str = (\<lambda>_. ''error'')\<rparr>"

lemma example_connected:
  "connected example_service_host example_dumps (\<lambda>_ s. (Response 200 (example_dumps example_answer), s)) example_manager"
proof -
  have "example_loads (c # cs) = Inl JSONDecodeError" if "c \<noteq> CHR ''{''" for c cs
    using that by (auto simp: example_loads_def)
  then show ?thesis by (auto simp: connected_def example_service_host_def example_codec example_manager_def manager_init_def Let_def)
qed

theorem recording_misreported_witness:
  "\<exists>w' r'. manage_recording example_service_host example_manager ''start''
      \<lparr>w_outside = \<lparr>sv_alive = True, sv_recorder = Some (example_cx, fresh_stat_recorder example_cx), sv_engine = 0\<rparr>, w_files = []\<rparr> = (Inr False, w') \<and>
     sv_recorder (w_outside w') = Some (example_cx, r') \<and> rc_recording r'"
proof -
  have "rc_layer_idx (fresh_stat_recorder example_cx) = None" by code_simp
  then show ?thesis
    using recording_misreported[OF example_connected, where cx = example_cx and r = "fresh_stat_recorder example_cx" and
        w = "\<lparr>w_outside = \<lparr>sv_alive = True, sv_recorder = Some (example_cx, fresh_stat_recorder example_cx), sv_engine = 0\<rparr>, w_files = []\<rparr>"]
    by simp
qed

definition detail_recorder :: "rat recorder" where
  "detail_recorder = (fresh_stat_recorder example_cx)\<lparr>
     rc_gatherer := DetailGatherer \<lparr>dg_metadata = None, dg_topk_ids_of_layer = [], dg_router_logits_of_layer = [],
       dg_topk_weights_of_layer = [], dg_misc_objects = []\<rparr>,
     rc_accumulator := (rc_accumulator (fresh_stat_recorder example_cx))\<lparr>ac_data := DetailData
       [\<lparr>dr_forward_pass_id = 7, dr_rank = 0, dr_data = \<lparr>sp_global_physical_count = [[1, 0, 1]], sp_detail = None\<rparr>\<rparr>]\<rparr>\<rparr>"

theorem dump_overwritten_in_same_second_witness:
  "\<exists>w1 w2 (t1 :: rat). dump_records example_service_host example_manager ''out'' ''aime''
      \<lparr>w_outside = \<lparr>sv_alive = True, sv_recorder = Some (example_cx, detail_recorder), sv_engine = 5\<rparr>, w_files = []\<rparr> =
      (Inr (Some (log_path ''out'' ''aime'' \<lfloor>t1\<rfloor>)), w1) \<and>
     dump_records example_service_host example_manager ''out'' ''aime'' w1 = (Inr (Some (log_path ''out'' ''aime'' \<lfloor>t1\<rfloor>)), w2) \<and>
     file_lines (log_path ''out'' ''aime'' \<lfloor>t1\<rfloor>) w2 = dump_log example_service_host example_cx []"
proof -
  let ?w = "\<lparr>w_outside = \<lparr>sv_alive = True, sv_recorder = Some (example_cx, detail_recorder), sv_engine = 5\<rparr>, w_files = []\<rparr>"
  let ?rs = "[\<lparr>dr_forward_pass_id = 7, dr_rank = 0, dr_data = \<lparr>sp_global_physical_count = [[1, 0, 1]], sp_detail = None\<rparr>\<rparr>]"
  have "rc_layer_idx (fresh_stat_recorder example_cx) = None" by code_simp
  then have "holds_records (w_outside ?w) example_cx ?rs" by (simp add: holds_records_def detail_recorder_def)
  from dump_overwritten_in_same_second[OF example_connected this, of "''out''" "''aime''"]
  obtain w1 w2 and t1 t2 :: rat where d: "dump_records example_service_host example_manager ''out'' ''aime'' ?w = (Inr (Some (log_path ''out'' ''aime'' \<lfloor>t1\<rfloor>)), w1)"
    "dump_records example_service_host example_manager ''out'' ''aime'' w1 = (Inr (Some (log_path ''out'' ''aime'' \<lfloor>t2\<rfloor>)), w2)"
    "file_lines (log_path ''out'' ''aime'' \<lfloor>t2\<rfloor>) w2 = dump_log example_service_host example_cx []"
    "{t1, t2} \<subseteq> range (\<lambda>s. fst (h_time example_service_host s))" by blast
  have "\<lfloor>t1\<rfloor> = \<lfloor>t2\<rfloor>" using d(4) by (auto simp: example_service_host_def)
  then show ?thesis using d by auto
qed

end
