(* ===== verification/Result_Files.thy ===== *)
theory Result_Files
  imports Host Ngram_Statistics Rss
begin

text \<open>
  The files that the metric scripts leave behind: the savers and main routines of \<^verbatim>\<open>n_gram_statistics.py\<close>,
  \<^verbatim>\<open>rss.py\<close> and \<^verbatim>\<open>compute_expert_metrics.py\<close> on the file system of the theory \<open>Host\<close>.

  \<open>loads\<close> reads one line of \<^verbatim>\<open>results_all.jsonl\<close>. The rows of the \<^verbatim>\<open>csv\<close> module and the format with six decimals
  are the record \<open>text_ops\<close>. Figures are left out.
\<close>

section \<open>Texts\<close>

datatype 'f cell = Text string | Count int | Number 'f | NoneCell

record 'f text_ops =
  tx_row :: "'f cell list \<Rightarrow> string"
  tx_fixed6 :: "'f \<Rightarrow> string"

definition j_nat :: "nat \<Rightarrow> ('f::linordered_field) json" where
  "j_nat n = JNum (of_nat n)"

definition j_opt :: "'f option \<Rightarrow> 'f json" where
  "j_opt x = (case x of None \<Rightarrow> JNull | Some v \<Rightarrow> JNum v)"

section \<open>N-gram statistics\<close>

definition layer_summary_json :: "('f::linordered_field) ngram_stats \<Rightarrow> 'f json" where
  "layer_summary_json info =
     JObj [(''total_ngram_paths'', j_nat (ns_total_ngram_paths info)), (''unique_ngram_paths'', j_nat (ns_unique_ngram_paths info)),
           (''total_transitions'', j_nat (ns_total_transitions info)), (''unique_transitions'', j_nat (ns_unique_transitions info)),
           (''self_loop_transitions'', j_nat (ns_self_loop_transitions info)), (''self_loop_ratio'', JNum (ns_self_loop_ratio info))]"

definition transition_key :: "int \<times> int \<Rightarrow> string" where
  "transition_key st = py_str (fst st) @ ''-'' @ py_str (snd st)"

definition statistics_json :: "int \<Rightarrow> (int, ('f::linordered_field) ngram_stats) dict \<Rightarrow> 'f json" where
  "statistics_json n layer_statistics =
     JObj [(''n'', JNum (of_int n)),
           (''summary'', JObj (map (\<lambda>(l, info). (py_str l, layer_summary_json info)) layer_statistics)),
           (''transition_matrices'', JObj (map (\<lambda>(l, info). (py_str l,
              JList (map (\<lambda>row. JList (map j_nat row)) (ns_transition_matrix info)))) layer_statistics)),
           (''transition_counts'', JObj (map (\<lambda>(l, info). (py_str l,
              JObj (map (\<lambda>(st, c). (transition_key st, j_nat c)) (ns_transition_counts info)))) layer_statistics))]"

definition save_statistics ::
  "('f, 's) host \<Rightarrow> (int, ('f::linordered_field) ngram_stats) dict \<Rightarrow> int \<Rightarrow> string \<Rightarrow> ('s world, string) io" where
  "save_statistics h layer_statistics n output_dir =
     bind_io (makedirs output_dir) (\<lambda>_.
     let output_file = path_join output_dir (''n_gram_statistics_n'' @ py_str n @ ''.json'') in
     bind_io (write_lines output_file (h_dump_indented h (statistics_json n layer_statistics))) (\<lambda>_. return_io output_file))"

definition statistics_row :: "'f text_ops \<Rightarrow> int \<times> 'f ngram_stats \<Rightarrow> 'f cell list" where
  "statistics_row tx item =
     (case item of (layer_idx, info) \<Rightarrow>
      [Count layer_idx, Count (int (ns_total_ngram_paths info)), Count (int (ns_unique_ngram_paths info)),
       Count (int (ns_total_transitions info)), Count (int (ns_unique_transitions info)),
       Count (int (ns_self_loop_transitions info)), Text (tx_fixed6 tx (ns_self_loop_ratio info))])"

definition save_statistics_csv ::
  "'f text_ops \<Rightarrow> (int, 'f ngram_stats) dict \<Rightarrow> int \<Rightarrow> string \<Rightarrow> ('s world, string) io" where
  "save_statistics_csv tx layer_statistics n output_dir =
     bind_io (makedirs output_dir) (\<lambda>_.
     let output_file = path_join output_dir (''n_gram_statistics_n'' @ py_str n @ ''.csv'') in
     bind_io (write_lines output_file (map (tx_row tx)
       ([Text ''Layer'', Text ''Total N-gram Paths'', Text ''Unique N-gram Paths'', Text ''Total Transitions'',
         Text ''Unique Transitions'', Text ''Self-Loop Transitions'', Text ''Self-Loop Ratio'']
        # map (statistics_row tx) (sort_key fst layer_statistics)))) (\<lambda>_. return_io output_file))"

definition matrix_file :: "int \<Rightarrow> string \<Rightarrow> int \<Rightarrow> string" where
  "matrix_file n output_dir layer_idx =
     path_join output_dir (''layer'' @ py_str layer_idx @ ''_transition_matrix_n'' @ py_str n @ ''.csv'')"

definition save_transition_matrices_csv :: "(int, 'f ngram_stats) dict \<Rightarrow> int \<Rightarrow> string \<Rightarrow> ('s world, unit) io" where
  "save_transition_matrices_csv layer_statistics n output_dir =
     bind_io (makedirs output_dir) (\<lambda>_.
     for_io (\<lambda>(layer_idx, info). write_lines (matrix_file n output_dir layer_idx)
               (map (\<lambda>row. join_with '','' (map nat_str row)) (ns_transition_matrix info)))
       layer_statistics)"

definition main_ngram ::
  "('f, 's) host \<Rightarrow> 'f text_ops \<Rightarrow> (string \<Rightarrow> ('f::linordered_field) token_record option) \<Rightarrow> string \<Rightarrow> int \<Rightarrow> string
   \<Rightarrow> ('s world, unit) io" where
  "main_ngram h tx loads input_file n output_dir =
     bind_io (makedirs output_dir) (\<lambda>_.
     bind_io (read_lines input_file) (\<lambda>lines.
     let records = load_jsonl_data (\<lambda>line. loads (strip line)) lines;
         request_sequences = extract_request_sequences records in
     bind_io (lift_io (calculate_ngram_statistics request_sequences n)) (\<lambda>layer_statistics.
     bind_io (save_statistics h layer_statistics n output_dir) (\<lambda>_.
     bind_io (save_statistics_csv tx layer_statistics n output_dir) (\<lambda>_.
     save_transition_matrices_csv layer_statistics n output_dir)))))"

section \<open>Routing stiffness score\<close>

definition rss_layer_json :: "('f::linordered_field) rss_layer \<Rightarrow> 'f json" where
  "rss_layer_json r =
     JObj [(''rss_margin'', JNum (rs_rss_margin r)), (''margin_std'', JNum (rs_margin_std r)),
           (''weakest_selected_logit_mean'', JNum (rs_weakest_selected_logit_mean r)),
           (''strongest_unselected_logit_mean'', JNum (rs_strongest_unselected_logit_mean r)),
           (''num_samples'', j_nat (rs_num_samples r)), (''topk'', j_nat (rs_topk r)),
           (''perturbation_scale'', JNum (rs_perturbation_scale r)), (''stability_rate'', j_opt (rs_stability_rate r))]"

definition rss_json :: "int \<Rightarrow> 'f \<Rightarrow> ('f::linordered_field) rss_results \<Rightarrow> 'f json" where
  "rss_json num_simulations perturbation_scale res =
     JObj [(''metric_name'', JStr ''routing_stiffness_score''),
           (''definition'', JStr ''mean_logit_margin_with_optional_perturbation_stability''),
           (''num_records'', j_nat (rr_num_records res)), (''num_simulations'', JNum (of_int num_simulations)),
           (''perturbation_scale'', JNum perturbation_scale),
           (''layer_results'', JObj (map (\<lambda>(l, r). (l, rss_layer_json r)) (rr_layer_results res))),
           (''global_rss_margin'', JNum (rr_global_rss_margin res)), (''global_margin_std'', JNum (rr_global_margin_std res)),
           (''global_stability_rate'', j_opt (rr_global_stability_rate res))]"

definition save_rss_results :: "('f, 's) host \<Rightarrow> 'f json \<Rightarrow> string \<Rightarrow> ('s world, unit) io" where
  "save_rss_results h results output_file =
     bind_io (makedirs (dirname output_file)) (\<lambda>_. write_lines output_file (h_dump_indented h results))"

definition main_rss ::
  "('f, 's) host \<Rightarrow> ('f, 'g) numpy \<Rightarrow> (string \<Rightarrow> ('f::linordered_field) token_record option) \<Rightarrow> string \<Rightarrow> string
   \<Rightarrow> int option \<Rightarrow> int \<Rightarrow> 'f \<Rightarrow> int \<Rightarrow> ('s world, unit) io" where
  "main_rss h np loads input_file output_file num_samples num_simulations perturbation_scale random_seed =
     bind_io (read_lines input_file) (\<lambda>lines.
     bind_io (lift_io (prepare_records np (load_jsonl_data loads lines) num_samples (Some random_seed))) (\<lambda>sampled_records.
     bind_io (lift_io (calculate_rss_by_layer np sampled_records num_simulations perturbation_scale (Some random_seed))) (\<lambda>results.
     save_rss_results h (rss_json num_simulations perturbation_scale results) output_file)))"

section \<open>Expert group metrics\<close>

definition routing_layer_json :: "('f::linordered_field) routing_layer \<Rightarrow> 'f json" where
  "routing_layer_json r =
     JObj [(''group_experts'', JList (map (\<lambda>e. JNum (of_int e)) (rl_group_experts r))),
           (''group_weight_share'', JNum (rl_group_weight_share r)),
           (''expert_weight_shares'', JObj (map (\<lambda>(e, s). (e, JNum s)) (rl_expert_weight_shares r))),
           (''routing_ratio'', JNum (rl_routing_ratio r)), (''total_tokens'', j_nat (rl_total_tokens r)),
           (''group_tokens'', j_nat (rl_group_tokens r))]"

fun mode_json :: "('f::linordered_field) mode \<Rightarrow> 'f json \<times> (string \<times> 'f json)" where
  "mode_json (Threshold threshold) = (JStr ''threshold'', ''threshold'', JNum threshold)"
| "mode_json (Topk k) = (JStr ''topk'', ''topk'', case k of None \<Rightarrow> JNull | Some i \<Rightarrow> JNum (of_int i))"

definition routing_json :: "string \<Rightarrow> ('f::linordered_field) mode \<Rightarrow> (string, 'f routing_layer) dict \<Rightarrow> 'f json" where
  "routing_json input_file m layers =
     JObj [(''input_file'', JStr input_file), (''mode'', fst (mode_json m)),
           (''layers'', JObj (map (\<lambda>(l, r). (l, routing_layer_json r)) layers)), snd (mode_json m)]"

definition group_stats_json :: "('f::linordered_field) group_ngram_stats \<Rightarrow> 'f json" where
  "group_stats_json st =
     JObj [(''total_ngram_paths'', j_nat (gs_total_ngram_paths st)), (''group_ngram_paths'', j_nat (gs_group_ngram_paths st)),
           (''group_ngram_ratio'', JNum (gs_group_ngram_ratio st)), (''unique_group_ngram_paths'', j_nat (gs_unique_group_ngram_paths st))]"

definition group_ngram_json :: "string \<Rightarrow> string \<Rightarrow> int \<Rightarrow> (string, ('f::linordered_field) group_ngram_stats) dict \<Rightarrow> 'f json" where
  "group_ngram_json input_file group_file n layers =
     JObj [(''input_file'', JStr input_file), (''group_file'', JStr group_file), (''n'', JNum (of_int n)),
           (''layers'', JObj (map (\<lambda>(l, st). (l, group_stats_json st)) layers))]"

definition routing_row :: "'f text_ops \<Rightarrow> string \<times> 'f routing_layer \<Rightarrow> 'f cell list" where
  "routing_row tx item =
     (case item of (l, r) \<Rightarrow>
      [Text l, Text (join_with '','' (map py_str (rl_group_experts r))), Text (tx_fixed6 tx (rl_group_weight_share r)),
       Text (tx_fixed6 tx (rl_routing_ratio r)), Count (int (rl_total_tokens r)), Count (int (rl_group_tokens r))])"

definition group_ngram_row :: "'f text_ops \<Rightarrow> string \<times> 'f group_ngram_stats \<Rightarrow> 'f cell list" where
  "group_ngram_row tx item =
     (case item of (l, st) \<Rightarrow>
      [Text l, Count (int (gs_total_ngram_paths st)), Count (int (gs_group_ngram_paths st)),
       Text (tx_fixed6 tx (gs_group_ngram_ratio st)), Count (int (gs_unique_group_ngram_paths st))])"

definition save_group_ngrams ::
  "('f::linordered_field, 's) host \<Rightarrow> 'f text_ops \<Rightarrow> string \<Rightarrow> string \<Rightarrow> string \<Rightarrow> int \<times> (string, 'f group_ngram_stats) dict
   \<Rightarrow> ('s world, unit) io" where
  "save_group_ngrams h tx input_file group_file output_dir item =
     (case item of (n, layers) \<Rightarrow>
      bind_io (write_lines (path_join output_dir (''expert_group_ngram_n'' @ py_str n @ ''.json''))
                 (h_dump_indented h (group_ngram_json input_file group_file n layers))) (\<lambda>_.
      write_lines (path_join output_dir (''expert_group_ngram_n'' @ py_str n @ ''.csv''))
        (map (tx_row tx) ([Text ''layer'', Text ''total_ngram_paths'', Text ''group_ngram_paths'', Text ''group_ngram_ratio'',
           Text ''unique_group_ngram_paths''] # map (group_ngram_row tx) layers))))"

definition main_metrics_files ::
  "('f::linordered_field, 's) host \<Rightarrow> 'f text_ops \<Rightarrow> (string \<Rightarrow> 'f token_record option) \<Rightarrow> string \<Rightarrow> 'f mode \<Rightarrow> int list
   \<Rightarrow> string \<Rightarrow> ('s world, unit) io" where
  "main_metrics_files h tx loads input_file m n_values output_dir =
     bind_io (if m = Topk None then lift_io (Inl ValueError) else read_lines input_file) (\<lambda>lines.
     bind_io (lift_io (main_metrics m n_values (load_jsonl_data loads lines))) (\<lambda>out.
     bind_io (makedirs output_dir) (\<lambda>_.
     let routing_json_file = path_join output_dir ''expert_group_routing.json'' in
     bind_io (write_lines routing_json_file (h_dump_indented h (routing_json input_file m (mo_routing out)))) (\<lambda>_.
     bind_io (write_lines (path_join output_dir ''expert_group_routing.csv'') (map (tx_row tx)
       ([Text ''layer'', Text ''group_experts'', Text ''group_weight_share'', Text ''routing_ratio'', Text ''total_tokens'', Text ''group_tokens'']
        # map (routing_row tx) (mo_routing out)))) (\<lambda>_.
     for_io (save_group_ngrams h tx input_file routing_json_file output_dir) (mo_ngrams out))))))"

section \<open>The files as JSON values\<close>

lemma j_nat_wf [simp]: "json_wf (j_nat n)" and j_opt_wf [simp]: "json_wf (j_opt x)"
  by (simp_all add: j_nat_def j_opt_def split: option.split)

lemma py_str_shape: "\<exists>sign digits. py_str i = sign @ digits \<and> sign \<in> {[], ''-''} \<and> digits \<noteq> [] \<and> (\<forall>c \<in> set digits. digit_char c)"
proof (cases "i < 0")
  case True
  then have "py_str i = ''-'' @ nat_str (nat (- i))" by (simp add: py_str_def)
  then show ?thesis using nat_str_digits nat_str_nonempty by blast
next
  case False
  then have "py_str i = [] @ nat_str (nat i)" by (simp add: py_str_def)
  then show ?thesis using nat_str_digits nat_str_nonempty by blast
qed

lemma inj_transition_key: "inj transition_key"
proof (rule injI)
  fix x y assume eq: "transition_key x = transition_key y"
  have first: "takeWhile digit_char (drop (length sign) (transition_key z)) = digits \<and>
      dropWhile digit_char (drop (length sign) (transition_key z)) = CHR ''-'' # py_str (snd z)"
    if "py_str (fst z) = sign @ digits" "\<forall>c \<in> set digits. digit_char c" for z sign digits
  proof -
    have "\<not> digit_char (CHR ''-'')" by (simp add: digit_char_def)
    then show ?thesis using that by (simp add: transition_key_def takeWhile_append2 dropWhile_append2)
  qed
  obtain s d where x: "py_str (fst x) = s @ d" "s \<in> {[], ''-''}" "d \<noteq> []" "\<forall>c \<in> set d. digit_char c" using py_str_shape by blast
  obtain s' d' where y: "py_str (fst y) = s' @ d'" "s' \<in> {[], ''-''}" "d' \<noteq> []" "\<forall>c \<in> set d'. digit_char c" using py_str_shape by blast
  have "\<not> digit_char (CHR ''-'')" by (simp add: digit_char_def)
  moreover have "hd (transition_key x) = hd (s @ d)" "hd (transition_key y) = hd (s' @ d')"
    using x y by (auto simp: transition_key_def hd_append)
  ultimately have "s = s'" using eq x(2-4) y(2-4) by (auto simp: hd_append dest: hd_in_set split: if_splits)
  then have "py_str (fst x) = py_str (fst y)" "py_str (snd x) = py_str (snd y)"
    using first[OF x(1,4)] first[OF y(1,4)] x(1) y(1) eq by auto
  then show "x = y" using inj_py_str by (simp add: inj_eq prod_eq_iff)
qed

lemma distinct_keys_map:
  assumes "distinct (map fst xs)" and "inj f"
  shows "distinct (map fst (map (\<lambda>(k, v). (f k, g k v)) xs))"
proof -
  have "map fst (map (\<lambda>(k, v). (f k, g k v)) xs) = map f (map fst xs)" by (simp add: case_prod_unfold comp_def)
  then show ?thesis using assms by (simp only: distinct_map inj_on_subset[OF _ subset_UNIV] simp_thms)
qed

lemma statistics_json_wf:
  assumes "distinct (map fst stats)" and "\<forall>(l, info) \<in> set stats. dict_ok (ns_transition_counts info)"
  shows "json_wf (statistics_json n stats)"
proof -
  have "json_wf (layer_summary_json info)" for info :: "'a ngram_stats" by (simp add: layer_summary_json_def)
  moreover have "json_wf (JObj (map (\<lambda>(st, c). (transition_key st, j_nat c)) (ns_transition_counts info)))" if "(l, info) \<in> set stats" for l info
    using assms(2) that distinct_keys_map[OF _ inj_transition_key, of "ns_transition_counts info" "\<lambda>_. j_nat"]
    by (auto simp: dict_ok_def)
  ultimately show ?thesis
    unfolding statistics_json_def json_wf_obj using distinct_keys_map[OF assms(1) inj_py_str]
    by (auto simp: case_prod_unfold comp_def)
qed

lemma layer_statistics_counts_ok: "dict_ok (ns_transition_counts (layer_statistics_of seqs n l))"
  by (simp add: layer_statistics_of_def stats_of_acc_def fold_count_ngram init_ngram_acc_def dict_ok_counter)

lemma calculated_statistics_wf:
  assumes n: "1 \<le> n" and stats: "calculate_ngram_statistics seqs n = Inr stats"
  shows "json_wf (statistics_json n stats)"
proof (rule statistics_json_wf)
  have s: "stats = map (\<lambda>l. (l, layer_statistics_of seqs n l)) (py_range (max_plus_one (sequence_layers seqs)))"
    using stats unfolding calculate_ngram_statistics_Inr[OF n] by simp
  show "distinct (map fst stats)" unfolding s by (simp add: comp_def distinct_py_range)
  show "\<forall>(l, info) \<in> set stats. dict_ok (ns_transition_counts info)" unfolding s by (auto simp: layer_statistics_counts_ok)
qed

lemma rss_json_wf: "distinct (map fst (rr_layer_results res)) \<Longrightarrow> json_wf (rss_json n eps res)"
proof -
  have "json_wf (rss_layer_json r)" for r :: "'a rss_layer" by (simp add: rss_layer_json_def)
  then show "distinct (map fst (rr_layer_results res)) \<Longrightarrow> json_wf (rss_json n eps res)"
    unfolding rss_json_def json_wf_obj using distinct_keys_map[of "rr_layer_results res" "\<lambda>l. l" "\<lambda>_. rss_layer_json"] by auto
qed
section \<open>What the scripts write\<close>

definition statistics_file :: "string \<Rightarrow> int \<Rightarrow> string" where
  "statistics_file output_dir n = path_join output_dir (''n_gram_statistics_n'' @ py_str n @ ''.json'')"

definition plain_name :: "string \<Rightarrow> bool" where
  "plain_name x \<longleftrightarrow> CHR ''/'' \<notin> set x"

lemma plain_py_str [simp]: "plain_name (py_str i)"
proof -
  have "\<not> digit_char (CHR ''/'')" by (simp add: digit_char_def)
  then show ?thesis using py_str_shape[of i] by (auto simp: plain_name_def)
qed

lemma plain_simps [simp]:
  "plain_name []" "plain_name (c # x) \<longleftrightarrow> c \<noteq> CHR ''/'' \<and> plain_name x" "plain_name (x @ y) \<longleftrightarrow> plain_name x \<and> plain_name y"
  by (auto simp: plain_name_def)

lemma path_join_eq_iff: "plain_name x \<Longrightarrow> plain_name y \<Longrightarrow> path_join d x = path_join d y \<longleftrightarrow> x = y"
  by (cases x; cases y) (auto simp: path_join_def plain_name_def starts_with_def)

lemma leaves_save_csv: "p \<noteq> path_join d (''n_gram_statistics_n'' @ py_str n @ ''.csv'') \<Longrightarrow> leaves p (save_statistics_csv tx stats n d)"
  by (auto simp: save_statistics_csv_def Let_def intro!: leaves_bind)

lemma leaves_save_matrices: "(\<And>l. p \<noteq> matrix_file n d l) \<Longrightarrow> leaves p (save_transition_matrices_csv stats n d)"
  by (auto simp: save_transition_matrices_csv_def intro!: leaves_bind leaves_for)

lemma main_ngram_leaves:
  assumes "\<And>x. plain_name x \<Longrightarrow> x \<noteq> ''results_all.jsonl'' \<Longrightarrow> p \<noteq> path_join d x"
  shows "leaves p (main_ngram h tx loads input_file n d)"
proof -
  have "plain_name (''n_gram_statistics_n'' @ py_str n @ ''.json'')" "plain_name (''n_gram_statistics_n'' @ py_str n @ ''.csv'')"
    "plain_name (''layer'' @ py_str l @ ''_transition_matrix_n'' @ py_str n @ ''.csv'')" for l
    using plain_py_str by (simp_all add: plain_name_def)
  then have "p \<noteq> path_join d (''n_gram_statistics_n'' @ py_str n @ ''.json'')" "p \<noteq> path_join d (''n_gram_statistics_n'' @ py_str n @ ''.csv'')"
    "p \<noteq> matrix_file n d l" for l
    unfolding matrix_file_def by (intro assms; simp)+
  then show ?thesis
    by (auto simp: main_ngram_def save_statistics_def Let_def intro!: leaves_bind leaves_save_csv leaves_save_matrices)
qed

lemma main_ngram_run:
  fixes h :: "('f::linordered_field, 's) host"
  assumes n: "1 \<le> n" and d: "d \<noteq> []" and input: "map_of (w_files w) input_file = Some lines"
  shows "\<exists>stats w'. calculate_ngram_statistics (extract_request_sequences (load_jsonl_data (\<lambda>line. loads (strip line)) lines)) n = Inr stats \<and>
    main_ngram h tx loads input_file n d w = (Inr (), w') \<and>
    map_of (w_files w') (statistics_file d n) = Some (h_dump_indented h (statistics_json n stats))"
proof -
  let ?seqs = "extract_request_sequences (load_jsonl_data (\<lambda>line. loads (strip line)) lines)"
  obtain stats :: "(int, 'f ngram_stats) dict" where stats: "calculate_ngram_statistics ?seqs n = Inr stats"
    using calculate_ngram_statistics_Inr[OF n] by blast
  define w1 where "w1 = w\<lparr>w_files := AList.update (statistics_file d n) (h_dump_indented h (statistics_json n stats)) (w_files w)\<rparr>"
  have s1: "save_statistics h stats n d w = (Inr (statistics_file d n), w1)"
    using d by (simp add: save_statistics_def Let_def makedirs_def io_simps write_lines_def w1_def statistics_file_def)
  obtain f w2 where s2: "save_statistics_csv tx stats n d w1 = (Inr f, w2)"
    using d by (simp add: save_statistics_csv_def Let_def makedirs_def io_simps write_lines_def)
  have "\<exists>w'. for_io (\<lambda>(l, info). write_lines (matrix_file n d l)
      (map (\<lambda>row. join_with '','' (map nat_str row)) (ns_transition_matrix info))) stats w2 = (Inr (), w')"
    by (rule for_io_total) (simp add: write_lines_def case_prod_unfold)
  then obtain w3 where s3: "save_transition_matrices_csv stats n d w2 = (Inr (), w3)"
    using d by (auto simp: save_transition_matrices_csv_def makedirs_def io_simps)
  have run: "main_ngram h tx loads input_file n d w = (Inr (), w3)"
    using input stats s1 s2 s3 d by (simp add: main_ngram_def io_simps makedirs_def read_lines_def Let_def)
  have "statistics_file d n \<noteq> path_join d (''n_gram_statistics_n'' @ py_str n @ ''.csv'')" "statistics_file d n \<noteq> matrix_file n d l" for l
    unfolding statistics_file_def matrix_file_def
    by (subst path_join_eq_iff; simp add: plain_name_def plain_py_str[unfolded plain_name_def])+
  then have "map_of (w_files w3) (statistics_file d n) = map_of (w_files w1) (statistics_file d n)"
    using leavesD[OF leaves_save_csv s2] leavesD[OF leaves_save_matrices s3] by metis
  then show ?thesis using run stats by (auto simp: w1_def AList.update_conv')
qed

lemma main_rss_leaves: "p \<noteq> output_file \<Longrightarrow> leaves p (main_rss h np loads input_file output_file ns n eps seed)"
  by (auto simp: main_rss_def save_rss_results_def Let_def intro!: leaves_bind)

text \<open>The layer keys are integers, as in every file that the post-processing script writes.\<close>

definition int_keys :: "'f token_record list \<Rightarrow> bool" where
  "int_keys records \<longleftrightarrow> (\<forall>r \<in> set records. \<forall>kl \<in> set (layers_of r). py_int (fst kl) \<noteq> None)"

text \<open>What the collection of the margins keeps, step by step.\<close>

lemma collect_entries_invariant:
  assumes "P []" and step: "\<And>r kld d. r \<in> set records \<Longrightarrow> kld \<in> set (layers_of r) \<Longrightarrow> P d \<Longrightarrow> P (collect_step kld d)"
  shows "P (collect_entries records)"
  unfolding collect_entries_def
proof (rule fold_invariant[where P = P])
  fix r d assume "r \<in> set records" "P d"
  then show "P (fold collect_step (layers_of r) d)" using step by (intro fold_invariant[where P = P]) blast+
qed (rule assms(1))

lemma collect_step_keys:
  "fst ` set (collect_step kld d) = (if extract_layer_margin (snd kld) = None then fst ` set d else insert (fst kld) (fst ` set d))"
  by (cases kld; cases "extract_layer_margin (snd kld)") (simp_all add: collect_step_def dict_simps)

lemma collect_keys: "fst ` set (collect_entries records) \<subseteq> (\<Union>r \<in> set records. fst ` set (layers_of r))"
proof (rule collect_entries_invariant[where P = "\<lambda>d. fst ` set d \<subseteq> (\<Union>r \<in> set records. fst ` set (layers_of r))"])
  fix r :: "'a token_record" and kld :: "string \<times> 'a layer_data" and d :: "(string, 'a rss_entry list) dict"
  assume "r \<in> set records" "kld \<in> set (layers_of r)" "fst ` set d \<subseteq> (\<Union>r \<in> set records. fst ` set (layers_of r))"
  then show "fst ` set (collect_step kld d) \<subseteq> (\<Union>r \<in> set records. fst ` set (layers_of r))"
    unfolding collect_step_keys by (auto split: if_splits)
qed simp

lemma collect_dict_ok: "dict_ok (collect_entries records)"
  by (rule collect_entries_invariant[where P = dict_ok]) (simp_all add: collect_step_def split: option.split prod.split)

lemma rss_total:
  assumes "int_keys records"
  shows "\<exists>res. calculate_rss_by_layer np records n eps seed = Inr res \<and> distinct (map fst (rr_layer_results res))"
proof -
  let ?keys = "dict_keys (collect_entries records)"
  have "\<forall>k \<in> set ?keys. py_int k \<noteq> None"
  proof
    fix k assume "k \<in> set ?keys"
    then have "k \<in> fst ` set (collect_entries records)" by (simp add: dict_keys_def)
    then have "k \<in> (\<Union>r \<in> set records. fst ` set (layers_of r))" using collect_keys[of records] by (rule subsetD[rotated])
    then show "py_int k \<noteq> None" using assms by (auto simp: int_keys_def)
  qed
  then have "sorted_by_int ?keys = Inr (sort_key (\<lambda>k. the (py_int k)) ?keys)" by (auto simp: sorted_by_int_def)
  moreover have "distinct ?keys" using collect_dict_ok[of records] by (simp add: dict_ok_def dict_keys_def)
  ultimately show ?thesis by (auto simp: calculate_rss_by_layer_def Let_def rss_layers_loop_ids)
qed

lemma prepare_total:
  assumes "choice_spec np" and "0 \<le> k"
  shows "\<exists>rs. prepare_records np records (Some k) seed = Inr rs \<and> set rs \<subseteq> set records"
proof (cases "int (length records) \<le> k")
  case False
  then obtain idx where "np_choice np (np_default_rng np seed) (length records) k = Inr idx" "set idx \<subseteq> {..<length records}"
    using assms unfolding choice_spec_def by (elim allE[of _ "np_default_rng np seed"] allE[of _ "length records"] allE[of _ k]) auto
  then show ?thesis using False by (auto simp: prepare_records_def map_res_nth)
qed (simp add: prepare_records_def)

lemma main_rss_run:
  assumes np: "choice_spec np" and k: "0 \<le> k" and d: "dirname output_file \<noteq> []"
    and input: "map_of (w_files w) input_file = Some lines" and keys: "int_keys (load_jsonl_data loads lines)"
  shows "\<exists>rs res w'. prepare_records np (load_jsonl_data loads lines) (Some k) (Some seed) = Inr rs \<and>
    calculate_rss_by_layer np rs n eps (Some seed) = Inr res \<and> json_wf (rss_json n eps res) \<and>
    main_rss h np loads input_file output_file (Some k) n eps seed w = (Inr (), w') \<and>
    map_of (w_files w') output_file = Some (h_dump_indented h (rss_json n eps res))"
proof -
  obtain rs where rs: "prepare_records np (load_jsonl_data loads lines) (Some k) (Some seed) = Inr rs"
    "set rs \<subseteq> set (load_jsonl_data loads lines)" using prepare_total[OF np k, of "load_jsonl_data loads lines" "Some seed"] by (elim exE conjE) (rule that)
  then have "int_keys rs" using keys by (auto simp: int_keys_def)
  from rss_total[OF this] obtain res where res: "calculate_rss_by_layer np rs n eps (Some seed) = Inr res" "json_wf (rss_json n eps res)"
    using rss_json_wf by blast
  show ?thesis
    using rs res input d
    by (auto simp: main_rss_def save_rss_results_def io_simps read_lines_def makedirs_def write_lines_def AList.update_conv')
qed

definition group_ngram_file :: "string \<Rightarrow> int \<Rightarrow> string" where
  "group_ngram_file output_dir n = path_join output_dir (''expert_group_ngram_n'' @ py_str n @ ''.json'')"

lemma group_files_differ:
  "group_ngram_file d n \<noteq> path_join d (''expert_group_ngram_n'' @ py_str k @ ''.csv'')"
  "group_ngram_file d n = group_ngram_file d k \<longleftrightarrow> n = k"
  unfolding group_ngram_file_def
  by (subst path_join_eq_iff; simp add: plain_name_def plain_py_str[unfolded plain_name_def] inj_eq[OF inj_py_str])+

lemma save_group_run:
  "\<exists>w'. save_group_ngrams h tx inp grp d (n, layers) w = (Inr (), w') \<and>
     map_of (w_files w') (group_ngram_file d n) = Some (h_dump_indented h (group_ngram_json inp grp n layers))"
  using group_files_differ(1)[of d n n]
  by (simp add: save_group_ngrams_def io_simps write_lines_def AList.update_conv' group_ngram_file_def)

lemma save_group_leaves: "k \<noteq> n \<Longrightarrow> leaves (group_ngram_file d k) (save_group_ngrams h tx inp grp d (n, layers))"
  using group_files_differ[of d k n] by (auto simp: save_group_ngrams_def group_ngram_file_def intro!: leaves_bind)

lemma save_all_groups:
  "\<exists>w'. for_io (save_group_ngrams h tx inp grp d) (map (\<lambda>n. (n, F n)) ns) w = (Inr (), w') \<and>
     (\<forall>n \<in> set ns. map_of (w_files w') (group_ngram_file d n) = Some (h_dump_indented h (group_ngram_json inp grp n (F n))))"
proof -
  let ?f = "save_group_ngrams h tx inp grp d \<circ> (\<lambda>n. (n, F n))"
  let ?P = "\<lambda>n w. map_of (w_files w) (group_ngram_file d n) = Some (h_dump_indented h (group_ngram_json inp grp n (F n)))"
  have "\<exists>w'. for_io ?f ns w = (Inr (), w') \<and> True \<and> (\<forall>n \<in> set ns. ?P n w')"
  proof (rule for_io_each[where I = "\<lambda>_. True"])
    show "\<exists>w'. ?f n w = (Inr (), w') \<and> True \<and> ?P n w'" for n w using save_group_run[of h tx inp grp d n "F n" w] by simp
    show "?P n w'" if "n \<noteq> k" "?P n w" "?f k w = (r, w')" for n k w r w'
      using leavesD[OF save_group_leaves[OF that(1)], of h tx inp grp d "F k" w r w'] that by simp
  qed simp
  then show ?thesis by (simp add: for_io_map)
qed

lemma group_ngram_json_wf: "distinct (map fst layers) \<Longrightarrow> json_wf (group_ngram_json inp grp n layers)"
proof -
  have "json_wf (group_stats_json st)" for st :: "'a group_ngram_stats" by (simp add: group_stats_json_def)
  then show "distinct (map fst layers) \<Longrightarrow> json_wf (group_ngram_json inp grp n layers)"
    unfolding group_ngram_json_def json_wf_obj using distinct_keys_map[of layers "\<lambda>l. l" "\<lambda>_. group_stats_json"] by auto
qed

text \<open>The n-gram statistics that the script computes for one window size.\<close>

definition group_layers :: "('f::linordered_field) mode \<Rightarrow> 'f token_record list \<Rightarrow> int \<Rightarrow> (string, 'f group_ngram_stats) dict" where
  "group_layers m records n =
     (let (layer_expert_weights, layer_total_weight) = compute_layer_expert_weights records;
          groups = map (\<lambda>(l, w). (l, set (fst (selection_of m w (dict_get layer_total_weight l 0))))) layer_expert_weights
      in map (\<lambda>(l, st). (py_str l, st))
           (sort_key fst (calculate_group_ngram_statistics (extract_expert_sequences_by_request records) groups n)))"

lemma main_metrics_ngrams:
  assumes "m \<noteq> Topk None" and "records \<noteq> []"
  shows "\<exists>out. main_metrics m n_values records = Inr out \<and> mo_ngrams out = map (\<lambda>n. (n, group_layers m records n)) n_values"
  using assms
  by (simp add: main_metrics_def select_all_Inr group_layers_def Let_def case_prod_unfold comp_def split: prod.splits)

lemma group_layers_distinct: "distinct (map fst (group_layers m records n))"
proof -
  let ?st = "\<lambda>groups. calculate_group_ngram_statistics (extract_expert_sequences_by_request records) groups n"
  have "distinct (map fst (?st groups))" for groups
    by (simp add: calculate_group_ngram_statistics_def Let_def comp_def distinct_py_range)
  then have "distinct (map fst (sort_key fst (?st groups)))" for groups
    by (simp add: distinct_map)
  from distinct_keys_map[OF this inj_py_str, where g = "\<lambda>_ st. st"] show ?thesis
    by (simp add: group_layers_def Let_def case_prod_unfold)
qed

lemma main_metrics_files_run:
  assumes m: "m \<noteq> Topk None" and d: "d \<noteq> []" and input: "map_of (w_files w) inp = Some lines"
    and ne: "load_jsonl_data loads lines \<noteq> []"
  shows "\<exists>w'. main_metrics_files h tx loads inp m n_values d w = (Inr (), w') \<and>
    (\<forall>n \<in> set n_values. map_of (w_files w') (group_ngram_file d n) =
       Some (h_dump_indented h (group_ngram_json inp (path_join d ''expert_group_routing.json'') n
          (group_layers m (load_jsonl_data loads lines) n))))"
proof -
  obtain out where out: "main_metrics m n_values (load_jsonl_data loads lines) = Inr out"
    "mo_ngrams out = map (\<lambda>n. (n, group_layers m (load_jsonl_data loads lines) n)) n_values"
    using main_metrics_ngrams[OF m ne] by blast
  show ?thesis
    using save_all_groups[of h tx inp "path_join d ''expert_group_routing.json''" d "group_layers m (load_jsonl_data loads lines)" n_values] out m d input
    by (simp add: main_metrics_files_def io_simps read_lines_def makedirs_def write_lines_def Let_def)
qed

end
