(* ===== verification/Aggregate.thy ===== *)
theory Aggregate
  imports Result_Files
begin

text \<open>
  The aggregation scripts (\<^verbatim>\<open>metric/utils/aggregate_results.py\<close> and \<^verbatim>\<open>aggregate_expert_group_ngram.py\<close>), which collect
  the results of several directories in one table, and the step of \<^verbatim>\<open>metric/script/run_all_metrics.sh\<close> that writes
  what the first of them reads.

  \<^verbatim>\<open>os.path.isdir\<close>, \<^verbatim>\<open>np.mean\<close> of a list of JSON values and \<^verbatim>\<open>float\<close> of a string are the record \<open>agg_ops\<close>.
\<close>

section \<open>Reading the results\<close>

record 'f agg_ops =
  ag_isdir :: "string \<Rightarrow> bool"
  ag_mean :: "'f json list \<Rightarrow> 'f result"
  ag_float_str :: "string \<Rightarrow> 'f result"

definition extract_dir_name :: "string \<Rightarrow> string" where
  "extract_dir_name input_dir = basename (rstrip_char (CHR ''/'') input_dir)"

text \<open>A file that is missing, that cannot be parsed or that holds \<^verbatim>\<open>null\<close> gives \<^verbatim>\<open>None\<close>.\<close>

definition load_json :: "('f, 's) host \<Rightarrow> string \<Rightarrow> 's world \<Rightarrow> 'f json option" where
  "load_json h json_file w =
     (case map_of (w_files w) json_file of
        None \<Rightarrow> None
      | Some ls \<Rightarrow> (case h_loads h (file_text ls) of Inl _ \<Rightarrow> None | Inr JNull \<Rightarrow> None | Inr data \<Rightarrow> Some data))"

definition load_ngram_statistics :: "('f, 's) host \<Rightarrow> string \<Rightarrow> int \<Rightarrow> 's world \<Rightarrow> 'f json option" where
  "load_ngram_statistics h input_dir n =
     load_json h (path_join (path_join input_dir (''n_gram/n_gram_'' @ py_str n)) (''n_gram_statistics_n'' @ py_str n @ ''.json''))"

definition load_rss_results :: "('f, 's) host \<Rightarrow> string \<Rightarrow> int \<Rightarrow> 's world \<Rightarrow> 'f json option" where
  "load_rss_results h input_dir v =
     load_json h (path_join (path_join input_dir (''rss/rss_'' @ py_str v)) ''rss.json'')"

definition load_expert_group_ngram :: "('f, 's) host \<Rightarrow> string \<Rightarrow> int \<Rightarrow> 's world \<Rightarrow> 'f json option" where
  "load_expert_group_ngram h input_dir n w =
     (let name = ''expert_group_ngram_n'' @ py_str n @ ''.json'';
          json_file_new = path_join (path_join input_dir ''expert_group_routing'') name;
          json_file_old = path_join (path_join input_dir ''group_experts'') name
      in if map_of (w_files w) json_file_new \<noteq> None then load_json h json_file_new w
         else if map_of (w_files w) json_file_old \<noteq> None then load_json h json_file_old w
         else None)"

fun j_items :: "'f json \<Rightarrow> (string \<times> 'f json) list result" where
  "j_items (JObj d) = Inr d"
| "j_items _ = Inl AttributeError"

definition mean_across_layers :: "('f::linordered_field) agg_ops \<Rightarrow> string \<Rightarrow> string \<Rightarrow> 'f json \<Rightarrow> 'f result" where
  "mean_across_layers ops key field stats =
     bind_res (j_get stats key (JObj [])) (\<lambda>summary.
     if \<not> j_truthy summary then Inr 0
     else bind_res (j_items summary) (\<lambda>items.
          bind_res (map_res (\<lambda>(_, layer_data). j_get layer_data field (JNum 0)) items) (\<lambda>ratios.
          if ratios = [] then Inr 0 else ag_mean ops ratios)))"

definition calculate_ngram_mean_across_layers :: "('f::linordered_field) agg_ops \<Rightarrow> 'f json \<Rightarrow> 'f result" where
  "calculate_ngram_mean_across_layers ops = mean_across_layers ops ''summary'' ''self_loop_ratio''"

definition calculate_group_ngram_mean_across_layers :: "('f::linordered_field) agg_ops \<Rightarrow> 'f json \<Rightarrow> 'f result" where
  "calculate_group_ngram_mean_across_layers ops = mean_across_layers ops ''layers'' ''group_ngram_ratio''"

text \<open>\<^verbatim>\<open>float(v)\<close>.\<close>

fun float_of :: "('f::linordered_field) agg_ops \<Rightarrow> 'f json \<Rightarrow> 'f result" where
  "float_of ops (JNum x) = Inr x"
| "float_of ops (json.JBool b) = Inr (if b then 1 else 0)"
| "float_of ops (JStr s) = ag_float_str ops s"
| "float_of ops _ = Inl TypeError"

definition calculate_rss_mean :: "('f::linordered_field) agg_ops \<Rightarrow> 'f json \<Rightarrow> 'f result" where
  "calculate_rss_mean ops results = bind_res (j_get results ''global_rss_margin'' (JNum 0)) (float_of ops)"

section \<open>The directories of a shell script\<close>

definition lstrip :: "string \<Rightarrow> string" where
  "lstrip s = dropWhile is_space s"

definition strip_char :: "char \<Rightarrow> string \<Rightarrow> string" where
  "strip_char c s = rstrip_char c (lstrip_char c s)"

text \<open>The regular expression \<^verbatim>\<open>INPUT_DIRS\s*=\s*\((.*?)\)\<close> with \<^verbatim>\<open>re.DOTALL\<close>: a match at the start of a text, and the first match in it.\<close>

definition match_array :: "string \<Rightarrow> string option" where
  "match_array s =
     (if starts_with s ''INPUT_DIRS'' then
        let r = lstrip (drop 10 s) in
        if starts_with r ''='' then
          let q = lstrip (drop 1 r) in
          if starts_with q ''('' \<and> CHR '')'' \<in> set q then Some (takeWhile (\<lambda>c. c \<noteq> CHR '')'') (drop 1 q)) else None
        else None
      else None)"

fun search_array :: "string \<Rightarrow> string option" where
  "search_array [] = None"
| "search_array (c # s) = (case match_array (c # s) of Some m \<Rightarrow> Some m | None \<Rightarrow> search_array s)"

text \<open>\<^verbatim>\<open>s.split('\n')\<close>.\<close>

fun split_lines :: "string \<Rightarrow> string list" where
  "split_lines [] = [[]]"
| "split_lines (c # s) =
     (if c = CHR 0x0A then [] # split_lines s
      else case split_lines s of [] \<Rightarrow> [[c]] | l # ls \<Rightarrow> (c # l) # ls)"

definition array_path :: "string \<Rightarrow> string list" where
  "array_path line =
     (let line = strip line in
      if line = [] \<or> starts_with line ''#'' then []
      else let path = rstrip_char (CHR '','') (strip_char (CHR 0x27) (strip_char (CHR 0x22) (strip line)))
           in if path = [] then [] else [path])"

definition parse_input_dirs_from_batch_call :: "string \<Rightarrow> 's world \<Rightarrow> string list" where
  "parse_input_dirs_from_batch_call batch_call_file w =
     (case map_of (w_files w) batch_call_file of
        None \<Rightarrow> []
      | Some ls \<Rightarrow> (case search_array (file_text ls) of
                      None \<Rightarrow> []
                    | Some array_content \<Rightarrow> concat (map array_path (split_lines array_content))))"

section \<open>The tables\<close>

type_synonym 'f result_row = "(string \<times> 'f cell) list"

definition metric_cell ::
  "(int \<Rightarrow> 'f json option) \<Rightarrow> ('f json \<Rightarrow> 'f result) \<Rightarrow> (int \<Rightarrow> string) \<Rightarrow> int \<Rightarrow> (string \<times> 'f cell) result" where
  "metric_cell load mean column n =
     (case load n of None \<Rightarrow> Inr (column n, NoneCell) | Some stats \<Rightarrow> bind_res (mean stats) (\<lambda>x. Inr (column n, Number x)))"

definition n_values :: "int list" where
  "n_values = [2, 5, 10, 20]"

definition rss_values :: "int list" where
  "rss_values = [500, 1000, 2000]"

definition ngram_column :: "int \<Rightarrow> string" where
  "ngram_column n = ''ngram_'' @ py_str n @ ''_ratio_mean''"

definition rss_column :: "int \<Rightarrow> string" where
  "rss_column v = ''rss_'' @ py_str v @ ''_mean''"

definition group_column :: "int \<Rightarrow> string" where
  "group_column n = ''group_ngram_n'' @ py_str n @ ''_ratio_mean''"

definition labels :: "string \<Rightarrow> 'f result_row" where
  "labels input_dir = [(''directory'', Text (extract_dir_name input_dir)), (''full_path'', Text input_dir)]"

definition results_row :: "('f, 's) host \<Rightarrow> ('f::linordered_field) agg_ops \<Rightarrow> 's world \<Rightarrow> string \<Rightarrow> 'f result_row result" where
  "results_row h ops w input_dir =
     bind_res (map_res (metric_cell (\<lambda>n. load_ngram_statistics h input_dir n w) (calculate_ngram_mean_across_layers ops) ngram_column) n_values) (\<lambda>ngram.
     bind_res (map_res (metric_cell (\<lambda>v. load_rss_results h input_dir v w) (calculate_rss_mean ops) rss_column) rss_values) (\<lambda>rss.
     Inr (labels input_dir @ ngram @ rss)))"

definition group_results_row :: "('f, 's) host \<Rightarrow> ('f::linordered_field) agg_ops \<Rightarrow> 's world \<Rightarrow> string \<Rightarrow> 'f result_row result" where
  "group_results_row h ops w input_dir =
     bind_res (map_res (metric_cell (\<lambda>n. load_expert_group_ngram h input_dir n w) (calculate_group_ngram_mean_across_layers ops) group_column) n_values) (\<lambda>ngram.
     Inr (labels input_dir @ ngram))"

text \<open>\<^verbatim>\<open>csv.DictWriter.writerow\<close>: an unknown key is an error, a missing one an empty text.\<close>

definition dict_row :: "string list \<Rightarrow> 'f result_row \<Rightarrow> 'f cell list result" where
  "dict_row columns row =
     (if fst ` set row \<subseteq> set columns then Inr (map (\<lambda>c. case map_of row c of None \<Rightarrow> Text [] | Some x \<Rightarrow> x) columns) else Inl ValueError)"

definition write_table ::
  "'f text_ops \<Rightarrow> string list \<Rightarrow> 'f result_row list \<Rightarrow> string \<Rightarrow> ('s world, unit) io" where
  "write_table tx columns rows output_file =
     bind_io (makedirs (if dirname output_file = [] then ''.'' else dirname output_file)) (\<lambda>_.
     bind_io (write_lines output_file [tx_row tx (map Text columns)]) (\<lambda>_.
     for_io (\<lambda>row. bind_io (lift_io (dict_row columns row)) (\<lambda>cells. append_lines output_file [tx_row tx cells])) rows))"

definition aggregate_results ::
  "('f, 's) host \<Rightarrow> ('f::linordered_field) agg_ops \<Rightarrow> 'f text_ops \<Rightarrow> string list \<Rightarrow> string \<Rightarrow> ('s world, unit) io" where
  "aggregate_results h ops tx input_dirs output_file w =
     bind_io (lift_io (map_res (results_row h ops w) (filter (ag_isdir ops) input_dirs))) (\<lambda>all_results.
     write_table tx ([''directory'', ''full_path''] @ map ngram_column n_values @ map rss_column rss_values) all_results output_file) w"

definition aggregate_group_results ::
  "('f, 's) host \<Rightarrow> ('f::linordered_field) agg_ops \<Rightarrow> 'f text_ops \<Rightarrow> string list \<Rightarrow> string \<Rightarrow> ('s world, unit) io" where
  "aggregate_group_results h ops tx input_dirs output_file w =
     bind_io (lift_io (map_res (group_results_row h ops w) (filter (ag_isdir ops) input_dirs))) (\<lambda>all_results.
     write_table tx ([''directory'', ''full_path''] @ map group_column n_values) all_results output_file) w"

definition main_aggregate ::
  "('f, 's) host \<Rightarrow> ('f::linordered_field) agg_ops \<Rightarrow> 'f text_ops \<Rightarrow> string option \<Rightarrow> string list option \<Rightarrow> string \<Rightarrow> ('s world, unit) io" where
  "main_aggregate h ops tx config_file input_dirs output_file w =
     (let dirs = (case config_file of
          Some (c # cs) \<Rightarrow> parse_input_dirs_from_batch_call (c # cs) w
        | _ \<Rightarrow> (case input_dirs of None \<Rightarrow> [] | Some ds \<Rightarrow> ds))
      in if dirs = [] then (Inl SystemExit, w) else aggregate_results h ops tx dirs output_file w)"

definition main_aggregate_groups ::
  "('f, 's) host \<Rightarrow> ('f::linordered_field) agg_ops \<Rightarrow> 'f text_ops \<Rightarrow> string list \<Rightarrow> string \<Rightarrow> ('s world, unit) io" where
  "main_aggregate_groups h ops tx input_dirs output_file w =
     (if input_dirs = [] then (Inl SystemExit, w) else aggregate_group_results h ops tx input_dirs output_file w)"

section \<open>What the aggregation reads\<close>

text \<open>\<^verbatim>\<open>json.load\<close> reads back a file that \<^verbatim>\<open>json.dump\<close> wrote, and \<^verbatim>\<open>np.mean\<close> of numbers is their mean.\<close>

definition file_codec :: "('f, 's) host \<Rightarrow> bool" where
  "file_codec h \<longleftrightarrow> (\<forall>v. json_wf v \<longrightarrow> h_loads h (file_text (h_dump_indented h v)) = Inr v)"

definition mean_spec :: "('f::linordered_field) agg_ops \<Rightarrow> bool" where
  "mean_spec ops \<longleftrightarrow> (\<forall>xs. xs \<noteq> [] \<longrightarrow> ag_mean ops (map JNum xs) = Inr (sum_list xs / of_nat (length xs)))"

definition mean_of :: "('f::linordered_field) list \<Rightarrow> 'f" where
  "mean_of xs = (if xs = [] then 0 else sum_list xs / of_nat (length xs))"

lemma load_written:
  assumes "file_codec h" and "json_wf (JObj d)" and "map_of (w_files w) p = Some (h_dump_indented h (JObj d))"
  shows "load_json h p w = Some (JObj d)"
  using assms by (simp add: load_json_def file_codec_def)

lemma mean_across_layers_Inr:
  assumes spec: "mean_spec ops" and key: "map_of d key = Some (JObj (map (\<lambda>(l, x). (f l, g x)) xs))"
    and field: "\<And>x. \<exists>o'. g x = JObj o' \<and> map_of o' field = Some (JNum (r x))"
  shows "mean_across_layers ops key field (JObj d) = Inr (mean_of (map (\<lambda>(l, x). r x) xs))"
proof -
  have get: "j_get (g x) field (JNum 0) = Inr (JNum (r x))" for x using field[of x] by auto
  have "map_res (\<lambda>(_, layer_data). j_get layer_data field (JNum 0)) (map (\<lambda>(l, x). (f l, g x)) xs) = Inr (map JNum (map (\<lambda>(l, x). r x) xs))"
    unfolding map_res_map map_map by (rule map_res_Inr) (auto simp: get)
  then show ?thesis using spec key
    by (cases "xs = []") (auto simp: mean_across_layers_def mean_of_def mean_spec_def)
qed

lemma ngram_mean_read:
  assumes "mean_spec ops"
  shows "calculate_ngram_mean_across_layers ops (statistics_json n stats) = Inr (mean_of (map (\<lambda>(l, st). ns_self_loop_ratio st) stats))"
  unfolding calculate_ngram_mean_across_layers_def statistics_json_def
  by (rule mean_across_layers_Inr[OF assms, where f = py_str and g = layer_summary_json]) (simp_all add: layer_summary_json_def)

lemma group_mean_read:
  assumes "mean_spec ops"
  shows "calculate_group_ngram_mean_across_layers ops (group_ngram_json inp grp n layers) =
    Inr (mean_of (map (\<lambda>(l, st). gs_group_ngram_ratio st) layers))"
  unfolding calculate_group_ngram_mean_across_layers_def group_ngram_json_def
  by (rule mean_across_layers_Inr[OF assms, where f = "\<lambda>l. l" and g = group_stats_json]) (simp_all add: group_stats_json_def)

lemma rss_read: "calculate_rss_mean ops (rss_json n eps res) = Inr (rr_global_rss_margin res)"
  by (simp add: calculate_rss_mean_def rss_json_def)

text \<open>The share of the windows of a layer that stay on one expert.\<close>

definition loop_share :: "sequences \<Rightarrow> int \<Rightarrow> int \<Rightarrow> 'f::linordered_field" where
  "loop_share seqs n l =
     (let ws = layer_ngrams seqs n l in
      if ws = [] then 0 else of_nat (length (filter (\<lambda>w. card (set w) = 1) ws)) / of_nat (length ws))"

definition mean_loop_share :: "sequences \<Rightarrow> int \<Rightarrow> 'f::linordered_field" where
  "mean_loop_share seqs n = mean_of (map (loop_share seqs n) (py_range (max_plus_one (sequence_layers seqs))))"

lemma statistics_mean:
  assumes "1 \<le> n" and "calculate_ngram_statistics seqs n = Inr stats"
  shows "mean_of (map (\<lambda>(l, st). ns_self_loop_ratio st) stats) = mean_loop_share seqs n"
proof -
  have "ns_self_loop_ratio (layer_statistics_of seqs n l :: 'a ngram_stats) = loop_share seqs n l" for l
    by (simp add: layer_statistics_of_def stats_of_acc_def fold_count_ngram init_ngram_acc_def loop_share_def Let_def)
  then show ?thesis
    using assms(2) unfolding calculate_ngram_statistics_Inr[OF assms(1)] by (auto simp: mean_loop_share_def comp_def)
qed

section \<open>The step of the pipeline that writes the results\<close>

definition ngram_dir :: "string \<Rightarrow> int \<Rightarrow> string" where
  "ngram_dir input_dir n = input_dir @ ''/n_gram/n_gram_'' @ py_str n"

definition rss_output :: "string \<Rightarrow> int \<Rightarrow> string" where
  "rss_output input_dir v = input_dir @ ''/rss/rss_'' @ py_str v @ ''/rss.json''"

definition records_file :: "string \<Rightarrow> string" where
  "records_file input_dir = input_dir @ ''/results_all.jsonl''"

text \<open>A script that fails is reported, and the step goes on.\<close>

definition run_directory ::
  "('f, 's) host \<Rightarrow> ('f, 'g) numpy \<Rightarrow> ('f::linordered_field) agg_ops \<Rightarrow> 'f text_ops \<Rightarrow> (string \<Rightarrow> 'f token_record option)
   \<Rightarrow> string \<Rightarrow> ('s world, unit) io" where
  "run_directory h np ops tx loads input_dir w =
     (if \<not> ag_isdir ops input_dir \<or> map_of (w_files w) (records_file input_dir) = None then (Inr (), w)
      else bind_io (for_io (\<lambda>n. try_io (main_ngram h tx loads (records_file input_dir) n (ngram_dir input_dir n)) (\<lambda>_. return_io ())) n_values) (\<lambda>_.
           for_io (\<lambda>v. try_io (main_rss h np loads (records_file input_dir) (rss_output input_dir v) (Some v) v 0 42) (\<lambda>_. return_io ())) rss_values) w)"

definition run_ngram_rss ::
  "('f, 's) host \<Rightarrow> ('f, 'g) numpy \<Rightarrow> ('f::linordered_field) agg_ops \<Rightarrow> 'f text_ops \<Rightarrow> (string \<Rightarrow> 'f token_record option)
   \<Rightarrow> string list \<Rightarrow> ('s world, unit) io" where
  "run_ngram_rss h np ops tx loads input_dirs = for_io (run_directory h np ops tx loads) input_dirs"


section \<open>Paths of the results\<close>

definition dir_ok :: "string \<Rightarrow> bool" where
  "dir_ok d \<longleftrightarrow> d \<noteq> [] \<and> \<not> ends_with d ''/''"

lemma slash_split:
  assumes "plain_name b" and "plain_name b'"
  shows "a @ CHR ''/'' # b = a' @ CHR ''/'' # b' \<longleftrightarrow> a = a' \<and> b = b'"
proof
  assume eq: "a @ CHR ''/'' # b = a' @ CHR ''/'' # b'"
  have last: "basename (u @ CHR ''/'' # v) = v" if "plain_name v" for u v
    using that by (subst basename_def) (auto simp: plain_name_def takeWhile_append)
  have "b = b'" using last[OF assms(1), of a] last[OF assms(2), of a'] eq by simp
  then show "a = a' \<and> b = b'" using eq by simp
qed simp

lemma not_ends_slash: "x \<noteq> [] \<Longrightarrow> plain_name x \<Longrightarrow> \<not> ends_with (a @ x) ''/''"
  by (cases x rule: rev_cases) (auto simp: ends_with_def plain_name_def)

lemma plain_starts: "plain_name x \<Longrightarrow> \<not> starts_with x ''/''"
  by (cases x) (auto simp: plain_name_def starts_with_def)

lemma plain_consts [simp]:
  "plain_name ''n_gram''" "plain_name ''rss''" "plain_name ''rss.json''" "plain_name ''results_all.jsonl''"
  "plain_name (''n_gram_'' @ py_str n)" "plain_name (''rss_'' @ py_str n)"
  "plain_name (''n_gram_statistics_n'' @ py_str n @ ''.json'')"
  using plain_py_str by (simp_all add: plain_name_def)

lemma ngram_dir_split: "ngram_dir d n = (d @ CHR ''/'' # ''n_gram'') @ CHR ''/'' # (''n_gram_'' @ py_str n)"
  by (simp add: ngram_dir_def)

lemma rss_output_split: "rss_output d v = ((d @ CHR ''/'' # ''rss'') @ CHR ''/'' # (''rss_'' @ py_str v)) @ CHR ''/'' # ''rss.json''"
  by (simp add: rss_output_def)

lemma ngram_path: "plain_name x \<Longrightarrow> path_join (ngram_dir d n) x = ngram_dir d n @ CHR ''/'' # x"
  using not_ends_slash[of "''n_gram_'' @ py_str n" "(d @ CHR ''/'' # ''n_gram'') @ ''/''"] plain_starts[of x]
  by (simp add: path_join_def ngram_dir_split)

lemma ngram_dir_inj: "ngram_dir d n = ngram_dir e k \<longleftrightarrow> d = e \<and> n = k"
  unfolding ngram_dir_split by (simp only: slash_split plain_consts) (auto simp: inj_eq[OF inj_py_str])

lemma rss_output_inj: "rss_output d n = rss_output e k \<longleftrightarrow> d = e \<and> n = k"
  unfolding rss_output_split by (simp only: slash_split plain_consts) (auto simp: inj_eq[OF inj_py_str])

lemma ngram_rss_differ: "plain_name x \<Longrightarrow> path_join (ngram_dir d n) x \<noteq> rss_output e v"
  unfolding rss_output_split ngram_path unfolding ngram_dir_split by (simp only: slash_split plain_consts) simp

lemma ngram_paths_differ:
  "plain_name x \<Longrightarrow> plain_name y \<Longrightarrow> path_join (ngram_dir d n) x = path_join (ngram_dir e k) y \<longleftrightarrow> d = e \<and> n = k \<and> x = y"
  by (simp only: ngram_path slash_split ngram_dir_inj) auto

lemma records_differ:
  "plain_name x \<Longrightarrow> x \<noteq> ''results_all.jsonl'' \<Longrightarrow> records_file d \<noteq> path_join (ngram_dir e n) x" "records_file d \<noteq> rss_output e v"
  using slash_split[of "''results_all.jsonl''" x d "ngram_dir e n"] slash_split[of "''results_all.jsonl''" "''rss.json''" d]
  by (auto simp: ngram_path records_file_def rss_output_split)

lemma loaded_paths:
  assumes "dir_ok d"
  shows "path_join (path_join d (''n_gram/n_gram_'' @ py_str n)) (''n_gram_statistics_n'' @ py_str n @ ''.json'') = statistics_file (ngram_dir d n) n"
    and "path_join (path_join d (''rss/rss_'' @ py_str v)) ''rss.json'' = rss_output d v"
proof -
  have "\<not> starts_with (''n_gram/n_gram_'' @ py_str n) ''/''" "\<not> starts_with (''rss/rss_'' @ py_str v) ''/''" by (simp_all add: starts_with_def)
  then have j: "path_join d (''n_gram/n_gram_'' @ py_str n) = ngram_dir d n" "path_join d (''rss/rss_'' @ py_str v) = d @ ''/rss/rss_'' @ py_str v"
    using assms by (simp_all add: path_join_def dir_ok_def ngram_dir_def)
  show "path_join (path_join d (''n_gram/n_gram_'' @ py_str n)) (''n_gram_statistics_n'' @ py_str n @ ''.json'') = statistics_file (ngram_dir d n) n"
    unfolding j statistics_file_def ..
  have "\<not> ends_with (d @ ''/rss/rss_'' @ py_str v) ''/''"
    using not_ends_slash[of "''rss_'' @ py_str v" "d @ ''/rss/''"] by simp
  then show "path_join (path_join d (''rss/rss_'' @ py_str v)) ''rss.json'' = rss_output d v"
    unfolding j by (simp add: path_join_def starts_with_def rss_output_def)
qed

lemma rss_dirname: "dir_ok d \<Longrightarrow> dirname (rss_output d v) \<noteq> []"
proof -
  have "rss_output d v = (d @ ''/rss/rss_'' @ py_str v) @ ''/'' @ ''rss.json''" by (simp add: rss_output_def)
  moreover have "last (d @ ''/rss/rss_'' @ py_str v) \<noteq> CHR ''/''"
    using plain_consts(6)[of v] last_in_set[of "''rss_'' @ py_str v"] by (auto simp: plain_name_def)
  ultimately show ?thesis using dirname_simple[of "d @ ''/rss/rss_'' @ py_str v" "''rss.json''"] by simp
qed

section \<open>Running the scripts in a directory\<close>

definition ngram_sequences :: "(string \<Rightarrow> 'f token_record option) \<Rightarrow> string list \<Rightarrow> sequences" where
  "ngram_sequences loads lines = extract_request_sequences (load_jsonl_data (\<lambda>line. loads (strip line)) lines)"

definition ngram_written ::
  "('f::linordered_field, 's) host \<Rightarrow> (string \<Rightarrow> 'f token_record option) \<Rightarrow> string list \<Rightarrow> string \<Rightarrow> int \<Rightarrow> 's world \<Rightarrow> bool" where
  "ngram_written h loads lines d n w \<longleftrightarrow>
     (\<exists>stats. calculate_ngram_statistics (ngram_sequences loads lines) n = Inr stats \<and>
        map_of (w_files w) (statistics_file (ngram_dir d n) n) = Some (h_dump_indented h (statistics_json n stats)))"

definition rss_written ::
  "('f::linordered_field, 's) host \<Rightarrow> ('f, 'g) numpy \<Rightarrow> (string \<Rightarrow> 'f token_record option) \<Rightarrow> string list \<Rightarrow> string \<Rightarrow> int \<Rightarrow> 's world \<Rightarrow> bool" where
  "rss_written h np loads lines d v w \<longleftrightarrow>
     (\<exists>rs res. prepare_records np (load_jsonl_data loads lines) (Some v) (Some 42) = Inr rs \<and>
        calculate_rss_by_layer np rs v 0 (Some 42) = Inr res \<and> json_wf (rss_json v 0 res) \<and>
        map_of (w_files w) (rss_output d v) = Some (h_dump_indented h (rss_json v 0 res)))"

definition directory_written ::
  "('f::linordered_field, 's) host \<Rightarrow> ('f, 'g) numpy \<Rightarrow> (string \<Rightarrow> 'f token_record option) \<Rightarrow> string list \<Rightarrow> string \<Rightarrow> 's world \<Rightarrow> bool" where
  "directory_written h np loads lines d w \<longleftrightarrow>
     (\<forall>n \<in> set n_values. ngram_written h loads lines d n w) \<and> (\<forall>v \<in> set rss_values. rss_written h np loads lines d v w)"

lemma written_cong:
  "map_of (w_files w') (statistics_file (ngram_dir d n) n) = map_of (w_files w) (statistics_file (ngram_dir d n) n) \<Longrightarrow>
     ngram_written h loads lines d n w' = ngram_written h loads lines d n w"
  "map_of (w_files w') (rss_output d v) = map_of (w_files w) (rss_output d v) \<Longrightarrow>
     rss_written h np loads lines d v w' = rss_written h np loads lines d v w"
  by (simp_all add: ngram_written_def rss_written_def)

abbreviation ngram_turn where
  "ngram_turn h tx loads d n \<equiv> try_io (main_ngram h tx loads (records_file d) n (ngram_dir d n)) (\<lambda>_. return_io ())"

abbreviation rss_turn where
  "rss_turn h np loads d v \<equiv> try_io (main_rss h np loads (records_file d) (rss_output d v) (Some v) v 0 42) (\<lambda>_. return_io ())"

lemma ngram_turn_leaves:
  assumes "\<And>x. plain_name x \<Longrightarrow> x \<noteq> ''results_all.jsonl'' \<Longrightarrow> p \<noteq> path_join (ngram_dir d n) x"
  shows "leaves p (ngram_turn h tx loads d n)"
  by (intro leaves_try main_ngram_leaves assms leaves_simps)

lemma rss_turn_leaves: "p \<noteq> rss_output d v \<Longrightarrow> leaves p (rss_turn h np loads d v)"
  by (intro leaves_try main_rss_leaves leaves_simps)

lemma turns_leave_records: "leaves (records_file e) (ngram_turn h tx loads d n)" "leaves (records_file e) (rss_turn h np loads d v)"
  by (auto intro!: ngram_turn_leaves rss_turn_leaves simp: records_differ)

lemma statistics_name: "statistics_file (ngram_dir d n) n = path_join (ngram_dir d n) (''n_gram_statistics_n'' @ py_str n @ ''.json'')"
  by (simp add: statistics_file_def)

lemma turns_leave_statistics:
  "d \<noteq> e \<or> n \<noteq> k \<Longrightarrow> leaves (statistics_file (ngram_dir e k) k) (ngram_turn h tx loads d n)"
  "leaves (statistics_file (ngram_dir e k) k) (rss_turn h np loads d v)"
  "leaves (rss_output e u) (ngram_turn h tx loads d n)"
  "d \<noteq> e \<or> u \<noteq> v \<Longrightarrow> leaves (rss_output e u) (rss_turn h np loads d v)"
  unfolding statistics_name
  by (auto intro!: ngram_turn_leaves rss_turn_leaves
      simp: ngram_paths_differ ngram_rss_differ ngram_rss_differ[symmetric] rss_output_inj simp del: append_Cons)

lemma run_directory_leaves:
  assumes "\<And>n. leaves p (ngram_turn h tx loads d n)" and "\<And>v. leaves p (rss_turn h np loads d v)"
  shows "leaves p (run_directory h np ops tx loads d)"
proof -
  have "leaves p (bind_io (for_io (ngram_turn h tx loads d) n_values) (\<lambda>_. for_io (rss_turn h np loads d) rss_values))"
    by (intro leaves_bind leaves_for assms)
  then show ?thesis by (simp add: leaves_def run_directory_def)
qed

lemma run_directory_others:
  assumes "d \<noteq> e" and "run_directory h np ops tx loads d w = (r, w')" and "directory_written h np loads lines e w"
  shows "directory_written h np loads lines e w'"
proof -
  have st: "leaves (statistics_file (ngram_dir e k) k) (run_directory h np ops tx loads d)" "leaves (rss_output e v) (run_directory h np ops tx loads d)" for k v
    using assms(1) by (intro run_directory_leaves turns_leave_statistics; simp)+
  show ?thesis
    using assms(3) unfolding directory_written_def
    by (simp add: written_cong(1)[OF leavesD[OF st(1) assms(2)]] written_cong(2)[OF leavesD[OF st(2) assms(2)]])
qed

lemma run_directory_run:
  fixes h :: "('f::linordered_field, 's) host"
  assumes np: "choice_spec np" and d: "dir_ok d" "ag_isdir ops d" and input: "map_of (w_files w) (records_file d) = Some lines"
    and keys: "int_keys (load_jsonl_data loads lines)"
  shows "\<exists>w'. run_directory h np ops tx loads d w = (Inr (), w') \<and> directory_written h np loads lines d w'"
proof -
  let ?I = "\<lambda>w :: 's world. map_of (w_files w) (records_file d) = Some lines"
  let ?J = "\<lambda>w. ?I w \<and> (\<forall>n \<in> set n_values. ngram_written h loads lines d n w)"
  have "\<exists>w'. for_io (ngram_turn h tx loads d) n_values w = (Inr (), w') \<and> ?I w' \<and> (\<forall>n \<in> set n_values. ngram_written h loads lines d n w')"
  proof (rule for_io_each)
    fix n w assume "n \<in> set n_values" and I: "?I w"
    then have "1 \<le> n" "ngram_dir d n \<noteq> []" by (auto simp: n_values_def ngram_dir_def)
    from main_ngram_run[OF this I, of loads h tx] obtain w' where "ngram_turn h tx loads d n w = (Inr (), w')" "ngram_written h loads lines d n w'"
      by (auto simp: ngram_written_def ngram_sequences_def try_io_def)
    then show "\<exists>w'. ngram_turn h tx loads d n w = (Inr (), w') \<and> ?I w' \<and> ngram_written h loads lines d n w'"
      using leavesD[OF turns_leave_records(1), of h tx loads d n w] I by metis
  next
    fix n k w r w' assume "n \<noteq> k" "ngram_written h loads lines d n w" "ngram_turn h tx loads d k w = (r, w')"
    then show "ngram_written h loads lines d n w'" using written_cong(1) leavesD[OF turns_leave_statistics(1)] by metis
  qed (rule input)
  then obtain w1 where w1: "for_io (ngram_turn h tx loads d) n_values w = (Inr (), w1)" "?J w1" by blast
  have "\<exists>w'. for_io (rss_turn h np loads d) rss_values w1 = (Inr (), w') \<and> ?J w' \<and> (\<forall>v \<in> set rss_values. rss_written h np loads lines d v w')"
  proof (rule for_io_each)
    fix v w assume "v \<in> set rss_values" and J: "?J w"
    then have "0 \<le> v" by (auto simp: rss_values_def)
    from main_rss_run[OF np this rss_dirname[OF d(1), of v] _ keys, of w "records_file d" 42 v 0 h] J
    obtain w' where w': "rss_turn h np loads d v w = (Inr (), w')" "rss_written h np loads lines d v w'"
      by (auto simp: rss_written_def try_io_def)
    have "?J w'"
      using J by (simp add: leavesD[OF turns_leave_records(2) w'(1)] written_cong(1)[OF leavesD[OF turns_leave_statistics(2) w'(1)]])
    then show "\<exists>w'. rss_turn h np loads d v w = (Inr (), w') \<and> ?J w' \<and> rss_written h np loads lines d v w'" using w' by blast
  next
    fix u v w r w' assume "u \<noteq> v" "rss_written h np loads lines d u w" "rss_turn h np loads d v w = (r, w')"
    then show "rss_written h np loads lines d u w'" using written_cong(2) leavesD[OF turns_leave_statistics(4)] by metis
  qed (rule w1(2))
  then show ?thesis using w1 d(2) input by (auto simp: run_directory_def bind_io_def directory_written_def)
qed

lemma run_directory_skips: "\<not> ag_isdir ops d \<Longrightarrow> run_directory h np ops tx loads d w = (Inr (), w)"
  by (simp add: run_directory_def)

section \<open>The table\<close>

lemma dict_row_exact:
  assumes "map fst row = columns" and "distinct columns"
  shows "dict_row columns row = Inr (map snd row)"
proof -
  have "map (\<lambda>c. case map_of row c of None \<Rightarrow> Text [] | Some x \<Rightarrow> x) (map fst row) = map snd row"
    using assms by (auto simp: map_of_is_SomeI)
  moreover have "fst ` set row \<subseteq> set columns" using assms(1) by (metis set_map subset_refl)
  ultimately show ?thesis using assms by (simp add: dict_row_def)
qed

lemma write_table_run:
  assumes "\<forall>row \<in> set rows. map fst row = columns" and "distinct columns"
  shows "\<exists>w'. write_table tx columns rows out w = (Inr (), w') \<and>
    file_lines out w' = map (tx_row tx) (map Text columns # map (map snd) rows)"
proof -
  let ?turn = "\<lambda>row. bind_io (lift_io (dict_row columns row)) (\<lambda>cells. append_lines out [tx_row tx cells])"
  have loop: "\<exists>w'. for_io ?turn rows w = (Inr (), w') \<and> file_lines out w' = file_lines out w @ map (tx_row tx \<circ> map snd) rows" for w
    using assms(1)
  proof (induction rows arbitrary: w)
    case (Cons row rows)
    let ?w = "snd (append_lines out [tx_row tx (map snd row)] w)"
    have "dict_row columns row = Inr (map snd row)" using Cons.prems by (intro dict_row_exact assms(2)) simp
    then have "?turn row w = (Inr (), ?w)" by (simp add: io_simps append_lines_def)
    moreover have "file_lines out ?w = file_lines out w @ [tx_row tx (map snd row)]" by simp
    ultimately show ?case using Cons.IH[of ?w] Cons.prems by (auto simp: bind_io_def)
  qed (simp add: return_io_def)
  have "(if dirname out = [] then ''.'' else dirname out) \<noteq> []" by simp
  then have "makedirs (if dirname out = [] then ''.'' else dirname out) w = (Inr (), w)" by (simp only: makedirs_def return_io_def if_False)
  then show ?thesis
    using loop[of "snd (write_lines out [tx_row tx (map Text columns)] w)"]
    by (auto simp: write_table_def bind_io_def write_lines_def file_lines_def AList.update_conv')
qed

lemma metric_cells:
  assumes "\<And>n. n \<in> set ns \<Longrightarrow> \<exists>v. load n = Some v \<and> mean v = Inr (g n)"
  shows "map_res (metric_cell load mean column) ns = Inr (map (\<lambda>n. (column n, Number (g n))) ns)"
proof (rule map_res_Inr)
  fix n assume "n \<in> set ns"
  then obtain v where "load n = Some v" "mean v = Inr (g n)" using assms by blast
  then show "metric_cell load mean column n = Inr (column n, Number (g n))" by (simp add: metric_cell_def)
qed

text \<open>The margin that the script computes from a sample of the records.\<close>

definition rss_margin :: "('f::linordered_field, 'g) numpy \<Rightarrow> (string \<Rightarrow> 'f token_record option) \<Rightarrow> string list \<Rightarrow> int \<Rightarrow> 'f" where
  "rss_margin np loads lines v =
     (case prepare_records np (load_jsonl_data loads lines) (Some v) (Some 42) of
        Inr rs \<Rightarrow> (case calculate_rss_by_layer np rs v 0 (Some 42) of Inr res \<Rightarrow> rr_global_rss_margin res | Inl _ \<Rightarrow> 0)
      | Inl _ \<Rightarrow> 0)"

definition expected_row :: "('f::linordered_field, 'g) numpy \<Rightarrow> (string \<Rightarrow> 'f token_record option) \<Rightarrow> string list \<Rightarrow> string \<Rightarrow> 'f result_row" where
  "expected_row np loads lines d =
     labels d @ map (\<lambda>n. (ngram_column n, Number (mean_loop_share (ngram_sequences loads lines) n))) n_values @
     map (\<lambda>v. (rss_column v, Number (rss_margin np loads lines v))) rss_values"

lemma written_row:
  assumes codec: "file_codec h" and mean: "mean_spec ops" and d: "dir_ok d" and w: "directory_written h np loads lines d w"
  shows "results_row h ops w d = Inr (expected_row np loads lines d)"
proof -
  have ng: "\<exists>v. load_ngram_statistics h d n w = Some v \<and>
      calculate_ngram_mean_across_layers ops v = Inr (mean_loop_share (ngram_sequences loads lines) n)" if mem: "n \<in> set n_values" for n
  proof -
    have n: "1 \<le> n" using mem by (auto simp: n_values_def)
    obtain stats where stats: "calculate_ngram_statistics (ngram_sequences loads lines) n = Inr stats"
      "map_of (w_files w) (statistics_file (ngram_dir d n) n) = Some (h_dump_indented h (statistics_json n stats))"
      using bspec[OF conjunct1[OF w[unfolded directory_written_def]] mem] unfolding ngram_written_def by blast
    have "load_ngram_statistics h d n w = Some (statistics_json n stats)"
      using load_written[OF codec calculated_statistics_wf[OF n stats(1), unfolded statistics_json_def], folded statistics_json_def] stats(2)
      by (simp only: load_ngram_statistics_def loaded_paths[OF d])
    then show ?thesis using ngram_mean_read[OF mean, of n stats] statistics_mean[OF n stats(1)] by simp
  qed
  have rss: "\<exists>x. load_rss_results h d v w = Some x \<and> calculate_rss_mean ops x = Inr (rss_margin np loads lines v)" if mem: "v \<in> set rss_values" for v
  proof -
    obtain rs res where res: "prepare_records np (load_jsonl_data loads lines) (Some v) (Some 42) = Inr rs"
      "calculate_rss_by_layer np rs v 0 (Some 42) = Inr res" "json_wf (rss_json v 0 res)"
      "map_of (w_files w) (rss_output d v) = Some (h_dump_indented h (rss_json v 0 res))"
      using bspec[OF conjunct2[OF w[unfolded directory_written_def]] mem] unfolding rss_written_def by blast
    have "load_rss_results h d v w = Some (rss_json v 0 res)"
      using load_written[OF codec res(3)[unfolded rss_json_def], folded rss_json_def] res(4)
      by (simp only: load_rss_results_def loaded_paths[OF d])
    then show ?thesis using res(1,2) rss_read[of ops v 0 res] by (simp add: rss_margin_def)
  qed
  have "map_res (metric_cell (\<lambda>n. load_ngram_statistics h d n w) (calculate_ngram_mean_across_layers ops) ngram_column) n_values =
      Inr (map (\<lambda>n. (ngram_column n, Number (mean_loop_share (ngram_sequences loads lines) n))) n_values)"
    by (intro metric_cells ng)
  moreover have "map_res (metric_cell (\<lambda>v. load_rss_results h d v w) (calculate_rss_mean ops) rss_column) rss_values =
      Inr (map (\<lambda>v. (rss_column v, Number (rss_margin np loads lines v))) rss_values)"
    by (intro metric_cells rss)
  ultimately show ?thesis by (simp add: results_row_def expected_row_def)
qed

lemma columns_distinct:
  "distinct ([''directory'', ''full_path''] @ map ngram_column n_values @ map rss_column rss_values)"
  "distinct ([''directory'', ''full_path''] @ map group_column n_values)"
  by code_simp+

text \<open>
  (C25) From the token records to the table of results: after the n-gram and RSS step of the pipeline the
  aggregation writes one row for each directory that exists, and in it the mean over the layers of the share
  of token windows that stay on one expert, for windows of 2, 5, 10 and 20 tokens, and the mean margin
  over samples of 500, 1000 and 2000 records.
\<close>

theorem results_aggregated:
  fixes h :: "('f::linordered_field, 's) host"
  assumes codec: "file_codec h" and mean: "mean_spec ops" and np: "choice_spec np"
    and dirs: "\<forall>d \<in> set dirs. ag_isdir ops d \<longrightarrow> dir_ok d \<and> map_of (w_files w) (records_file d) = Some (lines d) \<and>
      int_keys (load_jsonl_data loads (lines d))"
  shows "\<exists>w' w''. run_ngram_rss h np ops tx loads dirs w = (Inr (), w') \<and> aggregate_results h ops tx dirs out w' = (Inr (), w'') \<and>
    file_lines out w'' =
      tx_row tx (map Text ([''directory'', ''full_path''] @ map ngram_column n_values @ map rss_column rss_values)) #
      map (\<lambda>d. tx_row tx ([Text (extract_dir_name d), Text d] @
                  map (\<lambda>n. Number (mean_loop_share (ngram_sequences loads (lines d)) n)) n_values @
                  map (\<lambda>v. Number (rss_margin np loads (lines d) v)) rss_values))
        (filter (ag_isdir ops) dirs)"
proof -
  let ?I = "\<lambda>w :: 's world. \<forall>d \<in> set dirs. ag_isdir ops d \<longrightarrow> map_of (w_files w) (records_file d) = Some (lines d)"
  let ?P = "\<lambda>d w. ag_isdir ops d \<longrightarrow> directory_written h np loads (lines d) d w"
  have "\<exists>w'. for_io (run_directory h np ops tx loads) dirs w = (Inr (), w') \<and> ?I w' \<and> (\<forall>d \<in> set dirs. ?P d w')"
  proof (rule for_io_each)
    fix d w assume d: "d \<in> set dirs" and I: "?I w"
    obtain w' where w': "run_directory h np ops tx loads d w = (Inr (), w')" "?P d w'"
      using run_directory_run[OF np, of d ops w "lines d" loads h tx] run_directory_skips[of ops d h np tx loads w] d I dirs by (cases "ag_isdir ops d") auto
    have keep: "leaves (records_file e) (run_directory h np ops tx loads d)" for e by (intro run_directory_leaves turns_leave_records)
    have "?I w'" using I by (simp add: leavesD[OF keep w'(1)])
    then show "\<exists>w'. run_directory h np ops tx loads d w = (Inr (), w') \<and> ?I w' \<and> ?P d w'" using w' by blast
  next
    fix d e w r w' assume "d \<noteq> e" "?P d w" "run_directory h np ops tx loads e w = (r, w')"
    then show "?P d w'" using run_directory_others by metis
  qed (use dirs in blast)
  then obtain w' where w': "run_ngram_rss h np ops tx loads dirs w = (Inr (), w')" "\<forall>d \<in> set dirs. ?P d w'" by (auto simp: run_ngram_rss_def)
  let ?row = "\<lambda>d. expected_row np loads (lines d) d"
  have "map_res (results_row h ops w') (filter (ag_isdir ops) dirs) = Inr (map ?row (filter (ag_isdir ops) dirs))"
    using w'(2) dirs by (intro map_res_Inr written_row[OF codec mean]) auto
  moreover have "\<forall>row \<in> set (map ?row (filter (ag_isdir ops) dirs)).
      map fst row = [''directory'', ''full_path''] @ map ngram_column n_values @ map rss_column rss_values"
    by (auto simp: expected_row_def labels_def comp_def)
  from write_table_run[OF this columns_distinct(1), of tx out w'] obtain w'' where
    "write_table tx ([''directory'', ''full_path''] @ map ngram_column n_values @ map rss_column rss_values)
       (map ?row (filter (ag_isdir ops) dirs)) out w' = (Inr (), w'')"
    "file_lines out w'' = map (tx_row tx) (map Text ([''directory'', ''full_path''] @ map ngram_column n_values @ map rss_column rss_values) #
       map (map snd) (map ?row (filter (ag_isdir ops) dirs)))" by blast
  moreover have "map snd (?row d) = [Text (extract_dir_name d), Text d] @
      map (\<lambda>n. Number (mean_loop_share (ngram_sequences loads (lines d)) n)) n_values @ map (\<lambda>v. Number (rss_margin np loads (lines d) v)) rss_values" for d
    by (simp add: expected_row_def labels_def comp_def)
  ultimately have "aggregate_results h ops tx dirs out w' = (Inr (), w'')" "file_lines out w'' =
      tx_row tx (map Text ([''directory'', ''full_path''] @ map ngram_column n_values @ map rss_column rss_values)) #
      map (\<lambda>d. tx_row tx ([Text (extract_dir_name d), Text d] @
                  map (\<lambda>n. Number (mean_loop_share (ngram_sequences loads (lines d)) n)) n_values @
                  map (\<lambda>v. Number (rss_margin np loads (lines d) v)) rss_values)) (filter (ag_isdir ops) dirs)"
    by (simp_all only: aggregate_results_def bind_io_def lift_io_def list.map map_map comp_def prod.case sum.case)
  then show ?thesis using w'(1) by blast
qed

section \<open>The group metrics\<close>

text \<open>
  From the token records to the table of group metrics: after \<^verbatim>\<open>compute_expert_metrics.py\<close> has written its results to
  the directory \<^verbatim>\<open>expert_group_routing\<close>, the row of the second aggregation holds, for every window size, the mean over
  the layers of the share of the windows that stay inside the group of selected experts.
\<close>

theorem group_metrics_aggregated:
  fixes h :: "('f::linordered_field, 's) host"
  assumes codec: "file_codec h" and mean: "mean_spec ops" and m: "m \<noteq> Topk None"
    and input: "map_of (w_files w) inp = Some lines" and ne: "load_jsonl_data loads lines \<noteq> []"
  shows "\<exists>w'. main_metrics_files h tx loads inp m n_values (path_join d ''expert_group_routing'') w = (Inr (), w') \<and>
    group_results_row h ops w' d = Inr (labels d @ map (\<lambda>n. (group_column n,
        Number (mean_of (map (\<lambda>(l, st). gs_group_ngram_ratio st) (group_layers m (load_jsonl_data loads lines) n))))) n_values)"
proof -
  let ?dir = "path_join d ''expert_group_routing''" and ?layers = "group_layers m (load_jsonl_data loads lines)"
  let ?json = "\<lambda>n. group_ngram_json inp (path_join ?dir ''expert_group_routing.json'') n (?layers n)"
  have "?dir \<noteq> []" by (simp add: path_join_def)
  from main_metrics_files_run[OF m this input ne, of h tx n_values] obtain w' where
    run: "main_metrics_files h tx loads inp m n_values ?dir w = (Inr (), w')"
    and files: "\<forall>n \<in> set n_values. map_of (w_files w') (group_ngram_file ?dir n) = Some (h_dump_indented h (?json n))" by blast
  have cell: "\<exists>v. load_expert_group_ngram h d n w' = Some v \<and>
      calculate_group_ngram_mean_across_layers ops v = Inr (mean_of (map (\<lambda>(l, st). gs_group_ngram_ratio st) (?layers n)))"
    if "n \<in> set n_values" for n
  proof -
    have "load_json h (group_ngram_file ?dir n) w' = Some (?json n)"
      using load_written[OF codec group_ngram_json_wf[OF group_layers_distinct, unfolded group_ngram_json_def], folded group_ngram_json_def] files that
      by blast
    then have "load_expert_group_ngram h d n w' = Some (?json n)"
      using files that by (simp add: load_expert_group_ngram_def group_ngram_file_def)
    then show ?thesis using group_mean_read[OF mean] by blast
  qed
  have "map_res (metric_cell (\<lambda>n. load_expert_group_ngram h d n w') (calculate_group_ngram_mean_across_layers ops) group_column) n_values =
      Inr (map (\<lambda>n. (group_column n, Number (mean_of (map (\<lambda>(l, st). gs_group_ngram_ratio st) (?layers n))))) n_values)"
    by (intro metric_cells cell)
  then show ?thesis using run by (simp add: group_results_row_def)
qed

section \<open>The array of a shell script\<close>

text \<open>The way the array is written: one path in double quotes per line.\<close>

definition array_lines :: "string list \<Rightarrow> string list" where
  "array_lines paths = [''INPUT_DIRS=(''] @ map (\<lambda>p. [CHR 0x22] @ p @ [CHR 0x22]) paths @ ['')'']"

definition plain_path :: "string \<Rightarrow> bool" where
  "plain_path p \<longleftrightarrow> p \<noteq> [] \<and> set p \<inter> {CHR 0x0A, CHR 0x22, CHR 0x27, CHR '')''} = {} \<and> last p \<noteq> CHR '',''"

lemma split_lines_join: "\<forall>l \<in> set (l # ls). CHR 0x0A \<notin> set l \<Longrightarrow> split_lines (join_with [CHR 0x0A] (l # ls)) = l # ls"
proof (induction ls arbitrary: l)
  case Nil
  have "CHR 0x0A \<notin> set l \<Longrightarrow> split_lines l = [l]" for l by (induction l) auto
  then show ?case using Nil by simp
next
  case (Cons l' ls)
  have "CHR 0x0A \<notin> set l \<Longrightarrow> split_lines (l @ CHR 0x0A # s) = l # split_lines s" for l s by (induction l) auto
  then show ?case using Cons by simp
qed

lemma set_join_with: "set (join_with sep ls) \<subseteq> set sep \<union> (\<Union>l \<in> set ls. set l)"
  by (induction sep ls rule: join_with.induct) auto

lemma array_path_quoted:
  assumes "plain_path p"
  shows "array_path ([CHR 0x22] @ p @ [CHR 0x22]) = [p]"
proof -
  let ?l = "[CHR 0x22] @ p @ [CHR 0x22]"
  have p: "p \<noteq> []" "CHR 0x22 \<notin> set p" "CHR 0x27 \<notin> set p" "last p \<noteq> CHR '',''" using assms by (auto simp: plain_path_def)
  have s: "strip ?l = ?l" by (rule strip_no_space) (simp_all add: is_space_def)
  have drop: "dropWhile (\<lambda>x. x = c) q = q" if "c \<notin> set q" for c and q :: string using that by (cases q) auto
  have c1: "strip_char (CHR 0x22) ?l = p"
    using drop[of "CHR 0x22" "p @ [CHR 0x22]"] drop[of "CHR 0x22" "rev p"] p
    by (cases p) (auto simp: strip_char_def lstrip_char_def rstrip_char_def)
  have c2: "strip_char (CHR 0x27) p = p" "rstrip_char (CHR '','') p = p"
    using drop[of "CHR 0x27" p] drop[of "CHR 0x27" "rev p"] p
    by (cases p rule: rev_cases; simp add: strip_char_def lstrip_char_def rstrip_char_def)+
  have "\<not> starts_with ?l ''#''" by (simp add: starts_with_def)
  then show ?thesis unfolding array_path_def s Let_def c1 c2 using p(1) by simp
qed

text \<open>With a comma after the closing quote, the quote stays in the path.\<close>

lemma array_path_comma:
  assumes "plain_path p"
  shows "array_path ([CHR 0x22] @ p @ [CHR 0x22, CHR '','']) = [p @ [CHR 0x22]]"
proof -
  let ?l = "[CHR 0x22] @ p @ [CHR 0x22, CHR '','']"
  have p: "p \<noteq> []" "CHR 0x22 \<notin> set p" "CHR 0x27 \<notin> set p" using assms by (auto simp: plain_path_def)
  have s: "strip ?l = ?l" by (rule strip_no_space) (simp_all add: is_space_def)
  have "strip_char (CHR 0x22) ?l = p @ [CHR 0x22, CHR '','']" "strip_char (CHR 0x27) (p @ [CHR 0x22, CHR '','']) = p @ [CHR 0x22, CHR '','']"
    "rstrip_char (CHR '','') (p @ [CHR 0x22, CHR '','']) = p @ [CHR 0x22]"
    using p by (cases p; auto simp: strip_char_def lstrip_char_def rstrip_char_def)+
  moreover have "\<not> starts_with ?l ''#''" by (simp add: starts_with_def)
  ultimately show ?thesis unfolding array_path_def s Let_def by simp
qed

text \<open>Lines without the name of the array are skipped.\<close>

lemma starts_with_line:
  assumes "starts_with (l @ CHR 0x0A # s) t" and "CHR 0x0A \<notin> set t"
  shows "starts_with l t"
proof -
  have "length t \<le> length l"
  proof (rule ccontr)
    assume "\<not> length t \<le> length l"
    then have "CHR 0x0A \<in> set (take (length t) (l @ CHR 0x0A # s))"
      by (auto simp: take_Cons' Suc_diff_le)
    then show False using assms by (simp only: starts_with_def)
  qed
  then show ?thesis using assms(1) by (simp add: starts_with_def)
qed

lemma search_skips_line: "\<not> substring ''INPUT_DIRS'' l \<Longrightarrow> search_array (l @ CHR 0x0A # s) = search_array s"
proof (induction l)
  case Nil
  then show ?case by (simp add: match_array_def starts_with_def)
next
  case (Cons c l)
  have "\<not> starts_with (c # l) ''INPUT_DIRS''" using Cons.prems by (simp add: starts_with_def)
  then have "match_array ((c # l) @ CHR 0x0A # s) = None"
    using starts_with_line[of "c # l" s "''INPUT_DIRS''"] by (auto simp: match_array_def)
  then show ?case using Cons by simp
qed

lemma search_skips:
  assumes "\<forall>l \<in> set pre. \<not> substring ''INPUT_DIRS'' l" and "ls \<noteq> []"
  shows "search_array (file_text (pre @ ls)) = search_array (file_text ls)"
  using assms(1)
proof (induction pre)
  case (Cons l pre)
  have "file_text ((l # pre) @ ls) = l @ CHR 0x0A # file_text (pre @ ls)"
    using assms(2) by (cases "pre @ ls") (auto simp: file_text_def)
  then show ?case using Cons search_skips_line[of l] by simp
qed simp

text \<open>
  (C32) Reading the directories of a shell script: an array with one quoted path per line, anywhere after text that
  does not mention \<^verbatim>\<open>INPUT_DIRS\<close>, gives back these paths in order, as long as they contain no quotes, line breaks or
  closing parentheses and do not end in a comma. The paths are taken literally: variables in them are not expanded.
\<close>

theorem batch_call_roundtrip:
  assumes "\<forall>p \<in> set paths. plain_path p" and "map_of (w_files w) f = Some (pre @ array_lines paths @ rest)"
    and "\<forall>l \<in> set pre. \<not> substring ''INPUT_DIRS'' l"
  shows "parse_input_dirs_from_batch_call f w = paths"
proof -
  let ?ls = "map (\<lambda>p. [CHR 0x22] @ p @ [CHR 0x22]) paths"
  let ?body = "join_with [CHR 0x0A] ([] # ?ls @ [[]])"
  obtain tl where content: "file_text (array_lines paths @ rest) = ''INPUT_DIRS=('' @ ?body @ CHR '')'' # tl"
  proof -
    have "join_with [CHR 0x0A] (xs @ [a @ b] @ ys) = join_with [CHR 0x0A] (xs @ [a]) @ b @ (if ys = [] then [] else CHR 0x0A # join_with [CHR 0x0A] ys)"
      for xs ys and a b :: string
    proof (induction xs)
      case Nil
      then show ?case by (cases ys) auto
    next
      case (Cons x xs)
      then show ?case by (cases xs) auto
    qed
    from this[of "''INPUT_DIRS=('' # ?ls" "[]" "'')''" rest] that show thesis
      by (cases ?ls) (auto simp: file_text_def array_lines_def)
  qed
  have "CHR '')'' \<notin> set ?body"
  proof
    assume "CHR '')'' \<in> set ?body"
    then have "CHR '')'' \<in> set [CHR 0x0A] \<union> (\<Union>l \<in> set ([] # ?ls @ [[]]). set l)" by (rule subsetD[OF set_join_with])
    then show False using assms(1) by (auto simp: plain_path_def split: if_splits)
  qed
  then have "takeWhile (\<lambda>c. c \<noteq> CHR '')'') (?body @ CHR '')'' # tl) = ?body" by (subst takeWhile_append2) auto
  then have "match_array (''INPUT_DIRS=('' @ ?body @ CHR '')'' # tl) = Some ?body"
    by (simp add: match_array_def starts_with_def lstrip_def is_space_def del: join_with.simps)
  then have search: "search_array (file_text (array_lines paths @ rest)) = Some ?body" unfolding content by simp
  have "split_lines ?body = [] # ?ls @ [[]]"
    using assms(1) by (intro split_lines_join) (auto simp: plain_path_def)
  moreover have "concat (map array_path ?ls) = paths"
    using assms(1) array_path_quoted by (induction paths) auto
  moreover have "array_path [] = []" by (simp add: array_path_def strip_def)
  moreover have "search_array (file_text (pre @ array_lines paths @ rest)) = Some ?body"
    using search_skips[OF assms(3), of "array_lines paths @ rest"] search by (simp add: array_lines_def)
  ultimately show ?thesis using assms(2) by (simp add: parse_input_dirs_from_batch_call_def)
qed

section \<open>Examples\<close>

definition file_host :: "(rat, unit) host" where
  "file_host = \<lparr>h_request = (\<lambda>_ _ _ s. (RequestException, s)), h_time = (\<lambda>s. (0, s)), h_loads = example_loads, h_dumps = example_dumps,
     h_dump_indented = (\<lambda>v. [example_dumps v]), h_str = (\<lambda>_. ''error'')\<rparr>"

fun numbers :: "'f json list \<Rightarrow> 'f list option" where
  "numbers [] = Some []"
| "numbers (JNum x # vs) = map_option ((#) x) (numbers vs)"
| "numbers _ = None"

definition example_ops :: "rat agg_ops" where
  "example_ops = \<lparr>ag_isdir = (\<lambda>d. d = ''data/a''),
     ag_mean = (\<lambda>vs. case numbers vs of None \<Rightarrow> Inl TypeError | Some xs \<Rightarrow> Inr (sum_list xs / of_nat (length xs))),
     ag_float_str = (\<lambda>_. Inl ValueError)\<rparr>"

definition example_tx :: "rat text_ops" where
  "example_tx = \<lparr>tx_row = (\<lambda>cells. join_with '','' (map (\<lambda>c. case c of Text s \<Rightarrow> s | _ \<Rightarrow> ''number'') cells)), tx_fixed6 = (\<lambda>_. ''0.0'')\<rparr>"

definition example_line :: "string \<Rightarrow> rat token_record option" where
  "example_line s = (if s = ''t'' then Some (hd rss_example) else None)"

lemma example_file_specs: "file_codec file_host" "mean_spec example_ops"
proof -
  show "file_codec file_host" by (simp add: file_codec_def file_host_def file_text_def example_codec)
  have "numbers (map JNum xs) = Some xs" for xs :: "rat list" by (induction xs) auto
  then show "mean_spec example_ops" by (simp add: mean_spec_def example_ops_def)
qed

definition example_files :: "unit world" where
  "example_files = \<lparr>w_outside = (), w_files = [(''data/a/results_all.jsonl'', [''t''])]\<rparr>"

theorem results_aggregated_witness:
  "\<exists>w' w''. run_ngram_rss file_host example_numpy example_ops example_tx example_line [''data/a'', ''missing''] example_files = (Inr (), w') \<and>
     aggregate_results file_host example_ops example_tx [''data/a'', ''missing''] ''summary.csv'' w' = (Inr (), w'') \<and>
     length (file_lines ''summary.csv'' w'') = 2"
proof -
  have "\<forall>d \<in> set [''data/a'', ''missing'']. ag_isdir example_ops d \<longrightarrow> dir_ok d \<and>
      map_of (w_files example_files) (records_file d) = Some [''t''] \<and> int_keys (load_jsonl_data example_line [''t''])"
    by (simp add: example_ops_def dir_ok_def ends_with_def records_file_def example_files_def int_keys_def strip_def is_space_def
        example_line_def rss_example_def py_int_def digit_val_def)
  from results_aggregated[OF example_file_specs example_numpy_specs(1) this, of example_tx "''summary.csv''"]
  obtain w' w'' where "run_ngram_rss file_host example_numpy example_ops example_tx example_line [''data/a'', ''missing''] example_files = (Inr (), w')"
    "aggregate_results file_host example_ops example_tx [''data/a'', ''missing''] ''summary.csv'' w' = (Inr (), w'')"
    "length (file_lines ''summary.csv'' w'') = Suc (length (filter (ag_isdir example_ops) [''data/a'', ''missing'']))" by auto
  moreover have "length (filter (ag_isdir example_ops) [''data/a'', ''missing'']) = 1" by (simp add: example_ops_def)
  ultimately show ?thesis by auto
qed

theorem group_metrics_aggregated_witness:
  "\<exists>w'. main_metrics_files file_host example_tx example_line ''data/a/results_all.jsonl'' (Threshold (1 / 2)) n_values
        ''data/a/expert_group_routing'' example_files = (Inr (), w') \<and>
     (\<exists>row. group_results_row file_host example_ops w' ''data/a'' = Inr row)"
proof -
  have "map_of (w_files example_files) ''data/a/results_all.jsonl'' = Some [''t'']" "load_jsonl_data example_line [''t''] \<noteq> []"
    by (simp_all add: example_files_def strip_def is_space_def example_line_def)
  moreover have "path_join ''data/a'' ''expert_group_routing'' = ''data/a/expert_group_routing''" by code_simp
  ultimately show ?thesis
    using group_metrics_aggregated[OF example_file_specs, of "Threshold (1 / 2)" example_files "''data/a/results_all.jsonl''" "[''t'']" example_line
        example_tx "''data/a''"] by auto
qed

theorem batch_call_roundtrip_witness:
  "parse_input_dirs_from_batch_call ''config.sh''
     \<lparr>w_outside = (), w_files = [(''config.sh'', [''THRESHOLD=0.85'', ''INPUT_DIRS=('', [CHR 0x22] @ ''data/a'' @ [CHR 0x22], '')''])]\<rparr> = [''data/a'']"
proof -
  have "\<forall>p \<in> set [''data/a'']. plain_path p" "\<forall>l \<in> set [''THRESHOLD=0.85'']. \<not> substring ''INPUT_DIRS'' l"
    by (simp_all add: plain_path_def)
  then show ?thesis
    using batch_call_roundtrip[of "[''data/a'']" "\<lparr>w_outside = (), w_files = [(''config.sh'',
        [''THRESHOLD=0.85'', ''INPUT_DIRS=('', [CHR 0x22] @ ''data/a'' @ [CHR 0x22], '')''])]\<rparr>" "''config.sh''" "[''THRESHOLD=0.85'']" "[]"]
    by (simp add: array_lines_def)
qed

end
