(* ===== verification/Kv_Allocator.thy ===== *)
theory Kv_Allocator
  imports Prelude
begin

text \<open>
  The allocators of slots in the KV cache (\<^verbatim>\<open>sglang/srt/mem_cache/allocator.py\<close>): one slot per token, pages of
  slots, and the pair of allocators for models with sliding-window attention.

  A tensor of indices is a list of integers. A Triton program is the list of its stores; the programs of a
  launch run in an order that is an argument, and so are the values of lanes that a mask excludes, the
  contents of fresh memory and what lies behind the end of a tensor.
\<close>

section \<open>State\<close>

record allocator =
  al_size :: nat
  al_page_size :: nat
  al_need_sort :: bool
  al_free_pages :: "int list"
  al_release_pages :: "int list"
  al_is_not_in_free_group :: bool
  al_free_group :: "int list list"

definition allocator_init :: "nat \<Rightarrow> nat \<Rightarrow> bool \<Rightarrow> allocator" where
  "allocator_init pool_size page_size need_sort =
     \<lparr>al_size = pool_size, al_page_size = page_size, al_need_sort = need_sort, al_free_pages = [], al_release_pages = [],
      al_is_not_in_free_group = True, al_free_group = []\<rparr>"

definition available_size :: "('z) allocator_scheme \<Rightarrow> nat" where
  "available_size a = (length (al_free_pages a) + length (al_release_pages a)) * al_page_size a"

definition backup_state :: "('z) allocator_scheme \<Rightarrow> int list \<times> int list" where
  "backup_state a = (al_free_pages a, al_release_pages a)"

definition restore_state :: "int list \<times> int list \<Rightarrow> ('z) allocator_scheme \<Rightarrow> ('z) allocator_scheme" where
  "restore_state state a = a\<lparr>al_free_pages := fst state, al_release_pages := snd state\<rparr>"

definition free_group_begin :: "('z) allocator_scheme \<Rightarrow> ('z) allocator_scheme" where
  "free_group_begin a = a\<lparr>al_is_not_in_free_group := False, al_free_group := []\<rparr>"

text \<open>\<open>free\<close> is the method of the class.\<close>

definition free_group_end ::
  "(int list \<Rightarrow> ('z) allocator_scheme \<Rightarrow> ('z) allocator_scheme result) \<Rightarrow> ('z) allocator_scheme \<Rightarrow> ('z) allocator_scheme result" where
  "free_group_end free a =
     (let a' = a\<lparr>al_is_not_in_free_group := True\<rparr> in
      if al_free_group a' \<noteq> [] then free (concat (al_free_group a')) a' else Inr a')"

definition merge_and_sort_free :: "('z) allocator_scheme \<Rightarrow> ('z) allocator_scheme" where
  "merge_and_sort_free a =
     (if 0 < length (al_release_pages a)
      then a\<lparr>al_free_pages := sort (al_free_pages a @ al_release_pages a), al_release_pages := []\<rparr> else a)"

section \<open>One slot per token\<close>

definition token_clear :: "allocator \<Rightarrow> allocator" where
  "token_clear a = a\<lparr>al_free_pages := [1..int (al_size a)], al_is_not_in_free_group := True, al_free_group := [], al_release_pages := []\<rparr>"

definition token_init :: "nat \<Rightarrow> bool \<Rightarrow> allocator" where
  "token_init pool_size need_sort = token_clear (allocator_init pool_size 1 need_sort)"

definition token_available_size :: "allocator \<Rightarrow> nat" where
  "token_available_size a = length (al_free_pages a) + length (al_release_pages a)"

definition token_alloc :: "nat \<Rightarrow> allocator \<Rightarrow> int list option \<times> allocator" where
  "token_alloc need_size a =
     (let a = (if al_need_sort a \<and> need_size > length (al_free_pages a) then merge_and_sort_free a else a) in
      if need_size > length (al_free_pages a) then (None, a)
      else (Some (take need_size (al_free_pages a)), a\<lparr>al_free_pages := drop need_size (al_free_pages a)\<rparr>))"

definition token_free :: "int list \<Rightarrow> allocator \<Rightarrow> allocator result" where
  "token_free free_index a =
     Inr (if free_index = [] then a
          else if al_is_not_in_free_group a then
            if al_need_sort a then a\<lparr>al_release_pages := al_release_pages a @ free_index\<rparr>
            else a\<lparr>al_free_pages := al_free_pages a @ free_index\<rparr>
          else a\<lparr>al_free_group := al_free_group a @ [free_index]\<rparr>)"

section \<open>Sliding-window attention\<close>

text \<open>
  The class inherits the free group; it sets the inherited \<open>free_pages\<close> and \<open>release_pages\<close> to \<^verbatim>\<open>None\<close> and never
  reads them (empty lists here).
\<close>

record swa_allocator = allocator +
  sw_full :: allocator
  sw_swa :: allocator
  sw_mapping :: "int list"

definition swa_clear :: "swa_allocator \<Rightarrow> swa_allocator" where
  "swa_clear s = s\<lparr>sw_swa := token_clear (sw_swa s), sw_full := token_clear (sw_full s),
     sw_mapping := replicate (length (sw_mapping s)) 0, al_is_not_in_free_group := True, al_free_group := []\<rparr>"

text \<open>\<open>fresh\<close> is the memory that \<^verbatim>\<open>torch.empty\<close> returns.\<close>

definition swa_init :: "(nat \<Rightarrow> int list) \<Rightarrow> nat \<Rightarrow> nat \<Rightarrow> bool \<Rightarrow> swa_allocator" where
  "swa_init fresh pool_size size_swa need_sort =
     swa_clear (allocator.extend (allocator_init pool_size 1 need_sort)
       \<lparr>sw_full = token_init pool_size need_sort, sw_swa = token_init size_swa need_sort,
        sw_mapping = fresh (pool_size + size_swa + 1)\<rparr>)"

definition full_available_size :: "swa_allocator \<Rightarrow> nat" where
  "full_available_size s = token_available_size (sw_full s)"

definition swa_available_size :: "swa_allocator \<Rightarrow> nat" where
  "swa_available_size s = token_available_size (sw_swa s)"

text \<open>\<^verbatim>\<open>mapping[index] = values\<close>.\<close>

definition scatter_index :: "int list \<Rightarrow> (int \<times> int) list \<Rightarrow> int list result" where
  "scatter_index mapping ivs =
     fold_res (\<lambda>(i, v) m. bind_res (py_index (length m) i) (\<lambda>k. Inr (m[k := v]))) ivs mapping"

text \<open>The result is cast to 32 bits in the code, which changes nothing for slots below \<open>2 ^ 31\<close>; the cast is left out.\<close>

definition translate_loc_from_full_to_swa :: "swa_allocator \<Rightarrow> int list \<Rightarrow> int list result" where
  "translate_loc_from_full_to_swa s kv_indices = map_res (py_nth (sw_mapping s)) kv_indices"

text \<open>
  An assignment through the index \<^verbatim>\<open>None\<close> writes the whole mapping, when the values can be broadcast to it; an
  assignment of \<^verbatim>\<open>None\<close> raises.
\<close>

definition assign_mapping :: "int list \<Rightarrow> int list option \<Rightarrow> int list option \<Rightarrow> int list result" where
  "assign_mapping mapping index vals =
     (case (index, vals) of
        (_, None) \<Rightarrow> Inl TypeError
      | (Some ix, Some vs) \<Rightarrow> scatter_index mapping (zip ix vs)
      | (None, Some vs) \<Rightarrow>
          if length vs = 1 then Inr (replicate (length mapping) (hd vs))
          else if length vs = length mapping then Inr vs else Inl RuntimeError)"

definition swa_alloc :: "nat \<Rightarrow> swa_allocator \<Rightarrow> (int list option \<times> swa_allocator) result" where
  "swa_alloc need_size s =
     (if need_size > token_available_size (sw_full s) then Inr (None, s)
      else if need_size > token_available_size (sw_swa s) then Inr (None, s)
      else let (alloc_full_indices, full') = token_alloc need_size (sw_full s);
               (alloc_swa_indices, swa') = token_alloc need_size (sw_swa s) in
        bind_res (assign_mapping (sw_mapping s) alloc_full_indices alloc_swa_indices) (\<lambda>m.
        Inr (alloc_full_indices, s\<lparr>sw_full := full', sw_swa := swa', sw_mapping := m\<rparr>)))"

definition free_swa :: "int list \<Rightarrow> swa_allocator \<Rightarrow> swa_allocator result" where
  "free_swa free_index s =
     bind_res (map_res (py_nth (sw_mapping s)) free_index) (\<lambda>swa_indices.
     bind_res (token_free (filter (\<lambda>i. i > 0) swa_indices) (sw_swa s)) (\<lambda>swa'.
     bind_res (scatter_index (sw_mapping s) (map (\<lambda>i. (i, 0)) free_index)) (\<lambda>m.
     Inr (s\<lparr>sw_swa := swa', sw_mapping := m\<rparr>))))"

definition swa_free :: "int list \<Rightarrow> swa_allocator \<Rightarrow> swa_allocator result" where
  "swa_free free_index s =
     (if free_index = [] then Inr s
      else bind_res (if al_is_not_in_free_group s
                     then bind_res (token_free free_index (sw_full s)) (\<lambda>full'. free_swa free_index (s\<lparr>sw_full := full'\<rparr>))
                     else Inr (s\<lparr>al_free_group := al_free_group s @ [free_index]\<rparr>)) (\<lambda>s'.
           py_assert (token_available_size (sw_full s') \<le> al_size (sw_full s'))
             (py_assert (token_available_size (sw_swa s') \<le> al_size (sw_swa s')) (Inr s'))))"

definition swa_backup_state :: "swa_allocator \<Rightarrow> (int list \<times> int list) list" where
  "swa_backup_state s = [backup_state (sw_full s), backup_state (sw_swa s)]"

definition swa_restore_state :: "(int list \<times> int list) list \<Rightarrow> swa_allocator \<Rightarrow> swa_allocator result" where
  "swa_restore_state state s =
     py_assert (length state = 2)
       (Inr (s\<lparr>sw_full := restore_state (state ! 0) (sw_full s), sw_swa := restore_state (state ! 1) (sw_swa s)\<rparr>))"

section \<open>Pages\<close>

record paged_allocator = allocator +
  pg_num_pages :: nat
  pg_debug_mode :: bool
  pg_seen_max_num_extend_tokens :: nat

definition paged_clear :: "paged_allocator \<Rightarrow> paged_allocator" where
  "paged_clear a = a\<lparr>al_free_pages := [1..int (pg_num_pages a)], al_is_not_in_free_group := True, al_free_group := [], al_release_pages := []\<rparr>"

definition paged_init :: "nat \<Rightarrow> nat \<Rightarrow> bool \<Rightarrow> bool \<Rightarrow> paged_allocator result" where
  "paged_init pool_size page_size need_sort debug_mode =
     (if page_size = 0 then Inl ZeroDivisionError
      else Inr (paged_clear (allocator.extend (allocator_init pool_size page_size need_sort)
        \<lparr>pg_num_pages = pool_size div page_size, pg_debug_mode = debug_mode, pg_seen_max_num_extend_tokens = 1\<rparr>)))"

definition page_slots :: "nat \<Rightarrow> int \<Rightarrow> int list" where
  "page_slots page_size page = map (\<lambda>k. page * int page_size + int k) [0..<page_size]"

definition paged_alloc :: "nat \<Rightarrow> paged_allocator \<Rightarrow> (int list option \<times> paged_allocator) result" where
  "paged_alloc need_size a =
     py_assert (pg_debug_mode a \<longrightarrow> need_size mod al_page_size a = 0)
       (let num_pages = need_size div al_page_size a;
            a = (if al_need_sort a \<and> num_pages > length (al_free_pages a) then merge_and_sort_free a else a) in
        if num_pages > length (al_free_pages a) then Inr (None, a)
        else Inr (Some (concat (map (page_slots (al_page_size a)) (take num_pages (al_free_pages a)))),
                  a\<lparr>al_free_pages := drop num_pages (al_free_pages a)\<rparr>))"

text \<open>\<^verbatim>\<open>torch.unique\<close> returns the values in order.\<close>

definition torch_unique :: "int list \<Rightarrow> int list" where
  "torch_unique xs = sort (remdups xs)"

definition paged_free :: "int list \<Rightarrow> paged_allocator \<Rightarrow> paged_allocator result" where
  "paged_free free_index a =
     (if free_index = [] then Inr a
      else let a' = (if al_is_not_in_free_group a then
                       let free_page_indices = torch_unique (map (\<lambda>i. i div int (al_page_size a)) free_index) in
                       if al_need_sort a then a\<lparr>al_release_pages := free_page_indices @ al_release_pages a\<rparr>
                       else a\<lparr>al_free_pages := free_page_indices @ al_free_pages a\<rparr>
                     else a\<lparr>al_free_group := al_free_group a @ [free_index]\<rparr>)
           in py_assert (pg_debug_mode a' \<longrightarrow> length (torch_unique (al_free_pages a')) = length (al_free_pages a')) (Inr a'))"

section \<open>The contract of an allocator\<close>

text \<open>
  What the owners of slots rely on. \<open>held\<close> are the slots that are handed out, \<open>unit\<close> is the number of slots that are
  allocated and released together. Freeing a slot releases the whole page it lies in.
\<close>

definition whole_pages :: "nat \<Rightarrow> int list \<Rightarrow> int set" where
  "whole_pages u xs = {i. i div int u \<in> (\<lambda>i. i div int u) ` set xs}"

datatype slot_request = Take nat | Give nat

text \<open>Requests of several owners: a new block, or the return of one of the blocks that are out.\<close>

fun serve_slots ::
  "(nat \<Rightarrow> 's \<Rightarrow> (int list option \<times> 's) result) \<Rightarrow> (int list \<Rightarrow> 's \<Rightarrow> 's result) \<Rightarrow> slot_request list
   \<Rightarrow> 's \<times> int list list \<Rightarrow> ('s \<times> int list list) result" where
  "serve_slots alloc free [] st = Inr st"
| "serve_slots alloc free (Take n # reqs) (s, blocks) =
     bind_res (alloc n s) (\<lambda>(r, s'). serve_slots alloc free reqs (s', case r of None \<Rightarrow> blocks | Some xs \<Rightarrow> blocks @ [xs]))"
| "serve_slots alloc free (Give i # reqs) (s, blocks) =
     (if i < length blocks
      then bind_res (free (blocks ! i) s) (\<lambda>s'. serve_slots alloc free reqs (s', take i blocks @ drop (Suc i) blocks))
      else serve_slots alloc free reqs (s, blocks))"

locale slot_allocator =
  fixes inv :: "'s \<Rightarrow> bool" and held :: "'s \<Rightarrow> int set" and available :: "'s \<Rightarrow> nat"
    and shape :: "'s \<Rightarrow> 'c" and unit :: "'c \<Rightarrow> nat"
    and alloc :: "nat \<Rightarrow> 's \<Rightarrow> (int list option \<times> 's) result" and free :: "int list \<Rightarrow> 's \<Rightarrow> 's result"
  assumes alloc_enough: "inv s \<Longrightarrow> unit (shape s) dvd n \<Longrightarrow> n \<le> available s \<Longrightarrow>
      \<exists>xs s'. alloc n s = Inr (Some xs, s') \<and> inv s' \<and> shape s' = shape s \<and> length xs = n \<and> distinct xs \<and>
        set xs \<inter> held s = {} \<and> held s' = held s \<union> set xs \<and> available s' + n = available s \<and> whole_pages (unit (shape s)) xs = set xs"
    and alloc_short: "inv s \<Longrightarrow> unit (shape s) dvd n \<Longrightarrow> available s < n \<Longrightarrow>
      \<exists>s'. alloc n s = Inr (None, s') \<and> inv s' \<and> shape s' = shape s \<and> held s' = held s \<and> available s' = available s"
    and free_held: "inv s \<Longrightarrow> distinct xs \<Longrightarrow> set xs \<subseteq> held s \<Longrightarrow>
      \<exists>s'. free xs s = Inr s' \<and> inv s' \<and> shape s' = shape s \<and> held s' = held s - whole_pages (unit (shape s)) xs \<and>
        available s' = available s + card (whole_pages (unit (shape s)) xs)"
begin

definition ledger :: "'c \<Rightarrow> nat \<Rightarrow> 's \<times> int list list \<Rightarrow> bool" where
  "ledger u capacity st \<longleftrightarrow>
     inv (fst st) \<and> shape (fst st) = u \<and> distinct (concat (snd st)) \<and> held (fst st) = set (concat (snd st)) \<and>
     available (fst st) + length (concat (snd st)) = capacity \<and> (\<forall>xs \<in> set (snd st). whole_pages (unit u) xs = set xs)"

lemma ledger_take:
  assumes "ledger u c (s, blocks)" and "unit u dvd n"
  shows "\<exists>r s'. alloc n s = Inr (r, s') \<and> ledger u c (s', case r of None \<Rightarrow> blocks | Some xs \<Rightarrow> blocks @ [xs]) \<and>
    (r = None \<longleftrightarrow> available s < n)"
proof (cases "n \<le> available s")
  case True
  then obtain xs s' where "alloc n s = Inr (Some xs, s')" "inv s'" "shape s' = shape s" "length xs = n" "distinct xs"
    "set xs \<inter> held s = {}" "held s' = held s \<union> set xs" "available s' + n = available s" "whole_pages (unit (shape s)) xs = set xs"
    using alloc_enough[of s n] assms by (auto simp: ledger_def)
  then show ?thesis using True assms by (auto simp: ledger_def disjoint_iff)
next
  case False
  then show ?thesis using alloc_short[of s n] assms by (auto simp: ledger_def)
qed

lemma ledger_give:
  assumes l: "ledger u c (s, blocks)" and i: "i < length blocks"
  shows "\<exists>s'. free (blocks ! i) s = Inr s' \<and> ledger u c (s', take i blocks @ drop (Suc i) blocks)"
proof -
  let ?b = "blocks ! i" and ?rest = "take i blocks @ drop (Suc i) blocks"
  have split: "blocks = take i blocks @ ?b # drop (Suc i) blocks" using i by (rule id_take_nth_drop)
  have c: "concat blocks = concat (take i blocks) @ ?b @ concat (drop (Suc i) blocks)"
    by (subst split) (simp only: concat_append concat.simps)
  have whole: "whole_pages (unit u) ?b = set ?b" using l i by (simp add: ledger_def)
  have d: "distinct ?b" "set ?b \<inter> set (concat ?rest) = {}" "distinct (concat ?rest)" "set (concat blocks) = set ?b \<union> set (concat ?rest)"
    using l c by (auto simp: ledger_def)
  obtain s' where s': "free ?b s = Inr s'" "inv s'" "shape s' = shape s" "held s' = held s - whole_pages (unit (shape s)) ?b"
    "available s' = available s + card (whole_pages (unit (shape s)) ?b)"
    using free_held[of s ?b] l d(1,4) by (auto simp: ledger_def)
  have "available s + card (set ?b) + length (concat ?rest) = c"
    using l c d(1) by (simp add: ledger_def distinct_card)
  then have "ledger u c (s', ?rest)"
    using l s' d whole set_take_subset[of i blocks] set_drop_subset[of "Suc i" blocks] by (auto simp: ledger_def)
  then show ?thesis using s'(1) by blast
qed

lemma serve_ledger:
  assumes "ledger u c (s, blocks)" and "\<forall>n. Take n \<in> set reqs \<longrightarrow> unit u dvd n"
  shows "\<exists>s' blocks'. serve_slots alloc free reqs (s, blocks) = Inr (s', blocks') \<and> ledger u c (s', blocks')"
  using assms
proof (induction reqs arbitrary: s blocks)
  case (Cons r reqs)
  show ?case
  proof (cases r)
    case (Take n)
    then obtain x s1 where x: "alloc n s = Inr (x, s1)" "ledger u c (s1, case x of None \<Rightarrow> blocks | Some xs \<Rightarrow> blocks @ [xs])"
      using ledger_take[OF Cons.prems(1), of n] Cons.prems(2) by auto
    then show ?thesis using Cons.IH[OF x(2)] Cons.prems(2) Take by auto
  next
    case (Give i)
    then show ?thesis
      using ledger_give[OF Cons.prems(1), of i] Cons.IH Cons.prems by (cases "i < length blocks") force+
  qed
qed auto

lemma ledger_next:
  assumes "ledger u c (s, blocks)" and "unit u dvd n"
  shows "\<exists>r s'. alloc n s = Inr (r, s') \<and> (r = None \<longleftrightarrow> c < length (concat blocks) + n)"
proof -
  have "available s + length (concat blocks) = c" using assms(1) by (simp add: ledger_def)
  then show ?thesis using ledger_take[OF assms] by fastforce
qed

end

section \<open>The free lists\<close>

definition free_set :: "('z) allocator_scheme \<Rightarrow> int set" where
  "free_set a = set (al_free_pages a) \<union> set (al_release_pages a)"

definition pages_ok :: "nat \<Rightarrow> ('z) allocator_scheme \<Rightarrow> bool" where
  "pages_ok n a \<longleftrightarrow> al_is_not_in_free_group a \<and> distinct (al_free_pages a @ al_release_pages a) \<and> free_set a \<subseteq> {1..int n} \<and>
     (al_need_sort a \<or> al_release_pages a = [])"

lemma merge_keeps [simp]:
  "al_size (merge_and_sort_free a) = al_size a" "al_page_size (merge_and_sort_free a) = al_page_size a"
  "al_need_sort (merge_and_sort_free a) = al_need_sort a"
  "al_is_not_in_free_group (merge_and_sort_free a) = al_is_not_in_free_group a"
  "al_free_group (merge_and_sort_free a) = al_free_group a"
  by (simp_all add: merge_and_sort_free_def)

lemma merge_paged_keeps [simp]:
  "pg_num_pages (merge_and_sort_free a) = pg_num_pages a" "pg_debug_mode (merge_and_sort_free a) = pg_debug_mode a"
  "pg_seen_max_num_extend_tokens (merge_and_sort_free a) = pg_seen_max_num_extend_tokens a"
  by (simp_all add: merge_and_sort_free_def)

lemma merge_release [simp]: "al_release_pages (merge_and_sort_free a) = []"
  by (simp add: merge_and_sort_free_def)

lemma merge_free_mset: "mset (al_free_pages (merge_and_sort_free a)) = mset (al_free_pages a @ al_release_pages a)"
  by (simp add: merge_and_sort_free_def)

lemma merge_free_set [simp]: "free_set (merge_and_sort_free a) = free_set a"
  using mset_eq_setD[OF merge_free_mset[of a]] by (simp add: free_set_def)

lemma merge_free_length [simp]:
  "length (al_free_pages (merge_and_sort_free a)) = length (al_free_pages a) + length (al_release_pages a)"
  using mset_eq_length[OF merge_free_mset[of a]] by simp

lemma merge_pages_ok [simp]: "pages_ok n a \<Longrightarrow> pages_ok n (merge_and_sort_free a)"
  using mset_eq_imp_distinct_iff[OF merge_free_mset[of a]] by (auto simp: pages_ok_def)

text \<open>The step that every allocation starts with: the released pages are merged when the free ones do not suffice.\<close>

lemma ready_pages:
  assumes "pages_ok n a" and r: "r = (if al_need_sort a \<and> k > length (al_free_pages a) then merge_and_sort_free a else a)"
  shows "pages_ok n r" "free_set r = free_set a"
    "length (al_free_pages r) + length (al_release_pages r) = length (al_free_pages a) + length (al_release_pages a)"
    "k > length (al_free_pages r) \<longleftrightarrow> k > length (al_free_pages a) + length (al_release_pages a)"
    "al_page_size r = al_page_size a" "al_size r = al_size a"
proof -
  show "pages_ok n r" using assms by simp
qed (use assms in \<open>auto simp: pages_ok_def\<close>)

lemma take_pages_ok:
  assumes "pages_ok n a" and "k \<le> length (al_free_pages a)"
  shows "pages_ok n (a\<lparr>al_free_pages := drop k (al_free_pages a)\<rparr>)"
    "free_set (a\<lparr>al_free_pages := drop k (al_free_pages a)\<rparr>) = free_set a - set (take k (al_free_pages a))"
    "distinct (take k (al_free_pages a))" "set (take k (al_free_pages a)) \<subseteq> free_set a"
proof -
  have split: "set (al_free_pages a) = set (take k (al_free_pages a)) \<union> set (drop k (al_free_pages a))"
    by (metis append_take_drop_id set_append)
  have d: "distinct (al_free_pages a)" "set (al_free_pages a) \<inter> set (al_release_pages a) = {}"
    using assms(1) by (auto simp: pages_ok_def)
  have "set (take k (al_free_pages a)) \<inter> set (drop k (al_free_pages a)) = {}"
    using d(1) by (metis append_take_drop_id distinct_append)
  then show "free_set (a\<lparr>al_free_pages := drop k (al_free_pages a)\<rparr>) = free_set a - set (take k (al_free_pages a))"
    using split d(2) by (auto simp: free_set_def)
  show "set (take k (al_free_pages a)) \<subseteq> free_set a" using split by (auto simp: free_set_def)
  show "distinct (take k (al_free_pages a))" using d(1) by simp
  show "pages_ok n (a\<lparr>al_free_pages := drop k (al_free_pages a)\<rparr>)"
    using assms(1) d split by (auto simp: pages_ok_def free_set_def)
qed

lemma length_free_set:
  assumes "pages_ok n a" shows "card (free_set a) = length (al_free_pages a) + length (al_release_pages a)"
proof -
  have "distinct (al_free_pages a @ al_release_pages a)" using assms by (simp add: pages_ok_def)
  then show ?thesis using distinct_card[of "al_free_pages a @ al_release_pages a"] by (simp add: free_set_def)
qed

section \<open>The token allocator keeps the contract\<close>

definition token_inv :: "allocator \<Rightarrow> bool" where
  "token_inv a \<longleftrightarrow> pages_ok (al_size a) a"

definition token_held :: "allocator \<Rightarrow> int set" where
  "token_held a = {1..int (al_size a)} - free_set a"

lemma whole_pages_1 [simp]: "whole_pages (Suc 0) xs = set xs"
  by (auto simp: whole_pages_def)

lemma token_alloc_enough:
  assumes "token_inv a" and "n \<le> token_available_size a"
  shows "\<exists>xs a'. token_alloc n a = (Some xs, a') \<and> token_inv a' \<and> al_size a' = al_size a \<and> length xs = n \<and> distinct xs \<and>
    set xs \<inter> token_held a = {} \<and> token_held a' = token_held a \<union> set xs \<and> token_available_size a' + n = token_available_size a"
proof -
  let ?r = "if al_need_sort a \<and> n > length (al_free_pages a) then merge_and_sort_free a else a"
  note r = ready_pages[OF assms(1)[unfolded token_inv_def] refl, of n]
  have n: "n \<le> length (al_free_pages ?r)" using r(4) assms(2) by (simp add: token_available_size_def)
  note t = take_pages_ok[OF r(1) n]
  have sub: "free_set a \<subseteq> {1..int (al_size a)}" using assms(1) by (simp add: token_inv_def pages_ok_def)
  have "token_alloc n a = (Some (take n (al_free_pages ?r)), ?r\<lparr>al_free_pages := drop n (al_free_pages ?r)\<rparr>)"
    unfolding token_alloc_def Let_def using n by (simp only: not_less[symmetric] if_False)
  moreover have "token_held (?r\<lparr>al_free_pages := drop n (al_free_pages ?r)\<rparr>) = token_held a \<union> set (take n (al_free_pages ?r))"
    using t(2,4) r(2,6) sub by (auto simp: token_held_def)
  moreover have "token_available_size (?r\<lparr>al_free_pages := drop n (al_free_pages ?r)\<rparr>) + n = token_available_size a"
    using r(3) n by (simp add: token_available_size_def)
  ultimately show ?thesis
    using t(1,3,4) r(2,6) n by (auto simp: token_inv_def token_held_def)
qed

lemma token_alloc_short:
  assumes "token_inv a" and "token_available_size a < n"
  shows "\<exists>a'. token_alloc n a = (None, a') \<and> token_inv a' \<and> al_size a' = al_size a \<and> token_held a' = token_held a \<and> token_available_size a' = token_available_size a"
proof -
  let ?r = "if al_need_sort a \<and> n > length (al_free_pages a) then merge_and_sort_free a else a"
  note r = ready_pages[OF assms(1)[unfolded token_inv_def] refl, of n]
  have "n > length (al_free_pages ?r)" using r(4) assms(2) by (simp add: token_available_size_def)
  then have "token_alloc n a = (None, ?r)" unfolding token_alloc_def Let_def by (simp only: if_True)
  then show ?thesis using r by (auto simp: token_inv_def token_held_def token_available_size_def)
qed

lemma token_free_held:
  assumes "token_inv a" and "distinct xs" and "set xs \<subseteq> token_held a"
  shows "\<exists>a'. token_free xs a = Inr a' \<and> token_inv a' \<and> al_size a' = al_size a \<and> token_held a' = token_held a - set xs \<and>
    token_available_size a' = token_available_size a + card (set xs)"
  using assms distinct_card[OF assms(2)]
  by (auto simp: token_free_def token_inv_def pages_ok_def token_held_def free_set_def token_available_size_def)

interpretation tk: slot_allocator token_inv token_held token_available_size al_size "\<lambda>_. Suc 0" "\<lambda>n a. Inr (token_alloc n a)" token_free
proof
  fix a n
  assume "token_inv a" "Suc 0 dvd n" "n \<le> token_available_size a"
  then show "\<exists>xs s'. Inr (token_alloc n a) = (Inr (Some xs, s') :: (int list option \<times> allocator) result) \<and> token_inv s' \<and>
    al_size s' = al_size a \<and> length xs = n \<and> distinct xs \<and> set xs \<inter> token_held a = {} \<and> token_held s' = token_held a \<union> set xs \<and>
    token_available_size s' + n = token_available_size a \<and> whole_pages (Suc 0) xs = set xs"
    using token_alloc_enough[of a n] by auto
next
  fix a n
  assume "token_inv a" "Suc 0 dvd n" "token_available_size a < n"
  then show "\<exists>s'. Inr (token_alloc n a) = (Inr (None, s') :: (int list option \<times> allocator) result) \<and> token_inv s' \<and>
    al_size s' = al_size a \<and> token_held s' = token_held a \<and> token_available_size s' = token_available_size a"
    using token_alloc_short[of a n] by auto
next
  fix a xs
  assume "token_inv a" "distinct xs" "set xs \<subseteq> token_held a"
  then show "\<exists>s'. token_free xs a = Inr s' \<and> token_inv s' \<and> al_size s' = al_size a \<and> token_held s' = token_held a - whole_pages (Suc 0) xs \<and>
    token_available_size s' = token_available_size a + card (whole_pages (Suc 0) xs)"
    using token_free_held[of a xs] by auto
qed

lemma token_init_ledger: "tk.ledger pool_size pool_size (token_init pool_size need_sort, [])"
  unfolding tk.ledger_def
  by (auto simp: token_init_def token_clear_def allocator_init_def token_inv_def pages_ok_def free_set_def token_held_def
      token_available_size_def)
section \<open>The paged allocator keeps the contract\<close>

lemma page_slots_set: "0 < u \<Longrightarrow> set (page_slots u p) = {i. i div int u = p}"
proof (intro equalityI subsetI)
  fix i assume u: "0 < u" and "i \<in> {i. i div int u = p}"
  then have "i = p * int u + int (nat (i mod int u))" "nat (i mod int u) < u"
    by (auto simp: nat_less_iff)
  then show "i \<in> set (page_slots u p)" unfolding page_slots_def set_map by (intro image_eqI) auto
qed (auto simp: page_slots_def)

lemma page_slots_simps [simp]: "length (page_slots u p) = u" "distinct (page_slots u p)"
  by (auto simp: page_slots_def distinct_map inj_on_def)

lemma pages_slots:
  assumes "0 < u"
  shows "set (concat (map (page_slots u) ps)) = {i. i div int u \<in> set ps}"
    "length (concat (map (page_slots u) ps)) = length ps * u"
    "distinct ps \<Longrightarrow> distinct (concat (map (page_slots u) ps))"
  using assms by (induction ps) (auto simp: page_slots_set disjoint_iff)

lemma card_pages: "0 < u \<Longrightarrow> distinct ps \<Longrightarrow> card {i. i div int u \<in> set ps} = length ps * u"
  using pages_slots[of u ps] distinct_card[of "concat (map (page_slots u) ps)"] by simp

lemma set_torch_unique [simp]: "set (torch_unique xs) = set xs" "distinct (torch_unique xs)"
  by (simp_all add: torch_unique_def)

lemma length_torch_unique: "length (torch_unique xs) = length xs \<longleftrightarrow> distinct xs"
  by (simp add: torch_unique_def length_remdups_card_conv card_distinct distinct_card eq_iff[symmetric])
    (metis card_distinct distinct_card)

definition paged_inv :: "paged_allocator \<Rightarrow> bool" where
  "paged_inv a \<longleftrightarrow> 0 < al_page_size a \<and> pages_ok (pg_num_pages a) a"

definition paged_held :: "paged_allocator \<Rightarrow> int set" where
  "paged_held a = {i. i div int (al_page_size a) \<in> {1..int (pg_num_pages a)} - free_set a}"

definition paged_shape :: "paged_allocator \<Rightarrow> nat \<times> nat" where
  "paged_shape a = (al_page_size a, pg_num_pages a)"

lemma paged_alloc_enough:
  assumes inv: "paged_inv a" and dvd: "al_page_size a dvd n" and n: "n \<le> available_size a"
  shows "\<exists>xs a'. paged_alloc n a = Inr (Some xs, a') \<and> paged_inv a' \<and> paged_shape a' = paged_shape a \<and> length xs = n \<and> distinct xs \<and>
    set xs \<inter> paged_held a = {} \<and> paged_held a' = paged_held a \<union> set xs \<and> available_size a' + n = available_size a \<and>
    whole_pages (al_page_size a) xs = set xs"
proof -
  obtain k where k: "n = k * al_page_size a" using dvd by (auto simp: dvd_def mult.commute)
  have u: "0 < al_page_size a" using inv by (simp add: paged_inv_def)
  define r where "r = (if al_need_sort a \<and> k > length (al_free_pages a) then merge_and_sort_free a else a)"
  have "pages_ok (pg_num_pages a) a" using inv by (simp add: paged_inv_def)
  note r = ready_pages[OF this r_def]
  have np: "pg_num_pages r = pg_num_pages a" by (simp add: r_def)
  have kr: "k \<le> length (al_free_pages r)" using r(4) n k u by (simp add: available_size_def)
  note t = take_pages_ok[OF r(1) kr]
  let ?p = "take k (al_free_pages r)"
  let ?xs = "concat (map (page_slots (al_page_size a)) ?p)" and ?a = "r\<lparr>al_free_pages := drop k (al_free_pages r)\<rparr>"
  have div: "n div al_page_size a = k" using k u by simp
  have a: "paged_alloc n a = Inr (Some ?xs, ?a)"
    unfolding paged_alloc_def Let_def div r_def[symmetric] using kr k r(5) by (simp add: py_assert_def)
  have sub: "free_set a \<subseteq> {1..int (pg_num_pages a)}" using inv by (simp add: paged_inv_def pages_ok_def)
  note s = pages_slots[OF u, of ?p]
  have p: "set ?p \<subseteq> {1..int (pg_num_pages a)}" using t(4) r(2) sub by blast
  have held: "paged_held ?a = paged_held a \<union> set ?xs"
    using t(2) r(2,5) np p unfolding paged_held_def s(1) by auto
  have disj: "set ?xs \<inter> paged_held a = {}" using t(4) r(2) unfolding paged_held_def s(1) by auto
  have "length (al_free_pages ?a) + length (al_release_pages ?a) + k = length (al_free_pages a) + length (al_release_pages a)"
    using r(3) kr by simp
  then have avail: "available_size ?a + n = available_size a"
    using r(5) k unfolding available_size_def by (simp add: distrib_right[symmetric])
  have len: "length ?xs = n" using s(2) kr k by simp
  have whole: "whole_pages (al_page_size a) ?xs = set ?xs"
    unfolding whole_pages_def s(1) using u by (auto intro!: image_eqI[where x = "_ * int (al_page_size a)"])
  show ?thesis
    using a held disj avail len whole s(3) t(1,3) r(5) u np by (intro exI[of _ ?xs] exI[of _ ?a]) (auto simp: paged_inv_def paged_shape_def)
qed

lemma paged_alloc_short:
  assumes inv: "paged_inv a" and dvd: "al_page_size a dvd n" and n: "available_size a < n"
  shows "\<exists>a'. paged_alloc n a = Inr (None, a') \<and> paged_inv a' \<and> paged_shape a' = paged_shape a \<and> paged_held a' = paged_held a \<and>
    available_size a' = available_size a"
proof -
  obtain k where k: "n = k * al_page_size a" using dvd by (auto simp: dvd_def mult.commute)
  let ?r = "if al_need_sort a \<and> k > length (al_free_pages a) then merge_and_sort_free a else a"
  have "pages_ok (pg_num_pages a) a" and u: "0 < al_page_size a" using inv by (simp_all add: paged_inv_def)
  note r = ready_pages[OF this(1) refl, of k]
  have np: "pg_num_pages ?r = pg_num_pages a" by simp
  have kr: "length (al_free_pages ?r) < k" using r(4) n k u by (simp add: available_size_def)
  have div: "n div al_page_size a = k" using k u by simp
  have "paged_alloc n a = Inr (None, ?r)"
    unfolding paged_alloc_def Let_def div using kr k by (simp only: if_True py_assert_def) simp
  then show ?thesis using r np u by (auto simp: paged_inv_def paged_shape_def paged_held_def available_size_def)
qed

lemma paged_free_held:
  assumes inv: "paged_inv a" and xs: "set xs \<subseteq> paged_held a"
  shows "\<exists>a'. paged_free xs a = Inr a' \<and> paged_inv a' \<and> paged_shape a' = paged_shape a \<and>
    paged_held a' = paged_held a - whole_pages (al_page_size a) xs \<and>
    available_size a' = available_size a + card (whole_pages (al_page_size a) xs)"
proof (cases "xs = []")
  case False
  let ?p = "torch_unique (map (\<lambda>i. i div int (al_page_size a)) xs)"
  have u: "0 < al_page_size a" using inv by (simp add: paged_inv_def)
  have p: "set ?p \<inter> free_set a = {}" "set ?p \<subseteq> {1..int (pg_num_pages a)}"
    using xs by (auto simp: paged_held_def)
  have whole: "whole_pages (al_page_size a) xs = {i. i div int (al_page_size a) \<in> set ?p}"
    by (simp add: whole_pages_def)
  have card: "card (whole_pages (al_page_size a) xs) = length ?p * al_page_size a"
    unfolding whole by (rule card_pages[OF u]) simp
  let ?a = "if al_need_sort a then a\<lparr>al_release_pages := ?p @ al_release_pages a\<rparr> else a\<lparr>al_free_pages := ?p @ al_free_pages a\<rparr>"
  have inv': "paged_inv ?a" using inv p by (auto simp: paged_inv_def pages_ok_def free_set_def)
  have "paged_free xs a = py_assert (pg_debug_mode ?a \<longrightarrow> length (torch_unique (al_free_pages ?a)) = length (al_free_pages ?a)) (Inr ?a)"
    using False inv by (simp add: paged_free_def Let_def paged_inv_def pages_ok_def)
  then have "paged_free xs a = Inr ?a" using inv' by (simp only: length_torch_unique paged_inv_def pages_ok_def distinct_append py_assert_def) simp
  moreover have "paged_held ?a = paged_held a - whole_pages (al_page_size a) xs"
    unfolding whole by (auto simp: paged_held_def free_set_def)
  moreover have "available_size ?a = available_size a + card (whole_pages (al_page_size a) xs)"
    unfolding card by (simp add: available_size_def distrib_right)
  moreover have "paged_shape ?a = paged_shape a" by (simp add: paged_shape_def)
  ultimately show ?thesis using inv' by auto
qed (use inv in \<open>simp add: paged_free_def whole_pages_def\<close>)

interpretation pg: slot_allocator paged_inv paged_held available_size paged_shape fst paged_alloc paged_free
  using paged_alloc_enough paged_alloc_short paged_free_held by unfold_locales (simp_all add: paged_shape_def)

lemma paged_init_ledger:
  assumes "paged_init pool_size page_size need_sort debug_mode = Inr a"
  shows "pg.ledger (page_size, pool_size div page_size) (pool_size div page_size * page_size) (a, [])"
  using assms unfolding pg.ledger_def
  by (auto simp: paged_shape_def paged_init_def paged_clear_def allocator_init_def allocator.extend_def paged_inv_def pages_ok_def free_set_def paged_held_def
      available_size_def split: if_splits)
section \<open>The sliding-window pair keeps the contract\<close>

lemma scatter_index_ok:
  assumes "\<forall>(i, v) \<in> set ivs. 0 \<le> i \<and> i < int (length m)" and "distinct (map fst ivs)"
  shows "\<exists>m'. scatter_index m ivs = Inr m' \<and> length m' = length m \<and> (\<forall>(i, v) \<in> set ivs. m' ! nat i = v) \<and>
    (\<forall>i. 0 \<le> i \<longrightarrow> i \<notin> fst ` set ivs \<longrightarrow> m' ! nat i = m ! nat i)"
  using assms
proof (induction ivs arbitrary: m)
  case (Cons iv ivs)
  obtain i v where iv: "iv = (i, v)" by (cases iv)
  then have i: "0 \<le> i" "i < int (length m)" using Cons.prems(1) by auto
  obtain m' where m': "scatter_index (m[nat i := v]) ivs = Inr m'" "length m' = length m" "\<forall>(i, v) \<in> set ivs. m' ! nat i = v"
    "\<forall>j. 0 \<le> j \<longrightarrow> j \<notin> fst ` set ivs \<longrightarrow> m' ! nat j = m[nat i := v] ! nat j"
    using Cons.IH[of "m[nat i := v]"] Cons.prems by auto
  have "m' ! nat i = v" using m'(4) i Cons.prems(2) iv by (simp add: nat_less_iff)
  moreover have "\<forall>j. 0 \<le> j \<longrightarrow> j \<notin> fst ` set (iv # ivs) \<longrightarrow> m' ! nat j = m ! nat j" using m'(4) i iv by (auto simp: nth_list_update)
  ultimately show ?case using m'(1-3) i iv by (auto simp: scatter_index_def py_index_nat)
qed (simp add: scatter_index_def)

definition swa_slot :: "swa_allocator \<Rightarrow> int \<Rightarrow> int" where
  "swa_slot s i = sw_mapping s ! nat i"

definition swa_inv :: "swa_allocator \<Rightarrow> bool" where
  "swa_inv s \<longleftrightarrow> al_is_not_in_free_group s \<and> token_inv (sw_full s) \<and> token_inv (sw_swa s) \<and>
     al_size (sw_full s) < length (sw_mapping s) \<and> bij_betw (swa_slot s) (token_held (sw_full s)) (token_held (sw_swa s))"

definition swa_held :: "swa_allocator \<Rightarrow> int set" where
  "swa_held s = token_held (sw_full s)"

definition swa_available :: "swa_allocator \<Rightarrow> nat" where
  "swa_available s = min (full_available_size s) (swa_available_size s)"

definition swa_shape :: "swa_allocator \<Rightarrow> nat \<times> nat" where
  "swa_shape s = (al_size (sw_full s), al_size (sw_swa s))"

lemma swa_update_group [simp]:
  "al_is_not_in_free_group (s\<lparr>sw_full := f\<rparr>) = al_is_not_in_free_group s"
  "al_is_not_in_free_group (s\<lparr>sw_swa := w\<rparr>) = al_is_not_in_free_group s"
  "al_is_not_in_free_group (s\<lparr>sw_mapping := m\<rparr>) = al_is_not_in_free_group s"
  by (cases s; simp)+

lemma token_held_range: "token_held a \<subseteq> {1..int (al_size a)}"
  by (auto simp: token_held_def)

lemma token_available_le: "token_inv a \<Longrightarrow> token_available_size a \<le> al_size a"
  using length_free_set[of "al_size a" a] card_mono[of "{1..int (al_size a)}" "free_set a"]
  by (auto simp: token_inv_def pages_ok_def token_available_size_def)

lemma token_capacity: "token_inv a \<Longrightarrow> token_available_size a + card (token_held a) = al_size a"
  using length_free_set[of "al_size a" a] card_Diff_subset[of "free_set a" "{1..int (al_size a)}"] token_available_le[of a]
  by (auto simp: token_inv_def pages_ok_def token_available_size_def token_held_def free_set_def)

lemma swa_alloc_enough:
  assumes inv: "swa_inv s" and n: "n \<le> swa_available s"
  shows "\<exists>xs s'. swa_alloc n s = Inr (Some xs, s') \<and> swa_inv s' \<and> swa_shape s' = swa_shape s \<and> length xs = n \<and> distinct xs \<and>
    set xs \<inter> swa_held s = {} \<and> swa_held s' = swa_held s \<union> set xs \<and> swa_available s' + n = swa_available s"
proof -
  have n': "n \<le> token_available_size (sw_full s)" "n \<le> token_available_size (sw_swa s)"
    using n by (simp_all add: swa_available_def full_available_size_def swa_available_size_def)
  have i: "token_inv (sw_full s)" "token_inv (sw_swa s)" using inv by (simp_all add: swa_inv_def)
  obtain xs f where f: "token_alloc n (sw_full s) = (Some xs, f)" "token_inv f" "al_size f = al_size (sw_full s)" "length xs = n" "distinct xs"
    "set xs \<inter> token_held (sw_full s) = {}" "token_held f = token_held (sw_full s) \<union> set xs"
    "token_available_size f + n = token_available_size (sw_full s)"
    using token_alloc_enough[OF i(1) n'(1)] by blast
  obtain ys w where w: "token_alloc n (sw_swa s) = (Some ys, w)" "token_inv w" "al_size w = al_size (sw_swa s)" "length ys = n" "distinct ys"
    "set ys \<inter> token_held (sw_swa s) = {}" "token_held w = token_held (sw_swa s) \<union> set ys"
    "token_available_size w + n = token_available_size (sw_swa s)"
    using token_alloc_enough[OF i(2) n'(2)] by blast
  have range: "\<forall>i \<in> token_held f. 0 \<le> i \<and> i < int (length (sw_mapping s))"
    using token_held_range[of f] f(3) inv by (auto simp: swa_inv_def)
  have zip: "map fst (zip xs ys) = xs" using f(4) w(4) by simp
  have "\<forall>(i, v) \<in> set (zip xs ys). 0 \<le> i \<and> i < int (length (sw_mapping s))"
    using range f(7) by (auto dest: set_zip_leftD)
  moreover have "distinct (map fst (zip xs ys))" unfolding zip by (rule f(5))
  ultimately obtain m where m: "scatter_index (sw_mapping s) (zip xs ys) = Inr m" "length m = length (sw_mapping s)"
    "\<forall>(i, v) \<in> set (zip xs ys). m ! nat i = v" "\<forall>i. 0 \<le> i \<longrightarrow> i \<notin> fst ` set (zip xs ys) \<longrightarrow> m ! nat i = sw_mapping s ! nat i"
    using scatter_index_ok by blast
  let ?s = "s\<lparr>sw_full := f, sw_swa := w, sw_mapping := m\<rparr>"
  have fst: "fst ` set (zip xs ys) = set xs" using zip by (metis set_map)
  have "map (swa_slot ?s) xs = ys" using m(3) f(4) w(4) by (intro nth_equalityI) (auto simp: swa_slot_def set_zip)
  then have "bij_betw (swa_slot ?s) (set xs) (set ys)" using w(5) by (auto simp: bij_betw_def distinct_map)
  moreover have "bij_betw (swa_slot ?s) (token_held (sw_full s)) (token_held (sw_swa s))"
  proof -
    have "swa_slot ?s i = swa_slot s i" if "i \<in> token_held (sw_full s)" for i
      using m(4) that f(6,7) range fst by (auto simp: swa_slot_def)
    then show ?thesis using inv by (simp add: swa_inv_def cong: bij_betw_cong)
  qed
  ultimately have "bij_betw (swa_slot ?s) (token_held f) (token_held w)"
    using f(7) w(6,7) by (auto intro!: bij_betw_combine)
  then have "swa_inv ?s" using inv f(2,3) w(2) m(2) by (simp add: swa_inv_def)
  moreover have "swa_alloc n s = Inr (Some xs, ?s)" using n' f(1) w(1) m(1) by (simp add: swa_alloc_def assign_mapping_def)
  ultimately show ?thesis
    using f w by (auto simp: swa_shape_def swa_held_def swa_available_def full_available_size_def swa_available_size_def)
qed

lemma swa_free_held:
  assumes inv: "swa_inv s" and d: "distinct xs" and xs: "set xs \<subseteq> swa_held s"
  shows "\<exists>s'. swa_free xs s = Inr s' \<and> swa_inv s' \<and> swa_shape s' = swa_shape s \<and> swa_held s' = swa_held s - set xs \<and> swa_available s' = swa_available s + card (set xs)"
proof (cases "xs = []")
  case False
  have i: "token_inv (sw_full s)" "token_inv (sw_swa s)" and bij: "bij_betw (swa_slot s) (token_held (sw_full s)) (token_held (sw_swa s))"
    using inv by (simp_all add: swa_inv_def)
  have range: "\<forall>i \<in> token_held (sw_full s). 0 \<le> i \<and> i < int (length (sw_mapping s))"
    using token_held_range[of "sw_full s"] inv by (auto simp: swa_inv_def)
  have sub: "set xs \<subseteq> token_held (sw_full s)" using xs by (simp add: swa_held_def)
  let ?ys = "map (swa_slot s) xs"
  have ys: "distinct ?ys" "set ?ys \<subseteq> token_held (sw_swa s)" "card (set ?ys) = card (set xs)"
    using d sub bij by (auto simp: bij_betw_def distinct_map inj_on_subset card_image)
  obtain f where f: "token_free xs (sw_full s) = Inr f" "token_inv f" "al_size f = al_size (sw_full s)"
    "token_held f = token_held (sw_full s) - set xs" "token_available_size f = token_available_size (sw_full s) + card (set xs)"
    using token_free_held[OF i(1) d sub] by blast
  obtain w where w: "token_free ?ys (sw_swa s) = Inr w" "token_inv w" "al_size w = al_size (sw_swa s)"
    "token_held w = token_held (sw_swa s) - set ?ys" "token_available_size w = token_available_size (sw_swa s) + card (set xs)"
    using token_free_held[OF i(2) ys(1,2)] ys(3) by auto
  have read: "map_res (py_nth (sw_mapping s)) xs = Inr ?ys"
  proof (rule map_res_Inr)
    fix i assume "i \<in> set xs"
    then have "0 \<le> i" "i < int (length (sw_mapping s))" using sub range by auto
    then show "py_nth (sw_mapping s) i = Inr (swa_slot s i)" by (simp add: py_nth_def swa_slot_def)
  qed
  have pos: "filter (\<lambda>i. i > 0) ?ys = ?ys" using ys(2) token_held_range[of "sw_swa s"] by (intro filter_True) fastforce
  have fst: "map fst (map (\<lambda>i. (i, 0::int)) xs) = xs" "fst ` set (map (\<lambda>i. (i, 0::int)) xs) = set xs"
    by (auto simp: comp_def image_image)
  have "\<forall>(i, v) \<in> set (map (\<lambda>i. (i, 0::int)) xs). 0 \<le> i \<and> i < int (length (sw_mapping s))" using sub range by auto
  moreover have "distinct (map fst (map (\<lambda>i. (i, 0::int)) xs))" unfolding fst(1) by (rule d)
  ultimately obtain m where m: "scatter_index (sw_mapping s) (map (\<lambda>i. (i, 0)) xs) = Inr m" "length m = length (sw_mapping s)"
    "\<forall>i. 0 \<le> i \<longrightarrow> i \<notin> set xs \<longrightarrow> m ! nat i = sw_mapping s ! nat i"
    using scatter_index_ok[of "map (\<lambda>i. (i, 0)) xs" "sw_mapping s"] unfolding fst(2) by blast
  let ?s = "s\<lparr>sw_full := f, sw_swa := w, sw_mapping := m\<rparr>"
  have "swa_slot ?s i = swa_slot s i" if "i \<in> token_held (sw_full s) - set xs" for i
    using m(3) that range by (auto simp: swa_slot_def)
  moreover have "bij_betw (swa_slot s) (token_held (sw_full s) - set xs) (token_held (sw_swa s) - set ?ys)"
    using d ys(1,2) sub by (intro bij_betw_DiffI[OF bij]) (simp_all add: bij_betw_def distinct_map)
  ultimately have "bij_betw (swa_slot ?s) (token_held (sw_full s) - set xs) (token_held (sw_swa s) - set ?ys)"
    using bij_betw_cong[of "token_held (sw_full s) - set xs" "swa_slot ?s" "swa_slot s"] by blast
  then have inv': "swa_inv ?s" using inv f(2,3,4) w(2,4) m(2) by (simp add: swa_inv_def)
  have "swa_free xs s = Inr ?s"
    using False inv f(1) w(1) read pos m(1) token_available_le[OF f(2)] token_available_le[OF w(2)]
    by (simp add: swa_free_def free_swa_def swa_inv_def)
  then show ?thesis
    using inv' f w by (auto simp: swa_shape_def swa_held_def swa_available_def full_available_size_def swa_available_size_def)
qed (use inv in \<open>simp add: swa_free_def\<close>)

interpretation sw: slot_allocator swa_inv swa_held swa_available swa_shape "\<lambda>_. Suc 0" swa_alloc swa_free
proof
  fix s n
  assume "swa_inv s" "Suc 0 dvd n" "n \<le> swa_available s"
  then show "\<exists>xs s'. swa_alloc n s = Inr (Some xs, s') \<and> swa_inv s' \<and> swa_shape s' = swa_shape s \<and> length xs = n \<and> distinct xs \<and>
    set xs \<inter> swa_held s = {} \<and> swa_held s' = swa_held s \<union> set xs \<and> swa_available s' + n = swa_available s \<and> whole_pages (Suc 0) xs = set xs"
    using swa_alloc_enough[of s n] by auto
next
  fix s n
  assume "swa_inv s" "Suc 0 dvd n" "swa_available s < n"
  then show "\<exists>s'. swa_alloc n s = Inr (None, s') \<and> swa_inv s' \<and> swa_shape s' = swa_shape s \<and> swa_held s' = swa_held s \<and> swa_available s' = swa_available s"
    by (auto simp: swa_alloc_def swa_available_def full_available_size_def swa_available_size_def)
next
  fix s xs
  assume "swa_inv s" "distinct xs" "set xs \<subseteq> swa_held s"
  then show "\<exists>s'. swa_free xs s = Inr s' \<and> swa_inv s' \<and> swa_shape s' = swa_shape s \<and> swa_held s' = swa_held s - whole_pages (Suc 0) xs \<and>
    swa_available s' = swa_available s + card (whole_pages (Suc 0) xs)"
    using swa_free_held[of s xs] by auto
qed

lemma token_init_simps [simp]:
  "token_clear (token_init n b) = token_init n b" "token_inv (token_init n b)" "al_size (token_init n b) = n" "token_held (token_init n b) = {}"
  "token_available_size (token_init n b) = n"
  by (auto simp: token_init_def token_clear_def allocator_init_def token_inv_def pages_ok_def free_set_def token_held_def token_available_size_def)

lemma swa_init_ledger:
  assumes "length (fresh (pool_size + size_swa + 1)) = pool_size + size_swa + 1"
  shows "sw.ledger (pool_size, size_swa) (min pool_size size_swa) (swa_init fresh pool_size size_swa need_sort, [])"
  unfolding sw.ledger_def using assms
  by (simp add: swa_shape_def swa_init_def swa_clear_def allocator.extend_def swa_inv_def swa_held_def swa_available_def full_available_size_def
      swa_available_size_def allocator_init_def bij_betw_def)
section \<open>Free groups\<close>

text \<open>Between \<open>free_group_begin\<close> and \<open>free_group_end\<close> the slots are only collected; all three classes share this contract.\<close>

definition free_in_one_group ::
  "(int list \<Rightarrow> ('z) allocator_scheme \<Rightarrow> ('z) allocator_scheme result) \<Rightarrow> int list list \<Rightarrow> ('z) allocator_scheme \<Rightarrow> ('z) allocator_scheme result" where
  "free_in_one_group free xss a = bind_res (fold_res free xss (free_group_begin a)) (free_group_end free)"

locale free_group =
  fixes inv :: "('z) allocator_scheme \<Rightarrow> bool" and free :: "int list \<Rightarrow> ('z) allocator_scheme \<Rightarrow> ('z) allocator_scheme result"
  assumes inv_outside: "inv a \<Longrightarrow> al_is_not_in_free_group a"
    and free_empty: "free [] a = Inr a"
    and free_inside: "inv a \<Longrightarrow> xs \<noteq> [] \<Longrightarrow> free xs (a\<lparr>al_is_not_in_free_group := False, al_free_group := g\<rparr>) =
      Inr (a\<lparr>al_is_not_in_free_group := False, al_free_group := g @ [xs]\<rparr>)"
    and free_ignores_group: "inv a \<Longrightarrow> free xs (a\<lparr>al_free_group := g\<rparr>) = bind_res (free xs a) (\<lambda>a'. Inr (a'\<lparr>al_free_group := g\<rparr>))"
begin

lemma collect:
  "inv a \<Longrightarrow> fold_res free xss (a\<lparr>al_is_not_in_free_group := False, al_free_group := g\<rparr>) =
     Inr (a\<lparr>al_is_not_in_free_group := False, al_free_group := g @ filter (\<lambda>xs. xs \<noteq> []) xss\<rparr>)"
proof (induction xss arbitrary: g)
  case (Cons xs xss)
  then show ?case by (cases "xs = []") (simp_all add: free_empty free_inside)
qed simp

lemma group_is_one_free:
  assumes "inv a"
  shows "free_in_one_group free xss a =
    bind_res (free (concat xss) a) (\<lambda>a'. Inr (a'\<lparr>al_free_group := filter (\<lambda>xs. xs \<noteq> []) xss\<rparr>))"
proof -
  let ?g = "filter (\<lambda>xs. xs \<noteq> []) xss"
  have flag: "a\<lparr>al_free_group := g, al_is_not_in_free_group := True\<rparr> = a\<lparr>al_free_group := g\<rparr>" for g
    using inv_outside[OF assms] by (cases a) simp
  have concat: "concat ?g = concat xss" by (induction xss) auto
  have empty: "concat xss = []" if "?g = []" using that concat by (metis concat.simps(1))
  have "free_in_one_group free xss a = free_group_end free (a\<lparr>al_is_not_in_free_group := False, al_free_group := ?g\<rparr>)"
    using collect[OF assms, of xss "[]"] by (simp add: free_in_one_group_def free_group_begin_def)
  also have "\<dots> = (if ?g \<noteq> [] then free (concat ?g) (a\<lparr>al_free_group := ?g\<rparr>) else Inr (a\<lparr>al_free_group := ?g\<rparr>))"
    by (simp add: free_group_end_def flag)
  also have "\<dots> = bind_res (free (concat xss) a) (\<lambda>a'. Inr (a'\<lparr>al_free_group := ?g\<rparr>))"
  proof (cases "?g = []")
    case True
    then show ?thesis by (simp only: True empty[OF True] free_empty bind_res.simps simp_thms if_False)
  next
    case False
    then show ?thesis by (simp only: concat free_ignores_group[OF assms] simp_thms if_True)
  qed
  finally show ?thesis .
qed

end

interpretation tkg: free_group token_inv token_free
  by unfold_locales (auto simp: token_inv_def pages_ok_def token_free_def)

interpretation pgg: free_group paged_inv paged_free
proof
  fix a :: paged_allocator and xs :: "int list" and g
  assume inv: "paged_inv a"
  then show "al_is_not_in_free_group a" by (simp add: paged_inv_def pages_ok_def)
  show "paged_free xs (a\<lparr>al_free_group := g\<rparr>) = bind_res (paged_free xs a) (\<lambda>a'. Inr (a'\<lparr>al_free_group := g\<rparr>))"
    using inv by (auto simp: paged_free_def Let_def py_assert_def paged_inv_def pages_ok_def)
  assume "xs \<noteq> []"
  then show "paged_free xs (a\<lparr>al_is_not_in_free_group := False, al_free_group := g\<rparr>) =
      Inr (a\<lparr>al_is_not_in_free_group := False, al_free_group := g @ [xs]\<rparr>)"
    using inv by (simp add: paged_free_def paged_inv_def pages_ok_def length_torch_unique)
qed (simp add: paged_free_def)

interpretation swg: free_group swa_inv swa_free
proof
  fix s :: swa_allocator and xs :: "int list" and g
  assume inv: "swa_inv s"
  then show "al_is_not_in_free_group s" by (simp add: swa_inv_def)
  have le: "token_available_size (sw_full s) \<le> al_size (sw_full s)" "token_available_size (sw_swa s) \<le> al_size (sw_swa s)"
    using inv token_available_le by (auto simp: swa_inv_def)
  show "swa_free xs (s\<lparr>al_free_group := g\<rparr>) = bind_res (swa_free xs s) (\<lambda>s'. Inr (s'\<lparr>al_free_group := g\<rparr>))"
    using inv by (cases s; cases "map_res (py_nth (sw_mapping s)) xs"; cases "scatter_index (sw_mapping s) (map (\<lambda>i. (i, 0)) xs)")
      (simp_all add: swa_free_def free_swa_def token_free_def py_assert_def swa_inv_def)
  assume "xs \<noteq> []"
  then show "swa_free xs (s\<lparr>al_is_not_in_free_group := False, al_free_group := g\<rparr>) =
      Inr (s\<lparr>al_is_not_in_free_group := False, al_free_group := g @ [xs]\<rparr>)"
    using le by (cases s) (simp add: swa_free_def)
qed (simp add: swa_free_def)

section \<open>Properties\<close>

lemma page_range: "0 < u \<Longrightarrow> i div int u \<in> {1..int n} \<Longrightarrow> i \<in> {int u..<int (Suc n * u)}"
proof -
  assume u: "0 < u" and i: "i div int u \<in> {1..int n}"
  have "i = (i div int u) * int u + i mod int u" "0 \<le> i mod int u" "i mod int u < int u" using u by auto
  moreover have "1 * int u \<le> (i div int u) * int u" "(i div int u) * int u \<le> int n * int u"
    using i by (intro mult_right_mono; simp)+
  moreover have "int (Suc n * u) = int n * int u + int u" by (simp add: algebra_simps)
  ultimately have "int u \<le> i \<and> i < int (Suc n * u)" by linarith
  then show ?thesis unfolding atLeastLessThan_iff .
qed

text \<open>
  (C8) The paged allocator never hands out a slot twice, never loses one and never refuses a request it can serve: after any sequence
  of allocations of whole pages and of returns of earlier blocks, in any order, the blocks that are out are disjoint, lie in the
  pool (page 0 is kept for padding), the free slots and the blocks together are the capacity, and the next request is refused exactly
  when it exceeds what is left. No step raises, with the debug assertions on or off.
\<close>

theorem paged_allocator_history:
  assumes "paged_init pool_size page_size need_sort debug_mode = Inr a" and "\<forall>n. Take n \<in> set reqs \<longrightarrow> page_size dvd n"
  shows "\<exists>s blocks. serve_slots paged_alloc paged_free reqs (a, []) = Inr (s, blocks) \<and> distinct (concat blocks) \<and>
    set (concat blocks) \<subseteq> {int page_size..<int (Suc (pool_size div page_size) * page_size)} \<and>
    available_size s + length (concat blocks) = pool_size div page_size * page_size \<and>
    (\<forall>n. page_size dvd n \<longrightarrow> (\<exists>r s'. paged_alloc n s = Inr (r, s') \<and>
       (r = None \<longleftrightarrow> pool_size div page_size * page_size < length (concat blocks) + n)))"
proof -
  let ?c = "(page_size, pool_size div page_size)"
  obtain s blocks where s: "serve_slots paged_alloc paged_free reqs (a, []) = Inr (s, blocks)"
    and l: "pg.ledger ?c (pool_size div page_size * page_size) (s, blocks)"
    using pg.serve_ledger[OF paged_init_ledger[OF assms(1)], of reqs] assms(2) by auto
  then have led: "paged_inv s" "paged_shape s = ?c" "distinct (concat blocks)" "paged_held s = set (concat blocks)"
    "available_size s + length (concat blocks) = pool_size div page_size * page_size" by (auto simp: pg.ledger_def)
  then have "0 < page_size" and "set (concat blocks) = {i. i div int page_size \<in> {1..int (pool_size div page_size)} - free_set s}"
    by (auto simp: paged_inv_def paged_shape_def paged_held_def)
  then have "set (concat blocks) \<subseteq> {int page_size..<int (Suc (pool_size div page_size) * page_size)}"
    using page_range[of page_size] by blast
  then show ?thesis using s led(3,5) pg.ledger_next[OF l] by simp
qed

theorem paged_allocator_history_witness:
  "\<exists>a s blocks. paged_init 19 4 True True = Inr a \<and>
     serve_slots paged_alloc paged_free [Take 8, Take 4, Give 0, Take 12] (a, []) = Inr (s, blocks) \<and> distinct (concat blocks) \<and>
     available_size s + length (concat blocks) = 19 div 4 * 4"
proof -
  obtain a where a: "paged_init 19 4 True True = Inr a" by (simp add: paged_init_def)
  have "\<forall>n. Take n \<in> set [Take 8, Take 4, Give 0, Take 12] \<longrightarrow> 4 dvd n" by auto
  from paged_allocator_history[OF a this] show ?thesis using a by blast
qed

text \<open>
  (C9) The pair of allocators for sliding-window attention: after any sequence of allocations and returns, the blocks that are out are
  disjoint, every slot of them is mapped to a slot of the window pool of its own, the two pools have each lost exactly the slots of the
  blocks, no assertion fails, and a request is refused exactly when one of the pools is too small for it.
\<close>

theorem swa_allocator_history:
  assumes "length (fresh (pool_size + size_swa + 1)) = pool_size + size_swa + 1"
  shows "\<exists>s blocks. serve_slots swa_alloc swa_free reqs (swa_init fresh pool_size size_swa need_sort, []) = Inr (s, blocks) \<and>
    distinct (concat blocks) \<and> set (concat blocks) \<subseteq> {1..int pool_size} \<and>
    (\<exists>ws. translate_loc_from_full_to_swa s (concat blocks) = Inr ws \<and> distinct ws \<and> set ws \<subseteq> {1..int size_swa}) \<and>
    full_available_size s + length (concat blocks) = pool_size \<and> swa_available_size s + length (concat blocks) = size_swa \<and>
    (\<forall>n. \<exists>r s'. swa_alloc n s = Inr (r, s') \<and> (r = None \<longleftrightarrow> min pool_size size_swa < length (concat blocks) + n))"
proof -
  obtain s blocks where s: "serve_slots swa_alloc swa_free reqs (swa_init fresh pool_size size_swa need_sort, []) = Inr (s, blocks)"
    and l: "sw.ledger (pool_size, size_swa) (min pool_size size_swa) (s, blocks)"
    using sw.serve_ledger[OF swa_init_ledger[of fresh, OF assms], of reqs need_sort] by auto
  then have inv: "swa_inv s" and led: "swa_shape s = (pool_size, size_swa)" "distinct (concat blocks)" "token_held (sw_full s) = set (concat blocks)"
    by (auto simp: sw.ledger_def swa_held_def)
  then have t: "token_inv (sw_full s)" "token_inv (sw_swa s)" "al_size (sw_full s) = pool_size" "al_size (sw_swa s) = size_swa"
    and bij: "bij_betw (swa_slot s) (set (concat blocks)) (token_held (sw_swa s))" and len: "pool_size < length (sw_mapping s)"
    by (auto simp: swa_inv_def swa_shape_def)
  have range: "set (concat blocks) \<subseteq> {1..int pool_size}" "token_held (sw_swa s) \<subseteq> {1..int size_swa}"
    using led(3) t(3,4) token_held_range[of "sw_full s"] token_held_range[of "sw_swa s"] by auto
  let ?ws = "map (swa_slot s) (concat blocks)"
  have "translate_loc_from_full_to_swa s (concat blocks) = Inr ?ws"
    unfolding translate_loc_from_full_to_swa_def
  proof (rule map_res_Inr)
    fix i assume "i \<in> set (concat blocks)"
    then have "1 \<le> i" "i < int (length (sw_mapping s))" using range(1) len by fastforce+
    then show "py_nth (sw_mapping s) i = Inr (swa_slot s i)" by (simp add: py_nth_def swa_slot_def)
  qed
  moreover have "distinct ?ws" "set ?ws = token_held (sw_swa s)" using bij led(2) by (auto simp: bij_betw_def distinct_map)
  moreover have "card (token_held (sw_swa s)) = length (concat blocks)"
    using bij_betw_same_card[OF bij] distinct_card[OF led(2)] by simp
  ultimately show ?thesis
    using s led(2,3) range sw.ledger_next[OF l] token_capacity[OF t(1)] token_capacity[OF t(2)] t(3,4) distinct_card[OF led(2)]
    by (auto simp: full_available_size_def swa_available_size_def)
qed

theorem swa_allocator_history_witness:
  "\<exists>s blocks. serve_slots swa_alloc swa_free [Take 3, Take 1, Give 0, Take 2] (swa_init (\<lambda>n. replicate n 7) 6 4 False, []) = Inr (s, blocks) \<and>
     distinct (concat blocks) \<and> swa_available_size s + length (concat blocks) = 4"
proof -
  have "length (replicate (6 + 4 + 1) (7::int)) = 6 + 4 + 1" by simp
  from swa_allocator_history[of "\<lambda>n. replicate n 7", OF this, of "[Take 3, Take 1, Give 0, Take 2]" False] show ?thesis by blast
qed

text \<open>
  Freeing in a group: between \<^verbatim>\<open>free_group_begin\<close> and \<^verbatim>\<open>free_group_end\<close> nothing is released, and the end releases
  what one call of \<^verbatim>\<open>free\<close> with all the indices would have, for the paged allocator, whatever the blocks overlap in.
\<close>

theorem paged_free_group_equivalent:
  assumes "paged_init pool_size page_size need_sort debug_mode = Inr a" and "\<forall>n. Take n \<in> set reqs \<longrightarrow> page_size dvd n"
    and "serve_slots paged_alloc paged_free reqs (a, []) = Inr (s, blocks)"
  shows "free_in_one_group paged_free xss s =
    bind_res (paged_free (concat xss) s) (\<lambda>s'. Inr (s'\<lparr>al_free_group := filter (\<lambda>xs. xs \<noteq> []) xss\<rparr>))"
proof -
  have "paged_inv s"
    using pg.serve_ledger[OF paged_init_ledger[OF assms(1)], of reqs] assms(2,3) by (auto simp: pg.ledger_def)
  then show ?thesis by (rule pgg.group_is_one_free)
qed

theorem paged_free_group_equivalent_witness:
  "\<exists>a s blocks. paged_init 19 4 False True = Inr a \<and> serve_slots paged_alloc paged_free [Take 8, Take 4] (a, []) = Inr (s, blocks) \<and>
     free_in_one_group paged_free [[4, 5], [], [8]] s =
       bind_res (paged_free (concat [[4, 5], [], [8]]) s) (\<lambda>s'. Inr (s'\<lparr>al_free_group := filter (\<lambda>xs. xs \<noteq> []) [[4, 5], [], [8]]\<rparr>))"
proof -
  obtain a where a: "paged_init 19 4 False True = Inr a" by (simp add: paged_init_def)
  have r: "\<forall>n. Take n \<in> set [Take 8, Take 4] \<longrightarrow> 4 dvd n" by auto
  obtain s blocks where "serve_slots paged_alloc paged_free [Take 8, Take 4] (a, []) = Inr (s, blocks)"
    using pg.serve_ledger[OF paged_init_ledger[OF a], of "[Take 8, Take 4]"] by auto
  then show ?thesis using paged_free_group_equivalent[OF a r, of s blocks "[[4, 5], [], [8]]"] a by blast
qed
end
