(* ===== verification/Kv_Batch.thy ===== *)
theory Kv_Batch
  imports Kv_Allocator
begin

text \<open>
  Allocation of KV slots for a batch of requests: the Triton kernels and the methods \<^verbatim>\<open>alloc_extend\<close> and \<^verbatim>\<open>alloc_decode\<close> of
  the paged allocator (\<^verbatim>\<open>sglang/srt/mem_cache/allocator.py\<close>).

  A program of a kernel is the list of its stores. The values of lanes that a mask excludes, the contents of fresh memory, what lies
  behind the end of a tensor and the order in which the stores of a launch take effect are fields of \<open>triton\<close>.
\<close>

section \<open>The kernels\<close>

record triton =
  tr_lane_seq :: "nat \<Rightarrow> int"
  tr_lane_pre :: "nat \<Rightarrow> int"
  tr_beyond :: "int \<Rightarrow> int"
  tr_fresh :: "nat \<Rightarrow> int list"
  tr_order :: "(int \<times> int) list list \<Rightarrow> (int \<times> int) list"

definition ceil_pages :: "int \<Rightarrow> int \<Rightarrow> int" where
  "ceil_pages page_size len = (len + page_size - 1) div page_size"

definition load_page :: "triton \<Rightarrow> int list \<Rightarrow> int \<Rightarrow> int" where
  "load_page tr free_pages k = (if 0 \<le> k \<and> k < int (length free_pages) then free_pages ! nat k else tr_beyond tr k)"

definition lanes :: "(nat \<Rightarrow> int) \<Rightarrow> int list \<Rightarrow> nat \<Rightarrow> nat \<Rightarrow> int list" where
  "lanes masked xs bs_upper pid = map (\<lambda>i. if i \<le> pid then xs ! i else masked i) [0..<bs_upper]"

definition store_range :: "int \<Rightarrow> int \<Rightarrow> (int \<Rightarrow> int) \<Rightarrow> nat \<Rightarrow> (int \<times> int) list" where
  "store_range base num val width = map (\<lambda>o'. (base + int o', val (int o'))) (filter (\<lambda>o'. int o' < num) [0..<width])"

definition alloc_extend_kernel ::
  "triton \<Rightarrow> int list \<Rightarrow> int list \<Rightarrow> int list \<Rightarrow> int list \<Rightarrow> nat \<Rightarrow> nat \<Rightarrow> nat \<Rightarrow> nat \<Rightarrow> (int \<times> int) list" where
  "alloc_extend_kernel tr pre_lens_ptr seq_lens_ptr last_loc_ptr free_page_ptr bs_upper page_size_nat max_num_extend_tokens pid =
     (let page_size = int page_size_nat;
          seq_lens = lanes (tr_lane_seq tr) seq_lens_ptr bs_upper pid;
          pre_lens = lanes (tr_lane_pre tr) pre_lens_ptr bs_upper pid;
          extend_lens = map2 (-) seq_lens pre_lens;
          seq_len = seq_lens_ptr ! pid;
          pre_len = pre_lens_ptr ! pid;
          extend_len = seq_len - pre_len;
          output_start_loc = sum_list extend_lens - extend_len;
          num_new_pages = map2 (\<lambda>s p. ceil_pages page_size s - ceil_pages page_size p) seq_lens pre_lens;
          num_page_start_loc_self = ceil_pages page_size seq_len - ceil_pages page_size pre_len;
          new_page_start_loc = sum_list num_new_pages - num_page_start_loc_self;
          last_loc = last_loc_ptr ! pid;
          num_part1 = min seq_len (ceil_pages page_size pre_len * page_size) - pre_len;
          part1 = store_range output_start_loc num_part1 (\<lambda>k. last_loc + 1 + k) page_size_nat
      in if pre_len + num_part1 = seq_len then part1
         else
           let num_part2 = seq_len div page_size * page_size - ceil_pages page_size pre_len * page_size;
               part2 = store_range (output_start_loc + num_part1) num_part2
                 (\<lambda>k. load_page tr free_page_ptr (new_page_start_loc + k div page_size) * page_size + k mod page_size) max_num_extend_tokens
           in if pre_len + num_part1 + num_part2 = seq_len then part1 @ part2
              else
                let num_part3 = seq_len - seq_len div page_size * page_size;
                    start_loc = load_page tr free_page_ptr (new_page_start_loc + num_page_start_loc_self - 1);
                    part3 = store_range (output_start_loc + num_part1 + num_part2) num_part3 (\<lambda>k. start_loc * page_size + k) page_size_nat
                in part1 @ part2 @ part3)"

definition alloc_decode_kernel ::
  "triton \<Rightarrow> int list \<Rightarrow> int list \<Rightarrow> int list \<Rightarrow> nat \<Rightarrow> nat \<Rightarrow> nat \<Rightarrow> (int \<times> int) list" where
  "alloc_decode_kernel tr seq_lens_ptr last_loc_ptr free_page_ptr bs_upper page_size_nat pid =
     (let page_size = int page_size_nat;
          seq_lens = lanes (tr_lane_seq tr) seq_lens_ptr bs_upper pid;
          pre_lens = map2 (\<lambda>i s. if i \<le> pid then s - 1 else s) [0..<bs_upper] seq_lens;
          seq_len = seq_lens_ptr ! pid;
          pre_len = seq_len - 1;
          num_new_pages = map2 (\<lambda>s p. ceil_pages page_size s - ceil_pages page_size p) seq_lens pre_lens;
          num_page_start_loc_self = ceil_pages page_size seq_len - ceil_pages page_size pre_len;
          new_page_start_loc = sum_list num_new_pages - num_page_start_loc_self
      in if num_page_start_loc_self = 0 then [(int pid, last_loc_ptr ! pid + 1)]
         else [(int pid, load_page tr free_page_ptr new_page_start_loc * page_size)])"

definition launch :: "triton \<Rightarrow> (nat \<Rightarrow> (int \<times> int) list) \<Rightarrow> nat \<Rightarrow> nat \<Rightarrow> int list" where
  "launch tr prog programs out_size =
     fold (\<lambda>(i, v) out. if 0 \<le> i then out[nat i := v] else out) (tr_order tr (map prog [0..<programs])) (tr_fresh tr out_size)"

section \<open>Allocation for a batch\<close>

fun bit_length :: "nat \<Rightarrow> nat" where
  "bit_length n = (if n = 0 then 0 else Suc (bit_length (n div 2)))"

declare bit_length.simps [simp del]

definition next_power_of_2 :: "nat \<Rightarrow> nat" where
  "next_power_of_2 n = (if 0 < n then 2 ^ bit_length (n - 1) else 1)"

definition get_num_new_pages :: "int list \<Rightarrow> int \<Rightarrow> int list option \<Rightarrow> bool \<Rightarrow> int result" where
  "get_num_new_pages seq_lens page_size prefix_lens decode =
     (if prefix_lens = None \<or> decode then
        py_assert decode (Inr (sum_list (map (\<lambda>s. if s mod page_size = 1 then 1 else 0) seq_lens)))
      else Inr (sum_list (map2 (\<lambda>s p. ceil_pages page_size s - ceil_pages page_size p) seq_lens (the prefix_lens))))"

text \<open>\<^verbatim>\<open>free_pages[n:]\<close>, where a negative \<open>n\<close> counts from the end.\<close>

definition take_pages :: "int \<Rightarrow> paged_allocator \<Rightarrow> int list \<Rightarrow> int list option \<times> paged_allocator" where
  "take_pages num_new_pages a out_indices =
     (if num_new_pages > int (length (al_free_pages a)) then (None, a)
      else (Some out_indices, a\<lparr>al_free_pages := py_slice (al_free_pages a) num_new_pages (int (length (al_free_pages a)))\<rparr>))"

text \<open>\<^verbatim>\<open>tl.arange\<close> over the page size compiles only for a power of two.\<close>

definition alloc_extend ::
  "triton \<Rightarrow> int list \<Rightarrow> int list \<Rightarrow> int list \<Rightarrow> int list \<Rightarrow> int list \<Rightarrow> nat \<Rightarrow> paged_allocator
   \<Rightarrow> (int list option \<times> paged_allocator) result" where
  "alloc_extend tr prefix_lens prefix_lens_cpu seq_lens seq_lens_cpu last_loc extend_num_tokens a =
     py_assert (pg_debug_mode a \<longrightarrow> (\<forall>(l, p) \<in> set (zip last_loc prefix_lens). (l + 1) mod int (al_page_size a) = p mod int (al_page_size a)))
       (let a = a\<lparr>pg_seen_max_num_extend_tokens := max (pg_seen_max_num_extend_tokens a) (next_power_of_2 extend_num_tokens)\<rparr>;
            bs = length prefix_lens;
            a = (if al_need_sort a \<and> extend_num_tokens div al_page_size a + bs + 1 > length (al_free_pages a) then merge_and_sort_free a else a);
            out_indices = launch tr (alloc_extend_kernel tr prefix_lens seq_lens last_loc (al_free_pages a) (next_power_of_2 bs) (al_page_size a)
                            (pg_seen_max_num_extend_tokens a)) bs extend_num_tokens
        in if next_power_of_2 (al_page_size a) \<noteq> al_page_size a then Inl ValueError
           else py_assert (pg_debug_mode a \<longrightarrow> length (torch_unique out_indices) = length out_indices)
             (bind_res (get_num_new_pages seq_lens_cpu (int (al_page_size a)) (Some prefix_lens_cpu) False) (\<lambda>num_new_pages.
              Inr (take_pages num_new_pages a out_indices))))"

definition alloc_decode ::
  "triton \<Rightarrow> int list \<Rightarrow> int list \<Rightarrow> int list \<Rightarrow> paged_allocator \<Rightarrow> (int list option \<times> paged_allocator) result" where
  "alloc_decode tr seq_lens seq_lens_cpu last_loc a =
     py_assert (pg_debug_mode a \<longrightarrow> (\<forall>(l, s) \<in> set (zip last_loc seq_lens). (l + 2) mod int (al_page_size a) = s mod int (al_page_size a)))
       (let bs = length seq_lens;
            a = (if al_need_sort a \<and> bs > length (al_free_pages a) then merge_and_sort_free a else a);
            out_indices = launch tr (alloc_decode_kernel tr seq_lens last_loc (al_free_pages a) (next_power_of_2 bs) (al_page_size a)) bs bs
        in py_assert (pg_debug_mode a \<longrightarrow> length (torch_unique out_indices) = length out_indices)
             (bind_res (get_num_new_pages seq_lens_cpu (int (al_page_size a)) None True) (\<lambda>num_new_pages.
              Inr (take_pages num_new_pages a out_indices))))"

section \<open>Page tables\<close>

text \<open>
  The reference: a request owns a table of pages, and the token at position \<open>p\<close> lives in the slot \<open>p mod page_size\<close> of the page
  number \<open>p div page_size\<close> of its table.
\<close>

definition cdiv :: "nat \<Rightarrow> nat \<Rightarrow> nat" where
  "cdiv ps n = (n + ps - 1) div ps"

definition table_slot :: "nat \<Rightarrow> int list \<Rightarrow> nat \<Rightarrow> int" where
  "table_slot ps table p = table ! (p div ps) * int ps + int (p mod ps)"

record kv_request =
  kr_prefix :: nat
  kr_seq :: nat
  kr_table :: "int list"

definition kr_new_pages :: "nat \<Rightarrow> kv_request \<Rightarrow> nat" where
  "kr_new_pages ps r = cdiv ps (kr_seq r) - cdiv ps (kr_prefix r)"

definition kr_ok :: "nat \<Rightarrow> kv_request \<Rightarrow> bool" where
  "kr_ok ps r \<longleftrightarrow> kr_prefix r \<le> kr_seq r \<and> length (kr_table r) = cdiv ps (kr_prefix r)"

definition kr_last_loc :: "nat \<Rightarrow> kv_request \<Rightarrow> int" where
  "kr_last_loc ps r = (if kr_prefix r = 0 then - 1 else table_slot ps (kr_table r) (kr_prefix r - 1))"

text \<open>Every request appends its share of the free pages to its table.\<close>

fun grow_tables :: "nat \<Rightarrow> int list \<Rightarrow> kv_request list \<Rightarrow> kv_request list" where
  "grow_tables ps free [] = []"
| "grow_tables ps free (r # rs) =
     r\<lparr>kr_table := kr_table r @ take (kr_new_pages ps r) free\<rparr> # grow_tables ps (drop (kr_new_pages ps r) free) rs"

definition new_slots :: "nat \<Rightarrow> kv_request \<Rightarrow> int list" where
  "new_slots ps r = map (table_slot ps (kr_table r)) [kr_prefix r..<kr_seq r]"

lemma cdiv_bounds:
  assumes "0 < ps"
  shows "n \<le> cdiv ps n * ps" "cdiv ps n * ps < n + ps"
proof -
  have "(n + ps - 1) div ps * ps + (n + ps - 1) mod ps = n + ps - 1" by simp
  moreover have "(n + ps - 1) mod ps < ps" using assms by simp
  ultimately show "n \<le> cdiv ps n * ps" "cdiv ps n * ps < n + ps" using assms unfolding cdiv_def by linarith+
qed

lemma cdiv_mono: "m \<le> n \<Longrightarrow> cdiv ps m \<le> cdiv ps n"
  by (simp add: cdiv_def div_le_mono)

lemma div_mod_split: "(n::nat) = q * ps + r \<Longrightarrow> r < ps \<Longrightarrow> n div ps = q \<and> n mod ps = r"
  by simp

lemma cdiv_div:
  assumes "0 < ps" shows "cdiv ps n = n div ps + (if n mod ps = 0 then 0 else 1)"
proof (cases "n mod ps = 0")
  case True
  then have "n + ps - 1 = n div ps * ps + (ps - 1)" using assms div_mult_mod_eq[of n ps] by linarith
  then show ?thesis using True assms div_mod_split[of "n + ps - 1" "n div ps" ps "ps - 1"] by (simp add: cdiv_def)
next
  case False
  have "n mod ps < ps" using assms by simp
  moreover have "n + ps - 1 = (n div ps + 1) * ps + (n mod ps - 1)"
    using assms False div_mult_mod_eq[of n ps] unfolding distrib_right by linarith
  ultimately show ?thesis using False div_mod_split[of "n + ps - 1" "n div ps + 1" ps "n mod ps - 1"] by (simp add: cdiv_def)
qed

lemma ceil_pages_int: "0 < ps \<Longrightarrow> ceil_pages (int ps) (int n) = int (cdiv ps n)"
proof -
  assume "0 < ps"
  then have "int n + int ps - 1 = int (n + ps - 1)" by simp
  then show ?thesis by (simp only: ceil_pages_def cdiv_def zdiv_int)
qed

lemma store_range_eq:
  "nat num \<le> width \<Longrightarrow> store_range base num val width = map (\<lambda>k. (base + int k, val (int k))) [0..<nat num]"
proof -
  assume "nat num \<le> width"
  then have "[0..<width] = [0..<nat num] @ [nat num..<width]" by (metis le_add_diff_inverse upt_add_eq_append zero_le)
  moreover have "filter (\<lambda>k. int k < num) [0..<nat num] = [0..<nat num]" "filter (\<lambda>k. int k < num) [nat num..<width] = []"
    by (auto simp: filter_empty_conv intro!: filter_True)
  ultimately have "filter (\<lambda>k. int k < num) [0..<width] = [0..<nat num]" by simp
  then show ?thesis by (simp add: store_range_def)
qed

lemma sum_lanes:
  assumes "pid < u"
  shows "sum_list (map2 f (lanes m xs u pid) (lanes m' ys u pid)) =
    (\<Sum>i\<le>pid. f (xs ! i) (ys ! i)) + (sum_list (map (\<lambda>i. f (m i) (m' i)) [Suc pid..<u]) :: int)"
proof -
  have u: "[0..<u] = [0..<Suc pid] @ [Suc pid..<u]" using assms upt_add_eq_append[of 0 "Suc pid" "u - Suc pid"] by simp
  have "map2 f (lanes m xs u pid) (lanes m' ys u pid) = map (\<lambda>i. if i \<le> pid then f (xs ! i) (ys ! i) else f (m i) (m' i)) [0..<u]"
    by (auto simp: lanes_def map2_map_map)
  also have "\<dots> = map (\<lambda>i. f (xs ! i) (ys ! i)) [0..<Suc pid] @ map (\<lambda>i. f (m i) (m' i)) [Suc pid..<u]"
    unfolding u map_append by (intro arg_cong2[of _ _ _ _ "(@)"] map_cong) auto
  finally show ?thesis by (simp add: interv_sum_list_conv_sum_set_nat lessThan_Suc_atMost[symmetric] atLeast0LessThan)
qed

text \<open>The three parts of a request: the old partial page, full new pages, the new partial page.\<close>

lemma slot_old_page:
  assumes ps: "0 < ps" and ok: "kr_ok ps r" and j: "kr_prefix r + j < cdiv ps (kr_prefix r) * ps"
  shows "table_slot ps (kr_table r @ new) (kr_prefix r + j) = kr_last_loc ps r + 1 + int j"
proof -
  let ?p = "kr_prefix r"
  have m: "?p mod ps \<noteq> 0"
  proof
    assume "?p mod ps = 0"
    then have "cdiv ps ?p * ps = ?p" using cdiv_div[OF ps, of ?p] by (auto simp: mult.commute)
    then show False using j by simp
  qed
  then have c: "cdiv ps ?p = Suc (?p div ps)" and pos: "0 < ?p" using cdiv_div[OF ps, of ?p] by (auto intro: Nat.gr0I)
  have "?p + j < ?p div ps * ps + ps" using j unfolding c by simp
  then have j': "?p mod ps + j < ps" using div_mult_mod_eq[of ?p ps] by linarith
  have s: "?p + j = ?p div ps * ps + (?p mod ps + j)" "?p - 1 = ?p div ps * ps + (?p mod ps - 1)"
    using m div_mult_mod_eq[of ?p ps] by linarith+
  have d: "(?p + j) div ps = ?p div ps \<and> (?p + j) mod ps = ?p mod ps + j" using s(1) j' by (rule div_mod_split)
  have "?p mod ps - 1 < ps" using j' by simp
  with s(2) have d': "(?p - 1) div ps = ?p div ps \<and> (?p - 1) mod ps = ?p mod ps - 1" by (rule div_mod_split)
  have "?p div ps < length (kr_table r)" using ok c by (simp add: kr_ok_def)
  then show ?thesis using pos m by (simp add: kr_last_loc_def table_slot_def d d'[unfolded One_nat_def] nth_append of_nat_diff)
qed

lemma slot_new_page:
  assumes ps: "0 < ps" and ok: "kr_ok ps r" and k: "cdiv ps (kr_prefix r) * ps + k < kr_seq r" and n: "n + kr_new_pages ps r \<le> length free"
  shows "table_slot ps (kr_table r @ take (kr_new_pages ps r) (drop n free)) (cdiv ps (kr_prefix r) * ps + k) =
    free ! (n + k div ps) * int ps + int (k mod ps)" "n + k div ps < length free"
proof -
  let ?c = "cdiv ps (kr_prefix r)"
  have "(?c + k div ps) * ps < cdiv ps (kr_seq r) * ps"
    using k cdiv_bounds(1)[OF ps, of "kr_seq r"] div_mult_mod_eq[of k ps] unfolding distrib_right by linarith
  then have b: "k div ps < kr_new_pages ps r" using ps by (simp add: kr_new_pages_def)
  then show "n + k div ps < length free" using n by simp
  have "(?c * ps + k) div ps = ?c + k div ps" using ps by simp
  moreover have "(?c * ps + k) mod ps = k mod ps" by simp
  ultimately show "table_slot ps (kr_table r @ take (kr_new_pages ps r) (drop n free)) (?c * ps + k) = free ! (n + k div ps) * int ps + int (k mod ps)"
    using ok b n by (simp add: table_slot_def kr_ok_def nth_append)
qed
section \<open>The extend kernel\<close>

definition pages_before :: "nat \<Rightarrow> kv_request list \<Rightarrow> nat \<Rightarrow> nat" where
  "pages_before ps rs pid = sum_list (map (kr_new_pages ps) (take pid rs))"

definition tokens_before :: "kv_request list \<Rightarrow> nat \<Rightarrow> nat" where
  "tokens_before rs pid = sum_list (map (\<lambda>r. kr_seq r - kr_prefix r) (take pid rs))"

definition grown :: "nat \<Rightarrow> int list \<Rightarrow> kv_request list \<Rightarrow> nat \<Rightarrow> kv_request" where
  "grown ps free rs pid =
     (rs ! pid)\<lparr>kr_table := kr_table (rs ! pid) @ take (kr_new_pages ps (rs ! pid)) (drop (pages_before ps rs pid) free)\<rparr>"

lemma sum_upto_take: "pid < length rs \<Longrightarrow> (\<Sum>i\<le>pid. f (rs ! i)) = sum_list (map f (take pid rs)) + (f (rs ! pid) :: int)"
proof -
  assume p: "pid < length rs"
  have "(\<Sum>i\<le>pid. f (rs ! i)) = (\<Sum>i = 0..<pid. f (rs ! i)) + f (rs ! pid)" by (simp add: atMost_Suc_eq_insert_0 lessThan_Suc_atMost[symmetric] atLeast0LessThan)
  also have "(\<Sum>i = 0..<pid. f (rs ! i)) = sum_list (map (\<lambda>i. f (rs ! i)) [0..<pid])" by (simp add: interv_sum_list_conv_sum_set_nat)
  also have "map (\<lambda>i. f (rs ! i)) [0..<pid] = map f (take pid rs)" using p by (intro nth_equalityI) auto
  finally show ?thesis .
qed

lemma sum_list_int: "int (sum_list (map f xs)) = sum_list (map (\<lambda>x. int (f x)) xs)"
  by (induction xs) auto

abbreviation prefix_tensor :: "kv_request list \<Rightarrow> int list" where
  "prefix_tensor rs \<equiv> map (\<lambda>r. int (kr_prefix r)) rs"

abbreviation seq_tensor :: "kv_request list \<Rightarrow> int list" where
  "seq_tensor rs \<equiv> map (\<lambda>r. int (kr_seq r)) rs"

lemma tokens_before_int:
  assumes "\<forall>r \<in> set rs. kr_ok ps r"
  shows "int (tokens_before rs pid) = sum_list (map (\<lambda>r. int (kr_seq r) - int (kr_prefix r)) (take pid rs))"
  unfolding tokens_before_def sum_list_int using assms
  by (intro arg_cong[of _ _ sum_list] map_cong) (auto simp: of_nat_diff kr_ok_def dest: in_set_takeD)

lemma new_pages_int:
  "0 < ps \<Longrightarrow> kr_ok ps r \<Longrightarrow> int (kr_new_pages ps r) = ceil_pages (int ps) (int (kr_seq r)) - ceil_pages (int ps) (int (kr_prefix r))"
  by (simp add: kr_new_pages_def kr_ok_def of_nat_diff cdiv_mono ceil_pages_int)

lemma pages_before_int:
  assumes "0 < ps" and "\<forall>r \<in> set rs. kr_ok ps r"
  shows "int (pages_before ps rs pid) = sum_list (map (\<lambda>r. ceil_pages (int ps) (int (kr_seq r)) - ceil_pages (int ps) (int (kr_prefix r))) (take pid rs))"
  unfolding pages_before_def sum_list_int using assms
  by (intro arg_cong[of _ _ sum_list] map_cong) (auto simp: new_pages_int dest: in_set_takeD)

text \<open>
  What the lanes behind a program add to its sums. The loads of \<^verbatim>\<open>alloc_extend_kernel\<close> mask these lanes without a value for them, so Triton leaves
  their contents open.
\<close>

definition masked_tokens :: "triton \<Rightarrow> nat \<Rightarrow> nat \<Rightarrow> int" where
  "masked_tokens tr bs_upper pid = sum_list (map (\<lambda>i. tr_lane_seq tr i - tr_lane_pre tr i) [Suc pid..<bs_upper])"

definition masked_pages :: "triton \<Rightarrow> nat \<Rightarrow> nat \<Rightarrow> nat \<Rightarrow> int" where
  "masked_pages tr ps bs_upper pid =
     sum_list (map (\<lambda>i. ceil_pages (int ps) (tr_lane_seq tr i) - ceil_pages (int ps) (tr_lane_pre tr i)) [Suc pid..<bs_upper])"

text \<open>The free pages as a program sees them whose page index is off by \<open>d\<close>.\<close>

definition displaced :: "triton \<Rightarrow> int \<Rightarrow> int list \<Rightarrow> int list" where
  "displaced tr d free = map (\<lambda>k. load_page tr free (int k + d)) [0..<length free]"

lemma displaced_0 [simp]: "displaced tr 0 free = free"
  by (intro nth_equalityI) (simp_all add: displaced_def load_page_def)

lemma length_displaced [simp]: "length (displaced tr d free) = length free"
  by (simp add: displaced_def)

lemma masked_cancel:
  assumes "tr_lane_seq tr = tr_lane_pre tr" shows "masked_tokens tr u pid = 0" "masked_pages tr ps u pid = 0"
  by (simp_all add: masked_tokens_def masked_pages_def assms)

lemma extend_starts:
  assumes ps: "0 < ps" and ok: "\<forall>r \<in> set rs. kr_ok ps r" and pid: "pid < length rs" "pid < u"
  shows "sum_list (map2 (-) (lanes (tr_lane_seq tr) (seq_tensor rs) u pid) (lanes (tr_lane_pre tr) (prefix_tensor rs) u pid)) =
      int (tokens_before rs pid) + masked_tokens tr u pid + (int (kr_seq (rs ! pid)) - int (kr_prefix (rs ! pid)))"
    "sum_list (map2 (\<lambda>s p. ceil_pages (int ps) s - ceil_pages (int ps) p) (lanes (tr_lane_seq tr) (seq_tensor rs) u pid) (lanes (tr_lane_pre tr) (prefix_tensor rs) u pid)) =
      int (pages_before ps rs pid) + masked_pages tr ps u pid + int (kr_new_pages ps (rs ! pid))"
proof -
  note tok = tokens_before_int[OF ok] and pag = pages_before_int[OF ps ok]
  have nths: "(\<Sum>i\<le>pid. f (seq_tensor rs ! i) (prefix_tensor rs ! i)) = (\<Sum>i\<le>pid. f (int (kr_seq (rs ! i))) (int (kr_prefix (rs ! i))))" for f :: "int \<Rightarrow> int \<Rightarrow> int"
    using pid(1) by (intro sum.cong) auto
  show "sum_list (map2 (-) (lanes (tr_lane_seq tr) (seq_tensor rs) u pid) (lanes (tr_lane_pre tr) (prefix_tensor rs) u pid)) =
      int (tokens_before rs pid) + masked_tokens tr u pid + (int (kr_seq (rs ! pid)) - int (kr_prefix (rs ! pid)))"
    using sum_upto_take[OF pid(1), of "\<lambda>r. int (kr_seq r) - int (kr_prefix r)"] unfolding tok sum_lanes[OF pid(2)] nths masked_tokens_def by simp
  have "int (kr_new_pages ps (rs ! pid)) = ceil_pages (int ps) (int (kr_seq (rs ! pid))) - ceil_pages (int ps) (int (kr_prefix (rs ! pid)))"
    using ok pid(1) by (simp add: new_pages_int[OF ps])
  then show "sum_list (map2 (\<lambda>s p. ceil_pages (int ps) s - ceil_pages (int ps) p) (lanes (tr_lane_seq tr) (seq_tensor rs) u pid) (lanes (tr_lane_pre tr) (prefix_tensor rs) u pid)) =
      int (pages_before ps rs pid) + masked_pages tr ps u pid + int (kr_new_pages ps (rs ! pid))"
    using sum_upto_take[OF pid(1), of "\<lambda>r. ceil_pages (int ps) (int (kr_seq r)) - ceil_pages (int ps) (int (kr_prefix r))"]
    unfolding pag sum_lanes[OF pid(2)] masked_pages_def nths[of "\<lambda>s p. ceil_pages (int ps) s - ceil_pages (int ps) p"] by simp
qed
lemma store_range_part:
  assumes "num = int n" and "n \<le> width" and "base = int (t + a) + D" and "\<And>k. k < n \<Longrightarrow> val (int k) = v (a + k)"
  shows "store_range base num val width = map (\<lambda>j. (int (t + j) + D, v j)) [a..<a + n]"
proof -
  have "store_range base num val width = map (\<lambda>k. (base + int k, val (int k))) [0..<n]" using assms(1,2) by (simp add: store_range_eq)
  also have "\<dots> = map (\<lambda>j. (int (t + j) + D, v j)) [a..<a + n]" using assms(3,4) by (intro nth_equalityI) (auto simp: ac_simps)
  finally show ?thesis .
qed

lemma part_old:
  assumes ps: "0 < ps" and ok: "kr_ok ps r" and m: "kr_prefix r \<le> m" "m \<le> cdiv ps (kr_prefix r) * ps"
  shows "store_range (int t + D) (int m - int (kr_prefix r)) (\<lambda>k. kr_last_loc ps r + 1 + k) ps =
    map (\<lambda>j. (int (t + j) + D, table_slot ps (kr_table r @ new) (kr_prefix r + j))) [0..<m - kr_prefix r]"
  using m cdiv_bounds[OF ps, of "kr_prefix r"] slot_old_page[OF ps ok]
  by (subst store_range_part[where a = 0 and n = "m - kr_prefix r" and t = t and D = D]) auto

lemma load_new_page:
  assumes "0 < ps" and "kr_ok ps r" and "cdiv ps (kr_prefix r) * ps + k < kr_seq r" and "n + kr_new_pages ps r \<le> length free"
  shows "load_page tr free (int n + d + int k div int ps) * int ps + int k mod int ps =
    table_slot ps (kr_table r @ take (kr_new_pages ps r) (drop n (displaced tr d free))) (cdiv ps (kr_prefix r) * ps + k)"
proof -
  have "n + kr_new_pages ps r \<le> length (displaced tr d free)" using assms(4) by simp
  note slot = slot_new_page[OF assms(1,2,3) this]
  have "displaced tr d free ! (n + k div ps) = load_page tr free (int n + d + int k div int ps)"
    using slot(2) by (simp add: displaced_def zdiv_int ac_simps)
  then show ?thesis using slot(1) by (simp add: zmod_int)
qed

lemma part_full:
  assumes ps: "0 < ps" and ok: "kr_ok ps r" and m: "cdiv ps (kr_prefix r) * ps \<le> m" "m \<le> kr_seq r" "m - cdiv ps (kr_prefix r) * ps \<le> w"
    and n: "n + kr_new_pages ps r \<le> length free"
  shows "store_range (int t + D + (int (cdiv ps (kr_prefix r) * ps) - int (kr_prefix r))) (int m - int (cdiv ps (kr_prefix r) * ps))
      (\<lambda>k. load_page tr free (int n + d + k div int ps) * int ps + k mod int ps) w =
    map (\<lambda>j. (int (t + j) + D, table_slot ps (kr_table r @ take (kr_new_pages ps r) (drop n (displaced tr d free))) (kr_prefix r + j)))
      [cdiv ps (kr_prefix r) * ps - kr_prefix r..<m - kr_prefix r]"
proof -
  let ?c = "cdiv ps (kr_prefix r) * ps"
  have c: "kr_prefix r \<le> ?c" by (rule cdiv_bounds(1)[OF ps])
  have v: "load_page tr free (int n + d + int k div int ps) * int ps + int k mod int ps =
      table_slot ps (kr_table r @ take (kr_new_pages ps r) (drop n (displaced tr d free))) (kr_prefix r + (?c - kr_prefix r + k))" if "k < m - ?c" for k
  proof -
    have "?c + k < kr_seq r" "kr_prefix r + (?c - kr_prefix r + k) = ?c + k" using that m c by linarith+
    then show ?thesis using load_new_page[OF ps ok _ n] by simp
  qed
  have e: "(?c - kr_prefix r) + (m - ?c) = m - kr_prefix r" "int t + D + (int ?c - int (kr_prefix r)) = int (t + (?c - kr_prefix r)) + D"
    "int m - int ?c = int (m - ?c)" using m c by linarith+
  show ?thesis
    unfolding e(2,3) e(1)[symmetric]
    by (rule store_range_part[where v = "\<lambda>j. table_slot ps (kr_table r @ take (kr_new_pages ps r) (drop n (displaced tr d free))) (kr_prefix r + j)", OF refl m(3) refl v])
qed

lemma part_last:
  assumes ps: "0 < ps" and ok: "kr_ok ps r" and c: "cdiv ps (kr_prefix r) \<le> kr_seq r div ps" and d: "kr_seq r div ps * ps < kr_seq r"
    and n: "n + kr_new_pages ps r \<le> length free"
  shows "store_range (int t + D + (int (kr_seq r div ps * ps) - int (kr_prefix r))) (int (kr_seq r) - int (kr_seq r div ps * ps))
      (\<lambda>k. load_page tr free (int n + d + int (kr_new_pages ps r) - 1) * int ps + k) ps =
    map (\<lambda>j. (int (t + j) + D, table_slot ps (kr_table r @ take (kr_new_pages ps r) (drop n (displaced tr d free))) (kr_prefix r + j)))
      [kr_seq r div ps * ps - kr_prefix r..<kr_seq r - kr_prefix r]"
proof -
  let ?c = "cdiv ps (kr_prefix r)" and ?d = "kr_seq r div ps" and ?S = "kr_seq r" and ?P = "kr_prefix r"
  have "?c * ps \<le> ?d * ps" using c by simp
  then have b: "?P \<le> ?c * ps" "?c * ps \<le> ?d * ps" "?P \<le> ?d * ps" using cdiv_bounds(1)[OF ps, of ?P] by linarith+
  have s: "?S - ?d * ps < ps" using div_mult_mod_eq[of ?S ps] mod_less_divisor[OF ps, of ?S] by linarith
  have "?S mod ps \<noteq> 0" using d div_mult_mod_eq[of ?S ps] by linarith
  then have kn: "int n + d + int (kr_new_pages ps r) - 1 = int n + d + int (?d - ?c)" using c cdiv_div[OF ps, of ?S] by (auto simp: kr_new_pages_def)
  have v: "load_page tr free (int n + d + int (kr_new_pages ps r) - 1) * int ps + int k =
      table_slot ps (kr_table r @ take (kr_new_pages ps r) (drop n (displaced tr d free))) (?P + (?d * ps - ?P + k))" if "k < ?S - ?d * ps" for k
  proof -
    have e: "?c * ps + ((?d - ?c) * ps + k) = ?d * ps + k" "?P + (?d * ps - ?P + k) = ?d * ps + k"
      using b diff_mult_distrib[of ?d ?c ps] by linarith+
    have m: "((?d - ?c) * ps + k) div ps = ?d - ?c \<and> ((?d - ?c) * ps + k) mod ps = k" using that s by (intro div_mod_split) auto
    have "?c * ps + ((?d - ?c) * ps + k) < ?S" using that unfolding e(1) by linarith
    from load_new_page[OF ps ok this n, of tr] show ?thesis unfolding e kn using m by (simp only: zdiv_int[symmetric] zmod_int[symmetric])
  qed
  have e: "(?d * ps - ?P) + (?S - ?d * ps) = ?S - ?P" "int t + D + (int (?d * ps) - int ?P) = int (t + (?d * ps - ?P)) + D" "int ?S - int (?d * ps) = int (?S - ?d * ps)"
    using b d by linarith+
  show ?thesis
    unfolding e(2,3) e(1)[symmetric]
    by (rule store_range_part[where v = "\<lambda>j. table_slot ps (kr_table r @ take (kr_new_pages ps r) (drop n (displaced tr d free))) (?P + j)", OF refl _ refl v])
      (use s in simp)
qed

lemma extend_kernel_displaced:
  assumes ps: "0 < ps" and ok: "\<forall>r \<in> set rs. kr_ok ps r" and pid: "pid < length rs" "pid < u"
    and pages: "pages_before ps rs pid + kr_new_pages ps (rs ! pid) \<le> length free" and width: "kr_seq (rs ! pid) - kr_prefix (rs ! pid) \<le> w"
  shows "alloc_extend_kernel tr (prefix_tensor rs) (seq_tensor rs) (map (kr_last_loc ps) rs) free u ps w pid =
    map (\<lambda>j. (int (tokens_before rs pid + j) + masked_tokens tr u pid,
        table_slot ps (kr_table (grown ps (displaced tr (masked_pages tr ps u pid) free) rs pid)) (kr_prefix (rs ! pid) + j)))
      [0..<kr_seq (rs ! pid) - kr_prefix (rs ! pid)]"
proof -
  let ?r = "rs ! pid"
  let ?P = "kr_prefix ?r" and ?S = "kr_seq ?r" and ?D = "masked_tokens tr u pid" and ?free = "displaced tr (masked_pages tr ps u pid) free"
  define c d where "c = cdiv ps ?P * ps" and "d = ?S div ps * ps"
  let ?g = "\<lambda>j. (int (tokens_before rs pid + j) + ?D, table_slot ps (kr_table (grown ps ?free rs pid)) (?P + j))"
  have r: "kr_ok ps ?r" "?P \<le> ?S" using ok pid by (auto simp: kr_ok_def)
  have self: "ceil_pages (int ps) (int ?S) - ceil_pages (int ps) (int ?P) = int (kr_new_pages ps ?r)"
    using new_pages_int[OF ps r(1)] by simp
  have table: "kr_table ?r @ take (kr_new_pages ps ?r) (drop (pages_before ps rs pid) ?free) = kr_table (grown ps ?free rs pid)" by (simp add: grown_def)
  have scale: "ceil_pages (int ps) (int ?P) * int ps = int c" "int ?S div int ps * int ps = int d"
    by (simp_all add: ceil_pages_int[OF ps] zdiv_int c_def d_def)
  note kernel = alloc_extend_kernel_def Let_def extend_starts[OF ps ok pid] self nth_map[OF pid(1)] scale add_diff_cancel_right'
  note old = part_old[OF ps r(1), of _ "tokens_before rs pid" ?D "take (kr_new_pages ps ?r) (drop (pages_before ps rs pid) ?free)", unfolded table, folded c_def]
  note full = part_full[OF ps r(1) _ _ _ pages, of _ w "tokens_before rs pid" ?D tr "masked_pages tr ps u pid", unfolded table, folded c_def]
  note last = part_last[OF ps r(1) _ _ pages, of "tokens_before rs pid" ?D tr "masked_pages tr ps u pid", unfolded table, folded c_def d_def]
  show ?thesis
  proof (cases "?S \<le> c")
    case True
    then have "min (int ?S) (int c) = int ?S" by simp
    then show ?thesis using old[of ?S] r(2) True unfolding kernel by simp
  next
    case False
    have div: "cdiv ps ?P \<le> ?S div ps" using False ps unfolding c_def by (metis less_eq_div_iff_mult_less_eq nat_le_linear)
    then have b: "?P \<le> c" "c \<le> d" "d \<le> ?S" using cdiv_bounds(1)[OF ps, of ?P] by (simp_all add: c_def d_def)
    have w: "d - c \<le> w" using b width by linarith
    have m: "min (int ?S) (int c) = int c" "int ?P + (int c - int ?P) \<noteq> int ?S" using False by simp_all
    have s: "int ?P + (int c - int ?P) + (int d - int c) = int ?S \<longleftrightarrow> d = ?S"
      "int (tokens_before rs pid) + ?D + (int c - int ?P) + (int d - int c) = int (tokens_before rs pid) + ?D + (int d - int ?P)" by linarith+
    have upt: "[0..<c - ?P] @ [c - ?P..<d - ?P] = [0..<d - ?P]" "[0..<d - ?P] @ [d - ?P..<?S - ?P] = [0..<?S - ?P]"
      using b upt_add_eq_append[of 0 "c - ?P" "d - c"] upt_add_eq_append[of 0 "d - ?P" "?S - d"] by simp_all
    have two: "map ?g [0..<c - ?P] @ map ?g [c - ?P..<d - ?P] = map ?g [0..<d - ?P]" unfolding map_append[symmetric] upt ..
    have three: "map ?g [0..<d - ?P] @ map ?g [d - ?P..<?S - ?P] = map ?g [0..<?S - ?P]" unfolding map_append[symmetric] upt ..
    show ?thesis
    proof (cases "d = ?S")
      case True
      then show ?thesis
        unfolding kernel m(1) s using m(2) old[OF b(1) order_refl] full[OF b(2,3) w] two by (simp only: if_False if_True simp_thms)
    next
      case d: False
      then show ?thesis
        unfolding kernel m(1) s using m(2) old[OF b(1) order_refl] full[OF b(2,3) w] last[OF div] b(3) two three
        by (simp only: if_False append_assoc[symmetric] nat_less_le simp_thms)
    qed
  qed
qed
section \<open>Launching the kernel\<close>

text \<open>
  What is documented of a launch: every store takes effect once, in some order, and an output tensor has the size it is created with.
\<close>

definition triton_ok :: "triton \<Rightarrow> bool" where
  "triton_ok tr \<longleftrightarrow> (\<forall>stores. mset (tr_order tr stores) = mset (concat stores)) \<and> (\<forall>n. length (tr_fresh tr n) = n)"

lemma fold_stores:
  assumes "distinct (map fst stores)" and "\<forall>(i, v) \<in> set stores. 0 \<le> i"
    and "f = (\<lambda>(i, v) out. if 0 \<le> i then out[nat i := v] else out)"
  shows "length (fold f stores out) = length out \<and>
    (\<forall>k < length out. (\<forall>v. (int k, v) \<in> set stores \<longrightarrow> fold f stores out ! k = v) \<and>
       (int k \<notin> fst ` set stores \<longrightarrow> fold f stores out ! k = out ! k))"
  using assms(1,2)
proof (induction stores arbitrary: out)
  case (Cons st stores)
  obtain i w where st: "st = (i, w)" by (cases st)
  then have i: "0 \<le> i" "i \<notin> fst ` set stores" using Cons.prems by auto
  have IH: "length (fold f stores (out[nat i := w])) = length out"
    "\<And>k v. k < length out \<Longrightarrow> (int k, v) \<in> set stores \<Longrightarrow> fold f stores (out[nat i := w]) ! k = v"
    "\<And>k. k < length out \<Longrightarrow> int k \<notin> fst ` set stores \<Longrightarrow> fold f stores (out[nat i := w]) ! k = out[nat i := w] ! k"
    using Cons.IH[of "out[nat i := w]"] Cons.prems by auto
  have "f st out = out[nat i := w]" using assms(3) st i by simp
  moreover have "fold f stores (out[nat i := w]) ! k = v" if "k < length out" "(int k, v) = (i, w)" for k v
    using IH(3)[OF that(1)] that i by auto
  moreover have "out[nat i := w] ! k = out ! k" if "int k \<noteq> i" for k using that i(1) by (cases "nat i = k") auto
  ultimately show ?case using IH st by auto
qed simp

lemma launch_enumerate:
  assumes tr: "triton_ok tr" and stores: "concat (map prog [0..<m]) = map (\<lambda>k. (int k, ref ! k)) [0..<length ref]"
  shows "launch tr prog m (length ref) = ref"
proof -
  let ?s = "tr_order tr (map prog [0..<m])" and ?f = "\<lambda>(i, v) out. if 0 \<le> i then out[nat i := v] else out"
  have ms: "mset ?s = mset (map (\<lambda>k. (int k, ref ! k)) [0..<length ref])" using tr stores by (simp add: triton_ok_def)
  then have set: "set ?s = set (map (\<lambda>k. (int k, ref ! k)) [0..<length ref])" by (rule mset_eq_setD)
  have "mset (map fst ?s) = mset (map fst (map (\<lambda>k. (int k, ref ! k)) [0..<length ref]))" using ms by (metis mset_map)
  then have d: "distinct (map fst ?s)" using mset_eq_imp_distinct_iff by (fastforce simp: distinct_map inj_on_def comp_def)
  have pos: "\<forall>(i, v) \<in> set ?s. 0 \<le> i" unfolding set by auto
  have len: "length (tr_fresh tr (length ref)) = length ref" using tr by (simp add: triton_ok_def)
  show ?thesis
  proof (intro nth_equalityI)
    show "length (launch tr prog m (length ref)) = length ref" using fold_stores[OF d pos refl] len by (simp add: launch_def)
  next
    fix k assume "k < length (launch tr prog m (length ref))"
    then have k: "k < length ref" using fold_stores[OF d pos refl] len by (simp add: launch_def)
    then have "(int k, ref ! k) \<in> set ?s" unfolding set by auto
    then show "launch tr prog m (length ref) ! k = ref ! k" using fold_stores[OF d pos refl] k len by (simp add: launch_def)
  qed
qed

lemma concat_enumerate:
  assumes "\<And>i. i < m \<Longrightarrow> start i = sum_list (map (\<lambda>i. length (L i)) [0..<i])"
  shows "concat (map (\<lambda>i. map (\<lambda>j. (int (start i + j), L i ! j)) [0..<length (L i)]) [0..<m]) =
    map (\<lambda>k. (int k, concat (map L [0..<m]) ! k)) [0..<length (concat (map L [0..<m]))]"
  using assms
proof (induction m)
  case (Suc m)
  let ?c = "concat (map L [0..<m])"
  have start: "start m = length ?c" using Suc.prems[of m] by (simp add: length_concat comp_def)
  have "map (\<lambda>k. (int k, (?c @ L m) ! k)) [0..<length ?c + length (L m)] =
    map (\<lambda>k. (int k, ?c ! k)) [0..<length ?c] @ map (\<lambda>j. (int (start m + j), L m ! j)) [0..<length (L m)]"
    unfolding start by (intro nth_equalityI) (auto simp: nth_append)
  then show ?case using Suc by simp
qed simp

lemma grow_tables_nth: "pid < length rs \<Longrightarrow> grow_tables ps free rs ! pid = grown ps free rs pid"
proof (induction rs arbitrary: free pid)
  case (Cons r rs)
  then show ?case by (cases pid) (auto simp: grown_def pages_before_def add.commute)
qed simp

lemma length_grow_tables [simp]: "length (grow_tables ps free rs) = length rs"
  by (induction rs arbitrary: free) auto

definition total_new_pages :: "nat \<Rightarrow> kv_request list \<Rightarrow> nat" where
  "total_new_pages ps rs = sum_list (map (kr_new_pages ps) rs)"

definition extend_tokens :: "kv_request list \<Rightarrow> nat" where
  "extend_tokens rs = sum_list (map (\<lambda>r. kr_seq r - kr_prefix r) rs)"

lemma grow_tables_eq_map: "grow_tables ps free rs = map (grown ps free rs) [0..<length rs]"
  by (intro nth_equalityI) (simp_all add: grow_tables_nth)

lemma length_new_slots: "length (concat (map (new_slots ps) (grow_tables ps free rs))) = extend_tokens rs"
  by (induction rs arbitrary: free) (simp_all add: extend_tokens_def new_slots_def)

lemma sum_list_take_le: "pid < length xs \<Longrightarrow> sum_list (map f (take pid xs)) + f (xs ! pid) \<le> (sum_list (map f xs) :: nat)"
proof -
  assume "pid < length xs"
  then have "map f xs = map f (take pid xs) @ f (xs ! pid) # map f (drop (Suc pid) xs)" by (metis id_take_nth_drop list.simps(9) map_append)
  then show ?thesis by simp
qed

text \<open>A kernel whose programs store the slots of their requests one behind the other fills the output with the slots of all.\<close>

lemma launch_batch:
  assumes tr: "triton_ok tr"
    and prog: "\<And>i. i < length rs \<Longrightarrow> prog i = map (\<lambda>j. (int (tokens_before rs i + j), table_slot ps (kr_table (grown ps free rs i)) (kr_prefix (rs ! i) + j)))
      [0..<kr_seq (rs ! i) - kr_prefix (rs ! i)]"
  shows "launch tr prog (length rs) (extend_tokens rs) = concat (map (new_slots ps) (grow_tables ps free rs))"
proof -
  let ?L = "\<lambda>i. new_slots ps (grown ps free rs i)"
  have len: "length (?L i) = kr_seq (rs ! i) - kr_prefix (rs ! i)" for i by (simp add: new_slots_def grown_def)
  have start: "tokens_before rs i = sum_list (map (\<lambda>i. length (?L i)) [0..<i])" if "i < length rs" for i
  proof -
    have "map (\<lambda>i. length (?L i)) [0..<i] = map (\<lambda>r. kr_seq r - kr_prefix r) (take i rs)" using that len by (intro nth_equalityI) auto
    then show ?thesis by (simp add: tokens_before_def)
  qed
  have k: "prog i = map (\<lambda>j. (int (tokens_before rs i + j), ?L i ! j)) [0..<length (?L i)]" if "i < length rs" for i
    using prog[OF that] by (simp add: len) (simp add: new_slots_def grown_def)
  have "concat (map prog [0..<length rs]) = concat (map (\<lambda>i. map (\<lambda>j. (int (tokens_before rs i + j), ?L i ! j)) [0..<length (?L i)]) [0..<length rs])"
    by (intro arg_cong[of _ _ concat] map_cong refl k) simp
  also have "\<dots> = map (\<lambda>k. (int k, concat (map ?L [0..<length rs]) ! k)) [0..<length (concat (map ?L [0..<length rs]))]"
    by (rule concat_enumerate) (rule start)
  also have "map ?L [0..<length rs] = map (new_slots ps) (grow_tables ps free rs)" by (simp add: grow_tables_eq_map)
  finally show ?thesis using launch_enumerate[OF tr] length_new_slots by metis
qed

lemma pages_before_le: "total_new_pages ps rs \<le> n \<Longrightarrow> i < length rs \<Longrightarrow> pages_before ps rs i + kr_new_pages ps (rs ! i) \<le> n"
  using sum_list_take_le[of i rs "kr_new_pages ps"] by (simp add: pages_before_def total_new_pages_def)


text \<open>A launch of the kernel in which the masked lanes cancel; a batch of one request has none.\<close>

definition lanes_cancel :: "triton \<Rightarrow> nat \<Rightarrow> nat \<Rightarrow> nat \<Rightarrow> bool" where
  "lanes_cancel tr ps bs_upper bs \<longleftrightarrow> (\<forall>pid < bs. masked_tokens tr bs_upper pid = 0 \<and> masked_pages tr ps bs_upper pid = 0)"

lemma lanes_cancel_single: "lanes_cancel tr ps (next_power_of_2 1) 1"
  by (simp add: lanes_cancel_def masked_tokens_def masked_pages_def next_power_of_2_def bit_length.simps)

lemma launch_extend:
  assumes tr: "triton_ok tr" "lanes_cancel tr ps u (length rs)" and ps: "0 < ps" and ok: "\<forall>r \<in> set rs. kr_ok ps r"
    and pages: "total_new_pages ps rs \<le> length free" and u: "length rs \<le> u" and w: "extend_tokens rs \<le> w"
  shows "launch tr (alloc_extend_kernel tr (prefix_tensor rs) (seq_tensor rs) (map (kr_last_loc ps) rs) free u ps w) (length rs) (extend_tokens rs) =
    concat (map (new_slots ps) (grow_tables ps free rs))"
proof (rule launch_batch[OF tr(1)])
  fix i assume i: "i < length rs"
  have "kr_seq (rs ! i) - kr_prefix (rs ! i) \<le> w"
    using sum_list_take_le[OF i, of "\<lambda>r. kr_seq r - kr_prefix r"] w by (simp add: extend_tokens_def)
  then show "alloc_extend_kernel tr (prefix_tensor rs) (seq_tensor rs) (map (kr_last_loc ps) rs) free u ps w i =
    map (\<lambda>j. (int (tokens_before rs i + j), table_slot ps (kr_table (grown ps free rs i)) (kr_prefix (rs ! i) + j)))
      [0..<kr_seq (rs ! i) - kr_prefix (rs ! i)]"
    using extend_kernel_displaced[OF ps ok i _ pages_before_le[OF pages i], of u w tr] i u tr(2) by (simp add: lanes_cancel_def)
qed
section \<open>Extending a batch\<close>

definition open_page :: "nat \<Rightarrow> kv_request \<Rightarrow> int list" where
  "open_page ps r = drop (kr_prefix r div ps) (kr_table r)"

lemma open_page_cases: "0 < ps \<Longrightarrow> kr_ok ps r \<Longrightarrow> length (open_page ps r) = (if kr_prefix r mod ps = 0 then 0 else 1)"
  by (simp add: open_page_def kr_ok_def cdiv_div)

lemma table_slot_page: "0 < ps \<Longrightarrow> table_slot ps t p div int ps = t ! (p div ps)"
  by (simp add: table_slot_def)

lemma table_slot_offset: "0 < ps \<Longrightarrow> table_slot ps t p mod int ps = int (p mod ps)"
  by (simp add: table_slot_def)

lemma new_slots_pages:
  assumes ps: "0 < ps" and len: "kr_seq r \<le> length (kr_table r) * ps" and d: "distinct (open_page ps r)"
  shows "distinct (new_slots ps r)" "x \<in> set (new_slots ps r) \<Longrightarrow> x div int ps \<in> set (open_page ps r)"
proof -
  have page: "kr_table r ! (p div ps) = open_page ps r ! (p div ps - kr_prefix r div ps)" "p div ps - kr_prefix r div ps < length (open_page ps r)"
    "kr_prefix r div ps \<le> p div ps" if "kr_prefix r \<le> p" "p < kr_seq r" for p
  proof -
    have le: "kr_prefix r div ps \<le> p div ps" using that by (simp add: div_le_mono)
    have "p < length (kr_table r) * ps" using that(2) len by simp
    then have lt: "p div ps < length (kr_table r)" by (rule less_mult_imp_div_less)
    show "kr_table r ! (p div ps) = open_page ps r ! (p div ps - kr_prefix r div ps)" "p div ps - kr_prefix r div ps < length (open_page ps r)"
      "kr_prefix r div ps \<le> p div ps" using le lt by (simp_all add: open_page_def)
  qed
  show "x div int ps \<in> set (open_page ps r)" if "x \<in> set (new_slots ps r)"
    using that page by (auto simp: new_slots_def table_slot_page[OF ps])
  have "p = q" if pq: "kr_prefix r \<le> p" "p < kr_seq r" "kr_prefix r \<le> q" "q < kr_seq r" and e: "table_slot ps (kr_table r) p = table_slot ps (kr_table r) q" for p q
  proof -
    have "kr_table r ! (p div ps) = kr_table r ! (q div ps)" "p mod ps = q mod ps"
      using e table_slot_page[OF ps] table_slot_offset[OF ps] by (metis, metis of_nat_eq_iff)
    then have "p div ps - kr_prefix r div ps = q div ps - kr_prefix r div ps"
      using page[OF pq(1,2)] page[OF pq(3,4)] d by (metis nth_eq_iff_index_eq)
    then show ?thesis using page(3)[OF pq(1,2)] page(3)[OF pq(3,4)] \<open>p mod ps = q mod ps\<close> by (metis diff_diff_cancel div_mult_mod_eq eq_diff_iff)
  qed
  then show "distinct (new_slots ps r)" by (auto simp: new_slots_def distinct_map inj_on_def)
qed

lemma grow_open_pages:
  assumes ps: "0 < ps" and ok: "\<forall>r \<in> set rs. kr_ok ps r" and d: "distinct (concat (map (open_page ps) rs) @ free)" and n: "total_new_pages ps rs \<le> length free"
  shows "distinct (concat (map (new_slots ps) (grow_tables ps free rs))) \<and>
    (\<forall>x \<in> set (concat (map (new_slots ps) (grow_tables ps free rs))). x div int ps \<in> set (concat (map (open_page ps) rs)) \<union> set free)"
  using ok d n
proof (induction rs arbitrary: free)
  case (Cons r rs)
  let ?n = "kr_new_pages ps r"
  let ?r = "r\<lparr>kr_table := kr_table r @ take ?n free\<rparr>" and ?rest = "concat (map (new_slots ps) (grow_tables ps (drop ?n free) rs))"
  have n: "?n \<le> length free" using Cons.prems(3) by (simp add: total_new_pages_def)
  have r: "kr_ok ps r" using Cons.prems by simp
  have "kr_prefix r div ps \<le> length (kr_table r)" using r by (simp add: kr_ok_def cdiv_div[OF ps])
  then have o: "open_page ps ?r = open_page ps r @ take ?n free" by (simp add: open_page_def)
  have split: "set free = set (take ?n free) \<union> set (drop ?n free)" "set (take ?n free) \<inter> set (drop ?n free) = {}" "distinct (drop ?n free)"
    using Cons.prems(2) by (auto simp flip: set_append) (metis append_take_drop_id distinct_append distinct_drop disjoint_iff)+
  have "length (kr_table ?r) = cdiv ps (kr_seq r)" using r n cdiv_mono[of "kr_prefix r" "kr_seq r" ps] by (simp add: kr_ok_def kr_new_pages_def)
  then have "kr_seq ?r \<le> length (kr_table ?r) * ps" using cdiv_bounds(1)[OF ps] by simp
  note new = new_slots_pages[OF ps this]
  have do: "distinct (open_page ps ?r)" using Cons.prems(2) unfolding o by (auto dest: in_set_takeD)
  have IH: "distinct ?rest" "\<forall>x \<in> set ?rest. x div int ps \<in> set (concat (map (open_page ps) rs)) \<union> set (drop ?n free)"
    using Cons.IH[of "drop ?n free"] Cons.prems split by (auto simp: total_new_pages_def disjoint_iff)
  have "set (open_page ps ?r) \<inter> (set (concat (map (open_page ps) rs)) \<union> set (drop ?n free)) = {}"
    using Cons.prems(2) split(2) unfolding o by (auto simp: disjoint_iff dest: in_set_takeD in_set_dropD)
  then have "set (new_slots ps ?r) \<inter> set ?rest = {}" using new(2)[OF do] IH(2) by (auto simp: disjoint_iff simp del: set_concat)
  then show ?case using new[OF do] IH split(1) o by (auto simp del: set_concat)
qed simp
lemma bit_length_bound: "n < 2 ^ bit_length n"
proof (induction n rule: bit_length.induct)
  case (1 n)
  then show ?case by (subst bit_length.simps) (cases "n = 0"; simp; linarith)
qed

lemma next_power_of_2_ge: "n \<le> next_power_of_2 n"
  using bit_length_bound[of "n - 1"] unfolding next_power_of_2_def by (cases n) (auto simp: Suc_le_eq)

lemma total_new_pages_le:
  assumes ps: "0 < ps" and ok: "\<forall>r \<in> set rs. kr_ok ps r"
  shows "total_new_pages ps rs \<le> extend_tokens rs div ps + length rs"
proof -
  have "total_new_pages ps rs * ps \<le> extend_tokens rs + length rs * ps"
    using ok
  proof (induction rs)
    case (Cons r rs)
    have "kr_new_pages ps r * ps \<le> (kr_seq r - kr_prefix r) + ps"
      using cdiv_bounds(1)[OF ps, of "kr_prefix r"] cdiv_bounds(2)[OF ps, of "kr_seq r"] unfolding kr_new_pages_def diff_mult_distrib by linarith
    then show ?case using Cons by (simp add: total_new_pages_def extend_tokens_def distrib_right)
  qed (simp add: total_new_pages_def extend_tokens_def)
  then have "total_new_pages ps rs \<le> (extend_tokens rs + length rs * ps) div ps" by (simp only: less_eq_div_iff_mult_less_eq[OF ps])
  also have "\<dots> = extend_tokens rs div ps + length rs" using ps by simp
  finally show ?thesis .
qed

lemma num_new_pages_extend:
  assumes "0 < ps" and "\<forall>r \<in> set rs. kr_ok ps r"
  shows "get_num_new_pages (seq_tensor rs) (int ps) (Some (prefix_tensor rs)) False = Inr (int (total_new_pages ps rs))"
  using assms(2) unfolding total_new_pages_def get_num_new_pages_def
proof (induction rs)
  case (Cons r rs)
  have "int (kr_new_pages ps r) = ceil_pages (int ps) (int (kr_seq r)) - ceil_pages (int ps) (int (kr_prefix r))"
    using Cons.prems by (simp add: new_pages_int[OF assms(1)])
  then show ?case using Cons by simp
qed simp

lemma last_loc_offset:
  assumes ps: "0 < ps" shows "(kr_last_loc ps r + 1) mod int ps = int (kr_prefix r) mod int ps"
proof (cases "kr_prefix r = 0")
  case False
  have "(kr_last_loc ps r + 1) mod int ps = (int ((kr_prefix r - 1) mod ps) + 1) mod int ps"
    using False by (simp add: kr_last_loc_def table_slot_def add.assoc)
  also have "\<dots> = int (((kr_prefix r - 1) mod ps + 1) mod ps)" by (simp add: zmod_int add.commute)
  also have "\<dots> = int (kr_prefix r mod ps)" using False by (simp add: mod_Suc_eq)
  finally show ?thesis by (simp add: zmod_int)
qed (simp add: kr_last_loc_def)

lemma extend_assert:
  "0 < ps \<Longrightarrow> \<forall>(l, p) \<in> set (zip (map (kr_last_loc ps) rs) (prefix_tensor rs)). (l + 1) mod int ps = p mod int ps"
  by (auto simp: zip_map_map zip_same_conv_map last_loc_offset)

lemma grow_tables_take: "grow_tables ps (take (total_new_pages ps rs) free) rs = grow_tables ps free rs"
proof (induction rs arbitrary: free)
  case (Cons r rs)
  have "drop (kr_new_pages ps r) (take (kr_new_pages ps r + total_new_pages ps rs) free) = take (total_new_pages ps rs) (drop (kr_new_pages ps r) free)"
    by (simp add: drop_take)
  then show ?case using Cons[of "drop (kr_new_pages ps r) free"] by (simp add: total_new_pages_def min_def)
qed simp

lemma take_pages_enough:
  "n \<le> length (al_free_pages a) \<Longrightarrow> take_pages (int n) a out = (Some out, a\<lparr>al_free_pages := drop n (al_free_pages a)\<rparr>)"
  using py_slice_nat[of n "length (al_free_pages a) - n" "al_free_pages a"] by (simp add: take_pages_def of_nat_diff)

text \<open>The state in which the kernel is launched.\<close>

definition extend_ready :: "nat \<Rightarrow> nat \<Rightarrow> paged_allocator \<Rightarrow> paged_allocator" where
  "extend_ready tokens bs a =
     (let a = a\<lparr>pg_seen_max_num_extend_tokens := max (pg_seen_max_num_extend_tokens a) (next_power_of_2 tokens)\<rparr> in
      if al_need_sort a \<and> tokens div al_page_size a + bs + 1 > length (al_free_pages a) then merge_and_sort_free a else a)"

lemma extend_ready:
  assumes "paged_inv a" and r: "r = extend_ready tokens bs a"
  shows "paged_inv r" "free_set r = free_set a" "paged_shape r = paged_shape a" "available_size r = available_size a"
    "pg_debug_mode r = pg_debug_mode a" "al_page_size r = al_page_size a" "tokens \<le> pg_seen_max_num_extend_tokens r"
    "n \<le> tokens div al_page_size a + bs \<Longrightarrow> n \<le> length (al_free_pages r) \<longleftrightarrow> n * al_page_size a \<le> available_size a"
proof -
  let ?a = "a\<lparr>pg_seen_max_num_extend_tokens := max (pg_seen_max_num_extend_tokens a) (next_power_of_2 tokens)\<rparr>"
  have keep: "pg_num_pages ?a = pg_num_pages a" "al_page_size ?a = al_page_size a" "free_set ?a = free_set a" "available_size ?a = available_size a"
    "al_need_sort ?a = al_need_sort a" "al_free_pages ?a = al_free_pages a" "al_release_pages ?a = al_release_pages a"
    by (simp_all add: free_set_def available_size_def)
  have "pages_ok (pg_num_pages a) ?a" using assms(1) by (simp add: paged_inv_def pages_ok_def free_set_def)
  note p = ready_pages[OF this, of r "tokens div al_page_size ?a + bs + 1"]
  have r': "r = (if al_need_sort ?a \<and> tokens div al_page_size ?a + bs + 1 > length (al_free_pages ?a) then merge_and_sort_free ?a else ?a)"
    using r by (simp add: extend_ready_def Let_def)
  have np: "pg_num_pages r = pg_num_pages a" "pg_debug_mode r = pg_debug_mode a" using r' by simp_all
  note p = p[OF r', unfolded keep]
  show "free_set r = free_set a" "al_page_size r = al_page_size a" "pg_debug_mode r = pg_debug_mode a" using p np by simp_all
  show "paged_inv r" "paged_shape r = paged_shape a" "available_size r = available_size a"
    using p np assms(1) by (auto simp: paged_inv_def paged_shape_def available_size_def)
  show "tokens \<le> pg_seen_max_num_extend_tokens r" using next_power_of_2_ge[of tokens] r' by (auto simp: le_max_iff_disj)
  assume n: "n \<le> tokens div al_page_size a + bs"
  have "0 < al_page_size a" using assms(1) by (simp add: paged_inv_def)
  then have "n * al_page_size a \<le> available_size a \<longleftrightarrow> n \<le> length (al_free_pages a) + length (al_release_pages a)" by (simp add: available_size_def)
  moreover have "al_release_pages r = [] \<or> n \<le> length (al_free_pages a) \<and> al_free_pages r = al_free_pages a"
    using r' n assms(1) by (auto simp: paged_inv_def pages_ok_def)
  ultimately show "n \<le> length (al_free_pages r) \<longleftrightarrow> n * al_page_size a \<le> available_size a" using p(3) by auto
qed

text \<open>The method on the tensors of a batch, up to the launch.\<close>

lemma alloc_extend_unfold:
  assumes inv: "paged_inv a" and ps: "ps = al_page_size a" "next_power_of_2 ps = ps" and ok: "\<forall>r \<in> set rs. kr_ok ps r"
    and r: "r = extend_ready (extend_tokens rs) (length rs) a"
  shows "alloc_extend tr (prefix_tensor rs) (prefix_tensor rs) (seq_tensor rs) (seq_tensor rs) (map (kr_last_loc ps) rs) (extend_tokens rs) a =
    (let out = launch tr (alloc_extend_kernel tr (prefix_tensor rs) (seq_tensor rs) (map (kr_last_loc ps) rs) (al_free_pages r)
                 (next_power_of_2 (length rs)) ps (pg_seen_max_num_extend_tokens r)) (length rs) (extend_tokens rs)
     in py_assert (pg_debug_mode a \<longrightarrow> distinct out) (Inr (take_pages (int (total_new_pages ps rs)) r out)))"
proof -
  have pos: "0 < ps" using inv ps by (simp add: paged_inv_def)
  note facts = extend_ready(5,6)[OF inv r]
  show ?thesis
    unfolding alloc_extend_def Let_def length_map
    by (simp only: extend_ready_def[unfolded Let_def, symmetric] r[symmetric] facts ps(1)[symmetric] ps(2) length_torch_unique
        num_new_pages_extend[OF pos ok] bind_res.simps simp_thms if_False)
      (use extend_assert[OF pos] in simp)
qed
text \<open>
  Extending a batch (prefill) in a launch whose masked lanes cancel: when the pages suffice, every request gets, for its tokens behind the prefix, the slots that its page
  table gives them after its share of the free pages is appended, in the order of the batch; no slot is given twice, the pages
  come from the free lists and leave them, the partial last pages of the requests are filled up first, and every assertion of the debug mode
  holds. The order in which the stores of the kernel take effect is arbitrary.
\<close>

theorem alloc_extend_correct:
  assumes tr: "triton_ok tr" "lanes_cancel tr ps (next_power_of_2 (length rs)) (length rs)"
    and inv: "paged_inv a" and ps: "ps = al_page_size a" "next_power_of_2 ps = ps"
    and ok: "\<forall>r \<in> set rs. kr_ok ps r" and opn: "distinct (concat (map (open_page ps) rs))" "set (concat (map (open_page ps) rs)) \<inter> free_set a = {}"
    and enough: "total_new_pages ps rs * ps \<le> available_size a"
  shows "\<exists>pages a'. alloc_extend tr (prefix_tensor rs) (prefix_tensor rs) (seq_tensor rs) (seq_tensor rs) (map (kr_last_loc ps) rs) (extend_tokens rs) a =
      Inr (Some (concat (map (new_slots ps) (grow_tables ps pages rs))), a') \<and> distinct (concat (map (new_slots ps) (grow_tables ps pages rs))) \<and>
    length pages = total_new_pages ps rs \<and> distinct pages \<and> set pages \<subseteq> free_set a \<and>
    paged_inv a' \<and> paged_shape a' = paged_shape a \<and> free_set a' = free_set a - set pages"
proof -
  define r where "r = extend_ready (extend_tokens rs) (length rs) a"
  note ready = extend_ready[OF inv r_def]
  have pos: "0 < ps" using inv ps by (simp add: paged_inv_def)
  let ?n = "total_new_pages ps rs"
  have n: "?n \<le> length (al_free_pages r)" using ready(8)[of ?n] total_new_pages_le[OF pos ok] enough ps(1) by simp
  have pok: "pages_ok (pg_num_pages r) r" using ready(1) by (simp add: paged_inv_def)
  note t = take_pages_ok[OF this n]
  let ?out = "concat (map (new_slots ps) (grow_tables ps (take ?n (al_free_pages r)) rs))"
  have "set (al_free_pages r) \<subseteq> free_set a" using ready(2) by (auto simp: free_set_def)
  then have "distinct (concat (map (open_page ps) rs) @ take ?n (al_free_pages r))"
    using opn t(3) by (auto simp: disjoint_iff dest: in_set_takeD)
  then have d: "distinct ?out" using grow_open_pages[OF pos ok, of "take ?n (al_free_pages r)"] n by simp
  have "launch tr (alloc_extend_kernel tr (prefix_tensor rs) (seq_tensor rs) (map (kr_last_loc ps) rs) (al_free_pages r)
      (next_power_of_2 (length rs)) ps (pg_seen_max_num_extend_tokens r)) (length rs) (extend_tokens rs) = ?out"
    unfolding grow_tables_take using next_power_of_2_ge ready(7) by (intro launch_extend[OF tr pos ok n]) auto
  then have "alloc_extend tr (prefix_tensor rs) (prefix_tensor rs) (seq_tensor rs) (seq_tensor rs) (map (kr_last_loc ps) rs) (extend_tokens rs) a =
      Inr (Some ?out, r\<lparr>al_free_pages := drop ?n (al_free_pages r)\<rparr>)"
    using alloc_extend_unfold[OF inv ps ok r_def, of tr] d take_pages_enough[OF n] by (simp only: Let_def) simp
  then show ?thesis
    using d t ready(1,2,3) n by (intro exI[of _ "take ?n (al_free_pages r)"] exI) (auto simp: paged_inv_def paged_shape_def)
qed

text \<open>When the pages do not suffice, nothing is taken.\<close>

lemma alloc_extend_short:
  assumes inv: "paged_inv a" "\<not> pg_debug_mode a" and ps: "ps = al_page_size a" "next_power_of_2 ps = ps"
    and ok: "\<forall>r \<in> set rs. kr_ok ps r" and short: "available_size a < total_new_pages ps rs * ps"
  shows "\<exists>a'. alloc_extend tr (prefix_tensor rs) (prefix_tensor rs) (seq_tensor rs) (seq_tensor rs) (map (kr_last_loc ps) rs) (extend_tokens rs) a =
      Inr (None, a') \<and> paged_inv a' \<and> paged_shape a' = paged_shape a \<and> free_set a' = free_set a"
proof -
  define r where "r = extend_ready (extend_tokens rs) (length rs) a"
  note ready = extend_ready[OF inv(1) r_def]
  have pos: "0 < ps" using inv ps by (simp add: paged_inv_def)
  have "length (al_free_pages r) < total_new_pages ps rs"
    using ready(8)[of "total_new_pages ps rs"] total_new_pages_le[OF pos ok] short ps(1) by simp
  then show ?thesis using alloc_extend_unfold[OF inv(1) ps ok r_def, of tr] inv(2) ready(1,2,3) by (simp add: Let_def take_pages_def)
qed

section \<open>Decoding a batch\<close>

definition decode_ok :: "nat \<Rightarrow> kv_request \<Rightarrow> bool" where
  "decode_ok ps r \<longleftrightarrow> kr_ok ps r \<and> kr_seq r = Suc (kr_prefix r)"

lemma decode_new_pages:
  assumes ps: "2 \<le> ps" and r: "decode_ok ps r"
  shows "kr_new_pages ps r = (if kr_prefix r mod ps = 0 then 1 else 0)" "int (kr_seq r) mod int ps = 1 \<longleftrightarrow> kr_prefix r mod ps = 0"
proof -
  have p: "0 < ps" and s: "kr_seq r = Suc (kr_prefix r)" using ps r by (auto simp: decode_ok_def)
  show "kr_new_pages ps r = (if kr_prefix r mod ps = 0 then 1 else 0)"
    using ps s by (auto simp: kr_new_pages_def cdiv_div[OF p] mod_Suc div_Suc)
  have "int (kr_seq r) mod int ps = int (Suc (kr_prefix r) mod ps)" using s by (simp add: zmod_int)
  then show "int (kr_seq r) mod int ps = 1 \<longleftrightarrow> kr_prefix r mod ps = 0" using ps by (auto simp: mod_Suc split: if_splits)
qed

lemma decode_slot:
  assumes ps: "2 \<le> ps" and r: "decode_ok ps (rs ! i)" and n: "pages_before ps rs i + kr_new_pages ps (rs ! i) \<le> length free"
  shows "table_slot ps (kr_table (grown ps free rs i)) (kr_prefix (rs ! i)) =
    (if kr_prefix (rs ! i) mod ps = 0 then free ! pages_before ps rs i * int ps else kr_last_loc ps (rs ! i) + 1)"
    "kr_prefix (rs ! i) mod ps = 0 \<Longrightarrow> pages_before ps rs i < length free"
proof -
  let ?r = "rs ! i"
  have p: "0 < ps" and ok: "kr_ok ps ?r" using ps r by (auto simp: decode_ok_def)
  note np = decode_new_pages(1)[OF ps r]
  show "kr_prefix ?r mod ps = 0 \<Longrightarrow> pages_before ps rs i < length free" using np n by simp
  show "table_slot ps (kr_table (grown ps free rs i)) (kr_prefix ?r) =
    (if kr_prefix ?r mod ps = 0 then free ! pages_before ps rs i * int ps else kr_last_loc ps ?r + 1)"
  proof (cases "kr_prefix ?r mod ps = 0")
    case True
    then have c: "cdiv ps (kr_prefix ?r) * ps = kr_prefix ?r" using cdiv_div[OF p] by (auto simp: mult.commute)
    then have "cdiv ps (kr_prefix ?r) * ps + 0 < kr_seq ?r" using r by (simp add: decode_ok_def)
    from slot_new_page(1)[OF p ok this n] show ?thesis using True c by (simp add: grown_def)
  next
    case False
    then have "cdiv ps (kr_prefix ?r) = kr_prefix ?r div ps + 1" by (simp add: cdiv_div[OF p])
    moreover have "kr_prefix ?r < (kr_prefix ?r div ps + 1) * ps"
      using div_mult_mod_eq[of "kr_prefix ?r" ps] mod_less_divisor[OF p, of "kr_prefix ?r"] unfolding distrib_right by linarith
    ultimately have "kr_prefix ?r + 0 < cdiv ps (kr_prefix ?r) * ps" by simp
    from slot_old_page[OF p ok this, where new = "[]"] show ?thesis using np False by (simp add: grown_def)
  qed
qed

lemma decode_kernel:
  assumes ps: "2 \<le> ps" and ok: "\<forall>r \<in> set rs. decode_ok ps r" and pid: "pid < length rs" "pid < u"
    and pages: "pages_before ps rs pid + kr_new_pages ps (rs ! pid) \<le> length free"
  shows "alloc_decode_kernel tr (seq_tensor rs) (map (kr_last_loc ps) rs) free u ps pid =
    [(int pid, table_slot ps (kr_table (grown ps free rs pid)) (kr_prefix (rs ! pid)))]"
proof -
  let ?r = "rs ! pid"
  have p: "0 < ps" and r: "decode_ok ps ?r" "kr_ok ps ?r" "int (kr_seq ?r) - 1 = int (kr_prefix ?r)" using ps ok pid by (auto simp: decode_ok_def)
  let ?seq = "lanes (tr_lane_seq tr) (seq_tensor rs) u pid"
  have eq: "map2 (\<lambda>i s. if i \<le> pid then s - 1 else s) [0..<u] ?seq = lanes (tr_lane_seq tr) (prefix_tensor rs) u pid"
    using pid ok by (intro nth_equalityI) (auto simp: lanes_def decode_ok_def)
  have kok: "\<forall>r \<in> set rs. kr_ok ps r" using ok by (simp add: decode_ok_def)
  note sums = extend_starts(2)[OF p kok pid, of "tr\<lparr>tr_lane_pre := tr_lane_seq tr\<rparr>", unfolded masked_cancel(2)[of "tr\<lparr>tr_lane_pre := tr_lane_seq tr\<rparr>", simplified], simplified]
  have self: "ceil_pages (int ps) (int (kr_seq ?r)) - ceil_pages (int ps) (int (kr_prefix ?r)) = int (kr_new_pages ps ?r)"
    using new_pages_int[OF p r(2)] by simp
  note kernel = alloc_decode_kernel_def Let_def eq sums nth_map[OF pid(1)] r(3) self add_diff_cancel_right'
  show ?thesis
    unfolding kernel using decode_new_pages(1)[OF ps r(1)] decode_slot[OF ps r(1) pages] by (auto simp: load_page_def)
qed
lemma decode_counts:
  assumes "2 \<le> ps" and "\<forall>r \<in> set rs. decode_ok ps r"
  shows "extend_tokens rs = length rs" "get_num_new_pages (seq_tensor rs) (int ps) None True = Inr (int (total_new_pages ps rs))"
    "total_new_pages ps rs \<le> length rs"
  using assms(2) by (induction rs)
    (simp_all add: extend_tokens_def total_new_pages_def get_num_new_pages_def decode_new_pages[OF assms(1)], simp_all add: decode_ok_def)

lemma launch_decode:
  assumes tr: "triton_ok tr" and ps: "2 \<le> ps" and ok: "\<forall>r \<in> set rs. decode_ok ps r"
    and pages: "total_new_pages ps rs \<le> length free" and u: "length rs \<le> u"
  shows "launch tr (alloc_decode_kernel tr (seq_tensor rs) (map (kr_last_loc ps) rs) free u ps) (length rs) (length rs) =
    concat (map (new_slots ps) (grow_tables ps free rs))"
proof -
  note launch = launch_batch[OF tr, of rs _ ps free, unfolded decode_counts(1)[OF ps ok]]
  show ?thesis
  proof (rule launch)
    fix i assume i: "i < length rs"
    have "tokens_before rs i = i"
      using ok i decode_counts(1)[OF ps, of "take i rs"] by (auto simp: tokens_before_def extend_tokens_def dest: in_set_takeD)
    moreover have "kr_seq (rs ! i) = Suc (kr_prefix (rs ! i))" using ok i by (simp add: decode_ok_def)
    ultimately show "alloc_decode_kernel tr (seq_tensor rs) (map (kr_last_loc ps) rs) free u ps i =
      map (\<lambda>j. (int (tokens_before rs i + j), table_slot ps (kr_table (grown ps free rs i)) (kr_prefix (rs ! i) + j)))
        [0..<kr_seq (rs ! i) - kr_prefix (rs ! i)]"
      using decode_kernel[OF ps ok i _ pages_before_le[OF pages i]] i u by simp
  qed
qed

definition decode_ready :: "nat \<Rightarrow> paged_allocator \<Rightarrow> paged_allocator" where
  "decode_ready bs a = (if al_need_sort a \<and> bs > length (al_free_pages a) then merge_and_sort_free a else a)"

lemma decode_assert:
  assumes ps: "0 < ps" and ok: "\<forall>r \<in> set rs. decode_ok ps r"
  shows "\<forall>(l, s) \<in> set (zip (map (kr_last_loc ps) rs) (seq_tensor rs)). (l + 2) mod int ps = s mod int ps"
proof -
  have "(kr_last_loc ps x + 2) mod int ps = int (kr_seq x) mod int ps" if "x \<in> set rs" for x
  proof -
    have "(kr_last_loc ps x + 2) mod int ps = ((kr_last_loc ps x + 1) mod int ps + 1) mod int ps" by (simp only: mod_add_left_eq add.assoc one_add_one)
    also have "\<dots> = (int (kr_prefix x) + 1) mod int ps" by (simp only: last_loc_offset[OF ps] mod_add_left_eq)
    finally show ?thesis using ok that by (simp add: decode_ok_def add.commute)
  qed
  then show ?thesis by (auto simp: zip_map_map zip_same_conv_map)
qed

lemma alloc_decode_unfold:
  assumes inv: "paged_inv a" and ps: "ps = al_page_size a" "2 \<le> ps" and ok: "\<forall>r \<in> set rs. decode_ok ps r" and r: "r = decode_ready (length rs) a"
  shows "alloc_decode tr (seq_tensor rs) (seq_tensor rs) (map (kr_last_loc ps) rs) a =
    (let out = launch tr (alloc_decode_kernel tr (seq_tensor rs) (map (kr_last_loc ps) rs) (al_free_pages r) (next_power_of_2 (length rs)) ps)
                 (length rs) (length rs)
     in py_assert (pg_debug_mode a \<longrightarrow> distinct out) (Inr (take_pages (int (total_new_pages ps rs)) r out)))"
proof -
  have pos: "0 < ps" using ps by simp
  have facts: "pg_debug_mode r = pg_debug_mode a" "al_page_size r = ps" using r ps by (simp_all add: decode_ready_def)
  show ?thesis
    unfolding alloc_decode_def Let_def length_map
    by (simp only: decode_ready_def[symmetric] r[symmetric] facts ps(1)[symmetric] length_torch_unique decode_counts(2)[OF ps(2) ok] bind_res.simps
        simp_thms) (use decode_assert[OF pos ok] in simp)
qed

lemma alloc_decode_serves:
  assumes tr: "triton_ok tr" and inv: "paged_inv a" and ps: "ps = al_page_size a" "2 \<le> ps"
    and ok: "\<forall>r \<in> set rs. decode_ok ps r" and opn: "distinct (concat (map (open_page ps) rs))" "set (concat (map (open_page ps) rs)) \<inter> free_set a = {}"
    and enough: "total_new_pages ps rs * ps \<le> available_size a"
  shows "\<exists>pages a'. alloc_decode tr (seq_tensor rs) (seq_tensor rs) (map (kr_last_loc ps) rs) a =
      Inr (Some (concat (map (new_slots ps) (grow_tables ps pages rs))), a') \<and> distinct (concat (map (new_slots ps) (grow_tables ps pages rs))) \<and>
    length pages = total_new_pages ps rs \<and> distinct pages \<and> set pages \<subseteq> free_set a \<and>
    paged_inv a' \<and> paged_shape a' = paged_shape a \<and> free_set a' = free_set a - set pages"
proof -
  define r where "r = decode_ready (length rs) a"
  have pos: "0 < ps" and kok: "\<forall>r \<in> set rs. kr_ok ps r" using ps ok by (auto simp: decode_ok_def)
  have "pages_ok (pg_num_pages a) a" using inv by (simp add: paged_inv_def)
  note ready = ready_pages[OF this r_def[unfolded decode_ready_def]]
  have r: "pg_num_pages r = pg_num_pages a" by (simp add: r_def decode_ready_def)
  let ?n = "total_new_pages ps rs"
  have "?n \<le> length (al_free_pages a) + length (al_release_pages a)" using enough ps(1) pos by (simp add: available_size_def)
  then have n: "?n \<le> length (al_free_pages r)"
    using decode_counts(3)[OF ps(2) ok] inv by (auto simp: r_def decode_ready_def paged_inv_def pages_ok_def)
  note t = take_pages_ok[OF ready(1) n]
  let ?out = "concat (map (new_slots ps) (grow_tables ps (take ?n (al_free_pages r)) rs))"
  have "set (al_free_pages r) \<subseteq> free_set a" using ready(2) by (auto simp: free_set_def)
  then have "distinct (concat (map (open_page ps) rs) @ take ?n (al_free_pages r))"
    using opn t(3) by (auto simp: disjoint_iff dest: in_set_takeD)
  then have d: "distinct ?out" using grow_open_pages[OF pos kok, of "take ?n (al_free_pages r)"] n by simp
  have "launch tr (alloc_decode_kernel tr (seq_tensor rs) (map (kr_last_loc ps) rs) (al_free_pages r) (next_power_of_2 (length rs)) ps)
      (length rs) (length rs) = ?out"
    unfolding grow_tables_take by (rule launch_decode[OF tr ps(2) ok n next_power_of_2_ge])
  then have "alloc_decode tr (seq_tensor rs) (seq_tensor rs) (map (kr_last_loc ps) rs) a =
      Inr (Some ?out, r\<lparr>al_free_pages := drop ?n (al_free_pages r)\<rparr>)"
    using alloc_decode_unfold[OF inv ps ok r_def, of tr] d take_pages_enough[OF n] by (simp only: Let_def) simp
  then show ?thesis
    using d t ready(2,5) r n inv by (intro exI[of _ "take ?n (al_free_pages r)"] exI) (auto simp: paged_inv_def paged_shape_def)
qed

text \<open>
  (C7) Decoding a batch: when the pages suffice, every request gets the slot of its next token, in its open page or at the start of a page of its own; no
  slot is given twice, exactly the pages that were begun leave the free lists, and the assertions of the debug mode hold. Assumed are a well-formed allocator, pages of at least two slots,
  and requests whose begun pages are different and not free; nothing is assumed of the masked lanes.
\<close>

theorem alloc_decode_correct:
  assumes tr: "triton_ok tr" and inv: "paged_inv a" and ps: "ps = al_page_size a" "2 \<le> ps"
    and ok: "\<forall>r \<in> set rs. decode_ok ps r" and opn: "distinct (concat (map (open_page ps) rs))" "set (concat (map (open_page ps) rs)) \<inter> free_set a = {}"
    and enough: "total_new_pages ps rs * ps \<le> available_size a"
  shows "\<exists>pages a'. alloc_decode tr (seq_tensor rs) (seq_tensor rs) (map (kr_last_loc ps) rs) a =
      Inr (Some (concat (map (new_slots ps) (grow_tables ps pages rs))), a') \<and> distinct (concat (map (new_slots ps) (grow_tables ps pages rs))) \<and>
    length pages = total_new_pages ps rs \<and> distinct pages \<and> set pages \<subseteq> free_set a \<and>
    paged_inv a' \<and> paged_shape a' = paged_shape a \<and> free_set a' = free_set a - set pages"
  by (rule alloc_decode_serves[OF assms])

section \<open>Examples\<close>

definition example_triton :: triton where
  "example_triton = \<lparr>tr_lane_seq = \<lambda>_. 3, tr_lane_pre = \<lambda>_. 3, tr_beyond = \<lambda>_. 0, tr_fresh = \<lambda>n. replicate n 0, tr_order = \<lambda>stores. rev (concat stores)\<rparr>"

definition example_paged :: paged_allocator where
  "example_paged = \<lparr>al_size = 24, al_page_size = 4, al_need_sort = True, al_free_pages = [5], al_release_pages = [6, 3, 1], al_is_not_in_free_group = True,
     al_free_group = [], pg_num_pages = 6, pg_debug_mode = True, pg_seen_max_num_extend_tokens = 1\<rparr>"

definition example_extend :: "kv_request list" where
  "example_extend = [\<lparr>kr_prefix = 0, kr_seq = 6, kr_table = []\<rparr>, \<lparr>kr_prefix = 6, kr_seq = 9, kr_table = [4, 2]\<rparr>]"

definition example_decode :: "kv_request list" where
  "example_decode = [\<lparr>kr_prefix = 4, kr_seq = 5, kr_table = [4]\<rparr>, \<lparr>kr_prefix = 6, kr_seq = 7, kr_table = [4, 2]\<rparr>]"

lemma example_triton_ok: "triton_ok example_triton" "lanes_cancel example_triton ps u n"
  by (simp_all add: triton_ok_def example_triton_def lanes_cancel_def masked_tokens_def masked_pages_def)

lemma example_paged_ok:
  "paged_inv example_paged" "al_page_size example_paged = 4" "free_set example_paged = {1, 3, 5, 6}" "available_size example_paged = 16"
  by (auto simp: example_paged_def paged_inv_def pages_ok_def free_set_def available_size_def)

lemma next_power_of_2_4: "next_power_of_2 4 = 4"
  by (simp add: next_power_of_2_def bit_length.simps)


theorem alloc_extend_correct_witness:
  "\<exists>pages a'. alloc_extend example_triton [0, 6] [0, 6] [6, 9] [6, 9] [- 1, 9] 9 example_paged =
      Inr (Some (concat (map (new_slots 4) (grow_tables 4 pages example_extend))), a') \<and>
    distinct (concat (map (new_slots 4) (grow_tables 4 pages example_extend))) \<and> length pages = 3 \<and> set pages \<subseteq> {1, 3, 5, 6}"
proof -
  have t: "total_new_pages 4 example_extend = 3" "extend_tokens example_extend = 9" "prefix_tensor example_extend = [0, 6]" "seq_tensor example_extend = [6, 9]"
    "map (kr_last_loc 4) example_extend = [- 1, 9]" "concat (map (open_page 4) example_extend) = [2]" "\<forall>r \<in> set example_extend. kr_ok 4 r"
    by (simp_all add: example_extend_def total_new_pages_def kr_new_pages_def cdiv_def extend_tokens_def kr_last_loc_def table_slot_def open_page_def kr_ok_def)
  have "distinct (concat (map (open_page 4) example_extend))" "set (concat (map (open_page 4) example_extend)) \<inter> free_set example_paged = {}"
    "total_new_pages 4 example_extend * 4 \<le> available_size example_paged" unfolding t by (simp_all add: example_paged_ok)
  from alloc_extend_correct[OF example_triton_ok(1,2) example_paged_ok(1) example_paged_ok(2)[symmetric] next_power_of_2_4 t(7) this]
  show ?thesis unfolding t example_paged_ok by blast
qed

theorem alloc_decode_correct_witness:
  "\<exists>pages a'. alloc_decode example_triton [5, 7] [5, 7] [19, 9] example_paged =
      Inr (Some (concat (map (new_slots 4) (grow_tables 4 pages example_decode))), a') \<and>
    distinct (concat (map (new_slots 4) (grow_tables 4 pages example_decode))) \<and> length pages = 1 \<and> set pages \<subseteq> {1, 3, 5, 6}"
proof -
  have t: "total_new_pages 4 example_decode = 1" "seq_tensor example_decode = [5, 7]"
    "map (kr_last_loc 4) example_decode = [19, 9]" "concat (map (open_page 4) example_decode) = [2]" "\<forall>r \<in> set example_decode. decode_ok 4 r"
    by (simp_all add: example_decode_def total_new_pages_def kr_new_pages_def cdiv_def kr_last_loc_def table_slot_def open_page_def kr_ok_def decode_ok_def)
  have "distinct (concat (map (open_page 4) example_decode))" "set (concat (map (open_page 4) example_decode)) \<inter> free_set example_paged = {}"
    "total_new_pages 4 example_decode * 4 \<le> available_size example_paged" unfolding t by (simp_all add: example_paged_ok)
  moreover have "(2::nat) \<le> 4" by simp
  ultimately show ?thesis
    using alloc_decode_correct[OF example_triton_ok(1) example_paged_ok(1) example_paged_ok(2)[symmetric] _ t(5)] unfolding t example_paged_ok by blast
qed
end
