(* ===== verification/Kv_Npu.thy ===== *)
theory Kv_Npu
  imports Kv_Batch
begin

text \<open>
  The paged allocator for NPUs (\<^verbatim>\<open>sglang/srt/hardware_backend/npu/allocator_npu.py\<close>): its loop that stands in for the kernel when
  many pages are needed, and its own \<^verbatim>\<open>alloc_extend\<close> and \<^verbatim>\<open>alloc_decode\<close>. The kernel of the package
  \<^verbatim>\<open>sgl_kernel_npu\<close> is an argument.
\<close>

section \<open>Tensors\<close>

definition cumsum :: "int list \<Rightarrow> int list" where
  "cumsum xs = map (\<lambda>i. sum_list (take (Suc i) xs)) [0..<length xs]"

text \<open>\<^verbatim>\<open>out[start:stop] = vals\<close>: the values have the length of the slice, or are one value for all of it.\<close>

definition slice_assign :: "int list \<Rightarrow> int \<Rightarrow> int \<Rightarrow> int list \<Rightarrow> int list result" where
  "slice_assign out start stop vals =
     (let lo = py_clamp (length out) start; hi = max lo (py_clamp (length out) stop) in
      if length vals = hi - lo then Inr (take lo out @ vals @ drop hi out)
      else if length vals = 1 then Inr (take lo out @ replicate (hi - lo) (hd vals) @ drop hi out)
      else Inl RuntimeError)"

text \<open>\<^verbatim>\<open>tensor.int()\<close>: 32 bits with a sign.\<close>

definition int32 :: "int \<Rightarrow> int" where
  "int32 x = (x + 2 ^ 31) mod 2 ^ 32 - 2 ^ 31"

section \<open>The loop\<close>

definition naive_step ::
  "int list \<Rightarrow> int list \<Rightarrow> int list \<Rightarrow> int list \<Rightarrow> int \<Rightarrow> nat \<Rightarrow> int list \<Rightarrow> int list result" where
  "naive_step prefix_lens seq_lens last_loc free_pages page_size i out_indices =
     (let extend_lens = map2 (-) seq_lens prefix_lens;
          end_pos = cumsum extend_lens;
          start_pos = map2 (-) end_pos extend_lens;
          num_new_pages = map2 (\<lambda>s p. ceil_pages page_size s - ceil_pages page_size p) seq_lens prefix_lens;
          num_full_new_pages = map2 (\<lambda>s p. s div page_size - ceil_pages page_size p) seq_lens prefix_lens;
          need_page = map2 (-) num_new_pages num_full_new_pages;
          end_new_pages = cumsum num_new_pages;
          start_new_pages = map2 (-) end_new_pages num_new_pages;
          pos_in_page = map int [0..<nat page_size];
          num1 = min (seq_lens ! i) (ceil_pages page_size (prefix_lens ! i) * page_size) - prefix_lens ! i;
          num2 = (seq_lens ! i div page_size - ceil_pages page_size (prefix_lens ! i)) * page_size;
          num3 = seq_lens ! i - seq_lens ! i div page_size * page_size
      in bind_res (if num1 \<noteq> 0
                   then slice_assign out_indices (start_pos ! i) (start_pos ! i + num1) (map (\<lambda>k. last_loc ! i + 1 + k) (py_slice pos_in_page 0 num1))
                   else Inr out_indices) (\<lambda>out1.
         bind_res (if num2 \<noteq> 0
                   then slice_assign out1 (start_pos ! i + num1) (start_pos ! i + num1 + num2)
                          (concat (map (\<lambda>page. map (\<lambda>k. page * page_size + k) pos_in_page)
                             (py_slice free_pages (start_new_pages ! i) (end_new_pages ! i - need_page ! i))))
                   else Inr out1) (\<lambda>out2.
         if num3 \<noteq> 0
         then bind_res (py_nth free_pages (end_new_pages ! i - 1)) (\<lambda>page.
              slice_assign out2 (end_pos ! i - num3) (end_pos ! i) (map (\<lambda>k. page * page_size + k) (py_slice pos_in_page 0 num3)))
         else Inr out2)))"

definition alloc_extend_naive :: "int list \<Rightarrow> int list \<Rightarrow> int list \<Rightarrow> int list \<Rightarrow> int list \<Rightarrow> int \<Rightarrow> int list result" where
  "alloc_extend_naive prefix_lens seq_lens last_loc free_pages out_indices page_size =
     fold_res (naive_step prefix_lens seq_lens last_loc free_pages page_size) [0..<length prefix_lens] out_indices"

section \<open>The class\<close>

text \<open>
  \<open>npu_kernel\<close> and \<open>fresh\<close> are the kernel of the package and the memory of a new tensor. The tensor the loop writes into has 32 bit entries, so what
  it holds is cut before the assertion of the debug mode.
\<close>

definition npu_alloc_extend ::
  "(int list \<Rightarrow> int list \<Rightarrow> int list \<Rightarrow> int list \<Rightarrow> int list \<Rightarrow> nat \<Rightarrow> nat \<Rightarrow> nat \<Rightarrow> int list) \<Rightarrow> (nat \<Rightarrow> int list)
   \<Rightarrow> int list \<Rightarrow> int list \<Rightarrow> int list \<Rightarrow> nat \<Rightarrow> paged_allocator \<Rightarrow> (int list option \<times> paged_allocator) result" where
  "npu_alloc_extend npu_kernel fresh prefix_lens seq_lens last_loc extend_num_tokens a =
     py_assert (pg_debug_mode a \<longrightarrow> (\<forall>(l, p) \<in> set (zip last_loc prefix_lens). (l + 1) mod int (al_page_size a) = p mod int (al_page_size a)))
       (let page_size = int (al_page_size a);
            roundup = page_size - 1;
            num_new_pages = sum_list (map2 (\<lambda>s p. (s + roundup) div page_size - (p + roundup) div page_size) seq_lens prefix_lens);
            a = (if al_need_sort a \<and> num_new_pages > int (length (al_free_pages a)) then merge_and_sort_free a else a)
        in if num_new_pages > int (length (al_free_pages a)) then Inr (None, a)
           else bind_res (if num_new_pages < 200
                          then Inr (npu_kernel prefix_lens seq_lens last_loc (al_free_pages a) (fresh extend_num_tokens) (next_power_of_2 (length prefix_lens))
                                      (al_page_size a) (next_power_of_2 extend_num_tokens))
                          else bind_res (alloc_extend_naive prefix_lens seq_lens last_loc (al_free_pages a) (fresh extend_num_tokens) page_size)
                                 (\<lambda>out. Inr (map int32 out))) (\<lambda>out_indices.
                py_assert (pg_debug_mode a \<longrightarrow> length (torch_unique out_indices) = length out_indices)
                  (Inr (Some (map int32 out_indices),
                        a\<lparr>al_free_pages := py_slice (al_free_pages a) num_new_pages (int (length (al_free_pages a)))\<rparr>))))"

definition npu_alloc_decode ::
  "int list \<Rightarrow> int list \<Rightarrow> int list \<Rightarrow> paged_allocator \<Rightarrow> (int list option \<times> paged_allocator) result" where
  "npu_alloc_decode seq_lens seq_lens_cpu last_loc a =
     py_assert (pg_debug_mode a \<longrightarrow> (\<forall>(l, s) \<in> set (zip last_loc seq_lens). (l + 2) mod int (al_page_size a) = s mod int (al_page_size a)))
       (bind_res (get_num_new_pages seq_lens_cpu (int (al_page_size a)) None True) (\<lambda>num_new_pages.
        let page_size = int (al_page_size a);
            a = (if num_new_pages > int (length (al_free_pages a)) then merge_and_sort_free a else a)
        in if num_new_pages > int (length (al_free_pages a)) then Inr (None, a)
           else let need_new_pages = map (\<lambda>s. if s mod page_size = 1 then 1 else 0) seq_lens;
                    end_new_pages = cumsum need_new_pages;
                    start_new_pages = map2 (-) end_new_pages need_new_pages
                in bind_res (if num_new_pages = 0 then Inr (map (\<lambda>l. l + 1) last_loc)
                             else bind_res (map_res (py_nth (al_free_pages a)) start_new_pages) (\<lambda>pages.
                                  Inr (map2 (\<lambda>(l, n) page. (l + 1) * (1 - n) + page * page_size * n) (zip last_loc need_new_pages) pages))) (\<lambda>out_indices.
                   py_assert (pg_debug_mode a \<longrightarrow> length (torch_unique out_indices) = length out_indices)
                     (Inr (Some (map int32 out_indices),
                           a\<lparr>al_free_pages := py_slice (al_free_pages a) num_new_pages (int (length (al_free_pages a)))\<rparr>)))))"

section \<open>The loop fills the slots of the page tables\<close>

lemma cumsum_nth: "i < length rs \<Longrightarrow> cumsum (map f rs) ! i = sum_list (map f (take i rs)) + f (rs ! i)"
  by (simp add: cumsum_def take_Suc_conv_app_nth take_map[symmetric])

lemma cumsum_start_nth: "i < length rs \<Longrightarrow> map2 (-) (cumsum (map f rs)) (map f rs) ! i = sum_list (map f (take i rs))"
  using cumsum_nth[of i rs f] by (simp add: cumsum_def)

lemma map2_same: "map2 f (map g rs) (map h rs) = map (\<lambda>r. f (g r) (h r)) rs"
  by (induction rs) auto

lemma py_clamp_nat: "n \<le> len \<Longrightarrow> py_clamp len (int n) = n"
  by (simp add: py_clamp_def)

lemma slice_assign_nat:
  "s + length vals \<le> length out \<Longrightarrow> slice_assign out (int s) (int (s + length vals)) vals = Inr (take s out @ vals @ drop (s + length vals) out)"
  unfolding slice_assign_def Let_def by (simp add: py_clamp_nat del: of_nat_add)


text \<open>A guarded write behind the slots \<open>v\<close> that are already written.\<close>

lemma write_adjacent:
  assumes len: "t + length v + length w \<le> length out" and n: "num = int (length w)"
    and s: "start = int (t + length v)" "stop = int (t + length v + length w)"
  shows "(if num \<noteq> 0 then slice_assign (take t out @ v @ drop (t + length v) out) start stop w
      else Inr (take t out @ v @ drop (t + length v) out)) = Inr (take t out @ (v @ w) @ drop (t + length (v @ w)) out)"
proof (cases "num = 0")
  case False
  have "slice_assign (take t out @ v @ drop (t + length v) out) start stop w =
      Inr (take (t + length v) (take t out @ v @ drop (t + length v) out) @ w @ drop (t + length v + length w) (take t out @ v @ drop (t + length v) out))"
    unfolding s using len by (intro slice_assign_nat) simp
  also have "take (t + length v) (take t out @ v @ drop (t + length v) out) = take t out @ v" using len by simp
  also have "drop (t + length v + length w) (take t out @ v @ drop (t + length v) out) = drop (t + length (v @ w)) out" using len by (simp add: min_absorb2 ac_simps)
  finally show ?thesis using False by simp
qed (use n in simp)

lemma write_first:
  "t + length w \<le> length out \<Longrightarrow> num = int (length w) \<Longrightarrow> start = int t \<Longrightarrow> stop = int (t + length w) \<Longrightarrow>
   (if num \<noteq> 0 then slice_assign out start stop w else Inr out) = Inr (take t out @ w @ drop (t + length w) out)"
  using slice_assign_nat[of t w out] by (cases "w = []") simp_all

lemma concat_blocks:
  assumes "0 < ps"
  shows "concat (map (\<lambda>p. map (f p) [0..<ps]) xs) = map (\<lambda>k. f (xs ! (k div ps)) (k mod ps)) [0..<length xs * ps]"
proof (induction xs)
  case (Cons x xs)
  have "[0..<length (x # xs) * ps] = [0..<ps] @ map (\<lambda>k. ps + k) [0..<length xs * ps]" by (intro nth_equalityI) (auto simp: nth_append)
  then show ?case using Cons assms by (simp add: comp_def)
qed simp

lemma py_slice_upt: "n \<le> m \<Longrightarrow> py_slice (map int [0..<m]) 0 (int n) = map int [0..<n]"
  using py_slice_nat[of 0 n "map int [0..<m]"] by (simp add: take_map)

definition reaches_page_end :: "nat \<Rightarrow> kv_request \<Rightarrow> bool" where
  "reaches_page_end ps r \<longleftrightarrow> cdiv ps (kr_prefix r) * ps \<le> kr_seq r"

lemma shift_upt: "map f [a..<a + n] = map (\<lambda>k. f (a + k)) [0..<n]"
  by (intro nth_equalityI) auto

lemma naive_parts:
  assumes ps: "0 < ps" and ok: "kr_ok ps r" "reaches_page_end ps r" and n: "n + kr_new_pages ps r \<le> length free"
    and v: "v = (\<lambda>j. table_slot ps (kr_table r @ take (kr_new_pages ps r) (drop n free)) (kr_prefix r + j))"
    and cd: "c = cdiv ps (kr_prefix r)" "d = kr_seq r div ps"
  shows "map (\<lambda>k. kr_last_loc ps r + 1 + k) (map int [0..<c * ps - kr_prefix r]) = map v [0..<c * ps - kr_prefix r]"
    "concat (map (\<lambda>page. map (\<lambda>k. page * int ps + k) (map int [0..<ps])) (take (d - c) (drop n free))) = map v [c * ps - kr_prefix r..<d * ps - kr_prefix r]"
    "d * ps < kr_seq r \<Longrightarrow> map (\<lambda>k. free ! (n + (d - c)) * int ps + k) (map int [0..<kr_seq r - d * ps]) = map v [d * ps - kr_prefix r..<kr_seq r - kr_prefix r]"
    "c \<le> d" "kr_prefix r \<le> c * ps" "d * ps \<le> kr_seq r" "kr_seq r < d * ps + ps" "kr_new_pages ps r = d - c + (if d * ps < kr_seq r then 1 else 0)"
proof -
  show b: "c \<le> d" "kr_prefix r \<le> c * ps" "d * ps \<le> kr_seq r" "kr_seq r < d * ps + ps"
    using ok(2) cdiv_bounds(1)[OF ps] div_mult_mod_eq[of "kr_seq r" ps] mod_less_divisor[OF ps, of "kr_seq r"] unfolding cd reaches_page_end_def
    by (simp_all only: less_eq_div_iff_mult_less_eq[OF ps])
  have mod: "kr_seq r mod ps = 0 \<longleftrightarrow> \<not> d * ps < kr_seq r" using div_mult_mod_eq[of "kr_seq r" ps] unfolding cd by linarith
  then show kn: "kr_new_pages ps r = d - c + (if d * ps < kr_seq r then 1 else 0)"
    using b(1) cdiv_div[OF ps, of "kr_seq r"] unfolding kr_new_pages_def cd(1)[symmetric] cd(2)[symmetric] by simp
  show "map (\<lambda>k. kr_last_loc ps r + 1 + k) (map int [0..<c * ps - kr_prefix r]) = map v [0..<c * ps - kr_prefix r]"
    using slot_old_page[OF ps ok(1)] unfolding v cd by simp
  have new: "free ! (n + k div ps) * int ps + int (k mod ps) = v (c * ps - kr_prefix r + k)" if "c * ps + k < kr_seq r" for k
    using slot_new_page(1)[OF ps ok(1) that[unfolded cd] n] b(2) unfolding v cd by simp
  have dist: "c * ps + (d - c) * ps = d * ps" using b(1) by (simp add: diff_mult_distrib)
  have "d - c \<le> length (drop n free)" using kn n by (auto split: if_splits)
  then have "concat (map (\<lambda>page. map (\<lambda>k. page * int ps + k) (map int [0..<ps])) (take (d - c) (drop n free))) =
      map (\<lambda>k. take (d - c) (drop n free) ! (k div ps) * int ps + int (k mod ps)) [0..<(d - c) * ps]"
    using concat_blocks[OF ps, of "\<lambda>page k. page * int ps + int k" "take (d - c) (drop n free)"] by (simp add: comp_def)
  also have "\<dots> = map (\<lambda>k. v (c * ps - kr_prefix r + k)) [0..<(d - c) * ps]"
  proof (intro map_cong refl)
    fix k assume "k \<in> set [0..<(d - c) * ps]"
    then have k: "k < (d - c) * ps" by simp
    then have "k div ps < d - c" by (rule less_mult_imp_div_less)
    moreover have "c * ps + k < kr_seq r" using k dist b(3) by linarith
    ultimately show "take (d - c) (drop n free) ! (k div ps) * int ps + int (k mod ps) = v (c * ps - kr_prefix r + k)"
      using new[of k] n kn by (simp split: if_splits)
  qed
  also have "\<dots> = map v [c * ps - kr_prefix r..<c * ps - kr_prefix r + (d - c) * ps]" by (rule shift_upt[symmetric])
  also have "c * ps - kr_prefix r + (d - c) * ps = d * ps - kr_prefix r" using dist b(2) by linarith
  finally show "concat (map (\<lambda>page. map (\<lambda>k. page * int ps + k) (map int [0..<ps])) (take (d - c) (drop n free))) =
      map v [c * ps - kr_prefix r..<d * ps - kr_prefix r]" .
  assume lt: "d * ps < kr_seq r"
  have "free ! (n + (d - c)) * int ps + int k = v (d * ps - kr_prefix r + k)" if "k < kr_seq r - d * ps" for k
  proof -
    have m: "((d - c) * ps + k) div ps = d - c \<and> ((d - c) * ps + k) mod ps = k" using that b(4) by (intro div_mod_split) auto
    have lt: "c * ps + ((d - c) * ps + k) < kr_seq r" and e: "c * ps - kr_prefix r + ((d - c) * ps + k) = d * ps - kr_prefix r + k"
      using that dist b(2) by linarith+
    from new[OF lt] show ?thesis unfolding e using m by simp
  qed
  moreover have "kr_seq r - kr_prefix r = d * ps - kr_prefix r + (kr_seq r - d * ps)" using b dist by linarith
  ultimately show "map (\<lambda>k. free ! (n + (d - c)) * int ps + k) (map int [0..<kr_seq r - d * ps]) = map v [d * ps - kr_prefix r..<kr_seq r - kr_prefix r]"
    by (simp add: shift_upt)
qed

lemma naive_tensors:
  assumes ps: "0 < ps" and ok: "\<forall>r \<in> set rs. kr_ok ps r" and i: "i < length rs"
    and t: "t = tokens_before rs i" and n: "n = pages_before ps rs i" and c: "c = cdiv ps (kr_prefix (rs ! i))" and d: "d = kr_seq (rs ! i) div ps"
  shows "ceil_pages (int ps) (int (kr_prefix (rs ! i))) = int c" "int (kr_seq (rs ! i)) div int ps = int d"
    "cumsum (map2 (-) (seq_tensor rs) (prefix_tensor rs)) ! i = int (t + (kr_seq (rs ! i) - kr_prefix (rs ! i)))"
    "map2 (-) (cumsum (map2 (-) (seq_tensor rs) (prefix_tensor rs))) (map2 (-) (seq_tensor rs) (prefix_tensor rs)) ! i = int t"
    "cumsum (map2 (\<lambda>s p. ceil_pages (int ps) s - ceil_pages (int ps) p) (seq_tensor rs) (prefix_tensor rs)) ! i = int (n + kr_new_pages ps (rs ! i))"
    "map2 (-) (cumsum (map2 (\<lambda>s p. ceil_pages (int ps) s - ceil_pages (int ps) p) (seq_tensor rs) (prefix_tensor rs)))
       (map2 (\<lambda>s p. ceil_pages (int ps) s - ceil_pages (int ps) p) (seq_tensor rs) (prefix_tensor rs)) ! i = int n"
    "map2 (-) (map2 (\<lambda>s p. ceil_pages (int ps) s - ceil_pages (int ps) p) (seq_tensor rs) (prefix_tensor rs))
       (map2 (\<lambda>s p. s div int ps - ceil_pages (int ps) p) (seq_tensor rs) (prefix_tensor rs)) ! i = int (kr_new_pages ps (rs ! i)) - (int d - int c)"
proof -
  have r: "kr_ok ps (rs ! i)" "kr_prefix (rs ! i) \<le> kr_seq (rs ! i)" using ok i by (simp_all add: kr_ok_def)
  show scale: "ceil_pages (int ps) (int (kr_prefix (rs ! i))) = int c" "int (kr_seq (rs ! i)) div int ps = int d"
    by (simp_all add: ceil_pages_int[OF ps] zdiv_int c d)
  have pages: "ceil_pages (int ps) (int (kr_seq (rs ! i))) - int c = int (kr_new_pages ps (rs ! i))" using new_pages_int[OF ps r(1)] scale by simp
  note before = tokens_before_int[OF ok, of i, folded t] pages_before_int[OF ps ok, of i, folded n]
  show "cumsum (map2 (-) (seq_tensor rs) (prefix_tensor rs)) ! i = int (t + (kr_seq (rs ! i) - kr_prefix (rs ! i)))"
    "map2 (-) (cumsum (map2 (-) (seq_tensor rs) (prefix_tensor rs))) (map2 (-) (seq_tensor rs) (prefix_tensor rs)) ! i = int t"
    "cumsum (map2 (\<lambda>s p. ceil_pages (int ps) s - ceil_pages (int ps) p) (seq_tensor rs) (prefix_tensor rs)) ! i = int (n + kr_new_pages ps (rs ! i))"
    "map2 (-) (cumsum (map2 (\<lambda>s p. ceil_pages (int ps) s - ceil_pages (int ps) p) (seq_tensor rs) (prefix_tensor rs)))
       (map2 (\<lambda>s p. ceil_pages (int ps) s - ceil_pages (int ps) p) (seq_tensor rs) (prefix_tensor rs)) ! i = int n"
    "map2 (-) (map2 (\<lambda>s p. ceil_pages (int ps) s - ceil_pages (int ps) p) (seq_tensor rs) (prefix_tensor rs))
       (map2 (\<lambda>s p. s div int ps - ceil_pages (int ps) p) (seq_tensor rs) (prefix_tensor rs)) ! i = int (kr_new_pages ps (rs ! i)) - (int d - int c)"
    using i r(2) pages scale by (simp_all add: map2_same cumsum_nth cumsum_start_nth before of_nat_diff)
qed

lemma naive_step_correct:
  assumes ps: "0 < ps" and ok: "\<forall>r \<in> set rs. kr_ok ps r" "reaches_page_end ps (rs ! i)" and i: "i < length rs"
    and n: "pages_before ps rs i + kr_new_pages ps (rs ! i) \<le> length free"
    and out: "tokens_before rs i + (kr_seq (rs ! i) - kr_prefix (rs ! i)) \<le> length out"
  shows "naive_step (prefix_tensor rs) (seq_tensor rs) (map (kr_last_loc ps) rs) free (int ps) i out =
    Inr (take (tokens_before rs i) out @ new_slots ps (grown ps free rs i) @ drop (tokens_before rs i + (kr_seq (rs ! i) - kr_prefix (rs ! i))) out)"
proof -
  let ?r = "rs ! i" and ?t = "tokens_before rs i" and ?n = "pages_before ps rs i"
  let ?P = "kr_prefix ?r" and ?S = "kr_seq ?r"
  define c d where cd: "c = cdiv ps ?P" "d = ?S div ps"
  define v where v: "v = (\<lambda>j. table_slot ps (kr_table ?r @ take (kr_new_pages ps ?r) (drop ?n free)) (?P + j))"
  have r: "kr_ok ps ?r" using ok(1) i by simp
  note parts = naive_parts[OF ps r ok(2) n v cd]
  have b: "c * ps \<le> d * ps" "?P \<le> ?S" using parts(4) r by (simp_all add: kr_ok_def)
  note tensors = naive_tensors[OF ps ok(1) i refl refl cd]
  have nums: "min (int ?S) (int c * int ps) - int ?P = int (c * ps - ?P)" "(int d - int c) * int ps = int (d * ps - c * ps)" "int ?S - int d * int ps = int (?S - d * ps)"
    using parts(5,6) b ok(2) by (auto simp: reaches_page_end_def cd(1) of_nat_diff left_diff_distrib min_def simp flip: of_nat_mult)
  let ?w1 = "map v [0..<c * ps - ?P]" and ?w2 = "map v [c * ps - ?P..<d * ps - ?P]" and ?w3 = "map v [d * ps - ?P..<?S - ?P]"
  have lens: "length ?w2 = d * ps - c * ps" "length ?w3 = ?S - d * ps" using parts(5,6) b unfolding length_map length_upt by linarith+
  have all: "(?w1 @ ?w2) @ ?w3 = new_slots ps (grown ps free rs i)"
  proof -
    have "[0..<c * ps - ?P] @ [c * ps - ?P..<d * ps - ?P] = [0..<d * ps - ?P]" "[0..<d * ps - ?P] @ [d * ps - ?P..<?S - ?P] = [0..<?S - ?P]"
      using upt_add_eq_append[of 0 "c * ps - ?P" "d * ps - c * ps"] upt_add_eq_append[of 0 "d * ps - ?P" "?S - d * ps"] parts(5,6) b by simp_all
    then have "(?w1 @ ?w2) @ ?w3 = map v [0..<?S - ?P]" by (metis map_append)
    then show ?thesis using shift_upt[of "table_slot ps (kr_table (grown ps free rs i))" ?P "?S - ?P"] b(2) by (simp add: new_slots_def grown_def v)
  qed
  have w: "py_slice (map int [0..<ps]) 0 (int (c * ps - ?P)) = map int [0..<c * ps - ?P]" "py_slice (map int [0..<ps]) 0 (int (?S - d * ps)) = map int [0..<?S - d * ps]"
    using cdiv_bounds(2)[OF ps, of ?P] parts(7) by (intro py_slice_upt; simp add: cd)+
  have f: "py_slice free (int ?n) (int (?n + kr_new_pages ps ?r) - (int (kr_new_pages ps ?r) - (int d - int c))) = take (d - c) (drop ?n free)"
    using py_slice_nat[of ?n "d - c" free] n parts(4,8) by (simp add: of_nat_diff split: if_splits)
  have l: "py_nth free (int (?n + kr_new_pages ps ?r) - 1) = Inr (free ! (?n + (d - c)))" if "?S - d * ps \<noteq> 0"
  proof -
    have k: "kr_new_pages ps ?r = d - c + 1" using that parts(8) by simp
    then have "int (?n + kr_new_pages ps ?r) - 1 = int (?n + (d - c))" "?n + (d - c) < length free" using n by simp_all
    then show ?thesis by (simp only: py_nth_nat)
  qed
  have room: "?t + length ?w1 + length ?w2 + length ?w3 \<le> length out" and ends: "?t + length ((?w1 @ ?w2) @ ?w3) = ?t + (?S - ?P)"
    using out parts(5,6) b unfolding lens length_append length_map length_upt by linarith+
  have one: "(if int (c * ps - ?P) \<noteq> 0 then slice_assign out (int ?t) (int ?t + int (c * ps - ?P))
      (map (\<lambda>k. kr_last_loc ps ?r + 1 + k) (map int [0..<c * ps - ?P])) else Inr out) = Inr (take ?t out @ ?w1 @ drop (?t + length ?w1) out)"
    unfolding parts(1) using room by (intro write_first) simp_all
  have two: "(if int (d * ps - c * ps) \<noteq> 0 then slice_assign (take ?t out @ ?w1 @ drop (?t + length ?w1) out) (int ?t + int (c * ps - ?P))
      (int ?t + int (c * ps - ?P) + int (d * ps - c * ps)) ?w2 else Inr (take ?t out @ ?w1 @ drop (?t + length ?w1) out)) =
      Inr (take ?t out @ (?w1 @ ?w2) @ drop (?t + length (?w1 @ ?w2)) out)"
    using room lens(1) by (intro write_adjacent) simp_all
  have three: "(if int (?S - d * ps) \<noteq> 0 then slice_assign (take ?t out @ (?w1 @ ?w2) @ drop (?t + length (?w1 @ ?w2)) out)
      (int (?t + (?S - ?P)) - int (?S - d * ps)) (int (?t + (?S - ?P))) ?w3 else Inr (take ?t out @ (?w1 @ ?w2) @ drop (?t + length (?w1 @ ?w2)) out)) =
      Inr (take ?t out @ new_slots ps (grown ps free rs i) @ drop (?t + (?S - ?P)) out)"
    unfolding all[symmetric] ends[symmetric] using room lens(2) by (intro write_adjacent) simp_all
  have page: "bind_res (py_nth free (int (?n + kr_new_pages ps ?r) - 1)) (\<lambda>page. slice_assign out' (int (?t + (?S - ?P)) - int (?S - d * ps)) (int (?t + (?S - ?P)))
      (map (\<lambda>k. page * int ps + k) (map int [0..<?S - d * ps]))) = slice_assign out' (int (?t + (?S - ?P)) - int (?S - d * ps)) (int (?t + (?S - ?P))) ?w3"
    if "int (?S - d * ps) \<noteq> 0" for out'
    using that l parts(3) by simp
  show ?thesis
    unfolding naive_step_def Let_def tensors(3-) nth_map[OF i] tensors(1,2) nums w f nat_int one bind_res.simps parts(2) two
    by (rule trans[OF if_cong[OF refl page refl] three])
qed

text \<open>The loop after the first requests, when they all reach the end of the page they have begun.\<close>

lemma naive_upto:
  assumes ps: "0 < ps" and ok: "\<forall>r \<in> set rs. kr_ok ps r" and n: "total_new_pages ps rs \<le> length free"
    and out: "length out = extend_tokens rs" and m: "m \<le> length rs" "\<forall>i < m. reaches_page_end ps (rs ! i)"
  shows "length (concat (map (\<lambda>i. new_slots ps (grown ps free rs i)) [0..<m])) = tokens_before rs m \<and>
    fold_res (naive_step (prefix_tensor rs) (seq_tensor rs) (map (kr_last_loc ps) rs) free (int ps)) [0..<m] out =
      Inr (concat (map (\<lambda>i. new_slots ps (grown ps free rs i)) [0..<m]) @ drop (tokens_before rs m) out)"
  using m
proof (induction m)
  case (Suc m)
  let ?step = "naive_step (prefix_tensor rs) (seq_tensor rs) (map (kr_last_loc ps) rs) free (int ps)" and ?L = "\<lambda>i. new_slots ps (grown ps free rs i)"
  let ?c = "concat (map ?L [0..<m])"
  have len: "length (?L i) = kr_seq (rs ! i) - kr_prefix (rs ! i)" for i by (simp add: new_slots_def grown_def)
  have m: "m < length rs" "reaches_page_end ps (rs ! m)" using Suc.prems by simp_all
  have tok: "tokens_before rs (Suc m) = tokens_before rs m + (kr_seq (rs ! m) - kr_prefix (rs ! m))"
    using m by (simp add: tokens_before_def take_Suc_conv_app_nth)
  have le: "tokens_before rs (Suc m) \<le> length out"
    using sum_list_take_le[OF m(1), of "\<lambda>r. kr_seq r - kr_prefix r"] out unfolding tok by (simp add: tokens_before_def extend_tokens_def)
  have IH: "length ?c = tokens_before rs m" "fold_res ?step [0..<m] out = Inr (?c @ drop (tokens_before rs m) out)" using Suc by auto
  have "?step m (?c @ drop (tokens_before rs m) out) = Inr (?c @ ?L m @ drop (tokens_before rs (Suc m)) out)"
    using naive_step_correct[OF ps ok m(2,1) pages_before_le[OF n m(1)], of "?c @ drop (tokens_before rs m) out"] le IH(1) tok by (simp add: add.commute)
  then show ?case using IH tok len by (simp add: fold_res_append)
qed (simp add: tokens_before_def)

lemma naive_correct:
  assumes ps: "0 < ps" and ok: "\<forall>r \<in> set rs. kr_ok ps r \<and> reaches_page_end ps r" and n: "total_new_pages ps rs \<le> length free"
    and out: "length out = extend_tokens rs"
  shows "alloc_extend_naive (prefix_tensor rs) (seq_tensor rs) (map (kr_last_loc ps) rs) free out (int ps) = Inr (concat (map (new_slots ps) (grow_tables ps free rs)))"
  using naive_upto[OF ps _ n out order_refl] ok out
  by (simp add: alloc_extend_naive_def grow_tables_eq_map comp_def tokens_before_def extend_tokens_def)







section \<open>Decoding\<close>

lemma int32_id: "0 \<le> x \<Longrightarrow> x < 2 ^ 31 \<Longrightarrow> int32 x = x"
  by (simp add: int32_def)

lemma map_res_py_nth_error:
  assumes "x \<in> set xs" and "py_nth ys x = Inl IndexError" shows "map_res (py_nth ys) xs = Inl IndexError"
  using assms(1)
proof (induction xs)
  case (Cons a xs)
  have "py_nth ys a = Inl IndexError \<or> (\<exists>y. py_nth ys a = Inr y)" by (auto simp: py_nth_def Let_def)
  then show ?case using Cons assms(2) by auto
qed simp

definition decode_starts :: "nat \<Rightarrow> kv_request list \<Rightarrow> int list" where
  "decode_starts ps rs = map (\<lambda>i. int (pages_before ps rs i)) [0..<length rs]"

lemma decode_needs:
  assumes "2 \<le> ps" and "\<forall>r \<in> set rs. decode_ok ps r"
  shows "map (\<lambda>s. if s mod int ps = 1 then 1 else 0) (seq_tensor rs) = map (\<lambda>r. int (kr_new_pages ps r)) rs"
    "map2 (-) (cumsum (map (\<lambda>r. int (kr_new_pages ps r)) rs)) (map (\<lambda>r. int (kr_new_pages ps r)) rs) = decode_starts ps rs"
proof -
  show "map (\<lambda>s. if s mod int ps = 1 then 1 else 0) (seq_tensor rs) = map (\<lambda>r. int (kr_new_pages ps r)) rs"
    using assms(2) decode_new_pages[OF assms(1)] by simp
  show "map2 (-) (cumsum (map (\<lambda>r. int (kr_new_pages ps r)) rs)) (map (\<lambda>r. int (kr_new_pages ps r)) rs) = decode_starts ps rs"
  proof (intro nth_equalityI)
    fix i assume "i < length (map2 (-) (cumsum (map (\<lambda>r. int (kr_new_pages ps r)) rs)) (map (\<lambda>r. int (kr_new_pages ps r)) rs))"
    then show "map2 (-) (cumsum (map (\<lambda>r. int (kr_new_pages ps r)) rs)) (map (\<lambda>r. int (kr_new_pages ps r)) rs) ! i = decode_starts ps rs ! i"
      using cumsum_start_nth[of i rs "\<lambda>r. int (kr_new_pages ps r)"] by (simp add: decode_starts_def pages_before_def sum_list_int)
  qed (simp add: decode_starts_def cumsum_def)
qed

text \<open>The method on the tensors of a batch, after the pages have been merged.\<close>

definition npu_slots :: "nat \<Rightarrow> kv_request list \<Rightarrow> int list \<Rightarrow> int list" where
  "npu_slots ps rs pages = map2 (\<lambda>(l, n) page. (l + 1) * (1 - n) + page * int ps * n) (zip (map (kr_last_loc ps) rs) (map (\<lambda>r. int (kr_new_pages ps r)) rs)) pages"

lemma npu_decode_unfold:
  assumes ps: "ps = al_page_size a" "2 \<le> ps" and ok: "\<forall>r \<in> set rs. decode_ok ps r" and n: "n = total_new_pages ps rs"
    and r: "r = (if length (al_free_pages a) < n then merge_and_sort_free a else a)" and enough: "n \<le> length (al_free_pages r)"
  shows "npu_alloc_decode (seq_tensor rs) (seq_tensor rs) (map (kr_last_loc ps) rs) a =
    bind_res (if n = 0 then Inr (map (\<lambda>r. kr_last_loc ps r + 1) rs)
              else bind_res (map_res (py_nth (al_free_pages r)) (decode_starts ps rs)) (\<lambda>pages. Inr (npu_slots ps rs pages)))
      (\<lambda>out. py_assert (pg_debug_mode a \<longrightarrow> distinct out) (Inr (Some (map int32 out), r\<lparr>al_free_pages := drop n (al_free_pages r)\<rparr>)))"
proof -
  have pos: "0 < ps" using ps by simp
  have facts: "pg_debug_mode r = pg_debug_mode a" using r by simp
  have slice: "py_slice (al_free_pages r) (int n) (int (length (al_free_pages r))) = drop n (al_free_pages r)"
    using py_slice_nat[of n "length (al_free_pages r) - n" "al_free_pages r"] enough by (simp add: of_nat_diff)
  have count: "get_num_new_pages (seq_tensor rs) (int ps) None True = Inr (int n)" using decode_counts(2)[OF ps(2) ok] n by simp
  have r': "(if int (length (al_free_pages a)) < int n then merge_and_sort_free a else a) = r" using r by simp
  have e: "\<not> int (length (al_free_pages r)) < int n" using enough by simp
  show ?thesis
    unfolding npu_alloc_decode_def ps(1)[symmetric] count bind_res.simps Let_def r' decode_needs[OF ps(2) ok] slice facts length_torch_unique npu_slots_def
    using e decode_assert[OF pos ok] by (simp add: comp_def)
qed
lemma npu_slots_correct:
  assumes ps: "2 \<le> ps" and ok: "\<forall>r \<in> set rs. decode_ok ps r" and n: "total_new_pages ps rs \<le> length free" and spare: "total_new_pages ps rs < length free"
  shows "map_res (py_nth free) (decode_starts ps rs) = Inr (map (\<lambda>i. free ! pages_before ps rs i) [0..<length rs])"
    "npu_slots ps rs (map (\<lambda>i. free ! pages_before ps rs i) [0..<length rs]) = concat (map (new_slots ps) (grow_tables ps free rs))"
proof -
  have before: "pages_before ps rs i < length free" if "i < length rs" for i using pages_before_le[OF order_refl that, of ps] spare by linarith
  show "map_res (py_nth free) (decode_starts ps rs) = Inr (map (\<lambda>i. free ! pages_before ps rs i) [0..<length rs])"
    unfolding decode_starts_def map_res_map by (rule map_res_Inr) (simp add: py_nth_nat before)
  have "npu_slots ps rs (map (\<lambda>i. free ! pages_before ps rs i) [0..<length rs]) =
    map (\<lambda>i. table_slot ps (kr_table (grown ps free rs i)) (kr_prefix (rs ! i))) [0..<length rs]"
  proof (intro nth_equalityI)
    fix i assume "i < length (npu_slots ps rs (map (\<lambda>i. free ! pages_before ps rs i) [0..<length rs]))"
    then have i: "i < length rs" by (simp add: npu_slots_def)
    then have r: "decode_ok ps (rs ! i)" using ok by simp
    show "npu_slots ps rs (map (\<lambda>i. free ! pages_before ps rs i) [0..<length rs]) ! i =
      map (\<lambda>i. table_slot ps (kr_table (grown ps free rs i)) (kr_prefix (rs ! i))) [0..<length rs] ! i"
      using i decode_slot(1)[OF ps r pages_before_le[OF n i]] decode_new_pages(1)[OF ps r] by (simp add: npu_slots_def)
  qed (simp add: npu_slots_def)
  also have "\<dots> = concat (map (\<lambda>i. new_slots ps (grown ps free rs i)) [0..<length rs])"
  proof -
    have "new_slots ps (grown ps free rs i) = [table_slot ps (kr_table (grown ps free rs i)) (kr_prefix (rs ! i))]" if "i < length rs" for i
    proof -
      have "kr_seq (rs ! i) = Suc (kr_prefix (rs ! i))" using ok that by (simp add: decode_ok_def)
      then show ?thesis by (simp add: new_slots_def grown_def)
    qed
    then have "map (\<lambda>i. new_slots ps (grown ps free rs i)) [0..<length rs] = map (\<lambda>i. [table_slot ps (kr_table (grown ps free rs i)) (kr_prefix (rs ! i))]) [0..<length rs]"
      by simp
    then show ?thesis by (simp only: concat_map_singleton)
  qed
  finally show "npu_slots ps rs (map (\<lambda>i. free ! pages_before ps rs i) [0..<length rs]) = concat (map (new_slots ps) (grow_tables ps free rs))"
    by (simp add: grow_tables_eq_map comp_def)
qed

text \<open>
  Decoding on NPUs, with a free page to spare: the same slots as the base class gives, cut to 32 bits.
\<close>

theorem npu_alloc_decode_correct:
  assumes inv: "paged_inv a" and ps: "ps = al_page_size a" "2 \<le> ps"
    and ok: "\<forall>r \<in> set rs. decode_ok ps r" and opn: "distinct (concat (map (open_page ps) rs))" "set (concat (map (open_page ps) rs)) \<inter> free_set a = {}"
    and spare: "total_new_pages ps rs < length (al_free_pages a)"
  shows "npu_alloc_decode (seq_tensor rs) (seq_tensor rs) (map (kr_last_loc ps) rs) a =
    Inr (Some (map int32 (concat (map (new_slots ps) (grow_tables ps (al_free_pages a) rs)))),
         a\<lparr>al_free_pages := drop (total_new_pages ps rs) (al_free_pages a)\<rparr>)"
proof -
  let ?n = "total_new_pages ps rs" and ?free = "al_free_pages a"
  have pos: "0 < ps" and kok: "\<forall>r \<in> set rs. kr_ok ps r" using ps ok by (auto simp: decode_ok_def)
  have n: "?n \<le> length ?free" using spare by simp
  note slots = npu_slots_correct[OF ps(2) ok n spare]
  have "set ?free \<subseteq> free_set a" "distinct ?free" using inv by (auto simp: free_set_def paged_inv_def pages_ok_def)
  then have "distinct (concat (map (open_page ps) rs) @ ?free)" using opn by auto
  then have d: "distinct (concat (map (new_slots ps) (grow_tables ps ?free rs)))" using grow_open_pages[OF pos kok _ n] by simp
  have zero: "map (\<lambda>r. kr_last_loc ps r + 1) rs = concat (map (new_slots ps) (grow_tables ps ?free rs))" if "?n = 0"
  proof -
    have z: "kr_new_pages ps r = 0" if "r \<in> set rs" for r using \<open>?n = 0\<close> that by (simp add: total_new_pages_def sum_list_eq_0_iff)
    have "npu_slots ps rs (map (\<lambda>i. ?free ! pages_before ps rs i) [0..<length rs]) = map (\<lambda>r. kr_last_loc ps r + 1) rs"
      using z by (intro nth_equalityI) (simp_all add: npu_slots_def)
    then show ?thesis using slots(2) by simp
  qed
  have "npu_alloc_decode (seq_tensor rs) (seq_tensor rs) (map (kr_last_loc ps) rs) a =
    bind_res (Inr (concat (map (new_slots ps) (grow_tables ps ?free rs))))
      (\<lambda>out. py_assert (pg_debug_mode a \<longrightarrow> distinct out) (Inr (Some (map int32 out), a\<lparr>al_free_pages := drop ?n ?free\<rparr>)))"
    using npu_decode_unfold[OF ps ok refl, of a] spare zero slots by (cases "?n = 0") simp_all
  then show ?thesis using d by simp
qed

text \<open>
  (C21) Decoding on NPUs when the batch takes every free page and its last request continues a begun page: the method reads behind the end of
  the free list and raises, in a state in which the base class serves the same batch, every request with the slot its page table gives it,
  no slot twice, and the pages it begins leave the free lists. The allocator is well formed, pages have at least two slots, and the begun
  pages of the requests are different and not free.
\<close>

theorem npu_alloc_decode_index_error:
  assumes tr: "triton_ok tr" and inv: "paged_inv a" and ps: "ps = al_page_size a" "2 \<le> ps" and ok: "\<forall>r \<in> set rs. decode_ok ps r"
    and opn: "distinct (concat (map (open_page ps) rs))" "set (concat (map (open_page ps) rs)) \<inter> free_set a = {}"
    and all: "total_new_pages ps rs = length (al_free_pages a)" "al_free_pages a \<noteq> []" and last: "rs \<noteq> []" "kr_prefix (last rs) mod ps \<noteq> 0"
  shows "npu_alloc_decode (seq_tensor rs) (seq_tensor rs) (map (kr_last_loc ps) rs) a = Inl IndexError \<and>
    (\<exists>pages a'. alloc_decode tr (seq_tensor rs) (seq_tensor rs) (map (kr_last_loc ps) rs) a =
        Inr (Some (concat (map (new_slots ps) (grow_tables ps pages rs))), a') \<and> distinct (concat (map (new_slots ps) (grow_tables ps pages rs))) \<and>
      length pages = total_new_pages ps rs \<and> distinct pages \<and> set pages \<subseteq> free_set a \<and> paged_inv a' \<and> free_set a' = free_set a - set pages)"
proof
  have "total_new_pages ps rs * ps \<le> available_size a" using all(1) ps(1) by (simp add: available_size_def)
  then show "\<exists>pages a'. alloc_decode tr (seq_tensor rs) (seq_tensor rs) (map (kr_last_loc ps) rs) a =
      Inr (Some (concat (map (new_slots ps) (grow_tables ps pages rs))), a') \<and> distinct (concat (map (new_slots ps) (grow_tables ps pages rs))) \<and>
    length pages = total_new_pages ps rs \<and> distinct pages \<and> set pages \<subseteq> free_set a \<and> paged_inv a' \<and> free_set a' = free_set a - set pages"
    using alloc_decode_serves[OF tr inv ps ok opn] by blast
next
  let ?i = "length rs - 1"
  have i: "?i < length rs" and lst: "rs ! ?i = last rs" using last by (simp_all add: last_conv_nth)
  have split: "rs = take ?i rs @ [last rs]" using last(1) append_butlast_last_id[of rs] by (simp add: butlast_conv_take)
  have "kr_new_pages ps (last rs) = 0" using decode_new_pages(1)[OF ps(2)] ok last by simp
  then have "total_new_pages ps rs = pages_before ps rs ?i" 
    using arg_cong[OF split, of "\<lambda>xs. sum_list (map (kr_new_pages ps) xs)"] by (simp add: total_new_pages_def pages_before_def)
  then have "py_nth (al_free_pages a) (int (pages_before ps rs ?i)) = Inl IndexError" using all by (simp add: py_nth_def)
  moreover have "int (pages_before ps rs ?i) \<in> set (decode_starts ps rs)" using i by (auto simp: decode_starts_def)
  ultimately have "map_res (py_nth (al_free_pages a)) (decode_starts ps rs) = Inl IndexError" by (rule map_res_py_nth_error[rotated])
  then show "npu_alloc_decode (seq_tensor rs) (seq_tensor rs) (map (kr_last_loc ps) rs) a = Inl IndexError"
    using npu_decode_unfold[OF ps ok refl, of a] all by simp
qed

definition example_full :: paged_allocator where
  "example_full = example_paged\<lparr>al_release_pages := []\<rparr>"

lemma example_full_ok: "paged_inv example_full" "al_page_size example_full = 4" "free_set example_full = {5}" "al_free_pages example_full = [5]"
  by (auto simp: example_full_def example_paged_def paged_inv_def pages_ok_def free_set_def)

lemma example_decode_ok: "\<forall>r \<in> set example_decode. decode_ok 4 r" "total_new_pages 4 example_decode = 1"
  by (simp_all add: example_decode_def decode_ok_def kr_ok_def cdiv_def total_new_pages_def kr_new_pages_def)

theorem npu_alloc_decode_index_error_witness:
  "npu_alloc_decode [5, 7] [5, 7] [19, 9] example_full = Inl IndexError \<and>
   (\<exists>a'. alloc_decode example_triton [5, 7] [5, 7] [19, 9] example_full = Inr (Some [20, 10], a'))"
proof -
  have "example_decode \<noteq> []" "kr_prefix (last example_decode) mod 4 \<noteq> 0" "(2::nat) \<le> 4"
    "total_new_pages 4 example_decode = length (al_free_pages example_full)" "al_free_pages example_full \<noteq> []"
    "distinct (concat (map (open_page 4) example_decode))" "set (concat (map (open_page 4) example_decode)) \<inter> free_set example_full = {}"
    by (simp_all add: example_decode_def example_full_ok total_new_pages_def kr_new_pages_def cdiv_def open_page_def)
  note err = npu_alloc_decode_index_error[OF example_triton_ok(1) example_full_ok(1) example_full_ok(2)[symmetric] this(3) example_decode_ok(1) this(6,7,4,5,1,2)]
  have t: "seq_tensor example_decode = [5, 7]" "map (kr_last_loc 4) example_decode = [19, 9]"
    by (simp_all add: example_decode_def kr_last_loc_def table_slot_def)
  have "pages = [5] \<Longrightarrow> concat (map (new_slots 4) (grow_tables 4 pages example_decode)) = [20, 10]" for pages
    by (simp add: example_decode_def new_slots_def table_slot_def kr_new_pages_def cdiv_def)
  moreover have "pages = [5]" if "length pages = total_new_pages 4 example_decode" "set pages \<subseteq> free_set example_full" for pages
    using that example_decode_ok(2) example_full_ok(3) by (cases pages) auto
  ultimately show ?thesis using err unfolding t by (metis (no_types))
qed

definition example_spare :: paged_allocator where
  "example_spare = example_paged\<lparr>al_free_pages := [5, 6], al_release_pages := []\<rparr>"

theorem npu_alloc_decode_correct_witness:
  "\<exists>a'. npu_alloc_decode [5, 7] [5, 7] [19, 9] example_spare = Inr (Some (map int32 [20, 10]), a')"
proof -
  have s: "paged_inv example_spare" "al_page_size example_spare = 4" "free_set example_spare = {5, 6}" "al_free_pages example_spare = [5, 6]"
    by (auto simp: example_spare_def example_paged_def paged_inv_def pages_ok_def free_set_def)
  have "distinct (concat (map (open_page 4) example_decode))" "set (concat (map (open_page 4) example_decode)) \<inter> free_set example_spare = {}"
    "total_new_pages 4 example_decode < length (al_free_pages example_spare)" "(2::nat) \<le> 4"
    using example_decode_ok(2) by (simp_all add: s) (simp_all add: example_decode_def open_page_def)
  from npu_alloc_decode_correct[OF s(1) s(2)[symmetric] this(4) example_decode_ok(1) this(1,2,3)]
  show ?thesis by (simp add: s example_decode_def kr_last_loc_def table_slot_def kr_new_pages_def cdiv_def new_slots_def)
qed
section \<open>Extending\<close>

lemma npu_num_new_pages:
  assumes "0 < ps" and "\<forall>r \<in> set rs. kr_ok ps r"
  shows "sum_list (map2 (\<lambda>s p. (s + (int ps - 1)) div int ps - (p + (int ps - 1)) div int ps) (seq_tensor rs) (prefix_tensor rs)) = int (total_new_pages ps rs)"
  using num_new_pages_extend[OF assms] by (simp add: get_num_new_pages_def ceil_pages_def add_diff_eq)

text \<open>
  With 200 new pages and more the loop is used; a batch whose requests all reach the end of the page they have begun gets the slots of its page tables.
  Slots from \<open>2 ^ 31\<close> on do not fit the tensor the loop writes into.
\<close>

lemma npu_alloc_extend_many:
  assumes inv: "paged_inv a" and ps: "ps = al_page_size a" and ok: "\<forall>r \<in> set rs. kr_ok ps r \<and> reaches_page_end ps r"
    and opn: "distinct (concat (map (open_page ps) rs))" "set (concat (map (open_page ps) rs)) \<inter> free_set a = {}"
    and n: "total_new_pages ps rs \<le> length (al_free_pages a)" "200 \<le> total_new_pages ps rs" and fresh: "\<forall>n. length (fresh n) = n"
    and fits: "\<forall>x \<in> set (concat (map (new_slots ps) (grow_tables ps (al_free_pages a) rs))). 0 \<le> x \<and> x < 2 ^ 31"
  shows "npu_alloc_extend npu_kernel fresh (prefix_tensor rs) (seq_tensor rs) (map (kr_last_loc ps) rs) (extend_tokens rs) a =
    Inr (Some (concat (map (new_slots ps) (grow_tables ps (al_free_pages a) rs))),
         a\<lparr>al_free_pages := drop (total_new_pages ps rs) (al_free_pages a)\<rparr>)"
proof -
  let ?n = "total_new_pages ps rs" and ?free = "al_free_pages a"
  have pos: "0 < ps" and kok: "\<forall>r \<in> set rs. kr_ok ps r" using inv ps ok by (auto simp: paged_inv_def)
  have "set ?free \<subseteq> free_set a" "distinct ?free" using inv by (auto simp: free_set_def paged_inv_def pages_ok_def)
  then have "distinct (concat (map (open_page ps) rs) @ ?free)" using opn by auto
  then have d: "distinct (concat (map (new_slots ps) (grow_tables ps ?free rs)))" using grow_open_pages[OF pos kok _ n(1)] by simp
  have slice: "py_slice ?free (int ?n) (int (length ?free)) = drop ?n ?free"
    using py_slice_nat[of ?n "length ?free - ?n" ?free] n(1) by (simp add: of_nat_diff)
  have naive: "alloc_extend_naive (prefix_tensor rs) (seq_tensor rs) (map (kr_last_loc ps) rs) ?free (fresh (extend_tokens rs)) (int ps) =
      Inr (concat (map (new_slots ps) (grow_tables ps ?free rs)))"
    using fresh by (intro naive_correct[OF pos ok n(1)]) simp
  have cut: "map int32 (concat (map (new_slots ps) (grow_tables ps ?free rs))) = concat (map (new_slots ps) (grow_tables ps ?free rs))"
    using fits by (intro map_idI) (blast intro: int32_id)
  have e: "\<not> int (length ?free) < int ?n" "\<not> int ?n < 200" using n by simp_all
  show ?thesis
    unfolding npu_alloc_extend_def ps[symmetric] Let_def npu_num_new_pages[OF pos kok] using e extend_assert[OF pos] d
    by (simp add: naive slice length_torch_unique cut del: of_nat_less_iff map_concat)
qed

text \<open>Without enough pages nothing is taken, whatever the kernel.\<close>

lemma npu_alloc_extend_short:
  assumes inv: "paged_inv a" and ps: "ps = al_page_size a" and ok: "\<forall>r \<in> set rs. kr_ok ps r" and short: "available_size a < total_new_pages ps rs * ps"
  shows "\<exists>a'. npu_alloc_extend npu_kernel fresh (prefix_tensor rs) (seq_tensor rs) (map (kr_last_loc ps) rs) (extend_tokens rs) a = Inr (None, a') \<and>
    paged_inv a' \<and> free_set a' = free_set a"
proof -
  let ?n = "total_new_pages ps rs"
  have pos: "0 < ps" using inv ps by (simp add: paged_inv_def)
  define r where "r = (if al_need_sort a \<and> ?n > length (al_free_pages a) then merge_and_sort_free a else a)"
  have "pages_ok (pg_num_pages a) a" using inv by (simp add: paged_inv_def)
  note ready = ready_pages[OF this r_def]
  have "length (al_free_pages a) + length (al_release_pages a) < ?n" using short ps pos by (simp add: available_size_def)
  then have "length (al_free_pages r) < ?n" using ready(4) by simp
  then have "npu_alloc_extend npu_kernel fresh (prefix_tensor rs) (seq_tensor rs) (map (kr_last_loc ps) rs) (extend_tokens rs) a = Inr (None, r)"
    unfolding npu_alloc_extend_def ps[symmetric] Let_def npu_num_new_pages[OF pos ok] using extend_assert[OF pos] by (simp add: r_def[symmetric])
  moreover have "pg_num_pages r = pg_num_pages a" by (simp add: r_def)
  ultimately show ?thesis using ready inv by (auto simp: paged_inv_def)
qed
end
