(* ===== verification/Radix_Cache.thy ===== *)
theory Radix_Cache
  imports Kv_Allocator "HOL-Library.List_Lexorder"
begin

text \<open>
  The radix cache (\<^verbatim>\<open>sglang/srt/mem_cache/radix_cache.py\<close> and \<^verbatim>\<open>evict_policy.py\<close>): a tree whose paths are token sequences and whose nodes
  hold the KV slots of their tokens.

  The tree is a value: a node with its data and the dictionary of its children. A reference to a node is its id, and a change of a node
  rebuilds the path from the root to it. The readings of the clock and SHA-256 are arguments. A digest is the list of its bytes, the
  hexadecimal form being only its notation; token ids are below \<open>2 ^ 32\<close>.
\<close>

section \<open>Keys\<close>

datatype token = Token nat | Bigram nat nat

record radix_key =
  rk_token_ids :: "token list"
  rk_extra_key :: "string option"
  rk_is_bigram :: bool

definition key_len :: "radix_key \<Rightarrow> nat" where
  "key_len k = length (rk_token_ids k)"

text \<open>\<^verbatim>\<open>key[:n]\<close> and \<^verbatim>\<open>key[n:]\<close>; a slice forgets that its tokens are bigrams.\<close>

definition key_take :: "nat \<Rightarrow> radix_key \<Rightarrow> radix_key" where
  "key_take n k = \<lparr>rk_token_ids = take n (rk_token_ids k), rk_extra_key = rk_extra_key k, rk_is_bigram = False\<rparr>"

definition key_drop :: "nat \<Rightarrow> radix_key \<Rightarrow> radix_key" where
  "key_drop n k = \<lparr>rk_token_ids = drop n (rk_token_ids k), rk_extra_key = rk_extra_key k, rk_is_bigram = False\<rparr>"

definition check_extra_key :: "radix_key \<Rightarrow> radix_key \<Rightarrow> 'a result \<Rightarrow> 'a result" where
  "check_extra_key key0 key1 r = (if rk_extra_key key0 \<noteq> rk_extra_key key1 then Inl ValueError else r)"

fun match_tokens :: "token list \<Rightarrow> token list \<Rightarrow> nat" where
  "match_tokens (k0 # ks0) (k1 # ks1) = (if k0 \<noteq> k1 then 0 else Suc (match_tokens ks0 ks1))"
| "match_tokens _ _ = 0"

definition key_match_page_size1 :: "radix_key \<Rightarrow> radix_key \<Rightarrow> nat result" where
  "key_match_page_size1 key0 key1 = check_extra_key key0 key1 (Inr (match_tokens (rk_token_ids key0) (rk_token_ids key1)))"

text \<open>The loop of \<^verbatim>\<open>_key_match_paged\<close> from index \<open>i\<close>; the page size is positive.\<close>

function match_pages :: "nat \<Rightarrow> token list \<Rightarrow> token list \<Rightarrow> nat \<Rightarrow> nat" where
  "match_pages page_size ks0 ks1 i =
     (if i < min (length ks0) (length ks1) \<and> 0 < page_size
      then if take page_size (drop i ks0) \<noteq> take page_size (drop i ks1) then i else match_pages page_size ks0 ks1 (i + page_size)
      else i)"
  by pat_completeness auto
termination by (relation "measure (\<lambda>(_, ks0, _, i). length ks0 - i)") auto

declare match_pages.simps [simp del]

definition key_match_paged :: "nat \<Rightarrow> radix_key \<Rightarrow> radix_key \<Rightarrow> nat result" where
  "key_match_paged page_size key0 key1 = check_extra_key key0 key1 (Inr (match_pages page_size (rk_token_ids key0) (rk_token_ids key1) 0))"

type_synonym child_key = "string option \<times> token list"

definition get_child_key :: "nat \<Rightarrow> radix_key \<Rightarrow> child_key result" where
  "get_child_key page_size key =
     (if page_size = 1 then bind_res (py_nth (rk_token_ids key) 0) (\<lambda>plain_key. Inr (rk_extra_key key, [plain_key]))
      else Inr (rk_extra_key key, take page_size (rk_token_ids key)))"

text \<open>\<^verbatim>\<open>utils.py\<close>: bigrams for EAGLE.\<close>

fun pairs :: "token list \<Rightarrow> token list" where
  "pairs (Token a # Token b # ts) = Bigram a b # pairs (Token b # ts)"
| "pairs _ = []"

definition convert_to_bigram_key :: "token list \<Rightarrow> token list" where
  "convert_to_bigram_key tokens =
     (case tokens of (Bigram a b # _) \<Rightarrow> tokens | _ \<Rightarrow> if length tokens < 2 then [] else pairs tokens)"

section \<open>Nodes\<close>

record tree_node =
  tn_id :: nat
  tn_key :: radix_key
  tn_value :: "int list"
  tn_lock_ref :: int
  tn_last_access_time :: int
  tn_creation_time :: int
  tn_hit_count :: nat
  tn_hash_value :: "int list list option"
  tn_priority :: int

datatype radix_tree = Node (tdata: tree_node) (tchildren: "(child_key \<times> radix_tree) list")

datatype kv_event =
    BlockStored "int list" "int option" "token list" nat
  | BlockRemoved "int list"
  | AllBlocksCleared

record radix_config =
  rc_disable :: bool
  rc_page_size :: nat
  rc_enable_kv_cache_events :: bool
  rc_is_eagle :: bool
  rc_disable_finished_insert :: bool
  rc_sha256 :: "int list \<Rightarrow> int list"
  rc_clock :: "nat \<Rightarrow> int"

text \<open>The state beside the tree: sizes, the queue of events, the class variable \<^verbatim>\<open>TreeNode.counter\<close> and the number of readings of the clock.\<close>

record radix_meta =
  rm_evictable_size :: int
  rm_protected_size :: int
  rm_kv_event_queue :: "kv_event list"
  rm_counter :: nat
  rm_reads :: nat

definition read_clock :: "radix_config \<Rightarrow> radix_meta \<Rightarrow> int \<times> radix_meta" where
  "read_clock cfg m = (rc_clock cfg (rm_reads m), m\<lparr>rm_reads := Suc (rm_reads m)\<rparr>)"

definition new_tree_node :: "radix_config \<Rightarrow> int \<Rightarrow> radix_key \<Rightarrow> int list \<Rightarrow> radix_meta \<Rightarrow> tree_node \<times> radix_meta" where
  "new_tree_node cfg priority key vals m =
     (let (t0, m) = read_clock cfg m; (t1, m) = read_clock cfg m in
      (\<lparr>tn_id = rm_counter m, tn_key = key, tn_value = vals, tn_lock_ref = 0, tn_last_access_time = t0, tn_creation_time = t1, tn_hit_count = 0,
        tn_hash_value = None, tn_priority = priority\<rparr>, m\<lparr>rm_counter := Suc (rm_counter m)\<rparr>))"

section \<open>Hashes and events\<close>

text \<open>Token ids are below \<open>2 ^ 32\<close>; for others \<^verbatim>\<open>to_bytes(4)\<close> raises \<^verbatim>\<open>OverflowError\<close>, which is not modelled.\<close>

definition to_bytes4 :: "nat \<Rightarrow> int list" where
  "to_bytes4 n = map (\<lambda>k. int (n div 256 ^ k mod 256)) [0..<4]"

fun token_bytes :: "token \<Rightarrow> int list" where
  "token_bytes (Token t) = to_bytes4 t"
| "token_bytes (Bigram a b) = to_bytes4 a @ to_bytes4 b"

definition get_hash_str :: "radix_config \<Rightarrow> token list \<Rightarrow> int list option \<Rightarrow> int list" where
  "get_hash_str cfg token_ids prior_hash =
     rc_sha256 cfg ((case prior_hash of None \<Rightarrow> [] | Some h \<Rightarrow> h) @ concat (map token_bytes token_ids))"

definition hash_str_to_int64 :: "int list \<Rightarrow> int" where
  "hash_str_to_int64 digest =
     (let uint64_val = fold (\<lambda>b acc. acc * 256 + b) (take 8 digest) 0 in if uint64_val \<ge> 2 ^ 63 then uint64_val - 2 ^ 64 else uint64_val)"

text \<open>\<^verbatim>\<open>key.token_ids[start : start + page_size]\<close> for every \<open>start\<close> of \<^verbatim>\<open>range(0, len(key), page_size)\<close>.\<close>

function token_pages :: "nat \<Rightarrow> token list \<Rightarrow> token list list" where
  "token_pages page_size ks = (if ks = [] \<or> page_size = 0 then [] else take page_size ks # token_pages page_size (drop page_size ks))"
  by pat_completeness auto
termination by (relation "measure (\<lambda>(_, ks). length ks)") auto

declare token_pages.simps [simp del]

fun chain_hashes :: "radix_config \<Rightarrow> int list option \<Rightarrow> token list list \<Rightarrow> int list list" where
  "chain_hashes cfg parent_hash [] = []"
| "chain_hashes cfg parent_hash (page # pages) =
     (let hash_val = get_hash_str cfg page parent_hash in hash_val # chain_hashes cfg (Some hash_val) pages)"

definition compute_node_hash_values :: "radix_config \<Rightarrow> tree_node \<Rightarrow> tree_node \<Rightarrow> int list list" where
  "compute_node_hash_values cfg parent node =
     (let parent_hash = (case tn_hash_value parent of None \<Rightarrow> None
          | Some hs \<Rightarrow> if key_len (tn_key parent) > 0 \<and> hs \<noteq> [] then Some (last hs) else None)
      in chain_hashes cfg parent_hash (token_pages (rc_page_size cfg) (rk_token_ids (tn_key node))))"

definition split_node_hash_value :: "int list list option \<Rightarrow> nat \<Rightarrow> nat \<Rightarrow> int list list option \<times> int list list option" where
  "split_node_hash_value child_hash_value split_len page_size =
     (case child_hash_value of None \<Rightarrow> (None, None)
      | Some hs \<Rightarrow> let split_pages = (if page_size = 1 then split_len else split_len div page_size) in (Some (take split_pages hs), Some (drop split_pages hs)))"

definition with_hashes :: "radix_config \<Rightarrow> tree_node \<Rightarrow> tree_node \<Rightarrow> tree_node" where
  "with_hashes cfg parent node =
     (if tn_hash_value node = None then node\<lparr>tn_hash_value := Some (compute_node_hash_values cfg parent node)\<rparr> else node)"

definition node_hashes :: "tree_node \<Rightarrow> int list list" where
  "node_hashes node = (case tn_hash_value node of None \<Rightarrow> [] | Some hs \<Rightarrow> hs)"

fun stored_events :: "int option \<Rightarrow> token list list \<Rightarrow> int list list \<Rightarrow> nat \<Rightarrow> kv_event list result" where
  "stored_events parent_block_hash [] hashes page_index = Inr []"
| "stored_events parent_block_hash (page_tokens # pages) hashes page_index =
     bind_res (py_nth hashes (int page_index)) (\<lambda>h.
     let block_hash = hash_str_to_int64 h in
     bind_res (stored_events (Some block_hash) pages hashes (Suc page_index)) (\<lambda>es.
     Inr (BlockStored [block_hash] parent_block_hash page_tokens (length page_tokens) # es)))"

text \<open>\<open>at_root\<close> says that the parent is the root.\<close>

definition record_store_event :: "radix_config \<Rightarrow> bool \<Rightarrow> tree_node \<Rightarrow> tree_node \<Rightarrow> radix_meta \<Rightarrow> (tree_node \<times> radix_meta) result" where
  "record_store_event cfg at_root parent node m =
     (if rc_enable_kv_cache_events cfg then
        let node = with_hashes cfg parent node;
            parent_block_hash = (if at_root then None else
              case tn_hash_value parent of None \<Rightarrow> None | Some hs \<Rightarrow> if hs \<noteq> [] then Some (hash_str_to_int64 (last hs)) else None)
        in bind_res (stored_events parent_block_hash (token_pages (rc_page_size cfg) (rk_token_ids (tn_key node))) (node_hashes node) 0) (\<lambda>es.
           Inr (node, m\<lparr>rm_kv_event_queue := rm_kv_event_queue m @ es\<rparr>))
      else Inr (node, m))"

definition record_remove_event :: "radix_config \<Rightarrow> tree_node \<Rightarrow> tree_node \<Rightarrow> radix_meta \<Rightarrow> (tree_node \<times> radix_meta) result" where
  "record_remove_event cfg parent node m =
     (if rc_enable_kv_cache_events cfg then
        let node = with_hashes cfg parent node in
        bind_res (map_res (py_nth (node_hashes node)) (map int [0..<length (token_pages (rc_page_size cfg) (rk_token_ids (tn_key node)))])) (\<lambda>hs.
        Inr (node, m\<lparr>rm_kv_event_queue := rm_kv_event_queue m @ map (\<lambda>h. BlockRemoved [hash_str_to_int64 h]) hs\<rparr>))
      else Inr (node, m))"

definition record_all_cleared_event :: "radix_config \<Rightarrow> radix_meta \<Rightarrow> radix_meta" where
  "record_all_cleared_event cfg m =
     (if rc_enable_kv_cache_events cfg then m\<lparr>rm_kv_event_queue := rm_kv_event_queue m @ [AllBlocksCleared]\<rparr> else m)"

definition take_events :: "radix_config \<Rightarrow> radix_meta \<Rightarrow> kv_event list \<times> radix_meta" where
  "take_events cfg m =
     (if \<not> rc_enable_kv_cache_events cfg then ([], m) else (rm_kv_event_queue m, m\<lparr>rm_kv_event_queue := []\<rparr>))"

section \<open>Searching and inserting\<close>

lemma size_child: "map_of cs k = Some t \<Longrightarrow> size t < size (Node d cs)"
  by (induction cs) (auto split: if_splits)

lemma size_child_list:
  "map_of (tchildren node) k = Some t \<Longrightarrow> Suc (size_list (size_prod (\<lambda>x. 0) size) (tchildren t)) < size node"
  using size_child[of "tchildren node" k t "tdata node"] by (cases node; cases t) simp

definition key_match :: "radix_config \<Rightarrow> radix_key \<Rightarrow> radix_key \<Rightarrow> nat result" where
  "key_match cfg key0 key1 = (if rc_page_size cfg = 1 then key_match_page_size1 key0 key1 else key_match_paged (rc_page_size cfg) key0 key1)"

definition split_node :: "radix_config \<Rightarrow> tree_node \<Rightarrow> radix_tree \<Rightarrow> nat \<Rightarrow> radix_meta \<Rightarrow> (radix_tree \<times> radix_meta) result" where
  "split_node cfg parent child split_len m =
     bind_res (record_remove_event cfg parent (tdata child) m) (\<lambda>(c, m).
     let key = tn_key c;
         (new_node, m) = new_tree_node cfg (tn_priority c) (key_take split_len key) (take split_len (tn_value c)) m;
         (new_hash, child_hash) = split_node_hash_value (tn_hash_value c) split_len (rc_page_size cfg)
     in bind_res (get_child_key (rc_page_size cfg) (key_drop split_len key)) (\<lambda>ck.
        Inr (Node (new_node\<lparr>tn_lock_ref := tn_lock_ref c, tn_hash_value := new_hash\<rparr>)
               [(ck, Node (c\<lparr>tn_key := key_drop split_len key, tn_value := drop split_len (tn_value c), tn_hash_value := child_hash\<rparr>) (tchildren child))], m)))"

text \<open>The loop of \<^verbatim>\<open>_match_prefix_helper\<close> at a node: the slots found below it, the id of the last node, and the node after the search.\<close>

function match_node ::
  "radix_config \<Rightarrow> int \<Rightarrow> radix_key \<Rightarrow> radix_tree \<Rightarrow> radix_meta \<Rightarrow> (int list \<times> nat \<times> radix_tree \<times> radix_meta) result" where
  "match_node cfg access_time key node m =
     (if key_len key = 0 then Inr ([], tn_id (tdata node), node, m)
      else bind_res (get_child_key (rc_page_size cfg) key) (\<lambda>child_key.
        case map_of (tchildren node) child_key of
          None \<Rightarrow> Inr ([], tn_id (tdata node), node, m)
        | Some child \<Rightarrow>
            let c = (tdata child)\<lparr>tn_last_access_time := access_time\<rparr>; child = Node c (tchildren child) in
            bind_res (key_match cfg (tn_key c) key) (\<lambda>prefix_len.
            if prefix_len < key_len (tn_key c)
            then bind_res (split_node cfg (tdata node) child prefix_len m) (\<lambda>(new_node, m).
                 Inr (tn_value (tdata new_node), tn_id (tdata new_node), Node (tdata node) (AList.update child_key new_node (tchildren node)), m))
            else bind_res (match_node cfg access_time (key_drop prefix_len key) child m) (\<lambda>(vals, last, child, m).
                 Inr (tn_value c @ vals, last, Node (tdata node) (AList.update child_key child (tchildren node)), m)))))"
  by pat_completeness auto

termination
  by (relation "measure (\<lambda>(_, _, _, node, _). size node)") (auto dest: size_child_list)

declare match_node.simps [simp del]

record radix_cache =
  rx_root :: radix_tree
  rx_meta :: radix_meta

definition key_page_align :: "radix_config \<Rightarrow> radix_key \<Rightarrow> radix_key" where
  "key_page_align cfg key =
     (if rc_page_size cfg \<noteq> 1 then key_take (key_len key div rc_page_size cfg * rc_page_size cfg) key else key)"

definition maybe_bigram_convert :: "radix_config \<Rightarrow> radix_key \<Rightarrow> int list \<Rightarrow> radix_key \<times> int list" where
  "maybe_bigram_convert cfg key vals =
     (if rc_is_eagle cfg \<and> \<not> rk_is_bigram key
      then let key = key\<lparr>rk_token_ids := convert_to_bigram_key (rk_token_ids key)\<rparr> in (key, take (key_len key) vals)
      else (key, vals))"

text \<open>The result of \<^verbatim>\<open>match_prefix\<close>: the slots of the longest cached prefix and the id of its last node.\<close>

definition match_prefix :: "radix_config \<Rightarrow> radix_key \<Rightarrow> radix_cache \<Rightarrow> ((int list \<times> nat) \<times> radix_cache) result" where
  "match_prefix cfg key rx =
     (let key = fst (maybe_bigram_convert cfg key []); empty_match_result = (([], tn_id (tdata (rx_root rx))), rx) in
      if rc_disable cfg \<or> key_len key = 0 then Inr empty_match_result
      else let key = key_page_align cfg key in
        if key_len key = 0 then Inr empty_match_result
        else let (access_time, m) = read_clock cfg (rx_meta rx);
                 root = Node ((tdata (rx_root rx))\<lparr>tn_last_access_time := access_time\<rparr>) (tchildren (rx_root rx)) in
          bind_res (match_node cfg access_time key root m) (\<lambda>(vals, last_node, root, m).
          Inr ((vals, last_node), \<lparr>rx_root = root, rx_meta = m\<rparr>)))"

text \<open>A leaf with the rest of the key.\<close>

definition attach_leaf ::
  "radix_config \<Rightarrow> bool \<Rightarrow> int \<Rightarrow> radix_key \<Rightarrow> int list \<Rightarrow> radix_tree \<Rightarrow> radix_meta \<Rightarrow> (radix_tree \<times> radix_meta) result" where
  "attach_leaf cfg at_root priority key vals node m =
     (if key_len key = 0 then Inr (node, m)
      else bind_res (get_child_key (rc_page_size cfg) key) (\<lambda>child_key.
        let (new_node, m) = new_tree_node cfg priority key vals m;
            m = m\<lparr>rm_evictable_size := rm_evictable_size m + int (key_len key)\<rparr> in
        bind_res (record_store_event cfg at_root (tdata node) new_node m) (\<lambda>(new_node, m).
        Inr (Node (tdata node) (AList.update child_key (Node new_node []) (tchildren node)), m))))"

text \<open>
  The loop of \<^verbatim>\<open>_insert_helper\<close> at a node. After a split the loop ends: either the key is used up, or its next page differs from
  the first page of the node that was split off (lemma \<open>split_ends_loop\<close>).
\<close>

function insert_node ::
  "radix_config \<Rightarrow> bool \<Rightarrow> int \<Rightarrow> int \<Rightarrow> radix_key \<Rightarrow> int list \<Rightarrow> radix_tree \<Rightarrow> radix_meta \<Rightarrow> (nat \<times> radix_tree \<times> radix_meta) result" where
  "insert_node cfg at_root access_time priority key vals node m =
     (if key_len key = 0 then Inr (0, node, m)
      else bind_res (get_child_key (rc_page_size cfg) key) (\<lambda>child_key.
        case map_of (tchildren node) child_key of
          None \<Rightarrow> bind_res (attach_leaf cfg at_root priority key vals node m) (\<lambda>(node, m). Inr (0, node, m))
        | Some child \<Rightarrow>
            let c = (tdata child)\<lparr>tn_last_access_time := access_time\<rparr> in
            bind_res (key_match cfg (tn_key c) key) (\<lambda>prefix_len.
            let key' = key_drop prefix_len key; vals' = drop prefix_len vals in
            if prefix_len < key_len (tn_key c)
            then bind_res (split_node cfg (tdata node) (Node c (tchildren child)) prefix_len m) (\<lambda>(new_node, m).
                 let n = tdata new_node; new_node = Node (n\<lparr>tn_priority := max (tn_priority n) priority\<rparr>) (tchildren new_node) in
                 bind_res (attach_leaf cfg False priority key' vals' new_node m) (\<lambda>(new_node, m).
                 Inr (prefix_len, Node (tdata node) (AList.update child_key new_node (tchildren node)), m)))
            else bind_res (insert_node cfg False access_time priority key' vals'
                             (Node (c\<lparr>tn_priority := max (tn_priority c) priority\<rparr>) (tchildren child)) m) (\<lambda>(n, child, m).
                 Inr (prefix_len + n, Node (tdata node) (AList.update child_key child (tchildren node)), m)))))"
  by pat_completeness auto
termination
  by (relation "measure (\<lambda>(_, _, _, _, _, _, node, _). size node)") (auto dest: size_child_list)

declare insert_node.simps [simp del]

definition insert_helper :: "radix_config \<Rightarrow> radix_key \<Rightarrow> int list \<Rightarrow> int \<Rightarrow> radix_cache \<Rightarrow> (nat \<times> radix_cache) result" where
  "insert_helper cfg key vals priority rx =
     (let (access_time, m) = read_clock cfg (rx_meta rx); r = tdata (rx_root rx);
          root = Node (r\<lparr>tn_last_access_time := access_time, tn_priority := max (tn_priority r) priority\<rparr>) (tchildren (rx_root rx)) in
      bind_res (insert_node cfg True access_time priority key vals root m) (\<lambda>(n, root, m).
      Inr (n, \<lparr>rx_root = root, rx_meta = m\<rparr>)))"

text \<open>The slots are always given; only simulations leave them out.\<close>

definition radix_insert :: "radix_config \<Rightarrow> radix_key \<Rightarrow> int list \<Rightarrow> int \<Rightarrow> radix_cache \<Rightarrow> (nat \<times> radix_cache) result" where
  "radix_insert cfg key vals priority rx =
     (if rc_disable cfg then Inr (0, rx)
      else let (key, vals) = maybe_bigram_convert cfg key vals in insert_helper cfg key vals priority rx)"

section \<open>Creation\<close>

definition maxsize :: int where
  "maxsize = 2 ^ 63 - 1"

definition radix_reset :: "radix_config \<Rightarrow> radix_meta \<Rightarrow> radix_cache" where
  "radix_reset cfg m =
     (let (root, m) = new_tree_node cfg (- maxsize) \<lparr>rk_token_ids = [], rk_extra_key = None, rk_is_bigram = False\<rparr> [] m in
      \<lparr>rx_root = Node (root\<lparr>tn_lock_ref := 1, tn_hash_value := Some []\<rparr>) [],
       rx_meta = record_all_cleared_event cfg (m\<lparr>rm_evictable_size := 0, rm_protected_size := 0\<rparr>)\<rparr>)"

section \<open>What the tree holds\<close>

text \<open>
  An entry says that the KV of the last token of a path is in a slot. Paths are qualified by the extra key, which keeps
  the namespaces apart.
\<close>

type_synonym kv_entry = "string option \<times> token list \<times> int"

abbreviation toks :: "tree_node \<Rightarrow> token list" where
  "toks d \<equiv> rk_token_ids (tn_key d)"

abbreviation extra :: "tree_node \<Rightarrow> string option" where
  "extra d \<equiv> rk_extra_key (tn_key d)"

fun entries :: "token list \<Rightarrow> radix_tree \<Rightarrow> kv_entry list" where
  "entries pre (Node d cs) =
     map (\<lambda>j. (extra d, pre @ take (Suc j) (toks d), tn_value d ! j)) [0..<length (tn_value d)] @
     concat (map (\<lambda>kt. entries (pre @ toks d) (snd kt)) cs)"

definition below :: "token list \<Rightarrow> (child_key \<times> radix_tree) list \<Rightarrow> kv_entry set" where
  "below pre cs = (\<Union>kt \<in> set cs. set (entries pre (snd kt)))"

abbreviation kid_entries :: "token list \<Rightarrow> (child_key \<times> radix_tree) list \<Rightarrow> kv_entry list" where
  "kid_entries pre cs \<equiv> concat (map (\<lambda>kt. entries pre (snd kt)) cs)"

lemma below_kid: "below pre cs = set (kid_entries pre cs)"
  by (auto simp: below_def)

lemma below_I: "(k, t) \<in> set cs \<Longrightarrow> x \<in> set (entries pre t) \<Longrightarrow> x \<in> below pre cs"
  by (force simp: below_def)

lemma set_entries:
  "set (entries pre (Node d cs)) = {(extra d, pre @ take (Suc j) (toks d), tn_value d ! j) |j. j < length (tn_value d)} \<union> below (pre @ toks d) cs"
  by (auto simp: below_def)

fun ids :: "radix_tree \<Rightarrow> nat list" where
  "ids (Node d cs) = tn_id d # concat (map (\<lambda>kt. ids (snd kt)) cs)"

text \<open>Tokens of nodes whose reference count satisfies a predicate.\<close>

fun sized :: "(int \<Rightarrow> bool) \<Rightarrow> radix_tree \<Rightarrow> nat" where
  "sized P (Node d cs) = (if P (tn_lock_ref d) then key_len (tn_key d) else 0) + sum_list (map (\<lambda>kt. sized P (snd kt)) cs)"

text \<open>\<open>H i\<close> is the number of locks that are held on the node \<open>i\<close>.\<close>

fun held_locks :: "(nat \<Rightarrow> nat) \<Rightarrow> radix_tree \<Rightarrow> nat" where
  "held_locks H (Node d cs) = H (tn_id d) + sum_list (map (\<lambda>kt. held_locks H (snd kt)) cs)"

definition node_ok :: "nat \<Rightarrow> (nat \<Rightarrow> nat) \<Rightarrow> radix_tree \<Rightarrow> bool" where
  "node_ok ps H t \<longleftrightarrow>
     (let d = tdata t in 0 < length (toks d) \<and> ps dvd length (toks d) \<and> length (tn_value d) = length (toks d) \<and>
        tn_lock_ref d = int (held_locks H t) \<and> (\<forall>hs. tn_hash_value d = Some hs \<longrightarrow> length hs = length (toks d) div ps))"

definition child_key_ok :: "nat \<Rightarrow> tree_node \<Rightarrow> child_key \<Rightarrow> radix_tree \<Rightarrow> bool" where
  "child_key_ok ps d k t \<longleftrightarrow> k = (extra (tdata t), take ps (toks (tdata t))) \<and> (toks d \<noteq> [] \<longrightarrow> extra (tdata t) = extra d)"

fun good :: "nat \<Rightarrow> (nat \<Rightarrow> nat) \<Rightarrow> radix_tree \<Rightarrow> bool" where
  "good ps H (Node d cs) \<longleftrightarrow>
     distinct (map fst cs) \<and> (\<forall>kt \<in> set cs. node_ok ps H (snd kt) \<and> child_key_ok ps d (fst kt) (snd kt) \<and> good ps H (snd kt))"

lemma tree_induct [case_names Node]:
  assumes "\<And>d cs. (\<And>k t. (k, t) \<in> set cs \<Longrightarrow> P t) \<Longrightarrow> P (Node d cs)" shows "P t"
proof (induction t)
  case (Node d cs)
  show ?case by (rule assms) (use Node in \<open>auto simp: snds.simps\<close>)
qed

lemma entries_cases [consumes 1, case_names own child]:
  assumes "(e, p, s) \<in> set (entries pre (Node d cs))"
  obtains j where "j < length (tn_value d)" "e = extra d" "p = pre @ take (Suc j) (toks d)" "s = tn_value d ! j"
    | k t where "(k, t) \<in> set cs" "(e, p, s) \<in> set (entries (pre @ toks d) t)"
  using assms by auto

lemma entries_path: "(e, p, s) \<in> set (entries pre t) \<Longrightarrow> \<exists>w. p = pre @ w"
proof (induction t arbitrary: pre rule: tree_induct)
  case (Node d cs)
  from Node.prems show ?case by (cases rule: entries_cases) (use Node.IH[of _ _ "pre @ toks d"] in \<open>fastforce+\<close>)
qed

text \<open>All entries of a node carry its extra key and start with its first page.\<close>

lemma entries_extra:
  "good ps H t \<Longrightarrow> node_ok ps H t \<Longrightarrow> (e, p, s) \<in> set (entries pre t) \<Longrightarrow> e = extra (tdata t)"
proof (induction t arbitrary: pre rule: tree_induct)
  case (Node d cs)
  from Node.prems(3) show ?case
  proof (cases rule: entries_cases)
    case (child k t)
    then have g: "good ps H t" "node_ok ps H t" "child_key_ok ps d k t" using Node.prems(1) by auto
    have "e = extra (tdata t)" using Node.IH[OF child(1) g(1,2) child(2)] .
    moreover have "toks d \<noteq> []" using Node.prems(2) by (auto simp: node_ok_def)
    ultimately show ?thesis using g(3) by (simp add: child_key_ok_def)
  qed simp
qed

text \<open>An entry below a node, relative to the path of the node: it ends inside the node, or the tokens of the node are a proper prefix.\<close>

lemma entries_split:
  "(e, pre @ w, s) \<in> set (entries pre (Node d cs)) \<longleftrightarrow>
     (\<exists>j < length (tn_value d). e = extra d \<and> w = take (Suc j) (toks d) \<and> s = tn_value d ! j) \<or>
     (\<exists>w'. w = toks d @ w' \<and> (e, (pre @ toks d) @ w', s) \<in> below (pre @ toks d) cs)"
proof
  assume "(e, pre @ w, s) \<in> set (entries pre (Node d cs))"
  then show "(\<exists>j < length (tn_value d). e = extra d \<and> w = take (Suc j) (toks d) \<and> s = tn_value d ! j) \<or>
     (\<exists>w'. w = toks d @ w' \<and> (e, (pre @ toks d) @ w', s) \<in> below (pre @ toks d) cs)"
  proof (cases rule: entries_cases)
    case (child k t)
    then obtain w' where "pre @ w = (pre @ toks d) @ w'" using entries_path by blast
    then show ?thesis using below_I[OF child] by auto
  qed auto
qed (auto simp: below_def)

lemma below_ext: "(e, p, s) \<in> below pre cs \<Longrightarrow> \<exists>w. p = pre @ w"
  using entries_path by (fastforce simp: below_def)

lemma take_take_prefix: "n \<le> length w \<Longrightarrow> w = take m xs \<Longrightarrow> take n w = take n xs"
  by (metis length_take min.absorb_iff1 min.bounded_iff take_take)

lemma below_first_page:
  assumes g: "good ps H (Node d cs)" and e: "(e, pre @ w, s) \<in> below pre cs" and ps: "0 < ps" "ps \<le> length w"
  obtains t where "map_of cs (e, take ps w) = Some t" "(e, pre @ w, s) \<in> set (entries pre t)"
proof -
  obtain k t where kt: "(k, t) \<in> set cs" "(e, pre @ w, s) \<in> set (entries pre t)" using e by (auto simp: below_def)
  then have t: "node_ok ps H t" "child_key_ok ps d k t" "good ps H t" using g by auto
  obtain c ccs where tt: "t = Node c ccs" by (cases t)
  have len: "ps \<le> length (toks c)" using t(1) tt by (auto simp: node_ok_def dest: dvd_imp_le)
  have "take ps w = take ps (toks c)"
    using kt(2) ps(2) len unfolding tt entries_split by (auto dest: take_take_prefix)
  moreover have "e = extra c" using entries_extra[OF t(3,1) kt(2)] tt by simp
  ultimately have "k = (e, take ps w)" using t(2) tt by (simp add: child_key_ok_def)
  then have "map_of cs (e, take ps w) = Some t" using kt(1) g by (auto intro: map_of_is_SomeI)
  then show ?thesis using kt(2) that by blast
qed

section \<open>Comparing keys\<close>

lemma match_pages_spec:
  assumes "0 < ps" and "ps dvd length xs" and "ps dvd length ys" and "ps dvd i" and "i \<le> min (length xs) (length ys)" and "take i xs = take i ys"
    and n: "n = match_pages ps xs ys i"
  shows "ps dvd n \<and> i \<le> n \<and> n \<le> length xs \<and> n \<le> length ys \<and> take n xs = take n ys \<and>
    (n < length xs \<and> n < length ys \<longrightarrow> take ps (drop n xs) \<noteq> take ps (drop n ys))"
  using assms
proof (induction ps xs ys i arbitrary: n rule: match_pages.induct)
  case (1 ps xs ys i)
  show ?case
  proof (cases "i < min (length xs) (length ys) \<and> take ps (drop i xs) = take ps (drop i ys)")
    case True
    then have eq: "match_pages ps xs ys i = match_pages ps xs ys (i + ps)" using 1(2) by (subst match_pages.simps) simp
    have "ps dvd length xs - i" "ps dvd length ys - i" using 1(3,4,5) by (simp_all add: dvd_diff_nat)
    then have le: "i + ps \<le> min (length xs) (length ys)" using True by (auto dest!: dvd_imp_le)
    have t: "take (i + ps) xs = take (i + ps) ys" using True 1(7) by (simp add: take_add)
    show ?thesis using 1(1)[OF _ _ 1(2,3,4) _ le t, of n] True 1(2,5,8) eq by auto
  next
    case False
    then have "match_pages ps xs ys i = i" by (subst match_pages.simps) auto
    then show ?thesis using 1 False by auto
  qed
qed

lemma match_tokens_spec:
  "n = match_tokens xs ys \<Longrightarrow> n \<le> length xs \<and> n \<le> length ys \<and> take n xs = take n ys \<and>
    (n < length xs \<and> n < length ys \<longrightarrow> take 1 (drop n xs) \<noteq> take 1 (drop n ys))"
  by (induction xs ys arbitrary: n rule: match_tokens.induct) auto

lemma key_match_spec:
  assumes "0 < rc_page_size cfg" and "rc_page_size cfg dvd key_len k0" and "rc_page_size cfg dvd key_len k1" and "rk_extra_key k0 = rk_extra_key k1"
  obtains n where "key_match cfg k0 k1 = Inr n" "rc_page_size cfg dvd n" "n \<le> key_len k0" "n \<le> key_len k1"
    "take n (rk_token_ids k0) = take n (rk_token_ids k1)"
    "n < key_len k0 \<Longrightarrow> n < key_len k1 \<Longrightarrow> take (rc_page_size cfg) (drop n (rk_token_ids k0)) \<noteq> take (rc_page_size cfg) (drop n (rk_token_ids k1))"
proof (cases "rc_page_size cfg = 1")
  case True
  note m = match_tokens_spec[OF refl, of "rk_token_ids k0" "rk_token_ids k1"]
  show ?thesis
    by (rule that[of "match_tokens (rk_token_ids k0) (rk_token_ids k1)"])
      (use m True assms(4) in \<open>auto simp: key_match_def key_match_page_size1_def check_extra_key_def key_len_def\<close>)
next
  case False
  note m = match_pages_spec[OF assms(1) assms(2,3)[unfolded key_len_def] _ _ _ refl, of 0]
  show ?thesis
    by (rule that[of "match_pages (rc_page_size cfg) (rk_token_ids k0) (rk_token_ids k1) 0"])
      (use m False assms(4) in \<open>auto simp: key_match_def key_match_paged_def check_extra_key_def key_len_def\<close>)
qed

lemma child_key_Inr: "rk_token_ids key \<noteq> [] \<Longrightarrow> get_child_key ps key = Inr (rk_extra_key key, take ps (rk_token_ids key))"
  by (cases "rk_token_ids key") (auto simp: get_child_key_def py_nth_def)

text \<open>The first page is compared before anything else.\<close>

lemma key_match_first_page:
  assumes "0 < ps" and "ps dvd length xs" and "ps dvd length ys" and "xs \<noteq> []" "ys \<noteq> []" and "take ps xs = take ps ys"
    and "n < length xs \<Longrightarrow> n < length ys \<Longrightarrow> take ps (drop n xs) \<noteq> take ps (drop n ys)" and "ps dvd n"
  shows "ps \<le> n"
proof (rule ccontr)
  assume "\<not> ps \<le> n"
  then have "n = 0" using assms(1,8) by (auto dest: dvd_imp_le)
  then show False using assms(4-7) by simp
qed

text \<open>
  After a split inside a node the loop of the insertion cannot go on into the old child, whatever the keys: if a page of the key is left, it is
  the one at which the comparison stopped.
\<close>

lemma split_ends_loop:
  assumes "key_match cfg k0 k1 = Inr n" and "n < key_len k0" and "n < key_len k1" and "0 < rc_page_size cfg"
  shows "get_child_key (rc_page_size cfg) (key_drop n k0) \<noteq> get_child_key (rc_page_size cfg) (key_drop n k1)"
proof -
  have pages: "take ps (drop m xs) \<noteq> take ps (drop m ys)" if "m = match_pages ps xs ys i" "m < length xs" "m < length ys" "0 < ps" for m ps xs ys i
    using that
  proof (induction ps xs ys i rule: match_pages.induct)
    case (1 ps xs ys i)
    then show ?case using match_pages.simps[of ps xs ys i] by (auto split: if_splits)
  qed
  have "take (rc_page_size cfg) (drop n (rk_token_ids k0)) \<noteq> take (rc_page_size cfg) (drop n (rk_token_ids k1))"
  proof (cases "rc_page_size cfg = 1")
    case True
    then show ?thesis using assms match_tokens_spec[OF refl, of "rk_token_ids k0" "rk_token_ids k1"]
      by (auto simp: key_match_def key_match_page_size1_def check_extra_key_def key_len_def split: if_splits)
  next
    case False
    then show ?thesis using assms pages[of n "rc_page_size cfg" "rk_token_ids k0" "rk_token_ids k1" 0]
      by (auto simp: key_match_def key_match_paged_def check_extra_key_def key_len_def split: if_splits)
  qed
  then show ?thesis using assms(2,3) by (simp add: child_key_Inr key_drop_def key_len_def)
qed

section \<open>Replacing a child\<close>

lemma update_split:
  assumes "map_of cs k = Some t"
  obtains xs ys where "cs = xs @ (k, t) # ys" "\<And>t'. AList.update k t' cs = xs @ (k, t') # ys"
proof -
  have "\<exists>xs ys. cs = xs @ (k, t) # ys \<and> (\<forall>t'. AList.update k t' cs = xs @ (k, t') # ys)"
    using assms
  proof (induction cs)
    case (Cons kt cs)
    show ?case
    proof (cases "fst kt = k")
      case True
      then show ?thesis using Cons.prems by (intro exI[of _ "[]"] exI[of _ cs]) (cases kt; auto)
    next
      case False
      then obtain xs ys where "cs = xs @ (k, t) # ys" "\<forall>t'. AList.update k t' cs = xs @ (k, t') # ys" using Cons by (cases kt) auto
      then show ?thesis using False by (intro exI[of _ "kt # xs"] exI[of _ ys]) (cases kt; auto)
    qed
  qed simp
  then show ?thesis using that by blast
qed

section \<open>How a change of a node shows in its parents\<close>

abbreviation kid_ids :: "(child_key \<times> radix_tree) list \<Rightarrow> nat list" where
  "kid_ids cs \<equiv> concat (map (\<lambda>kt. ids (snd kt)) cs)"

definition ids_ok :: "radix_meta \<Rightarrow> nat list \<Rightarrow> bool" where
  "ids_ok m is \<longleftrightarrow> distinct is \<and> (\<forall>i \<in> set is. i < rm_counter m)"

definition ids_grow :: "radix_meta \<Rightarrow> nat list \<Rightarrow> radix_meta \<Rightarrow> nat list \<Rightarrow> bool" where
  "ids_grow m is m' is' \<longleftrightarrow>
     (ids_ok m is \<longrightarrow> ids_ok m' is' \<and> set is \<subseteq> set is' \<and> set is' \<subseteq> set is \<union> {rm_counter m..<rm_counter m'})"

definition meta_grow :: "radix_meta \<Rightarrow> radix_meta \<Rightarrow> nat \<Rightarrow> bool" where
  "meta_grow m m' n \<longleftrightarrow> rm_counter m \<le> rm_counter m' \<and> rm_evictable_size m' = rm_evictable_size m + int n \<and>
     rm_protected_size m' = rm_protected_size m"

text \<open>\<open>t'\<close> replaces \<open>t\<close> under the same key: it holds the entries \<open>X\<close> in addition, with \<open>n\<close> more unlocked tokens.\<close>

definition grows :: "nat \<Rightarrow> (nat \<Rightarrow> nat) \<Rightarrow> radix_meta \<Rightarrow> radix_tree \<Rightarrow> radix_meta \<Rightarrow> radix_tree \<Rightarrow> (token list \<Rightarrow> kv_entry list) \<Rightarrow> nat \<Rightarrow> bool" where
  "grows ps H m t m' t' X n \<longleftrightarrow>
     node_ok ps H t' \<and> good ps H t' \<and> extra (tdata t') = extra (tdata t) \<and> take ps (toks (tdata t')) = take ps (toks (tdata t)) \<and>
     (\<forall>pre. mset (entries pre t') = mset (entries pre t) + mset (X pre)) \<and> held_locks H t' = held_locks H t \<and>
     sized (\<lambda>l. l = 0) t' = sized (\<lambda>l. l = 0) t + n \<and> sized (\<lambda>l. l \<noteq> 0) t' = sized (\<lambda>l. l \<noteq> 0) t \<and> ids_grow m (ids t) m' (ids t')"

definition kids_grow ::
  "nat \<Rightarrow> (nat \<Rightarrow> nat) \<Rightarrow> tree_node \<Rightarrow> radix_meta \<Rightarrow> (child_key \<times> radix_tree) list \<Rightarrow> radix_meta \<Rightarrow> (child_key \<times> radix_tree) list
   \<Rightarrow> (token list \<Rightarrow> kv_entry list) \<Rightarrow> nat \<Rightarrow> bool" where
  "kids_grow ps H d m cs m' cs' X n \<longleftrightarrow>
     good ps H (Node d cs') \<and> (\<forall>pre. mset (kid_entries pre cs') = mset (kid_entries pre cs) + mset (X pre)) \<and>
     sum_list (map (\<lambda>kt. held_locks H (snd kt)) cs') = sum_list (map (\<lambda>kt. held_locks H (snd kt)) cs) \<and>
     sum_list (map (\<lambda>kt. sized (\<lambda>l. l = 0) (snd kt)) cs') = sum_list (map (\<lambda>kt. sized (\<lambda>l. l = 0) (snd kt)) cs) + n \<and>
     sum_list (map (\<lambda>kt. sized (\<lambda>l. l \<noteq> 0) (snd kt)) cs') = sum_list (map (\<lambda>kt. sized (\<lambda>l. l \<noteq> 0) (snd kt)) cs) \<and>
     ids_grow m (kid_ids cs) m' (kid_ids cs')"

lemma ids_grow_context:
  assumes "ids_grow m is m' is'" and "rm_counter m \<le> rm_counter m'" shows "ids_grow m (xs @ is @ ys) m' (xs @ is' @ ys)"
  unfolding ids_grow_def
proof
  assume ok: "ids_ok m (xs @ is @ ys)"
  then have i: "ids_ok m' is'" "set is \<subseteq> set is'" "set is' \<subseteq> set is \<union> {rm_counter m..<rm_counter m'}"
    using assms(1) by (auto simp: ids_grow_def ids_ok_def)
  have "x \<notin> set is'" if "x \<in> set xs \<union> set ys" for x
  proof -
    have "x < rm_counter m" "x \<notin> set is" using that ok by (auto simp: ids_ok_def)
    then show ?thesis using i(3) by auto
  qed
  moreover have "i < rm_counter m'" if "i \<in> set xs \<union> set ys" for i using that ok assms(2) by (auto simp: ids_ok_def intro: less_le_trans)
  ultimately show "ids_ok m' (xs @ is' @ ys) \<and> set (xs @ is @ ys) \<subseteq> set (xs @ is' @ ys) \<and>
    set (xs @ is' @ ys) \<subseteq> set (xs @ is @ ys) \<union> {rm_counter m..<rm_counter m'}"
    using ok i assms(2) unfolding ids_ok_def by auto
qed

lemma ids_grow_leaf: "rm_counter m' = Suc (rm_counter m) \<Longrightarrow> ids_grow m is m' (is @ [rm_counter m])"
  unfolding ids_grow_def ids_ok_def by (auto dest: less_SucI)

lemma replace_child:
  assumes g: "good ps H (Node d cs)" and k: "map_of cs k = Some t" and t': "grows ps H m t m' t' X n" and c: "rm_counter m \<le> rm_counter m'"
  shows "kids_grow ps H d m cs m' (AList.update k t' cs) X n"
proof -
  obtain xs ys where cs: "cs = xs @ (k, t) # ys" "AList.update k t' cs = xs @ (k, t') # ys" using update_split[OF k] by metis
  have ok: "child_key_ok ps d k t'" using g t' cs(1) by (auto simp: child_key_ok_def grows_def)
  have "good ps H (Node d (xs @ (k, t') # ys))" using g t' ok cs(1) by (auto simp: grows_def)
  moreover have "ids_grow m (kid_ids cs) m' (kid_ids (xs @ (k, t') # ys))"
    using ids_grow_context[OF _ c, of "ids t" "ids t'" "kid_ids xs" "kid_ids ys"] t' cs(1) by (simp add: grows_def)
  ultimately show ?thesis using t' unfolding cs(2) unfolding cs(1) kids_grow_def by (simp add: grows_def)
qed

lemma add_child:
  assumes g: "good ps H (Node d cs)" and k: "map_of cs k = None" and t: "node_ok ps H t" "good ps H t" "child_key_ok ps d k t"
    and locks: "held_locks H t = 0" "sized (\<lambda>l. l = 0) t = n" "sized (\<lambda>l. l \<noteq> 0) t = 0" and X: "\<And>pre. entries pre t = X pre"
    and i: "ids t = [rm_counter m]" and c: "rm_counter m' = Suc (rm_counter m)"
  shows "kids_grow ps H d m cs m' (AList.update k t cs) X n"
proof -
  have notin: "k \<notin> fst ` set cs" using k by (simp add: map_of_eq_None_iff)
  then have cs: "AList.update k t cs = cs @ [(k, t)]" by (rule update_notin)
  have "good ps H (Node d (cs @ [(k, t)]))" using g t notin by auto
  moreover have "ids_grow m (kid_ids cs) m' (kid_ids (cs @ [(k, t)]))"
    using ids_grow_leaf[of m' m "kid_ids cs"] i c by simp
  ultimately show ?thesis using locks X unfolding cs kids_grow_def by simp
qed

lemma ids_grow_trans:
  assumes 1: "ids_grow m is m1 is1" and 2: "ids_grow m1 is1 m2 is2" and c: "rm_counter m \<le> rm_counter m1" "rm_counter m1 \<le> rm_counter m2"
  shows "ids_grow m is m2 is2"
  unfolding ids_grow_def
proof
  assume "ids_ok m is"
  then have 1: "ids_ok m1 is1" "set is \<subseteq> set is1" "set is1 \<subseteq> set is \<union> {rm_counter m..<rm_counter m1}" using 1 by (simp_all add: ids_grow_def)
  then have 2: "ids_ok m2 is2" "set is1 \<subseteq> set is2" "set is2 \<subseteq> set is1 \<union> {rm_counter m1..<rm_counter m2}" using 2 by (simp_all add: ids_grow_def)
  have "{rm_counter m..<rm_counter m1} \<subseteq> {rm_counter m..<rm_counter m2}" "{rm_counter m1..<rm_counter m2} \<subseteq> {rm_counter m..<rm_counter m2}"
    using c by auto
  then show "ids_ok m2 is2 \<and> set is \<subseteq> set is2 \<and> set is2 \<subseteq> set is \<union> {rm_counter m..<rm_counter m2}" using 1 2 by blast
qed

lemma grows_trans:
  assumes "grows ps H m t m1 t1 X n" and "grows ps H m1 t1 m2 t2 Y k" and "rm_counter m \<le> rm_counter m1" "rm_counter m1 \<le> rm_counter m2"
  shows "grows ps H m t m2 t2 (\<lambda>pre. X pre @ Y pre) (n + k)"
  using assms ids_grow_trans[of m "ids t" m1 "ids t1" m2 "ids t2"] unfolding grows_def by simp

text \<open>A child whose own tokens, slots and locks stay grows with its children.\<close>

lemma grows_kids:
  assumes ok: "node_ok ps H (Node c cs)" and k: "kids_grow ps H c' m cs m' cs' Y n" and c: "rm_counter m \<le> rm_counter m'"
    and c': "tn_id c' = tn_id c" "tn_key c' = tn_key c" "tn_value c' = tn_value c" "tn_lock_ref c' = tn_lock_ref c" "tn_hash_value c' = tn_hash_value c"
  shows "grows ps H m (Node c cs) m' (Node c' cs') (\<lambda>pre. Y (pre @ toks c)) n"
proof -
  have "ids_grow m (ids (Node c cs)) m' (ids (Node c' cs'))"
    using ids_grow_context[OF _ c, of "kid_ids cs" "kid_ids cs'" "[tn_id c]" "[]"] k c'(1) by (simp add: kids_grow_def)
  moreover have "node_ok ps H (Node c' cs')" using ok k unfolding node_ok_def kids_grow_def by (simp add: c')
  moreover have "good ps H (Node c' cs')" using k by (simp add: kids_grow_def)
  moreover have "mset (entries pre (Node c' cs')) = mset (entries pre (Node c cs)) + mset (Y (pre @ toks c))" for pre
    using k unfolding entries.simps c' by (simp add: kids_grow_def)
  ultimately show ?thesis using k unfolding grows_def by (simp add: c' kids_grow_def)
qed

section \<open>Events and splits\<close>

definition fresh_free :: "radix_meta \<Rightarrow> (nat \<Rightarrow> nat) \<Rightarrow> bool" where
  "fresh_free m H \<longleftrightarrow> (\<forall>i \<ge> rm_counter m. H i = 0)"

lemma fresh_free_mono: "fresh_free m H \<Longrightarrow> rm_counter m \<le> rm_counter m' \<Longrightarrow> fresh_free m' H"
  by (simp add: fresh_free_def)

lemma length_token_pages: "0 < ps \<Longrightarrow> ps dvd length ks \<Longrightarrow> length (token_pages ps ks) = length ks div ps"
proof (induction ps ks rule: token_pages.induct)
  case (1 ps ks)
  show ?case
  proof (cases "ks = []")
    case True
    then show ?thesis by (simp add: token_pages.simps)
  next
    case False
    then have le: "ps \<le> length ks" using 1(3) by (auto dest: dvd_imp_le)
    have "length (token_pages ps (drop ps ks)) = (length ks - ps) div ps" using 1 False by (simp add: dvd_diff_nat)
    then show ?thesis using False 1(2) le by (simp add: token_pages.simps[of ps ks] le_div_geq)
  qed
qed

lemma length_chain_hashes [simp]: "length (chain_hashes cfg h pages) = length pages"
  by (induction pages arbitrary: h) (auto simp: Let_def)

abbreviation hashes_ok :: "nat \<Rightarrow> tree_node \<Rightarrow> bool" where
  "hashes_ok ps d \<equiv> \<forall>hs. tn_hash_value d = Some hs \<longrightarrow> length hs = length (toks d) div ps"

lemma with_hashes_ok:
  assumes "0 < rc_page_size cfg" and "rc_page_size cfg dvd length (toks c)" and "hashes_ok (rc_page_size cfg) c"
  obtains hs where "with_hashes cfg p c = c\<lparr>tn_hash_value := Some hs\<rparr>" "length hs = length (toks c) div rc_page_size cfg"
proof (cases "tn_hash_value c")
  case None
  then show ?thesis using that assms(1,2) by (simp add: with_hashes_def compute_node_hash_values_def Let_def length_token_pages)
next
  case (Some hs)
  then have "c\<lparr>tn_hash_value := Some hs\<rparr> = c" by simp
  then show ?thesis using that[of hs] Some assms(3) by (simp add: with_hashes_def)
qed

lemma record_remove_ok:
  assumes "0 < rc_page_size cfg" and "rc_page_size cfg dvd length (toks c)" and "hashes_ok (rc_page_size cfg) c"
  obtains h q where "record_remove_event cfg p c m = Inr (c\<lparr>tn_hash_value := h\<rparr>, m\<lparr>rm_kv_event_queue := q\<rparr>)"
    "\<And>hs. h = Some hs \<Longrightarrow> length hs = length (toks c) div rc_page_size cfg"
proof (cases "rc_enable_kv_cache_events cfg")
  case True
  obtain hs where hs: "with_hashes cfg p c = c\<lparr>tn_hash_value := Some hs\<rparr>" "length hs = length (toks c) div rc_page_size cfg"
    using with_hashes_ok[OF assms] by metis
  have "map_res (py_nth hs) (map int [0..<length hs]) = Inr (map (\<lambda>i. hs ! nat i) (map int [0..<length hs]))"
    by (rule map_res_Inr) (auto simp: py_nth_def)
  then show ?thesis using that[of "Some hs"] True hs assms(1,2)
    by (simp add: record_remove_event_def Let_def node_hashes_def length_token_pages)
next
  case False
  then show ?thesis using that[of "tn_hash_value c" "rm_kv_event_queue m"] assms(3) by (simp add: record_remove_event_def)
qed

lemma stored_events_ok: "i + length pages \<le> length hs \<Longrightarrow> \<exists>es. stored_events h pages hs i = Inr es"
proof (induction pages arbitrary: h i)
  case (Cons p ps)
  then have "\<exists>es. stored_events (Some (hash_str_to_int64 (hs ! i))) ps hs (Suc i) = Inr es" by simp
  then show ?case using Cons.prems by (auto simp: py_nth_def Let_def)
qed simp

lemma record_store_ok:
  assumes "0 < rc_page_size cfg" and "rc_page_size cfg dvd length (toks c)" and "hashes_ok (rc_page_size cfg) c"
  obtains h q where "record_store_event cfg r p c m = Inr (c\<lparr>tn_hash_value := h\<rparr>, m\<lparr>rm_kv_event_queue := q\<rparr>)"
    "\<And>hs. h = Some hs \<Longrightarrow> length hs = length (toks c) div rc_page_size cfg"
proof (cases "rc_enable_kv_cache_events cfg")
  case True
  obtain hs where hs: "with_hashes cfg p c = c\<lparr>tn_hash_value := Some hs\<rparr>" "length hs = length (toks c) div rc_page_size cfg"
    using with_hashes_ok[OF assms] by metis
  have "\<exists>es. stored_events h (token_pages (rc_page_size cfg) (toks c)) hs 0 = Inr es" for h
    using stored_events_ok[of 0 _ hs h] hs(2) assms(1,2) by (simp add: length_token_pages)
  then obtain es where "stored_events (if r then None else case tn_hash_value p of None \<Rightarrow> None
      | Some hs \<Rightarrow> if hs \<noteq> [] then Some (hash_str_to_int64 (last hs)) else None) (token_pages (rc_page_size cfg) (toks c)) hs 0 = Inr es" by blast
  then show ?thesis using that[of "Some hs"] True hs by (simp add: record_store_event_def Let_def node_hashes_def)
next
  case False
  then show ?thesis using that[of "tn_hash_value c" "rm_kv_event_queue m"] assms(3) by (simp add: record_store_event_def)
qed

lemma new_tree_node_eq:
  "new_tree_node cfg pr key vals m =
    (\<lparr>tn_id = rm_counter m, tn_key = key, tn_value = vals, tn_lock_ref = 0, tn_last_access_time = rc_clock cfg (rm_reads m),
      tn_creation_time = rc_clock cfg (Suc (rm_reads m)), tn_hit_count = 0, tn_hash_value = None, tn_priority = pr\<rparr>,
     m\<lparr>rm_reads := Suc (Suc (rm_reads m)), rm_counter := Suc (rm_counter m)\<rparr>)"
  by (simp add: new_tree_node_def read_clock_def)

lemma map_upt_split: "n \<le> k \<Longrightarrow> map f [0..<k] = map f [0..<n] @ map (\<lambda>j. f (n + j)) [0..<k - n]"
  by (rule nth_equalityI) (auto simp: nth_append)

lemma entries_cut:
  assumes "L < length (toks c)" and "length (tn_value c) = length (toks c)"
  shows "map (\<lambda>j. (extra c, pre @ take (Suc j) (toks c), tn_value c ! j)) [0..<length (tn_value c)] =
    map (\<lambda>j. (extra c, pre @ take (Suc j) (take L (toks c)), take L (tn_value c) ! j)) [0..<L] @
    map (\<lambda>j. (extra c, (pre @ take L (toks c)) @ take (Suc j) (drop L (toks c)), drop L (tn_value c) ! j)) [0..<length (tn_value c) - L]"
proof -
  have "take (Suc (L + j)) (toks c) = take L (toks c) @ take (Suc j) (drop L (toks c))" for j using take_add[of L "Suc j"] by simp
  moreover have "take (Suc j) (take L (toks c)) = take (Suc j) (toks c)" if "j < L" for j using that by (simp add: min_def)
  ultimately show ?thesis using assms by (subst map_upt_split[of L]) simp_all
qed

lemma div_cut: "(p :: nat) dvd n \<Longrightarrow> p dvd L \<Longrightarrow> (n - L) div p = n div p - L div p"
  by (auto simp: diff_mult_distrib2[symmetric] dvd_def)

lemma split_spec:
  assumes ps: "0 < rc_page_size cfg" and ok: "node_ok (rc_page_size cfg) H (Node c cs)" "good (rc_page_size cfg) H (Node c cs)"
    and L: "rc_page_size cfg dvd L" "0 < L" "L < length (toks c)" and H: "fresh_free m H"
  obtains new m' where "split_node cfg parent (Node c cs) L m = Inr (new, m')"
    "grows (rc_page_size cfg) H m (Node c cs) m' new (\<lambda>_. []) 0" "meta_grow m m' 0" "tn_id (tdata new) = rm_counter m"
    "tn_value (tdata new) = take L (tn_value c)" "toks (tdata new) = take L (toks c)" "extra (tdata new) = extra c"
    "map fst (tchildren new) = [(extra c, take (rc_page_size cfg) (drop L (toks c)))]"
proof -
  let ?ps = "rc_page_size cfg"
  have c: "?ps dvd length (toks c)" "hashes_ok ?ps c" "length (tn_value c) = length (toks c)" "tn_lock_ref c = int (held_locks H (Node c cs))"
    using ok(1) by (auto simp: node_ok_def)
  obtain h q where r: "record_remove_event cfg parent c m = Inr (c\<lparr>tn_hash_value := h\<rparr>, m\<lparr>rm_kv_event_queue := q\<rparr>)"
    "\<And>hs. h = Some hs \<Longrightarrow> length hs = length (toks c) div ?ps" using record_remove_ok[OF ps c(1,2)] by metis
  obtain h1 h2 where h: "split_node_hash_value h L ?ps = (h1, h2)" by (cases "split_node_hash_value h L ?ps")
  define c2 where "c2 = c\<lparr>tn_hash_value := h2, tn_key := key_drop L (tn_key c), tn_value := drop L (tn_value c)\<rparr>"
  define m1 where "m1 = m\<lparr>rm_kv_event_queue := q\<rparr>"
  define c1 where "c1 = (fst (new_tree_node cfg (tn_priority c) (key_take L (tn_key c)) (take L (tn_value c)) m1))\<lparr>tn_lock_ref := tn_lock_ref c, tn_hash_value := h1\<rparr>"
  define m2 where "m2 = snd (new_tree_node cfg (tn_priority c) (key_take L (tn_key c)) (take L (tn_value c)) m1)"
  define k where "k = (extra c, take ?ps (drop L (toks c)))"
  have kd: "get_child_key ?ps (key_drop L (tn_key c)) = Inr k" using L(3) by (simp add: child_key_Inr key_drop_def k_def)
  have eq: "split_node cfg parent (Node c cs) L m = Inr (Node c1 [(k, Node c2 cs)], m2)"
    using r h kd by (simp add: split_node_def Let_def c1_def c2_def m1_def m2_def split: prod.splits)
  have f: "tn_id c1 = rm_counter m" "tn_key c1 = key_take L (tn_key c)" "tn_value c1 = take L (tn_value c)" "tn_lock_ref c1 = tn_lock_ref c" "tn_hash_value c1 = h1"
    "rm_counter m2 = Suc (rm_counter m)" "rm_evictable_size m2 = rm_evictable_size m" "rm_protected_size m2 = rm_protected_size m"
    by (simp_all add: c1_def m2_def m1_def new_tree_node_eq)
  have f2: "tn_id c2 = tn_id c" "tn_key c2 = key_drop L (tn_key c)" "tn_value c2 = drop L (tn_value c)" "tn_lock_ref c2 = tn_lock_ref c" "tn_hash_value c2 = h2"
    by (simp_all add: c2_def)
  have hh: "\<And>hs. h1 = Some hs \<Longrightarrow> length hs = L div ?ps" "\<And>hs. h2 = Some hs \<Longrightarrow> length hs = (length (toks c) - L) div ?ps"
    using h r(2) L(3) div_cut[OF c(1) L(1)] div_le_mono[of L "length (toks c)" ?ps]
    by (auto simp: split_node_hash_value_def Let_def min_def split: option.splits if_splits)
  have dv: "?ps dvd length (toks c) - L" "?ps \<le> length (toks c) - L" "?ps \<le> L"
    using L c(1) dvd_imp_le[OF _ zero_less_diff[THEN iffD2, OF L(3)]] dvd_imp_le[OF L(1,2)] by (auto simp: dvd_diff_nat)
  have locks: "held_locks H (Node c2 cs) = held_locks H (Node c cs)" "held_locks H (Node c1 [(k, Node c2 cs)]) = held_locks H (Node c cs)"
    using H by (simp_all add: f f2 fresh_free_def)
  have ok2: "node_ok ?ps H (Node c2 cs)" "good ?ps H (Node c2 cs)" "child_key_ok ?ps c1 k (Node c2 cs)"
    using hh(2) dv c L(3) locks(1) ok(2) by (auto simp: node_ok_def f f2 key_drop_def key_take_def child_key_ok_def k_def)
  have ok1: "node_ok ?ps H (Node c1 [(k, Node c2 cs)])" "good ?ps H (Node c1 [(k, Node c2 cs)])"
    using hh(1) ok2 L c locks(2) by (auto simp: node_ok_def f key_take_def min_def)
  have ent: "entries pre (Node c1 [(k, Node c2 cs)]) = entries pre (Node c cs)" for pre
    using L(3) c(3) unfolding entries.simps entries_cut[OF L(3) c(3)]
    by (simp add: f f2 key_take_def key_drop_def)
  have "ids_grow m (ids (Node c cs)) m2 (ids (Node c1 [(k, Node c2 cs)]))"
    using f(1,6) f2(1) by (auto simp: ids_grow_def ids_ok_def dest: less_SucI)
  moreover have "sized P (Node c1 [(k, Node c2 cs)]) = sized P (Node c cs)" for P
    using L(3) by (simp add: f f2 key_len_def key_take_def key_drop_def)
  ultimately have "grows ?ps H m (Node c cs) m2 (Node c1 [(k, Node c2 cs)]) (\<lambda>_. []) 0"
    using ok1 ent locks(2) dv(3)
    by (simp add: grows_def f key_take_def min_def del: sized.simps entries.simps held_locks.simps ids.simps good.simps)
  then show ?thesis using that[OF eq] by (simp add: f key_take_def k_def meta_grow_def)
qed

section \<open>Searching\<close>

text \<open>\<open>vals\<close> are the slots of the longest prefix of \<open>ks\<close>, in whole pages, whose entries below the path \<open>pre\<close> are in \<open>E\<close>.\<close>

definition longest_cached :: "nat \<Rightarrow> kv_entry set \<Rightarrow> string option \<Rightarrow> token list \<Rightarrow> token list \<Rightarrow> int list \<Rightarrow> bool" where
  "longest_cached ps E e pre ks vals \<longleftrightarrow>
     ps dvd length vals \<and> length vals \<le> length ks \<and> (\<forall>j < length vals. (e, pre @ take (Suc j) ks, vals ! j) \<in> E) \<and>
     (\<forall>n s. length vals < n \<and> n \<le> length ks \<and> ps dvd n \<longrightarrow> (e, pre @ take n ks, s) \<notin> E)"

text \<open>The slots on the way from a node down to the node \<open>i\<close>.\<close>

inductive reaches :: "radix_tree \<Rightarrow> int list \<Rightarrow> nat \<Rightarrow> bool" where
  here: "reaches (Node d cs) [] (tn_id d)"
| child: "(k, t) \<in> set cs \<Longrightarrow> reaches t vals i \<Longrightarrow> reaches (Node d cs) (tn_value (tdata t) @ vals) i"

inductive_cases reachesE: "reaches (Node d cs) vals i"

lemma dvd_gap: "(p :: nat) dvd a \<Longrightarrow> p dvd b \<Longrightarrow> a < b \<Longrightarrow> a + p \<le> b"
  by (metis dvd_diff_nat dvd_imp_le le_diff_conv2 less_imp_le_nat zero_less_diff add.commute)

lemma longest_none:
  assumes g: "good ps H (Node d cs)" and ps: "0 < ps" and none: "ks = [] \<or> map_of cs (e, take ps ks) = None"
  shows "longest_cached ps (below pre cs) e pre ks []"
proof -
  have "(e, pre @ take n ks, s) \<notin> below pre cs" if n: "0 < n" "n \<le> length ks" "ps dvd n" for n s
  proof
    assume "(e, pre @ take n ks, s) \<in> below pre cs"
    moreover have "ps \<le> n" using n(1,3) by (auto dest: dvd_imp_le)
    ultimately obtain t where "map_of cs (e, take ps (take n ks)) = Some t" using below_first_page[OF g _ ps, of e pre "take n ks" s] n(2) by force
    then show False using none n \<open>ps \<le> n\<close> by (auto simp: min_def)
  qed
  then show ?thesis by (simp add: longest_cached_def)
qed

lemma below_into_child:
  assumes g: "good ps H (Node d cs)" and ps: "0 < ps" and ch: "map_of cs (e, take ps ks) = Some (Node c ccs)"
    and n: "ps \<le> n" "n \<le> length ks" and e: "(e, pre @ take n ks, s) \<in> below pre cs"
  shows "(e, pre @ take n ks, s) \<in> set (entries pre (Node c ccs))"
proof -
  obtain t where t: "map_of cs (e, take ps (take n ks)) = Some t" "(e, pre @ take n ks, s) \<in> set (entries pre t)"
    using below_first_page[OF g e ps] n by auto
  then show ?thesis using ch n by (simp add: min_def)
qed

lemma longest_split:
  assumes g: "good ps H (Node d cs)" and ps: "0 < ps" and ch: "map_of cs (e, take ps ks) = Some (Node c ccs)"
    and n: "ps dvd n" "n < length (toks c)" "n \<le> length ks" "take n (toks c) = take n ks"
    and stop: "n < length ks \<Longrightarrow> take ps (drop n (toks c)) \<noteq> take ps (drop n ks)"
  shows "longest_cached ps (below pre cs) e pre ks (take n (tn_value c))"
proof -
  have c: "node_ok ps H (Node c ccs)" "child_key_ok ps d (e, take ps ks) (Node c ccs)" using g map_of_SomeD[OF ch] by auto
  then have len: "length (tn_value c) = length (toks c)" "ps dvd length (toks c)" "extra c = e" by (auto simp: node_ok_def child_key_ok_def)
  have "(e, pre @ take (Suc j) ks, tn_value c ! j) \<in> below pre cs" if "j < n" for j
  proof (rule below_I[OF map_of_SomeD[OF ch]])
    have "take (Suc j) ks = take (Suc j) (toks c)" using n(4) that by (metis Suc_leI min.absorb1 take_take)
    then show "(e, pre @ take (Suc j) ks, tn_value c ! j) \<in> set (entries pre (Node c ccs))" using that n(2) len by auto
  qed
  moreover have "(e, pre @ take n' ks, s) \<notin> below pre cs" if n': "n < n'" "n' \<le> length ks" "ps dvd n'" for n' s
  proof
    assume "(e, pre @ take n' ks, s) \<in> below pre cs"
    moreover have gap: "n + ps \<le> n'" "n + ps \<le> length (toks c)" using dvd_gap n n' len(2) by auto
    ultimately have "(e, pre @ take n' ks, s) \<in> set (entries pre (Node c ccs))" using below_into_child[OF g ps ch _ n'(2)] by simp
    then have "take (n + ps) (take n' ks) = take (n + ps) (toks c)"
    proof (unfold entries_split, elim disjE exE conjE)
      fix j assume j: "take n' ks = take (Suc j) (toks c)" "j < length (tn_value c)"
      have "length (take n' ks) = length (take (Suc j) (toks c))" using j(1) by simp
      then have "n' = Suc j" using n'(2) j(2) len(1) by simp
      then show ?thesis using gap(1) unfolding j(1) by (simp add: min_def)
    next
      fix w assume "take n' ks = toks c @ w"
      then show ?thesis using gap(2) by simp
    qed
    then have "take (n + ps) ks = take (n + ps) (toks c)" using gap(1) by (simp add: min_def)
    then have "take ps (drop n ks) = take ps (drop n (toks c))" by (simp add: take_drop add.commute)
    then show False using stop n' n(3) by simp
  qed
  ultimately show ?thesis using n len(1) by (simp add: longest_cached_def)
qed

lemma longest_descend:
  assumes g: "good ps H (Node d cs)" and ps: "0 < ps" and ch: "map_of cs (e, take ps ks) = Some (Node c ccs)"
    and ks: "ks = toks c @ ks'" and IH: "longest_cached ps (below (pre @ toks c) ccs) e (pre @ toks c) ks' vals"
  shows "longest_cached ps (below pre cs) e pre ks (tn_value c @ vals)"
proof -
  have c: "node_ok ps H (Node c ccs)" "child_key_ok ps d (e, take ps ks) (Node c ccs)" using g map_of_SomeD[OF ch] by auto
  then have len: "length (tn_value c) = length (toks c)" "ps dvd length (toks c)" "extra c = e" by (auto simp: node_ok_def child_key_ok_def)
  have "(e, pre @ take (Suc j) ks, (tn_value c @ vals) ! j) \<in> below pre cs" if j: "j < length (tn_value c @ vals)" for j
  proof (rule below_I[OF map_of_SomeD[OF ch]])
    show "(e, pre @ take (Suc j) ks, (tn_value c @ vals) ! j) \<in> set (entries pre (Node c ccs))"
    proof (cases "j < length (toks c)")
      case True
      then show ?thesis unfolding set_entries using len ks by (auto simp: nth_append)
    next
      case False
      have "(e, (pre @ toks c) @ take (Suc (j - length (toks c))) ks', vals ! (j - length (toks c))) \<in> below (pre @ toks c) ccs"
        using IH j False len(1) by (auto simp: longest_cached_def)
      then show ?thesis unfolding set_entries using False len(1) ks by (simp add: nth_append Suc_diff_le)
    qed
  qed
  moreover have "(e, pre @ take n ks, s) \<notin> below pre cs" if n: "length (tn_value c @ vals) < n" "n \<le> length ks" "ps dvd n" for n s
  proof
    assume e: "(e, pre @ take n ks, s) \<in> below pre cs"
    have "ps \<le> n" using n(1,3) by (auto dest: dvd_imp_le)
    then have "(e, pre @ take n ks, s) \<in> set (entries pre (Node c ccs))" using below_into_child[OF g ps ch _ n(2) e] by simp
    then have "(e, (pre @ toks c) @ take (n - length (toks c)) ks', s) \<in> below (pre @ toks c) ccs"
    proof (unfold entries_split, elim disjE exE conjE)
      fix j assume j: "take n ks = take (Suc j) (toks c)" "j < length (tn_value c)"
      have "length (take n ks) = length (take (Suc j) (toks c))" using j(1) by simp
      then show ?thesis using n len(1) j(2) by simp
    next
      fix w assume "take n ks = toks c @ w" "(e, (pre @ toks c) @ w, s) \<in> below (pre @ toks c) ccs"
      then show ?thesis using ks n(1) len(1) by simp
    qed
    moreover have "length vals < n - length (toks c)" "n - length (toks c) \<le> length ks'" "ps dvd n - length (toks c)"
      using n len ks by (auto simp: dvd_diff_nat)
    ultimately show False using IH by (auto simp: longest_cached_def)
  qed
  ultimately show ?thesis using IH len ks by (simp add: longest_cached_def)
qed

lemma good_child:
  "good ps H (Node d cs) \<Longrightarrow> map_of cs k = Some t \<Longrightarrow> node_ok ps H t \<and> good ps H t \<and> child_key_ok ps d k t"
  by (auto dest!: map_of_SomeD)

lemma found_child:
  assumes g: "good (rc_page_size cfg) H (Node d cs)" and ps: "0 < rc_page_size cfg" and dv: "rc_page_size cfg dvd key_len key"
    and ch: "map_of cs (rk_extra_key key, take (rc_page_size cfg) (rk_token_ids key)) = Some (Node c ccs)" and ne: "rk_token_ids key \<noteq> []"
  obtains n where "key_match cfg (tn_key c) key = Inr n" "rc_page_size cfg dvd n" "0 < n" "n \<le> length (toks c)" "n \<le> length (rk_token_ids key)"
    "take n (toks c) = take n (rk_token_ids key)"
    "n < length (toks c) \<Longrightarrow> n < length (rk_token_ids key) \<Longrightarrow>
       take (rc_page_size cfg) (drop n (toks c)) \<noteq> take (rc_page_size cfg) (drop n (rk_token_ids key))"
proof -
  let ?ps = "rc_page_size cfg"
  have c: "?ps dvd length (toks c)" "toks c \<noteq> []" "extra c = rk_extra_key key" "take ?ps (toks c) = take ?ps (rk_token_ids key)"
    using good_child[OF g ch] by (auto simp: node_ok_def child_key_ok_def)
  from key_match_spec[OF ps _ dv c(3)] c(1) obtain n where n: "key_match cfg (tn_key c) key = Inr n" "?ps dvd n" "n \<le> length (toks c)"
      "n \<le> length (rk_token_ids key)" "take n (toks c) = take n (rk_token_ids key)"
      "n < length (toks c) \<Longrightarrow> n < length (rk_token_ids key) \<Longrightarrow> take ?ps (drop n (toks c)) \<noteq> take ?ps (drop n (rk_token_ids key))"
    unfolding key_len_def by metis
  have "?ps \<le> n" using key_match_first_page[OF ps c(1) dv[unfolded key_len_def] c(2) ne c(4) n(6,2)] .
  then show ?thesis using that n ps by simp
qed

lemma grows_start:
  assumes "grows ps H m (Node c' cs) m' t X n" and "tn_id c' = tn_id c" "tn_key c' = tn_key c" "tn_value c' = tn_value c" "tn_lock_ref c' = tn_lock_ref c"
  shows "grows ps H m (Node c cs) m' t X n"
  using assms unfolding grows_def by simp

lemma same_node_ok:
  assumes "node_ok ps H (Node c cs)" "good ps H (Node c cs)" and "tn_id c' = tn_id c" "tn_key c' = tn_key c" "tn_value c' = tn_value c"
    "tn_lock_ref c' = tn_lock_ref c" "tn_hash_value c' = tn_hash_value c"
  shows "node_ok ps H (Node c' cs)" "good ps H (Node c' cs)"
  using assms by (simp_all add: node_ok_def child_key_ok_def)

lemma in_update: "map_of cs k = Some t \<Longrightarrow> (k, t') \<in> set (AList.update k t' cs)"
  by (erule update_split[of _ _ _ ]) simp

lemma kids_grow_refl: "good ps H (Node d cs) \<Longrightarrow> kids_grow ps H d m cs m cs (\<lambda>_. []) 0"
  by (simp add: kids_grow_def ids_grow_def)

definition match_ok :: "nat \<Rightarrow> (nat \<Rightarrow> nat) \<Rightarrow> radix_key \<Rightarrow> radix_tree \<Rightarrow> radix_meta \<Rightarrow> (int list \<times> nat \<times> radix_tree \<times> radix_meta) result \<Rightarrow> bool" where
  "match_ok ps H key node m r \<longleftrightarrow>
     (\<exists>vals i cs' m'. r = Inr (vals, i, Node (tdata node) cs', m') \<and> kids_grow ps H (tdata node) m (tchildren node) m' cs' (\<lambda>_. []) 0 \<and> meta_grow m m' 0 \<and>
        (\<forall>pre. longest_cached ps (below pre (tchildren node)) (rk_extra_key key) pre (rk_token_ids key) vals) \<and> reaches (Node (tdata node) cs') vals i)"

lemma match_node_spec:
  assumes "0 < rc_page_size cfg" and "good (rc_page_size cfg) H node" and "rc_page_size cfg dvd key_len key" and "fresh_free m H"
  shows "match_ok (rc_page_size cfg) H key node m (match_node cfg access_time key node m)"
  using assms
proof (induction cfg access_time key node m rule: match_node.induct)
  case (1 cfg access_time key node m)
  obtain d cs where node: "node = Node d cs" by (cases node)
  let ?ps = "rc_page_size cfg" and ?e = "rk_extra_key key" and ?ks = "rk_token_ids key"
  note ps = 1(2) and g = 1(3)[unfolded node] and dv = 1(4)[unfolded key_len_def] and H = 1(5)
  have stop: "match_ok ?ps H key node m (Inr ([], tn_id d, node, m))" if "?ks = [] \<or> map_of cs (?e, take ?ps ?ks) = None"
    using longest_none[OF g ps that] kids_grow_refl[OF g] reaches.here[of d cs] by (auto simp: match_ok_def node meta_grow_def)
  show ?case
  proof (cases "?ks = [] \<or> map_of cs (?e, take ?ps ?ks) = None")
    case True
    then have "match_node cfg access_time key node m = Inr ([], tn_id d, node, m)"
      by (subst match_node.simps) (auto simp: key_len_def child_key_Inr node)
    then show ?thesis using stop[OF True] by simp
  next
    case False
    then obtain c ccs where ch: "map_of cs (?e, take ?ps ?ks) = Some (Node c ccs)" "?ks \<noteq> []" by (metis not_None_eq radix_tree.exhaust)
    define c' where "c' = c\<lparr>tn_last_access_time := access_time\<rparr>"
    have same: "tn_id c' = tn_id c" "tn_key c' = tn_key c" "tn_value c' = tn_value c" "tn_lock_ref c' = tn_lock_ref c" "tn_hash_value c' = tn_hash_value c"
      by (simp_all add: c'_def)
    have ok: "node_ok ?ps H (Node c ccs)" "good ?ps H (Node c ccs)" using good_child[OF g ch(1)] by auto
    note ok' = same_node_ok[OF ok same]
    obtain n where n: "key_match cfg (tn_key c) key = Inr n" "?ps dvd n" "0 < n" "n \<le> length (toks c)" "n \<le> length ?ks" "take n (toks c) = take n ?ks"
      "n < length (toks c) \<Longrightarrow> n < length ?ks \<Longrightarrow> take ?ps (drop n (toks c)) \<noteq> take ?ps (drop n ?ks)"
      using found_child[OF g ps 1(4) ch] by metis
    have ck: "get_child_key ?ps key = Inr (?e, take ?ps ?ks)" using ch(2) by (rule child_key_Inr)
    show ?thesis
    proof (cases "n < length (toks c)")
      case True
      obtain new m' where s: "split_node cfg d (Node c' ccs) n m = Inr (new, m')" "grows ?ps H m (Node c' ccs) m' new (\<lambda>_. []) 0" "meta_grow m m' 0"
        "tn_value (tdata new) = take n (tn_value c)"
        using split_spec[OF ps ok' n(2,3) _ H, of d] True unfolding same by metis
      have "match_node cfg access_time key node m =
          Inr (take n (tn_value c), tn_id (tdata new), Node d (AList.update (?e, take ?ps ?ks) new cs), m')"
        using ch ck n(1) True s by (subst match_node.simps) (simp add: key_len_def node c'_def Let_def)
      moreover have "kids_grow ?ps H d m cs m' (AList.update (?e, take ?ps ?ks) new cs) (\<lambda>_. []) 0"
        using replace_child[OF g ch(1) grows_start[OF s(2) same(1-4)]] s(3) by (simp add: meta_grow_def)
      moreover have "reaches (Node d (AList.update (?e, take ?ps ?ks) new cs)) (take n (tn_value c)) (tn_id (tdata new))"
        using reaches.child[OF in_update[OF ch(1)] reaches.here[of "tdata new" "tchildren new", simplified]] s(4) by simp
      ultimately show ?thesis
        using longest_split[OF g ps ch(1) n(2) True n(5,6) n(7)[OF True]] s(3) by (auto simp: match_ok_def node)
    next
      case False
      then have nl: "n = length (toks c)" using n(4) by simp
      have ks: "?ks = toks c @ drop n ?ks" using n(6) nl by (metis append_take_drop_id order_refl take_all)
      have "match_ok ?ps H (key_drop n key) (Node c' ccs) m (match_node cfg access_time (key_drop n key) (Node c' ccs) m)"
        using 1(1)[of "(?e, take ?ps ?ks)" "Node c ccs" c' "Node c' ccs" n] ps ok' H ck ch n(1,2) dv False
        by (simp add: c'_def key_len_def key_drop_def node dvd_diff_nat)
      then obtain vals i ccs' m' where r: "match_node cfg access_time (key_drop n key) (Node c' ccs) m = Inr (vals, i, Node c' ccs', m')"
        "kids_grow ?ps H c' m ccs m' ccs' (\<lambda>_. []) 0" "meta_grow m m' 0" "\<And>pre. longest_cached ?ps (below pre ccs) ?e pre (drop n ?ks) vals"
        "reaches (Node c' ccs') vals i" by (auto simp: match_ok_def key_drop_def)
      have "match_node cfg access_time key node m =
          Inr (tn_value c @ vals, i, Node d (AList.update (?e, take ?ps ?ks) (Node c' ccs') cs), m')"
        using ch ck n(1) False r(1) by (subst match_node.simps) (simp add: key_len_def node c'_def Let_def)
      moreover have "kids_grow ?ps H d m cs m' (AList.update (?e, take ?ps ?ks) (Node c' ccs') cs) (\<lambda>_. []) 0"
        using replace_child[OF g ch(1) grows_kids[OF ok(1) r(2) _ same]] r(3) by (simp add: meta_grow_def)
      moreover have "reaches (Node d (AList.update (?e, take ?ps ?ks) (Node c' ccs') cs)) (tn_value c @ vals) i"
        using reaches.child[OF in_update[OF ch(1)] r(5)] same(3) by simp
      ultimately show ?thesis
        using longest_descend[OF g ps ch(1) ks r(4)] r(3) by (auto simp: match_ok_def node)
    qed
  qed
qed

section \<open>Inserting\<close>

definition new_entries :: "string option \<Rightarrow> token list \<Rightarrow> int list \<Rightarrow> nat \<Rightarrow> token list \<Rightarrow> kv_entry list" where
  "new_entries e ks vals n pre = map (\<lambda>j. (e, pre @ take (Suc j) ks, vals ! j)) [n..<length ks]"

lemma new_entries_shift:
  assumes "n \<le> length ks" and "length vals = length ks"
  shows "new_entries e (drop n ks) (drop n vals) l (pre @ take n ks) = new_entries e ks vals (n + l) pre"
proof -
  have "take (Suc (n + j)) ks = take n ks @ take (Suc j) (drop n ks)" for j using take_add[of n "Suc j"] by simp
  moreover have "[n + l..<length ks] = map (\<lambda>j. n + j) [l..<length ks - n]"
    by (intro nth_equalityI) (use assms in auto)
  ultimately show ?thesis using assms by (simp add: new_entries_def)
qed

lemma attach_spec:
  assumes ps: "0 < rc_page_size cfg" and g: "good (rc_page_size cfg) H (Node d cs)" and dv: "rc_page_size cfg dvd key_len key"
    and vals: "length vals = key_len key" and H: "fresh_free m H" and e: "toks d \<noteq> [] \<Longrightarrow> extra d = rk_extra_key key"
    and none: "rk_token_ids key = [] \<or> map_of cs (rk_extra_key key, take (rc_page_size cfg) (rk_token_ids key)) = None"
  obtains cs' m' where "attach_leaf cfg r pr key vals (Node d cs) m = Inr (Node d cs', m')"
    "kids_grow (rc_page_size cfg) H d m cs m' cs' (new_entries (rk_extra_key key) (rk_token_ids key) vals 0) (key_len key)" "meta_grow m m' (key_len key)"
proof (cases "rk_token_ids key = []")
  case True
  have "new_entries (rk_extra_key key) [] vals 0 = (\<lambda>_. [])" by (auto simp: new_entries_def)
  then show ?thesis using that[of cs m] kids_grow_refl[OF g, of m] True by (simp add: attach_leaf_def key_len_def meta_grow_def)
next
  case False
  let ?ps = "rc_page_size cfg" and ?e = "rk_extra_key key" and ?ks = "rk_token_ids key" and ?k = "(rk_extra_key key, take (rc_page_size cfg) (rk_token_ids key))"
  define x where "x = fst (new_tree_node cfg pr key vals m)"
  define m1 where "m1 = (snd (new_tree_node cfg pr key vals m))\<lparr>rm_evictable_size := rm_evictable_size m + int (key_len key)\<rparr>"
  have x: "tn_id x = rm_counter m" "tn_key x = key" "tn_value x = vals" "tn_lock_ref x = 0" "tn_hash_value x = None"
    "rm_counter m1 = Suc (rm_counter m)" "rm_evictable_size m1 = rm_evictable_size m + int (key_len key)" "rm_protected_size m1 = rm_protected_size m"
    by (simp_all add: x_def m1_def new_tree_node_eq)
  obtain h q where s: "record_store_event cfg r d x m1 = Inr (x\<lparr>tn_hash_value := h\<rparr>, m1\<lparr>rm_kv_event_queue := q\<rparr>)"
    "\<And>hs. h = Some hs \<Longrightarrow> length hs = length ?ks div ?ps"
    using record_store_ok[OF ps, of x r d m1] dv x(2,5) by (auto simp: key_len_def)
  let ?x = "x\<lparr>tn_hash_value := h\<rparr>" and ?m = "m1\<lparr>rm_kv_event_queue := q\<rparr>"
  have "attach_leaf cfg r pr key vals (Node d cs) m = Inr (Node d (AList.update ?k (Node ?x []) cs), ?m)"
    using False s(1) by (simp add: attach_leaf_def key_len_def child_key_Inr x_def m1_def new_tree_node_eq)
  moreover have "kids_grow ?ps H d m cs ?m (AList.update ?k (Node ?x []) cs) (new_entries ?e ?ks vals 0) (key_len key)"
  proof (rule add_child[OF g])
    show "map_of cs ?k = None" using none False by simp
    show "node_ok ?ps H (Node ?x [])" using False dv vals s(2) H by (simp add: node_ok_def x key_len_def fresh_free_def)
    show "child_key_ok ?ps d ?k (Node ?x [])" using e by (simp add: child_key_ok_def x)
    show "entries pre (Node ?x []) = new_entries ?e ?ks vals 0 pre" for pre using vals by (simp add: new_entries_def x key_len_def)
  qed (use H in \<open>simp_all add: x key_len_def fresh_free_def\<close>)
  ultimately show ?thesis using that by (simp add: meta_grow_def x)
qed

definition insert_ok ::
  "nat \<Rightarrow> (nat \<Rightarrow> nat) \<Rightarrow> radix_key \<Rightarrow> int list \<Rightarrow> radix_tree \<Rightarrow> radix_meta \<Rightarrow> (nat \<times> radix_tree \<times> radix_meta) result \<Rightarrow> bool" where
  "insert_ok ps H key vals node m r \<longleftrightarrow>
     (\<exists>vs cs' m'. r = Inr (length vs, Node (tdata node) cs', m') \<and>
        (\<forall>pre. longest_cached ps (below pre (tchildren node)) (rk_extra_key key) pre (rk_token_ids key) vs) \<and>
        kids_grow ps H (tdata node) m (tchildren node) m' cs' (new_entries (rk_extra_key key) (rk_token_ids key) vals (length vs)) (key_len key - length vs) \<and>
        meta_grow m m' (key_len key - length vs))"

lemma insert_into_split:
  assumes ps: "0 < rc_page_size cfg" and g: "good (rc_page_size cfg) H (Node d cs)" and dv: "rc_page_size cfg dvd key_len key"
    and vals: "length vals = key_len key" and H: "fresh_free m H" and ne: "rk_token_ids key \<noteq> []"
    and ch: "map_of cs (rk_extra_key key, take (rc_page_size cfg) (rk_token_ids key)) = Some (Node c ccs)"
    and n: "rc_page_size cfg dvd n" "0 < n" "n < length (toks c)" "n \<le> length (rk_token_ids key)" "take n (toks c) = take n (rk_token_ids key)"
      "n < length (rk_token_ids key) \<Longrightarrow> take (rc_page_size cfg) (drop n (toks c)) \<noteq> take (rc_page_size cfg) (drop n (rk_token_ids key))"
    and same: "tn_id c' = tn_id c" "tn_key c' = tn_key c" "tn_value c' = tn_value c" "tn_lock_ref c' = tn_lock_ref c" "tn_hash_value c' = tn_hash_value c"
  obtains new m1 new' m2 where "split_node cfg d (Node c' ccs) n m = Inr (new, m1)"
    "attach_leaf cfg False pr (key_drop n key) (drop n vals) (Node ((tdata new)\<lparr>tn_priority := p (tdata new)\<rparr>) (tchildren new)) m1 = Inr (new', m2)"
    "grows (rc_page_size cfg) H m (Node c ccs) m2 new' (new_entries (rk_extra_key key) (rk_token_ids key) vals n) (key_len key - n)"
    "meta_grow m m2 (key_len key - n)"
proof -
  let ?ps = "rc_page_size cfg" and ?e = "rk_extra_key key" and ?ks = "rk_token_ids key"
  have ok: "node_ok ?ps H (Node c ccs)" "good ?ps H (Node c ccs)" "extra c = ?e" using good_child[OF g ch] by (auto simp: child_key_ok_def)
  obtain n1 ncs m1 where s: "split_node cfg d (Node c' ccs) n m = Inr (Node n1 ncs, m1)" "grows ?ps H m (Node c' ccs) m1 (Node n1 ncs) (\<lambda>_. []) 0"
      "meta_grow m m1 0" "toks n1 = take n (toks c)" "extra n1 = extra c" "map fst ncs = [(extra c, take ?ps (drop n (toks c)))]"
    using split_spec[OF ps same_node_ok[OF ok(1,2) same] n(1,2) _ H, of d] n(3) unfolding same by (metis radix_tree.exhaust_sel)
  let ?n1 = "n1\<lparr>tn_priority := p n1\<rparr>"
  have ok1: "node_ok ?ps H (Node n1 ncs)" "good ?ps H (Node n1 ncs)" using s(2) by (simp_all add: grows_def)
  have none: "drop n ?ks = [] \<or> map_of ncs (?e, take ?ps (drop n ?ks)) = None"
    using n(4,6) s(6) ok(3) by (auto simp: map_of_eq_None_iff)
  have H1: "fresh_free m1 H" using fresh_free_mono[OF H] s(3) by (simp add: meta_grow_def)
  have dv': "?ps dvd key_len (key_drop n key)" using dv n(1) by (simp add: key_len_def key_drop_def dvd_diff_nat)
  obtain ncs' m2 where a: "attach_leaf cfg False pr (key_drop n key) (drop n vals) (Node ?n1 ncs) m1 = Inr (Node ?n1 ncs', m2)"
      "kids_grow ?ps H ?n1 m1 ncs m2 ncs' (new_entries ?e (drop n ?ks) (drop n vals) 0) (key_len key - n)" "meta_grow m1 m2 (key_len key - n)"
    using attach_spec[OF ps same_node_ok(2)[OF ok1] dv' _ H1, of ?n1 "drop n vals" False pr] none vals s(5) ok(3)
    by (auto simp: key_drop_def key_len_def)
  have "grows ?ps H m1 (Node n1 ncs) m2 (Node ?n1 ncs') (\<lambda>pre. new_entries ?e (drop n ?ks) (drop n vals) 0 (pre @ toks n1)) (key_len key - n)"
    using grows_kids[OF ok1(1) a(2)] a(3) by (simp add: meta_grow_def)
  then have "grows ?ps H m1 (Node n1 ncs) m2 (Node ?n1 ncs') (new_entries ?e ?ks vals n) (key_len key - n)"
    using new_entries_shift[OF n(4), of vals ?e 0] vals s(4) n(5) by (simp add: key_len_def)
  then have "grows ?ps H m (Node c' ccs) m2 (Node ?n1 ncs') (new_entries ?e ?ks vals n) (key_len key - n)"
    using grows_trans[OF s(2), of m2] s(3) a(3) by (simp add: meta_grow_def)
  then show ?thesis using that[OF s(1)] a(1,3) s(3) grows_start[OF _ same(1-4)] by (simp add: meta_grow_def)
qed

lemma insert_node_spec:
  assumes "0 < rc_page_size cfg" and "good (rc_page_size cfg) H node" and "rc_page_size cfg dvd key_len key" and "fresh_free m H"
    and "length vals = key_len key" and "toks (tdata node) \<noteq> [] \<longrightarrow> extra (tdata node) = rk_extra_key key"
  shows "insert_ok (rc_page_size cfg) H key vals node m (insert_node cfg r access_time pr key vals node m)"
  using assms
proof (induction cfg r access_time pr key vals node m rule: insert_node.induct)
  case (1 cfg r access_time pr key vals node m)
  obtain d cs where node: "node = Node d cs" by (cases node)
  let ?ps = "rc_page_size cfg" and ?e = "rk_extra_key key" and ?ks = "rk_token_ids key"
  note ps = 1(2) and g = 1(3)[unfolded node] and dv = 1(4)[unfolded key_len_def] and H = 1(5) and vals = 1(6) and e = 1(7)[unfolded node]
  show ?case
  proof (cases "?ks = [] \<or> map_of cs (?e, take ?ps ?ks) = None")
    case True
    obtain cs' m' where a: "attach_leaf cfg r pr key vals (Node d cs) m = Inr (Node d cs', m')"
      "kids_grow ?ps H d m cs m' cs' (new_entries ?e ?ks vals 0) (key_len key)" "meta_grow m m' (key_len key)"
      using attach_spec[OF ps g 1(4) vals H _ True, of r pr] e by (metis radix_tree.sel(1))
    have "insert_node cfg r access_time pr key vals node m = Inr (0, Node d cs', m')"
    proof (cases "?ks = []")
      case True
      then show ?thesis using a(1) by (subst insert_node.simps) (simp add: key_len_def node attach_leaf_def)
    next
      case False
      then show ?thesis using a(1) \<open>?ks = [] \<or> _\<close> by (subst insert_node.simps) (simp add: key_len_def child_key_Inr node)
    qed
    then show ?thesis using a longest_none[OF g ps True] by (auto simp: insert_ok_def node intro!: exI[of _ "[]"])
  next
    case False
    then obtain c ccs where ch: "map_of cs (?e, take ?ps ?ks) = Some (Node c ccs)" "?ks \<noteq> []" by (metis not_None_eq radix_tree.exhaust)
    define c' where "c' = c\<lparr>tn_last_access_time := access_time\<rparr>"
    have same: "tn_id c' = tn_id c" "tn_key c' = tn_key c" "tn_value c' = tn_value c" "tn_lock_ref c' = tn_lock_ref c" "tn_hash_value c' = tn_hash_value c"
      by (simp_all add: c'_def)
    have ok: "node_ok ?ps H (Node c ccs)" "good ?ps H (Node c ccs)" "extra c = ?e" using good_child[OF g ch(1)] by (auto simp: child_key_ok_def)
    obtain n where n: "key_match cfg (tn_key c) key = Inr n" "?ps dvd n" "0 < n" "n \<le> length (toks c)" "n \<le> length ?ks" "take n (toks c) = take n ?ks"
      "n < length (toks c) \<Longrightarrow> n < length ?ks \<Longrightarrow> take ?ps (drop n (toks c)) \<noteq> take ?ps (drop n ?ks)"
      using found_child[OF g ps 1(4) ch] by metis
    have ck: "get_child_key ?ps key = Inr (?e, take ?ps ?ks)" using ch(2) by (rule child_key_Inr)
    have len: "length (tn_value c) = length (toks c)" using ok(1) by (simp add: node_ok_def)
    show ?thesis
    proof (cases "n < length (toks c)")
      case True
      obtain new m1 new' m2 where s: "split_node cfg d (Node c' ccs) n m = Inr (new, m1)"
        "attach_leaf cfg False pr (key_drop n key) (drop n vals) (Node ((tdata new)\<lparr>tn_priority := max (tn_priority (tdata new)) pr\<rparr>) (tchildren new)) m1 = Inr (new', m2)"
        "grows ?ps H m (Node c ccs) m2 new' (new_entries ?e ?ks vals n) (key_len key - n)" "meta_grow m m2 (key_len key - n)"
        using insert_into_split[OF ps g 1(4) vals H ch(2,1) n(2,3) True n(5,6) n(7)[OF True] same, of pr "\<lambda>x. max (tn_priority x) pr"] by metis
      have "insert_node cfg r access_time pr key vals node m = Inr (n, Node d (AList.update (?e, take ?ps ?ks) new' cs), m2)"
        using ch ck n(1) True s(1,2) by (subst insert_node.simps) (simp add: key_len_def node c'_def Let_def)
      moreover have "kids_grow ?ps H d m cs m2 (AList.update (?e, take ?ps ?ks) new' cs) (new_entries ?e ?ks vals n) (key_len key - n)"
        using replace_child[OF g ch(1) s(3)] s(4) by (simp add: meta_grow_def)
      ultimately show ?thesis
        using longest_split[OF g ps ch(1) n(2) True n(5,6) n(7)[OF True]] s(4) True len
        by (auto simp: insert_ok_def node intro!: exI[of _ "take n (tn_value c)"])
    next
      case False
      define c'' where "c'' = c'\<lparr>tn_priority := max (tn_priority c') pr\<rparr>"
      have same2: "tn_id c'' = tn_id c" "tn_key c'' = tn_key c" "tn_value c'' = tn_value c" "tn_lock_ref c'' = tn_lock_ref c" "tn_hash_value c'' = tn_hash_value c"
        by (simp_all add: c''_def c'_def)
      note ok'' = same_node_ok[OF ok(1,2) same2]
      have nl: "n = length (toks c)" using False n(4) by simp
      have ks: "?ks = toks c @ drop n ?ks" using n(6) nl by (metis append_take_drop_id order_refl take_all)
      have "insert_ok ?ps H (key_drop n key) (drop n vals) (Node c'' ccs) m
          (insert_node cfg False access_time pr (key_drop n key) (drop n vals) (Node c'' ccs) m)"
        using 1(1)[of "(?e, take ?ps ?ks)" "Node c ccs" c' "key_drop n key" n "drop n vals"] ps ok'' H ck ch n(1,2) dv False vals ok(3)
        by (simp add: c'_def c''_def key_len_def key_drop_def node dvd_diff_nat)
      then obtain vs ccs' m' where r: "insert_node cfg False access_time pr (key_drop n key) (drop n vals) (Node c'' ccs) m = Inr (length vs, Node c'' ccs', m')"
        "\<And>pre. longest_cached ?ps (below pre ccs) ?e pre (drop n ?ks) vs"
        "kids_grow ?ps H c'' m ccs m' ccs' (new_entries ?e (drop n ?ks) (drop n vals) (length vs)) (key_len key - n - length vs)"
        "meta_grow m m' (key_len key - n - length vs)" by (auto simp: insert_ok_def key_drop_def key_len_def)
      have "insert_node cfg r access_time pr key vals node m =
          Inr (n + length vs, Node d (AList.update (?e, take ?ps ?ks) (Node c'' ccs') cs), m')"
        using ch ck n(1) False r(1) by (subst insert_node.simps) (simp add: key_len_def node c'_def c''_def Let_def)
      moreover have "grows ?ps H m (Node c ccs) m' (Node c'' ccs') (\<lambda>pre. new_entries ?e (drop n ?ks) (drop n vals) (length vs) (pre @ toks c)) (key_len key - n - length vs)"
        using grows_kids[OF ok(1) r(3) _ same2] r(4) by (simp add: meta_grow_def)
      then have "grows ?ps H m (Node c ccs) m' (Node c'' ccs') (new_entries ?e ?ks vals (n + length vs)) (key_len key - n - length vs)"
        using new_entries_shift[OF n(5), of vals ?e "length vs"] vals n(6) nl by (simp add: key_len_def)
      then have "kids_grow ?ps H d m cs m' (AList.update (?e, take ?ps ?ks) (Node c'' ccs') cs) (new_entries ?e ?ks vals (n + length vs)) (key_len key - n - length vs)"
        using replace_child[OF g ch(1)] r(4) by (simp add: meta_grow_def)
      ultimately show ?thesis
        using longest_descend[OF g ps ch(1) ks r(2)] r(4) len nl by (auto simp: insert_ok_def node intro!: exI[of _ "tn_value c @ vs"])
    qed
  qed
qed

section \<open>The cache\<close>

definition cached :: "radix_cache \<Rightarrow> kv_entry multiset" where
  "cached rx = mset (entries [] (rx_root rx))"

text \<open>
  The invariant. \<open>H i\<close> is the number of locks held on node \<open>i\<close>; the two counters of the cache are the numbers of tokens in unlocked and in
  locked nodes.
\<close>

definition rx_ok :: "radix_config \<Rightarrow> (nat \<Rightarrow> nat) \<Rightarrow> radix_cache \<Rightarrow> bool" where
  "rx_ok cfg H rx \<longleftrightarrow>
     0 < rc_page_size cfg \<and> toks (tdata (rx_root rx)) = [] \<and> tn_value (tdata (rx_root rx)) = [] \<and> tn_lock_ref (tdata (rx_root rx)) = 1 \<and>
     good (rc_page_size cfg) H (rx_root rx) \<and> ids_ok (rx_meta rx) (ids (rx_root rx)) \<and> (\<forall>i. 0 < H i \<longrightarrow> i \<in> set (ids (rx_root rx))) \<and>
     rm_evictable_size (rx_meta rx) = int (sized (\<lambda>l. l = 0) (rx_root rx)) \<and>
     rm_protected_size (rx_meta rx) = int (sized (\<lambda>l. l \<noteq> 0) (rx_root rx))"

lemma rx_ok_fresh: "rx_ok cfg H rx \<Longrightarrow> fresh_free (rx_meta rx) H"
  by (force simp: rx_ok_def fresh_free_def ids_ok_def)

lemma cached_below: "rx_ok cfg H rx \<Longrightarrow> set_mset (cached rx) = below [] (tchildren (rx_root rx))"
  by (cases "rx_root rx") (simp add: rx_ok_def cached_def below_def)

lemma rx_ok_grow:
  assumes rx: "rx_ok cfg H rx" and root: "rx_root rx = Node d cs" and m: "rm_counter m = rm_counter (rx_meta rx)"
      "rm_evictable_size m = rm_evictable_size (rx_meta rx)" "rm_protected_size m = rm_protected_size (rx_meta rx)"
    and d': "tn_id d' = tn_id d" "tn_key d' = tn_key d" "tn_value d' = tn_value d" "tn_lock_ref d' = tn_lock_ref d"
    and k: "kids_grow (rc_page_size cfg) H d' m cs m' cs' X n" and mg: "meta_grow m m' n"
  shows "rx_ok cfg H \<lparr>rx_root = Node d' cs', rx_meta = m'\<rparr>" "cached \<lparr>rx_root = Node d' cs', rx_meta = m'\<rparr> = cached rx + mset (X [])"
proof -
  have i: "ids_ok m (ids (Node d cs))" using rx root m(1) by (simp add: rx_ok_def ids_ok_def)
  have "ids_grow m (ids (Node d cs)) m' (ids (Node d' cs'))"
    using ids_grow_context[of m "kid_ids cs" m' "kid_ids cs'" "[tn_id d]" "[]"] k mg d'(1) by (simp add: kids_grow_def meta_grow_def)
  then have i': "ids_ok m' (ids (Node d' cs'))" "set (ids (Node d cs)) \<subseteq> set (ids (Node d' cs'))" using i by (simp_all add: ids_grow_def)
  have held: "\<forall>i. 0 < H i \<longrightarrow> i \<in> set (ids (Node d' cs'))" using rx root i'(2) by (auto simp: rx_ok_def simp del: ids.simps)
  show ok: "rx_ok cfg H \<lparr>rx_root = Node d' cs', rx_meta = m'\<rparr>"
    using rx root k mg m(2,3) i'(1) d' held unfolding rx_ok_def kids_grow_def meta_grow_def by (simp add: key_len_def del: ids.simps)
  show "cached \<lparr>rx_root = Node d' cs', rx_meta = m'\<rparr> = cached rx + mset (X [])"
    using rx root d' k by (simp add: kids_grow_def rx_ok_def cached_def)
qed

text \<open>The tokens by which a key is looked up: bigrams for EAGLE.\<close>

definition lookup_tokens :: "radix_config \<Rightarrow> radix_key \<Rightarrow> token list" where
  "lookup_tokens cfg key = (if rc_is_eagle cfg \<and> \<not> rk_is_bigram key then convert_to_bigram_key (rk_token_ids key) else rk_token_ids key)"

lemma longest_aligned:
  assumes "0 < ps" and al: "longest_cached ps E e [] (take (length ks div ps * ps) ks) vals"
  shows "longest_cached ps E e [] ks vals"
proof -
  have le: "length ks div ps * ps \<le> length ks" by simp
  have n: "n \<le> length ks div ps * ps" if "n \<le> length ks" "ps dvd n" for n
    using that assms(1) by (auto simp: dvd_def less_eq_div_iff_mult_less_eq mult.commute)
  have v: "length vals \<le> length ks div ps * ps" using al by (simp add: longest_cached_def)
  have "take (Suc j) (take (length ks div ps * ps) ks) = take (Suc j) ks" if "j < length vals" for j using that v by (simp add: min_def)
  moreover have "take n (take (length ks div ps * ps) ks) = take n ks" if "n \<le> length ks" "ps dvd n" for n using n[OF that] by (simp add: min_def)
  ultimately show ?thesis using al n v order_trans[OF v le] unfolding longest_cached_def by auto
qed

lemma match_prefix_spec:
  assumes rx: "rx_ok cfg H rx" and en: "\<not> rc_disable cfg"
  obtains vals i rx' where "match_prefix cfg key rx = Inr ((vals, i), rx')" "rx_ok cfg H rx'" "cached rx' = cached rx"
    "longest_cached (rc_page_size cfg) (set_mset (cached rx)) (rk_extra_key key) [] (lookup_tokens cfg key) vals" "reaches (rx_root rx') vals i"
proof -
  let ?ps = "rc_page_size cfg"
  define k where "k = key_page_align cfg (fst (maybe_bigram_convert cfg key []))"
  let ?ks = "lookup_tokens cfg key"
  obtain d cs where root: "rx_root rx = Node d cs" by (cases "rx_root rx")
  have ps: "0 < ?ps" using rx by (simp add: rx_ok_def)
  have k: "rk_token_ids k = take (length ?ks div ?ps * ?ps) ?ks" "rk_extra_key k = rk_extra_key key"
    by (auto simp: k_def key_page_align_def maybe_bigram_convert_def lookup_tokens_def key_take_def key_len_def Let_def)
  have g: "good ?ps H (Node d cs)" using rx root by (simp add: rx_ok_def)
  have dv: "?ps dvd key_len k" by (simp add: key_len_def k min.absorb2)
  show ?thesis
  proof (cases "key_len k = 0")
    case True
    then have "match_prefix cfg key rx = Inr (([], tn_id d), rx)"
      using en by (simp add: match_prefix_def Let_def k_def[symmetric] root)
    moreover have "longest_cached ?ps (set_mset (cached rx)) (rk_extra_key key) [] ?ks []"
    proof -
      have "longest_cached ?ps (below [] cs) (rk_extra_key key) [] (rk_token_ids k) []"
        using longest_none[OF g ps, of "rk_token_ids k"] True by (simp add: key_len_def)
      from longest_aligned[OF ps this[unfolded k(1)]] show ?thesis using cached_below[OF rx] root by simp
    qed
    ultimately show ?thesis using that rx reaches.here[of d cs] root by metis
  next
    case False
    then have ne: "key_len (fst (maybe_bigram_convert cfg key [])) \<noteq> 0"
      by (auto simp: k_def key_page_align_def key_take_def key_len_def split: if_splits)
    define t where "t = rc_clock cfg (rm_reads (rx_meta rx))"
    define m where "m = (rx_meta rx)\<lparr>rm_reads := Suc (rm_reads (rx_meta rx))\<rparr>"
    have m: "rm_counter m = rm_counter (rx_meta rx)" "rm_evictable_size m = rm_evictable_size (rx_meta rx)" "rm_protected_size m = rm_protected_size (rx_meta rx)"
      by (simp_all add: m_def)
    let ?d = "d\<lparr>tn_last_access_time := t\<rparr>"
    have g': "good ?ps H (Node ?d cs)" using g by (simp add: child_key_ok_def)
    have "match_ok ?ps H k (Node ?d cs) m (match_node cfg t k (Node ?d cs) m)"
      using match_node_spec[OF ps g' dv] rx_ok_fresh[OF rx] m(1) by (simp add: fresh_free_def)
    then obtain vals i cs' m' where r: "match_node cfg t k (Node ?d cs) m = Inr (vals, i, Node ?d cs', m')"
      "kids_grow ?ps H ?d m cs m' cs' (\<lambda>_. []) 0" "meta_grow m m' 0" "longest_cached ?ps (below [] cs) (rk_extra_key k) [] (rk_token_ids k) vals"
      "reaches (Node ?d cs') vals i" by (auto simp: match_ok_def)
    have eq: "match_prefix cfg key rx = Inr ((vals, i), \<lparr>rx_root = Node ?d cs', rx_meta = m'\<rparr>)"
      using en ne False r(1) by (simp add: match_prefix_def Let_def k_def[symmetric] root read_clock_def t_def m_def)
    have "longest_cached ?ps (set_mset (cached rx)) (rk_extra_key key) [] ?ks vals"
      using longest_aligned[OF ps r(4)[unfolded k]] cached_below[OF rx] root by simp
    then show ?thesis using that[OF eq] rx_ok_grow[OF rx root m _ _ _ _ r(2,3)] r(5) by simp
  qed
qed

lemma longest_hit: "longest_cached ps E e pre ks vals \<Longrightarrow> j < length vals \<Longrightarrow> (e, pre @ take (Suc j) ks, vals ! j) \<in> E"
  by (simp add: longest_cached_def)

lemma insert_spec:
  assumes rx: "rx_ok cfg H rx" and en: "\<not> rc_disable cfg" and al: "rc_page_size cfg dvd length (lookup_tokens cfg key)"
    and len: "length (lookup_tokens cfg key) \<le> length vals" "lookup_tokens cfg key = rk_token_ids key \<Longrightarrow> length vals = length (rk_token_ids key)"
  obtains vs rx' where "radix_insert cfg key vals pr rx = Inr (length vs, rx')" "rx_ok cfg H rx'"
    "longest_cached (rc_page_size cfg) (set_mset (cached rx)) (rk_extra_key key) [] (lookup_tokens cfg key) vs"
    "cached rx' = cached rx + mset (new_entries (rk_extra_key key) (lookup_tokens cfg key) vals (length vs) [])"
    "rm_evictable_size (rx_meta rx') = rm_evictable_size (rx_meta rx) + int (length (lookup_tokens cfg key) - length vs)"
    "rm_protected_size (rx_meta rx') = rm_protected_size (rx_meta rx)"
proof -
  let ?ps = "rc_page_size cfg" and ?ks = "lookup_tokens cfg key"
  obtain k vs where kv: "maybe_bigram_convert cfg key vals = (k, vs)" by (cases "maybe_bigram_convert cfg key vals")
  have k: "rk_token_ids k = ?ks" "rk_extra_key k = rk_extra_key key" "vs = take (length ?ks) vals"
    using kv len by (auto simp: maybe_bigram_convert_def lookup_tokens_def key_len_def Let_def split: if_splits)
  obtain d cs where root: "rx_root rx = Node d cs" by (cases "rx_root rx")
  define t where "t = rc_clock cfg (rm_reads (rx_meta rx))"
  define m where "m = (rx_meta rx)\<lparr>rm_reads := Suc (rm_reads (rx_meta rx))\<rparr>"
  have m: "rm_counter m = rm_counter (rx_meta rx)" "rm_evictable_size m = rm_evictable_size (rx_meta rx)" "rm_protected_size m = rm_protected_size (rx_meta rx)"
    by (simp_all add: m_def)
  define d' where "d' = d\<lparr>tn_last_access_time := t, tn_priority := max (tn_priority d) pr\<rparr>"
  have ps: "0 < ?ps" and r: "toks d = []" and g: "good ?ps H (Node d' cs)" using rx root by (simp_all add: rx_ok_def child_key_ok_def d'_def)
  have "insert_ok ?ps H k vs (Node d' cs) m (insert_node cfg True t pr k vs (Node d' cs) m)"
    by (rule insert_node_spec[OF ps g]) (use al k r m(1) rx_ok_fresh[OF rx] len(1) in \<open>simp_all add: key_len_def fresh_free_def d'_def\<close>)
  then obtain us cs' m' where i: "insert_node cfg True t pr k vs (Node d' cs) m = Inr (length us, Node d' cs', m')"
    "longest_cached ?ps (below [] cs) (rk_extra_key key) [] ?ks us"
    "kids_grow ?ps H d' m cs m' cs' (new_entries (rk_extra_key key) ?ks vs (length us)) (length ?ks - length us)"
    "meta_grow m m' (length ?ks - length us)" unfolding insert_ok_def key_len_def k by auto
  have eq: "radix_insert cfg key vals pr rx = Inr (length us, \<lparr>rx_root = Node d' cs', rx_meta = m'\<rparr>)"
    using en kv i(1) by (simp add: radix_insert_def insert_helper_def Let_def root read_clock_def t_def m_def d'_def)
  have n: "new_entries (rk_extra_key key) ?ks vs (length us) [] = new_entries (rk_extra_key key) ?ks vals (length us) []"
    by (auto simp: new_entries_def k(3))
  note gr = rx_ok_grow[OF rx root m _ _ _ _ i(3,4)]
  show ?thesis
    by (rule that[OF eq]) (use gr i(2,4) m cached_below[OF rx] root n in \<open>simp_all add: d'_def meta_grow_def\<close>)
qed

text \<open>What has been inserted is found.\<close>

lemma match_after_insert:
  assumes rx: "rx_ok cfg H rx" and en: "\<not> rc_disable cfg" and al: "rc_page_size cfg dvd length (lookup_tokens cfg key)"
    and len: "length (lookup_tokens cfg key) \<le> length vals" "lookup_tokens cfg key = rk_token_ids key \<Longrightarrow> length vals = length (rk_token_ids key)"
    and ins: "radix_insert cfg key vals pr rx = Inr (n, rx')"
    and key': "rk_extra_key key' = rk_extra_key key" "lookup_tokens cfg key' = lookup_tokens cfg key"
  obtains us i rx'' where "match_prefix cfg key' rx' = Inr ((us, i), rx'')" "length us = length (lookup_tokens cfg key)"
    "rx_ok cfg H rx''" "cached rx'' = cached rx'" "reaches (rx_root rx'') us i"
    "\<And>j. j < length us \<Longrightarrow> (rk_extra_key key, take (Suc j) (lookup_tokens cfg key), us ! j) \<in># cached rx'"
proof -
  let ?ks = "lookup_tokens cfg key" and ?e = "rk_extra_key key" and ?ps = "rc_page_size cfg"
  obtain vs where i: "n = length vs" "rx_ok cfg H rx'" "longest_cached ?ps (set_mset (cached rx)) ?e [] ?ks vs" "cached rx' = cached rx + mset (new_entries ?e ?ks vals n [])"
    using insert_spec[OF rx en al len, of pr] ins by (metis Inr_inject prod.inject)
  obtain us i rx'' where r: "match_prefix cfg key' rx' = Inr ((us, i), rx'')" "rx_ok cfg H rx''" "cached rx'' = cached rx'"
    "longest_cached ?ps (set_mset (cached rx')) ?e [] ?ks us" "reaches (rx_root rx'') us i"
    using match_prefix_spec[OF i(2) en, of key'] unfolding key' by metis
  have "length us = length ?ks"
  proof (rule ccontr)
    assume "length us \<noteq> length ?ks"
    then have lt: "length us < length ?ks" using r(4) by (simp add: longest_cached_def)
    have vs: "length vs \<le> length ?ks" using i(3) by (simp add: longest_cached_def)
    have "\<exists>s. (?e, take (length ?ks) ?ks, s) \<in># cached rx'"
    proof (cases "length vs = length ?ks")
      case True
      then have "(?e, [] @ take (Suc (length ?ks - 1)) ?ks, vs ! (length ?ks - 1)) \<in># cached rx"
        using longest_hit[OF i(3), of "length ?ks - 1"] lt by simp
      then show ?thesis using i(4) lt by auto
    next
      case False
      then have "(?e, [] @ take (Suc (length ?ks - 1)) ?ks, vals ! (length ?ks - 1)) \<in> set (new_entries ?e ?ks vals n [])"
        unfolding new_entries_def using vs lt i(1) by (auto intro!: image_eqI[of _ _ "length ?ks - 1"])
      then show ?thesis using i(4) lt by auto
    qed
    then show False using r(4) lt al by (auto simp: longest_cached_def)
  qed
  then show ?thesis using that[OF r(1) _ r(2,3,5)] r(4) by (simp add: longest_cached_def)
qed

section \<open>Events of a split\<close>

lemma record_remove_events:
  assumes "0 < rc_page_size cfg" and "rc_page_size cfg dvd length (toks c)" and "hashes_ok (rc_page_size cfg) c" and "rc_enable_kv_cache_events cfg"
  obtains hs where "length hs = length (toks c) div rc_page_size cfg" "node_hashes (with_hashes cfg p c) = hs"
    "record_remove_event cfg p c m =
       Inr (c\<lparr>tn_hash_value := Some hs\<rparr>, m\<lparr>rm_kv_event_queue := rm_kv_event_queue m @ map (\<lambda>h. BlockRemoved [hash_str_to_int64 h]) hs\<rparr>)"
proof -
  obtain hs where hs: "with_hashes cfg p c = c\<lparr>tn_hash_value := Some hs\<rparr>" "length hs = length (toks c) div rc_page_size cfg"
    using with_hashes_ok[OF assms(1-3)] by metis
  have "map_res (py_nth hs) (map int [0..<length hs]) = Inr (map (\<lambda>i. hs ! nat i) (map int [0..<length hs]))"
    by (rule map_res_Inr) (auto simp: py_nth_def)
  moreover have "map (\<lambda>i. hs ! nat i) (map int [0..<length hs]) = hs" by (simp add: o_def map_nth)
  moreover have n: "node_hashes (with_hashes cfg p c) = hs" using hs(1) by (simp add: node_hashes_def)
  ultimately show ?thesis using that[OF hs(2) n] hs assms(1,2,4)
    by (simp add: record_remove_event_def Let_def node_hashes_def length_token_pages del: map_map)
qed

lemma token_pages_nth: "0 < ps \<Longrightarrow> k < length (token_pages ps ks) \<Longrightarrow> token_pages ps ks ! k = take ps (drop (k * ps) ks)"
proof (induction ps ks arbitrary: k rule: token_pages.induct)
  case (1 ps ks)
  show ?case
  proof (cases "ks = []")
    case False
    then show ?thesis
      using 1 by (cases k) (simp_all add: token_pages.simps[of ps ks] add.commute)
  qed (use 1 in \<open>simp add: token_pages.simps\<close>)
qed

lemma chain_hashes_nth:
  "k < length pages \<Longrightarrow> chain_hashes cfg h pages ! k = get_hash_str cfg (pages ! k) (if k = 0 then h else Some (chain_hashes cfg h pages ! (k - 1)))"
proof (induction pages arbitrary: h k)
  case (Cons page pages)
  then show ?case by (cases k) (auto simp: Let_def nth_Cons')
qed simp

text \<open>The hash of the page before the first one of a node: the last one of its parent.\<close>

definition prior_hash :: "tree_node \<Rightarrow> int list option" where
  "prior_hash parent = (if key_len (tn_key parent) > 0 \<and> node_hashes parent \<noteq> [] then Some (last (node_hashes parent)) else None)"

lemma fresh_hashes:
  assumes "0 < rc_page_size cfg" and "tn_hash_value c = None" and k: "k < length (node_hashes (with_hashes cfg p c))"
  shows "node_hashes (with_hashes cfg p c) ! k = get_hash_str cfg (take (rc_page_size cfg) (drop (k * rc_page_size cfg) (toks c)))
    (if k = 0 then prior_hash p else Some (node_hashes (with_hashes cfg p c) ! (k - 1)))"
proof -
  have h: "node_hashes (with_hashes cfg p c) = chain_hashes cfg (prior_hash p) (token_pages (rc_page_size cfg) (toks c))"
    using assms(2) by (simp add: node_hashes_def with_hashes_def compute_node_hash_values_def prior_hash_def split: option.splits)
  show ?thesis using k chain_hashes_nth[of k "token_pages (rc_page_size cfg) (toks c)" cfg "prior_hash p"] token_pages_nth[OF assms(1), of k "toks c"]
    unfolding h by simp
qed

text \<open>
  (C18) A split announces the removal of blocks that stay. With events enabled, \<^verbatim>\<open>_split_node\<close>, which divides a node in two, succeeds and appends to the event queue
  exactly one \<open>BlockRemoved\<close> for every page of the node, with the hash of this page (computed here, chained from the parent, when it was not yet), and no other event, although the two nodes together hold
  exactly the entries of the node: in particular it appends no \<open>BlockStored\<close> for them.
\<close>

theorem split_announces_removal:
  assumes "0 < rc_page_size cfg" and "rc_enable_kv_cache_events cfg" and "node_ok (rc_page_size cfg) H (Node c cs)" and "good (rc_page_size cfg) H (Node c cs)"
    and "rc_page_size cfg dvd n" and "0 < n" and "n < length (toks c)" and "fresh_free m H"
  shows "\<exists>new m'. split_node cfg parent (Node c cs) n m = Inr (new, m') \<and>
    length (node_hashes (with_hashes cfg parent c)) = length (toks c) div rc_page_size cfg \<and>
    rm_kv_event_queue m' = rm_kv_event_queue m @ map (\<lambda>h. BlockRemoved [hash_str_to_int64 h]) (node_hashes (with_hashes cfg parent c)) \<and>
    (tn_hash_value c = None \<longrightarrow> (\<forall>k < length (toks c) div rc_page_size cfg. node_hashes (with_hashes cfg parent c) ! k =
       get_hash_str cfg (take (rc_page_size cfg) (drop (k * rc_page_size cfg) (toks c)))
         (if k = 0 then prior_hash parent else Some (node_hashes (with_hashes cfg parent c) ! (k - 1))))) \<and>
    (\<forall>pre. mset (entries pre new) = mset (entries pre (Node c cs)))"
proof -
  have c: "rc_page_size cfg dvd length (toks c)" "hashes_ok (rc_page_size cfg) c" using assms(3) by (auto simp: node_ok_def)
  obtain hs where hs: "length hs = length (toks c) div rc_page_size cfg" "node_hashes (with_hashes cfg parent c) = hs"
    "record_remove_event cfg parent c m =
       Inr (c\<lparr>tn_hash_value := Some hs\<rparr>, m\<lparr>rm_kv_event_queue := rm_kv_event_queue m @ map (\<lambda>h. BlockRemoved [hash_str_to_int64 h]) hs\<rparr>)"
    using record_remove_events[OF assms(1) c assms(2)] by metis
  obtain new m' where s: "split_node cfg parent (Node c cs) n m = Inr (new, m')" "grows (rc_page_size cfg) H m (Node c cs) m' new (\<lambda>_. []) 0"
    using split_spec[OF assms(1,3-8), of parent] by metis
  have "get_child_key (rc_page_size cfg) (key_drop n (tn_key c)) = Inr (extra c, take (rc_page_size cfg) (drop n (toks c)))"
    using assms(7) by (simp add: child_key_Inr key_drop_def)
  then have "rm_kv_event_queue m' = rm_kv_event_queue m @ map (\<lambda>h. BlockRemoved [hash_str_to_int64 h]) hs"
    using s(1) hs(3) by (auto simp: split_node_def new_tree_node_eq Let_def split: prod.splits)
  moreover have "mset (entries pre new) = mset (entries pre (Node c cs))" for pre using s(2) by (simp add: grows_def del: entries.simps)
  moreover have "\<forall>k < length (toks c) div rc_page_size cfg. hs ! k = get_hash_str cfg (take (rc_page_size cfg) (drop (k * rc_page_size cfg) (toks c)))
      (if k = 0 then prior_hash parent else Some (hs ! (k - 1)))" if "tn_hash_value c = None"
    using fresh_hashes[OF assms(1) that, of _ parent] hs(1,2) by simp
  ultimately show ?thesis unfolding hs(2) using s(1) hs(1) by (intro exI[of _ new] exI[of _ m'] conjI allI impI) simp_all
qed

definition ex_node :: tree_node where
  "ex_node = \<lparr>tn_id = 1, tn_key = \<lparr>rk_token_ids = [Token 1, Token 2, Token 3], rk_extra_key = None, rk_is_bigram = False\<rparr>, tn_value = [7, 8, 9],
     tn_lock_ref = 0, tn_last_access_time = 0, tn_creation_time = 0, tn_hit_count = 0, tn_hash_value = None, tn_priority = 0\<rparr>"

definition ex_event_cfg :: radix_config where
  "ex_event_cfg = \<lparr>rc_disable = False, rc_page_size = 1, rc_enable_kv_cache_events = True, rc_is_eagle = False, rc_disable_finished_insert = False,
     rc_sha256 = (\<lambda>bs. bs), rc_clock = int\<rparr>"

definition ex_meta :: radix_meta where
  "ex_meta = \<lparr>rm_evictable_size = 3, rm_protected_size = 0, rm_kv_event_queue = [], rm_counter = 2, rm_reads = 5\<rparr>"

theorem split_announces_removal_witness:
  "\<exists>new m'. split_node ex_event_cfg ex_node (Node ex_node []) 2 ex_meta = Inr (new, m') \<and>
    rm_kv_event_queue m' = map (\<lambda>h. BlockRemoved [hash_str_to_int64 h]) [[1, 0, 0, 0], [1, 0, 0, 0, 2, 0, 0, 0], [1, 0, 0, 0, 2, 0, 0, 0, 3, 0, 0, 0]] \<and>
    (\<forall>pre. mset (entries pre new) = mset (entries pre (Node ex_node [])))"
proof -
  have h: "node_ok (rc_page_size ex_event_cfg) (\<lambda>_. 0) (Node ex_node [])" "fresh_free ex_meta (\<lambda>_. 0)" "good (rc_page_size ex_event_cfg) (\<lambda>_. 0) (Node ex_node [])"
    "0 < rc_page_size ex_event_cfg" "rc_enable_kv_cache_events ex_event_cfg" "rc_page_size ex_event_cfg dvd 2" "2 < length (toks ex_node)"
    by (simp_all add: node_ok_def ex_node_def ex_event_cfg_def fresh_free_def)
  have "node_hashes (with_hashes ex_event_cfg ex_node ex_node) = [[1, 0, 0, 0], [1, 0, 0, 0, 2, 0, 0, 0], [1, 0, 0, 0, 2, 0, 0, 0, 3, 0, 0, 0]]"
    by (simp add: ex_node_def ex_event_cfg_def node_hashes_def with_hashes_def compute_node_hash_values_def token_pages.simps get_hash_str_def to_bytes4_def
        upt_rec Let_def)
  moreover have "rm_kv_event_queue ex_meta = []" by (simp add: ex_meta_def)
  ultimately show ?thesis using split_announces_removal[OF h(4,5,1,3,6) _ h(7,2), of ex_node] by (metis append_Nil zero_less_numeral)
qed

end
