(* ===== verification/Radix_Evict.thy ===== *)
theory Radix_Evict
  imports Radix_Cache
begin

text \<open>
  The second half of the radix cache (\<^verbatim>\<open>sglang/srt/mem_cache/radix_cache.py\<close>, \<^verbatim>\<open>evict_policy.py\<close>): locks on nodes, the eviction of unlocked
  leaves in the order of a strategy, and the counters of evictable and protected tokens.

  The release of slots goes through the contract of an allocator (locale \<open>slot_allocator\<close>).
\<close>

section \<open>Locks\<close>

text \<open>
  The walk from a node to the root, as a search for the node from the root: on every node of the path the step is taken. A node that has been
  removed cannot be named here, and the operations answer with an error; a node on which a lock is held stays in the tree (\<open>evict_spec\<close>).
\<close>

definition inc_step :: "tree_node \<Rightarrow> int \<times> radix_meta \<Rightarrow> tree_node \<times> int \<times> radix_meta" where
  "inc_step d dm =
     (let (delta, m) = dm; n = int (key_len (tn_key d)) in
      (d\<lparr>tn_lock_ref := tn_lock_ref d + 1\<rparr>,
       if tn_lock_ref d = 0 then (delta - n, m\<lparr>rm_evictable_size := rm_evictable_size m - n, rm_protected_size := rm_protected_size m + n\<rparr>)
       else (delta, m)))"

definition dec_step :: "tree_node \<Rightarrow> int \<times> radix_meta \<Rightarrow> tree_node \<times> int \<times> radix_meta" where
  "dec_step d dm =
     (let (delta, m) = dm; n = int (key_len (tn_key d)) in
      (d\<lparr>tn_lock_ref := tn_lock_ref d - 1\<rparr>,
       if tn_lock_ref d = 1 then (delta + n, m\<lparr>rm_evictable_size := rm_evictable_size m + n, rm_protected_size := rm_protected_size m - n\<rparr>)
       else (delta, m)))"

fun walk_up ::
  "(tree_node \<Rightarrow> int \<times> radix_meta \<Rightarrow> tree_node \<times> int \<times> radix_meta) \<Rightarrow> nat \<Rightarrow> radix_tree \<Rightarrow> int \<times> radix_meta \<Rightarrow> (radix_tree \<times> int \<times> radix_meta) option"
and walk_up_children ::
  "(tree_node \<Rightarrow> int \<times> radix_meta \<Rightarrow> tree_node \<times> int \<times> radix_meta) \<Rightarrow> nat \<Rightarrow> (child_key \<times> radix_tree) list \<Rightarrow> int \<times> radix_meta
   \<Rightarrow> ((child_key \<times> radix_tree) list \<times> int \<times> radix_meta) option" where
  "walk_up step i (Node d cs) dm =
     (if tn_id d = i then let (d, dm) = step d dm in Some (Node d cs, dm)
      else case walk_up_children step i cs dm of
        None \<Rightarrow> None
      | Some (cs, dm) \<Rightarrow> let (d, dm) = step d dm in Some (Node d cs, dm))"
| "walk_up_children step i [] dm = None"
| "walk_up_children step i ((k, t) # cs) dm =
     (case walk_up step i t dm of
        Some (t, dm) \<Rightarrow> Some ((k, t) # cs, dm)
      | None \<Rightarrow> case walk_up_children step i cs dm of None \<Rightarrow> None | Some (cs, dm) \<Rightarrow> Some ((k, t) # cs, dm))"

definition change_lock_ref ::
  "(tree_node \<Rightarrow> int \<times> radix_meta \<Rightarrow> tree_node \<times> int \<times> radix_meta) \<Rightarrow> radix_config \<Rightarrow> nat \<Rightarrow> radix_cache \<Rightarrow> (int \<times> radix_cache) result" where
  "change_lock_ref step cfg node rx =
     (if rc_disable cfg \<or> node = tn_id (tdata (rx_root rx)) then Inr (0, rx)
      else case walk_up_children step node (tchildren (rx_root rx)) (0, rx_meta rx) of
        None \<Rightarrow> Inl AttributeError
      | Some (cs, delta, m) \<Rightarrow> Inr (delta, \<lparr>rx_root = Node (tdata (rx_root rx)) cs, rx_meta = m\<rparr>))"

definition inc_lock_ref :: "radix_config \<Rightarrow> nat \<Rightarrow> radix_cache \<Rightarrow> (int \<times> radix_cache) result" where
  "inc_lock_ref = change_lock_ref inc_step"

definition dec_lock_ref :: "radix_config \<Rightarrow> nat \<Rightarrow> radix_cache \<Rightarrow> (int \<times> radix_cache) result" where
  "dec_lock_ref = change_lock_ref dec_step"

section \<open>Eviction\<close>

datatype strategy = LRUStrategy | LFUStrategy | FIFOStrategy | MRUStrategy | FILOStrategy | PriorityStrategy

text \<open>A number or a tuple of numbers is a list, compared lexicographically.\<close>

fun get_priority :: "strategy \<Rightarrow> tree_node \<Rightarrow> int list" where
  "get_priority LRUStrategy node = [tn_last_access_time node]"
| "get_priority LFUStrategy node = [int (tn_hit_count node), tn_last_access_time node]"
| "get_priority FIFOStrategy node = [tn_creation_time node]"
| "get_priority MRUStrategy node = [- tn_last_access_time node]"
| "get_priority FILOStrategy node = [- tn_creation_time node]"
| "get_priority PriorityStrategy node = [tn_priority node, tn_last_access_time node]"

definition lower_char :: "char \<Rightarrow> char" where
  "lower_char c = (let n = (of_char c :: nat) in if 65 \<le> n \<and> n \<le> 90 then char_of (n + 32) else c)"

definition eviction_strategy :: "string \<Rightarrow> strategy result" where
  "eviction_strategy policy =
     (let p = map lower_char policy in
      if p = ''lru'' then Inr LRUStrategy else if p = ''lfu'' then Inr LFUStrategy else if p = ''fifo'' then Inr FIFOStrategy
      else if p = ''mru'' then Inr MRUStrategy else if p = ''filo'' then Inr FILOStrategy else if p = ''priority'' then Inr PriorityStrategy
      else Inl ValueError)"

definition radix_init :: "radix_config \<Rightarrow> string \<Rightarrow> nat \<Rightarrow> nat \<Rightarrow> (strategy \<times> radix_cache) result" where
  "radix_init cfg policy counter reads =
     bind_res (eviction_strategy policy) (\<lambda>strat.
     Inr (strat, radix_reset cfg \<lparr>rm_evictable_size = 0, rm_protected_size = 0, rm_kv_event_queue = [], rm_counter = counter, rm_reads = reads\<rparr>))"

text \<open>The stack is popped from its end: the last child comes first.\<close>

fun leaves_of :: "radix_tree \<Rightarrow> tree_node list" where
  "leaves_of (Node d cs) =
     (if cs = [] then if tn_lock_ref d = 0 then [d] else [] else concat (map (\<lambda>kt. leaves_of (snd kt)) (rev cs)))"

definition collect_leaves :: "radix_tree \<Rightarrow> tree_node list" where
  "collect_leaves t = concat (map (\<lambda>kt. leaves_of (snd kt)) (rev (tchildren t)))"

text \<open>
  \<^verbatim>\<open>_delete_leaf\<close>, as a search for the node below \<open>parent\<close>: the node, its parent, whether the parent has no child left, and the tree without
  the node. \<open>None\<close> when the node is not there.
\<close>

fun delete_below :: "nat \<Rightarrow> nat \<Rightarrow> radix_tree \<Rightarrow> (tree_node \<times> tree_node \<times> bool \<times> radix_tree) option result"
and delete_among :: "nat \<Rightarrow> nat \<Rightarrow> (child_key \<times> radix_tree) list \<Rightarrow> (tree_node \<times> tree_node \<times> bool \<times> (child_key \<times> radix_tree) list) option result" where
  "delete_below ps i (Node d cs) =
     (case find (\<lambda>kt. tn_id (tdata (snd kt)) = i) cs of
        Some (k, node) \<Rightarrow>
          bind_res (get_child_key ps (tn_key (tdata node))) (\<lambda>key.
          case map_of cs key of
            Some v \<Rightarrow> py_assert (tn_id (tdata v) = i)
              (let cs' = filter (\<lambda>kt. fst kt \<noteq> key) cs in Inr (Some (tdata node, d, cs' = [], Node d cs')))
          | None \<Rightarrow> Inl AssertionError)
      | None \<Rightarrow> bind_res (delete_among ps i cs) (\<lambda>r. Inr (case r of None \<Rightarrow> None | Some (x, p, e, cs) \<Rightarrow> Some (x, p, e, Node d cs))))"
| "delete_among ps i [] = Inr None"
| "delete_among ps i ((k, t) # cs) =
     bind_res (delete_below ps i t) (\<lambda>r. case r of
       Some (x, p, e, t) \<Rightarrow> Inr (Some (x, p, e, (k, t) # cs))
     | None \<Rightarrow> bind_res (delete_among ps i cs) (\<lambda>r. Inr (case r of None \<Rightarrow> None | Some (x, p, e, cs) \<Rightarrow> Some (x, p, e, (k, t) # cs))))"

text \<open>
  An entry of the heap: the priority and the node. Nodes are compared by their access times. \<open>pick\<close> gives the position that
  \<^verbatim>\<open>heappop\<close> takes.
\<close>

type_synonym heap_entry = "int list \<times> tree_node"

definition heap_entry :: "strategy \<Rightarrow> tree_node \<Rightarrow> heap_entry" where
  "heap_entry strat node = (get_priority strat node, node)"

definition entry_less :: "heap_entry \<Rightarrow> heap_entry \<Rightarrow> bool" where
  "entry_less x y \<longleftrightarrow> fst x < fst y \<or> fst x = fst y \<and> tn_last_access_time (snd x) < tn_last_access_time (snd y)"

definition heap_spec :: "(heap_entry list \<Rightarrow> nat) \<Rightarrow> bool" where
  "heap_spec pick \<longleftrightarrow> (\<forall>h. h \<noteq> [] \<longrightarrow> pick h < length h \<and> (\<forall>y \<in> set h. \<not> entry_less y (h ! pick h)))"

definition heappop :: "(heap_entry list \<Rightarrow> nat) \<Rightarrow> heap_entry list \<Rightarrow> heap_entry \<times> heap_entry list" where
  "heappop pick h = (h ! pick h, take (pick h) h @ drop (Suc (pick h)) h)"

text \<open>One round of the loop of \<^verbatim>\<open>evict\<close>; \<open>free\<close> is the method of the allocator, with its state \<open>s\<close>.\<close>

definition evict_step ::
  "radix_config \<Rightarrow> strategy \<Rightarrow> (heap_entry list \<Rightarrow> nat) \<Rightarrow> (int list \<Rightarrow> 's \<Rightarrow> 's result) \<Rightarrow> nat \<times> heap_entry list \<times> radix_cache \<times> 's
   \<Rightarrow> (nat \<times> heap_entry list \<times> radix_cache \<times> 's) result" where
  "evict_step cfg strat pick free st =
     (case st of (num_evicted, heap, rx, s) \<Rightarrow>
      let ((_, x), heap) = heappop pick heap in
      bind_res (free (tn_value x) s) (\<lambda>s.
      bind_res (delete_below (rc_page_size cfg) (tn_id x) (rx_root rx)) (\<lambda>r. case r of
        None \<Rightarrow> Inl AssertionError
      | Some (_, parent, childless, root') \<Rightarrow>
          let m = rx_meta rx; m = m\<lparr>rm_evictable_size := rm_evictable_size m - int (key_len (tn_key x))\<rparr>;
              heap = (if childless \<and> tn_lock_ref parent = 0 then heap @ [heap_entry strat parent] else heap) in
          bind_res (record_remove_event cfg parent x m) (\<lambda>(_, m).
          Inr (num_evicted + length (tn_value x), heap, \<lparr>rx_root = root', rx_meta = m\<rparr>, s)))))"

lemma filter_size:
  assumes "map_of cs key = Some v"
  shows "size_list (size_prod (\<lambda>_. 0) size) (filter (\<lambda>kt. fst kt \<noteq> key) cs) < size_list (size_prod (\<lambda>_. 0) size) (cs :: (child_key \<times> radix_tree) list)"
proof -
  have le: "size_list (size_prod (\<lambda>_. 0) size) (filter P cs) \<le> size_list (size_prod (\<lambda>_. 0) size) cs" for P and cs :: "(child_key \<times> radix_tree) list"
    by (induction cs) auto
  from assms show ?thesis
  proof (induction cs)
    case (Cons kt cs)
    then show ?case using le[of "\<lambda>kt. fst kt \<noteq> key" cs] by (auto split: if_splits)
  qed simp
qed

lemma delete_size:
  "\<And>x p e t'. delete_below ps i t = Inr (Some (x, p, e, t')) \<Longrightarrow> size t' < size t"
  "\<And>x p e cs'. delete_among ps i cs = Inr (Some (x, p, e, cs')) \<Longrightarrow> size_list (size_prod (\<lambda>_. 0) size) cs' < size_list (size_prod (\<lambda>_. 0) size) cs"
  by (induction ps i t and ps i cs rule: delete_below_delete_among.induct)
    (auto simp: Let_def split: option.splits prod.splits intro: filter_size)

function evict_loop ::
  "radix_config \<Rightarrow> strategy \<Rightarrow> (heap_entry list \<Rightarrow> nat) \<Rightarrow> (int list \<Rightarrow> 's \<Rightarrow> 's result) \<Rightarrow> nat \<Rightarrow> nat \<times> heap_entry list \<times> radix_cache \<times> 's
   \<Rightarrow> (nat \<times> heap_entry list \<times> radix_cache \<times> 's) result" where
  "evict_loop cfg strat pick free num_tokens st =
     (if fst st < num_tokens \<and> fst (snd st) \<noteq> [] then
        (case evict_step cfg strat pick free st of Inl e \<Rightarrow> Inl e | Inr st' \<Rightarrow> evict_loop cfg strat pick free num_tokens st')
      else Inr st)"
  by pat_completeness auto
termination
  by (relation "measure (\<lambda>(_, _, _, _, _, st). size (rx_root (fst (snd (snd st)))))")
    (auto simp: evict_step_def Let_def split: prod.splits option.splits dest!: delete_size(1))

declare evict_loop.simps [simp del]

definition evict ::
  "radix_config \<Rightarrow> strategy \<Rightarrow> (heap_entry list \<Rightarrow> nat) \<Rightarrow> (int list \<Rightarrow> 's \<Rightarrow> 's result) \<Rightarrow> nat \<Rightarrow> radix_cache \<Rightarrow> 's \<Rightarrow> (nat \<times> radix_cache \<times> 's) result" where
  "evict cfg strat pick free num_tokens rx s =
     (if rc_disable cfg then Inr (0, rx, s)
      else let eviction_heap = map (heap_entry strat) (collect_leaves (rx_root rx)) in
        bind_res (evict_loop cfg strat pick free num_tokens (0, eviction_heap, rx, s)) (\<lambda>(n, heap, rx, s). Inr (n, rx, s)))"

section \<open>Sizes\<close>

fun tree_values :: "radix_tree \<Rightarrow> int list" where
  "tree_values (Node d cs) = tn_value d @ concat (map (\<lambda>kt. tree_values (snd kt)) cs)"

definition all_values_flatten :: "radix_cache \<Rightarrow> int list result" where
  "all_values_flatten rx =
     (if tchildren (rx_root rx) = [] then Inl RuntimeError else Inr (concat (map (\<lambda>kt. tree_values (snd kt)) (tchildren (rx_root rx)))))"

definition total_size :: "radix_cache \<Rightarrow> nat" where
  "total_size rx = length (tree_values (rx_root rx))"

section \<open>Locking\<close>

text \<open>Trees that differ in the reference counts only.\<close>

fun unlock :: "radix_tree \<Rightarrow> radix_tree" where
  "unlock (Node d cs) = Node (d\<lparr>tn_lock_ref := 0\<rparr>) (map (\<lambda>kt. (fst kt, unlock (snd kt))) cs)"

lemma unlock_entries: "entries pre (unlock t) = entries pre t"
proof (induction t arbitrary: pre rule: tree_induct)
  case (Node d cs)
  have "map (\<lambda>kt. entries p (unlock (snd kt))) cs = map (\<lambda>kt. entries p (snd kt)) cs" for p by (rule map_cong) (auto simp: Node)
  then show ?case by (simp add: o_def del: map_eq_conv)
qed

lemma unlock_ids: "ids (unlock t) = ids t"
proof (induction t rule: tree_induct)
  case (Node d cs)
  have "map (\<lambda>kt. ids (unlock (snd kt))) cs = map (\<lambda>kt. ids (snd kt)) cs" by (rule map_cong) (auto simp: Node)
  then show ?case by (simp add: o_def del: map_eq_conv)
qed

lemma unlock_data: "tdata (unlock t) = (tdata t)\<lparr>tn_lock_ref := 0\<rparr>"
  by (cases t) simp

lemma unlock_reaches: "reaches (unlock t) vals i \<longleftrightarrow> reaches t vals i"
proof (induction t arbitrary: vals rule: tree_induct)
  case (Node d cs)
  show ?case
  proof
    assume "reaches (unlock (Node d cs)) vals i"
    then have "reaches (Node (d\<lparr>tn_lock_ref := 0\<rparr>) (map (\<lambda>kt. (fst kt, unlock (snd kt))) cs)) vals i" by simp
    then show "reaches (Node d cs) vals i"
    proof (cases rule: reaches.cases)
      case here
      then show ?thesis using reaches.here[of d cs] by simp
    next
      case (child k u vs)
      from child(2) obtain t where t: "(k, t) \<in> set cs" "u = unlock t" by auto
      then have "reaches t vs i" using Node.IH[OF t(1)] child(3) by simp
      then show ?thesis using reaches.child[OF t(1), of vs i d] child(1) t(2) by (simp add: unlock_data)
    qed
  next
    assume "reaches (Node d cs) vals i"
    then show "reaches (unlock (Node d cs)) vals i"
    proof (cases rule: reaches.cases)
      case here
      then show ?thesis using reaches.here[of "d\<lparr>tn_lock_ref := 0\<rparr>"] by simp
    next
      case (child k t vs)
      have "reaches (unlock t) vs i" using Node.IH[OF child(2)] child(3) by simp
      moreover have "(k, unlock t) \<in> set (map (\<lambda>kt. (fst kt, unlock (snd kt))) cs)" using child(2) by force
      ultimately show ?thesis using child(1) reaches.child[of k "unlock t" _ vs i "d\<lparr>tn_lock_ref := 0\<rparr>"] by (simp add: unlock_data)
    qed
  qed
qed

fun locks_ok :: "(nat \<Rightarrow> nat) \<Rightarrow> radix_tree \<Rightarrow> bool" where
  "locks_ok H (Node d cs) \<longleftrightarrow> tn_lock_ref d = int (held_locks H (Node d cs)) \<and> (\<forall>kt \<in> set cs. locks_ok H (snd kt))"

lemma good_locks: "good ps H t \<Longrightarrow> node_ok ps H t \<Longrightarrow> locks_ok H t"
proof (induction t rule: tree_induct)
  case (Node d cs)
  then show ?case by (auto simp: node_ok_def[of _ _ "Node d cs"])
qed

text \<open>Whether a tree is well formed, apart from the reference counts, can be read off without them.\<close>

lemma unlock_eq_data:
  assumes "unlock t' = unlock t"
  shows "tn_key (tdata t') = tn_key (tdata t)" "tn_value (tdata t') = tn_value (tdata t)" "tn_hash_value (tdata t') = tn_hash_value (tdata t)"
  using arg_cong[OF assms, of "\<lambda>t. tn_key (tdata t)"] arg_cong[OF assms, of "\<lambda>t. tn_value (tdata t)"]
    arg_cong[OF assms, of "\<lambda>t. tn_hash_value (tdata t)"] by (simp_all add: unlock_data)

lemma node_relock: "node_ok ps H t \<Longrightarrow> unlock t' = unlock t \<Longrightarrow> locks_ok H' t' \<Longrightarrow> node_ok ps H' t'"
  using unlock_eq_data[of t' t] by (cases t') (simp add: node_ok_def Let_def)

lemma good_relock:
  "good ps H t \<Longrightarrow> unlock t' = unlock t \<Longrightarrow> \<forall>kt \<in> set (tchildren t'). locks_ok H' (snd kt) \<Longrightarrow> good ps H' t'"
proof (induction t arbitrary: t' rule: tree_induct)
  case (Node d cs)
  obtain d' cs' where t': "t' = Node d' cs'" by (cases t')
  have u: "map (\<lambda>kt. (fst kt, unlock (snd kt))) cs' = map (\<lambda>kt. (fst kt, unlock (snd kt))) cs" using Node.prems(2) t' by simp
  have l1: "length cs' = length cs" using arg_cong[OF u, of length] by simp
  have l2: "fst (cs' ! i) = fst (cs ! i) \<and> unlock (snd (cs' ! i)) = unlock (snd (cs ! i))" if "i < length cs" for i
    using arg_cong[OF u, of "\<lambda>xs. xs ! i"] that l1 by simp
  have f: "map fst cs' = map fst cs" using l1 l2 by (intro nth_equalityI) simp_all
  have "node_ok ps H' (snd kt) \<and> child_key_ok ps d' (fst kt) (snd kt) \<and> good ps H' (snd kt)" if kt: "kt \<in> set cs'" for kt
  proof -
    obtain i where i: "i < length cs" "kt = cs' ! i" using kt l1 by (auto simp: in_set_conv_nth)
    have c: "node_ok ps H (snd (cs ! i))" "child_key_ok ps d (fst (cs ! i)) (snd (cs ! i))" "good ps H (snd (cs ! i))"
      using Node.prems(1) i(1) by auto
    have lk: "locks_ok H' (snd kt)" "\<forall>kt \<in> set (tchildren (snd kt)). locks_ok H' (snd kt)"
      using Node.prems(3) kt t' by (auto, cases "snd kt", force)
    have "(fst (cs ! i), snd (cs ! i)) \<in> set cs" using i(1) by simp
    then have "good ps H' (snd kt)" using Node.IH c(3) l2[OF i(1)] i(2) lk(2) by metis
    moreover have "node_ok ps H' (snd kt)" using node_relock[OF c(1) _ lk(1)] l2[OF i(1)] i(2) by simp
    ultimately show ?thesis using c(2) l2[OF i(1)] i(2) unlock_eq_data(1)[of "snd kt" "snd (cs ! i)"] unlock_eq_data(1)[OF Node.prems(2)] t'
      by (simp add: child_key_ok_def)
  qed
  then show ?case using Node.prems(1) t' f by simp
qed

text \<open>What a step of the walk does to a node and to the counters, for a change of the reference count by \<open>x\<close>.\<close>

definition size_shift :: "int \<Rightarrow> tree_node \<Rightarrow> int" where
  "size_shift x d = (if tn_lock_ref d + x = 0 then int (key_len (tn_key d)) else 0) - (if tn_lock_ref d = 0 then int (key_len (tn_key d)) else 0)"

definition shift_sizes :: "int \<Rightarrow> radix_meta \<Rightarrow> radix_meta" where
  "shift_sizes n m = m\<lparr>rm_evictable_size := rm_evictable_size m + n, rm_protected_size := rm_protected_size m - n\<rparr>"

definition lock_step :: "(tree_node \<Rightarrow> int \<times> radix_meta \<Rightarrow> tree_node \<times> int \<times> radix_meta) \<Rightarrow> int \<Rightarrow> bool" where
  "lock_step step x \<longleftrightarrow> (\<forall>d delta m. 0 \<le> tn_lock_ref d \<longrightarrow> 0 \<le> tn_lock_ref d + x \<longrightarrow>
     step d (delta, m) = (d\<lparr>tn_lock_ref := tn_lock_ref d + x\<rparr>, delta + size_shift x d, shift_sizes (size_shift x d) m))"

lemma shift_sizes_simps [simp]:
  "rm_counter (shift_sizes n m) = rm_counter m" "rm_evictable_size (shift_sizes n m) = rm_evictable_size m + n"
  "rm_protected_size (shift_sizes n m) = rm_protected_size m - n" "shift_sizes a (shift_sizes b m) = shift_sizes (b + a) m" "shift_sizes 0 m = m"
  by (simp_all add: shift_sizes_def)

lemma inc_lock_step: "lock_step inc_step 1"
  by (auto simp: lock_step_def inc_step_def size_shift_def shift_sizes_def Let_def)

lemma dec_lock_step: "lock_step dec_step (- 1)"
  by (auto simp: lock_step_def dec_step_def size_shift_def shift_sizes_def Let_def)

lemma held_cong: "(\<And>j. j \<in> set (ids t) \<Longrightarrow> H' j = H j) \<Longrightarrow> held_locks H' t = held_locks H t"
proof (induction t rule: tree_induct)
  case (Node d cs)
  have "held_locks H' t = held_locks H t" if "(k, t) \<in> set cs" for k t using Node.IH[OF that] Node.prems that by force
  then have "map (\<lambda>kt. held_locks H' (snd kt)) cs = map (\<lambda>kt. held_locks H (snd kt)) cs" by auto
  then show ?case using Node.prems by (simp del: map_eq_conv)
qed

lemma locks_cong: "(\<And>j. j \<in> set (ids t) \<Longrightarrow> H' j = H j) \<Longrightarrow> locks_ok H' t = locks_ok H t"
proof (induction t rule: tree_induct)
  case (Node d cs)
  have "locks_ok H' t = locks_ok H t" if "(k, t) \<in> set cs" for k t using Node.IH[OF that] Node.prems that by force
  then have "(\<forall>kt \<in> set cs. locks_ok H' (snd kt)) = (\<forall>kt \<in> set cs. locks_ok H (snd kt))" by auto
  then show ?case using held_cong[of "Node d cs" H' H, OF Node.prems] by simp
qed

abbreviation kids_held :: "(nat \<Rightarrow> nat) \<Rightarrow> (child_key \<times> radix_tree) list \<Rightarrow> nat" where
  "kids_held H cs \<equiv> sum_list (map (\<lambda>kt. held_locks H (snd kt)) cs)"

abbreviation kids_sized :: "(int \<Rightarrow> bool) \<Rightarrow> (child_key \<times> radix_tree) list \<Rightarrow> nat" where
  "kids_sized P cs \<equiv> sum_list (map (\<lambda>kt. sized P (snd kt)) cs)"

lemma kids_held_cong: "(\<And>j. j \<in> set (kid_ids cs) \<Longrightarrow> H' j = H j) \<Longrightarrow> kids_held H' cs = kids_held H cs"
  by (intro arg_cong[where f = sum_list] map_cong held_cong) auto

definition relocked :: "(nat \<Rightarrow> nat) \<Rightarrow> (nat \<Rightarrow> nat) \<Rightarrow> int \<Rightarrow> int \<Rightarrow> radix_tree \<Rightarrow> radix_tree \<Rightarrow> bool" where
  "relocked H H' x n t t' \<longleftrightarrow> unlock t' = unlock t \<and> locks_ok H' t' \<and> int (held_locks H' t') = int (held_locks H t) + x \<and>
     int (sized (\<lambda>l. l = 0) t') = int (sized (\<lambda>l. l = 0) t) + n \<and> int (sized (\<lambda>l. l \<noteq> 0) t') = int (sized (\<lambda>l. l \<noteq> 0) t) - n"

definition kids_relocked ::
  "(nat \<Rightarrow> nat) \<Rightarrow> (nat \<Rightarrow> nat) \<Rightarrow> int \<Rightarrow> int \<Rightarrow> (child_key \<times> radix_tree) list \<Rightarrow> (child_key \<times> radix_tree) list \<Rightarrow> bool" where
  "kids_relocked H H' x n cs cs' \<longleftrightarrow> map (\<lambda>kt. (fst kt, unlock (snd kt))) cs' = map (\<lambda>kt. (fst kt, unlock (snd kt))) cs \<and>
     (\<forall>kt \<in> set cs'. locks_ok H' (snd kt)) \<and> int (kids_held H' cs') = int (kids_held H cs) + x \<and>
     int (kids_sized (\<lambda>l. l = 0) cs') = int (kids_sized (\<lambda>l. l = 0) cs) + n \<and> int (kids_sized (\<lambda>l. l \<noteq> 0) cs') = int (kids_sized (\<lambda>l. l \<noteq> 0) cs) - n"

lemma walk_absent:
  "i \<notin> set (ids t) \<Longrightarrow> walk_up step i t dm = None"
  "i \<notin> set (kid_ids cs) \<Longrightarrow> walk_up_children step i cs dm = None"
  by (induction step i t dm and step i cs dm rule: walk_up_walk_up_children.induct) auto

lemma relock_node:
  assumes st: "lock_step step x" and d: "tn_lock_ref d = int (held_locks H (Node d cs))" and nn: "0 \<le> tn_lock_ref d + x"
    and k: "kids_relocked H H' y n cs cs'" and h: "int (H' (tn_id d)) + y = int (H (tn_id d)) + x"
  obtains d' n' where "\<And>delta m. step d (delta, m) = (d', delta + n', shift_sizes n' m)" "relocked H H' x (n + n') (Node d cs) (Node d' cs')"
proof
  have "0 \<le> tn_lock_ref d" using d by simp
  then show "step d (delta, m) = (d\<lparr>tn_lock_ref := tn_lock_ref d + x\<rparr>, delta + size_shift x d, shift_sizes (size_shift x d) m)" for delta m
    using st nn by (simp add: lock_step_def)
  show "relocked H H' x (n + size_shift x d) (Node d cs) (Node (d\<lparr>tn_lock_ref := tn_lock_ref d + x\<rparr>) cs')"
    using k d h by (auto simp: relocked_def kids_relocked_def size_shift_def)
qed

lemma kids_untouched:
  assumes "i \<notin> set (kid_ids cs)" and H': "\<And>j. j \<noteq> i \<Longrightarrow> H' j = H j" and "\<forall>kt \<in> set cs. locks_ok H (snd kt)"
  shows "kids_relocked H H' 0 0 cs cs"
proof -
  have eq: "H' j = H j" if "j \<in> set (kid_ids cs)" for j using H' assms(1) that by metis
  have "locks_ok H' (snd kt)" if "kt \<in> set cs" for kt using locks_cong[of "snd kt" H' H] eq assms(3) that by auto
  then show ?thesis using kids_held_cong[OF eq] by (simp add: kids_relocked_def)
qed

definition walks ::
  "(tree_node \<Rightarrow> int \<times> radix_meta \<Rightarrow> tree_node \<times> int \<times> radix_meta) \<Rightarrow> nat \<Rightarrow> (nat \<Rightarrow> nat) \<Rightarrow> (nat \<Rightarrow> nat) \<Rightarrow> int \<Rightarrow> radix_tree \<Rightarrow> bool" where
  "walks step i H H' x t \<longleftrightarrow> distinct (ids t) \<and> i \<in> set (ids t) \<and> locks_ok H t \<longrightarrow>
     (\<exists>t' n. (\<forall>delta m. walk_up step i t (delta, m) = Some (t', delta + n, shift_sizes n m)) \<and> relocked H H' x n t t')"

lemma walk_children_relock:
  assumes IH: "\<forall>kt \<in> set cs. walks step i H H' x (snd kt)"
    and H': "\<And>j. j \<noteq> i \<Longrightarrow> H' j = H j"
    and cs: "distinct (kid_ids cs)" "i \<in> set (kid_ids cs)" "\<forall>kt \<in> set cs. locks_ok H (snd kt)"
  shows "\<exists>cs' n. (\<forall>delta m. walk_up_children step i cs (delta, m) = Some (cs', delta + n, shift_sizes n m)) \<and> kids_relocked H H' x n cs cs'"
  using IH cs
proof (induction cs)
  case (Cons kt cs)
  obtain k t where kt: "kt = (k, t)" by (cases kt)
  show ?case
  proof (cases "i \<in> set (ids t)")
    case True
    then obtain t' n where t': "\<And>delta m. walk_up step i t (delta, m) = Some (t', delta + n, shift_sizes n m)" "relocked H H' x n t t'"
      using Cons.prems(1,2,4) kt unfolding walks_def by auto
    have ne: "i \<notin> set (kid_ids cs)" using Cons.prems(2) True kt by auto
    have "kids_relocked H H' 0 0 cs cs" using kids_untouched[OF ne H'] Cons.prems(4) by simp
    then have "kids_relocked H H' x n (kt # cs) ((k, t') # cs)" using t'(2) kt by (auto simp: kids_relocked_def relocked_def)
    then show ?thesis using t'(1) kt by (intro exI[of _ "(k, t') # cs"] exI[of _ n]) simp
  next
    case False
    have d: "distinct (kid_ids cs)" "i \<in> set (kid_ids cs)" "\<forall>kt \<in> set cs. locks_ok H (snd kt)" using Cons.prems(2-4) False kt by auto
    have "\<exists>cs' n. (\<forall>delta m. walk_up_children step i cs (delta, m) = Some (cs', delta + n, shift_sizes n m)) \<and> kids_relocked H H' x n cs cs'"
      using Cons.IH[OF _ d] Cons.prems(1) by simp
    then obtain cs' n where r: "\<And>delta m. walk_up_children step i cs (delta, m) = Some (cs', delta + n, shift_sizes n m)" "kids_relocked H H' x n cs cs'" by blast
    have "held_locks H' t = held_locks H t" "locks_ok H' t"
      using False H' held_cong[of t H' H] locks_cong[of t H' H] Cons.prems(4) kt by (metis, metis list.set_intros(1) snd_conv)
    then have "kids_relocked H H' x n (kt # cs) ((k, t) # cs')" using r(2) kt by (auto simp: kids_relocked_def)
    then show ?thesis using r(1) walk_absent(1)[OF False] kt by (intro exI[of _ "(k, t) # cs'"] exI[of _ n]) simp
  qed
qed simp

lemma walk_relock:
  assumes st: "lock_step step x" and Hi: "int (H' i) = int (H i) + x" and H': "\<And>j. j \<noteq> i \<Longrightarrow> H' j = H j"
  shows "walks step i H H' x t"
proof (induction t rule: tree_induct)
  case (Node d cs)
  have IH: "\<forall>kt \<in> set cs. walks step i H H' x (snd kt)" using Node.IH by auto
  show ?case
    unfolding walks_def
  proof (intro impI, elim conjE)
    assume Node_prems: "distinct (ids (Node d cs))" "i \<in> set (ids (Node d cs))" "locks_ok H (Node d cs)"
    have lock: "tn_lock_ref d = int (held_locks H (Node d cs))" "\<forall>kt \<in> set cs. locks_ok H (snd kt)" using Node_prems(3) by auto
    show "\<exists>t' n. (\<forall>delta m. walk_up step i (Node d cs) (delta, m) = Some (t', delta + n, shift_sizes n m)) \<and> relocked H H' x n (Node d cs) t'"
    proof (cases "tn_id d = i")
      case True
      then have ne: "i \<notin> set (kid_ids cs)" using Node_prems(1) by auto
      have k: "kids_relocked H H' 0 0 cs cs" by (rule kids_untouched[OF ne H' lock(2)])
      have nn: "0 \<le> tn_lock_ref d + x" using lock(1) Hi True by simp
      have "int (H' (tn_id d)) + 0 = int (H (tn_id d)) + x" using Hi True by simp
      from relock_node[OF st lock(1) nn k this]
      obtain d' n' where "\<And>delta m. step d (delta, m) = (d', delta + n', shift_sizes n' m)" "relocked H H' x (0 + n') (Node d cs) (Node d' cs)" by blast
      then show ?thesis using True by (intro exI[of _ "Node d' cs"] exI[of _ n']) simp
    next
      case False
      have "distinct (kid_ids cs)" "i \<in> set (kid_ids cs)" using Node_prems(1,2) False by auto
      from walk_children_relock[of cs step i H H' x, OF IH H' this lock(2)]
      obtain cs' n where r: "\<And>delta m. walk_up_children step i cs (delta, m) = Some (cs', delta + n, shift_sizes n m)" "kids_relocked H H' x n cs cs'"
        by blast
      have nn: "0 \<le> tn_lock_ref d + x" using lock(1) r(2) by (simp add: kids_relocked_def)
      have "int (H' (tn_id d)) + x = int (H (tn_id d)) + x" using H'[OF False] by simp
      from relock_node[OF st lock(1) nn r(2) this]
      obtain d' n' where "\<And>delta m. step d (delta, m) = (d', delta + n', shift_sizes n' m)" "relocked H H' x (n + n') (Node d cs) (Node d' cs')" by blast
      then show ?thesis using r(1) False by (intro exI[of _ "Node d' cs'"] exI[of _ "n + n'"]) (simp add: add.assoc)
    qed
  qed
qed

lemma change_lock_spec:
  assumes rx: "rx_ok cfg H rx" and en: "\<not> rc_disable cfg" and i: "i \<in> set (ids (rx_root rx))"
    and st: "lock_step step x" and Hi: "int (H' i) = int (H i) + x" and H': "\<And>j. j \<noteq> i \<Longrightarrow> H' j = H j"
  obtains delta rx' where "change_lock_ref step cfg i rx = Inr (delta, rx')" "rx_ok cfg H' rx'" "unlock (rx_root rx') = unlock (rx_root rx)"
    "rm_evictable_size (rx_meta rx') = rm_evictable_size (rx_meta rx) + delta" "rm_protected_size (rx_meta rx') = rm_protected_size (rx_meta rx) - delta"
proof -
  obtain d cs where root: "rx_root rx = Node d cs" by (cases "rx_root rx")
  have g: "good (rc_page_size cfg) H (Node d cs)" and di: "distinct (ids (Node d cs))" using rx root by (simp_all add: rx_ok_def ids_ok_def)
  have lk: "\<forall>kt \<in> set cs. locks_ok H (snd kt)" using g by (auto intro: good_locks)
  obtain cs' n where k: "change_lock_ref step cfg i rx = Inr (n, \<lparr>rx_root = Node d cs', rx_meta = shift_sizes n (rx_meta rx)\<rparr>)"
    "\<exists>y. kids_relocked H H' y n cs cs'"
  proof (cases "i = tn_id d")
    case True
    then have "i \<notin> set (kid_ids cs)" using di by simp
    then have "kids_relocked H H' 0 0 cs cs" using kids_untouched H' lk by blast
    moreover have "change_lock_ref step cfg i rx = Inr (0, \<lparr>rx_root = Node d cs, rx_meta = shift_sizes 0 (rx_meta rx)\<rparr>)"
      using True root by (cases rx) (simp add: change_lock_ref_def)
    ultimately show ?thesis using that by blast
  next
    case False
    then have "distinct (kid_ids cs)" "i \<in> set (kid_ids cs)" using di i root by auto
    from walk_children_relock[of cs step i H H' x, OF _ H' this lk] walk_relock[of step x H' i H, OF st Hi H']
    obtain cs' n where "\<And>delta m. walk_up_children step i cs (delta, m) = Some (cs', delta + n, shift_sizes n m)" "kids_relocked H H' x n cs cs'" by blast
    then show ?thesis using that[of n cs'] False en root by (auto simp: change_lock_ref_def)
  qed
  then have u: "unlock (Node d cs') = unlock (Node d cs)" and lk': "\<forall>kt \<in> set cs'. locks_ok H' (snd kt)" by (auto simp: kids_relocked_def)
  have g': "good (rc_page_size cfg) H' (Node d cs')" using good_relock[OF g u] lk' by simp
  have ids: "ids (Node d cs') = ids (Node d cs)" using u unlock_ids by metis
  have "0 < H' j \<longrightarrow> j \<in> set (ids (Node d cs'))" for j using rx root i H'[of j] unfolding ids rx_ok_def by (cases "j = i") auto
  then have "rx_ok cfg H' \<lparr>rx_root = Node d cs', rx_meta = shift_sizes n (rx_meta rx)\<rparr>"
    using rx root g' k(2) ids unfolding rx_ok_def by (auto simp: kids_relocked_def key_len_def ids_ok_def simp del: ids.simps)
  then show ?thesis using that[OF k(1)] u root by simp
qed

section \<open>Eviction\<close>

lemma tree_values_entries: "tree_values t = map (\<lambda>(e, p, s). s) (entries pre t)"
proof (induction t arbitrary: pre rule: tree_induct)
  case (Node d cs)
  have "map (\<lambda>kt. tree_values (snd kt)) cs = map (\<lambda>kt. map (\<lambda>(e, p, s). s) (entries (pre @ toks d) (snd kt))) cs" by (rule map_cong) (auto simp: Node)
  then have "concat (map (\<lambda>kt. tree_values (snd kt)) cs) = map (\<lambda>(e, p, s). s) (kid_entries (pre @ toks d) cs)" by (simp add: map_concat o_def del: map_eq_conv)
  moreover have "map (\<lambda>j. tn_value d ! j) [0..<length (tn_value d)] = tn_value d" by (rule map_nth)
  ultimately show ?case by (simp add: o_def)
qed

fun nodes :: "radix_tree \<Rightarrow> tree_node list" where
  "nodes (Node d cs) = d # concat (map (\<lambda>kt. nodes (snd kt)) cs)"

lemma ids_nodes: "ids t = map tn_id (nodes t)"
proof (induction t rule: tree_induct)
  case (Node d cs)
  have "map (\<lambda>kt. ids (snd kt)) cs = map (\<lambda>kt. map tn_id (nodes (snd kt))) cs" by (rule map_cong) (auto simp: Node)
  then show ?case by (simp add: map_concat o_def del: map_eq_conv)
qed

text \<open>
  \<open>t'\<close> is \<open>t\<close> without the leaf \<open>x\<close>, which is not locked. The parent \<open>p\<close> of the leaf becomes a leaf itself when no other child is left.
\<close>

definition removed :: "nat \<Rightarrow> (nat \<Rightarrow> nat) \<Rightarrow> tree_node \<Rightarrow> tree_node \<Rightarrow> bool \<Rightarrow> radix_tree \<Rightarrow> radix_tree \<Rightarrow> bool" where
  "removed ps H x p e t t' \<longleftrightarrow>
     tdata t' = tdata t \<and> good ps H t' \<and> held_locks H t' = held_locks H t \<and> mset (nodes t) = add_mset x (mset (nodes t')) \<and>
     (\<forall>P. sized P t = sized P t' + (if P 0 then key_len (tn_key x) else 0)) \<and>
     (\<forall>pre. \<exists>px. mset (entries pre t) = mset (entries pre t') + mset (entries px (Node x []))) \<and>
     (\<forall>vals j. reaches t vals j \<and> j \<noteq> tn_id x \<longrightarrow> reaches t' vals j) \<and>
     mset (leaves_of t) + (if e \<and> tn_lock_ref p = 0 then {#p#} else {#}) = add_mset x (mset (leaves_of t')) \<and>
     node_ok ps H (Node x []) \<and> tn_lock_ref x = 0"

lemma removed_ids: "removed ps H x p e t t' \<Longrightarrow> mset (ids t) = add_mset (tn_id x) (mset (ids t'))"
  by (simp add: removed_def ids_nodes)

abbreviation kid_leaves :: "(child_key \<times> radix_tree) list \<Rightarrow> tree_node list" where
  "kid_leaves cs \<equiv> concat (map (\<lambda>kt. leaves_of (snd kt)) cs)"

lemma leaves_in: "x \<in> set (leaves_of t) \<Longrightarrow> tn_id x \<in> set (ids t) \<and> tn_lock_ref x = 0"
proof (induction t rule: tree_induct)
  case (Node d cs)
  then show ?case by (fastforce split: if_splits)
qed

lemma mset_kid_leaves_rev: "mset (concat (map (\<lambda>kt. leaves_of (snd kt)) (rev cs))) = mset (kid_leaves cs)"
  by (induction cs) simp_all

lemma leaves_kids: "cs \<noteq> [] \<Longrightarrow> mset (leaves_of (Node d cs)) = mset (kid_leaves cs)"
  by (simp add: mset_kid_leaves_rev)

lemma delete_absent:
  "i \<notin> set (ids t) \<Longrightarrow> delete_below ps i t = Inr None"
  "i \<notin> set (kid_ids cs) \<Longrightarrow> delete_among ps i cs = Inr None"
proof (induction ps i t and ps i cs rule: delete_below_delete_among.induct)
  case (1 ps i d cs)
  have "find (\<lambda>kt. tn_id (tdata (snd kt)) = i) cs = None"
  proof -
    have "tn_id (tdata (snd kt)) \<in> set (ids (snd kt))" for kt :: "child_key \<times> radix_tree" by (cases "snd kt") simp
    then show ?thesis using 1(2) by (fastforce simp: find_None_iff)
  qed
  then show ?case using 1 by simp
qed auto

lemma delete_among_at:
  assumes "i \<notin> set (kid_ids xs)" and "delete_below ps i c = Inr (Some (x, p, e, c'))"
  shows "delete_among ps i (xs @ (k, c) # ys) = Inr (Some (x, p, e, xs @ (k, c') # ys))"
  using assms(1)
proof (induction xs)
  case (Cons kt xs)
  then show ?case by (cases kt) (simp add: delete_absent(1))
qed (simp add: assms(2))

lemma reaches_update:
  assumes r: "reaches (Node d (xs @ (k, c) # ys)) vals j" and c: "\<And>vs. reaches c vs j \<Longrightarrow> reaches c' vs j" "tn_value (tdata c') = tn_value (tdata c)"
  shows "reaches (Node d (xs @ (k, c') # ys)) vals j"
  using r
proof (cases rule: reaches.cases)
  case here
  then show ?thesis using reaches.here by simp
next
  case (child k' t vs)
  show ?thesis
  proof (cases "(k', t) \<in> set xs \<union> set ys")
    case True
    then show ?thesis using reaches.child[of k' t "xs @ (k, c') # ys" vs j d] child by auto
  next
    case False
    then have "t = c" using child(2) by auto
    then show ?thesis using reaches.child[of k c' "xs @ (k, c') # ys" vs j d] child c by auto
  qed
qed

lemma removed_child:
  assumes g: "good ps H (Node d (xs @ (k, c) # ys))" and r: "removed ps H x p e c c'"
  shows "removed ps H x p e (Node d (xs @ (k, c) # ys)) (Node d (xs @ (k, c') # ys))"
proof -
  have t: "tdata c' = tdata c" "held_locks H c' = held_locks H c" using r by (simp_all add: removed_def)
  have "node_ok ps H c" "child_key_ok ps d k c" using g by auto
  then have ok: "node_ok ps H c'" "child_key_ok ps d k c'" using t by (simp_all add: node_ok_def child_key_ok_def)
  then have g': "good ps H (Node d (xs @ (k, c') # ys))" using g r by (simp add: removed_def)
  have reach: "reaches (Node d (xs @ (k, c') # ys)) vals j" if "reaches (Node d (xs @ (k, c) # ys)) vals j" "j \<noteq> tn_id x" for vals j
    by (rule reaches_update[OF that(1)]) (use r that(2) t in \<open>auto simp: removed_def\<close>)
  have ent: "\<exists>px. mset (entries pre (Node d (xs @ (k, c) # ys))) = mset (entries pre (Node d (xs @ (k, c') # ys))) + mset (entries px (Node x []))" for pre
  proof -
    obtain px where "mset (entries (pre @ toks d) c) = mset (entries (pre @ toks d) c') + mset (entries px (Node x []))" using r unfolding removed_def by blast
    then have "mset (entries pre (Node d (xs @ (k, c) # ys))) = mset (entries pre (Node d (xs @ (k, c') # ys))) + M" if "M = mset (entries px (Node x []))" for M
      using that[symmetric] by simp
    then show ?thesis by blast
  qed
  have "mset (leaves_of (Node d (xs @ (k, c) # ys))) + (if e \<and> tn_lock_ref p = 0 then {#p#} else {#}) = add_mset x (mset (leaves_of (Node d (xs @ (k, c') # ys))))"
    using r unfolding removed_def by (simp add: leaves_kids del: leaves_of.simps)
  then show ?thesis using g' reach ent r t by (simp add: removed_def del: leaves_of.simps entries.simps good.simps)
qed

lemma removed_leaf:
  assumes g: "good ps H (Node d (xs @ (k, Node x []) # ys))" and l: "tn_lock_ref x = 0"
  shows "removed ps H x d (xs @ ys = []) (Node d (xs @ (k, Node x []) # ys)) (Node d (xs @ ys))"
proof -
  have ok: "node_ok ps H (Node x [])" using g by auto
  then have h: "H (tn_id x) = 0" using l by (simp add: node_ok_def)
  have reach: "reaches (Node d (xs @ ys)) vals j" if r: "reaches (Node d (xs @ (k, Node x []) # ys)) vals j" "j \<noteq> tn_id x" for vals j
    using r(1)
  proof (cases rule: reaches.cases)
    case here
    then show ?thesis using reaches.here by simp
  next
    case (child k' t vs)
    then have "t \<noteq> Node x []" using r(2) by (auto elim: reachesE)
    then show ?thesis using reaches.child[of k' t "xs @ ys" vs j d] child by auto
  qed
  have lv: "mset (leaves_of (Node d (xs @ (k, Node x []) # ys))) + (if xs @ ys = [] \<and> tn_lock_ref d = 0 then {#d#} else {#}) =
      add_mset x (mset (leaves_of (Node d (xs @ ys))))"
  proof (cases "xs @ ys = []")
    case True
    then show ?thesis using l by simp
  next
    case False
    then show ?thesis using leaves_kids[OF False, of d] leaves_kids[of "xs @ (k, Node x []) # ys" d] l by (auto simp del: leaves_of.simps simp: leaves_of.simps[of x "[]"])
  qed
  have ent: "\<exists>px. mset (entries pre (Node d (xs @ (k, Node x []) # ys))) = mset (entries pre (Node d (xs @ ys))) + mset (entries px (Node x []))" for pre
    by (intro exI[of _ "pre @ toks d"]) simp
  show ?thesis using reach lv ent ok l g h by (simp add: removed_def del: leaves_of.simps)
qed

lemma delete_spec:
  assumes "good ps H t" and "distinct (ids t)" and "x \<in> set (leaves_of t)" and "tchildren t \<noteq> []"
  shows "\<exists>p e t'. delete_below ps (tn_id x) t = Inr (Some (x, p, e, t')) \<and> removed ps H x p e t t'"
  using assms
proof (induction t rule: tree_induct)
  case (Node d cs)
  then obtain k c where kc: "(k, c) \<in> set cs" "x \<in> set (leaves_of c)" by (auto split: if_splits)
  then obtain xs ys where cs: "cs = xs @ (k, c) # ys" by (meson split_list)
  have xc: "tn_id x \<in> set (ids c)" "tn_lock_ref x = 0" using leaves_in[OF kc(2)] by auto
  have xs: "tn_id x \<notin> set (kid_ids xs)" "tn_id x \<notin> set (kid_ids ys)" using Node.prems(2) xc(1) cs by auto
  have nx: "\<forall>kt \<in> set xs \<union> set ys. tn_id (tdata (snd kt)) \<noteq> tn_id x"
  proof
    fix kt assume "kt \<in> set xs \<union> set ys"
    moreover have "tn_id (tdata (snd kt)) \<in> set (ids (snd kt))" by (cases "snd kt") simp
    ultimately show "tn_id (tdata (snd kt)) \<noteq> tn_id x" using xs by auto
  qed
  show ?case
  proof (cases "tchildren c = []")
    case True
    then have c: "c = Node x []" using kc(2) by (cases c) (auto split: if_splits)
    have "child_key_ok ps d k c" "toks x \<noteq> []" using Node.prems(1) cs c by (auto simp: node_ok_def)
    then have k: "get_child_key ps (tn_key x) = Inr k" using c by (simp add: child_key_ok_def child_key_Inr)
    have dk: "k \<notin> fst ` set xs" "k \<notin> fst ` set ys" using Node.prems(1) cs by auto
    have "find (\<lambda>kt. tn_id (tdata (snd kt)) = tn_id x) cs = Some (k, c)" using nx c unfolding cs by (induction xs) auto
    moreover have "map_of cs k = Some c" using dk(1) unfolding cs by (simp add: map_add_def map_of_eq_None_iff[THEN iffD2])
    moreover have "filter (\<lambda>kt. fst kt \<noteq> k) cs = xs @ ys"
    proof -
      have "filter (\<lambda>kt. fst kt \<noteq> k) zs = zs" if "k \<notin> fst ` set zs" for zs :: "(child_key \<times> radix_tree) list" using that by (intro filter_True) force
      then show ?thesis using dk unfolding cs by simp
    qed
    ultimately have "delete_below ps (tn_id x) (Node d cs) = Inr (Some (x, d, xs @ ys = [], Node d (xs @ ys)))" using k c by (simp add: Let_def)
    then show ?thesis using removed_leaf[of ps H d xs k x ys] Node.prems(1) xc(2) cs c by blast
  next
    case False
    obtain p e c' where r: "delete_below ps (tn_id x) c = Inr (Some (x, p, e, c'))" "removed ps H x p e c c'"
      using Node.IH[OF kc(1) _ _ kc(2) False] Node.prems(1,2) cs by auto
    have "tn_id (tdata c) \<noteq> tn_id x"
    proof -
      obtain cd ccs where c: "c = Node cd ccs" by (cases c)
      have "tn_id cd \<notin> set (kid_ids ccs)" using Node.prems(2) cs c by auto
      moreover have "tn_id x \<in> set (kid_ids ccs)" using kc(2) False c by (auto dest: leaves_in)
      ultimately show ?thesis using c by auto
    qed
    then have "find (\<lambda>kt. tn_id (tdata (snd kt)) = tn_id x) cs = None" using nx cs by (force simp: find_None_iff)
    then have "delete_below ps (tn_id x) (Node d cs) = Inr (Some (x, p, e, Node d (xs @ (k, c') # ys)))"
      using delete_among_at[OF xs(1) r(1), of k ys] cs by simp
    then show ?thesis using removed_child[OF _ r(2)] Node.prems(1) cs by blast
  qed
qed

text \<open>Between two rounds the heap holds the unlocked leaves.\<close>

definition heap_ok :: "radix_config \<Rightarrow> strategy \<Rightarrow> (nat \<Rightarrow> nat) \<Rightarrow> heap_entry list \<Rightarrow> radix_cache \<Rightarrow> bool" where
  "heap_ok cfg strat H heap rx \<longleftrightarrow> rx_ok cfg H rx \<and> mset heap = mset (map (heap_entry strat) (leaves_of (rx_root rx)))"

lemma heappop_mset: "pick h < length h \<Longrightarrow> heappop pick h = (e, h') \<Longrightarrow> mset h = add_mset e (mset h')"
  using id_take_nth_drop[of "pick h" h] by (auto simp: heappop_def) (metis mset_append mset.simps(2) union_mset_add_mset_right)

lemma heappop_least:
  assumes "heap_spec pick" and "h \<noteq> []" and "heappop pick h = (e, h')" and "y \<in> set h"
  shows "\<not> entry_less y e"
  using assms by (auto simp: heap_spec_def heappop_def)

lemma removed_rx_ok:
  assumes rx: "rx_ok cfg H rx" and r: "removed (rc_page_size cfg) H x p e (rx_root rx) t'"
    and m: "rm_counter m = rm_counter (rx_meta rx)" "rm_protected_size m = rm_protected_size (rx_meta rx)"
      "rm_evictable_size m = rm_evictable_size (rx_meta rx) - int (key_len (tn_key x))"
  shows "rx_ok cfg H \<lparr>rx_root = t', rx_meta = m\<rparr>"
proof -
  have i: "mset (ids (rx_root rx)) = add_mset (tn_id x) (mset (ids t'))" using removed_ids[OF r] .
  have x: "H (tn_id x) = 0" using r by (simp add: removed_def node_ok_def)
  have s: "set (ids (rx_root rx)) = insert (tn_id x) (set (ids t'))" using arg_cong[OF i, of set_mset] by simp
  have "\<forall>i. 0 < H i \<longrightarrow> i \<in> set (ids t')" using rx x s unfolding rx_ok_def by (metis insertE less_irrefl)
  moreover have "distinct (ids t')"
  proof -
    have "distinct (tn_id x # ids t')" using rx i mset_eq_imp_distinct_iff[of "ids (rx_root rx)" "tn_id x # ids t'"] by (simp add: rx_ok_def ids_ok_def)
    then show ?thesis by simp
  qed
  ultimately show ?thesis using rx r m s unfolding rx_ok_def by (simp add: removed_def ids_ok_def)
qed

lemma evict_round:
  assumes inv: "heap_ok cfg strat H heap rx" and ne: "heap \<noteq> []" and pick: "heap_spec pick"
  obtains x p ch t' m heap' where
    "\<And>n s. evict_step cfg strat pick free (n, heap, rx, s) =
       bind_res (free (tn_value x) s) (\<lambda>s'. Inr (n + length (tn_value x), heap', \<lparr>rx_root = t', rx_meta = m\<rparr>, s'))"
    "removed (rc_page_size cfg) H x p ch (rx_root rx) t'" "heap_ok cfg strat H heap' \<lparr>rx_root = t', rx_meta = m\<rparr>"
    "x \<in> set (leaves_of (rx_root rx))" "\<And>y. y \<in> set (leaves_of (rx_root rx)) \<Longrightarrow> \<not> entry_less (heap_entry strat y) (heap_entry strat x)"
proof -
  let ?ps = "rc_page_size cfg"
  have rx: "rx_ok cfg H rx" and hm: "mset heap = mset (map (heap_entry strat) (leaves_of (rx_root rx)))" using inv by (simp_all add: heap_ok_def)
  obtain e h where pop: "heappop pick heap = (e, h)" by (cases "heappop pick heap")
  have pm: "mset heap = add_mset e (mset h)" using heappop_mset[OF _ pop] pick ne by (simp add: heap_spec_def)
  have hs: "set heap = heap_entry strat ` set (leaves_of (rx_root rx))" using arg_cong[OF hm, of set_mset] by simp
  have "e \<in> set heap" using arg_cong[OF pm, of set_mset] by simp
  then obtain x where x: "x \<in> set (leaves_of (rx_root rx))" "e = heap_entry strat x" using hs by auto
  have "tchildren (rx_root rx) \<noteq> []" using rx x(1) by (cases "rx_root rx") (auto simp: rx_ok_def)
  then obtain p ch t' where d: "delete_below ?ps (tn_id x) (rx_root rx) = Inr (Some (x, p, ch, t'))" "removed ?ps H x p ch (rx_root rx) t'"
    using delete_spec[of ?ps H "rx_root rx" x] rx x(1) by (auto simp: rx_ok_def ids_ok_def)
  let ?m = "(rx_meta rx)\<lparr>rm_evictable_size := rm_evictable_size (rx_meta rx) - int (key_len (tn_key x))\<rparr>"
  have "node_ok ?ps H (Node x [])" using d(2) by (simp add: removed_def)
  then have c: "?ps dvd length (toks x)" "hashes_ok ?ps x" by (auto simp: node_ok_def)
  have ps: "0 < ?ps" using rx by (simp add: rx_ok_def)
  obtain hh q where r: "record_remove_event cfg p x ?m = Inr (x\<lparr>tn_hash_value := hh\<rparr>, ?m\<lparr>rm_kv_event_queue := q\<rparr>)"
    using record_remove_ok[OF ps c, of p ?m] by metis
  let ?m' = "?m\<lparr>rm_kv_event_queue := q\<rparr>" and ?h = "if ch \<and> tn_lock_ref p = 0 then h @ [heap_entry strat p] else h"
  have ok: "rx_ok cfg H \<lparr>rx_root = t', rx_meta = ?m'\<rparr>" by (rule removed_rx_ok[OF rx d(2)]) simp_all
  have lv: "mset (leaves_of (rx_root rx)) + (if ch \<and> tn_lock_ref p = 0 then {#p#} else {#}) = add_mset x (mset (leaves_of t'))"
    using d(2) by (simp add: removed_def)
  have "add_mset e (mset ?h) = mset heap + (if ch \<and> tn_lock_ref p = 0 then {#heap_entry strat p#} else {#})" using pm by simp
  also have "\<dots> = image_mset (heap_entry strat) (mset (leaves_of (rx_root rx)) + (if ch \<and> tn_lock_ref p = 0 then {#p#} else {#}))" using hm by simp
  also have "\<dots> = add_mset e (image_mset (heap_entry strat) (mset (leaves_of t')))" unfolding lv using x(2) by simp
  finally have "mset ?h = mset (map (heap_entry strat) (leaves_of t'))" by simp
  then have inv': "heap_ok cfg strat H ?h \<lparr>rx_root = t', rx_meta = ?m'\<rparr>" using ok by (simp add: heap_ok_def)
  have "evict_step cfg strat pick free (n, heap, rx, s) =
      bind_res (free (tn_value x) s) (\<lambda>s'. Inr (n + length (tn_value x), ?h, \<lparr>rx_root = t', rx_meta = ?m'\<rparr>, s'))" for n s
    using pop d(1) r x(2) by (cases "free (tn_value x) s") (simp_all add: evict_step_def heap_entry_def Let_def)
  moreover have "\<not> entry_less (heap_entry strat y) (heap_entry strat x)" if "y \<in> set (leaves_of (rx_root rx))" for y
    using heappop_least[OF pick ne pop] hs that x(2) by simp
  ultimately show ?thesis using that d(2) inv' x(1) by blast
qed

lemma unheld_has_leaf: "locks_ok H t \<Longrightarrow> held_locks H t = 0 \<Longrightarrow> leaves_of t \<noteq> []"
proof (induction t rule: tree_induct)
  case (Node d cs)
  show ?case
  proof (cases cs)
    case Nil
    then show ?thesis using Node.prems by simp
  next
    case (Cons kt cs')
    then have "leaves_of (snd kt) \<noteq> []" using Node.IH[of "fst kt" "snd kt"] Node.prems by simp
    then show ?thesis using Cons by simp
  qed
qed

lemma no_leaf_no_evictable: "locks_ok H t \<Longrightarrow> leaves_of t = [] \<Longrightarrow> sized (\<lambda>l. l = 0) t = 0"
proof (induction t rule: tree_induct)
  case (Node d cs)
  have "held_locks H (Node d cs) \<noteq> 0" using unheld_has_leaf[OF Node.prems(1)] Node.prems(2) by blast
  then have "tn_lock_ref d \<noteq> 0" using Node.prems(1) by (simp del: held_locks.simps)
  moreover have "sized (\<lambda>l. l = 0) (snd kt) = 0" if "kt \<in> set cs" for kt
  proof -
    have "leaves_of (snd kt) = []" using Node.prems(2) that by (auto split: if_splits)
    then show ?thesis using Node.IH[of "fst kt" "snd kt"] Node.prems(1) that by simp
  qed
  ultimately show ?case by simp
qed

lemma no_leaves_root:
  assumes "rx_ok cfg H rx" and "leaves_of (rx_root rx) = []"
  shows "rm_evictable_size (rx_meta rx) = 0"
proof -
  obtain d cs where root: "rx_root rx = Node d cs" by (cases "rx_root rx")
  have "sized (\<lambda>l. l = 0) (snd kt) = 0" if "kt \<in> set cs" for kt
  proof -
    have "locks_ok H (snd kt)" using assms(1) root that by (auto simp: rx_ok_def intro: good_locks)
    moreover have "leaves_of (snd kt) = []" using assms(2) root that by (auto split: if_splits)
    ultimately show ?thesis by (rule no_leaf_no_evictable)
  qed
  then show ?thesis using assms(1) root by (simp add: rx_ok_def)
qed

text \<open>
  The loop. \<open>Q\<close> is what the allocator needs of the tree and of its own state: when it holds, the slots of a leaf can be released.
\<close>

definition releasable :: "radix_config \<Rightarrow> (nat \<Rightarrow> nat) \<Rightarrow> (radix_tree \<Rightarrow> 's \<Rightarrow> bool) \<Rightarrow> (int list \<Rightarrow> 's \<Rightarrow> 's result) \<Rightarrow> bool" where
  "releasable cfg H Q free \<longleftrightarrow>
     (\<forall>t s x p e t'. Q t s \<and> removed (rc_page_size cfg) H x p e t t' \<longrightarrow> (\<exists>s'. free (tn_value x) s = Inr s' \<and> Q t' s'))"

definition evicted ::
  "radix_config \<Rightarrow> (nat \<Rightarrow> nat) \<Rightarrow> (radix_tree \<Rightarrow> 's \<Rightarrow> bool) \<Rightarrow> nat \<Rightarrow> nat \<times> radix_cache \<Rightarrow> nat \<times> radix_cache \<times> 's \<Rightarrow> bool" where
  "evicted cfg H Q num_tokens start res \<longleftrightarrow>
     (case (start, res) of ((n, rx), (n', rx', s')) \<Rightarrow>
        rx_ok cfg H rx' \<and> Q (rx_root rx') s' \<and> cached rx' \<subseteq># cached rx \<and> n' + size (cached rx') = n + size (cached rx) \<and>
        rm_evictable_size (rx_meta rx') + int n' = rm_evictable_size (rx_meta rx) + int n \<and>
        rm_protected_size (rx_meta rx') = rm_protected_size (rx_meta rx) \<and>
        (num_tokens \<le> n' \<or> rm_evictable_size (rx_meta rx') = 0) \<and>
        (\<forall>vals j. 0 < H j \<and> reaches (rx_root rx) vals j \<longrightarrow> reaches (rx_root rx') vals j))"

lemma removed_meta:
  assumes "rx_ok cfg H rx" "rx_ok cfg H \<lparr>rx_root = t', rx_meta = m\<rparr>" and r: "removed (rc_page_size cfg) H x p e (rx_root rx) t'"
  shows "mset (entries [] t') \<subseteq># cached rx" "length (tn_value x) + length (entries [] t') = size (cached rx)"
    "rm_evictable_size m + int (length (tn_value x)) = rm_evictable_size (rx_meta rx)" "rm_protected_size m = rm_protected_size (rx_meta rx)"
    "0 < H j \<Longrightarrow> reaches (rx_root rx) vals j \<Longrightarrow> reaches t' vals j"
proof -
  obtain px where px: "mset (entries [] (rx_root rx)) = mset (entries [] t') + mset (entries px (Node x []))" using r unfolding removed_def by blast
  then show "mset (entries [] t') \<subseteq># cached rx" by (simp add: cached_def)
  show "length (tn_value x) + length (entries [] t') = size (cached rx)" using arg_cong[OF px, of size] by (simp add: cached_def)
  have "length (tn_value x) = key_len (tn_key x)" "H (tn_id x) = 0" using r by (simp_all add: removed_def node_ok_def key_len_def)
  then show "rm_evictable_size m + int (length (tn_value x)) = rm_evictable_size (rx_meta rx)" "rm_protected_size m = rm_protected_size (rx_meta rx)"
    using assms by (auto simp: rx_ok_def removed_def)
  show "reaches t' vals j" if "0 < H j" "reaches (rx_root rx) vals j"
    using r that \<open>H (tn_id x) = 0\<close> unfolding removed_def by (metis less_irrefl)
qed

lemma evict_loop_spec:
  assumes "heap_ok cfg strat H heap rx" and pick: "heap_spec pick" and "Q (rx_root rx) s"
    and free: "releasable cfg H Q free"
  shows "\<exists>n' heap' rx' s'. evict_loop cfg strat pick free num_tokens (n, heap, rx, s) = Inr (n', heap', rx', s') \<and>
    evicted cfg H Q num_tokens (n, rx) (n', rx', s')"
  using assms(1,3)
proof (induction "length (ids (rx_root rx))" arbitrary: n heap rx s rule: less_induct)
  case less
  have rx: "rx_ok cfg H rx" and hm: "mset heap = mset (map (heap_entry strat) (leaves_of (rx_root rx)))" using less.prems(1) by (simp_all add: heap_ok_def)
  show ?case
  proof (cases "n < num_tokens \<and> heap \<noteq> []")
    case False
    then have "evict_loop cfg strat pick free num_tokens (n, heap, rx, s) = Inr (n, heap, rx, s)" by (subst evict_loop.simps) auto
    moreover have "num_tokens \<le> n \<or> rm_evictable_size (rx_meta rx) = 0" using False no_leaves_root[OF rx] hm by auto
    ultimately show ?thesis using rx less.prems(2) by (simp add: evicted_def)
  next
    case True
    obtain x p ch t' m heap' where r: "\<And>n s. evict_step cfg strat pick free (n, heap, rx, s) =
         bind_res (free (tn_value x) s) (\<lambda>s'. Inr (n + length (tn_value x), heap', \<lparr>rx_root = t', rx_meta = m\<rparr>, s'))"
      "removed (rc_page_size cfg) H x p ch (rx_root rx) t'" "heap_ok cfg strat H heap' \<lparr>rx_root = t', rx_meta = m\<rparr>"
      using evict_round[OF less.prems(1) conjunct2[OF True] pick, of free] by metis
    obtain s1 where s1: "free (tn_value x) s = Inr s1" "Q t' s1" using free less.prems(2) r(2) unfolding releasable_def by blast
    have "mset (ids (rx_root rx)) = add_mset (tn_id x) (mset (ids t'))" using removed_ids[OF r(2)] .
    from arg_cong[OF this, of size] have lt: "length (ids (rx_root \<lparr>rx_root = t', rx_meta = m\<rparr>)) < length (ids (rx_root rx))" by simp
    have Q: "Q (rx_root \<lparr>rx_root = t', rx_meta = m\<rparr>) s1" using s1(2) by simp
    obtain n' heap'' rx' s' where i: "evict_loop cfg strat pick free num_tokens (n + length (tn_value x), heap', \<lparr>rx_root = t', rx_meta = m\<rparr>, s1) = Inr (n', heap'', rx', s')"
      "evicted cfg H Q num_tokens (n + length (tn_value x), \<lparr>rx_root = t', rx_meta = m\<rparr>) (n', rx', s')"
      using less.hyps[OF lt r(3) Q] by blast
    have "evict_loop cfg strat pick free num_tokens (n, heap, rx, s) = Inr (n', heap'', rx', s')"
      using True r(1) s1(1) i(1) by (subst evict_loop.simps) simp
    moreover have "rx_ok cfg H \<lparr>rx_root = t', rx_meta = m\<rparr>" using r(3) by (simp add: heap_ok_def)
    note rm = removed_meta[OF rx this r(2)]
    have "evicted cfg H Q num_tokens (n, rx) (n', rx', s')"
      using i(2) rm(1-4) rm(5) unfolding evicted_def by (auto simp: cached_def intro: subset_mset.order_trans)
    ultimately show ?thesis by blast
  qed
qed

lemma evict_spec:
  assumes rx: "rx_ok cfg H rx" and pick: "heap_spec pick" and Q: "Q (rx_root rx) s" and en: "\<not> rc_disable cfg"
    and free: "releasable cfg H Q free"
  obtains n' rx' s' where "evict cfg strat pick free num_tokens rx s = Inr (n', rx', s')" "evicted cfg H Q num_tokens (0, rx) (n', rx', s')"
proof -
  have "mset (map (heap_entry strat) (collect_leaves (rx_root rx))) = mset (map (heap_entry strat) (leaves_of (rx_root rx)))"
    using rx by (cases "rx_root rx") (simp add: collect_leaves_def rx_ok_def)
  then have "heap_ok cfg strat H (map (heap_entry strat) (collect_leaves (rx_root rx))) rx" using rx by (simp add: heap_ok_def)
  from evict_loop_spec[where Q = Q and num_tokens = num_tokens and n = 0, OF this pick Q free]
  show ?thesis using that en by (auto simp: evict_def Let_def)
qed

section \<open>Slots and the allocator\<close>

lemma reaches_values: "reaches t vals i \<Longrightarrow> set vals \<subseteq> set (tree_values t)"
proof (induction rule: reaches.induct)
  case (child k t cs vals i d)
  have "tn_value (tdata t) = [] \<or> set (tn_value (tdata t)) \<subseteq> set (tree_values t)" by (cases t) auto
  then show ?case using child by force
qed simp

lemma removed_values: "removed ps H x p e t t' \<Longrightarrow> mset (tree_values t) = mset (tn_value x) + mset (tree_values t')"
proof -
  assume "removed ps H x p e t t'"
  then obtain px where "mset (entries [] t) = mset (entries [] t') + mset (entries px (Node x []))" unfolding removed_def by blast
  from arg_cong[OF this, of "image_mset (\<lambda>(e, p, s). s)"]
  have "mset (tree_values t) = mset (tree_values t') + mset (tree_values (Node x []))"
    by (simp add: tree_values_entries[of t "[]"] tree_values_entries[of t' "[]"] tree_values_entries[of "Node x []" px] del: entries.simps tree_values.simps)
  then show ?thesis by simp
qed

context slot_allocator
begin

text \<open>
  The tree owns its slots: no slot is in it twice, the slots that are out are those of the tree and those of others, and a node consists
  of whole pages.
\<close>

definition tree_owns :: "'c \<Rightarrow> nat \<Rightarrow> int set \<Rightarrow> radix_tree \<Rightarrow> 's \<Rightarrow> bool" where
  "tree_owns u capacity others t s \<longleftrightarrow>
     inv s \<and> shape s = u \<and> distinct (tree_values t) \<and> set (tree_values t) \<inter> others = {} \<and> held s = set (tree_values t) \<union> others \<and>
     available s + length (tree_values t) = capacity \<and> (\<forall>x \<in> set (nodes t). whole_pages (unit u) (tn_value x) = set (tn_value x))"

lemma tree_owns_releasable: "releasable cfg H (tree_owns u capacity others) free"
  unfolding releasable_def
proof (intro allI impI, elim conjE)
  fix t s x p e t'
  assume Q: "tree_owns u capacity others t s" and r: "removed (rc_page_size cfg) H x p e t t'"
  have mv: "mset (tree_values t) = mset (tn_value x @ tree_values t')" using removed_values[OF r] by simp
  have d: "distinct (tn_value x @ tree_values t')" using Q mset_eq_imp_distinct_iff[OF mv] by (simp add: tree_owns_def)
  have sv: "set (tree_values t) = set (tn_value x) \<union> set (tree_values t')" using arg_cong[OF mv, of set_mset] by simp
  have nd: "mset (nodes t) = add_mset x (mset (nodes t'))" using r by (simp add: removed_def)
  have nodes: "set (nodes t) = insert x (set (nodes t'))" using arg_cong[OF nd, of set_mset] by simp
  then have w: "whole_pages (unit (shape s)) (tn_value x) = set (tn_value x)" using Q by (simp add: tree_owns_def)
  obtain s' where s': "free (tn_value x) s = Inr s'" "inv s'" "shape s' = shape s" "held s' = held s - set (tn_value x)"
      "available s' = available s + card (set (tn_value x))"
    using free_held[of s "tn_value x"] Q d sv w by (auto simp: tree_owns_def)
  have "card (set (tn_value x)) = length (tn_value x)" using d by (simp add: distinct_card)
  moreover have "length (tree_values t) = length (tn_value x) + length (tree_values t')" using arg_cong[OF mv, of size] by simp
  ultimately have "tree_owns u capacity others t' s'"
    using Q s' d sv nodes by (auto simp: tree_owns_def)
  then show "\<exists>s'. free (tn_value x) s = Inr s' \<and> tree_owns u capacity others t' s'" using s'(1) by blast
qed

lemma evict_owned:
  assumes rx: "rx_ok cfg H rx" and pick: "heap_spec pick" and en: "\<not> rc_disable cfg" and own: "tree_owns u capacity others (rx_root rx) s"
  shows "\<exists>n rx' s'. evict cfg strat pick free num_tokens rx s = Inr (n, rx', s') \<and> rx_ok cfg H rx' \<and> tree_owns u capacity others (rx_root rx') s' \<and>
    cached rx' \<subseteq># cached rx \<and> available s' = available s + n \<and> (num_tokens \<le> n \<or> rm_evictable_size (rx_meta rx') = 0) \<and>
    rm_evictable_size (rx_meta rx') = rm_evictable_size (rx_meta rx) - int n \<and> rm_protected_size (rx_meta rx') = rm_protected_size (rx_meta rx) \<and>
    (\<forall>vals j. 0 < H j \<and> reaches (rx_root rx) vals j \<longrightarrow> reaches (rx_root rx') vals j \<and> set vals \<subseteq> held s')"
proof -
  obtain n rx' s' where e: "evict cfg strat pick free num_tokens rx s = Inr (n, rx', s')"
      "evicted cfg H (tree_owns u capacity others) num_tokens (0, rx) (n, rx', s')"
    using evict_spec[where Q = "tree_owns u capacity others", OF rx pick own en tree_owns_releasable] .
  then have ev: "rx_ok cfg H rx'" "tree_owns u capacity others (rx_root rx') s'" "cached rx' \<subseteq># cached rx" "n + size (cached rx') = size (cached rx)"
    "rm_evictable_size (rx_meta rx') + int n = rm_evictable_size (rx_meta rx)" "rm_protected_size (rx_meta rx') = rm_protected_size (rx_meta rx)"
    "num_tokens \<le> n \<or> rm_evictable_size (rx_meta rx') = 0" "\<And>vals j. 0 < H j \<Longrightarrow> reaches (rx_root rx) vals j \<Longrightarrow> reaches (rx_root rx') vals j"
    by (simp_all add: evicted_def)
  have "size (cached r) = length (tree_values (rx_root r))" for r by (simp add: cached_def tree_values_entries[of _ "[]"])
  then have "available s' = available s + n" using own ev(2,4) by (simp add: tree_owns_def)
  moreover have "set vals \<subseteq> held s'" if "0 < H j" "reaches (rx_root rx) vals j" for vals j
    using reaches_values[OF ev(8)[OF that]] ev(2) by (auto simp: tree_owns_def)
  ultimately show ?thesis using e(1) ev by (intro exI[of _ n] exI[of _ rx'] exI[of _ s']) auto
qed

end

lemma evict_releasable_always: "(\<And>vs s. \<exists>s'. free vs s = Inr s') \<Longrightarrow> releasable cfg H (\<lambda>_ _. True) free"
  by (simp add: releasable_def)

section \<open>Histories\<close>

text \<open>
  The states that a cache can reach from its creation, with the locks that are held. Keys are inserted in whole pages with a slot for every
  token, as the callers do; a lock is released only by who holds it. The token allocator releases the slots.
\<close>

inductive radix_run :: "radix_config \<Rightarrow> strategy \<Rightarrow> (heap_entry list \<Rightarrow> nat) \<Rightarrow> radix_cache \<Rightarrow> (nat \<Rightarrow> nat) \<Rightarrow> bool"
  for cfg strat pick where
  start: "radix_init cfg policy counter reads = Inr (strat, rx) \<Longrightarrow> radix_run cfg strat pick rx (\<lambda>_. 0)"
| match: "radix_run cfg strat pick rx H \<Longrightarrow> match_prefix cfg key rx = Inr (res, rx') \<Longrightarrow> radix_run cfg strat pick rx' H"
| ins: "radix_run cfg strat pick rx H \<Longrightarrow> rc_page_size cfg dvd length (lookup_tokens cfg key) \<Longrightarrow> length vals = length (rk_token_ids key) \<Longrightarrow>
    radix_insert cfg key vals priority rx = Inr (n, rx') \<Longrightarrow> radix_run cfg strat pick rx' H"
| lock: "radix_run cfg strat pick rx H \<Longrightarrow> i \<in> set (ids (rx_root rx)) \<Longrightarrow> inc_lock_ref cfg i rx = Inr (delta, rx') \<Longrightarrow>
    radix_run cfg strat pick rx' (if rc_disable cfg then H else H(i := Suc (H i)))"
| unlock: "radix_run cfg strat pick rx H \<Longrightarrow> 0 < H i \<Longrightarrow> dec_lock_ref cfg i rx = Inr (delta, rx') \<Longrightarrow>
    radix_run cfg strat pick rx' (if rc_disable cfg then H else H(i := H i - 1))"
| evict: "radix_run cfg strat pick rx H \<Longrightarrow> evict cfg strat pick token_free num_tokens rx a = Inr (n, rx', a') \<Longrightarrow> radix_run cfg strat pick rx' H"

inductive_cases radix_runE: "radix_run cfg strat pick rx H"

lemma length_pairs: "length (pairs ts) \<le> length ts - 1"
  by (induction ts rule: pairs.induct) auto

lemma length_lookup: "length (lookup_tokens cfg key) \<le> length (rk_token_ids key)"
  using length_pairs[of "rk_token_ids key"]
  by (auto simp: lookup_tokens_def convert_to_bigram_key_def split: list.splits token.splits)

lemma radix_reset_ok: "0 < rc_page_size cfg \<Longrightarrow> rx_ok cfg (\<lambda>_. 0) (radix_reset cfg m)"
  by (auto simp: radix_reset_def new_tree_node_eq rx_ok_def ids_ok_def key_len_def record_all_cleared_event_def)

lemma insert_ok_step:
  assumes "rx_ok cfg H rx" and "rc_page_size cfg dvd length (lookup_tokens cfg key)" and "length vals = length (rk_token_ids key)"
    and "radix_insert cfg key vals priority rx = Inr (n, rx')"
  shows "rx_ok cfg H rx'"
proof (cases "rc_disable cfg")
  case True
  then show ?thesis using assms(1,4) by (simp add: radix_insert_def)
next
  case False
  have le: "length (lookup_tokens cfg key) \<le> length vals" using assms(3) length_lookup[of cfg key] by simp
  show ?thesis using insert_spec[OF assms(1) False assms(2) le, of priority] assms(3,4) by (metis Inr_inject prod.inject)
qed

lemma match_ok_step:
  assumes "rx_ok cfg H rx" and "match_prefix cfg key rx = Inr (res, rx')"
  shows "rx_ok cfg H rx'"
proof (cases "rc_disable cfg")
  case True
  then show ?thesis using assms by (simp add: match_prefix_def Let_def)
next
  case False
  show ?thesis using match_prefix_spec[OF assms(1) False, of key] assms(2) by (metis Inr_inject prod.inject)
qed

lemma lock_ok_step:
  assumes "rx_ok cfg H rx" and "i \<in> set (ids (rx_root rx))" and "lock_step step x" and "int (H' i) = int (H i) + x" and "\<And>j. j \<noteq> i \<Longrightarrow> H' j = H j"
    and "change_lock_ref step cfg i rx = Inr (delta, rx')"
  shows "rx_ok cfg (if rc_disable cfg then H else H') rx'"
proof (cases "rc_disable cfg")
  case True
  then show ?thesis using assms(1,6) by (simp add: change_lock_ref_def)
next
  case False
  obtain d2 rx2 where "change_lock_ref step cfg i rx = Inr (d2, rx2)" "rx_ok cfg H' rx2"
    by (rule change_lock_spec[OF assms(1) False assms(2,3), of H']) (use assms(4,5) in auto)
  then show ?thesis using assms(6) False by simp
qed

lemma evict_ok_step:
  assumes "rx_ok cfg H rx" and "heap_spec pick" and "evict cfg strat pick token_free num_tokens rx a = Inr (n, rx', a')"
  shows "rx_ok cfg H rx'"
proof (cases "rc_disable cfg")
  case True
  then show ?thesis using assms(1,3) by (simp add: evict_def)
next
  case False
  have free: "releasable cfg H (\<lambda>_ _. True) token_free" by (rule evict_releasable_always) (simp add: token_free_def)
  obtain n2 rx2 s2 where "evict cfg strat pick token_free num_tokens rx a = Inr (n2, rx2, s2)" "evicted cfg H (\<lambda>_ _. True) num_tokens (0, rx) (n2, rx2, s2)"
    by (rule evict_spec[where Q = "\<lambda>_ _. True", OF assms(1,2) TrueI False free])
  then show ?thesis using assms(3) by (simp add: evicted_def)
qed

lemma radix_run_ok:
  assumes "radix_run cfg strat pick rx H" and "heap_spec pick" and "0 < rc_page_size cfg"
  shows "rx_ok cfg H rx"
  using assms(1)
proof (induction rule: radix_run.induct)
  case (start policy counter reads rx)
  then show ?case using radix_reset_ok[OF assms(3)] by (cases "eviction_strategy policy") (auto simp: radix_init_def)
next
  case (match rx H key res rx')
  then show ?case by (blast intro: match_ok_step)
next
  case (ins rx H key vals priority n rx')
  then show ?case by (blast intro: insert_ok_step)
next
  case (lock rx H i delta rx')
  show ?case
    by (rule lock_ok_step[OF lock.IH lock.hyps(2) inc_lock_step _ _ lock.hyps(3)[unfolded inc_lock_ref_def]]) auto
next
  case (unlock rx H i delta rx')
  have "i \<in> set (ids (rx_root rx))" using unlock by (simp add: rx_ok_def)
  then show ?case
    by (rule lock_ok_step[OF unlock.IH _ dec_lock_step _ _ unlock.hyps(3)[unfolded dec_lock_ref_def]]) (use unlock.hyps(2) in auto)
next
  case (evict rx H num_tokens a n rx' a')
  then show ?case using assms(2) by (blast intro: evict_ok_step)
qed

lemma total_sized: "good ps H t \<Longrightarrow> length (tn_value (tdata t)) = length (toks (tdata t)) \<Longrightarrow>
  length (tree_values t) = sized (\<lambda>l. l = 0) t + sized (\<lambda>l. l \<noteq> 0) t"
proof (induction t rule: tree_induct)
  case (Node d cs)
  have "length (tree_values (snd kt)) = sized (\<lambda>l. l = 0) (snd kt) + sized (\<lambda>l. l \<noteq> 0) (snd kt)" if "kt \<in> set cs" for kt
    using Node.IH[of "fst kt" "snd kt"] Node.prems(1) that by (auto simp: node_ok_def Let_def)
  then have "map (\<lambda>kt. length (tree_values (snd kt))) cs = map (\<lambda>kt. sized (\<lambda>l. l = 0) (snd kt) + sized (\<lambda>l. l \<noteq> 0) (snd kt)) cs" by simp
  then show ?case using Node.prems(2) by (simp add: length_concat o_def key_len_def sum_list_addf del: map_eq_conv)
qed

section \<open>A heap\<close>

text \<open>A choice of the smallest entry: the first one.\<close>

fun first_least :: "heap_entry list \<Rightarrow> nat" where
  "first_least [] = 0"
| "first_least (x # xs) = (if xs \<noteq> [] \<and> entry_less (xs ! first_least xs) x then Suc (first_least xs) else 0)"

lemma entry_less_cotrans: "\<not> entry_less x y \<Longrightarrow> \<not> entry_less y z \<Longrightarrow> \<not> entry_less x z"
  by (auto simp: entry_less_def)

lemma first_least_spec: "heap_spec first_least"
proof -
  have "first_least h < length h \<and> (\<forall>y \<in> set h. \<not> entry_less y (h ! first_least h))" if "h \<noteq> []" for h
    using that
  proof (induction h)
    case (Cons x xs)
    show ?case
    proof (cases "xs = []")
      case True
      then show ?thesis by (simp add: entry_less_def)
    next
      case False
      let ?m = "xs ! first_least xs"
      have IH: "first_least xs < length xs" "\<And>y. y \<in> set xs \<Longrightarrow> \<not> entry_less y ?m" using Cons.IH[OF False] by auto
      show ?thesis
      proof (cases "entry_less ?m x")
        case True
        then have "\<not> entry_less x ?m" by (auto simp: entry_less_def)
        then show ?thesis using IH True False by auto
      next
        case less: False
        have "\<not> entry_less y x" if "y \<in> set xs" for y using entry_less_cotrans[OF IH(2)[OF that] less] .
        then show ?thesis using less False by (auto simp: entry_less_def)
      qed
    qed
  qed simp
  then show ?thesis by (simp add: heap_spec_def)
qed

section \<open>Properties\<close>

text \<open>
  (C16) Searching the cache. In every reachable state \<open>match_prefix\<close> returns the slots of the longest prefix of the key, in whole pages and in
  the namespace of its extra key, that the cache holds, and the node at which this prefix ends. What the cache holds does not change, even
  when a node is split.
\<close>

theorem match_prefix_correct:
  assumes "radix_run cfg strat pick rx H" and "heap_spec pick" and "0 < rc_page_size cfg" and "\<not> rc_disable cfg"
  shows "\<exists>vals i rx'. match_prefix cfg key rx = Inr ((vals, i), rx') \<and>
    longest_cached (rc_page_size cfg) (set_mset (cached rx)) (rk_extra_key key) [] (lookup_tokens cfg key) vals \<and>
    cached rx' = cached rx \<and> reaches (rx_root rx') vals i"
  using match_prefix_spec[OF radix_run_ok[OF assms(1-3)] assms(4), of key] by metis

text \<open>
  (C15) Inserting a key and searching for it. \<open>insert\<close> returns the length of the prefix that was already there and adds exactly the
  remaining tokens with their slots; a search for the same key then finds slots for all of its tokens.
\<close>

theorem insert_then_match:
  assumes "radix_run cfg strat pick rx H" and "heap_spec pick" and "0 < rc_page_size cfg" and "\<not> rc_disable cfg"
    and "rc_page_size cfg dvd length (lookup_tokens cfg key)" and "length vals = length (rk_token_ids key)"
  shows "\<exists>vs rx' us i rx''. radix_insert cfg key vals priority rx = Inr (length vs, rx') \<and>
    longest_cached (rc_page_size cfg) (set_mset (cached rx)) (rk_extra_key key) [] (lookup_tokens cfg key) vs \<and>
    cached rx' = cached rx + mset (new_entries (rk_extra_key key) (lookup_tokens cfg key) vals (length vs) []) \<and>
    match_prefix cfg key rx' = Inr ((us, i), rx'') \<and> length us = length (lookup_tokens cfg key) \<and>
    (\<forall>j < length us. (rk_extra_key key, take (Suc j) (lookup_tokens cfg key), us ! j) \<in># cached rx')"
proof -
  note ok = radix_run_ok[OF assms(1-3)]
  have le: "length (lookup_tokens cfg key) \<le> length vals" using assms(6) length_lookup[of cfg key] by simp
  obtain vs rx' where i: "radix_insert cfg key vals priority rx = Inr (length vs, rx')"
    "longest_cached (rc_page_size cfg) (set_mset (cached rx)) (rk_extra_key key) [] (lookup_tokens cfg key) vs"
    "cached rx' = cached rx + mset (new_entries (rk_extra_key key) (lookup_tokens cfg key) vals (length vs) [])"
    using insert_spec[OF ok assms(4,5) le, of priority] assms(6) by metis
  obtain us i rx'' where "match_prefix cfg key rx' = Inr ((us, i), rx'')" "length us = length (lookup_tokens cfg key)"
    "\<And>j. j < length us \<Longrightarrow> (rk_extra_key key, take (Suc j) (lookup_tokens cfg key), us ! j) \<in># cached rx'"
    using match_after_insert[OF ok assms(4,5) le _ i(1) refl refl] assms(6) by metis
  then show ?thesis using i by blast
qed

text \<open>
  (C17) The counters. In every reachable state the reference count of a node is the number of locks held on it and on the nodes below it,
  \<open>evictable_size\<close> is the number of tokens in nodes that are not locked, \<open>protected_size\<close> the number in those that are, and together they
  are the size of the cache.
\<close>

theorem radix_counters:
  assumes "radix_run cfg strat pick rx H" and "heap_spec pick" and "0 < rc_page_size cfg"
  shows "(\<forall>kt \<in> set (tchildren (rx_root rx)). locks_ok H (snd kt)) \<and>
    rm_evictable_size (rx_meta rx) = int (sized (\<lambda>l. l = 0) (rx_root rx)) \<and>
    rm_protected_size (rx_meta rx) = int (sized (\<lambda>l. l \<noteq> 0) (rx_root rx)) \<and>
    int (total_size rx) = rm_evictable_size (rx_meta rx) + rm_protected_size (rx_meta rx)"
proof -
  note ok = radix_run_ok[OF assms]
  have "good (rc_page_size cfg) H (rx_root rx)" using ok by (simp add: rx_ok_def)
  then have "\<forall>kt \<in> set (tchildren (rx_root rx)). locks_ok H (snd kt)" by (cases "rx_root rx") (auto intro: good_locks)
  moreover have "length (tree_values (rx_root rx)) = sized (\<lambda>l. l = 0) (rx_root rx) + sized (\<lambda>l. l \<noteq> 0) (rx_root rx)"
    using total_sized[of "rc_page_size cfg" H "rx_root rx"] ok by (simp add: rx_ok_def)
  ultimately show ?thesis using ok by (simp add: rx_ok_def total_size_def)
qed

text \<open>
  (C14) Eviction over the paged allocator. When the cache owns its slots (no slot twice, whole pages), \<open>evict\<close> returns, gives back exactly
  the slots that leave the tree, at least as many as asked for unless no unlocked token is left, and never touches a node on
  which a lock is held: the slots on the way to it stay allocated and stay in the tree.
\<close>

theorem evict_keeps_locked:
  assumes "radix_run cfg strat pick rx H" and "heap_spec pick" and "0 < rc_page_size cfg" and "\<not> rc_disable cfg"
    and "paged_inv a" and "distinct (tree_values (rx_root rx))" and "set (tree_values (rx_root rx)) \<subseteq> paged_held a"
    and "\<forall>x \<in> set (nodes (rx_root rx)). whole_pages (al_page_size a) (tn_value x) = set (tn_value x)"
  shows "\<exists>n rx' a'. evict cfg strat pick paged_free num_tokens rx a = Inr (n, rx', a') \<and> paged_inv a' \<and> cached rx' \<subseteq># cached rx \<and>
    paged_held a' = paged_held a - (set (tree_values (rx_root rx)) - set (tree_values (rx_root rx'))) \<and> available_size a' = available_size a + n \<and>
    (num_tokens \<le> n \<or> rm_evictable_size (rx_meta rx') = 0) \<and> rm_evictable_size (rx_meta rx') = rm_evictable_size (rx_meta rx) - int n \<and>
    (\<forall>vals j. 0 < H j \<and> reaches (rx_root rx) vals j \<longrightarrow> reaches (rx_root rx') vals j \<and> set vals \<subseteq> paged_held a')"
proof -
  let ?others = "paged_held a - set (tree_values (rx_root rx))"
  have "pg.tree_owns (paged_shape a) (available_size a + length (tree_values (rx_root rx))) ?others (rx_root rx) a"
    using assms(5-8) by (auto simp: pg.tree_owns_def paged_shape_def)
  from pg.evict_owned[OF radix_run_ok[OF assms(1-3)] assms(2,4) this, of strat num_tokens]
  obtain n rx' a' where e: "evict cfg strat pick paged_free num_tokens rx a = Inr (n, rx', a')"
    "pg.tree_owns (paged_shape a) (available_size a + length (tree_values (rx_root rx))) ?others (rx_root rx') a'" "cached rx' \<subseteq># cached rx"
    "available_size a' = available_size a + n" "num_tokens \<le> n \<or> rm_evictable_size (rx_meta rx') = 0"
    "rm_evictable_size (rx_meta rx') = rm_evictable_size (rx_meta rx) - int n"
    "\<forall>vals j. 0 < H j \<and> reaches (rx_root rx) vals j \<longrightarrow> reaches (rx_root rx') vals j \<and> set vals \<subseteq> paged_held a'" by blast
  have "set (tree_values (rx_root rx')) \<subseteq> set (tree_values (rx_root rx))"
  proof -
    have "set_mset (cached rx') \<subseteq> set_mset (cached rx)" using e(3) by (rule set_mset_mono)
    then show ?thesis by (force simp: cached_def tree_values_entries[of _ "[]"])
  qed
  then have "paged_inv a'" "paged_held a' = paged_held a - (set (tree_values (rx_root rx)) - set (tree_values (rx_root rx')))"
    using e(2) assms(7) by (auto simp: pg.tree_owns_def)
  then show ?thesis using e by blast
qed

section \<open>An example\<close>

text \<open>Pages of two slots, two keys with a common first page, and a lock on the node where the first key ends.\<close>

definition ex_cfg :: radix_config where
  "ex_cfg = \<lparr>rc_disable = False, rc_page_size = 2, rc_enable_kv_cache_events = False, rc_is_eagle = False, rc_disable_finished_insert = False,
     rc_sha256 = (\<lambda>bs. bs), rc_clock = int\<rparr>"

definition ex_key :: "nat list \<Rightarrow> radix_key" where
  "ex_key ts = \<lparr>rk_token_ids = map Token ts, rk_extra_key = None, rk_is_bigram = False\<rparr>"

definition ex_rx0 :: radix_cache where
  "ex_rx0 = snd (projr (radix_init ex_cfg ''LRU'' 0 0))"

definition ex_rx1 :: radix_cache where
  "ex_rx1 = snd (projr (radix_insert ex_cfg (ex_key [1, 2, 3, 4]) [2, 3, 4, 5] 0 ex_rx0))"

definition ex_rx2 :: radix_cache where
  "ex_rx2 = snd (projr (radix_insert ex_cfg (ex_key [1, 2, 5, 6]) [8, 9, 6, 7] 0 ex_rx1))"

definition ex_rx3 :: radix_cache where
  "ex_rx3 = snd (projr (inc_lock_ref ex_cfg 1 ex_rx2))"

definition ex_H :: "nat \<Rightarrow> nat" where
  "ex_H = (\<lambda>_. 0)(1 := 1)"

lemma ex_init: "radix_init ex_cfg ''LRU'' 0 0 = Inr (LRUStrategy, ex_rx0)"
  by code_simp

lemma ex_insert1: "radix_insert ex_cfg (ex_key [1, 2, 3, 4]) [2, 3, 4, 5] 0 ex_rx0 = Inr (0, ex_rx1)"
  by code_simp

lemma ex_insert2: "radix_insert ex_cfg (ex_key [1, 2, 5, 6]) [8, 9, 6, 7] 0 ex_rx1 = Inr (2, ex_rx2)"
  by code_simp

lemma ex_lock: "1 \<in> set (ids (rx_root ex_rx2)) \<and> inc_lock_ref ex_cfg 1 ex_rx2 = Inr (- 4, ex_rx3)"
  by code_simp

lemma ex_ps: "rc_page_size ex_cfg = 2" "\<not> rc_disable ex_cfg" "rc_is_eagle ex_cfg = False"
  by (simp_all add: ex_cfg_def)

lemma ex_lookup: "lookup_tokens ex_cfg (ex_key ts) = map Token ts" "rk_token_ids (ex_key ts) = map Token ts" "rk_extra_key (ex_key ts) = None"
  by (simp_all add: lookup_tokens_def ex_ps ex_key_def)

lemma ex_run2: "radix_run ex_cfg LRUStrategy first_least ex_rx2 (\<lambda>_. 0)"
proof -
  have "radix_run ex_cfg LRUStrategy first_least ex_rx0 (\<lambda>_. 0)" by (rule radix_run.start[OF ex_init])
  then have "radix_run ex_cfg LRUStrategy first_least ex_rx1 (\<lambda>_. 0)"
    by (rule radix_run.ins[OF _ _ _ ex_insert1]) (simp_all add: ex_lookup ex_ps)
  then show ?thesis by (rule radix_run.ins[OF _ _ _ ex_insert2]) (simp_all add: ex_lookup ex_ps)
qed

lemma ex_run3: "radix_run ex_cfg LRUStrategy first_least ex_rx3 ex_H"
proof -
  have "radix_run ex_cfg LRUStrategy first_least ex_rx3 (if rc_disable ex_cfg then \<lambda>_. 0 else (\<lambda>_. 0)(1 := Suc 0))"
    by (rule radix_run.lock[OF ex_run2]) (use ex_lock in auto)
  then show ?thesis by (simp add: ex_ps ex_H_def)
qed

definition ex_pages :: paged_allocator where
  "ex_pages = \<lparr>al_size = 8, al_page_size = 2, al_need_sort = False, al_free_pages = [4], al_release_pages = [], al_is_not_in_free_group = True,
     al_free_group = [], pg_num_pages = 4, pg_debug_mode = False, pg_seen_max_num_extend_tokens = 1\<rparr>"

lemma ex_values: "tree_values (rx_root ex_rx3) = [2, 3, 4, 5, 6, 7]"
  by code_simp

lemma ex_nodes: "map tn_value (nodes (rx_root ex_rx3)) = [[], [2, 3], [4, 5], [6, 7]]"
  by code_simp

lemma ex_page: "whole_pages 2 [2 * p, 2 * p + 1] = {2 * p, 2 * p + 1}"
  by (auto simp: whole_pages_def)

theorem match_prefix_correct_witness:
  "\<exists>vals i rx'. match_prefix ex_cfg (ex_key [1, 2, 3, 9]) ex_rx2 = Inr ((vals, i), rx') \<and>
    longest_cached 2 (set_mset (cached ex_rx2)) None [] (map Token [1, 2, 3, 9]) vals \<and> cached rx' = cached ex_rx2 \<and> reaches (rx_root rx') vals i"
  using match_prefix_correct[OF ex_run2 first_least_spec, of "ex_key [1, 2, 3, 9]"] by (simp add: ex_lookup ex_ps)

theorem insert_then_match_witness:
  "\<exists>n rx' us i rx''. radix_insert ex_cfg (ex_key [1, 2, 3, 9]) [8, 9, 10, 11] 5 ex_rx2 = Inr (n, rx') \<and>
    match_prefix ex_cfg (ex_key [1, 2, 3, 9]) rx' = Inr ((us, i), rx'') \<and> length us = length (map Token [1, 2, 3, 9])"
proof -
  have "rc_page_size ex_cfg dvd length (lookup_tokens ex_cfg (ex_key [1, 2, 3, 9]))" "length [8, 9, 10, 11 :: int] = length (rk_token_ids (ex_key [1, 2, 3, 9]))"
    "0 < rc_page_size ex_cfg" by (simp_all add: ex_lookup ex_ps)
  from insert_then_match[OF ex_run2 first_least_spec this(3) ex_ps(2) this(1,2), of 5] show ?thesis unfolding ex_lookup by blast
qed

theorem radix_counters_witness:
  "rm_evictable_size (rx_meta ex_rx3) = 2 \<and> rm_protected_size (rx_meta ex_rx3) = 4 \<and> total_size ex_rx3 = 6"
proof -
  have "sized (\<lambda>l. l = 0) (rx_root ex_rx3) = 2" "sized (\<lambda>l. l \<noteq> 0) (rx_root ex_rx3) = 4" by code_simp+
  then show ?thesis using radix_counters[OF ex_run3 first_least_spec] by (simp add: ex_ps)
qed

theorem evict_keeps_locked_witness:
  "\<exists>n rx' a'. evict ex_cfg LRUStrategy first_least paged_free 4 ex_rx3 ex_pages = Inr (n, rx', a') \<and> paged_inv a' \<and> cached rx' \<subseteq># cached ex_rx3 \<and>
    paged_held a' = paged_held ex_pages - ({2..7} - set (tree_values (rx_root rx'))) \<and> available_size a' = available_size ex_pages + n \<and>
    (4 \<le> n \<or> rm_evictable_size (rx_meta rx') = 0) \<and> rm_evictable_size (rx_meta rx') = rm_evictable_size (rx_meta ex_rx3) - int n \<and>
    (\<forall>vals j. 0 < ex_H j \<and> reaches (rx_root ex_rx3) vals j \<longrightarrow> reaches (rx_root rx') vals j \<and> set vals \<subseteq> paged_held a')"
proof -
  have inv: "paged_inv ex_pages" by (simp add: paged_inv_def pages_ok_def free_set_def ex_pages_def)
  have v: "set (tree_values (rx_root ex_rx3)) = {2..7}" unfolding ex_values by auto
  have held: "set (tree_values (rx_root ex_rx3)) \<subseteq> paged_held ex_pages" unfolding v by (auto simp: paged_held_def free_set_def ex_pages_def)
  have "whole_pages 2 vs = set vs" if "vs \<in> set (map tn_value (nodes (rx_root ex_rx3)))" for vs
    using that ex_page[of 1] ex_page[of 2] ex_page[of 3] unfolding ex_nodes by (auto simp: whole_pages_def)
  then have w: "\<forall>x \<in> set (nodes (rx_root ex_rx3)). whole_pages (al_page_size ex_pages) (tn_value x) = set (tn_value x)" by (simp add: ex_pages_def)
  have d: "distinct (tree_values (rx_root ex_rx3))" unfolding ex_values by simp
  show ?thesis using evict_keeps_locked[OF ex_run3 first_least_spec _ _ inv d held w, of 4] unfolding v by (simp add: ex_ps)
qed

end
