(* ===== verification/Radix_Request.thy ===== *)
theory Radix_Request
  imports Radix_Evict
begin

text \<open>
  Requests and the prefix caches: the pool of token tables (\<^verbatim>\<open>mem_cache/memory_pool.py\<close>), what the radix cache and the chunk cache do
  with a request that is unfinished or finished (\<^verbatim>\<open>radix_cache.py\<close>, \<^verbatim>\<open>chunk_cache.py\<close>), and the allocation and release of slots on
  behalf of requests (\<^verbatim>\<open>mem_cache/common.py\<close>).

  The allocator is an argument of the operations that use it: its methods and its state. Slots fit into the 32 bits of the table.
  Slices that are handed to \<^verbatim>\<open>free\<close> are values here. In the code they are views of the table, which is the same as long as the allocator is
  not inside a free group, where it would keep them for later.
\<close>

section \<open>The table of tokens\<close>

record req_pool =
  rp_size :: nat
  rp_max_context_len :: nat
  rp_req_to_token :: "int list list"
  rp_free_slots :: "nat list"

definition req_pool_init :: "nat \<Rightarrow> nat \<Rightarrow> req_pool" where
  "req_pool_init pool_size max_context_len =
     \<lparr>rp_size = pool_size, rp_max_context_len = max_context_len, rp_req_to_token = replicate pool_size (replicate max_context_len 0),
      rp_free_slots = [0..<pool_size]\<rparr>"

text \<open>
  \<^verbatim>\<open>req_to_token[row, first:last] = values\<close>: the slice is clipped to the row; the values must fill it, or be one value for all of it.
\<close>

definition req_pool_write :: "nat \<Rightarrow> nat \<Rightarrow> nat \<Rightarrow> int list \<Rightarrow> req_pool \<Rightarrow> req_pool result" where
  "req_pool_write row first last_p vals p =
     bind_res (py_nth (rp_req_to_token p) (int row)) (\<lambda>r.
     let a = min first (length r); b = min last_p (length r); n = b - a in
     bind_res (if length vals = n then Inr vals else if length vals = 1 then Inr (replicate n (hd vals)) else Inl RuntimeError) (\<lambda>vs.
     Inr (p\<lparr>rp_req_to_token := (rp_req_to_token p)[row := take a r @ vs @ drop (a + n) r]\<rparr>)))"

definition req_pool_available_size :: "req_pool \<Rightarrow> nat" where
  "req_pool_available_size p = length (rp_free_slots p)"

definition req_pool_alloc :: "nat \<Rightarrow> req_pool \<Rightarrow> nat list option \<times> req_pool" where
  "req_pool_alloc need_size p =
     (if need_size > length (rp_free_slots p) then (None, p)
      else (Some (take need_size (rp_free_slots p)), p\<lparr>rp_free_slots := drop need_size (rp_free_slots p)\<rparr>))"

definition req_pool_free :: "nat list \<Rightarrow> req_pool \<Rightarrow> req_pool" where
  "req_pool_free free_index p = p\<lparr>rp_free_slots := rp_free_slots p @ free_index\<rparr>"

definition req_pool_clear :: "req_pool \<Rightarrow> req_pool" where
  "req_pool_clear p = p\<lparr>rp_free_slots := [0..<rp_size p]\<rparr>"

text \<open>\<^verbatim>\<open>req_to_token[row, :n]\<close>.\<close>

definition req_tokens :: "req_pool \<Rightarrow> nat \<Rightarrow> nat \<Rightarrow> int list result" where
  "req_tokens p row n = bind_res (py_nth (rp_req_to_token p) (int row)) (\<lambda>r. Inr (take n r))"

section \<open>Requests\<close>

record req =
  rq_req_pool_idx :: nat
  rq_origin_input_ids :: "token list"
  rq_output_ids :: "token list"
  rq_fill_ids :: "token list"
  rq_extra_key :: "string option"
  rq_priority :: "int option"
  rq_last_node :: nat
  rq_cache_protected_len :: nat
  rq_prefix_indices :: "int list"
  rq_kv_committed_len :: nat
  rq_kv_allocated_len :: nat
  rq_kv_committed_freed :: bool
  rq_kv_overallocated_freed :: bool
  rq_evicted_seqlen_local :: nat

text \<open>\<open>topk\<close> is \<^verbatim>\<open>speculative_eagle_topk\<close> of the server arguments.\<close>

definition pop_committed_kv_cache :: "nat option \<Rightarrow> req \<Rightarrow> (nat \<times> req) result" where
  "pop_committed_kv_cache topk r =
     (if topk = None \<or> topk = Some 1
      then py_assert (\<not> rq_kv_committed_freed r) (Inr (rq_kv_committed_len r, r\<lparr>rq_kv_committed_freed := True\<rparr>))
      else Inr (length (rq_origin_input_ids r) + (length (rq_output_ids r) - 1), r))"

definition pop_overallocated_kv_cache :: "req \<Rightarrow> (nat \<times> nat \<times> req) result" where
  "pop_overallocated_kv_cache r =
     py_assert (\<not> rq_kv_overallocated_freed r)
       (Inr (rq_kv_committed_len r, rq_kv_allocated_len r, r\<lparr>rq_kv_overallocated_freed := True\<rparr>))"

section \<open>The radix cache and its requests\<close>

definition page_align_keys :: "radix_config \<Rightarrow> token list \<Rightarrow> token list" where
  "page_align_keys cfg key =
     (if rc_page_size cfg = 1 then key else take (length key div rc_page_size cfg * rc_page_size cfg) key)"

text \<open>The keys of a request: \<^verbatim>\<open>fill_ids\<close>, as bigrams for EAGLE, in whole pages.\<close>

definition req_keys :: "radix_config \<Rightarrow> req \<Rightarrow> token list" where
  "req_keys cfg r = page_align_keys cfg (if rc_is_eagle cfg then convert_to_bigram_key (rq_fill_ids r) else rq_fill_ids r)"

definition req_radix_key :: "radix_config \<Rightarrow> req \<Rightarrow> radix_key" where
  "req_radix_key cfg r = \<lparr>rk_token_ids = req_keys cfg r, rk_extra_key = rq_extra_key r, rk_is_bigram = rc_is_eagle cfg\<rparr>"

definition req_priority :: "req \<Rightarrow> int" where
  "req_priority r = (case rq_priority r of None \<Rightarrow> 0 | Some p \<Rightarrow> p)"

text \<open>\<^verbatim>\<open>xs[a:b]\<close> for bounds that are not negative.\<close>

definition row_slice :: "nat \<Rightarrow> nat \<Rightarrow> 'a list \<Rightarrow> 'a list" where
  "row_slice a b xs = drop a (take b xs)"

definition cache_finished_req ::
  "radix_config \<Rightarrow> nat option \<Rightarrow> (int list \<Rightarrow> 's \<Rightarrow> 's result) \<Rightarrow> bool \<Rightarrow> req \<Rightarrow> radix_cache \<Rightarrow> req_pool \<Rightarrow> 's
   \<Rightarrow> (req \<times> radix_cache \<times> req_pool \<times> 's) result" where
  "cache_finished_req cfg topk free is_insert r rx p s =
     (let is_insert = (if rc_disable_finished_insert cfg then False else is_insert) in
      bind_res (pop_committed_kv_cache topk r) (\<lambda>(kv_committed_len, r).
      if rc_disable cfg then
        bind_res (req_tokens p (rq_req_pool_idx r) kv_committed_len) (\<lambda>kv_indices.
        bind_res (free kv_indices s) (\<lambda>s.
        Inr (r, rx, req_pool_free [rq_req_pool_idx r] p, s)))
      else
        let token_ids = take kv_committed_len (rq_origin_input_ids r @ rq_output_ids r) in
        bind_res (req_tokens p (rq_req_pool_idx r) (length token_ids)) (\<lambda>kv_indices.
        let keys = req_keys cfg r; vals = take (length keys) kv_indices in
        bind_res (if is_insert
                  then bind_res (radix_insert cfg (req_radix_key cfg r) vals (req_priority r) rx) (\<lambda>(new_prefix_len, rx).
                       bind_res (free (row_slice (rq_cache_protected_len r) new_prefix_len kv_indices) s) (\<lambda>s. Inr (rx, s)))
                  else bind_res (free (row_slice (rq_cache_protected_len r) (length keys) kv_indices) s) (\<lambda>s. Inr (rx, s))) (\<lambda>(rx, s).
        bind_res (free (drop (length keys) kv_indices) s) (\<lambda>s.
        let p = req_pool_free [rq_req_pool_idx r] p in
        bind_res (dec_lock_ref cfg (rq_last_node r) rx) (\<lambda>(_, rx).
        Inr (r, rx, p, s)))))))"

definition cache_unfinished_req ::
  "radix_config \<Rightarrow> (int list \<Rightarrow> 's \<Rightarrow> 's result) \<Rightarrow> req \<Rightarrow> radix_cache \<Rightarrow> req_pool \<Rightarrow> 's \<Rightarrow> (req \<times> radix_cache \<times> req_pool \<times> 's) result" where
  "cache_unfinished_req cfg free r rx p s =
     (if rc_disable cfg then Inr (r, rx, p, s)
      else bind_res (req_tokens p (rq_req_pool_idx r) (length (rq_fill_ids r))) (\<lambda>kv_indices.
        let keys = req_keys cfg r; vals = take (length keys) kv_indices in
        bind_res (radix_insert cfg (req_radix_key cfg r) vals (req_priority r) rx) (\<lambda>(new_prefix_len, rx).
        bind_res (free (row_slice (rq_cache_protected_len r) new_prefix_len kv_indices) s) (\<lambda>s.
        bind_res (match_prefix cfg (req_radix_key cfg r) rx) (\<lambda>((new_indices, new_last_node), rx).
        py_assert (length new_indices = length keys)
          (bind_res (req_pool_write (rq_req_pool_idx r) (rq_cache_protected_len r) (length new_indices)
                       (drop (rq_cache_protected_len r) new_indices) p) (\<lambda>p.
           bind_res (dec_lock_ref cfg (rq_last_node r) rx) (\<lambda>(_, rx).
           bind_res (inc_lock_ref cfg new_last_node rx) (\<lambda>(_, rx).
           Inr (r\<lparr>rq_cache_protected_len := length new_indices,
                  rq_prefix_indices := (if length new_indices < length kv_indices then new_indices @ drop (length new_indices) kv_indices else new_indices),
                  rq_last_node := new_last_node\<rparr>, rx, p, s))))))))))"

section \<open>The chunk cache\<close>

record chunk_cache =
  cc_protected_size :: int

definition chunk_cache_finished_req ::
  "nat option \<Rightarrow> (int list \<Rightarrow> 's \<Rightarrow> 's result) \<Rightarrow> req \<Rightarrow> chunk_cache \<Rightarrow> req_pool \<Rightarrow> 's \<Rightarrow> (req \<times> chunk_cache \<times> req_pool \<times> 's) result" where
  "chunk_cache_finished_req topk free r cc p s =
     bind_res (pop_committed_kv_cache topk r) (\<lambda>(kv_committed_len, r).
     bind_res (req_tokens p (rq_req_pool_idx r) kv_committed_len) (\<lambda>kv_indices.
     let p = req_pool_free [rq_req_pool_idx r] p in
     bind_res (free kv_indices s) (\<lambda>s.
     Inr (r, cc\<lparr>cc_protected_size := cc_protected_size cc - int (length (rq_prefix_indices r))\<rparr>, p, s))))"

definition chunk_cache_unfinished_req :: "req \<Rightarrow> chunk_cache \<Rightarrow> req_pool \<Rightarrow> (req \<times> chunk_cache) result" where
  "chunk_cache_unfinished_req r cc p =
     bind_res (req_tokens p (rq_req_pool_idx r) (length (rq_fill_ids r))) (\<lambda>kv_indices.
     Inr (r\<lparr>rq_prefix_indices := kv_indices\<rparr>,
          cc\<lparr>cc_protected_size := cc_protected_size cc + int (length kv_indices) - int (length (rq_prefix_indices r))\<rparr>))"

text \<open>\<^verbatim>\<open>SWAChunkCache\<close>: the slots of the sliding window that fall out of the attention chunk.\<close>

definition evict_swa :: "req \<Rightarrow> nat \<Rightarrow> nat \<Rightarrow> req_pool \<Rightarrow> swa_allocator \<Rightarrow> (req \<times> swa_allocator) result" where
  "evict_swa r prelen attention_chunk_size p s =
     (if prelen \<ge> rq_evicted_seqlen_local r + attention_chunk_size then
        bind_res (py_floordiv (int prelen) (int attention_chunk_size)) (\<lambda>q.
        let new_evicted_seqlen_local = attention_chunk_size * nat q in
        bind_res (req_tokens p (rq_req_pool_idx r) new_evicted_seqlen_local) (\<lambda>row.
        bind_res (free_swa (drop (rq_evicted_seqlen_local r) row) s) (\<lambda>s.
        Inr (r\<lparr>rq_evicted_seqlen_local := new_evicted_seqlen_local\<rparr>, s))))
      else Inr (r, s))"

section \<open>Allocation and release\<close>

text \<open>An allocator by its methods, for the operations that work with any of them.\<close>

record 's kv_allocator =
  ka_available :: "'s \<Rightarrow> nat"
  ka_alloc :: "nat \<Rightarrow> 's \<Rightarrow> (int list option \<times> 's) result"
  ka_free :: "int list \<Rightarrow> 's \<Rightarrow> 's result"
  ka_backup :: "'s \<Rightarrow> int list \<times> int list"
  ka_page_size :: "'s \<Rightarrow> nat"
  ka_alloc_extend :: "int list \<Rightarrow> int list \<Rightarrow> int list \<Rightarrow> nat \<Rightarrow> 's \<Rightarrow> (int list option \<times> 's) result"
  ka_alloc_decode :: "int list \<Rightarrow> int list \<Rightarrow> 's \<Rightarrow> (int list option \<times> 's) result"

datatype tree_cache = NoTree | ChunkTree chunk_cache | RadixTree radix_cache

text \<open>The standard allocators; the hybrid ones come with other caches.\<close>

definition evict_from_tree_cache ::
  "radix_config \<Rightarrow> strategy \<Rightarrow> (heap_entry list \<Rightarrow> nat) \<Rightarrow> 's kv_allocator \<Rightarrow> tree_cache \<Rightarrow> nat \<Rightarrow> 's \<Rightarrow> (tree_cache \<times> 's) result" where
  "evict_from_tree_cache cfg strat pick ka tree num_tokens s =
     (case tree of
        RadixTree rx \<Rightarrow>
          if ka_available ka s < num_tokens
          then bind_res (evict cfg strat pick (ka_free ka) num_tokens rx s) (\<lambda>(_, rx, s). Inr (RadixTree rx, s))
          else Inr (tree, s)
      | _ \<Rightarrow> Inr (tree, s))"

definition alloc_token_slots ::
  "radix_config \<Rightarrow> strategy \<Rightarrow> (heap_entry list \<Rightarrow> nat) \<Rightarrow> 's kv_allocator \<Rightarrow> bool \<Rightarrow> tree_cache \<Rightarrow> nat \<Rightarrow> 's
   \<Rightarrow> (int list \<times> (int list \<times> int list) option \<times> tree_cache \<times> 's) result" where
  "alloc_token_slots cfg strat pick ka with_backup tree num_tokens s =
     (if tree = NoTree then Inl AttributeError
      else bind_res (evict_from_tree_cache cfg strat pick ka tree num_tokens s) (\<lambda>(tree, s).
        let state = (if with_backup then Some (ka_backup ka s) else None) in
        bind_res (ka_alloc ka num_tokens s) (\<lambda>(out_cache_loc, s).
        case out_cache_loc of None \<Rightarrow> Inl RuntimeError | Some locs \<Rightarrow> Inr (locs, state, tree, s))))"

definition alloc_req_slots :: "req_pool \<Rightarrow> nat \<Rightarrow> (nat list \<times> req_pool) result" where
  "alloc_req_slots p num_reqs =
     (case req_pool_alloc num_reqs p of (None, _) \<Rightarrow> Inl RuntimeError | (Some ixs, p) \<Rightarrow> Inr (ixs, p))"

definition ceil_align :: "nat \<Rightarrow> nat \<Rightarrow> nat" where
  "ceil_align x y = (x + y - 1) div y * y"

text \<open>\<open>spec\<close> says that a speculative algorithm is configured, \<open>page_size\<close> is the page size of the server arguments.\<close>

definition tree_cache_finished_req ::
  "radix_config \<Rightarrow> nat option \<Rightarrow> (int list \<Rightarrow> 's \<Rightarrow> 's result) \<Rightarrow> bool \<Rightarrow> req \<Rightarrow> tree_cache \<Rightarrow> req_pool \<Rightarrow> 's
   \<Rightarrow> (req \<times> tree_cache \<times> req_pool \<times> 's) result" where
  "tree_cache_finished_req cfg topk free is_insert r tree p s =
     (case tree of
        NoTree \<Rightarrow> Inl AttributeError
      | ChunkTree cc \<Rightarrow> bind_res (chunk_cache_finished_req topk free r cc p s) (\<lambda>(r, cc, p, s). Inr (r, ChunkTree cc, p, s))
      | RadixTree rx \<Rightarrow> bind_res (cache_finished_req cfg topk free is_insert r rx p s) (\<lambda>(r, rx, p, s). Inr (r, RadixTree rx, p, s)))"

definition release_kv_cache ::
  "radix_config \<Rightarrow> nat option \<Rightarrow> nat \<Rightarrow> bool \<Rightarrow> (int list \<Rightarrow> 's \<Rightarrow> 's result) \<Rightarrow> bool \<Rightarrow> req \<Rightarrow> tree_cache \<Rightarrow> req_pool \<Rightarrow> 's
   \<Rightarrow> (req \<times> tree_cache \<times> req_pool \<times> 's) result" where
  "release_kv_cache cfg topk page_size spec free is_insert r tree p s =
     bind_res (tree_cache_finished_req cfg topk free is_insert r tree p s) (\<lambda>(r, tree, p, s).
     bind_res (pop_overallocated_kv_cache r) (\<lambda>(start_p, end_p, r).
     py_assert (\<not> spec \<longrightarrow> start_p = end_p)
       (let start_p = (if page_size > 1 then ceil_align start_p page_size else start_p) in
        if start_p \<ge> end_p then Inr (r, tree, p, s)
        else bind_res (req_tokens p (rq_req_pool_idx r) end_p) (\<lambda>row.
             bind_res (free (drop start_p row) s) (\<lambda>s. Inr (r, tree, p, s))))))"

text \<open>
  The two ranges that a release frees, the committed tokens and the over-allocated ones from the next page on, do not overlap; without
  over-allocation the release is that of the cache.
\<close>

lemma ceil_align_bounds:
  assumes "0 < y"
  shows "x \<le> ceil_align x y" and "ceil_align x y < x + y" and "y dvd ceil_align x y"
proof -
  have *: "(x + y - 1) div y * y + (x + y - 1) mod y = x + y - 1" by simp
  moreover have "(x + y - 1) mod y < y" using assms by simp
  ultimately show "x \<le> ceil_align x y" "ceil_align x y < x + y" unfolding ceil_align_def using assms by linarith+
qed (simp add: ceil_align_def)

lemma release_committed_only:
  assumes "tree_cache_finished_req cfg topk free is_insert r tree p s = Inr (r', tree', p', s')"
    and "rq_kv_committed_len r' = rq_kv_allocated_len r'" and "\<not> rq_kv_overallocated_freed r'"
  shows "release_kv_cache cfg topk page_size spec free is_insert r tree p s = Inr (r'\<lparr>rq_kv_overallocated_freed := True\<rparr>, tree', p', s')"
  using assms ceil_align_bounds(1)[of page_size "rq_kv_committed_len r'"]
  by (auto simp: release_kv_cache_def pop_overallocated_kv_cache_def Let_def)

lemma chunk_cache_balance:
  assumes "chunk_cache_unfinished_req r cc p = Inr (r1, cc1)" and "chunk_cache_finished_req topk free r1 cc1 p s = Inr (r2, cc2, p2, s2)"
  shows "cc_protected_size cc2 = cc_protected_size cc - int (length (rq_prefix_indices r))"
  using assms by (auto simp: chunk_cache_unfinished_req_def chunk_cache_finished_req_def pop_committed_kv_cache_def Let_def
      split: sum.splits if_splits prod.splits)

lemma req_pool_alloc_free:
  assumes "alloc_req_slots p n = Inr (ixs, p')"
  shows "length ixs = n" and "mset (rp_free_slots (req_pool_free ixs p')) = mset (rp_free_slots p)" and "rp_req_to_token p' = rp_req_to_token p"
  using assms mset_append[of "take n (rp_free_slots p)" "drop n (rp_free_slots p)"]
  by (auto simp: alloc_req_slots_def req_pool_alloc_def req_pool_free_def ac_simps split: if_splits)

section \<open>Who owns a slot\<close>

text \<open>
  The slots that are out are those of the tree, \<open>vs\<close>, and those that only a request knows, \<open>priv\<close>; no slot is in two places and none is lost.
\<close>

definition slots_ok :: "int list \<Rightarrow> int list \<Rightarrow> allocator \<Rightarrow> bool" where
  "slots_ok vs priv a \<longleftrightarrow> token_inv a \<and> distinct (vs @ priv) \<and> token_held a = set (vs @ priv) \<and>
     token_available_size a + length (vs @ priv) = al_size a"

lemma slots_ok_mset: "mset (vs @ priv) = mset (vs' @ priv') \<Longrightarrow> slots_ok vs priv a = slots_ok vs' priv' a"
  unfolding slots_ok_def by (metis mset_eq_imp_distinct_iff mset_eq_length mset_eq_setD)

lemma free_private:
  assumes "slots_ok vs (xs @ priv) a"
  obtains a' where "token_free xs a = Inr a'" "slots_ok vs priv a'" "al_size a' = al_size a"
proof -
  have d: "distinct xs" "set xs \<subseteq> token_held a" using assms by (auto simp: slots_ok_def)
  obtain a' where a': "token_free xs a = Inr a'" "token_inv a'" "al_size a' = al_size a" "token_held a' = token_held a - set xs"
      "token_available_size a' = token_available_size a + card (set xs)"
    using token_free_held[of a xs] assms d by (auto simp: slots_ok_def)
  moreover have "slots_ok vs priv a'"
    using assms a'(2-5) d(1) by (auto simp: slots_ok_def distinct_card)
  ultimately show ?thesis using that by blast
qed

lemma tree_values_cached: "mset (tree_values (rx_root rx)) = image_mset (\<lambda>(e, p, s). s) (cached rx)"
  by (simp add: cached_def tree_values_entries[of _ "[]"])

lemma new_entries_slots: "length vals = length ks \<Longrightarrow> map (\<lambda>(e, p, s). s) (new_entries e ks vals n pre) = drop n vals"
  by (rule nth_equalityI) (auto simp: new_entries_def)

lemma unlock_cached:
  assumes "unlock (rx_root rx') = unlock (rx_root rx)"
  shows "cached rx' = cached rx" "tree_values (rx_root rx') = tree_values (rx_root rx)" "reaches (rx_root rx') vals i = reaches (rx_root rx) vals i"
  using assms unlock_entries[of "[]"] unlock_reaches[of "rx_root rx"] unlock_reaches[of "rx_root rx'"]
  by (metis cached_def, metis tree_values_entries, metis)

lemma lookup_req_key: "lookup_tokens cfg (req_radix_key cfg r) = req_keys cfg r" "rk_extra_key (req_radix_key cfg r) = rq_extra_key r"
    "rk_token_ids (req_radix_key cfg r) = req_keys cfg r"
  by (simp_all add: lookup_tokens_def req_radix_key_def)

lemma req_keys_aligned: "0 < rc_page_size cfg \<Longrightarrow> rc_page_size cfg dvd length (req_keys cfg r)"
  by (auto simp: req_keys_def page_align_keys_def min.absorb2)

text \<open>
  What the cache holds of a request: its first \<open>n\<close> tokens.
\<close>

definition prefix_cached :: "radix_cache \<Rightarrow> string option \<Rightarrow> token list \<Rightarrow> nat \<Rightarrow> bool" where
  "prefix_cached rx e ks n \<longleftrightarrow> n = 0 \<or> (\<exists>s. (e, take n ks, s) \<in># cached rx)"

text \<open>Inserting the keys of a request moves its slots behind the matched prefix to the tree.\<close>

lemma insert_request:
  assumes rx: "rx_ok cfg H rx" and en: "\<not> rc_disable cfg" and len: "length vals = length (req_keys cfg r)"
    and pc: "prefix_cached rx (rq_extra_key r) (req_keys cfg r) k" "k \<le> length (req_keys cfg r)" "rc_page_size cfg dvd k"
    and own: "slots_ok (tree_values (rx_root rx)) (drop k vals @ priv) a"
  obtains n rx' where "radix_insert cfg (req_radix_key cfg r) vals pr rx = Inr (n, rx')" "rx_ok cfg H rx'" "k \<le> n" "n \<le> length vals"
    "cached rx' = cached rx + mset (new_entries (rq_extra_key r) (req_keys cfg r) vals n [])"
    "slots_ok (tree_values (rx_root rx')) (drop k (take n vals) @ priv) a"
proof -
  have ps: "0 < rc_page_size cfg" using rx by (simp add: rx_ok_def)
  have le: "length (lookup_tokens cfg (req_radix_key cfg r)) \<le> length vals" using len by (simp add: lookup_req_key)
  obtain vs rx' where i: "radix_insert cfg (req_radix_key cfg r) vals pr rx = Inr (length vs, rx')" "rx_ok cfg H rx'"
    "longest_cached (rc_page_size cfg) (set_mset (cached rx)) (rq_extra_key r) [] (req_keys cfg r) vs"
    "cached rx' = cached rx + mset (new_entries (rq_extra_key r) (req_keys cfg r) vals (length vs) [])"
    using insert_spec[OF rx en _ le, of pr] req_keys_aligned[OF ps] len unfolding lookup_req_key by metis
  have k: "k \<le> length vs"
  proof (rule ccontr)
    assume "\<not> k \<le> length vs"
    then show False using i(3) pc by (auto simp: longest_cached_def prefix_cached_def)
  qed
  have n: "length vs \<le> length vals" using i(3) len by (simp add: longest_cached_def)
  have "mset (tree_values (rx_root rx')) = mset (tree_values (rx_root rx)) + mset (drop (length vs) vals)"
    unfolding tree_values_cached i(4) image_mset_union using new_entries_slots[OF len] by (metis mset_map)
  moreover have "drop k vals = drop k (take (length vs) vals) @ drop (length vs) vals"
    using k n by (metis append_take_drop_id drop_append length_take min.absorb2 drop_eq_Nil2 append_Nil2 diff_is_0_eq drop0)
  ultimately have "mset (tree_values (rx_root rx') @ (drop k (take (length vs) vals) @ priv)) = mset (tree_values (rx_root rx) @ (drop k vals @ priv))"
    by simp
  then have "slots_ok (tree_values (rx_root rx')) (drop k (take (length vs) vals) @ priv) a" using own slots_ok_mset by blast
  then show ?thesis using that[OF i(1,2) k n i(4)] by blast
qed

lemma req_row: "req_tokens p row n = Inr xs \<Longrightarrow> xs = take n (rp_req_to_token p ! row) \<and> row < length (rp_req_to_token p)"
  by (auto simp: req_tokens_def py_nth_def split: if_splits)

lemma release_lock:
  assumes "rx_ok cfg H rx" and "\<not> rc_disable cfg" and "0 < H i"
  obtains delta rx' where "dec_lock_ref cfg i rx = Inr (delta, rx')" "rx_ok cfg (H(i := H i - 1)) rx'" "unlock (rx_root rx') = unlock (rx_root rx)"
proof -
  have i: "i \<in> set (ids (rx_root rx))" using assms(1,3) by (simp add: rx_ok_def)
  show ?thesis
    by (rule change_lock_spec[OF assms(1,2) i dec_lock_step, of "H(i := H i - 1)"]) (use that assms(3) in \<open>auto simp: dec_lock_ref_def\<close>)
qed

lemma take_lock:
  assumes "rx_ok cfg H rx" and "\<not> rc_disable cfg" and "i \<in> set (ids (rx_root rx))"
  obtains delta rx' where "inc_lock_ref cfg i rx = Inr (delta, rx')" "rx_ok cfg (H(i := Suc (H i))) rx'" "unlock (rx_root rx') = unlock (rx_root rx)"
  by (rule change_lock_spec[OF assms inc_lock_step, of "H(i := Suc (H i))"]) (use that in \<open>auto simp: inc_lock_ref_def\<close>)

lemma reaches_id: "reaches t vals i \<Longrightarrow> i \<in> set (ids t)"
  by (induction rule: reaches.induct) force+

text \<open>The state of a request that is about to finish: its row, the lengths of its parts, and the lock that it holds.\<close>

definition req_ready :: "radix_config \<Rightarrow> (nat \<Rightarrow> nat) \<Rightarrow> radix_cache \<Rightarrow> req_pool \<Rightarrow> req \<Rightarrow> nat \<Rightarrow> bool" where
  "req_ready cfg H rx p r n \<longleftrightarrow>
     rq_req_pool_idx r < length (rp_req_to_token p) \<and> n \<le> length (rp_req_to_token p ! rq_req_pool_idx r) \<and> length (req_keys cfg r) \<le> n \<and>
     rq_cache_protected_len r \<le> length (req_keys cfg r) \<and> rc_page_size cfg dvd rq_cache_protected_len r \<and>
     prefix_cached rx (rq_extra_key r) (req_keys cfg r) (rq_cache_protected_len r) \<and> 0 < H (rq_last_node r)"

abbreviation req_row_of :: "req_pool \<Rightarrow> req \<Rightarrow> int list" where
  "req_row_of p r \<equiv> rp_req_to_token p ! rq_req_pool_idx r"

lemma cut_slots: "k \<le> n \<Longrightarrow> n \<le> l \<Longrightarrow> l \<le> length xs \<Longrightarrow> drop k (take n xs) @ drop n (take l xs) @ drop l xs = drop k xs"
  by (metis (no_types, lifting) append.assoc append_take_drop_id diff_is_0_eq drop0 drop_append length_take min.absorb2 order_trans)

lemma finished_request:
  assumes rx: "rx_ok cfg H rx" and en: "\<not> rc_disable cfg" "\<not> rc_disable_finished_insert cfg" and nf: "\<not> rq_kv_committed_freed r"
    and rdy: "req_ready cfg H rx p r (rq_kv_committed_len r)" and tot: "rq_kv_committed_len r \<le> length (rq_origin_input_ids r @ rq_output_ids r)"
    and kv: "kv = take (rq_kv_committed_len r) (req_row_of p r)"
    and own: "slots_ok (tree_values (rx_root rx)) (drop (rq_cache_protected_len r) kv @ priv) a"
  obtains n r' rx' p' a' where "cache_finished_req cfg None token_free True r rx p a = Inr (r', rx', p', a')"
    "rx_ok cfg (H(rq_last_node r := H (rq_last_node r) - 1)) rx'" "slots_ok (tree_values (rx_root rx')) priv a'"
    "rq_cache_protected_len r \<le> n" "n \<le> length (req_keys cfg r)"
    "cached rx' = cached rx + mset (new_entries (rq_extra_key r) (req_keys cfg r) kv n [])"
    "p' = req_pool_free [rq_req_pool_idx r] p"
proof -
  let ?ks = "req_keys cfg r" and ?k = "rq_cache_protected_len r"
  let ?vals = "take (length ?ks) kv" and ?r = "r\<lparr>rq_kv_committed_freed := True\<rparr>"
  have lk: "length kv = rq_kv_committed_len r" "length ?ks \<le> length kv" "?k \<le> length ?ks" using rdy kv by (auto simp: req_ready_def)
  have ks: "req_keys cfg ?r = ?ks" "req_radix_key cfg ?r = req_radix_key cfg r" "req_priority ?r = req_priority r"
    by (simp_all add: req_keys_def req_radix_key_def req_priority_def)
  have row: "req_tokens p (rq_req_pool_idx r) (length (take (rq_kv_committed_len r) (rq_origin_input_ids r @ rq_output_ids r))) = Inr kv"
  proof -
    have "length (take (rq_kv_committed_len r) (rq_origin_input_ids r @ rq_output_ids r)) = rq_kv_committed_len r" using tot by (rule length_take[THEN trans, OF min.absorb2])
    then show ?thesis using rdy kv by (simp only: req_tokens_def) (simp add: req_ready_def py_nth_nat)
  qed
  have "mset (tree_values (rx_root rx) @ (drop ?k kv @ priv)) = mset (tree_values (rx_root rx) @ (drop ?k ?vals @ (drop (length ?ks) kv @ priv)))"
    using cut_slots[of ?k "length ?ks" "length kv" kv] lk by (metis append.assoc append_Nil2 drop_all le_refl take_all)
  then have own1: "slots_ok (tree_values (rx_root rx)) (drop ?k ?vals @ (drop (length ?ks) kv @ priv)) a" using own slots_ok_mset by blast
  have lv: "length ?vals = length ?ks" using lk(2) by simp
  have pc: "prefix_cached rx (rq_extra_key r) ?ks ?k" "?k \<le> length ?ks" "rc_page_size cfg dvd ?k" using rdy by (simp_all add: req_ready_def)
  obtain n rx1 where i: "radix_insert cfg (req_radix_key cfg r) ?vals (req_priority r) rx = Inr (n, rx1)" "rx_ok cfg H rx1" "?k \<le> n" "n \<le> length ?ks"
      "cached rx1 = cached rx + mset (new_entries (rq_extra_key r) ?ks ?vals n [])"
      "slots_ok (tree_values (rx_root rx1)) (drop ?k (take n ?vals) @ (drop (length ?ks) kv @ priv)) a"
    using insert_request[OF rx en(1) lv pc own1, of "req_priority r"] lv by metis
  have sl: "drop ?k (take n ?vals) = row_slice ?k n kv" using i(4) by (simp add: row_slice_def min.absorb1)
  obtain a1 where a1: "token_free (row_slice ?k n kv) a = Inr a1" "slots_ok (tree_values (rx_root rx1)) (drop (length ?ks) kv @ priv) a1"
    using free_private[OF i(6)[unfolded sl]] by metis
  obtain a2 where a2: "token_free (drop (length ?ks) kv) a1 = Inr a2" "slots_ok (tree_values (rx_root rx1)) priv a2"
    using free_private[OF a1(2)] by metis
  obtain delta rx2 where l: "dec_lock_ref cfg (rq_last_node r) rx1 = Inr (delta, rx2)" "rx_ok cfg (H(rq_last_node r := H (rq_last_node r) - 1)) rx2"
      "unlock (rx_root rx2) = unlock (rx_root rx1)"
    using release_lock[OF i(2) en(1), of "rq_last_node r"] rdy unfolding req_ready_def by metis
  have "cache_finished_req cfg None token_free True r rx p a = Inr (?r, rx2, req_pool_free [rq_req_pool_idx r] p, a2)"
    using en nf row i(1) a1(1) a2(1) l(1) by (simp add: cache_finished_req_def pop_committed_kv_cache_def Let_def ks)
  moreover have "new_entries (rq_extra_key r) ?ks ?vals n [] = new_entries (rq_extra_key r) ?ks kv n []" by (simp add: new_entries_def)
  ultimately show ?thesis using that l(2) a2(2) i(3,4,5) unlock_cached[OF l(3)] by simp
qed

lemma unfinished_request:
  assumes rx: "rx_ok cfg H rx" and en: "\<not> rc_disable cfg" and rdy: "req_ready cfg H rx p r (length (rq_fill_ids r))"
    and kv: "kv = take (length (rq_fill_ids r)) (req_row_of p r)"
    and own: "slots_ok (tree_values (rx_root rx)) (drop (rq_cache_protected_len r) kv @ priv) a"
  obtains us i rx' a' where
    "cache_unfinished_req cfg token_free r rx p a =
       Inr (r\<lparr>rq_cache_protected_len := length (req_keys cfg r), rq_prefix_indices := us @ drop (length us) kv, rq_last_node := i\<rparr>, rx',
            p\<lparr>rp_req_to_token := (rp_req_to_token p)[rq_req_pool_idx r :=
                take (rq_cache_protected_len r) (req_row_of p r) @ drop (rq_cache_protected_len r) us @ drop (length us) (req_row_of p r)]\<rparr>, a')"
    "rx_ok cfg (\<lambda>j. (H(rq_last_node r := H (rq_last_node r) - 1)) j + (if j = i then 1 else 0)) rx'"
    "slots_ok (tree_values (rx_root rx')) (drop (length (req_keys cfg r)) kv @ priv) a'"
    "length us = length (req_keys cfg r)" "reaches (rx_root rx') us i" "prefix_cached rx' (rq_extra_key r) (req_keys cfg r) (length (req_keys cfg r))"
proof -
  let ?ks = "req_keys cfg r" and ?k = "rq_cache_protected_len r" and ?row = "req_row_of p r" and ?key = "req_radix_key cfg r"
  let ?vals = "take (length ?ks) kv"
  have lk: "length kv = length (rq_fill_ids r)" "length ?ks \<le> length kv" "?k \<le> length ?ks" using rdy kv by (auto simp: req_ready_def)
  have row: "req_tokens p (rq_req_pool_idx r) (length (rq_fill_ids r)) = Inr kv" using rdy kv by (simp add: req_tokens_def req_ready_def py_nth_nat)
  have "mset (tree_values (rx_root rx) @ (drop ?k kv @ priv)) = mset (tree_values (rx_root rx) @ (drop ?k ?vals @ (drop (length ?ks) kv @ priv)))"
    using cut_slots[of ?k "length ?ks" "length kv" kv] lk by (metis append.assoc append_Nil2 drop_all le_refl take_all)
  then have own1: "slots_ok (tree_values (rx_root rx)) (drop ?k ?vals @ (drop (length ?ks) kv @ priv)) a" using own slots_ok_mset by blast
  have lv: "length ?vals = length ?ks" using lk(2) by simp
  have pc: "prefix_cached rx (rq_extra_key r) ?ks ?k" "?k \<le> length ?ks" "rc_page_size cfg dvd ?k" using rdy by (simp_all add: req_ready_def)
  obtain n rx1 where i: "radix_insert cfg ?key ?vals (req_priority r) rx = Inr (n, rx1)" "rx_ok cfg H rx1" "?k \<le> n" "n \<le> length ?ks"
      "slots_ok (tree_values (rx_root rx1)) (drop ?k (take n ?vals) @ (drop (length ?ks) kv @ priv)) a"
    using insert_request[OF rx en lv pc own1, of "req_priority r"] lv by metis
  have sl: "drop ?k (take n ?vals) = row_slice ?k n kv" using i(4) by (simp add: row_slice_def min.absorb1)
  obtain a1 where a1: "token_free (row_slice ?k n kv) a = Inr a1" "slots_ok (tree_values (rx_root rx1)) (drop (length ?ks) kv @ priv) a1"
    using free_private[OF i(5)[unfolded sl]] by metis
  have ps: "0 < rc_page_size cfg" using rx by (simp add: rx_ok_def)
  have "length ?ks \<le> length ?vals" "?ks = ?ks \<Longrightarrow> length ?vals = length ?ks" using lv by simp_all
  from match_after_insert[OF rx en, of ?key ?vals, unfolded lookup_req_key, OF req_keys_aligned[OF ps] this i(1) _ lookup_req_key(1)]
  obtain us j rx2 where m: "match_prefix cfg ?key rx1 = Inr ((us, j), rx2)" "length us = length ?ks" "rx_ok cfg H rx2" "cached rx2 = cached rx1"
      "reaches (rx_root rx2) us j" "\<And>j. j < length us \<Longrightarrow> (rq_extra_key r, take (Suc j) ?ks, us ! j) \<in># cached rx1"
    by (auto simp: lookup_req_key)
  have w: "req_pool_write (rq_req_pool_idx r) ?k (length us) (drop ?k us) p =
      Inr (p\<lparr>rp_req_to_token := (rp_req_to_token p)[rq_req_pool_idx r := take ?k ?row @ drop ?k us @ drop (length us) ?row]\<rparr>)"
    using rdy m(2) lk by (simp add: req_pool_write_def req_ready_def py_nth_nat Let_def min.absorb1)
  obtain d1 rx3 where l1: "dec_lock_ref cfg (rq_last_node r) rx2 = Inr (d1, rx3)" "rx_ok cfg (H(rq_last_node r := H (rq_last_node r) - 1)) rx3"
      "unlock (rx_root rx3) = unlock (rx_root rx2)"
    using release_lock[OF m(3) en, of "rq_last_node r"] rdy unfolding req_ready_def by metis
  have "j \<in> set (ids (rx_root rx3))" using reaches_id[OF m(5)] l1(3) unlock_ids by metis
  then obtain d2 rx4 where l2: "inc_lock_ref cfg j rx3 = Inr (d2, rx4)"
      "rx_ok cfg ((H(rq_last_node r := H (rq_last_node r) - 1))(j := Suc ((H(rq_last_node r := H (rq_last_node r) - 1)) j))) rx4"
      "unlock (rx_root rx4) = unlock (rx_root rx3)"
    using take_lock[OF l1(2) en] by metis
  have u: "unlock (rx_root rx4) = unlock (rx_root rx2)" using l1(3) l2(3) by simp
  have H: "(H(rq_last_node r := H (rq_last_node r) - 1))(j := Suc ((H(rq_last_node r := H (rq_last_node r) - 1)) j)) =
      (\<lambda>i. (H(rq_last_node r := H (rq_last_node r) - 1)) i + (if i = j then 1 else 0))" by auto
  have "mset (tree_values (rx_root rx4)) = mset (tree_values (rx_root rx1))" unfolding tree_values_cached using m(4) unlock_cached(1)[OF u] by simp
  then have own4: "slots_ok (tree_values (rx_root rx4)) (drop (length ?ks) kv @ priv) a1"
    using a1(2) slots_ok_mset[of "tree_values (rx_root rx4)" "drop (length ?ks) kv @ priv" "tree_values (rx_root rx1)" "drop (length ?ks) kv @ priv"] by simp
  have "prefix_cached rx4 (rq_extra_key r) ?ks (length ?ks)"
    using m(2,4) m(6)[of "length ?ks - 1"] unlock_cached(1)[OF u] by (cases "?ks = []") (auto simp: prefix_cached_def)
  moreover have "(if length us < length kv then us @ drop (length us) kv else us) = us @ drop (length us) kv" by simp
  then have "cache_unfinished_req cfg token_free r rx p a =
      Inr (r\<lparr>rq_cache_protected_len := length ?ks, rq_prefix_indices := us @ drop (length us) kv, rq_last_node := j\<rparr>, rx4,
        p\<lparr>rp_req_to_token := (rp_req_to_token p)[rq_req_pool_idx r := take ?k ?row @ drop ?k us @ drop (length us) ?row]\<rparr>, a1)"
    using en row i(1) a1(1) m(1,2) w l1(1) l2(1) by (simp add: cache_unfinished_req_def Let_def)
  ultimately show ?thesis using that l2(2)[unfolded H] own4 m(2,5) unlock_cached(3)[OF u] by simp
qed

section \<open>Allocating\<close>

definition token_methods :: "allocator kv_allocator" where
  "token_methods = \<lparr>ka_available = token_available_size, ka_alloc = (\<lambda>n a. Inr (token_alloc n a)), ka_free = token_free, ka_backup = backup_state,
     ka_page_size = al_page_size, ka_alloc_extend = (\<lambda>_ _ _ _ _. Inl NotImplementedError), ka_alloc_decode = (\<lambda>_ _ _. Inl NotImplementedError)\<rparr>"

text \<open>What stays of the cache when slots are needed.\<close>

definition cache_kept :: "(nat \<Rightarrow> nat) \<Rightarrow> radix_cache \<Rightarrow> radix_cache \<Rightarrow> bool" where
  "cache_kept H rx rx' \<longleftrightarrow> cached rx' \<subseteq># cached rx \<and> (\<forall>vals j. 0 < H j \<and> reaches (rx_root rx) vals j \<longrightarrow> reaches (rx_root rx') vals j)"

lemma make_room:
  assumes rx: "rx_ok cfg H rx" and pick: "heap_spec pick" and en: "\<not> rc_disable cfg" and own: "slots_ok (tree_values (rx_root rx)) priv a"
  obtains rx' a' where "evict_from_tree_cache cfg strat pick token_methods (RadixTree rx) num_tokens a = Inr (RadixTree rx', a')" "rx_ok cfg H rx'"
    "slots_ok (tree_values (rx_root rx')) priv a'" "cache_kept H rx rx'"
    "num_tokens \<le> token_available_size a' \<longleftrightarrow> int num_tokens \<le> int (token_available_size a) + rm_evictable_size (rx_meta rx)"
proof (cases "token_available_size a < num_tokens")
  case False
  then have "evict_from_tree_cache cfg strat pick token_methods (RadixTree rx) num_tokens a = Inr (RadixTree rx, a)"
    by (simp add: evict_from_tree_cache_def token_methods_def)
  moreover have "0 \<le> rm_evictable_size (rx_meta rx)" using rx by (simp add: rx_ok_def)
  ultimately show ?thesis using that rx own False by (simp add: cache_kept_def)
next
  case True
  have owns: "tk.tree_owns (al_size a) (token_available_size a + length (tree_values (rx_root rx))) (set priv) (rx_root rx) a"
    using own by (auto simp: tk.tree_owns_def slots_ok_def)
  from tk.evict_owned[OF rx pick en owns, of strat num_tokens]
  obtain n rx' a' where e: "evict cfg strat pick token_free num_tokens rx a = Inr (n, rx', a')" "rx_ok cfg H rx'"
    "tk.tree_owns (al_size a) (token_available_size a + length (tree_values (rx_root rx))) (set priv) (rx_root rx') a'"
    "cached rx' \<subseteq># cached rx" "token_available_size a' = token_available_size a + n" "num_tokens \<le> n \<or> rm_evictable_size (rx_meta rx') = 0"
    "rm_evictable_size (rx_meta rx') = rm_evictable_size (rx_meta rx) - int n"
    "\<And>vals j. 0 < H j \<Longrightarrow> reaches (rx_root rx) vals j \<Longrightarrow> reaches (rx_root rx') vals j" by blast
  have "evict_from_tree_cache cfg strat pick token_methods (RadixTree rx) num_tokens a = Inr (RadixTree rx', a')"
    using True e(1) by (simp add: evict_from_tree_cache_def token_methods_def)
  moreover have "slots_ok (tree_values (rx_root rx')) priv a'" using own e(3) by (auto simp: tk.tree_owns_def slots_ok_def)
  moreover have "0 \<le> rm_evictable_size (rx_meta rx')" using e(2) by (simp add: rx_ok_def)
  then have "num_tokens \<le> token_available_size a' \<longleftrightarrow> int num_tokens \<le> int (token_available_size a) + rm_evictable_size (rx_meta rx)"
    using e(5,6,7) by auto
  ultimately show ?thesis using that e(2,4,8) by (simp add: cache_kept_def)
qed

lemma alloc_private:
  assumes "slots_ok vs priv a"
  shows "n \<le> token_available_size a \<Longrightarrow> \<exists>xs a'. token_alloc n a = (Some xs, a') \<and> length xs = n \<and> slots_ok vs (xs @ priv) a'"
    and "token_available_size a < n \<Longrightarrow> \<exists>a'. token_alloc n a = (None, a')"
proof -
  have inv: "token_inv a" using assms by (simp add: slots_ok_def)
  show "\<exists>xs a'. token_alloc n a = (Some xs, a') \<and> length xs = n \<and> slots_ok vs (xs @ priv) a'" if "n \<le> token_available_size a"
    using token_alloc_enough[OF inv that] assms by (auto simp: slots_ok_def)
  show "\<exists>a'. token_alloc n a = (None, a')" if "token_available_size a < n" using token_alloc_short[OF inv that] by auto
qed

text \<open>
  Allocation with eviction, over the token allocator: \<open>alloc_token_slots\<close> succeeds exactly when the free slots and the evictable
  tokens of the cache suffice, and raises otherwise. It returns slots that neither the tree nor any request has, loses none, and
  evicts only what no lock protects.
\<close>

lemma alloc_token_slots_total:
  assumes rx: "rx_ok cfg H rx" and pick: "heap_spec pick" and en: "\<not> rc_disable cfg" and own: "slots_ok (tree_values (rx_root rx)) priv a"
  shows "if int num_tokens \<le> int (token_available_size a) + rm_evictable_size (rx_meta rx)
    then \<exists>locs state rx' a'. alloc_token_slots cfg strat pick token_methods with_backup (RadixTree rx) num_tokens a = Inr (locs, state, RadixTree rx', a') \<and>
      length locs = num_tokens \<and> slots_ok (tree_values (rx_root rx')) (locs @ priv) a' \<and> cache_kept H rx rx' \<and> rx_ok cfg H rx'
    else alloc_token_slots cfg strat pick token_methods with_backup (RadixTree rx) num_tokens a = Inl RuntimeError"
proof -
  obtain rx' a' where e: "evict_from_tree_cache cfg strat pick token_methods (RadixTree rx) num_tokens a = Inr (RadixTree rx', a')"
    "slots_ok (tree_values (rx_root rx')) priv a'" "cache_kept H rx rx'" "rx_ok cfg H rx'"
    "num_tokens \<le> token_available_size a' \<longleftrightarrow> int num_tokens \<le> int (token_available_size a) + rm_evictable_size (rx_meta rx)"
    using make_room[OF assms, of strat num_tokens] by metis
  show ?thesis
  proof (cases "num_tokens \<le> token_available_size a'")
    case True
    then obtain xs a'' where "token_alloc num_tokens a' = (Some xs, a'')" "length xs = num_tokens" "slots_ok (tree_values (rx_root rx')) (xs @ priv) a''"
      using alloc_private(1)[OF e(2)] by blast
    then show ?thesis using e True by (simp add: alloc_token_slots_def token_methods_def Let_def)
  next
    case False
    then obtain a'' where "token_alloc num_tokens a' = (None, a'')" using alloc_private(2)[OF e(2), of num_tokens] by auto
    then show ?thesis using e False by (simp add: alloc_token_slots_def token_methods_def Let_def)
  qed
qed

section \<open>Properties\<close>

text \<open>
  (C12) A finished request. Its slots behind the protected prefix are moved to the tree or freed, each exactly once; the lock is
  released and the row goes back to the pool. Only the keys made of \<open>fill_ids\<close> enter the cache: the slots of all later tokens, those that the
  request has generated, are freed.
\<close>

theorem finished_req_accounts:
  assumes "radix_run cfg strat pick rx H" and "heap_spec pick" and "0 < rc_page_size cfg" and "\<not> rc_disable cfg" and "\<not> rc_disable_finished_insert cfg"
    and "\<not> rq_kv_committed_freed r" and "req_ready cfg H rx p r (rq_kv_committed_len r)"
    and "rq_kv_committed_len r \<le> length (rq_origin_input_ids r @ rq_output_ids r)" and "kv = take (rq_kv_committed_len r) (req_row_of p r)"
    and "slots_ok (tree_values (rx_root rx)) (drop (rq_cache_protected_len r) kv @ priv) a"
  shows "\<exists>n r' rx' a'. cache_finished_req cfg None token_free True r rx p a = Inr (r', rx', req_pool_free [rq_req_pool_idx r] p, a') \<and>
    rx_ok cfg (H(rq_last_node r := H (rq_last_node r) - 1)) rx' \<and> slots_ok (tree_values (rx_root rx')) priv a' \<and>
    cached rx' = cached rx + mset (new_entries (rq_extra_key r) (req_keys cfg r) kv n []) \<and>
    (\<forall>j. length (req_keys cfg r) \<le> j \<and> j < rq_kv_committed_len r \<longrightarrow> kv ! j \<notin> token_held a')"
proof -
  let ?k = "rq_cache_protected_len r" and ?l = "length (req_keys cfg r)"
  obtain n r' rx' a' where f: "cache_finished_req cfg None token_free True r rx p a = Inr (r', rx', req_pool_free [rq_req_pool_idx r] p, a')"
    "rx_ok cfg (H(rq_last_node r := H (rq_last_node r) - 1)) rx'" "slots_ok (tree_values (rx_root rx')) priv a'" "?k \<le> n" "n \<le> ?l"
    "cached rx' = cached rx + mset (new_entries (rq_extra_key r) (req_keys cfg r) kv n [])"
    using finished_request[OF radix_run_ok[OF assms(1-3)] assms(4-10)] by metis
  have lk: "length kv = rq_kv_committed_len r" "?l \<le> length kv" using assms(7,9) by (auto simp: req_ready_def)
  have "mset (tree_values (rx_root rx')) = mset (tree_values (rx_root rx)) + mset (map (\<lambda>(e, p, s). s) (new_entries (rq_extra_key r) (req_keys cfg r) kv n []))"
    unfolding tree_values_cached f(6) by simp
  moreover have "map (\<lambda>(e, p, s). s) (new_entries (rq_extra_key r) (req_keys cfg r) kv n []) = drop n (take ?l kv)"
    using lk(2) f(5) by (intro nth_equalityI) (auto simp: new_entries_def)
  ultimately have tv: "set (tree_values (rx_root rx')) = set (tree_values (rx_root rx)) \<union> set (drop n (take ?l kv))"
    by (metis set_mset_mset set_mset_union)
  have "drop ?k kv = drop ?k (take n kv) @ drop n (take ?l kv) @ drop ?l kv" using cut_slots[of ?k n ?l kv] f(4,5) lk(2) by simp
  then have dis: "distinct (tree_values (rx_root rx) @ (drop ?k (take n kv) @ drop n (take ?l kv) @ drop ?l kv) @ priv)"
    using assms(10) by (simp add: slots_ok_def)
  have "kv ! j \<notin> token_held a'" if "?l \<le> j" "j < rq_kv_committed_len r" for j
  proof -
    have "kv ! j \<in> set (drop ?l kv)" using that lk by (metis in_set_conv_nth le_add_diff_inverse length_drop less_diff_conv2 nth_drop add.commute)
    then show ?thesis using dis f(3) tv unfolding slots_ok_def by auto
  qed
  then show ?thesis using f by blast
qed

text \<open>
  (C13) An unfinished request. The keys that have been inserted are found again, so that the assertion of the code holds; duplicates are freed,
  the other slots move to the tree, the row is brought in line with the tree, and the lock moves to the node at
  which the keys end. Afterwards the request protects all of its keys.
\<close>

theorem unfinished_req_accounts:
  assumes "radix_run cfg strat pick rx H" and "heap_spec pick" and "0 < rc_page_size cfg" and "\<not> rc_disable cfg"
    and "req_ready cfg H rx p r (length (rq_fill_ids r))" and "kv = take (length (rq_fill_ids r)) (req_row_of p r)"
    and "slots_ok (tree_values (rx_root rx)) (drop (rq_cache_protected_len r) kv @ priv) a"
  shows "\<exists>us i r' rx' p' a' H'. cache_unfinished_req cfg token_free r rx p a = Inr (r', rx', p', a') \<and>
    rx_ok cfg H' rx' \<and> H' = (\<lambda>j. (H(rq_last_node r := H (rq_last_node r) - 1)) j + (if j = i then 1 else 0)) \<and>
    slots_ok (tree_values (rx_root rx')) (drop (length (req_keys cfg r)) kv @ priv) a' \<and>
    length us = length (req_keys cfg r) \<and> reaches (rx_root rx') us i \<and> rq_last_node r' = i \<and>
    rq_cache_protected_len r' = length (req_keys cfg r) \<and> rq_prefix_indices r' = us @ drop (length us) kv \<and>
    prefix_cached rx' (rq_extra_key r) (req_keys cfg r) (length (req_keys cfg r)) \<and>
    drop (rq_cache_protected_len r) (take (length us) (req_row_of p' r)) = drop (rq_cache_protected_len r) us"
proof -
  let ?k = "rq_cache_protected_len r"
  obtain us i rx' a' where u: "cache_unfinished_req cfg token_free r rx p a =
       Inr (r\<lparr>rq_cache_protected_len := length (req_keys cfg r), rq_prefix_indices := us @ drop (length us) kv, rq_last_node := i\<rparr>, rx',
            p\<lparr>rp_req_to_token := (rp_req_to_token p)[rq_req_pool_idx r := take ?k (req_row_of p r) @ drop ?k us @ drop (length us) (req_row_of p r)]\<rparr>, a')"
    "rx_ok cfg (\<lambda>j. (H(rq_last_node r := H (rq_last_node r) - 1)) j + (if j = i then 1 else 0)) rx'"
    "slots_ok (tree_values (rx_root rx')) (drop (length (req_keys cfg r)) kv @ priv) a'"
    "length us = length (req_keys cfg r)" "reaches (rx_root rx') us i" "prefix_cached rx' (rq_extra_key r) (req_keys cfg r) (length (req_keys cfg r))"
    by (rule unfinished_request[OF radix_run_ok[OF assms(1-3)] assms(4-7)])
  have b: "?k \<le> length us" "?k \<le> length (req_row_of p r)" "rq_req_pool_idx r < length (rp_req_to_token p)"
    using assms(5) u(4) by (auto simp: req_ready_def)
  have "drop ?k (take (length us) (take ?k (req_row_of p r) @ drop ?k us @ drop (length us) (req_row_of p r))) = drop ?k us" using b by (simp add: min.absorb2)
  then show ?thesis using u b(3)
    by (intro exI[of _ us] exI[of _ i] exI[of _ "r\<lparr>rq_cache_protected_len := length (req_keys cfg r), rq_prefix_indices := us @ drop (length us) kv, rq_last_node := i\<rparr>"]
        exI[of _ rx'] exI[of _ "p\<lparr>rp_req_to_token := (rp_req_to_token p)[rq_req_pool_idx r := take ?k (req_row_of p r) @ drop ?k us @ drop (length us) (req_row_of p r)]\<rparr>"]
        exI[of _ a'] exI[of _ "\<lambda>j. (H(rq_last_node r := H (rq_last_node r) - 1)) j + (if j = i then 1 else 0)"] conjI) simp_all
qed

section \<open>An example\<close>

text \<open>A cache that holds two tokens; a request that found them, computed a third and generated two more.\<close>

definition rq_cfg :: radix_config where
  "rq_cfg = \<lparr>rc_disable = False, rc_page_size = 1, rc_enable_kv_cache_events = False, rc_is_eagle = False, rc_disable_finished_insert = False,
     rc_sha256 = (\<lambda>bs. bs), rc_clock = int\<rparr>"

definition rq_rx0 :: radix_cache where
  "rq_rx0 = snd (projr (radix_init rq_cfg ''lru'' 0 0))"

definition rq_rx1 :: radix_cache where
  "rq_rx1 = snd (projr (radix_insert rq_cfg (ex_key [1, 2]) [1, 2] 0 rq_rx0))"

definition rq_rx2 :: radix_cache where
  "rq_rx2 = snd (projr (inc_lock_ref rq_cfg 1 rq_rx1))"

definition rq_pool :: req_pool where
  "rq_pool = \<lparr>rp_size = 1, rp_max_context_len = 6, rp_req_to_token = [[1, 2, 3, 4, 5, 0]], rp_free_slots = []\<rparr>"

definition rq_ex :: req where
  "rq_ex = \<lparr>rq_req_pool_idx = 0, rq_origin_input_ids = map Token [1, 2, 7], rq_output_ids = map Token [8, 9, 10], rq_fill_ids = map Token [1, 2, 7],
     rq_extra_key = None, rq_priority = None, rq_last_node = 1, rq_cache_protected_len = 2, rq_prefix_indices = [1, 2], rq_kv_committed_len = 5,
     rq_kv_allocated_len = 5, rq_kv_committed_freed = False, rq_kv_overallocated_freed = False, rq_evicted_seqlen_local = 0\<rparr>"

definition rq_alloc :: "int list \<Rightarrow> allocator" where
  "rq_alloc free_slots = \<lparr>al_size = 6, al_page_size = 1, al_need_sort = False, al_free_pages = free_slots, al_release_pages = [],
     al_is_not_in_free_group = True, al_free_group = []\<rparr>"

lemma rq_init: "radix_init rq_cfg ''lru'' 0 0 = Inr (LRUStrategy, rq_rx0)"
  by code_simp

lemma rq_insert: "radix_insert rq_cfg (ex_key [1, 2]) [1, 2] 0 rq_rx0 = Inr (0, rq_rx1)"
  by code_simp

lemma rq_lock: "1 \<in> set (ids (rx_root rq_rx1)) \<and> inc_lock_ref rq_cfg 1 rq_rx1 = Inr (- 2, rq_rx2)"
  by code_simp

lemma rq_values: "tree_values (rx_root rq_rx1) = [1, 2]" "tree_values (rx_root rq_rx2) = [1, 2]" "rm_evictable_size (rx_meta rq_rx1) = 2"
  by code_simp+

lemma rq_entries: "entries [] (rx_root rq_rx2) = [(None, map Token [1], 1), (None, map Token [1, 2], 2)]"
  by code_simp

lemma rq_cfg_simps: "rc_page_size rq_cfg = 1" "\<not> rc_disable rq_cfg" "\<not> rc_disable_finished_insert rq_cfg" "\<not> rc_is_eagle rq_cfg"
  by (simp_all add: rq_cfg_def)

lemma rq_run1: "radix_run rq_cfg LRUStrategy first_least rq_rx1 (\<lambda>_. 0)"
  by (rule radix_run.ins[OF radix_run.start[OF rq_init] _ _ rq_insert]) (simp_all add: rq_cfg_simps ex_key_def)

definition rq_H :: "nat \<Rightarrow> nat" where
  "rq_H = (\<lambda>_. 0)(1 := 1)"

lemma rq_run2: "radix_run rq_cfg LRUStrategy first_least rq_rx2 rq_H"
proof -
  have "radix_run rq_cfg LRUStrategy first_least rq_rx2 (if rc_disable rq_cfg then \<lambda>_. 0 else (\<lambda>_. 0)(1 := Suc 0))"
    by (rule radix_run.lock[OF rq_run1]) (use rq_lock in auto)
  then show ?thesis by (simp add: rq_cfg_simps rq_H_def)
qed

lemma rq_keys: "req_keys rq_cfg rq_ex = map Token [1, 2, 7]"
  by (simp add: req_keys_def page_align_keys_def rq_cfg_simps rq_ex_def)

lemma rq_ready: "3 \<le> n \<Longrightarrow> n \<le> 6 \<Longrightarrow> req_ready rq_cfg rq_H rq_rx2 rq_pool rq_ex n"
proof -
  assume "3 \<le> n" "n \<le> 6"
  moreover have "prefix_cached rq_rx2 None (map Token [1, 2, 7]) 2" by (simp add: prefix_cached_def cached_def rq_entries)
  ultimately show ?thesis by (simp add: req_ready_def rq_keys rq_cfg_simps) (simp add: rq_ex_def rq_pool_def rq_H_def)
qed

lemma rq_slots: "slots_ok [1, 2] [3] (rq_alloc [4, 5, 6])" "slots_ok [1, 2] [3, 4, 5] (rq_alloc [6])"
  by (auto simp: slots_ok_def rq_alloc_def token_inv_def pages_ok_def free_set_def token_held_def token_available_size_def)

theorem finished_req_accounts_witness:
  "\<exists>n r' rx' a'. cache_finished_req rq_cfg None token_free True rq_ex rq_rx2 rq_pool (rq_alloc [6]) = Inr (r', rx', req_pool_free [0] rq_pool, a') \<and>
    slots_ok (tree_values (rx_root rx')) [] a' \<and> cached rx' = cached rq_rx2 + mset (new_entries None (map Token [1, 2, 7]) [1, 2, 3, 4, 5] n []) \<and>
    (\<forall>j. length (map Token [1, 2, 7]) \<le> j \<and> j < 5 \<longrightarrow> [1, 2, 3, 4, 5] ! j \<notin> token_held a')"
proof -
  have ex: "rq_kv_committed_len rq_ex = 5" "\<not> rq_kv_committed_freed rq_ex" "rq_cache_protected_len rq_ex = 2" "rq_req_pool_idx rq_ex = 0" "rq_extra_key rq_ex = None"
    "rq_kv_committed_len rq_ex \<le> length (rq_origin_input_ids rq_ex @ rq_output_ids rq_ex)" by (simp_all add: rq_ex_def)
  have kv: "[1, 2, 3, 4, 5] = take (rq_kv_committed_len rq_ex) (req_row_of rq_pool rq_ex)" by (simp add: rq_ex_def rq_pool_def)
  have own: "slots_ok (tree_values (rx_root rq_rx2)) (drop (rq_cache_protected_len rq_ex) [1, 2, 3, 4, 5] @ []) (rq_alloc [6])"
    using rq_slots(2) by (simp add: rq_values ex)
  have rdy: "req_ready rq_cfg rq_H rq_rx2 rq_pool rq_ex (rq_kv_committed_len rq_ex)" unfolding ex by (rule rq_ready) simp_all
  have ps: "0 < rc_page_size rq_cfg" by (simp add: rq_cfg_simps)
  from finished_req_accounts[OF rq_run2 first_least_spec ps rq_cfg_simps(2,3) ex(2) rdy ex(6) kv own]
  show ?thesis unfolding rq_keys ex by blast
qed

theorem unfinished_req_accounts_witness:
  "\<exists>us i r' rx' p' a'. cache_unfinished_req rq_cfg token_free rq_ex rq_rx2 rq_pool (rq_alloc [4, 5, 6]) = Inr (r', rx', p', a') \<and>
    slots_ok (tree_values (rx_root rx')) [] a' \<and> length us = length (map Token [1, 2, 7]) \<and> reaches (rx_root rx') us i \<and> rq_last_node r' = i"
proof -
  have ex: "rq_fill_ids rq_ex = map Token [1, 2, 7]" "rq_cache_protected_len rq_ex = 2" "rq_req_pool_idx rq_ex = 0" by (simp_all add: rq_ex_def)
  have kv: "[1, 2, 3] = take (length (rq_fill_ids rq_ex)) (req_row_of rq_pool rq_ex)" by (simp add: rq_ex_def rq_pool_def)
  have own: "slots_ok (tree_values (rx_root rq_rx2)) (drop (rq_cache_protected_len rq_ex) [1, 2, 3] @ []) (rq_alloc [4, 5, 6])"
    using rq_slots(1) by (simp add: rq_values ex)
  have rdy: "req_ready rq_cfg rq_H rq_rx2 rq_pool rq_ex (length (rq_fill_ids rq_ex))" unfolding ex by (rule rq_ready) simp_all
  have ps: "0 < rc_page_size rq_cfg" by (simp add: rq_cfg_simps)
  have "drop (length (map Token [1, 2, 7])) [1, 2, 3 :: int] @ [] = []" by simp
  from unfinished_req_accounts[OF rq_run2 first_least_spec ps rq_cfg_simps(2) rdy kv own, unfolded rq_keys this]
  show ?thesis by blast
qed

end
