(* ===== verification/Batch_Slots.thy ===== *)
theory Batch_Slots
  imports Radix_Request Kv_Batch
begin

text \<open>
  The slots of a batch (\<^verbatim>\<open>mem_cache/common.py\<close>): allocation for an extend batch and for a decode batch, with the entry of the slots
  into the table of tokens, on the GPU by a Triton kernel and on other backends by a loop, and the look-up of the last slot of each request.

  Tensors on the device and their copies on the CPU are the same list. As in the theory of the batch kernels, the values
  that a load finds behind the end of a tensor and the order of the stores of a launch are fields of \<open>triton\<close>.
\<close>

section \<open>Writing the table\<close>

text \<open>The lanes of the loop over blocks: \<^verbatim>\<open>for i in range(cdiv(n, BLOCK_SIZE))\<close> with the mask \<^verbatim>\<open>offset < n\<close>.\<close>

definition block_lanes :: "nat \<Rightarrow> nat \<Rightarrow> nat list" where
  "block_lanes block_size n =
     concat (map (\<lambda>i. filter (\<lambda>offset. offset < n) (map (\<lambda>j. j + i * block_size) [0..<block_size])) [0..<cdiv block_size n])"

definition write_req_to_token_pool_triton ::
  "triton \<Rightarrow> nat list \<Rightarrow> int list list \<Rightarrow> nat list \<Rightarrow> nat list \<Rightarrow> nat list \<Rightarrow> int list \<Rightarrow> nat \<Rightarrow> nat \<Rightarrow> (int \<times> int) list" where
  "write_req_to_token_pool_triton tr req_pool_indices prefix_tensors pre_lens seq_lens extend_lens out_cache_loc stride pid =
     (let req_pool_index = req_pool_indices ! pid;
          pre_len = pre_lens ! pid;
          seq_len = seq_lens ! pid;
          prefix_tensor = prefix_tensors ! pid;
          cumsum_start = sum_list (map (\<lambda>i. extend_lens ! i) [0..<pid])
      in map (\<lambda>offset. (int (req_pool_index * stride + offset), load_page tr prefix_tensor (int offset))) (block_lanes 512 pre_len) @
         map (\<lambda>offset. (int (req_pool_index * stride + offset + pre_len), load_page tr out_cache_loc (int (cumsum_start + offset))))
           (block_lanes 512 (seq_len - pre_len)))"

text \<open>A launch that writes into the memory of the table, which holds the rows one after the other.\<close>

definition launch_into :: "triton \<Rightarrow> (nat \<Rightarrow> (int \<times> int) list) \<Rightarrow> nat \<Rightarrow> int list \<Rightarrow> int list" where
  "launch_into tr prog programs mem = fold (\<lambda>(i, v) out. if 0 \<le> i then out[nat i := v] else out) (tr_order tr (map prog [0..<programs])) mem"

definition table_rows :: "nat \<Rightarrow> nat \<Rightarrow> 'a list \<Rightarrow> 'a list list" where
  "table_rows n stride mem = map (\<lambda>row. take stride (drop (row * stride) mem)) [0..<n]"

definition write_loop_step ::
  "int list \<Rightarrow> nat list \<Rightarrow> nat list \<Rightarrow> nat list \<Rightarrow> nat list \<Rightarrow> int list list \<Rightarrow> nat \<Rightarrow> nat \<times> req_pool \<Rightarrow> (nat \<times> req_pool) result" where
  "write_loop_step out_cache_loc req_pool_indices prefix_lens seq_lens extend_lens prefix_tensors i = (\<lambda>(pt, p).
     bind_res (py_nth req_pool_indices (int i)) (\<lambda>req_idx.
     bind_res (py_nth prefix_lens (int i)) (\<lambda>prefix_len.
     bind_res (py_nth seq_lens (int i)) (\<lambda>seq_len.
     bind_res (py_nth extend_lens (int i)) (\<lambda>extend_len.
     bind_res (py_nth prefix_tensors (int i)) (\<lambda>prefix_tensor.
     bind_res (req_pool_write req_idx 0 prefix_len prefix_tensor p) (\<lambda>p.
     bind_res (req_pool_write req_idx prefix_len seq_len (row_slice pt (pt + extend_len) out_cache_loc) p) (\<lambda>p.
     Inr (pt + extend_len, p)))))))))"

definition support_triton :: "string \<Rightarrow> bool" where
  "support_triton backend \<longleftrightarrow> backend \<notin> {''torch_native'', ''intel_amx''}"

definition write_cache_indices ::
  "triton \<Rightarrow> string \<Rightarrow> int list \<Rightarrow> nat list \<Rightarrow> nat list \<Rightarrow> nat list \<Rightarrow> nat list \<Rightarrow> int list list \<Rightarrow> req_pool \<Rightarrow> req_pool result" where
  "write_cache_indices tr attention_backend out_cache_loc req_pool_indices prefix_lens seq_lens extend_lens prefix_tensors p =
     (if support_triton attention_backend then
        Inr (p\<lparr>rp_req_to_token := table_rows (length (rp_req_to_token p)) (rp_max_context_len p)
          (launch_into tr (write_req_to_token_pool_triton tr req_pool_indices prefix_tensors prefix_lens seq_lens extend_lens out_cache_loc
             (rp_max_context_len p)) (length req_pool_indices) (concat (rp_req_to_token p)))\<rparr>)
      else bind_res (fold_res (write_loop_step out_cache_loc req_pool_indices prefix_lens seq_lens extend_lens prefix_tensors)
             [0..<length req_pool_indices] (0, p)) (\<lambda>(pt, p). Inr p))"

section \<open>The last slot of each request\<close>

definition get_last_loc_torch :: "req_pool \<Rightarrow> nat list \<Rightarrow> nat list \<Rightarrow> int list result" where
  "get_last_loc_torch p req_pool_indices prefix_lens =
     map_res (\<lambda>(row, prefix_len).
       bind_res (py_nth (rp_req_to_token p) (int row)) (\<lambda>r.
       bind_res (py_nth r (int prefix_len - 1)) (\<lambda>loc.
       Inr (if prefix_len > 0 then loc else -1)))) (zip req_pool_indices prefix_lens)"

definition get_last_loc_kernel :: "triton \<Rightarrow> int list \<Rightarrow> nat list \<Rightarrow> nat list \<Rightarrow> nat \<Rightarrow> nat \<Rightarrow> nat \<Rightarrow> nat \<Rightarrow> (int \<times> int) list" where
  "get_last_loc_kernel tr req_to_token req_pool_indices prefix_lens num_tokens stride block_size pid =
     (let offset = filter (\<lambda>k. k < num_tokens) (map (\<lambda>j. j + pid * block_size) [0..<block_size]);
          token = (\<lambda>k. if prefix_lens ! k > 0
                       then load_page tr req_to_token (int (req_pool_indices ! k * stride) + (int (prefix_lens ! k) - 1)) else -1)
      in map (\<lambda>k. (int k, token k)) offset)"

definition get_last_loc_triton :: "triton \<Rightarrow> req_pool \<Rightarrow> nat list \<Rightarrow> nat list \<Rightarrow> int list" where
  "get_last_loc_triton tr p req_pool_indices prefix_lens =
     (let num_tokens = length prefix_lens in
      launch tr (get_last_loc_kernel tr (concat (rp_req_to_token p)) req_pool_indices prefix_lens num_tokens (rp_max_context_len p) 256)
        (cdiv 256 num_tokens) num_tokens)"

definition get_last_loc :: "triton \<Rightarrow> string \<Rightarrow> req_pool \<Rightarrow> nat list \<Rightarrow> nat list \<Rightarrow> int list result" where
  "get_last_loc tr attention_backend p req_pool_indices prefix_lens =
     (if attention_backend \<noteq> ''ascend'' \<and> attention_backend \<noteq> ''torch_native''
      then Inr (get_last_loc_triton tr p req_pool_indices prefix_lens)
      else get_last_loc_torch p req_pool_indices prefix_lens)"

section \<open>Allocation for a batch\<close>

text \<open>
  What the allocation reads of the server and of the model: the attention backend, the page size of the tree cache, for a
  \<^verbatim>\<open>SWAChunkCache\<close> its \<^verbatim>\<open>evict_swa\<close>, and whether the model is an encoder with a decoder.
\<close>

record 's batch_env =
  be_triton :: triton
  be_attention_backend :: string
  be_page_size :: nat
  be_evict_swa :: "(req \<Rightarrow> nat \<Rightarrow> req_pool \<Rightarrow> 's \<Rightarrow> (req \<times> 's) result) option"
  be_is_encoder_decoder :: bool

record batch =
  bt_reqs :: "req list"
  bt_req_pool_indices :: "nat list"
  bt_prefix_lens :: "nat list"
  bt_extend_lens :: "nat list"
  bt_seq_lens :: "nat list"
  bt_extend_num_tokens :: nat
  bt_encoder_lens :: "nat list"

definition alloc_paged_token_slots_extend ::
  "radix_config \<Rightarrow> strategy \<Rightarrow> (heap_entry list \<Rightarrow> nat) \<Rightarrow> 's kv_allocator \<Rightarrow> bool \<Rightarrow> tree_cache \<Rightarrow> nat list \<Rightarrow> nat list \<Rightarrow> int list \<Rightarrow> nat \<Rightarrow> 's
   \<Rightarrow> (int list \<times> (int list \<times> int list) option \<times> tree_cache \<times> 's) result" where
  "alloc_paged_token_slots_extend cfg strat pick ka with_backup tree prefix_lens seq_lens last_loc extend_num_tokens s =
     (if tree = NoTree then Inl AttributeError
      else let num_tokens = extend_num_tokens + length seq_lens * ka_page_size ka s in
        bind_res (evict_from_tree_cache cfg strat pick ka tree num_tokens s) (\<lambda>(tree, s).
        let state = (if with_backup then Some (ka_backup ka s) else None) in
        bind_res (ka_alloc_extend ka (map int prefix_lens) (map int seq_lens) last_loc extend_num_tokens s) (\<lambda>(out_cache_loc, s).
        case out_cache_loc of None \<Rightarrow> Inl RuntimeError | Some locs \<Rightarrow> Inr (locs, state, tree, s))))"

definition alloc_paged_token_slots_decode ::
  "radix_config \<Rightarrow> strategy \<Rightarrow> (heap_entry list \<Rightarrow> nat) \<Rightarrow> 's kv_allocator \<Rightarrow> tree_cache \<Rightarrow> nat list \<Rightarrow> int list \<Rightarrow> 's
   \<Rightarrow> (int list \<times> tree_cache \<times> 's) result" where
  "alloc_paged_token_slots_decode cfg strat pick ka tree seq_lens last_loc s =
     (if tree = NoTree then Inl AttributeError
      else let num_tokens = length seq_lens * ka_page_size ka s in
        bind_res (evict_from_tree_cache cfg strat pick ka tree num_tokens s) (\<lambda>(tree, s).
        bind_res (ka_alloc_decode ka (map int seq_lens) last_loc s) (\<lambda>(out_cache_loc, s).
        case out_cache_loc of None \<Rightarrow> Inl RuntimeError | Some locs \<Rightarrow> Inr (locs, tree, s))))"

definition free_out_of_window ::
  "'s batch_env \<Rightarrow> (req \<times> nat) list \<Rightarrow> req list \<Rightarrow> req_pool \<Rightarrow> 's \<Rightarrow> (req list \<times> 's) result" where
  "free_out_of_window env work reqs p s =
     (case be_evict_swa env of None \<Rightarrow> Inr (reqs, s) | Some evict_swa_of \<Rightarrow>
        bind_res (map_state_res (\<lambda>(r, prelen) s. evict_swa_of r prelen p s) work s) (\<lambda>(rs, s). Inr (rs @ drop (length rs) reqs, s)))"

definition alloc_for_extend ::
  "'s batch_env \<Rightarrow> radix_config \<Rightarrow> strategy \<Rightarrow> (heap_entry list \<Rightarrow> nat) \<Rightarrow> 's kv_allocator \<Rightarrow> batch \<Rightarrow> tree_cache \<Rightarrow> req_pool \<Rightarrow> 's
   \<Rightarrow> (int list \<times> nat list \<times> batch \<times> tree_cache \<times> req_pool \<times> 's) result" where
  "alloc_for_extend env cfg strat pick ka b tree p s =
     bind_res (free_out_of_window env (zip (bt_reqs b) (bt_prefix_lens b)) (bt_reqs b) p s) (\<lambda>(reqs, s).
     let bs = length reqs; prefix_tensors = map rq_prefix_indices reqs in
     bind_res (alloc_req_slots p bs) (\<lambda>(req_pool_indices, p).
     bind_res (if tree = NoTree then Inl AttributeError
               else if be_page_size env = 1 then
                 bind_res (alloc_token_slots cfg strat pick ka False tree (bt_extend_num_tokens b) s) (\<lambda>(locs, _, tree, s). Inr (locs, tree, s))
               else
                 let last_loc = map (\<lambda>t. if length t > 0 then last t else -1) prefix_tensors in
                 bind_res (alloc_paged_token_slots_extend cfg strat pick ka False tree (bt_prefix_lens b) (bt_seq_lens b) last_loc (bt_extend_num_tokens b) s)
                   (\<lambda>(locs, _, tree, s). Inr (locs, tree, s))) (\<lambda>(out_cache_loc, tree, s).
     bind_res (write_cache_indices (be_triton env) (be_attention_backend env) out_cache_loc req_pool_indices (bt_prefix_lens b) (bt_seq_lens b)
                 (bt_extend_lens b) prefix_tensors p) (\<lambda>p.
     Inr (out_cache_loc, req_pool_indices, b\<lparr>bt_reqs := reqs\<rparr>, tree, p, s)))))"

text \<open>\<^verbatim>\<open>req_to_token[rows, cols]\<close> and \<^verbatim>\<open>req_to_token[rows, cols] = values\<close> for tensors of rows and columns.\<close>

definition table_gather :: "req_pool \<Rightarrow> nat list \<Rightarrow> int list \<Rightarrow> int list result" where
  "table_gather p rows cols =
     (if length rows \<noteq> length cols then Inl IndexError
      else map_res (\<lambda>(row, col). bind_res (py_nth (rp_req_to_token p) (int row)) (\<lambda>r. py_nth r col)) (zip rows cols))"

definition table_scatter :: "nat list \<Rightarrow> nat list \<Rightarrow> int list \<Rightarrow> req_pool \<Rightarrow> req_pool result" where
  "table_scatter rows cols vals p =
     (if length rows \<noteq> length cols then Inl IndexError
      else bind_res (if length vals = length rows then Inr vals
                     else if length vals = 1 then Inr (replicate (length rows) (hd vals)) else Inl RuntimeError) (\<lambda>vals.
      fold_res (\<lambda>(row, col, v) p.
        bind_res (py_nth (rp_req_to_token p) (int row)) (\<lambda>r.
        bind_res (py_index (length r) (int col)) (\<lambda>c.
        Inr (p\<lparr>rp_req_to_token := (rp_req_to_token p)[row := r[c := v]]\<rparr>)))) (zip rows (zip cols vals)) p))"

text \<open>\<^verbatim>\<open>Req.seqlen\<close>.\<close>

definition req_seqlen :: "req \<Rightarrow> nat" where
  "req_seqlen r = length (rq_origin_input_ids r) + length (rq_output_ids r)"

definition alloc_for_decode ::
  "'s batch_env \<Rightarrow> radix_config \<Rightarrow> strategy \<Rightarrow> (heap_entry list \<Rightarrow> nat) \<Rightarrow> 's kv_allocator \<Rightarrow> nat \<Rightarrow> batch \<Rightarrow> tree_cache \<Rightarrow> req_pool \<Rightarrow> 's
   \<Rightarrow> (int list \<times> batch \<times> tree_cache \<times> req_pool \<times> 's) result" where
  "alloc_for_decode env cfg strat pick ka token_per_req b tree p s =
     bind_res (free_out_of_window env (map (\<lambda>r. (r, req_seqlen r - 1)) (bt_reqs b)) (bt_reqs b) p s) (\<lambda>(reqs, s).
     let bs = length (bt_seq_lens b) in
     bind_res (if tree = NoTree then Inl AttributeError
               else if be_page_size env = 1 then
                 bind_res (alloc_token_slots cfg strat pick ka False tree (bs * token_per_req) s) (\<lambda>(locs, _, tree, s). Inr (locs, tree, s))
               else
                 bind_res (table_gather p (bt_req_pool_indices b) (map (\<lambda>n. int n - 1) (bt_seq_lens b))) (\<lambda>last_loc.
                 alloc_paged_token_slots_decode cfg strat pick ka tree (map (\<lambda>n. n + token_per_req) (bt_seq_lens b)) last_loc s)) (\<lambda>(out_cache_loc, tree, s).
     let locs = (if be_is_encoder_decoder env then map2 (+) (bt_encoder_lens b) (bt_seq_lens b) else bt_seq_lens b) in
     bind_res (table_scatter (bt_req_pool_indices b) locs out_cache_loc p) (\<lambda>p.
     Inr (out_cache_loc, b\<lparr>bt_reqs := reqs\<rparr>, tree, p, s))))"

section \<open>The table after the batch\<close>

fun split_lens :: "nat list \<Rightarrow> 'a list \<Rightarrow> 'a list list" where
  "split_lens [] xs = []"
| "split_lens (n # ns) xs = take n xs # split_lens ns (drop n xs)"

text \<open>The table in which each row of the batch begins with the slots of its request; all else is as before.\<close>

definition enter_rows :: "nat list \<Rightarrow> int list list \<Rightarrow> int list list \<Rightarrow> int list list" where
  "enter_rows ixs seqs rows =
     map (\<lambda>r. case map_of (zip ixs seqs) r of None \<Rightarrow> rows ! r | Some vs \<Rightarrow> vs @ drop (length vs) (rows ! r)) [0..<length rows]"

definition pool_ok :: "req_pool \<Rightarrow> bool" where
  "pool_ok p \<longleftrightarrow> (\<forall>row \<in> set (rp_req_to_token p). length row = rp_max_context_len p) \<and> distinct (rp_free_slots p) \<and>
     (\<forall>i \<in> set (rp_free_slots p). i < length (rp_req_to_token p))"

definition batch_ok :: "nat \<Rightarrow> nat list \<Rightarrow> nat list \<Rightarrow> nat list \<Rightarrow> int list list \<Rightarrow> bool" where
  "batch_ok max_len prefix_lens seq_lens extend_lens prefix_tensors \<longleftrightarrow>
     prefix_lens = map length prefix_tensors \<and> length extend_lens = length prefix_tensors \<and> seq_lens = map2 (+) prefix_lens extend_lens \<and>
     (\<forall>n \<in> set seq_lens. n \<le> max_len)"

lemma length_split_lens [simp]: "length (split_lens ns xs) = length ns"
  by (induction ns arbitrary: xs) auto

lemma split_lens_nth: "i < length ns \<Longrightarrow> split_lens ns xs ! i = take (ns ! i) (drop (sum_list (take i ns)) xs)"
  by (induction ns arbitrary: i xs) (auto simp: nth_Cons add.commute split: nat.splits)

lemma concat_split_lens: "length xs = sum_list ns \<Longrightarrow> concat (split_lens ns xs) = xs"
  by (induction ns arbitrary: xs) auto

lemma chunk_fits: "i < length ns \<Longrightarrow> sum_list (take i ns) + ns ! i \<le> sum_list (ns :: nat list)"
  using sum_list_take_le[of i ns "\<lambda>n. n"] by simp

lemma length_enter_rows [simp]: "length (enter_rows ixs seqs rows) = length rows"
  by (simp add: enter_rows_def)

lemma enter_rows_nth:
  assumes "distinct ixs" and "length seqs = length ixs" and "i < length ixs" and "ixs ! i < length rows"
  shows "enter_rows ixs seqs rows ! (ixs ! i) = seqs ! i @ drop (length (seqs ! i)) (rows ! (ixs ! i))"
proof -
  have "map_of (zip ixs seqs) (ixs ! i) = Some (seqs ! i)" using assms by (simp add: map_of_zip_nth)
  then show ?thesis using assms(4) by (simp add: enter_rows_def)
qed

lemma enter_rows_other: "r < length rows \<Longrightarrow> length seqs = length ixs \<Longrightarrow> r \<notin> set ixs \<Longrightarrow> enter_rows ixs seqs rows ! r = rows ! r"
  by (simp add: enter_rows_def map_of_zip_is_None[THEN iffD2])

lemma block_lanes_eq:
  assumes "0 < B"
  shows "block_lanes B n = [0..<n]"
proof -
  have "concat (map (\<lambda>i. map (\<lambda>j. j + i * B) [0..<B]) [0..<k]) = [0..<k * B]" for k
  proof (induction k)
    case (Suc k)
    have "map (\<lambda>j. j + k * B) [0..<B] = [k * B..<k * B + B]" using map_add_upt[of "k * B" B] by (simp add: add.commute)
    then show ?case using Suc upt_add_eq_append[of 0 "k * B" B] by (simp add: add.commute)
  qed simp
  moreover have "filter (\<lambda>k. k < n) [0..<m] = [0..<n]" if "n \<le> m" for m
    using that by (induction m) (auto simp: le_Suc_eq filter_id_conv intro!: filter_True)
  moreover have "n \<le> cdiv B n * B" using cdiv_bounds[OF assms, of n] by (simp add: mult.commute)
  moreover have "block_lanes B n = filter (\<lambda>k. k < n) (concat (map (\<lambda>i. map (\<lambda>j. j + i * B) [0..<B]) [0..<cdiv B n]))"
    by (simp only: block_lanes_def filter_concat map_map comp_def)
  ultimately show ?thesis by simp
qed

lemma row_address:
  assumes "\<forall>row \<in> set rows. length row = n" and "r < length rows" and "k < n"
  shows "r * n + k < length (concat rows)" and "concat rows ! (r * n + k) = rows ! r ! k"
proof -
  have "r * n + k < length (concat rows) \<and> concat rows ! (r * n + k) = rows ! r ! k"
    using assms
  proof (induction rows arbitrary: r)
    case (Cons row rows)
    then show ?case by (cases r) (auto simp: nth_append)
  qed simp
  then show "r * n + k < length (concat rows)" "concat rows ! (r * n + k) = rows ! r ! k" by simp_all
qed

lemma load_at: "k < length mem \<Longrightarrow> load_page tr mem (int k) = mem ! k"
  by (simp add: load_page_def)

lemma address_inj: "k < n \<Longrightarrow> l < n \<Longrightarrow> r * n + k = q * n + l \<longleftrightarrow> r = q \<and> k = (l :: nat)"
  by (metis div_mult_self3 div_less add.commute add_right_cancel add.right_neutral gr_implies_not0)

lemma table_rows_eq:
  assumes "length mem = length rows * n" and "\<forall>row \<in> set rows. length row = n"
    and "\<And>r k. r < length rows \<Longrightarrow> k < n \<Longrightarrow> mem ! (r * n + k) = rows ! r ! k"
  shows "table_rows (length rows) n mem = rows"
proof (rule nth_equalityI)
  fix r assume "r < length (table_rows (length rows) n mem)"
  then have r: "r < length rows" by (simp add: table_rows_def)
  then have "Suc r * n \<le> length rows * n" by (intro mult_le_mono1) simp
  then have "r * n + n \<le> length mem" using assms(1) by simp
  then show "table_rows (length rows) n mem ! r = rows ! r"
    using r assms(2,3) by (intro nth_equalityI) (auto simp: table_rows_def)
qed (simp add: table_rows_def)

text \<open>One program of the kernel stores the slots of its request, and nothing else.\<close>

lemma write_program:
  assumes ok: "batch_ok n prefix_lens seq_lens extend_lens prefix_tensors" and i: "i < length prefix_tensors"
    and locs: "length locs = sum_list extend_lens" and seqs: "seqs = map2 (@) prefix_tensors (split_lens extend_lens locs)"
  shows "write_req_to_token_pool_triton tr ixs prefix_tensors prefix_lens seq_lens extend_lens locs n i =
    map (\<lambda>k. (int (ixs ! i * n + k), seqs ! i ! k)) [0..<length (seqs ! i)]"
proof -
  let ?p = "prefix_tensors ! i" and ?e = "extend_lens ! i" and ?s = "sum_list (take i extend_lens)"
  have len: "length extend_lens = length prefix_tensors" "prefix_lens ! i = length ?p" "seq_lens ! i = length ?p + ?e"
    using ok i by (auto simp: batch_ok_def)
  have fits: "?s + ?e \<le> length locs" using chunk_fits[of i extend_lens] len i locs by simp
  have sum: "sum_list (map (\<lambda>j. extend_lens ! j) [0..<i]) = ?s" using len(1) i by (metis less_imp_le map_nth take_map take_upt add_0)
  have seq: "seqs ! i = ?p @ take ?e (drop ?s locs)" using i len(1) by (simp add: seqs split_lens_nth)
  have up: "[0..<length ?p + ?e] = [0..<length ?p] @ map (\<lambda>k. k + length ?p) [0..<?e]"
    using upt_add_eq_append[of 0 "length ?p" ?e] map_add_upt[of "length ?p" ?e] by (simp add: add.commute)
  have "map (\<lambda>k. (int (ixs ! i * n + k + length ?p), load_page tr locs (int (?s + k)))) [0..<?e] =
      map (\<lambda>k. (int (ixs ! i * n + (k + length ?p)), seqs ! i ! (k + length ?p))) [0..<?e]"
    using fits by (auto simp: seq load_page_def nth_append nat_add_distrib)
  moreover have "map (\<lambda>k. (int (ixs ! i * n + k), load_page tr ?p (int k))) [0..<length ?p] =
      map (\<lambda>k. (int (ixs ! i * n + k), seqs ! i ! k)) [0..<length ?p]" by (auto simp: seq load_page_def nth_append)
  moreover have "length (seqs ! i) = length ?p + ?e" using fits by (simp add: seq)
  ultimately show ?thesis
    by (simp only: write_req_to_token_pool_triton_def Let_def block_lanes_eq zero_less_numeral len(2,3) add_diff_cancel_left' sum up map_append map_map comp_def)
qed

lemma entered_rows_length:
  assumes "\<forall>row \<in> set rows. length row = n" and "\<forall>seq \<in> set seqs. length seq \<le> n"
  shows "\<forall>row \<in> set (enter_rows ixs seqs rows). length row = n"
proof -
  have "length (case map_of (zip ixs seqs) r of None \<Rightarrow> rows ! r | Some vs \<Rightarrow> vs @ drop (length vs) (rows ! r)) = n" if "r < length rows" for r
    using assms that by (auto split: option.splits dest!: map_of_SomeD set_zip_rightD)
  then show ?thesis by (auto simp: enter_rows_def)
qed

lemma distinct_cells: "distinct (concat (map (\<lambda>i. map (Pair i) [0..<f i]) [0..<m]))"
  by (induction m) (auto simp: distinct_map inj_on_def)

lemma launch_rows:
  assumes tr: "triton_ok tr" and uni: "\<forall>row \<in> set rows. length row = n" and fit: "\<forall>seq \<in> set seqs. length seq \<le> n"
    and ixs: "distinct ixs" "\<forall>i \<in> set ixs. i < length rows" "length seqs = length ixs"
    and prog: "\<And>i. i < length ixs \<Longrightarrow> prog i = map (\<lambda>k. (int (ixs ! i * n + k), seqs ! i ! k)) [0..<length (seqs ! i)]"
  shows "table_rows (length rows) n (launch_into tr prog (length ixs) (concat rows)) = enter_rows ixs seqs rows"
proof -
  let ?progs = "map prog [0..<length ixs]"
  let ?s = "tr_order tr ?progs" and ?m = "launch_into tr prog (length ixs) (concat rows)"
  have ms: "mset ?s = mset (concat ?progs)" using tr by (simp add: triton_ok_def)
  have set: "set ?s = {(int (ixs ! i * n + k), seqs ! i ! k) |i k. i < length ixs \<and> k < length (seqs ! i)}"
    unfolding mset_eq_setD[OF ms] using prog by fastforce
  have short: "length (seqs ! i) \<le> n" if "i < length ixs" for i using fit ixs(3) that by simp
  have same: "i = j \<and> k = l" if "i < length ixs" "j < length ixs" "k < length (seqs ! i)" "l < length (seqs ! j)" "ixs ! i * n + k = ixs ! j * n + l" for i j k l
    using that short[of i] short[of j] address_inj[of k n l "ixs ! i" "ixs ! j"] ixs(1) by (simp add: nth_eq_iff_index_eq)
  let ?cells = "concat (map (\<lambda>i. map (Pair i) [0..<length (seqs ! i)]) [0..<length ixs])"
  have "map fst (concat ?progs) = map (\<lambda>(i, k). int (ixs ! i * n + k)) ?cells"
    using prog by (auto simp: map_concat comp_def intro!: arg_cong[of _ _ concat])
  moreover have "inj_on (\<lambda>(i, k). int (ixs ! i * n + k)) (set ?cells)"
    using same by (auto simp: inj_on_def simp del: of_nat_mult of_nat_add)
  ultimately have "distinct (map fst (concat ?progs))" using distinct_cells by (simp add: distinct_map)
  then have d: "distinct (map fst ?s)" using ms by (metis mset_eq_imp_distinct_iff mset_map)
  have pos: "\<forall>(i, v) \<in> set ?s. 0 \<le> i" unfolding set by auto
  note st = fold_stores[OF d pos refl, of "concat rows", folded launch_into_def]
  have len: "length (concat rows) = length rows * n" using uni by (simp add: length_concat sum_list_triv cong: map_cong)
  have hit: "?m ! (ixs ! i * n + k) = seqs ! i ! k" if "i < length ixs" "k < length (seqs ! i)" for i k
  proof -
    have "ixs ! i * n + k < length (concat rows)" using row_address(1)[OF uni, of "ixs ! i" k] that short[OF that(1)] ixs(2) by simp
    moreover have "(int (ixs ! i * n + k), seqs ! i ! k) \<in> set ?s" unfolding set using that by blast
    ultimately show ?thesis using st by blast
  qed
  have miss: "?m ! (r * n + k) = rows ! r ! k" if rk: "r < length rows" "k < n" and out: "\<And>i. i < length ixs \<Longrightarrow> ixs ! i = r \<Longrightarrow> length (seqs ! i) \<le> k" for r k
  proof -
    have ne: "r * n + k \<noteq> ixs ! i * n + l" if a: "i < length ixs" "l < length (seqs ! i)" for i l
      using address_inj[OF rk(2), of l r "ixs ! i"] a short[OF a(1)] out[OF a(1)] by auto
    have "int (r * n + k) \<notin> fst ` set ?s" unfolding set using ne by (auto simp del: of_nat_mult of_nat_add)
    then show ?thesis using st row_address[OF uni rk] by metis
  qed
  have "?m ! (r * n + k) = enter_rows ixs seqs rows ! r ! k" if rk: "r < length rows" "k < n" for r k
  proof (cases "\<exists>i < length ixs. ixs ! i = r")
    case True
    then obtain i where i: "i < length ixs" "r = ixs ! i" by blast
    have e: "enter_rows ixs seqs rows ! r = seqs ! i @ drop (length (seqs ! i)) (rows ! r)" using enter_rows_nth[OF ixs(1,3) i(1)] i(2) rk(1) by simp
    show ?thesis
    proof (cases "k < length (seqs ! i)")
      case False
      have "i' = i" if "i' < length ixs" "ixs ! i' = r" for i' using that i ixs(1) by (simp add: nth_eq_iff_index_eq)
      then have "?m ! (r * n + k) = rows ! r ! k" using False by (intro miss[OF rk]) auto
      then show ?thesis using False e uni rk by (simp add: nth_append)
    qed (use hit i e in \<open>simp add: nth_append\<close>)
  next
    case False
    then show ?thesis using miss[OF rk] enter_rows_other[OF rk(1) ixs(3)] by (metis in_set_conv_nth)
  qed
  moreover have "\<forall>row \<in> set (enter_rows ixs seqs rows). length row = n" by (rule entered_rows_length[OF uni fit])
  ultimately show ?thesis using table_rows_eq[of ?m "enter_rows ixs seqs rows" n] st len by simp
qed

lemma enter_rows_snoc:
  assumes "length seqs = length ixs" and "ix \<notin> set ixs"
  shows "enter_rows (ixs @ [ix]) (seqs @ [seq]) rows = (enter_rows ixs seqs rows)[ix := seq @ drop (length seq) (rows ! ix)]"
proof -
  have "map_of (zip (ixs @ [ix]) (seqs @ [seq])) r = (if r = ix then Some seq else map_of (zip ixs seqs) r)" for r
    using map_of_zip_is_None[OF assms(1)[symmetric], THEN iffD2, OF assms(2)]
    by (cases "r = ix") (simp_all add: zip_append[OF assms(1)[symmetric]] map_add_def split: option.split)
  then show ?thesis by (intro nth_equalityI) (auto simp: enter_rows_def nth_list_update)
qed

lemma write_row:
  assumes "row < length (rp_req_to_token p)" and "length xs + length ys \<le> length (rp_req_to_token p ! row)" and "n = length xs" and "m = n + length ys"
  shows "bind_res (req_pool_write row 0 n xs p) (req_pool_write row n m ys) =
    Inr (p\<lparr>rp_req_to_token := (rp_req_to_token p)[row := (xs @ ys) @ drop (length (xs @ ys)) (rp_req_to_token p ! row)]\<rparr>)"
  using assms by (simp add: req_pool_write_def py_nth_nat Let_def min.absorb1 add.commute)

lemma write_loop:
  assumes ok: "batch_ok n prefix_lens seq_lens extend_lens prefix_tensors" and uni: "\<forall>row \<in> set (rp_req_to_token p). length row = n"
    and ixs: "distinct ixs" "\<forall>i \<in> set ixs. i < length (rp_req_to_token p)" "length prefix_tensors = length ixs"
    and locs: "length locs = sum_list extend_lens" and seqs: "seqs = map2 (@) prefix_tensors (split_lens extend_lens locs)" and j: "j \<le> length ixs"
  shows "fold_res (write_loop_step locs ixs prefix_lens seq_lens extend_lens prefix_tensors) [0..<j] (0, p) =
    Inr (sum_list (take j extend_lens), p\<lparr>rp_req_to_token := enter_rows (take j ixs) (take j seqs) (rp_req_to_token p)\<rparr>)"
  using j
proof (induction j)
  case 0
  have "enter_rows [] [] (rp_req_to_token p) = rp_req_to_token p" by (simp add: enter_rows_def map_nth)
  then show ?case by simp
next
  case (Suc j)
  let ?rows = "rp_req_to_token p" and ?t = "enter_rows (take j ixs) (take j seqs) (rp_req_to_token p)" and ?r = "ixs ! j"
  let ?pre = "prefix_tensors ! j" and ?s = "sum_list (take j extend_lens)" and ?e = "extend_lens ! j"
  have j: "j < length ixs" "j < length prefix_tensors" "j < length extend_lens" using Suc.prems ixs(3) ok by (auto simp: batch_ok_def)
  have len: "prefix_lens ! j = length ?pre" "seq_lens ! j = length ?pre + ?e" "length ?pre + ?e \<le> n" "j < length prefix_lens" "j < length seq_lens"
  proof -
    show "prefix_lens ! j = length ?pre" "j < length prefix_lens" and *: "seq_lens ! j = length ?pre + ?e" and "j < length seq_lens"
      using ok j by (auto simp: batch_ok_def)
    then show "length ?pre + ?e \<le> n" using ok nth_mem[of j seq_lens] unfolding batch_ok_def by metis
  qed
  have fits: "?s + ?e \<le> length locs" using chunk_fits[OF j(3)] locs by simp
  have seq: "seqs ! j = ?pre @ row_slice ?s (?s + ?e) locs" using j by (simp add: seqs split_lens_nth row_slice_def take_drop add.commute)
  have sl: "length (row_slice ?s (?s + ?e) locs) = ?e" using fits by (simp add: row_slice_def)
  have lens: "length seqs = length ixs" using seqs j ixs(3) ok by (simp add: batch_ok_def)
  have r: "?r < length ?rows" using ixs(2) j(1) by simp
  have r2: "?r \<notin> set (take j ixs)" using ixs(1) j(1) by (auto simp: in_set_conv_nth nth_eq_iff_index_eq)
  have row: "?t ! ?r = ?rows ! ?r" using r r2 lens by (intro enter_rows_other) simp_all
  have "length (?rows ! ?r) = n" using uni r by simp
  then have "bind_res (req_pool_write ?r 0 (prefix_lens ! j) ?pre (p\<lparr>rp_req_to_token := ?t\<rparr>)) (req_pool_write ?r (prefix_lens ! j) (seq_lens ! j) (row_slice ?s (?s + ?e) locs)) =
      Inr (p\<lparr>rp_req_to_token := ?t[?r := seqs ! j @ drop (length (seqs ! j)) (?rows ! ?r)]\<rparr>)"
    using write_row[of ?r "p\<lparr>rp_req_to_token := ?t\<rparr>" ?pre "row_slice ?s (?s + ?e) locs" "prefix_lens ! j" "seq_lens ! j"] r row len(1-3) sl seq by simp
  moreover have "enter_rows (take (Suc j) ixs) (take (Suc j) seqs) ?rows = ?t[?r := seqs ! j @ drop (length (seqs ! j)) (?rows ! ?r)]"
    using enter_rows_snoc[of "take j seqs" "take j ixs" ?r "seqs ! j" ?rows] r2 j(1) lens by (simp add: take_Suc_conv_app_nth)
  ultimately show ?case using Suc j len(4,5)
    by (simp add: fold_res_append write_loop_step_def py_nth_nat take_Suc_conv_app_nth del: bind_res_Inr_iff) (auto elim!: bind_res.elims)
qed

lemma batch_seq:
  assumes ok: "batch_ok n prefix_lens seq_lens extend_lens prefix_tensors" and i: "i < length prefix_tensors" and locs: "length locs = sum_list extend_lens"
  shows "length (map2 (@) prefix_tensors (split_lens extend_lens locs) ! i) = seq_lens ! i"
    and "length (map2 (@) prefix_tensors (split_lens extend_lens locs) ! i) \<le> n"
proof -
  have len: "length extend_lens = length prefix_tensors" "seq_lens ! i = length (prefix_tensors ! i) + extend_lens ! i" "i < length seq_lens"
    using ok i by (auto simp: batch_ok_def)
  show *: "length (map2 (@) prefix_tensors (split_lens extend_lens locs) ! i) = seq_lens ! i"
    using len i chunk_fits[of i extend_lens] locs by (simp add: split_lens_nth)
  have "\<forall>m \<in> set seq_lens. m \<le> n" using ok by (simp add: batch_ok_def)
  then show "length (map2 (@) prefix_tensors (split_lens extend_lens locs) ! i) \<le> n" using * len(3) by simp
qed

lemma write_cache_rows:
  assumes tr: "triton_ok tr" and ok: "batch_ok (rp_max_context_len p) prefix_lens seq_lens extend_lens prefix_tensors"
    and uni: "\<forall>row \<in> set (rp_req_to_token p). length row = rp_max_context_len p"
    and ixs: "distinct ixs" "\<forall>i \<in> set ixs. i < length (rp_req_to_token p)" "length prefix_tensors = length ixs"
    and locs: "length locs = sum_list extend_lens"
  shows "write_cache_indices tr backend locs ixs prefix_lens seq_lens extend_lens prefix_tensors p =
    Inr (p\<lparr>rp_req_to_token := enter_rows ixs (map2 (@) prefix_tensors (split_lens extend_lens locs)) (rp_req_to_token p)\<rparr>)"
proof (cases "support_triton backend")
  case True
  let ?n = "rp_max_context_len p" and ?seqs = "map2 (@) prefix_tensors (split_lens extend_lens locs)"
  have len: "length ?seqs = length ixs" "length extend_lens = length prefix_tensors" using ok ixs(3) by (simp_all add: batch_ok_def)
  have "length (?seqs ! i) \<le> ?n" if "i < length ixs" for i using batch_seq(2)[OF ok _ locs] that ixs(3) by simp
  then have "\<forall>seq \<in> set ?seqs. length seq \<le> ?n" using len(1) by (metis in_set_conv_nth)
  then show ?thesis using True write_program[OF ok _ locs refl] ixs(3)
    by (simp add: write_cache_indices_def launch_rows[OF tr uni _ ixs(1,2) len(1)])
next
  case False
  have "length (map2 (@) prefix_tensors (split_lens extend_lens locs)) = length ixs" using ok ixs(3) by (simp add: batch_ok_def)
  then show ?thesis using False write_loop[OF ok uni ixs locs refl le_refl] by (simp add: write_cache_indices_def)
qed

text \<open>Both ways to find the last slots agree.\<close>

lemma last_loc_backends:
  assumes tr: "triton_ok tr" and uni: "\<forall>row \<in> set (rp_req_to_token p). length row = rp_max_context_len p" and pos: "0 < rp_max_context_len p"
    and ixs: "\<forall>i \<in> set ixs. i < length (rp_req_to_token p)" "length prefix_lens = length ixs" and le: "\<forall>n \<in> set prefix_lens. n \<le> rp_max_context_len p"
  shows "get_last_loc_torch p ixs prefix_lens = Inr (get_last_loc_triton tr p ixs prefix_lens)"
proof -
  let ?n = "rp_max_context_len p" and ?rows = "rp_req_to_token p"
  let ?f = "\<lambda>(row, n). if n > 0 then ?rows ! row ! (n - 1) else -1"
  let ?ref = "map ?f (zip ixs prefix_lens)"
  have "get_last_loc_torch p ixs prefix_lens = Inr ?ref" unfolding get_last_loc_torch_def
  proof (rule map_res_Inr)
    fix x assume "x \<in> set (zip ixs prefix_lens)"
    moreover obtain row n where "x = (row, n)" by (cases x)
    ultimately have x: "x = (row, n)" "row < length ?rows" "n \<le> ?n" "length (?rows ! row) = ?n"
      using ixs(1) le uni by (auto dest: set_zip_leftD set_zip_rightD)
    have "py_nth (?rows ! row) (int n - 1) = Inr (?rows ! row ! (if n > 0 then n - 1 else ?n - 1))"
      using x(3,4) pos by (auto simp: py_nth_def Let_def nat_diff_distrib)
    then show "(case x of (row, n) \<Rightarrow> bind_res (py_nth ?rows (int row)) (\<lambda>r. bind_res (py_nth r (int n - 1)) (\<lambda>loc. Inr (if n > 0 then loc else -1)))) = Inr (?f x)"
      using x by (simp add: py_nth_nat)
  qed
  moreover have "get_last_loc_triton tr p ixs prefix_lens = ?ref"
  proof -
    let ?prog = "get_last_loc_kernel tr (concat ?rows) ixs prefix_lens (length prefix_lens) ?n 256"
    have tok: "load_page tr (concat ?rows) (int (ixs ! k * ?n) + (int (prefix_lens ! k) - 1)) = ?rows ! (ixs ! k) ! (prefix_lens ! k - 1)"
      if "k < length prefix_lens" "prefix_lens ! k > 0" for k
    proof -
      have "int (ixs ! k * ?n) + (int (prefix_lens ! k) - 1) = int (ixs ! k * ?n + (prefix_lens ! k - 1))" using that(2) by (simp add: of_nat_diff)
      moreover have "ixs ! k < length ?rows" "prefix_lens ! k - 1 < ?n" using that ixs le nth_mem[OF that(1)] by (auto simp: less_eq_Suc_le)
      ultimately show ?thesis using row_address[OF uni] load_at by metis
    qed
    have "concat (map ?prog [0..<cdiv 256 (length prefix_lens)]) =
        map (\<lambda>k. (int k, if prefix_lens ! k > 0 then load_page tr (concat ?rows) (int (ixs ! k * ?n) + (int (prefix_lens ! k) - 1)) else -1))
          (block_lanes 256 (length prefix_lens))"
      unfolding block_lanes_def map_concat map_map comp_def get_last_loc_kernel_def Let_def ..
    also have "\<dots> = map (\<lambda>k. (int k, ?ref ! k)) [0..<length ?ref]" using tok ixs(2) by (simp add: block_lanes_eq)
    finally show ?thesis using launch_enumerate[OF tr, of ?prog "cdiv 256 (length prefix_lens)" ?ref] ixs(2)
      by (simp add: get_last_loc_triton_def Let_def)
  qed
  ultimately show ?thesis by simp
qed

section \<open>The columns of a decode batch\<close>

definition enter_cells :: "(nat \<times> nat \<times> int) list \<Rightarrow> int list list \<Rightarrow> int list list" where
  "enter_cells cells rows = map (\<lambda>r. case map_of cells r of None \<Rightarrow> rows ! r | Some (c, v) \<Rightarrow> (rows ! r)[c := v]) [0..<length rows]"

lemma enter_cells_simps:
  shows "length (enter_cells cells rows) = length rows" and "enter_cells [] rows = rows"
    and "r \<notin> fst ` set cells \<Longrightarrow> enter_cells ((r, c, v) # cells) rows = enter_cells cells (rows[r := (rows ! r)[c := v]])"
proof -
  show "enter_cells ((r, c, v) # cells) rows = enter_cells cells (rows[r := (rows ! r)[c := v]])" if r: "r \<notin> fst ` set cells"
  proof -
    have "map_of cells r = None" using r by (simp add: map_of_eq_None_iff)
    then show ?thesis by (intro nth_equalityI) (auto simp: enter_cells_def nth_list_update split: option.splits)
  qed
qed (simp_all add: enter_cells_def map_nth)

lemma table_scatter_cells:
  assumes "length cols = length ixs" and "length vals = length ixs" and "distinct ixs" and "\<forall>i \<in> set ixs. i < length (rp_req_to_token p)"
    and "\<forall>row \<in> set (rp_req_to_token p). length row = n" and "\<forall>c \<in> set cols. c < n"
  shows "table_scatter ixs cols vals p = Inr (p\<lparr>rp_req_to_token := enter_cells (zip ixs (zip cols vals)) (rp_req_to_token p)\<rparr>)"
proof -
  have "fold_res (\<lambda>(row, col, v) p. bind_res (py_nth (rp_req_to_token p) (int row)) (\<lambda>r. bind_res (py_index (length r) (int col)) (\<lambda>c.
        Inr (p\<lparr>rp_req_to_token := (rp_req_to_token p)[row := r[c := v]]\<rparr>)))) cells p = Inr (p\<lparr>rp_req_to_token := enter_cells cells (rp_req_to_token p)\<rparr>)"
    if "distinct (map fst cells)" "\<forall>(r, c, v) \<in> set cells. r < length (rp_req_to_token p) \<and> c < n" "\<forall>row \<in> set (rp_req_to_token p). length row = n"
    for cells and p :: req_pool
    using that
  proof (induction cells arbitrary: p)
    case (Cons cell cells)
    obtain r c v where cell: "cell = (r, c, v)" by (cases cell)
    have rc: "r < length (rp_req_to_token p)" "c < length (rp_req_to_token p ! r)" "r \<notin> fst ` set cells"
      using Cons.prems cell by auto
    let ?p = "p\<lparr>rp_req_to_token := (rp_req_to_token p)[r := (rp_req_to_token p ! r)[c := v]]\<rparr>"
    have "\<forall>row \<in> set (rp_req_to_token ?p). length row = n" using Cons.prems(3) rc(1) by (auto dest!: set_update_subset_insert[THEN subsetD])
    then show ?case using Cons.IH[of ?p] Cons.prems(1,2) rc cell by (simp add: py_nth_nat py_index_nat enter_cells_simps(3))
  qed (simp add: enter_cells_simps)
  moreover have "distinct (map fst (zip ixs (zip cols vals)))" using assms(1-3) by simp
  moreover have "\<forall>(r, c, v) \<in> set (zip ixs (zip cols vals)). r < length (rp_req_to_token p) \<and> c < n"
    using assms(4,6) by (auto simp: set_zip)
  ultimately show ?thesis using assms(1,2,5) by (simp add: table_scatter_def)
qed

lemma enter_cells_nth:
  assumes "length cols = length ixs" and "length vals = length ixs" and "distinct ixs" and "r < length rows"
  shows "i < length ixs \<Longrightarrow> ixs ! i = r \<Longrightarrow> enter_cells (zip ixs (zip cols vals)) rows ! r = (rows ! r)[cols ! i := vals ! i]"
    and "r \<notin> set ixs \<Longrightarrow> enter_cells (zip ixs (zip cols vals)) rows ! r = rows ! r"
proof -
  show "enter_cells (zip ixs (zip cols vals)) rows ! r = (rows ! r)[cols ! i := vals ! i]" if "i < length ixs" "ixs ! i = r"
  proof -
    have "map_of (zip ixs (zip cols vals)) r = Some (cols ! i, vals ! i)" using assms that map_of_zip_nth[of ixs "zip cols vals" i] by simp
    then show ?thesis using assms(4) by (simp add: enter_cells_def)
  qed
  show "enter_cells (zip ixs (zip cols vals)) rows ! r = rows ! r" if "r \<notin> set ixs"
    using that assms by (simp add: enter_cells_def map_of_zip_is_None[THEN iffD2])
qed

text \<open>
  The comment of the paged allocations, that one page more for each request is an over-estimate: when eviction has made room for it,
  the pages that the kernels take are there.
\<close>

lemma extend_estimate:
  assumes "0 < ps" and "\<forall>r \<in> set rs. kr_ok ps r"
  shows "total_new_pages ps rs * ps \<le> extend_tokens rs + length rs * ps"
  using mult_le_mono1[OF total_new_pages_le[OF assms], of ps] div_times_less_eq_dividend[of "extend_tokens rs" ps] unfolding add_mult_distrib by linarith

section \<open>Properties\<close>

text \<open>
  (C10) Allocation for an extend batch, over the token allocator and the radix cache. It succeeds exactly when there are rows for
  all requests and the free slots and the evictable tokens of the cache suffice, and raises otherwise. Each request gets a row of its own that begins
  with the slots of its cached prefix and goes on with its share of the new slots; no other row changes. The new slots belong to
  nobody else, and nothing that is locked leaves the cache. The Triton kernel and the loop have the same effect.
\<close>

theorem alloc_for_extend_correct:
  assumes "radix_run cfg strat pick rx H" and "heap_spec pick" and "0 < rc_page_size cfg" and "\<not> rc_disable cfg"
    and "slots_ok (tree_values (rx_root rx)) priv a" and "pool_ok p" and "triton_ok (be_triton env)" and "be_page_size env = 1" and "be_evict_swa env = None"
    and "batch_ok (rp_max_context_len p) (bt_prefix_lens b) (bt_seq_lens b) (bt_extend_lens b) (map rq_prefix_indices (bt_reqs b))"
    and "bt_extend_num_tokens b = sum_list (bt_extend_lens b)" and "bs = length (bt_reqs b)" and "ixs = take bs (rp_free_slots p)"
  shows "if bs \<le> length (rp_free_slots p) \<and> int (bt_extend_num_tokens b) \<le> int (token_available_size a) + rm_evictable_size (rx_meta rx)
    then \<exists>locs rx' p' a'. alloc_for_extend env cfg strat pick token_methods b (RadixTree rx) p a = Inr (locs, ixs, b, RadixTree rx', p', a') \<and>
      length locs = bt_extend_num_tokens b \<and> slots_ok (tree_values (rx_root rx')) (locs @ priv) a' \<and> cache_kept H rx rx' \<and>
      pool_ok p' \<and> rp_free_slots p' = drop bs (rp_free_slots p) \<and> concat (split_lens (bt_extend_lens b) locs) = locs \<and>
      (\<forall>i < bs. take (bt_seq_lens b ! i) (rp_req_to_token p' ! (ixs ! i)) =
         rq_prefix_indices (bt_reqs b ! i) @ split_lens (bt_extend_lens b) locs ! i) \<and>
      (\<forall>r < length (rp_req_to_token p). r \<notin> set ixs \<longrightarrow> rp_req_to_token p' ! r = rp_req_to_token p ! r)
    else alloc_for_extend env cfg strat pick token_methods b (RadixTree rx) p a = Inl RuntimeError"
proof -
  let ?rows = "rp_req_to_token p" and ?pre = "map rq_prefix_indices (bt_reqs b)" and ?p = "p\<lparr>rp_free_slots := drop bs (rp_free_slots p)\<rparr>"
  note alloc = alloc_token_slots_total[OF radix_run_ok[OF assms(1-3)] assms(2,4,5), of "bt_extend_num_tokens b" strat False]
  show ?thesis
  proof (cases "bs \<le> length (rp_free_slots p) \<and> int (bt_extend_num_tokens b) \<le> int (token_available_size a) + rm_evictable_size (rx_meta rx)")
    case False
    then show ?thesis using alloc assms(8,9,12)
      by (auto simp: alloc_for_extend_def free_out_of_window_def alloc_req_slots_def req_pool_alloc_def Let_def)
  next
    case True
    obtain locs st rx' a' where al: "alloc_token_slots cfg strat pick token_methods False (RadixTree rx) (bt_extend_num_tokens b) a = Inr (locs, st, RadixTree rx', a')"
      "length locs = bt_extend_num_tokens b" "slots_ok (tree_values (rx_root rx')) (locs @ priv) a'" "cache_kept H rx rx'"
      using alloc True by auto
    let ?seqs = "map2 (@) ?pre (split_lens (bt_extend_lens b) locs)"
    have ixs: "distinct ixs" "\<forall>i \<in> set ixs. i < length ?rows" "length ?pre = length ixs" "\<forall>row \<in> set ?rows. length row = rp_max_context_len p"
      using assms(6,12,13) True by (auto simp: pool_ok_def min.absorb2 dest: in_set_takeD)
    have "write_cache_indices (be_triton env) (be_attention_backend env) locs ixs (bt_prefix_lens b) (bt_seq_lens b) (bt_extend_lens b) ?pre ?p =
        Inr (?p\<lparr>rp_req_to_token := enter_rows ixs ?seqs ?rows\<rparr>)"
      using write_cache_rows[OF assms(7), of ?p] assms(10,11) al(2) ixs by simp
    then have run: "alloc_for_extend env cfg strat pick token_methods b (RadixTree rx) p a =
        Inr (locs, ixs, b, RadixTree rx', ?p\<lparr>rp_req_to_token := enter_rows ixs ?seqs ?rows\<rparr>, a')"
      using True assms(8,9,12,13) al(1) by (simp add: alloc_for_extend_def free_out_of_window_def alloc_req_slots_def req_pool_alloc_def Let_def)
    have lens: "length ?seqs = length ixs" "length (bt_extend_lens b) = bs" using assms(10,12) ixs(3) by (auto simp: batch_ok_def)
    note seq = batch_seq[OF assms(10), of _ locs, unfolded length_map, folded assms(12), OF _ al(2)[unfolded assms(11)]]
    have uni: "\<forall>row \<in> set (enter_rows ixs ?seqs ?rows). length row = rp_max_context_len p"
      using seq(2) lens(1) ixs(3) assms(12) by (intro entered_rows_length[OF ixs(4)]) (auto simp: in_set_conv_nth)
    have "take (bt_seq_lens b ! i) (enter_rows ixs ?seqs ?rows ! (ixs ! i)) = rq_prefix_indices (bt_reqs b ! i) @ split_lens (bt_extend_lens b) locs ! i"
      if i: "i < bs" for i
    proof -
      have "enter_rows ixs ?seqs ?rows ! (ixs ! i) = ?seqs ! i @ drop (length (?seqs ! i)) (?rows ! (ixs ! i))"
        using i ixs(2,3) assms(12) by (intro enter_rows_nth[OF ixs(1) lens(1)]) simp_all
      moreover have "?seqs ! i = rq_prefix_indices (bt_reqs b ! i) @ split_lens (bt_extend_lens b) locs ! i" using i lens assms(12) by simp
      ultimately show ?thesis using seq(1)[OF i] by (metis append_eq_conv_conj)
    qed
    moreover have "pool_ok (?p\<lparr>rp_req_to_token := enter_rows ixs ?seqs ?rows\<rparr>)"
      using assms(6) uni by (auto simp: pool_ok_def dest: in_set_dropD)
    moreover have "enter_rows ixs ?seqs ?rows ! r = ?rows ! r" if "r < length ?rows" "r \<notin> set ixs" for r by (rule enter_rows_other[OF that(1) lens(1) that(2)])
    ultimately show ?thesis using True run al(2-4) concat_split_lens[of locs "bt_extend_lens b"] assms(11) by (simp add: if_True)
  qed
qed

text \<open>
  (C11) Allocation for a decode batch, over the token allocator and the radix cache. It succeeds exactly when the free slots and the evictable tokens
  of the cache suffice for one slot per request, and raises otherwise. Each request finds its new slot in its row behind its tokens, and nothing else in the
  table changes; the new slots belong to nobody else, and nothing that is locked leaves the cache.
\<close>

theorem alloc_for_decode_correct:
  assumes "radix_run cfg strat pick rx H" and "heap_spec pick" and "0 < rc_page_size cfg" and "\<not> rc_disable cfg"
    and "slots_ok (tree_values (rx_root rx)) priv a" and "pool_ok p" and "be_page_size env = 1" and "be_evict_swa env = None" and "\<not> be_is_encoder_decoder env"
    and "ixs = bt_req_pool_indices b" and "distinct ixs" and "\<forall>i \<in> set ixs. i < length (rp_req_to_token p)"
    and "length (bt_seq_lens b) = length ixs" and "\<forall>n \<in> set (bt_seq_lens b). n < rp_max_context_len p"
  shows "if int (length ixs) \<le> int (token_available_size a) + rm_evictable_size (rx_meta rx)
    then \<exists>locs rx' p' a'. alloc_for_decode env cfg strat pick token_methods 1 b (RadixTree rx) p a = Inr (locs, b, RadixTree rx', p', a') \<and>
      length locs = length ixs \<and> slots_ok (tree_values (rx_root rx')) (locs @ priv) a' \<and> cache_kept H rx rx' \<and>
      (\<forall>i < length ixs. rp_req_to_token p' ! (ixs ! i) = (rp_req_to_token p ! (ixs ! i))[bt_seq_lens b ! i := locs ! i]) \<and>
      (\<forall>r < length (rp_req_to_token p). r \<notin> set ixs \<longrightarrow> rp_req_to_token p' ! r = rp_req_to_token p ! r)
    else alloc_for_decode env cfg strat pick token_methods 1 b (RadixTree rx) p a = Inl RuntimeError"
proof -
  note alloc = alloc_token_slots_total[OF radix_run_ok[OF assms(1-3)] assms(2,4,5), of "length ixs" strat False]
  show ?thesis
  proof (cases "int (length ixs) \<le> int (token_available_size a) + rm_evictable_size (rx_meta rx)")
    case False
    then show ?thesis using alloc assms(7,8,13) by (simp add: alloc_for_decode_def free_out_of_window_def Let_def)
  next
    case True
    obtain locs st rx' a' where al: "alloc_token_slots cfg strat pick token_methods False (RadixTree rx) (length ixs) a = Inr (locs, st, RadixTree rx', a')"
      "length locs = length ixs" "slots_ok (tree_values (rx_root rx')) (locs @ priv) a'" "cache_kept H rx rx'"
      using alloc True by auto
    let ?p = "p\<lparr>rp_req_to_token := enter_cells (zip ixs (zip (bt_seq_lens b) locs)) (rp_req_to_token p)\<rparr>"
    have "\<forall>row \<in> set (rp_req_to_token p). length row = rp_max_context_len p" using assms(6) by (simp add: pool_ok_def)
    then have "table_scatter ixs (bt_seq_lens b) locs p = Inr ?p" by (rule table_scatter_cells[OF assms(13) al(2) assms(11,12) _ assms(14)])
    then have "alloc_for_decode env cfg strat pick token_methods 1 b (RadixTree rx) p a = Inr (locs, b, RadixTree rx', ?p, a')"
      using al(1) assms(7-10,13) by (simp add: alloc_for_decode_def free_out_of_window_def Let_def)
    moreover have "rp_req_to_token ?p ! (ixs ! i) = (rp_req_to_token p ! (ixs ! i))[bt_seq_lens b ! i := locs ! i]" if "i < length ixs" for i
      using enter_cells_nth(1)[OF assms(13) al(2) assms(11) _ that refl] assms(12) that by simp
    moreover have "rp_req_to_token ?p ! r = rp_req_to_token p ! r" if "r < length (rp_req_to_token p)" "r \<notin> set ixs" for r
      using enter_cells_nth(2)[OF assms(13) al(2) assms(11) that] by simp
    ultimately show ?thesis using True al(2-4) by auto
  qed
qed

section \<open>An example\<close>

definition bt_env :: "allocator batch_env" where
  "bt_env = \<lparr>be_triton = example_triton, be_attention_backend = ''triton'', be_page_size = 1, be_evict_swa = None, be_is_encoder_decoder = False\<rparr>"

definition bt_example :: batch where
  "bt_example = \<lparr>bt_reqs = [rq_ex], bt_req_pool_indices = [0], bt_prefix_lens = [2], bt_extend_lens = [1], bt_seq_lens = [3],
     bt_extend_num_tokens = 1, bt_encoder_lens = []\<rparr>"

lemma bt_pool_ok: "pool_ok (req_pool_init 2 4)" "rp_max_context_len (req_pool_init 2 4) = 4" "rp_free_slots (req_pool_init 2 4) = [0, 1]"
  "rp_req_to_token (req_pool_init 2 4) = [[0, 0, 0, 0], [0, 0, 0, 0]]"
  by (simp_all add: pool_ok_def req_pool_init_def numeral_eq_Suc upt_rec)

lemma bt_enough: "int 1 \<le> int (token_available_size (rq_alloc [4, 5, 6])) + rm_evictable_size (rx_meta rq_rx2)"
  by code_simp

theorem alloc_for_extend_correct_witness:
  "\<exists>locs rx' p' a'. alloc_for_extend bt_env rq_cfg LRUStrategy first_least token_methods bt_example (RadixTree rq_rx2) (req_pool_init 2 4) (rq_alloc [4, 5, 6]) =
      Inr (locs, [0], bt_example, RadixTree rx', p', a') \<and>
    slots_ok (tree_values (rx_root rx')) (locs @ [3]) a' \<and> take 3 (rp_req_to_token p' ! 0) = [1, 2] @ locs \<and> rp_req_to_token p' ! 1 = [0, 0, 0, 0]"
proof -
  have own: "slots_ok (tree_values (rx_root rq_rx2)) [3] (rq_alloc [4, 5, 6])" unfolding rq_values by (rule rq_slots)
  have ok: "batch_ok (rp_max_context_len (req_pool_init 2 4)) (bt_prefix_lens bt_example) (bt_seq_lens bt_example) (bt_extend_lens bt_example)
      (map rq_prefix_indices (bt_reqs bt_example))" by (simp add: batch_ok_def bt_pool_ok bt_example_def rq_ex_def)
  have ps: "0 < rc_page_size rq_cfg" by (simp add: rq_cfg_simps)
  have env: "triton_ok (be_triton bt_env)" "be_page_size bt_env = 1" "be_evict_swa bt_env = None" using example_triton_ok(1) by (simp_all add: bt_env_def)
  have b: "bt_extend_num_tokens bt_example = sum_list (bt_extend_lens bt_example)" "1 = length (bt_reqs bt_example)" "[0] = take 1 (rp_free_slots (req_pool_init 2 4))"
    "bt_extend_num_tokens bt_example = 1" "bt_extend_lens bt_example = [1]" "bt_seq_lens bt_example = [3]" "rq_prefix_indices (bt_reqs bt_example ! 0) = [1, 2]"
    by (simp_all add: bt_example_def bt_pool_ok rq_ex_def)
  from alloc_for_extend_correct[OF rq_run2 first_least_spec ps rq_cfg_simps(2) own bt_pool_ok(1) env ok b(1,2,3)] bt_enough
  show ?thesis by (auto simp: b(4-7) bt_pool_ok(3,4))
qed

theorem alloc_for_decode_correct_witness:
  "\<exists>locs rx' p' a'. alloc_for_decode bt_env rq_cfg LRUStrategy first_least token_methods 1 bt_example (RadixTree rq_rx2) (req_pool_init 2 4) (rq_alloc [4, 5, 6]) =
      Inr (locs, bt_example, RadixTree rx', p', a') \<and>
    slots_ok (tree_values (rx_root rx')) (locs @ [3]) a' \<and> rp_req_to_token p' ! 0 = [0, 0, 0, locs ! 0] \<and> rp_req_to_token p' ! 1 = [0, 0, 0, 0]"
proof -
  have own: "slots_ok (tree_values (rx_root rq_rx2)) [3] (rq_alloc [4, 5, 6])" unfolding rq_values by (rule rq_slots)
  have ps: "0 < rc_page_size rq_cfg" by (simp add: rq_cfg_simps)
  have env: "be_page_size bt_env = 1" "be_evict_swa bt_env = None" "\<not> be_is_encoder_decoder bt_env" by (simp_all add: bt_env_def)
  have b: "[0] = bt_req_pool_indices bt_example" "distinct [0 :: nat]" "\<forall>i \<in> set [0]. i < length (rp_req_to_token (req_pool_init 2 4))"
    "length (bt_seq_lens bt_example) = length [0 :: nat]" "\<forall>n \<in> set (bt_seq_lens bt_example). n < rp_max_context_len (req_pool_init 2 4)"
    "bt_seq_lens bt_example = [3]" by (simp_all add: bt_example_def bt_pool_ok)
  from alloc_for_decode_correct[OF rq_run2 first_least_spec ps rq_cfg_simps(2) own bt_pool_ok(1) env b(1-5)] bt_enough
  show ?thesis by (auto simp: b(6) bt_pool_ok(4) numeral_3_eq_3)
qed

end
