(* ===== verification/Spec2Isabelle.thy ===== *)
theory Spec2Isabelle
  imports Pipeline Eplb_Manager Count_Matrix Recording_Service Aggregate Kv_Npu Batch_Slots
begin

text \<open>
  \<^bold>\<open>Verification of the DBES metric suite for mixture-of-experts models.\<close>

  \<^bold>\<open>The program.\<close> A modified SGLang server (\<^verbatim>\<open>src/sglang\<close>) runs a mixture-of-experts model. In every
  forward pass a recorder inside the server notes which experts each layer selects for each token, and
  a load balancer moves and replicates experts between GPUs according to the recorded counts. An
  inference client (\<^verbatim>\<open>src/preprocess\<close>) sends the prompts of a benchmark, stores the answers and asks the
  server for the records over HTTP. A post-processing script (\<^verbatim>\<open>src/metric/postprocess\<close>) aligns the records
  with the tokens of the answers and writes one JSON line per token; the metric scripts
  (\<^verbatim>\<open>src/metric/utils\<close>) read these lines, or count matrices made from them, and compute the metrics.
  Under the server, allocators hand the slots of the KV cache to the requests, and a radix tree keeps
  the slots of earlier requests for those that begin with the same tokens.

  The development follows the data: client, endpoints, recorder, expert location and balancing on
  the server side, then post-processing and metrics; the KV cache stands beside them.

  \<^bold>\<open>Theories and sources.\<close>

  \<^item> \<open>Prelude\<close>: Python values and control flow. A \<^verbatim>\<open>dict\<close> is an association list with distinct keys, an exception
    is a value of \<open>py_error\<close> on the left of a sum, a loop whose body may raise is \<open>fold_res\<close> or \<open>map_res\<close>,
    and indexing with the rules for negative indices is \<open>py_nth\<close>.
  \<^item> \<open>Host\<close>: JSON values with the dynamic look-ups of Python, strings and paths, and the file system, the
    network and the clock as an explicit state.
  \<^item> \<open>Infer\<close>: \<^verbatim>\<open>preprocess/infer_and_save.py\<close> and \<^verbatim>\<open>infer_backend.py\<close>. The manager is a record; \<open>process_single_source\<close> and
    \<open>run_batch_inference\<close> are state transformers.
  \<^item> \<open>Recording_Service\<close>: the recording routes of \<^verbatim>\<open>entrypoints/http_server.py\<close> with
    \<^verbatim>\<open>Scheduler.expert_distribution_handle\<close> behind them, and their composition with the client and the recorder.
  \<^item> \<open>Recorder_Buffers\<close>, \<open>Recorder\<close>: \<^verbatim>\<open>srt/eplb/expert_distribution.py\<close>; buffers and utilisation windows, then
    gatherers, accumulators and the recorder with its hooks.
  \<^item> \<open>Eplb_Base\<close>: the server arguments that the balancing code reads (\<^verbatim>\<open>server_args.py\<close>) and tensors as nested lists.
  \<^item> \<open>Expert_Location\<close>: \<^verbatim>\<open>srt/eplb/expert_location.py\<close> and \<^verbatim>\<open>expert_location_dispatch.py\<close>; the placement of logical experts on
    physical slots and the translation of expert ids.
  \<^item> \<open>Eplb_Algorithms\<close>, \<open>Eplb_Vec\<close>: \<^verbatim>\<open>eplb_algorithms/deepseek.py\<close> and \<^verbatim>\<open>deepseek_vec.py\<close>, the two balancers.
  \<^item> \<open>Eplb_Location\<close>: \<^verbatim>\<open>eplb_algorithms/__init__.py\<close>, \<^verbatim>\<open>elasticity_aware.py\<close> and \<^verbatim>\<open>init_by_eplb\<close>.
  \<^item> \<open>Updater\<close>, \<open>Update_Exchange\<close>: \<^verbatim>\<open>expert_location_updater.py\<close>; the weight exchange between the ranks.
  \<^item> \<open>Eplb_Manager\<close>: \<^verbatim>\<open>eplb_manager.py\<close> and the forward pass of \<^verbatim>\<open>model_executor/model_runner.py\<close> that drives it.
  \<^item> \<open>Postprocess\<close>: \<^verbatim>\<open>metric/postprocess/postprocessing_for_image_and_count.py\<close>.
  \<^item> \<open>Token_Records\<close>: the JSON lines between the post-processing and the metrics.
  \<^item> \<open>Expert_Metrics\<close>, \<open>Ngram_Statistics\<close>, \<open>Rss\<close>, \<open>Count_Matrix\<close>: \<^verbatim>\<open>compute_expert_metrics.py\<close>, \<^verbatim>\<open>n_gram_statistics.py\<close>,
    \<^verbatim>\<open>rss.py\<close> and \<^verbatim>\<open>process_count_matrix.py\<close> of \<^verbatim>\<open>metric/utils\<close>.
  \<^item> \<open>Result_Files\<close>: the main routines of the first three scripts with the files that they write.
  \<^item> \<open>Aggregate\<close>: \<^verbatim>\<open>aggregate_results.py\<close> and \<^verbatim>\<open>aggregate_expert_group_ngram.py\<close>, and the step of \<^verbatim>\<open>run_all_metrics.sh\<close> before them.
  \<^item> \<open>Pipeline\<close>: properties that span the post-processing and the metrics.
  \<^item> \<open>Kv_Allocator\<close>, \<open>Kv_Batch\<close>: \<^verbatim>\<open>srt/mem_cache/allocator.py\<close>; the token, sliding-window and paged allocators, then
    the Triton kernels by which the paged allocator serves a whole batch.
  \<^item> \<open>Kv_Npu\<close>: \<^verbatim>\<open>srt/hardware_backend/npu/allocator_npu.py\<close>, the paged allocator for NPUs with its loop in place of the kernel.
  \<^item> \<open>Radix_Cache\<close>, \<open>Radix_Evict\<close>: \<^verbatim>\<open>srt/mem_cache/radix_cache.py\<close> with \<^verbatim>\<open>evict_policy.py\<close> and the page hashes of
    \<^verbatim>\<open>hicache_storage.py\<close>; the tree with matching, insertion and events, then locks, eviction and the histories of a cache.
    A node is a value with its children in the order of the \<^verbatim>\<open>dict\<close>; references to nodes are their ids.
  \<^item> \<open>Radix_Request\<close>: the table of tokens (\<^verbatim>\<open>memory_pool.py\<close>), the life of a request in the radix cache and in the chunk cache
    (\<^verbatim>\<open>chunk_cache.py\<close>), and the allocation and release of slots (\<^verbatim>\<open>mem_cache/common.py\<close>).
  \<^item> \<open>Batch_Slots\<close>: the allocation for extend and decode batches of \<^verbatim>\<open>mem_cache/common.py\<close>, with the kernel and the loop that
    write the table of tokens.

  \<^bold>\<open>Conventions.\<close> Python integers are \<open>int\<close>, or \<open>nat\<close> where the code keeps them non-negative. Floating-point
  numbers are elements of a linearly ordered field, and real numbers where logarithms and square roots
  occur; rounding is not modelled. A value that can be NaN is an option. Every \<^verbatim>\<open>raise\<close>, failed assertion
  and run-time error of the modelled code is a branch that returns an error.

  Code outside the repository is an argument of the definitions that use it, and what the code
  relies on is a named hypothesis: the tokenizer, \<^verbatim>\<open>random\<close> and \<^verbatim>\<open>torch.randint\<close> (\<open>rng_spec\<close>), the sorting and arg-max
  functions of torch (\<open>torch_spec\<close>), the random generator and reductions of NumPy (\<open>choice_spec\<close>, \<open>uniform_spec\<close>,
  \<open>array_spec\<close>), logarithm, singular values and cosine similarity (\<open>sci_spec\<close>), point-to-point communication, the
  JSON library and HTTP (\<open>codec_ok\<close>, \<open>file_codec\<close>, \<open>endpoints_ok\<close>, \<open>answers_all\<close>), the order in which the programs of a Triton kernel store (\<open>triton_ok\<close>), the kernel of
  \<^verbatim>\<open>sgl_kernel_npu\<close>, the choice of \<^verbatim>\<open>heapq\<close> among least entries (\<open>heap_spec\<close>), SHA-256 and the clock of the nodes. Each is instantiated by a concrete function in an
  example, and the theorems that use it are applied there.

  \<^bold>\<open>Interfaces.\<close> The locale \<open>location_provider\<close> states what the constructors of the expert-location metadata
  promise to the dispatch code; it is interpreted on the mapping, trivial and EPLB constructors. The
  locale \<open>pass_buffer\<close> states what a buffer of passes promises to the accumulator; it is interpreted
  on the circular buffer, the growing buffer and the buffer that the recorder chooses. The locale
  \<open>slot_allocator\<close> states what an allocator of KV slots promises to its clients (slots come out once and
  come back), and \<open>free_group\<close> what the grouping of releases promises; both are interpreted on the token,
  paged and sliding-window allocators. Eviction from the radix cache is such a client: its properties are
  proved once in the locale and used for the token and the paged allocator.

  \<^bold>\<open>What is shown.\<close>

  \<^item> Client: a run answers every prompt that the output file does not answer yet, leaves the earlier
    answers in place, and a second run sends nothing; the batch covers all sources. With the modelled
    endpoints the client reports failures that did not happen, and a dump can overwrite another.
  \<^item> Recorder: after any interleaving of passes and requests the dumped counts are the sums over the passes
    since recording started, within the window; conversions of counts and utilisation rates.
  \<^item> Placement: every constructor yields a placement in which dispatching an expert id and reading the slot
    back gives the expert; fairness of the replica choice; updates switch whole layers.
  \<^item> Balancing: both balancers place every logical expert, fill every slot and return consistent
    tables; replication minimises the largest load per replica; elastic balancing avoids failed ranks. The placement from recorded counts is well
    formed for each of the five algorithms, under \<open>eplb_ok\<close>, which says that the sizes fit the algorithm.
  \<^item> Weight exchange: all ranks post matching operations and afterwards each slot holds the weights of
    the expert that the new placement names; the updater keeps weights and placement in step.
  \<^item> Manager: every call returns, and after the configured number of passes the placement is the one computed
    from the recorded counts. The generator is a state; its loop is a \<open>partial_function\<close> in the option
    monad, and that it yields is proved, not assumed.
  \<^item> Post-processing: the streaming path writes what the whole-file path would; requests are found by
    token ranges; heat-map counts; well-formedness of the converted records.
  \<^item> Metrics: weights, selections by threshold (minimal) and by number (optimal), routing ratios, sequences,
    n-gram statistics and transition matrices, margins and stability rates, divergence, diversity
    and isolation with their bounds, and the errors of the main routines.
  \<^item> Aggregation: the tables hold the means of the metrics that the scripts before them compute from the
    token records; the directories named in a shell script are read back.
  \<^item> KV allocators: over any history of calls no slot is handed out twice and none is lost; a batch allocation
    for decoding extends the page table of every request by a slot of its own. A program of the kernel for prefill stores exactly the slots of its
    request's page table, displaced by what the lanes it masks add to its sums, which Triton leaves open; where they cancel, as for a single request, the
    allocation extends every page table by slots of its own (\<open>alloc_extend_correct\<close>, whose hypothesis \<open>lanes_cancel\<close> says so). The loop for NPUs gives the slots of
    the page tables when every request fills the page that it has begun, and hands out slots twice otherwise; decoding on NPUs fails where the base
    class succeeds.
  \<^item> Radix cache: a match returns the longest cached prefix in whole pages, with the slots that were inserted for it; what
    has been inserted is found; after any history the counters are the sizes of the locked and of the free part of
    the tree; eviction frees each slot once, never one that a lock protects, and as much as is asked for if there is enough.
    Splitting a node announces the removal of each of its pages, with the hash of the page, although they stay.
  \<^item> Requests and batches: a slot belongs to the free list, to the tree or to one request, and finishing or caching
    a request keeps it so; a batch allocation succeeds exactly when free and evictable slots suffice, and enters the
    slots of every request into its row and no other, on every backend. The tokens that a request generates are not cached.

  \<^bold>\<open>Loops and bounds.\<close> Loops over collections are structural recursions or folds. Recursions that are not
  structural (\<open>chunks\<close> and the like) have termination proofs; no definition uses fuel.

  \<^bold>\<open>Not modelled.\<close> Drawing, printing, progress bars and command lines, which compute nothing that is stored; the
  models, kernels, attention backends and quantisation of SGLang, which are numerical GPU code; the scheduler,
  the memory pools that hold keys and values, the radix caches for sliding windows, Mamba models and several levels of memory, the front-end language, the HTTP framework and multimodal generation, which the metric
  suite uses without changing them.
\<close>

end
